(* ===== verification/Prelude.thy ===== *)
theory Prelude
  imports Main "HOL-Library.Word" "HOL-Library.Monad_Syntax"
begin

text \<open>
  Shared vocabulary of the development: C integers as \<open>int\<close> with the truncation of a
  store written out, assertion failures and memory faults as the value \<open>None\<close>, the
  alignment macros, block copies on arrays, and segments of circular arrays.
\<close>

unbundle bit_operations_syntax

named_theorems c_store "truncating stores of in-range values"
named_theorems ring "segments of circular arrays"

section \<open>C integers\<close>

text \<open>
  Values of a C expression are mathematical integers; a store into an unsigned field of
  \<open>w\<close> bits keeps the value modulo \<open>2 ^ w\<close>, a store into a signed one wraps in two's
  complement. The target is the 32-bit Arm configuration (\<^verbatim>\<open>USE_MA35_AARCH32\<close>), so
  \<^verbatim>\<open>rt_size_t\<close>, \<^verbatim>\<open>rt_ubase_t\<close> and \<^verbatim>\<open>rt_tick_t\<close> have 32 bits.
\<close>

type_synonym byte = "8 word"

definition u8 :: "int \<Rightarrow> int" where "u8 x = x mod 2 ^ 8"
definition u15 :: "int \<Rightarrow> int" where "u15 x = x mod 2 ^ 15"
definition u16 :: "int \<Rightarrow> int" where "u16 x = x mod 2 ^ 16"
definition u32 :: "int \<Rightarrow> int" where "u32 x = x mod 2 ^ 32"
definition s16 :: "int \<Rightarrow> int" where "s16 x = (x + 2 ^ 15) mod 2 ^ 16 - 2 ^ 15"
definition s32 :: "int \<Rightarrow> int" where "s32 x = (x + 2 ^ 31) mod 2 ^ 32 - 2 ^ 31"

lemma u8_id [c_store]: "0 \<le> x \<Longrightarrow> x < 256 \<Longrightarrow> u8 x = x"
  by (simp add: u8_def)

lemma u15_id [c_store]: "0 \<le> x \<Longrightarrow> x < 32768 \<Longrightarrow> u15 x = x"
  by (simp add: u15_def)

lemma u16_id [c_store]: "0 \<le> x \<Longrightarrow> x < 65536 \<Longrightarrow> u16 x = x"
  by (simp add: u16_def)

lemma u32_id [c_store]: "0 \<le> x \<Longrightarrow> x < 4294967296 \<Longrightarrow> u32 x = x"
  by (simp add: u32_def)

lemma s16_id [c_store]: "- 32768 \<le> x \<Longrightarrow> x < 32768 \<Longrightarrow> s16 x = x"
  by (simp add: s16_def)

lemma s32_id [c_store]: "- 2147483648 \<le> x \<Longrightarrow> x < 2147483648 \<Longrightarrow> s32 x = x"
  by (simp add: s32_def)

lemma u32_range [simp]: "0 \<le> u32 x" "u32 x < 4294967296"
  by (simp_all add: u32_def)

lemma u16_range [simp]: "0 \<le> u16 x" "u16 x < 65536"
  by (simp_all add: u16_def)

lemma u8_range [simp]: "0 \<le> u8 x" "u8 x < 256"
  by (simp_all add: u8_def)

section \<open>Assertions\<close>

text \<open>\<^verbatim>\<open>RT_DEBUG\<close> is set in \<^verbatim>\<open>rtconfig.h\<close>, so a failing \<^verbatim>\<open>RT_ASSERT\<close> stops the system:
  the operation has no result.\<close>

definition RT_ASSERT :: "bool \<Rightarrow> unit option" where
  "RT_ASSERT b = (if b then Some () else None)"

lemma RT_ASSERT_simps [simp]:
  "RT_ASSERT True = Some ()" "RT_ASSERT False = None"
  "(RT_ASSERT b = Some u) = b" "(RT_ASSERT b = None) = (\<not> b)"
  by (simp_all add: RT_ASSERT_def)

lemma RT_ASSERT_bind [simp]: "b \<Longrightarrow> Option.bind (RT_ASSERT b) f = f ()"
  by simp

section \<open>Alignment macros\<close>

definition RT_ALIGN_SIZE :: int where "RT_ALIGN_SIZE = 32"

definition RT_ALIGN_DOWN :: "int \<Rightarrow> int \<Rightarrow> int" where
  "RT_ALIGN_DOWN sz align = sz AND NOT (align - 1)"

text \<open>\<^verbatim>\<open>RT_ALIGN\<close> is used on \<^verbatim>\<open>rt_size_t\<close> and \<^verbatim>\<open>rt_ubase_t\<close> operands only: its addition is
  done in 32 unsigned bits.\<close>

definition RT_ALIGN :: "int \<Rightarrow> int \<Rightarrow> int" where
  "RT_ALIGN sz align = u32 (sz + align - 1) AND NOT (align - 1)"

lemma and_not_31: "x AND NOT 31 = 32 * (x div 32)" for x :: int
proof -
  have "x AND NOT 31 = push_bit 5 (drop_bit 5 x)"
  proof (rule bit_eqI)
    fix n
    have "bit (31 :: int) n = (n < 5)"
      using bit_mask_iff [of 5 n, where ?'a = int] by (simp add: mask_eq_exp_minus_1)
    then show "bit (x AND NOT 31) n = bit (push_bit 5 (drop_bit 5 x)) n"
      by (auto simp: bit_simps)
  qed
  then show ?thesis
    by (simp add: push_bit_eq_mult drop_bit_eq_div)
qed

lemma and_minus_32: "x AND - 32 = 32 * (x div 32)" for x :: int
  using and_not_31 [of x] by simp

lemma RT_ALIGN_DOWN_32: "RT_ALIGN_DOWN x RT_ALIGN_SIZE = 32 * (x div 32)"
  by (simp add: RT_ALIGN_DOWN_def RT_ALIGN_SIZE_def and_minus_32)

lemma RT_ALIGN_32: "RT_ALIGN x RT_ALIGN_SIZE = 32 * (u32 (x + 31) div 32)"
  by (simp add: RT_ALIGN_def RT_ALIGN_SIZE_def and_minus_32 add.commute)

lemma RT_ALIGN_bounds:
  assumes "0 \<le> x" "x < 4294967265"
  shows "x \<le> RT_ALIGN x RT_ALIGN_SIZE" "RT_ALIGN x RT_ALIGN_SIZE < x + 32"
    "RT_ALIGN x RT_ALIGN_SIZE mod 32 = 0"
proof -
  have "RT_ALIGN x RT_ALIGN_SIZE = 32 * ((x + 31) div 32)"
    using assms by (simp add: RT_ALIGN_32 u32_id)
  then show "x \<le> RT_ALIGN x RT_ALIGN_SIZE" "RT_ALIGN x RT_ALIGN_SIZE < x + 32"
    "RT_ALIGN x RT_ALIGN_SIZE mod 32 = 0"
    by presburger+
qed

section \<open>Arrays\<close>

text \<open>
  \<open>rt_memcpy dst d src s n\<close> copies \<open>n\<close> elements from index \<open>s\<close> of \<open>src\<close> to index \<open>d\<close>
  of \<open>dst\<close>; an access outside either array is a fault.
\<close>

definition rt_memcpy :: "'a list \<Rightarrow> int \<Rightarrow> 'a list \<Rightarrow> int \<Rightarrow> int \<Rightarrow> 'a list option" where
  "rt_memcpy dst d src s n =
     (if 0 \<le> d \<and> 0 \<le> s \<and> 0 \<le> n \<and> d + n \<le> int (length dst) \<and> s + n \<le> int (length src)
      then Some (take (nat d) dst @ take (nat n) (drop (nat s) src) @ drop (nat (d + n)) dst)
      else None)"

definition store_at :: "'a list \<Rightarrow> int \<Rightarrow> 'a \<Rightarrow> 'a list option" where
  "store_at xs i v = (if 0 \<le> i \<and> i < int (length xs) then Some (xs[nat i := v]) else None)"

definition load_at :: "'a list \<Rightarrow> int \<Rightarrow> 'a option" where
  "load_at xs i = (if 0 \<le> i \<and> i < int (length xs) then Some (xs ! nat i) else None)"

lemma rt_memcpy_length: "rt_memcpy dst d src s n = Some r \<Longrightarrow> length r = length dst"
  by (auto simp: rt_memcpy_def split: if_splits)

lemma rt_memcpy_Some_iff:
  "(\<exists>r. rt_memcpy dst d src s n = Some r) \<longleftrightarrow>
     0 \<le> d \<and> 0 \<le> s \<and> 0 \<le> n \<and> d + n \<le> int (length dst) \<and> s + n \<le> int (length src)"
  by (auto simp: rt_memcpy_def)

section \<open>Segments of circular arrays\<close>

text \<open>The \<open>n\<close> elements of the array \<open>b\<close> that start at index \<open>s\<close> and wrap at its end.\<close>

definition ring_seg :: "'a list \<Rightarrow> nat \<Rightarrow> nat \<Rightarrow> 'a list" where
  "ring_seg b s n = map (\<lambda>i. b ! ((s + i) mod length b)) [0..<n]"

lemma length_ring_seg [simp, ring]: "length (ring_seg b s n) = n"
  by (simp add: ring_seg_def)

lemma ring_seg_0 [simp, ring]: "ring_seg b s 0 = []"
  by (simp add: ring_seg_def)

lemma nth_ring_seg [simp, ring]: "i < n \<Longrightarrow> ring_seg b s n ! i = b ! ((s + i) mod length b)"
  by (simp add: ring_seg_def)

lemma ring_seg_mod [ring]: "ring_seg b (s mod length b) n = ring_seg b s n"
  by (rule nth_equalityI) (simp_all add: mod_add_left_eq)

lemma ring_seg_add [ring]: "ring_seg b s (m + n) = ring_seg b s m @ ring_seg b (s + m) n"
  by (rule nth_equalityI) (auto simp: nth_append add.assoc)

lemma take_ring_seg [ring]: "m \<le> n \<Longrightarrow> take m (ring_seg b s n) = ring_seg b s m"
  by (rule nth_equalityI) auto

lemma drop_ring_seg [ring]: "m \<le> n \<Longrightarrow> drop m (ring_seg b s n) = ring_seg b (s + m) (n - m)"
  by (rule nth_equalityI) (auto simp: add.assoc)

text \<open>A segment that does not wrap is a plain slice.\<close>

lemma ring_seg_slice [ring]: "s + n \<le> length b \<Longrightarrow> ring_seg b s n = take n (drop s b)"
  by (rule nth_equalityI) auto

lemma ring_seg_wrap [ring]:
  assumes "s < length b" "length b \<le> s + n" "n \<le> length b"
  shows "ring_seg b s n = drop s b @ take (s + n - length b) b"
proof -
  have "ring_seg b s n = ring_seg b s (length b - s) @ ring_seg b (s + (length b - s)) (n - (length b - s))"
    using assms by (subst ring_seg_add [symmetric]) simp
  also have "ring_seg b s (length b - s) = drop s b"
    using assms by (simp add: ring_seg_slice)
  also have "ring_seg b (s + (length b - s)) (n - (length b - s)) = take (s + n - length b) b"
  proof -
    have "ring_seg b (s + (length b - s)) (n - (length b - s)) = ring_seg b 0 (n - (length b - s))"
      using assms ring_seg_mod [of b "length b" "n - (length b - s)"] by simp
    also have "\<dots> = take (s + n - length b) b"
      using assms by (subst ring_seg_slice) (auto simp: algebra_simps)
    finally show ?thesis .
  qed
  finally show ?thesis .
qed

text \<open>
  Writing \<open>xs\<close> at index \<open>w\<close>, in one piece or in two when it wraps, and what a segment
  reads afterwards.
\<close>

definition ring_write :: "'a list \<Rightarrow> nat \<Rightarrow> 'a list \<Rightarrow> 'a list" where
  "ring_write b w xs =
     (if w + length xs \<le> length b then take w b @ xs @ drop (w + length xs) b
      else drop (length b - w) xs @
           drop (length xs - (length b - w)) (take w b) @ take (length b - w) xs)"

lemma length_ring_write [simp, ring]:
  "w \<le> length b \<Longrightarrow> length xs \<le> length b \<Longrightarrow> length (ring_write b w xs) = length b"
  by (auto simp: ring_write_def)

lemma ring_write_nth:
  assumes "w < length b" "length xs \<le> length b" "j < length xs"
  shows "ring_write b w xs ! ((w + j) mod length b) = xs ! j"
proof (cases "w + j < length b")
  case True
  then show ?thesis
    using assms by (auto simp: ring_write_def nth_append min_def)
next
  case False
  then have m: "(w + j) mod length b = w + j - length b"
    using assms by (simp add: le_mod_geq)
  show ?thesis
    using assms False unfolding m by (auto simp: ring_write_def nth_append)
qed

lemma ring_write_nth_other:
  assumes "w < length b" "length xs \<le> j" "j < length b"
  shows "ring_write b w xs ! ((w + j) mod length b) = b ! ((w + j) mod length b)"
proof (cases "w + j < length b")
  case True
  then show ?thesis
    using assms by (auto simp: ring_write_def nth_append)
next
  case False
  then have m: "(w + j) mod length b = w + j - length b"
    using assms by (simp add: le_mod_geq)
  show ?thesis
  proof (cases "w + length xs \<le> length b")
    case True
    then show ?thesis
      using assms False unfolding m by (auto simp: ring_write_def nth_append)
  next
    case wrap: False
    then show ?thesis
      using assms False unfolding m by (auto simp: ring_write_def nth_append)
  qed
qed

lemma ring_write_other [ring]:
  assumes "s < length b" "n + length xs \<le> length b" "w = (s + n) mod length b"
  shows "ring_seg (ring_write b w xs) s n = ring_seg b s n"
proof -
  have w: "w < length b" using assms by (cases "length b") auto
  show ?thesis
  proof (rule nth_equalityI)
    fix i assume "i < length (ring_seg (ring_write b w xs) s n)"
    then have i: "i < n" by simp
    have eq: "(w + (length b - n + i)) mod length b = (s + i) mod length b"
    proof -
      have "(w + (length b - n + i)) mod length b = (s + n + (length b - n + i)) mod length b"
        unfolding assms(3) by (simp add: mod_add_left_eq)
      also have "s + n + (length b - n + i) = s + i + length b"
        using assms(2) by simp
      finally show ?thesis by simp
    qed
    have "ring_write b w xs ! ((s + i) mod length b) = b ! ((s + i) mod length b)"
      using ring_write_nth_other [OF w, of xs "length b - n + i"] assms i unfolding eq by auto
    then show "ring_seg (ring_write b w xs) s n ! i = ring_seg b s n ! i"
      using i w assms by simp
  qed simp
qed

lemma ring_write_append [ring]:
  assumes "s < length b" "n + length xs \<le> length b" "w = (s + n) mod length b"
  shows "ring_seg (ring_write b w xs) s (n + length xs) = ring_seg b s n @ xs"
proof -
  have w: "w < length b" using assms by (cases "length b") auto
  have len: "length (ring_write b w xs) = length b"
    using assms w by simp
  have "ring_seg (ring_write b w xs) (s + n) (length xs) = xs"
  proof (rule nth_equalityI)
    fix i assume "i < length (ring_seg (ring_write b w xs) (s + n) (length xs))"
    then have i: "i < length xs" by simp
    then have "ring_seg (ring_write b w xs) (s + n) (length xs) ! i =
        ring_write b w xs ! ((w + i) mod length b)"
      using assms len by (simp add: mod_add_left_eq)
    then show "ring_seg (ring_write b w xs) (s + n) (length xs) ! i = xs ! i"
      using ring_write_nth [OF w _ i] assms by simp
  qed simp
  then show ?thesis
    using ring_write_other [OF assms] by (simp add: ring_seg_add)
qed

end
