(* ===== verification/Fifo.thy ===== *)
theory Fifo
  imports Prelude
begin

text \<open>
  The contract of a bounded first-in first-out byte channel, as the drivers of the system
  use one: a transfer in takes as many elements as fit, a transfer out delivers as many as
  are stored, neither faults, and nothing is lost, duplicated or reordered over any
  sequence of transfers.
\<close>

datatype 'a fifo_op = FPut "'a list" | FGet "'a list"

text \<open>
  A sequence of transfers from a state: the elements accepted by the \<open>FPut\<close>s, the
  elements delivered by the \<open>FGet\<close>s (each into a buffer of the caller), the last state.
\<close>

fun fifo_run :: "('q \<Rightarrow> 'a list \<Rightarrow> int \<Rightarrow> (int \<times> 'q) option) \<Rightarrow>
    ('q \<Rightarrow> 'a list \<Rightarrow> int \<Rightarrow> (int \<times> 'a list \<times> 'q) option) \<Rightarrow>
    'a fifo_op list \<Rightarrow> 'q \<Rightarrow> ('a list \<times> 'a list \<times> 'q) option" where
  "fifo_run put get [] q = Some ([], [], q)"
| "fifo_run put get (FPut xs # ops) q =
     (case put q xs (int (length xs)) of None \<Rightarrow> None
      | Some (k, q1) \<Rightarrow>
         (case fifo_run put get ops q1 of None \<Rightarrow> None
          | Some (ins, outs, q2) \<Rightarrow> Some (take (nat k) xs @ ins, outs, q2)))"
| "fifo_run put get (FGet buf # ops) q =
     (case get q buf (int (length buf)) of None \<Rightarrow> None
      | Some (k, p, q1) \<Rightarrow>
         (case fifo_run put get ops q1 of None \<Rightarrow> None
          | Some (ins, outs, q2) \<Rightarrow> Some (ins, take (nat k) p @ outs, q2)))"

locale bounded_fifo =
  fixes inv :: "'q \<Rightarrow> bool"
    and list :: "'q \<Rightarrow> 'a list"
    and cap :: "'q \<Rightarrow> nat"
    and put :: "'q \<Rightarrow> 'a list \<Rightarrow> int \<Rightarrow> (int \<times> 'q) option"
    and get :: "'q \<Rightarrow> 'a list \<Rightarrow> int \<Rightarrow> (int \<times> 'a list \<times> 'q) option"
  assumes bounded: "inv q \<Longrightarrow> length (list q) \<le> cap q"
    and put_law: "inv q \<Longrightarrow> n \<le> length xs \<Longrightarrow> k = min n (cap q - length (list q)) \<Longrightarrow>
      \<exists>q'. put q xs (int n) = Some (int k, q') \<and> inv q' \<and> cap q' = cap q \<and>
        list q' = list q @ take k xs"
    and get_law: "inv q \<Longrightarrow> n \<le> length buf \<Longrightarrow> k = min n (length (list q)) \<Longrightarrow>
      \<exists>q'. get q buf (int n) = Some (int k, take k (list q) @ drop k buf, q') \<and> inv q' \<and>
        cap q' = cap q \<and> list q' = drop k (list q)"
begin

lemma put_get_roundtrip:
  assumes "inv q" "list q = []" "length xs \<le> cap q" "length buf = length xs"
  shows "\<exists>q1 q2. put q xs (int (length xs)) = Some (int (length xs), q1) \<and>
    get q1 buf (int (length buf)) = Some (int (length xs), xs, q2) \<and> inv q2 \<and> list q2 = []"
proof -
  obtain q1 where q1: "put q xs (int (length xs)) = Some (int (length xs), q1)" "inv q1"
      "list q1 = xs"
    using put_law [OF assms(1) le_refl, of "length xs" xs] assms(2,3) by auto
  then obtain q2 where "get q1 buf (int (length buf)) = Some (int (length xs), xs, q2)"
      "inv q2" "list q2 = []"
    using get_law [OF q1(2) le_refl, of "length xs" buf] assms(4) by auto
  with q1 show ?thesis by blast
qed

theorem run_fifo:
  "inv q \<Longrightarrow> \<exists>ins outs q'. fifo_run put get ops q = Some (ins, outs, q') \<and> inv q' \<and>
     cap q' = cap q \<and> list q @ ins = outs @ list q'"
proof (induction ops arbitrary: q)
  case Nil
  then show ?case by simp
next
  case (Cons x ops)
  show ?case
  proof (cases x)
    case (FPut xs)
    define k where "k = min (length xs) (cap q - length (list q))"
    obtain q1 where q1: "put q xs (int (length xs)) = Some (int k, q1)" "inv q1" "cap q1 = cap q"
        "list q1 = list q @ take k xs"
      using put_law [OF Cons.prems, of "length xs" xs k] by (auto simp: k_def)
    show ?thesis
      using Cons.IH [OF q1(2)] q1 by (auto simp: FPut)
  next
    case (FGet buf)
    define k where "k = min (length buf) (length (list q))"
    obtain q1 where q1: "get q buf (int (length buf)) = Some (int k, take k (list q) @ drop k buf, q1)"
        "inv q1" "cap q1 = cap q" "list q1 = drop k (list q)"
      using get_law [OF Cons.prems, of "length buf" buf k] by (auto simp: k_def)
    obtain ins outs q2 where q2: "fifo_run put get ops q1 = Some (ins, outs, q2)" "inv q2"
        "cap q2 = cap q" "drop k (list q) @ ins = outs @ list q2"
      using Cons.IH [OF q1(2)] q1(3,4) by auto
    have "length (take k (list q)) = k" by (simp add: k_def)
    then have "fifo_run put get (x # ops) q = Some (ins, take k (list q) @ outs, q2)"
      by (simp add: FGet q1(1) q2(1))
    moreover have "list q @ ins = (take k (list q) @ outs) @ list q2"
      using q2(4) by (metis append.assoc append_take_drop_id)
    ultimately show ?thesis
      using q2(2,3) by blast
  qed
qed

end

end
