(* ===== verification/Ringbuffer.thy ===== *)
theory Ringbuffer
  imports Fifo
begin

text \<open>
  The byte ring buffer of \<^verbatim>\<open>rt-thread/components/drivers/ipc/ringbuffer.c\<close>: one definition
  per function of the file, the invariant between the two mirrored indices, and the
  refinement to a bounded first-in first-out list of bytes.
\<close>

section \<open>State and operations\<close>

text \<open>
  \<^verbatim>\<open>struct rt_ringbuffer\<close>. The array behind \<^verbatim>\<open>buffer_ptr\<close> is the list of its bytes. The
  mirror bits are one-bit fields, so \<^verbatim>\<open>~\<close> on them is negation; the indices have 15 bits and
  \<^verbatim>\<open>buffer_size\<close> is a signed 16-bit integer.
\<close>

record rt_ringbuffer =
  buffer_ptr :: "byte list"
  read_mirror :: bool
  read_index :: int
  write_mirror :: bool
  write_index :: int
  buffer_size :: int

datatype rt_ringbuffer_state =
  RT_RINGBUFFER_EMPTY | RT_RINGBUFFER_FULL | RT_RINGBUFFER_HALFFULL

definition rt_ringbuffer_status :: "rt_ringbuffer \<Rightarrow> rt_ringbuffer_state" where
  "rt_ringbuffer_status rb =
     (if read_index rb = write_index rb then
        (if read_mirror rb = write_mirror rb then RT_RINGBUFFER_EMPTY else RT_RINGBUFFER_FULL)
      else RT_RINGBUFFER_HALFFULL)"

definition rt_ringbuffer_init :: "byte list \<Rightarrow> int \<Rightarrow> rt_ringbuffer option" where
  "rt_ringbuffer_init pool sz = do {
     RT_ASSERT (sz > 0);
     Some \<lparr>buffer_ptr = pool, read_mirror = False, read_index = 0, write_mirror = False,
           write_index = 0, buffer_size = s16 (RT_ALIGN_DOWN sz RT_ALIGN_SIZE)\<rparr>
   }"

definition rt_ringbuffer_data_len :: "rt_ringbuffer \<Rightarrow> int" where
  "rt_ringbuffer_data_len rb =
     (case rt_ringbuffer_status rb of
        RT_RINGBUFFER_EMPTY \<Rightarrow> 0
      | RT_RINGBUFFER_FULL \<Rightarrow> u32 (buffer_size rb)
      | RT_RINGBUFFER_HALFFULL \<Rightarrow>
          (let wi = write_index rb; ri = read_index rb in
           if wi > ri then u32 (wi - ri) else u32 (buffer_size rb - (ri - wi))))"

definition rt_ringbuffer_space_len :: "rt_ringbuffer \<Rightarrow> int" where
  "rt_ringbuffer_space_len rb = buffer_size rb - s16 (rt_ringbuffer_data_len rb)"

definition rt_ringbuffer_get_size :: "rt_ringbuffer \<Rightarrow> int" where
  "rt_ringbuffer_get_size rb = u16 (buffer_size rb)"

text \<open>\<open>ptr\<close> is the caller's array. The functions return the count and the new state.\<close>

definition rt_ringbuffer_put :: "rt_ringbuffer \<Rightarrow> byte list \<Rightarrow> int \<Rightarrow> (int \<times> rt_ringbuffer) option" where
  "rt_ringbuffer_put rb ptr len0 =
     (let sz = u16 (rt_ringbuffer_space_len rb) in
      if sz = 0 then Some (0, rb)
      else
        let len = (if sz < len0 then sz else len0) in
        if buffer_size rb - write_index rb > len then do {
          b \<leftarrow> rt_memcpy (buffer_ptr rb) (write_index rb) ptr 0 len;
          Some (len, rb\<lparr>buffer_ptr := b, write_index := u15 (write_index rb + len)\<rparr>)
        }
        else do {
          b1 \<leftarrow> rt_memcpy (buffer_ptr rb) (write_index rb) ptr 0 (buffer_size rb - write_index rb);
          b2 \<leftarrow> rt_memcpy b1 0 ptr (buffer_size rb - write_index rb)
                 (len - (buffer_size rb - write_index rb));
          Some (len, rb\<lparr>buffer_ptr := b2, write_mirror := \<not> write_mirror rb,
                        write_index := u15 (len - (buffer_size rb - write_index rb))\<rparr>)
        })"

definition rt_ringbuffer_put_force :: "rt_ringbuffer \<Rightarrow> byte list \<Rightarrow> int \<Rightarrow> (int \<times> rt_ringbuffer) option" where
  "rt_ringbuffer_put_force rb ptr0 len0 =
     (let space_length = u16 (rt_ringbuffer_space_len rb);
          off = (if len0 > buffer_size rb then len0 - buffer_size rb else 0);
          len = (if len0 > buffer_size rb then buffer_size rb else len0) in
      if buffer_size rb - write_index rb > len then do {
        b \<leftarrow> rt_memcpy (buffer_ptr rb) (write_index rb) ptr0 off len;
        let wi = u15 (write_index rb + len);
        Some (len, rb\<lparr>buffer_ptr := b, write_index := wi,
                      read_index := (if len > space_length then wi else read_index rb)\<rparr>)
      }
      else do {
        b1 \<leftarrow> rt_memcpy (buffer_ptr rb) (write_index rb) ptr0 off (buffer_size rb - write_index rb);
        b2 \<leftarrow> rt_memcpy b1 0 ptr0 (off + (buffer_size rb - write_index rb))
               (len - (buffer_size rb - write_index rb));
        let wi = u15 (len - (buffer_size rb - write_index rb));
        let rb1 = rb\<lparr>buffer_ptr := b2, write_mirror := \<not> write_mirror rb, write_index := wi\<rparr>;
        Some (len,
          if len > space_length then
            rb1\<lparr>read_mirror := (if wi \<le> read_index rb then \<not> read_mirror rb else read_mirror rb),
                read_index := wi\<rparr>
          else rb1)
      })"

definition rt_ringbuffer_get :: "rt_ringbuffer \<Rightarrow> byte list \<Rightarrow> int \<Rightarrow> (int \<times> byte list \<times> rt_ringbuffer) option" where
  "rt_ringbuffer_get rb ptr len0 =
     (let sz = rt_ringbuffer_data_len rb in
      if sz = 0 then Some (0, ptr, rb)
      else
        let len = (if sz < len0 then u16 sz else len0) in
        if buffer_size rb - read_index rb > len then do {
          p \<leftarrow> rt_memcpy ptr 0 (buffer_ptr rb) (read_index rb) len;
          Some (len, p, rb\<lparr>read_index := u15 (read_index rb + len)\<rparr>)
        }
        else do {
          p1 \<leftarrow> rt_memcpy ptr 0 (buffer_ptr rb) (read_index rb) (buffer_size rb - read_index rb);
          p2 \<leftarrow> rt_memcpy p1 (buffer_size rb - read_index rb) (buffer_ptr rb) 0
                 (len - (buffer_size rb - read_index rb));
          Some (len, p2, rb\<lparr>read_mirror := \<not> read_mirror rb,
                            read_index := u15 (len - (buffer_size rb - read_index rb))\<rparr>)
        })"

text \<open>\<^verbatim>\<open>rt_ringbuffer_peek\<close> yields the position of the first readable byte, or \<open>None\<close> for
  \<^verbatim>\<open>RT_NULL\<close>, and consumes the contiguous part it returns the size of.\<close>

definition rt_ringbuffer_peek :: "rt_ringbuffer \<Rightarrow> int \<times> int option \<times> rt_ringbuffer" where
  "rt_ringbuffer_peek rb =
     (let sz = rt_ringbuffer_data_len rb in
      if sz = 0 then (0, None, rb)
      else if u32 (buffer_size rb - read_index rb) > sz then
        (sz, Some (read_index rb), rb\<lparr>read_index := u15 (read_index rb + u16 sz)\<rparr>)
      else
        (u32 (buffer_size rb - read_index rb), Some (read_index rb),
         rb\<lparr>read_mirror := \<not> read_mirror rb, read_index := 0\<rparr>))"

definition rt_ringbuffer_putchar :: "rt_ringbuffer \<Rightarrow> byte \<Rightarrow> (int \<times> rt_ringbuffer) option" where
  "rt_ringbuffer_putchar rb ch =
     (if rt_ringbuffer_space_len rb = 0 then Some (0, rb)
      else do {
        b \<leftarrow> store_at (buffer_ptr rb) (write_index rb) ch;
        if write_index rb = buffer_size rb - 1 then
          Some (1, rb\<lparr>buffer_ptr := b, write_mirror := \<not> write_mirror rb, write_index := 0\<rparr>)
        else Some (1, rb\<lparr>buffer_ptr := b, write_index := u15 (write_index rb + 1)\<rparr>)
      })"

definition rt_ringbuffer_putchar_force :: "rt_ringbuffer \<Rightarrow> byte \<Rightarrow> (int \<times> rt_ringbuffer) option" where
  "rt_ringbuffer_putchar_force rb ch = do {
     let old_state = rt_ringbuffer_status rb;
     b \<leftarrow> store_at (buffer_ptr rb) (write_index rb) ch;
     if write_index rb = buffer_size rb - 1 then
       let rb1 = rb\<lparr>buffer_ptr := b, write_mirror := \<not> write_mirror rb, write_index := 0\<rparr> in
       Some (1, if old_state = RT_RINGBUFFER_FULL
                then rb1\<lparr>read_mirror := \<not> read_mirror rb, read_index := 0\<rparr> else rb1)
     else
       let wi = u15 (write_index rb + 1); rb1 = rb\<lparr>buffer_ptr := b, write_index := wi\<rparr> in
       Some (1, if old_state = RT_RINGBUFFER_FULL then rb1\<lparr>read_index := wi\<rparr> else rb1)
   }"

definition rt_ringbuffer_getchar :: "rt_ringbuffer \<Rightarrow> (int \<times> byte option \<times> rt_ringbuffer) option" where
  "rt_ringbuffer_getchar rb =
     (if rt_ringbuffer_data_len rb = 0 then Some (0, None, rb)
      else do {
        ch \<leftarrow> load_at (buffer_ptr rb) (read_index rb);
        if read_index rb = buffer_size rb - 1 then
          Some (1, Some ch, rb\<lparr>read_mirror := \<not> read_mirror rb, read_index := 0\<rparr>)
        else Some (1, Some ch, rb\<lparr>read_index := u15 (read_index rb + 1)\<rparr>)
      })"

definition rt_ringbuffer_reset :: "rt_ringbuffer \<Rightarrow> rt_ringbuffer" where
  "rt_ringbuffer_reset rb =
     rb\<lparr>read_mirror := False, read_index := 0, write_mirror := False, write_index := 0\<rparr>"

section \<open>Invariant and abstraction\<close>

text \<open>
  The indices lie in the array; in the same mirror the writer is not behind the reader, in
  opposite mirrors it is not ahead of it.
\<close>

definition rb_inv :: "rt_ringbuffer \<Rightarrow> bool" where
  "rb_inv rb \<longleftrightarrow>
     0 < buffer_size rb \<and> buffer_size rb < 32768 \<and> int (length (buffer_ptr rb)) = buffer_size rb \<and>
     0 \<le> read_index rb \<and> read_index rb < buffer_size rb \<and>
     0 \<le> write_index rb \<and> write_index rb < buffer_size rb \<and>
     (if read_mirror rb = write_mirror rb then read_index rb \<le> write_index rb
      else write_index rb \<le> read_index rb)"

text \<open>The bytes stored, oldest first.\<close>

definition rb_list :: "rt_ringbuffer \<Rightarrow> byte list" where
  "rb_list rb = ring_seg (buffer_ptr rb) (nat (read_index rb)) (nat (rt_ringbuffer_data_len rb))"

definition rb_cap :: "rt_ringbuffer \<Rightarrow> nat" where
  "rb_cap rb = nat (buffer_size rb)"

text \<open>The same invariant by the position of the reader and the fill level.\<close>

definition rb_at :: "rt_ringbuffer \<Rightarrow> nat \<Rightarrow> nat \<Rightarrow> bool" where
  "rb_at rb r d \<longleftrightarrow>
     (let n = length (buffer_ptr rb) in
      n < 32768 \<and> buffer_size rb = int n \<and> r < n \<and> d \<le> n \<and> read_index rb = int r \<and>
      write_index rb = int (if r + d < n then r + d else r + d - n) \<and>
      (write_mirror rb \<noteq> read_mirror rb \<longleftrightarrow> n \<le> r + d))"

lemma rb_at_data_len: "rb_at rb r d \<Longrightarrow> rt_ringbuffer_data_len rb = int d"
  by (auto simp: rb_at_def rt_ringbuffer_data_len_def rt_ringbuffer_status_def Let_def
      c_store split: if_splits)

lemma rb_at_space_len:
  "rb_at rb r d \<Longrightarrow> rt_ringbuffer_space_len rb = int (length (buffer_ptr rb) - d)"
  by (auto simp: rt_ringbuffer_space_len_def rb_at_data_len) (auto simp: rb_at_def Let_def c_store)

lemma rb_at_list: "rb_at rb r d \<Longrightarrow> rb_list rb = ring_seg (buffer_ptr rb) r d"
  by (auto simp: rb_list_def rb_at_data_len) (auto simp: rb_at_def Let_def)

lemma rb_at_cap: "rb_at rb r d \<Longrightarrow> rb_cap rb = length (buffer_ptr rb)"
  by (auto simp: rb_cap_def rb_at_def Let_def)

lemma rb_at_inv: "rb_at rb r d \<Longrightarrow> rb_inv rb"
  by (auto simp: rb_at_def rb_inv_def Let_def split: if_splits)

lemma rb_inv_at:
  assumes "rb_inv rb"
  shows "rb_at rb (nat (read_index rb))
           (nat (if read_mirror rb = write_mirror rb then write_index rb - read_index rb
                 else buffer_size rb - (read_index rb - write_index rb)))"
  using assms by (auto simp: rb_at_def rb_inv_def Let_def split: if_splits)

lemma rb_invE:
  assumes "rb_inv rb"
  obtains r d where "rb_at rb r d" "length (rb_list rb) = d" "d \<le> rb_cap rb" "r < rb_cap rb"
proof -
  from rb_inv_at [OF assms] obtain r d where *: "rb_at rb r d" by blast
  then show ?thesis
    using that [OF *] by (auto simp: rb_at_list rb_at_cap) (auto simp: rb_at_def Let_def)
qed

section \<open>Copies in and out of the array\<close>

lemma memcpy_in:
  assumes "w + n \<le> length b" "off + n \<le> length src"
  shows "rt_memcpy b (int w) src (int off) (int n) = Some (ring_write b w (take n (drop off src)))"
  using assms by (auto simp: rt_memcpy_def ring_write_def nat_add_distrib)

lemma memcpy_in_wrap:
  assumes "w < length b" "length b \<le> w + n" "n \<le> length b" "off + n \<le> length src"
  shows "Option.bind (rt_memcpy b (int w) src (int off) (int (length b) - int w))
           (\<lambda>b1. Option.bind (rt_memcpy b1 0 src (int off + (int (length b) - int w))
                   (int n - (int (length b) - int w))) f) =
         f (ring_write b w (take n (drop off src)))"
proof -
  define k where "k = length b - w"
  define m where "m = w + n - length b"
  have ks: "int (length b) - int w = int k" "int n - int k = int m" "n = k + m" "w + k = length b"
    using assms by (auto simp: k_def m_def)
  have 1: "rt_memcpy b (int w) src (int off) (int k) = Some (take w b @ take k (drop off src))"
    using assms ks by (simp add: rt_memcpy_def nat_add_distrib)
  have 2: "rt_memcpy (take w b @ take k (drop off src)) 0 src (int off + int k) (int m) =
      Some (take m (drop (off + k) src) @ drop m (take w b) @ take k (drop off src))"
  proof -
    have "m \<le> w" "off + (k + m) \<le> length src" "w \<le> length b"
      using assms ks(3,4) by linarith+
    then show ?thesis
      using ks(4) by (auto simp: rt_memcpy_def nat_add_distrib)
  qed
  have 3: "take m (drop (off + k) src) @ drop m (take w b) @ take k (drop off src) =
      ring_write b w (take n (drop off src))"
  proof (cases m)
    case 0
    with ks assms show ?thesis by (simp add: ring_write_def)
  next
    case (Suc j)
    have len: "length (take n (drop off src)) = n" using assms by simp
    have nk: "\<not> w + n \<le> length b" "length b - w = k" "n - k = m"
      using Suc ks by auto
    have "take k (take n (drop off src)) = take k (drop off src)"
      using ks by simp
    moreover have "drop k (take n (drop off src)) = take m (drop (off + k) src)"
      using nk by (simp add: drop_take add.commute)
    ultimately show ?thesis
      unfolding ring_write_def len by (simp add: nk)
  qed
  show ?thesis
    unfolding ks(1,2) by (simp add: 1 2 3)
qed

lemma memcpy_out:
  assumes "r + n \<le> length b" "n \<le> length ptr"
  shows "rt_memcpy ptr 0 b (int r) (int n) = Some (ring_seg b r n @ drop n ptr)"
  using assms by (simp add: rt_memcpy_def ring_seg_slice)

lemma memcpy_out_wrap:
  assumes "r < length b" "length b \<le> r + n" "n \<le> length b" "n \<le> length ptr"
  shows "Option.bind (rt_memcpy ptr 0 b (int r) (int (length b) - int r))
           (\<lambda>p1. Option.bind (rt_memcpy p1 (int (length b) - int r) b 0
                   (int n - (int (length b) - int r))) f) =
         f (ring_seg b r n @ drop n ptr)"
proof -
  define k where "k = length b - r"
  define m where "m = r + n - length b"
  have ks: "int (length b) - int r = int k" "int n - int k = int m" "n = k + m" "r + k = length b"
    "m \<le> length b"
    using assms by (auto simp: k_def m_def)
  have 1: "rt_memcpy ptr 0 b (int r) (int k) = Some (drop r b @ drop k ptr)"
    using assms ks by (simp add: rt_memcpy_def)
  have 2: "rt_memcpy (drop r b @ drop k ptr) (int k) b 0 (int m) =
      Some (drop r b @ take m b @ drop n ptr)"
  proof -
    have "k + m = n" "length (drop r b) = k" "m \<le> length b" using ks by auto
    then show ?thesis
      using assms by (auto simp: rt_memcpy_def nat_add_distrib)
  qed
  have "ring_seg b r n = drop r b @ take m b"
    using assms by (simp add: ring_seg_wrap m_def)
  then show ?thesis
    unfolding ks(1,2) by (simp add: 1 2)
qed

section \<open>The operations on positions\<close>

lemma ring_pos: "\<not> w + k < n \<Longrightarrow> int k - (int n - int w) = int (w + k - n)"
  by simp

lemma put_unfold:
  assumes "u16 (rt_ringbuffer_space_len rb) = int s" "s \<noteq> 0"
  shows "rt_ringbuffer_put rb ptr (int n) =
     (if buffer_size rb - write_index rb > int (min n s) then do {
          b \<leftarrow> rt_memcpy (buffer_ptr rb) (write_index rb) ptr 0 (int (min n s));
          Some (int (min n s),
            rb\<lparr>buffer_ptr := b, write_index := u15 (write_index rb + int (min n s))\<rparr>)
        }
      else do {
          b1 \<leftarrow> rt_memcpy (buffer_ptr rb) (write_index rb) ptr 0 (buffer_size rb - write_index rb);
          b2 \<leftarrow> rt_memcpy b1 0 ptr (buffer_size rb - write_index rb)
                 (int (min n s) - (buffer_size rb - write_index rb));
          Some (int (min n s), rb\<lparr>buffer_ptr := b2, write_mirror := \<not> write_mirror rb,
                write_index := u15 (int (min n s) - (buffer_size rb - write_index rb))\<rparr>)
        })"
proof -
  have "(if int s < int n then int s else int n) = int (min n s)" "int s \<noteq> 0"
    using assms(2) by auto
  then show ?thesis
    unfolding rt_ringbuffer_put_def Let_def assms(1) by presburger
qed

lemma rb_at_write:
  assumes "rb_at rb r d" "d + length xs \<le> length (buffer_ptr rb)"
  defines "w \<equiv> nat (write_index rb)" and "n \<equiv> length (buffer_ptr rb)"
  defines "rb' \<equiv> (if w + length xs < n
     then rb\<lparr>buffer_ptr := ring_write (buffer_ptr rb) w xs, write_index := int (w + length xs)\<rparr>
     else rb\<lparr>buffer_ptr := ring_write (buffer_ptr rb) w xs, write_mirror := \<not> write_mirror rb,
             write_index := int (w + length xs - n)\<rparr>)"
  shows "rb_at rb' r (d + length xs)" "rb_list rb' = rb_list rb @ xs"
    "buffer_size rb' = buffer_size rb"
proof -
  have at: "n < 32768" "buffer_size rb = int n" "r < n" "d \<le> n" "read_index rb = int r"
      "w = (if r + d < n then r + d else r + d - n)"
      "write_mirror rb \<noteq> read_mirror rb \<longleftrightarrow> n \<le> r + d" "w < n"
    using assms(1) by (auto simp: rb_at_def Let_def w_def n_def)
  have wmod: "w = (r + d) mod n" using at by (auto simp: le_mod_geq)
  have len: "length (ring_write (buffer_ptr rb) w xs) = n"
    using at assms(2) by (simp add: n_def)
  show *: "rb_at rb' r (d + length xs)"
    using at assms(2) len unfolding rb'_def
    by (auto simp: rb_at_def Let_def n_def [symmetric] split: if_splits)
  have "buffer_ptr rb' = ring_write (buffer_ptr rb) w xs" by (simp add: rb'_def)
  then show "rb_list rb' = rb_list rb @ xs"
    using ring_write_append [of r "buffer_ptr rb" d xs w] at(3) assms(2) wmod
    by (simp add: rb_at_list [OF *] rb_at_list [OF assms(1)] n_def)
  show "buffer_size rb' = buffer_size rb" by (simp add: rb'_def)
qed

lemma rb_at_put:
  assumes "rb_at rb r d" "n \<le> length ptr" "k = min n (rb_cap rb - d)"
  shows "\<exists>rb'. rt_ringbuffer_put rb ptr (int n) = Some (int k, rb') \<and> rb_at rb' r (d + k) \<and>
           rb_list rb' = rb_list rb @ take k ptr \<and> buffer_size rb' = buffer_size rb"
proof -
  define N where "N = length (buffer_ptr rb)"
  define w where "w = nat (write_index rb)"
  have at: "N < 32768" "buffer_size rb = int N" "write_index rb = int w" "w < N" "d \<le> N"
    using assms(1) by (auto simp: rb_at_def Let_def w_def N_def)
  have sz: "u16 (rt_ringbuffer_space_len rb) = int (N - d)"
    using at by (simp add: rb_at_space_len [OF assms(1)] c_store N_def)
  have kN: "k = min n (N - d)"
    using assms(3) rb_at_cap [OF assms(1)] by (simp add: N_def)
  have len: "length (take k ptr) = k" "k \<le> length ptr" "d + k \<le> N"
    using assms(2) kN at(5) by auto
  show ?thesis
  proof (cases "N - d = 0")
    case True
    then show ?thesis
      using assms(1) sz kN by (simp add: rt_ringbuffer_put_def)
  next
    case False
    note wr = rb_at_write [OF assms(1), of "take k ptr", folded N_def w_def, unfolded len, OF len(3)]
    show ?thesis
    proof (cases "w + k < N")
      case True
      then have "rt_ringbuffer_put rb ptr (int n) = Some (int k,
          rb\<lparr>buffer_ptr := ring_write (buffer_ptr rb) w (take k ptr), write_index := int (w + k)\<rparr>)"
        using memcpy_in [of w k "buffer_ptr rb" 0 ptr] at len unfolding put_unfold [OF sz False] kN [symmetric]
        by (simp add: N_def c_store)
      then show ?thesis using wr True by auto
    next
      case wrap: False
      then have "rt_ringbuffer_put rb ptr (int n) = Some (int k,
          rb\<lparr>buffer_ptr := ring_write (buffer_ptr rb) w (take k ptr),
             write_mirror := \<not> write_mirror rb, write_index := int (w + k - N)\<rparr>)"
        using memcpy_in_wrap [of w "buffer_ptr rb" k 0 ptr, folded N_def] at(1,4) len(2,3)
        unfolding put_unfold [OF sz False] kN [symmetric] at(2,3)
        by (simp add: c_store ring_pos)
      then show ?thesis using wr wrap by auto
    qed
  qed
qed

lemma ring_write_single: "w < length b \<Longrightarrow> ring_write b w [x] = b[w := x]"
  by (simp add: ring_write_def upd_conv_take_nth_drop)

lemma rb_at_putchar:
  assumes "rb_at rb r d" "d < rb_cap rb"
  shows "\<exists>rb'. rt_ringbuffer_putchar rb ch = Some (1, rb') \<and> rb_at rb' r (d + 1) \<and>
           rb_list rb' = rb_list rb @ [ch] \<and> buffer_size rb' = buffer_size rb"
proof -
  define N where "N = length (buffer_ptr rb)"
  define w where "w = nat (write_index rb)"
  have at: "N < 32768" "buffer_size rb = int N" "write_index rb = int w" "w < N" "d < N"
    using assms(1) rb_at_cap [OF assms(1)] assms(2) by (auto simp: rb_at_def Let_def w_def N_def)
  have sp: "rt_ringbuffer_space_len rb \<noteq> 0"
    using at by (simp add: rb_at_space_len [OF assms(1)] N_def)
  note wr = rb_at_write [OF assms(1), of "[ch]", folded N_def w_def, simplified]
  have st: "store_at (buffer_ptr rb) (write_index rb) ch = Some ((buffer_ptr rb)[w := ch])"
    using at by (simp add: store_at_def N_def)
  have rw: "ring_write (buffer_ptr rb) w [ch] = (buffer_ptr rb)[w := ch]"
    using at by (simp add: ring_write_single N_def)
  show ?thesis
  proof (cases "Suc w < N")
    case True
    then show ?thesis
      using wr at sp st rw by (simp add: rt_ringbuffer_putchar_def c_store add.commute)
  next
    case False
    then have "Suc w = N" using at by simp
    then show ?thesis
      using wr at sp st rw by (auto simp: rt_ringbuffer_putchar_def)
  qed
qed

lemma rb_at_read:
  assumes "rb_at rb r d" "k \<le> d"
  defines "n \<equiv> length (buffer_ptr rb)"
  defines "r' \<equiv> (if r + k < n then r + k else r + k - n)"
  defines "rb' \<equiv> (if r + k < n then rb\<lparr>read_index := int (r + k)\<rparr>
     else rb\<lparr>read_mirror := \<not> read_mirror rb, read_index := int (r + k - n)\<rparr>)"
  shows "rb_at rb' r' (d - k)" "rb_list rb' = drop k (rb_list rb)" "buffer_size rb' = buffer_size rb"
proof -
  have at: "n < 32768" "buffer_size rb = int n" "r < n" "d \<le> n" "read_index rb = int r"
      "write_index rb = int (if r + d < n then r + d else r + d - n)"
      "write_mirror rb \<noteq> read_mirror rb \<longleftrightarrow> n \<le> r + d"
    using assms(1) by (auto simp: rb_at_def Let_def n_def)
  show *: "rb_at rb' r' (d - k)"
    using at assms(2) unfolding rb'_def r'_def
    by (auto simp: rb_at_def Let_def n_def [symmetric] split: if_splits)
  have "r' = (r + k) mod n" using at assms(2) by (auto simp: r'_def le_mod_geq)
  moreover have "buffer_ptr rb' = buffer_ptr rb" by (simp add: rb'_def)
  ultimately show "rb_list rb' = drop k (rb_list rb)"
    using assms(2)
    by (simp add: rb_at_list [OF *] rb_at_list [OF assms(1)] drop_ring_seg ring_seg_mod n_def)
  show "buffer_size rb' = buffer_size rb" by (simp add: rb'_def)
qed

lemma get_unfold:
  assumes "rt_ringbuffer_data_len rb = int d" "d \<noteq> 0" "d < 65536"
  shows "rt_ringbuffer_get rb ptr (int n) =
     (if buffer_size rb - read_index rb > int (min n d) then do {
          p \<leftarrow> rt_memcpy ptr 0 (buffer_ptr rb) (read_index rb) (int (min n d));
          Some (int (min n d), p, rb\<lparr>read_index := u15 (read_index rb + int (min n d))\<rparr>)
        }
      else do {
          p1 \<leftarrow> rt_memcpy ptr 0 (buffer_ptr rb) (read_index rb) (buffer_size rb - read_index rb);
          p2 \<leftarrow> rt_memcpy p1 (buffer_size rb - read_index rb) (buffer_ptr rb) 0
                 (int (min n d) - (buffer_size rb - read_index rb));
          Some (int (min n d), p2, rb\<lparr>read_mirror := \<not> read_mirror rb,
                read_index := u15 (int (min n d) - (buffer_size rb - read_index rb))\<rparr>)
        })"
proof -
  have "(if int d < int n then u16 (int d) else int n) = int (min n d)" "int d \<noteq> 0"
    using assms(2,3) by (auto simp: c_store)
  then show ?thesis
    unfolding rt_ringbuffer_get_def Let_def assms(1) by presburger
qed

lemma rb_at_get:
  assumes "rb_at rb r d" "n \<le> length ptr" "k = min n d"
  shows "\<exists>rb' r'. rt_ringbuffer_get rb ptr (int n) =
             Some (int k, take k (rb_list rb) @ drop k ptr, rb') \<and> rb_at rb' r' (d - k) \<and>
           rb_list rb' = drop k (rb_list rb) \<and> buffer_size rb' = buffer_size rb"
proof (cases "d = 0")
  case True
  then show ?thesis
    using assms rb_at_data_len [OF assms(1)] by (auto simp: rt_ringbuffer_get_def)
next
  case False
  define N where "N = length (buffer_ptr rb)"
  have at: "N < 32768" "buffer_size rb = int N" "read_index rb = int r" "r < N" "d \<le> N"
    using assms(1) by (auto simp: rb_at_def Let_def N_def)
  have k: "k \<le> d" "k \<le> length ptr" "k \<le> N" using assms(2,3) at(5) by auto
  note dl = rb_at_data_len [OF assms(1)]
  note rd = rb_at_read [OF assms(1) k(1), folded N_def]
  have seg: "take k (rb_list rb) = ring_seg (buffer_ptr rb) r k"
    using k(1) by (simp add: rb_at_list [OF assms(1)] take_ring_seg)
  have d: "d < 65536" using at by simp
  show ?thesis
  proof (cases "r + k < N")
    case True
    then have "rt_ringbuffer_get rb ptr (int n) = Some (int k, take k (rb_list rb) @ drop k ptr,
        rb\<lparr>read_index := int (r + k)\<rparr>)"
      using memcpy_out [of r k "buffer_ptr rb" ptr, folded N_def] at(1,4) k(2,3)
      unfolding get_unfold [OF dl False d] assms(3) [symmetric] at(2,3) seg
      by (simp add: c_store)
    then show ?thesis using rd True by auto
  next
    case wrap: False
    then have "rt_ringbuffer_get rb ptr (int n) = Some (int k, take k (rb_list rb) @ drop k ptr,
        rb\<lparr>read_mirror := \<not> read_mirror rb, read_index := int (r + k - N)\<rparr>)"
      using memcpy_out_wrap [of r "buffer_ptr rb" k ptr, folded N_def] at(1,4) k(2,3)
      unfolding get_unfold [OF dl False d] assms(3) [symmetric] at(2,3) seg
      by (simp add: c_store ring_pos)
    then show ?thesis using rd wrap by auto
  qed
qed

lemma rb_at_getchar:
  assumes "rb_at rb r d" "0 < d"
  shows "\<exists>rb' r'. rt_ringbuffer_getchar rb = Some (1, Some (hd (rb_list rb)), rb') \<and>
           rb_at rb' r' (d - 1) \<and> rb_list rb' = tl (rb_list rb) \<and> buffer_size rb' = buffer_size rb"
proof -
  define N where "N = length (buffer_ptr rb)"
  have at: "N < 32768" "buffer_size rb = int N" "read_index rb = int r" "r < N" "d \<le> N"
    using assms(1) by (auto simp: rb_at_def Let_def N_def)
  note dl = rb_at_data_len [OF assms(1)]
  note rd = rb_at_read [OF assms(1), of 1, folded N_def]
  have hd: "hd (rb_list rb) = buffer_ptr rb ! r"
    using assms(2) at
    by (simp add: rb_at_list [OF assms(1)] hd_conv_nth flip: length_greater_0_conv) (simp add: N_def)
  have ld: "load_at (buffer_ptr rb) (read_index rb) = Some (hd (rb_list rb))"
    using at by (simp add: load_at_def N_def hd)
  show ?thesis
  proof (cases "Suc r < N")
    case True
    then show ?thesis
      using rd at dl ld assms(2)
      by (auto simp: rt_ringbuffer_getchar_def c_store drop_Suc add.commute)
  next
    case False
    then have "Suc r = N" using at by simp
    then show ?thesis
      using rd at dl ld assms(2) by (auto simp: rt_ringbuffer_getchar_def drop_Suc)
  qed
qed

lemma rb_at_peek:
  assumes "rb_at rb r d" "0 < d" "k = min d (rb_cap rb - r)"
  shows "\<exists>rb' r'. rt_ringbuffer_peek rb = (int k, Some (int r), rb') \<and> rb_at rb' r' (d - k) \<and>
           take k (drop r (buffer_ptr rb)) = take k (rb_list rb) \<and>
           rb_list rb' = drop k (rb_list rb) \<and> buffer_size rb' = buffer_size rb"
proof -
  define N where "N = length (buffer_ptr rb)"
  have at: "N < 32768" "buffer_size rb = int N" "read_index rb = int r" "r < N" "d \<le> N"
    using assms(1) by (auto simp: rb_at_def Let_def N_def)
  have kN: "k = min d (N - r)" using assms(3) rb_at_cap [OF assms(1)] by (simp add: N_def)
  then have k: "k \<le> d" "r + k \<le> N" using at(4) by auto
  note dl = rb_at_data_len [OF assms(1)]
  note rd = rb_at_read [OF assms(1) k(1), folded N_def]
  have seg: "take k (drop r (buffer_ptr rb)) = take k (rb_list rb)"
    using k by (simp add: rb_at_list [OF assms(1)] take_ring_seg ring_seg_slice N_def)
  have u: "u32 (buffer_size rb - read_index rb) = int (N - r)"
    using at by (simp add: c_store)
  show ?thesis
  proof (cases "d < N - r")
    case True
    then have "k = d" "r + k < N" using kN k by auto
    then show ?thesis
      using rd seg at assms(2) True by (auto simp: rt_ringbuffer_peek_def dl u c_store Let_def)
  next
    case False
    then have "k = N - r" "r + k = N" using kN at(4) by auto
    then show ?thesis
      using rd seg at(1-4) assms(2) False by (auto simp: rt_ringbuffer_peek_def dl c_store Let_def)
  qed
qed

text \<open>
  The forcing writes drop the oldest bytes: they act as a read of the excess followed by a
  write that fits.
\<close>

lemma putf_unfold:
  assumes "u16 (rt_ringbuffer_space_len rb) = int s" "buffer_size rb = int N"
    "k = min n N" "off = n - k"
  shows "rt_ringbuffer_put_force rb ptr (int n) =
     (if int N - write_index rb > int k then do {
        b \<leftarrow> rt_memcpy (buffer_ptr rb) (write_index rb) ptr (int off) (int k);
        Some (int k, rb\<lparr>buffer_ptr := b, write_index := u15 (write_index rb + int k),
           read_index := (if k > s then u15 (write_index rb + int k) else read_index rb)\<rparr>)
      }
      else do {
        b1 \<leftarrow> rt_memcpy (buffer_ptr rb) (write_index rb) ptr (int off) (int N - write_index rb);
        b2 \<leftarrow> rt_memcpy b1 0 ptr (int off + (int N - write_index rb)) (int k - (int N - write_index rb));
        let wi = u15 (int k - (int N - write_index rb));
        let rb1 = rb\<lparr>buffer_ptr := b2, write_mirror := \<not> write_mirror rb, write_index := wi\<rparr>;
        Some (int k,
          if k > s then
            rb1\<lparr>read_mirror := (if wi \<le> read_index rb then \<not> read_mirror rb else read_mirror rb),
                read_index := wi\<rparr>
          else rb1)
      })"
proof -
  have "(if int n > int N then int n - int N else 0) = int off"
    "(if int n > int N then int N else int n) = int k" "(int k > int s) = (k > s)"
    using assms(3,4) by auto
  then show ?thesis
    unfolding rt_ringbuffer_put_force_def assms(1,2) Let_def by presburger
qed

lemma rb_at_put_force:
  assumes "rb_at rb r d" "n \<le> length ptr" "k = min n (rb_cap rb)" "e = d + k - rb_cap rb"
  shows "\<exists>rb' r'. rt_ringbuffer_put_force rb ptr (int n) = Some (int k, rb') \<and>
           rb_at rb' r' (d - e + k) \<and>
           rb_list rb' = drop e (rb_list rb) @ take k (drop (n - k) ptr) \<and>
           buffer_size rb' = buffer_size rb"
proof -
  define N where "N = length (buffer_ptr rb)"
  define w where "w = (if r + d < N then r + d else r + d - N)"
  have at: "N < 32768" "buffer_size rb = int N" "read_index rb = int r" "r < N" "d \<le> N"
      "write_index rb = int w" "w < N" "write_mirror rb \<noteq> read_mirror rb \<longleftrightarrow> N \<le> r + d"
    using assms(1) by (auto simp: rb_at_def Let_def N_def w_def)
  have cap: "rb_cap rb = N" using rb_at_cap [OF assms(1)] by (simp add: N_def)
  have sz: "u16 (rt_ringbuffer_space_len rb) = int (N - d)"
    using at by (simp add: rb_at_space_len [OF assms(1)] c_store N_def)
  define off where "off = n - k"
  have k: "k = min n N" "e = d + k - N" "k \<le> N" "e \<le> d" "off + k \<le> length ptr"
    using assms(2-4) cap by (auto simp: off_def)
  let ?xs = "take k (drop off ptr)"
  have len: "length ?xs = k" using k by simp
  define r1 where "r1 = (if r + e < N then r + e else r + e - N)"
  define rb1 where "rb1 = (if r + e < N then rb\<lparr>read_index := int (r + e)\<rparr>
     else rb\<lparr>read_mirror := \<not> read_mirror rb, read_index := int (r + e - N)\<rparr>)"
  note rd = rb_at_read [OF assms(1) k(4), folded N_def, folded r1_def rb1_def]
  have rb1: "buffer_ptr rb1 = buffer_ptr rb" "write_index rb1 = write_index rb"
      "write_mirror rb1 = write_mirror rb" by (simp_all add: rb1_def)
  have fit: "d - e + length ?xs \<le> N" using k(2,3) at(5) len by arith
  note wr = rb_at_write [OF rd(1), of ?xs, unfolded rb1 at(6) nat_int len, folded N_def, OF fit [unfolded len]]
  note pf = putf_unfold [OF sz at(2) k(1) off_def, of ptr, unfolded at(3,6)]
  have ex: "(k > N - d) = (0 < e)" using k at(5) by auto
  show ?thesis
  proof (cases "w + k < N")
    case True
    have pos: "0 < e \<Longrightarrow> r + e = w + k"
      using True k(2,3) at(4,5) by (auto simp: w_def split: if_splits)
    then have nowrap: "r + e < N" using True at(4) by (cases "e = 0") auto
    have "rt_ringbuffer_put_force rb ptr (int n) = Some (int k,
        rb1\<lparr>buffer_ptr := ring_write (buffer_ptr rb) w ?xs, write_index := int (w + k)\<rparr>)"
      using memcpy_in [of w k "buffer_ptr rb" off ptr, folded N_def] at(1,3,7) k(5) True pos nowrap
      by (cases "e = 0") (simp_all add: pf ex c_store rb1_def)
    then show ?thesis
      using wr rd True by (auto simp: off_def [symmetric])
  next
    case False
    define v where "v = w + k - N"
    have v: "int k - (int N - int w) = int v" "v < 32768"
      using ring_pos [OF False] at(1,7) k(3) by (auto simp: v_def)
    have pos: "0 < e \<Longrightarrow> (if r + e < N then r + e else r + e - N) = v"
        "0 < e \<Longrightarrow> (v \<le> r) = (\<not> r + e < N)"
      using False k(2,3) at(4,5) unfolding w_def v_def by (auto split: if_splits)
    have mc: "Option.bind (rt_memcpy (buffer_ptr rb) (int w) ptr (int off) (int N - int w))
        (\<lambda>b1. Option.bind (rt_memcpy b1 0 ptr (int off + (int N - int w)) (int v)) f) =
        f (ring_write (buffer_ptr rb) w ?xs)" for f
      using memcpy_in_wrap [of w "buffer_ptr rb" k off ptr f, folded N_def, unfolded v]
        at(7) k(3,5) False by simp
    have "rt_ringbuffer_put_force rb ptr (int n) = Some (int k,
        rb1\<lparr>buffer_ptr := ring_write (buffer_ptr rb) w ?xs,
            write_mirror := \<not> write_mirror rb, write_index := int v\<rparr>)"
    proof (cases "e = 0")
      case True
      then show ?thesis
        using False at(4,7) v(2) unfolding pf ex v mc by (simp add: c_store rb1_def at(3) [symmetric])
    next
      case e: False
      then have "rb1 = (if v \<le> r then rb\<lparr>read_mirror := \<not> read_mirror rb, read_index := int v\<rparr>
          else rb\<lparr>read_index := int v\<rparr>)"
        using pos by (auto simp: rb1_def split: if_splits)
      then show ?thesis
        using False e at(7) v(2) unfolding pf ex v mc by (simp add: c_store Let_def)
    qed
    then show ?thesis
      using wr rd False by (auto simp: off_def [symmetric] v_def)
  qed
qed

lemma rb_at_putchar_force:
  assumes "rb_at rb r d"
  shows "\<exists>rb' r'. rt_ringbuffer_putchar_force rb ch = Some (1, rb') \<and>
           rb_at rb' r' (min (d + 1) (rb_cap rb)) \<and>
           rb_list rb' = (if d = rb_cap rb then tl (rb_list rb) else rb_list rb) @ [ch] \<and>
           buffer_size rb' = buffer_size rb"
proof (cases "d < rb_cap rb")
  case True
  define N where "N = length (buffer_ptr rb)"
  have at: "rb_cap rb = N" "buffer_size rb = int N"
    using assms rb_at_cap [OF assms] by (auto simp: rb_at_def Let_def N_def)
  have "rt_ringbuffer_status rb \<noteq> RT_RINGBUFFER_FULL"
    using rb_at_data_len [OF assms] True at
    by (auto simp: rt_ringbuffer_data_len_def u32_def split: rt_ringbuffer_state.splits)
       (use assms in \<open>auto simp: rb_at_def Let_def N_def\<close>)
  moreover have "rt_ringbuffer_space_len rb \<noteq> 0"
    using True rb_at_cap [OF assms] by (simp add: rb_at_space_len [OF assms])
  ultimately have "rt_ringbuffer_putchar_force rb ch = rt_ringbuffer_putchar rb ch"
    by (cases "store_at (buffer_ptr rb) (write_index rb) ch")
       (simp_all add: rt_ringbuffer_putchar_force_def rt_ringbuffer_putchar_def Let_def)
  then show ?thesis
    using rb_at_putchar [OF assms True, of ch] True by (auto simp: min_def)
next
  case False
  define N where "N = length (buffer_ptr rb)"
  have dN: "d = N" "rb_cap rb = N"
    using False assms rb_at_cap [OF assms] by (auto simp: rb_at_def Let_def N_def)
  have at: "N < 32768" "buffer_size rb = int N" "read_index rb = int r" "r < N"
      "write_index rb = int r" "write_mirror rb \<noteq> read_mirror rb"
    using assms dN by (auto simp: rb_at_def Let_def N_def)
  have full: "rt_ringbuffer_status rb = RT_RINGBUFFER_FULL"
    using at by (simp add: rt_ringbuffer_status_def)
  define r1 where "r1 = (if r + 1 < N then r + 1 else r + 1 - N)"
  define rb1 where "rb1 = (if r + 1 < N then rb\<lparr>read_index := int (r + 1)\<rparr>
     else rb\<lparr>read_mirror := \<not> read_mirror rb, read_index := int (r + 1 - N)\<rparr>)"
  have one: "1 \<le> d" using dN at(4) by simp
  note rd = rb_at_read [OF assms one, folded N_def, folded r1_def rb1_def]
  have rb1: "buffer_ptr rb1 = buffer_ptr rb" "write_index rb1 = int r" "write_mirror rb1 = write_mirror rb"
    using at by (simp_all add: rb1_def)
  have fit: "d - 1 + length [ch] \<le> N" using dN at(4) by simp
  note wr = rb_at_write [OF rd(1), of "[ch]", unfolded rb1 nat_int, folded N_def, OF fit]
  have rw: "ring_write (buffer_ptr rb) r [ch] = (buffer_ptr rb)[r := ch]"
    using at by (simp add: ring_write_single N_def)
  have st: "store_at (buffer_ptr rb) (write_index rb) ch = Some ((buffer_ptr rb)[r := ch])"
    using at by (simp add: store_at_def N_def)
  have mn: "min (d + 1) (rb_cap rb) = d - 1 + length [ch]" using dN at(4) by simp
  show ?thesis
  proof (cases "r + 1 < N")
    case True
    then have "rt_ringbuffer_putchar_force rb ch = Some (1,
        rb1\<lparr>buffer_ptr := ring_write (buffer_ptr rb) r [ch], write_index := int (r + length [ch])\<rparr>)"
      using full st at rw by (simp add: rt_ringbuffer_putchar_force_def rb1_def c_store add.commute Let_def)
    then show ?thesis
      unfolding mn using wr rd True dN by (auto simp: drop_Suc)
  next
    case False
    then have "r + 1 = N" using at by simp
    then have "rt_ringbuffer_putchar_force rb ch = Some (1,
        rb1\<lparr>buffer_ptr := ring_write (buffer_ptr rb) r [ch],
            write_mirror := \<not> write_mirror rb, write_index := int (r + length [ch] - N)\<rparr>)"
      using full st at rw by (simp add: rt_ringbuffer_putchar_force_def rb1_def)
    then show ?thesis
      unfolding mn using wr rd False dN by (auto simp: drop_Suc)
  qed
qed

lemma rb_init:
  assumes "32 \<le> sz" "sz < 32768" "int (length pool) = 32 * (sz div 32)"
  shows "\<exists>rb. rt_ringbuffer_init pool sz = Some rb \<and> rb_at rb 0 0 \<and> rb_list rb = [] \<and>
           rb_cap rb = length pool"
proof -
  have "0 < length pool" "length pool < 32768"
    using assms by presburger+
  moreover have "s16 (RT_ALIGN_DOWN sz RT_ALIGN_SIZE) = int (length pool)"
    using assms calculation by (simp add: RT_ALIGN_DOWN_32 c_store)
  ultimately show ?thesis
    using assms
    by (auto simp: rt_ringbuffer_init_def rb_at_def Let_def rb_list_def rb_cap_def
        rt_ringbuffer_data_len_def rt_ringbuffer_status_def)
qed

lemma rb_reset: "rb_inv rb \<Longrightarrow> rb_inv (rt_ringbuffer_reset rb) \<and> rb_list (rt_ringbuffer_reset rb) = []"
  by (auto simp: rb_inv_def rt_ringbuffer_reset_def rb_list_def rt_ringbuffer_data_len_def
      rt_ringbuffer_status_def)

section \<open>The ring buffer is a bounded channel\<close>

lemma rb_bounded: "rb_inv rb \<Longrightarrow> length (rb_list rb) \<le> rb_cap rb"
  by (auto elim: rb_invE)

interpretation rbf: bounded_fifo rb_inv rb_list rb_cap rt_ringbuffer_put rt_ringbuffer_get
proof
  show "rb_inv q \<Longrightarrow> length (rb_list q) \<le> rb_cap q" for q
    by (rule rb_bounded)
next
  fix q :: rt_ringbuffer and n k and xs :: "byte list"
  assume "rb_inv q" and n: "n \<le> length xs" and k: "k = min n (rb_cap q - length (rb_list q))"
  then obtain r d where at: "rb_at q r d" "length (rb_list q) = d" by (auto elim: rb_invE)
  from rb_at_put [OF at(1) n k [unfolded at(2)]]
  show "\<exists>q'. rt_ringbuffer_put q xs (int n) = Some (int k, q') \<and> rb_inv q' \<and> rb_cap q' = rb_cap q \<and>
      rb_list q' = rb_list q @ take k xs"
    by (auto simp: rb_cap_def dest: rb_at_inv)
next
  fix q :: rt_ringbuffer and n k and buf :: "byte list"
  assume "rb_inv q" and n: "n \<le> length buf" and k: "k = min n (length (rb_list q))"
  then obtain r d where at: "rb_at q r d" "length (rb_list q) = d" by (auto elim: rb_invE)
  from rb_at_get [OF at(1) n k [unfolded at(2)]]
  show "\<exists>q'. rt_ringbuffer_get q buf (int n) = Some (int k, take k (rb_list q) @ drop k buf, q') \<and>
      rb_inv q' \<and> rb_cap q' = rb_cap q \<and> rb_list q' = drop k (rb_list q)"
    by (auto simp: rb_cap_def dest: rb_at_inv)
qed

section \<open>Properties\<close>

definition rb_example :: rt_ringbuffer where
  "rb_example = \<lparr>buffer_ptr = replicate 32 7, read_mirror = False, read_index = 30,
     write_mirror = True, write_index = 2, buffer_size = 32\<rparr>"

lemma rb_example_inv [simp]: "rb_inv rb_example"
  by (simp add: rb_inv_def rb_example_def)

text \<open>C5: over any sequence of block writes and block reads on a well-formed ring buffer, no
  access leaves the array, the invariant is kept, and the bytes stored at the start followed
  by the bytes accepted equal the bytes delivered followed by the bytes still stored: the
  buffer loses, duplicates and reorders nothing.\<close>

theorem ringbuffer_fifo:
  assumes "rb_inv rb"
  shows "\<exists>ins outs rb'. fifo_run rt_ringbuffer_put rt_ringbuffer_get ops rb = Some (ins, outs, rb') \<and>
     rb_inv rb' \<and> rb_list rb @ ins = outs @ rb_list rb'"
  using rbf.run_fifo [OF assms, of ops] by blast

theorem ringbuffer_fifo_witness:
  "rb_inv rb_example \<and>
   (\<exists>ins outs rb'. fifo_run rt_ringbuffer_put rt_ringbuffer_get [FPut [1, 2, 3], FGet [0, 0]] rb_example =
      Some (ins, outs, rb') \<and> rb_inv rb' \<and> rb_list rb_example @ ins = outs @ rb_list rb')"
  using ringbuffer_fifo [of rb_example "[FPut [1, 2, 3], FGet [0, 0]]"] by simp

text \<open>a forcing write always stores the last bytes: of the stored bytes followed by the
  written ones, it keeps as many of the newest as fit in the buffer, and it never faults.\<close>

definition last_n :: "nat \<Rightarrow> 'a list \<Rightarrow> 'a list" where
  "last_n n xs = drop (length xs - n) xs"

lemma put_force_keeps_newest:
  assumes "rb_inv rb" "n \<le> length ptr"
  shows "\<exists>rb'. rt_ringbuffer_put_force rb ptr (int n) = Some (int (min n (rb_cap rb)), rb') \<and>
     rb_inv rb' \<and> rb_list rb' = last_n (rb_cap rb) (rb_list rb @ take n ptr)"
proof -
  obtain r d where at: "rb_at rb r d" "length (rb_list rb) = d" "d \<le> rb_cap rb"
    using assms(1) by (auto elim: rb_invE)
  obtain rb' r' where *: "rt_ringbuffer_put_force rb ptr (int n) = Some (int (min n (rb_cap rb)), rb')"
      "rb_at rb' r' (d - (d + min n (rb_cap rb) - rb_cap rb) + min n (rb_cap rb))"
      "rb_list rb' = drop (d + min n (rb_cap rb) - rb_cap rb) (rb_list rb) @
         take (min n (rb_cap rb)) (drop (n - min n (rb_cap rb)) ptr)"
    using rb_at_put_force [OF at(1) assms(2) refl refl] by blast
  have "rb_list rb' = last_n (rb_cap rb) (rb_list rb @ take n ptr)"
  proof (cases "n \<le> rb_cap rb")
    case True
    then show ?thesis
      using assms(2) at(2,3) by (simp add: *(3) last_n_def min_def)
  next
    case False
    then show ?thesis
      using assms(2) at(2,3) by (simp add: *(3) last_n_def min_def drop_take)
  qed
  then show ?thesis
    using * by (auto dest: rb_at_inv)
qed

lemma put_force_keeps_newest_example:
  "rb_inv rb_example \<and> (3::nat) \<le> length [1, 2, 3 :: byte] \<and>
   (\<exists>rb'. rt_ringbuffer_put_force rb_example [1, 2, 3] (int 3) =
      Some (int (min 3 (rb_cap rb_example)), rb') \<and> rb_inv rb' \<and>
      rb_list rb' = last_n (rb_cap rb_example) (rb_list rb_example @ take 3 [1, 2, 3]))"
  using put_force_keeps_newest [of rb_example 3 "[1, 2, 3]"] by simp

text \<open>a byte put into a buffer with room, by either single-byte write, is appended at the
  tail; when the buffer is full the plain write stores nothing and returns 0, the forcing one
  drops the oldest byte; a single-byte read of a non-empty buffer returns its oldest byte, and
  of an empty one returns 0 and changes nothing.\<close>

lemma putchar_getchar_spec:
  assumes "rb_inv rb"
  shows "(\<exists>rb'. rt_ringbuffer_putchar rb ch = Some (if length (rb_list rb) < rb_cap rb then 1 else 0, rb') \<and>
           rb_inv rb' \<and> rb_list rb' = (if length (rb_list rb) < rb_cap rb then rb_list rb @ [ch] else rb_list rb)) \<and>
    (\<exists>rb'. rt_ringbuffer_putchar_force rb ch = Some (1, rb') \<and> rb_inv rb' \<and>
           rb_list rb' = last_n (rb_cap rb) (rb_list rb @ [ch])) \<and>
    (\<exists>rb'. rt_ringbuffer_getchar rb =
             (case rb_list rb of [] \<Rightarrow> Some (0, None, rb') | x # xs \<Rightarrow> Some (1, Some x, rb')) \<and>
           rb_inv rb' \<and> rb_list rb' = tl (rb_list rb))"
proof (intro conjI)
  obtain r d where at: "rb_at rb r d" "length (rb_list rb) = d" "d \<le> rb_cap rb" "r < rb_cap rb"
    using assms by (auto elim: rb_invE)
  show "\<exists>rb'. rt_ringbuffer_putchar rb ch = Some (if length (rb_list rb) < rb_cap rb then 1 else 0, rb') \<and>
      rb_inv rb' \<and> rb_list rb' = (if length (rb_list rb) < rb_cap rb then rb_list rb @ [ch] else rb_list rb)"
  proof (cases "d < rb_cap rb")
    case True
    then show ?thesis
      using rb_at_putchar [OF at(1) True, of ch] at(2) by (auto dest: rb_at_inv)
  next
    case False
    then have "rt_ringbuffer_space_len rb = 0"
      using at(3) rb_at_cap [OF at(1)] by (simp add: rb_at_space_len [OF at(1)])
    then show ?thesis
      using False at(2) assms by (simp add: rt_ringbuffer_putchar_def)
  qed
  have "last_n (rb_cap rb) (rb_list rb @ [ch]) =
      (if d = rb_cap rb then tl (rb_list rb) else rb_list rb) @ [ch]"
    using at(2-4) by (cases "rb_list rb") (auto simp: last_n_def)
  then show "\<exists>rb'. rt_ringbuffer_putchar_force rb ch = Some (1, rb') \<and> rb_inv rb' \<and>
      rb_list rb' = last_n (rb_cap rb) (rb_list rb @ [ch])"
    using rb_at_putchar_force [OF at(1), of ch] by (auto dest: rb_at_inv)
  show "\<exists>rb'. rt_ringbuffer_getchar rb =
        (case rb_list rb of [] \<Rightarrow> Some (0, None, rb') | x # xs \<Rightarrow> Some (1, Some x, rb')) \<and>
      rb_inv rb' \<and> rb_list rb' = tl (rb_list rb)"
  proof (cases "rb_list rb")
    case Nil
    then show ?thesis
      using at(2) rb_at_data_len [OF at(1)] assms by (simp add: rt_ringbuffer_getchar_def)
  next
    case (Cons x xs)
    then have "0 < d" using at(2) by auto
    then show ?thesis
      using rb_at_getchar [OF at(1)] Cons by (auto dest: rb_at_inv)
  qed
qed

lemma putchar_getchar_spec_example:
  "rb_inv rb_example \<and>
   (\<exists>rb'. rt_ringbuffer_putchar_force rb_example 9 = Some (1, rb') \<and> rb_inv rb' \<and>
      rb_list rb' = last_n (rb_cap rb_example) (rb_list rb_example @ [9]))"
  using putchar_getchar_spec [of rb_example 9] by simp

text \<open>\<^verbatim>\<open>rt_ringbuffer_peek\<close> hands out the longest contiguous run of the oldest bytes, at the
  position it returns, and consumes exactly that run.\<close>

lemma peek_spec:
  assumes "rb_inv rb" "rb_list rb \<noteq> []"
  shows "\<exists>k p rb'. rt_ringbuffer_peek rb = (int k, Some (int p), rb') \<and> 0 < k \<and>
     p + k \<le> length (buffer_ptr rb) \<and>
     take k (drop p (buffer_ptr rb)) @ rb_list rb' = rb_list rb \<and> rb_inv rb'"
proof -
  obtain r d where at: "rb_at rb r d" "length (rb_list rb) = d" "d \<le> rb_cap rb" "r < rb_cap rb"
    using assms(1) by (auto elim: rb_invE)
  have "0 < d" using at(2) assms(2) by auto
  from rb_at_peek [OF at(1) this refl] obtain rb' r' where
    "rt_ringbuffer_peek rb = (int (min d (rb_cap rb - r)), Some (int r), rb')"
    "rb_at rb' r' (d - min d (rb_cap rb - r))"
    "take (min d (rb_cap rb - r)) (drop r (buffer_ptr rb)) = take (min d (rb_cap rb - r)) (rb_list rb)"
    "rb_list rb' = drop (min d (rb_cap rb - r)) (rb_list rb)" by blast
  moreover have "0 < min d (rb_cap rb - r)" "r + min d (rb_cap rb - r) \<le> length (buffer_ptr rb)"
    using \<open>0 < d\<close> at(4) rb_at_cap [OF at(1)] by auto
  ultimately show ?thesis
    by (intro exI [of _ "min d (rb_cap rb - r)"] exI [of _ r] exI [of _ rb'])
       (auto dest: rb_at_inv)
qed

lemma peek_spec_example:
  "rb_inv rb_example \<and> rb_list rb_example \<noteq> [] \<and>
   (\<exists>k p rb'. rt_ringbuffer_peek rb_example = (int k, Some (int p), rb') \<and> 0 < k \<and>
     p + k \<le> length (buffer_ptr rb_example) \<and>
     take k (drop p (buffer_ptr rb_example)) @ rb_list rb' = rb_list rb_example \<and> rb_inv rb')"
proof -
  have "rb_list rb_example \<noteq> []"
    by (simp add: rb_list_def rb_example_def rt_ringbuffer_data_len_def rt_ringbuffer_status_def
        ring_seg_def u32_def)
  then show ?thesis
    using peek_spec [of rb_example] by simp
qed

text \<open>
  Repeated single-byte forcing writes, as a driver's interrupt handler does them.
\<close>

fun putchars_force :: "rt_ringbuffer \<Rightarrow> byte list \<Rightarrow> rt_ringbuffer option" where
  "putchars_force rb [] = Some rb"
| "putchars_force rb (x # xs) =
     (case rt_ringbuffer_putchar_force rb x of None \<Rightarrow> None | Some (_, rb') \<Rightarrow> putchars_force rb' xs)"

lemma putchars_force_overrun:
  assumes "buffer_size rb = 0" "read_index rb = 0" "read_mirror rb = write_mirror rb"
    "0 \<le> write_index rb" "write_index rb \<le> int (length (buffer_ptr rb))"
    "length (buffer_ptr rb) < 32" "int (length xs) > int (length (buffer_ptr rb)) - write_index rb"
  shows "putchars_force rb xs = None"
  using assms
proof (induction xs arbitrary: rb)
  case Nil
  then show ?case by simp
next
  case (Cons x xs)
  show ?case
  proof (cases "write_index rb < int (length (buffer_ptr rb))")
    case True
    define rb' where "rb' = rb\<lparr>buffer_ptr := (buffer_ptr rb)[nat (write_index rb) := x],
        write_index := write_index rb + 1\<rparr>"
    have "rt_ringbuffer_putchar_force rb x = Some (1, rb')"
      using Cons.prems True
      by (auto simp: rt_ringbuffer_putchar_force_def store_at_def Let_def rb'_def c_store
          rt_ringbuffer_status_def)
    moreover have "putchars_force rb' xs = None"
      by (rule Cons.IH) (use Cons.prems True in \<open>auto simp: rb'_def\<close>)
    ultimately show ?thesis by simp
  next
    case False
    then show ?thesis
      using Cons.prems by (simp add: rt_ringbuffer_putchar_force_def store_at_def Let_def)
  qed
qed

text \<open>\<^verbatim>\<open>rt_ringbuffer_init\<close> accepts a size below the alignment unit of 32 bytes, rounds it down
  to a buffer of size 0, and forcing single-byte writes then run past the end of the pool that
  was handed in: the write after the last byte of the pool is out of bounds.\<close>

lemma init_small_pool_overruns:
  assumes "0 < sz" "sz < 32" "int (length pool) = sz" "int (length xs) = sz + 1"
  shows "\<exists>rb. rt_ringbuffer_init pool sz = Some rb \<and> buffer_size rb = 0 \<and> putchars_force rb xs = None"
proof -
  obtain rb where rb: "rt_ringbuffer_init pool sz = Some rb" "buffer_size rb = 0" "read_index rb = 0"
      "read_mirror rb = write_mirror rb" "write_index rb = 0" "buffer_ptr rb = pool"
    using assms(1,2) by (simp add: rt_ringbuffer_init_def RT_ALIGN_DOWN_32 s16_def)
  then have "putchars_force rb xs = None"
    using assms by (intro putchars_force_overrun) auto
  with rb show ?thesis by blast
qed

lemma init_small_pool_overruns_example:
  "\<exists>rb. rt_ringbuffer_init (replicate 16 0) 16 = Some rb \<and> buffer_size rb = 0 \<and>
     putchars_force rb (replicate 17 1) = None"
  using init_small_pool_overruns [of 16 "replicate 16 0" "replicate 17 1"] by simp

end
