(* ===== verification/Slist.thy ===== *)
theory Slist
  imports Prelude
begin

text \<open>
  The single-linked lists of \<^verbatim>\<open>rt-thread/include/rtservice.h\<close>: a store gives the \<open>next\<close> pointer
  of every node, the head of a list is a node like the others. A node that is not in the store
  may not be accessed; \<^term>\<open>None\<close> as a pointer is \<^verbatim>\<open>RT_NULL\<close>.
\<close>

section \<open>Operations\<close>

type_synonym 'n links = "'n \<rightharpoonup> 'n option"

definition slist_set :: "'n links \<Rightarrow> 'n \<Rightarrow> 'n option \<Rightarrow> 'n links option" where
  "slist_set h n v = (if h n = None then None else Some (h(n \<mapsto> v)))"

definition rt_slist_init :: "'n links \<Rightarrow> 'n \<Rightarrow> 'n links option" where
  "rt_slist_init h l = slist_set h l None"

definition rt_slist_first :: "'n links \<Rightarrow> 'n \<Rightarrow> 'n option option" where
  "rt_slist_first h l = h l"

definition rt_slist_next :: "'n links \<Rightarrow> 'n \<Rightarrow> 'n option option" where
  "rt_slist_next h n = h n"

definition rt_slist_isempty :: "'n links \<Rightarrow> 'n \<Rightarrow> bool option" where
  "rt_slist_isempty h l = do { p \<leftarrow> h l; Some (p = None) }"

definition rt_slist_insert :: "'n links \<Rightarrow> 'n \<Rightarrow> 'n \<Rightarrow> 'n links option" where
  "rt_slist_insert h l n = do { p \<leftarrow> h l; h1 \<leftarrow> slist_set h n p; slist_set h1 l (Some n) }"

partial_function (option) rt_slist_tail :: "'n links \<Rightarrow> 'n \<Rightarrow> 'n option" where
  "rt_slist_tail h l = Option.bind (h l) (\<lambda>p. case p of None \<Rightarrow> Some l | Some n \<Rightarrow> rt_slist_tail h n)"

definition rt_slist_append :: "'n links \<Rightarrow> 'n \<Rightarrow> 'n \<Rightarrow> 'n links option" where
  "rt_slist_append h l n = do { t \<leftarrow> rt_slist_tail h l; h1 \<leftarrow> slist_set h t (Some n); slist_set h1 n None }"

partial_function (option) slist_len_loop :: "'n links \<Rightarrow> 'n option \<Rightarrow> int \<Rightarrow> int option" where
  "slist_len_loop h p len = (case p of None \<Rightarrow> Some len
     | Some n \<Rightarrow> Option.bind (h n) (\<lambda>q. slist_len_loop h q (u32 (len + 1))))"

definition rt_slist_len :: "'n links \<Rightarrow> 'n \<Rightarrow> int option" where
  "rt_slist_len h l = do { p \<leftarrow> h l; slist_len_loop h p 0 }"

text \<open>The loop \<^verbatim>\<open>while (node->next && node->next != n) node = node->next\<close>.\<close>

partial_function (option) slist_before :: "'n links \<Rightarrow> 'n \<Rightarrow> 'n \<Rightarrow> 'n option" where
  "slist_before h n node = Option.bind (h node) (\<lambda>p. case p of None \<Rightarrow> Some node
     | Some m \<Rightarrow> if m = n then Some node else slist_before h n m)"

definition rt_slist_remove :: "'n links \<Rightarrow> 'n \<Rightarrow> 'n \<Rightarrow> 'n links option" where
  "rt_slist_remove h l n = do {
     node \<leftarrow> slist_before h n l;
     p \<leftarrow> h node;
     (case p of None \<Rightarrow> Some h | Some m \<Rightarrow> do { q \<leftarrow> h m; slist_set h node q })
   }"

declare rt_slist_tail.simps [code] slist_len_loop.simps [code] slist_before.simps [code]

section \<open>The nodes of a list\<close>

text \<open>\<open>slist h l xs\<close>: the list whose head is \<open>l\<close> has the nodes \<open>xs\<close>.\<close>

fun slist :: "'n links \<Rightarrow> 'n \<Rightarrow> 'n list \<Rightarrow> bool" where
  "slist h l [] \<longleftrightarrow> h l = Some None"
| "slist h l (x # xs) \<longleftrightarrow> h l = Some (Some x) \<and> slist h x xs"

lemma slist_upd: "n \<notin> set (l # xs) \<Longrightarrow> slist (h(n := v)) l xs \<longleftrightarrow> slist h l xs"
  by (induction xs arbitrary: l) auto

lemma slist_dom: "slist h l xs \<Longrightarrow> n \<in> set (l # xs) \<Longrightarrow> h n \<noteq> None"
  by (induction xs arbitrary: l) auto

lemma slist_unique: "slist h l xs \<Longrightarrow> slist h l ys \<Longrightarrow> xs = ys"
proof (induction xs arbitrary: l ys)
  case Nil
  then show ?case by (cases ys) auto
next
  case (Cons x xs)
  then show ?case by (cases ys) auto
qed

lemma slist_app: "slist h l (xs @ ys) \<Longrightarrow> slist h (last (l # xs)) ys"
  by (induction xs arbitrary: l) auto

lemma slist_head: "slist h l xs \<Longrightarrow> h l = Some (if xs = [] then None else Some (hd xs))"
  by (cases xs) auto

lemma slist_last: "slist h l xs \<Longrightarrow> h (last (l # xs)) = Some None"
  by (induction xs arbitrary: l) auto

lemma slist_distinct: "slist h l xs \<Longrightarrow> distinct (l # xs)"
proof (induction xs arbitrary: l)
  case (Cons x xs)
  then have d: "distinct (x # xs)" by auto
  have "l \<notin> set (x # xs)"
  proof
    assume "l \<in> set (x # xs)"
    then obtain us vs where us: "x # xs = us @ l # vs" by (meson split_list)
    then have "slist h l vs" using slist_app [of h l "us @ [l]" vs] Cons.prems by simp
    then have "vs = x # xs" using slist_unique [OF _ Cons.prems] by blast
    then have "length (x # xs) = length us + Suc (length (x # xs))" using arg_cong [OF us, of length] by simp
    then show False by simp
  qed
  then show ?case using d by simp
qed simp

section \<open>What the operations do\<close>

lemma slist_set_ok: "h n \<noteq> None \<Longrightarrow> slist_set h n v = Some (h(n \<mapsto> v))"
  by (simp add: slist_set_def)

lemma slist_isempty_ok: "slist h l xs \<Longrightarrow> rt_slist_isempty h l = Some (xs = [])"
  by (cases xs) (auto simp: rt_slist_isempty_def)

lemma slist_tail_ok: "slist h l xs \<Longrightarrow> rt_slist_tail h l = Some (last (l # xs))"
  by (induction xs arbitrary: l) (auto simp: rt_slist_tail.simps [of h])

lemma slist_len_loop_ok: "slist h l xs \<Longrightarrow> slist_len_loop h (the (h l)) (u32 k) = Some (u32 (k + int (length xs)))"
proof (induction xs arbitrary: l k)
  case Nil
  then show ?case by (simp add: slist_len_loop.simps)
next
  case (Cons x xs)
  have u: "u32 (u32 k + 1) = u32 (k + 1)" by (simp add: u32_def mod_simps)
  obtain q where "h x = Some q" using Cons.prems slist_dom [of h x xs x] by auto
  then have "slist_len_loop h (Some x) (u32 k) = Some (u32 (k + 1 + int (length xs)))"
    using Cons.prems Cons.IH [of x "k + 1"] by (simp add: slist_len_loop.simps [of h "Some x"] u)
  moreover have "k + 1 + int (length xs) = k + int (length (x # xs))" by simp
  ultimately show ?case using Cons.prems by (simp only: slist.simps option.sel)
qed

text \<open>The length of a list is counted modulo 2^32.\<close>

lemma slist_len_ok: "slist h l xs \<Longrightarrow> rt_slist_len h l = Some (u32 (int (length xs)))"
  using slist_len_loop_ok [of h l xs 0] slist_head [of h l xs] by (simp add: rt_slist_len_def c_store)

lemma slist_insert_ok:
  assumes "slist h l xs" "n \<notin> set (l # xs)" "h n \<noteq> None"
  shows "\<exists>p. h l = Some p \<and> rt_slist_insert h l n = Some (h(n \<mapsto> p, l \<mapsto> Some n)) \<and> slist (h(n \<mapsto> p, l \<mapsto> Some n)) l (n # xs)"
proof -
  obtain p where p: "h l = Some p" using slist_dom [OF assms(1), of l] by auto
  have "slist (h(n \<mapsto> p, l \<mapsto> Some n)) n xs"
    using assms(1,2) p slist_distinct [OF assms(1)] by (cases xs) (auto simp: slist_upd)
  then show ?thesis using p assms(2,3) by (auto simp: rt_slist_insert_def slist_set_def)
qed

text \<open>Linking a node behind the last one.\<close>

lemma slist_snoc:
  assumes "slist h l xs" "n \<notin> set (l # xs)"
  shows "slist (h(last (l # xs) \<mapsto> Some n, n \<mapsto> None)) l (xs @ [n])"
  using assms slist_distinct [OF assms(1)]
proof (induction xs arbitrary: l)
  case (Cons x xs)
  let ?g = "h(last (x # xs) \<mapsto> Some n, n \<mapsto> None)"
  have "l \<noteq> last (x # xs)" "l \<noteq> n" using Cons.prems(2,3) last_in_set [of "x # xs"] by auto
  then have "?g l = h l" by simp
  moreover have "slist ?g x (xs @ [n])" using Cons.prems by (intro Cons.IH) auto
  ultimately show ?case using Cons.prems(1) by (simp del: fun_upd_apply)
qed simp

lemma slist_append_ok:
  assumes "slist h l xs" "n \<notin> set (l # xs)" "h n \<noteq> None"
  shows "\<exists>h'. rt_slist_append h l n = Some h' \<and> slist h' l (xs @ [n]) \<and> dom h' = dom h \<and>
    (\<forall>m. m \<notin> set (l # xs @ [n]) \<longrightarrow> h' m = h m)"
proof -
  let ?t = "last (l # xs)"
  have t: "?t \<in> set (l # xs)" by (rule last_in_set) simp
  have "h ?t \<noteq> None" by (rule slist_dom [OF assms(1) t])
  then show ?thesis
    using assms(3) t slist_snoc [OF assms(1,2)]
    by (intro exI [of _ "h(?t \<mapsto> Some n, n \<mapsto> None)"]) (auto simp: rt_slist_append_def slist_tail_ok [OF assms(1)] slist_set_def)
qed

text \<open>Unlinking a node.\<close>

lemma slist_before_ok:
  "slist h l (xs @ n # ys) \<Longrightarrow> slist_before h n l = Some (last (l # xs))"
proof (induction xs arbitrary: l)
  case Nil
  then show ?case by (simp add: slist_before.simps [of h n l])
next
  case (Cons x xs)
  then have "x \<noteq> n" using slist_distinct [OF Cons.prems] by auto
  then show ?case using Cons by (simp add: slist_before.simps [of h n l])
qed

lemma slist_before_absent:
  "slist h l xs \<Longrightarrow> n \<notin> set xs \<Longrightarrow> slist_before h n l = Some (last (l # xs))"
  by (induction xs arbitrary: l) (auto simp: slist_before.simps [of h n])

lemma slist_unlink:
  assumes "slist h l (xs @ n # ys)"
  shows "\<exists>q. h n = Some q \<and> h (last (l # xs)) = Some (Some n) \<and> slist (h(last (l # xs) \<mapsto> q)) l (xs @ ys)"
  using assms
proof (induction xs arbitrary: l)
  case Nil
  have d: "l \<notin> set (n # ys)" using slist_distinct [OF Nil] by simp
  show ?case
  proof (cases ys)
    case (Cons y zs)
    then have "slist (h(l \<mapsto> Some y)) y zs" using Nil d by (subst slist_upd) auto
    then show ?thesis using Nil Cons by (simp del: fun_upd_apply) simp
  qed (use Nil in auto)
next
  case (Cons x xs)
  then obtain q where q: "h n = Some q" "h (last (x # xs)) = Some (Some n)" "slist (h(last (x # xs) \<mapsto> q)) x (xs @ ys)"
    by (auto simp del: fun_upd_apply)
  have "l \<noteq> last (x # xs)" using slist_distinct [OF Cons.prems] last_in_set [of "x # xs"] by auto
  then have "(h(last (x # xs) \<mapsto> q)) l = h l" by simp
  then show ?case using q Cons.prems by (simp del: fun_upd_apply)
qed

lemma slist_remove_ok:
  assumes "slist h l (xs @ n # ys)"
  shows "\<exists>q. h n = Some q \<and> rt_slist_remove h l n = Some (h(last (l # xs) \<mapsto> q)) \<and> slist (h(last (l # xs) \<mapsto> q)) l (xs @ ys)"
  using slist_unlink [OF assms] by (auto simp: rt_slist_remove_def slist_before_ok [OF assms] slist_set_def)

end
