(* ===== verification/Blocks.thy ===== *)
theory Blocks
  imports Prelude
begin

text \<open>
  Heaps as lists of blocks, shared by the two allocators that chain their blocks through headers of 32 bytes: each block
  with its size (header included) and whether it is in use, from low to high addresses; where blocks lie, the merging of
  free neighbours, and the blocks in use as the clients see them.
\<close>

section \<open>Lists of blocks\<close>

type_synonym block = "int \<times> bool"

fun endpos :: "int \<Rightarrow> block list \<Rightarrow> int" where
  "endpos p [] = p"
| "endpos p ((n, u) # bs) = endpos (p + n) bs"

fun lastpos :: "int \<Rightarrow> int \<Rightarrow> block list \<Rightarrow> int" where
  "lastpos pv p [] = pv"
| "lastpos pv p ((n, u) # bs) = lastpos p (p + n) bs"

fun noadj :: "block list \<Rightarrow> bool" where
  "noadj ((_, u) # (n, v) # bs) \<longleftrightarrow> (u \<or> v) \<and> noadj ((n, v) # bs)"
| "noadj _ \<longleftrightarrow> True"

text \<open>Every block has room for its header.\<close>

definition roomy :: "block list \<Rightarrow> bool" where
  "roomy bs \<longleftrightarrow> (\<forall>(n, u) \<in> set bs. 32 \<le> n)"

lemma roomy_simps [simp]:
  "roomy []" "roomy ((n, u) # bs) \<longleftrightarrow> 32 \<le> n \<and> roomy bs" "roomy (xs @ ys) \<longleftrightarrow> roomy xs \<and> roomy ys"
  by (auto simp: roomy_def)

lemma endpos_append [simp]: "endpos p (xs @ ys) = endpos (endpos p xs) ys"
  by (induction xs arbitrary: p) auto

lemma roomy_ge: "roomy bs \<Longrightarrow> p \<le> endpos p bs"
  by (induction p bs rule: endpos.induct) auto

lemma lastpos_append [simp]: "lastpos pv p (xs @ ys) = lastpos (lastpos pv p xs) (endpos p xs) ys"
  by (induction pv p xs rule: lastpos.induct) auto

lemma roomy_lastpos:
  "roomy bs \<Longrightarrow> bs \<noteq> [] \<Longrightarrow> p \<le> lastpos pv p bs \<and> lastpos pv p bs < endpos p bs"
proof (induction bs arbitrary: pv p)
  case Nil
  then show ?case by simp
next
  case (Cons b bs)
  obtain n u where b: "b = (n, u)" by fastforce
  show ?case
  proof (cases "bs = []")
    case True
    with Cons.prems show ?thesis by (simp add: b)
  next
    case False
    with Cons.IH [of "p + n" p] Cons.prems show ?thesis by (simp add: b)
  qed
qed

lemma noadj_append:
  "noadj (xs @ ys) \<longleftrightarrow> noadj xs \<and> noadj ys \<and> (xs = [] \<or> ys = [] \<or> snd (last xs) \<or> snd (hd ys))"
proof (induction xs)
  case Nil
  then show ?case by simp
next
  case (Cons x xs)
  show ?case
  proof (cases xs)
    case Nil
    then show ?thesis by (cases x; cases ys) auto
  next
    case (Cons y zs)
    then show ?thesis using Cons.IH by (cases x; cases y) auto
  qed
qed

section \<open>Merging neighbours\<close>

fun merge_next :: "int \<Rightarrow> block list \<Rightarrow> block list" where
  "merge_next n ((k, False) # ys) = (n + k, False) # ys"
| "merge_next n ys = (n, False) # ys"

definition merge_prev :: "block list \<Rightarrow> block list \<Rightarrow> block list" where
  "merge_prev xs bs =
     (if xs \<noteq> [] \<and> \<not> snd (last xs)
      then butlast xs @ (fst (last xs) + fst (hd bs), False) # tl bs else xs @ bs)"

definition plugged :: "block list \<Rightarrow> int \<Rightarrow> block list \<Rightarrow> block list" where
  "plugged xs n ys = merge_prev xs (merge_next n ys)"

lemma merge_next_Cons: "\<exists>k zs. merge_next n ys = (k, False) # zs"
  by (cases "(n, ys)" rule: merge_next.cases) auto

lemma noadj_Cons: "noadj ((n, u) # ys) \<longleftrightarrow> noadj ys \<and> (ys = [] \<or> u \<or> snd (hd ys))"
  using noadj_append [of "[(n, u)]" ys] by simp

lemma noadj_merge_next: "noadj ys \<Longrightarrow> noadj (merge_next n ys)"
  by (cases "(n, ys)" rule: merge_next.cases) (auto simp: noadj_Cons simp del: noadj.simps(1))

lemma noadj_plugged:
  assumes "noadj xs" "noadj ys"
  shows "noadj (plugged xs n ys)"
proof -
  obtain k zs where mn: "merge_next n ys = (k, False) # zs" using merge_next_Cons by blast
  have z: "noadj ((k, False) # zs)" using noadj_merge_next [OF assms(2)] mn by metis
  then have z': "zs = [] \<or> snd (hd zs)" "noadj zs"
    by (cases zs; auto)+
  have mid: "noadj ((j, False) # zs)" for j using z by (cases zs) auto
  show ?thesis
  proof (cases xs rule: rev_cases)
    case Nil
    then show ?thesis using z by (simp add: plugged_def merge_prev_def mn)
  next
    case (snoc xs0 y)
    then show ?thesis
      using assms(1) mid z by (cases y) (auto simp: plugged_def merge_prev_def mn noadj_append)
  qed
qed

section \<open>Blocks in use\<close>

text \<open>The blocks in use, each by the offset of its user data and its user size.\<close>

fun used_blocks :: "int \<Rightarrow> block list \<Rightarrow> (int \<times> int) set" where
  "used_blocks p [] = {}"
| "used_blocks p ((n, u) # bs) = (if u then {(p + 32, n - 32)} else {}) \<union> used_blocks (p + n) bs"

lemma used_blocks_append [simp]: "used_blocks p (xs @ ys) = used_blocks p xs \<union> used_blocks (endpos p xs) ys"
  by (induction p xs rule: endpos.induct) auto

lemma roomy_used_range:
  "roomy bs \<Longrightarrow> (a, k) \<in> used_blocks p bs \<Longrightarrow> p + 32 \<le> a \<and> 0 \<le> k \<and> a + k \<le> endpos p bs"
proof (induction p bs rule: endpos.induct)
  case (2 p n u bs)
  then show ?case using roomy_ge [of bs "p + n"] by (auto split: if_splits)
qed simp

lemma roomy_used_disjoint:
  "roomy bs \<Longrightarrow> (a, k) \<in> used_blocks p bs \<Longrightarrow> (b, l) \<in> used_blocks p bs \<Longrightarrow>
     (a, k) = (b, l) \<or> a + k \<le> b - 32 \<or> b + l \<le> a - 32"
proof (induction p bs rule: endpos.induct)
  case (2 p n u bs)
  then show ?case
    using roomy_used_range [of bs a k "p + n"] roomy_used_range [of bs b l "p + n"]
    by (auto split: if_splits)
qed simp

lemma used_blocks_split:
  "(a, k) \<in> used_blocks p bs \<Longrightarrow> \<exists>xs ys. bs = xs @ (k + 32, True) # ys \<and> a = endpos p xs + 32"
proof (induction p bs rule: endpos.induct)
  case (2 p n u bs)
  show ?case
  proof (cases "u \<and> a = p + 32 \<and> k = n - 32")
    case True
    then show ?thesis by (intro exI [of _ "[]"] exI [of _ bs]) simp
  next
    case False
    then have "(a, k) \<in> used_blocks (p + n) bs" using 2 by (auto split: if_splits)
    then obtain xs ys where "bs = xs @ (k + 32, True) # ys" "a = endpos (p + n) xs + 32"
      using 2 by blast
    then show ?thesis by (intro exI [of _ "(n, u) # xs"] exI [of _ ys]) simp
  qed
qed simp

lemma used_blocks_merge_next: "used_blocks p (merge_next n ys) = used_blocks (p + n) ys"
  by (cases "(n, ys)" rule: merge_next.cases) (auto simp: add.assoc)

lemma used_blocks_plugged: "used_blocks p (plugged xs n ys) = used_blocks p xs \<union> used_blocks (endpos p xs + n) ys"
proof -
  obtain k zs where mn: "merge_next n ys = (k, False) # zs" using merge_next_Cons by blast
  have z: "used_blocks (q + k) zs = used_blocks (q + n) ys" for q
    using used_blocks_merge_next [of q n ys] mn by simp
  show ?thesis
  proof (cases xs rule: rev_cases)
    case Nil
    then show ?thesis using z by (simp add: plugged_def merge_prev_def mn)
  next
    case (snoc xs0 y)
    then show ?thesis
      using z [of "endpos p xs"] by (cases y) (auto simp: plugged_def merge_prev_def mn add.assoc)
  qed
qed

end
