(* ===== verification/Smallmem.thy ===== *)
theory Smallmem
  imports Blocks
begin

text \<open>
  The small-memory allocator of \<^verbatim>\<open>rt-thread/src/mem.c\<close>, the system heap of this configuration
  (\<^verbatim>\<open>RT_USING_SMALL_MEM_AS_HEAP\<close>): block headers in a store indexed by offset, the functions of
  the file on that store, and the abstraction to the list of blocks from low to high
  addresses.
\<close>

section \<open>State\<close>

text \<open>
  \<^verbatim>\<open>struct rt_small_mem_item\<close>: twelve bytes on the 32-bit target, rounded up to 32 by the
  alignment unit. \<open>inext\<close> and \<open>iprev\<close> are offsets from \<^verbatim>\<open>heap_ptr\<close>.
\<close>

record rt_small_mem_item =
  pool_ptr :: int
  inext :: int
  iprev :: int

text \<open>
  \<^verbatim>\<open>struct rt_small_mem\<close> with the memory it manages. \<open>sm_addr\<close> is the address of the object
  itself. Pointers to headers (\<open>heap_end\<close>, \<open>lfree\<close>) are offsets from \<open>heap_ptr\<close>; pointers handed
  to clients are addresses, 0 being \<^verbatim>\<open>RT_NULL\<close>. \<open>items\<close> holds the headers written so far by
  offset, \<open>heap_bytes\<close> the bytes of the memory by address. Reading a header where none was
  written is a fault.
\<close>

record rt_small_mem =
  sm_addr :: int
  mem_total :: int
  mem_used :: int
  mem_max :: int
  heap_ptr :: int
  heap_end :: int
  lfree :: int
  mem_size_aligned :: int
  items :: "int \<rightharpoonup> rt_small_mem_item"
  heap_bytes :: "int \<Rightarrow> byte"

definition MIN_SIZE :: int where "MIN_SIZE = 12"
definition MIN_SIZE_ALIGNED :: int where "MIN_SIZE_ALIGNED = RT_ALIGN MIN_SIZE RT_ALIGN_SIZE"
definition sizeof_small_mem_item :: int where "sizeof_small_mem_item = 12"
definition SIZEOF_STRUCT_MEM :: int where
  "SIZEOF_STRUCT_MEM = RT_ALIGN sizeof_small_mem_item RT_ALIGN_SIZE"

definition MEM_MASK :: int where "MEM_MASK = 0xfffffffe"
definition MEM_USED :: "int \<Rightarrow> int" where "MEM_USED small_mem = (small_mem AND MEM_MASK) OR 1"
definition MEM_FREED :: "int \<Rightarrow> int" where "MEM_FREED small_mem = (small_mem AND MEM_MASK) OR 0"
definition MEM_ISUSED :: "rt_small_mem_item \<Rightarrow> bool" where
  "MEM_ISUSED mem \<longleftrightarrow> pool_ptr mem AND 1 \<noteq> 0"
definition MEM_POOL :: "rt_small_mem_item \<Rightarrow> int" where
  "MEM_POOL mem = pool_ptr mem AND MEM_MASK"

definition set_item :: "rt_small_mem \<Rightarrow> int \<Rightarrow> (rt_small_mem_item \<Rightarrow> rt_small_mem_item) \<Rightarrow> rt_small_mem option" where
  "set_item m off f =
     (case items m off of None \<Rightarrow> None | Some it \<Rightarrow> Some (m\<lparr>items := (items m)(off \<mapsto> f it)\<rparr>))"

section \<open>Operations\<close>

text \<open>\<^verbatim>\<open>plug_holes\<close> in its two parts, forward and backward.\<close>

definition plug_forward :: "rt_small_mem \<Rightarrow> int \<Rightarrow> rt_small_mem option" where
  "plug_forward m mem = do {
     it \<leftarrow> items m mem;
     nit \<leftarrow> items m (inext it);
     (if mem \<noteq> inext it \<and> \<not> MEM_ISUSED nit \<and> inext it \<noteq> heap_end m then do {
        m1 \<leftarrow> Some (if lfree m = inext it then m\<lparr>lfree := mem\<rparr> else m);
        m2 \<leftarrow> set_item m1 (inext it) (pool_ptr_update (\<lambda>_. 0));
        m3 \<leftarrow> set_item m2 mem (inext_update (\<lambda>_. inext nit));
        set_item m3 (inext nit) (iprev_update (\<lambda>_. mem))
      }
      else Some m)
   }"

definition plug_backward :: "rt_small_mem \<Rightarrow> int \<Rightarrow> rt_small_mem option" where
  "plug_backward m mem = do {
     it \<leftarrow> items m mem;
     pit \<leftarrow> items m (iprev it);
     (if iprev it \<noteq> mem \<and> \<not> MEM_ISUSED pit then do {
        m1 \<leftarrow> Some (if lfree m = mem then m\<lparr>lfree := iprev it\<rparr> else m);
        m2 \<leftarrow> set_item m1 mem (pool_ptr_update (\<lambda>_. 0));
        m3 \<leftarrow> set_item m2 (iprev it) (inext_update (\<lambda>_. inext it));
        set_item m3 (inext it) (iprev_update (\<lambda>_. iprev it))
      }
      else Some m)
   }"

definition plug_holes :: "rt_small_mem \<Rightarrow> int \<Rightarrow> rt_small_mem option" where
  "plug_holes m mem = do {
     RT_ASSERT (0 \<le> mem);
     RT_ASSERT (mem < heap_end m);
     m1 \<leftarrow> plug_forward m mem;
     plug_backward m1 mem
   }"

text \<open>
  \<^verbatim>\<open>rt_smem_init\<close>: \<open>None\<close> inside is the \<^verbatim>\<open>RT_NULL\<close> result. \<^verbatim>\<open>sizeof(struct rt_small_mem)\<close> is a
  parameter: it depends on the layout of \<^verbatim>\<open>struct rt_memory\<close>. \<open>mem0\<close> is the memory before.
\<close>

definition rt_smem_init :: "int \<Rightarrow> (int \<Rightarrow> byte) \<Rightarrow> int \<Rightarrow> int \<Rightarrow> rt_small_mem option" where
  "rt_smem_init sizeof_small_mem mem0 begin_addr sz =
     (let small_mem = RT_ALIGN begin_addr RT_ALIGN_SIZE;
          start_addr = u32 (small_mem + sizeof_small_mem);
          begin_align = RT_ALIGN start_addr RT_ALIGN_SIZE;
          end_align = RT_ALIGN_DOWN (u32 (begin_addr + sz)) RT_ALIGN_SIZE in
      if end_align > 2 * SIZEOF_STRUCT_MEM \<and> end_align - 2 * SIZEOF_STRUCT_MEM \<ge> start_addr then
        let mem_size = u32 (end_align - begin_align - 2 * SIZEOF_STRUCT_MEM);
            end_off = mem_size + SIZEOF_STRUCT_MEM in
        Some \<lparr>sm_addr = small_mem, mem_total = mem_size, mem_used = 0, mem_max = 0,
              heap_ptr = begin_align, heap_end = end_off, lfree = 0,
              mem_size_aligned = mem_size,
              items = [0 \<mapsto> \<lparr>pool_ptr = MEM_FREED small_mem, inext = end_off, iprev = 0\<rparr>,
                       end_off \<mapsto> \<lparr>pool_ptr = MEM_USED small_mem, inext = end_off, iprev = end_off\<rparr>],
              heap_bytes = mem0\<rparr>
      else None)"

text \<open>The search loop of \<^verbatim>\<open>rt_smem_alloc\<close>: \<open>Some None\<close> when it runs off the end.\<close>

partial_function (option) smem_first_fit :: "rt_small_mem \<Rightarrow> int \<Rightarrow> int \<Rightarrow> int option option" where
  "smem_first_fit m sz ptr =
     (if ptr \<le> mem_size_aligned m - sz then
        (case items m ptr of None \<Rightarrow> None
         | Some mem \<Rightarrow>
             if \<not> MEM_ISUSED mem \<and> u32 (inext mem - (ptr + SIZEOF_STRUCT_MEM)) \<ge> sz
             then Some (Some ptr)
             else smem_first_fit m sz (inext mem))
      else Some None)"

text \<open>The inner loop that moves \<^verbatim>\<open>lfree\<close> to the next free block.\<close>

partial_function (option) smem_next_free :: "rt_small_mem \<Rightarrow> int \<Rightarrow> int option" where
  "smem_next_free m p =
     (case items m p of None \<Rightarrow> None
      | Some mem \<Rightarrow>
          if MEM_ISUSED mem \<and> p \<noteq> heap_end m then smem_next_free m (inext mem) else Some p)"

definition count_used :: "rt_small_mem \<Rightarrow> int \<Rightarrow> rt_small_mem" where
  "count_used m n =
     (let used = u32 (mem_used m + n) in
      m\<lparr>mem_used := used, mem_max := (if mem_max m < used then used else mem_max m)\<rparr>)"

text \<open>The header updates of an allocation, before \<^verbatim>\<open>lfree\<close> is moved.\<close>

definition smem_mark :: "rt_small_mem \<Rightarrow> int \<Rightarrow> int \<Rightarrow> rt_small_mem option" where
  "smem_mark m sz ptr = do {
     mem \<leftarrow> items m ptr;
     m1 \<leftarrow> (if u32 (inext mem - (ptr + SIZEOF_STRUCT_MEM)) \<ge>
                sz + SIZEOF_STRUCT_MEM + MIN_SIZE_ALIGNED then
              (let ptr2 = ptr + SIZEOF_STRUCT_MEM + sz;
                   m1 = m\<lparr>items := (items m)(ptr2 \<mapsto>
                            \<lparr>pool_ptr = MEM_FREED (sm_addr m), inext = inext mem, iprev = ptr\<rparr>)\<rparr> in do {
                 m2 \<leftarrow> set_item m1 ptr (inext_update (\<lambda>_. ptr2));
                 m3 \<leftarrow> (if inext mem \<noteq> mem_size_aligned m + SIZEOF_STRUCT_MEM
                        then set_item m2 (inext mem) (iprev_update (\<lambda>_. ptr2))
                        else Some m2);
                 Some (count_used m3 (sz + SIZEOF_STRUCT_MEM))
              })
            else Some (count_used m (inext mem - ptr)));
     set_item m1 ptr (pool_ptr_update (\<lambda>_. MEM_USED (sm_addr m)))
   }"

definition rt_smem_alloc :: "rt_small_mem \<Rightarrow> int \<Rightarrow> (int \<times> rt_small_mem) option" where
  "rt_smem_alloc m sz0 =
     (if sz0 = 0 then Some (0, m)
      else
        let sz1 = RT_ALIGN sz0 RT_ALIGN_SIZE;
            sz = (if sz1 < MIN_SIZE_ALIGNED then MIN_SIZE_ALIGNED else sz1) in
        if sz > mem_size_aligned m then Some (0, m)
        else do {
          found \<leftarrow> smem_first_fit m sz (lfree m);
          (case found of
             None \<Rightarrow> Some (0, m)
           | Some ptr \<Rightarrow> do {
               m2 \<leftarrow> smem_mark m sz ptr;
               m3 \<leftarrow> (if ptr = lfree m2 then do {
                        p \<leftarrow> smem_next_free m2 (lfree m2);
                        Some (m2\<lparr>lfree := p\<rparr>)
                      } else Some m2);
               RT_ASSERT (ptr + SIZEOF_STRUCT_MEM + sz \<le> heap_end m3);
               RT_ASSERT ((heap_ptr m3 + ptr + SIZEOF_STRUCT_MEM) mod RT_ALIGN_SIZE = 0);
               RT_ASSERT ((heap_ptr m3 + ptr) AND (RT_ALIGN_SIZE - 1) = 0);
               Some (heap_ptr m3 + ptr + SIZEOF_STRUCT_MEM, m3)
             })
        })"

text \<open>
  \<^verbatim>\<open>rt_smem_free\<close> finds the allocator in the header; the model has one allocator, so a header
  that names another one is outside it (a failing assertion).
\<close>

definition rt_smem_free :: "rt_small_mem \<Rightarrow> int \<Rightarrow> rt_small_mem option" where
  "rt_smem_free m rmem =
     (if rmem = 0 then Some m
      else do {
        RT_ASSERT (rmem AND (RT_ALIGN_SIZE - 1) = 0);
        let mem = rmem - SIZEOF_STRUCT_MEM - heap_ptr m;
        it \<leftarrow> items m mem;
        RT_ASSERT (MEM_POOL it = sm_addr m);
        RT_ASSERT (MEM_ISUSED it);
        RT_ASSERT (heap_ptr m \<le> rmem \<and> rmem < heap_ptr m + heap_end m);
        nit \<leftarrow> items m (inext it);
        RT_ASSERT (MEM_POOL nit = sm_addr m);
        m1 \<leftarrow> set_item m mem (pool_ptr_update (\<lambda>_. MEM_FREED (sm_addr m)));
        let m2 = m1\<lparr>lfree := (if mem < lfree m1 then mem else lfree m1),
                    mem_used := u32 (mem_used m1 - (inext it - mem))\<rparr>;
        plug_holes m2 mem
      })"

definition copy_bytes :: "(int \<Rightarrow> byte) \<Rightarrow> int \<Rightarrow> int \<Rightarrow> int \<Rightarrow> (int \<Rightarrow> byte)" where
  "copy_bytes b dst src n = (\<lambda>a. if dst \<le> a \<and> a < dst + n then b (a - dst + src) else b a)"

definition rt_smem_realloc :: "rt_small_mem \<Rightarrow> int \<Rightarrow> int \<Rightarrow> (int \<times> rt_small_mem) option" where
  "rt_smem_realloc m rmem newsize0 =
     (let newsize = RT_ALIGN newsize0 RT_ALIGN_SIZE in
      if newsize > mem_size_aligned m then Some (0, m)
      else if newsize = 0 then do { m' \<leftarrow> rt_smem_free m rmem; Some (0, m') }
      else if rmem = 0 then rt_smem_alloc m newsize
      else do {
        RT_ASSERT (rmem AND (RT_ALIGN_SIZE - 1) = 0);
        RT_ASSERT (heap_ptr m \<le> rmem);
        RT_ASSERT (rmem < heap_ptr m + heap_end m);
        let ptr = rmem - SIZEOF_STRUCT_MEM - heap_ptr m;
        mem \<leftarrow> items m ptr;
        let sz = u32 (inext mem - ptr - SIZEOF_STRUCT_MEM);
        (if sz = newsize then Some (rmem, m)
         else if newsize + SIZEOF_STRUCT_MEM + MIN_SIZE < sz then do {
           let m0 = m\<lparr>mem_used := u32 (mem_used m - (sz - newsize))\<rparr>;
           let ptr2 = ptr + SIZEOF_STRUCT_MEM + newsize;
           let m1 = m0\<lparr>items := (items m0)(ptr2 \<mapsto>
                      \<lparr>pool_ptr = MEM_FREED (sm_addr m), inext = inext mem, iprev = ptr\<rparr>)\<rparr>;
           m2 \<leftarrow> set_item m1 ptr (inext_update (\<lambda>_. ptr2));
           m3 \<leftarrow> (if inext mem \<noteq> mem_size_aligned m + SIZEOF_STRUCT_MEM
                  then set_item m2 (inext mem) (iprev_update (\<lambda>_. ptr2))
                  else Some m2);
           let m4 = m3\<lparr>lfree := (if ptr2 < lfree m3 then ptr2 else lfree m3)\<rparr>;
           m5 \<leftarrow> plug_holes m4 ptr2;
           Some (rmem, m5)
         }
         else do {
           (nmem, m1) \<leftarrow> rt_smem_alloc m newsize;
           (if nmem \<noteq> 0 then do {
              let m2 = m1\<lparr>heap_bytes := copy_bytes (heap_bytes m1) nmem rmem (if sz < newsize then sz else newsize)\<rparr>;
              m3 \<leftarrow> rt_smem_free m2 rmem;
              Some (nmem, m3)
            }
            else Some (nmem, m1))
         })
      })"

declare smem_first_fit.simps [code] smem_next_free.simps [code]

section \<open>Header encoding\<close>

lemma mem_sizes [simp]: "SIZEOF_STRUCT_MEM = 32" "MIN_SIZE_ALIGNED = 32" "RT_ALIGN_SIZE = 32"
  using RT_ALIGN_32 [of 12]
  by (simp_all add: SIZEOF_STRUCT_MEM_def MIN_SIZE_ALIGNED_def MIN_SIZE_def
      sizeof_small_mem_item_def u32_def RT_ALIGN_SIZE_def)

lemma and_MEM_MASK:
  assumes "even a" "0 \<le> a" "a < 4294967296"
  shows "a AND MEM_MASK = a"
proof -
  have mask: "MEM_MASK = push_bit 1 (mask 31)"
    by (simp add: MEM_MASK_def mask_eq_exp_minus_1 push_bit_eq_mult)
  have "take_bit 32 a = a"
    using assms by (simp add: take_bit_int_eq_self)
  then have "bit a n \<Longrightarrow> n < 32" for n
    by (metis bit_take_bit_iff)
  moreover have "\<not> bit a 0" using assms(1) by (simp add: bit_0)
  ultimately have "bit (a AND MEM_MASK) n = bit a n" for n
    unfolding mask bit_and_iff bit_push_bit_iff bit_mask_iff by (cases n) fastforce+
  then show ?thesis by (rule bit_eqI)
qed

lemma MEM_FREED_eq [simp]: "even a \<Longrightarrow> 0 \<le> a \<Longrightarrow> a < 4294967296 \<Longrightarrow> MEM_FREED a = a"
  by (simp add: MEM_FREED_def and_MEM_MASK)

lemma MEM_USED_eq [simp]: "even a \<Longrightarrow> 0 \<le> a \<Longrightarrow> a < 4294967296 \<Longrightarrow> MEM_USED a = a + 1"
  by (simp add: MEM_USED_def and_MEM_MASK or_one_eq)

lemma MEM_POOL_flags:
  assumes "even a" "0 \<le> a" "a < 4294967295"
  shows "a AND MEM_MASK = a" "(a + 1) AND MEM_MASK = a"
proof -
  show 1: "a AND MEM_MASK = a" using assms by (intro and_MEM_MASK) auto
  have "(a + 1) = a OR 1" using assms(1) by (simp add: or_one_eq)
  then have "(a + 1) AND MEM_MASK = (a AND MEM_MASK) OR (1 AND MEM_MASK)"
    by (simp add: bit.conj_disj_distrib2)
  moreover have "1 AND MEM_MASK = 0" by (simp add: MEM_MASK_def)
  ultimately show "(a + 1) AND MEM_MASK = a" using 1 by simp
qed

section \<open>Blocks and chains of headers\<close>

text \<open>
  The abstract heap: the blocks from low to high offsets, each with its size (header
  included) and whether it is in use. \<open>chain hds a pv p bs q\<close> says that the headers \<open>hds\<close> of the
  allocator at \<open>a\<close> describe the blocks \<open>bs\<close> from offset \<open>p\<close> up to \<open>q\<close>, the first of them naming
  \<open>pv\<close> as its predecessor.
\<close>

fun chain :: "(int \<rightharpoonup> rt_small_mem_item) \<Rightarrow> int \<Rightarrow> int \<Rightarrow> int \<Rightarrow> block list \<Rightarrow> int \<Rightarrow> bool" where
  "chain hds a pv p [] q \<longleftrightarrow> p = q"
| "chain hds a pv p ((n, u) # bs) q \<longleftrightarrow>
     hds p = Some \<lparr>pool_ptr = (if u then MEM_USED a else MEM_FREED a), inext = p + n, iprev = pv\<rparr> \<and>
     32 \<le> n \<and> n mod 32 = 0 \<and> (u \<longrightarrow> 64 \<le> n) \<and> chain hds a p (p + n) bs q"

fun ffree :: "int \<Rightarrow> block list \<Rightarrow> int" where
  "ffree p [] = p"
| "ffree p ((n, u) # bs) = (if u then ffree (p + n) bs else p)"

fun used_size :: "block list \<Rightarrow> int" where
  "used_size [] = 0"
| "used_size ((n, u) # bs) = (if u then n else 0) + used_size bs"

definition sizes_ok :: "block list \<Rightarrow> bool" where
  "sizes_ok bs \<longleftrightarrow> (\<forall>(n, u) \<in> set bs. 32 \<le> n \<and> n mod 32 = 0 \<and> (u \<longrightarrow> 64 \<le> n))"

lemma sizes_ok_simps [simp]:
  "sizes_ok []" "sizes_ok ((n, u) # bs) \<longleftrightarrow>
     32 \<le> n \<and> n mod 32 = 0 \<and> (u \<longrightarrow> 64 \<le> n) \<and> sizes_ok bs"
  "sizes_ok (xs @ ys) \<longleftrightarrow> sizes_ok xs \<and> sizes_ok ys"
  by (auto simp: sizes_ok_def)

lemma endpos_ge: "sizes_ok bs \<Longrightarrow> p \<le> endpos p bs"
  by (induction p bs rule: endpos.induct) auto

lemma endpos_mod: "sizes_ok bs \<Longrightarrow> p mod 32 = 0 \<Longrightarrow> endpos p bs mod 32 = 0"
  by (induction p bs rule: endpos.induct) (auto simp: mod_add_eq [symmetric])

lemma used_size_append [simp]: "used_size (xs @ ys) = used_size xs + used_size ys"
  by (induction xs) auto

lemma used_size_bounds: "sizes_ok bs \<Longrightarrow> 0 \<le> used_size bs \<and> p + used_size bs \<le> endpos p bs"
  by (induction p bs rule: endpos.induct) auto

lemma ffree_append:
  "ffree p (xs @ ys) = (if \<forall>(n, u) \<in> set xs. u then ffree (endpos p xs) ys else ffree p xs)"
  by (induction xs arbitrary: p) auto

lemma ffree_ge: "sizes_ok bs \<Longrightarrow> p \<le> ffree p bs \<and> ffree p bs \<le> endpos p bs"
  by (induction p bs rule: endpos.induct) (auto dest: endpos_ge)

lemma chain_end: "chain hds a pv p bs q \<Longrightarrow> q = endpos p bs \<and> sizes_ok bs"
  by (induction bs arbitrary: pv p) auto

lemma chain_append:
  "chain hds a pv p (xs @ ys) q \<longleftrightarrow>
     chain hds a pv p xs (endpos p xs) \<and> chain hds a (lastpos pv p xs) (endpos p xs) ys q"
  by (induction xs arbitrary: pv p) auto

lemma chain_frame:
  assumes "chain hds a pv p bs q" "\<And>x. p \<le> x \<Longrightarrow> x < q \<Longrightarrow> hds' x = hds x"
  shows "chain hds' a pv p bs q"
  using assms
proof (induction bs arbitrary: pv p)
  case Nil
  then show ?case by simp
next
  case (Cons b bs)
  obtain n u where b: "b = (n, u)" by fastforce
  have "p + n \<le> q"
    using Cons.prems(1) endpos_ge [of bs "p + n"] by (auto simp: b dest: chain_end)
  then show ?case
    using Cons by (auto simp: b)
qed

lemma chain_upd [simp]:
  "chain hds a pv p bs q \<Longrightarrow> x < p \<or> q \<le> x \<Longrightarrow> chain (hds(x := v)) a pv p bs q"
  by (erule chain_frame) auto

lemma sizes_ok_roomy: "sizes_ok bs \<Longrightarrow> roomy bs"
  by (induction bs) auto

lemma lastpos_range: "sizes_ok bs \<Longrightarrow> bs \<noteq> [] \<Longrightarrow> p \<le> lastpos pv p bs \<and> lastpos pv p bs < endpos p bs"
  by (rule roomy_lastpos [OF sizes_ok_roomy])

section \<open>The invariant\<close>

definition smem_ok :: "rt_small_mem \<Rightarrow> block list \<Rightarrow> bool" where
  "smem_ok m bs \<longleftrightarrow>
     0 < sm_addr m \<and> sm_addr m mod 32 = 0 \<and> sm_addr m < 4294967264 \<and>
     0 < heap_ptr m \<and> heap_ptr m mod 32 = 0 \<and>
     0 \<le> mem_size_aligned m \<and> heap_end m = mem_size_aligned m + 32 \<and>
     heap_ptr m + heap_end m + 32 \<le> 4294967296 \<and>
     bs \<noteq> [] \<and> chain (items m) (sm_addr m) 0 0 bs (heap_end m) \<and>
     (\<exists>pv. items m (heap_end m) =
        Some \<lparr>pool_ptr = MEM_USED (sm_addr m), inext = heap_end m, iprev = pv\<rparr>) \<and>
     lfree m = ffree 0 bs \<and> mem_used m = used_size bs"

text \<open>No two neighbouring free blocks: freed blocks are merged.\<close>

definition smem_inv :: "rt_small_mem \<Rightarrow> block list \<Rightarrow> bool" where
  "smem_inv m bs \<longleftrightarrow> smem_ok m bs \<and> noadj bs"

text \<open>What no operation changes, apart from its own effect on the blocks.\<close>

definition same_pool :: "rt_small_mem \<Rightarrow> rt_small_mem \<Rightarrow> bool" where
  "same_pool m m' \<longleftrightarrow> sm_addr m' = sm_addr m \<and> heap_ptr m' = heap_ptr m \<and> heap_end m' = heap_end m \<and>
     mem_size_aligned m' = mem_size_aligned m \<and> mem_total m' = mem_total m"

lemma same_pool_refl [simp]: "same_pool m m"
  by (simp add: same_pool_def)

lemma same_pool_trans: "same_pool a b \<Longrightarrow> same_pool b c \<Longrightarrow> same_pool a c"
  by (simp add: same_pool_def)

lemma smem_okD:
  assumes "smem_ok m bs"
  shows "even (sm_addr m)" "0 \<le> sm_addr m" "sm_addr m < 4294967264" "heap_end m = endpos 0 bs"
    "sizes_ok bs" "chain (items m) (sm_addr m) 0 0 bs (heap_end m)" "lfree m = ffree 0 bs"
    "mem_used m = used_size bs" "heap_end m = mem_size_aligned m + 32" "bs \<noteq> []"
    "0 < heap_ptr m" "heap_ptr m mod 32 = 0" "heap_ptr m + heap_end m + 32 \<le> 4294967296"
    "0 \<le> mem_size_aligned m"
  using assms chain_end [of "items m" "sm_addr m" 0 0 bs "heap_end m"]
  by (auto simp: smem_ok_def)

lemma smem_flags [simp]:
  assumes "smem_ok m bs"
  shows "MEM_USED (sm_addr m) = sm_addr m + 1" "MEM_FREED (sm_addr m) = sm_addr m"
    "MEM_ISUSED \<lparr>pool_ptr = sm_addr m + 1, inext = i, iprev = j\<rparr>"
    "\<not> MEM_ISUSED \<lparr>pool_ptr = sm_addr m, inext = i, iprev = j\<rparr>"
    "MEM_POOL \<lparr>pool_ptr = sm_addr m + 1, inext = i, iprev = j\<rparr> = sm_addr m"
    "MEM_POOL \<lparr>pool_ptr = sm_addr m, inext = i, iprev = j\<rparr> = sm_addr m"
  using smem_okD(1-3) [OF assms] MEM_POOL_flags [of "sm_addr m"]
  by (auto simp: MEM_ISUSED_def MEM_POOL_def and_one_eq)

lemma smem_header:
  assumes "smem_ok m (xs @ (n, u) # ys)"
  shows "items m (endpos 0 xs) = Some \<lparr>pool_ptr = (if u then sm_addr m + 1 else sm_addr m),
      inext = endpos 0 xs + n, iprev = lastpos 0 0 xs\<rparr>"
    "32 \<le> n" "n mod 32 = 0" "0 \<le> endpos 0 xs" "endpos 0 xs + n \<le> heap_end m"
    "u \<longrightarrow> 64 \<le> n"
  using smem_okD [OF assms] smem_flags [OF assms] endpos_ge [of xs 0]
    endpos_ge [of ys "endpos 0 xs + n"]
  by (auto simp: chain_append)

lemma smem_last_block:
  assumes "smem_ok m (xs @ (n, u) # ys)"
  shows "endpos 0 xs + n = mem_size_aligned m + 32 \<longleftrightarrow> ys = []"
proof -
  note D = smem_okD [OF assms]
  have "ys \<noteq> [] \<Longrightarrow> endpos 0 xs + n < endpos (endpos 0 xs + n) ys"
    using lastpos_range [of ys "endpos 0 xs + n"] D(5) by fastforce
  then show ?thesis using D(4,9) by (cases "ys = []") auto
qed

text \<open>The header that follows a block exists: the next block's or the end mark.\<close>

lemma smem_end_header:
  assumes "smem_ok m bs"
  obtains pv where "items m (heap_end m) =
    Some \<lparr>pool_ptr = sm_addr m + 1, inext = heap_end m, iprev = pv\<rparr>"
  using assms smem_flags [OF assms] by (auto simp: smem_ok_def)

lemma chain_set_prev:
  assumes "chain hds a pv p bs q" "bs \<noteq> []" "hds p = Some it"
  shows "chain (hds(p \<mapsto> it\<lparr>iprev := pv'\<rparr>)) a pv' p bs q"
proof -
  obtain n u cs where bs: "bs = (n, u) # cs" using assms(2) by (cases bs) auto
  then show ?thesis
    using assms(1,3) by (auto intro: chain_upd)
qed

text \<open>
  Replacing the middle of the chain: headers below \<open>p\<close> and strictly between \<open>q\<close> and the end are
  the same, the header at \<open>q\<close> has its predecessor changed, and the new middle is described.
\<close>

lemma smem_replace:
  assumes ok: "smem_ok m (xs @ mid @ ys)"
    and pool: "same_pool m m'"
    and q: "q = endpos (endpos 0 xs) mid"
    and mid': "chain (items m') (sm_addr m) (lastpos 0 0 xs) (endpos 0 xs) mid' q" "mid' \<noteq> []"
    and below: "\<And>x. x < endpos 0 xs \<Longrightarrow> items m' x = items m x"
    and above: "\<And>x. q < x \<Longrightarrow> items m' x = items m x"
    and at_q: "items m' q = map_option (iprev_update (\<lambda>_. lastpos (lastpos 0 0 xs) (endpos 0 xs) mid')) (items m q) \<or>
               ys = [] \<and> items m' q = items m q"
    and counts: "lfree m' = ffree 0 (xs @ mid' @ ys)" "mem_used m' = used_size (xs @ mid' @ ys)"
  shows "smem_ok m' (xs @ mid' @ ys)"
proof -
  note D = smem_okD [OF ok]
  have ch: "chain (items m) (sm_addr m) 0 0 xs (endpos 0 xs)"
      "chain (items m) (sm_addr m) (lastpos (lastpos 0 0 xs) (endpos 0 xs) mid) q ys (heap_end m)"
    using D(6) q by (auto simp: chain_append)
  have 1: "chain (items m') (sm_addr m) 0 0 xs (endpos 0 xs)"
    using ch(1) below by (auto intro: chain_frame)
  have 2: "chain (items m') (sm_addr m) (lastpos (lastpos 0 0 xs) (endpos 0 xs) mid') q ys (heap_end m)"
  proof (cases ys)
    case Nil
    then show ?thesis using ch(2) by simp
  next
    case (Cons y ys')
    obtain it where it: "items m q = Some it"
      using ch(2) Cons by (cases y) auto
    let ?h = "(items m)(q \<mapsto> it\<lparr>iprev := lastpos (lastpos 0 0 xs) (endpos 0 xs) mid'\<rparr>)"
    have "chain ?h (sm_addr m) (lastpos (lastpos 0 0 xs) (endpos 0 xs) mid') q ys (heap_end m)"
      using chain_set_prev [OF ch(2) _ it] Cons by simp
    then show ?thesis
      by (rule chain_frame) (use above at_q Cons it in \<open>auto simp: le_less\<close>)
  qed
  have q': "endpos (endpos 0 xs) mid' = q" using mid'(1) chain_end by metis
  have 3: "chain (items m') (sm_addr m') 0 0 (xs @ mid' @ ys) (heap_end m')"
    using 1 2 mid'(1) pool q' by (auto simp: chain_append same_pool_def)
  obtain pv where pv: "items m (heap_end m) =
      Some \<lparr>pool_ptr = sm_addr m + 1, inext = heap_end m, iprev = pv\<rparr>"
    using smem_end_header [OF ok] .
  have "q \<le> heap_end m" using chain_end [OF ch(2)] endpos_ge by auto
  then have 4: "\<exists>pv. items m' (heap_end m) = Some \<lparr>pool_ptr = MEM_USED (sm_addr m), inext = heap_end m, iprev = pv\<rparr>"
    using at_q above [of "heap_end m"] pv smem_flags [OF ok] by (cases "q = heap_end m") auto
  show ?thesis
    using ok pool counts 3 4 mid'(2) by (auto simp: smem_ok_def same_pool_def)
qed

section \<open>Merging neighbours\<close>

lemma ffree_le_free: "ffree p (xs @ (n, False) # ys) = ffree p (xs @ [(n', False)])"
  by (simp add: ffree_append)

lemma ffree_le_pos:
  "sizes_ok xs \<Longrightarrow> ffree p (xs @ (n, False) # ys) \<le> endpos p xs"
  using ffree_ge [of xs p] by (auto simp: ffree_append)

lemma set_item_Some: "items m x = Some it \<Longrightarrow> set_item m x f = Some (m\<lparr>items := (items m)(x \<mapsto> f it)\<rparr>)"
  by (simp add: set_item_def)

lemma smem_next_header:
  assumes "smem_ok m (xs @ ys)"
  shows "\<exists>it. items m (endpos 0 xs) = Some it"
proof (cases ys)
  case Nil
  then show ?thesis
    using smem_okD(4) [OF assms] smem_end_header [OF assms] by (auto elim: smem_end_header)
next
  case (Cons z zs)
  then have "smem_ok m (xs @ (fst z, snd z) # zs)" using assms by simp
  from smem_header(1) [OF this] show ?thesis by simp
qed

lemma plug_forward_ok:
  assumes ok: "smem_ok m (xs @ (n, False) # ys)"
  shows "\<exists>m'. plug_forward m (endpos 0 xs) = Some m' \<and> smem_ok m' (xs @ merge_next n ys) \<and>
     same_pool m m' \<and> heap_bytes m' = heap_bytes m"
proof -
  let ?p = "endpos 0 xs"
  note h = smem_header [OF ok]
  obtain pv where e: "items m (heap_end m) =
      Some \<lparr>pool_ptr = sm_addr m + 1, inext = heap_end m, iprev = pv\<rparr>"
    using smem_end_header [OF ok] .
  show ?thesis
  proof (cases ys)
    case Nil
    then have "?p + n = heap_end m" using smem_okD(4) [OF ok] by simp
    then show ?thesis
      using h e ok Nil by (simp add: plug_forward_def)
  next
    case (Cons y ys')
    obtain k v where y: "y = (k, v)" by fastforce
    have ok2: "smem_ok m ((xs @ [(n, False)]) @ (k, v) # ys')" using ok Cons y by simp
    note h2 = smem_header [OF ok2]
    show ?thesis
    proof (cases v)
      case True
      then show ?thesis
        using h h2 ok Cons y smem_flags [OF ok] by (simp add: plug_forward_def)
    next
      case False
      let ?q = "?p + n + k"
      define m3 where "m3 = m\<lparr>items := (items m)(?p + n \<mapsto> \<lparr>pool_ptr = 0, inext = ?q, iprev = ?p\<rparr>,
        ?p \<mapsto> \<lparr>pool_ptr = sm_addr m, inext = ?q, iprev = lastpos 0 0 xs\<rparr>)\<rparr>"
      have lf: "lfree m \<noteq> ?p + n"
        using smem_okD(5,7) [OF ok] h(2) ffree_le_pos [of xs 0 n ys] by auto
      have "smem_ok m ((xs @ [(n, False), (k, v)]) @ ys')" using ok2 by simp
      from smem_next_header [OF this] have "\<exists>it. items m ?q = Some it" by (simp add: add.assoc)
      then obtain it where it: "items m ?q = Some it" by blast
      have it3: "items m3 ?q = Some it" using it h(2) h2(2) by (simp add: m3_def)
      let ?m' = "m3\<lparr>items := (items m3)(?q \<mapsto> it\<lparr>iprev := ?p\<rparr>)\<rparr>"
      have neq: "?p + n \<noteq> heap_end m" "n \<noteq> 0" "k \<noteq> 0" "n + k \<noteq> 0" using h2 h(2) by auto
      have hdn: "items m (?p + n) = Some \<lparr>pool_ptr = sm_addr m, inext = ?q, iprev = ?p\<rparr>"
        using h2(1) False by (simp add: lastpos_append)
      have run: "plug_forward m ?p = Some ?m'"
        using h(1) hdn lf neq smem_flags [OF ok] it it3
        by (simp add: plug_forward_def set_item_def m3_def)
      have "smem_ok ?m' (xs @ [(n + k, False)] @ ys')"
      proof (rule smem_replace [where m = m and mid = "[(n, False), (k, False)]" and q = ?q])
        show "smem_ok m (xs @ [(n, False), (k, False)] @ ys')" using ok Cons y False by simp
        show "lfree ?m' = ffree 0 (xs @ [(n + k, False)] @ ys')"
          using smem_okD(7) [OF ok] by (simp add: m3_def ffree_append)
        show "mem_used ?m' = used_size (xs @ [(n + k, False)] @ ys')"
          using smem_okD(8) [OF ok] Cons y False by (simp add: m3_def)
      qed (use h h2 neq smem_flags [OF ok] it in \<open>auto simp: same_pool_def m3_def add.assoc\<close>)
      then show ?thesis
        using run Cons y False by (auto simp: same_pool_def m3_def)
    qed
  qed
qed

lemma plug_backward_ok:
  assumes ok: "smem_ok m (xs @ (n, False) # ys)"
  shows "\<exists>m'. plug_backward m (endpos 0 xs) = Some m' \<and> smem_ok m' (merge_prev xs ((n, False) # ys)) \<and>
     same_pool m m' \<and> heap_bytes m' = heap_bytes m"
proof (cases xs rule: rev_cases)
  case Nil
  then show ?thesis
    using smem_header(1) [OF ok] ok by (simp add: plug_backward_def merge_prev_def)
next
  case (snoc xs0 y)
  obtain k v where y: "y = (k, v)" by fastforce
  let ?p = "endpos 0 xs" and ?pm = "endpos 0 xs0" and ?q = "endpos 0 xs + n"
  note h = smem_header [OF ok]
  have ok2: "smem_ok m (xs0 @ (k, v) # (n, False) # ys)" using ok snoc y by simp
  note h2 = smem_header [OF ok2]
  have p: "?p = ?pm + k" by (simp add: snoc y)
  show ?thesis
  proof (cases v)
    case True
    then show ?thesis
      using h h2 ok snoc y smem_flags [OF ok] by (simp add: plug_backward_def merge_prev_def)
  next
    case False
    have "smem_ok m ((xs @ [(n, False)]) @ ys)" using ok by simp
    from smem_next_header [OF this] obtain it where it: "items m ?q = Some it" by auto
    have neq: "n \<noteq> 0" "k \<noteq> 0" "k + n \<noteq> 0" using h(2) h2(2) by auto
    have lf: "lfree m \<noteq> ?p"
      using smem_okD(5,7) [OF ok2] h2(2) ffree_le_pos [of xs0 0 k "(n, False) # ys"] False p by auto
    let ?m' = "m\<lparr>items := (items m)(?p \<mapsto> \<lparr>pool_ptr = 0, inext = ?q, iprev = ?pm\<rparr>,
        ?pm \<mapsto> \<lparr>pool_ptr = sm_addr m, inext = ?q, iprev = lastpos 0 0 xs0\<rparr>,
        ?q \<mapsto> it\<lparr>iprev := ?pm\<rparr>)\<rparr>"
    have hdp: "items m ?p = Some \<lparr>pool_ptr = sm_addr m, inext = ?q, iprev = ?pm\<rparr>"
      "items m ?pm = Some \<lparr>pool_ptr = sm_addr m, inext = ?p, iprev = lastpos 0 0 xs0\<rparr>"
      using h(1) h2(1) False by (simp_all add: snoc y)
    have run: "plug_backward m ?p = Some ?m'"
      using hdp lf neq smem_flags [OF ok] it p
      by (simp add: plug_backward_def set_item_def)
    have "smem_ok ?m' (xs0 @ [(k + n, False)] @ ys)"
    proof (rule smem_replace [where m = m and mid = "[(k, False), (n, False)]" and q = ?q])
      show "smem_ok m (xs0 @ [(k, False), (n, False)] @ ys)" using ok2 False by simp
      show "lfree ?m' = ffree 0 (xs0 @ [(k + n, False)] @ ys)"
        using smem_okD(7) [OF ok2] False by (simp add: ffree_append)
      show "mem_used ?m' = used_size (xs0 @ [(k + n, False)] @ ys)"
        using smem_okD(8) [OF ok2] False by simp
    qed (use h h2 neq smem_flags [OF ok] it p in \<open>auto simp: same_pool_def\<close>)
    then show ?thesis
      using run snoc y False by (auto simp: same_pool_def merge_prev_def)
  qed
qed

lemma plug_holes_ok:
  assumes ok: "smem_ok m (xs @ (n, False) # ys)"
  shows "\<exists>m'. plug_holes m (endpos 0 xs) = Some m' \<and> smem_ok m' (plugged xs n ys) \<and>
     same_pool m m' \<and> heap_bytes m' = heap_bytes m"
proof -
  obtain m1 where m1: "plug_forward m (endpos 0 xs) = Some m1" "smem_ok m1 (xs @ merge_next n ys)"
      "same_pool m m1" "heap_bytes m1 = heap_bytes m"
    using plug_forward_ok [OF ok] by blast
  obtain k zs where mn: "merge_next n ys = (k, False) # zs" using merge_next_Cons by blast
  obtain m2 where m2: "plug_backward m1 (endpos 0 xs) = Some m2"
      "smem_ok m2 (merge_prev xs (merge_next n ys))" "same_pool m1 m2" "heap_bytes m2 = heap_bytes m1"
    using plug_backward_ok [OF m1(2) [unfolded mn]] mn by auto
  note h = smem_header [OF ok]
  have "plug_holes m (endpos 0 xs) = Some m2"
    using m1(1) m2(1) h by (simp add: plug_holes_def)
  then show ?thesis
    using m1 m2 same_pool_trans by (auto simp: plugged_def)
qed

section \<open>The search loops end\<close>

text \<open>The first free block that can hold \<open>sz\<close> bytes, as a split of the block list.\<close>

fun fit_split :: "int \<Rightarrow> block list \<Rightarrow> (block list \<times> int \<times> block list) option" where
  "fit_split sz [] = None"
| "fit_split sz ((n, u) # bs) =
     (if \<not> u \<and> n - 32 \<ge> sz then Some ([], n, bs)
      else map_option (\<lambda>(xs, k, ys). ((n, u) # xs, k, ys)) (fit_split sz bs))"

lemma fit_split_Some:
  "fit_split sz bs = Some (xs, n, ys) \<Longrightarrow>
     bs = xs @ (n, False) # ys \<and> sz \<le> n - 32 \<and> (\<forall>(k, u) \<in> set xs. \<not> u \<longrightarrow> k - 32 < sz)"
  by (induction sz bs arbitrary: xs rule: fit_split.induct) (auto split: if_splits)

lemma fit_split_None:
  "fit_split sz bs = None \<longleftrightarrow> (\<forall>(k, u) \<in> set bs. \<not> u \<longrightarrow> k - 32 < sz)"
  by (induction sz bs rule: fit_split.induct) auto

lemma fit_split_small:
  "sizes_ok bs \<Longrightarrow> endpos p bs - 32 - sz < p \<Longrightarrow> fit_split sz bs = None"
proof (induction bs arbitrary: p)
  case Nil
  then show ?case by simp
next
  case (Cons b bs)
  obtain n u where b: "b = (n, u)" by fastforce
  have "p + n \<le> endpos (p + n) bs" using Cons.prems endpos_ge by (simp add: b)
  then show ?case using Cons.IH [of "p + n"] Cons.prems by (auto simp: b)
qed

lemma smem_first_fit_chain:
  assumes "chain (items m) (sm_addr m) pv p bs (heap_end m)" "smem_ok m cs"
    "0 \<le> p" "0 \<le> sz"
  shows "smem_first_fit m sz p =
     Some (map_option (\<lambda>(xs, n, ys). endpos p xs) (fit_split sz bs))"
  using assms
proof (induction bs arbitrary: pv p)
  case Nil
  then show ?case
    using smem_okD(9) [OF Nil.prems(2)] by (subst smem_first_fit.simps) simp
next
  case (Cons b bs)
  obtain n u where b: "b = (n, u)" by fastforce
  note ok = smem_okD [OF Cons.prems(2)] smem_flags [OF Cons.prems(2)]
  have hd: "items m p = Some \<lparr>pool_ptr = (if u then sm_addr m + 1 else sm_addr m), inext = p + n, iprev = pv\<rparr>"
    and n: "32 \<le> n" and ch: "chain (items m) (sm_addr m) p (p + n) bs (heap_end m)"
    using Cons.prems(1) ok by (auto simp: b)
  have e: "heap_end m = endpos p (b # bs)" "sizes_ok (b # bs)"
    using chain_end [OF Cons.prems(1)] by auto
  show ?case
  proof (cases "p \<le> mem_size_aligned m - sz")
    case False
    then have "fit_split sz (b # bs) = None"
      using e ok(9) by (intro fit_split_small [where p = p]) auto
    with False show ?thesis by (subst smem_first_fit.simps) simp
  next
    case True
    have "p + n \<le> heap_end m"
      using endpos_ge [of bs "p + n"] e by (auto simp: b)
    then have u: "u32 (p + n - (p + SIZEOF_STRUCT_MEM)) = n - 32"
      using n Cons.prems(3) ok(11,13) by (simp add: c_store)
    show ?thesis
    proof (cases "\<not> u \<and> sz \<le> n - 32")
      case fits: True
      then show ?thesis
        using True hd u ok by (subst smem_first_fit.simps) (simp add: b)
    next
      case no: False
      have "smem_first_fit m sz p = smem_first_fit m sz (p + n)"
        using True no hd u ok by (subst smem_first_fit.simps) (auto simp: b)
      then show ?thesis
        using Cons.IH [OF ch Cons.prems(2)] Cons.prems(3,4) n no
        by (auto simp: b option.map_comp o_def split_beta)
    qed
  qed
qed

lemma smem_next_free_chain:
  assumes "chain (items m) (sm_addr m) pv p bs (heap_end m)" "smem_ok m' cs"
    "sm_addr m' = sm_addr m" "items m (heap_end m) = Some e"
  shows "smem_next_free m p = Some (ffree p bs)"
  using assms
proof (induction bs arbitrary: pv p)
  case Nil
  then show ?case by (subst smem_next_free.simps) simp
next
  case (Cons b bs)
  obtain n u where b: "b = (n, u)" by fastforce
  note fl = smem_flags [OF Cons.prems(2), unfolded Cons.prems(3)]
  have "p \<noteq> heap_end m"
    using chain_end [OF Cons.prems(1)] endpos_ge [of bs "p + n"] by (auto simp: b)
  then have step: "smem_next_free m p = (if u then smem_next_free m (p + n) else Some p)"
    using Cons.prems(1) fl by (subst smem_next_free.simps) (auto simp: b)
  show ?case
    using step Cons.IH [of p "p + n"] Cons.prems by (auto simp: b)
qed

section \<open>Allocation\<close>

text \<open>The request as the allocator rounds it, and the block list after taking \<open>s\<close> bytes out of a
  free block of size \<open>n\<close>.\<close>

definition alloc_size :: "int \<Rightarrow> int" where
  "alloc_size sz0 = (if RT_ALIGN sz0 RT_ALIGN_SIZE < MIN_SIZE_ALIGNED then MIN_SIZE_ALIGNED
                     else RT_ALIGN sz0 RT_ALIGN_SIZE)"

definition take_block :: "int \<Rightarrow> int \<Rightarrow> block list" where
  "take_block s n = (if n - 32 \<ge> s + 64 then [(s + 32, True), (n - 32 - s, False)] else [(n, True)])"

lemma alloc_size_props: "32 \<le> alloc_size sz0" "alloc_size sz0 mod 32 = 0"
  using RT_ALIGN_32 [of sz0] by (auto simp: alloc_size_def)

lemma fit_split_used_prefix:
  "\<forall>(n, u) \<in> set ws. u \<Longrightarrow>
     fit_split s (ws @ rest) = map_option (\<lambda>(xs, n, ys). (ws @ xs, n, ys)) (fit_split s rest)"
  by (induction ws; cases "fit_split s rest") auto

lemma ffree_decomp:
  "\<exists>ws rest. bs = ws @ rest \<and> (\<forall>(n, u) \<in> set ws. u) \<and> ffree p bs = endpos p ws"
proof (induction p bs rule: ffree.induct)
  case (1 p)
  show ?case by (intro exI [of _ "[]"]) simp
next
  case (2 p n u bs)
  show ?case
  proof (cases u)
    case True
    then obtain ws rest where "bs = ws @ rest" "\<forall>(n, u) \<in> set ws. u" "ffree (p + n) bs = endpos (p + n) ws"
      using 2 by blast
    then show ?thesis
      using True by (intro exI [of _ "(n, u) # ws"] exI [of _ rest]) auto
  next
    case False
    then show ?thesis by (intro exI [of _ "[]"] exI [of _ "(n, u) # bs"]) simp
  qed
qed

lemma smem_first_fit_lfree:
  assumes ok: "smem_ok m bs" and s: "0 \<le> s"
  shows "smem_first_fit m s (lfree m) = Some (map_option (\<lambda>(xs, n, ys). endpos 0 xs) (fit_split s bs))"
proof -
  obtain ws rest where ws: "bs = ws @ rest" "\<forall>(n, u) \<in> set ws. u" "ffree 0 bs = endpos 0 ws"
    using ffree_decomp by blast
  have ch: "chain (items m) (sm_addr m) (lastpos 0 0 ws) (endpos 0 ws) rest (heap_end m)"
    using smem_okD(6) [OF ok] ws(1) by (simp add: chain_append)
  have "0 \<le> endpos 0 ws"
    using smem_okD(5) [OF ok] ws(1) endpos_ge [of ws 0] by simp
  then have "smem_first_fit m s (lfree m) =
      Some (map_option (\<lambda>(xs, n, ys). endpos (endpos 0 ws) xs) (fit_split s rest))"
    using smem_first_fit_chain [OF ch ok _ s] smem_okD(7) [OF ok] ws(3) by simp
  then show ?thesis
    using ws(1,2) by (cases "fit_split s rest") (auto simp: fit_split_used_prefix)
qed

lemma fit_split_too_big:
  assumes "smem_ok m bs" "mem_size_aligned m < s"
  shows "fit_split s bs = None"
  using smem_okD(4,5,9) [OF assms(1)] assms(2)
  by (intro fit_split_small [where p = 0]) auto

lemma smem_take:
  assumes ok: "smem_ok m (xs @ (n, False) # ys)" and s: "32 \<le> s" "s mod 32 = 0" "s \<le> n - 32"
    and it: "\<And>x. items m2 x = (if x = endpos 0 xs then Some \<lparr>pool_ptr = sm_addr m + 1,
           inext = endpos 0 xs + fst (hd (take_block s n)), iprev = lastpos 0 0 xs\<rparr>
         else if n - 32 \<ge> s + 64 \<and> x = endpos 0 xs + 32 + s
           then Some \<lparr>pool_ptr = sm_addr m, inext = endpos 0 xs + n, iprev = endpos 0 xs\<rparr>
         else if n - 32 \<ge> s + 64 \<and> ys \<noteq> [] \<and> x = endpos 0 xs + n
           then map_option (iprev_update (\<lambda>_. endpos 0 xs + 32 + s)) (items m x)
         else items m x)"
    and pool: "same_pool m m2"
    and used: "mem_used m2 = used_size (xs @ take_block s n @ ys)"
    and lf: "lfree m2 = ffree 0 (xs @ take_block s n @ ys)"
  shows "smem_ok m2 (xs @ take_block s n @ ys)"
proof (rule smem_replace [where m = m and mid = "[(n, False)]" and q = "endpos 0 xs + n"])
  note h = smem_header [OF ok] and fl = smem_flags [OF ok]
  show "smem_ok m (xs @ [(n, False)] @ ys)" using ok by simp
  show "chain (items m2) (sm_addr m) (lastpos 0 0 xs) (endpos 0 xs) (take_block s n) (endpos 0 xs + n)"
  proof (cases "n - 32 \<ge> s + 64")
    case True
    then show ?thesis
      using h s fl unfolding take_block_def by (auto simp: it take_block_def)
  next
    case False
    then show ?thesis
      using h s fl unfolding take_block_def by (auto simp: it take_block_def)
  qed
  show "items m2 (endpos 0 xs + n) = map_option (iprev_update (\<lambda>_. lastpos (lastpos 0 0 xs) (endpos 0 xs)
          (take_block s n))) (items m (endpos 0 xs + n)) \<or>
        ys = [] \<and> items m2 (endpos 0 xs + n) = items m (endpos 0 xs + n)"
  proof (cases "n - 32 \<ge> s + 64")
    case True
    then show ?thesis using h s by (auto simp: it take_block_def algebra_simps)
  next
    case False
    have "ys = [] \<or> (\<exists>k u zs. ys = (k, u) # zs)" by (cases ys) auto
    moreover have "items m (endpos 0 xs + n) = map_option (iprev_update (\<lambda>_. endpos 0 xs)) (items m (endpos 0 xs + n))"
      if "ys = (k, u) # zs" for k u zs
      using smem_header(1) [of m "xs @ [(n, False)]" k u zs] ok that by simp
    ultimately show ?thesis
      using h False by (auto simp: it take_block_def)
  qed
qed (use ok s smem_header [OF ok] pool used lf in \<open>auto simp: it take_block_def\<close>)

lemma ffree_less: "sizes_ok xs \<Longrightarrow> \<not> (\<forall>(n, u) \<in> set xs. u) \<Longrightarrow> ffree p xs < endpos p xs"
proof (induction p xs rule: ffree.induct)
  case (2 p n u bs)
  then show ?case using endpos_ge [of bs "p + n"] by auto
qed simp

lemma smem_mark_ok:
  assumes ok: "smem_ok m (xs @ (n, False) # ys)" and s: "32 \<le> s" "s mod 32 = 0" "s \<le> n - 32"
  defines "bs' \<equiv> xs @ take_block s n @ ys"
  shows "\<exists>m2. smem_mark m s (endpos 0 xs) = Some m2 \<and> smem_ok (m2\<lparr>lfree := ffree 0 bs'\<rparr>) bs' \<and>
     same_pool m m2 \<and> lfree m2 = lfree m \<and> heap_bytes m2 = heap_bytes m"
proof -
  let ?p = "endpos 0 xs"
  note h = smem_header [OF ok] and D = smem_okD [OF ok] and fl = smem_flags [OF ok]
  note e = smem_last_block [OF ok]
  have u: "u32 (?p + n - (?p + SIZEOF_STRUCT_MEM)) = n - 32"
    using h D(11,13) by (simp add: c_store)
  have cnt: "count_used m' k = m'\<lparr>mem_used := mem_used m + k,
      mem_max := (if mem_max m' < mem_used m + k then mem_used m + k else mem_max m')\<rparr>"
    if "mem_used m' = mem_used m" "0 \<le> k" "k \<le> n" for m' k
  proof -
    have "0 \<le> used_size xs \<and> used_size xs \<le> ?p" "0 \<le> used_size ys \<and> ?p + n + used_size ys \<le> heap_end m"
      using used_size_bounds [of xs 0] used_size_bounds [of ys "?p + n"] D(4,5) by auto
    then have "0 \<le> mem_used m + k" "mem_used m + k < 4294967296"
      using that D(8,11,13) by auto
    then show ?thesis using that by (simp add: count_used_def Let_def c_store)
  qed
  have tb: "used_size (take_block s n) = (if n - 32 \<ge> s + 64 then s + 32 else n)"
    by (simp add: take_block_def)
  show ?thesis
  proof (cases "n - 32 \<ge> s + 64")
    case True
    obtain itn where itn: "ys \<noteq> [] \<Longrightarrow> items m (?p + n) = Some itn"
    proof (cases ys)
      case (Cons y zs)
      then show ?thesis
        using smem_next_header [of m "xs @ [(n, False)]" ys] ok that by auto
    qed (use that in simp)
    let ?i1 = "(items m)(?p + 32 + s \<mapsto> \<lparr>pool_ptr = sm_addr m, inext = ?p + n, iprev = ?p\<rparr>,
        ?p \<mapsto> \<lparr>pool_ptr = sm_addr m, inext = ?p + 32 + s, iprev = lastpos 0 0 xs\<rparr>)"
    let ?i2 = "if ys = [] then ?i1 else ?i1(?p + n \<mapsto> itn\<lparr>iprev := ?p + 32 + s\<rparr>)"
    let ?i3 = "?i2(?p \<mapsto> \<lparr>pool_ptr = sm_addr m + 1, inext = ?p + 32 + s, iprev = lastpos 0 0 xs\<rparr>)"
    let ?m2 = "m\<lparr>items := ?i3, mem_used := mem_used m + (s + 32),
        mem_max := (if mem_max m < mem_used m + (s + 32) then mem_used m + (s + 32) else mem_max m)\<rparr>"
    have run: "smem_mark m s ?p = Some ?m2"
      using h(1,2) u True s itn fl e
      by (simp add: smem_mark_def set_item_def cnt Let_def)
    have "smem_ok (?m2\<lparr>lfree := ffree 0 bs'\<rparr>) bs'"
      unfolding bs'_def
    proof (rule smem_take [OF ok s])
      show "mem_used (?m2\<lparr>lfree := ffree 0 (xs @ take_block s n @ ys)\<rparr>) = used_size (xs @ take_block s n @ ys)"
        using D(8) True tb by simp
    qed (use True itn s h(2) in \<open>auto simp: same_pool_def take_block_def\<close>)
    then show ?thesis
      using run by (auto simp: same_pool_def)
  next
    case False
    let ?m2 = "m\<lparr>items := (items m)(?p \<mapsto> \<lparr>pool_ptr = sm_addr m + 1, inext = ?p + n, iprev = lastpos 0 0 xs\<rparr>),
        mem_used := mem_used m + n,
        mem_max := (if mem_max m < mem_used m + n then mem_used m + n else mem_max m)\<rparr>"
    have run: "smem_mark m s ?p = Some ?m2"
      using h(1,2) u False fl by (simp add: smem_mark_def set_item_def cnt Let_def)
    have "smem_ok (?m2\<lparr>lfree := ffree 0 bs'\<rparr>) bs'"
      unfolding bs'_def
    proof (rule smem_take [OF ok s])
      show "mem_used (?m2\<lparr>lfree := ffree 0 (xs @ take_block s n @ ys)\<rparr>) = used_size (xs @ take_block s n @ ys)"
        using D(8) False tb by simp
    qed (use False in \<open>auto simp: same_pool_def take_block_def\<close>)
    then show ?thesis
      using run by (auto simp: same_pool_def)
  qed
qed

lemma aligned_and_31: "(x AND 31 = 0) \<longleftrightarrow> x mod 32 = 0" for x :: int
  using take_bit_eq_mask [of 5 x] by (simp add: mask_eq_exp_minus_1 take_bit_eq_mod)

lemma smem_alloc_cases:
  assumes ok: "smem_ok m bs" and sz0: "sz0 \<noteq> 0"
  shows "case fit_split (alloc_size sz0) bs of
       None \<Rightarrow> rt_smem_alloc m sz0 = Some (0, m)
     | Some (xs, n, ys) \<Rightarrow> \<exists>m'. rt_smem_alloc m sz0 = Some (heap_ptr m + endpos 0 xs + 32, m') \<and>
         smem_ok m' (xs @ take_block (alloc_size sz0) n @ ys) \<and> same_pool m m' \<and>
         heap_bytes m' = heap_bytes m"
proof -
  define s where "s = alloc_size sz0"
  have s: "32 \<le> s" "s mod 32 = 0" using alloc_size_props by (auto simp: s_def)
  note D = smem_okD [OF ok]
  note ff = smem_first_fit_lfree [OF ok, of s]
  have sz: "(if RT_ALIGN sz0 RT_ALIGN_SIZE < MIN_SIZE_ALIGNED then MIN_SIZE_ALIGNED
      else RT_ALIGN sz0 RT_ALIGN_SIZE) = s" by (simp add: s_def alloc_size_def)
  show ?thesis
  proof (cases "fit_split s bs")
    case None
    then show ?thesis
      using ff s sz0 unfolding rt_smem_alloc_def sz Let_def by (simp add: s_def [symmetric])
  next
    case (Some a)
    obtain xs n ys where a: "a = (xs, n, ys)" by (cases a) auto
    note fs = fit_split_Some [OF Some [unfolded a]]
    have bs: "bs = xs @ (n, False) # ys" and sn: "s \<le> n - 32" using fs by auto
    note ok' = ok [unfolded bs]
    note h = smem_header [OF ok']
    let ?p = "endpos 0 xs" and ?bs' = "xs @ take_block s n @ ys"
    have le: "s \<le> mem_size_aligned m"
      using fit_split_too_big [OF ok, of s] Some by (auto simp: not_less [symmetric])
    obtain m2 where m2: "smem_mark m s ?p = Some m2" "smem_ok (m2\<lparr>lfree := ffree 0 ?bs'\<rparr>) ?bs'"
        "same_pool m m2" "lfree m2 = lfree m" "heap_bytes m2 = heap_bytes m"
      using smem_mark_ok [OF ok' s sn] by blast
    let ?m3 = "m2\<lparr>lfree := ffree 0 ?bs'\<rparr>"
    have lf: "(if ?p = lfree m2 then do { p \<leftarrow> smem_next_free m2 (lfree m2); Some (m2\<lparr>lfree := p\<rparr>) }
        else Some m2) = Some ?m3"
    proof (cases "\<forall>(n, u) \<in> set xs. u")
      case True
      have "chain (items m2) (sm_addr m2) (lastpos 0 0 xs) ?p (take_block s n @ ys) (heap_end m2)"
        using smem_okD(6) [OF m2(2)] by (simp add: chain_append)
      moreover obtain e where "items m2 (heap_end m2) = Some e"
        using smem_end_header [OF m2(2)] by auto
      ultimately have "smem_next_free m2 ?p = Some (ffree ?p (take_block s n @ ys))"
        using smem_next_free_chain m2(2) by fastforce
      then show ?thesis
        using True m2(4) D(7) bs by (simp add: ffree_append)
    next
      case False
      have "ffree 0 (xs @ zs) = ffree 0 xs" for zs
        using False unfolding ffree_append by auto
      then have "lfree m = ffree 0 xs" "ffree 0 ?bs' = ffree 0 xs"
        using D(7) bs by auto
      moreover have "ffree 0 xs < ?p" using ffree_less [OF _ False] D(5) bs by simp
      ultimately show ?thesis using m2(4) by simp
    qed
    have al: "(heap_ptr m + ?p) mod 32 = 0"
      using D(5,12) bs endpos_mod [of xs 0] by (simp add: mod_add_eq [symmetric])
    have hp: "heap_ptr m2 = heap_ptr m" "heap_end m2 = heap_end m"
      using m2(3) by (auto simp: same_pool_def)
    have "rt_smem_alloc m sz0 = Some (heap_ptr m + ?p + 32, ?m3)"
      using ff s(1) sz0 le Some a m2(1) lf al hp h sn
      unfolding rt_smem_alloc_def sz Let_def by (simp add: aligned_and_31)
    then show ?thesis
      using m2 Some a by (auto simp: s_def [symmetric] same_pool_def)
  qed
qed

lemma noadj_take:
  assumes "noadj (xs @ (n, False) # ys)"
  shows "noadj (xs @ take_block s n @ ys)"
  using assms by (cases ys) (auto simp: take_block_def noadj_append noadj_Cons simp del: noadj.simps(1))

section \<open>Release\<close>

lemma smem_free_ok:
  assumes ok: "smem_ok m (xs @ (n, True) # ys)"
  shows "\<exists>m'. rt_smem_free m (heap_ptr m + endpos 0 xs + 32) = Some m' \<and>
     smem_ok m' (plugged xs n ys) \<and> same_pool m m' \<and> heap_bytes m' = heap_bytes m"
proof -
  let ?p = "endpos 0 xs" and ?bs' = "xs @ (n, False) # ys"
  note h = smem_header [OF ok] and D = smem_okD [OF ok] and fl = smem_flags [OF ok]
  have al: "(heap_ptr m + ?p + 32) mod 32 = 0"
    using D(5,12) endpos_mod [of xs 0] by (simp add: mod_add_eq [symmetric])
  let ?i = "(items m)(?p \<mapsto> \<lparr>pool_ptr = sm_addr m, inext = ?p + n, iprev = lastpos 0 0 xs\<rparr>)"
  let ?m2 = "m\<lparr>items := ?i, lfree := (if ?p < lfree m then ?p else lfree m), mem_used := mem_used m - n\<rparr>"
  obtain nit where nit: "items m (?p + n) = Some nit" "MEM_POOL nit = sm_addr m"
  proof (cases ys)
    case Nil
    obtain pv where "items m (heap_end m) =
        Some \<lparr>pool_ptr = sm_addr m + 1, inext = heap_end m, iprev = pv\<rparr>"
      by (rule smem_end_header [OF ok])
    then show ?thesis
      using that Nil D(4) fl(5) by simp
  next
    case (Cons y zs)
    then have "smem_ok m ((xs @ [(n, True)]) @ (fst y, snd y) # zs)" using ok by simp
    from smem_header(1) [OF this] show ?thesis using that fl by (auto split: if_splits)
  qed
  have used: "u32 (mem_used m - (?p + n - ?p)) = mem_used m - n"
    using used_size_bounds [of xs 0] used_size_bounds [of ys "?p + n"] D(4,5,8,11,13) h
    by (simp add: c_store)
  have run: "rt_smem_free m (heap_ptr m + ?p + 32) = plug_holes ?m2 ?p"
    using h nit al fl used D(11) by (simp add: rt_smem_free_def set_item_def aligned_and_31 Let_def)
  have lf: "(if ?p < lfree m then ?p else lfree m) = ffree 0 ?bs'"
  proof (cases "\<forall>(n, u) \<in> set xs. u")
    case True
    have "?p < ffree 0 (xs @ (n, True) # ys)"
      using True h(2) ffree_ge [of ys "?p + n"] D(5) by (simp add: ffree_append)
    then show ?thesis using D(7) True by (simp add: ffree_append)
  next
    case False
    then have "ffree 0 (xs @ (n, u) # ys) = ffree 0 xs" for u unfolding ffree_append by auto
    then show ?thesis using D(5,7) ffree_less [OF _ False, of 0] by simp
  qed
  have "smem_ok ?m2 (xs @ [(n, False)] @ ys)"
  proof (rule smem_replace [where m = m and mid = "[(n, True)]" and q = "?p + n"])
    show "items ?m2 (?p + n) = map_option (iprev_update (\<lambda>_. lastpos (lastpos 0 0 xs) ?p [(n, False)])) (items m (?p + n)) \<or>
        ys = [] \<and> items ?m2 (?p + n) = items m (?p + n)"
    proof (cases ys)
      case (Cons y zs)
      then have "smem_ok m ((xs @ [(n, True)]) @ (fst y, snd y) # zs)" using ok by simp
      from smem_header(1) [OF this] show ?thesis using h(2) by simp
    qed (use h(2) in simp)
  qed (use ok h fl lf D(8) in \<open>auto simp: same_pool_def\<close>)
  then have "smem_ok ?m2 ?bs'" by simp
  from plug_holes_ok [OF this] show ?thesis
    unfolding run by (auto simp: same_pool_def)
qed

section \<open>Live blocks\<close>

lemma used_blocks_range:
  "sizes_ok bs \<Longrightarrow> (a, k) \<in> used_blocks p bs \<Longrightarrow> p + 32 \<le> a \<and> 32 \<le> k \<and> a + k \<le> endpos p bs"
proof (induction p bs rule: endpos.induct)
  case (2 p n u bs)
  then show ?case using endpos_ge [of bs "p + n"] by (auto split: if_splits)
qed simp

lemma used_blocks_disjoint:
  "sizes_ok bs \<Longrightarrow> (a, k) \<in> used_blocks p bs \<Longrightarrow> (b, l) \<in> used_blocks p bs \<Longrightarrow>
     (a, k) = (b, l) \<or> a + k \<le> b - 32 \<or> b + l \<le> a - 32"
proof (induction p bs rule: endpos.induct)
  case (2 p n u bs)
  then show ?case
    using used_blocks_range [of bs a k "p + n"] used_blocks_range [of bs b l "p + n"]
    by (auto split: if_splits)
qed simp

lemma used_blocks_take:
  "used_blocks p (take_block s n) = {(p + 32, if n - 32 \<ge> s + 64 then s else n - 32)}"
  by (simp add: take_block_def)

text \<open>The abstract heap is determined by the headers.\<close>

lemma chain_unique:
  assumes "chain hds a pv p bs q" "chain hds a pv p bs' q" "MEM_USED a \<noteq> MEM_FREED a"
  shows "bs = bs'"
  using assms
proof (induction bs arbitrary: pv p bs')
  case Nil
  show ?case
  proof (cases bs')
    case (Cons c cs)
    then show ?thesis
      using Nil lastpos_range [of bs' p pv] chain_end [of hds a pv p bs' q] by force
  qed simp
next
  case (Cons b bs)
  obtain n u where b: "b = (n, u)" by fastforce
  show ?case
  proof (cases bs')
    case Nil
    then show ?thesis
      using Cons.prems lastpos_range [of "b # bs" p pv] chain_end [of hds a pv p "b # bs" q] by force
  next
    case (Cons c cs)
    obtain k v where c: "c = (k, v)" by fastforce
    have "n = k" "u = v" using Cons.prems(1-3) by (auto simp: b c Cons split: if_splits)
    then show ?thesis
      using Cons.IH [of p "p + n" cs] Cons.prems(1-3) by (simp add: b c Cons)
  qed
qed

section \<open>Reallocation\<close>

lemma ffree_shrink:
  assumes "sizes_ok (xs @ (n, True) # ys)" "0 < k" "k < n"
  shows "(if endpos 0 xs + k < ffree 0 (xs @ (n, True) # ys) then endpos 0 xs + k
          else ffree 0 (xs @ (n, True) # ys)) =
         ffree 0 (xs @ [(k, True), (n - k, False)] @ ys)"
proof (cases "\<forall>(n, u) \<in> set xs. u")
  case True
  have "endpos 0 xs + k < ffree (endpos 0 xs + n) ys"
    using ffree_ge [of ys "endpos 0 xs + n"] assms by auto
  then show ?thesis using True by (simp add: ffree_append)
next
  case False
  then have "ffree 0 (xs @ zs) = ffree 0 xs" for zs unfolding ffree_append by auto
  moreover have "ffree 0 xs < endpos 0 xs" using ffree_less [OF _ False] assms(1) by simp
  ultimately show ?thesis using assms(2) by simp
qed

lemma smem_realloc_shrink:
  assumes ok: "smem_ok m (xs @ (n, True) # ys)"
    and ns: "RT_ALIGN ns0 RT_ALIGN_SIZE = ns" "0 < ns" "ns + 32 + MIN_SIZE < n - 32"
  shows "\<exists>m'. rt_smem_realloc m (heap_ptr m + endpos 0 xs + 32) ns0 =
       Some (heap_ptr m + endpos 0 xs + 32, m') \<and>
     smem_ok m' (plugged (xs @ [(ns + 32, True)]) (n - 32 - ns) ys) \<and> same_pool m m' \<and>
     heap_bytes m' = heap_bytes m"
proof -
  let ?p = "endpos 0 xs" and ?p2 = "endpos 0 xs + 32 + ns"
  note h = smem_header [OF ok] and D = smem_okD [OF ok] and fl = smem_flags [OF ok]
  have "ns = 32 * (u32 (ns0 + 31) div 32)" using RT_ALIGN_32 [of ns0] ns(1) by simp
  then have nsm: "ns mod 32 = 0" "32 \<le> ns" using ns(2) by presburger+
  have rem: "64 \<le> n - 32 - ns" "(n - 32 - ns) mod 32 = 0"
    using ns(3) nsm h(3) unfolding MIN_SIZE_def by presburger+
  have al: "(heap_ptr m + ?p + 32) mod 32 = 0"
    using D(5,12) endpos_mod [of xs 0] by (simp add: mod_add_eq [symmetric])
  note e = smem_last_block [OF ok]
  have sz: "u32 (?p + n - ?p - SIZEOF_STRUCT_MEM) = n - 32"
    using h D(11,13) by (simp add: c_store)
  have used: "u32 (mem_used m - (n - 32 - ns)) = mem_used m - (n - 32 - ns)"
    using used_size_bounds [of xs 0] used_size_bounds [of ys "?p + n"] D(4,5,8,11,13) h ns(2) rem
    by (simp add: c_store)
  obtain itn where itn: "ys \<noteq> [] \<Longrightarrow> items m (?p + n) = Some itn"
  proof (cases ys)
    case (Cons y zs)
    then show ?thesis
      using smem_next_header [of m "xs @ [(n, True)]" ys] ok that by auto
  qed (use that in simp)
  let ?i1 = "(items m)(?p2 \<mapsto> \<lparr>pool_ptr = sm_addr m, inext = ?p + n, iprev = ?p\<rparr>,
      ?p \<mapsto> \<lparr>pool_ptr = sm_addr m + 1, inext = ?p2, iprev = lastpos 0 0 xs\<rparr>)"
  let ?i2 = "if ys = [] then ?i1 else ?i1(?p + n \<mapsto> itn\<lparr>iprev := ?p2\<rparr>)"
  let ?m4 = "m\<lparr>mem_used := mem_used m - (n - 32 - ns), items := ?i2,
      lfree := (if ?p2 < lfree m then ?p2 else lfree m)\<rparr>"
  have "smem_ok ?m4 (xs @ [(ns + 32, True), (n - 32 - ns, False)] @ ys)"
  proof (rule smem_replace [where m = m and mid = "[(n, True)]" and q = "?p + n"])
    show "lfree ?m4 = ffree 0 (xs @ [(ns + 32, True), (n - 32 - ns, False)] @ ys)"
      using ffree_shrink [of xs n ys "ns + 32"] D(5,7) ns(2) rem
      by (auto simp: algebra_simps split: if_splits)
    show "items ?m4 (?p + n) = map_option (iprev_update (\<lambda>_. lastpos (lastpos 0 0 xs) ?p
        [(ns + 32, True), (n - 32 - ns, False)])) (items m (?p + n)) \<or>
        ys = [] \<and> items ?m4 (?p + n) = items m (?p + n)"
      using itn h(2) rem ns(2) by (auto simp: algebra_simps)
  qed (use ok h fl D(8) nsm rem itn in \<open>auto simp: same_pool_def algebra_simps\<close>)
  then have "smem_ok ?m4 ((xs @ [(ns + 32, True)]) @ (n - 32 - ns, False) # ys)" by simp
  from plug_holes_ok [OF this] obtain m5 where m5: "plug_holes ?m4 ?p2 = Some m5"
      "smem_ok m5 (plugged (xs @ [(ns + 32, True)]) (n - 32 - ns) ys)"
      "same_pool ?m4 m5" "heap_bytes m5 = heap_bytes m"
    by (auto simp: algebra_simps)
  have le: "ns \<le> mem_size_aligned m" using h D(9) rem by linarith
  have "rt_smem_realloc m (heap_ptr m + ?p + 32) ns0 = Some (heap_ptr m + ?p + 32, m5)"
  proof -
    have "n - 32 \<noteq> ns" "?p + n \<noteq> ?p2" using rem by auto
    then show ?thesis
      using h sz le ns al used itn fl D(11) m5(1) rem
      unfolding rt_smem_realloc_def ns(1) Let_def
      by (cases "ys = []"; cases "?p2 < lfree m") (simp_all add: set_item_def aligned_and_31 e)
  qed
  then show ?thesis using m5 by (auto simp: same_pool_def)
qed

end
