(* ===== verification/Allocator.thy ===== *)
theory Allocator
  imports Prelude
begin

text \<open>
  The contracts of a dynamic memory allocator, as the kernel objects that allocate rely on
  it: allocations are fresh, large enough and disjoint from every live block, a release
  gives back exactly one block (\<open>block_source\<close>); a request for nothing gets nothing (\<open>block_allocator\<close>); a resized
  block keeps its contents (\<open>resizable_source\<close>). Clients are proved once against the contracts.
\<close>

text \<open>Blocks that lie a header apart are disjoint.\<close>

lemma apart_weaken:
  fixes r k :: int
  assumes "\<forall>(b, l) \<in> L. r + k + 32 \<le> b \<or> b + l + 32 \<le> r"
  shows "\<forall>(b, l) \<in> L. r + k \<le> b \<or> b + l \<le> r"
  using assms by fastforce

locale block_source =
  fixes wf :: "'h \<Rightarrow> bool"
    and live :: "'h \<Rightarrow> (int \<times> int) set"
    and alloc :: "'h \<Rightarrow> int \<Rightarrow> (int \<times> 'h) option"
    and release :: "'h \<Rightarrow> int \<Rightarrow> 'h option"
  assumes alloc_law: "wf h \<Longrightarrow> 0 < n \<Longrightarrow> n \<le> 4294967264 \<Longrightarrow>
      \<exists>r h'. alloc h n = Some (r, h') \<and> wf h' \<and>
        (r = 0 \<and> live h' = live h \<or>
         (\<exists>k. 0 < r \<and> n \<le> k \<and> live h' = insert (r, k) (live h) \<and>
            (\<forall>(a, l) \<in> live h. r + k \<le> a \<or> a + l \<le> r)))"
    and release_law: "wf h \<Longrightarrow> (r, k) \<in> live h \<Longrightarrow>
      \<exists>h'. release h r = Some h' \<and> wf h' \<and> live h' = live h - {(r, k)}"
    and live_pos: "wf h \<Longrightarrow> (r, k) \<in> live h \<Longrightarrow> 0 < r \<and> 0 < k"
begin

lemma fresh:
  assumes "wf h" "\<forall>(a, l) \<in> live h. r + k \<le> a \<or> a + l \<le> r" "0 < k"
  shows "(r, k') \<notin> live h"
proof
  assume "(r, k') \<in> live h"
  with assms live_pos [OF assms(1), of r k'] show False by force
qed

text \<open>What is released right after it was allocated leaves the heap as it was.\<close>

lemma alloc_release:
  assumes "wf h" "0 < n" "n \<le> 4294967264" "alloc h n = Some (r, h1)" "r \<noteq> 0"
  shows "\<exists>h2. release h1 r = Some h2 \<and> wf h2 \<and> live h2 = live h"
proof -
  obtain k where k: "n \<le> k" "live h1 = insert (r, k) (live h)" "wf h1"
      "\<forall>(a, l) \<in> live h. r + k \<le> a \<or> a + l \<le> r"
    using alloc_law [OF assms(1-3)] assms(4,5) by auto
  moreover have "(r, k) \<notin> live h" using fresh [OF assms(1) k(4)] assms(2) k(1) by simp
  ultimately show ?thesis
    using release_law [OF k(3), of r k] by auto
qed

lemma release_live:
  assumes "wf h" "live h = insert (r, k) L" "(r, k) \<notin> L"
  obtains h' where "release h r = Some h'" "wf h'" "live h' = L"
  using release_law [OF assms(1), of r k] assms(2,3) by auto

end

locale block_allocator = block_source +
  assumes alloc_zero: "wf h \<Longrightarrow> alloc h 0 = Some (0, h)"
begin

text \<open>One allocation of a chain of them: it fails and changes nothing, or adds a fresh block.\<close>

lemma alloc_cases:
  assumes "wf h" "0 \<le> n" "n \<le> 4294967264"
  obtains (fail) h' where "alloc h n = Some (0, h')" "wf h'" "live h' = live h"
  | (room) r k h' where "alloc h n = Some (r, h')" "r \<noteq> 0" "wf h'" "n \<le> k" "live h' = insert (r, k) (live h)" "(r, k) \<notin> live h"
proof (cases "n = 0")
  case True
  then show thesis using fail [of h] alloc_zero [OF assms(1)] assms(1) by simp
next
  case False
  then obtain r h' where r: "alloc h n = Some (r, h')" "wf h'" "r = 0 \<and> live h' = live h \<or>
      (\<exists>k. 0 < r \<and> n \<le> k \<and> live h' = insert (r, k) (live h) \<and> (\<forall>(a, l) \<in> live h. r + k \<le> a \<or> a + l \<le> r))"
    using alloc_law [OF assms(1), of n] assms by auto
  from r(3) show thesis
  proof (elim disjE exE conjE)
    assume "r = 0" "live h' = live h"
    then show thesis using fail r by simp
  next
    fix k assume k: "0 < r" "n \<le> k" "live h' = insert (r, k) (live h)" "\<forall>(a, l) \<in> live h. r + k \<le> a \<or> a + l \<le> r"
    have "(r, k) \<notin> live h" using fresh [OF assms(1) k(4)] k(2) False assms(2) by auto
    then show thesis using room [OF r(1) _ r(2) k(2,3)] k(1) by simp
  qed
qed

text \<open>
  The creation pattern of kernel objects: a control block and a buffer, the control block
  released again when there is no room for the buffer.
\<close>

lemma alloc_pair:
  assumes "wf h" "0 < n1" "n1 \<le> 4294967264" "0 \<le> n2" "n2 \<le> 4294967264"
  obtains (no_control) h1 where "alloc h n1 = Some (0, h1)" "wf h1" "live h1 = live h"
  | (no_buffer) r1 h1 h2 h3 where "alloc h n1 = Some (r1, h1)" "r1 \<noteq> 0" "alloc h1 n2 = Some (0, h2)"
      "release h2 r1 = Some h3" "wf h3" "live h3 = live h"
  | (both) r1 h1 k1 r2 h2 k2 where "alloc h n1 = Some (r1, h1)" "r1 \<noteq> 0" "alloc h1 n2 = Some (r2, h2)"
      "r2 \<noteq> 0" "wf h2" "n1 \<le> k1" "n2 \<le> k2" "live h2 = {(r1, k1), (r2, k2)} \<union> live h"
      "(r1, k1) \<notin> live h" "(r2, k2) \<notin> insert (r1, k1) (live h)"
      "r1 + k1 \<le> r2 \<or> r2 + k2 \<le> r1"
proof -
  obtain r1 h1 where 1: "alloc h n1 = Some (r1, h1)" "wf h1"
    and c1: "r1 = 0 \<and> live h1 = live h \<or>
      (\<exists>k. 0 < r1 \<and> n1 \<le> k \<and> live h1 = insert (r1, k) (live h) \<and>
        (\<forall>(a, l) \<in> live h. r1 + k \<le> a \<or> a + l \<le> r1))"
    using alloc_law [OF assms(1-3)] by blast
  from c1 show thesis
  proof (elim disjE exE conjE)
    assume "r1 = 0" "live h1 = live h"
    then show thesis using no_control 1 by simp
  next
    fix k1 assume r1: "0 < r1" and k1: "n1 \<le> k1" "live h1 = insert (r1, k1) (live h)"
      "\<forall>(a, l) \<in> live h. r1 + k1 \<le> a \<or> a + l \<le> r1"
    have f1: "(r1, k1) \<notin> live h" using fresh [OF assms(1) k1(3)] k1(1) assms(2) by simp
    have nb: thesis if nb: "alloc h1 n2 = Some (0, h2)" "wf h2" "live h2 = live h1" for h2
    proof -
      obtain h3 where "release h2 r1 = Some h3" "wf h3" "live h3 = live h2 - {(r1, k1)}"
        using release_law [OF nb(2), of r1 k1] nb(3) k1(2) by auto
      then show thesis using no_buffer [OF 1(1) _ nb(1)] r1 nb(3) k1(2) f1 by auto
    qed
    show thesis
    proof (cases "n2 = 0")
      case True
      then show thesis using nb [of h1] alloc_zero [OF 1(2)] 1(2) by simp
    next
      case False
      then obtain r2 h2 where 2: "alloc h1 n2 = Some (r2, h2)" "wf h2"
        and c2: "r2 = 0 \<and> live h2 = live h1 \<or>
          (\<exists>k. 0 < r2 \<and> n2 \<le> k \<and> live h2 = insert (r2, k) (live h1) \<and>
            (\<forall>(a, l) \<in> live h1. r2 + k \<le> a \<or> a + l \<le> r2))"
        using alloc_law [OF 1(2), of n2] assms(4,5) by auto
      from c2 show thesis
      proof (elim disjE exE conjE)
        assume "r2 = 0" "live h2 = live h1"
        then show thesis using nb 2 by simp
      next
        fix k2 assume r2: "0 < r2" and k2: "n2 \<le> k2" "live h2 = insert (r2, k2) (live h1)"
          "\<forall>(a, l) \<in> live h1. r2 + k2 \<le> a \<or> a + l \<le> r2"
        have "(r2, k2) \<notin> live h1"
          using fresh [OF 1(2) k2(3)] k2(1) False assms(4) by simp
        then show thesis
          using both [OF 1(1) _ 2(1) _ 2(2) k1(1) k2(1)] r1 r2 k1(2) k2(2,3) f1 by auto
      qed
    qed
  qed
qed

end

text \<open>\<open>content h a\<close> is the byte at the address \<open>a\<close>.\<close>

locale resizable_source = block_source +
  fixes resize :: "'h \<Rightarrow> int \<Rightarrow> int \<Rightarrow> (int \<times> 'h) option"
    and content :: "'h \<Rightarrow> int \<Rightarrow> byte"
  assumes resize_law: "wf h \<Longrightarrow> (r, k) \<in> live h \<Longrightarrow> 0 < n \<Longrightarrow> n \<le> 4294967264 \<Longrightarrow>
      \<exists>r' h'. resize h r n = Some (r', h') \<and> wf h' \<and>
        (r' = 0 \<and> h' = h \<or>
         (\<exists>k'. 0 < r' \<and> n \<le> k' \<and> live h' = insert (r', k') (live h - {(r, k)}) \<and>
           (\<forall>(b, l) \<in> live h - {(r, k)}. r' + k' \<le> b \<or> b + l \<le> r') \<and>
           (\<forall>i. 0 \<le> i \<and> i < k \<and> i < n \<longrightarrow> content h' (r' + i) = content h (r + i)) \<and>
           (\<forall>(b, l) \<in> live h - {(r, k)}. \<forall>i. 0 \<le> i \<and> i < l \<longrightarrow> content h' (b + i) = content h (b + i))))"
begin

text \<open>The bytes from \<open>r\<close> on, as a list, and what becomes of them when the block is resized.\<close>

definition bytes_of :: "'h \<Rightarrow> int \<Rightarrow> nat \<Rightarrow> byte list" where
  "bytes_of h r m = map (\<lambda>i. content h (r + int i)) [0..<m]"

lemma resize_cases:
  assumes "wf h" "(r, k) \<in> live h" "0 < n" "n \<le> 4294967264"
  obtains (fail) "resize h r n = Some (0, h)"
  | (moved) r' k' h' where "resize h r n = Some (r', h')" "0 < r'" "wf h'" "n \<le> k'" "live h' = insert (r', k') (live h - {(r, k)})"
      "\<And>m. int m \<le> k \<Longrightarrow> int m \<le> n \<Longrightarrow> bytes_of h' r' m = bytes_of h r m"
      "\<And>b l. (b, l) \<in> live h - {(r, k)} \<Longrightarrow> (r' + k' \<le> b \<or> b + l \<le> r') \<and> bytes_of h' b (nat l) = bytes_of h b (nat l)"
proof -
  obtain r' h' where 1: "resize h r n = Some (r', h')" "wf h'" "r' = 0 \<and> h' = h \<or>
         (\<exists>k'. 0 < r' \<and> n \<le> k' \<and> live h' = insert (r', k') (live h - {(r, k)}) \<and>
           (\<forall>(b, l) \<in> live h - {(r, k)}. r' + k' \<le> b \<or> b + l \<le> r') \<and>
           (\<forall>i. 0 \<le> i \<and> i < k \<and> i < n \<longrightarrow> content h' (r' + i) = content h (r + i)) \<and>
           (\<forall>(b, l) \<in> live h - {(r, k)}. \<forall>i. 0 \<le> i \<and> i < l \<longrightarrow> content h' (b + i) = content h (b + i)))"
    using resize_law [OF assms] by (elim exE conjE) (rule that)
  from 1(3) show thesis
  proof (elim disjE exE conjE)
    assume "r' = 0" "h' = h"
    then show thesis using fail 1(1) by simp
  next
    fix k' assume k: "0 < r'" "n \<le> k'" "live h' = insert (r', k') (live h - {(r, k)})"
      "\<forall>(b, l) \<in> live h - {(r, k)}. r' + k' \<le> b \<or> b + l \<le> r'"
      "\<forall>i. 0 \<le> i \<and> i < k \<and> i < n \<longrightarrow> content h' (r' + i) = content h (r + i)"
      "\<forall>(b, l) \<in> live h - {(r, k)}. \<forall>i. 0 \<le> i \<and> i < l \<longrightarrow> content h' (b + i) = content h (b + i)"
    have own: "bytes_of h' r' m = bytes_of h r m" if "int m \<le> k" "int m \<le> n" for m
      using k(5) that by (auto simp: bytes_of_def)
    have other: "(r' + k' \<le> b \<or> b + l \<le> r') \<and> bytes_of h' b (nat l) = bytes_of h b (nat l)" if "(b, l) \<in> live h - {(r, k)}" for b l
    proof -
      have "content h' (b + int i) = content h (b + int i)" if "int i < l" for i
        using bspec [OF k(6) \<open>(b, l) \<in> live h - {(r, k)}\<close>] that by simp
      then show ?thesis using bspec [OF k(4) that] by (auto simp: bytes_of_def)
    qed
    show thesis by (rule moved [OF 1(1) k(1) 1(2) k(2,3) own other])
  qed
qed

end

end
