(* ===== verification/Smallmem_Props.thy ===== *)
theory Smallmem_Props
  imports Smallmem Allocator
begin

text \<open>
  What the small-memory allocator guarantees to its clients, from the lemmas on block lists:
  allocation, release and reallocation in terms of the set of live blocks, initialisation,
  and every state reachable by a well-behaved client.
\<close>

section \<open>Calls in terms of live blocks\<close>

lemma used_blocks_remove:
  assumes "sizes_ok (xs @ (n, True) # ys)"
  shows "used_blocks p (plugged xs n ys) =
    used_blocks p (xs @ (n, True) # ys) - {(endpos p xs + 32, n - 32)}"
proof -
  have "(endpos p xs + 32, n - 32) \<notin> used_blocks p xs"
    using used_blocks_range [of xs "endpos p xs + 32" "n - 32" p] assms by auto
  moreover have "(endpos p xs + 32, n - 32) \<notin> used_blocks (endpos p xs + n) ys"
    using used_blocks_range [of ys "endpos p xs + 32" "n - 32" "endpos p xs + n"] assms by auto
  ultimately show ?thesis by (auto simp: used_blocks_plugged)
qed

lemma used_blocks_insert:
  assumes "sizes_ok (xs @ (n, False) # ys)"
  shows "used_blocks p (xs @ take_block s n @ ys) =
    insert (endpos p xs + 32, if n - 32 \<ge> s + 64 then s else n - 32) (used_blocks p (xs @ (n, False) # ys))"
    "(a, k) \<in> used_blocks p (xs @ (n, False) # ys) \<Longrightarrow> a + k \<le> endpos p xs \<or> endpos p xs + n + 32 \<le> a"
proof -
  have e: "endpos q (take_block s n) = q + n" for q by (simp add: take_block_def)
  show "used_blocks p (xs @ take_block s n @ ys) =
    insert (endpos p xs + 32, if n - 32 \<ge> s + 64 then s else n - 32) (used_blocks p (xs @ (n, False) # ys))"
    using used_blocks_take [of "endpos p xs" s n] by (auto simp: e)
  show "(a, k) \<in> used_blocks p (xs @ (n, False) # ys) \<Longrightarrow> a + k \<le> endpos p xs \<or> endpos p xs + n + 32 \<le> a"
    using used_blocks_range [of xs a k p] used_blocks_range [of ys a k "endpos p xs + n"] assms by auto
qed

lemma alloc_size_ge: "0 < sz0 \<Longrightarrow> sz0 \<le> 4294967264 \<Longrightarrow> sz0 \<le> alloc_size sz0"
  using RT_ALIGN_bounds(1) [of sz0] by (simp add: alloc_size_def)

lemma alloc_size_aligned:
  assumes "32 \<le> s" "s mod 32 = 0" "s \<le> 4294967264"
  shows "alloc_size s = s"
proof -
  have "u32 (s + 31) = s + 31" using assms by (simp add: c_store)
  then have "RT_ALIGN s RT_ALIGN_SIZE = 32 * ((s + 31) div 32)" using RT_ALIGN_32 [of s] by simp
  also have "\<dots> = s" using assms by presburger
  finally show ?thesis using assms by (simp add: alloc_size_def)
qed

lemma smem_alloc_live:
  assumes inv: "smem_inv m bs" and sz: "sz0 \<noteq> 0"
  shows "rt_smem_alloc m sz0 = Some (0, m) \<and> fit_split (alloc_size sz0) bs = None \<or>
    (\<exists>a k m' bs'. rt_smem_alloc m sz0 = Some (heap_ptr m + a, m') \<and> smem_inv m' bs' \<and> same_pool m m' \<and>
       heap_bytes m' = heap_bytes m \<and> alloc_size sz0 \<le> k \<and> 32 \<le> a \<and> a mod 32 = 0 \<and> a + k \<le> heap_end m \<and>
       used_blocks 0 bs' = insert (a, k) (used_blocks 0 bs) \<and>
       (\<forall>(b, l) \<in> used_blocks 0 bs. a + k \<le> b - 32 \<or> b + l \<le> a - 32))"
proof (cases "fit_split (alloc_size sz0) bs")
  case None
  then show ?thesis
    using smem_alloc_cases [of m bs sz0] inv sz by (simp add: smem_inv_def)
next
  case (Some t)
  obtain xs n ys where t: "t = (xs, n, ys)" by (cases t) auto
  define s where "s = alloc_size sz0"
  note fs = fit_split_Some [OF Some [unfolded t]]
  have ok: "smem_ok m (xs @ (n, False) # ys)" and na: "noadj (xs @ (n, False) # ys)"
    and bs: "bs = xs @ (n, False) # ys" and sn: "s \<le> n - 32"
    using inv fs by (auto simp: smem_inv_def s_def)
  obtain m' where m': "rt_smem_alloc m sz0 = Some (heap_ptr m + endpos 0 xs + 32, m')"
      "smem_ok m' (xs @ take_block s n @ ys)" "same_pool m m'" "heap_bytes m' = heap_bytes m"
    using smem_alloc_cases [of m bs sz0] inv sz Some t by (auto simp: smem_inv_def s_def)
  note h = smem_header [OF ok]
  have so: "sizes_ok (xs @ (n, False) # ys)" using smem_okD(5) [OF ok] .
  let ?a = "endpos 0 xs + 32" and ?k = "if n - 32 \<ge> s + 64 then s else n - 32"
  have "smem_inv m' (xs @ take_block s n @ ys)"
    using m'(2) noadj_take [OF na] by (simp add: smem_inv_def)
  moreover have "used_blocks 0 (xs @ take_block s n @ ys) = insert (?a, ?k) (used_blocks 0 bs)"
    using used_blocks_insert(1) [OF so, of 0 s] bs by simp
  moreover have "\<forall>(b, l) \<in> used_blocks 0 bs. ?a + ?k \<le> b - 32 \<or> b + l \<le> ?a - 32"
    using used_blocks_insert(2) [OF so, of _ _ 0] bs sn by fastforce
  moreover have "?a mod 32 = 0" "32 \<le> ?a" "?a + ?k \<le> heap_end m" "s \<le> ?k"
    using endpos_mod [of xs 0] so h sn alloc_size_props(1) [of sz0]
    by (auto simp: mod_add_eq [symmetric] s_def)
  ultimately show ?thesis
    using m' unfolding s_def [symmetric]
    by (intro disjI2 exI [of _ ?a] exI [of _ ?k] exI [of _ m'] exI [of _ "xs @ take_block s n @ ys"])
       (auto simp: add.assoc)
qed

lemma smem_free_live:
  assumes inv: "smem_inv m bs" and a: "(a, k) \<in> used_blocks 0 bs"
  shows "\<exists>m' bs'. rt_smem_free m (heap_ptr m + a) = Some m' \<and> smem_inv m' bs' \<and> same_pool m m' \<and>
     heap_bytes m' = heap_bytes m \<and> used_blocks 0 bs' = used_blocks 0 bs - {(a, k)}"
proof -
  obtain xs ys where bs: "bs = xs @ (k + 32, True) # ys" "a = endpos 0 xs + 32"
    using used_blocks_split [OF a] by blast
  have ok: "smem_ok m (xs @ (k + 32, True) # ys)" and na: "noadj xs" "noadj ys"
    using inv bs by (auto simp: smem_inv_def noadj_append noadj_Cons simp del: noadj.simps(1))
  obtain m' where m': "rt_smem_free m (heap_ptr m + a) = Some m'" "smem_ok m' (plugged xs (k + 32) ys)"
      "same_pool m m'" "heap_bytes m' = heap_bytes m"
    using smem_free_ok [OF ok] bs(2) by (auto simp: add.assoc)
  have "smem_inv m' (plugged xs (k + 32) ys)"
    using m'(2) noadj_plugged [OF na] by (simp add: smem_inv_def)
  moreover have "used_blocks 0 (plugged xs (k + 32) ys) = used_blocks 0 bs - {(a, k)}"
    using used_blocks_remove [OF smem_okD(5) [OF ok], of 0] bs by simp
  ultimately show ?thesis using m' by blast
qed

lemma smem_ok_bytes [simp]: "smem_ok (m\<lparr>heap_bytes := b\<rparr>) bs = smem_ok m bs"
  by (simp add: smem_ok_def)

lemma smem_inv_bytes [simp]: "smem_inv (m\<lparr>heap_bytes := b\<rparr>) bs = smem_inv m bs"
  by (simp add: smem_inv_def)

text \<open>A reallocation keeps the contents it can keep, and touches no other live block.\<close>

definition realloc_post :: "rt_small_mem \<Rightarrow> block list \<Rightarrow> int \<Rightarrow> int \<Rightarrow> int \<Rightarrow> int \<Rightarrow> rt_small_mem \<Rightarrow> block list \<Rightarrow> bool" where
  "realloc_post m bs a k ns r m' bs' \<longleftrightarrow>
     (\<exists>k'. ns \<le> k' \<and> used_blocks 0 bs' = insert (r - heap_ptr m, k') (used_blocks 0 bs - {(a, k)})) \<and>
     (\<forall>l. (r - heap_ptr m, l) \<notin> used_blocks 0 bs - {(a, k)}) \<and>
     (\<forall>i. 0 \<le> i \<and> i < k \<and> i < ns \<longrightarrow> heap_bytes m' (r + i) = heap_bytes m (heap_ptr m + a + i)) \<and>
     (\<forall>(b, l) \<in> used_blocks 0 bs - {(a, k)}. \<forall>i. 0 \<le> i \<and> i < l \<longrightarrow>
        heap_bytes m' (heap_ptr m + b + i) = heap_bytes m (heap_ptr m + b + i))"

lemma realloc_unfold_move:
  assumes ok: "smem_ok m (xs @ (n, True) # ys)"
    and ns: "RT_ALIGN ns0 RT_ALIGN_SIZE = ns" "0 < ns" "ns \<le> mem_size_aligned m"
    and no: "n - 32 \<noteq> ns" "\<not> ns + 32 + MIN_SIZE < n - 32"
  shows "rt_smem_realloc m (heap_ptr m + endpos 0 xs + 32) ns0 = do {
       (nmem, m1) \<leftarrow> rt_smem_alloc m ns;
       (if nmem \<noteq> 0 then do {
          m3 \<leftarrow> rt_smem_free (m1\<lparr>heap_bytes := copy_bytes (heap_bytes m1) nmem
                   (heap_ptr m + endpos 0 xs + 32) (if n - 32 < ns then n - 32 else ns)\<rparr>)
                 (heap_ptr m + endpos 0 xs + 32);
          Some (nmem, m3)
        } else Some (nmem, m1)) }"
proof -
  note h = smem_header [OF ok] and D = smem_okD [OF ok]
  have al: "(heap_ptr m + endpos 0 xs + 32) mod 32 = 0"
    using D(5,12) endpos_mod [of xs 0] by (simp add: mod_add_eq [symmetric])
  have sz: "u32 (endpos 0 xs + n - endpos 0 xs - SIZEOF_STRUCT_MEM) = n - 32"
    using h D(11,13) by (simp add: c_store)
  show ?thesis
    using h sz ns al no D(11) unfolding rt_smem_realloc_def ns(1) Let_def
    by (cases "rt_smem_alloc m ns") (simp_all add: aligned_and_31 split_beta)
qed

lemma realloc_unfold_same:
  assumes ok: "smem_ok m (xs @ (n, True) # ys)"
    and ns: "RT_ALIGN ns0 RT_ALIGN_SIZE = n - 32"
  shows "rt_smem_realloc m (heap_ptr m + endpos 0 xs + 32) ns0 = Some (heap_ptr m + endpos 0 xs + 32, m)"
proof -
  note h = smem_header [OF ok] and D = smem_okD [OF ok]
  have al: "(heap_ptr m + endpos 0 xs + 32) mod 32 = 0"
    using D(5,12) endpos_mod [of xs 0] by (simp add: mod_add_eq [symmetric])
  have sz: "u32 (endpos 0 xs + n - endpos 0 xs - SIZEOF_STRUCT_MEM) = n - 32"
    using h D(11,13) by (simp add: c_store)
  have "n - 32 \<le> mem_size_aligned m" using h D(9) by linarith
  then show ?thesis
    using h sz al D(11) unfolding rt_smem_realloc_def ns Let_def by (simp add: aligned_and_31)
qed

lemma smem_realloc_move:
  assumes inv: "smem_inv m bs" and bs: "bs = xs @ (n, True) # ys" and a: "a = endpos 0 xs + 32"
    and ns: "RT_ALIGN ns0 RT_ALIGN_SIZE = ns" "0 < ns" "ns \<le> mem_size_aligned m"
    and no: "n - 32 \<noteq> ns" "\<not> ns + 32 + MIN_SIZE < n - 32"
  shows "\<exists>r m' bs'. rt_smem_realloc m (heap_ptr m + a) ns0 = Some (r, m') \<and> smem_inv m' bs' \<and>
     same_pool m m' \<and> (if r = 0 then m' = m else realloc_post m bs a (n - 32) ns r m' bs')"
proof -
  have ok: "smem_ok m (xs @ (n, True) # ys)" using inv bs by (simp add: smem_inv_def)
  note D = smem_okD [OF ok] and h = smem_header [OF ok]
  note un = realloc_unfold_move [OF ok ns no, folded add.assoc a [symmetric], simplified add.assoc a [symmetric]]
  have ub: "(a, n - 32) \<in> used_blocks 0 bs" by (simp add: bs a)
  have "ns = 32 * (u32 (ns0 + 31) div 32)" using RT_ALIGN_32 [of ns0] ns(1) by simp
  then have nsm: "ns mod 32 = 0" "32 \<le> ns" using ns(2) by presburger+
  then have as: "alloc_size ns = ns" using ns(3) D(9,11,13) by (intro alloc_size_aligned) auto
  consider "rt_smem_alloc m ns = Some (0, m)"
    | b k m1 bs1 where "rt_smem_alloc m ns = Some (heap_ptr m + b, m1)" "smem_inv m1 bs1" "same_pool m m1"
       "heap_bytes m1 = heap_bytes m" "ns \<le> k" "32 \<le> b"
       "used_blocks 0 bs1 = insert (b, k) (used_blocks 0 bs)"
       "\<forall>(c, l) \<in> used_blocks 0 bs. b + k \<le> c - 32 \<or> c + l \<le> b - 32"
    using smem_alloc_live [OF inv, of ns] ns(2) as by auto
  then show ?thesis
  proof cases
    case 1
    then show ?thesis using un inv by auto
  next
    case (2 b k m1 bs1)
    define n' where "n' = (if n - 32 < ns then n - 32 else ns)"
    define m2 where "m2 = m1\<lparr>heap_bytes := copy_bytes (heap_bytes m1) (heap_ptr m + b) (heap_ptr m + a) n'\<rparr>"
    have hp: "heap_ptr m2 = heap_ptr m" using 2(3) by (simp add: m2_def same_pool_def)
    have inv2: "smem_inv m2 bs1" using 2(2) by (simp add: m2_def)
    obtain m3 bs3 where m3: "rt_smem_free m2 (heap_ptr m + a) = Some m3" "smem_inv m3 bs3"
        "same_pool m2 m3" "heap_bytes m3 = heap_bytes m2" "used_blocks 0 bs3 = used_blocks 0 bs1 - {(a, n - 32)}"
      using smem_free_live [OF inv2, of a "n - 32"] ub 2(7) hp by auto
    have nz: "heap_ptr m + b \<noteq> 0" using D(11) 2(6) by simp
    have run: "rt_smem_realloc m (heap_ptr m + a) ns0 = Some (heap_ptr m + b, m3)"
      using un 2(1) nz m3(1) by (simp add: m2_def n'_def)
    have sep: "b + k \<le> c - 32 \<or> c + l \<le> b - 32" if "(c, l) \<in> used_blocks 0 bs" for c l
      using 2(8) that by blast
    have n32: "64 \<le> n" using h by simp
    have ne: "(b, k) \<noteq> (a, n - 32)" using sep [OF ub] ns(2) 2(5) n32 by auto
    have hb: "heap_bytes m3 = copy_bytes (heap_bytes m) (heap_ptr m + b) (heap_ptr m + a) n'"
      using m3(4) 2(4) by (simp add: m2_def)
    have "realloc_post m bs a (n - 32) ns (heap_ptr m + b) m3 bs3"
      unfolding realloc_post_def
    proof (intro conjI)
      show "\<exists>k'. ns \<le> k' \<and> used_blocks 0 bs3 =
          insert (heap_ptr m + b - heap_ptr m, k') (used_blocks 0 bs - {(a, n - 32)})"
        using m3(5) 2(5,7) ne by (intro exI [of _ k]) auto
      show "\<forall>l. (heap_ptr m + b - heap_ptr m, l) \<notin> used_blocks 0 bs - {(a, n - 32)}"
        using used_blocks_range [OF D(5) [folded bs], of b _ 0] sep ns(2) 2(5) by fastforce
      show "\<forall>i. 0 \<le> i \<and> i < n - 32 \<and> i < ns \<longrightarrow>
          heap_bytes m3 (heap_ptr m + b + i) = heap_bytes m (heap_ptr m + a + i)"
        by (auto simp: hb copy_bytes_def n'_def algebra_simps)
      show "\<forall>(c, l) \<in> used_blocks 0 bs - {(a, n - 32)}. \<forall>i. 0 \<le> i \<and> i < l \<longrightarrow>
          heap_bytes m3 (heap_ptr m + c + i) = heap_bytes m (heap_ptr m + c + i)"
      proof (clarify)
        fix c l i assume c: "(c, l) \<in> used_blocks 0 bs" and i: "0 \<le> i" "i < l"
        have "n' \<le> k" using 2(5) by (auto simp: n'_def)
        then show "heap_bytes m3 (heap_ptr m + c + i) = heap_bytes m (heap_ptr m + c + i)"
          using sep [OF c] i by (auto simp: hb copy_bytes_def)
      qed
    qed
    moreover have "same_pool m m3"
      using 2(3) m3(3) by (simp add: same_pool_def m2_def)
    ultimately show ?thesis
      using run nz m3(2) by auto
  qed
qed

lemma smem_realloc_live:
  assumes inv: "smem_inv m bs" and ub: "(a, k) \<in> used_blocks 0 bs"
    and ns: "RT_ALIGN ns0 RT_ALIGN_SIZE = ns" "0 < ns"
  shows "\<exists>r m' bs'. rt_smem_realloc m (heap_ptr m + a) ns0 = Some (r, m') \<and> smem_inv m' bs' \<and>
     same_pool m m' \<and> (if r = 0 then m' = m else realloc_post m bs a k ns r m' bs')"
proof -
  obtain xs ys where bs: "bs = xs @ (k + 32, True) # ys" and a: "a = endpos 0 xs + 32"
    using used_blocks_split [OF ub] by blast
  have ok: "smem_ok m (xs @ (k + 32, True) # ys)" using inv bs by (simp add: smem_inv_def)
  have na: "noadj xs" "noadj ys"
    using inv bs by (auto simp: smem_inv_def noadj_append noadj_Cons simp del: noadj.simps(1))
  note D = smem_okD [OF ok] and h = smem_header [OF ok]
  have nz: "heap_ptr m + a \<noteq> 0" using D(11) h(4) a by simp
  have un: "(a, l) \<in> used_blocks 0 bs \<Longrightarrow> l = k" for l
    using used_blocks_disjoint [OF D(5) [folded bs] ub, of a l] h(6)
      used_blocks_range [OF D(5) [folded bs], of a l 0] by auto
  consider "mem_size_aligned m < ns" | "ns \<le> mem_size_aligned m" "k = ns"
    | "ns + 32 + MIN_SIZE < k" | "ns \<le> mem_size_aligned m" "k \<noteq> ns" "\<not> ns + 32 + MIN_SIZE < k"
    by linarith
  then show ?thesis
  proof cases
    case 1
    then have "rt_smem_realloc m (heap_ptr m + a) ns0 = Some (0, m)"
      unfolding rt_smem_realloc_def ns(1) Let_def by simp
    then show ?thesis using inv by auto
  next
    case 2
    then have "rt_smem_realloc m (heap_ptr m + a) ns0 = Some (heap_ptr m + a, m)"
      using realloc_unfold_same [OF ok] ns(1) a by (simp add: add.assoc)
    moreover have "realloc_post m bs a k ns (heap_ptr m + a) m bs"
    proof -
      have "used_blocks 0 bs = insert (a, k) (used_blocks 0 bs - {(a, k)})" using ub by blast
      then show ?thesis using un 2 by (auto simp: realloc_post_def simp del: Diff_insert0)
    qed
    ultimately show ?thesis using inv nz by auto
  next
    case 3
    let ?bs' = "plugged (xs @ [(ns + 32, True)]) (k - ns) ys"
    obtain m' where m': "rt_smem_realloc m (heap_ptr m + a) ns0 = Some (heap_ptr m + a, m')"
        "smem_ok m' ?bs'" "same_pool m m'" "heap_bytes m' = heap_bytes m"
      using smem_realloc_shrink [OF ok ns, simplified] 3 a by (auto simp: add.assoc)
    have "noadj (xs @ [(ns + 32, True)])" using na by (simp add: noadj_append)
    then have inv': "smem_inv m' ?bs'"
      using m'(2) noadj_plugged [OF _ na(2)] by (simp add: smem_inv_def)
    have "used_blocks 0 bs - {(a, k)} = used_blocks 0 xs \<union> used_blocks (endpos 0 xs + (k + 32)) ys"
      using used_blocks_remove [OF D(5), of 0] by (simp add: bs a used_blocks_plugged)
    then have "realloc_post m bs a k ns (heap_ptr m + a) m' ?bs'"
      using un unfolding realloc_post_def m'(4)
      by (auto simp: used_blocks_plugged a algebra_simps)
    then show ?thesis using m' inv' nz by auto
  next
    case 4
    then show ?thesis
      using smem_realloc_move [OF inv bs a ns] unfolding add_diff_cancel_right' by blast
  qed
qed

section \<open>Initialisation\<close>

lemma smem_init_ok:
  assumes "0 < begin_addr" "0 \<le> sz" "0 < sizeof_sm" "begin_addr + sz \<le> 4294967295"
    "begin_addr + sizeof_sm \<le> 4294967200"
    "rt_smem_init sizeof_sm mem0 begin_addr sz = Some m"
  shows "smem_inv m [(mem_size_aligned m + 32, False)] \<and> begin_addr + sizeof_sm \<le> heap_ptr m \<and>
    heap_ptr m + heap_end m + 32 \<le> begin_addr + sz \<and>
    begin_addr + sz < heap_ptr m + heap_end m + 64 \<and> mem_used m = 0"
proof -
  define sa where "sa = RT_ALIGN begin_addr RT_ALIGN_SIZE"
  have sa: "begin_addr \<le> sa" "sa < begin_addr + 32" "sa mod 32 = 0"
    using RT_ALIGN_bounds [of begin_addr] assms(1-5) by (auto simp: sa_def)
  have st: "u32 (sa + sizeof_sm) = sa + sizeof_sm"
    using sa assms(1-5) by (simp add: c_store)
  define ba where "ba = RT_ALIGN (sa + sizeof_sm) RT_ALIGN_SIZE"
  have ba: "sa + sizeof_sm \<le> ba" "ba < sa + sizeof_sm + 32" "ba mod 32 = 0"
    using RT_ALIGN_bounds [of "sa + sizeof_sm"] assms(1-5) sa by (auto simp: ba_def)
  define ea where "ea = RT_ALIGN_DOWN (u32 (begin_addr + sz)) RT_ALIGN_SIZE"
  have u0: "0 \<le> u32 (begin_addr + sz)" by simp
  have c: "64 < ea" "sa + sizeof_sm \<le> ea - 64"
    and m: "m = \<lparr>sm_addr = sa, mem_total = u32 (ea - ba - 64), mem_used = 0, mem_max = 0,
              heap_ptr = ba, heap_end = u32 (ea - ba - 64) + 32, lfree = 0,
              mem_size_aligned = u32 (ea - ba - 64),
              items = [0 \<mapsto> \<lparr>pool_ptr = MEM_FREED sa, inext = u32 (ea - ba - 64) + 32, iprev = 0\<rparr>,
                       u32 (ea - ba - 64) + 32 \<mapsto> \<lparr>pool_ptr = MEM_USED sa, inext = u32 (ea - ba - 64) + 32,
                         iprev = u32 (ea - ba - 64) + 32\<rparr>],
              heap_bytes = mem0\<rparr>"
    using assms(6) unfolding rt_smem_init_def Let_def sa_def [symmetric] st
    by (auto simp: ba_def ea_def split: if_splits)
  have eam: "ea = 32 * (u32 (begin_addr + sz) div 32)"
    by (simp add: ea_def RT_ALIGN_DOWN_32 del: mem_sizes)
  have ea: "ea \<le> begin_addr + sz" "begin_addr + sz < ea + 32" "ea mod 32 = 0"
    using assms(1,2,4) eam by (auto simp: c_store)
  then have "ba \<le> ea - 64" using c ba by presburger
  then have ms: "u32 (ea - ba - 64) = ea - ba - 64" "0 \<le> ea - ba - 64"
    using ba sa assms(1-4) ea by (auto simp: c_store)
  have mo: "(ea - ba - 64 + 32) mod 32 = 0" using ea(3) ba(3) by presburger
  show ?thesis
    using sa ba ea ms mo assms(1-5) c by (auto simp: m smem_inv_def smem_ok_def)
qed

end
