(* ===== verification/Smallmem_Frame.thy ===== *)
theory Smallmem_Frame
  imports Smallmem_Props
begin

text \<open>
  Which headers the small-memory allocator writes. In \<^verbatim>\<open>mem.c\<close> a header is the first bytes of its
  block, in the same memory as the clients' data; here it is shown, operation by operation, that
  the headers written lie between the blocks in use and never inside one.
\<close>

section \<open>Where the headers lie\<close>

text \<open>The offsets of the headers of a heap, the end mark included.\<close>

fun heads :: "int \<Rightarrow> block list \<Rightarrow> int set" where
  "heads p [] = {p}"
| "heads p ((n, u) # bs) = insert p (heads (p + n) bs)"

lemma heads_append [simp]: "heads p (xs @ ys) = heads p xs \<union> heads (endpos p xs) ys"
proof (induction p xs rule: endpos.induct)
  case (1 p)
  then show ?case by (cases ys) auto
qed auto

lemma heads_ends [simp]: "p \<in> heads p bs" "endpos p bs \<in> heads p bs"
  by (induction p bs rule: endpos.induct) auto

lemma heads_range: "sizes_ok bs \<Longrightarrow> x \<in> heads p bs \<Longrightarrow> p \<le> x \<and> x \<le> endpos p bs"
proof (induction p bs rule: endpos.induct)
  case (2 p n u bs)
  then show ?case using endpos_ge [of bs "p + n"] by auto
qed simp

lemma heads_apart:
  "sizes_ok bs \<Longrightarrow> x \<in> heads p bs \<Longrightarrow> (a, k) \<in> used_blocks p bs \<Longrightarrow> x + 32 \<le> a \<or> a + k \<le> x"
proof (induction p bs rule: endpos.induct)
  case (2 p n u bs)
  then show ?case
    using used_blocks_range [of bs a k "p + n"] heads_range [of bs x "p + n"] by (auto split: if_splits)
qed simp

lemma chain_cong:
  "(\<And>x. x \<in> heads p bs \<Longrightarrow> hds' x = hds x) \<Longrightarrow> chain hds' a pv p bs q = chain hds a pv p bs q"
  by (induction bs arbitrary: pv p) auto

text \<open>The invariant looks at no other header.\<close>

lemma smem_inv_cong:
  assumes "\<And>x. x \<in> heads 0 bs \<Longrightarrow> i x = items m x"
  shows "smem_inv (m\<lparr>items := i\<rparr>) bs = smem_inv m bs"
proof -
  have c: "chain i (sm_addr m) 0 0 bs (heap_end m) = chain (items m) (sm_addr m) 0 0 bs (heap_end m)"
    using assms by (rule chain_cong)
  have e: "chain (items m) (sm_addr m) 0 0 bs (heap_end m) \<Longrightarrow> i (heap_end m) = items m (heap_end m)"
    using assms chain_end by (metis heads_ends(2))
  have "smem_ok (m\<lparr>items := i\<rparr>) bs = smem_ok m bs"
  proof (cases "chain (items m) (sm_addr m) 0 0 bs (heap_end m)")
    case True
    then show ?thesis using c e [OF True] by (simp add: smem_ok_def)
  next
    case False
    then show ?thesis using c by (simp add: smem_ok_def)
  qed
  then show ?thesis by (simp add: smem_inv_def)
qed

section \<open>Headers written\<close>

definition changed :: "rt_small_mem \<Rightarrow> rt_small_mem \<Rightarrow> int set" where
  "changed m m' = {x. items m' x \<noteq> items m x}"

lemma changed_refl [simp]: "changed m m = {}"
  by (simp add: changed_def)

lemma changed_trans: "changed m m1 \<subseteq> H \<Longrightarrow> changed m1 m2 \<subseteq> H \<Longrightarrow> changed m m2 \<subseteq> H"
  by (force simp: changed_def subset_iff)

text \<open>A set of headers that the links of the list do not leave.\<close>

definition closed :: "rt_small_mem \<Rightarrow> int set \<Rightarrow> bool" where
  "closed m H \<longleftrightarrow> heap_end m \<in> H \<and>
     (\<forall>x it. x \<in> H \<longrightarrow> items m x = Some it \<longrightarrow> inext it \<in> H \<and> (x < heap_end m \<longrightarrow> iprev it \<in> H))"

lemma closedD:
  assumes "closed m H" "x \<in> H" "items m x = Some it"
  shows "inext it \<in> H" "x < heap_end m \<Longrightarrow> iprev it \<in> H"
  using assms by (auto simp: closed_def)

lemma chain_closed:
  assumes "chain hds a pv p bs q" "pv \<in> H" "heads p bs \<subseteq> H" "x \<in> heads p bs" "x < q" "hds x = Some it"
  shows "inext it \<in> H \<and> iprev it \<in> H"
  using assms
proof (induction bs arbitrary: pv p)
  case (Cons b bs)
  obtain n u where b: "b = (n, u)" by fastforce
  show ?case
  proof (cases "x = p")
    case True
    then show ?thesis using Cons.prems by (auto simp: b)
  next
    case False
    then show ?thesis using Cons.IH [of p "p + n"] Cons.prems by (auto simp: b)
  qed
qed simp

lemma smem_closed:
  assumes ok: "smem_ok m bs"
  shows "closed m (heads 0 bs)"
proof -
  note D = smem_okD [OF ok]
  obtain pv where e: "items m (heap_end m) =
      Some \<lparr>pool_ptr = sm_addr m + 1, inext = heap_end m, iprev = pv\<rparr>"
    by (rule smem_end_header [OF ok])
  have end_in: "heap_end m \<in> heads 0 bs" using D(4) by simp
  have links: "inext it \<in> heads 0 bs \<and> (x < heap_end m \<longrightarrow> iprev it \<in> heads 0 bs)"
    if x: "x \<in> heads 0 bs" and it: "items m x = Some it" for x it
  proof (cases "x = heap_end m")
    case True
    then show ?thesis using e it end_in by auto
  next
    case False
    then have "x < heap_end m" using heads_range [OF D(5) x] D(4) by simp
    then show ?thesis using chain_closed [OF D(6) _ subset_refl x _ it] by simp
  qed
  then show ?thesis using end_in by (simp add: closed_def)
qed

lemma set_item_frame:
  assumes "set_item m x f = Some m'"
  shows "\<exists>it. items m x = Some it \<and> m' = m\<lparr>items := (items m)(x \<mapsto> f it)\<rparr>"
  using assms by (auto simp: set_item_def split: option.splits)

text \<open>Links set inside the set keep it closed.\<close>

lemma set_item_closed:
  assumes "set_item m x f = Some m'" "closed m H" "x \<in> H"
    "\<And>it. items m x = Some it \<Longrightarrow> inext (f it) \<in> H \<and> (x < heap_end m \<longrightarrow> iprev (f it) \<in> H)"
  shows "closed m' H \<and> changed m m' \<subseteq> H \<and> heap_end m' = heap_end m"
  using set_item_frame [OF assms(1)] assms(2-4) by (auto simp: closed_def changed_def split: if_splits)

lemma set_pool_closed:
  assumes "set_item m x (pool_ptr_update f) = Some m'" "closed m H" "x \<in> H"
  shows "closed m' H \<and> changed m m' \<subseteq> H \<and> heap_end m' = heap_end m"
  by (rule set_item_closed [OF assms]) (auto dest: closedD [OF assms(2,3)])

lemma set_next_closed:
  assumes "set_item m x (inext_update (\<lambda>_. y)) = Some m'" "closed m H" "x \<in> H" "y \<in> H"
  shows "closed m' H \<and> changed m m' \<subseteq> H \<and> heap_end m' = heap_end m"
  by (rule set_item_closed [OF assms(1-3)]) (auto simp: assms(4) dest: closedD [OF assms(2,3)])

lemma set_prev_closed:
  assumes "set_item m x (iprev_update (\<lambda>_. y)) = Some m'" "closed m H" "x \<in> H" "y \<in> H"
  shows "closed m' H \<and> changed m m' \<subseteq> H \<and> heap_end m' = heap_end m"
  by (rule set_item_closed [OF assms(1-3)]) (auto simp: assms(4) dest: closedD [OF assms(2,3)])

lemma closed_fields [simp]:
  "closed (m\<lparr>lfree := a\<rparr>) H = closed m H" "closed (m\<lparr>mem_used := b\<rparr>) H = closed m H"
  by (simp_all add: closed_def)

lemma changed_fields [simp]:
  "changed (m\<lparr>lfree := a\<rparr>) m' = changed m m'" "changed (m\<lparr>mem_used := b\<rparr>) m' = changed m m'"
  "changed (m\<lparr>heap_bytes := c\<rparr>) m' = changed m m'"
  "changed m (m'\<lparr>lfree := a\<rparr>) = changed m m'" "changed m (m'\<lparr>mem_used := b\<rparr>) = changed m m'"
  "changed m (m'\<lparr>heap_bytes := c\<rparr>) = changed m m'"
  by (simp_all add: changed_def)

lemma plug_forward_frame:
  assumes c: "closed m H" "p \<in> H" and run: "plug_forward m p = Some m'"
  shows "closed m' H \<and> changed m m' \<subseteq> H \<and> heap_end m' = heap_end m"
proof -
  from run obtain it nit where it: "items m p = Some it" "items m (inext it) = Some nit"
    by (auto simp: plug_forward_def Option.bind_eq_Some_conv)
  have n: "inext it \<in> H" "inext nit \<in> H"
    using closedD(1) [OF c it(1)] closedD(1) [OF c(1) _ it(2)] by auto
  show ?thesis
  proof (cases "p \<noteq> inext it \<and> \<not> MEM_ISUSED nit \<and> inext it \<noteq> heap_end m")
    case False
    then show ?thesis using run it c by (auto simp: plug_forward_def)
  next
    case True
    let ?m1 = "if lfree m = inext it then m\<lparr>lfree := p\<rparr> else m"
    obtain m2 m3 where s: "set_item ?m1 (inext it) (pool_ptr_update (\<lambda>_. 0)) = Some m2"
        "set_item m2 p (inext_update (\<lambda>_. inext nit)) = Some m3"
        "set_item m3 (inext nit) (iprev_update (\<lambda>_. p)) = Some m'"
      using run it True by (auto simp: plug_forward_def Option.bind_eq_Some_conv)
    have c1: "closed ?m1 H" using c by simp
    note s1 = set_pool_closed [OF s(1) c1 n(1)]
    note s2 = set_next_closed [OF s(2) _ c(2) n(2)]
    note s3 = set_prev_closed [OF s(3) _ n(2) c(2)]
    have m1: "changed ?m1 m' = changed m m'" "heap_end ?m1 = heap_end m" by simp_all
    have "closed m' H" "changed ?m1 m' \<subseteq> H" "heap_end m' = heap_end ?m1"
      using s1 s2 s3 changed_trans [of ?m1 m2 H m3] changed_trans [of ?m1 m3 H m'] by auto
    then show ?thesis unfolding m1 by blast
  qed
qed

lemma plug_backward_frame:
  assumes c: "closed m H" "p \<in> H" "p < heap_end m" and run: "plug_backward m p = Some m'"
  shows "closed m' H \<and> changed m m' \<subseteq> H"
proof -
  from run obtain it pit where it: "items m p = Some it" "items m (iprev it) = Some pit"
    by (auto simp: plug_backward_def Option.bind_eq_Some_conv)
  have n: "inext it \<in> H" "iprev it \<in> H"
    using closedD [OF c(1,2) it(1)] c(3) by auto
  show ?thesis
  proof (cases "iprev it \<noteq> p \<and> \<not> MEM_ISUSED pit")
    case False
    then show ?thesis using run it c by (auto simp: plug_backward_def)
  next
    case True
    let ?m1 = "if lfree m = p then m\<lparr>lfree := iprev it\<rparr> else m"
    obtain m2 m3 where s: "set_item ?m1 p (pool_ptr_update (\<lambda>_. 0)) = Some m2"
        "set_item m2 (iprev it) (inext_update (\<lambda>_. inext it)) = Some m3"
        "set_item m3 (inext it) (iprev_update (\<lambda>_. iprev it)) = Some m'"
      using run it True by (auto simp: plug_backward_def Option.bind_eq_Some_conv)
    have c1: "closed ?m1 H" using c by simp
    note s1 = set_pool_closed [OF s(1) c1 c(2)]
    note s2 = set_next_closed [OF s(2) _ n(2,1)]
    note s3 = set_prev_closed [OF s(3) _ n]
    have m1: "changed ?m1 m' = changed m m'" by simp
    have "closed m' H" "changed ?m1 m' \<subseteq> H"
      using s1 s2 s3 changed_trans [of ?m1 m2 H m3] changed_trans [of ?m1 m3 H m'] by auto
    then show ?thesis unfolding m1 by blast
  qed
qed

lemma plug_holes_frame:
  assumes c: "closed m H" "p \<in> H" and run: "plug_holes m p = Some m'"
  shows "changed m m' \<subseteq> H"
proof -
  obtain m1 where r: "p < heap_end m" "plug_forward m p = Some m1" "plug_backward m1 p = Some m'"
    using run by (auto simp: plug_holes_def Option.bind_eq_Some_conv)
  have f: "closed m1 H" "changed m m1 \<subseteq> H" "p < heap_end m1"
    using plug_forward_frame [OF c r(2)] r(1) by auto
  have "changed m1 m' \<subseteq> H" using plug_backward_frame [OF f(1) c(2) f(3) r(3)] by blast
  then show ?thesis by (rule changed_trans [OF f(2)])
qed

section \<open>Operation by operation\<close>

text \<open>A release writes headers of the heap as it was.\<close>

lemma smem_free_frame:
  assumes c: "closed m H" "r - 32 - heap_ptr m \<in> H" and run: "rt_smem_free m r = Some m'"
  shows "changed m m' \<subseteq> H"
proof (cases "r = 0")
  case True
  then show ?thesis using run by (simp add: rt_smem_free_def)
next
  case False
  let ?p = "r - 32 - heap_ptr m"
  obtain m1 lf mu where r: "set_item m ?p (pool_ptr_update (\<lambda>_. MEM_FREED (sm_addr m))) = Some m1"
      "plug_holes (m1\<lparr>lfree := lf, mem_used := mu\<rparr>) ?p = Some m'"
    using run False by (auto simp: rt_smem_free_def Option.bind_eq_Some_conv Let_def)
  note s = set_pool_closed [OF r(1) c]
  have "changed m1 m' \<subseteq> H" using plug_holes_frame [OF _ c(2) r(2)] s by simp
  then show ?thesis using s changed_trans by blast
qed

text \<open>An allocation writes headers of the heap as it becomes.\<close>

lemma count_used_items [simp]: "items (count_used m n) = items m"
  by (simp add: count_used_def Let_def)

lemma smem_mark_frame:
  assumes run: "smem_mark m s p = Some m'" and it: "items m p = Some it"
  shows "changed m m' \<subseteq> (if u32 (inext it - (p + 32)) \<ge> s + 64 then {p, p + 32 + s, inext it} else {p})"
  using run it
  by (auto simp: smem_mark_def changed_def Let_def set_item_def Option.bind_eq_Some_conv
      split: if_splits option.splits)

lemma smem_alloc_runs:
  assumes "rt_smem_alloc m sz0 = Some (r, m')" "sz0 \<noteq> 0" "r \<noteq> 0"
  shows "\<exists>m2. smem_mark m (alloc_size sz0) (r - heap_ptr m' - 32) = Some m2 \<and> changed m m' = changed m m2"
  using assms unfolding rt_smem_alloc_def Let_def alloc_size_def [symmetric]
  by (auto simp: Option.bind_eq_Some_conv split: if_splits option.splits)

lemma smem_alloc_frame:
  assumes ok: "smem_ok m bs" and sz: "sz0 \<noteq> 0" and fs: "fit_split (alloc_size sz0) bs = Some (xs, n, ys)"
    and run: "rt_smem_alloc m sz0 = Some (r, m')"
  shows "changed m m' \<subseteq> heads 0 (xs @ take_block (alloc_size sz0) n @ ys)"
proof -
  have bs: "bs = xs @ (n, False) # ys" using fit_split_Some [OF fs] by simp
  note ok' = ok [unfolded bs]
  note h = smem_header [OF ok'] and D = smem_okD [OF ok']
  have r: "r = heap_ptr m + endpos 0 xs + 32" "heap_ptr m' = heap_ptr m"
    using smem_alloc_cases [OF ok sz] fs run by (auto simp: same_pool_def)
  have "r \<noteq> 0" using r D(11) h(4) by simp
  then obtain m2 where m2: "smem_mark m (alloc_size sz0) (endpos 0 xs) = Some m2" "changed m m' = changed m m2"
    using smem_alloc_runs [OF run sz] r by auto
  have u: "u32 (endpos 0 xs + n - (endpos 0 xs + 32)) = n - 32"
    using h(2,4,5) D(11,13) by (simp add: c_store)
  have "changed m m2 \<subseteq> (if n - 32 \<ge> alloc_size sz0 + 64
      then {endpos 0 xs, endpos 0 xs + 32 + alloc_size sz0, endpos 0 xs + n} else {endpos 0 xs})"
    using smem_mark_frame [OF m2(1) h(1)] by (simp only: rt_small_mem_item.simps u)
  also have "\<dots> \<subseteq> heads 0 (xs @ take_block (alloc_size sz0) n @ ys)"
    by (auto simp: take_block_def algebra_simps)
  finally show ?thesis using m2(2) by simp
qed

text \<open>The headers describe one list of blocks.\<close>

lemma smem_inv_unique:
  assumes "smem_inv m bs" "smem_inv m bs'"
  shows "bs = bs'"
proof -
  have ok: "smem_ok m bs" "smem_ok m bs'" using assms by (auto simp: smem_inv_def)
  have "MEM_USED (sm_addr m) \<noteq> MEM_FREED (sm_addr m)" using smem_flags [OF ok(1)] by simp
  then show ?thesis using chain_unique smem_okD(6) [OF ok(1)] smem_okD(6) [OF ok(2)] by blast
qed

lemma smem_alloc_changed:
  assumes inv: "smem_inv m bs" "smem_inv m' bs'" and sz: "sz0 \<noteq> 0"
    and run: "rt_smem_alloc m sz0 = Some (r, m')"
  shows "changed m m' \<subseteq> heads 0 bs'"
proof -
  have ok: "smem_ok m bs" "noadj bs" using inv(1) by (auto simp: smem_inv_def)
  show ?thesis
  proof (cases "fit_split (alloc_size sz0) bs")
    case None
    then show ?thesis using smem_alloc_cases [OF ok(1) sz] run by simp
  next
    case (Some t)
    obtain xs n ys where t: "t = (xs, n, ys)" by (cases t) auto
    note fs = Some [unfolded t]
    let ?bs1 = "xs @ take_block (alloc_size sz0) n @ ys"
    have "smem_ok m' ?bs1" using smem_alloc_cases [OF ok(1) sz] fs run by auto
    then have "smem_inv m' ?bs1"
      using noadj_take [of xs n ys] fit_split_Some [OF fs] ok(2) by (simp add: smem_inv_def)
    then have "?bs1 = bs'" using inv(2) by (rule smem_inv_unique)
    then show ?thesis using smem_alloc_frame [OF ok(1) sz fs run] by simp
  qed
qed

lemma used_block_head: "(a, k) \<in> used_blocks p bs \<Longrightarrow> a - 32 \<in> heads p bs"
  by (induction p bs rule: endpos.induct) (auto split: if_splits)

lemma smem_free_changed:
  assumes inv: "smem_inv m bs" and a: "(a, k) \<in> used_blocks 0 bs"
    and run: "rt_smem_free m (heap_ptr m + a) = Some m'"
  shows "changed m m' \<subseteq> heads 0 bs"
proof (rule smem_free_frame [OF _ _ run])
  show "closed m (heads 0 bs)" using inv smem_closed by (simp add: smem_inv_def)
  show "heap_ptr m + a - 32 - heap_ptr m \<in> heads 0 bs" using used_block_head [OF a] by simp
qed

text \<open>A block cut in two: one header more.\<close>

lemma realloc_unfold_shrink:
  assumes ok: "smem_ok m (xs @ (n, True) # ys)" and ns: "RT_ALIGN ns0 RT_ALIGN_SIZE = ns" "0 < ns"
      "ns + 32 + MIN_SIZE < n - 32"
  shows "rt_smem_realloc m (heap_ptr m + endpos 0 xs + 32) ns0 = do {
       m2 \<leftarrow> set_item (m\<lparr>mem_used := u32 (mem_used m - (n - 32 - ns)),
              items := (items m)(endpos 0 xs + 32 + ns \<mapsto>
                \<lparr>pool_ptr = MEM_FREED (sm_addr m), inext = endpos 0 xs + n, iprev = endpos 0 xs\<rparr>)\<rparr>)
              (endpos 0 xs) (inext_update (\<lambda>_. endpos 0 xs + 32 + ns));
       m3 \<leftarrow> (if endpos 0 xs + n \<noteq> mem_size_aligned m + 32
              then set_item m2 (endpos 0 xs + n) (iprev_update (\<lambda>_. endpos 0 xs + 32 + ns)) else Some m2);
       m5 \<leftarrow> plug_holes (m3\<lparr>lfree := (if endpos 0 xs + 32 + ns < lfree m3 then endpos 0 xs + 32 + ns
              else lfree m3)\<rparr>) (endpos 0 xs + 32 + ns);
       Some (heap_ptr m + endpos 0 xs + 32, m5) }"
proof -
  note h = smem_header [OF ok] and D = smem_okD [OF ok]
  have al: "(heap_ptr m + endpos 0 xs + 32) mod 32 = 0"
    using D(5,12) endpos_mod [of xs 0] by (simp add: mod_add_eq [symmetric])
  have sz: "u32 (endpos 0 xs + n - endpos 0 xs - SIZEOF_STRUCT_MEM) = n - 32"
    using h D(11,13) by (simp add: c_store)
  have "n - 32 \<le> mem_size_aligned m" "n - 32 \<noteq> ns" "\<not> ns > mem_size_aligned m"
    using h D(9) ns(2,3) by (auto simp: MIN_SIZE_def)
  then show ?thesis
    using h sz ns al D(11) unfolding rt_smem_realloc_def ns(1) Let_def
    by (simp add: aligned_and_31 cong: if_cong)
qed

lemma smem_shrink_changed:
  assumes ok: "smem_ok m (xs @ (n, True) # ys)" and ns: "RT_ALIGN ns0 RT_ALIGN_SIZE = ns" "0 < ns"
      "ns + 32 + MIN_SIZE < n - 32"
    and run: "rt_smem_realloc m (heap_ptr m + endpos 0 xs + 32) ns0 = Some (r, m')"
  shows "changed m m' \<subseteq> insert (endpos 0 xs + 32 + ns) (heads 0 (xs @ (n, True) # ys))"
    (is "_ \<subseteq> ?H")
proof -
  let ?p = "endpos 0 xs" and ?p2 = "endpos 0 xs + 32 + ns"
  let ?m0 = "m\<lparr>mem_used := u32 (mem_used m - (n - 32 - ns)), items := (items m)(?p2 \<mapsto>
       \<lparr>pool_ptr = MEM_FREED (sm_addr m), inext = ?p + n, iprev = ?p\<rparr>)\<rparr>"
  obtain m2 m3 lf where r: "set_item ?m0 ?p (inext_update (\<lambda>_. ?p2)) = Some m2"
      "(if ?p + n \<noteq> mem_size_aligned m + 32 then set_item m2 (?p + n) (iprev_update (\<lambda>_. ?p2))
        else Some m2) = Some m3"
      "plug_holes (m3\<lparr>lfree := lf\<rparr>) ?p2 = Some m'"
    using run unfolding realloc_unfold_shrink [OF ok ns] Option.bind_eq_Some_conv by blast
  have pos: "?p \<in> ?H" "?p + n \<in> ?H" "?p2 \<in> ?H" by auto
  have c0: "closed ?m0 ?H"
    using smem_closed [OF ok] pos by (auto simp: closed_def split: if_splits)
  have d0: "changed m ?m0 \<subseteq> ?H" by (auto simp: changed_def split: if_splits)
  note s2 = set_next_closed [OF r(1) c0 pos(1,3)]
  have s3: "closed m3 ?H \<and> changed m2 m3 \<subseteq> ?H"
    using r(2) set_prev_closed [OF _ _ pos(2,3), of m2 m3] s2 by (auto split: if_splits)
  have s4: "changed m3 m' \<subseteq> ?H" using plug_holes_frame [OF _ pos(3) r(3)] s3 by simp
  have "changed m m2 \<subseteq> ?H" using changed_trans [OF d0] s2 by blast
  then have "changed m m3 \<subseteq> ?H" using changed_trans s3 by blast
  then show ?thesis using s4 by (rule changed_trans)
qed

text \<open>
  A reallocation: the headers written are apart from what is in use afterwards, and apart from
  the old block too when the block is moved, so the copy of its contents is not disturbed.
\<close>

lemma smem_shrink_apart:
  assumes inv: "smem_inv m (xs @ (k + 32, True) # ys)" "smem_inv m' bs'"
    and ns: "RT_ALIGN ns0 RT_ALIGN_SIZE = ns" "0 < ns" "ns + 32 + MIN_SIZE < k"
    and run: "rt_smem_realloc m (heap_ptr m + endpos 0 xs + 32) ns0 = Some (r, m')"
  shows "\<exists>bs1. sizes_ok bs1 \<and> changed m m' \<subseteq> heads 0 bs1 \<and> used_blocks 0 bs' \<subseteq> used_blocks 0 bs1"
proof -
  let ?bs = "xs @ (k + 32, True) # ys"
  let ?bs1 = "xs @ [(ns + 32, True), (k - ns, False)] @ ys"
  have ok: "smem_ok m ?bs" and na: "noadj xs" "noadj ys"
    using inv(1) by (auto simp: smem_inv_def noadj_append noadj_Cons simp del: noadj.simps(1))
  note D = smem_okD [OF ok]
  obtain m'' where "rt_smem_realloc m (heap_ptr m + endpos 0 xs + 32) ns0 =
        Some (heap_ptr m + endpos 0 xs + 32, m'')"
      "smem_ok m'' (plugged (xs @ [(ns + 32, True)]) (k - ns) ys)"
    using smem_realloc_shrink [OF ok ns(1,2), simplified, OF ns(3)] by auto
  then have "smem_inv m' (plugged (xs @ [(ns + 32, True)]) (k - ns) ys)"
    using run na noadj_plugged [of "xs @ [(ns + 32, True)]" ys "k - ns"]
    by (auto simp: smem_inv_def noadj_append)
  then have bs': "bs' = plugged (xs @ [(ns + 32, True)]) (k - ns) ys"
    using inv(2) smem_inv_unique by blast
  have nsm: "ns = 32 * (u32 (ns0 + 31) div 32)" using RT_ALIGN_32 [of ns0] ns(1) by simp
  have "ns mod 32 = 0" "32 \<le> ns" using nsm ns(2) by presburger+
  moreover have "k mod 32 = 0" using D(5) by simp
  ultimately have so: "sizes_ok ?bs1" using D(5) ns(3) by (auto simp: MIN_SIZE_def mod_diff_eq [symmetric])
  have n: "ns + 32 + MIN_SIZE < k + 32 - 32" using ns(3) by simp
  have "changed m m' \<subseteq> heads 0 ?bs1"
    using smem_shrink_changed [OF ok ns(1,2) n run] by (auto simp: algebra_simps)
  moreover have "used_blocks 0 bs' \<subseteq> used_blocks 0 ?bs1"
    by (auto simp: bs' used_blocks_plugged algebra_simps)
  ultimately show ?thesis using so by blast
qed

lemma smem_move_apart:
  assumes inv: "smem_inv m (xs @ (k + 32, True) # ys)" "smem_inv m' bs'"
    and ns: "RT_ALIGN ns0 RT_ALIGN_SIZE = ns" "0 < ns" "ns \<le> mem_size_aligned m"
      "k \<noteq> ns" "\<not> ns + 32 + MIN_SIZE < k"
    and run: "rt_smem_realloc m (heap_ptr m + endpos 0 xs + 32) ns0 = Some (r, m')" "r \<noteq> 0"
  shows "\<exists>bs1. sizes_ok bs1 \<and> changed m m' \<subseteq> heads 0 bs1 \<and> used_blocks 0 bs' \<subseteq> used_blocks 0 bs1 \<and>
    used_blocks 0 (xs @ (k + 32, True) # ys) \<subseteq> used_blocks 0 bs1"
proof -
  let ?bs = "xs @ (k + 32, True) # ys" and ?a = "endpos 0 xs + 32"
  have ok: "smem_ok m ?bs" using inv(1) by (simp add: smem_inv_def)
  have no: "k + 32 - 32 \<noteq> ns" "\<not> ns + 32 + MIN_SIZE < k + 32 - 32" using ns by auto
  obtain q m1 b where al: "rt_smem_alloc m ns = Some (q, m1)" "q \<noteq> 0"
      "rt_smem_free (m1\<lparr>heap_bytes := b\<rparr>) (heap_ptr m + endpos 0 xs + 32) = Some m'"
    using run unfolding realloc_unfold_move [OF ok ns(1-3) no] Option.bind_eq_Some_conv
    by (auto simp: Option.bind_eq_Some_conv split: if_splits)
  have n0: "ns \<noteq> 0" using ns(2) by simp
  obtain c j bs1 where bs1: "smem_inv m1 bs1" "same_pool m m1"
      "used_blocks 0 bs1 = insert (c, j) (used_blocks 0 ?bs)"
    using smem_alloc_live [OF inv(1) n0] al(1,2) by auto
  let ?m2 = "m1\<lparr>heap_bytes := b\<rparr>"
  have inv2: "smem_inv ?m2 bs1" using bs1(1) by simp
  have free: "rt_smem_free ?m2 (heap_ptr ?m2 + ?a) = Some m'" using al(3) bs1(2) by (simp add: same_pool_def add.assoc)
  have ub: "(?a, k) \<in> used_blocks 0 bs1" using bs1(3) by simp
  have c1: "changed m m1 \<subseteq> heads 0 bs1" by (rule smem_alloc_changed [OF inv(1) bs1(1) n0 al(1)])
  have "changed ?m2 m' \<subseteq> heads 0 bs1" by (rule smem_free_changed [OF inv2 ub free])
  then have "changed m m' \<subseteq> heads 0 bs1" using changed_trans [OF c1] by simp
  moreover have "used_blocks 0 bs' \<subseteq> used_blocks 0 bs1"
  proof -
    obtain bs3 where "smem_inv m' bs3" "used_blocks 0 bs3 = used_blocks 0 bs1 - {(?a, k)}"
      using smem_free_live [OF inv2 ub] free by auto
    then show ?thesis using smem_inv_unique [OF inv(2)] by blast
  qed
  moreover have "sizes_ok bs1" using bs1(1) smem_okD(5) by (auto simp: smem_inv_def)
  ultimately show ?thesis using bs1(3) by auto
qed

lemma smem_realloc_apart:
  assumes inv: "smem_inv m bs" "smem_inv m' bs'" and ub: "(a, k) \<in> used_blocks 0 bs"
    and ns: "RT_ALIGN ns0 RT_ALIGN_SIZE = ns" "0 < ns"
    and run: "rt_smem_realloc m (heap_ptr m + a) ns0 = Some (r, m')" "r \<noteq> 0"
  shows "\<exists>bs1. sizes_ok bs1 \<and> changed m m' \<subseteq> heads 0 bs1 \<and> used_blocks 0 bs' \<subseteq> used_blocks 0 bs1 \<and>
    (r \<noteq> heap_ptr m + a \<longrightarrow> used_blocks 0 bs \<subseteq> used_blocks 0 bs1)"
proof -
  obtain xs ys where bs: "bs = xs @ (k + 32, True) # ys" and a: "a = endpos 0 xs + 32"
    using used_blocks_split [OF ub] by blast
  note inv1 = inv(1) [unfolded bs]
  have ok: "smem_ok m (xs @ (k + 32, True) # ys)" using inv1 by (simp add: smem_inv_def)
  have run': "rt_smem_realloc m (heap_ptr m + endpos 0 xs + 32) ns0 = Some (r, m')"
    using run(1) by (simp add: a add.assoc)
  consider "mem_size_aligned m < ns" | "k = ns"
    | "ns + 32 + MIN_SIZE < k" | "ns \<le> mem_size_aligned m" "k \<noteq> ns" "\<not> ns + 32 + MIN_SIZE < k"
    by linarith
  then show ?thesis
  proof cases
    case 1
    then show ?thesis using run unfolding rt_smem_realloc_def ns(1) Let_def by simp
  next
    case 2
    then have "m' = m" using realloc_unfold_same [OF ok] ns(1) run' by simp
    moreover have "sizes_ok bs" using smem_okD(5) [OF ok] bs by simp
    ultimately show ?thesis using smem_inv_unique [OF inv(1)] inv(2) by (intro exI [of _ bs]) auto
  next
    case 3
    obtain m'' where "rt_smem_realloc m (heap_ptr m + endpos 0 xs + 32) ns0 =
        Some (heap_ptr m + endpos 0 xs + 32, m'')"
      using smem_realloc_shrink [OF ok ns, simplified, OF 3] by auto
    then have "r = heap_ptr m + a" using run' by (simp add: a)
    then show ?thesis using smem_shrink_apart [OF inv1 inv(2) ns 3 run'] by blast
  next
    case 4
    then show ?thesis
      using smem_move_apart [OF inv1 inv(2) ns 4 run' run(2)] unfolding bs by blast
  qed
qed

end
