(* ===== verification/Smallmem_Client.thy ===== *)
theory Smallmem_Client
  imports Smallmem_Frame
begin

text \<open>
  The small-memory allocator as its clients see it: the live blocks of a heap, the contract
  of \<open>Allocator\<close> discharged for the code, and every heap a client reaches that
  releases and resizes only what it was given and writes only inside its own blocks.
\<close>

section \<open>Live blocks\<close>

definition smem_wf :: "rt_small_mem \<Rightarrow> bool" where
  "smem_wf m \<longleftrightarrow> (\<exists>bs. smem_inv m bs)"

definition smem_live :: "rt_small_mem \<Rightarrow> (int \<times> int) set" where
  "smem_live m = {(heap_ptr m + a, k) | a k. \<exists>bs. smem_inv m bs \<and> (a, k) \<in> used_blocks 0 bs}"

lemma smem_live_eq:
  assumes bs: "smem_inv m bs"
  shows "smem_live m = (\<lambda>(a, k). (heap_ptr m + a, k)) ` used_blocks 0 bs"
proof -
  have "smem_inv m bs' \<longleftrightarrow> bs' = bs" for bs' using smem_inv_unique bs by blast
  then show ?thesis by (force simp: smem_live_def)
qed

lemma smem_live_range:
  assumes "smem_wf m" "(r, k) \<in> smem_live m"
  shows "heap_ptr m + 32 \<le> r" "32 \<le> k" "r + k \<le> heap_ptr m + heap_end m" "r mod 32 = 0" "0 < r"
    "(r', k') \<in> smem_live m \<Longrightarrow> (r', k') = (r, k) \<or> r + k + 32 \<le> r' \<or> r' + k' + 32 \<le> r"
proof -
  obtain bs where bs: "smem_inv m bs" using assms(1) by (auto simp: smem_wf_def)
  then have ok: "smem_ok m bs" by (simp add: smem_inv_def)
  note D = smem_okD [OF ok]
  obtain a where a: "r = heap_ptr m + a" "(a, k) \<in> used_blocks 0 bs"
    using assms(2) smem_live_eq [OF bs] by auto
  obtain xs ys where bs': "bs = xs @ (k + 32, True) # ys" "a = endpos 0 xs + 32"
    using used_blocks_split [OF a(2)] by blast
  note h = smem_header [OF ok [unfolded bs']]
  have m: "(endpos 0 xs) mod 32 = 0" using endpos_mod [of xs 0] D(5) bs' by simp
  show "heap_ptr m + 32 \<le> r" "32 \<le> k" "r + k \<le> heap_ptr m + heap_end m" "0 < r"
    using h a bs' D(11) by auto
  show "r mod 32 = 0" using m a bs' D(12) by (simp add: mod_add_eq [symmetric])
  show "(r', k') \<in> smem_live m \<Longrightarrow> (r', k') = (r, k) \<or> r + k + 32 \<le> r' \<or> r' + k' + 32 \<le> r"
  proof -
    assume "(r', k') \<in> smem_live m"
    then obtain b where b: "r' = heap_ptr m + b" "(b, k') \<in> used_blocks 0 bs"
      using smem_live_eq [OF bs] by auto
    have so: "sizes_ok xs" "sizes_ok ys" using D(5) bs' by auto
    have "(b, k') \<in> used_blocks 0 xs \<or> (b, k') = (a, k) \<or> (b, k') \<in> used_blocks (endpos 0 xs + (k + 32)) ys"
      using b(2) by (auto simp: bs')
    then show ?thesis
      using used_blocks_range [of xs b k' 0] used_blocks_range [of ys b k' "endpos 0 xs + (k + 32)"] so
      by (auto simp: a b bs')
  qed
qed

section \<open>The allocator contract, for the code\<close>

lemma smem_alloc_wf:
  assumes wf: "smem_wf m" and n: "n \<noteq> 0"
  shows "(rt_smem_alloc m n = Some (0, m) \<or>
    (\<exists>r k m'. rt_smem_alloc m n = Some (r, m') \<and> smem_wf m' \<and> same_pool m m' \<and> heap_bytes m' = heap_bytes m \<and>
       alloc_size n \<le> k \<and> 0 < r \<and> r mod 32 = 0 \<and> smem_live m' = insert (r, k) (smem_live m) \<and>
       (\<forall>(b, l) \<in> smem_live m. r + k + 32 \<le> b \<or> b + l + 32 \<le> r)))"
proof -
  obtain bs where bs: "smem_inv m bs" using wf by (auto simp: smem_wf_def)
  then have ok: "smem_ok m bs" by (simp add: smem_inv_def)
  note live = smem_live_eq [OF bs]
  from smem_alloc_live [OF bs n] show ?thesis
  proof (elim disjE exE conjE)
    assume "rt_smem_alloc m n = Some (0, m)" then show ?thesis by simp
  next
    fix a k m' bs'
    assume 1: "rt_smem_alloc m n = Some (heap_ptr m + a, m')" "smem_inv m' bs'" "same_pool m m'"
      "heap_bytes m' = heap_bytes m" "alloc_size n \<le> k" "32 \<le> a" "a mod 32 = 0" "a + k \<le> heap_end m"
      "used_blocks 0 bs' = insert (a, k) (used_blocks 0 bs)"
      and sep: "\<forall>(b, l) \<in> used_blocks 0 bs. a + k \<le> b - 32 \<or> b + l \<le> a - 32"
    have hp: "heap_ptr m' = heap_ptr m" using 1(3) by (simp add: same_pool_def)
    have "smem_live m' = insert (heap_ptr m + a, k) (smem_live m)"
      using smem_live_eq [OF 1(2)] live 1(9) hp by simp
    moreover have "\<forall>(b, l) \<in> smem_live m. heap_ptr m + a + k + 32 \<le> b \<or> b + l + 32 \<le> heap_ptr m + a"
      using sep live by fastforce
    moreover have "0 < heap_ptr m + a" "(heap_ptr m + a) mod 32 = 0"
      using smem_okD(11,12) [OF ok] 1(6,7) by auto
    ultimately show ?thesis
      using 1 by (auto simp: smem_wf_def)
  qed
qed

lemma smem_free_wf:
  assumes wf: "smem_wf m" and r: "(r, k) \<in> smem_live m"
  shows "\<exists>m'. rt_smem_free m r = Some m' \<and> smem_wf m' \<and> same_pool m m' \<and> heap_bytes m' = heap_bytes m \<and>
    smem_live m' = smem_live m - {(r, k)}"
proof -
  obtain bs where bs: "smem_inv m bs" using wf by (auto simp: smem_wf_def)
  note live = smem_live_eq [OF bs]
  obtain a where a: "r = heap_ptr m + a" "(a, k) \<in> used_blocks 0 bs" using r live by auto
  obtain m' bs' where m': "rt_smem_free m r = Some m'" "smem_inv m' bs'" "same_pool m m'"
      "heap_bytes m' = heap_bytes m" "used_blocks 0 bs' = used_blocks 0 bs - {(a, k)}"
    using smem_free_live [OF bs a(2)] a(1) by auto
  have "heap_ptr m' = heap_ptr m" using m'(3) by (simp add: same_pool_def)
  then have "smem_live m' = smem_live m - {(r, k)}"
    using smem_live_eq [OF m'(2)] live m'(5) a(1) by auto
  then show ?thesis using m' by (auto simp: smem_wf_def)
qed

lemma smem_realloc_wf:
  assumes wf: "smem_wf m" and r: "(r, k) \<in> smem_live m" and n: "0 < n" "n \<le> 4294967264"
  shows "\<exists>r' m'. rt_smem_realloc m r n = Some (r', m') \<and> smem_wf m' \<and> same_pool m m' \<and>
    (r' = 0 \<and> m' = m \<or>
     (\<exists>k'. n \<le> k' \<and> smem_live m' = insert (r', k') (smem_live m - {(r, k)}) \<and>
       (\<forall>l. (r', l) \<notin> smem_live m - {(r, k)}) \<and>
       (\<forall>i. 0 \<le> i \<and> i < k \<and> i < n \<longrightarrow> heap_bytes m' (r' + i) = heap_bytes m (r + i)) \<and>
       (\<forall>(b, l) \<in> smem_live m - {(r, k)}. \<forall>i. 0 \<le> i \<and> i < l \<longrightarrow> heap_bytes m' (b + i) = heap_bytes m (b + i))))"
proof -
  obtain bs where bs: "smem_inv m bs" using wf by (auto simp: smem_wf_def)
  note live = smem_live_eq [OF bs]
  obtain a where a: "r = heap_ptr m + a" "(a, k) \<in> used_blocks 0 bs" using r live by auto
  have ns: "n \<le> RT_ALIGN n RT_ALIGN_SIZE" using RT_ALIGN_bounds(1) [of n] n by simp
  obtain r' m' bs' where m': "rt_smem_realloc m r n = Some (r', m')" "smem_inv m' bs'" "same_pool m m'"
      "if r' = 0 then m' = m else realloc_post m bs a k (RT_ALIGN n RT_ALIGN_SIZE) r' m' bs'"
    using smem_realloc_live [OF bs a(2) refl, of n] ns n(1) a(1) by auto
  have hp: "heap_ptr m' = heap_ptr m" using m'(3) by (simp add: same_pool_def)
  show ?thesis
  proof (cases "r' = 0")
    case True
    then show ?thesis using m' by (auto simp: smem_wf_def)
  next
    case False
    then have post: "realloc_post m bs a k (RT_ALIGN n RT_ALIGN_SIZE) r' m' bs'" using m'(4) by simp
    then obtain k' where k': "RT_ALIGN n RT_ALIGN_SIZE \<le> k'"
        "used_blocks 0 bs' = insert (r' - heap_ptr m, k') (used_blocks 0 bs - {(a, k)})"
      by (auto simp: realloc_post_def)
    have l: "smem_live m - {(r, k)} = (\<lambda>(a, k). (heap_ptr m + a, k)) ` (used_blocks 0 bs - {(a, k)})"
      using live a(1) by auto
    have "smem_live m' = insert (r', k') (smem_live m - {(r, k)})"
      using smem_live_eq [OF m'(2)] k'(2) hp l by simp
    moreover have "\<forall>l. (r', l) \<notin> smem_live m - {(r, k)}"
      using post unfolding l by (auto simp: realloc_post_def)
    moreover have "\<forall>i. 0 \<le> i \<and> i < k \<and> i < n \<longrightarrow> heap_bytes m' (r' + i) = heap_bytes m (r + i)"
      using post ns a(1) by (auto simp: realloc_post_def)
    moreover have "\<forall>(b, l) \<in> smem_live m - {(r, k)}. \<forall>i. 0 \<le> i \<and> i < l \<longrightarrow>
        heap_bytes m' (b + i) = heap_bytes m (b + i)"
    proof -
      have "\<forall>(b, l) \<in> used_blocks 0 bs - {(a, k)}. \<forall>i. 0 \<le> i \<and> i < l \<longrightarrow>
          heap_bytes m' (heap_ptr m + b + i) = heap_bytes m (heap_ptr m + b + i)"
        using post by (simp add: realloc_post_def)
      then show ?thesis unfolding l by (force simp del: Diff_iff)
    qed
    ultimately show ?thesis
      using m'(1-3) k'(1) ns
      by (intro exI [of _ r'] exI [of _ m'] conjI disjI2 exI [of _ k']) (auto simp: smem_wf_def)
  qed
qed

interpretation smem: block_allocator smem_wf smem_live rt_smem_alloc rt_smem_free
proof unfold_locales
  fix m n assume wf: "smem_wf m" and n: "0 < (n::int)" "n \<le> 4294967264"
  have na: "n \<le> alloc_size n" using alloc_size_ge [OF n] .
  show "\<exists>r h'. rt_smem_alloc m n = Some (r, h') \<and> smem_wf h' \<and>
      (r = 0 \<and> smem_live h' = smem_live m \<or>
       (\<exists>k. 0 < r \<and> n \<le> k \<and> smem_live h' = insert (r, k) (smem_live m) \<and>
          (\<forall>(a, l) \<in> smem_live m. r + k \<le> a \<or> a + l \<le> r)))"
  proof (cases "rt_smem_alloc m n = Some (0, m)")
    case False
    then obtain r k m' where m': "rt_smem_alloc m n = Some (r, m')" "smem_wf m'" "alloc_size n \<le> k" "0 < r"
        "smem_live m' = insert (r, k) (smem_live m)"
        "\<forall>(b, l) \<in> smem_live m. r + k + 32 \<le> b \<or> b + l + 32 \<le> r"
      using smem_alloc_wf [OF wf, of n] n(1) by auto
    then have "\<forall>(b, l) \<in> smem_live m. r + k \<le> b \<or> b + l \<le> r" by fastforce
    then show ?thesis
      using m' na by (intro exI [of _ r] exI [of _ m'] conjI disjI2 exI [of _ k]) auto
  qed (simp add: wf)
next
  fix m show "rt_smem_alloc m 0 = Some (0, m)" by (simp add: rt_smem_alloc_def)
next
  fix m r k assume "smem_wf m" "(r, k) \<in> smem_live m"
  then show "\<exists>h'. rt_smem_free m r = Some h' \<and> smem_wf h' \<and> smem_live h' = smem_live m - {(r, k)}"
    using smem_free_wf by blast
next
  fix m r k assume "smem_wf m" "(r, k) \<in> smem_live m"
  then show "0 < r \<and> 0 < k" using smem_live_range [of m r k] by auto
qed

section \<open>Clients\<close>

text \<open>
  The addresses an operation writes headers to. In the code they are bytes of the same memory as
  the clients' data, so whatever a client keeps there is lost.
\<close>

definition written :: "rt_small_mem \<Rightarrow> rt_small_mem \<Rightarrow> int set" where
  "written m m' = {a. \<exists>x \<in> changed m m'. heap_ptr m + x \<le> a \<and> a < heap_ptr m + x + sizeof_small_mem_item}"

definition agrees_outside :: "int set \<Rightarrow> (int \<Rightarrow> byte) \<Rightarrow> (int \<Rightarrow> byte) \<Rightarrow> bool" where
  "agrees_outside A b b' \<longleftrightarrow> (\<forall>a. a \<notin> A \<longrightarrow> b' a = b a)"

definition bytes_at :: "(int \<Rightarrow> byte) \<Rightarrow> int \<Rightarrow> nat \<Rightarrow> byte list" where
  "bytes_at b r n = map (\<lambda>i. b (r + int i)) [0..<n]"

definition holds :: "(int \<Rightarrow> byte) \<Rightarrow> int \<Rightarrow> byte list \<Rightarrow> bool" where
  "holds b r xs \<longleftrightarrow> (\<forall>i < length xs. b (r + int i) = xs ! i)"

text \<open>
  A client's state is the heap and what it owns: the pointers it was given, each with the bytes it
  believes the block to hold, as many as it asked for. It releases and resizes only what it owns
  and writes only inside it. Headers and data share the memory in both directions: an operation
  leaves any bytes \<open>b\<close> where it wrote headers (and, when a block is moved, in the copies of such
  bytes), and a write of the client leaves any header \<open>hs\<close> whose bytes it hits.
\<close>

inductive heap_step :: "rt_small_mem \<times> (int \<rightharpoonup> byte list) \<Rightarrow> rt_small_mem \<times> (int \<rightharpoonup> byte list) \<Rightarrow> bool" where
  h_alloc: "0 < n \<Longrightarrow> n \<le> 4294967264 \<Longrightarrow> rt_smem_alloc m n = Some (r, m') \<Longrightarrow>
    agrees_outside (written m m') (heap_bytes m') b \<Longrightarrow>
    heap_step (m, ow) (m'\<lparr>heap_bytes := b\<rparr>, if r = 0 then ow else ow(r \<mapsto> bytes_at b r (nat n)))"
| h_free: "ow r = Some xs \<Longrightarrow> rt_smem_free m r = Some m' \<Longrightarrow>
    agrees_outside (written m m') (heap_bytes m') b \<Longrightarrow>
    heap_step (m, ow) (m'\<lparr>heap_bytes := b\<rparr>, ow(r := None))"
| h_realloc: "ow r = Some xs \<Longrightarrow> 0 < n' \<Longrightarrow> n' \<le> 4294967264 \<Longrightarrow> rt_smem_realloc m r n' = Some (r', m') \<Longrightarrow>
    agrees_outside (written m m' \<union> {r' + i | i. 0 \<le> i \<and> i < n' \<and> r + i \<in> written m m'}) (heap_bytes m') b \<Longrightarrow>
    heap_step (m, ow) (m'\<lparr>heap_bytes := b\<rparr>, if r' = 0 then ow
      else (ow(r := None))(r' \<mapsto> take (nat n') xs @ bytes_at b (r' + int (length xs)) (nat n' - length xs)))"
| h_write: "ow r = Some xs \<Longrightarrow> i < length xs \<Longrightarrow>
    (\<forall>x. \<not> (heap_ptr m + x \<le> r + int i \<and> r + int i < heap_ptr m + x + sizeof_small_mem_item) \<longrightarrow>
       hs x = items m x) \<Longrightarrow>
    heap_step (m, ow) (m\<lparr>items := hs, heap_bytes := (heap_bytes m)(r + int i := v)\<rparr>, ow(r \<mapsto> xs[i := v]))"

inductive_cases heap_stepE: "heap_step (m, ow) (m', ow')"

text \<open>What the client believes is the case.\<close>

definition owns :: "rt_small_mem \<Rightarrow> (int \<rightharpoonup> byte list) \<Rightarrow> bool" where
  "owns m ow \<longleftrightarrow> smem_wf m \<and> dom ow = fst ` smem_live m \<and>
     (\<forall>(r, k) \<in> smem_live m. \<exists>xs. ow r = Some xs \<and> xs \<noteq> [] \<and> int (length xs) \<le> k \<and> holds (heap_bytes m) r xs)"

lemma length_bytes_at [simp]: "length (bytes_at b r n) = n"
  by (simp add: bytes_at_def)

lemma holds_bytes_at [simp]: "holds b r (bytes_at b r n)"
  by (simp add: holds_def bytes_at_def)

lemma holds_append:
  "holds b r (xs @ ys) \<longleftrightarrow> holds b r xs \<and> holds b (r + int (length xs)) ys"
  unfolding holds_def
proof (intro iffI conjI allI impI)
  fix i assume h: "\<forall>i < length (xs @ ys). b (r + int i) = (xs @ ys) ! i"
  show "i < length xs \<Longrightarrow> b (r + int i) = xs ! i" using h [rule_format, of i] by (simp add: nth_append)
  show "i < length ys \<Longrightarrow> b (r + int (length xs) + int i) = ys ! i"
    using h [rule_format, of "length xs + i"] by (simp add: add.assoc)
next
  fix i assume h: "(\<forall>i < length xs. b (r + int i) = xs ! i) \<and>
      (\<forall>i < length ys. b (r + int (length xs) + int i) = ys ! i)" and i: "i < length (xs @ ys)"
  show "b (r + int i) = (xs @ ys) ! i"
  proof (cases "i < length xs")
    case False
    then have "b (r + int (length xs) + int (i - length xs)) = ys ! (i - length xs)"
      using i by (intro conjunct2 [OF h, rule_format]) auto
    then show ?thesis using False by (simp add: nth_append of_nat_diff)
  qed (use h in \<open>simp add: nth_append\<close>)
qed

lemma holds_agree:
  "holds b r xs \<Longrightarrow> (\<And>i. 0 \<le> i \<Longrightarrow> i < int (length xs) \<Longrightarrow> b' (r + i) = b (r + i)) \<Longrightarrow> holds b' r xs"
  by (simp add: holds_def)

lemma smem_wf_bytes [simp]: "smem_wf (m\<lparr>heap_bytes := b\<rparr>) = smem_wf m"
  by (simp add: smem_wf_def)

lemma smem_live_bytes [simp]: "smem_live (m\<lparr>heap_bytes := b\<rparr>) = smem_live m"
  by (simp add: smem_live_def)

lemma ownsE:
  assumes "owns m ow" "ow r = Some xs"
  obtains k where "(r, k) \<in> smem_live m" "xs \<noteq> []" "int (length xs) \<le> k" "holds (heap_bytes m) r xs"
  using assms by (fastforce simp: owns_def)

lemma live_fun:
  assumes "smem_wf m" "(r, k) \<in> smem_live m" "(r, k') \<in> smem_live m"
  shows "k = k'"
  using smem_live_range [OF assms(1,2)] smem_live_range(6) [OF assms(1,2,3)] smem_live_range(2) [OF assms(1,3)] by auto

text \<open>Blocks whose bytes are the same.\<close>

definition same_bytes :: "(int \<times> int) set \<Rightarrow> (int \<Rightarrow> byte) \<Rightarrow> (int \<Rightarrow> byte) \<Rightarrow> bool" where
  "same_bytes L b b' \<longleftrightarrow> (\<forall>(r, k) \<in> L. \<forall>i. 0 \<le> i \<and> i < k \<longrightarrow> b' (r + i) = b (r + i))"

lemma same_bytesD: "same_bytes L b b' \<Longrightarrow> (r, k) \<in> L \<Longrightarrow> 0 \<le> i \<Longrightarrow> i < k \<Longrightarrow> b' (r + i) = b (r + i)"
  by (auto simp: same_bytes_def)

lemma same_bytes_holds:
  "same_bytes L b b' \<Longrightarrow> (r, k) \<in> L \<Longrightarrow> int (length xs) \<le> k \<Longrightarrow> holds b r xs \<Longrightarrow> holds b' r xs"
  by (erule holds_agree) (auto dest: same_bytesD)

lemma owns_insert:
  assumes "owns m ow" "smem_wf m'" "smem_live m' = insert (r, k) (smem_live m)" "xs \<noteq> []" "int (length xs) \<le> k"
    "r \<notin> fst ` smem_live m" "holds (heap_bytes m') r xs" "same_bytes (smem_live m) (heap_bytes m) (heap_bytes m')"
  shows "owns m' (ow(r \<mapsto> xs))"
proof -
  have d: "dom (ow(r \<mapsto> xs)) = fst ` smem_live m'" using assms(1,3) by (simp add: owns_def)
  have "\<exists>ys. (ow(r \<mapsto> xs)) s = Some ys \<and> ys \<noteq> [] \<and> int (length ys) \<le> l \<and> holds (heap_bytes m') s ys"
    if l: "(s, l) \<in> smem_live m'" for s l
  proof (cases "(s, l) = (r, k)")
    case True
    then show ?thesis using assms(4,5,7) by simp
  next
    case False
    then have s: "(s, l) \<in> smem_live m" "s \<noteq> r" using l assms(3,6) by (auto simp: image_iff)
    then show ?thesis using assms(1) same_bytes_holds [OF assms(8) s(1)] by (fastforce simp: owns_def)
  qed
  then show ?thesis using assms(2) d by (auto simp: owns_def)
qed

lemma owns_remove:
  assumes "owns m ow" "smem_wf m'" "(r, k) \<in> smem_live m" "smem_live m' = smem_live m - {(r, k)}"
    "same_bytes (smem_live m') (heap_bytes m) (heap_bytes m')"
  shows "owns m' (ow(r := None))"
proof -
  have wf: "smem_wf m" using assms(1) by (simp add: owns_def)
  have ne: "s \<noteq> r" if "(s, l) \<in> smem_live m'" for s l
    using live_fun [OF wf assms(3)] assms(4) that by auto
  have d: "fst ` smem_live m' = fst ` smem_live m - {r}"
    using live_fun [OF wf assms(3)] by (fastforce simp: assms(4) image_iff)
  have o: "\<exists>xs. ow s = Some xs \<and> xs \<noteq> [] \<and> int (length xs) \<le> l \<and> holds (heap_bytes m') s xs"
    if l: "(s, l) \<in> smem_live m'" for s l
    using assms(1,4) l same_bytes_holds [OF assms(5) l] by (fastforce simp: owns_def)
  show ?thesis unfolding owns_def
  proof (intro conjI ballI)
    show "smem_wf m'" by (rule assms(2))
    show "dom (ow(r := None)) = fst ` smem_live m'" using assms(1) d by (simp add: owns_def)
    fix x assume "x \<in> smem_live m'"
    then show "case x of (s, l) \<Rightarrow> \<exists>xs. (ow(r := None)) s = Some xs \<and> xs \<noteq> [] \<and> int (length xs) \<le> l \<and>
        holds (heap_bytes m') s xs"
      using ne o by (cases x) auto
  qed
qed

text \<open>No header is written inside a block in use.\<close>

lemma heads_written:
  assumes "sizes_ok bs" "changed m m' \<subseteq> heads 0 bs" "(a, k) \<in> used_blocks 0 bs" "0 \<le> i" "i < k"
  shows "heap_ptr m + a + i \<notin> written m m'"
proof
  assume "heap_ptr m + a + i \<in> written m m'"
  then obtain x where "x \<in> heads 0 bs" "x \<le> a + i" "a + i < x + 12"
    using assms(2) by (auto simp: written_def sizeof_small_mem_item_def)
  then show False using heads_apart [OF assms(1) _ assms(3), of x] assms(4,5) by auto
qed

lemma live_blocks:
  assumes "smem_inv m bs" "(r, k) \<in> smem_live m"
  shows "(r - heap_ptr m, k) \<in> used_blocks 0 bs" "sizes_ok bs"
  using assms smem_live_eq [OF assms(1)] smem_okD(5) by (auto simp: smem_inv_def)

lemma alloc_written:
  assumes wf: "smem_wf m" "smem_wf m'" and run: "rt_smem_alloc m n = Some (r, m')" "n \<noteq> 0"
    and l: "(c, l) \<in> smem_live m'" "0 \<le> i" "i < l" and hp: "heap_ptr m' = heap_ptr m"
  shows "c + i \<notin> written m m'"
proof -
  obtain bs bs' where bs: "smem_inv m bs" "smem_inv m' bs'" using wf by (auto simp: smem_wf_def)
  note b = live_blocks [OF bs(2) l(1)]
  show ?thesis
    using heads_written [OF b(2) smem_alloc_changed [OF bs run(2,1)] b(1) l(2,3)] hp by simp
qed

lemma free_written:
  assumes wf: "smem_wf m" "(r, k) \<in> smem_live m" and run: "rt_smem_free m r = Some m'"
    and l: "(c, l) \<in> smem_live m" "0 \<le> i" "i < l"
  shows "c + i \<notin> written m m'"
proof -
  obtain bs where bs: "smem_inv m bs" using wf by (auto simp: smem_wf_def)
  note b = live_blocks [OF bs l(1)] and a = live_blocks [OF bs wf(2)]
  have "rt_smem_free m (heap_ptr m + (r - heap_ptr m)) = Some m'" using run by simp
  from heads_written [OF b(2) smem_free_changed [OF bs a(1) this] b(1) l(2,3)] show ?thesis by simp
qed

lemma realloc_written:
  assumes wf: "smem_wf m" "smem_wf m'" "(r, k) \<in> smem_live m" and n: "0 < n" "n \<le> 4294967264"
    and run: "rt_smem_realloc m r n = Some (r', m')" "r' \<noteq> 0" and hp: "heap_ptr m' = heap_ptr m"
    and l: "(c, l) \<in> smem_live m' \<or> r' \<noteq> r \<and> (c, l) \<in> smem_live m" "0 \<le> i" "i < l"
  shows "c + i \<notin> written m m'"
proof -
  obtain bs bs' where bs: "smem_inv m bs" "smem_inv m' bs'" using wf by (auto simp: smem_wf_def)
  note a = live_blocks [OF bs(1) wf(3)]
  have ns: "0 < RT_ALIGN n RT_ALIGN_SIZE" using RT_ALIGN_bounds(1) [of n] n by simp
  have r: "rt_smem_realloc m (heap_ptr m + (r - heap_ptr m)) n = Some (r', m')" using run(1) by simp
  obtain bs1 where bs1: "sizes_ok bs1" "changed m m' \<subseteq> heads 0 bs1" "used_blocks 0 bs' \<subseteq> used_blocks 0 bs1"
      "r' \<noteq> heap_ptr m + (r - heap_ptr m) \<longrightarrow> used_blocks 0 bs \<subseteq> used_blocks 0 bs1"
    using smem_realloc_apart [OF bs a(1) refl ns r run(2)] by blast
  have "(c - heap_ptr m, l) \<in> used_blocks 0 bs1"
    using l(1) live_blocks(1) [OF bs(1), of c l] live_blocks(1) [OF bs(2), of c l] hp bs1(3,4) by auto
  from heads_written [OF bs1(1,2) this l(2,3)] show ?thesis by simp
qed

lemma written_self [simp]: "written m m = {}"
  by (simp add: written_def)

lemma agrees_same_bytes:
  assumes "agrees_outside A b b'" "\<And>c l i. (c, l) \<in> L \<Longrightarrow> 0 \<le> i \<Longrightarrow> i < l \<Longrightarrow> c + i \<notin> A"
  shows "same_bytes L b b'"
  using assms by (fastforce simp: agrees_outside_def same_bytes_def)

lemma owns_same_bytes:
  assumes "owns m ow" "same_bytes (smem_live m) (heap_bytes m) b"
  shows "owns (m\<lparr>heap_bytes := b\<rparr>) ow"
proof -
  have "\<exists>xs. ow r = Some xs \<and> xs \<noteq> [] \<and> int (length xs) \<le> k \<and> holds b r xs"
    if r: "(r, k) \<in> smem_live m" for r k
    using assms(1) r same_bytes_holds [OF assms(2) r] by (fastforce simp: owns_def)
  then show ?thesis using assms(1) by (auto simp: owns_def)
qed

lemma alloc_owns:
  assumes o: "owns m ow" and n: "0 < n" "n \<le> 4294967264" and run: "rt_smem_alloc m n = Some (r, m')"
    and b: "agrees_outside (written m m') (heap_bytes m') b"
  shows "owns (m'\<lparr>heap_bytes := b\<rparr>) (if r = 0 then ow else ow(r \<mapsto> bytes_at b r (nat n))) \<and> same_pool m m'"
proof -
  have wf: "smem_wf m" using o by (simp add: owns_def)
  from n(1) have n0: "n \<noteq> 0" by simp
  from smem_alloc_wf [OF wf n0] show ?thesis
  proof (elim disjE exE conjE)
    assume "rt_smem_alloc m n = Some (0, m)"
    then have null: "r = 0" "m' = m" using run by auto
    then have "agrees_outside {} (heap_bytes m) b" using b by simp
    then have "same_bytes (smem_live m) (heap_bytes m) b" by (rule agrees_same_bytes) simp
    then show ?thesis using owns_same_bytes [OF o] null by simp
  next
    fix q k mm assume 1: "rt_smem_alloc m n = Some (q, mm)" "smem_wf mm" "same_pool m mm"
      "heap_bytes mm = heap_bytes m" "alloc_size n \<le> k" "0 < q" "smem_live mm = insert (q, k) (smem_live m)"
      and sep: "\<forall>(b, l) \<in> smem_live m. q + k + 32 \<le> b \<or> b + l + 32 \<le> q"
    have eq: "q = r" "mm = m'" using 1(1) run by auto
    have nk: "int (nat n) \<le> k" using alloc_size_ge [OF n] 1(5) n(1) by simp
    have "(q, l) \<notin> smem_live m" for l
      using sep smem_live_range(2) [OF wf, of q l] n(1) nk by fastforce
    then have fresh: "r \<notin> fst ` smem_live m" by (force simp: eq)
    have hp: "heap_ptr m' = heap_ptr m" using 1(3) eq by (simp add: same_pool_def)
    have "same_bytes (smem_live m) (heap_bytes m') b"
      using 1(7) by (intro agrees_same_bytes [OF b] alloc_written [OF wf 1(2) [unfolded eq] run n0 _ _ _ hp]) (auto simp: eq)
    then have sb: "same_bytes (smem_live m) (heap_bytes m) (heap_bytes (m'\<lparr>heap_bytes := b\<rparr>))" using 1(4) eq by simp
    have "owns (m'\<lparr>heap_bytes := b\<rparr>) (ow(r \<mapsto> bytes_at b r (nat n)))"
    proof (rule owns_insert [OF o _ _ _ _ fresh _ sb])
      show "bytes_at b r (nat n) \<noteq> []" using n(1) by (simp add: bytes_at_def)
      show "smem_live (m'\<lparr>heap_bytes := b\<rparr>) = insert (r, k) (smem_live m)" using 1(7) eq by simp
    qed (use 1(2) nk eq in auto)
    then show ?thesis using 1(3,6) eq by simp
  qed
qed

lemma free_owns:
  assumes o: "owns m ow" and r: "ow r = Some xs" and run: "rt_smem_free m r = Some m'"
    and b: "agrees_outside (written m m') (heap_bytes m') b"
  shows "owns (m'\<lparr>heap_bytes := b\<rparr>) (ow(r := None)) \<and> same_pool m m'"
proof -
  have wf: "smem_wf m" using o by (simp add: owns_def)
  obtain k where k: "(r, k) \<in> smem_live m" using ownsE [OF o r] by blast
  have f: "smem_wf m'" "same_pool m m'" "heap_bytes m' = heap_bytes m" "smem_live m' = smem_live m - {(r, k)}"
    using smem_free_wf [OF wf k] run by auto
  have "same_bytes (smem_live m') (heap_bytes m') b"
    by (intro agrees_same_bytes [OF b] free_written [OF wf k run]) (auto simp: f(4))
  then have "owns (m'\<lparr>heap_bytes := b\<rparr>) (ow(r := None))"
    using f by (intro owns_remove [OF o _ k]) auto
  then show ?thesis using f(2) by blast
qed

lemma realloc_owns:
  assumes o: "owns m ow" and r: "ow r = Some xs" and n: "0 < n'" "n' \<le> 4294967264"
    and run: "rt_smem_realloc m r n' = Some (r', m')"
    and b: "agrees_outside (written m m' \<union> {r' + i | i. 0 \<le> i \<and> i < n' \<and> r + i \<in> written m m'}) (heap_bytes m') b"
  shows "owns (m'\<lparr>heap_bytes := b\<rparr>) (if r' = 0 then ow
      else (ow(r := None))(r' \<mapsto> take (nat n') xs @ bytes_at b (r' + int (length xs)) (nat n' - length xs))) \<and>
    same_pool m m'"
proof -
  have wf: "smem_wf m" using o by (simp add: owns_def)
  obtain k where k: "(r, k) \<in> smem_live m" "int (length xs) \<le> k" "holds (heap_bytes m) r xs"
    using ownsE [OF o r] by blast
  from smem_realloc_wf [OF wf k(1) n] run
  have wf': "smem_wf m'" and sp: "same_pool m m'"
    and c: "r' = 0 \<and> m' = m \<or> (\<exists>k'. n' \<le> k' \<and> smem_live m' = insert (r', k') (smem_live m - {(r, k)}) \<and>
      (\<forall>l. (r', l) \<notin> smem_live m - {(r, k)}) \<and>
      (\<forall>i. 0 \<le> i \<and> i < k \<and> i < n' \<longrightarrow> heap_bytes m' (r' + i) = heap_bytes m (r + i)) \<and>
      (\<forall>(b, l) \<in> smem_live m - {(r, k)}. \<forall>i. 0 \<le> i \<and> i < l \<longrightarrow> heap_bytes m' (b + i) = heap_bytes m (b + i)))"
    by auto
  have hp: "heap_ptr m' = heap_ptr m" using sp by (simp add: same_pool_def)
  from c show ?thesis
  proof (elim disjE exE conjE)
    assume null: "r' = 0" "m' = m"
    then have "agrees_outside {} (heap_bytes m) b" using b by simp
    then have "same_bytes (smem_live m) (heap_bytes m) b" by (rule agrees_same_bytes) simp
    then show ?thesis using owns_same_bytes [OF o] null by simp
  next
    fix k' assume k': "n' \<le> k'" "smem_live m' = insert (r', k') (smem_live m - {(r, k)})"
      and fr: "\<forall>l. (r', l) \<notin> smem_live m - {(r, k)}"
      and kept: "\<forall>i. 0 \<le> i \<and> i < k \<and> i < n' \<longrightarrow> heap_bytes m' (r' + i) = heap_bytes m (r + i)"
      and others: "\<forall>(b, l) \<in> smem_live m - {(r, k)}. \<forall>i. 0 \<le> i \<and> i < l \<longrightarrow> heap_bytes m' (b + i) = heap_bytes m (b + i)"
    have r'k: "(r', k') \<in> smem_live m'" by (simp add: k')
    have nz: "r' \<noteq> 0" using smem_live_range(5) [OF wf' r'k] by simp
    note W = realloc_written [OF wf wf' k(1) n run nz hp]
    let ?zs = "take (nat n') xs @ bytes_at b (r' + int (length xs)) (nat n' - length xs)"
    have bk: "b (r' + i) = heap_bytes m (r + i)" if i: "0 \<le> i" "i < k" "i < n'" for i
    proof -
      have 1: "r' + i \<notin> written m m'" using W [of r' k' i] r'k i k'(1) by simp
      have "r + i \<notin> written m m'"
        using W [of r k i] i 1 k(1) by (cases "r' = r") auto
      then have "b (r' + i) = heap_bytes m' (r' + i)" using b 1 by (auto simp: agrees_outside_def)
      then show ?thesis using kept i by simp
    qed
    have bc: "b (c + i) = heap_bytes m (c + i)"
      if c: "(c, l) \<in> smem_live m - {(r, k)}" and i: "0 \<le> i" "i < l" for c l i
    proof -
      have cl: "(c, l) \<in> smem_live m'" using c k'(2) by simp
      have "(c, l) \<noteq> (r', k')" using fr c by blast
      then have "r' + n' \<le> c \<or> c + l \<le> r'" using smem_live_range(6) [OF wf' r'k cl] k'(1) by auto
      then have "c + i \<notin> {r' + i | i. 0 \<le> i \<and> i < n' \<and> r + i \<in> written m m'}" using i by auto
      moreover have "c + i \<notin> written m m'" using W [of c l i] cl i by simp
      ultimately have "b (c + i) = heap_bytes m' (c + i)" using b by (simp add: agrees_outside_def)
      then show ?thesis using others c i by auto
    qed
    then have bo: "same_bytes (smem_live m - {(r, k)}) (heap_bytes m) b"
      unfolding same_bytes_def by blast
    have hz: "holds b r' ?zs"
    proof (cases "nat n' \<le> length xs")
      case True
      then have "holds b r' (take (nat n') xs)"
        using k(2,3) bk n(1) by (auto simp: holds_def)
      then show ?thesis using True by (simp add: bytes_at_def)
    next
      case False
      then have "holds b r' xs" using k(2,3) bk by (auto simp: holds_def)
      then show ?thesis using False by (simp add: holds_append)
    qed
    obtain f where f: "smem_wf f" "smem_live f = smem_live m - {(r, k)}" "heap_bytes f = heap_bytes m"
      using smem_free_wf [OF wf k(1)] by blast
    have of: "owns f (ow(r := None))"
      by (rule owns_remove [OF o f(1) k(1) f(2)]) (simp add: f(3) same_bytes_def)
    have "owns (m'\<lparr>heap_bytes := b\<rparr>) ((ow(r := None))(r' \<mapsto> ?zs))"
    proof (rule owns_insert [OF of, of _ r' k'])
      show "r' \<notin> fst ` smem_live f" using fr f(2) by force
      show "?zs \<noteq> []" "int (length ?zs) \<le> k'"
        using n(1) k'(1) ownsE [OF o r] by (auto simp: bytes_at_def)
    qed (use wf' k'(2) f hz bo in auto)
    then show ?thesis using nz sp by simp
  qed
qed

lemma write_owns:
  assumes o: "owns m ow" and r: "ow r = Some xs" and i: "i < length xs"
    and hs: "\<forall>x. \<not> (heap_ptr m + x \<le> r + int i \<and> r + int i < heap_ptr m + x + sizeof_small_mem_item) \<longrightarrow> hs x = items m x"
  shows "owns (m\<lparr>items := hs, heap_bytes := (heap_bytes m)(r + int i := v)\<rparr>) (ow(r \<mapsto> xs[i := v]))"
proof -
  have wf: "smem_wf m" using o by (simp add: owns_def)
  obtain k where k: "(r, k) \<in> smem_live m" "int (length xs) \<le> k" "holds (heap_bytes m) r xs" "xs \<noteq> []"
    using ownsE [OF o r] by blast
  obtain bs where bs: "smem_inv m bs" using wf by (auto simp: smem_wf_def)
  note lb = live_blocks [OF bs k(1)]
  have "hs x = items m x" if x: "x \<in> heads 0 bs" for x
    using heads_apart [OF lb(2) x lb(1)] i k(2) hs by (auto simp: sizeof_small_mem_item_def)
  then have inv: "smem_inv (m\<lparr>items := hs\<rparr>) bs" using smem_inv_cong bs by simp
  let ?m' = "m\<lparr>items := hs, heap_bytes := (heap_bytes m)(r + int i := v)\<rparr>"
  have inv': "smem_inv ?m' bs" using inv by (metis smem_inv_bytes)
  have live: "smem_live ?m' = smem_live m" using smem_live_eq [OF inv'] smem_live_eq [OF bs] by simp
  have b: "\<exists>ys. (ow(r \<mapsto> xs[i := v])) s = Some ys \<and> ys \<noteq> [] \<and> int (length ys) \<le> l \<and> holds (heap_bytes ?m') s ys"
    if s: "(s, l) \<in> smem_live m" for s l
  proof (cases "s = r")
    case True
    have "l = k" using live_fun [OF wf] s k(1) True by blast
    then show ?thesis using True k by (auto simp: holds_def nth_list_update)
  next
    case False
    obtain ys where ys: "ow s = Some ys" "ys \<noteq> []" "int (length ys) \<le> l" "holds (heap_bytes m) s ys"
      using o s by (fastforce simp: owns_def)
    have "s + l \<le> r \<or> r + k \<le> s" using smem_live_range(6) [OF wf k(1) s] False by auto
    then have "holds (heap_bytes ?m') s ys" using ys(3,4) i k(2) by (auto simp: holds_def)
    then show ?thesis using False ys by auto
  qed
  have "dom (ow(r \<mapsto> xs[i := v])) = fst ` smem_live m"
    using o k(1) by (force simp: owns_def)
  then show ?thesis using b inv' live by (auto simp: owns_def smem_wf_def)
qed

lemma heap_step_owns:
  assumes "heap_step (m, ow) (m', ow')" "owns m ow"
  shows "owns m' ow' \<and> heap_ptr m' = heap_ptr m \<and> heap_end m' = heap_end m"
  using assms(1)
proof (cases)
  case (h_alloc n r m1 b)
  then show ?thesis using alloc_owns [OF assms(2) h_alloc(3-6)] by (simp add: same_pool_def)
next
  case (h_free r xs m1 b)
  then show ?thesis using free_owns [OF assms(2) h_free(3-5)] by (simp add: same_pool_def)
next
  case (h_realloc r xs n' r' m1 b)
  then show ?thesis using realloc_owns [OF assms(2) h_realloc(3-7)] by (simp add: same_pool_def)
next
  case (h_write r xs i hs v)
  then show ?thesis using write_owns [OF assms(2) h_write(3-5), of v] by simp
qed

lemma heap_run_owns:
  assumes "heap_step\<^sup>*\<^sup>* (m, ow) (m', ow')" "owns m ow"
  shows "owns m' ow' \<and> heap_ptr m' = heap_ptr m \<and> heap_end m' = heap_end m"
  using assms
proof (induction "(m', ow')" arbitrary: m' ow' rule: rtranclp_induct)
  case base then show ?case by simp
next
  case (step y)
  then show ?case using heap_step_owns by (cases y) fastforce
qed

lemma owns_init:
  assumes "smem_inv m [(n, False)]"
  shows "owns m Map.empty"
  using assms smem_live_eq [OF assms] by (auto simp: owns_def smem_wf_def)

lemma owns_disjoint:
  assumes "owns m ow" "ow r = Some xs" "ow r' = Some xs'" "r \<noteq> r'"
  shows "r + int (length xs) \<le> r' \<or> r' + int (length xs') \<le> r"
proof -
  have wf: "smem_wf m" using assms(1) by (simp add: owns_def)
  obtain k k' where "(r, k) \<in> smem_live m" "int (length xs) \<le> k" "(r', k') \<in> smem_live m" "int (length xs') \<le> k'"
    using ownsE [OF assms(1,2)] ownsE [OF assms(1,3)] by metis
  then show ?thesis using smem_live_range(6) [OF wf, of r k r' k'] assms(4) by auto
qed

lemma owns_total:
  assumes "owns m ow" "ow r = Some xs"
  shows "rt_smem_free m r \<noteq> None" "0 < n' \<Longrightarrow> n' \<le> 4294967264 \<Longrightarrow> rt_smem_realloc m r n' \<noteq> None"
proof -
  have wf: "smem_wf m" using assms(1) by (simp add: owns_def)
  obtain k where k: "(r, k) \<in> smem_live m" using ownsE [OF assms] by blast
  show "rt_smem_free m r \<noteq> None" using smem_free_wf [OF wf k] by auto
  show "0 < n' \<Longrightarrow> n' \<le> 4294967264 \<Longrightarrow> rt_smem_realloc m r n' \<noteq> None"
    using smem_realloc_wf [OF wf k] by fastforce
qed

section \<open>Properties\<close>

text \<open>A concrete pool: 1000 bytes at address 100.\<close>

definition ex_pool :: rt_small_mem where
  "ex_pool = the (rt_smem_init 60 (\<lambda>_. 0) 100 1000)"

lemma ex_pool_init: "rt_smem_init 60 (\<lambda>_. 0) 100 1000 = Some ex_pool"
proof -
  have "\<not> Option.is_none (rt_smem_init 60 (\<lambda>_. 0) 100 1000)" by code_simp
  then show ?thesis by (auto simp: ex_pool_def Option.is_none_def)
qed

lemma ex_pool_inv: "smem_inv ex_pool [(864, False)]"
proof -
  have "mem_size_aligned ex_pool = 832" by code_simp
  then show ?thesis using smem_init_ok [OF _ _ _ _ _ ex_pool_init] by simp
qed

text \<open>C1: Safety of the heap under any well-behaved client. Start from a pool set up by
  \<^verbatim>\<open>rt_smem_init\<close> inside the 32-bit address space and let a client allocate, release and
  resize only pointers it owns (requests of 1 up to 2^32-32 bytes), and write anywhere inside
  the sizes it asked for, in any order. In every state it reaches, what it owns are pairwise
  disjoint, 32-byte aligned ranges inside the heap area; every owned block still holds, byte by
  byte, what the client wrote there or a reallocation had to carry over, although the headers
  the allocator writes and the client's data share one memory; the block list is well formed;
  and no call it can make next fails an assertion, walks off the block list or runs forever
  (the search loops end).\<close>

theorem smem_client_safe:
  assumes "0 < begin_addr" "0 \<le> sz" "0 < sizeof_sm" "begin_addr + sz \<le> 4294967295"
    "begin_addr + sizeof_sm \<le> 4294967200"
    "rt_smem_init sizeof_sm mem0 begin_addr sz = Some m0"
    and run: "heap_step\<^sup>*\<^sup>* (m0, Map.empty) (m, ow)"
  shows "smem_wf m \<and>
    (\<forall>r xs. ow r = Some xs \<longrightarrow> xs \<noteq> [] \<and> r mod 32 = 0 \<and> begin_addr + sizeof_sm \<le> r \<and>
       r + int (length xs) \<le> begin_addr + sz \<and>
       (\<forall>i < length xs. heap_bytes m (r + int i) = xs ! i) \<and>
       (\<forall>r' xs'. ow r' = Some xs' \<and> r \<noteq> r' \<longrightarrow> r + int (length xs) \<le> r' \<or> r' + int (length xs') \<le> r) \<and>
       rt_smem_free m r \<noteq> None \<and>
       (\<forall>n'. 0 < n' \<and> n' \<le> 4294967264 \<longrightarrow> rt_smem_realloc m r n' \<noteq> None)) \<and>
    (\<forall>n. 0 \<le> n \<and> n \<le> 4294967264 \<longrightarrow> rt_smem_alloc m n \<noteq> None)"
proof -
  note i = smem_init_ok [OF assms(1-6)]
  have o: "owns m ow" and hp: "heap_ptr m = heap_ptr m0" "heap_end m = heap_end m0"
    using heap_run_owns [OF run] owns_init i by auto
  have wf: "smem_wf m" using o by (simp add: owns_def)
  have own: "xs \<noteq> [] \<and> r mod 32 = 0 \<and> begin_addr + sizeof_sm \<le> r \<and> r + int (length xs) \<le> begin_addr + sz \<and>
      (\<forall>i < length xs. heap_bytes m (r + int i) = xs ! i)"
    if own: "ow r = Some xs" for r xs
  proof -
    obtain k where k: "(r, k) \<in> smem_live m" "xs \<noteq> []" "int (length xs) \<le> k" "holds (heap_bytes m) r xs"
      using ownsE [OF o own] by blast
    have "r mod 32 = 0 \<and> begin_addr + sizeof_sm \<le> r \<and> r + int (length xs) \<le> begin_addr + sz"
      using smem_live_range(1-4) [OF wf k(1)] k(3) i hp by linarith
    then show ?thesis using k(2,4) by (simp add: holds_def)
  qed
  have al: "rt_smem_alloc m n \<noteq> None" if "0 \<le> n" for n
  proof (cases "n = 0")
    case True
    then show ?thesis using smem.alloc_zero [OF wf] by simp
  next
    case False
    then show ?thesis using smem_alloc_wf [OF wf False] by auto
  qed
  show ?thesis
    using wf own al owns_total [OF o] owns_disjoint [OF o] by (intro conjI allI impI) blast+
qed

theorem smem_client_safe_witness:
  "\<exists>m m' ow. heap_step (ex_pool, Map.empty) (m, ow) \<and> ow 224 = Some (replicate 40 0) \<and>
     heap_step (m, ow) (m', ow(224 \<mapsto> 7 # replicate 39 0)) \<and>
     smem_wf m' \<and> heap_bytes m' 224 = 7 \<and> rt_smem_free m' 224 \<noteq> None"
proof -
  have "map_option (\<lambda>(r, m). (r, bytes_at (heap_bytes m) 224 40)) (rt_smem_alloc ex_pool 40) =
      Some (224, replicate 40 0)" by code_simp
  then obtain m where m: "rt_smem_alloc ex_pool 40 = Some (224, m)" "bytes_at (heap_bytes m) 224 40 = replicate 40 0"
    by auto
  let ?ow = "[224 \<mapsto> replicate 40 0]"
  let ?m' = "m\<lparr>items := items m, heap_bytes := (heap_bytes m)(224 + int 0 := 7)\<rparr>"
  have st: "heap_step (ex_pool, Map.empty) (m, ?ow)"
    using h_alloc [of 40 ex_pool 224 m "heap_bytes m" Map.empty] m by (simp add: agrees_outside_def)
  have "heap_step (m, ?ow) (?m', ?ow(224 \<mapsto> (replicate 40 0)[0 := 7]))"
    by (rule h_write) auto
  moreover have "?ow(224 \<mapsto> (replicate 40 0)[0 := 7]) = ?ow(224 \<mapsto> 7 # replicate 39 0)"
    by (simp add: numeral_nat)
  ultimately have st': "heap_step (m, ?ow) (?m', ?ow(224 \<mapsto> 7 # replicate 39 0))" by metis
  have "heap_step\<^sup>*\<^sup>* (ex_pool, Map.empty) (?m', ?ow(224 \<mapsto> 7 # replicate 39 0))"
    using st st' by (meson converse_rtranclp_into_rtranclp r_into_rtranclp)
  from smem_client_safe [OF _ _ _ _ _ ex_pool_init this] st st' show ?thesis
    by (intro exI [of _ m] exI [of _ ?m'] exI [of _ ?ow]) simp
qed

text \<open>Allocation is first fit and complete: on a well-formed heap \<^verbatim>\<open>rt_smem_alloc\<close> returns
  the first free block that is large enough for the aligned request, split when the rest can
  hold a block of its own, and it returns \<^verbatim>\<open>RT_NULL\<close>, changing nothing, exactly when no free
  block is large enough: fragmentation is the only reason for a failure, no free block is
  overlooked behind \<^verbatim>\<open>lfree\<close>.\<close>

lemma smem_alloc_first_fit:
  assumes "smem_inv m bs" "0 < sz0" "sz0 \<le> 4294967264"
  shows "if (\<exists>n. (n, False) \<in> set bs \<and> alloc_size sz0 + 32 \<le> n)
    then \<exists>xs n ys m'. bs = xs @ (n, False) # ys \<and> alloc_size sz0 + 32 \<le> n \<and>
      (\<forall>n'. (n', False) \<in> set xs \<longrightarrow> n' < alloc_size sz0 + 32) \<and>
      rt_smem_alloc m sz0 = Some (heap_ptr m + endpos 0 xs + 32, m') \<and>
      smem_inv m' (xs @ take_block (alloc_size sz0) n @ ys) \<and> heap_bytes m' = heap_bytes m
    else rt_smem_alloc m sz0 = Some (0, m)"
proof (cases "fit_split (alloc_size sz0) bs")
  case None
  then have "\<not> (\<exists>n. (n, False) \<in> set bs \<and> alloc_size sz0 + 32 \<le> n)"
    using None by (fastforce simp: fit_split_None)
  then show ?thesis using smem_alloc_cases [of m bs sz0] assms None by (auto simp: smem_inv_def)
next
  case (Some t)
  obtain xs n ys where t: "t = (xs, n, ys)" by (cases t) auto
  note fs = fit_split_Some [OF Some [unfolded t]]
  obtain m' where m': "rt_smem_alloc m sz0 = Some (heap_ptr m + endpos 0 xs + 32, m')"
      "smem_ok m' (xs @ take_block (alloc_size sz0) n @ ys)" "heap_bytes m' = heap_bytes m"
    using smem_alloc_cases [of m bs sz0] assms Some t by (auto simp: smem_inv_def)
  have "smem_inv m' (xs @ take_block (alloc_size sz0) n @ ys)"
    using m'(2) noadj_take assms(1) fs by (auto simp: smem_inv_def)
  moreover have "\<forall>n'. (n', False) \<in> set xs \<longrightarrow> n' < alloc_size sz0 + 32" using fs by fastforce
  moreover have "bs = xs @ (n, False) # ys" "alloc_size sz0 + 32 \<le> n" using fs by auto
  ultimately show ?thesis using m' by auto
qed

lemma smem_alloc_first_fit_example:
  "(\<exists>m'. rt_smem_alloc ex_pool 40 = Some (heap_ptr ex_pool + 32, m') \<and>
      smem_inv m' [(96, True), (768, False)]) \<and> rt_smem_alloc ex_pool 900 = Some (0, ex_pool)"
proof -
  have a: "alloc_size 40 = 64" "alloc_size 900 = 928" by code_simp+
  show ?thesis
    using smem_alloc_first_fit [OF ex_pool_inv, of 40] smem_alloc_first_fit [OF ex_pool_inv, of 900]
    by (auto simp: a take_block_def Cons_eq_append_conv)
qed

lemma plugged_take:
  assumes "noadj (xs @ (n, False) # ys)" "take_block s n = (k, True) # zs"
  shows "plugged xs k (zs @ ys) = xs @ (n, False) # ys"
proof -
  have xs: "xs = [] \<or> snd (last xs)" and ys: "ys = [] \<or> snd (hd ys)"
    using assms(1) by (auto simp: noadj_append noadj_Cons simp del: noadj.simps(1))
  have "merge_next k (zs @ ys) = (n, False) # ys"
    using assms(2) ys by (cases ys) (auto simp: take_block_def split: if_splits)
  then show ?thesis
    using xs by (cases xs rule: rev_cases) (auto simp: plugged_def merge_prev_def)
qed

text \<open>C21: A release undoes an allocation. Releasing the block an allocation returned, whatever
  was written in it meanwhile, never fails and gives back exactly the same list of blocks:
  the remainder that was split off is merged again and no fragmentation is left behind.\<close>

theorem smem_alloc_free_roundtrip:
  assumes "smem_inv m bs" "0 < sz0" "sz0 \<le> 4294967264" "rt_smem_alloc m sz0 = Some (r, m1)" "r \<noteq> 0"
  shows "\<exists>m2. rt_smem_free (m1\<lparr>heap_bytes := b\<rparr>) r = Some m2 \<and> smem_inv m2 bs \<and> heap_bytes m2 = b \<and>
     mem_used m2 = mem_used m \<and> lfree m2 = lfree m"
proof (cases "fit_split (alloc_size sz0) bs")
  case None
  then show ?thesis using smem_alloc_cases [of m bs sz0] assms by (auto simp: smem_inv_def)
next
  case (Some t)
  obtain xs n ys where t: "t = (xs, n, ys)" by (cases t) auto
  have bs: "bs = xs @ (n, False) # ys" using fit_split_Some [OF Some [unfolded t]] by simp
  have m1: "r = heap_ptr m + endpos 0 xs + 32" "smem_ok m1 (xs @ take_block (alloc_size sz0) n @ ys)" "same_pool m m1"
    using smem_alloc_cases [of m bs sz0] assms Some t by (auto simp: smem_inv_def)
  obtain k zs where k: "take_block (alloc_size sz0) n = (k, True) # zs"
    by (cases "96 + alloc_size sz0 \<le> n") (simp_all add: take_block_def)
  let ?m1 = "m1\<lparr>heap_bytes := b\<rparr>"
  have ok: "smem_ok ?m1 (xs @ (k, True) # (zs @ ys))" using m1(2) k by simp
  have r: "r = heap_ptr ?m1 + endpos 0 xs + 32" using m1(1,3) by (simp add: same_pool_def)
  obtain m2 where m2: "rt_smem_free ?m1 r = Some m2" "smem_ok m2 (plugged xs k (zs @ ys))" "heap_bytes m2 = heap_bytes ?m1"
    using smem_free_ok [OF ok] r by auto
  have "plugged xs k (zs @ ys) = bs"
    using plugged_take [OF _ k] assms(1) bs by (simp add: smem_inv_def)
  then have inv: "smem_inv m2 bs" using m2(2) assms(1) by (simp add: smem_inv_def)
  have ok2: "smem_ok m2 bs" "smem_ok m bs" using inv assms(1) by (auto simp: smem_inv_def)
  show ?thesis
    using m2 inv smem_okD(7,8) [OF ok2(1)] smem_okD(7,8) [OF ok2(2)] by auto
qed

theorem smem_alloc_free_roundtrip_witness:
  "\<exists>m1 m2. rt_smem_alloc ex_pool 40 = Some (224, m1) \<and>
     rt_smem_free (m1\<lparr>heap_bytes := \<lambda>_. 7\<rparr>) 224 = Some m2 \<and> smem_inv m2 [(864, False)]"
proof -
  have "map_option fst (rt_smem_alloc ex_pool 40) = Some 224" by code_simp
  then obtain m1 where m1: "rt_smem_alloc ex_pool 40 = Some (224, m1)" by auto
  then show ?thesis
    using smem_alloc_free_roundtrip [OF ex_pool_inv _ _ m1, of "\<lambda>_. 7"] by auto
qed

text \<open>Reallocation keeps data. On a well-formed heap, \<^verbatim>\<open>rt_smem_realloc\<close> of a live block to a
  non-zero size never fails an assertion; it either returns \<^verbatim>\<open>RT_NULL\<close> and leaves the heap
  as it was (the old block still valid), or replaces the block by one that is large enough,
  holds the old contents up to the smaller of both sizes, and lies apart from every other
  live block, whose contents are untouched.\<close>

lemma smem_realloc_keeps_data:
  assumes "smem_wf m" "(r, k) \<in> smem_live m" "0 < n" "n \<le> 4294967264"
  shows "\<exists>r' m'. rt_smem_realloc m r n = Some (r', m') \<and> smem_wf m' \<and>
    (r' = 0 \<and> m' = m \<or>
     (\<exists>k'. n \<le> k' \<and> smem_live m' = insert (r', k') (smem_live m - {(r, k)}) \<and>
       (\<forall>(b, l) \<in> smem_live m - {(r, k)}. r' + k' + 32 \<le> b \<or> b + l + 32 \<le> r') \<and>
       (\<forall>i. 0 \<le> i \<and> i < k \<and> i < n \<longrightarrow> heap_bytes m' (r' + i) = heap_bytes m (r + i)) \<and>
       (\<forall>(b, l) \<in> smem_live m - {(r, k)}. \<forall>i. 0 \<le> i \<and> i < l \<longrightarrow> heap_bytes m' (b + i) = heap_bytes m (b + i))))"
proof -
  obtain r' m' where m': "rt_smem_realloc m r n = Some (r', m')" "smem_wf m'"
    and c: "r' = 0 \<and> m' = m \<or>
     (\<exists>k'. n \<le> k' \<and> smem_live m' = insert (r', k') (smem_live m - {(r, k)}) \<and>
       (\<forall>l. (r', l) \<notin> smem_live m - {(r, k)}) \<and>
       (\<forall>i. 0 \<le> i \<and> i < k \<and> i < n \<longrightarrow> heap_bytes m' (r' + i) = heap_bytes m (r + i)) \<and>
       (\<forall>(b, l) \<in> smem_live m - {(r, k)}. \<forall>i. 0 \<le> i \<and> i < l \<longrightarrow> heap_bytes m' (b + i) = heap_bytes m (b + i)))"
    using smem_realloc_wf [OF assms] by blast
  have "\<forall>(b, l) \<in> smem_live m - {(r, k)}. r' + k' + 32 \<le> b \<or> b + l + 32 \<le> r'"
    if k': "smem_live m' = insert (r', k') (smem_live m - {(r, k)})" "\<forall>l. (r', l) \<notin> smem_live m - {(r, k)}" for k'
  proof (intro ballI)
    fix x assume x: "x \<in> smem_live m - {(r, k)}"
    obtain b l where bl: "x = (b, l)" by fastforce
    have "(b, l) \<noteq> (r', k')" using k'(2) x bl by blast
    then show "case x of (b, l) \<Rightarrow> r' + k' + 32 \<le> b \<or> b + l + 32 \<le> r'"
      using smem_live_range(6) [OF m'(2), of r' k' b l] k'(1) x bl by auto
  qed
  note sep = this
  from c show ?thesis
  proof (elim disjE exE conjE)
    assume "r' = 0" "m' = m"
    then show ?thesis using m' by blast
  next
    fix k' assume k': "n \<le> k'" "smem_live m' = insert (r', k') (smem_live m - {(r, k)})"
      "\<forall>l. (r', l) \<notin> smem_live m - {(r, k)}"
      "\<forall>i. 0 \<le> i \<and> i < k \<and> i < n \<longrightarrow> heap_bytes m' (r' + i) = heap_bytes m (r + i)"
      "\<forall>(b, l) \<in> smem_live m - {(r, k)}. \<forall>i. 0 \<le> i \<and> i < l \<longrightarrow> heap_bytes m' (b + i) = heap_bytes m (b + i)"
    show ?thesis
      by (rule exI [of _ r'], rule exI [of _ m'], intro conjI disjI2 exI [of _ k'])
         (fact m' k' sep [OF k'(2,3)])+
  qed
qed

interpretation smem_resize: resizable_source smem_wf smem_live rt_smem_alloc rt_smem_free rt_smem_realloc heap_bytes
proof unfold_locales
  fix m r k n assume m: "smem_wf m" "(r, k) \<in> smem_live m" "0 < (n::int)" "n \<le> 4294967264"
  obtain r' m' where r': "rt_smem_realloc m r n = Some (r', m')" "smem_wf m'" and c: "r' = 0 \<and> m' = m \<or>
     (\<exists>k'. n \<le> k' \<and> smem_live m' = insert (r', k') (smem_live m - {(r, k)}) \<and>
       (\<forall>(b, l) \<in> smem_live m - {(r, k)}. r' + k' + 32 \<le> b \<or> b + l + 32 \<le> r') \<and>
       (\<forall>i. 0 \<le> i \<and> i < k \<and> i < n \<longrightarrow> heap_bytes m' (r' + i) = heap_bytes m (r + i)) \<and>
       (\<forall>(b, l) \<in> smem_live m - {(r, k)}. \<forall>i. 0 \<le> i \<and> i < l \<longrightarrow> heap_bytes m' (b + i) = heap_bytes m (b + i)))"
    using smem_realloc_keeps_data [OF m] by (elim exE conjE) (rule that)
  have pos: "0 < r'" if "smem_live m' = insert (r', k') (smem_live m - {(r, k)})" for k'
    using smem_live_range(5) [OF r'(2), of r' k'] that by simp
  show "\<exists>r' h'. rt_smem_realloc m r n = Some (r', h') \<and> smem_wf h' \<and> (r' = 0 \<and> h' = m \<or>
     (\<exists>k'. 0 < r' \<and> n \<le> k' \<and> smem_live h' = insert (r', k') (smem_live m - {(r, k)}) \<and>
       (\<forall>(b, l) \<in> smem_live m - {(r, k)}. r' + k' \<le> b \<or> b + l \<le> r') \<and>
       (\<forall>i. 0 \<le> i \<and> i < k \<and> i < n \<longrightarrow> heap_bytes h' (r' + i) = heap_bytes m (r + i)) \<and>
       (\<forall>(b, l) \<in> smem_live m - {(r, k)}. \<forall>i. 0 \<le> i \<and> i < l \<longrightarrow> heap_bytes h' (b + i) = heap_bytes m (b + i))))"
    using c r'
  proof (elim disjE exE conjE)
    fix k' assume k': "n \<le> k'" "smem_live m' = insert (r', k') (smem_live m - {(r, k)})"
      "\<forall>(b, l) \<in> smem_live m - {(r, k)}. r' + k' + 32 \<le> b \<or> b + l + 32 \<le> r'"
      "\<forall>i. 0 \<le> i \<and> i < k \<and> i < n \<longrightarrow> heap_bytes m' (r' + i) = heap_bytes m (r + i)"
      "\<forall>(b, l) \<in> smem_live m - {(r, k)}. \<forall>i. 0 \<le> i \<and> i < l \<longrightarrow> heap_bytes m' (b + i) = heap_bytes m (b + i)"
    show ?thesis
      by (rule exI [of _ r'], rule exI [of _ m'], intro conjI disjI2 exI [of _ k'])
         (fact r' k' pos [OF k'(2)] apart_weaken [OF k'(3)])+
  qed simp
qed

lemma smem_realloc_keeps_data_example:
  "\<exists>m1 k r' m'. rt_smem_alloc ex_pool 40 = Some (224, m1) \<and> (224, k) \<in> smem_live m1 \<and>
     rt_smem_realloc m1 224 200 = Some (r', m') \<and> smem_wf m'"
proof -
  have wf: "smem_wf ex_pool" using ex_pool_inv by (auto simp: smem_wf_def)
  have "map_option fst (rt_smem_alloc ex_pool 40) = Some 224" by code_simp
  then obtain m1 where m1: "rt_smem_alloc ex_pool 40 = Some (224, m1)" by auto
  then obtain k where k: "(224, k) \<in> smem_live m1" "smem_wf m1"
    using smem_alloc_wf [OF wf, of 40] by auto
  then show ?thesis using smem_realloc_keeps_data [OF k(2,1), of 200] m1 by auto
qed

text \<open>A request within 31 bytes of 2^32 wraps to zero in the alignment and is served with the
  smallest block: when any free block is left, \<^verbatim>\<open>rt_smem_alloc\<close> answers the request with a
  block of less than 96 bytes instead of \<^verbatim>\<open>RT_NULL\<close>.\<close>

lemma smem_alloc_wraps:
  assumes "smem_inv m bs" "4294967265 \<le> sz0" "sz0 \<le> 4294967295" "(n, False) \<in> set bs" "64 \<le> n"
  shows "\<exists>r k m'. rt_smem_alloc m sz0 = Some (r, m') \<and> r \<noteq> 0 \<and> k < 96 \<and>
     smem_live m' = insert (r, k) (smem_live m)"
proof -
  have "RT_ALIGN sz0 RT_ALIGN_SIZE = 32 * (u32 (sz0 + 31) div 32)" using RT_ALIGN_32 [of sz0] by simp
  moreover have "u32 (sz0 + 31) = u32 (sz0 + 31 - 4294967296)"
    using minus_mod_self2 [of "sz0 + 31" 4294967296] by (simp add: u32_def)
  then have "u32 (sz0 + 31) = sz0 + 31 - 4294967296" using assms(2,3) by (simp add: c_store)
  ultimately have as: "alloc_size sz0 = 32" using assms(2,3) by (simp add: alloc_size_def)
  obtain t where t: "fit_split 32 bs = Some t"
    using assms(4,5) fit_split_None [of 32 bs] by (cases "fit_split 32 bs") auto
  obtain xs k ys where xs: "t = (xs, k, ys)" by (cases t) auto
  have bs: "bs = xs @ (k, False) # ys" using fit_split_Some [OF t [unfolded xs]] by simp
  have ok: "smem_ok m bs" and na: "noadj bs" using assms(1) by (auto simp: smem_inv_def)
  obtain m' where m': "rt_smem_alloc m sz0 = Some (heap_ptr m + endpos 0 xs + 32, m')"
      "smem_ok m' (xs @ take_block 32 k @ ys)" "same_pool m m'"
    using smem_alloc_cases [OF ok, of sz0] assms(2) t xs as by auto
  have inv: "smem_inv m' (xs @ take_block 32 k @ ys)" using m'(2) noadj_take na bs by (simp add: smem_inv_def)
  have so: "sizes_ok (xs @ (k, False) # ys)" using smem_okD(5) [OF ok] bs by simp
  have l: "smem_live m' = insert (heap_ptr m + endpos 0 xs + 32, if k - 32 \<ge> 32 + 64 then 32 else k - 32) (smem_live m)"
    using smem_live_eq [OF inv] smem_live_eq [OF assms(1)] used_blocks_insert(1) [OF so, of 0 32] m'(3) bs
    by (simp add: same_pool_def add.assoc)
  have "0 < heap_ptr m + endpos 0 xs + 32"
    using smem_okD(11) [OF ok] smem_header(4) [OF ok [unfolded bs]] by simp
  then show ?thesis
    using m'(1) l
    by (intro exI [of _ "heap_ptr m + endpos 0 xs + 32"] exI [of _ "if k - 32 \<ge> 32 + 64 then 32 else k - 32"] exI [of _ m']) auto
qed

lemma smem_alloc_wraps_example:
  "\<exists>r k m'. rt_smem_alloc ex_pool 0xFFFFFFF0 = Some (r, m') \<and> r \<noteq> 0 \<and> k < 96 \<and>
     smem_live m' = insert (r, k) (smem_live ex_pool)"
  using smem_alloc_wraps [OF ex_pool_inv, of "0xFFFFFFF0" "864"] by simp

end
