(* ===== verification/Kheap.thy ===== *)
theory Kheap
  imports Ringbuffer Smallmem_Client
begin

text \<open>
  The system heap of \<^verbatim>\<open>rt-thread/src/kservice.c\<close> on top of the small-memory allocator
  (\<^verbatim>\<open>RT_USING_SMALL_MEM_AS_HEAP\<close>), and the heap-allocated form of the ring buffer
  (\<^verbatim>\<open>rt_ringbuffer_create\<close> and \<^verbatim>\<open>rt_ringbuffer_destroy\<close>), proved against the allocator contract.
  The heap lock makes each call atomic: a call is one step on the heap.
\<close>

section \<open>System heap\<close>

definition rt_system_heap_init :: "int \<Rightarrow> (int \<Rightarrow> byte) \<Rightarrow> int \<Rightarrow> int \<Rightarrow> rt_small_mem option option" where
  "rt_system_heap_init sizeof_small_mem mem0 begin_addr end_addr = do {
     let begin_align = RT_ALIGN begin_addr RT_ALIGN_SIZE;
     let end_align = RT_ALIGN_DOWN end_addr RT_ALIGN_SIZE;
     RT_ASSERT (end_align > begin_align);
     Some (rt_smem_init sizeof_small_mem mem0 begin_addr (end_align - begin_align))
   }"

definition rt_malloc :: "rt_small_mem \<Rightarrow> int \<Rightarrow> (int \<times> rt_small_mem) option" where
  "rt_malloc m sz = rt_smem_alloc m sz"

definition rt_realloc :: "rt_small_mem \<Rightarrow> int \<Rightarrow> int \<Rightarrow> (int \<times> rt_small_mem) option" where
  "rt_realloc m rmem newsize = rt_smem_realloc m rmem newsize"

definition heap_fill :: "(int \<Rightarrow> byte) \<Rightarrow> int \<Rightarrow> byte \<Rightarrow> int \<Rightarrow> (int \<Rightarrow> byte)" where
  "heap_fill b s c count = (\<lambda>a. if s \<le> a \<and> a < s + count then c else b a)"

definition rt_calloc :: "rt_small_mem \<Rightarrow> int \<Rightarrow> int \<Rightarrow> (int \<times> rt_small_mem) option" where
  "rt_calloc m count sz = do {
     (p, m1) \<leftarrow> rt_malloc m (u32 (count * sz));
     (if p \<noteq> 0 then Some (p, m1\<lparr>heap_bytes := heap_fill (heap_bytes m1) p 0 (u32 (count * sz))\<rparr>)
      else Some (p, m1))
   }"

definition rt_free :: "rt_small_mem \<Rightarrow> int \<Rightarrow> rt_small_mem option" where
  "rt_free m rmem = (if rmem = 0 then Some m else rt_smem_free m rmem)"

text \<open>A pointer in memory: four bytes, little endian.\<close>

definition store_ptr :: "(int \<Rightarrow> byte) \<Rightarrow> int \<Rightarrow> int \<Rightarrow> (int \<Rightarrow> byte)" where
  "store_ptr b a v = b(a := word_of_int v, a + 1 := word_of_int (v div 2 ^ 8),
     a + 2 := word_of_int (v div 2 ^ 16), a + 3 := word_of_int (v div 2 ^ 24))"

definition load_ptr :: "(int \<Rightarrow> byte) \<Rightarrow> int \<Rightarrow> int" where
  "load_ptr b a = uint (b a) + 2 ^ 8 * uint (b (a + 1)) + 2 ^ 16 * uint (b (a + 2)) + 2 ^ 24 * uint (b (a + 3))"

definition rt_malloc_align :: "rt_small_mem \<Rightarrow> int \<Rightarrow> int \<Rightarrow> (int \<times> rt_small_mem) option" where
  "rt_malloc_align m sz align0 = do {
     let uintptr_size = 4 - 1;
     let align = u32 (align0 + uintptr_size) AND NOT uintptr_size;
     let align_size = u32 ((u32 (sz + uintptr_size) AND NOT uintptr_size) + align);
     (ptr, m1) \<leftarrow> rt_malloc m align_size;
     (if ptr \<noteq> 0 then do {
        let align_ptr = (if ptr AND (align - 1) = 0 then u32 (ptr + align)
                         else u32 (ptr + (align - 1)) AND NOT (align - 1));
        Some (align_ptr, m1\<lparr>heap_bytes := store_ptr (heap_bytes m1) (align_ptr - 4) ptr\<rparr>)
      }
      else Some (ptr, m1))
   }"

definition rt_free_align :: "rt_small_mem \<Rightarrow> int \<Rightarrow> rt_small_mem option" where
  "rt_free_align m ptr =
     (if ptr = 0 then Some m
      else rt_free m (load_ptr (heap_bytes m) (ptr - 4)))"

section \<open>Ring buffers on the heap\<close>

text \<open>
  A heap-allocated ring buffer: the address of its control block, the address of its
  pool, and its contents. \<^verbatim>\<open>sizeof(struct rt_ringbuffer)\<close> is 12 on the 32-bit target. The
  size is an \<^verbatim>\<open>rt_uint16_t\<close> here and becomes an \<^verbatim>\<open>rt_int16_t\<close> argument of \<^verbatim>\<open>rt_ringbuffer_init\<close>.
\<close>

type_synonym rb_object = "int \<times> int \<times> rt_ringbuffer"

definition sizeof_ringbuffer :: int where "sizeof_ringbuffer = 12"

definition heap_range :: "rt_small_mem \<Rightarrow> int \<Rightarrow> int \<Rightarrow> byte list" where
  "heap_range m a n = map (\<lambda>i. heap_bytes m (a + int i)) [0..<nat n]"

definition rt_ringbuffer_create :: "rt_small_mem \<Rightarrow> int \<Rightarrow> (rb_object option \<times> rt_small_mem) option" where
  "rt_ringbuffer_create m size0 = do {
     RT_ASSERT (size0 > 0);
     let sz = u16 (RT_ALIGN_DOWN size0 RT_ALIGN_SIZE);
     (rb, m1) \<leftarrow> rt_malloc m sizeof_ringbuffer;
     (if rb = 0 then Some (None, m1)
      else do {
        (pool, m2) \<leftarrow> rt_malloc m1 sz;
        (if pool = 0 then do {
           m3 \<leftarrow> rt_free m2 rb;
           Some (None, m3)
         }
         else do {
           obj \<leftarrow> rt_ringbuffer_init (heap_range m2 pool sz) (s16 sz);
           Some (Some (rb, pool, obj), m2)
         })
      })
   }"

definition rt_ringbuffer_destroy :: "rt_small_mem \<Rightarrow> rb_object \<Rightarrow> rt_small_mem option" where
  "rt_ringbuffer_destroy m obj = (case obj of (rb, pool, _) \<Rightarrow> do {
     RT_ASSERT (rb \<noteq> 0);
     m1 \<leftarrow> rt_free m pool;
     rt_free m1 rb
   })"

section \<open>Lemmas\<close>

lemma and_mask_eq: "x AND (2 ^ j - 1) = x mod 2 ^ j" for x :: int
  by (simp add: take_bit_eq_mask [symmetric] take_bit_eq_mod mask_eq_exp_minus_1 [symmetric])

lemma and_not_mask_eq: "x AND NOT (2 ^ j - 1) = 2 ^ j * (x div 2 ^ j)" for x :: int
proof -
  have "x AND NOT (mask j) = push_bit j (drop_bit j x)"
    by (rule bit_eqI) (auto simp: bit_simps)
  then show ?thesis by (simp add: push_bit_eq_mult drop_bit_eq_div mask_eq_exp_minus_1)
qed

lemma and_not_3: "x AND NOT 3 = 4 * (x div 4)" for x :: int
  using and_not_mask_eq [of x 2] by simp

lemma bytes_of_word32:
  fixes v :: int
  assumes "0 \<le> v" "v < 4294967296"
  shows "v mod 2 ^ 8 + 2 ^ 8 * ((v div 2 ^ 8) mod 2 ^ 8) + 2 ^ 16 * ((v div 2 ^ 16) mod 2 ^ 8) +
      2 ^ 24 * ((v div 2 ^ 24) mod 2 ^ 8) = v"
proof -
  have d: "v div 2 ^ 16 = v div 2 ^ 8 div 2 ^ 8" "v div 2 ^ 24 = v div 2 ^ 8 div 2 ^ 8 div 2 ^ 8"
    using zdiv_zmult2_eq [of "2 ^ 8" v "2 ^ 8"] zdiv_zmult2_eq [of "2 ^ 8" "v div 2 ^ 8" "2 ^ 8"]
      zdiv_zmult2_eq [of "2 ^ 16" v "2 ^ 8"] by simp_all
  define x where "x = v div 2 ^ 8"
  define y where "y = x div 2 ^ 8"
  define z where "z = y div 2 ^ 8"
  have e: "v = 256 * x + v mod 2 ^ 8" "x = 256 * y + x mod 2 ^ 8" "y = 256 * z + y mod 2 ^ 8"
    by (simp_all add: x_def y_def z_def)
  have r: "0 \<le> v mod 2 ^ 8" "0 \<le> x mod 2 ^ 8" "0 \<le> y mod 2 ^ 8" by simp_all
  have "0 \<le> z" using assms(1) by (simp add: x_def y_def z_def)
  moreover have "z < 256" using e r assms(2) by linarith
  ultimately have "z mod 2 ^ 8 = z" by simp
  moreover have "(2::int) ^ 16 = 256 * 256" "(2::int) ^ 24 = 256 * 256 * 256" "(2::int) ^ 8 = 256" by simp_all
  ultimately show ?thesis
    unfolding d x_def [symmetric] y_def [symmetric] z_def [symmetric] using e by (simp only:)
qed

lemma load_store_ptr:
  assumes "0 \<le> v" "v < 4294967296"
  shows "load_ptr (store_ptr b a v) a = v"
proof -
  have u: "uint (word_of_int x :: byte) = x mod 2 ^ 8" for x by (simp add: uint_word_of_int)
  have s: "store_ptr b a v a = word_of_int v" "store_ptr b a v (a + 1) = word_of_int (v div 2 ^ 8)"
    "store_ptr b a v (a + 2) = word_of_int (v div 2 ^ 16)" "store_ptr b a v (a + 3) = word_of_int (v div 2 ^ 24)"
    by (simp_all add: store_ptr_def)
  show ?thesis unfolding load_ptr_def s u using bytes_of_word32 [OF assms] .
qed

lemma load_ptr_cong:
  "(\<And>i. 0 \<le> i \<Longrightarrow> i < 4 \<Longrightarrow> b (a + i) = b' (a + i)) \<Longrightarrow> load_ptr b a = load_ptr b' a"
proof -
  assume *: "\<And>i. 0 \<le> i \<Longrightarrow> i < 4 \<Longrightarrow> b (a + i) = b' (a + i)"
  show ?thesis using * [of 0] * [of 1] * [of 2] * [of 3] by (simp add: load_ptr_def)
qed

lemma malloc_cases:
  assumes "smem_wf m" "0 < n" "n \<le> 4294967264"
  obtains "rt_malloc m n = Some (0, m)"
  | r k m' where "rt_malloc m n = Some (r, m')" "smem_wf m'" "same_pool m m'" "heap_bytes m' = heap_bytes m"
      "n \<le> k" "0 < r" "r mod 32 = 0" "smem_live m' = insert (r, k) (smem_live m)" "(r, k) \<notin> smem_live m"
      "r + k \<le> 4294967264"
proof -
  have "n \<noteq> 0" using assms(2) by simp
  from smem_alloc_wf [OF assms(1) this] show thesis
  proof (elim disjE exE conjE)
    assume "rt_smem_alloc m n = Some (0, m)"
    then show thesis using that(1) by (simp add: rt_malloc_def)
  next
    fix r k m' assume 1: "rt_smem_alloc m n = Some (r, m')" "smem_wf m'" "same_pool m m'" "heap_bytes m' = heap_bytes m"
      "alloc_size n \<le> k" "0 < r" "r mod 32 = 0" "smem_live m' = insert (r, k) (smem_live m)"
      and sep: "\<forall>(b, l) \<in> smem_live m. r + k + 32 \<le> b \<or> b + l + 32 \<le> r"
    have n: "n \<le> k" using alloc_size_ge [OF assms(2,3)] 1(5) by simp
    have f: "(r, k) \<notin> smem_live m" using sep n assms(2) by force
    have "(r, k) \<in> smem_live m'" by (simp add: 1)
    note b = smem_live_range(3) [OF 1(2) this]
    obtain bs where "smem_inv m' bs" using 1(2) by (auto simp: smem_wf_def)
    then have "heap_ptr m' + heap_end m' + 32 \<le> 4294967296" by (auto simp: smem_inv_def smem_ok_def)
    then have "r + k \<le> 4294967264" using b by simp
    then show thesis using that(2) 1 n f by (simp add: rt_malloc_def)
  qed
qed

text \<open>The address \<^verbatim>\<open>rt_malloc_align\<close> computes: aligned, behind the saved pointer, and with room for the request.\<close>

lemma align_ptr_bounds:
  fixes ptr :: int
  assumes al: "align = 2 ^ j" "4 \<le> align" and p: "ptr mod 32 = 0" "0 < ptr" "ptr + align < 4294967296"
    and q: "q = (if ptr AND (align - 1) = 0 then u32 (ptr + align) else u32 (ptr + (align - 1)) AND NOT (align - 1))"
  shows "q mod align = 0" "ptr + 4 \<le> q" "q \<le> ptr + align"
proof -
  have a: "ptr AND (align - 1) = ptr mod align" by (simp add: al(1) and_mask_eq)
  have b: "x AND NOT (align - 1) = align * (x div align)" for x by (simp add: al(1) and_not_mask_eq)
  have u: "u32 (ptr + align) = ptr + align" "u32 (ptr + (align - 1)) = ptr + (align - 1)"
    using p al(2) by (auto simp: c_store)
  consider "ptr mod align = 0" | "ptr mod align \<noteq> 0" by blast
  then have "q mod align = 0 \<and> ptr + 4 \<le> q \<and> q \<le> ptr + align"
  proof cases
    case 1
    then have q: "q = ptr + align" using q a u by simp
    then show ?thesis using 1 al(2) by simp
  next
    case 2
    define d where "d = ptr mod align"
    define e where "e = ptr div align"
    have pe: "ptr = align * e + d" by (simp add: d_def e_def)
    have d: "0 < d" "d < align"
      using 2 al(2) pos_mod_bound [of align ptr] pos_mod_sign [of align ptr] unfolding d_def by linarith+
    have "(ptr + (align - 1)) div align = e + 1"
      by (rule int_div_pos_eq [where r = "d - 1"]) (use pe d in \<open>auto simp: algebra_simps\<close>)
    then have q': "q = align * (e + 1)" using q a b u 2 by simp
    have j: "5 < j"
    proof (rule ccontr)
      assume "\<not> 5 < j"
      then have "align dvd 32" unfolding al(1) using le_imp_power_dvd [of j 5 "2::int"] by simp
      then have "ptr mod align = 0" using p(1) by (metis dvd_eq_mod_eq_0 dvd_trans)
      then show False using 2 by simp
    qed
    have "32 dvd align" unfolding al(1) using le_imp_power_dvd [of 5 j "2::int"] j by simp
    moreover have "32 dvd ptr" using p(1) by presburger
    ultimately have "32 dvd d" unfolding d_def by (rule dvd_mod [rotated])
    moreover have "32 dvd align - d" using \<open>32 dvd align\<close> \<open>32 dvd d\<close> by simp
    ultimately have "32 \<le> align - d" using d by (intro zdvd_imp_le) auto
    then show ?thesis using q' pe d by (simp add: algebra_simps)
  qed
  then show "q mod align = 0" "ptr + 4 \<le> q" "q \<le> ptr + align" by auto
qed

section \<open>Properties\<close>

text \<open>The size that \<^verbatim>\<open>rt_malloc_align\<close> asks for, and the pointer it saves.\<close>

lemma malloc_align_unfold:
  assumes al: "align = 2 ^ j" "4 \<le> align" and sz: "0 < sz" "sz + align \<le> 4294967200"
  shows "rt_malloc_align m sz align = do {
     (ptr, m1) \<leftarrow> rt_malloc m (4 * ((sz + 3) div 4) + align);
     (if ptr \<noteq> 0 then do {
        let align_ptr = (if ptr AND (align - 1) = 0 then u32 (ptr + align)
                         else u32 (ptr + (align - 1)) AND NOT (align - 1));
        Some (align_ptr, m1\<lparr>heap_bytes := store_ptr (heap_bytes m1) (align_ptr - 4) ptr\<rparr>)
      }
      else Some (ptr, m1)) }"
proof -
  have j: "4 dvd align"
  proof -
    have "2 \<le> j" using al by (cases "j \<le> 1") (auto simp: le_Suc_eq)
    then show ?thesis unfolding al(1) using le_imp_power_dvd [of 2 j "2::int"] by simp
  qed
  have "u32 (align + 3) = align + 3" using sz al(2) by (intro u32_id) auto
  moreover have "4 * ((align + 3) div 4) = align" using j by presburger
  ultimately have a1: "u32 (align + 3) AND NOT 3 = align" using and_not_3 [of "align + 3"] by simp
  have u: "u32 (sz + 3) = sz + 3" using sz al(2) by (intro u32_id) auto
  have "u32 (4 * ((sz + 3) div 4) + align) = 4 * ((sz + 3) div 4) + align" using sz al(2) by (intro u32_id) auto
  then have a2: "u32 ((u32 (sz + 3) AND NOT 3) + align) = 4 * ((sz + 3) div 4) + align" unfolding u and_not_3 by simp
  have c: "(4::int) - 1 = 3" by simp
  show ?thesis unfolding rt_malloc_align_def Let_def c a1 a2 by (rule refl)
qed

lemma free_align_ok:
  assumes m1: "smem_wf m1" "smem_live m1 = insert (r, k) L" "(r, k) \<notin> L" and r: "0 < r" "r < 2 ^ 32" "r + 4 \<le> q"
    and b: "\<forall>a. a < q \<longrightarrow> b a = store_ptr (heap_bytes m1) (q - 4) r a"
  shows "\<exists>m2. rt_free_align (m1\<lparr>heap_bytes := b\<rparr>) q = Some m2 \<and> smem_wf m2 \<and> smem_live m2 = L"
proof -
  have "load_ptr b (q - 4) = load_ptr (store_ptr (heap_bytes m1) (q - 4) r) (q - 4)"
    by (rule load_ptr_cong) (use b in auto)
  then have l: "load_ptr b (q - 4) = r" using load_store_ptr [of r] r by simp
  let ?mb = "m1\<lparr>heap_bytes := b\<rparr>"
  have wb: "smem_wf ?mb" "(r, k) \<in> smem_live ?mb" "smem_live ?mb = insert (r, k) L" using m1 by simp_all
  obtain m2 where "rt_smem_free ?mb r = Some m2" "smem_wf m2" "smem_live m2 = smem_live ?mb - {(r, k)}"
    using smem_free_wf [OF wb(1,2)] by blast
  then show ?thesis using l r wb(3) m1(3) by (simp add: rt_free_align_def rt_free_def)
qed

text \<open>Aligned allocation. For every power-of-two alignment of at least 4, \<^verbatim>\<open>rt_malloc_align\<close>
  either returns \<^verbatim>\<open>RT_NULL\<close> and changes nothing, or a pointer that is a multiple of the
  alignment, with the requested bytes inside one fresh block, and
  \<^verbatim>\<open>rt_free_align\<close> finds that block again from the word saved in front of the pointer,
  whatever the client wrote from the pointer on: afterwards exactly the blocks of before are
  live.\<close>

lemma malloc_align_roundtrip:
  assumes wf: "smem_wf m" and al: "align = 2 ^ j" "4 \<le> align"
    and sz: "0 < sz" "sz + align \<le> 4294967200"
  shows "rt_malloc_align m sz align = Some (0, m) \<or>
    (\<exists>p r k m'. rt_malloc_align m sz align = Some (p, m') \<and> smem_wf m' \<and> p mod align = 0 \<and>
      r + 4 \<le> p \<and> p + sz \<le> r + k \<and> (r, k) \<notin> smem_live m \<and> smem_live m' = insert (r, k) (smem_live m) \<and>
      (\<forall>b. (\<forall>a. a < p \<longrightarrow> b a = heap_bytes m' a) \<longrightarrow>
        (\<exists>m2. rt_free_align (m'\<lparr>heap_bytes := b\<rparr>) p = Some m2 \<and> smem_wf m2 \<and> smem_live m2 = smem_live m)))"
proof -
  define n where "n = 4 * ((sz + 3) div 4) + align"
  have n: "0 < n" "n \<le> 4294967264" "sz + align \<le> n" using sz al by (auto simp: n_def)
  note run = malloc_align_unfold [OF al sz, of m, folded n_def]
  from wf n(1,2) show ?thesis
  proof (cases rule: malloc_cases)
    case 1
    then show ?thesis using run by simp
  next
    case (2 r k m1)
    define q where "q = (if r AND (align - 1) = 0 then u32 (r + align) else u32 (r + (align - 1)) AND NOT (align - 1))"
    have q: "q mod align = 0" "r + 4 \<le> q" "q \<le> r + align"
      using align_ptr_bounds [OF al 2(7,6) _ q_def] 2(5,10) n(3) sz by auto
    define m' where "m' = m1\<lparr>heap_bytes := store_ptr (heap_bytes m1) (q - 4) r\<rparr>"
    have run': "rt_malloc_align m sz align = Some (q, m')"
      using run 2(1,6) by (simp add: q_def m'_def Let_def)
    have r32: "0 < r" "r < 2 ^ 32" using 2(5,6,10) n(1) by auto
    have fr: "\<exists>m2. rt_free_align (m'\<lparr>heap_bytes := b\<rparr>) q = Some m2 \<and> smem_wf m2 \<and> smem_live m2 = smem_live m"
      if b: "\<forall>a. a < q \<longrightarrow> b a = heap_bytes m' a" for b
      using free_align_ok [OF 2(2,8,9) r32 q(2), of b] b by (simp add: m'_def)
    have "smem_wf m'" "smem_live m' = insert (r, k) (smem_live m)" "q + sz \<le> r + k"
      using 2(2,5,8) q(3) n(3) by (simp_all add: m'_def)
    then show ?thesis
      using run' q(1,2) 2(9) fr
      by - (rule disjI2, rule exI [of _ q], rule exI [of _ r], rule exI [of _ k], rule exI [of _ m'], simp)
  qed
qed

lemma ex_pool_wf: "smem_wf ex_pool"
  using ex_pool_inv by (auto simp: smem_wf_def)

lemma malloc_align_roundtrip_example:
  "\<exists>p m' m2. rt_malloc_align ex_pool 100 64 = Some (p, m') \<and> p = 256 \<and>
     rt_free_align (m'\<lparr>heap_bytes := (heap_bytes m')(256 := 1)\<rparr>) p = Some m2 \<and> smem_live m2 = smem_live ex_pool"
proof -
  have f: "map_option fst (rt_malloc_align ex_pool 100 64) = Some 256" by code_simp
  then obtain m' where m': "rt_malloc_align ex_pool 100 64 = Some (256, m')" by auto
  from malloc_align_roundtrip [OF ex_pool_wf, of 64 6 100] m'
  have "\<forall>b. (\<forall>a. a < 256 \<longrightarrow> b a = heap_bytes m' a) \<longrightarrow>
        (\<exists>m2. rt_free_align (m'\<lparr>heap_bytes := b\<rparr>) 256 = Some m2 \<and> smem_wf m2 \<and> smem_live m2 = smem_live ex_pool)"
    by auto
  from this [rule_format, of "(heap_bytes m')(256 := 1)"] show ?thesis using m' by auto
qed

text \<open>\<^verbatim>\<open>rt_calloc\<close> returns zeroed memory of \<open>count * size\<close> bytes inside one fresh block, and
  leaves every byte outside that block alone, as long as the product stays below 2^32 - 31.\<close>

lemma calloc_zeroed:
  assumes wf: "smem_wf m" and n: "0 < count * sz" "count * sz \<le> 4294967264"
  shows "rt_calloc m count sz = Some (0, m) \<or>
    (\<exists>p k m'. rt_calloc m count sz = Some (p, m') \<and> smem_wf m' \<and> count * sz \<le> k \<and> (p, k) \<notin> smem_live m \<and>
       smem_live m' = insert (p, k) (smem_live m) \<and>
       (\<forall>i. 0 \<le> i \<and> i < count * sz \<longrightarrow> heap_bytes m' (p + i) = 0) \<and>
       (\<forall>a. a < p \<or> p + k \<le> a \<longrightarrow> heap_bytes m' a = heap_bytes m a))"
proof -
  have u: "u32 (count * sz) = count * sz" using n by (simp add: c_store)
  from wf n show ?thesis
  proof (cases rule: malloc_cases)
    case 1
    then show ?thesis by (simp add: rt_calloc_def u)
  next
    case (2 r k m1)
    let ?m' = "m1\<lparr>heap_bytes := heap_fill (heap_bytes m1) r 0 (count * sz)\<rparr>"
    have run: "rt_calloc m count sz = Some (r, ?m')" using 2(1,6) by (simp add: rt_calloc_def u)
    show ?thesis
      using run 2
      by (intro disjI2 exI [of _ r] exI [of _ k] exI [of _ ?m'] conjI allI impI) (auto simp: heap_fill_def)
  qed
qed

lemma calloc_zeroed_example:
  "\<exists>p m'. rt_calloc ex_pool 5 8 = Some (p, m') \<and> p = 224 \<and> heap_bytes m' (p + 39) = 0"
proof -
  have "map_option fst (rt_calloc ex_pool 5 8) = Some 224" by code_simp
  then obtain m' where m': "rt_calloc ex_pool 5 8 = Some (224, m')" by auto
  have "\<forall>i. 0 \<le> i \<and> i < 40 \<longrightarrow> heap_bytes m' (224 + i) = 0"
    using calloc_zeroed [OF ex_pool_wf, of 5 8] m' by auto
  from this [rule_format, of 39] show ?thesis using m' by auto
qed

text \<open>\<^verbatim>\<open>rt_calloc\<close> does not notice that \<open>count * size\<close> overflows: whenever the product is 2^32 plus
  a small amount, the caller that asked for more than 4 GB gets a block of that small amount.\<close>

lemma calloc_overflow:
  assumes "0 \<le> count" "0 \<le> sz" "count * sz = 4294967296 + d" "0 < d" "d \<le> 4294967264"
  shows "rt_calloc m count sz = rt_calloc m d 1"
proof -
  have "u32 (count * sz) = d"
    using assms(3-5) by (simp add: u32_def)
  moreover have "u32 (d * 1) = d" using assms(4,5) by (simp add: c_store)
  ultimately show ?thesis unfolding rt_calloc_def by (simp only:)
qed

lemma calloc_overflow_example:
  "rt_calloc ex_pool 0x10000 0x10001 = rt_calloc ex_pool 0x10000 1 \<and>
   rt_calloc ex_pool 0x20000001 8 = rt_calloc ex_pool 8 1"
  using calloc_overflow [of "0x10000" "0x10001" "0x10000"] calloc_overflow [of "0x20000001" "8" "8"] by simp

text \<open>Ring buffers on the heap. For sizes from 32 to 32767 bytes, \<^verbatim>\<open>rt_ringbuffer_create\<close> never
  fails an assertion: it either returns \<^verbatim>\<open>RT_NULL\<close> and leaves no block behind (the control block
  is released when the pool cannot be allocated), or an empty ring buffer that satisfies the
  ring invariant, whose capacity is the size rounded down to 32, in two fresh blocks that do not overlap;
  \<^verbatim>\<open>rt_ringbuffer_destroy\<close> then gives both blocks back, whatever happened to the contents.\<close>

lemma ringbuffer_create_destroy:
  assumes wf: "smem_wf m" and sz: "32 \<le> size0" "size0 < 32768"
  shows "(\<exists>m'. rt_ringbuffer_create m size0 = Some (None, m') \<and> smem_wf m' \<and> smem_live m' = smem_live m) \<or>
    (\<exists>rb pool obj m' k1 k2. rt_ringbuffer_create m size0 = Some (Some (rb, pool, obj), m') \<and> smem_wf m' \<and>
       rb_at obj 0 0 \<and> rb_list obj = [] \<and> int (rb_cap obj) = 32 * (size0 div 32) \<and>
       12 \<le> k1 \<and> int (rb_cap obj) \<le> k2 \<and> (rb + k1 \<le> pool \<or> pool + k2 \<le> rb) \<and>
       smem_live m' = {(rb, k1), (pool, k2)} \<union> smem_live m \<and>
       (\<forall>b obj'. \<exists>m2. rt_ringbuffer_destroy (m'\<lparr>heap_bytes := b\<rparr>) (rb, pool, obj') = Some m2 \<and>
          smem_wf m2 \<and> smem_live m2 = smem_live m))"
proof -
  define n where "n = 32 * (size0 div 32)"
  have n: "32 \<le> n" "n \<le> size0" "n mod 32 = 0" "n div 32 = size0 div 32" using sz by (auto simp: n_def)
  have u: "u16 (RT_ALIGN_DOWN size0 RT_ALIGN_SIZE) = n" and s: "s16 n = n"
    using n sz by (simp_all add: RT_ALIGN_DOWN_32 c_store n_def [symmetric] del: mem_sizes)
  have n0: "n \<noteq> 0" using n by simp
  have c: "0 < sizeof_ringbuffer" "sizeof_ringbuffer \<le> 4294967264" "0 \<le> n" "n \<le> 4294967264"
    using n sz by (simp_all add: sizeof_ringbuffer_def)
  from wf c show ?thesis
  proof (cases rule: smem.alloc_pair)
    case (no_control h1)
    then have "rt_ringbuffer_create m size0 = Some (None, h1)"
      using sz by (simp add: rt_ringbuffer_create_def rt_malloc_def)
    then show ?thesis using no_control by blast
  next
    case (no_buffer r1 h1 h2 h3)
    then have "rt_ringbuffer_create m size0 = Some (None, h3)"
      using sz unfolding rt_ringbuffer_create_def Let_def u by (simp add: rt_malloc_def rt_free_def)
    then show ?thesis using no_buffer by blast
  next
    case (both r1 h1 k1 r2 h2 k2)
    obtain obj where obj: "rt_ringbuffer_init (heap_range h2 r2 n) n = Some obj" "rb_at obj 0 0" "rb_list obj = []"
        "rb_cap obj = length (heap_range h2 r2 n)"
      using rb_init [of n "heap_range h2 r2 n"] n sz by (auto simp: heap_range_def n_def)
    have run: "rt_ringbuffer_create m size0 = Some (Some (r1, r2, obj), h2)"
      using sz both(1-4) obj(1) unfolding rt_ringbuffer_create_def Let_def u s by (simp add: rt_malloc_def s)
    have d: "\<exists>m2. rt_ringbuffer_destroy (h2\<lparr>heap_bytes := b\<rparr>) (r1, r2, obj') = Some m2 \<and>
          smem_wf m2 \<and> smem_live m2 = smem_live m" for b obj'
    proof -
      let ?h = "h2\<lparr>heap_bytes := b\<rparr>"
      have w: "smem_wf ?h" "smem_live ?h = {(r1, k1), (r2, k2)} \<union> smem_live m" using both by simp_all
      obtain h3 where h3: "rt_smem_free ?h r2 = Some h3" "smem_wf h3" "smem_live h3 = smem_live ?h - {(r2, k2)}"
        using smem.release_law [OF w(1), of r2 k2] w(2) by auto
      have "(r1, k1) \<in> smem_live h3" using h3(3) w(2) both(10) by auto
      then obtain h4 where h4: "rt_smem_free h3 r1 = Some h4" "smem_wf h4" "smem_live h4 = smem_live h3 - {(r1, k1)}"
        using smem.release_law [OF h3(2), of r1 k1] by auto
      have "smem_live h4 = smem_live m" using h4(3) h3(3) w(2) both(9,10) by auto
      then show ?thesis using h3 h4 both(2,4) by (simp add: rt_ringbuffer_destroy_def rt_free_def)
    qed
    have c: "int (rb_cap obj) = n" using obj(4) n by (simp add: heap_range_def)
    show ?thesis
      using run both(5-8,11) obj(2,3) c d
      by (intro disjI2 exI [of _ r1] exI [of _ r2] exI [of _ obj] exI [of _ h2] exI [of _ k1] exI [of _ k2])
         (simp add: n_def sizeof_ringbuffer_def)
  qed
qed

lemma ringbuffer_create_destroy_example:
  "\<exists>rb pool obj m'. rt_ringbuffer_create ex_pool 100 = Some (Some (rb, pool, obj), m') \<and> rb_list obj = [] \<and>
     rb_cap obj = 96 \<and> (\<exists>m2. rt_ringbuffer_destroy m' (rb, pool, obj) = Some m2 \<and> smem_live m2 = smem_live ex_pool)"
proof -
  have "map_option (\<lambda>(x, m). x \<noteq> None) (rt_ringbuffer_create ex_pool 100) = Some True" by code_simp
  then obtain rb pool obj m' where o: "rt_ringbuffer_create ex_pool 100 = Some (Some (rb, pool, obj), m')" by auto
  from ringbuffer_create_destroy [OF ex_pool_wf, of 100] o
  have 1: "rb_list obj = []" "rb_cap obj = 96"
    and 2: "\<forall>b obj'. \<exists>m2. rt_ringbuffer_destroy (m'\<lparr>heap_bytes := b\<rparr>) (rb, pool, obj') = Some m2 \<and>
          smem_wf m2 \<and> smem_live m2 = smem_live ex_pool" by auto
  from 2 [rule_format, of "heap_bytes m'" obj] show ?thesis using o 1 by auto
qed

end
