(* ===== verification/Ringblk.thy ===== *)
theory Ringblk
  imports Slist Kheap
begin

text \<open>
  The ring of blocks of \<^verbatim>\<open>rt-thread/components/drivers/ipc/ringblk_buf.c\<close>: contiguous blocks allocated in order
  from a circular buffer, filled by a producer (put) and taken by a consumer (get) without
  copying. The descriptors of the blocks are numbered; those in use are on one list, in
  order of allocation, the others on the free list. Each function runs with interrupts
  disabled and is one step.
\<close>

section \<open>Data\<close>

datatype rt_rbb_status = RT_RBB_BLK_UNUSED | RT_RBB_BLK_INITED | RT_RBB_BLK_PUT | RT_RBB_BLK_GET

record rt_rbb_blk =
  status :: rt_rbb_status
  blk_size :: int
  blk_buf :: int

text \<open>The nodes of the lists: the two heads in the ring, and the node in each descriptor.\<close>

datatype rbb_node = BlkList | FreeList | Blk nat

record rt_rbb =
  rbb_buf :: int
  rbb_buf_size :: int
  blk_set :: "nat \<rightharpoonup> rt_rbb_blk"
  blk_max_num :: int
  rbb_links :: "rbb_node links"
  rbb_tail :: rbb_node

record rt_rbb_blk_queue =
  blocks :: nat
  blk_num :: int

text \<open>\<^verbatim>\<open>rt_slist_entry\<close>: only a node inside a descriptor leads to one.\<close>

fun rbb_entry :: "rbb_node \<Rightarrow> nat option" where
  "rbb_entry (Blk i) = Some i"
| "rbb_entry _ = None"

definition first_entry :: "rt_rbb \<Rightarrow> rbb_node \<Rightarrow> nat option" where
  "first_entry r l = do { p \<leftarrow> rt_slist_first (rbb_links r) l; n \<leftarrow> p; rbb_entry n }"

definition upd_blk :: "rt_rbb \<Rightarrow> nat \<Rightarrow> (rt_rbb_blk \<Rightarrow> rt_rbb_blk) \<Rightarrow> rt_rbb option" where
  "upd_blk r i f = do { b \<leftarrow> blk_set r i; Some (r\<lparr>blk_set := (blk_set r)(i \<mapsto> f b)\<rparr>) }"

section \<open>Operations\<close>

fun rbb_init_loop :: "rt_rbb \<Rightarrow> nat \<Rightarrow> nat \<Rightarrow> rt_rbb option" where
  "rbb_init_loop r i 0 = Some r"
| "rbb_init_loop r i (Suc n) = do {
     r1 \<leftarrow> upd_blk r i (\<lambda>b. b\<lparr>status := RT_RBB_BLK_UNUSED\<rparr>);
     h1 \<leftarrow> rt_slist_init (rbb_links r1) (Blk i);
     h2 \<leftarrow> rt_slist_insert h1 FreeList (Blk i);
     rbb_init_loop (r1\<lparr>rbb_links := h2\<rparr>) (Suc i) n
   }"

text \<open>The descriptors of \<open>block_set\<close> have arbitrary contents before.\<close>

definition rt_rbb_init :: "int \<Rightarrow> int \<Rightarrow> rt_rbb_blk list \<Rightarrow> nat \<Rightarrow> rt_rbb option" where
  "rt_rbb_init buf buf_size block_set n = do {
     RT_ASSERT (buf \<noteq> 0);
     rbb_init_loop \<lparr>rbb_buf = buf, rbb_buf_size = buf_size,
       blk_set = (\<lambda>i. if i < length block_set then Some (block_set ! i) else None), blk_max_num = int n,
       rbb_links = (\<lambda>l. case l of Blk i \<Rightarrow> if i < length block_set then Some None else None | _ \<Rightarrow> Some None),
       rbb_tail = BlkList\<rparr> 0 n
   }"

definition find_empty_blk_in_set :: "rt_rbb \<Rightarrow> (nat option \<times> rt_rbb) option" where
  "find_empty_blk_in_set r = do {
     e \<leftarrow> rt_slist_isempty (rbb_links r) FreeList;
     if e then Some (None, r)
     else do {
       i \<leftarrow> first_entry r FreeList;
       h \<leftarrow> rt_slist_remove (rbb_links r) FreeList (Blk i);
       b \<leftarrow> blk_set r i;
       RT_ASSERT (status b = RT_RBB_BLK_UNUSED);
       Some (Some i, r\<lparr>rbb_links := h\<rparr>)
     }
   }"

definition list_append :: "rt_rbb \<Rightarrow> rbb_node \<Rightarrow> rt_rbb option" where
  "list_append r n = do {
     h1 \<leftarrow> slist_set (rbb_links r) (rbb_tail r) (Some n);
     h2 \<leftarrow> slist_set h1 n None;
     Some (r\<lparr>rbb_links := h2, rbb_tail := n\<rparr>)
   }"

definition rbb_list_remove :: "rt_rbb \<Rightarrow> rbb_node \<Rightarrow> rt_rbb option" where
  "rbb_list_remove r n = do {
     node \<leftarrow> slist_before (rbb_links r) n BlkList;
     p \<leftarrow> rbb_links r node;
     (case p of None \<Rightarrow> Some r
      | Some m \<Rightarrow> do {
          q \<leftarrow> rbb_links r m;
          h1 \<leftarrow> slist_set (rbb_links r) node q;
          h2 \<leftarrow> slist_set h1 n None;
          Some (if rbb_tail r = n then r\<lparr>rbb_links := h2, rbb_tail := node\<rparr> else r\<lparr>rbb_links := h2\<rparr>)
        })
   }"

text \<open>The four lines that every successful branch of \<^verbatim>\<open>rt_rbb_blk_alloc\<close> has.\<close>

definition rbb_use_blk :: "rt_rbb \<Rightarrow> nat \<Rightarrow> int \<Rightarrow> int \<Rightarrow> (nat option \<times> rt_rbb) option" where
  "rbb_use_blk r i buf sz = do {
     r1 \<leftarrow> list_append r (Blk i);
     r2 \<leftarrow> upd_blk r1 i (\<lambda>b. b\<lparr>status := RT_RBB_BLK_INITED, blk_buf := buf, blk_size := sz\<rparr>);
     Some (Some i, r2)
   }"

definition rt_rbb_blk_alloc :: "rt_rbb \<Rightarrow> int \<Rightarrow> (nat option \<times> rt_rbb) option" where
  "rt_rbb_blk_alloc r0 sz = do {
     RT_ASSERT (sz < 2 ^ 24);
     (new, r) \<leftarrow> find_empty_blk_in_set r0;
     (case new of None \<Rightarrow> Some (None, r)
      | Some i \<Rightarrow> do {
          e \<leftarrow> rt_slist_isempty (rbb_links r) BlkList;
          if \<not> e then do {
            hd_i \<leftarrow> first_entry r BlkList;
            tl_i \<leftarrow> rbb_entry (rbb_tail r);
            head \<leftarrow> blk_set r hd_i;
            tail \<leftarrow> blk_set r tl_i;
            (if blk_buf head \<le> blk_buf tail then
               (let empty1 = u32 ((rbb_buf r + rbb_buf_size r) - (blk_buf tail + blk_size tail));
                    empty2 = u32 (blk_buf head - rbb_buf r) in
                if empty1 \<ge> sz then rbb_use_blk r i (blk_buf tail + blk_size tail) sz
                else if empty2 \<ge> sz then rbb_use_blk r i (rbb_buf r) sz
                else Some (None, r))
             else
               (let empty1 = u32 (blk_buf head - (blk_buf tail + blk_size tail)) in
                if empty1 \<ge> sz then rbb_use_blk r i (blk_buf tail + blk_size tail) sz
                else Some (None, r)))
          }
          else rbb_use_blk r i (rbb_buf r) sz
        })
   }"

definition rt_rbb_blk_put :: "rt_rbb \<Rightarrow> nat \<Rightarrow> rt_rbb option" where
  "rt_rbb_blk_put r i = do {
     b \<leftarrow> blk_set r i;
     RT_ASSERT (status b = RT_RBB_BLK_INITED);
     upd_blk r i (\<lambda>b. b\<lparr>status := RT_RBB_BLK_PUT\<rparr>)
   }"

partial_function (option) rbb_get_loop :: "rt_rbb \<Rightarrow> rbb_node option \<Rightarrow> (nat option \<times> rt_rbb) option" where
  "rbb_get_loop r node = (case node of None \<Rightarrow> Some (None, r)
     | Some n \<Rightarrow> Option.bind (rbb_entry n) (\<lambda>i. Option.bind (blk_set r i) (\<lambda>b.
         if status b = RT_RBB_BLK_PUT then
           Option.bind (upd_blk r i (\<lambda>b. b\<lparr>status := RT_RBB_BLK_GET\<rparr>)) (\<lambda>r1. Some (Some i, r1))
         else Option.bind (rt_slist_next (rbb_links r) n) (\<lambda>p. rbb_get_loop r p))))"

definition rt_rbb_blk_get :: "rt_rbb \<Rightarrow> (nat option \<times> rt_rbb) option" where
  "rt_rbb_blk_get r = do {
     e \<leftarrow> rt_slist_isempty (rbb_links r) BlkList;
     if e then Some (None, r)
     else do { p \<leftarrow> rt_slist_first (rbb_links r) BlkList; rbb_get_loop r p }
   }"

definition rt_rbb_blk_size :: "rt_rbb \<Rightarrow> nat \<Rightarrow> int option" where
  "rt_rbb_blk_size r i = map_option blk_size (blk_set r i)"

definition rt_rbb_blk_buf :: "rt_rbb \<Rightarrow> nat \<Rightarrow> int option" where
  "rt_rbb_blk_buf r i = map_option blk_buf (blk_set r i)"

definition rt_rbb_blk_free :: "rt_rbb \<Rightarrow> nat \<Rightarrow> rt_rbb option" where
  "rt_rbb_blk_free r i = do {
     b \<leftarrow> blk_set r i;
     RT_ASSERT (status b \<noteq> RT_RBB_BLK_UNUSED);
     r1 \<leftarrow> rbb_list_remove r (Blk i);
     r2 \<leftarrow> upd_blk r1 i (\<lambda>b. b\<lparr>status := RT_RBB_BLK_UNUSED\<rparr>);
     h \<leftarrow> rt_slist_insert (rbb_links r2) FreeList (Blk i);
     Some (r2\<lparr>rbb_links := h\<rparr>)
   }"

definition rt_rbb_get_buf_size :: "rt_rbb \<Rightarrow> int" where
  "rt_rbb_get_buf_size r = rbb_buf_size r"

text \<open>
  Creation on the heap: \<^verbatim>\<open>sizeof (struct rt_rbb)\<close> is 28, \<^verbatim>\<open>sizeof (struct rt_rbb_blk)\<close> 12; \<open>garbage\<close> is what the
  memory of the descriptors holds. The result is the address of the ring, of its descriptors, and the ring.
\<close>

definition rt_rbb_create :: "rt_small_mem \<Rightarrow> (nat \<Rightarrow> rt_rbb_blk) \<Rightarrow> int \<Rightarrow> int \<Rightarrow> ((int \<times> int \<times> rt_rbb) option \<times> rt_small_mem) option" where
  "rt_rbb_create m garbage buf_size n = do {
     (rbb, m1) \<leftarrow> rt_malloc m 28;
     if rbb = 0 then Some (None, m1)
     else do {
       (buf, m2) \<leftarrow> rt_malloc m1 buf_size;
       if buf = 0 then do { m3 \<leftarrow> rt_free m2 rbb; Some (None, m3) }
       else do {
         (blks, m3) \<leftarrow> rt_malloc m2 (u32 (12 * n));
         if blks = 0 then do { m4 \<leftarrow> rt_free m3 buf; m5 \<leftarrow> rt_free m4 rbb; Some (None, m5) }
         else do {
           r \<leftarrow> rt_rbb_init buf buf_size (map garbage [0..<nat (u32 (12 * n) div 12)]) (nat n);
           Some (Some (rbb, blks, r), m3)
         }
       }
     }
   }"

definition rt_rbb_destroy :: "rt_small_mem \<Rightarrow> int \<times> int \<times> rt_rbb \<Rightarrow> rt_small_mem option" where
  "rt_rbb_destroy m obj = (case obj of (rbb, blks, r) \<Rightarrow> do {
     m1 \<leftarrow> rt_free m (rbb_buf r);
     m2 \<leftarrow> rt_free m1 blks;
     rt_free m2 rbb
   })"

section \<open>Queues of contiguous blocks\<close>

text \<open>
  What one round of the loop does with the block \<open>i\<close>: \<^term>\<open>None\<close> to leave the loop, otherwise the
  state, the queue, the last block taken and the length so far.
\<close>

definition queue_visit :: "rt_rbb \<Rightarrow> int \<Rightarrow> rt_rbb_blk_queue \<Rightarrow> nat option \<Rightarrow> int \<Rightarrow> nat
    \<Rightarrow> (rt_rbb \<times> rt_rbb_blk_queue \<times> nat option \<times> int) option option" where
  "queue_visit r len q last_block acc i = do {
     b \<leftarrow> blk_set r i;
     r1 \<leftarrow> upd_blk r i (\<lambda>b. b\<lparr>status := RT_RBB_BLK_GET\<rparr>);
     let acc1 = u32 (acc + blk_size b);
     (case last_block of
        None \<Rightarrow>
          if status b = RT_RBB_BLK_PUT then
            Some (Some (r1, q\<lparr>blocks := i, blk_num := 1\<rparr>, Some i, acc1))
          else Some (Some (r, q, None, acc))
      | Some j \<Rightarrow> do {
          lb \<leftarrow> blk_set r j;
          if status b \<noteq> RT_RBB_BLK_PUT \<or> blk_buf lb > blk_buf b \<or> acc1 > len then Some None
          else Some (Some (r1, q\<lparr>blk_num := u32 (blk_num q + 1)\<rparr>, Some i, acc1))
        })
   }"

text \<open>
  The step of the loop, \<^verbatim>\<open>node = tmp, tmp = rt_slist_next(node)\<close>, reads through \<open>tmp\<close>: at the end of
  the list that is \<^verbatim>\<open>RT_NULL\<close>.
\<close>

partial_function (option) queue_get_loop ::
  "int \<Rightarrow> rbb_node option \<Rightarrow> rbb_node option \<Rightarrow> rt_rbb \<Rightarrow> rt_rbb_blk_queue \<Rightarrow> nat option \<Rightarrow> int
    \<Rightarrow> (int \<times> rt_rbb_blk_queue \<times> rt_rbb) option" where
  "queue_get_loop len node tmp r q last_block acc = (case node of None \<Rightarrow> Some (acc, q, r)
     | Some n \<Rightarrow> Option.bind (rbb_entry n) (\<lambda>i. Option.bind (queue_visit r len q last_block acc i) (\<lambda>v. case v of
         None \<Rightarrow> Some (acc, q, r)
       | Some (r1, q1, last1, acc1) \<Rightarrow> Option.bind tmp (\<lambda>t. Option.bind (rt_slist_next (rbb_links r1) t) (\<lambda>p.
           queue_get_loop len tmp p r1 q1 last1 acc1)))))"

definition rt_rbb_blk_queue_get :: "rt_rbb \<Rightarrow> int \<Rightarrow> rt_rbb_blk_queue \<Rightarrow> (int \<times> rt_rbb_blk_queue \<times> rt_rbb) option" where
  "rt_rbb_blk_queue_get r len q = do {
     e \<leftarrow> rt_slist_isempty (rbb_links r) BlkList;
     if e then Some (0, q, r)
     else do {
       node \<leftarrow> rt_slist_first (rbb_links r) BlkList;
       tmp \<leftarrow> (case node of None \<Rightarrow> Some None | Some n \<Rightarrow> rt_slist_next (rbb_links r) n);
       queue_get_loop len node tmp r q None 0
     }
   }"

fun queue_len_loop :: "rt_rbb \<Rightarrow> rbb_node option \<Rightarrow> nat \<Rightarrow> int \<Rightarrow> int option" where
  "queue_len_loop r p 0 acc = Some acc"
| "queue_len_loop r p (Suc n) acc = do {
     m \<leftarrow> p; i \<leftarrow> rbb_entry m; b \<leftarrow> blk_set r i; nx \<leftarrow> rbb_links r m;
     queue_len_loop r nx n (u32 (acc + blk_size b))
   }"

definition rt_rbb_blk_queue_len :: "rt_rbb \<Rightarrow> rt_rbb_blk_queue \<Rightarrow> int option" where
  "rt_rbb_blk_queue_len r q = queue_len_loop r (Some (Blk (blocks q))) (nat (blk_num q)) 0"

definition rt_rbb_blk_queue_buf :: "rt_rbb \<Rightarrow> rt_rbb_blk_queue \<Rightarrow> int option" where
  "rt_rbb_blk_queue_buf r q = map_option blk_buf (blk_set r (blocks q))"

fun queue_free_loop :: "rt_rbb \<Rightarrow> rbb_node option \<Rightarrow> nat \<Rightarrow> rt_rbb option" where
  "queue_free_loop r p 0 = Some r"
| "queue_free_loop r p (Suc n) = do {
     m \<leftarrow> p; i \<leftarrow> rbb_entry m; nx \<leftarrow> rbb_links r m; r1 \<leftarrow> rt_rbb_blk_free r i;
     queue_free_loop r1 nx n
   }"

definition rt_rbb_blk_queue_free :: "rt_rbb \<Rightarrow> rt_rbb_blk_queue \<Rightarrow> rt_rbb option" where
  "rt_rbb_blk_queue_free r q = queue_free_loop r (Some (Blk (blocks q))) (nat (blk_num q))"

definition next_visit :: "rt_rbb \<Rightarrow> nat option \<Rightarrow> int \<Rightarrow> nat \<Rightarrow> (nat option \<times> int) option option" where
  "next_visit r last_block acc i = do {
     b \<leftarrow> blk_set r i;
     let acc1 = u32 (acc + blk_size b);
     (case last_block of
        None \<Rightarrow> if status b \<noteq> RT_RBB_BLK_PUT then Some (Some (None, acc)) else Some (Some (Some i, acc1))
      | Some j \<Rightarrow> do {
          lb \<leftarrow> blk_set r j;
          if status b \<noteq> RT_RBB_BLK_PUT \<or> blk_buf lb > blk_buf b then Some None
          else Some (Some (Some i, acc1))
        })
   }"

partial_function (option) next_len_loop :: "rt_rbb \<Rightarrow> rbb_node option \<Rightarrow> nat option \<Rightarrow> int \<Rightarrow> int option" where
  "next_len_loop r node last_block acc = (case node of None \<Rightarrow> Some acc
     | Some n \<Rightarrow> Option.bind (rbb_entry n) (\<lambda>i. Option.bind (next_visit r last_block acc i) (\<lambda>v. case v of
         None \<Rightarrow> Some acc
       | Some (last1, acc1) \<Rightarrow> Option.bind (rt_slist_next (rbb_links r) n) (\<lambda>p. next_len_loop r p last1 acc1))))"

definition rt_rbb_next_blk_queue_len :: "rt_rbb \<Rightarrow> int option" where
  "rt_rbb_next_blk_queue_len r = do {
     e \<leftarrow> rt_slist_isempty (rbb_links r) BlkList;
     if e then Some 0
     else do { p \<leftarrow> rt_slist_first (rbb_links r) BlkList; next_len_loop r p None 0 }
   }"

declare rbb_get_loop.simps [code] queue_get_loop.simps [code] next_len_loop.simps [code]

section \<open>The layout of the blocks\<close>

text \<open>\<open>run a b bs\<close>: the blocks \<open>bs\<close> (address and length) lie between \<open>a\<close> and \<open>b\<close>, each behind the one before.\<close>

fun run :: "int \<Rightarrow> int \<Rightarrow> (int \<times> int) list \<Rightarrow> bool" where
  "run a b [] \<longleftrightarrow> a \<le> b"
| "run a b ((p, s) # bs) \<longleftrightarrow> a \<le> p \<and> 0 < s \<and> run (p + s) b bs"

text \<open>
  The blocks in order of allocation: a run, and after a wrap-around of the ring a second run from the start of
  the buffer, which ends before the first one starts.
\<close>

definition ring_layout :: "int \<Rightarrow> int \<Rightarrow> (int \<times> int) list \<Rightarrow> bool" where
  "ring_layout a b bs \<longleftrightarrow> (\<exists>hs ls. bs = hs @ ls \<and> run a b hs \<and> run a (if hs = [] then a else fst (hd hs)) ls)"

lemma run_le: "run a b bs \<Longrightarrow> a \<le> b"
  by (induction a b bs rule: run.induct) auto

lemma run_mono: "run a b bs \<Longrightarrow> a' \<le> a \<Longrightarrow> b \<le> b' \<Longrightarrow> run a' b' bs"
  by (induction a b bs arbitrary: a' rule: run.induct) auto

lemma run_app: "run a b (bs @ cs) \<longleftrightarrow> (\<exists>m. run a m bs \<and> run m b cs)"
proof (induction bs arbitrary: a)
  case Nil
  then show ?case by (auto intro: run_mono dest: run_le)
qed auto

lemma run_in: "run a b bs \<Longrightarrow> (p, s) \<in> set bs \<Longrightarrow> a \<le> p \<and> 0 < s \<and> p + s \<le> b"
  by (induction a b bs rule: run.induct) (auto dest: run_le)

lemma run_last: "run a b bs \<Longrightarrow> bs \<noteq> [] \<Longrightarrow> fst (last bs) + snd (last bs) \<le> b"
  by (induction a b bs rule: run.induct) (auto dest: run_le)

lemma run_snoc: "run a b (bs @ [(p, s)]) \<longleftrightarrow> run a p bs \<and> 0 < s \<and> p + s \<le> b"
  by (auto simp: run_app intro: run_mono)

lemma run_to_last: "run a b bs \<Longrightarrow> bs \<noteq> [] \<Longrightarrow> run a (fst (last bs) + snd (last bs)) bs"
  by (induction a b bs rule: run.induct) auto

lemma run_remove: "run a b (bs @ c # cs) \<Longrightarrow> run a b (bs @ cs)"
  by (cases c) (auto simp: run_app intro!: exI [of _ "fst c"] intro: run_mono)

lemma run_hd: "run a b bs \<Longrightarrow> bs \<noteq> [] \<Longrightarrow> a \<le> fst (hd bs)"
  by (cases bs) auto

lemma run_hd_le:
  assumes "run a b bs" "(p, s) \<in> set bs"
  shows "fst (hd bs) \<le> p"
proof (cases bs)
  case (Cons h hs)
  obtain p0 s0 where "h = (p0, s0)" by fastforce
  then have "h = (p0, s0)" "run (p0 + s0) b hs" "0 < s0" using assms(1) Cons by auto
  then show ?thesis using assms(2) Cons run_in [of "p0 + s0" b hs p s] by auto
qed (use assms in simp)

lemma run_empty: "run a a bs \<Longrightarrow> bs = []"
  using run_le [of _ a] by (cases "(a, a, bs)" rule: run.cases) force+

text \<open>Blocks do not overlap and are inside the buffer.\<close>

definition apart :: "int \<times> int \<Rightarrow> int \<times> int \<Rightarrow> bool" where
  "apart b c \<longleftrightarrow> fst b + snd b \<le> fst c \<or> fst c + snd c \<le> fst b"

lemma run_apart: "run a b bs \<Longrightarrow> sorted_wrt apart bs"
proof (induction a b bs rule: run.induct)
  case (2 a b p s bs)
  then have "apart (p, s) c" if "c \<in> set bs" for c using that run_in [of "p + s" b bs "fst c" "snd c"] by (auto simp: apart_def)
  then show ?case using 2 by simp
qed simp

lemma layout_safe:
  assumes "ring_layout a b bs"
  shows "sorted_wrt apart bs \<and> (\<forall>(p, s) \<in> set bs. a \<le> p \<and> 0 < s \<and> p + s \<le> b)"
proof -
  obtain hs ls where l: "bs = hs @ ls" "run a b hs" "run a (if hs = [] then a else fst (hd hs)) ls"
    using assms by (auto simp: ring_layout_def)
  let ?m = "if hs = [] then a else fst (hd hs)"
  have m: "?m \<le> b" using l(2) run_in [OF l(2), of "fst (hd hs)" "snd (hd hs)"] run_le [OF l(2)] by (cases hs) auto
  have h: "?m \<le> p" if "(p, s) \<in> set hs" for p s
    using that run_hd_le [OF l(2) that] by auto
  have "apart c d" if "c \<in> set hs" "d \<in> set ls" for c d
    using that h [of "fst c" "snd c"] run_in [OF l(3), of "fst d" "snd d"] by (auto simp: apart_def)
  then have "sorted_wrt apart bs" using run_apart [OF l(2)] run_apart [OF l(3)] l(1) by (auto simp: sorted_wrt_append)
  moreover have "\<forall>(p, s) \<in> set bs. a \<le> p \<and> 0 < s \<and> p + s \<le> b"
    using run_in [OF l(2)] run_in [OF l(3)] m l(1) by fastforce
  ultimately show ?thesis by blast
qed

lemma run_hd_mono:
  assumes "run a b (bs @ c # cs)" "bs @ cs \<noteq> []"
  shows "fst (hd (bs @ c # cs)) \<le> fst (hd (bs @ cs))"
proof (cases bs)
  case Nil
  then obtain d ds where "cs = d # ds" using assms(2) by (cases cs) auto
  then show ?thesis using assms(1) Nil by (cases c; cases d) auto
qed simp

lemma layout_remove: "ring_layout a b (bs @ c # cs) \<Longrightarrow> ring_layout a b (bs @ cs)"
proof -
  assume "ring_layout a b (bs @ c # cs)"
  then obtain hs ls where l: "bs @ c # cs = hs @ ls" "run a b hs" "run a (if hs = [] then a else fst (hd hs)) ls"
    by (auto simp: ring_layout_def)
  consider hs2 where "hs = bs @ c # hs2" "cs = hs2 @ ls" | ls1 where "ls = ls1 @ c # cs" "bs = hs @ ls1"
    using l(1) by (auto simp: append_eq_append_conv2 append_eq_Cons_conv Cons_eq_append_conv)
  then show ?thesis
  proof cases
    case 1
    show ?thesis
    proof (cases "bs @ hs2 = []")
      case True
      have "fst c \<le> b" using l(2) 1 True by (cases c) (auto dest: run_le)
      then have "run a b (bs @ cs)" using l(3) 1 True run_mono [OF l(3)] by auto
      then show ?thesis unfolding ring_layout_def using run_hd [of a b "bs @ cs"]
        by (intro exI [of _ "bs @ cs"] exI [of _ "[]"]) simp
    next
      case False
      have "run a b (bs @ hs2)" using l(2) 1 run_remove by blast
      moreover have "run a (fst (hd (bs @ hs2))) ls"
        using l(3) 1 run_mono [OF l(3)] run_hd_mono [of a b bs c hs2] l(2) False by (auto split: if_splits)
      ultimately show ?thesis unfolding ring_layout_def using 1 False by (intro exI [of _ "bs @ hs2"] exI [of _ ls]) auto
    qed
  next
    case 2
    then show ?thesis unfolding ring_layout_def using l run_remove [of a _ ls1 c cs] by (intro exI [of _ hs] exI [of _ "ls1 @ cs"]) auto
  qed
qed

text \<open>The three places where a block can be appended.\<close>

lemma layout_first: "0 < s \<Longrightarrow> s \<le> b - a \<Longrightarrow> ring_layout a b [(a, s)]"
  unfolding ring_layout_def by (intro exI [of _ "[(a, s)]"] exI [of _ "[]"]) simp

lemma layout_append:
  assumes "ring_layout a b bs" "bs \<noteq> []" "0 < s"
    and "fst (hd bs) = hp" "last bs = (tp, ts)"
  shows "hp \<le> tp \<Longrightarrow> s \<le> b - (tp + ts) \<Longrightarrow> ring_layout a b (bs @ [(tp + ts, s)])"
    "hp \<le> tp \<Longrightarrow> s \<le> hp - a \<Longrightarrow> ring_layout a b (bs @ [(a, s)])"
    "tp < hp \<Longrightarrow> s \<le> hp - (tp + ts) \<Longrightarrow> ring_layout a b (bs @ [(tp + ts, s)])"
    "hp \<le> tp \<Longrightarrow> tp + ts \<le> b \<and> a \<le> hp" "tp < hp \<Longrightarrow> tp + ts \<le> hp"
proof -
  obtain hs ls where l: "bs = hs @ ls" "run a b hs" "run a (if hs = [] then a else fst (hd hs)) ls"
    using assms(1) by (auto simp: ring_layout_def)
  have ne: "hs \<noteq> []"
  proof
    assume "hs = []"
    then show False using l assms(2) run_empty [of a ls] by simp
  qed
  have hp: "hp = fst (hd hs)" "a \<le> hp" using assms(4) l ne by (cases hs; auto dest: run_in)+
  have low: "tp + ts \<le> hp \<and> tp < hp" if "ls \<noteq> []"
    using that l ne assms(5) run_last [of a hp ls] run_in [of a hp ls tp ts] hp(1) last_in_set [OF that] by auto
  have up: "ls = [] \<and> last hs = (tp, ts) \<and> tp + ts \<le> b" if "hp \<le> tp"
    using that low l ne assms(5) run_last [of a b hs] by (cases "ls = []") auto
  have down: "ls \<noteq> [] \<and> last ls = (tp, ts)" if "tp < hp"
  proof -
    have False if "ls = []"
    proof -
      have "(tp, ts) \<in> set hs" using that l assms(5) ne by (metis append_Nil2 last_in_set)
      then show False using \<open>tp < hp\<close> hp(1) run_hd_le [OF l(2)] by fastforce
    qed
    then show ?thesis using l assms(5) by (cases "ls = []") auto
  qed
  show "ring_layout a b (bs @ [(tp + ts, s)])" if "hp \<le> tp" "s \<le> b - (tp + ts)"
    unfolding ring_layout_def using up [OF that(1)] that l ne run_to_last [OF l(2) ne] assms(3)
    by (intro exI [of _ "hs @ [(tp + ts, s)]"] exI [of _ "[]"]) (auto simp: run_snoc dest: run_in)
  show "ring_layout a b (bs @ [(a, s)])" if "hp \<le> tp" "s \<le> hp - a"
    unfolding ring_layout_def using up [OF that(1)] that l ne hp assms(3) by (intro exI [of _ hs] exI [of _ "[(a, s)]"]) auto
  show "ring_layout a b (bs @ [(tp + ts, s)])" if "tp < hp" "s \<le> hp - (tp + ts)"
  proof -
    have "run a (tp + ts) ls" using down [OF that(1)] run_to_last [of a hp ls] l ne hp by auto
    then show ?thesis unfolding ring_layout_def using that l ne hp assms(3)
      by (intro exI [of _ hs] exI [of _ "ls @ [(tp + ts, s)]"]) (auto simp: run_snoc)
  qed
  show "tp + ts \<le> b \<and> a \<le> hp" if "hp \<le> tp" using up [OF that] hp by simp
  show "tp + ts \<le> hp" if "tp < hp" using low down [OF that] by simp
qed

section \<open>The invariant\<close>

definition seg :: "rt_rbb \<Rightarrow> nat \<Rightarrow> int \<times> int" where
  "seg r i = (case blk_set r i of None \<Rightarrow> (0, 0) | Some b \<Rightarrow> (blk_buf b, blk_size b))"

text \<open>
  \<open>ls\<close> are the blocks in use, in order of allocation, \<open>fs\<close> the free descriptors. A descriptor may be
  in neither list.
\<close>

definition rbb_ok :: "rt_rbb \<Rightarrow> nat list \<Rightarrow> nat list \<Rightarrow> bool" where
  "rbb_ok r ls fs \<longleftrightarrow>
     slist (rbb_links r) BlkList (map Blk ls) \<and> slist (rbb_links r) FreeList (map Blk fs) \<and> distinct (ls @ fs) \<and>
     rbb_tail r = last (BlkList # map Blk ls) \<and>
     set (ls @ fs) \<subseteq> dom (blk_set r) \<and>
     (\<forall>i b. blk_set r i = Some b \<longrightarrow> (status b = RT_RBB_BLK_UNUSED \<longleftrightarrow> i \<notin> set ls) \<and> rbb_links r (Blk i) \<noteq> None) \<and>
     0 < rbb_buf r \<and> 0 \<le> rbb_buf_size r \<and> rbb_buf r + rbb_buf_size r < 2 ^ 32 \<and>
     ring_layout (rbb_buf r) (rbb_buf r + rbb_buf_size r) (map (seg r) ls)"

lemma Blk_notin [simp]: "Blk i \<in> Blk ` A \<longleftrightarrow> i \<in> A" "BlkList \<notin> Blk ` A" "FreeList \<notin> Blk ` A"
  by auto

lemma ring_layout_Nil: "0 \<le> n \<Longrightarrow> ring_layout a (a + n) []"
  unfolding ring_layout_def by (intro exI [of _ "[]"]) simp

lemma rbb_init_loop_ok:
  assumes "slist (rbb_links r) BlkList []" "slist (rbb_links r) FreeList (map Blk (rev [0..<i]))" "i + n \<le> N"
    "dom (blk_set r) = {0..<N}" "\<forall>j < N. rbb_links r (Blk j) \<noteq> None"
    "\<forall>j b. j < i \<longrightarrow> blk_set r j = Some b \<longrightarrow> status b = RT_RBB_BLK_UNUSED"
  shows "\<exists>r'. rbb_init_loop r i n = Some r' \<and> slist (rbb_links r') BlkList [] \<and>
    slist (rbb_links r') FreeList (map Blk (rev [0..<i + n])) \<and> dom (blk_set r') = {0..<N} \<and>
    (\<forall>j < N. rbb_links r' (Blk j) \<noteq> None) \<and> (\<forall>j b. j < i + n \<longrightarrow> blk_set r' j = Some b \<longrightarrow> status b = RT_RBB_BLK_UNUSED) \<and>
    rbb_buf r' = rbb_buf r \<and> rbb_buf_size r' = rbb_buf_size r \<and> blk_max_num r' = blk_max_num r \<and> rbb_tail r' = rbb_tail r"
  using assms
proof (induction n arbitrary: r i)
  case (Suc n)
  let ?h = "(rbb_links r)(Blk i \<mapsto> None)"
  obtain b where b: "blk_set r i = Some b" using Suc.prems(3,4) by fastforce
  have c: "slist ?h FreeList (map Blk (rev [0..<i]))" "slist ?h BlkList []"
    using Suc.prems(1,2) by (auto simp: slist_upd)
  obtain p where p: "rt_slist_insert ?h FreeList (Blk i) = Some (?h(Blk i \<mapsto> p, FreeList \<mapsto> Some (Blk i)))"
      "slist (?h(Blk i \<mapsto> p, FreeList \<mapsto> Some (Blk i))) FreeList (Blk i # map Blk (rev [0..<i]))"
    using slist_insert_ok [OF c(1), of "Blk i"] by auto
  let ?r = "r\<lparr>blk_set := (blk_set r)(i \<mapsto> b\<lparr>status := RT_RBB_BLK_UNUSED\<rparr>), rbb_links := ?h(Blk i \<mapsto> p, FreeList \<mapsto> Some (Blk i))\<rparr>"
  have l: "rbb_init_loop r i (Suc n) = rbb_init_loop ?r (Suc i) n"
    using b p(1) Suc.prems(3) Suc.prems(5) [rule_format, of i] by (simp add: upd_blk_def rt_slist_init_def slist_set_ok)
  have u: "map Blk (rev [0..<Suc i]) = Blk i # map Blk (rev [0..<i])" by simp
  have 1: "slist (rbb_links ?r) BlkList []" using Suc.prems(1) by simp
  have 2: "slist (rbb_links ?r) FreeList (map Blk (rev [0..<Suc i]))" unfolding u using p(2) by simp
  have 3: "dom (blk_set ?r) = {0..<N}" using Suc.prems(3,4) by auto
  have 4: "\<forall>j < N. rbb_links ?r (Blk j) \<noteq> None" using Suc.prems(5) by simp
  have 5: "\<forall>j b. j < Suc i \<longrightarrow> blk_set ?r j = Some b \<longrightarrow> status b = RT_RBB_BLK_UNUSED"
    using Suc.prems(6) by (auto simp: less_Suc_eq)
  show ?case
    unfolding l using Suc.IH [OF 1 2 _ 3 4 5] Suc.prems(3) by (simp del: upt_Suc)
qed simp

lemma rbb_init_ok:
  assumes "0 < buf" "0 \<le> sz" "buf + sz < 2 ^ 32" "length bs = n"
  shows "\<exists>r. rt_rbb_init buf sz bs n = Some r \<and> rbb_ok r [] (rev [0..<n]) \<and> rbb_buf r = buf \<and> rbb_buf_size r = sz \<and> blk_max_num r = int n"
proof -
  let ?r = "\<lparr>rbb_buf = buf, rbb_buf_size = sz, blk_set = (\<lambda>i. if i < length bs then Some (bs ! i) else None), blk_max_num = int n,
       rbb_links = (\<lambda>l. case l of Blk i \<Rightarrow> if i < length bs then Some None else None | _ \<Rightarrow> Some None), rbb_tail = BlkList\<rparr>"
  have d: "dom (blk_set ?r) = {0..<n}" using assms(4) by (auto split: if_splits)
  obtain r where "rbb_init_loop ?r 0 n = Some r" "slist (rbb_links r) BlkList []" "slist (rbb_links r) FreeList (map Blk (rev [0..<n]))"
      "dom (blk_set r) = {0..<n}" "\<forall>j < n. rbb_links r (Blk j) \<noteq> None"
      "\<forall>j b. j < n \<longrightarrow> blk_set r j = Some b \<longrightarrow> status b = RT_RBB_BLK_UNUSED"
      "rbb_buf r = buf" "rbb_buf_size r = sz" "blk_max_num r = int n" "rbb_tail r = BlkList"
    using rbb_init_loop_ok [of ?r 0 n n] assms(4) d by auto
  moreover from this have "blk_set r i = Some b \<Longrightarrow> i < n \<and> status b = RT_RBB_BLK_UNUSED" for i b
    by (metis atLeastLessThan_iff domI)
  ultimately show ?thesis using assms ring_layout_Nil [of sz buf]
    by (intro exI [of _ r]) (auto simp: rt_rbb_init_def rbb_ok_def)
qed

end
