(* ===== verification/Ringblk_Props.thy ===== *)
theory Ringblk_Props
  imports Ringblk
begin

text \<open>
  What the ring of blocks promises: blocks in use never overlap and lie inside the buffer, they are
  taken in order of allocation, and where the code does not keep its promises.
\<close>

section \<open>The effect of the operations\<close>

lemma rbb_okD:
  assumes "rbb_ok r ls fs"
  shows "slist (rbb_links r) BlkList (map Blk ls)" "slist (rbb_links r) FreeList (map Blk fs)" "distinct (ls @ fs)"
    "rbb_tail r = last (BlkList # map Blk ls)" "i \<in> set ls \<union> set fs \<Longrightarrow> \<exists>b. blk_set r i = Some b"
    "blk_set r i = Some b \<Longrightarrow> (status b = RT_RBB_BLK_UNUSED \<longleftrightarrow> i \<notin> set ls) \<and> rbb_links r (Blk i) \<noteq> None"
    "0 < rbb_buf r \<and> 0 \<le> rbb_buf_size r \<and> rbb_buf r + rbb_buf_size r < 2 ^ 32"
    "ring_layout (rbb_buf r) (rbb_buf r + rbb_buf_size r) (map (seg r) ls)"
  using assms unfolding rbb_ok_def by auto

lemma rbb_isempty: "rbb_ok r ls fs \<Longrightarrow> rt_slist_isempty (rbb_links r) BlkList = Some (ls = [])"
  by (drule rbb_okD(1)) (simp add: slist_isempty_ok)

lemma rbb_first: "rbb_ok r ls fs \<Longrightarrow> rt_slist_first (rbb_links r) BlkList = Some (if ls = [] then None else Some (Blk (hd ls)))"
  by (drule rbb_okD(1)) (auto simp: rt_slist_first_def slist_head hd_map)

lemma find_empty_none: "rbb_ok r ls [] \<Longrightarrow> find_empty_blk_in_set r = Some (None, r)"
  using rbb_okD(2) [of r ls "[]"] by (simp add: find_empty_blk_in_set_def rt_slist_isempty_def)

lemma find_empty_some:
  assumes ok: "rbb_ok r ls (i # fs)"
  shows "\<exists>h. find_empty_blk_in_set r = Some (Some i, r\<lparr>rbb_links := h\<rparr>) \<and> rbb_ok (r\<lparr>rbb_links := h\<rparr>) ls fs"
proof -
  note d = rbb_okD [OF ok]
  have f: "slist (rbb_links r) FreeList (Blk i # map Blk fs)" using d(2) by simp
  obtain q where q: "rt_slist_remove (rbb_links r) FreeList (Blk i) = Some ((rbb_links r)(FreeList \<mapsto> q))"
      "slist ((rbb_links r)(FreeList \<mapsto> q)) FreeList (map Blk fs)"
    using slist_remove_ok [of "rbb_links r" FreeList "[]" "Blk i" "map Blk fs"] f by auto
  obtain b where b: "blk_set r i = Some b" "status b = RT_RBB_BLK_UNUSED" using d(5) [of i] d(6) [of i] d(3) by auto
  have "find_empty_blk_in_set r = Some (Some i, r\<lparr>rbb_links := (rbb_links r)(FreeList \<mapsto> q)\<rparr>)"
    using f q(1) b by (simp add: find_empty_blk_in_set_def rt_slist_isempty_def first_entry_def rt_slist_first_def)
  moreover have "slist ((rbb_links r)(FreeList \<mapsto> q)) BlkList (map Blk ls)" using d(1) by (subst slist_upd) auto
  then have "rbb_ok (r\<lparr>rbb_links := (rbb_links r)(FreeList \<mapsto> q)\<rparr>) ls fs"
    using ok q(2) by (auto simp: rbb_ok_def seg_def [abs_def] simp del: fun_upd_apply) auto
  ultimately show ?thesis by blast
qed

lemma list_append_ok:
  assumes ok: "rbb_ok r ls fs" and i: "i \<notin> set ls" "i \<notin> set fs" "rbb_links r (Blk i) \<noteq> None"
  shows "\<exists>h. list_append r (Blk i) = Some (r\<lparr>rbb_links := h, rbb_tail := Blk i\<rparr>) \<and>
    slist h BlkList (map Blk (ls @ [i])) \<and> slist h FreeList (map Blk fs) \<and> (\<forall>n. h n = None \<longleftrightarrow> rbb_links r n = None)"
proof -
  note d = rbb_okD [OF ok]
  let ?t = "rbb_tail r"
  let ?h = "(rbb_links r)(?t \<mapsto> Some (Blk i), Blk i \<mapsto> None)"
  have t: "?t \<in> set (BlkList # map Blk ls)" unfolding d(4) by (rule last_in_set) simp
  have h: "rbb_links r ?t \<noteq> None" by (rule slist_dom [OF d(1) t])
  have "slist ?h BlkList (map Blk (ls @ [i]))"
    using slist_snoc [OF d(1), of "Blk i"] i(1) d(4) by (simp add: image_iff del: fun_upd_apply)
  moreover have "slist ?h FreeList (map Blk fs)"
  proof -
    have "?t \<notin> set (FreeList # map Blk fs)" "Blk i \<notin> set (FreeList # map Blk fs)" using t d(3) i(2) by auto
    then show ?thesis using d(2) by (simp add: slist_upd del: fun_upd_apply)
  qed
  ultimately show ?thesis using h i(3) by (intro exI [of _ ?h]) (auto simp: list_append_def slist_set_def)
qed

lemma use_blk_ok:
  assumes ok: "rbb_ok r ls fs" and i: "i \<notin> set ls" "i \<notin> set fs" "blk_set r i = Some b"
    and l: "ring_layout (rbb_buf r) (rbb_buf r + rbb_buf_size r) (map (seg r) ls @ [(p, sz)])"
  shows "\<exists>r'. rbb_use_blk r i p sz = Some (Some i, r') \<and> rbb_ok r' (ls @ [i]) fs \<and>
    blk_set r' = (blk_set r)(i \<mapsto> b\<lparr>status := RT_RBB_BLK_INITED, blk_buf := p, blk_size := sz\<rparr>) \<and>
    rbb_buf r' = rbb_buf r \<and> rbb_buf_size r' = rbb_buf_size r"
proof -
  note d = rbb_okD [OF ok]
  obtain h where h: "list_append r (Blk i) = Some (r\<lparr>rbb_links := h, rbb_tail := Blk i\<rparr>)" "slist h BlkList (map Blk (ls @ [i]))"
      "slist h FreeList (map Blk fs)" "\<And>n. h n = None \<longleftrightarrow> rbb_links r n = None"
    using list_append_ok [OF ok i(1,2)] d(6) [OF i(3)] by blast
  let ?b = "b\<lparr>status := RT_RBB_BLK_INITED, blk_buf := p, blk_size := sz\<rparr>"
  let ?r = "r\<lparr>rbb_links := h, rbb_tail := Blk i, blk_set := (blk_set r)(i \<mapsto> ?b)\<rparr>"
  have u: "rbb_use_blk r i p sz = Some (Some i, ?r)" using h(1) i(3) by (simp add: rbb_use_blk_def upd_blk_def)
  have "map (seg ?r) ls = map (seg r) ls" using i(1) by (auto simp: seg_def)
  then have m: "map (seg ?r) (ls @ [i]) = map (seg r) ls @ [(p, sz)]" by (simp add: seg_def)
  have "rbb_ok ?r (ls @ [i]) fs"
    unfolding rbb_ok_def
  proof (intro conjI allI impI)
    show "ring_layout (rbb_buf ?r) (rbb_buf ?r + rbb_buf_size ?r) (map (seg ?r) (ls @ [i]))" unfolding m using l by simp
    show "slist (rbb_links ?r) BlkList (map Blk (ls @ [i]))" using h(2) by simp
    show "rbb_tail ?r = last (BlkList # map Blk (ls @ [i]))" by simp
    show "(status c = RT_RBB_BLK_UNUSED) = (j \<notin> set (ls @ [i]))" "rbb_links ?r (Blk j) \<noteq> None" if "blk_set ?r j = Some c" for j c
      using that d(6) [of j] d(6) [OF i(3)] by (auto simp: h(4) split: if_splits)
  qed (use d(3,7) ok h(3) i in \<open>auto simp: rbb_ok_def\<close>)
  then show ?thesis using u by (intro exI [of _ ?r]) simp
qed

section \<open>Allocation\<close>

text \<open>Where the next block of \<open>sz\<close> bytes goes, for blocks \<open>bs\<close> in use in the buffer from \<open>a\<close> to \<open>b\<close>.\<close>

definition rbb_place :: "int \<Rightarrow> int \<Rightarrow> (int \<times> int) list \<Rightarrow> int \<Rightarrow> int option" where
  "rbb_place a b bs sz = (if bs = [] then Some a else
     let hp = fst (hd bs); te = fst (last bs) + snd (last bs) in
     if hp \<le> fst (last bs) then (if sz \<le> b - te then Some te else if sz \<le> hp - a then Some a else None)
     else if sz \<le> hp - te then Some te else None)"

lemma place_layout:
  assumes "ring_layout a b bs" "rbb_place a b bs sz = Some p" "0 < sz" "bs = [] \<longrightarrow> sz \<le> b - a"
  shows "ring_layout a b (bs @ [(p, sz)])"
proof (cases "bs = []")
  case True
  then show ?thesis using assms layout_first [of sz b a] by (simp add: rbb_place_def)
next
  case False
  obtain tp ts where t: "last bs = (tp, ts)" by fastforce
  note l = layout_append [OF assms(1) False assms(3) refl t]
  show ?thesis using assms(2) False t l(1-3) by (auto simp: rbb_place_def Let_def split: if_splits)
qed

lemma alloc_ok:
  assumes ok: "rbb_ok r ls (i # fs)" and sz: "0 < sz" "sz < 2 ^ 24" "ls = [] \<longrightarrow> sz \<le> rbb_buf_size r"
  shows "case rbb_place (rbb_buf r) (rbb_buf r + rbb_buf_size r) (map (seg r) ls) sz of
      None \<Rightarrow> \<exists>h. rt_rbb_blk_alloc r sz = Some (None, r\<lparr>rbb_links := h\<rparr>) \<and> rbb_ok (r\<lparr>rbb_links := h\<rparr>) ls fs
    | Some p \<Rightarrow> \<exists>r' b. rt_rbb_blk_alloc r sz = Some (Some i, r') \<and> rbb_ok r' (ls @ [i]) fs \<and>
        blk_set r' = (blk_set r)(i \<mapsto> b\<lparr>status := RT_RBB_BLK_INITED, blk_buf := p, blk_size := sz\<rparr>) \<and>
        rbb_buf r' = rbb_buf r \<and> rbb_buf_size r' = rbb_buf_size r"
proof -
  obtain h where h: "find_empty_blk_in_set r = Some (Some i, r\<lparr>rbb_links := h\<rparr>)" "rbb_ok (r\<lparr>rbb_links := h\<rparr>) ls fs"
    using find_empty_some [OF ok] by blast
  let ?r = "r\<lparr>rbb_links := h\<rparr>" and ?b = "rbb_buf r + rbb_buf_size r"
  note d = rbb_okD [OF h(2)]
  have sg: "seg ?r = seg r" by (simp add: seg_def fun_eq_iff)
  obtain b where b: "blk_set ?r i = Some b" using rbb_okD(5) [OF ok, of i] by auto
  have i: "i \<notin> set ls" "i \<notin> set fs" using rbb_okD(3) [OF ok] by auto
  have u: "rbb_place (rbb_buf r) ?b (map (seg r) ls) sz = Some p \<Longrightarrow>
      \<exists>r'. rbb_use_blk ?r i p sz = Some (Some i, r') \<and> rbb_ok r' (ls @ [i]) fs \<and>
        blk_set r' = (blk_set r)(i \<mapsto> b\<lparr>status := RT_RBB_BLK_INITED, blk_buf := p, blk_size := sz\<rparr>) \<and>
        rbb_buf r' = rbb_buf r \<and> rbb_buf_size r' = rbb_buf_size r" for p
    using use_blk_ok [OF h(2) i b, of p sz] place_layout [of "rbb_buf r" ?b "map (seg r) ls" sz p] rbb_okD(8) [OF ok] sz
    by (simp add: sg)
  have run: "rt_rbb_blk_alloc r sz = (case rbb_place (rbb_buf r) ?b (map (seg r) ls) sz of
      None \<Rightarrow> Some (None, ?r) | Some p \<Rightarrow> rbb_use_blk ?r i p sz)"
  proof (cases "ls = []")
    case True
    then show ?thesis using h rbb_isempty [OF h(2)] sz by (simp add: rt_rbb_blk_alloc_def rbb_place_def)
  next
    case False
    obtain hb tb where b: "blk_set ?r (hd ls) = Some hb" "blk_set ?r (last ls) = Some tb"
      using d(5) [of "hd ls"] d(5) [of "last ls"] False by auto
    have e: "first_entry ?r BlkList = Some (hd ls)" "rbb_entry (rbb_tail ?r) = Some (last ls)"
      using rbb_first [OF h(2)] d(4) False by (simp_all add: first_entry_def last_map)
    have g: "map (seg r) ls \<noteq> []" "fst (hd (map (seg r) ls)) = blk_buf hb" "last (map (seg r) ls) = (blk_buf tb, blk_size tb)"
      using b False by (auto simp: seg_def hd_map last_map)
    note l = layout_append [OF rbb_okD(8) [OF ok] g(1) sz(1) g(2,3)]
    have in_b: "0 \<le> blk_buf hb \<and> blk_buf hb \<le> ?b \<and> 0 \<le> blk_buf tb + blk_size tb"
    proof -
      have "seg r (hd ls) \<in> set (map (seg r) ls)" "seg r (last ls) \<in> set (map (seg r) ls)" using False by auto
      then show ?thesis using layout_safe [OF rbb_okD(8) [OF ok]] b rbb_okD(7) [OF ok] by (auto simp: seg_def)
    qed
    have w: "blk_buf hb \<le> blk_buf tb \<Longrightarrow> u32 (?b - (blk_buf tb + blk_size tb)) = ?b - (blk_buf tb + blk_size tb)"
      "blk_buf hb \<le> blk_buf tb \<Longrightarrow> u32 (blk_buf hb - rbb_buf r) = blk_buf hb - rbb_buf r"
      "blk_buf tb < blk_buf hb \<Longrightarrow> u32 (blk_buf hb - (blk_buf tb + blk_size tb)) = blk_buf hb - (blk_buf tb + blk_size tb)"
      using l(4,5) in_b rbb_okD(7) [OF ok] by (auto intro!: u32_id)
    show ?thesis
      using h rbb_isempty [OF h(2)] sz False b e g w
      by (simp add: rt_rbb_blk_alloc_def rbb_place_def Let_def not_le)
  qed
  show ?thesis
  proof (cases "rbb_place (rbb_buf r) ?b (map (seg r) ls) sz")
    case None
    then show ?thesis using run h(2) by (auto intro!: exI [of _ h])
  next
    case (Some p)
    then show ?thesis using run u [OF Some] by auto
  qed
qed

section \<open>Putting, getting and releasing\<close>

definition is_put :: "rt_rbb \<Rightarrow> nat \<Rightarrow> bool" where
  "is_put r i \<longleftrightarrow> (\<exists>b. blk_set r i = Some b \<and> status b = RT_RBB_BLK_PUT)"

definition set_status :: "rt_rbb \<Rightarrow> nat \<Rightarrow> rt_rbb_status \<Rightarrow> rt_rbb" where
  "set_status r i st = r\<lparr>blk_set := (blk_set r)(i := map_option (\<lambda>b. b\<lparr>status := st\<rparr>) (blk_set r i))\<rparr>"

lemma set_status_simps [simp]:
  "rbb_links (set_status r i st) = rbb_links r" "rbb_tail (set_status r i st) = rbb_tail r"
  "rbb_buf (set_status r i st) = rbb_buf r" "rbb_buf_size (set_status r i st) = rbb_buf_size r"
  "dom (blk_set (set_status r i st)) = dom (blk_set r)"
  by (auto simp: set_status_def)

lemma seg_set_status [simp]: "seg (set_status r i st) = seg r"
  by (auto simp: seg_def set_status_def fun_eq_iff split: option.splits)

lemma upd_status: "blk_set r i = Some b \<Longrightarrow> upd_blk r i (\<lambda>b. b\<lparr>status := st\<rparr>) = Some (set_status r i st)"
  by (simp add: upd_blk_def set_status_def)

lemma set_status_ok:
  assumes "rbb_ok r ls fs" "i \<in> set ls" "st \<noteq> RT_RBB_BLK_UNUSED"
  shows "rbb_ok (set_status r i st) ls fs"
proof -
  have "(status b = RT_RBB_BLK_UNUSED \<longleftrightarrow> j \<notin> set ls) \<and> rbb_links r (Blk j) \<noteq> None"
    if "blk_set (set_status r i st) j = Some b" for j b
    using that assms(2,3) rbb_okD(6) [OF assms(1), of j] by (auto simp: set_status_def split: if_splits)
  then show ?thesis using assms(1) unfolding rbb_ok_def by simp
qed

lemma put_ok:
  assumes "rbb_ok r ls fs" "rt_rbb_blk_put r i = Some r'"
  shows "i \<in> set ls \<and> r' = set_status r i RT_RBB_BLK_PUT \<and> rbb_ok r' ls fs"
proof -
  obtain b where b: "blk_set r i = Some b" "status b = RT_RBB_BLK_INITED" "r' = set_status r i RT_RBB_BLK_PUT"
    using assms(2) by (auto simp: rt_rbb_blk_put_def RT_ASSERT_def upd_status bind_eq_Some_conv split: if_splits)
  then have "i \<in> set ls" using rbb_okD(6) [OF assms(1) b(1)] by auto
  then show ?thesis using set_status_ok [OF assms(1)] b(3) by simp
qed

lemma get_loop_ok:
  assumes "slist (rbb_links r) l (map Blk vs)" "\<forall>i \<in> set vs. blk_set r i \<noteq> None"
  shows "\<exists>p. rbb_links r l = Some p \<and> rbb_get_loop r p = Some (case find (is_put r) vs of
      None \<Rightarrow> (None, r) | Some i \<Rightarrow> (Some i, set_status r i RT_RBB_BLK_GET))"
  using assms
proof (induction vs arbitrary: l)
  case Nil
  then show ?case by (simp add: rbb_get_loop.simps)
next
  case (Cons i vs)
  obtain b where b: "blk_set r i = Some b" using Cons.prems(2) by auto
  obtain p where p: "rbb_links r (Blk i) = Some p" "rbb_get_loop r p = Some (case find (is_put r) vs of
      None \<Rightarrow> (None, r) | Some i \<Rightarrow> (Some i, set_status r i RT_RBB_BLK_GET))"
    using Cons.IH [of "Blk i"] Cons.prems by auto
  have "is_put r i \<longleftrightarrow> status b = RT_RBB_BLK_PUT" using b by (simp add: is_put_def)
  then show ?case
    using Cons.prems(1) b p by (simp add: rbb_get_loop.simps [of r "Some (Blk i)"] upd_status rt_slist_next_def)
qed

lemma get_ok:
  assumes "rbb_ok r ls fs"
  shows "rt_rbb_blk_get r = Some (case find (is_put r) ls of
      None \<Rightarrow> (None, r) | Some i \<Rightarrow> (Some i, set_status r i RT_RBB_BLK_GET))"
proof (cases "ls = []")
  case True
  then show ?thesis using rbb_isempty [OF assms] by (simp add: rt_rbb_blk_get_def)
next
  case False
  have "\<forall>i \<in> set ls. blk_set r i \<noteq> None" using rbb_okD(5) [OF assms] by auto
  then show ?thesis
    using rbb_isempty [OF assms] get_loop_ok [OF rbb_okD(1) [OF assms]] False
    by (auto simp: rt_rbb_blk_get_def rt_slist_first_def)
qed

lemma list_remove_ok:
  assumes ok: "rbb_ok r (us @ i # vs) fs"
  shows "\<exists>h. rbb_list_remove r (Blk i) = Some (r\<lparr>rbb_links := h, rbb_tail := last (BlkList # map Blk (us @ vs))\<rparr>) \<and>
    slist h BlkList (map Blk (us @ vs)) \<and> slist h FreeList (map Blk fs) \<and> (\<forall>n. h n = None \<longleftrightarrow> rbb_links r n = None)"
proof -
  note d = rbb_okD [OF ok]
  have c: "slist (rbb_links r) BlkList (map Blk us @ Blk i # map Blk vs)" using d(1) by simp
  let ?n = "last (BlkList # map Blk us)"
  obtain q where q: "rbb_links r (Blk i) = Some q" "rbb_links r ?n = Some (Some (Blk i))"
      "slist ((rbb_links r)(?n \<mapsto> q)) BlkList (map Blk us @ map Blk vs)"
    using slist_unlink [OF c] by blast
  let ?h = "(rbb_links r)(?n \<mapsto> q, Blk i \<mapsto> None)"
  have n: "?n \<in> set (BlkList # map Blk us)" by (rule last_in_set) simp
  have i: "i \<notin> set us" "i \<notin> set vs" "i \<notin> set fs" using d(3) by auto
  have t: "rbb_tail r = Blk i \<longleftrightarrow> vs = []"
  proof
    assume "rbb_tail r = Blk i"
    then show "vs = []" using d(4) i by (cases "vs = []") (auto simp: last_map)
  qed (use d(4) in simp)
  have "rbb_list_remove r (Blk i) = Some (r\<lparr>rbb_links := ?h, rbb_tail := last (BlkList # map Blk (us @ vs))\<rparr>)"
    using slist_before_ok [OF c] q d(4) t n i by (auto simp: rbb_list_remove_def slist_set_def)
  moreover have "slist ?h BlkList (map Blk (us @ vs))" using q(3) i by (subst slist_upd) (auto simp del: fun_upd_apply)
  moreover have "slist ?h FreeList (map Blk fs)"
  proof -
    have "?n \<notin> set (FreeList # map Blk fs)" "Blk i \<notin> set (FreeList # map Blk fs)" using n d(3) i by auto
    then show ?thesis using d(2) by (simp add: slist_upd del: fun_upd_apply)
  qed
  ultimately show ?thesis using q(1,2) by (intro exI [of _ ?h]) auto
qed

lemma free_ok:
  assumes ok: "rbb_ok r ls fs" and i: "i \<in> set ls"
  shows "\<exists>r'. rt_rbb_blk_free r i = Some r' \<and> rbb_ok r' (remove1 i ls) (i # fs) \<and>
    blk_set r' = blk_set (set_status r i RT_RBB_BLK_UNUSED) \<and> rbb_buf r' = rbb_buf r \<and> rbb_buf_size r' = rbb_buf_size r"
proof -
  note d = rbb_okD [OF ok]
  obtain us vs where ls: "ls = us @ i # vs" "i \<notin> set us" using split_list_first [OF i] by blast
  then have r1: "remove1 i ls = us @ vs" by (simp add: remove1_append)
  obtain h where h: "rbb_list_remove r (Blk i) = Some (r\<lparr>rbb_links := h, rbb_tail := last (BlkList # map Blk (us @ vs))\<rparr>)"
      "slist h BlkList (map Blk (us @ vs))" "slist h FreeList (map Blk fs)" "\<And>n. h n = None \<longleftrightarrow> rbb_links r n = None"
    using list_remove_ok [of r us i vs fs] ok ls by blast
  obtain b where b: "blk_set r i = Some b" using d(5) i by blast
  have st: "status b \<noteq> RT_RBB_BLK_UNUSED" using d(6) [OF b] i by simp
  have nf: "Blk i \<notin> set (FreeList # map Blk fs)" "h (Blk i) \<noteq> None" using d(3) d(6) [OF b] i by (auto simp: h(4))
  obtain p where p: "rt_slist_insert h FreeList (Blk i) = Some (h(Blk i \<mapsto> p, FreeList \<mapsto> Some (Blk i)))"
      "slist (h(Blk i \<mapsto> p, FreeList \<mapsto> Some (Blk i))) FreeList (Blk i # map Blk fs)"
    using slist_insert_ok [OF h(3) nf] by blast
  let ?h = "h(Blk i \<mapsto> p, FreeList \<mapsto> Some (Blk i))" and ?t = "last (BlkList # map Blk (us @ vs))"
  let ?r = "(set_status (r\<lparr>rbb_links := h, rbb_tail := ?t\<rparr>) i RT_RBB_BLK_UNUSED)\<lparr>rbb_links := ?h\<rparr>"
  have run: "rt_rbb_blk_free r i = Some ?r"
    using b st h(1) p(1) by (simp add: rt_rbb_blk_free_def upd_status)
  have sg: "map (seg ?r) (us @ vs) = map (seg r) (us @ vs)" by (simp add: seg_def set_status_def cong: option.case_cong)
  have "rbb_ok ?r (us @ vs) (i # fs)"
    unfolding rbb_ok_def
  proof (intro conjI allI impI)
    show "slist (rbb_links ?r) BlkList (map Blk (us @ vs))" using h(2) d(3) ls by (auto simp: slist_upd simp del: fun_upd_apply map_append)
    show "slist (rbb_links ?r) FreeList (map Blk (i # fs))" using p(2) by (simp del: fun_upd_apply)
    show "ring_layout (rbb_buf ?r) (rbb_buf ?r + rbb_buf_size ?r) (map (seg ?r) (us @ vs))"
      unfolding sg using d(8) layout_remove [of "rbb_buf r" "rbb_buf r + rbb_buf_size r" "map (seg r) us" "seg r i" "map (seg r) vs"] ls by simp
    show "(status c = RT_RBB_BLK_UNUSED) = (j \<notin> set (us @ vs))" "rbb_links ?r (Blk j) \<noteq> None" if "blk_set ?r j = Some c" for j c
      using that d(6) [of j] d(3) ls by (auto simp: h(4) set_status_def split: if_splits)
    show "set ((us @ vs) @ i # fs) \<subseteq> dom (blk_set ?r)" using d(5) b ls by (fastforce simp: set_status_def)
  qed (use d(3,7) ls in auto)
  then show ?thesis unfolding r1 using run by (intro exI [of _ ?r]) (simp add: set_status_def)
qed

section \<open>Queues\<close>

text \<open>Blocks that follow the block \<open>j\<close> in a queue of \<open>a\<close> bytes so far, and the block that ends the queue.\<close>

fun queue_fits :: "rt_rbb \<Rightarrow> int \<Rightarrow> nat \<Rightarrow> int \<Rightarrow> nat list \<Rightarrow> bool" where
  "queue_fits r len j a [] \<longleftrightarrow> True"
| "queue_fits r len j a (i # is) \<longleftrightarrow> is_put r i \<and> fst (seg r j) \<le> fst (seg r i) \<and> u32 (a + snd (seg r i)) \<le> len \<and>
     queue_fits r len i (a + snd (seg r i)) is"

definition queue_stops :: "rt_rbb \<Rightarrow> int \<Rightarrow> nat \<Rightarrow> int \<Rightarrow> nat \<Rightarrow> bool" where
  "queue_stops r len j a i \<longleftrightarrow> \<not> is_put r i \<or> fst (seg r i) < fst (seg r j) \<or> len < u32 (a + snd (seg r i))"

definition blk_sizes :: "rt_rbb \<Rightarrow> nat list \<Rightarrow> int" where
  "blk_sizes r is = (\<Sum>i\<leftarrow>is. snd (seg r i))"

definition got :: "rt_rbb \<Rightarrow> nat list \<Rightarrow> rt_rbb" where
  "got r is = foldl (\<lambda>r i. set_status r i RT_RBB_BLK_GET) r is"

lemma is_put_other [simp]: "i \<noteq> j \<Longrightarrow> is_put (set_status r i st) j = is_put r j"
  by (simp add: is_put_def set_status_def)

lemma queue_fits_other: "i \<notin> set js \<Longrightarrow> queue_fits (set_status r i st) len j a js = queue_fits r len j a js"
  by (induction js arbitrary: j a) auto

lemma blk_sizes_status [simp]: "blk_sizes (set_status r i st) is = blk_sizes r is"
  by (simp add: blk_sizes_def)

lemma got_ok: "rbb_ok r ls fs \<Longrightarrow> set is \<subseteq> set ls \<Longrightarrow> rbb_ok (got r is) ls fs"
  by (induction "is" arbitrary: r) (simp_all add: got_def set_status_ok)

lemma u32_add: "u32 (u32 a + b) = u32 (a + b)"
  by (simp add: u32_def mod_simps)

lemma seg_Some: "blk_set r i = Some b \<Longrightarrow> seg r i = (blk_buf b, blk_size b)"
  by (simp add: seg_def)

text \<open>One round, on the block behind \<open>j\<close>, and what follows it.\<close>

lemma visit_take:
  assumes "blk_set r i \<noteq> None" "blk_set r j \<noteq> None" "\<not> queue_stops r len j a i"
  shows "queue_visit r len q (Some j) (u32 a) i =
    Some (Some (set_status r i RT_RBB_BLK_GET, q\<lparr>blk_num := u32 (blk_num q + 1)\<rparr>, Some i, u32 (a + snd (seg r i))))"
  using assms by (auto simp: queue_visit_def queue_stops_def upd_status is_put_def seg_Some u32_add)

lemma visit_stop:
  assumes "blk_set r i \<noteq> None" "blk_set r j \<noteq> None" "queue_stops r len j a i"
  shows "queue_visit r len q (Some j) (u32 a) i = Some None"
  using assms by (auto simp: queue_visit_def queue_stops_def upd_status is_put_def seg_Some u32_add)

lemma queue_cont:
  assumes "slist (rbb_links r) (Blk j) (map Blk (is @ rest))" "rbb_links r (Blk j) = Some tmp" "distinct (j # is @ rest)"
    "\<forall>i \<in> set (j # is @ rest). blk_set r i \<noteq> None" "queue_fits r len j a is"
    "rest \<noteq> [] \<Longrightarrow> queue_stops r len (last (j # is)) (a + blk_sizes r is) (hd rest)" "0 \<le> blk_num q"
    "blk_num q + int (length is) < 2 ^ 32"
  shows "Option.bind tmp (\<lambda>t. Option.bind (rt_slist_next (rbb_links r) t) (\<lambda>p. queue_get_loop len tmp p r q (Some j) (u32 a))) =
    (if rest = [] then None
     else Some (u32 (a + blk_sizes r is), q\<lparr>blk_num := blk_num q + int (length is)\<rparr>, got r is))"
  using assms
proof (induction "is" arbitrary: r j a q tmp)
  case Nil
  show ?case
  proof (cases rest)
    case (Cons b rest')
    then have "queue_stops r len j a b" using Nil.prems(6) by (simp add: blk_sizes_def)
    moreover obtain p where "rbb_links r (Blk b) = Some p" using Nil.prems(1) Cons slist_dom [of "rbb_links r" "Blk j" "map Blk rest" "Blk b"] by auto
    ultimately show ?thesis
      using Nil.prems(1,2,4) Cons visit_stop [of r b j len a q]
      by (simp add: rt_slist_next_def queue_get_loop.simps [of len "Some (Blk b)"] blk_sizes_def got_def)
  qed (use Nil in simp)
next
  case (Cons i "is")
  let ?r = "set_status r i RT_RBB_BLK_GET" and ?q = "q\<lparr>blk_num := u32 (blk_num q + 1)\<rparr>"
  have l: "tmp = Some (Blk i)" "slist (rbb_links r) (Blk i) (map Blk (is @ rest))" using Cons.prems(1,2) by simp_all
  obtain p where p: "rbb_links r (Blk i) = Some p" using slist_dom [OF l(2), of "Blk i"] by auto
  have ns: "\<not> queue_stops r len j a i" using Cons.prems(5) by (simp add: queue_stops_def not_less)
  have n: "u32 (blk_num q + 1) = blk_num q + 1" using Cons.prems(7,8) by (intro u32_id) auto
  have sg: "a + blk_sizes r (i # is) = a + snd (seg r i) + blk_sizes r is" by (simp add: blk_sizes_def)
  have d: "\<forall>k \<in> set (i # is @ rest). blk_set ?r k \<noteq> None"
    using Cons.prems(4) by (auto simp: set_status_def)
  have st: "queue_stops ?r len (last (i # is)) (a + snd (seg r i) + blk_sizes ?r is) (hd rest)" if "rest \<noteq> []"
  proof -
    have "hd rest \<noteq> i" using that Cons.prems(3) by auto
    then show ?thesis using Cons.prems(6) [OF that] sg by (simp add: queue_stops_def)
  qed
  have "Option.bind tmp (\<lambda>t. Option.bind (rt_slist_next (rbb_links r) t) (\<lambda>p. queue_get_loop len tmp p r q (Some j) (u32 a))) =
      Option.bind p (\<lambda>t. Option.bind (rt_slist_next (rbb_links ?r) t) (\<lambda>p'. queue_get_loop len p p' ?r ?q (Some i) (u32 (a + snd (seg r i)))))"
    using l(1) p visit_take [OF _ _ ns, of q] Cons.prems(4)
    by (simp add: rt_slist_next_def queue_get_loop.simps [of len "Some (Blk i)"])
  also have "\<dots> = (if rest = [] then None
     else Some (u32 (a + snd (seg r i) + blk_sizes ?r is), ?q\<lparr>blk_num := blk_num ?q + int (length is)\<rparr>, got ?r is))"
    using l(2) p d st Cons.prems(3,5,7,8) n by (intro Cons.IH) (auto simp: queue_fits_other)
  finally show ?case using sg n by (simp add: got_def add.assoc)
qed

text \<open>Before the first block that is filled.\<close>

lemma queue_skip:
  assumes "slist (rbb_links r) l (map Blk (us @ vs))" "rbb_links r l = Some node" "node \<noteq> None" "\<forall>i \<in> set us. \<not> is_put r i"
    "\<forall>i \<in> set (us @ vs). blk_set r i \<noteq> None" "node = Some n" "rbb_links r n = Some tmp"
  shows "queue_get_loop len node tmp r q None acc = (if vs = [] then None
    else queue_get_loop len (Some (Blk (hd vs))) (the (rbb_links r (Blk (hd vs)))) r q None acc)"
  using assms
proof (induction us arbitrary: l node n tmp)
  case Nil
  then show ?case by (cases vs) auto
next
  case (Cons u us)
  obtain b where b: "blk_set r u = Some b" "status b \<noteq> RT_RBB_BLK_PUT" using Cons.prems(4,5) by (auto simp: is_put_def)
  have n: "node = Some (Blk u)" "n = Blk u" "slist (rbb_links r) (Blk u) (map Blk (us @ vs))" using Cons.prems(1,2,6) by auto
  have v: "queue_get_loop len node tmp r q None acc =
      Option.bind tmp (\<lambda>t. Option.bind (rt_slist_next (rbb_links r) t) (\<lambda>p. queue_get_loop len tmp p r q None acc))"
    using b n(1) by (simp add: queue_get_loop.simps [of len "Some (Blk u)"] queue_visit_def upd_status)
  show ?case
  proof (cases "us @ vs")
    case Nil
    then show ?thesis using v n Cons.prems(7) by simp
  next
    case (Cons w ws)
    then have t: "tmp = Some (Blk w)" "Blk w \<in> set (Blk u # map Blk (us @ vs))" using n(2,3) Cons.prems(7) by auto
    then obtain p where p: "rbb_links r (Blk w) = Some p" using slist_dom [OF n(3) t(2)] by auto
    show ?thesis
      unfolding v using Cons.IH [OF n(3) _ _ _ _ t(1) p] Cons.prems n t p by (simp add: rt_slist_next_def)
  qed
qed

lemma queue_get_ok:
  assumes ok: "rbb_ok r (us @ p # ps @ rest) fs" and us: "\<forall>i \<in> set us. \<not> is_put r i" and p: "is_put r p"
    and ps: "queue_fits r len p (snd (seg r p)) ps"
    and rest: "rest \<noteq> [] \<Longrightarrow> queue_stops r len (last (p # ps)) (blk_sizes r (p # ps)) (hd rest)"
    and n: "int (length (p # ps)) < 2 ^ 32"
  shows "rt_rbb_blk_queue_get r len q = (if rest = [] then None
    else Some (u32 (blk_sizes r (p # ps)), \<lparr>blocks = p, blk_num = int (length (p # ps))\<rparr>, got r (p # ps)))"
proof -
  note d = rbb_okD [OF ok]
  let ?ls = "us @ p # ps @ rest"
  have dm: "\<forall>i \<in> set ?ls. blk_set r i \<noteq> None" using d(5) by auto
  have hd: "rbb_links r BlkList = Some (Some (Blk (hd ?ls)))" using rbb_first [OF ok] by (simp add: rt_slist_first_def)
  obtain t where t: "rbb_links r (Blk (hd ?ls)) = Some t" using slist_dom [OF d(1), of "Blk (hd ?ls)"] by (cases us) auto
  have c: "slist (rbb_links r) (Blk p) (map Blk (ps @ rest))"
    using slist_app [of "rbb_links r" BlkList "map Blk us @ [Blk p]" "map Blk (ps @ rest)"] d(1) by simp
  obtain t' where t': "rbb_links r (Blk p) = Some t'" using slist_dom [OF c, of "Blk p"] by auto
  obtain b where b: "blk_set r p = Some b" "status b = RT_RBB_BLK_PUT" using p by (auto simp: is_put_def)
  let ?r = "set_status r p RT_RBB_BLK_GET" and ?q = "q\<lparr>blocks := p, blk_num := 1\<rparr>"
  have d': "distinct (p # ps @ rest)" using d(3) by auto
  have "rt_rbb_blk_queue_get r len q = queue_get_loop len (Some (Blk (hd ?ls))) t r q None 0"
    using rbb_isempty [OF ok] hd t by (simp add: rt_rbb_blk_queue_get_def rt_slist_first_def rt_slist_next_def)
  also have "\<dots> = queue_get_loop len (Some (Blk p)) t' r q None 0"
    using queue_skip [of r BlkList us "p # ps @ rest" "Some (Blk (hd ?ls))" "Blk (hd ?ls)" t len q 0] d(1) hd us dm t t' by simp
  also have "\<dots> = Option.bind t' (\<lambda>t. Option.bind (rt_slist_next (rbb_links ?r) t) (\<lambda>p'.
      queue_get_loop len t' p' ?r ?q (Some p) (u32 (snd (seg r p)))))"
    using b by (simp add: queue_get_loop.simps [of len "Some (Blk p)"] queue_visit_def upd_status seg_Some)
  also have "\<dots> = (if rest = [] then None
     else Some (u32 (snd (seg r p) + blk_sizes ?r ps), ?q\<lparr>blk_num := blk_num ?q + int (length ps)\<rparr>, got ?r ps))"
  proof (rule queue_cont)
    show "slist (rbb_links ?r) (Blk p) (map Blk (ps @ rest))" "rbb_links ?r (Blk p) = Some t'" using c t' by simp_all
    show "distinct (p # ps @ rest)" by (rule d')
    show "\<forall>i \<in> set (p # ps @ rest). blk_set ?r i \<noteq> None" using dm by (auto simp: set_status_def)
    show "queue_fits ?r len p (snd (seg r p)) ps" using ps d' by (simp add: queue_fits_other)
    show "queue_stops ?r len (last (p # ps)) (snd (seg r p) + blk_sizes ?r ps) (hd rest)" if "rest \<noteq> []"
    proof -
      have "hd rest \<noteq> p" using that d' by auto
      then show ?thesis using rest [OF that] by (simp add: queue_stops_def blk_sizes_def)
    qed
    show "0 \<le> blk_num ?q" "blk_num ?q + int (length ps) < 2 ^ 32" using n by simp_all
  qed
  finally show ?thesis by (simp add: blk_sizes_def got_def)
qed

lemma queue_get_none_put:
  assumes ok: "rbb_ok r ls fs" and ls: "ls \<noteq> []" "\<forall>i \<in> set ls. \<not> is_put r i"
  shows "rt_rbb_blk_queue_get r len q = None"
proof -
  note d = rbb_okD [OF ok]
  have hd: "rbb_links r BlkList = Some (Some (Blk (hd ls)))" using rbb_first [OF ok] ls(1) by (simp add: rt_slist_first_def)
  obtain t where t: "rbb_links r (Blk (hd ls)) = Some t" using slist_dom [OF d(1), of "Blk (hd ls)"] ls(1) by auto
  have "\<forall>i \<in> set ls. blk_set r i \<noteq> None" using d(5) by auto
  then show ?thesis
    using queue_skip [of r BlkList ls "[]" "Some (Blk (hd ls))" "Blk (hd ls)" t len q 0] d(1) hd t ls rbb_isempty [OF ok]
    by (simp add: rt_rbb_blk_queue_get_def rt_slist_first_def rt_slist_next_def)
qed

lemma run_length: "run a b bs \<Longrightarrow> int (length bs) \<le> b - a"
  by (induction a b bs rule: run.induct) auto

lemma layout_length:
  assumes "ring_layout a b bs"
  shows "int (length bs) \<le> b - a"
proof -
  obtain hs ls where l: "bs = hs @ ls" "run a b hs" "run a (if hs = [] then a else fst (hd hs)) ls"
    using assms by (auto simp: ring_layout_def)
  show ?thesis
  proof (cases hs)
    case Nil
    then show ?thesis using l run_length [OF l(2)] run_length [OF l(3)] by simp
  next
    case (Cons h hs')
    then have "run (fst h) b hs" using l(2) by (cases h) auto
    then show ?thesis using l Cons run_length [of "fst h" b hs] run_length [OF l(3)] by simp
  qed
qed

lemma rbb_count:
  assumes "rbb_ok r ls fs"
  shows "int (length ls) < 2 ^ 32"
  using layout_length [OF rbb_okD(8) [OF assms]] rbb_okD(7) [OF assms] by simp

lemma queue_decompose:
  "\<exists>ps rest. vs = ps @ rest \<and> queue_fits r len j a ps \<and> (rest \<noteq> [] \<longrightarrow> queue_stops r len (last (j # ps)) (a + blk_sizes r ps) (hd rest))"
proof (induction vs arbitrary: j a)
  case Nil
  then show ?case by simp
next
  case (Cons i vs)
  show ?case
  proof (cases "queue_stops r len j a i")
    case True
    then show ?thesis by (intro exI [of _ "[]"] exI [of _ "i # vs"]) (simp add: blk_sizes_def)
  next
    case False
    obtain ps rest where "vs = ps @ rest" "queue_fits r len i (a + snd (seg r i)) ps"
        "rest \<noteq> [] \<longrightarrow> queue_stops r len (last (i # ps)) (a + snd (seg r i) + blk_sizes r ps) (hd rest)"
      using Cons.IH by blast
    then show ?thesis using False
      by (intro exI [of _ "i # ps"] exI [of _ rest]) (auto simp: queue_stops_def not_less blk_sizes_def add.assoc)
  qed
qed

lemma queue_get_keeps:
  assumes ok: "rbb_ok r ls fs" and g: "rt_rbb_blk_queue_get r len q = Some (n, q', r')"
  shows "rbb_ok r' ls fs \<and> rbb_buf r' = rbb_buf r \<and> rbb_buf_size r' = rbb_buf_size r"
proof -
  have keeps: "rbb_buf (got r is) = rbb_buf r \<and> rbb_buf_size (got r is) = rbb_buf_size r" for "is"
    by (induction "is" arbitrary: r) (simp_all add: got_def)
  consider "ls = []" | "ls \<noteq> []" "\<forall>i \<in> set ls. \<not> is_put r i" | us p vs where "ls = us @ p # vs" "\<forall>i \<in> set us. \<not> is_put r i" "is_put r p"
    using split_list_first_prop [of ls "is_put r"] by blast
  then show ?thesis
  proof cases
    case 1
    then show ?thesis using g rbb_isempty [OF ok] ok by (simp add: rt_rbb_blk_queue_get_def)
  next
    case 2
    then show ?thesis using g queue_get_none_put [OF ok] by simp
  next
    case 3
    obtain ps rest where d: "vs = ps @ rest" "queue_fits r len p (snd (seg r p)) ps"
        "rest \<noteq> [] \<longrightarrow> queue_stops r len (last (p # ps)) (snd (seg r p) + blk_sizes r ps) (hd rest)"
      using queue_decompose by blast
    have "int (length (p # ps)) < 2 ^ 32" using rbb_count [OF ok] 3(1) d(1) by simp
    then have "rt_rbb_blk_queue_get r len q = (if rest = [] then None
        else Some (u32 (blk_sizes r (p # ps)), \<lparr>blocks = p, blk_num = int (length (p # ps))\<rparr>, got r (p # ps)))"
      using queue_get_ok [of r us p ps rest fs len q] ok 3 d by (simp add: blk_sizes_def)
    then have "r' = got r (p # ps)" using g by (simp split: if_splits)
    then show ?thesis using got_ok [OF ok, of "p # ps"] keeps [of "p # ps"] 3(1) d(1) by auto
  qed
qed

section \<open>Any use of a ring of blocks\<close>

text \<open>The client asks for blocks that are not empty and not larger than the buffer.\<close>

inductive rbb_step :: "rt_rbb \<Rightarrow> rt_rbb \<Rightarrow> bool" where
  step_alloc: "rt_rbb_blk_alloc r sz = Some (x, r') \<Longrightarrow> 0 < sz \<Longrightarrow> sz \<le> rbb_buf_size r \<Longrightarrow> rbb_step r r'"
| step_put: "rt_rbb_blk_put r i = Some r' \<Longrightarrow> rbb_step r r'"
| step_get: "rt_rbb_blk_get r = Some (x, r') \<Longrightarrow> rbb_step r r'"
| step_queue: "rt_rbb_blk_queue_get r len q = Some (n, q', r') \<Longrightarrow> rbb_step r r'"
| step_free: "rt_rbb_blk_free r i = Some r' \<Longrightarrow> rbb_step r r'"

lemma alloc_returns:
  assumes "rbb_ok r ls fs" "0 < sz" "sz < 2 ^ 24" "sz \<le> rbb_buf_size r"
  shows "\<exists>x r' ls' fs'. rt_rbb_blk_alloc r sz = Some (x, r') \<and> rbb_ok r' ls' fs' \<and> set (ls' @ fs') \<subseteq> set (ls @ fs) \<and>
    rbb_buf r' = rbb_buf r \<and> rbb_buf_size r' = rbb_buf_size r \<and> (x = None \<or> x \<in> Some ` set fs)"
proof (cases fs)
  case Nil
  then show ?thesis using assms find_empty_none [of r ls]
    by (intro exI [of _ None] exI [of _ r] exI [of _ ls] exI [of _ fs]) (simp add: rt_rbb_blk_alloc_def)
next
  case (Cons i fs')
  show ?thesis
  proof (cases "rbb_place (rbb_buf r) (rbb_buf r + rbb_buf_size r) (map (seg r) ls) sz")
    case None
    then obtain h where "rt_rbb_blk_alloc r sz = Some (None, r\<lparr>rbb_links := h\<rparr>)" "rbb_ok (r\<lparr>rbb_links := h\<rparr>) ls fs'"
      using alloc_ok [of r ls i fs' sz] assms Cons by auto
    then show ?thesis using Cons
      by (intro exI [of _ None] exI [of _ "r\<lparr>rbb_links := h\<rparr>"] exI [of _ ls] exI [of _ fs']) auto
  next
    case (Some p)
    then obtain r' where "rt_rbb_blk_alloc r sz = Some (Some i, r')" "rbb_ok r' (ls @ [i]) fs'" "rbb_buf r' = rbb_buf r"
        "rbb_buf_size r' = rbb_buf_size r"
      using alloc_ok [of r ls i fs' sz] assms Cons by auto
    then show ?thesis using Cons
      by (intro exI [of _ "Some i"] exI [of _ r'] exI [of _ "ls @ [i]"] exI [of _ fs']) auto
  qed
qed

lemma rbb_step_ok:
  assumes "rbb_step r r'" "rbb_ok r ls fs"
  shows "\<exists>ls' fs'. rbb_ok r' ls' fs' \<and> set (ls' @ fs') \<subseteq> set (ls @ fs) \<and> rbb_buf r' = rbb_buf r \<and> rbb_buf_size r' = rbb_buf_size r"
  using assms
proof cases
  case (step_alloc sz x)
  then have "sz < 2 ^ 24" by (simp add: rt_rbb_blk_alloc_def RT_ASSERT_def split: if_splits)
  then show ?thesis using alloc_returns [OF assms(2) step_alloc(2) _ step_alloc(3)] step_alloc(1) by (metis option.inject prod.inject)
next
  case (step_put i)
  then show ?thesis using put_ok [OF assms(2) step_put] by (intro exI [of _ ls] exI [of _ fs]) auto
next
  case (step_get x)
  show ?thesis
  proof (cases "find (is_put r) ls")
    case None
    then show ?thesis using step_get get_ok [OF assms(2)] assms(2) by (intro exI [of _ ls] exI [of _ fs]) auto
  next
    case (Some i)
    then have "i \<in> set ls" by (auto simp: find_Some_iff)
    then show ?thesis using Some step_get get_ok [OF assms(2)] set_status_ok [OF assms(2)] by (intro exI [of _ ls] exI [of _ fs]) auto
  qed
next
  case (step_queue len q n q')
  then show ?thesis using queue_get_keeps [OF assms(2)] by (intro exI [of _ ls] exI [of _ fs]) auto
next
  case (step_free i)
  then obtain b where b: "blk_set r i = Some b" "status b \<noteq> RT_RBB_BLK_UNUSED"
    by (auto simp: rt_rbb_blk_free_def RT_ASSERT_def bind_eq_Some_conv split: if_splits)
  then have i: "i \<in> set ls" using rbb_okD(6) [OF assms(2) b(1)] by auto
  have "set (remove1 i ls @ i # fs) \<subseteq> set (ls @ fs)" using i set_remove1_subset [of i ls] by auto
  then show ?thesis using free_ok [OF assms(2) i] step_free
    by (intro exI [of _ "remove1 i ls"] exI [of _ "i # fs"]) auto
qed

lemma rbb_steps_ok:
  assumes "rbb_step\<^sup>*\<^sup>* r r'" "rbb_ok r ls fs"
  shows "\<exists>ls' fs'. rbb_ok r' ls' fs' \<and> set (ls' @ fs') \<subseteq> set (ls @ fs) \<and> rbb_buf r' = rbb_buf r \<and> rbb_buf_size r' = rbb_buf_size r"
  using assms(1)
proof induction
  case base
  then show ?case using assms(2) by auto
next
  case (step y z)
  then obtain l f where 1: "rbb_ok y l f" "set (l @ f) \<subseteq> set (ls @ fs)" "rbb_buf y = rbb_buf r" "rbb_buf_size y = rbb_buf_size r" by blast
  obtain l' f' where 2: "rbb_ok z l' f'" "set (l' @ f') \<subseteq> set (l @ f)" "rbb_buf z = rbb_buf y" "rbb_buf_size z = rbb_buf_size y"
    using rbb_step_ok [OF step(2) 1(1)] by blast
  have "set (l' @ f') \<subseteq> set (ls @ fs)" using 1(2) 2(2) by (rule order.trans [rotated])
  then show ?case using 1(3,4) 2 by (intro exI [of _ l'] exI [of _ f']) simp
qed

lemma used_iff:
  "rbb_ok r ls fs \<Longrightarrow> blk_set r i = Some b \<Longrightarrow> status b \<noteq> RT_RBB_BLK_UNUSED \<longleftrightarrow> i \<in> set ls"
  using rbb_okD(6) by blast

lemma sorted_wrt_distinct_pair:
  assumes "sorted_wrt P (map f xs)" "distinct xs" "x \<in> set xs" "y \<in> set xs" "x \<noteq> y"
  shows "P (f x) (f y) \<or> P (f y) (f x)"
  using assms by (induction xs) auto

lemma rbb_used_apart:
  assumes ok: "rbb_ok r ls fs" and b: "blk_set r i = Some b" "status b \<noteq> RT_RBB_BLK_UNUSED"
  shows "rbb_buf r \<le> blk_buf b \<and> 0 < blk_size b \<and> blk_buf b + blk_size b \<le> rbb_buf r + rbb_buf_size r"
    "blk_set r j = Some c \<Longrightarrow> status c \<noteq> RT_RBB_BLK_UNUSED \<Longrightarrow> i \<noteq> j \<Longrightarrow>
      blk_buf b + blk_size b \<le> blk_buf c \<or> blk_buf c + blk_size c \<le> blk_buf b"
proof -
  note l = layout_safe [OF rbb_okD(8) [OF ok]]
  have i: "i \<in> set ls" using used_iff [OF ok b(1)] b(2) by simp
  then have "(blk_buf b, blk_size b) \<in> set (map (seg r) ls)" using seg_Some [OF b(1)] by (metis image_eqI set_map)
  then show "rbb_buf r \<le> blk_buf b \<and> 0 < blk_size b \<and> blk_buf b + blk_size b \<le> rbb_buf r + rbb_buf_size r" using l by auto
  assume c: "blk_set r j = Some c" "status c \<noteq> RT_RBB_BLK_UNUSED" "i \<noteq> j"
  have j: "j \<in> set ls" using used_iff [OF ok c(1)] c(2) by simp
  have "apart (seg r i) (seg r j) \<or> apart (seg r j) (seg r i)"
    using sorted_wrt_distinct_pair [of apart "seg r" ls i j] l rbb_okD(3) [OF ok] i j c(3) by auto
  then show "blk_buf b + blk_size b \<le> blk_buf c \<or> blk_buf c + blk_size c \<le> blk_buf b"
    using seg_Some [OF b(1)] seg_Some [OF c(1)] by (auto simp: apart_def)
qed

lemma alloc_from_free:
  assumes ok: "rbb_ok r ls fs" and a: "rt_rbb_blk_alloc r sz = Some (Some i, r')"
  shows "i \<in> set fs"
proof (cases fs)
  case Nil
  then show ?thesis using a find_empty_none [of r ls] ok by (auto simp: rt_rbb_blk_alloc_def RT_ASSERT_def split: if_splits)
next
  case (Cons j fs')
  have u: "rbb_use_blk s j p n = Some (Some i, t) \<Longrightarrow> i = j" for s p n t
    by (auto simp: rbb_use_blk_def bind_eq_Some_conv)
  obtain h where h: "find_empty_blk_in_set r = Some (Some j, r\<lparr>rbb_links := h\<rparr>)" using find_empty_some [of r ls j fs'] ok Cons by blast
  have "i = j"
    using a unfolding rt_rbb_blk_alloc_def h Let_def RT_ASSERT_def
    by (auto split: Option.bind_split_asm if_split_asm dest: u)
  then show ?thesis using Cons by simp
qed

definition ex_blk :: rt_rbb_blk where
  "ex_blk = \<lparr>status = RT_RBB_BLK_GET, blk_size = 7, blk_buf = 9\<rparr>"

text \<open>A buffer of 100 bytes at 1000 with three descriptors, and two blocks of 60 and 30 bytes in it.\<close>

definition ex_rbb :: "rt_rbb option" where
  "ex_rbb = do {
     r0 \<leftarrow> rt_rbb_init 1000 100 [ex_blk, ex_blk, ex_blk] 3;
     (x, r1) \<leftarrow> rt_rbb_blk_alloc r0 60;
     (y, r2) \<leftarrow> rt_rbb_blk_alloc r1 30;
     Some r2
   }"

lemma ex_rbb_ok:
  "\<exists>r0 r. rt_rbb_init 1000 100 [ex_blk, ex_blk, ex_blk] 3 = Some r0 \<and> rbb_step\<^sup>*\<^sup>* r0 r \<and> ex_rbb = Some r \<and> rbb_ok r [2, 1] [0] \<and>
     map_option status (blk_set r 2) = Some RT_RBB_BLK_INITED \<and> map_option status (blk_set r 1) = Some RT_RBB_BLK_INITED \<and>
     seg r 2 = (1000, 60) \<and> seg r 1 = (1060, 30) \<and> rbb_buf r = 1000 \<and> rbb_buf_size r = 100"
proof -
  obtain r0 where r0: "rt_rbb_init 1000 100 [ex_blk, ex_blk, ex_blk] 3 = Some r0" "rbb_ok r0 [] [2, 1, 0]" "rbb_buf r0 = 1000" "rbb_buf_size r0 = 100"
    using rbb_init_ok [of 1000 100 "[ex_blk, ex_blk, ex_blk]" 3] by (auto simp: upt_rec numeral_2_eq_2)
  obtain r1 b1 where r1: "rt_rbb_blk_alloc r0 60 = Some (Some 2, r1)" "rbb_ok r1 [2] [1, 0]" "rbb_buf r1 = 1000" "rbb_buf_size r1 = 100"
      "blk_set r1 = (blk_set r0)(2 \<mapsto> b1\<lparr>status := RT_RBB_BLK_INITED, blk_buf := 1000, blk_size := 60\<rparr>)"
    using alloc_ok [OF r0(2), of 60] r0(3,4) by (auto simp: rbb_place_def)
  have g: "seg r1 2 = (1000, 60)" by (simp add: seg_def r1(5))
  obtain r b where r: "rt_rbb_blk_alloc r1 30 = Some (Some 1, r)" "rbb_ok r [2, 1] [0]" "rbb_buf r = 1000" "rbb_buf_size r = 100"
      "blk_set r = (blk_set r1)(1 \<mapsto> b\<lparr>status := RT_RBB_BLK_INITED, blk_buf := 1060, blk_size := 30\<rparr>)"
    using alloc_ok [OF r1(2), of 30] r1(3,4) g by (auto simp: rbb_place_def)
  have "rbb_step r0 r1" "rbb_step r1 r" using step_alloc [OF r1(1)] step_alloc [OF r(1)] r0(4) r1(4) by auto
  then have "rbb_step\<^sup>*\<^sup>* r0 r" by (simp add: converse_rtranclp_into_rtranclp)
  then show ?thesis using r0 r1 r by (intro exI [of _ r0] exI [of _ r]) (simp add: ex_rbb_def seg_def)
qed

section \<open>Properties\<close>

text \<open>C16: However a ring of blocks is used, provided every request asks for at least one byte and
  no more than the buffer holds, the blocks in use lie inside the buffer and no two of them overlap; such a
  request and \<^verbatim>\<open>rt_rbb_blk_get\<close> return. The proviso matters: the first request is not checked
  against the buffer, and a larger one gets a block that leaves it.\<close>

theorem rbb_blocks_disjoint:
  assumes "rt_rbb_init buf sz bs (length bs) = Some r0" "0 < buf" "0 \<le> sz" "buf + sz < 2 ^ 32" "rbb_step\<^sup>*\<^sup>* r0 r"
  shows "(\<forall>i b. blk_set r i = Some b \<and> status b \<noteq> RT_RBB_BLK_UNUSED \<longrightarrow>
      buf \<le> blk_buf b \<and> 0 < blk_size b \<and> blk_buf b + blk_size b \<le> buf + sz \<and>
      (\<forall>j c. blk_set r j = Some c \<and> status c \<noteq> RT_RBB_BLK_UNUSED \<and> i \<noteq> j \<longrightarrow>
        blk_buf b + blk_size b \<le> blk_buf c \<or> blk_buf c + blk_size c \<le> blk_buf b)) \<and>
    (\<forall>n. 0 < n \<and> n \<le> sz \<and> n < 2 ^ 24 \<longrightarrow> rt_rbb_blk_alloc r n \<noteq> None) \<and> rt_rbb_blk_get r \<noteq> None"
proof -
  have r0: "rbb_ok r0 [] (rev [0..<length bs])" "rbb_buf r0 = buf" "rbb_buf_size r0 = sz"
    using rbb_init_ok [OF assms(2-4), of bs "length bs"] assms(1) by auto
  obtain ls fs where ok: "rbb_ok r ls fs" "rbb_buf r = buf" "rbb_buf_size r = sz"
    using rbb_steps_ok [OF assms(5) r0(1)] r0(2,3) by auto
  have "rt_rbb_blk_alloc r n \<noteq> None" if "0 < n" "n \<le> sz" "n < 2 ^ 24" for n
    using alloc_returns [OF ok(1) that(1) that(3)] that(2) ok(3) by auto
  moreover have "rt_rbb_blk_get r \<noteq> None" using get_ok [OF ok(1)] by simp
  ultimately show ?thesis using rbb_used_apart [OF ok(1), unfolded ok(2,3)] by blast
qed

theorem rbb_blocks_disjoint_witness:
  "\<exists>r b c. ex_rbb = Some r \<and> blk_set r 2 = Some b \<and> blk_set r 1 = Some c \<and>
     (blk_buf b + blk_size b \<le> blk_buf c \<or> blk_buf c + blk_size c \<le> blk_buf b)"
proof -
  obtain r0 r where e: "rt_rbb_init 1000 100 [ex_blk, ex_blk, ex_blk] (length [ex_blk, ex_blk, ex_blk]) = Some r0" "rbb_step\<^sup>*\<^sup>* r0 r" "ex_rbb = Some r"
      "map_option status (blk_set r 2) = Some RT_RBB_BLK_INITED" "map_option status (blk_set r 1) = Some RT_RBB_BLK_INITED"
    using ex_rbb_ok by (auto simp: numeral_3_eq_3)
  obtain b c where b: "blk_set r 2 = Some b" "status b = RT_RBB_BLK_INITED" and c: "blk_set r 1 = Some c" "status c = RT_RBB_BLK_INITED"
    using e(4,5) by auto
  have "blk_buf b + blk_size b \<le> blk_buf c \<or> blk_buf c + blk_size c \<le> blk_buf b"
    using rbb_blocks_disjoint [OF e(1) _ _ _ e(2), THEN conjunct1, rule_format, of 2 b, THEN conjunct2, THEN conjunct2, THEN conjunct2,
      rule_format, of 1 c] b c by simp
  then show ?thesis using e(3) b(1) c(1) by blast
qed

text \<open>\<^verbatim>\<open>rt_rbb_blk_get\<close> takes the filled block that was allocated first. \<^verbatim>\<open>rt_rbb_blk_queue_get\<close> takes it with all that
  follow it, as long as they are filled, do not wrap around and fit the length; but when the list of blocks in use ends before a
  block that stops the queue, or has no filled block, it reads the link of a null pointer.\<close>

lemma rbb_get_spec:
  assumes "rbb_ok r (us @ p # ps @ rest) fs" "\<forall>i \<in> set us. \<not> is_put r i" "is_put r p" "queue_fits r len p (snd (seg r p)) ps"
    "rest = [] \<or> queue_stops r len (last (p # ps)) (blk_sizes r (p # ps)) (hd rest)"
  shows "rt_rbb_blk_get r = Some (Some p, set_status r p RT_RBB_BLK_GET) \<and>
    rt_rbb_blk_queue_get r len q = (if rest = [] then None
      else Some (u32 (blk_sizes r (p # ps)), \<lparr>blocks = p, blk_num = int (length (p # ps))\<rparr>, got r (p # ps))) \<and>
    (\<forall>r' ls fs. rbb_ok r' ls fs \<and> ls \<noteq> [] \<and> (\<forall>i \<in> set ls. \<not> is_put r' i) \<longrightarrow>
      rt_rbb_blk_get r' = Some (None, r') \<and> rt_rbb_blk_queue_get r' len q = None)"
proof -
  have "find (is_put r) (us @ p # ps @ rest) = Some p" using assms(2,3) by (induction us) auto
  moreover have "find (is_put r') ls = None" if "\<forall>i \<in> set ls. \<not> is_put r' i" for r' ls using that by (auto simp: find_None_iff)
  moreover have "int (length (p # ps)) < 2 ^ 32" using rbb_count [OF assms(1)] by simp
  ultimately show ?thesis
    using get_ok [OF assms(1)] queue_get_ok [OF assms(1-4), of q] assms(5) get_ok queue_get_none_put by auto
qed

lemma rbb_get_spec_example:
  "\<exists>r r1 q' r2. ex_rbb = Some r \<and> rt_rbb_blk_put r 2 = Some r1 \<and> rt_rbb_blk_queue_get r1 80 \<lparr>blocks = 0, blk_num = 0\<rparr> = Some (60, q', r2) \<and>
     blocks q' = 2 \<and> blk_num q' = 1"
proof -
  obtain r where e: "ex_rbb = Some r" "rbb_ok r [2, 1] [0]" "map_option status (blk_set r 2) = Some RT_RBB_BLK_INITED"
      "map_option status (blk_set r 1) = Some RT_RBB_BLK_INITED" "seg r 2 = (1000, 60)"
    using ex_rbb_ok by blast
  let ?r = "set_status r 2 RT_RBB_BLK_PUT"
  have p: "rt_rbb_blk_put r 2 = Some ?r" using e(3) by (auto simp: rt_rbb_blk_put_def upd_status)
  have ok: "rbb_ok ?r ([] @ 2 # [] @ [1]) [0]" using put_ok [OF e(2) p] by simp
  have i: "is_put ?r 2" "\<not> is_put ?r 1" using e(3,4) by (auto simp: is_put_def set_status_def)
  have "rt_rbb_blk_queue_get ?r 80 \<lparr>blocks = 0, blk_num = 0\<rparr> = Some (60, \<lparr>blocks = 2, blk_num = 1\<rparr>, got ?r [2])"
    using rbb_get_spec [OF ok _ i(1), of 80 "\<lparr>blocks = 0, blk_num = 0\<rparr>", THEN conjunct2, THEN conjunct1] i e(5)
    by (simp add: queue_stops_def blk_sizes_def c_store)
  then show ?thesis using e(1) p by auto
qed

text \<open>A request for which there is no room leaks a descriptor: \<^verbatim>\<open>rt_rbb_blk_alloc\<close> has taken it off the free list, and whatever
  happens later, no request gets it again.\<close>

lemma rbb_alloc_leak:
  assumes "rbb_ok r ls (i # fs)" "0 < sz" "sz < 2 ^ 24" "sz \<le> rbb_buf_size r" "rt_rbb_blk_alloc r sz = Some (None, r1)"
  shows "rbb_ok r1 ls fs \<and> blk_set r1 = blk_set r \<and>
    (\<forall>r2 n r3. rbb_step\<^sup>*\<^sup>* r1 r2 \<longrightarrow> rt_rbb_blk_alloc r2 n \<noteq> Some (Some i, r3))"
proof -
  have 1: "rbb_ok r1 ls fs" "blk_set r1 = blk_set r"
    using alloc_ok [OF assms(1-3)] assms(4,5) by (auto split: option.splits)
  have i: "i \<notin> set (ls @ fs)" using rbb_okD(3) [OF assms(1)] by auto
  have "rt_rbb_blk_alloc r2 n \<noteq> Some (Some i, r3)" if s: "rbb_step\<^sup>*\<^sup>* r1 r2" for r2 n r3
  proof -
    obtain l f where "rbb_ok r2 l f" "set (l @ f) \<subseteq> set (ls @ fs)" using rbb_steps_ok [OF s 1(1)] by blast
    then show ?thesis using alloc_from_free [of r2 l f n i r3] i by auto
  qed
  then show ?thesis using 1 by blast
qed

lemma rbb_alloc_leak_example:
  "\<exists>r r1. ex_rbb = Some r \<and> rt_rbb_blk_alloc r 50 = Some (None, r1) \<and> (\<forall>r3. rt_rbb_blk_alloc r1 1 \<noteq> Some (Some 0, r3))"
proof -
  obtain r where e: "ex_rbb = Some r" "rbb_ok r [2, 1] [0]" "seg r 2 = (1000, 60)" "seg r 1 = (1060, 30)" "rbb_buf r = 1000" "rbb_buf_size r = 100"
    using ex_rbb_ok by blast
  obtain r1 where "rt_rbb_blk_alloc r 50 = Some (None, r1)"
    using alloc_ok [OF e(2), of 50] e(3-6) by (auto simp: rbb_place_def)
  then show ?thesis using rbb_alloc_leak [OF e(2), of 50 r1] e(1,6) by auto
qed

text \<open>The first block is handed out without a look at its length, even if it is longer than the buffer.\<close>

lemma rbb_first_unchecked:
  assumes "rbb_ok r [] (i # fs)" "sz < 2 ^ 24"
  shows "\<exists>r' b. rt_rbb_blk_alloc r sz = Some (Some i, r') \<and> blk_set r' i = Some b \<and> blk_buf b = rbb_buf r \<and> blk_size b = sz"
proof -
  obtain h where h: "find_empty_blk_in_set r = Some (Some i, r\<lparr>rbb_links := h\<rparr>)" "rbb_ok (r\<lparr>rbb_links := h\<rparr>) [] fs"
    using find_empty_some [OF assms(1)] by blast
  obtain b where b: "blk_set r i = Some b" using rbb_okD(5) [OF assms(1), of i] by auto
  have "h (Blk i) \<noteq> None" using rbb_okD(6) [OF h(2)] b by simp
  then obtain h2 where "list_append (r\<lparr>rbb_links := h\<rparr>) (Blk i) = Some (r\<lparr>rbb_links := h2, rbb_tail := Blk i\<rparr>)"
    using list_append_ok [OF h(2), of i] rbb_okD(3) [OF assms(1)] by auto
  then show ?thesis using h rbb_isempty [OF h(2)] b assms(2) by (simp add: rt_rbb_blk_alloc_def rbb_use_blk_def upd_blk_def)
qed

section \<open>Queues are measured and released as they were got\<close>

lemma queue_len_ok:
  assumes "slist (rbb_links r) l (map Blk (is @ rest))" "\<forall>i \<in> set is. blk_set r i \<noteq> None"
  shows "\<exists>p. rbb_links r l = Some p \<and> queue_len_loop r p (length is) (u32 a) = Some (u32 (a + blk_sizes r is))"
  using assms
proof (induction "is" arbitrary: l a)
  case Nil
  then show ?case using slist_dom [of "rbb_links r" l _ l] by (auto simp: blk_sizes_def)
next
  case (Cons i "is")
  then have "slist (rbb_links r) (Blk i) (map Blk (is @ rest))" by simp
  then obtain p where "rbb_links r (Blk i) = Some p"
      "queue_len_loop r p (length is) (u32 (a + snd (seg r i))) = Some (u32 (a + snd (seg r i) + blk_sizes r is))"
    using Cons.IH [of "Blk i" "a + snd (seg r i)"] Cons.prems(2) by auto
  moreover obtain b where "blk_set r i = Some b" using Cons.prems(2) by auto
  ultimately show ?case using Cons.prems(1) by (auto simp: seg_Some u32_add blk_sizes_def add.assoc)
qed

lemma queue_free_ok:
  assumes "rbb_ok r (us @ qs @ rest) fs" "qs \<noteq> [] \<Longrightarrow> p = Some (Blk (hd qs))"
  shows "\<exists>r'. queue_free_loop r p (length qs) = Some r' \<and> rbb_ok r' (us @ rest) (rev qs @ fs)"
  using assms
proof (induction qs arbitrary: r p fs)
  case (Cons i qs)
  note d = rbb_okD [OF Cons.prems(1)]
  have c: "slist (rbb_links r) (Blk i) (map Blk (qs @ rest))"
    using slist_app [of "rbb_links r" BlkList "map Blk (us @ [i])" "map Blk (qs @ rest)"] d(1) by simp
  obtain nx where nx: "rbb_links r (Blk i) = Some nx" "qs \<noteq> [] \<Longrightarrow> nx = Some (Blk (hd qs))"
    using slist_head [OF c] by (cases qs) auto
  have "remove1 i (us @ (i # qs) @ rest) = us @ qs @ rest" using d(3) by (simp add: remove1_append)
  then obtain r1 where r1: "rt_rbb_blk_free r i = Some r1" "rbb_ok r1 (us @ qs @ rest) (i # fs)"
    using free_ok [OF Cons.prems(1), of i] by auto
  show ?case using Cons.IH [OF r1(2) nx(2)] r1(1) nx(1) Cons.prems(2) by simp
qed simp

text \<open>A queue of consecutive blocks: its length and address, and its release.\<close>

lemma queue_release:
  assumes ok: "rbb_ok r (us @ qs @ rest) fs" and q: "qs \<noteq> []" "q = \<lparr>blocks = hd qs, blk_num = int (length qs)\<rparr>"
  shows "rt_rbb_blk_queue_len r q = Some (u32 (blk_sizes r qs)) \<and> rt_rbb_blk_queue_buf r q = Some (fst (seg r (hd qs))) \<and>
    (\<exists>r'. rt_rbb_blk_queue_free r q = Some r' \<and> rbb_ok r' (us @ rest) (rev qs @ fs))"
proof -
  note d = rbb_okD [OF ok]
  have dm: "\<forall>i \<in> set qs. blk_set r i \<noteq> None" using d(5) by auto
  have c: "slist (rbb_links r) (last (BlkList # map Blk us)) (map Blk (qs @ rest))"
    using slist_app [of "rbb_links r" BlkList "map Blk us" "map Blk (qs @ rest)"] d(1) by simp
  obtain b where b: "blk_set r (hd qs) = Some b" using dm q(1) by (cases qs) auto
  have "rbb_links r (last (BlkList # map Blk us)) = Some (Some (Blk (hd qs)))" using slist_head [OF c] q(1) by (cases qs) simp_all
  then have "queue_len_loop r (Some (Blk (hd qs))) (length qs) 0 = Some (u32 (blk_sizes r qs))"
    using queue_len_ok [OF c dm, of 0] by (auto simp: c_store)
  then show ?thesis using q b queue_free_ok [OF ok, of "Some (Blk (hd qs))"]
    by (simp add: rt_rbb_blk_queue_len_def rt_rbb_blk_queue_buf_def rt_rbb_blk_queue_free_def seg_Some)
qed

section \<open>Creation and destruction\<close>

lemma live_top:
  assumes "smem_wf m" "(a, l) \<in> smem_live m"
  shows "a + l < 2 ^ 32"
proof -
  obtain bs where bs: "smem_ok m bs" using assms(1) by (auto simp: smem_wf_def smem_inv_def)
  then show ?thesis using smem_live_range(3) [OF assms] smem_okD [OF bs] by simp
qed

lemma rbb_create_destroy:
  assumes wf: "smem_wf m" and n: "0 < sz" "sz \<le> 4294967264" "0 < n" "12 * n \<le> 4294967264"
  shows "(\<exists>m'. rt_rbb_create m garbage sz n = Some (None, m') \<and> smem_wf m' \<and> smem_live m' = smem_live m) \<or>
    (\<exists>rbb blks r m'. rt_rbb_create m garbage sz n = Some (Some (rbb, blks, r), m') \<and> smem_wf m' \<and>
       rbb_ok r [] (rev [0..<nat n]) \<and> rbb_buf_size r = sz \<and>
       (\<exists>m2. rt_rbb_destroy m' (rbb, blks, r) = Some m2 \<and> smem_wf m2 \<and> smem_live m2 = smem_live m))"
proof -
  have u: "u32 (12 * n) = 12 * n" "nat (12 * n div 12) = nat n" using n by (simp_all add: u32_id)
  note d = rt_rbb_create_def rt_malloc_def rt_free_def u
  have c: "0 \<le> (28 :: int)" "(28 :: int) \<le> 4294967264" "0 \<le> sz" "sz \<le> 4294967264" "0 \<le> 12 * n" "12 * n \<le> 4294967264"
    using n by simp_all
  from wf c(1,2) show ?thesis
  proof (cases rule: smem.alloc_cases)
    case (fail h)
    then show ?thesis by (intro disjI1 exI [of _ h]) (simp add: d)
  next
    case A: (room rbb k1 h1)
    from A(3) c(3,4) show ?thesis
    proof (cases rule: smem.alloc_cases)
      case (fail h)
      obtain h' where "rt_smem_free h rbb = Some h'" "smem_wf h'" "smem_live h' = smem_live m"
        using smem.release_live [OF fail(2), of rbb k1 "smem_live m"] fail(3) A(5,6) by auto
      then show ?thesis using A fail by (intro disjI1 exI [of _ h']) (simp add: d)
    next
      case B: (room buf k2 h2)
      from B(3) c(5,6) show ?thesis
      proof (cases rule: smem.alloc_cases)
        case (fail h)
        obtain h' where h': "rt_smem_free h buf = Some h'" "smem_wf h'" "smem_live h' = smem_live h1"
          using smem.release_live [OF fail(2), of buf k2 "smem_live h1"] fail(3) B(5,6) by auto
        obtain h'' where "rt_smem_free h' rbb = Some h''" "smem_wf h''" "smem_live h'' = smem_live m"
          using smem.release_live [OF h'(2), of rbb k1 "smem_live m"] h'(3) A(5,6) by auto
        then show ?thesis using A B fail h' by (intro disjI1 exI [of _ h'']) (simp add: d)
      next
        case C: (room blks k3 h3)
        have "(buf, k2) \<in> smem_live h3" using B(5) C(5) by simp
        then have b: "0 < buf" "buf + sz < 2 ^ 32" using live_top [OF C(3), of buf k2] smem.live_pos [OF C(3), of buf k2] B(4) by auto
        obtain r where r: "rt_rbb_init buf sz (map garbage [0..<nat n]) (nat n) = Some r" "rbb_ok r [] (rev [0..<nat n])"
            "rbb_buf r = buf" "rbb_buf_size r = sz"
          using rbb_init_ok [OF b(1) _ b(2), of "map garbage [0..<nat n]" "nat n"] n by auto
        have run: "rt_rbb_create m garbage sz n = Some (Some (rbb, blks, r), h3)"
          using A(1,2) B(1,2) C(1,2) r(1) by (simp add: d)
        have l: "smem_live h3 = insert (buf, k2) (insert (blks, k3) (insert (rbb, k1) (smem_live m)))"
          using A(5) B(5) C(5) by auto
        have ni: "(buf, k2) \<notin> insert (blks, k3) (insert (rbb, k1) (smem_live m))" "(blks, k3) \<notin> insert (rbb, k1) (smem_live m)"
          using A(5,6) B(5,6) C(5,6) by auto
        obtain h4 where h4: "rt_smem_free h3 buf = Some h4" "smem_wf h4" "smem_live h4 = insert (blks, k3) (insert (rbb, k1) (smem_live m))"
          using smem.release_live [OF C(3) l ni(1)] .
        obtain h5 where h5: "rt_smem_free h4 blks = Some h5" "smem_wf h5" "smem_live h5 = insert (rbb, k1) (smem_live m)"
          using smem.release_live [OF h4(2,3) ni(2)] .
        obtain h6 where h6: "rt_smem_free h5 rbb = Some h6" "smem_wf h6" "smem_live h6 = smem_live m"
          using smem.release_live [OF h5(2,3) A(6)] .
        have "rt_rbb_destroy h3 (rbb, blks, r) = Some h6"
          using h4(1) h5(1) h6(1) r(3) A(2) B(2) C(2) by (simp add: rt_rbb_destroy_def rt_free_def)
        then show ?thesis using run C(3) r(2,4) h6 by blast
      qed
    qed
  qed
qed

end
