(* ===== verification/Timer.thy ===== *)
theory Timer
  imports Prelude
begin

text \<open>
  The timers of \<^verbatim>\<open>rt-thread/src/timer.c\<close>: hard timers run by the tick interrupt and soft
  timers run by the timer thread, each in a list ordered by deadline. Ticks are 32-bit and
  wrap around; deadlines are compared by their distance modulo 2^32. The configuration has
  one skip-list level (\<^verbatim>\<open>RT_TIMER_SKIP_LIST_LEVEL\<close> is 1), so a timer list is one ordered list.
\<close>

section \<open>State\<close>

text \<open>Timers are named by their owner: the built-in timer of a thread, or one of the application.\<close>

datatype tmid = ThreadTimer nat | UserTimer nat

text \<open>
  \<^verbatim>\<open>struct rt_timer\<close>; the bits of \<^verbatim>\<open>parent.flag\<close> are separate fields, and \<open>tstatic\<close> is what
  \<^verbatim>\<open>rt_object_is_systemobject\<close> tells. The callback is a parameter of the functions that run
  timers.
\<close>

record rt_timer =
  activated :: bool
  periodic :: bool
  soft :: bool
  tstatic :: bool
  init_tick :: int
  timeout_tick :: int

text \<open>
  The file's variables. \<open>timers\<close> has no entry for an object that is not a timer (the type
  assertion fails on it). \<open>check_list\<close> and \<open>soft_check_list\<close> are the local lists of
  \<^verbatim>\<open>rt_timer_check\<close> and \<^verbatim>\<open>rt_soft_timer_check\<close> that hold the timer whose callback is running.
  \<open>timer_thread_suspend\<close> tells whether the timer thread is suspended.
\<close>

record timer_sys =
  tick :: int
  timers :: "tmid \<rightharpoonup> rt_timer"
  timer_list :: "tmid list"
  soft_timer_list :: "tmid list"
  check_list :: "tmid list"
  soft_check_list :: "tmid list"
  soft_timer_busy :: bool
  timer_thread_suspend :: bool

definition RT_TICK_MAX :: int where "RT_TICK_MAX = 0xffffffff"

definition rt_tick_get :: "timer_sys \<Rightarrow> int" where
  "rt_tick_get s = tick s"

definition rt_tick_set :: "timer_sys \<Rightarrow> int \<Rightarrow> timer_sys" where
  "rt_tick_set s t = s\<lparr>tick := u32 t\<rparr>"

definition RT_TICK_PER_SECOND :: int where "RT_TICK_PER_SECOND = 1000"

text \<open>C's division and remainder agree with \<open>div\<close> and \<open>mod\<close> on the non-negative operands here.\<close>

definition rt_tick_from_millisecond :: "int \<Rightarrow> int" where
  "rt_tick_from_millisecond ms =
     (if ms < 0 then u32 (- 1)
      else let t = u32 (RT_TICK_PER_SECOND * (ms div 1000)) in
        u32 (t + (RT_TICK_PER_SECOND * (ms mod 1000) + 999) div 1000))"

definition rt_tick_get_millisecond :: "timer_sys \<Rightarrow> int" where
  "rt_tick_get_millisecond s = u32 (rt_tick_get s * (1000 div RT_TICK_PER_SECOND))"

section \<open>Operations\<close>

definition upd_timer :: "timer_sys \<Rightarrow> tmid \<Rightarrow> (rt_timer \<Rightarrow> rt_timer) \<Rightarrow> timer_sys option" where
  "upd_timer s t f = (case timers s t of None \<Rightarrow> None | Some tm \<Rightarrow> Some (s\<lparr>timers := (timers s)(t \<mapsto> f tm)\<rparr>))"

text \<open>The flag argument is given by its bits: periodic, soft.\<close>

definition timer_init :: "timer_sys \<Rightarrow> tmid \<Rightarrow> bool \<Rightarrow> int \<Rightarrow> bool \<Rightarrow> bool \<Rightarrow> timer_sys" where
  "timer_init s t static time per sft =
     s\<lparr>timers := (timers s)(t \<mapsto> \<lparr>activated = False, periodic = per, soft = sft, tstatic = static,
        init_tick = time, timeout_tick = 0\<rparr>)\<rparr>"

definition timer_list_next_timeout :: "timer_sys \<Rightarrow> tmid list \<Rightarrow> int option option" where
  "timer_list_next_timeout s l =
     (case l of [] \<Rightarrow> Some None
      | t # _ \<Rightarrow> do { tm \<leftarrow> timers s t; Some (Some (timeout_tick tm)) })"

text \<open>\<^verbatim>\<open>rt_list_remove\<close> unlinks the node from whichever list it is in.\<close>

definition timer_remove :: "timer_sys \<Rightarrow> tmid \<Rightarrow> timer_sys" where
  "timer_remove s t = s\<lparr>timer_list := remove1 t (timer_list s), soft_timer_list := remove1 t (soft_timer_list s),
     check_list := remove1 t (check_list s), soft_check_list := remove1 t (soft_check_list s)\<rparr>"

definition rt_timer_init :: "timer_sys \<Rightarrow> tmid \<Rightarrow> int \<Rightarrow> bool \<Rightarrow> bool \<Rightarrow> timer_sys option" where
  "rt_timer_init s t time per sft = do {
     RT_ASSERT (time < RT_TICK_MAX div 2);
     Some (timer_init s t True time per sft)
   }"

definition rt_timer_detach :: "timer_sys \<Rightarrow> tmid \<Rightarrow> timer_sys option" where
  "rt_timer_detach s t = do {
     tm \<leftarrow> timers s t;
     RT_ASSERT (tstatic tm);
     let s1 = timer_remove s t;
     s2 \<leftarrow> upd_timer s1 t (activated_update (\<lambda>_. False));
     Some (s2\<lparr>timers := (timers s2)(t := None)\<rparr>)
   }"

text \<open>The allocation in \<^verbatim>\<open>rt_timer_create\<close> is a parameter: whether the object could be allocated.\<close>

definition rt_timer_create :: "bool \<Rightarrow> timer_sys \<Rightarrow> tmid \<Rightarrow> int \<Rightarrow> bool \<Rightarrow> bool \<Rightarrow> (tmid option \<times> timer_sys) option" where
  "rt_timer_create allocated s t time per sft = do {
     RT_ASSERT (time < RT_TICK_MAX div 2);
     (if \<not> allocated then Some (None, s)
      else Some (Some t, timer_init s t False time per sft))
   }"

definition rt_timer_delete :: "timer_sys \<Rightarrow> tmid \<Rightarrow> timer_sys option" where
  "rt_timer_delete s t = do {
     tm \<leftarrow> timers s t;
     RT_ASSERT (\<not> tstatic tm);
     let s1 = timer_remove s t;
     s2 \<leftarrow> upd_timer s1 t (activated_update (\<lambda>_. False));
     Some (s2\<lparr>timers := (timers s2)(t := None)\<rparr>)
   }"

text \<open>
  The search of \<^verbatim>\<open>rt_timer_start\<close>: behind every timer with the same deadline, in front of the
  first one whose deadline lies ahead of the new one by less than half the tick range.
\<close>

fun timer_insert :: "(tmid \<Rightarrow> int) \<Rightarrow> tmid \<Rightarrow> int \<Rightarrow> tmid list \<Rightarrow> tmid list" where
  "timer_insert tt new deadline [] = [new]"
| "timer_insert tt new deadline (t # ts) =
     (let d = u32 (tt t - deadline) in
      if d = 0 then t # timer_insert tt new deadline ts
      else if d < RT_TICK_MAX div 2 then new # t # ts
      else t # timer_insert tt new deadline ts)"

definition deadline_of :: "timer_sys \<Rightarrow> tmid \<Rightarrow> int" where
  "deadline_of s t = (case timers s t of None \<Rightarrow> 0 | Some tm \<Rightarrow> timeout_tick tm)"

definition rt_timer_start :: "timer_sys \<Rightarrow> tmid \<Rightarrow> timer_sys option" where
  "rt_timer_start s t = do {
     tm \<leftarrow> timers s t;
     let s1 = timer_remove s t;
     let deadline = u32 (rt_tick_get s + init_tick tm);
     s2 \<leftarrow> upd_timer s1 t (\<lambda>tm. tm\<lparr>activated := False, timeout_tick := deadline\<rparr>);
     let s3 = (if soft tm
               then s2\<lparr>soft_timer_list := timer_insert (deadline_of s2) t deadline (soft_timer_list s2)\<rparr>
               else s2\<lparr>timer_list := timer_insert (deadline_of s2) t deadline (timer_list s2)\<rparr>);
     s4 \<leftarrow> upd_timer s3 t (activated_update (\<lambda>_. True));
     Some (if soft tm \<and> \<not> soft_timer_busy s4 \<and> timer_thread_suspend s4
           then s4\<lparr>timer_thread_suspend := False\<rparr>
           else s4)
   }"

text \<open>\<open>False\<close> is the result \<^verbatim>\<open>-RT_ERROR\<close>.\<close>

definition rt_timer_stop :: "timer_sys \<Rightarrow> tmid \<Rightarrow> (bool \<times> timer_sys) option" where
  "rt_timer_stop s t = do {
     tm \<leftarrow> timers s t;
     (if \<not> activated tm then Some (False, s)
      else do {
        s1 \<leftarrow> upd_timer (timer_remove s t) t (activated_update (\<lambda>_. False));
        Some (True, s1)
      })
   }"

datatype timer_cmd =
  RT_TIMER_CTRL_GET_TIME | RT_TIMER_CTRL_SET_TIME int | RT_TIMER_CTRL_SET_ONESHOT
| RT_TIMER_CTRL_SET_PERIODIC | RT_TIMER_CTRL_GET_STATE | RT_TIMER_CTRL_GET_REMAIN_TIME
| TIMER_CTRL_OTHER

text \<open>The result is the value stored through \<^verbatim>\<open>arg\<close>, if any. \<^verbatim>\<open>arg\<close> is read as an unsigned tick.\<close>

definition rt_timer_control :: "timer_sys \<Rightarrow> tmid \<Rightarrow> timer_cmd \<Rightarrow> (int option \<times> timer_sys) option" where
  "rt_timer_control s t cmd = do {
     tm \<leftarrow> timers s t;
     (case cmd of
        RT_TIMER_CTRL_GET_TIME \<Rightarrow> Some (Some (init_tick tm), s)
      | RT_TIMER_CTRL_SET_TIME v \<Rightarrow> do {
          RT_ASSERT (u32 v < RT_TICK_MAX div 2);
          s1 \<leftarrow> upd_timer s t (init_tick_update (\<lambda>_. u32 v));
          Some (None, s1)
        }
      | RT_TIMER_CTRL_SET_ONESHOT \<Rightarrow> do { s1 \<leftarrow> upd_timer s t (periodic_update (\<lambda>_. False)); Some (None, s1) }
      | RT_TIMER_CTRL_SET_PERIODIC \<Rightarrow> do { s1 \<leftarrow> upd_timer s t (periodic_update (\<lambda>_. True)); Some (None, s1) }
      | RT_TIMER_CTRL_GET_STATE \<Rightarrow> Some (Some (if activated tm then 1 else 0), s)
      | RT_TIMER_CTRL_GET_REMAIN_TIME \<Rightarrow> Some (Some (timeout_tick tm), s)
      | TIMER_CTRL_OTHER \<Rightarrow> Some (None, s))
   }"

text \<open>
  What happens with one due timer, from its removal to its restart. The callback \<open>cb\<close> is a
  parameter: it may call any timer function, and acts on the rest of the system \<open>'a\<close>.
\<close>

type_synonym 'a timer_cb = "tmid \<Rightarrow> timer_sys \<times> 'a \<Rightarrow> (timer_sys \<times> 'a) option"

definition timer_fire :: "'a timer_cb \<Rightarrow> tmid \<Rightarrow> timer_sys \<times> 'a \<Rightarrow> (timer_sys \<times> 'a) option" where
  "timer_fire cb t x = (case x of (s, a) \<Rightarrow> do {
     tm \<leftarrow> timers s t;
     let s1 = timer_remove s t;
     s2 \<leftarrow> upd_timer s1 t (\<lambda>tm. if periodic tm then tm else tm\<lparr>activated := False\<rparr>);
     let s3 = s2\<lparr>check_list := t # check_list s2\<rparr>;
     (s4, a') \<leftarrow> cb t (s3, a);
     (if check_list s4 = [] then Some (s4, a')
      else do {
        let s5 = timer_remove s4 t;
        tm' \<leftarrow> timers s5 t;
        (if periodic tm' \<and> activated tm' then do {
           s6 \<leftarrow> upd_timer s5 t (activated_update (\<lambda>_. False));
           s7 \<leftarrow> rt_timer_start s6 t;
           Some (s7, a')
         }
         else Some (s5, a'))
      })
   })"

definition timer_due :: "int \<Rightarrow> int \<Rightarrow> bool" where
  "timer_due current_tick deadline \<longleftrightarrow> u32 (current_tick - deadline) < RT_TICK_MAX div 2"

partial_function (option) rt_timer_check :: "'a timer_cb \<Rightarrow> timer_sys \<times> 'a \<Rightarrow> (timer_sys \<times> 'a) option" where
  "rt_timer_check cb x =
     (case timer_list (fst x) of
        [] \<Rightarrow> Some x
      | t # _ \<Rightarrow>
          (case timers (fst x) t of
             None \<Rightarrow> None
           | Some tm \<Rightarrow>
               if timer_due (rt_tick_get (fst x)) (timeout_tick tm)
               then Option.bind (timer_fire cb t x) (rt_timer_check cb)
               else Some x))"

definition rt_timer_next_timeout_tick :: "timer_sys \<Rightarrow> int option" where
  "rt_timer_next_timeout_tick s = do {
     r \<leftarrow> timer_list_next_timeout s (timer_list s);
     Some (case r of None \<Rightarrow> RT_TICK_MAX | Some v \<Rightarrow> v)
   }"

text \<open>The soft timers: the callback runs with interrupts enabled and the status busy.\<close>

definition soft_timer_fire :: "'a timer_cb \<Rightarrow> tmid \<Rightarrow> timer_sys \<times> 'a \<Rightarrow> (timer_sys \<times> 'a) option" where
  "soft_timer_fire cb t x = (case x of (s, a) \<Rightarrow> do {
     tm \<leftarrow> timers s t;
     let s1 = timer_remove s t;
     s2 \<leftarrow> upd_timer s1 t (\<lambda>tm. if periodic tm then tm else tm\<lparr>activated := False\<rparr>);
     let s3 = s2\<lparr>soft_check_list := t # soft_check_list s2, soft_timer_busy := True\<rparr>;
     (s4, a') \<leftarrow> cb t (s3, a);
     let s5 = s4\<lparr>soft_timer_busy := False\<rparr>;
     (if soft_check_list s5 = [] then Some (s5, a')
      else do {
        let s6 = timer_remove s5 t;
        tm' \<leftarrow> timers s6 t;
        (if periodic tm' \<and> activated tm' then do {
           s7 \<leftarrow> upd_timer s6 t (activated_update (\<lambda>_. False));
           s8 \<leftarrow> rt_timer_start s7 t;
           Some (s8, a')
         }
         else Some (s6, a'))
      })
   })"

partial_function (option) rt_soft_timer_check :: "'a timer_cb \<Rightarrow> timer_sys \<times> 'a \<Rightarrow> (timer_sys \<times> 'a) option" where
  "rt_soft_timer_check cb x =
     (case soft_timer_list (fst x) of
        [] \<Rightarrow> Some x
      | t # _ \<Rightarrow>
          (case timers (fst x) t of
             None \<Rightarrow> None
           | Some tm \<Rightarrow>
               if timer_due (rt_tick_get (fst x)) (timeout_tick tm)
               then Option.bind (soft_timer_fire cb t x) (rt_soft_timer_check cb)
               else Some x))"

declare rt_timer_check.simps [code] rt_soft_timer_check.simps [code]

text \<open>
  One round of \<^verbatim>\<open>_timer_thread_entry\<close> up to its blocking call: suspend when there is no soft
  timer, otherwise the number of ticks to delay, if the next deadline lies ahead.
\<close>

datatype timer_thread_wait = Wait_suspend | Wait_delay int | Wait_none

definition timer_thread_entry_wait :: "timer_sys \<Rightarrow> timer_thread_wait option" where
  "timer_thread_entry_wait s = do {
     r \<leftarrow> timer_list_next_timeout s (soft_timer_list s);
     Some (case r of None \<Rightarrow> Wait_suspend
       | Some next_timeout \<Rightarrow>
           let d = u32 (next_timeout - rt_tick_get s) in
           if d < RT_TICK_MAX div 2 then Wait_delay d else Wait_none)
   }"

definition rt_system_timer_init :: "timer_sys \<Rightarrow> timer_sys" where
  "rt_system_timer_init s = s\<lparr>timer_list := []\<rparr>"

section \<open>Deadlines modulo 2^32\<close>

definition half :: int where "half = 2147483647"

lemma tick_half [simp]: "RT_TICK_MAX div 2 = half"
  by (simp add: RT_TICK_MAX_def half_def)

text \<open>Distances from a base tick: deadlines are ordered when all of them lie in one half range.\<close>

definition rel :: "int \<Rightarrow> int \<Rightarrow> int" where "rel b d = u32 (d - b)"

definition ordered :: "int \<Rightarrow> timer_sys \<Rightarrow> tmid list \<Rightarrow> bool" where
  "ordered b s l \<longleftrightarrow> (\<forall>t \<in> set l. rel b (deadline_of s t) < half) \<and> sorted (map (\<lambda>t. rel b (deadline_of s t)) l)"

lemma rel_nonneg [simp]: "0 \<le> rel b d"
  by (simp add: rel_def)

lemma u32_diff_rel: "u32 (x - y) = u32 (rel b x - rel b y)"
  by (simp add: rel_def u32_def mod_diff_eq)

lemma u32_add_rel: "rel b x + k < 4294967296 \<Longrightarrow> 0 \<le> k \<Longrightarrow> rel b (u32 (x + k)) = rel b x + k"
proof -
  assume k: "rel b x + k < 4294967296" "0 \<le> k"
  have "rel b (u32 (x + k)) = u32 (rel b x + k)"
    by (simp add: rel_def u32_def mod_diff_left_eq mod_add_left_eq) (simp add: algebra_simps)
  also have "\<dots> = rel b x + k" using k by (simp add: c_store)
  finally show ?thesis .
qed

lemma u32_small_diff:
  assumes "0 \<le> x" "x < half" "0 \<le> y" "y < half"
  shows "u32 (x - y) = 0 \<longleftrightarrow> x = y" "u32 (x - y) < half \<longleftrightarrow> y \<le> x"
proof -
  have "u32 (x - y) = (if y \<le> x then x - y else x - y + 4294967296)"
  proof (cases "y \<le> x")
    case True
    then show ?thesis using assms by (simp add: c_store half_def)
  next
    case False
    then have "u32 (x - y) = u32 (x - y + 4294967296)" by (simp add: u32_def)
    also have "\<dots> = x - y + 4294967296" using False assms by (simp add: c_store half_def)
    finally show ?thesis using False by simp
  qed
  then show "u32 (x - y) = 0 \<longleftrightarrow> x = y" "u32 (x - y) < half \<longleftrightarrow> y \<le> x"
    using assms by (auto simp: half_def)
qed

lemma compare_deadlines:
  assumes "rel b x < half" "rel b y < half"
  shows "u32 (x - y) = 0 \<longleftrightarrow> rel b x = rel b y" "u32 (x - y) < half \<longleftrightarrow> rel b y \<le> rel b x"
  using u32_small_diff [of "rel b x" "rel b y"] assms u32_diff_rel [of x y b] by auto

text \<open>On ordered lists the insertion is a stable insertion by deadline.\<close>

lemma timer_insert_eq:
  assumes "\<forall>t \<in> set l. rel b (tt t) < half" "rel b d < half" "sorted (map (\<lambda>t. rel b (tt t)) l)"
  shows "timer_insert tt new d l =
    filter (\<lambda>t. rel b (tt t) \<le> rel b d) l @ new # filter (\<lambda>t. rel b d < rel b (tt t)) l"
  using assms
proof (induction tt new d l rule: timer_insert.induct)
  case (2 tt new d t ts)
  have c: "rel b (tt t) < half" using 2 by simp
  note cmp = compare_deadlines [OF c 2(4)]
  have later: "rel b d < rel b (tt t) \<Longrightarrow> \<forall>x \<in> set ts. rel b d < rel b (tt x)"
    using 2 by fastforce
  consider "rel b (tt t) = rel b d" | "rel b (tt t) < rel b d" | "rel b d < rel b (tt t)" by linarith
  then show ?case
  proof cases
    case 1
    then show ?thesis using 2 cmp by (simp add: Let_def)
  next
    case c2: 2
    then show ?thesis using 2 cmp by (simp add: Let_def)
  next
    case 3
    then have "filter (\<lambda>t. rel b (tt t) \<le> rel b d) ts = []" "filter (\<lambda>t. rel b d < rel b (tt t)) ts = ts"
      using later by (auto simp: filter_empty_conv filter_id_conv)
    then show ?thesis using 3 cmp by (simp add: Let_def)
  qed
qed simp

lemma set_timer_insert [simp]: "set (timer_insert tt new d l) = insert new (set l)"
  by (induction tt new d l rule: timer_insert.induct) (auto simp: Let_def)

lemma distinct_timer_insert [simp]: "distinct (timer_insert tt new d l) \<longleftrightarrow> new \<notin> set l \<and> distinct l"
  by (induction tt new d l rule: timer_insert.induct) (auto simp: Let_def)

lemma timer_insert_cong:
  "(\<And>t. t \<in> set l \<Longrightarrow> tt t = tt' t) \<Longrightarrow> timer_insert tt new d l = timer_insert tt' new d l"
  by (induction tt new d l rule: timer_insert.induct) (simp_all add: Let_def)

lemma ordered_cong:
  "(\<And>t. t \<in> set l \<Longrightarrow> deadline_of s t = deadline_of s' t) \<Longrightarrow> ordered b s l = ordered b s' l"
  by (simp add: ordered_def cong: map_cong)

lemma ordered_remove1: "ordered b s l \<Longrightarrow> ordered b s (remove1 t l)"
  using set_remove1_subset [of t l] by (auto simp: ordered_def sorted_map_remove1)

lemma ordered_insert:
  assumes "ordered b s l" "deadline_of s t = d" "rel b d < half"
  shows "ordered b s (timer_insert (deadline_of s) t d l)"
proof -
  have s: "sorted (map (\<lambda>t. rel b (deadline_of s t)) l)" and h: "\<forall>t \<in> set l. rel b (deadline_of s t) < half"
    using assms(1) by (auto simp: ordered_def)
  have "sorted (map (\<lambda>t. rel b (deadline_of s t)) (timer_insert (deadline_of s) t d l))"
    unfolding timer_insert_eq [OF h assms(3) s]
    using s assms(2) by (auto simp: sorted_append sorted_filter)
  then show ?thesis using h assms by (auto simp: ordered_def)
qed

section \<open>Well-formed timer systems\<close>

definition timer_ok :: "rt_timer \<Rightarrow> bool" where
  "timer_ok tm \<longleftrightarrow> 0 \<le> Timer.init_tick tm \<and> Timer.init_tick tm < half \<and> 0 \<le> timeout_tick tm \<and> timeout_tick tm < 4294967296"

definition listed :: "timer_sys \<Rightarrow> bool \<Rightarrow> tmid list \<Rightarrow> bool" where
  "listed s sft l \<longleftrightarrow> distinct l \<and> (\<forall>t \<in> set l. \<exists>tm. timers s t = Some tm \<and> activated tm \<and> soft tm = sft)"

definition timer_wf :: "timer_sys \<Rightarrow> bool" where
  "timer_wf s \<longleftrightarrow> 0 \<le> tick s \<and> tick s < 4294967296 \<and> (\<forall>t tm. timers s t = Some tm \<longrightarrow> timer_ok tm) \<and>
     listed s False (timer_list s) \<and> listed s True (soft_timer_list s)"

lemma timer_wfD:
  assumes "timer_wf s"
  shows "distinct (timer_list s)" "distinct (soft_timer_list s)"
    "timers s t = Some tm \<Longrightarrow> timer_ok tm"
    "t \<in> set (timer_list s) \<Longrightarrow> timers s t = Some tm \<Longrightarrow> \<not> soft tm \<and> activated tm"
    "t \<in> set (soft_timer_list s) \<Longrightarrow> timers s t = Some tm \<Longrightarrow> soft tm \<and> activated tm"
  using assms by (auto simp: timer_wf_def listed_def)

lemma remove1_notin [simp]: "distinct l \<Longrightarrow> t \<notin> set (remove1 t l)"
  by simp

lemma timer_upd_swap: "tm\<lparr>timeout_tick := d, activated := a\<rparr> = tm\<lparr>activated := a, timeout_tick := d\<rparr>"
  by simp

lemma timer_start_hard:
  assumes wf: "timer_wf s" and t: "timers s t = Some tm" and sft: "\<not> soft tm"
  shows "\<exists>s'. rt_timer_start s t = Some s' \<and> timer_wf s' \<and>
    timers s' = (timers s)(t \<mapsto> tm\<lparr>activated := True, timeout_tick := u32 (tick s + Timer.init_tick tm)\<rparr>) \<and>
    timer_list s' = timer_insert (deadline_of s) t (u32 (tick s + Timer.init_tick tm)) (remove1 t (timer_list s)) \<and>
    soft_timer_list s' = soft_timer_list s \<and> tick s' = tick s \<and>
    check_list s' = remove1 t (check_list s) \<and> soft_check_list s' = remove1 t (soft_check_list s) \<and>
    soft_timer_busy s' = soft_timer_busy s \<and> timer_thread_suspend s' = timer_thread_suspend s"
proof -
  let ?d = "u32 (tick s + Timer.init_tick tm)"
  have ns: "t \<notin> set (soft_timer_list s)" using timer_wfD(5) [OF wf _ t] sft by blast
  let ?l = "timer_insert (deadline_of s) t ?d (remove1 t (timer_list s))"
  have c: "timer_insert (deadline_of u) t ?d (remove1 t (timer_list s)) = ?l"
    if "timers u = (timers s)(t \<mapsto> v)" for u v
    using timer_wfD(1) [OF wf] that by (intro timer_insert_cong) (auto simp: deadline_of_def)
  let ?s = "s\<lparr>check_list := remove1 t (check_list s), soft_check_list := remove1 t (soft_check_list s),
      timer_list := ?l, timers := (timers s)(t \<mapsto> tm\<lparr>activated := True, timeout_tick := ?d\<rparr>)\<rparr>"
  have "rt_timer_start s t = Some ?s"
    using t sft ns c [of "timer_remove s t\<lparr>timers := (timers s)(t \<mapsto> tm\<lparr>activated := False, timeout_tick := ?d\<rparr>)\<rparr>" "tm\<lparr>activated := False, timeout_tick := ?d\<rparr>"]
    unfolding rt_timer_start_def Let_def
    by (simp add: upd_timer_def timer_remove_def rt_tick_get_def remove1_idem timer_upd_swap)
  moreover have "timer_wf ?s"
    using wf t sft ns by (auto simp: timer_wf_def listed_def timer_ok_def)
  ultimately show ?thesis by (intro exI [of _ ?s]) simp
qed

section \<open>Running due timers\<close>

text \<open>A callback that leaves the timers alone; \<open>g\<close> is its effect on the rest of the system.\<close>

definition quiet :: "'a timer_cb \<Rightarrow> (tmid \<Rightarrow> 'a \<Rightarrow> 'a) \<Rightarrow> bool" where
  "quiet cb g \<longleftrightarrow> (\<forall>t s a. cb t (s, a) = Some (s, g t a))"

definition check_inv :: "int \<Rightarrow> timer_sys \<Rightarrow> bool" where
  "check_inv b s \<longleftrightarrow> timer_wf s \<and> ordered b s (timer_list s) \<and> check_list s = [] \<and> rel b (tick s) < half \<and>
     (\<forall>t \<in> set (timer_list s). \<forall>tm. timers s t = Some tm \<and> periodic tm \<longrightarrow>
        0 < Timer.init_tick tm \<and> rel b (tick s) + Timer.init_tick tm < half)"

definition fired :: "int \<Rightarrow> rt_timer \<Rightarrow> rt_timer" where
  "fired now tm = (if periodic tm then tm\<lparr>timeout_tick := u32 (now + Timer.init_tick tm)\<rparr> else tm\<lparr>activated := False\<rparr>)"

lemma check_invD:
  assumes "check_inv b s" "t \<in> set (timer_list s)"
  obtains tm where "timers s t = Some tm" "activated tm" "\<not> soft tm" "rel b (timeout_tick tm) < half"
    "timer_due (tick s) (timeout_tick tm) \<longleftrightarrow> rel b (timeout_tick tm) \<le> rel b (tick s)"
proof -
  obtain tm where tm: "timers s t = Some tm" "activated tm" "\<not> soft tm"
    using assms by (auto simp: check_inv_def timer_wf_def listed_def)
  have h: "rel b (timeout_tick tm) < half" "rel b (tick s) < half"
    using assms tm by (auto simp: check_inv_def ordered_def deadline_of_def)
  then show thesis
    using that tm compare_deadlines [OF h(2,1)] by (simp add: timer_due_def)
qed

lemma deadline_of_upd: "deadline_of (s\<lparr>timers := (timers s)(t \<mapsto> tm)\<rparr>) = (deadline_of s)(t := timeout_tick tm)"
  by (auto simp: deadline_of_def)

lemma fire_periodic:
  assumes wf: "timer_wf s" and l: "timer_list s = t # ts" and ck: "check_list s = []" and tm: "timers s t = Some tm"
    and per: "periodic tm" and q: "quiet cb g"
  shows "\<exists>s7. timer_fire cb t (s, a) = Some (s7, g t a) \<and> timer_wf s7 \<and> tick s7 = tick s \<and>
    timers s7 = (timers s)(t \<mapsto> fired (tick s) tm) \<and>
    timer_list s7 = timer_insert (deadline_of s) t (u32 (tick s + Timer.init_tick tm)) ts \<and> check_list s7 = []"
proof -
  have act: "activated tm" "\<not> soft tm" using timer_wfD(4) [OF wf _ tm] l by auto
  have tts: "t \<notin> set ts" using timer_wfD(1) [OF wf] l by simp
  have ns: "t \<notin> set (soft_timer_list s)" using timer_wfD(5) [OF wf _ tm] act by blast
  have cb: "cb t (x, a) = Some (x, g t a)" for x using q by (simp add: quiet_def)
  let ?tm = "tm\<lparr>activated := False\<rparr>"
  let ?s6 = "(timer_remove s t)\<lparr>check_list := [], soft_check_list := remove1 t (remove1 t (soft_check_list s)),
        timers := (timers s)(t \<mapsto> ?tm)\<rparr>"
  have wf6: "timer_wf ?s6"
    using wf l tm tts ns by (auto simp: timer_wf_def listed_def timer_ok_def timer_remove_def remove1_idem)
  have "rt_timer_start ?s6 t \<bind> (\<lambda>s7. Some (s7, g t a)) = timer_fire cb t (s, a)"
    using tm l ck ns per act tts
    by (simp add: timer_fire_def upd_timer_def timer_remove_def cb remove1_idem)
  moreover obtain s7 where s7: "rt_timer_start ?s6 t = Some s7" "timer_wf s7" "tick s7 = tick s"
      "timers s7 = (timers s)(t \<mapsto> tm\<lparr>activated := True, timeout_tick := u32 (tick s + Timer.init_tick tm)\<rparr>)"
      "timer_list s7 = timer_insert (deadline_of ?s6) t (u32 (tick s + Timer.init_tick tm)) ts"
      "check_list s7 = []"
    using timer_start_hard [OF wf6, of t ?tm] act l tts by (auto simp: timer_remove_def remove1_idem)
  ultimately have run: "timer_fire cb t (s, a) = Some (s7, g t a)" by simp
  have f: "fired (tick s) tm = tm\<lparr>activated := True, timeout_tick := u32 (tick s + Timer.init_tick tm)\<rparr>"
    using per act by (simp add: fired_def)
  have "deadline_of ?s6 = deadline_of s" using tm by (auto simp: deadline_of_def)
  then show ?thesis using s7 run f by auto
qed

lemma fire_quiet:
  assumes inv: "check_inv b s" and l: "timer_list s = t # ts" and tm: "timers s t = Some tm"
    and q: "quiet cb g"
  shows "\<exists>s1. timer_fire cb t (s, a) = Some (s1, g t a) \<and> check_inv b s1 \<and> tick s1 = tick s \<and>
    timers s1 = (timers s)(t \<mapsto> fired (tick s) tm) \<and>
    timer_list s1 = (if periodic tm then timer_insert (deadline_of s) t (u32 (tick s + Timer.init_tick tm)) ts else ts)"
proof -
  have wf: "timer_wf s" and ord: "ordered b s (t # ts)" and ck: "check_list s = []"
    using inv l by (auto simp: check_inv_def)
  have act: "activated tm" "\<not> soft tm" using timer_wfD(4) [OF wf _ tm] l by auto
  have tts: "t \<notin> set ts" using timer_wfD(1) [OF wf] l by simp
  have ns: "t \<notin> set (soft_timer_list s)" using timer_wfD(5) [OF wf _ tm] act by blast
  have cb: "cb t (x, a) = Some (x, g t a)" for x using q by (simp add: quiet_def)
  have ots: "ordered b s ts" using ord by (auto simp: ordered_def)
  show ?thesis
  proof (cases "periodic tm")
    case False
    let ?s = "s\<lparr>timers := (timers s)(t \<mapsto> tm\<lparr>activated := False\<rparr>), timer_list := ts, check_list := [],
        soft_check_list := remove1 t (remove1 t (soft_check_list s))\<rparr>"
    have "timer_fire cb t (s, a) = Some (?s, g t a)"
      using tm l ck ns tts False by (simp add: timer_fire_def upd_timer_def timer_remove_def cb remove1_idem)
    moreover have "timer_wf ?s"
      using wf l tm tts ns by (auto simp: timer_wf_def listed_def timer_ok_def timer_remove_def remove1_idem)
    moreover have "ordered b ?s ts = ordered b s ts"
      using tts by (intro ordered_cong) (auto simp: deadline_of_def)
    ultimately show ?thesis
      using inv l ots tts False
      by (intro exI [of _ ?s]) (auto simp: check_inv_def fired_def timer_remove_def)
  next
    case True
    obtain s7 where run: "timer_fire cb t (s, a) = Some (s7, g t a)" and s7: "timer_wf s7" "tick s7 = tick s"
        "timers s7 = (timers s)(t \<mapsto> fired (tick s) tm)"
        "timer_list s7 = timer_insert (deadline_of s) t (u32 (tick s + Timer.init_tick tm)) ts" "check_list s7 = []"
      using fire_periodic [OF wf l ck tm True q] by blast
    note tl = s7(4)
    have p: "0 < Timer.init_tick tm" "rel b (tick s) + Timer.init_tick tm < half"
      using inv l tm True by (auto simp: check_inv_def)
    have r: "rel b (u32 (tick s + Timer.init_tick tm)) = rel b (tick s) + Timer.init_tick tm"
      using p by (intro u32_add_rel) (auto simp: half_def)
    have d7: "deadline_of s7 = (deadline_of s)(t := u32 (tick s + Timer.init_tick tm))"
      using s7(3) True by (auto simp: deadline_of_def fired_def)
    have "ordered b s7 (timer_list s7)"
    proof -
      have "timer_list s7 = timer_insert (deadline_of s7) t (u32 (tick s + Timer.init_tick tm)) ts"
        unfolding tl using tts by (intro timer_insert_cong) (auto simp: d7)
      moreover have "ordered b s7 ts = ordered b s ts"
        using tts by (intro ordered_cong) (auto simp: d7)
      ultimately show ?thesis using ordered_insert [of b s7 ts t] ots p r d7 by simp
    qed
    then have "check_inv b s7"
      using inv s7 l p tm True unfolding check_inv_def by (auto simp: fired_def)
    then show ?thesis using run s7 True by auto
  qed
qed

lemma takeWhile_sorted_filter:
  "sorted (map f l) \<Longrightarrow> takeWhile (\<lambda>t. f t \<le> c) l = filter (\<lambda>t. f t \<le> c) l" for c :: int
proof (induction l)
  case (Cons a l)
  have "\<not> f a \<le> c \<Longrightarrow> filter (\<lambda>t. f t \<le> c) l = []"
    using Cons.prems by (force simp: filter_empty_conv)
  then show ?case using Cons by simp
qed simp

lemma due_prefix:
  assumes "check_inv b s"
  shows "takeWhile (\<lambda>t. timer_due (tick s) (deadline_of s t)) (timer_list s) =
    filter (\<lambda>t. rel b (deadline_of s t) \<le> rel b (tick s)) (timer_list s)"
proof -
  have "timer_due (tick s) (deadline_of s t) \<longleftrightarrow> rel b (deadline_of s t) \<le> rel b (tick s)"
    if "t \<in> set (timer_list s)" for t
    by (rule check_invD [OF assms that]) (simp add: deadline_of_def)
  then have "takeWhile (\<lambda>t. timer_due (tick s) (deadline_of s t)) (timer_list s) =
      takeWhile (\<lambda>t. rel b (deadline_of s t) \<le> rel b (tick s)) (timer_list s)"
    by (intro takeWhile_cong) auto
  also have "\<dots> = filter (\<lambda>t. rel b (deadline_of s t) \<le> rel b (tick s)) (timer_list s)"
  proof -
    have "sorted (map (\<lambda>t. rel b (deadline_of s t)) (timer_list s))"
      using assms by (simp add: check_inv_def ordered_def)
    then show ?thesis by (rule takeWhile_sorted_filter)
  qed
  finally show ?thesis .
qed

lemma check_stop:
  assumes inv: "check_inv b s" and no: "filter (\<lambda>t. rel b (deadline_of s t) \<le> rel b (tick s)) (timer_list s) = []"
  shows "rt_timer_check cb (s, a) = Some (s, a)"
proof (cases "timer_list s")
  case Nil
  then show ?thesis by (subst rt_timer_check.simps) simp
next
  case (Cons t ts)
  have tin: "t \<in> set (timer_list s)" using Cons by simp
  obtain tm where tm: "timers s t = Some tm"
      "timer_due (tick s) (timeout_tick tm) \<longleftrightarrow> rel b (timeout_tick tm) \<le> rel b (tick s)"
    by (rule check_invD [OF inv tin])
  have "\<not> rel b (timeout_tick tm) \<le> rel b (tick s)"
    using no tin tm(1) by (auto simp: filter_empty_conv deadline_of_def)
  then show ?thesis using Cons tm by (subst rt_timer_check.simps) (simp add: rt_tick_get_def)
qed

definition after_check :: "timer_sys \<Rightarrow> tmid list \<Rightarrow> tmid \<rightharpoonup> rt_timer" where
  "after_check s ts = (\<lambda>t. if t \<in> set ts then map_option (fired (tick s)) (timers s t) else timers s t)"

lemma check_quiet:
  assumes "check_inv b s" "quiet cb g"
    "ds = filter (\<lambda>t. rel b (deadline_of s t) \<le> rel b (tick s)) (timer_list s)"
  shows "\<exists>s'. rt_timer_check cb (s, a) = Some (s', fold g ds a) \<and> check_inv b s' \<and> tick s' = tick s \<and>
    timers s' = after_check s ds \<and>
    set (timer_list s') = {t \<in> set (timer_list s). t \<in> set ds \<longrightarrow> (\<exists>tm. timers s t = Some tm \<and> periodic tm)} \<and>
    filter (\<lambda>t. rel b (deadline_of s' t) \<le> rel b (tick s)) (timer_list s') = []"
  using assms
proof (induction ds arbitrary: s a)
  case Nil
  then have no: "filter (\<lambda>t. rel b (deadline_of s t) \<le> rel b (tick s)) (timer_list s) = []" by simp
  show ?case
    by (rule exI [of _ s]) (simp add: check_stop [OF Nil(1) no] Nil(1) no after_check_def)
next
  case (Cons t ds)
  note inv = Cons.prems(1)
  obtain u ts where l: "timer_list s = u # ts" using Cons.prems(3) by (cases "timer_list s") auto
  have so: "sorted (map (\<lambda>t. rel b (deadline_of s t)) (u # ts))" using inv l by (simp add: check_inv_def ordered_def)
  have ut: "u = t" "rel b (deadline_of s t) \<le> rel b (tick s)" and ds: "ds = filter (\<lambda>t. rel b (deadline_of s t) \<le> rel b (tick s)) ts"
    using Cons.prems(3) l so by (auto simp: Cons_eq_filter_iff split: if_splits)
  have tin: "t \<in> set (timer_list s)" using l ut by simp
  obtain tm where tm: "timers s t = Some tm" "activated tm" "\<not> soft tm"
      "timer_due (tick s) (timeout_tick tm) \<longleftrightarrow> rel b (timeout_tick tm) \<le> rel b (tick s)"
    by (rule check_invD [OF inv tin])
  have due: "timer_due (tick s) (timeout_tick tm)" using tm ut by (simp add: deadline_of_def)
  have tts: "t \<notin> set ts" using inv l ut by (auto simp: check_inv_def timer_wf_def listed_def)
  obtain s1 where s1: "timer_fire cb t (s, a) = Some (s1, g t a)" "check_inv b s1" "tick s1 = tick s"
      "timers s1 = (timers s)(t \<mapsto> fired (tick s) tm)"
      "timer_list s1 = (if periodic tm then timer_insert (deadline_of s) t (u32 (tick s + Timer.init_tick tm)) ts else ts)"
    using fire_quiet [OF inv l [unfolded ut(1)] tm(1) Cons.prems(2)] by auto
  have step: "rt_timer_check cb (s, a) = rt_timer_check cb (s1, g t a)"
    using l ut(1) tm(1) due s1(1) by (subst rt_timer_check.simps) (simp add: rt_tick_get_def)
  have dl: "deadline_of s1 x = deadline_of s x" if "x \<noteq> t" for x using s1(4) that by (simp add: deadline_of_def)
  have later: "periodic tm \<Longrightarrow> \<not> rel b (deadline_of s1 t) \<le> rel b (tick s)"
  proof -
    assume per: "periodic tm"
    then have p: "0 < Timer.init_tick tm" "rel b (tick s) + Timer.init_tick tm < half"
      using inv tin tm by (auto simp: check_inv_def)
    have "rel b (u32 (tick s + Timer.init_tick tm)) = rel b (tick s) + Timer.init_tick tm"
      using p by (intro u32_add_rel) (auto simp: half_def)
    then show ?thesis using s1(4) per p by (simp add: deadline_of_def fired_def)
  qed
  have fl: "filter (\<lambda>x. rel b (deadline_of s1 x) \<le> rel b (tick s1)) (timer_list s1) = ds"
  proof -
    have e: "filter (\<lambda>x. rel b (deadline_of s1 x) \<le> rel b (tick s)) ts = ds"
      unfolding ds
    proof (rule filter_cong [OF refl])
      fix x assume "x \<in> set ts"
      then have "x \<noteq> t" using tts by blast
      then show "(rel b (deadline_of s1 x) \<le> rel b (tick s)) = (rel b (deadline_of s x) \<le> rel b (tick s))"
        using dl by simp
    qed
    show ?thesis
    proof (cases "periodic tm")
      case True
      have "filter P (timer_insert tt t d l) = filter P l" if "\<not> P t" for P tt d l
        using that by (induction tt t d l rule: timer_insert.induct) (auto simp: Let_def)
      then show ?thesis using True later e s1(3,5) by simp
    next
      case False
      then show ?thesis using e s1(3,5) by simp
    qed
  qed
  obtain s' where s': "rt_timer_check cb (s1, g t a) = Some (s', fold g ds (g t a))" "check_inv b s'" "tick s' = tick s1"
      "timers s' = after_check s1 ds"
      "set (timer_list s') = {x \<in> set (timer_list s1). x \<in> set ds \<longrightarrow> (\<exists>tm. timers s1 x = Some tm \<and> periodic tm)}"
      "filter (\<lambda>t. rel b (deadline_of s' t) \<le> rel b (tick s1)) (timer_list s') = []"
    using Cons.IH [OF s1(2) Cons.prems(2) fl [symmetric], of "g t a"] by blast
  have tds: "t \<notin> set ds" using ds tts by auto
  have "timers s' = after_check s (t # ds)"
    using s'(4) s1(3,4) tds tm(1) by (auto simp: after_check_def fun_eq_iff)
  moreover have "set (timer_list s') = {x \<in> set (timer_list s). x \<in> set (t # ds) \<longrightarrow> (\<exists>tm. timers s x = Some tm \<and> periodic tm)}"
    using s'(5) s1(4,5) tds tts l ut(1) tm(1) by (auto simp: fired_def)
  ultimately show ?case using step s' s1(3) by auto
qed

section \<open>Properties\<close>

text \<open>A concrete system near the wrap-around of the tick: one periodic and two one-shot timers.\<close>

definition ex_timers :: timer_sys where
  "ex_timers = \<lparr>tick = 4294967290,
     timers = [UserTimer 0 \<mapsto> \<lparr>activated = True, periodic = True, soft = False, tstatic = True, init_tick = 10, timeout_tick = 4294967290\<rparr>,
               UserTimer 1 \<mapsto> \<lparr>activated = True, periodic = False, soft = False, tstatic = True, init_tick = 20, timeout_tick = 4\<rparr>,
               UserTimer 2 \<mapsto> \<lparr>activated = False, periodic = False, soft = False, tstatic = True, init_tick = 8, timeout_tick = 0\<rparr>],
     timer_list = [UserTimer 0, UserTimer 1], soft_timer_list = [], check_list = [], soft_check_list = [],
     soft_timer_busy = False, timer_thread_suspend = True\<rparr>"

lemma ex_timers_inv: "check_inv 4294967290 ex_timers"
  by (auto simp: check_inv_def ex_timers_def timer_wf_def listed_def timer_ok_def half_def ordered_def rel_def
      deadline_of_def u32_def split: if_splits)

text \<open>Starting a hard timer puts it at its place by deadline, across the wrap-around of the tick.
  If all pending deadlines and the new one lie within half the tick range after some base
  tick, \<^verbatim>\<open>rt_timer_start\<close> never fails, leaves the timer in the list exactly once, behind every
  timer that expires no later and in front of every one that expires later (timers with equal
  deadlines keep the order in which they were started), and the list stays ordered; no other timer changes.\<close>

lemma timer_start_ordered:
  assumes "timer_wf s" "timers s t = Some tm" "\<not> soft tm" "ordered b s (timer_list s)"
    "rel b (tick s + Timer.init_tick tm) < half"
  shows "\<exists>s'. rt_timer_start s t = Some s' \<and> timer_wf s' \<and> ordered b s' (timer_list s') \<and>
    timers s' = (timers s)(t \<mapsto> tm\<lparr>activated := True, timeout_tick := u32 (tick s + Timer.init_tick tm)\<rparr>) \<and>
    soft_timer_list s' = soft_timer_list s \<and>
    timer_list s' =
      filter (\<lambda>x. rel b (deadline_of s x) \<le> rel b (tick s + Timer.init_tick tm)) (remove1 t (timer_list s)) @ t #
      filter (\<lambda>x. rel b (tick s + Timer.init_tick tm) < rel b (deadline_of s x)) (remove1 t (timer_list s))"
proof -
  let ?d = "u32 (tick s + Timer.init_tick tm)" and ?l = "remove1 t (timer_list s)"
  obtain s' where s': "rt_timer_start s t = Some s'" "timer_wf s'"
      "timers s' = (timers s)(t \<mapsto> tm\<lparr>activated := True, timeout_tick := ?d\<rparr>)"
      "timer_list s' = timer_insert (deadline_of s) t ?d ?l" "soft_timer_list s' = soft_timer_list s"
    using timer_start_hard [OF assms(1-3)] by blast
  have ol: "ordered b s ?l" using assms(4) by (rule ordered_remove1)
  have r: "rel b ?d = rel b (tick s + Timer.init_tick tm)" by (simp add: rel_def u32_def mod_diff_left_eq)
  have tl: "t \<notin> set ?l" using timer_wfD(1) [OF assms(1)] by simp
  have dl: "deadline_of s' = (deadline_of s)(t := ?d)" using s'(3) by (auto simp: deadline_of_def)
  have "timer_insert (deadline_of s) t ?d ?l = timer_insert (deadline_of s') t ?d ?l"
    using tl by (intro timer_insert_cong) (auto simp: dl)
  moreover have "ordered b s' ?l = ordered b s ?l" using tl by (intro ordered_cong) (auto simp: dl)
  ultimately have "ordered b s' (timer_list s')"
    using ordered_insert [of b s' ?l t ?d] ol dl r assms(5) s'(4) by simp
  moreover have "timer_list s' = filter (\<lambda>x. rel b (deadline_of s x) \<le> rel b (tick s + Timer.init_tick tm)) ?l @ t #
      filter (\<lambda>x. rel b (tick s + Timer.init_tick tm) < rel b (deadline_of s x)) ?l"
    using timer_insert_eq [of ?l b "deadline_of s" ?d t] ol r assms(5) s'(4) by (simp add: ordered_def)
  ultimately show ?thesis using s' by blast
qed

lemma timer_start_ordered_example:
  "\<exists>s'. rt_timer_start ex_timers (UserTimer 2) = Some s' \<and> timer_list s' = [UserTimer 0, UserTimer 2, UserTimer 1]"
proof -
  have i: "timer_wf ex_timers" "ordered 4294967290 ex_timers (timer_list ex_timers)"
    using ex_timers_inv by (auto simp: check_inv_def)
  show ?thesis
    using timer_start_ordered [OF i(1) _ _ i(2), of "UserTimer 2"]
    by (auto simp: ex_timers_def rel_def u32_def half_def deadline_of_def)
qed

text \<open>C7: A tick runs exactly the timers that are due. Suppose the callbacks return and leave the
  timers alone (\<open>quiet\<close>), the list is ordered with no deadline half the tick range away or more,
  and every periodic timer on it has a period above zero (\<open>check_inv\<close>). Then
  \<^verbatim>\<open>rt_timer_check\<close> returns; it has called the callback of each due timer once, in the order of the
  deadlines, and of no other timer; a periodic timer is pending again one period from now, a one-shot
  timer is off the list and inactive, every other timer is as before, and nothing due is left.
  Without the condition on periods it need not return: \<open>timer_check_zero_period\<close>.\<close>

theorem timer_check_fires_due:
  assumes "check_inv b s" "quiet cb g"
    "ds = takeWhile (\<lambda>t. timer_due (tick s) (deadline_of s t)) (timer_list s)"
  shows "\<exists>s'. rt_timer_check cb (s, a) = Some (s', fold g ds a) \<and> check_inv b s' \<and>
    set ds = {t \<in> set (timer_list s). timer_due (tick s) (deadline_of s t)} \<and>
    timers s' = after_check s ds \<and>
    set (timer_list s') = {t \<in> set (timer_list s). t \<in> set ds \<longrightarrow> (\<exists>tm. timers s t = Some tm \<and> periodic tm)} \<and>
    (\<forall>t \<in> set (timer_list s'). \<not> timer_due (tick s') (deadline_of s' t))"
proof -
  have ds: "ds = filter (\<lambda>t. rel b (deadline_of s t) \<le> rel b (tick s)) (timer_list s)"
    unfolding assms(3) by (rule due_prefix [OF assms(1)])
  obtain s' where s': "rt_timer_check cb (s, a) = Some (s', fold g ds a)" "check_inv b s'" "tick s' = tick s"
      "timers s' = after_check s ds"
      "set (timer_list s') = {t \<in> set (timer_list s). t \<in> set ds \<longrightarrow> (\<exists>tm. timers s t = Some tm \<and> periodic tm)}"
      "filter (\<lambda>t. rel b (deadline_of s' t) \<le> rel b (tick s)) (timer_list s') = []"
    using check_quiet [OF assms(1,2) ds] by blast
  have "\<not> timer_due (tick s') (deadline_of s' t)" if t: "t \<in> set (timer_list s')" for t
    by (rule check_invD [OF s'(2) t]) (use s'(3,6) t in \<open>auto simp: deadline_of_def filter_empty_conv\<close>)
  moreover have "set ds = {t \<in> set (timer_list s). timer_due (tick s) (deadline_of s t)}"
  proof -
    have "timer_due (tick s) (deadline_of s t) \<longleftrightarrow> rel b (deadline_of s t) \<le> rel b (tick s)"
      if "t \<in> set (timer_list s)" for t
      by (rule check_invD [OF assms(1) that]) (simp add: deadline_of_def)
    then show ?thesis unfolding ds by auto
  qed
  ultimately show ?thesis using s' by blast
qed

theorem timer_check_fires_due_witness:
  "\<exists>s'. rt_timer_check (\<lambda>t (s, log). Some (s, log @ [t])) (ex_timers, []) = Some (s', [UserTimer 0]) \<and>
     set (timer_list s') = {UserTimer 0, UserTimer 1}"
proof -
  have q: "quiet (\<lambda>t (s, log). Some (s, log @ [t])) (\<lambda>t log. log @ [t])" by (simp add: quiet_def)
  have d: "[UserTimer 0] = takeWhile (\<lambda>t. timer_due (tick ex_timers) (deadline_of ex_timers t)) (timer_list ex_timers)"
    by (simp add: ex_timers_def timer_due_def deadline_of_def u32_def half_def)
  show ?thesis
    using timer_check_fires_due [OF ex_timers_inv q d, of "[]"] by (auto simp: ex_timers_def)
qed

definition zero_head :: "timer_sys \<Rightarrow> bool" where
  "zero_head s \<longleftrightarrow> timer_wf s \<and> check_list s = [] \<and> (\<exists>t tm. timer_list s = [t] \<and> timers s t = Some tm \<and>
     periodic tm \<and> Timer.init_tick tm = 0 \<and> timeout_tick tm = tick s)"

lemma zero_head_fire:
  assumes z: "zero_head s" and q: "quiet cb g"
  shows "\<exists>t tm s'. timer_list s = [t] \<and> timers s t = Some tm \<and> timer_due (tick s) (timeout_tick tm) \<and>
    timer_fire cb t (s, a) = Some (s', g t a) \<and> zero_head s'"
proof -
  obtain t tm where t: "timer_wf s" "check_list s = []" "timer_list s = [t]" "timers s t = Some tm" "periodic tm"
      "Timer.init_tick tm = 0" "timeout_tick tm = tick s"
    using z by (auto simp: zero_head_def)
  have "0 \<le> tick s" "tick s < 4294967296" using t(1) by (auto simp: timer_wf_def)
  then have u: "u32 (tick s) = tick s" by (simp add: c_store)
  obtain s' where s': "timer_fire cb t (s, a) = Some (s', g t a)" "timer_wf s'" "tick s' = tick s"
      "timers s' = (timers s)(t \<mapsto> fired (tick s) tm)" "timer_list s' = [t]" "check_list s' = []"
    using fire_periodic [OF t(1,3,2,4,5) q] by auto
  have "zero_head s'" using s' t u by (simp add: zero_head_def fired_def)
  moreover have "timer_due (tick s) (timeout_tick tm)" by (simp add: t timer_due_def half_def u32_def)
  ultimately show ?thesis using t s'(1) by auto
qed

lemma zero_head_diverges:
  fixes x y :: "timer_sys \<times> 'a"
  assumes run: "rt_timer_check cb x = Some y" and q: "quiet cb g"
  shows "\<not> zero_head (fst x)"
proof -
  let ?P = "\<lambda>cb (x :: timer_sys \<times> 'a) (y :: timer_sys \<times> 'a). (\<exists>g. quiet cb g) \<longrightarrow> \<not> zero_head (fst x)"
  have "(case (cb, x) of (cb, x) \<Rightarrow> ?P cb x) y"
  proof (rule rt_timer_check.raw_induct [of ?P "(cb, x)" y])
    show "(case (cb, x) of (cb, x) \<Rightarrow> rt_timer_check cb x) = Some y" using run by simp
  next
    fix f cb and x y :: "timer_sys \<times> 'a"
    assume IH: "\<And>cb x y. f cb x = Some y \<Longrightarrow> (\<exists>g. quiet cb g) \<longrightarrow> \<not> zero_head (fst x)"
      and body: "(case timer_list (fst x) of [] \<Rightarrow> Some x
        | t # xs \<Rightarrow> (case timers (fst x) t of None \<Rightarrow> None
           | Some tm \<Rightarrow> if timer_due (rt_tick_get (fst x)) (timeout_tick tm)
               then Option.bind (timer_fire cb t x) (f cb) else Some x)) = Some y"
    show "(\<exists>g. quiet cb g) \<longrightarrow> \<not> zero_head (fst x)"
    proof (intro impI notI, elim exE)
      fix g assume z: "zero_head (fst x)" and q: "quiet cb g"
      obtain t tm s' where t: "timer_list (fst x) = [t]" "timers (fst x) t = Some tm" "timer_due (tick (fst x)) (timeout_tick tm)"
          "timer_fire cb t (fst x, snd x) = Some (s', g t (snd x))" "zero_head s'"
        using zero_head_fire [OF z q] by blast
      then have "f cb (s', g t (snd x)) = Some y" using body by (simp add: rt_tick_get_def)
      from IH [OF this] t(5) q show False by auto
    qed
  qed
  then show ?thesis using q by blast
qed

text \<open>A period of zero hangs the tick interrupt: the functions accept a periodic timer whose
  time is 0, and once such a timer is due at the head of the list, \<^verbatim>\<open>rt_timer_check\<close> runs and restarts it forever.\<close>

lemma timer_check_zero_period:
  assumes "zero_head s" "quiet cb g"
  shows "rt_timer_check cb (s, a) = None"
  using zero_head_diverges [OF _ assms(2), of "(s, a)"] assms(1)
  by (cases "rt_timer_check cb (s, a)") auto

lemma timer_check_zero_period_example:
  "\<exists>s s1. rt_timer_init ex_timers (UserTimer 3) 0 True False = Some s \<and>
     rt_timer_start (s\<lparr>timer_list := []\<rparr>) (UserTimer 3) = Some s1 \<and>
     rt_timer_check (\<lambda>t (s, a). Some (s, a)) (s1, ()) = None"
proof -
  obtain s where s: "rt_timer_init ex_timers (UserTimer 3) 0 True False = Some s" "s = timer_init ex_timers (UserTimer 3) True 0 True False"
    by (simp add: rt_timer_init_def half_def)
  let ?s = "s\<lparr>timer_list := []\<rparr>"
  have wf: "timer_wf ?s" "check_list ?s = []" "tick ?s = 4294967290"
    "timers ?s (UserTimer 3) = Some \<lparr>activated = False, periodic = True, soft = False, tstatic = True, init_tick = 0, timeout_tick = 0\<rparr>"
    using ex_timers_inv unfolding s(2)
    by (auto simp: check_inv_def timer_wf_def listed_def timer_init_def timer_ok_def half_def ex_timers_def)
  obtain s1 where s1: "rt_timer_start ?s (UserTimer 3) = Some s1" "zero_head s1"
    using timer_start_hard [OF wf(1,4)] wf(2,3) by (auto simp: zero_head_def c_store)
  have "quiet (\<lambda>t (s, a). Some (s, a)) (\<lambda>t a. a :: unit)" by (simp add: quiet_def)
  from timer_check_zero_period [OF s1(2) this] show ?thesis using s s1(1) by auto
qed

end
