(* ===== verification/Ffs.thy ===== *)
theory Ffs
  imports Prelude
begin

text \<open>
  Find-first-set, which the scheduler uses to find the highest ready priority: the two
  portable implementations of \<^verbatim>\<open>rt-thread/src/kservice.c\<close> (a table indexed by bytes, and a table
  indexed by the lowest bit modulo 37) and their equivalence with the specification.
\<close>

section \<open>Specification\<close>

text \<open>Bits are numbered from 1; zero has no bit.\<close>

definition ffs :: "int \<Rightarrow> nat" where
  "ffs v = (case find (\<lambda>n. bit v n) [0..<32] of None \<Rightarrow> 0 | Some n \<Rightarrow> Suc n)"

section \<open>The byte table\<close>

definition lowest_bit_bitmap :: "nat list" where
  "lowest_bit_bitmap = [
     0, 0, 1, 0, 2, 0, 1, 0, 3, 0, 1, 0, 2, 0, 1, 0,
     4, 0, 1, 0, 2, 0, 1, 0, 3, 0, 1, 0, 2, 0, 1, 0,
     5, 0, 1, 0, 2, 0, 1, 0, 3, 0, 1, 0, 2, 0, 1, 0,
     4, 0, 1, 0, 2, 0, 1, 0, 3, 0, 1, 0, 2, 0, 1, 0,
     6, 0, 1, 0, 2, 0, 1, 0, 3, 0, 1, 0, 2, 0, 1, 0,
     4, 0, 1, 0, 2, 0, 1, 0, 3, 0, 1, 0, 2, 0, 1, 0,
     5, 0, 1, 0, 2, 0, 1, 0, 3, 0, 1, 0, 2, 0, 1, 0,
     4, 0, 1, 0, 2, 0, 1, 0, 3, 0, 1, 0, 2, 0, 1, 0,
     7, 0, 1, 0, 2, 0, 1, 0, 3, 0, 1, 0, 2, 0, 1, 0,
     4, 0, 1, 0, 2, 0, 1, 0, 3, 0, 1, 0, 2, 0, 1, 0,
     5, 0, 1, 0, 2, 0, 1, 0, 3, 0, 1, 0, 2, 0, 1, 0,
     4, 0, 1, 0, 2, 0, 1, 0, 3, 0, 1, 0, 2, 0, 1, 0,
     6, 0, 1, 0, 2, 0, 1, 0, 3, 0, 1, 0, 2, 0, 1, 0,
     4, 0, 1, 0, 2, 0, 1, 0, 3, 0, 1, 0, 2, 0, 1, 0,
     5, 0, 1, 0, 2, 0, 1, 0, 3, 0, 1, 0, 2, 0, 1, 0,
     4, 0, 1, 0, 2, 0, 1, 0, 3, 0, 1, 0, 2, 0, 1, 0]"

text \<open>The argument is the unsigned value of the 32 bits.\<close>

definition rt_ffs :: "int \<Rightarrow> nat" where
  "rt_ffs v =
     (if v = 0 then 0
      else if v AND 0xff \<noteq> 0 then lowest_bit_bitmap ! nat (v AND 0xff) + 1
      else if v AND 0xff00 \<noteq> 0 then lowest_bit_bitmap ! nat (drop_bit 8 (v AND 0xff00)) + 9
      else if v AND 0xff0000 \<noteq> 0 then lowest_bit_bitmap ! nat (drop_bit 16 (v AND 0xff0000)) + 17
      else lowest_bit_bitmap ! nat (drop_bit 24 (v AND 0xff000000)) + 25)"

section \<open>The table modulo 37\<close>

definition tiny_lowest_bit_bitmap :: "nat list" where
  "tiny_lowest_bit_bitmap = [
     0, 1, 2, 27, 3, 24, 28, 32,
     4, 17, 25, 31, 29, 12, 32, 14,
     5, 8, 18, 32, 26, 23, 32, 16,
     30, 11, 13, 7, 32, 22, 15, 10,
     6, 21, 9, 20, 19]"

definition rt_ffs_tiny :: "int \<Rightarrow> nat" where
  "rt_ffs_tiny v = tiny_lowest_bit_bitmap ! nat (u32 ((v AND u32 (v - 1)) XOR v) mod 37)"

section \<open>Correctness\<close>

lemma ffs_cases:
  assumes "0 \<le> v" "v < 2 ^ 32"
  obtains "v = 0" "ffs v = 0" | n where "n < 32" "bit v n" "\<And>m. m < n \<Longrightarrow> \<not> bit v m" "ffs v = Suc n"
proof (cases "find (\<lambda>n. bit v n) [0..<32]")
  case None
  have "v = 0"
  proof (rule bit_eqI)
    fix n
    have "\<not> bit v n"
    proof (cases "n < 32")
      case True then show ?thesis using None by (auto simp: find_None_iff)
    next
      case False
      have "take_bit 32 v = v" using assms by (simp add: take_bit_int_eq_self)
      then show ?thesis using False by (metis bit_take_bit_iff)
    qed
    then show "bit v n = bit 0 n" by simp
  qed
  moreover have "ffs v = 0" using None by (simp add: ffs_def)
  ultimately show thesis using that(1) by blast
next
  case (Some n)
  then obtain i where "i < 32" "bit v i" "n = i" "\<forall>j<i. \<not> bit v j"
    by (auto simp: find_Some_iff)
  then show thesis using that(2) [of n] Some by (simp add: ffs_def)
qed

lemma ffsI:
  assumes "n < 32" "bit v n" "\<And>m. m < n \<Longrightarrow> \<not> bit v m"
  shows "ffs v = Suc n"
proof -
  have "find (\<lambda>n. bit v n) [0..<32] = Some n"
    using assms by (auto simp: find_Some_iff intro!: exI [of _ n])
  then show ?thesis by (simp add: ffs_def)
qed

lemma byte_table: "0 < b \<Longrightarrow> b < 256 \<Longrightarrow> lowest_bit_bitmap ! nat b + 1 = ffs b"
proof -
  assume b: "0 < b" "b < 256"
  have "list_all (\<lambda>n. lowest_bit_bitmap ! n + 1 = ffs (int n)) [1..<256]" by code_simp
  moreover have "nat b \<in> set [1..<256]" using b by auto
  ultimately have "lowest_bit_bitmap ! nat b + 1 = ffs (int (nat b))"
    unfolding list_all_iff by blast
  then show ?thesis using b by simp
qed

lemma ffs_byte:
  assumes v: "0 \<le> v" "v < 2 ^ 32" and k: "k \<le> 24" and low: "\<And>m. m < k \<Longrightarrow> \<not> bit v m"
    and b: "take_bit 8 (drop_bit k v) \<noteq> 0"
  shows "ffs v = lowest_bit_bitmap ! nat (take_bit 8 (drop_bit k v)) + 1 + k"
proof -
  let ?b = "take_bit 8 (drop_bit k v)"
  have "?b < 2 ^ 8" by (rule take_bit_int_less_exp)
  then have bb: "0 < ?b" "?b < 256" using b by (auto simp: order_less_le)
  have b32: "0 \<le> ?b" "?b < 2 ^ 32" using bb by auto
  obtain n where n: "bit ?b n" "\<And>m. m < n \<Longrightarrow> \<not> bit ?b m" "ffs ?b = Suc n"
    by (rule ffs_cases [OF b32]) (use bb in auto)
  have n8: "n < 8" using n(1) by (simp add: bit_simps)
  have "ffs v = Suc (n + k)"
  proof (rule ffsI)
    show "n + k < 32" using n8 k by simp
    show "bit v (n + k)" using n(1) by (simp add: bit_simps add.commute)
    fix m assume m: "m < n + k"
    show "\<not> bit v m"
    proof (cases "m < k")
      case False
      then have "\<not> bit ?b (m - k)" using n(2) [of "m - k"] m by simp
      then show ?thesis using False m n8 by (simp add: bit_simps)
    qed (rule low)
  qed
  then show ?thesis using byte_table [OF bb] n(3) by simp
qed

lemma and_byte:
  fixes v :: int
  shows "v AND 0xff = take_bit 8 v" "drop_bit 8 (v AND 0xff00) = take_bit 8 (drop_bit 8 v)"
    "drop_bit 16 (v AND 0xff0000) = take_bit 8 (drop_bit 16 v)"
    "drop_bit 24 (v AND 0xff000000) = take_bit 8 (drop_bit 24 v)"
proof -
  have m: "(0xff :: int) = mask 8" by (simp add: mask_eq_exp_minus_1)
  have p: "(0xff00 :: int) = push_bit 8 (mask 8)" "(0xff0000 :: int) = push_bit 16 (mask 8)"
    "(0xff000000 :: int) = push_bit 24 (mask 8)"
    by (simp_all add: mask_eq_exp_minus_1 push_bit_eq_mult)
  show "v AND 0xff = take_bit 8 v" unfolding m by (simp add: take_bit_eq_mask)
  show "drop_bit 8 (v AND 0xff00) = take_bit 8 (drop_bit 8 v)"
    "drop_bit 16 (v AND 0xff0000) = take_bit 8 (drop_bit 16 v)"
    "drop_bit 24 (v AND 0xff000000) = take_bit 8 (drop_bit 24 v)"
    unfolding p by (rule bit_eqI; auto simp: bit_simps)+
qed

lemma byte_zero: "take_bit 8 (drop_bit k v) = (0::int) \<Longrightarrow> k \<le> m \<Longrightarrow> m < k + 8 \<Longrightarrow> \<not> bit v m"
  using bit_take_bit_iff [of 8 "drop_bit k v" "m - k"] by (auto simp: bit_simps)

lemma and_shifted_zero:
  fixes v :: int
  shows "v AND 0xff00 = 0 \<longleftrightarrow> take_bit 8 (drop_bit 8 v) = 0" "v AND 0xff0000 = 0 \<longleftrightarrow> take_bit 8 (drop_bit 16 v) = 0"
proof -
  have p: "(0xff00 :: int) = push_bit 8 (mask 8)" "(0xff0000 :: int) = push_bit 16 (mask 8)"
    by (simp_all add: mask_eq_exp_minus_1 push_bit_eq_mult)
  have e: "v AND push_bit k (mask 8) = push_bit k (take_bit 8 (drop_bit k v))" for k
    by (rule bit_eqI) (auto simp: bit_simps)
  show "v AND 0xff00 = 0 \<longleftrightarrow> take_bit 8 (drop_bit 8 v) = 0" "v AND 0xff0000 = 0 \<longleftrightarrow> take_bit 8 (drop_bit 16 v) = 0"
    unfolding p e by (simp_all add: push_bit_eq_mult)
qed

lemma rt_ffs_eq:
  assumes v: "0 \<le> v" "v < 2 ^ 32"
  shows "rt_ffs v = ffs v"
proof (cases "v = 0")
  case True
  then show ?thesis by (simp add: rt_ffs_def ffs_def find_None_iff split: option.splits)
next
  case False
  let ?b = "\<lambda>k. take_bit 8 (drop_bit k v)"
  have z: "\<And>m. k \<le> m \<Longrightarrow> m < k + 8 \<Longrightarrow> \<not> bit v m" if "?b k = 0" for k
    using byte_zero that by blast
  consider "?b 0 \<noteq> 0" | "?b 0 = 0" "?b 8 \<noteq> 0" | "?b 0 = 0" "?b 8 = 0" "?b 16 \<noteq> 0"
    | "?b 0 = 0" "?b 8 = 0" "?b 16 = 0" by blast
  then show ?thesis
  proof cases
    case 1
    then show ?thesis using ffs_byte [OF v, of 0] False by (simp add: rt_ffs_def and_byte)
  next
    case 2
    have "\<not> bit v m" if "m < 8" for m using z [OF 2(1), of m] that by simp
    then show ?thesis using 2 ffs_byte [OF v, of 8] False by (simp add: rt_ffs_def and_byte and_shifted_zero)
  next
    case 3
    have "\<not> bit v m" if "m < 16" for m using z [OF 3(1), of m] z [OF 3(2), of m] that by force
    then show ?thesis using 3 ffs_byte [OF v, of 16] False by (simp add: rt_ffs_def and_byte and_shifted_zero)
  next
    case 4
    have l: "\<not> bit v m" if "m < 24" for m
      using z [OF 4(1), of m] z [OF 4(2), of m] z [OF 4(3), of m] that by force
    have "?b 24 \<noteq> 0"
    proof
      assume b: "?b 24 = 0"
      have "\<not> bit v m" if "m < 32" for m using l z [OF b, of m] that by force
      then show False using ffs_cases [OF v] False by metis
    qed
    then show ?thesis using 4 l ffs_byte [OF v, of 24] False by (simp add: rt_ffs_def and_byte and_shifted_zero)
  qed
qed

lemma lowest_bit:
  assumes "0 < v" "v < 2 ^ 32" "bit v n" "\<And>m. m < n \<Longrightarrow> \<not> bit v m"
  shows "(v AND u32 (v - 1)) XOR v = 2 ^ n"
proof -
  define q where "q = drop_bit (Suc n) v"
  have v: "v = push_bit (Suc n) q OR push_bit n 1"
    unfolding q_def
  proof (rule bit_eqI)
    fix m
    show "bit v m = bit (push_bit (Suc n) (drop_bit (Suc n) v) OR push_bit n 1) m"
      using assms(3) assms(4) [of m] by (cases m n rule: linorder_cases) (auto simp: bit_simps Suc_le_eq simp del: push_bit_Suc)
  qed
  also have "\<dots> = push_bit (Suc n) q + push_bit n 1"
    by (rule disjunctive_add_eq_or [symmetric]) (rule bit_eqI; auto simp: bit_simps simp del: push_bit_Suc)
  finally have "v - 1 = push_bit (Suc n) q + mask n"
    by (simp add: mask_eq_exp_minus_1 push_bit_eq_mult)
  also have "\<dots> = push_bit (Suc n) q OR mask n"
    by (rule disjunctive_add_eq_or) (rule bit_eqI; auto simp: bit_simps simp del: push_bit_Suc)
  finally have v1: "v - 1 = push_bit (Suc n) q OR mask n" .
  have "u32 (v - 1) = v - 1" using assms(1,2) by (simp add: c_store)
  then have "(v AND u32 (v - 1)) XOR v = push_bit n 1"
    unfolding v1 by (subst (1 2) v) (rule bit_eqI; auto simp: bit_simps simp del: push_bit_Suc)
  then show ?thesis by (simp add: push_bit_eq_mult)
qed

lemma tiny_table: "n < 32 \<Longrightarrow> tiny_lowest_bit_bitmap ! nat (2 ^ n mod 37) = Suc n"
proof -
  assume n: "n < 32"
  have "list_all (\<lambda>n. tiny_lowest_bit_bitmap ! nat (2 ^ n mod 37) = Suc n) [0..<32]" by code_simp
  then show ?thesis using n by (simp add: list_all_iff)
qed

text \<open>C20: The two portable implementations of find-first-set compute the same function: for every
  32-bit value they return the number of the lowest set bit counted from 1, and 0 for 0.\<close>

theorem rt_ffs_correct:
  assumes "0 \<le> v" "v < 2 ^ 32"
  shows "rt_ffs v = ffs v \<and> rt_ffs_tiny v = ffs v \<and> (ffs v = 0 \<longleftrightarrow> v = 0) \<and>
    (\<forall>n. ffs v = Suc n \<longrightarrow> bit v n \<and> (\<forall>m < n. \<not> bit v m))"
proof -
  have "rt_ffs_tiny v = ffs v \<and> (ffs v = 0 \<longleftrightarrow> v = 0) \<and> (\<forall>n. ffs v = Suc n \<longrightarrow> bit v n \<and> (\<forall>m < n. \<not> bit v m))"
  proof (cases rule: ffs_cases [OF assms])
    case 1
    then show ?thesis by (simp add: rt_ffs_tiny_def tiny_lowest_bit_bitmap_def u32_def)
  next
    case (2 n)
    then have nz: "0 < v" using assms by (cases "v = 0") auto
    have "u32 (2 ^ n) = 2 ^ n" using power_strict_increasing [OF 2(1), of "2::int"] by (simp add: c_store)
    then have "rt_ffs_tiny v = Suc n"
      using lowest_bit [OF nz assms(2) 2(2,3)] tiny_table [OF 2(1)] by (simp add: rt_ffs_tiny_def)
    then show ?thesis using 2 nz by auto
  qed
  then show ?thesis using rt_ffs_eq [OF assms] by blast
qed

theorem rt_ffs_correct_witness: "rt_ffs 0x80000000 = 32 \<and> rt_ffs_tiny 0x80000000 = ffs 0x80000000"
proof -
  have "rt_ffs 0x80000000 = 32" by code_simp
  then show ?thesis using rt_ffs_correct [of "0x80000000"] by simp
qed

end
