(* ===== verification/Rtdef.thy ===== *)
theory Rtdef
  imports Timer
begin

text \<open>
  The data of the kernel, after \<^verbatim>\<open>rt-thread/include/rtdef.h\<close>: threads, processors, IPC objects, and the state of
  the kernel as one record. Kernel sections run under the lock of all processors
  (\<^verbatim>\<open>rt_hw_interrupt_disable\<close> is \<^verbatim>\<open>rt_cpus_lock\<close> with \<^verbatim>\<open>RT_USING_SMP\<close>), so each of them is one
  step on this state. Pointers to objects are numbers; a table has no entry for a pointer
  that is not a live object of its type, and using one is a fault.
\<close>

section \<open>Constants\<close>

definition RT_CPUS_NR :: nat where "RT_CPUS_NR = 2"
definition RT_CPU_DETACHED :: nat where "RT_CPU_DETACHED = RT_CPUS_NR"
definition RT_THREAD_PRIORITY_MAX :: nat where "RT_THREAD_PRIORITY_MAX = 32"

definition RT_EOK :: int where "RT_EOK = 0"
definition RT_ERROR :: int where "RT_ERROR = 1"
definition RT_ETIMEOUT :: int where "RT_ETIMEOUT = 2"
definition RT_EFULL :: int where "RT_EFULL = 3"
definition RT_EINVAL :: int where "RT_EINVAL = 10"

definition RT_SEM_VALUE_MAX :: int where "RT_SEM_VALUE_MAX = 65535"
definition RT_MUTEX_HOLD_MAX :: int where "RT_MUTEX_HOLD_MAX = 255"
definition RT_MB_ENTRY_MAX :: int where "RT_MB_ENTRY_MAX = 65535"
definition RT_MQ_ENTRY_MAX :: int where "RT_MQ_ENTRY_MAX = 65535"

lemmas rt_consts [simp] = RT_CPUS_NR_def RT_CPU_DETACHED_def RT_THREAD_PRIORITY_MAX_def

lemmas rt_errs = RT_EOK_def RT_ERROR_def RT_ETIMEOUT_def RT_EFULL_def RT_EINVAL_def

section \<open>Objects\<close>

text \<open>The low bits of \<^verbatim>\<open>stat\<close> (\<^verbatim>\<open>RT_THREAD_STAT_MASK\<close>); the yield bit is a field of its own.\<close>

datatype thread_stat =
  RT_THREAD_INIT | RT_THREAD_READY | RT_THREAD_SUSPEND | RT_THREAD_RUNNING | RT_THREAD_CLOSE

type_synonym tid = nat

text \<open>
  \<^verbatim>\<open>struct rt_thread\<close>. The list node \<^verbatim>\<open>tlist\<close> is represented by the list it is linked in (below),
  \<^verbatim>\<open>taken_object_list\<close> by the mutexes on it; \<^verbatim>\<open>pending_object\<close> is only ever set to a mutex. The
  built-in timer of thread \<open>t\<close> is \<^term>\<open>ThreadTimer t\<close>.
\<close>

record rt_thread =
  stat :: thread_stat
  stat_yield :: bool
  error :: int
  init_priority :: nat
  current_priority :: nat
  number_mask :: int
  bind_cpu :: nat
  oncpu :: nat
  scheduler_lock_nest :: int
  cpus_lock_nest :: int
  critical_lock_nest :: int
  thread_init_tick :: int
  remaining_tick :: int
  taken_object_list :: "nat list"
  pending_object :: "nat option"
  event_set :: int
  event_info :: int
  thread_static :: bool

text \<open>\<^verbatim>\<open>struct rt_cpu\<close>; its \<^verbatim>\<open>priority_table\<close> is among the lists below.\<close>

record rt_cpu =
  current_thread :: "tid option"
  irq_nest :: int
  irq_switch_flag :: bool
  cpu_current_priority :: nat
  priority_group :: int
  cpu_tick :: int

datatype ipc_flag = RT_IPC_FLAG_FIFO | RT_IPC_FLAG_PRIO

record rt_semaphore =
  sem_value :: int
  sem_flag :: ipc_flag
  sem_static :: bool

record rt_mutex =
  ceiling_priority :: nat
  mutex_priority :: nat
  hold :: int
  owner :: "tid option"
  mutex_static :: bool

record rt_event =
  ev_set :: int
  ev_flag :: ipc_flag
  ev_static :: bool

record rt_mailbox =
  mb_msg_pool :: "int list"
  mb_size :: int
  mb_entry :: int
  in_offset :: int
  out_offset :: int
  mb_flag :: ipc_flag
  mb_static :: bool

text \<open>
  \<^verbatim>\<open>struct rt_messagequeue\<close>: the nodes of the message pool are numbered; \<open>mq_next\<close> and \<open>mq_data\<close>
  are the link and the contents of a node.
\<close>

record rt_messagequeue =
  msg_size :: int
  max_msgs :: int
  mq_entry :: int
  mq_next :: "nat \<Rightarrow> nat option"
  mq_data :: "nat \<Rightarrow> byte list"
  msg_queue_head :: "nat option"
  msg_queue_tail :: "nat option"
  msg_queue_free :: "nat option"
  mq_flag :: ipc_flag
  mq_static :: bool

text \<open>
  \<^verbatim>\<open>struct rt_mempool\<close>. The word in front of a block is the link to the next free block, or names the pool
  of a block that is in use.
\<close>

datatype mp_word = NextFree "int option" | InPool nat

record rt_mempool =
  mp_start :: int
  mp_size :: int
  mp_block_size :: int
  mp_block_list :: "int option"
  mp_total_count :: int
  mp_free_count :: int
  mp_static :: bool

text \<open>\<^verbatim>\<open>struct rt_data_queue\<close>: an item is a pointer and a length; \<open>dq_notify\<close> says if there is a callback.\<close>

record rt_data_queue =
  dq_magic :: int
  dq_queue :: "(int \<times> int) list"
  dq_size :: int
  dq_lwm :: int
  dq_get_index :: int
  dq_put_index :: int
  dq_is_empty :: bool
  dq_is_full :: bool
  dq_notify :: bool

text \<open>\<^verbatim>\<open>struct rt_completion\<close> has one flag, \<^verbatim>\<open>RT_COMPLETED\<close> or not.\<close>

section \<open>The kernel state\<close>

text \<open>
  The lists a thread's \<^verbatim>\<open>tlist\<close> node can be linked in: the ready queues
  (\<^verbatim>\<open>rt_thread_priority_table\<close> and the \<^verbatim>\<open>priority_table\<close> of each processor), the waiting lists of
  the IPC objects, memory pools, completions and data queues, and the list of defunct threads.
\<close>

datatype lid =
  ReadyQ nat | CpuReadyQ nat nat | SemQ nat | MutexQ nat | EventQ nat
| MbRecvQ nat | MbSendQ nat | MqRecvQ nat | MqSendQ nat | MemPoolQ nat | CompletionQ nat | DqPushQ nat | DqPopQ nat | DefunctQ

record kernel =
  cpu_id :: nat
  cpus :: "nat \<Rightarrow> rt_cpu"
  ready_priority_group :: int
  threads :: "tid \<rightharpoonup> rt_thread"
  tlists :: "lid \<Rightarrow> tid list"
  ipi_sent :: int
  ktimers :: timer_sys
  sems :: "nat \<rightharpoonup> rt_semaphore"
  mutexes :: "nat \<rightharpoonup> rt_mutex"
  events :: "nat \<rightharpoonup> rt_event"
  mailboxes :: "nat \<rightharpoonup> rt_mailbox"
  msgqueues :: "nat \<rightharpoonup> rt_messagequeue"
  mempools :: "nat \<rightharpoonup> rt_mempool"
  mp_words :: "int \<rightharpoonup> mp_word"
  completions :: "nat \<rightharpoonup> bool"
  dataqueues :: "nat \<rightharpoonup> rt_data_queue"

definition upd_thread :: "kernel \<Rightarrow> tid \<Rightarrow> (rt_thread \<Rightarrow> rt_thread) \<Rightarrow> kernel option" where
  "upd_thread k t f = (case threads k t of None \<Rightarrow> None | Some th \<Rightarrow> Some (k\<lparr>threads := (threads k)(t \<mapsto> f th)\<rparr>))"

definition upd_cpu :: "kernel \<Rightarrow> nat \<Rightarrow> (rt_cpu \<Rightarrow> rt_cpu) \<Rightarrow> kernel" where
  "upd_cpu k c f = k\<lparr>cpus := (cpus k)(c := f (cpus k c))\<rparr>"

text \<open>The intrusive list operations of \<^verbatim>\<open>rtservice.h\<close> on \<^verbatim>\<open>tlist\<close> nodes.\<close>

definition tlist_remove :: "kernel \<Rightarrow> tid \<Rightarrow> kernel" where
  "tlist_remove k t = k\<lparr>tlists := (\<lambda>l. remove1 t (tlists k l))\<rparr>"

definition tlist_insert_after :: "kernel \<Rightarrow> lid \<Rightarrow> tid \<Rightarrow> kernel" where
  "tlist_insert_after k l t = k\<lparr>tlists := (tlists k)(l := t # tlists k l)\<rparr>"

definition tlist_insert_before :: "kernel \<Rightarrow> lid \<Rightarrow> tid \<Rightarrow> kernel" where
  "tlist_insert_before k l t = k\<lparr>tlists := (tlists k)(l := tlists k l @ [t])\<rparr>"

definition rt_cpu_self :: "kernel \<Rightarrow> rt_cpu" where
  "rt_cpu_self k = cpus k (cpu_id k)"

definition rt_thread_self :: "kernel \<Rightarrow> tid option" where
  "rt_thread_self k = current_thread (rt_cpu_self k)"

text \<open>A call that may block: done with a result, or the thread is suspended and another one runs.\<close>

datatype 'r call = Done 'r | Blocked

end
