(* ===== verification/Scheduler.thy ===== *)
theory Scheduler
  imports Rtdef Ffs
begin

text \<open>
  The SMP scheduler of \<^verbatim>\<open>rt-thread/src/scheduler.c\<close> and the processor lock of \<^verbatim>\<open>rt-thread/src/cpu.c\<close>:
  ready queues with their bitmaps, insertion and removal of threads, and the choice of the
  next thread. \<^verbatim>\<open>RT_THREAD_PRIORITY_MAX\<close> is 32, so there is one bitmap per set of queues.
\<close>

section \<open>The processor lock\<close>

text \<open>The spinlock itself is what makes a section atomic; the nesting counters are the state.\<close>

definition rt_cpus_lock :: "kernel \<Rightarrow> kernel option" where
  "rt_cpus_lock k = (case rt_thread_self k of
     None \<Rightarrow> Some k
   | Some t \<Rightarrow> upd_thread k t (\<lambda>th. th\<lparr>
       cpus_lock_nest := u16 (cpus_lock_nest th + 1),
       scheduler_lock_nest := (if cpus_lock_nest th = 0 then u16 (scheduler_lock_nest th + 1)
                               else scheduler_lock_nest th)\<rparr>))"

definition rt_cpus_unlock :: "kernel \<Rightarrow> kernel option" where
  "rt_cpus_unlock k = (case rt_thread_self k of
     None \<Rightarrow> Some k
   | Some t \<Rightarrow> upd_thread k t (\<lambda>th. th\<lparr>
       cpus_lock_nest := u16 (cpus_lock_nest th - 1),
       scheduler_lock_nest := (if u16 (cpus_lock_nest th - 1) = 0 then u16 (scheduler_lock_nest th - 1)
                               else scheduler_lock_nest th)\<rparr>))"

text \<open>
  The switch to another thread: \<^verbatim>\<open>rt_hw_context_switch\<close> ends in \<^verbatim>\<open>rt_cpus_lock_status_restore\<close>,
  which makes the thread current. A thread that was switched out inside \<^verbatim>\<open>rt_schedule\<close> still
  holds its lock counts and gives them back first of all; a new thread has none. The code gives
  back one level as \<^verbatim>\<open>rt_schedule\<close> returns and the others as its callers do; here all are
  given back at the switch.
\<close>

definition rt_cpus_lock_status_restore :: "kernel \<Rightarrow> tid \<Rightarrow> kernel" where
  "rt_cpus_lock_status_restore k t = upd_cpu k (cpu_id k) (current_thread_update (\<lambda>_. Some t))"

definition release_lock_counts :: "rt_thread \<Rightarrow> rt_thread" where
  "release_lock_counts th =
     (if cpus_lock_nest th = 0 then th
      else th\<lparr>cpus_lock_nest := 0, scheduler_lock_nest := u16 (scheduler_lock_nest th - 1)\<rparr>)"

definition context_switch :: "kernel \<Rightarrow> tid \<Rightarrow> kernel option" where
  "context_switch k t = upd_thread (rt_cpus_lock_status_restore k t) t release_lock_counts"

section \<open>Ready queues\<close>

definition get_highest_priority_thread :: "kernel \<Rightarrow> (tid \<times> int) option" where
  "get_highest_priority_thread k =
     (let highest = u32 (int (rt_ffs (ready_priority_group k)) - 1);
          local = u32 (int (rt_ffs (priority_group (rt_cpu_self k))) - 1) in
      if highest < local
      then (case tlists k (ReadyQ (nat highest)) of [] \<Rightarrow> None | t # _ \<Rightarrow> Some (t, highest))
      else (case tlists k (CpuReadyQ (cpu_id k) (nat local)) of [] \<Rightarrow> None | t # _ \<Rightarrow> Some (t, local)))"

definition RT_CPU_MASK :: int where "RT_CPU_MASK = 2 ^ RT_CPUS_NR - 1"

definition rt_schedule_insert_thread :: "kernel \<Rightarrow> tid \<Rightarrow> kernel option" where
  "rt_schedule_insert_thread k t = do {
     th \<leftarrow> threads k t;
     (if oncpu th \<noteq> RT_CPU_DETACHED then upd_thread k t (stat_update (\<lambda>_. RT_THREAD_RUNNING))
      else do {
        k1 \<leftarrow> upd_thread k t (stat_update (\<lambda>_. RT_THREAD_READY));
        (if bind_cpu th = RT_CPUS_NR then do {
           let k2 = k1\<lparr>ready_priority_group := ready_priority_group k1 OR number_mask th\<rparr>;
           let k3 = (if stat_yield th then tlist_insert_before k2 (ReadyQ (current_priority th)) t
                     else tlist_insert_after k2 (ReadyQ (current_priority th)) t);
           Some (k3\<lparr>ipi_sent := ipi_sent k3 OR (RT_CPU_MASK XOR 2 ^ cpu_id k3)\<rparr>)
         }
         else do {
           let k2 = upd_cpu k1 (bind_cpu th) (\<lambda>c. c\<lparr>priority_group := priority_group c OR number_mask th\<rparr>);
           let k3 = (if stat_yield th then tlist_insert_before k2 (CpuReadyQ (bind_cpu th) (current_priority th)) t
                     else tlist_insert_after k2 (CpuReadyQ (bind_cpu th) (current_priority th)) t);
           Some (if cpu_id k3 \<noteq> bind_cpu th then k3\<lparr>ipi_sent := ipi_sent k3 OR 2 ^ bind_cpu th\<rparr> else k3)
         })
      })
   }"

definition rt_schedule_remove_thread :: "kernel \<Rightarrow> tid \<Rightarrow> kernel option" where
  "rt_schedule_remove_thread k t = do {
     th \<leftarrow> threads k t;
     let k1 = tlist_remove k t;
     Some (if bind_cpu th = RT_CPUS_NR then
        (if tlists k1 (ReadyQ (current_priority th)) = []
         then k1\<lparr>ready_priority_group := ready_priority_group k1 AND NOT (number_mask th)\<rparr> else k1)
      else
        (if tlists k1 (CpuReadyQ (bind_cpu th) (current_priority th)) = []
         then upd_cpu k1 (bind_cpu th) (\<lambda>c. c\<lparr>priority_group := priority_group c AND NOT (number_mask th)\<rparr>)
         else k1))
   }"

definition rt_system_scheduler_init :: "kernel \<Rightarrow> kernel" where
  "rt_system_scheduler_init k = k\<lparr>
     tlists := (\<lambda>l. case l of ReadyQ p \<Rightarrow> if p < RT_THREAD_PRIORITY_MAX then [] else tlists k l
                    | CpuReadyQ c p \<Rightarrow> if c < RT_CPUS_NR \<and> p < RT_THREAD_PRIORITY_MAX then [] else tlists k l
                    | _ \<Rightarrow> tlists k l),
     cpus := (\<lambda>c. if c < RT_CPUS_NR then (cpus k c)\<lparr>irq_switch_flag := False,
                    cpu_current_priority := RT_THREAD_PRIORITY_MAX - 1, current_thread := None, priority_group := 0\<rparr>
                  else cpus k c),
     ready_priority_group := 0\<rparr>"

definition rt_system_scheduler_start :: "kernel \<Rightarrow> kernel option" where
  "rt_system_scheduler_start k = do {
     (to, prio) \<leftarrow> get_highest_priority_thread k;
     k1 \<leftarrow> upd_thread k to (oncpu_update (\<lambda>_. cpu_id k));
     k2 \<leftarrow> rt_schedule_remove_thread k1 to;
     k3 \<leftarrow> upd_thread k2 to (\<lambda>th. th\<lparr>stat := RT_THREAD_RUNNING, stat_yield := False\<rparr>);
     Some (rt_cpus_lock_status_restore k3 to)
   }"

section \<open>Scheduling\<close>

text \<open>
  The choice between the current thread and the highest ready one, shared by \<^verbatim>\<open>rt_schedule\<close> and
  \<^verbatim>\<open>rt_scheduler_do_irq_switch\<close>: the thread that goes on, and the state with a preempted current
  thread back in its queue.
\<close>

definition schedule_pick :: "kernel \<Rightarrow> tid \<Rightarrow> (tid \<times> int \<times> kernel) option" where
  "schedule_pick k cur = do {
     (to, prio) \<leftarrow> get_highest_priority_thread k;
     k1 \<leftarrow> upd_thread k cur (oncpu_update (\<lambda>_. RT_CPU_DETACHED));
     th \<leftarrow> threads k1 cur;
     (to', k2) \<leftarrow>
       (if stat th = RT_THREAD_RUNNING then do {
          (to2, k') \<leftarrow>
            (if int (current_priority th) < prio then Some (cur, k1)
             else if int (current_priority th) = prio \<and> \<not> stat_yield th then Some (cur, k1)
             else do { k'' \<leftarrow> rt_schedule_insert_thread k1 cur; Some (to, k'') });
          k'' \<leftarrow> upd_thread k' cur (stat_yield_update (\<lambda>_. False));
          Some (to2, k'')
        }
        else Some (to, k1));
     k3 \<leftarrow> upd_thread k2 to' (oncpu_update (\<lambda>_. cpu_id k));
     Some (to', prio, k3)
   }"

definition rt_schedule :: "kernel \<Rightarrow> kernel option" where
  "rt_schedule k = do {
     k1 \<leftarrow> rt_cpus_lock k;
     (if irq_nest (rt_cpu_self k1) \<noteq> 0
      then rt_cpus_unlock (upd_cpu k1 (cpu_id k1) (irq_switch_flag_update (\<lambda>_. True)))
      else do {
        cur \<leftarrow> rt_thread_self k1;
        th \<leftarrow> threads k1 cur;
        (if scheduler_lock_nest th = 1 \<and>
            (ready_priority_group k1 \<noteq> 0 \<or> priority_group (rt_cpu_self k1) \<noteq> 0) then do {
           (to, prio, k2) \<leftarrow> schedule_pick k1 cur;
           (if to \<noteq> cur then do {
              let k3 = upd_cpu k2 (cpu_id k2) (cpu_current_priority_update (\<lambda>_. nat (u8 prio)));
              k4 \<leftarrow> rt_schedule_remove_thread k3 to;
              k5 \<leftarrow> upd_thread k4 to (stat_update (\<lambda>_. RT_THREAD_RUNNING));
              context_switch k5 to
            }
            else rt_cpus_unlock k2)
         }
         else rt_cpus_unlock k1)
      })
   }"

definition rt_scheduler_ipi_handler :: "kernel \<Rightarrow> kernel option" where
  "rt_scheduler_ipi_handler k = rt_schedule k"

text \<open>
  The switch at the end of an interrupt. The interrupted thread gives back its lock counts
  before it is switched out, so it has none when it goes on.
\<close>

definition rt_scheduler_do_irq_switch :: "kernel \<Rightarrow> kernel option" where
  "rt_scheduler_do_irq_switch k = do {
     k1 \<leftarrow> rt_cpus_lock k;
     (if \<not> irq_switch_flag (rt_cpu_self k1) then rt_cpus_unlock k1
      else do {
        cur \<leftarrow> rt_thread_self k1;
        th \<leftarrow> threads k1 cur;
        (if scheduler_lock_nest th = 1 \<and> irq_nest (rt_cpu_self k1) = 0 then do {
           let k2 = upd_cpu k1 (cpu_id k1) (irq_switch_flag_update (\<lambda>_. False));
           (if ready_priority_group k2 \<noteq> 0 \<or> priority_group (rt_cpu_self k2) \<noteq> 0 then do {
              (to, prio, k3) \<leftarrow> schedule_pick k2 cur;
              (if to \<noteq> cur then do {
                 let k4 = upd_cpu k3 (cpu_id k3) (cpu_current_priority_update (\<lambda>_. nat (u8 prio)));
                 k5 \<leftarrow> rt_schedule_remove_thread k4 to;
                 k6 \<leftarrow> upd_thread k5 to (stat_update (\<lambda>_. RT_THREAD_RUNNING));
                 k7 \<leftarrow> upd_thread k6 cur (\<lambda>th. th\<lparr>cpus_lock_nest := u16 (cpus_lock_nest th - 1),
                         scheduler_lock_nest := u16 (scheduler_lock_nest th - 1)\<rparr>);
                 context_switch k7 to
               }
               else rt_cpus_unlock k3)
            }
            else rt_cpus_unlock k2)
         }
         else rt_cpus_unlock k1)
      })
   }"

section \<open>Critical sections\<close>

definition rt_enter_critical :: "kernel \<Rightarrow> kernel option" where
  "rt_enter_critical k = (case rt_thread_self k of
     None \<Rightarrow> Some k
   | Some t \<Rightarrow> do {
       k1 \<leftarrow> upd_thread k t (\<lambda>th. th\<lparr>
         cpus_lock_nest := u16 (cpus_lock_nest th + 1),
         scheduler_lock_nest := (if cpus_lock_nest th = 0 then u16 (scheduler_lock_nest th + 1)
                                 else scheduler_lock_nest th)\<rparr>);
       k2 \<leftarrow> upd_thread k1 t (\<lambda>th. th\<lparr>critical_lock_nest := u16 (critical_lock_nest th + 1)\<rparr>);
       upd_thread k2 t (\<lambda>th. th\<lparr>scheduler_lock_nest := u16 (scheduler_lock_nest th + 1)\<rparr>)
     })"

text \<open>\<^verbatim>\<open>scheduler_lock_nest\<close> is unsigned: \<^verbatim>\<open><= 0\<close> is \<open>= 0\<close>.\<close>

definition rt_exit_critical :: "kernel \<Rightarrow> kernel option" where
  "rt_exit_critical k = (case rt_thread_self k of
     None \<Rightarrow> Some k
   | Some t \<Rightarrow> do {
       k1 \<leftarrow> upd_thread k t (\<lambda>th. th\<lparr>scheduler_lock_nest := u16 (scheduler_lock_nest th - 1)\<rparr>);
       k2 \<leftarrow> upd_thread k1 t (\<lambda>th. th\<lparr>critical_lock_nest := u16 (critical_lock_nest th - 1)\<rparr>);
       k3 \<leftarrow> upd_thread k2 t (\<lambda>th. th\<lparr>cpus_lock_nest := u16 (cpus_lock_nest th - 1)\<rparr>);
       th3 \<leftarrow> threads k3 t;
       k4 \<leftarrow> (if cpus_lock_nest th3 = 0
              then upd_thread k3 t (\<lambda>th. th\<lparr>scheduler_lock_nest := u16 (scheduler_lock_nest th - 1)\<rparr>)
              else Some k3);
       th4 \<leftarrow> threads k4 t;
       (if scheduler_lock_nest th4 \<le> 0 then do {
          k5 \<leftarrow> upd_thread k4 t (scheduler_lock_nest_update (\<lambda>_. 0));
          rt_schedule k5
        }
        else Some k4)
     })"

definition rt_critical_level :: "kernel \<Rightarrow> int option" where
  "rt_critical_level k = do { t \<leftarrow> rt_thread_self k; th \<leftarrow> threads k t; Some (critical_lock_nest th) }"

text \<open>\<^verbatim>\<open>RT_DEBUG_SCHEDULER_AVAILABLE\<close>, \<^verbatim>\<open>RT_DEBUG_IN_THREAD_CONTEXT\<close> and \<^verbatim>\<open>RT_DEBUG_NOT_IN_INTERRUPT\<close>.\<close>

definition RT_DEBUG_NOT_IN_INTERRUPT :: "kernel \<Rightarrow> unit option" where
  "RT_DEBUG_NOT_IN_INTERRUPT k = RT_ASSERT (irq_nest (rt_cpu_self k) = 0)"

definition RT_DEBUG_IN_THREAD_CONTEXT :: "kernel \<Rightarrow> unit option" where
  "RT_DEBUG_IN_THREAD_CONTEXT k = do {
     RT_ASSERT (rt_thread_self k \<noteq> None);
     RT_DEBUG_NOT_IN_INTERRUPT k
   }"

definition RT_DEBUG_SCHEDULER_AVAILABLE :: "kernel \<Rightarrow> bool \<Rightarrow> unit option" where
  "RT_DEBUG_SCHEDULER_AVAILABLE k need_check =
     (if need_check then do {
        level \<leftarrow> rt_critical_level k;
        RT_ASSERT (level = 0);
        RT_DEBUG_IN_THREAD_CONTEXT k
      } else Some ())"

end
