(* ===== verification/Scheduler_Inv.thy ===== *)
theory Scheduler_Inv
  imports Scheduler
begin

text \<open>
  The invariant of the ready queues, its preservation by the scheduler's operations, and the
  scheduling theorem: the running thread is a highest-priority one.
\<close>

section \<open>Bitmaps\<close>

text \<open>A bitmap mirrors which of the 32 queues are not empty.\<close>

definition group_ok :: "int \<Rightarrow> (nat \<Rightarrow> 'a list) \<Rightarrow> bool" where
  "group_ok g q \<longleftrightarrow> 0 \<le> g \<and> (\<forall>p. bit g p \<longleftrightarrow> p < 32 \<and> q p \<noteq> [])"

lemma group_ok_bound: "group_ok g q \<Longrightarrow> g < 2 ^ 32"
proof -
  assume g: "group_ok g q"
  have "take_bit 32 g = g"
    by (rule bit_eqI) (use g in \<open>auto simp: bit_simps group_ok_def\<close>)
  then show ?thesis by (metis take_bit_int_less_exp)
qed

lemma group_ok_or:
  assumes "group_ok g q" "p < 32" "q' p \<noteq> []" "\<And>r. r \<noteq> p \<Longrightarrow> q' r = q r"
  shows "group_ok (g OR 2 ^ p) q'"
  unfolding group_ok_def
proof (intro conjI allI)
  show "0 \<le> g OR 2 ^ p" using assms(1) by (simp add: group_ok_def)
  fix r
  show "bit (g OR 2 ^ p) r \<longleftrightarrow> r < 32 \<and> q' r \<noteq> []"
    using assms by (cases "r = p") (auto simp: group_ok_def bit_simps)
qed

lemma group_ok_and_not:
  assumes "group_ok g q" "q' p = []" "\<And>r. r \<noteq> p \<Longrightarrow> q' r = q r"
  shows "group_ok (g AND NOT (2 ^ p)) q'"
  unfolding group_ok_def
proof (intro conjI allI)
  show "0 \<le> g AND NOT (2 ^ p)" using assms(1) by (simp add: group_ok_def)
  fix r
  show "bit (g AND NOT (2 ^ p)) r \<longleftrightarrow> r < 32 \<and> q' r \<noteq> []"
    using assms by (cases "r = p") (auto simp: group_ok_def bit_simps)
qed

lemma group_ok_cong:
  assumes "group_ok g q" "\<And>p. q' p = [] \<longleftrightarrow> q p = []"
  shows "group_ok g q'"
  using assms by (simp add: group_ok_def)

text \<open>A list that gains an element, and one that may have become empty: \<open>b\<close> says whether the list is one of the bitmap's.\<close>

lemma group_ok_add:
  assumes "group_ok g q" "p < 32" "\<And>r. q' r = (if b \<and> r = p then xs else q r)" "xs \<noteq> []"
  shows "group_ok (if b then g OR 2 ^ p else g) q'"
proof (cases b)
  case True
  then show ?thesis using group_ok_or [OF assms(1,2), of q'] assms(3,4) by simp
next
  case False
  then have "q' = q" using assms(3) by auto
  then show ?thesis using False assms(1) by simp
qed

lemma group_ok_drop:
  assumes g: "group_ok g q" and q: "\<And>r. \<not> b \<or> r \<noteq> p \<Longrightarrow> q' r = q r" "q p = [] \<Longrightarrow> q' p = []"
    and n: "n = 2 ^ p \<or> n = 0 \<and> (b \<longrightarrow> q' p = q p)"
  shows "group_ok (if b \<and> q' p = [] then g AND NOT n else g) q'"
proof (cases "b \<and> q' p = [] \<and> n = 2 ^ p")
  case True
  then show ?thesis using group_ok_and_not [OF g, of q' p] q(1) by simp
next
  case False
  have "q' r = [] \<longleftrightarrow> q r = []" for r
    using False q n by (cases "b \<and> r = p") auto
  from group_ok_cong [OF g this] show ?thesis using False n by auto
qed

text \<open>The highest priority a bitmap announces.\<close>

lemma group_highest:
  assumes "group_ok g q"
  shows "(g = 0 \<and> u32 (int (rt_ffs g) - 1) = 4294967295 \<and> (\<forall>p < 32. q p = [])) \<or>
    (\<exists>p. g \<noteq> 0 \<and> p < 32 \<and> u32 (int (rt_ffs g) - 1) = int p \<and> q p \<noteq> [] \<and> (\<forall>r < p. q r = []))"
proof -
  have g: "0 \<le> g" "g < 2 ^ 32" using assms group_ok_bound by (auto simp: group_ok_def)
  have e: "rt_ffs g = ffs g" by (rule rt_ffs_eq [OF g])
  from g show ?thesis
  proof (cases rule: ffs_cases)
    case 1
    then have "q p = []" if "p < 32" for p using assms that by (auto simp: group_ok_def)
    then show ?thesis using 1 e by (simp add: u32_def)
  next
    case (2 n)
    have "g \<noteq> 0" using 2(2) by auto
    moreover have "q n \<noteq> []" using 2(2) assms by (simp add: group_ok_def)
    moreover have "q r = []" if "r < n" for r using 2(1,3) that assms by (auto simp: group_ok_def)
    ultimately show ?thesis using 2 e by (auto simp: c_store)
  qed
qed

section \<open>The invariant\<close>

definition readyq :: "rt_thread \<Rightarrow> lid" where
  "readyq th = (if bind_cpu th = RT_CPUS_NR then ReadyQ (current_priority th)
                else CpuReadyQ (bind_cpu th) (current_priority th))"

fun is_readyq :: "lid \<Rightarrow> bool" where
  "is_readyq (ReadyQ p) = True"
| "is_readyq (CpuReadyQ c p) = True"
| "is_readyq _ = False"

definition lid_stat :: "lid \<Rightarrow> thread_stat" where
  "lid_stat l = (if is_readyq l then RT_THREAD_READY else if l = DefunctQ then RT_THREAD_CLOSE else RT_THREAD_SUSPEND)"

lemma is_readyq_readyq [simp]: "is_readyq (readyq th)"
  by (simp add: readyq_def)

lemma lid_stat_readyq [simp]: "lid_stat (readyq th) = RT_THREAD_READY"
  by (simp add: lid_stat_def)

definition thread_wf :: "rt_thread \<Rightarrow> bool" where
  "thread_wf th \<longleftrightarrow> current_priority th < 32 \<and> init_priority th < 32 \<and> bind_cpu th \<le> 2 \<and> oncpu th \<le> 2 \<and>
     (number_mask th = 2 ^ current_priority th \<or> number_mask th = 0 \<and> stat th = RT_THREAD_INIT)"

text \<open>
  \<open>sched_ok X k\<close>: queues, bitmaps and thread states agree; the threads of \<open>X\<close> are in transition: they
  are in no list and their state is free.
\<close>

definition sched_ok :: "tid set \<Rightarrow> kernel \<Rightarrow> bool" where
  "sched_ok X k \<longleftrightarrow> cpu_id k < 2 \<and>
     group_ok (ready_priority_group k) (\<lambda>p. tlists k (ReadyQ p)) \<and>
     (\<forall>c < 2. group_ok (priority_group (cpus k c)) (\<lambda>p. tlists k (CpuReadyQ c p))) \<and>
     (\<forall>l. distinct (tlists k l)) \<and>
     (\<forall>l l' t. t \<in> set (tlists k l) \<longrightarrow> t \<in> set (tlists k l') \<longrightarrow> l = l') \<and>
     (\<forall>l t. t \<in> set (tlists k l) \<longrightarrow> t \<notin> X \<and>
        (\<exists>th. threads k t = Some th \<and> stat th = lid_stat l \<and> (is_readyq l \<longrightarrow> l = readyq th))) \<and>
     (\<forall>t th. threads k t = Some th \<longrightarrow> thread_wf th \<and>
        (t \<notin> X \<and> stat th = RT_THREAD_READY \<longrightarrow> t \<in> set (tlists k (readyq th))))"

text \<open>Which thread runs where.\<close>

definition cpu_ok :: "kernel \<Rightarrow> bool" where
  "cpu_ok k \<longleftrightarrow> (\<forall>c < 2. \<forall>t. current_thread (cpus k c) = Some t \<longleftrightarrow> (\<exists>th. threads k t = Some th \<and> oncpu th = c)) \<and>
     (\<forall>t th. threads k t = Some th \<and> stat th = RT_THREAD_READY \<longrightarrow> oncpu th = 2)"

lemma sched_okD:
  assumes "sched_ok X k"
  shows "cpu_id k < 2" "group_ok (ready_priority_group k) (\<lambda>p. tlists k (ReadyQ p))"
    "c < 2 \<Longrightarrow> group_ok (priority_group (cpus k c)) (\<lambda>p. tlists k (CpuReadyQ c p))"
    "distinct (tlists k l)"
    "t \<in> set (tlists k l) \<Longrightarrow> t \<in> set (tlists k l') \<Longrightarrow> l = l'"
    "t \<in> set (tlists k l) \<Longrightarrow> t \<notin> X"
    "t \<in> set (tlists k l) \<Longrightarrow> \<exists>th. threads k t = Some th \<and> stat th = lid_stat l \<and> (is_readyq l \<longrightarrow> l = readyq th)"
    "threads k t = Some th \<Longrightarrow> thread_wf th"
    "threads k t = Some th \<Longrightarrow> stat th = RT_THREAD_READY \<Longrightarrow> t \<notin> X \<Longrightarrow> t \<in> set (tlists k (readyq th))"
  using assms unfolding sched_ok_def by blast+

lemma sched_ok_cong:
  assumes "sched_ok X k" "cpu_id k' = cpu_id k" "ready_priority_group k' = ready_priority_group k"
    "\<And>c. priority_group (cpus k' c) = priority_group (cpus k c)" "threads k' = threads k" "tlists k' = tlists k"
  shows "sched_ok X k'"
  using assms unfolding sched_ok_def by simp

text \<open>A thread in transition may change freely; any thread may change what the queues do not depend on.\<close>

lemma sched_ok_upd_exempt:
  assumes "sched_ok X k" "t \<in> X" "thread_wf th'"
  shows "sched_ok X (k\<lparr>threads := (threads k)(t \<mapsto> th')\<rparr>)"
proof -
  have "t \<notin> set (tlists k l)" for l using sched_okD(6) [OF assms(1)] assms(2) by blast
  then show ?thesis using assms unfolding sched_ok_def by auto
qed

definition same_sched :: "rt_thread \<Rightarrow> rt_thread \<Rightarrow> bool" where
  "same_sched th th' \<longleftrightarrow> stat th' = stat th \<and> current_priority th' = current_priority th \<and> bind_cpu th' = bind_cpu th \<and>
     oncpu th' \<le> 2 \<and> number_mask th' = number_mask th \<and> init_priority th' = init_priority th"

lemma sched_ok_upd_same:
  assumes ok: "sched_ok X k" and t: "threads k t = Some th" and s: "same_sched th th'"
  shows "sched_ok X (k\<lparr>threads := (threads k)(t \<mapsto> th')\<rparr>)"
proof -
  have r: "readyq th' = readyq th" "thread_wf th'" "stat th' = stat th"
    using s sched_okD(8) [OF ok t] by (auto simp: same_sched_def readyq_def thread_wf_def)
  show ?thesis unfolding sched_ok_def
  proof (intro conjI allI impI)
    fix l u assume u: "u \<in> set (tlists (k\<lparr>threads := (threads k)(t \<mapsto> th')\<rparr>) l)"
    then have u': "u \<in> set (tlists k l)" by simp
    show "u \<notin> X" using sched_okD(6) [OF ok u'] .
    show "\<exists>th. threads (k\<lparr>threads := (threads k)(t \<mapsto> th')\<rparr>) u = Some th \<and> stat th = lid_stat l \<and> (is_readyq l \<longrightarrow> l = readyq th)"
      using sched_okD(7) [OF ok u'] t r by (cases "u = t") auto
  next
    fix u uh assume "threads (k\<lparr>threads := (threads k)(t \<mapsto> th')\<rparr>) u = Some uh"
    then have u: "(if u = t then uh = th' else threads k u = Some uh)" by (simp split: if_splits)
    show "thread_wf uh" using sched_okD(8) [OF ok] t r u by (cases "u = t") auto
    assume "u \<notin> X \<and> stat uh = RT_THREAD_READY"
    then show "u \<in> set (tlists (k\<lparr>threads := (threads k)(t \<mapsto> th')\<rparr>) (readyq uh))"
      using sched_okD(9) [OF ok] t r u by (cases "u = t") auto
  qed (use ok in \<open>auto simp: sched_ok_def\<close>)
qed

lemma sched_ok_settle:
  assumes "sched_ok X k" "threads k t = Some th" "stat th \<noteq> RT_THREAD_READY"
  shows "sched_ok (X - {t}) k"
  using assms unfolding sched_ok_def by auto

lemma sched_ok_exempt:
  assumes "sched_ok X k" "\<And>l. t \<notin> set (tlists k l)"
  shows "sched_ok (insert t X) k"
  using assms unfolding sched_ok_def by auto

section \<open>Insertion and removal\<close>

lemma remove1_nil: "t \<notin> set l \<Longrightarrow> remove1 t l = [] \<longleftrightarrow> l = []"
  by (simp add: remove1_idem)

lemma remove_list_ok:
  assumes ok: "sched_ok X k" and th: "threads k t = Some th" and ne: "l \<noteq> readyq th" "is_readyq l"
  shows "remove1 t (tlists k l) = tlists k l"
proof -
  have "t \<notin> set (tlists k l)" using sched_okD(7) [OF ok, of t l] th ne by auto
  then show ?thesis by (simp add: remove1_idem)
qed

lemma removed_ok:
  assumes ok: "sched_ok X k" and th: "threads k t = Some th"
    and f: "tlists k' = (\<lambda>l. remove1 t (tlists k l))" "threads k' = threads k" "cpu_id k' = cpu_id k"
    and g: "ready_priority_group k' = (if bind_cpu th = 2 \<and> tlists k' (ReadyQ (current_priority th)) = []
          then ready_priority_group k AND NOT (number_mask th) else ready_priority_group k)"
      "\<And>c. c < 2 \<Longrightarrow> priority_group (cpus k' c) = (if bind_cpu th = c \<and> tlists k' (CpuReadyQ c (current_priority th)) = []
          then priority_group (cpus k c) AND NOT (number_mask th) else priority_group (cpus k c))"
  shows "sched_ok (insert t X) k'"
  unfolding sched_ok_def f(2)
proof (intro conjI allI impI)
  have keep: "tlists k' l = tlists k l" if "l \<noteq> readyq th" "is_readyq l" for l
    using remove_list_ok [OF ok th that] by (simp add: f(1))
  have "t \<notin> set (tlists k (readyq th))" if "stat th = RT_THREAD_INIT"
    using sched_okD(7) [OF ok, of t "readyq th"] th that by auto
  then have "stat th = RT_THREAD_INIT \<Longrightarrow> tlists k' (readyq th) = tlists k (readyq th)" by (simp add: f(1) remove1_idem)
  then have n: "number_mask th = 2 ^ current_priority th \<or> number_mask th = 0 \<and> tlists k' (readyq th) = tlists k (readyq th)"
    using sched_okD(8) [OF ok th] by (auto simp: thread_wf_def)
  have sq: "u \<in> set (tlists k' l) \<longleftrightarrow> u \<in> set (tlists k l) \<and> u \<noteq> t" for u l
    using sched_okD(4) [OF ok, of l] by (auto simp: f(1))
  show "cpu_id k' < 2" using sched_okD(1) [OF ok] f(3) by simp
  show "group_ok (ready_priority_group k') (\<lambda>p. tlists k' (ReadyQ p))"
    unfolding g(1) by (rule group_ok_drop [OF sched_okD(2) [OF ok]]) (use keep n in \<open>auto simp: readyq_def f(1)\<close>)
  show "group_ok (priority_group (cpus k' c)) (\<lambda>p. tlists k' (CpuReadyQ c p))" if c: "c < 2" for c
    unfolding g(2) [OF c] by (rule group_ok_drop [OF sched_okD(3) [OF ok c]]) (use keep n c in \<open>auto simp: readyq_def f(1)\<close>)
  show "distinct (tlists k' l)" for l using sched_okD(4) [OF ok] by (simp add: f(1))
  show "u \<in> set (tlists k' l) \<Longrightarrow> u \<in> set (tlists k' l') \<Longrightarrow> l = l'" for l l' u using sched_okD(5) [OF ok] sq by blast
  show "u \<in> set (tlists k' l) \<Longrightarrow> u \<notin> insert t X" for l u using sched_okD(6) [OF ok] sq by blast
  show "u \<in> set (tlists k' l) \<Longrightarrow> \<exists>th. threads k u = Some th \<and> stat th = lid_stat l \<and> (is_readyq l \<longrightarrow> l = readyq th)" for l u
    using sched_okD(7) [OF ok] sq by blast
  show "threads k u = Some uh \<Longrightarrow> thread_wf uh" for u uh using sched_okD(8) [OF ok] .
  show "threads k u = Some uh \<Longrightarrow> u \<notin> insert t X \<and> stat uh = RT_THREAD_READY \<Longrightarrow> u \<in> set (tlists k' (readyq uh))" for u uh
    using sched_okD(9) [OF ok] sq by blast
qed

lemma remove_ok:
  assumes ok: "sched_ok X k" and th: "threads k t = Some th"
  shows "\<exists>k'. rt_schedule_remove_thread k t = Some k' \<and> sched_ok (insert t X) k' \<and> threads k' = threads k \<and>
    tlists k' = (\<lambda>l. remove1 t (tlists k l)) \<and> cpu_id k' = cpu_id k \<and> ktimers k' = ktimers k \<and>
    ipi_sent k' = ipi_sent k \<and> (\<forall>c. current_thread (cpus k' c) = current_thread (cpus k c) \<and> irq_nest (cpus k' c) = irq_nest (cpus k c))"
proof -
  let ?q = "\<lambda>l. remove1 t (tlists k l)"
  define k' where "k' = (if bind_cpu th = 2 then
        (if ?q (ReadyQ (current_priority th)) = []
         then k\<lparr>tlists := ?q, ready_priority_group := ready_priority_group k AND NOT (number_mask th)\<rparr> else k\<lparr>tlists := ?q\<rparr>)
      else
        (if ?q (CpuReadyQ (bind_cpu th) (current_priority th)) = []
         then upd_cpu (k\<lparr>tlists := ?q\<rparr>) (bind_cpu th) (\<lambda>c. c\<lparr>priority_group := priority_group c AND NOT (number_mask th)\<rparr>)
         else k\<lparr>tlists := ?q\<rparr>))"
  have run: "rt_schedule_remove_thread k t = Some k'"
    using th by (simp add: rt_schedule_remove_thread_def tlist_remove_def k'_def)
  have f: "tlists k' = ?q" "threads k' = threads k" "cpu_id k' = cpu_id k"
    and f': "ktimers k' = ktimers k" "ipi_sent k' = ipi_sent k"
    "current_thread (cpus k' c) = current_thread (cpus k c)" "irq_nest (cpus k' c) = irq_nest (cpus k c)" for c
    by (auto simp: k'_def upd_cpu_def)
  have "sched_ok (insert t X) k'" by (rule removed_ok [OF ok th f]) (auto simp: k'_def upd_cpu_def)
  then show ?thesis using run f f' by auto
qed

lemma inserted_ok:
  assumes ok: "sched_ok X k" and X: "t \<in> X" and th: "threads k t = Some th" and nm: "number_mask th = 2 ^ current_priority th"
    and xs: "distinct xs" "set xs = insert t (set (tlists k (readyq th)))"
    and f: "tlists k' = (tlists k)(readyq th := xs)" "threads k' = (threads k)(t \<mapsto> th\<lparr>stat := RT_THREAD_READY\<rparr>)" "cpu_id k' = cpu_id k"
    and g: "ready_priority_group k' = (if bind_cpu th = 2 then ready_priority_group k OR 2 ^ current_priority th else ready_priority_group k)"
      "\<And>c. priority_group (cpus k' c) = (if bind_cpu th \<noteq> 2 \<and> c = bind_cpu th then priority_group (cpus k c) OR 2 ^ current_priority th
          else priority_group (cpus k c))"
  shows "sched_ok (X - {t}) k'"
  unfolding sched_ok_def
proof (intro conjI allI impI)
  have tn: "t \<notin> set (tlists k l)" for l using sched_okD(6) [OF ok] X by blast
  have rq: "readyq (th\<lparr>stat := RT_THREAD_READY\<rparr>) = readyq th" by (simp add: readyq_def)
  have sq: "u \<in> set (tlists k' l) \<longleftrightarrow> u \<in> set (tlists k l) \<or> (u = t \<and> l = readyq th)" for u l
    using xs(2) by (auto simp: f(1))
  have wf: "thread_wf th" by (rule sched_okD(8) [OF ok th])
  have p: "current_priority th < 32" "xs \<noteq> []" using wf xs(2) by (auto simp: thread_wf_def)
  show "cpu_id k' < 2" using sched_okD(1) [OF ok] f(3) by simp
  show "group_ok (ready_priority_group k') (\<lambda>p. tlists k' (ReadyQ p))"
    unfolding g(1) by (rule group_ok_add [OF sched_okD(2) [OF ok] p(1) _ p(2)]) (simp add: f(1) readyq_def)
  show "group_ok (priority_group (cpus k' c)) (\<lambda>p. tlists k' (CpuReadyQ c p))" if c: "c < 2" for c
    unfolding g(2) using c by (intro group_ok_add [OF sched_okD(3) [OF ok c] p(1) _ p(2)]) (auto simp: f(1) readyq_def)
  show "distinct (tlists k' l)" for l using sched_okD(4) [OF ok] xs(1) by (simp add: f(1))
  show "u \<in> set (tlists k' l) \<Longrightarrow> u \<in> set (tlists k' l') \<Longrightarrow> l = l'" for l l' u using sched_okD(5) [OF ok] sq tn by metis
  show "u \<in> set (tlists k' l) \<Longrightarrow> u \<notin> X - {t}" for l u using sched_okD(6) [OF ok] sq by blast
  show "\<exists>th. threads k' u = Some th \<and> stat th = lid_stat l \<and> (is_readyq l \<longrightarrow> l = readyq th)" if u: "u \<in> set (tlists k' l)" for l u
    using sched_okD(7) [OF ok, of u l] u sq tn by (cases "u = t") (auto simp: f(2) rq)
  show "threads k' u = Some uh \<Longrightarrow> thread_wf uh" for u uh
    using sched_okD(8) [OF ok] wf nm by (auto simp: f(2) thread_wf_def split: if_splits)
  show "u \<in> set (tlists k' (readyq uh))" if "threads k' u = Some uh" "u \<notin> X - {t} \<and> stat uh = RT_THREAD_READY" for u uh
    using that sched_okD(9) [OF ok, of u uh] sq by (cases "u = t") (auto simp: f(2) rq)
qed

lemma insert_ok:
  assumes ok: "sched_ok X k" and X: "t \<in> X" and th: "threads k t = Some th" and nm: "number_mask th = 2 ^ current_priority th"
  shows "\<exists>k'. rt_schedule_insert_thread k t = Some k' \<and> sched_ok (X - {t}) k' \<and>
    threads k' = (threads k)(t \<mapsto> th\<lparr>stat := (if oncpu th = 2 then RT_THREAD_READY else RT_THREAD_RUNNING)\<rparr>) \<and>
    tlists k' = (if oncpu th = 2 then (tlists k)(readyq th := (if stat_yield th then tlists k (readyq th) @ [t] else t # tlists k (readyq th)))
                 else tlists k) \<and>
    cpu_id k' = cpu_id k \<and> ktimers k' = ktimers k \<and>
    (\<forall>c. current_thread (cpus k' c) = current_thread (cpus k c) \<and> irq_nest (cpus k' c) = irq_nest (cpus k c))"
proof (cases "oncpu th = 2")
  case False
  let ?th = "th\<lparr>stat := RT_THREAD_RUNNING\<rparr>"
  have wf: "thread_wf ?th" using sched_okD(8) [OF ok th] nm by (auto simp: thread_wf_def)
  have run: "rt_schedule_insert_thread k t = Some (k\<lparr>threads := (threads k)(t \<mapsto> ?th)\<rparr>)"
    using False th by (simp add: rt_schedule_insert_thread_def upd_thread_def)
  have "sched_ok X (k\<lparr>threads := (threads k)(t \<mapsto> ?th)\<rparr>)" by (rule sched_ok_upd_exempt [OF ok X wf])
  then have "sched_ok (X - {t}) (k\<lparr>threads := (threads k)(t \<mapsto> ?th)\<rparr>)"
    by (rule sched_ok_settle [where th = ?th]) simp_all
  then show ?thesis using run False by simp
next
  case True
  define xs where "xs = (if stat_yield th then tlists k (readyq th) @ [t] else t # tlists k (readyq th))"
  define k' where "k' = the (rt_schedule_insert_thread k t)"
  have run: "rt_schedule_insert_thread k t = Some k'"
    and f: "tlists k' = (tlists k)(readyq th := xs)" "threads k' = (threads k)(t \<mapsto> th\<lparr>stat := RT_THREAD_READY\<rparr>)" "cpu_id k' = cpu_id k"
    and f': "ktimers k' = ktimers k"
      "\<And>c. current_thread (cpus k' c) = current_thread (cpus k c)" "\<And>c. irq_nest (cpus k' c) = irq_nest (cpus k c)"
    and g: "ready_priority_group k' = (if bind_cpu th = 2 then ready_priority_group k OR 2 ^ current_priority th else ready_priority_group k)"
      "\<And>c. priority_group (cpus k' c) = (if bind_cpu th \<noteq> 2 \<and> c = bind_cpu th then priority_group (cpus k c) OR 2 ^ current_priority th
          else priority_group (cpus k c))"
    using True th nm unfolding k'_def
    by (cases "bind_cpu th = 2"; cases "stat_yield th";
        simp add: rt_schedule_insert_thread_def upd_thread_def upd_cpu_def tlist_insert_before_def
        tlist_insert_after_def xs_def readyq_def Let_def)+
  have "distinct xs" "set xs = insert t (set (tlists k (readyq th)))"
    using sched_okD(4) [OF ok, of "readyq th"] sched_okD(6) [OF ok, of t "readyq th"] X by (auto simp: xs_def)
  from inserted_ok [OF ok X th nm this f g] show ?thesis using run f f' True by (auto simp: xs_def)
qed

section \<open>The highest ready thread\<close>

definition eligible :: "kernel \<Rightarrow> tid \<Rightarrow> rt_thread \<Rightarrow> bool" where
  "eligible k t th \<longleftrightarrow> threads k t = Some th \<and> stat th = RT_THREAD_READY \<and> (bind_cpu th = 2 \<or> bind_cpu th = cpu_id k)"

lemma head_ready:
  assumes ok: "sched_ok X k" and q: "is_readyq q" "tlists k q \<noteq> []"
  obtains t ts th where "tlists k q = t # ts" "t \<in> set (tlists k q)" "threads k t = Some th" "stat th = RT_THREAD_READY" "q = readyq th" "t \<notin> X"
proof -
  obtain t ts where t: "tlists k q = t # ts" using q(2) by (cases "tlists k q") auto
  then have tin: "t \<in> set (tlists k q)" by simp
  then show ?thesis using that [OF t tin] sched_okD(7) [OF ok tin] sched_okD(6) [OF ok tin] q(1) by (auto simp: lid_stat_def)
qed

lemma highest_ok:
  assumes ok: "sched_ok X k" and ne: "ready_priority_group k \<noteq> 0 \<or> priority_group (rt_cpu_self k) \<noteq> 0"
  shows "\<exists>t th. get_highest_priority_thread k = Some (t, int (current_priority th)) \<and> eligible k t th \<and> t \<notin> X \<and>
    t \<in> set (tlists k (readyq th)) \<and> (\<forall>u uh. eligible k u uh \<and> u \<notin> X \<longrightarrow> current_priority th \<le> current_priority uh)"
proof -
  note c = sched_okD(1) [OF ok]
  define h where "h = u32 (int (rt_ffs (ready_priority_group k)) - 1)"
  define l where "l = u32 (int (rt_ffs (priority_group (rt_cpu_self k))) - 1)"
  have gh: "(ready_priority_group k = 0 \<and> h = 4294967295 \<and> (\<forall>p < 32. tlists k (ReadyQ p) = [])) \<or>
    (\<exists>p. ready_priority_group k \<noteq> 0 \<and> p < 32 \<and> h = int p \<and> tlists k (ReadyQ p) \<noteq> [] \<and> (\<forall>r < p. tlists k (ReadyQ r) = []))"
    using group_highest [OF sched_okD(2) [OF ok]] by (simp add: h_def)
  have gl: "(priority_group (rt_cpu_self k) = 0 \<and> l = 4294967295 \<and> (\<forall>p < 32. tlists k (CpuReadyQ (cpu_id k) p) = [])) \<or>
    (\<exists>p. priority_group (rt_cpu_self k) \<noteq> 0 \<and> p < 32 \<and> l = int p \<and> tlists k (CpuReadyQ (cpu_id k) p) \<noteq> [] \<and>
       (\<forall>r < p. tlists k (CpuReadyQ (cpu_id k) r) = []))"
    using group_highest [OF sched_okD(3) [OF ok c]] by (simp add: l_def rt_cpu_self_def)
  have elig: "int (current_priority uh) \<ge> h \<or> int (current_priority uh) \<ge> l"
    if u: "eligible k u uh" "u \<notin> X" for u uh
  proof -
    have m: "u \<in> set (tlists k (readyq uh))" "current_priority uh < 32"
      using sched_okD(8,9) [OF ok, of u uh] u by (auto simp: eligible_def thread_wf_def)
    show ?thesis
    proof (cases "bind_cpu uh = 2")
      case True
      then have "tlists k (ReadyQ (current_priority uh)) \<noteq> []" using m by (auto simp: readyq_def)
      then show ?thesis using gh m(2) by (metis not_less of_nat_le_iff)
    next
      case False
      then have "tlists k (CpuReadyQ (cpu_id k) (current_priority uh)) \<noteq> []" using m u by (auto simp: readyq_def eligible_def)
      then show ?thesis using gl m(2) by (metis not_less of_nat_le_iff)
    qed
  qed
  show ?thesis
  proof (cases "h < l")
    case True
    then obtain p where p: "p < 32" "h = int p" "tlists k (ReadyQ p) \<noteq> []" using gh gl by auto
    then obtain t ts th where t: "tlists k (ReadyQ p) = t # ts" "t \<in> set (tlists k (ReadyQ p))" "threads k t = Some th"
      "stat th = RT_THREAD_READY" "ReadyQ p = readyq th" "t \<notin> X" using head_ready [OF ok _ p(3)] by auto
    then have b: "bind_cpu th = 2" "current_priority th = p" by (auto simp: readyq_def split: if_splits)
    have "get_highest_priority_thread k = Some (t, h)"
      using True t p(2) by (simp add: get_highest_priority_thread_def h_def [symmetric] l_def [symmetric])
    moreover have "\<forall>u uh. eligible k u uh \<and> u \<notin> X \<longrightarrow> current_priority th \<le> current_priority uh"
      using elig True p(2) b by fastforce
    ultimately show ?thesis using t b p(2) by (intro exI [of _ t] exI [of _ th]) (auto simp: eligible_def)
  next
    case False
    then obtain p where p: "p < 32" "l = int p" "tlists k (CpuReadyQ (cpu_id k) p) \<noteq> []" using gh gl ne by auto
    then obtain t ts th where t: "tlists k (CpuReadyQ (cpu_id k) p) = t # ts" "t \<in> set (tlists k (CpuReadyQ (cpu_id k) p))"
      "threads k t = Some th" "stat th = RT_THREAD_READY" "CpuReadyQ (cpu_id k) p = readyq th" "t \<notin> X" using head_ready [OF ok _ p(3)] by auto
    then have b: "bind_cpu th = cpu_id k" "current_priority th = p" by (auto simp: readyq_def split: if_splits)
    have "get_highest_priority_thread k = Some (t, l)"
      using False t p(2) by (simp add: get_highest_priority_thread_def h_def [symmetric] l_def [symmetric])
    moreover have "\<forall>u uh. eligible k u uh \<and> u \<notin> X \<longrightarrow> current_priority th \<le> current_priority uh"
      using elig False p(2) b by fastforce
    ultimately show ?thesis using t b p(2) by (intro exI [of _ t] exI [of _ th]) (auto simp: eligible_def)
  qed
qed

lemma no_eligible:
  assumes ok: "sched_ok X k" and e: "ready_priority_group k = 0" "priority_group (rt_cpu_self k) = 0" "eligible k u uh" "u \<notin> X"
  shows False
proof -
  have m: "u \<in> set (tlists k (readyq uh))" "current_priority uh < 32"
    using sched_okD(8,9) [OF ok, of u uh] e by (auto simp: eligible_def thread_wf_def)
  show False
    using group_highest [OF sched_okD(2) [OF ok]] group_highest [OF sched_okD(3) [OF ok sched_okD(1) [OF ok]]] m e
    by (auto simp: rt_cpu_self_def eligible_def readyq_def split: if_splits)
qed

section \<open>The choice of the next thread\<close>

lemma running_unlisted:
  assumes "sched_ok X k" "threads k t = Some th" "stat th = RT_THREAD_RUNNING"
  shows "t \<notin> set (tlists k l)"
proof
  assume "t \<in> set (tlists k l)"
  then show False using sched_okD(7) [OF assms(1), of t l] assms(2,3) by (auto simp: lid_stat_def split: if_splits)
qed

definition requeued :: "rt_thread \<Rightarrow> rt_thread" where
  "requeued th = (if stat th = RT_THREAD_RUNNING
     then th\<lparr>oncpu := 2, stat := RT_THREAD_READY, stat_yield := False\<rparr> else th\<lparr>oncpu := 2\<rparr>)"

text \<open>The running thread is put back into its queue, behind its equals when it yields and in front of them otherwise.\<close>

lemma requeue_ok:
  assumes ok: "sched_ok {} k" and th: "threads k cur = Some th" and run: "stat th = RT_THREAD_RUNNING"
    and nm: "number_mask th = 2 ^ current_priority th"
  defines "k1 \<equiv> k\<lparr>threads := (threads k)(cur \<mapsto> th\<lparr>oncpu := 2\<rparr>)\<rparr>"
  shows "\<exists>k' k2. rt_schedule_insert_thread k1 cur = Some k' \<and> upd_thread k' cur (stat_yield_update (\<lambda>_. False)) = Some k2 \<and> sched_ok {} k2 \<and>
    threads k2 = (threads k)(cur \<mapsto> requeued th) \<and> cpu_id k' = cpu_id k \<and> cpu_id k2 = cpu_id k \<and> ktimers k2 = ktimers k \<and>
    (\<forall>l. \<not> is_readyq l \<longrightarrow> tlists k2 l = tlists k l) \<and>
    (\<forall>c. current_thread (cpus k2 c) = current_thread (cpus k c) \<and> irq_nest (cpus k2 c) = irq_nest (cpus k c))"
proof -
  let ?th = "th\<lparr>oncpu := 2\<rparr>"
  have ok1: "sched_ok {} k1" unfolding k1_def by (rule sched_ok_upd_same [OF ok th]) (simp add: same_sched_def)
  have th1: "threads k1 cur = Some ?th" by (simp add: k1_def)
  have ok1': "sched_ok {cur} k1" by (rule sched_ok_exempt [OF ok1]) (use running_unlisted [OF ok1 th1] run in simp)
  obtain k' where k': "rt_schedule_insert_thread k1 cur = Some k'" "sched_ok {} k'"
      "threads k' = (threads k1)(cur \<mapsto> ?th\<lparr>stat := RT_THREAD_READY\<rparr>)" "cpu_id k' = cpu_id k1" "ktimers k' = ktimers k1"
      "tlists k' = (tlists k1)(readyq ?th := (if stat_yield th then tlists k1 (readyq ?th) @ [cur] else cur # tlists k1 (readyq ?th)))"
      "\<forall>c. current_thread (cpus k' c) = current_thread (cpus k1 c) \<and> irq_nest (cpus k' c) = irq_nest (cpus k1 c)"
    using insert_ok [OF ok1' _ th1] nm by auto
  define k2 where "k2 = k'\<lparr>threads := (threads k')(cur \<mapsto> ?th\<lparr>stat := RT_THREAD_READY, stat_yield := False\<rparr>)\<rparr>"
  have "sched_ok {} k2" unfolding k2_def
    by (rule sched_ok_upd_same [OF k'(2), where th = "?th\<lparr>stat := RT_THREAD_READY\<rparr>"])
      (simp_all add: k'(3) same_sched_def)
  moreover have "upd_thread k' cur (stat_yield_update (\<lambda>_. False)) = Some k2" by (simp add: upd_thread_def k'(3) k2_def)
  moreover have "tlists k2 l = tlists k l" if "\<not> is_readyq l" for l
  proof -
    have "l \<noteq> readyq ?th" using that by auto
    then show ?thesis by (simp add: k2_def k'(6) k1_def)
  qed
  ultimately show ?thesis
    using k' run by (intro exI [of _ k'] exI [of _ k2]) (simp add: k2_def k1_def requeued_def)
qed

lemma pick_ok:
  assumes ok: "sched_ok {} k" and th: "threads k cur = Some th" and nr: "stat th \<noteq> RT_THREAD_READY"
    and nm: "stat th = RT_THREAD_RUNNING \<Longrightarrow> number_mask th = 2 ^ current_priority th"
    and ne: "ready_priority_group k \<noteq> 0 \<or> priority_group (rt_cpu_self k) \<noteq> 0"
  shows "\<exists>to prio k2. schedule_pick k cur = Some (to, prio, k2) \<and> sched_ok {} k2 \<and> cpu_id k2 = cpu_id k \<and>
    (\<forall>c. current_thread (cpus k2 c) = current_thread (cpus k c) \<and> irq_nest (cpus k2 c) = irq_nest (cpus k c)) \<and> ktimers k2 = ktimers k \<and>
    (\<forall>l. \<not> is_readyq l \<longrightarrow> tlists k2 l = tlists k l) \<and>
    (to = cur \<and> stat th = RT_THREAD_RUNNING \<and> threads k2 = (threads k)(cur \<mapsto> th\<lparr>oncpu := cpu_id k, stat_yield := False\<rparr>) \<and>
       (\<forall>u uh. eligible k u uh \<longrightarrow> current_priority th \<le> current_priority uh) \<and>
       (stat_yield th \<longrightarrow> (\<forall>u uh. eligible k u uh \<longrightarrow> current_priority th < current_priority uh)) \<or>
     (\<exists>toh. to \<noteq> cur \<and> eligible k to toh \<and> prio = int (current_priority toh) \<and>
       threads k2 = (threads k)(cur \<mapsto> requeued th, to \<mapsto> toh\<lparr>oncpu := cpu_id k\<rparr>) \<and>
       (stat th = RT_THREAD_RUNNING \<longrightarrow> current_priority toh < current_priority th \<or> current_priority toh = current_priority th \<and> stat_yield th) \<and>
       (\<forall>u uh. eligible k u uh \<longrightarrow> current_priority toh \<le> current_priority uh)))"
proof -
  obtain t toh where t: "get_highest_priority_thread k = Some (t, int (current_priority toh))" "eligible k t toh"
      "\<forall>u uh. eligible k u uh \<longrightarrow> current_priority toh \<le> current_priority uh"
    using highest_ok [OF ok ne] by auto
  have tc: "t \<noteq> cur" using t(2) th nr by (auto simp: eligible_def)
  have tk: "threads k t = Some toh" using t(2) by (simp add: eligible_def)
  have c2: "cpu_id k < 2" by (rule sched_okD(1) [OF ok])
  define k1 where "k1 = k\<lparr>threads := (threads k)(cur \<mapsto> th\<lparr>oncpu := 2\<rparr>)\<rparr>"
  have ok1: "sched_ok {} k1" unfolding k1_def by (rule sched_ok_upd_same [OF ok th]) (simp add: same_sched_def)
  let ?keep = "stat th = RT_THREAD_RUNNING \<and> (current_priority th < current_priority toh \<or> current_priority th = current_priority toh \<and> \<not> stat_yield th)"
  consider (keep) "?keep" | (preempt) "stat th = RT_THREAD_RUNNING" "\<not> ?keep" | (away) "stat th \<noteq> RT_THREAD_RUNNING" by blast
  then show ?thesis
  proof cases
    case keep
    let ?k2 = "k\<lparr>threads := (threads k)(cur \<mapsto> th\<lparr>oncpu := cpu_id k, stat_yield := False\<rparr>)\<rparr>"
    have run: "schedule_pick k cur = Some (cur, int (current_priority toh), ?k2)"
    proof -
      have e: "th\<lparr>oncpu := 2, stat_yield := False, oncpu := cpu_id k\<rparr> = th\<lparr>oncpu := cpu_id k, stat_yield := False\<rparr>" by simp
      show ?thesis using keep th t(1) by (auto simp: schedule_pick_def upd_thread_def e)
    qed
    have "sched_ok {} ?k2" by (rule sched_ok_upd_same [OF ok th]) (use c2 in \<open>simp add: same_sched_def\<close>)
    moreover have "\<forall>u uh. eligible k u uh \<longrightarrow> current_priority th \<le> current_priority uh"
      "stat_yield th \<longrightarrow> (\<forall>u uh. eligible k u uh \<longrightarrow> current_priority th < current_priority uh)"
      using keep t(3) by fastforce+
    ultimately show ?thesis using run keep by (intro exI [of _ cur] exI [of _ "int (current_priority toh)"] exI [of _ ?k2]) simp
  next
    case preempt
    then have nm': "number_mask th = 2 ^ current_priority th" using nm by simp
    obtain k' k2 where k: "rt_schedule_insert_thread k1 cur = Some k'" "upd_thread k' cur (stat_yield_update (\<lambda>_. False)) = Some k2"
      "sched_ok {} k2" "threads k2 = (threads k)(cur \<mapsto> requeued th)" "cpu_id k' = cpu_id k" "cpu_id k2 = cpu_id k" "ktimers k2 = ktimers k"
      "\<forall>l. \<not> is_readyq l \<longrightarrow> tlists k2 l = tlists k l"
      "\<forall>c. current_thread (cpus k2 c) = current_thread (cpus k c) \<and> irq_nest (cpus k2 c) = irq_nest (cpus k c)"
      using requeue_ok [OF ok th preempt(1) nm', folded k1_def] by blast
    have t2: "threads k2 t = Some toh" using tk tc by (simp add: k(4))
    let ?k3 = "k2\<lparr>threads := (threads k2)(t \<mapsto> toh\<lparr>oncpu := cpu_id k\<rparr>)\<rparr>"
    have "upd_thread k cur (oncpu_update (\<lambda>_. 2)) = Some k1" using th by (simp add: upd_thread_def k1_def)
    moreover have "threads k1 cur = Some (th\<lparr>oncpu := 2\<rparr>)" by (simp add: k1_def)
    ultimately have "schedule_pick k cur = Some (t, int (current_priority toh), ?k3)"
      using preempt t(1) k(1,2,6) t2 by (auto simp: schedule_pick_def upd_thread_def)
    moreover have "sched_ok {} ?k3" by (rule sched_ok_upd_same [OF k(3) t2]) (use c2 in \<open>simp add: same_sched_def\<close>)
    ultimately show ?thesis
      using t tc k(4-9) preempt
      by (intro exI [of _ t] exI [of _ "int (current_priority toh)"] exI [of _ ?k3]) auto
  next
    case away
    have t1: "threads k1 t = Some toh" using tk tc by (simp add: k1_def)
    let ?k3 = "k1\<lparr>threads := (threads k1)(t \<mapsto> toh\<lparr>oncpu := cpu_id k\<rparr>)\<rparr>"
    have run: "schedule_pick k cur = Some (t, int (current_priority toh), ?k3)"
      using away t(1) th t1 by (simp add: schedule_pick_def upd_thread_def k1_def)
    have "sched_ok {} ?k3" by (rule sched_ok_upd_same [OF ok1 t1]) (use c2 in \<open>simp add: same_sched_def\<close>)
    then show ?thesis
      using run t tc away
      by (intro exI [of _ t] exI [of _ "int (current_priority toh)"] exI [of _ ?k3]) (auto simp: k1_def requeued_def)
  qed
qed

lemma cpu_okD:
  assumes "cpu_ok k"
  shows "c < 2 \<Longrightarrow> current_thread (cpus k c) = Some t \<longleftrightarrow> (\<exists>th. threads k t = Some th \<and> oncpu th = c)"
    "threads k t = Some th \<Longrightarrow> stat th = RT_THREAD_READY \<Longrightarrow> oncpu th = 2"
  using assms unfolding cpu_ok_def by blast+

text \<open>A thread that runs outside of kernel sections holds no lock counts.\<close>

definition at_rest :: "kernel \<Rightarrow> tid \<Rightarrow> rt_thread \<Rightarrow> bool" where
  "at_rest k cur th \<longleftrightarrow> rt_thread_self k = Some cur \<and> threads k cur = Some th \<and>
     cpus_lock_nest th = 0 \<and> scheduler_lock_nest th = 0 \<and> irq_nest (rt_cpu_self k) = 0 \<and> stat th \<noteq> RT_THREAD_INIT"

lemma lock_at_rest:
  assumes "at_rest k cur th"
  shows "rt_cpus_lock k = Some (k\<lparr>threads := (threads k)(cur \<mapsto> th\<lparr>cpus_lock_nest := 1, scheduler_lock_nest := 1\<rparr>)\<rparr>)"
  using assms by (simp add: at_rest_def rt_cpus_lock_def upd_thread_def c_store)

text \<open>What a switch does: the lists and states afterwards.\<close>

lemma switch_ok:
  assumes ok: "sched_ok {} k" and toh: "threads k to = Some toh"
    and toh2: "stat toh = RT_THREAD_READY"
  shows "\<exists>k'. (do {
      let k3 = upd_cpu k (cpu_id k) (cpu_current_priority_update (\<lambda>_. p));
      k4 \<leftarrow> rt_schedule_remove_thread k3 to;
      k5 \<leftarrow> upd_thread k4 to (stat_update (\<lambda>_. RT_THREAD_RUNNING));
      context_switch k5 to }) = Some k' \<and> sched_ok {} k' \<and> cpu_id k' = cpu_id k \<and>
    threads k' = (threads k)(to \<mapsto> release_lock_counts (toh\<lparr>stat := RT_THREAD_RUNNING\<rparr>)) \<and>
    (\<forall>c. current_thread (cpus k' c) = (if c = cpu_id k then Some to else current_thread (cpus k c)) \<and> irq_nest (cpus k' c) = irq_nest (cpus k c)) \<and>
    ktimers k' = ktimers k \<and> (\<forall>l. \<not> is_readyq l \<longrightarrow> tlists k' l = tlists k l)"
proof -
  define k3 where "k3 = upd_cpu k (cpu_id k) (cpu_current_priority_update (\<lambda>_. p))"
  have ok3: "sched_ok {} k3" by (rule sched_ok_cong [OF ok]) (simp_all add: k3_def upd_cpu_def)
  have t3: "threads k3 to = Some toh" using toh by (simp add: k3_def upd_cpu_def)
  obtain k4 where k4: "rt_schedule_remove_thread k3 to = Some k4" "sched_ok {to} k4" "threads k4 = threads k3" "cpu_id k4 = cpu_id k3"
      "ktimers k4 = ktimers k3" "tlists k4 = (\<lambda>l. remove1 to (tlists k l))"
      "\<forall>c. current_thread (cpus k4 c) = current_thread (cpus k3 c) \<and> irq_nest (cpus k4 c) = irq_nest (cpus k3 c)"
    using remove_ok [OF ok3 t3] by (auto simp: k3_def upd_cpu_def)
  have wf: "thread_wf toh" using sched_okD(8) [OF ok toh] .
  define r where "r = toh\<lparr>stat := RT_THREAD_RUNNING\<rparr>"
  have wr: "thread_wf r" "thread_wf (release_lock_counts r)"
    using wf toh2 by (auto simp: r_def thread_wf_def release_lock_counts_def)
  have k5: "upd_thread k4 to (stat_update (\<lambda>_. RT_THREAD_RUNNING)) = Some (k4\<lparr>threads := (threads k4)(to \<mapsto> r)\<rparr>)"
    using t3 by (simp add: upd_thread_def k4(3) r_def)
  define k6 where "k6 = (rt_cpus_lock_status_restore (k4\<lparr>threads := (threads k4)(to \<mapsto> r)\<rparr>) to)
      \<lparr>threads := (threads k4)(to \<mapsto> release_lock_counts r)\<rparr>"
  have run: "context_switch (k4\<lparr>threads := (threads k4)(to \<mapsto> r)\<rparr>) to = Some k6"
    by (simp add: context_switch_def upd_thread_def rt_cpus_lock_status_restore_def upd_cpu_def k6_def)
  have "sched_ok {to} (k4\<lparr>threads := (threads k4)(to \<mapsto> release_lock_counts r)\<rparr>)"
    by (rule sched_ok_upd_exempt [OF k4(2) _ wr(2)]) simp
  then have "sched_ok ({to} - {to}) (k4\<lparr>threads := (threads k4)(to \<mapsto> release_lock_counts r)\<rparr>)"
    by (rule sched_ok_settle [where th = "release_lock_counts r"]) (simp_all add: r_def release_lock_counts_def)
  then have "sched_ok {} (k4\<lparr>threads := (threads k4)(to \<mapsto> release_lock_counts r)\<rparr>)" by simp
  then have "sched_ok {} k6"
    by (rule sched_ok_cong) (simp_all add: k6_def rt_cpus_lock_status_restore_def upd_cpu_def)
  moreover have "\<forall>l. \<not> is_readyq l \<longrightarrow> tlists k6 l = tlists k l"
  proof (intro allI impI)
    fix l assume l: "\<not> is_readyq l"
    then have "to \<notin> set (tlists k l)" using sched_okD(7) [OF ok, of to l] toh toh2 by (auto simp: lid_stat_def split: if_splits)
    then show "tlists k6 l = tlists k l"
      by (simp add: k6_def rt_cpus_lock_status_restore_def upd_cpu_def k4(6) remove1_idem)
  qed
  ultimately show ?thesis
    using k4 k5 run
    by (simp add: k3_def [symmetric])
       (auto simp: k6_def r_def k3_def rt_cpus_lock_status_restore_def upd_cpu_def)
qed

definition lowest_ready :: "kernel \<Rightarrow> rt_thread \<Rightarrow> bool" where
  "lowest_ready k th \<longleftrightarrow> (\<forall>u uh. eligible k u uh \<longrightarrow> current_priority th \<le> current_priority uh)"

text \<open>Outside of kernel sections, a thread on a processor holds no lock counts; a thread that was
  switched out inside \<^verbatim>\<open>rt_schedule\<close> has them left.\<close>

definition lock_ok :: "kernel \<Rightarrow> bool" where
  "lock_ok k \<longleftrightarrow> (\<forall>t th. threads k t = Some th \<longrightarrow>
     cpus_lock_nest th = 0 \<and> scheduler_lock_nest th = 0 \<or> oncpu th = 2 \<and> 0 < cpus_lock_nest th \<and> scheduler_lock_nest th = 1)"

text \<open>What scheduling does not change about a thread.\<close>

definition sched_eq :: "rt_thread \<Rightarrow> rt_thread \<Rightarrow> bool" where
  "sched_eq a b \<longleftrightarrow> error b = error a \<and> init_priority b = init_priority a \<and> current_priority b = current_priority a \<and>
     number_mask b = number_mask a \<and> bind_cpu b = bind_cpu a \<and> critical_lock_nest b = critical_lock_nest a \<and>
     thread_init_tick b = thread_init_tick a \<and> remaining_tick b = remaining_tick a \<and>
     taken_object_list b = taken_object_list a \<and> pending_object b = pending_object a \<and>
     event_set b = event_set a \<and> event_info b = event_info a \<and> thread_static b = thread_static a \<and>
     (stat a \<noteq> RT_THREAD_READY \<and> stat a \<noteq> RT_THREAD_RUNNING \<longrightarrow> stat b = stat a) \<and>
     (stat a = RT_THREAD_READY \<or> stat a = RT_THREAD_RUNNING \<longrightarrow> stat b = RT_THREAD_READY \<or> stat b = RT_THREAD_RUNNING)"

lemma sched_eq_refl [simp]: "sched_eq a a"
  by (simp add: sched_eq_def)

definition wait_same :: "kernel \<Rightarrow> kernel \<Rightarrow> bool" where
  "wait_same k k' \<longleftrightarrow> (\<forall>l. \<not> is_readyq l \<longrightarrow> tlists k' l = tlists k l) \<and> (\<forall>u. rel_option sched_eq (threads k u) (threads k' u))"

lemma wait_same_refl [simp]: "wait_same k k"
  by (auto simp: wait_same_def option.rel_refl)

text \<open>
  What a call of the scheduler establishes: \<open>n\<close> runs afterwards, \<open>cur\<close> ran before. The thread that runs is at least as urgent as
  every ready thread this processor may run; the thread that ran goes on unless it is not running, something more urgent is ready,
  or it yields to its equals.
\<close>

definition scheduled :: "kernel \<Rightarrow> nat \<Rightarrow> rt_thread \<Rightarrow> kernel \<Rightarrow> nat \<Rightarrow> rt_thread \<Rightarrow> bool" where
  "scheduled k cur th k' n h \<longleftrightarrow> sched_ok {} k' \<and> cpu_ok k' \<and> cpu_id k' = cpu_id k \<and> ktimers k' = ktimers k \<and>
    lock_ok k' \<and> wait_same k k' \<and> (\<forall>c. irq_nest (cpus k' c) = irq_nest (cpus k c)) \<and>
    current_thread (rt_cpu_self k') = Some n \<and> threads k' n = Some h \<and> stat h = RT_THREAD_RUNNING \<and> lowest_ready k' h \<and>
    (n \<noteq> cur \<longrightarrow> (\<exists>uh. eligible k n uh) \<and> (\<exists>ch. threads k' cur = Some ch \<and>
       stat ch = (if stat th = RT_THREAD_RUNNING then RT_THREAD_READY else stat th))) \<and>
    (stat th = RT_THREAD_RUNNING \<and> \<not> stat_yield th \<and> lowest_ready k th \<longrightarrow> n = cur) \<and>
    (stat th = RT_THREAD_RUNNING \<and> stat_yield th \<and> (\<exists>u uh. eligible k u uh \<and> current_priority uh = current_priority th) \<longrightarrow> n \<noteq> cur)"

abbreviation locked_once :: "rt_thread \<Rightarrow> rt_thread" where
  "locked_once th \<equiv> th\<lparr>cpus_lock_nest := 1, scheduler_lock_nest := 1\<rparr>"

lemma at_restD:
  assumes ok: "sched_ok {} k" and cpu: "cpu_ok k" and rest: "at_rest k cur th"
  shows "threads k cur = Some th" "current_thread (cpus k (cpu_id k)) = Some cur" "cpu_id k < 2" "oncpu th = cpu_id k"
    "stat th \<noteq> RT_THREAD_READY"
proof -
  show t: "threads k cur = Some th" and c: "current_thread (cpus k (cpu_id k)) = Some cur"
    using rest by (auto simp: at_rest_def rt_thread_self_def rt_cpu_self_def)
  show c2: "cpu_id k < 2" by (rule sched_okD(1) [OF ok])
  show o: "oncpu th = cpu_id k" using cpu_okD(1) [OF cpu c2, of cur] c t by auto
  show "stat th \<noteq> RT_THREAD_READY" using cpu_okD(2) [OF cpu t] o c2 by auto
qed

text \<open>The running thread goes on.\<close>

lemma scheduled_keep:
  assumes ok: "sched_ok {} k" and cpu: "cpu_ok k" and rest: "at_rest k cur th" and lk: "lock_ok k" and ok2: "sched_ok {} k2"
    and f2: "cpu_id k2 = cpu_id k" "ktimers k2 = ktimers k" "\<And>c. current_thread (cpus k2 c) = current_thread (cpus k c)"
      "\<And>c. irq_nest (cpus k2 c) = irq_nest (cpus k c)" "\<And>l. \<not> is_readyq l \<Longrightarrow> tlists k2 l = tlists k l"
    and run: "stat th = RT_THREAD_RUNNING" and t2: "threads k2 = (threads k)(cur \<mapsto> locked_once th\<lparr>oncpu := cpu_id k, stat_yield := False\<rparr>)"
    and low: "\<forall>u uh. eligible k u uh \<longrightarrow> current_priority th \<le> current_priority uh"
      "stat_yield th \<longrightarrow> (\<forall>u uh. eligible k u uh \<longrightarrow> current_priority th < current_priority uh)"
  shows "\<exists>k'. rt_cpus_unlock k2 = Some k' \<and> scheduled k cur th k' cur (th\<lparr>stat_yield := False\<rparr>)"
proof -
  note R = rest [unfolded at_rest_def]
  note D = at_restD [OF ok cpu rest]
  let ?th' = "th\<lparr>stat_yield := False\<rparr>"
  define k' where "k' = k2\<lparr>threads := (threads k)(cur \<mapsto> ?th')\<rparr>"
  have "locked_once th\<lparr>oncpu := cpu_id k, stat_yield := False, cpus_lock_nest := 0, scheduler_lock_nest := 0\<rparr> = ?th'"
    using R D(4) by (simp add: rt_thread.equality)
  then have un: "rt_cpus_unlock k2 = Some k'"
    using D(2) f2 t2 by (simp add: rt_cpus_unlock_def upd_thread_def rt_thread_self_def rt_cpu_self_def c_store k'_def)
  have t2': "threads k2 cur = Some (locked_once th\<lparr>oncpu := cpu_id k, stat_yield := False\<rparr>)" by (simp add: t2)
  have "sched_ok {} (k2\<lparr>threads := (threads k2)(cur \<mapsto> ?th')\<rparr>)"
    by (rule sched_ok_upd_same [OF ok2 t2']) (use D(3,4) in \<open>simp add: same_sched_def\<close>)
  then have "sched_ok {} k'" by (simp add: k'_def t2)
  moreover have "cpu_ok k'" using cpu D(1,5) unfolding cpu_ok_def by (auto simp: k'_def f2)
  moreover have "eligible k' u uh \<longleftrightarrow> eligible k u uh" for u uh using D(1,5) f2 by (auto simp: eligible_def k'_def)
  moreover have "threads k' cur = Some ?th'" "current_thread (rt_cpu_self k') = Some cur" "cpu_id k' = cpu_id k" "ktimers k' = ktimers k"
    using D(2) f2 by (auto simp: k'_def rt_cpu_self_def)
  moreover have "\<not> (stat_yield th \<and> (\<exists>u uh. eligible k u uh \<and> current_priority uh = current_priority th))"
    using low(2) by fastforce
  moreover have "lock_ok k'" using lk R unfolding lock_ok_def by (auto simp: k'_def)
  moreover have "wait_same k k'" using f2(5) D(1) by (auto simp: wait_same_def k'_def sched_eq_def option.rel_refl)
  moreover have "irq_nest (cpus k' c) = irq_nest (cpus k c)" for c by (simp add: k'_def f2)
  ultimately show ?thesis using run un low(1) by (intro exI [of _ k']) (auto simp: lowest_ready_def scheduled_def)
qed

text \<open>Another thread takes over.\<close>

abbreviation taken_over :: "nat \<Rightarrow> rt_thread \<Rightarrow> rt_thread" where
  "taken_over c toh \<equiv> release_lock_counts (toh\<lparr>oncpu := c, stat := RT_THREAD_RUNNING\<rparr>)"

lemma taken_over_fields:
  "stat (taken_over c toh) = RT_THREAD_RUNNING" "oncpu (taken_over c toh) = c" "current_priority (taken_over c toh) = current_priority toh"
  "oncpu (requeued (locked_once th)) = 2" "current_priority (requeued (locked_once th)) = current_priority th"
  "stat (requeued (locked_once th)) = (if stat th = RT_THREAD_RUNNING then RT_THREAD_READY else stat th)"
  "bind_cpu (requeued (locked_once th)) = bind_cpu th"
  "cpus_lock_nest (requeued (locked_once th)) = 1" "scheduler_lock_nest (requeued (locked_once th)) = 1"
  by (simp_all add: release_lock_counts_def requeued_def)

lemma switch_cpu_ok:
  assumes ok: "sched_ok {} k" and cpu: "cpu_ok k" and rest: "at_rest k cur th" and to: "to \<noteq> cur" "eligible k to toh"
    and t: "threads k' = (threads k)(cur \<mapsto> requeued (locked_once th), to \<mapsto> taken_over (cpu_id k) toh)"
    and ct: "\<And>c. current_thread (cpus k' c) = (if c = cpu_id k then Some to else current_thread (cpus k c))"
  shows "cpu_ok k'"
  unfolding cpu_ok_def
proof (intro conjI allI impI)
  note D = at_restD [OF ok cpu rest]
  note n = taken_over_fields
  have tr: "threads k to = Some toh" "stat toh = RT_THREAD_READY" using to(2) by (auto simp: eligible_def)
  have oto: "oncpu toh = 2" using cpu_okD(2) [OF cpu tr] .
  show "(current_thread (cpus k' c) = Some u) = (\<exists>th. threads k' u = Some th \<and> oncpu th = c)" if c: "c < 2" for c u
    using cpu_okD(1) [OF cpu c, of u] c D n to(1) tr oto by (auto simp: ct t split: if_splits)
  show "oncpu h = 2" if "threads k' u = Some h \<and> stat h = RT_THREAD_READY" for u h
    using that cpu_okD(2) [OF cpu] n by (auto simp: t split: if_splits)
qed

lemma switch_lowest:
  assumes nr: "stat th \<noteq> RT_THREAD_READY" and to: "to \<noteq> cur" "eligible k to toh" and id: "cpu_id k' = cpu_id k"
    and t: "threads k' = (threads k)(cur \<mapsto> requeued (locked_once th), to \<mapsto> taken_over (cpu_id k) toh)"
    and pre: "stat th = RT_THREAD_RUNNING \<longrightarrow> current_priority toh < current_priority th \<or> current_priority toh = current_priority th \<and> stat_yield th"
    and low: "\<forall>u uh. eligible k u uh \<longrightarrow> current_priority toh \<le> current_priority uh"
  shows "lowest_ready k' (taken_over (cpu_id k) toh)"
  unfolding lowest_ready_def
proof (intro allI impI)
  note n = taken_over_fields
  fix u uh assume u: "eligible k' u uh"
  show "current_priority (taken_over (cpu_id k) toh) \<le> current_priority uh"
  proof (cases "u = cur")
    case True
    then have "uh = requeued (locked_once th)" "stat th = RT_THREAD_RUNNING"
      using u to(1) n nr by (auto simp: eligible_def t split: if_splits)
    then show ?thesis using pre n by auto
  next
    case False
    then have "eligible k u uh" using u n id by (auto simp: eligible_def t split: if_splits)
    then show ?thesis using low n by auto
  qed
qed

lemma scheduled_switch:
  assumes ok: "sched_ok {} k" and cpu: "cpu_ok k" and rest: "at_rest k cur th" and lk: "lock_ok k"
    and to: "to \<noteq> cur" "eligible k to toh" and ok': "sched_ok {} k'" and f: "cpu_id k' = cpu_id k" "ktimers k' = ktimers k"
    and t: "threads k' = (threads k)(cur \<mapsto> requeued (locked_once th), to \<mapsto> taken_over (cpu_id k) toh)"
    and ct: "\<And>c. current_thread (cpus k' c) = (if c = cpu_id k then Some to else current_thread (cpus k c))"
    and g: "\<And>c. irq_nest (cpus k' c) = irq_nest (cpus k c)" "\<And>l. \<not> is_readyq l \<Longrightarrow> tlists k' l = tlists k l"
    and pre: "stat th = RT_THREAD_RUNNING \<longrightarrow> current_priority toh < current_priority th \<or> current_priority toh = current_priority th \<and> stat_yield th"
    and low: "\<forall>u uh. eligible k u uh \<longrightarrow> current_priority toh \<le> current_priority uh"
  shows "scheduled k cur th k' to (taken_over (cpu_id k) toh)"
proof -
  note D = at_restD [OF ok cpu rest]
  note n = taken_over_fields
  have tr: "threads k to = Some toh" "stat toh = RT_THREAD_READY" using to(2) by (auto simp: eligible_def)
  have "cpus_lock_nest (taken_over (cpu_id k) toh) = 0 \<and> scheduler_lock_nest (taken_over (cpu_id k) toh) = 0"
    using lk tr(1) unfolding lock_ok_def by (fastforce simp: release_lock_counts_def u16_def)
  then have "lock_ok k'" using lk n unfolding lock_ok_def by (auto simp: t split: if_splits)
  moreover have "wait_same k k'"
  proof -
    have "sched_eq toh (taken_over (cpu_id k) toh)" using tr by (simp add: sched_eq_def release_lock_counts_def)
    moreover have "sched_eq th (requeued (locked_once th))" by (simp add: sched_eq_def requeued_def)
    ultimately show ?thesis using g(2) D(1) tr(1) to(1) by (auto simp: wait_same_def t option.rel_refl)
  qed
  moreover have "\<not> (stat th = RT_THREAD_RUNNING \<and> \<not> stat_yield th \<and> lowest_ready k th)"
    using pre to(2) unfolding lowest_ready_def by (metis not_less)
  moreover have "current_thread (rt_cpu_self k') = Some to" using f(1) ct by (simp add: rt_cpu_self_def)
  moreover have "threads k' cur = Some (requeued (locked_once th))" "threads k' to = Some (taken_over (cpu_id k) toh)"
    using to(1) by (simp_all add: t)
  ultimately show ?thesis
    using ok' f g(1) to n switch_cpu_ok [OF ok cpu rest to t ct] switch_lowest [OF D(5) to f(1) t pre low]
    unfolding scheduled_def by auto
qed

lemma schedule_scheduled:
  assumes ok: "sched_ok {} k" and cpu: "cpu_ok k" and rest: "at_rest k cur th" and lk: "lock_ok k"
    and some: "stat th = RT_THREAD_RUNNING \<or> (\<exists>u uh. eligible k u uh)"
  shows "\<exists>k' n nth. rt_schedule k = Some k' \<and> scheduled k cur th k' n nth"
proof -
  let ?lk = "locked_once th"
  define k1 where "k1 = k\<lparr>threads := (threads k)(cur \<mapsto> ?lk)\<rparr>"
  note R = rest [unfolded at_rest_def]
  note D = at_restD [OF ok cpu rest]
  have ok1: "sched_ok {} k1" unfolding k1_def
    by (rule sched_ok_upd_same [OF ok D(1)]) (use sched_okD(8) [OF ok D(1)] in \<open>simp add: same_sched_def thread_wf_def\<close>)
  have lock: "rt_cpus_lock k = Some k1" using lock_at_rest [OF rest] by (simp add: k1_def)
  have th1: "threads k1 cur = Some ?lk" by (simp add: k1_def)
  have el: "eligible k1 u uh \<longleftrightarrow> eligible k u uh" for u uh using D(1,5) by (auto simp: eligible_def k1_def)
  have self1: "rt_thread_self k1 = Some cur" "rt_cpu_self k1 = rt_cpu_self k" "cpu_id k1 = cpu_id k" "ktimers k1 = ktimers k"
    using D(2) by (auto simp: rt_thread_self_def rt_cpu_self_def k1_def)
  show ?thesis
  proof (cases "ready_priority_group k1 \<noteq> 0 \<or> priority_group (rt_cpu_self k1) \<noteq> 0")
    case False
    then have no: "\<not> eligible k u uh" for u uh using no_eligible [OF ok1, of u uh] el by auto
    then have run: "stat th = RT_THREAD_RUNNING" using some by blast
    let ?k' = "k1\<lparr>threads := (threads k1)(cur \<mapsto> th)\<rparr>"
    have "th\<lparr>cpus_lock_nest := 0, scheduler_lock_nest := 0\<rparr> = th" using R by simp
    then have "rt_cpus_unlock k1 = Some ?k'" using self1 th1 by (simp add: rt_cpus_unlock_def upd_thread_def c_store)
    moreover have "?k' = k" using D(1) by (simp add: k1_def fun_upd_idem)
    ultimately have "rt_schedule k = Some k" using lock R self1 th1 False by (simp add: rt_schedule_def)
    then show ?thesis using ok cpu lk R run no D(1) by (auto simp: lowest_ready_def rt_thread_self_def scheduled_def)
  next
    case True
    have nm1: "number_mask ?lk = 2 ^ current_priority ?lk" if "stat ?lk = RT_THREAD_RUNNING"
      using sched_okD(8) [OF ok D(1)] that by (auto simp: thread_wf_def)
    have pk: "stat ?lk \<noteq> RT_THREAD_READY" using D(5) by simp
    have cc: "cpus k1 = cpus k" "tlists k1 = tlists k" by (simp_all add: k1_def)
    obtain to prio k2 where pick: "schedule_pick k1 cur = Some (to, prio, k2)" and ok2: "sched_ok {} k2"
      and f2: "cpu_id k2 = cpu_id k" "ktimers k2 = ktimers k"
        "\<And>c. current_thread (cpus k2 c) = current_thread (cpus k c)" "\<And>c. irq_nest (cpus k2 c) = irq_nest (cpus k c)"
        "\<And>l. \<not> is_readyq l \<Longrightarrow> tlists k2 l = tlists k l"
      and c: "to = cur \<and> stat th = RT_THREAD_RUNNING \<and> threads k2 = (threads k1)(cur \<mapsto> ?lk\<lparr>oncpu := cpu_id k, stat_yield := False\<rparr>) \<and>
          (\<forall>u uh. eligible k u uh \<longrightarrow> current_priority th \<le> current_priority uh) \<and>
          (stat_yield th \<longrightarrow> (\<forall>u uh. eligible k u uh \<longrightarrow> current_priority th < current_priority uh)) \<or>
        (\<exists>toh. to \<noteq> cur \<and> eligible k to toh \<and> prio = int (current_priority toh) \<and>
          threads k2 = (threads k1)(cur \<mapsto> requeued ?lk, to \<mapsto> toh\<lparr>oncpu := cpu_id k\<rparr>) \<and>
          (stat th = RT_THREAD_RUNNING \<longrightarrow> current_priority toh < current_priority th \<or> current_priority toh = current_priority th \<and> stat_yield th) \<and>
          (\<forall>u uh. eligible k u uh \<longrightarrow> current_priority toh \<le> current_priority uh))"
      using pick_ok [OF ok1 th1 pk nm1 True, unfolded el self1 cc] by auto
    have enter: "rt_schedule k = (if to \<noteq> cur then do {
              let k3 = upd_cpu k2 (cpu_id k2) (cpu_current_priority_update (\<lambda>_. nat (u8 prio)));
              k4 \<leftarrow> rt_schedule_remove_thread k3 to;
              k5 \<leftarrow> upd_thread k4 to (stat_update (\<lambda>_. RT_THREAD_RUNNING));
              context_switch k5 to } else rt_cpus_unlock k2)"
      using lock R self1 th1 True pick by (simp add: rt_schedule_def)
    show ?thesis
    proof (cases "to = cur")
      case True
      then have k: "stat th = RT_THREAD_RUNNING" "threads k2 = (threads k)(cur \<mapsto> ?lk\<lparr>oncpu := cpu_id k, stat_yield := False\<rparr>)"
        "\<forall>u uh. eligible k u uh \<longrightarrow> current_priority th \<le> current_priority uh"
        "stat_yield th \<longrightarrow> (\<forall>u uh. eligible k u uh \<longrightarrow> current_priority th < current_priority uh)"
        using c by (auto simp: k1_def)
      show ?thesis using scheduled_keep [OF ok cpu rest lk ok2 f2 k] enter True by auto
    next
      case False
      then obtain toh where sw: "eligible k to toh" "threads k2 = (threads k)(cur \<mapsto> requeued ?lk, to \<mapsto> toh\<lparr>oncpu := cpu_id k\<rparr>)"
        "stat th = RT_THREAD_RUNNING \<longrightarrow> current_priority toh < current_priority th \<or> current_priority toh = current_priority th \<and> stat_yield th"
        "\<forall>u uh. eligible k u uh \<longrightarrow> current_priority toh \<le> current_priority uh"
        using c by (auto simp: k1_def)
      have t2: "threads k2 to = Some (toh\<lparr>oncpu := cpu_id k\<rparr>)" "stat (toh\<lparr>oncpu := cpu_id k\<rparr>) = RT_THREAD_READY"
        using sw(1,2) by (auto simp: eligible_def)
      obtain k' where k': "rt_schedule k = Some k'" "sched_ok {} k'" "cpu_id k' = cpu_id k" "ktimers k' = ktimers k"
          "threads k' = (threads k2)(to \<mapsto> taken_over (cpu_id k) toh)"
          "\<And>c. current_thread (cpus k' c) = (if c = cpu_id k then Some to else current_thread (cpus k c))"
          "\<And>c. irq_nest (cpus k' c) = irq_nest (cpus k c)" "\<And>l. \<not> is_readyq l \<Longrightarrow> tlists k' l = tlists k l"
        using switch_ok [OF ok2 t2, of "nat (u8 prio)"] enter False f2 by auto
      have "threads k' = (threads k)(cur \<mapsto> requeued ?lk, to \<mapsto> taken_over (cpu_id k) toh)" using k'(5) sw(2) by simp
      then show ?thesis using scheduled_switch [OF ok cpu rest lk False sw(1) k'(2-4) _ k'(6-8) sw(3,4)] k'(1) by blast
    qed
  qed
qed

text \<open>
  The scheduler's contract: from a consistent state, with the current thread at rest and
  something to run, the thread that runs afterwards is at least as urgent as every ready
  thread this processor may run; the current thread goes on unless it is not running, something
  more urgent is ready, or it yields to its equals.
\<close>

lemma schedule_ok:
  assumes ok: "sched_ok {} k" and cpu: "cpu_ok k" and rest: "at_rest k cur th"
    and lk: "lock_ok k"
    and some: "stat th = RT_THREAD_RUNNING \<or> (\<exists>u uh. eligible k u uh)"
  shows "\<exists>k' n nth. rt_schedule k = Some k' \<and> sched_ok {} k' \<and> cpu_ok k' \<and> cpu_id k' = cpu_id k \<and> ktimers k' = ktimers k \<and>
    lock_ok k' \<and> wait_same k k' \<and> (\<forall>c. irq_nest (cpus k' c) = irq_nest (cpus k c)) \<and>
    current_thread (rt_cpu_self k') = Some n \<and> threads k' n = Some nth \<and> stat nth = RT_THREAD_RUNNING \<and> lowest_ready k' nth \<and>
    (n \<noteq> cur \<longrightarrow> (\<exists>uh. eligible k n uh) \<and> (\<exists>ch. threads k' cur = Some ch \<and>
       stat ch = (if stat th = RT_THREAD_RUNNING then RT_THREAD_READY else stat th))) \<and>
    (stat th = RT_THREAD_RUNNING \<and> \<not> stat_yield th \<and> lowest_ready k th \<longrightarrow> n = cur) \<and>
    (stat th = RT_THREAD_RUNNING \<and> stat_yield th \<and> (\<exists>u uh. eligible k u uh \<and> current_priority uh = current_priority th) \<longrightarrow> n \<noteq> cur)"
  using schedule_scheduled [OF assms] unfolding scheduled_def .

end
