(* ===== verification/Thread.thy ===== *)
theory Thread
  imports Scheduler_Inv
begin

text \<open>
  Threads, after \<^verbatim>\<open>rt-thread/src/thread.c\<close>: initialisation and start, suspension and resumption,
  sleeping on the built-in timer, yielding and priority changes, and the tick handler of
  \<^verbatim>\<open>rt-thread/src/clock.c\<close>. A call that blocks is given by the part up to the switch to another thread and,
  where something is left to do, the part that runs when the thread goes on.
\<close>

section \<open>Operations\<close>

definition rt_thread_timer_stop :: "kernel \<Rightarrow> tid \<Rightarrow> kernel option" where
  "rt_thread_timer_stop k t = do { (r, s) \<leftarrow> rt_timer_stop (ktimers k) (ThreadTimer t); Some (k\<lparr>ktimers := s\<rparr>) }"

text \<open>Setting and starting the built-in timer, as every blocking call with a timeout does.\<close>

definition rt_thread_timer_start :: "kernel \<Rightarrow> tid \<Rightarrow> int \<Rightarrow> kernel option" where
  "rt_thread_timer_start k t timeout = do {
     (r, s1) \<leftarrow> rt_timer_control (ktimers k) (ThreadTimer t) (RT_TIMER_CTRL_SET_TIME timeout);
     s2 \<leftarrow> rt_timer_start s1 (ThreadTimer t);
     Some (k\<lparr>ktimers := s2\<rparr>)
   }"

text \<open>
  \<^verbatim>\<open>rt_thread_init\<close> with \<^verbatim>\<open>_thread_init\<close>. The stack is not modelled; \<open>static\<close> tells the object made
  by \<^verbatim>\<open>rt_thread_init\<close> from the one made by \<^verbatim>\<open>rt_thread_create\<close>.
\<close>

definition thread_init :: "kernel \<Rightarrow> tid \<Rightarrow> bool \<Rightarrow> nat \<Rightarrow> int \<Rightarrow> kernel option" where
  "thread_init k t static priority ticks = do {
     RT_ASSERT (priority < RT_THREAD_PRIORITY_MAX);
     s \<leftarrow> rt_timer_init (ktimers k) (ThreadTimer t) 0 False False;
     Some (k\<lparr>threads := (threads k)(t \<mapsto> \<lparr>stat = RT_THREAD_INIT, stat_yield = False, error = RT_EOK,
         init_priority = priority, current_priority = priority, number_mask = 0, bind_cpu = RT_CPUS_NR,
         oncpu = RT_CPU_DETACHED, scheduler_lock_nest = 0, cpus_lock_nest = 0, critical_lock_nest = 0,
         thread_init_tick = ticks, remaining_tick = ticks, taken_object_list = [], pending_object = None,
         event_set = 0, event_info = 0, thread_static = static\<rparr>), ktimers := s\<rparr>)
   }"

definition rt_thread_init :: "kernel \<Rightarrow> tid \<Rightarrow> nat \<Rightarrow> int \<Rightarrow> kernel option" where
  "rt_thread_init k t priority ticks = thread_init k t True priority ticks"

text \<open>The two allocations of \<^verbatim>\<open>rt_thread_create\<close> are parameters: whether they succeed.\<close>

definition rt_thread_create :: "bool \<Rightarrow> bool \<Rightarrow> kernel \<Rightarrow> tid \<Rightarrow> nat \<Rightarrow> int \<Rightarrow> (tid option \<times> kernel) option" where
  "rt_thread_create object_ok stack_ok k t priority ticks =
     (if \<not> object_ok \<or> \<not> stack_ok then Some (None, k)
      else do { k1 \<leftarrow> thread_init k t False priority ticks; Some (Some t, k1) })"

definition rt_thread_suspend :: "kernel \<Rightarrow> tid \<Rightarrow> (int \<times> kernel) option" where
  "rt_thread_suspend k t = do {
     th \<leftarrow> threads k t;
     RT_ASSERT (rt_thread_self k = Some t);
     (if stat th \<noteq> RT_THREAD_READY \<and> stat th \<noteq> RT_THREAD_RUNNING then Some (- RT_ERROR, k)
      else do {
        k1 \<leftarrow> rt_schedule_remove_thread k t;
        k2 \<leftarrow> upd_thread k1 t (stat_update (\<lambda>_. RT_THREAD_SUSPEND));
        k3 \<leftarrow> rt_thread_timer_stop k2 t;
        Some (RT_EOK, k3)
      })
   }"

definition rt_thread_resume :: "kernel \<Rightarrow> tid \<Rightarrow> (int \<times> kernel) option" where
  "rt_thread_resume k t = do {
     th \<leftarrow> threads k t;
     (if stat th \<noteq> RT_THREAD_SUSPEND then Some (- RT_ERROR, k)
      else do {
        let k1 = tlist_remove k t;
        k2 \<leftarrow> rt_thread_timer_stop k1 t;
        k3 \<leftarrow> rt_schedule_insert_thread k2 t;
        Some (RT_EOK, k3)
      })
   }"

definition rt_thread_startup :: "kernel \<Rightarrow> tid \<Rightarrow> kernel option" where
  "rt_thread_startup k t = do {
     th \<leftarrow> threads k t;
     RT_ASSERT (stat th = RT_THREAD_INIT);
     k1 \<leftarrow> upd_thread k t (\<lambda>th. th\<lparr>number_mask := 2 ^ current_priority th\<rparr>);
     k2 \<leftarrow> upd_thread k1 t (\<lambda>th. th\<lparr>stat := RT_THREAD_SUSPEND, stat_yield := False\<rparr>);
     (r, k3) \<leftarrow> rt_thread_resume k2 t;
     (if rt_thread_self k3 \<noteq> None then rt_schedule k3 else Some k3)
   }"

definition thread_timeout :: "kernel \<Rightarrow> tid \<Rightarrow> kernel option" where
  "thread_timeout k t = do {
     th \<leftarrow> threads k t;
     RT_ASSERT (stat th = RT_THREAD_SUSPEND);
     k1 \<leftarrow> upd_thread k t (error_update (\<lambda>_. - RT_ETIMEOUT));
     let k2 = tlist_remove k1 t;
     k3 \<leftarrow> rt_schedule_insert_thread k2 t;
     rt_schedule k3
   }"

text \<open>The yielding thread holds the lock across the switch; \<open>context_switch\<close> gives the counts back.\<close>

definition rt_thread_yield :: "kernel \<Rightarrow> kernel option" where
  "rt_thread_yield k = do {
     t \<leftarrow> rt_thread_self k;
     k1 \<leftarrow> rt_cpus_lock k;
     k2 \<leftarrow> upd_thread k1 t (\<lambda>th. th\<lparr>remaining_tick := thread_init_tick th, stat_yield := True\<rparr>);
     k3 \<leftarrow> rt_schedule k2;
     (if rt_thread_self k3 = Some t then rt_cpus_unlock k3 else Some k3)
   }"

definition rt_thread_sleep :: "kernel \<Rightarrow> int \<Rightarrow> (int call \<times> kernel) option" where
  "rt_thread_sleep k ticks =
     (if ticks = 0 then Some (Done (- RT_EINVAL), k)
      else do {
        t \<leftarrow> rt_thread_self k;
        th \<leftarrow> threads k t;
        RT_DEBUG_SCHEDULER_AVAILABLE k True;
        k1 \<leftarrow> upd_thread k t (error_update (\<lambda>_. RT_EOK));
        (r, k2) \<leftarrow> rt_thread_suspend k1 t;
        k3 \<leftarrow> rt_thread_timer_start k2 t ticks;
        k4 \<leftarrow> rt_schedule k3;
        Some (Blocked, k4)
      })"

text \<open>What is left of \<^verbatim>\<open>rt_thread_sleep\<close> when the thread goes on.\<close>

definition rt_thread_sleep_wake :: "kernel \<Rightarrow> (int \<times> kernel) option" where
  "rt_thread_sleep_wake k = do {
     t \<leftarrow> rt_thread_self k;
     k1 \<leftarrow> upd_thread k t (\<lambda>th. if error th = - RT_ETIMEOUT then th\<lparr>error := RT_EOK\<rparr> else th);
     th \<leftarrow> threads k1 t;
     Some (error th, k1)
   }"

definition rt_thread_delay :: "kernel \<Rightarrow> int \<Rightarrow> (int call \<times> kernel) option" where
  "rt_thread_delay k ticks = rt_thread_sleep k ticks"

definition rt_thread_mdelay :: "kernel \<Rightarrow> int \<Rightarrow> (int call \<times> kernel) option" where
  "rt_thread_mdelay k ms = rt_thread_sleep k (rt_tick_from_millisecond ms)"

text \<open>The result has the new value of \<^verbatim>\<open>*tick\<close>.\<close>

definition rt_thread_delay_until :: "kernel \<Rightarrow> int \<Rightarrow> int \<Rightarrow> (int \<times> int call \<times> kernel) option" where
  "rt_thread_delay_until k until inc_tick = do {
     t \<leftarrow> rt_thread_self k;
     k1 \<leftarrow> upd_thread k t (error_update (\<lambda>_. RT_EOK));
     let cur_tick = rt_tick_get (ktimers k1);
     (if u32 (cur_tick - until) < inc_tick then do {
        let tick' = u32 (until + inc_tick);
        let left_tick = u32 (tick' - cur_tick);
        (r, k2) \<leftarrow> rt_thread_suspend k1 t;
        k3 \<leftarrow> rt_thread_timer_start k2 t left_tick;
        k4 \<leftarrow> rt_schedule k3;
        Some (tick', Blocked, k4)
      }
      else do {
        th \<leftarrow> threads k1 t;
        Some (cur_tick, Done (error th), k1)
      })
   }"

text \<open>\<^verbatim>\<open>RT_THREAD_CTRL_CHANGE_PRIORITY\<close> and \<^verbatim>\<open>RT_THREAD_CTRL_BIND_CPU\<close> of \<^verbatim>\<open>rt_thread_control\<close>.\<close>

definition thread_change_priority :: "kernel \<Rightarrow> tid \<Rightarrow> nat \<Rightarrow> kernel option" where
  "thread_change_priority k t prio = do {
     th \<leftarrow> threads k t;
     (if stat th = RT_THREAD_READY then do {
        k1 \<leftarrow> rt_schedule_remove_thread k t;
        k2 \<leftarrow> upd_thread k1 t (\<lambda>th. th\<lparr>current_priority := prio, number_mask := 2 ^ prio\<rparr>);
        rt_schedule_insert_thread k2 t
      }
      else upd_thread k t (\<lambda>th. th\<lparr>current_priority := prio, number_mask := 2 ^ prio\<rparr>))
   }"

definition thread_bind_cpu :: "kernel \<Rightarrow> tid \<Rightarrow> nat \<Rightarrow> (int \<times> kernel) option" where
  "thread_bind_cpu k t cpu = do {
     th \<leftarrow> threads k t;
     (if stat th \<noteq> RT_THREAD_INIT then Some (RT_ERROR, k)
      else do {
        k1 \<leftarrow> upd_thread k t (bind_cpu_update (\<lambda>_. if cpu > RT_CPUS_NR then RT_CPUS_NR else cpu));
        Some (RT_EOK, k1)
      })
   }"

text \<open>
  \<^verbatim>\<open>rt_tick_increase\<close> up to its call of \<^verbatim>\<open>rt_timer_check\<close>: the system tick is the one of processor 0.
\<close>

definition tick_advance :: "kernel \<Rightarrow> kernel" where
  "tick_advance k = (if cpu_id k = 0 then k\<lparr>ktimers := (ktimers k)\<lparr>tick := u32 (tick (ktimers k) + 1)\<rparr>\<rparr>
     else upd_cpu k (cpu_id k) (\<lambda>c. c\<lparr>cpu_tick := u32 (cpu_tick c + 1)\<rparr>))"

definition rt_tick_increase_slice :: "kernel \<Rightarrow> kernel option" where
  "rt_tick_increase_slice k = do {
     let k1 = tick_advance k;
     t \<leftarrow> rt_thread_self k1;
     k2 \<leftarrow> upd_thread k1 t (\<lambda>th. th\<lparr>remaining_tick := u32 (remaining_tick th - 1)\<rparr>);
     th \<leftarrow> threads k2 t;
     (if remaining_tick th = 0 then do {
        k3 \<leftarrow> upd_thread k2 t (\<lambda>th. th\<lparr>remaining_tick := thread_init_tick th, stat_yield := True\<rparr>);
        rt_schedule k3
      }
      else Some k2)
   }"

section \<open>The kernel invariant\<close>

text \<open>Every thread that is not closed has its built-in timer, which is active only while the thread is suspended; a closed one has none.\<close>

definition timer_link :: "kernel \<Rightarrow> bool" where
  "timer_link k \<longleftrightarrow> timer_wf (ktimers k) \<and> (\<forall>t th. threads k t = Some th \<longrightarrow>
     (if stat th = RT_THREAD_CLOSE then timers (ktimers k) (ThreadTimer t) = None
      else \<exists>tm. timers (ktimers k) (ThreadTimer t) = Some tm \<and> \<not> soft tm \<and> \<not> periodic tm \<and> tstatic tm \<and>
        (activated tm \<longrightarrow> stat th = RT_THREAD_SUSPEND)))"

lemma timer_linkI:
  assumes "timer_wf (ktimers k)"
    "\<And>t th. threads k t = Some th \<Longrightarrow> stat th = RT_THREAD_CLOSE \<Longrightarrow> timers (ktimers k) (ThreadTimer t) = None"
    "\<And>t th. threads k t = Some th \<Longrightarrow> stat th \<noteq> RT_THREAD_CLOSE \<Longrightarrow>
      \<exists>tm. timers (ktimers k) (ThreadTimer t) = Some tm \<and> \<not> soft tm \<and> \<not> periodic tm \<and> tstatic tm \<and> (activated tm \<longrightarrow> stat th = RT_THREAD_SUSPEND)"
  shows "timer_link k"
  using assms unfolding timer_link_def by auto

lemma timer_linkD2:
  assumes "timer_link k" "threads k t = Some th" "timers (ktimers k) (ThreadTimer t) = Some tm"
  shows "\<not> soft tm" "\<not> periodic tm" "tstatic tm" "stat th \<noteq> RT_THREAD_CLOSE" "activated tm \<Longrightarrow> stat th = RT_THREAD_SUSPEND"
  using assms unfolding timer_link_def by (fastforce split: if_splits)+

text \<open>What keeps the timers and the states that matter to them keeps the link.\<close>

lemma timer_link_stats:
  assumes "timer_link k" "ktimers k' = ktimers k"
    "\<And>t h. threads k' t = Some h \<Longrightarrow> \<exists>th. threads k t = Some th \<and> (stat h = RT_THREAD_CLOSE \<longleftrightarrow> stat th = RT_THREAD_CLOSE) \<and>
      (stat th = RT_THREAD_SUSPEND \<longrightarrow> stat h = RT_THREAD_SUSPEND)"
  shows "timer_link k'"
proof (rule timer_linkI)
  show "timer_wf (ktimers k')" using assms(1,2) by (simp add: timer_link_def)
  fix t h assume h: "threads k' t = Some h"
  obtain th where th: "threads k t = Some th" "stat h = RT_THREAD_CLOSE \<longleftrightarrow> stat th = RT_THREAD_CLOSE"
      "stat th = RT_THREAD_SUSPEND \<longrightarrow> stat h = RT_THREAD_SUSPEND" using assms(3) [OF h] by blast
  have l: "if stat th = RT_THREAD_CLOSE then timers (ktimers k) (ThreadTimer t) = None
      else \<exists>tm. timers (ktimers k) (ThreadTimer t) = Some tm \<and> \<not> soft tm \<and> \<not> periodic tm \<and> tstatic tm \<and>
        (activated tm \<longrightarrow> stat th = RT_THREAD_SUSPEND)" using assms(1) th(1) unfolding timer_link_def by blast
  show "timers (ktimers k') (ThreadTimer t) = None" if "stat h = RT_THREAD_CLOSE" using l th(2) that assms(2) by simp
  show "\<exists>tm. timers (ktimers k') (ThreadTimer t) = Some tm \<and> \<not> soft tm \<and> \<not> periodic tm \<and> tstatic tm \<and> (activated tm \<longrightarrow> stat h = RT_THREAD_SUSPEND)"
    if "stat h \<noteq> RT_THREAD_CLOSE" using l th that assms(2) by auto
qed

definition kinv :: "tid set \<Rightarrow> kernel \<Rightarrow> bool" where
  "kinv X k \<longleftrightarrow> sched_ok X k \<and> cpu_ok k \<and> timer_link k \<and> lock_ok k"

lemma kinvD:
  assumes "kinv X k"
  shows "sched_ok X k" "cpu_ok k" "timer_link k" "lock_ok k"
  using assms by (simp_all add: kinv_def)

lemma timer_linkD:
  assumes "timer_link k" "threads k t = Some th" "stat th \<noteq> RT_THREAD_CLOSE"
  obtains tm where "timers (ktimers k) (ThreadTimer t) = Some tm" "\<not> soft tm" "\<not> periodic tm" "tstatic tm"
    "activated tm \<Longrightarrow> stat th = RT_THREAD_SUSPEND" "timer_ok tm"
  using assms timer_wfD(3) by (fastforce simp: timer_link_def)

lemma timer_stop_ok:
  assumes wf: "timer_wf s" and t: "timers s t = Some tm"
  shows "\<exists>b s'. rt_timer_stop s t = Some (b, s') \<and> timer_wf s' \<and> timers s' = (timers s)(t \<mapsto> tm\<lparr>activated := False\<rparr>) \<and> tick s' = tick s"
proof (cases "activated tm")
  case False
  then have "(timers s)(t \<mapsto> tm\<lparr>activated := False\<rparr>) = timers s" using t by (auto simp: fun_eq_iff)
  then show ?thesis using wf t False by (auto simp: rt_timer_stop_def)
next
  case True
  let ?s = "(timer_remove s t)\<lparr>timers := (timers s)(t \<mapsto> tm\<lparr>activated := False\<rparr>)\<rparr>"
  have "rt_timer_stop s t = Some (True, ?s)"
    using t True by (simp add: rt_timer_stop_def upd_timer_def timer_remove_def)
  moreover have "timer_wf ?s"
    using wf t by (auto simp: timer_wf_def listed_def timer_ok_def timer_remove_def)
  ultimately show ?thesis by (auto simp: timer_remove_def)
qed

text \<open>After a stop the thread's state is free as far as its timer is concerned.\<close>

lemma thread_timer_stop_ok:
  assumes l: "timer_link k" and th: "threads k t = Some th" "stat th \<noteq> RT_THREAD_CLOSE"
  shows "\<exists>s. rt_thread_timer_stop k t = Some (k\<lparr>ktimers := s\<rparr>) \<and> tick s = tick (ktimers k) \<and> timer_link (k\<lparr>ktimers := s\<rparr>) \<and>
    (\<forall>h. stat h \<noteq> RT_THREAD_CLOSE \<longrightarrow> timer_link (k\<lparr>ktimers := s, threads := (threads k)(t \<mapsto> h)\<rparr>))"
proof -
  obtain tm where tm: "timers (ktimers k) (ThreadTimer t) = Some tm" "\<not> soft tm" "\<not> periodic tm" "tstatic tm"
    by (rule timer_linkD [OF l th])
  obtain b s where s: "rt_timer_stop (ktimers k) (ThreadTimer t) = Some (b, s)" "timer_wf s"
      "timers s = (timers (ktimers k))(ThreadTimer t \<mapsto> tm\<lparr>activated := False\<rparr>)" "tick s = tick (ktimers k)"
    using timer_stop_ok [OF _ tm(1)] l by (auto simp: timer_link_def)
  have "timer_link (k\<lparr>ktimers := s, threads := (threads k)(t \<mapsto> h)\<rparr>)" if "stat h \<noteq> RT_THREAD_CLOSE" for h
    using l tm s(2,3) that by (auto simp: timer_link_def)
  moreover from this [OF th(2)] have "timer_link (k\<lparr>ktimers := s\<rparr>)" using th(1) by (simp add: fun_upd_idem)
  ultimately show ?thesis using s(1,4) by (auto simp: rt_thread_timer_stop_def)
qed

lemma thread_timer_start_ok:
  assumes l: "timer_link k" and th: "threads k t = Some th" "stat th = RT_THREAD_SUSPEND" and v: "0 < v" "v < half"
  shows "\<exists>s tm. rt_thread_timer_start k t v = Some (k\<lparr>ktimers := s\<rparr>) \<and> timer_link (k\<lparr>ktimers := s\<rparr>) \<and> tick s = tick (ktimers k) \<and>
    timers s (ThreadTimer t) = Some tm \<and> activated tm \<and> timeout_tick tm = u32 (tick (ktimers k) + v) \<and> ThreadTimer t \<in> set (timer_list s)"
proof -
  obtain tm where tm: "timers (ktimers k) (ThreadTimer t) = Some tm" "\<not> soft tm" "\<not> periodic tm" "tstatic tm" "timer_ok tm"
    by (rule timer_linkD [OF l th(1)]) (simp add: th(2))
  have wf: "timer_wf (ktimers k)" using l by (simp add: timer_link_def)
  have u: "u32 v = v" using v by (simp add: c_store half_def)
  let ?tm = "tm\<lparr>Timer.init_tick := v\<rparr>"
  let ?s1 = "(ktimers k)\<lparr>timers := (timers (ktimers k))(ThreadTimer t \<mapsto> ?tm)\<rparr>"
  have c: "rt_timer_control (ktimers k) (ThreadTimer t) (RT_TIMER_CTRL_SET_TIME v) = Some (None, ?s1)"
    using tm v u by (simp add: rt_timer_control_def upd_timer_def)
  have wf1: "timer_wf ?s1" using wf tm v by (auto simp: timer_wf_def listed_def timer_ok_def)
  have t1: "timers ?s1 (ThreadTimer t) = Some ?tm" "\<not> soft ?tm" using tm by auto
  obtain s where s: "rt_timer_start ?s1 (ThreadTimer t) = Some s" "timer_wf s" "tick s = tick (ktimers k)"
      "timers s = (timers ?s1)(ThreadTimer t \<mapsto> ?tm\<lparr>activated := True, timeout_tick := u32 (tick (ktimers k) + v)\<rparr>)"
      "timer_list s = timer_insert (deadline_of ?s1) (ThreadTimer t) (u32 (tick (ktimers k) + v)) (remove1 (ThreadTimer t) (timer_list ?s1))"
    using timer_start_hard [OF wf1 t1] by auto
  have "timer_link (k\<lparr>ktimers := s\<rparr>)"
    using l tm th s(2,4) by (auto simp: timer_link_def)
  then show ?thesis using c s by (auto simp: rt_thread_timer_start_def)
qed

section \<open>What an operation leaves alone\<close>

text \<open>The IPC objects.\<close>

definition same_objs :: "kernel \<Rightarrow> kernel \<Rightarrow> bool" where
  "same_objs k k' \<longleftrightarrow> sems k' = sems k \<and> mutexes k' = mutexes k \<and> events k' = events k \<and>
     mailboxes k' = mailboxes k \<and> msgqueues k' = msgqueues k \<and> mempools k' = mempools k \<and> mp_words k' = mp_words k \<and>
     completions k' = completions k \<and> dataqueues k' = dataqueues k"

text \<open>The same as one value, for the proofs of the frame rules.\<close>

definition objs where
  "objs k = (sems k, mutexes k, events k, mailboxes k, msgqueues k, (mempools k, mp_words k), completions k, dataqueues k)"

lemma same_objs_iff: "same_objs k k' \<longleftrightarrow> objs k' = objs k"
  by (auto simp: same_objs_def objs_def)

lemma objs_upd [simp]:
  "objs (k\<lparr>threads := a\<rparr>) = objs k" "objs (k\<lparr>tlists := b\<rparr>) = objs k" "objs (k\<lparr>cpus := c\<rparr>) = objs k" "objs (k\<lparr>ktimers := d\<rparr>) = objs k"
  "objs (k\<lparr>ipi_sent := e\<rparr>) = objs k" "objs (k\<lparr>ready_priority_group := f\<rparr>) = objs k"
  by (simp_all add: objs_def)

named_theorems frame "operations that leave the IPC objects alone"

lemma same_objs_refl [simp]: "same_objs k k"
  by (simp add: same_objs_def)

lemma same_objs_trans: "same_objs a b \<Longrightarrow> same_objs b c \<Longrightarrow> same_objs a c"
  by (simp add: same_objs_def)

lemma frame_upd [frame]:
  "upd_thread k t f = Some k' \<Longrightarrow> same_objs k k'"
  by (auto simp: upd_thread_def same_objs_def split: option.splits)

lemma frame_cpu [simp]:
  "same_objs k (upd_cpu k' c f) = same_objs k k'" "same_objs k (tlist_remove k' t) = same_objs k k'"
  "same_objs k (tlist_insert_before k' l t) = same_objs k k'" "same_objs k (tlist_insert_after k' l t) = same_objs k k'"
  "same_objs k (k'\<lparr>ready_priority_group := g\<rparr>) = same_objs k k'" "same_objs k (k'\<lparr>ipi_sent := i\<rparr>) = same_objs k k'"
  "same_objs k (k'\<lparr>ktimers := s\<rparr>) = same_objs k k'" "same_objs k (rt_cpus_lock_status_restore k' t) = same_objs k k'"
  by (simp_all add: same_objs_def upd_cpu_def tlist_remove_def tlist_insert_before_def tlist_insert_after_def
      rt_cpus_lock_status_restore_def)

lemma frame_lock [frame]:
  "rt_cpus_lock k = Some k' \<Longrightarrow> same_objs k k'" "rt_cpus_unlock k = Some k' \<Longrightarrow> same_objs k k'"
  by (auto simp: rt_cpus_lock_def rt_cpus_unlock_def split: option.splits dest: frame_upd)

lemma frame_insert [frame]: "rt_schedule_insert_thread k t = Some k' \<Longrightarrow> same_objs k k'"
proof -
  assume run: "rt_schedule_insert_thread k t = Some k'"
  then obtain th where th: "threads k t = Some th" by (auto simp: rt_schedule_insert_thread_def bind_eq_Some_conv)
  show ?thesis
    using run th
    by (cases "oncpu th = 2"; cases "bind_cpu th = 2"; cases "stat_yield th")
       (auto simp: rt_schedule_insert_thread_def upd_thread_def Let_def same_objs_def tlist_insert_before_def
         tlist_insert_after_def upd_cpu_def)
qed

lemma frame_remove [frame]: "rt_schedule_remove_thread k t = Some k' \<Longrightarrow> same_objs k k'"
  by (auto simp: rt_schedule_remove_thread_def Let_def bind_eq_Some_conv split: if_splits)

lemma frame_switch [frame]: "context_switch k t = Some k' \<Longrightarrow> same_objs k k'"
  unfolding context_switch_def by (drule frame_upd) (simp add: same_objs_def rt_cpus_lock_status_restore_def upd_cpu_def)

lemma frame_pick [frame]: "schedule_pick k cur = Some (to, p, k') \<Longrightarrow> same_objs k k'"
  unfolding schedule_pick_def
  by (auto simp: bind_eq_Some_conv same_objs_iff split: if_splits dest!: frame [unfolded same_objs_iff])

lemma frame_schedule [frame]: "rt_schedule k = Some k' \<Longrightarrow> same_objs k k'"
  unfolding rt_schedule_def Let_def
  by (auto simp: bind_eq_Some_conv same_objs_iff upd_cpu_def split: if_splits dest!: frame [unfolded same_objs_iff])

lemma frame_timer [frame]:
  "rt_thread_timer_stop k t = Some k' \<Longrightarrow> same_objs k k'" "rt_thread_timer_start k t v = Some k' \<Longrightarrow> same_objs k k'"
  by (auto simp: rt_thread_timer_stop_def rt_thread_timer_start_def bind_eq_Some_conv)

lemma frame_suspend [frame]: "rt_thread_suspend k t = Some (r, k') \<Longrightarrow> same_objs k k'"
  unfolding rt_thread_suspend_def
  by (auto simp: bind_eq_Some_conv same_objs_iff split: if_splits dest!: frame [unfolded same_objs_iff])

lemma frame_resume [frame]: "rt_thread_resume k t = Some (r, k') \<Longrightarrow> same_objs k k'"
  unfolding rt_thread_resume_def Let_def
  by (auto simp: bind_eq_Some_conv same_objs_iff tlist_remove_def split: if_splits dest!: frame [unfolded same_objs_iff])

section \<open>Suspension and resumption\<close>

text \<open>What the other processors and the clock see of a step.\<close>

definition same_env :: "kernel \<Rightarrow> kernel \<Rightarrow> bool" where
  "same_env k k' \<longleftrightarrow> cpu_id k' = cpu_id k \<and> tick (ktimers k') = tick (ktimers k) \<and>
     (\<forall>c. current_thread (cpus k' c) = current_thread (cpus k c) \<and> irq_nest (cpus k' c) = irq_nest (cpus k c))"

lemma same_env_refl [simp]: "same_env k k"
  by (simp add: same_env_def)

lemma same_env_trans: "same_env a b \<Longrightarrow> same_env b c \<Longrightarrow> same_env a c"
  by (simp add: same_env_def)

lemma same_env_self: "same_env k k' \<Longrightarrow> rt_thread_self k' = rt_thread_self k \<and> irq_nest (rt_cpu_self k') = irq_nest (rt_cpu_self k)"
  by (simp add: same_env_def rt_thread_self_def rt_cpu_self_def)

lemma tlist_remove_ok:
  assumes ok: "sched_ok X k" and th: "threads k t = Some th" "stat th \<noteq> RT_THREAD_READY"
  shows "sched_ok (insert t X) (tlist_remove k t)"
proof -
  have n: "t \<notin> set (tlists k l)" if "is_readyq l" for l
    using sched_okD(7) [OF ok, of t l] th that by (auto simp: lid_stat_def)
  have g: "group_ok (ready_priority_group k) (\<lambda>p. remove1 t (tlists k (ReadyQ p)))"
    "\<And>c. c < 2 \<Longrightarrow> group_ok (priority_group (cpus k c)) (\<lambda>p. remove1 t (tlists k (CpuReadyQ c p)))"
    using sched_okD(2,3) [OF ok] n by (simp_all add: remove1_idem)
  have sq: "u \<in> set (remove1 t (tlists k l)) \<longleftrightarrow> u \<in> set (tlists k l) \<and> u \<noteq> t" for u l
    using sched_okD(4) [OF ok, of l] by auto
  show ?thesis
    unfolding sched_ok_def tlist_remove_def
    using sched_okD(1) [OF ok] g sched_okD(4,5,6,7,8,9) [OF ok] by (simp add: sq) blast
qed

lemma cpu_ok_upd:
  assumes "cpu_ok k" "threads k t = Some th" "oncpu h = oncpu th" "stat h = RT_THREAD_READY \<Longrightarrow> oncpu h = 2"
    "\<And>c. current_thread (cpus k' c) = current_thread (cpus k c)" "threads k' = (threads k)(t \<mapsto> h)"
  shows "cpu_ok k'"
  using assms unfolding cpu_ok_def by (auto split: if_splits)

lemma lock_ok_upd:
  assumes "lock_ok k" "threads k t = Some th" "oncpu h = oncpu th" "cpus_lock_nest h = cpus_lock_nest th"
    "scheduler_lock_nest h = scheduler_lock_nest th" "threads k' = (threads k)(t \<mapsto> h)"
  shows "lock_ok k'"
  using assms unfolding lock_ok_def by (auto split: if_splits)

lemma current_running:
  assumes k: "kinv X k" and self: "rt_thread_self k = Some t" and th: "threads k t = Some th"
  shows "oncpu th = cpu_id k" "stat th \<noteq> RT_THREAD_READY" "cpu_id k < 2"
proof -
  show c: "cpu_id k < 2" using sched_okD(1) [OF kinvD(1) [OF k]] .
  show o: "oncpu th = cpu_id k"
    using cpu_okD(1) [OF kinvD(2) [OF k] c, of t] self th by (auto simp: rt_thread_self_def rt_cpu_self_def)
  show "stat th \<noteq> RT_THREAD_READY" using cpu_okD(2) [OF kinvD(2) [OF k] th] o c by auto
qed

lemma suspend_ok:
  assumes k: "kinv {} k" and self: "rt_thread_self k = Some t" and th: "threads k t = Some th" "stat th = RT_THREAD_RUNNING"
  shows "\<exists>k'. rt_thread_suspend k t = Some (RT_EOK, k') \<and> kinv {} k' \<and> same_env k k' \<and> same_objs k k' \<and>
    threads k' = (threads k)(t \<mapsto> th\<lparr>stat := RT_THREAD_SUSPEND\<rparr>) \<and> tlists k' = tlists k"
proof -
  note ok = kinvD(1) [OF k]
  obtain k1 where k1: "rt_schedule_remove_thread k t = Some k1" "sched_ok {t} k1" "threads k1 = threads k"
      "tlists k1 = (\<lambda>l. remove1 t (tlists k l))" "cpu_id k1 = cpu_id k" "ktimers k1 = ktimers k"
      "\<And>c. current_thread (cpus k1 c) = current_thread (cpus k c)" "\<And>c. irq_nest (cpus k1 c) = irq_nest (cpus k c)"
    using remove_ok [OF ok th(1)] by auto
  have tl: "tlists k1 = tlists k" using k1(4) running_unlisted [OF ok th] by (auto simp: remove1_idem)
  let ?h = "th\<lparr>stat := RT_THREAD_SUSPEND\<rparr>"
  define k2 where "k2 = k1\<lparr>threads := (threads k)(t \<mapsto> ?h)\<rparr>"
  have u: "upd_thread k1 t (stat_update (\<lambda>_. RT_THREAD_SUSPEND)) = Some k2"
    using th by (simp add: upd_thread_def k1(3) k2_def)
  have wf: "thread_wf ?h" using sched_okD(8) [OF ok th(1)] th(2) by (auto simp: thread_wf_def)
  have "sched_ok {t} k2" unfolding k2_def k1(3) [symmetric] by (rule sched_ok_upd_exempt [OF k1(2) _ wf]) simp
  then have "sched_ok ({t} - {t}) k2" by (rule sched_ok_settle [where th = ?h]) (simp_all add: k2_def)
  then have ok2: "sched_ok {} k2" by simp
  have t2: "threads k2 t = Some ?h" by (simp add: k2_def)
  have l2: "timer_link k2" by (rule timer_link_stats [OF kinvD(3) [OF k]]) (use th in \<open>auto simp: k2_def k1(6) split: if_splits\<close>)
  obtain s where s: "rt_thread_timer_stop k2 t = Some (k2\<lparr>ktimers := s\<rparr>)" "tick s = tick (ktimers k2)" "timer_link (k2\<lparr>ktimers := s\<rparr>)"
    using thread_timer_stop_ok [OF l2 t2] by auto
  let ?k' = "k2\<lparr>ktimers := s\<rparr>"
  have run: "rt_thread_suspend k t = Some (RT_EOK, ?k')"
    using th self k1(1) u s(1) by (simp add: rt_thread_suspend_def)
  have "sched_ok {} ?k'" by (rule sched_ok_cong [OF ok2]) simp_all
  moreover have "cpu_ok ?k'"
    by (rule cpu_ok_upd [OF kinvD(2) [OF k] th(1), of ?h]) (simp_all add: k2_def k1)
  moreover have "lock_ok ?k'"
    by (rule lock_ok_upd [OF kinvD(4) [OF k] th(1), of ?h]) (simp_all add: k2_def)
  ultimately have "kinv {} ?k'" using s(3) by (simp add: kinv_def)
  moreover have "same_env k ?k'" using k1 s(2) by (simp add: same_env_def k2_def)
  ultimately show ?thesis using run frame_suspend [OF run] tl by (auto simp: k2_def)
qed

definition resumed :: "rt_thread \<Rightarrow> rt_thread" where
  "resumed th = th\<lparr>stat := (if oncpu th = 2 then RT_THREAD_READY else RT_THREAD_RUNNING)\<rparr>"

definition enqueue_ready :: "(lid \<Rightarrow> tid list) \<Rightarrow> tid \<Rightarrow> rt_thread \<Rightarrow> (lid \<Rightarrow> tid list)" where
  "enqueue_ready q t th = (if oncpu th = 2
     then q(readyq th := (if stat_yield th then q (readyq th) @ [t] else t # q (readyq th))) else q)"

text \<open>Taking a suspended thread off its list and making it ready, with its timer stopped.\<close>

lemma wake_ok:
  assumes k: "sched_ok {} k" "cpu_ok k" "lock_ok k" and th: "threads k t = Some th" "stat th = RT_THREAD_SUSPEND"
    and l: "timer_link (k\<lparr>threads := (threads k)(t \<mapsto> resumed th)\<rparr>)"
  shows "\<exists>k'. rt_schedule_insert_thread (tlist_remove k t) t = Some k' \<and> kinv {} k' \<and> same_env k k' \<and>
    threads k' = (threads k)(t \<mapsto> resumed th) \<and> tlists k' = enqueue_ready (\<lambda>l. remove1 t (tlists k l)) t th"
proof -
  have t1: "threads (tlist_remove k t) t = Some th" using th by (simp add: tlist_remove_def)
  have ok1: "sched_ok {t} (tlist_remove k t)" using tlist_remove_ok [OF k(1) th(1)] th(2) by simp
  have nm: "number_mask th = 2 ^ current_priority th" using sched_okD(8) [OF k(1) th(1)] th(2) by (auto simp: thread_wf_def)
  obtain k' where k': "rt_schedule_insert_thread (tlist_remove k t) t = Some k'" "sched_ok {} k'"
      "threads k' = (threads k)(t \<mapsto> resumed th)" "tlists k' = enqueue_ready (\<lambda>l. remove1 t (tlists k l)) t th"
      "cpu_id k' = cpu_id k" "ktimers k' = ktimers k"
      "\<And>c. current_thread (cpus k' c) = current_thread (cpus k c)" "\<And>c. irq_nest (cpus k' c) = irq_nest (cpus k c)"
    using insert_ok [OF ok1 _ t1 nm] by (auto simp: resumed_def enqueue_ready_def tlist_remove_def)
  have "cpu_ok k'"
    by (rule cpu_ok_upd [OF k(2) th(1), of "resumed th"]) (simp_all add: k' resumed_def split: if_splits)
  moreover have "timer_link k'" by (rule timer_link_stats [OF l]) (simp_all add: k')
  moreover have "lock_ok k'"
    by (rule lock_ok_upd [OF k(3) th(1), of "resumed th"]) (simp_all add: k' resumed_def)
  ultimately show ?thesis using k' by (auto simp: kinv_def same_env_def)
qed

lemma resume_ok:
  assumes k: "kinv {} k" and th: "threads k t = Some th" "stat th = RT_THREAD_SUSPEND"
  shows "\<exists>k'. rt_thread_resume k t = Some (RT_EOK, k') \<and> kinv {} k' \<and> same_env k k' \<and> same_objs k k' \<and>
    threads k' = (threads k)(t \<mapsto> resumed th) \<and> tlists k' = enqueue_ready (\<lambda>l. remove1 t (tlists k l)) t th"
proof -
  have c: "stat th \<noteq> RT_THREAD_CLOSE" "stat (resumed th) \<noteq> RT_THREAD_CLOSE" using th(2) by (simp_all add: resumed_def)
  obtain s where s: "rt_thread_timer_stop k t = Some (k\<lparr>ktimers := s\<rparr>)" "tick s = tick (ktimers k)"
      "timer_link (k\<lparr>ktimers := s, threads := (threads k)(t \<mapsto> resumed th)\<rparr>)"
    using thread_timer_stop_ok [OF kinvD(3) [OF k] th(1) c(1)] c(2) by blast
  let ?k1 = "k\<lparr>ktimers := s\<rparr>"
  have ok1: "sched_ok {} ?k1" by (rule sched_ok_cong [OF kinvD(1) [OF k]]) simp_all
  have cpu1: "cpu_ok ?k1" "lock_ok ?k1" using kinvD(2,4) [OF k] by (auto simp: cpu_ok_def lock_ok_def)
  obtain k' where k': "rt_schedule_insert_thread (tlist_remove ?k1 t) t = Some k'" "kinv {} k'" "same_env ?k1 k'"
      "threads k' = (threads k)(t \<mapsto> resumed th)" "tlists k' = enqueue_ready (\<lambda>l. remove1 t (tlists k l)) t th"
    using wake_ok [OF ok1 cpu1, of t th] th s(3) by auto
  obtain b where b: "rt_timer_stop (ktimers k) (ThreadTimer t) = Some (b, s)"
    using s(1) by (auto simp: rt_thread_timer_stop_def bind_eq_Some_conv dest: arg_cong [of _ _ ktimers])
  have "rt_thread_timer_stop (tlist_remove k t) t = Some (tlist_remove ?k1 t)"
    by (simp add: rt_thread_timer_stop_def tlist_remove_def b)
  then have run: "rt_thread_resume k t = Some (RT_EOK, k')" using th k'(1) by (simp add: rt_thread_resume_def)
  moreover have "same_env k k'" using k'(3) s(2) by (simp add: same_env_def)
  ultimately show ?thesis using k' frame_resume [OF run] by blast
qed

section \<open>Updates that the invariant does not see\<close>

definition same_thread :: "rt_thread \<Rightarrow> rt_thread \<Rightarrow> bool" where
  "same_thread th h \<longleftrightarrow> stat h = stat th \<and> current_priority h = current_priority th \<and> bind_cpu h = bind_cpu th \<and>
     oncpu h = oncpu th \<and> number_mask h = number_mask th \<and> init_priority h = init_priority th \<and>
     cpus_lock_nest h = cpus_lock_nest th \<and> scheduler_lock_nest h = scheduler_lock_nest th"

lemma kinv_upd:
  assumes k: "kinv X k" and th: "threads k t = Some th" and s: "same_thread th h"
  shows "kinv X (k\<lparr>threads := (threads k)(t \<mapsto> h)\<rparr>)"
proof -
  have wf: "thread_wf th" using sched_okD(8) [OF kinvD(1) [OF k] th] .
  have "sched_ok X (k\<lparr>threads := (threads k)(t \<mapsto> h)\<rparr>)"
    by (rule sched_ok_upd_same [OF kinvD(1) [OF k] th]) (use s wf in \<open>auto simp: same_thread_def same_sched_def thread_wf_def\<close>)
  moreover have "cpu_ok (k\<lparr>threads := (threads k)(t \<mapsto> h)\<rparr>)"
    by (rule cpu_ok_upd [OF kinvD(2) [OF k] th, of h]) (use s cpu_okD(2) [OF kinvD(2) [OF k] th] in \<open>auto simp: same_thread_def\<close>)
  moreover have "timer_link (k\<lparr>threads := (threads k)(t \<mapsto> h)\<rparr>)"
    by (rule timer_link_stats [OF kinvD(3) [OF k]]) (use th s in \<open>auto simp: same_thread_def split: if_splits\<close>)
  moreover have "lock_ok (k\<lparr>threads := (threads k)(t \<mapsto> h)\<rparr>)"
    by (rule lock_ok_upd [OF kinvD(4) [OF k] th, of h]) (use s in \<open>auto simp: same_thread_def\<close>)
  ultimately show ?thesis by (simp add: kinv_def)
qed

lemma kinv_cong:
  assumes "kinv X k" "cpu_id k' = cpu_id k" "ready_priority_group k' = ready_priority_group k"
    "cpus k' = cpus k" "threads k' = threads k" "tlists k' = tlists k" "timer_link k'"
  shows "kinv X k'"
proof -
  have "sched_ok X k'" by (rule sched_ok_cong [OF kinvD(1) [OF assms(1)]]) (simp_all add: assms)
  moreover have "cpu_ok k'" "lock_ok k'"
    using kinvD(2,4) [OF assms(1)] by (auto simp: cpu_ok_def lock_ok_def assms(4,5))
  ultimately show ?thesis using assms(7) by (simp add: kinv_def)
qed

text \<open>Objects are not part of it.\<close>

lemma kinv_objs [simp]:
  "kinv X (k\<lparr>sems := a\<rparr>) = kinv X k" "kinv X (k\<lparr>mutexes := b\<rparr>) = kinv X k" "kinv X (k\<lparr>events := c\<rparr>) = kinv X k"
  "kinv X (k\<lparr>mailboxes := d\<rparr>) = kinv X k" "kinv X (k\<lparr>msgqueues := e\<rparr>) = kinv X k"
  "kinv X (k\<lparr>mempools := f\<rparr>) = kinv X k" "kinv X (k\<lparr>mp_words := g\<rparr>) = kinv X k"
  "kinv X (k\<lparr>completions := h\<rparr>) = kinv X k" "kinv X (k\<lparr>dataqueues := i\<rparr>) = kinv X k"
  by (simp_all add: kinv_def sched_ok_def cpu_ok_def timer_link_def lock_ok_def)

section \<open>Blocking\<close>

text \<open>
  The steps every blocking call makes before it switches away, and after which the waiting
  thread is on a list of its own choice: none for a sleep, the waiting list of an object.
\<close>

lemma timer_link_wait_same:
  assumes "timer_link k" "wait_same k k'" "ktimers k' = ktimers k"
  shows "timer_link k'"
proof (rule timer_link_stats [OF assms(1,3)])
  fix t th assume "threads k' t = Some th"
  then obtain h where h: "threads k t = Some h" "sched_eq h th"
    using assms(2) unfolding wait_same_def by (metis option_rel_Some2)
  then show "\<exists>h. threads k t = Some h \<and> (stat th = RT_THREAD_CLOSE \<longleftrightarrow> stat h = RT_THREAD_CLOSE) \<and>
      (stat h = RT_THREAD_SUSPEND \<longrightarrow> stat th = RT_THREAD_SUSPEND)"
    by (cases "stat h") (auto simp: sched_eq_def)
qed

lemma schedule_kinv:
  assumes k: "kinv {} k" and self: "rt_thread_self k = Some cur" and th: "threads k cur = Some th" "stat th \<noteq> RT_THREAD_INIT"
    and irq: "irq_nest (rt_cpu_self k) = 0"
    and some: "stat th = RT_THREAD_RUNNING \<or> (\<exists>u uh. eligible k u uh)"
  shows "\<exists>k' n nth. rt_schedule k = Some k' \<and> kinv {} k' \<and> same_objs k k' \<and> wait_same k k' \<and> ktimers k' = ktimers k \<and>
    cpu_id k' = cpu_id k \<and> irq_nest (rt_cpu_self k') = 0 \<and>
    rt_thread_self k' = Some n \<and> threads k' n = Some nth \<and> stat nth = RT_THREAD_RUNNING \<and> lowest_ready k' nth \<and>
    (n \<noteq> cur \<longrightarrow> (\<exists>uh. eligible k n uh)) \<and>
    (stat th = RT_THREAD_RUNNING \<and> \<not> stat_yield th \<and> lowest_ready k th \<longrightarrow> n = cur) \<and>
    (stat th = RT_THREAD_RUNNING \<and> stat_yield th \<and> (\<exists>u uh. eligible k u uh \<and> current_priority uh = current_priority th) \<longrightarrow> n \<noteq> cur)"
proof -
  have "oncpu th < 2" using current_running [OF k self th(1)] by simp
  then have "cpus_lock_nest th = 0" "scheduler_lock_nest th = 0"
    using kinvD(4) [OF k] th(1) unfolding lock_ok_def by fastforce+
  then have ar: "at_rest k cur th" using self th irq by (simp add: at_rest_def)
  obtain k' n nth where k': "rt_schedule k = Some k'" "sched_ok {} k'" "cpu_ok k'" "cpu_id k' = cpu_id k" "ktimers k' = ktimers k"
      "lock_ok k'" "wait_same k k'" "\<forall>c. irq_nest (cpus k' c) = irq_nest (cpus k c)"
      "current_thread (rt_cpu_self k') = Some n" "threads k' n = Some nth" "stat nth = RT_THREAD_RUNNING" "lowest_ready k' nth"
      "n \<noteq> cur \<longrightarrow> (\<exists>uh. eligible k n uh)"
      "stat th = RT_THREAD_RUNNING \<and> \<not> stat_yield th \<and> lowest_ready k th \<longrightarrow> n = cur"
      "stat th = RT_THREAD_RUNNING \<and> stat_yield th \<and> (\<exists>u uh. eligible k u uh \<and> current_priority uh = current_priority th) \<longrightarrow> n \<noteq> cur"
    using schedule_ok [OF kinvD(1,2) [OF k] ar kinvD(4) [OF k] some] by blast
  have "kinv {} k'" using k'(2,3,6) timer_link_wait_same [OF kinvD(3) [OF k] k'(7,5)] by (simp add: kinv_def)
  moreover have "irq_nest (rt_cpu_self k') = 0" using k'(4,8) irq by (simp add: rt_cpu_self_def)
  ultimately show ?thesis
    using k' frame_schedule [OF k'(1)]
    by (intro exI [of _ k'] exI [of _ n] exI [of _ nth]) (simp add: rt_thread_self_def)
qed

text \<open>In an interrupt the switch is only noted.\<close>

lemma schedule_irq:
  assumes k: "kinv {} k" and self: "rt_thread_self k = Some cur" and th: "threads k cur = Some th"
    and irq: "irq_nest (rt_cpu_self k) \<noteq> 0"
  shows "rt_schedule k = Some (upd_cpu k (cpu_id k) (irq_switch_flag_update (\<lambda>_. True)))"
proof -
  have "oncpu th < 2" using current_running [OF k self th] by simp
  then have c: "cpus_lock_nest th = 0" "scheduler_lock_nest th = 0"
    using kinvD(4) [OF k] th unfolding lock_ok_def by fastforce+
  let ?lk = "th\<lparr>cpus_lock_nest := 1, scheduler_lock_nest := 1\<rparr>"
  let ?k1 = "k\<lparr>threads := (threads k)(cur \<mapsto> ?lk)\<rparr>"
  have l: "rt_cpus_lock k = Some ?k1" using self th c by (simp add: rt_cpus_lock_def upd_thread_def c_store)
  have e: "?lk\<lparr>cpus_lock_nest := 0, scheduler_lock_nest := 0\<rparr> = th" using c by simp
  have f: "(threads k)(cur \<mapsto> th) = threads k" using th by (simp add: fun_upd_idem)
  have s: "rt_thread_self (upd_cpu ?k1 (cpu_id k) (irq_switch_flag_update (\<lambda>_. True))) = Some cur"
    using self by (simp add: rt_thread_self_def rt_cpu_self_def upd_cpu_def)
  have "rt_cpus_unlock (upd_cpu ?k1 (cpu_id k) (irq_switch_flag_update (\<lambda>_. True))) =
      Some (upd_cpu k (cpu_id k) (irq_switch_flag_update (\<lambda>_. True)))"
    using s e f unfolding rt_cpus_unlock_def by (simp add: upd_thread_def upd_cpu_def c_store)
  then show ?thesis
    using l irq by (simp add: rt_schedule_def rt_cpu_self_def)
qed

lemma kinv_irq_flag [simp]: "kinv X (upd_cpu k c (irq_switch_flag_update f)) = kinv X k"
proof -
  let ?k = "upd_cpu k c (irq_switch_flag_update f)"
  have c: "current_thread (cpus ?k x) = current_thread (cpus k x)" "priority_group (cpus ?k x) = priority_group (cpus k x)" for x
    by (simp_all add: upd_cpu_def)
  have e: "threads ?k = threads k" "tlists ?k = tlists k" "ktimers ?k = ktimers k" "cpu_id ?k = cpu_id k"
      "ready_priority_group ?k = ready_priority_group k"
    by (simp_all add: upd_cpu_def)
  show ?thesis unfolding kinv_def sched_ok_def cpu_ok_def timer_link_def lock_ok_def c e ..
qed

section \<open>Sleeping\<close>

text \<open>A current thread that may call a blocking function: running, no interrupt, no critical section,
  and the processor has something else to run (its idle thread, at least).\<close>

definition can_block :: "kernel \<Rightarrow> tid \<Rightarrow> rt_thread \<Rightarrow> bool" where
  "can_block k t th \<longleftrightarrow> rt_thread_self k = Some t \<and> threads k t = Some th \<and> stat th = RT_THREAD_RUNNING \<and>
     critical_lock_nest th = 0 \<and> irq_nest (rt_cpu_self k) = 0 \<and> (\<exists>u uh. eligible k u uh)"

lemma can_block_available: "can_block k t th \<Longrightarrow> RT_DEBUG_SCHEDULER_AVAILABLE k b = Some ()"
  by (simp add: can_block_def RT_DEBUG_SCHEDULER_AVAILABLE_def rt_critical_level_def RT_DEBUG_IN_THREAD_CONTEXT_def
      RT_DEBUG_NOT_IN_INTERRUPT_def)

lemma eligible_other:
  assumes "\<exists>u uh. eligible k u uh" "threads k t = Some th" "stat th \<noteq> RT_THREAD_READY"
    "cpu_id k' = cpu_id k" "threads k' = (threads k)(t \<mapsto> h)"
  shows "\<exists>u uh. eligible k' u uh"
proof -
  obtain u uh where u: "eligible k u uh" using assms(1) by blast
  then have "u \<noteq> t" using assms(2,3) by (auto simp: eligible_def)
  then have "eligible k' u uh" using u assms(4,5) by (simp add: eligible_def)
  then show ?thesis by blast
qed

text \<open>
  The timeout handler, as the timer interrupt runs it: the assertion that the thread is
  suspended holds because an active built-in timer belongs to a suspended thread.
\<close>

lemma thread_timeout_ok:
  assumes k: "kinv {} k" and th: "threads k t = Some th" "stat th = RT_THREAD_SUSPEND"
    and tm: "timers (ktimers k) (ThreadTimer t) = Some tm" "\<not> activated tm"
    and cur: "rt_thread_self k = Some c" and irq: "irq_nest (rt_cpu_self k) \<noteq> 0"
  shows "\<exists>k'. thread_timeout k t = Some k' \<and> kinv {} k' \<and> same_objs k k' \<and>
    threads k' = (threads k)(t \<mapsto> resumed (th\<lparr>error := - RT_ETIMEOUT\<rparr>)) \<and>
    tlists k' = enqueue_ready (\<lambda>l. remove1 t (tlists k l)) t th \<and> irq_switch_flag (rt_cpu_self k') \<and> same_env k k'"
proof -
  let ?th = "th\<lparr>error := - RT_ETIMEOUT\<rparr>"
  let ?k1 = "k\<lparr>threads := (threads k)(t \<mapsto> ?th)\<rparr>"
  have u: "upd_thread k t (error_update (\<lambda>_. - RT_ETIMEOUT)) = Some ?k1" using th by (simp add: upd_thread_def)
  have k1: "kinv {} ?k1" by (rule kinv_upd [OF k th(1)]) (simp add: same_thread_def)
  have l: "timer_link (?k1\<lparr>threads := (threads ?k1)(t \<mapsto> resumed ?th)\<rparr>)"
    using kinvD(3) [OF k] tm th timer_linkD2 [OF kinvD(3) [OF k] th(1) tm(1)] by (auto simp: timer_link_def resumed_def)
  obtain k2 where k2: "rt_schedule_insert_thread (tlist_remove ?k1 t) t = Some k2" "kinv {} k2" "same_env ?k1 k2"
      "threads k2 = (threads ?k1)(t \<mapsto> resumed ?th)" "tlists k2 = enqueue_ready (\<lambda>l. remove1 t (tlists ?k1 l)) t ?th"
    using wake_ok [OF kinvD(1,2,4) [OF k1], of t ?th] th l by auto
  have self: "rt_thread_self k2 = Some c" "irq_nest (rt_cpu_self k2) \<noteq> 0"
    using same_env_self [OF k2(3)] cur irq by (simp_all add: rt_thread_self_def rt_cpu_self_def)
  obtain ch where ch: "threads k2 c = Some ch"
  proof -
    have "cpu_id k < 2" using sched_okD(1) [OF kinvD(1) [OF k]] .
    then obtain h where "threads k c = Some h"
      using cpu_okD(1) [OF kinvD(2) [OF k], of "cpu_id k" c] cur by (auto simp: rt_thread_self_def rt_cpu_self_def)
    then show thesis using that k2(4) by (cases "c = t") auto
  qed
  note sc = schedule_irq [OF k2(2) self(1) ch self(2)]
  let ?k' = "upd_cpu k2 (cpu_id k2) (irq_switch_flag_update (\<lambda>_. True))"
  have run: "thread_timeout k t = Some ?k'" using th u k2(1) sc by (simp add: thread_timeout_def)
  have so: "same_objs k k2" using frame_insert [OF k2(1)] by (simp add: same_objs_def tlist_remove_def)
  have "enqueue_ready q t ?th = enqueue_ready q t th" for q by (simp add: enqueue_ready_def readyq_def)
  moreover have "same_env k ?k'" using k2(3) by (simp add: same_env_def upd_cpu_def)
  ultimately show ?thesis
    using run k2 so by (intro exI [of _ ?k'] conjI) (simp_all add: rt_cpu_self_def, simp_all add: upd_cpu_def)
qed

section \<open>Priorities and time slices\<close>

text \<open>Changing the priority of any thread keeps queues and bitmaps in step.\<close>

lemma change_priority_ok:
  assumes k: "kinv {} k" and th: "threads k t = Some th" "stat th \<noteq> RT_THREAD_INIT" and p: "p < 32"
  shows "\<exists>k'. thread_change_priority k t p = Some k' \<and> kinv {} k' \<and> same_objs k k' \<and> same_env k k' \<and>
    threads k' = (threads k)(t \<mapsto> th\<lparr>current_priority := p, number_mask := 2 ^ p\<rparr>) \<and>
    (\<forall>l. \<not> is_readyq l \<longrightarrow> tlists k' l = tlists k l)"
proof (cases "stat th = RT_THREAD_READY")
  case False
  let ?h = "th\<lparr>current_priority := p, number_mask := 2 ^ p\<rparr>"
  let ?k' = "k\<lparr>threads := (threads k)(t \<mapsto> ?h)\<rparr>"
  have run: "thread_change_priority k t p = Some ?k'" using th False by (simp add: thread_change_priority_def upd_thread_def)
  have wf: "thread_wf ?h" using sched_okD(8) [OF kinvD(1) [OF k] th(1)] p by (auto simp: thread_wf_def)
  note ok = kinvD(1) [OF k]
  have n: "t \<notin> set (tlists k l)" if "is_readyq l" for l
    using sched_okD(7) [OF ok, of t l] th False that by (auto simp: lid_stat_def)
  have "sched_ok {} ?k'"
    unfolding sched_ok_def
  proof (intro conjI allI impI)
    fix l u assume u: "u \<in> set (tlists ?k' l)"
    then show "\<exists>h. threads ?k' u = Some h \<and> stat h = lid_stat l \<and> (is_readyq l \<longrightarrow> l = readyq h)"
      using sched_okD(7) [OF ok, of u l] n th by (cases "u = t") auto
  next
    fix u uh assume u: "threads ?k' u = Some uh"
    then show "thread_wf uh" using sched_okD(8) [OF ok] wf by (auto split: if_splits)
    assume "u \<notin> {} \<and> stat uh = RT_THREAD_READY"
    then show "u \<in> set (tlists ?k' (readyq uh))" using sched_okD(9) [OF ok] u False by (auto split: if_splits)
  qed (use ok in \<open>auto simp: sched_ok_def\<close>)
  moreover have "cpu_ok ?k'" by (rule cpu_ok_upd [OF kinvD(2) [OF k] th(1), of ?h]) (use False in simp_all)
  moreover have "timer_link ?k'" by (rule timer_link_stats [OF kinvD(3) [OF k]]) (use th in \<open>auto split: if_splits\<close>)
  moreover have "lock_ok ?k'" by (rule lock_ok_upd [OF kinvD(4) [OF k] th(1), of ?h]) simp_all
  ultimately show ?thesis using run by (auto simp: kinv_def same_env_def same_objs_def)
next
  case True
  let ?h = "th\<lparr>current_priority := p, number_mask := 2 ^ p\<rparr>"
  note ok = kinvD(1) [OF k]
  obtain k1 where k1: "rt_schedule_remove_thread k t = Some k1" "sched_ok {t} k1" "threads k1 = threads k"
      "tlists k1 = (\<lambda>l. remove1 t (tlists k l))" "cpu_id k1 = cpu_id k" "ktimers k1 = ktimers k"
      "\<And>c. current_thread (cpus k1 c) = current_thread (cpus k c)" "\<And>c. irq_nest (cpus k1 c) = irq_nest (cpus k c)"
    using remove_ok [OF ok th(1)] by auto
  let ?k2 = "k1\<lparr>threads := (threads k1)(t \<mapsto> ?h)\<rparr>"
  have wf: "thread_wf ?h" using sched_okD(8) [OF ok th(1)] p by (auto simp: thread_wf_def)
  have ok2: "sched_ok {t} ?k2" by (rule sched_ok_upd_exempt [OF k1(2) _ wf]) simp
  have on: "oncpu th = 2" using cpu_okD(2) [OF kinvD(2) [OF k] th(1) True] .
  obtain k' where k': "rt_schedule_insert_thread ?k2 t = Some k'" "sched_ok {} k'"
      "threads k' = (threads ?k2)(t \<mapsto> ?h\<lparr>stat := RT_THREAD_READY\<rparr>)"
      "tlists k' = (tlists ?k2)(readyq ?h := (if stat_yield ?h then tlists ?k2 (readyq ?h) @ [t] else t # tlists ?k2 (readyq ?h)))"
      "cpu_id k' = cpu_id ?k2" "ktimers k' = ktimers ?k2"
      "\<And>c. current_thread (cpus k' c) = current_thread (cpus ?k2 c)" "\<And>c. irq_nest (cpus k' c) = irq_nest (cpus ?k2 c)"
    using insert_ok [OF ok2, of t ?h] on by auto
  have hr: "?h\<lparr>stat := RT_THREAD_READY\<rparr> = ?h" using True by simp
  have th': "threads k' = (threads k)(t \<mapsto> ?h)" using k'(3) k1(3) hr by simp
  have u: "upd_thread k1 t (\<lambda>th. th\<lparr>current_priority := p, number_mask := 2 ^ p\<rparr>) = Some ?k2"
    using th by (simp add: upd_thread_def k1(3))
  have run: "thread_change_priority k t p = Some k'" using th True k1(1) u k'(1) by (simp add: thread_change_priority_def)
  have "cpu_ok k'" by (rule cpu_ok_upd [OF kinvD(2) [OF k] th(1), of ?h]) (use on k' k1 th' in simp_all)
  moreover have "timer_link k'" by (rule timer_link_stats [OF kinvD(3) [OF k]]) (use th in \<open>auto simp: th' k'(6) k1(6) split: if_splits\<close>)
  moreover have "lock_ok k'" by (rule lock_ok_upd [OF kinvD(4) [OF k] th(1), of ?h]) (simp_all add: th')
  moreover have "tlists k' l = tlists k l" if l: "\<not> is_readyq l" for l
  proof -
    have "t \<notin> set (tlists k l)" using sched_okD(7) [OF ok, of t l] th(1) True l by (auto simp: lid_stat_def split: if_splits)
    moreover have "l \<noteq> readyq ?h" using l by auto
    ultimately show ?thesis using k'(4) k1(4) by (simp add: remove1_idem)
  qed
  moreover have "same_objs k k'"
    using frame_remove [OF k1(1)] frame_insert [OF k'(1)] by (simp add: same_objs_def)
  moreover have "same_env k k'" using k1 k' by (simp add: same_env_def)
  ultimately show ?thesis using run k'(2) th' by (auto simp: kinv_def)
qed

end
