(* ===== verification/Thread_Props.thy ===== *)
theory Thread_Props
  imports Thread
begin

text \<open>
  The properties of scheduling and of thread operations, with a concrete kernel state on
  which their hypotheses hold.
\<close>

section \<open>A concrete kernel\<close>

text \<open>
  Processor 0 runs thread 1 (priority 10), processor 1 its idle thread 7; thread 2 (priority 5) and the
  idle thread 6 of processor 0 are ready, thread 3 has priority 10 as well and is ready, and thread 4 sleeps
  until tick 100; it is tick 90.
\<close>

definition ex_thread :: "thread_stat \<Rightarrow> nat \<Rightarrow> nat \<Rightarrow> nat \<Rightarrow> rt_thread" where
  "ex_thread st prio bnd onc = \<lparr>stat = st, stat_yield = False, error = RT_EOK, init_priority = prio, current_priority = prio,
     number_mask = 2 ^ prio, bind_cpu = bnd, oncpu = onc, scheduler_lock_nest = 0, cpus_lock_nest = 0, critical_lock_nest = 0,
     thread_init_tick = 20, remaining_tick = 20, taken_object_list = [], pending_object = None, event_set = 0, event_info = 0,
     thread_static = True\<rparr>"

definition ex_timer :: "bool \<Rightarrow> rt_timer" where
  "ex_timer act = \<lparr>activated = act, periodic = False, soft = False, tstatic = True, init_tick = 10,
     timeout_tick = (if act then 100 else 0)\<rparr>"

definition ex_threads :: "tid \<rightharpoonup> rt_thread" where
  "ex_threads = [1 \<mapsto> ex_thread RT_THREAD_RUNNING 10 2 0, 2 \<mapsto> ex_thread RT_THREAD_READY 5 2 2,
     3 \<mapsto> ex_thread RT_THREAD_READY 10 2 2, 4 \<mapsto> ex_thread RT_THREAD_SUSPEND 8 2 2,
     6 \<mapsto> ex_thread RT_THREAD_READY 31 0 2, 7 \<mapsto> ex_thread RT_THREAD_RUNNING 31 1 1]"

definition ex_ktimers :: timer_sys where
  "ex_ktimers = \<lparr>tick = 90, timers = [ThreadTimer 1 \<mapsto> ex_timer False, ThreadTimer 2 \<mapsto> ex_timer False,
       ThreadTimer 3 \<mapsto> ex_timer False, ThreadTimer 4 \<mapsto> ex_timer True, ThreadTimer 6 \<mapsto> ex_timer False,
       ThreadTimer 7 \<mapsto> ex_timer False],
     timer_list = [ThreadTimer 4], soft_timer_list = [], check_list = [], soft_check_list = [],
     soft_timer_busy = False, timer_thread_suspend = False\<rparr>"

definition ex_lists :: "lid \<Rightarrow> tid list" where
  "ex_lists = (\<lambda>_. [])(ReadyQ 5 := [2], ReadyQ 10 := [3], CpuReadyQ 0 31 := [6])"

definition ex_cpu :: "tid \<Rightarrow> int \<Rightarrow> int \<Rightarrow> rt_cpu" where
  "ex_cpu cur irq grp = \<lparr>current_thread = Some cur, irq_nest = irq, irq_switch_flag = False, cpu_current_priority = 10,
     priority_group = grp, cpu_tick = 90\<rparr>"

definition ex_kernel :: "int \<Rightarrow> kernel" where
  "ex_kernel irq = \<lparr>cpu_id = 0, cpus = (\<lambda>c. if c = 0 then ex_cpu 1 irq (2 ^ 31) else ex_cpu 7 0 0),
     ready_priority_group = 2 ^ 5 + 2 ^ 10, threads = ex_threads, tlists = ex_lists, ipi_sent = 0, ktimers = ex_ktimers,
     sems = Map.empty, mutexes = Map.empty, events = Map.empty, mailboxes = Map.empty, msgqueues = Map.empty,
     mempools = Map.empty, mp_words = Map.empty, completions = Map.empty, dataqueues = Map.empty\<rparr>"

lemmas ex_defs = ex_thread_def ex_timer_def ex_threads_def ex_ktimers_def ex_lists_def ex_cpu_def ex_kernel_def

lemma ex_sched: "sched_ok {} (ex_kernel irq)"
  unfolding sched_ok_def
proof (intro conjI allI impI)
  have "bit (1056 :: int) p \<longleftrightarrow> p = 5 \<or> p = 10" for p
  proof -
    have "(1056 :: int) = 2 ^ 5 OR 2 ^ 10" by simp
    then show ?thesis by (simp only: bit_simps) auto
  qed
  then show "group_ok (ready_priority_group (ex_kernel irq)) (\<lambda>p. tlists (ex_kernel irq) (ReadyQ p))"
    by (auto simp: group_ok_def ex_kernel_def ex_lists_def)
next
  fix c :: nat assume "c < 2"
  have "bit (2147483648 :: int) p \<longleftrightarrow> p = 31" for p
  proof -
    have "(2147483648 :: int) = 2 ^ 31" by simp
    then show ?thesis by (simp only: bit_simps) auto
  qed
  then show "group_ok (priority_group (cpus (ex_kernel irq) c)) (\<lambda>p. tlists (ex_kernel irq) (CpuReadyQ c p))"
    by (auto simp: group_ok_def ex_kernel_def ex_lists_def ex_cpu_def)
qed (auto simp: ex_kernel_def ex_lists_def ex_threads_def ex_thread_def thread_wf_def lid_stat_def readyq_def split: if_splits)

lemma ex_kinv: "kinv {} (ex_kernel irq)"
proof -
  have "cpu_ok (ex_kernel irq)" by (auto simp: cpu_ok_def ex_kernel_def ex_cpu_def ex_threads_def ex_thread_def less_2_cases_iff split: if_splits)
  moreover have "timer_link (ex_kernel irq)"
    by (auto simp: timer_link_def timer_wf_def listed_def timer_ok_def half_def ex_defs split: if_splits)
  moreover have "lock_ok (ex_kernel irq)" by (auto simp: lock_ok_def ex_kernel_def ex_threads_def ex_thread_def split: if_splits)
  ultimately show ?thesis using ex_sched by (simp add: kinv_def)
qed

lemma ex_self:
  "rt_thread_self (ex_kernel irq) = Some 1" "irq_nest (rt_cpu_self (ex_kernel irq)) = irq" "cpu_id (ex_kernel irq) = 0"
  "threads (ex_kernel irq) = ex_threads" "ex_threads 1 = Some (ex_thread RT_THREAD_RUNNING 10 2 0)"
  "ktimers (ex_kernel irq) = ex_ktimers"
  by (simp_all add: rt_thread_self_def rt_cpu_self_def ex_kernel_def ex_cpu_def ex_threads_def)

lemma ex_tlists: "tlists (ex_kernel irq) = ex_lists"
  by (simp add: ex_kernel_def)

lemma ex_eligible: "eligible (ex_kernel irq) 2 (ex_thread RT_THREAD_READY 5 2 2)"
  by (simp add: eligible_def ex_kernel_def ex_threads_def ex_thread_def)

lemma ex_can_block: "can_block (ex_kernel 0) 1 (ex_thread RT_THREAD_RUNNING 10 2 0)"
  using ex_eligible [of 0] by (auto simp: can_block_def ex_self ex_threads_def ex_thread_def)

section \<open>Scheduling\<close>

text \<open>C2: The scheduler. From a consistent kernel state outside of an interrupt, \<^verbatim>\<open>rt_schedule\<close> returns with the invariant
  intact; the thread that runs afterwards is at least as urgent as every ready thread the processor may run; a running thread
  that did not yield and is as urgent as any goes on, and one that yielded gives way to a ready equal.\<close>

theorem schedule_highest:
  assumes "kinv {} k" "rt_thread_self k = Some cur" "threads k cur = Some th" "stat th \<noteq> RT_THREAD_INIT"
    and "irq_nest (rt_cpu_self k) = 0" and "stat th = RT_THREAD_RUNNING \<or> (\<exists>u uh. eligible k u uh)"
  shows "\<exists>k' n nth. rt_schedule k = Some k' \<and> kinv {} k' \<and>
    rt_thread_self k' = Some n \<and> threads k' n = Some nth \<and> stat nth = RT_THREAD_RUNNING \<and>
    (\<forall>u uh. eligible k' u uh \<longrightarrow> current_priority nth \<le> current_priority uh) \<and>
    (stat th = RT_THREAD_RUNNING \<and> \<not> stat_yield th \<and> lowest_ready k th \<longrightarrow> n = cur) \<and>
    (stat th = RT_THREAD_RUNNING \<and> stat_yield th \<and> (\<exists>u uh. eligible k u uh \<and> current_priority uh = current_priority th) \<longrightarrow> n \<noteq> cur)"
proof -
  obtain k' n nth where "rt_schedule k = Some k'" "kinv {} k'" "rt_thread_self k' = Some n" "threads k' n = Some nth"
      "stat nth = RT_THREAD_RUNNING" "lowest_ready k' nth"
      "stat th = RT_THREAD_RUNNING \<and> \<not> stat_yield th \<and> lowest_ready k th \<longrightarrow> n = cur"
      "stat th = RT_THREAD_RUNNING \<and> stat_yield th \<and> (\<exists>u uh. eligible k u uh \<and> current_priority uh = current_priority th) \<longrightarrow> n \<noteq> cur"
    using schedule_kinv [OF assms] by blast
  then show ?thesis unfolding lowest_ready_def [of k'] by blast
qed

theorem schedule_highest_witness:
  "\<exists>k' n nth. rt_schedule (ex_kernel 0) = Some k' \<and> kinv {} k' \<and> rt_thread_self k' = Some n \<and> threads k' n = Some nth \<and>
    stat nth = RT_THREAD_RUNNING \<and> (\<forall>u uh. eligible k' u uh \<longrightarrow> current_priority nth \<le> current_priority uh)"
proof -
  have t: "threads (ex_kernel 0) 1 = Some (ex_thread RT_THREAD_RUNNING 10 2 0)" using ex_self(4,5) by simp
  have "stat (ex_thread RT_THREAD_RUNNING 10 2 0) = RT_THREAD_RUNNING" by (simp add: ex_thread_def)
  then show ?thesis using schedule_highest [OF ex_kinv ex_self(1) t] ex_self(2) [of 0] by auto
qed

section \<open>Sleeping\<close>

text \<open>The common part of the calls that wait for a time: suspend, set the built-in timer, switch.\<close>

lemma block_timed:
  assumes k: "kinv {} k" and b: "can_block k t th" and n: "0 < n" "n < half"
  shows "\<exists>k2 k3 k' u uh h tm. rt_thread_suspend k t = Some (RT_EOK, k2) \<and> rt_thread_timer_start k2 t n = Some k3 \<and>
    rt_schedule k3 = Some k' \<and> kinv {} k' \<and> rt_thread_self k' = Some u \<and> u \<noteq> t \<and>
    threads k' u = Some uh \<and> stat uh = RT_THREAD_RUNNING \<and> lowest_ready k' uh \<and>
    threads k' t = Some h \<and> stat h = RT_THREAD_SUSPEND \<and>
    timers (ktimers k') (ThreadTimer t) = Some tm \<and> activated tm \<and> timeout_tick tm = u32 (tick (ktimers k) + n)"
proof -
  note B = b [unfolded can_block_def]
  obtain k2 where k2: "rt_thread_suspend k t = Some (RT_EOK, k2)" "kinv {} k2" "same_env k k2"
      "threads k2 = (threads k)(t \<mapsto> th\<lparr>stat := RT_THREAD_SUSPEND\<rparr>)"
    using suspend_ok [OF k, of t th] B by auto
  let ?h = "th\<lparr>stat := RT_THREAD_SUSPEND\<rparr>"
  have t2: "threads k2 t = Some ?h" "stat ?h = RT_THREAD_SUSPEND" by (simp_all add: k2(4))
  obtain s tm where s: "rt_thread_timer_start k2 t n = Some (k2\<lparr>ktimers := s\<rparr>)" "timer_link (k2\<lparr>ktimers := s\<rparr>)" "tick s = tick (ktimers k2)"
      "timers s (ThreadTimer t) = Some tm" "activated tm" "timeout_tick tm = u32 (tick (ktimers k2) + n)"
    using thread_timer_start_ok [OF kinvD(3) [OF k2(2)] t2 n] by blast
  let ?k3 = "k2\<lparr>ktimers := s\<rparr>"
  have k3: "kinv {} ?k3" by (rule kinv_cong [OF k2(2)]) (simp_all add: s)
  have self3: "rt_thread_self ?k3 = Some t" "irq_nest (rt_cpu_self ?k3) = 0"
    using same_env_self [OF k2(3)] B by (simp_all add: rt_thread_self_def rt_cpu_self_def)
  have el: "\<exists>u uh. eligible ?k3 u uh"
    by (rule eligible_other [of k t th _ ?h]) (use B k2(3) in \<open>auto simp: k2(4) same_env_def\<close>)
  obtain k' u uh where k': "rt_schedule ?k3 = Some k'" "kinv {} k'" "wait_same ?k3 k'" "ktimers k' = s"
      "rt_thread_self k' = Some u" "threads k' u = Some uh" "stat uh = RT_THREAD_RUNNING" "lowest_ready k' uh"
    using schedule_kinv [OF k3 self3(1), of ?h] self3(2) el t2 by auto
  obtain h where h: "threads k' t = Some h" "sched_eq ?h h"
  proof -
    have "rel_option sched_eq (threads ?k3 t) (threads k' t)" using k'(3) by (simp add: wait_same_def)
    then show thesis using that t2(1) by (auto simp: option_rel_Some1)
  qed
  have sh: "stat h = RT_THREAD_SUSPEND" using h(2) by (simp add: sched_eq_def)
  have "u \<noteq> t" using k'(6,7) h(1) sh by auto
  moreover have "tick (ktimers k2) = tick (ktimers k)" using k2(3) by (simp add: same_env_def)
  ultimately show ?thesis
    using k2(1) k' h(1) sh s
    by (intro exI [of _ k2] exI [of _ ?k3] exI [of _ k'] exI [of _ u] exI [of _ uh] exI [of _ h] exI [of _ tm]) simp
qed

lemma can_block_upd:
  assumes "kinv {} k" "can_block k t th" "same_thread th h" "critical_lock_nest h = critical_lock_nest th"
  shows "kinv {} (k\<lparr>threads := (threads k)(t \<mapsto> h)\<rparr>)" "can_block (k\<lparr>threads := (threads k)(t \<mapsto> h)\<rparr>) t h"
proof -
  note B = assms(2) [unfolded can_block_def]
  show "kinv {} (k\<lparr>threads := (threads k)(t \<mapsto> h)\<rparr>)" by (rule kinv_upd [OF assms(1)]) (use B assms(3) in auto)
  have "\<exists>u uh. eligible (k\<lparr>threads := (threads k)(t \<mapsto> h)\<rparr>) u uh"
    by (rule eligible_other [of k t th _ h]) (use B in auto)
  then show "can_block (k\<lparr>threads := (threads k)(t \<mapsto> h)\<rparr>) t h"
    using B assms(3,4) by (simp add: can_block_def same_thread_def rt_thread_self_def rt_cpu_self_def)
qed

text \<open>Sleeping. A running thread that sleeps for \<open>n\<close> ticks (below half the tick range) is suspended with its
  built-in timer set to expire \<open>n\<close> ticks from now, another thread runs that is as urgent as any ready one, and the kernel
  invariant holds: no assertion fails on the way.\<close>

lemma thread_sleep_blocks:
  assumes k: "kinv {} k" and b: "can_block k t th" and n: "0 < n" "n < half"
  shows "\<exists>k' u uh h tm. rt_thread_sleep k n = Some (Blocked, k') \<and> kinv {} k' \<and> rt_thread_self k' = Some u \<and> u \<noteq> t \<and>
    threads k' u = Some uh \<and> stat uh = RT_THREAD_RUNNING \<and> lowest_ready k' uh \<and>
    threads k' t = Some h \<and> stat h = RT_THREAD_SUSPEND \<and>
    timers (ktimers k') (ThreadTimer t) = Some tm \<and> activated tm \<and> timeout_tick tm = u32 (tick (ktimers k) + n)"
proof -
  note B = b [unfolded can_block_def]
  let ?th = "th\<lparr>error := RT_EOK\<rparr>"
  let ?k1 = "k\<lparr>threads := (threads k)(t \<mapsto> ?th)\<rparr>"
  have s: "same_thread th ?th" "critical_lock_nest ?th = critical_lock_nest th" by (simp_all add: same_thread_def)
  have run: "rt_thread_sleep k n = do {
      (r, k2) \<leftarrow> rt_thread_suspend ?k1 t; k3 \<leftarrow> rt_thread_timer_start k2 t n; k4 \<leftarrow> rt_schedule k3; Some (Blocked, k4) }"
    using B n can_block_available [OF b, of True] by (simp add: rt_thread_sleep_def upd_thread_def)
  show ?thesis using block_timed [OF can_block_upd [OF k b s] n] unfolding run by auto
qed

lemma thread_sleep_blocks_example:
  "\<exists>k' u uh h tm. rt_thread_sleep (ex_kernel 0) 50 = Some (Blocked, k') \<and> kinv {} k' \<and> rt_thread_self k' = Some u \<and> u \<noteq> 1 \<and>
    threads k' u = Some uh \<and> stat uh = RT_THREAD_RUNNING \<and> lowest_ready k' uh \<and>
    threads k' 1 = Some h \<and> stat h = RT_THREAD_SUSPEND \<and>
    timers (ktimers k') (ThreadTimer 1) = Some tm \<and> activated tm \<and> timeout_tick tm = 140"
  using thread_sleep_blocks [OF ex_kinv ex_can_block, of 50] by (simp add: half_def ex_self ex_ktimers_def c_store)

text \<open>Periodic delays do not drift. When less than \<open>inc\<close> ticks have passed since the last deadline (across a wrap of the
  tick counter too), \<^verbatim>\<open>rt_thread_delay_until\<close> suspends the thread until exactly that deadline plus \<open>inc\<close>, however late it was
  called, and stores that as the new deadline.\<close>

lemma delay_until_no_drift:
  assumes k: "kinv {} k" and b: "can_block k t th" and inc: "u32 (tick (ktimers k) - until) < inc" "inc < half"
  shows "\<exists>k' h tm. rt_thread_delay_until k until inc = Some (u32 (until + inc), Blocked, k') \<and> kinv {} k' \<and>
    threads k' t = Some h \<and> stat h = RT_THREAD_SUSPEND \<and>
    timers (ktimers k') (ThreadTimer t) = Some tm \<and> activated tm \<and> timeout_tick tm = u32 (until + inc)"
proof -
  note B = b [unfolded can_block_def]
  let ?th = "th\<lparr>error := RT_EOK\<rparr>"
  let ?k1 = "k\<lparr>threads := (threads k)(t \<mapsto> ?th)\<rparr>"
  let ?n = "u32 (u32 (until + inc) - tick (ktimers k))"
  have s: "same_thread th ?th" "critical_lock_nest ?th = critical_lock_nest th" by (simp_all add: same_thread_def)
  define m where "m = u32 (tick (ktimers k) - until)"
  have m: "0 \<le> m" "m < inc" using inc(1) by (simp_all add: m_def u32_def)
  have "?n = u32 (inc - m)" by (simp add: m_def u32_def mod_simps algebra_simps)
  also have "\<dots> = inc - m" using m inc(2) by (simp add: u32_def half_def)
  finally have n: "0 < ?n" "?n < half" using m inc(2) by simp_all
  have d: "u32 (tick (ktimers k) + ?n) = u32 (until + inc)" by (simp add: u32_def mod_simps)
  have run: "rt_thread_delay_until k until inc = do {
      (r, k2) \<leftarrow> rt_thread_suspend ?k1 t; k3 \<leftarrow> rt_thread_timer_start k2 t ?n; k4 \<leftarrow> rt_schedule k3;
      Some (u32 (until + inc), Blocked, k4) }"
    using B inc(1) by (simp add: rt_thread_delay_until_def upd_thread_def rt_tick_get_def Let_def)
  show ?thesis using block_timed [OF can_block_upd [OF k b s] n] d unfolding run by auto
qed

lemma delay_until_no_drift_example:
  "\<exists>k' h tm. rt_thread_delay_until (ex_kernel 0) 85 20 = Some (105, Blocked, k') \<and> kinv {} k' \<and>
    threads k' 1 = Some h \<and> stat h = RT_THREAD_SUSPEND \<and>
    timers (ktimers k') (ThreadTimer 1) = Some tm \<and> activated tm \<and> timeout_tick tm = 105"
  using delay_until_no_drift [OF ex_kinv ex_can_block, of 85 20] by (simp add: half_def ex_self ex_ktimers_def c_store)

text \<open>A sleep ends with success. When the built-in timer of a suspended thread expires, its handler finds the thread
  suspended (the assertion holds), marks it timed out and makes it ready; and when the thread that slept runs
  again, \<^verbatim>\<open>rt_thread_sleep\<close> turns the timeout into \<^verbatim>\<open>RT_EOK\<close>.\<close>

lemma thread_sleep_wakes:
  assumes k: "kinv {} k" and th: "threads k t = Some th"
    and tm: "timers (ktimers k) (ThreadTimer t) = Some tm" "activated tm"
    and s: "s = (timer_remove (ktimers k) (ThreadTimer t))\<lparr>timers := (timers (ktimers k))(ThreadTimer t \<mapsto> tm\<lparr>activated := False\<rparr>)\<rparr>"
    and cur: "rt_thread_self k = Some c" and irq: "irq_nest (rt_cpu_self k) \<noteq> 0"
  shows "\<exists>k' h. thread_timeout (k\<lparr>ktimers := s\<rparr>) t = Some k' \<and> kinv {} k' \<and> threads k' t = Some h \<and>
    stat h = (if oncpu th = 2 then RT_THREAD_READY else RT_THREAD_RUNNING) \<and> error h = - RT_ETIMEOUT \<and>
    (\<forall>k2 h2. rt_thread_self k2 = Some t \<and> threads k2 t = Some h2 \<and> error h2 = error h \<longrightarrow>
      (\<exists>k3. rt_thread_sleep_wake k2 = Some (RT_EOK, k3)))"
proof -
  have st: "stat th = RT_THREAD_SUSPEND" using timer_linkD2(5) [OF kinvD(3) [OF k] th tm] .
  let ?k = "k\<lparr>ktimers := s\<rparr>"
  have wf: "timer_wf (ktimers k)" using kinvD(3) [OF k] by (simp add: timer_link_def)
  have ws: "timer_wf s"
    using wf tm unfolding s by (auto simp: timer_wf_def listed_def timer_ok_def timer_remove_def)
  have ts: "timers s = (timers (ktimers k))(ThreadTimer t \<mapsto> tm\<lparr>activated := False\<rparr>)" by (simp add: s)
  have l: "timer_link ?k"
    using kinvD(3) [OF k] timer_linkD2 [OF kinvD(3) [OF k] th tm(1)] tm(1) ws by (auto simp: timer_link_def ts)
  have kk: "kinv {} ?k" by (rule kinv_cong [OF k]) (simp_all add: l)
  obtain k' where k': "thread_timeout ?k t = Some k'" "kinv {} k'"
      "threads k' = (threads k)(t \<mapsto> resumed (th\<lparr>error := - RT_ETIMEOUT\<rparr>))"
    using thread_timeout_ok [OF kk, of t th "tm\<lparr>activated := False\<rparr>" c] th st ts cur irq
    by (auto simp: rt_thread_self_def rt_cpu_self_def)
  have w: "\<exists>k3. rt_thread_sleep_wake k2 = Some (RT_EOK, k3)"
    if "rt_thread_self k2 = Some t \<and> threads k2 t = Some h2 \<and> error h2 = - RT_ETIMEOUT" for k2 h2
    using that by (simp add: rt_thread_sleep_wake_def upd_thread_def)
  show ?thesis
    using k' w by (intro exI [of _ k'] exI [of _ "resumed (th\<lparr>error := - RT_ETIMEOUT\<rparr>)"]) (auto simp: resumed_def)
qed

lemma thread_sleep_wakes_example:
  "\<exists>k' h. thread_timeout ((ex_kernel 1)\<lparr>ktimers := (timer_remove ex_ktimers (ThreadTimer 4))
        \<lparr>timers := (timers ex_ktimers)(ThreadTimer 4 \<mapsto> (ex_timer True)\<lparr>activated := False\<rparr>)\<rparr>\<rparr>) 4 = Some k' \<and>
    kinv {} k' \<and> threads k' 4 = Some h \<and> stat h = RT_THREAD_READY \<and> error h = - RT_ETIMEOUT"
proof -
  have t: "threads (ex_kernel 1) 4 = Some (ex_thread RT_THREAD_SUSPEND 8 2 2)" "timers (ktimers (ex_kernel 1)) (ThreadTimer 4) = Some (ex_timer True)"
    "activated (ex_timer True)" "oncpu (ex_thread RT_THREAD_SUSPEND 8 2 2) = 2"
    by (simp_all add: ex_kernel_def ex_threads_def ex_ktimers_def ex_timer_def ex_thread_def)
  show ?thesis using thread_sleep_wakes [OF ex_kinv t(1-3) refl ex_self(1)] t(4) by (auto simp: ex_self)
qed

end
