(* ===== verification/Ipc.thy ===== *)
theory Ipc
  imports Thread_Props
begin

text \<open>
  The waiting lists of the IPC objects, after the first part of \<^verbatim>\<open>rt-thread/src/ipc.c\<close>: how a thread is
  put on a list (in order of arrival or of priority), how the first or every waiting thread is
  resumed, and what suspending on a list and switching away does to the kernel.
\<close>

section \<open>Operations\<close>

text \<open>The loop of the \<^verbatim>\<open>RT_IPC_FLAG_PRIO\<close> case: before the first thread that is less urgent.\<close>

fun prio_insert :: "(tid \<Rightarrow> nat) \<Rightarrow> tid \<Rightarrow> tid list \<Rightarrow> tid list" where
  "prio_insert prio t [] = [t]"
| "prio_insert prio t (u # us) = (if prio t < prio u then t # u # us else u # prio_insert prio t us)"

definition prio_of :: "kernel \<Rightarrow> tid \<Rightarrow> nat" where
  "prio_of k t = (case threads k t of None \<Rightarrow> 0 | Some th \<Rightarrow> current_priority th)"

definition wait_insert :: "kernel \<Rightarrow> ipc_flag \<Rightarrow> tid \<Rightarrow> tid list \<Rightarrow> tid list" where
  "wait_insert k flag t q = (case flag of RT_IPC_FLAG_FIFO \<Rightarrow> q @ [t] | RT_IPC_FLAG_PRIO \<Rightarrow> prio_insert (prio_of k) t q)"

definition ipc_list_suspend :: "kernel \<Rightarrow> lid \<Rightarrow> tid \<Rightarrow> ipc_flag \<Rightarrow> kernel option" where
  "ipc_list_suspend k l t flag = do {
     (r, k1) \<leftarrow> rt_thread_suspend k t;
     Some (k1\<lparr>tlists := (tlists k1)(l := wait_insert k1 flag t (tlists k1 l))\<rparr>)
   }"

definition ipc_list_resume :: "kernel \<Rightarrow> lid \<Rightarrow> kernel option" where
  "ipc_list_resume k l = (case tlists k l of [] \<Rightarrow> None
     | t # _ \<Rightarrow> do { (r, k1) \<leftarrow> rt_thread_resume k t; Some k1 })"

partial_function (option) ipc_list_resume_all :: "lid \<Rightarrow> kernel \<Rightarrow> kernel option" where
  "ipc_list_resume_all l k = (case tlists k l of [] \<Rightarrow> Some k
     | t # _ \<Rightarrow> Option.bind (upd_thread k t (error_update (\<lambda>_. - RT_ERROR)))
         (\<lambda>k1. Option.bind (rt_thread_resume k1 t) (\<lambda>(r, k2). ipc_list_resume_all l k2)))"

declare ipc_list_resume_all.simps [code]

text \<open>
  The steps that every blocking call shares: onto the list, the timer if there is a
  timeout (a negative one waits for ever), and the switch to another thread.
\<close>

definition ipc_wait :: "kernel \<Rightarrow> tid \<Rightarrow> lid \<Rightarrow> ipc_flag \<Rightarrow> int \<Rightarrow> ('r call \<times> kernel) option" where
  "ipc_wait k t l flag timeout = do {
     k1 \<leftarrow> ipc_list_suspend k l t flag;
     k2 \<leftarrow> (if timeout > 0 then rt_thread_timer_start k1 t timeout else Some k1);
     k3 \<leftarrow> rt_schedule k2;
     Some (Blocked, k3)
   }"

text \<open>After a message has come or gone: resume the first thread that waits for it, if any, and schedule.\<close>

definition ipc_notify :: "kernel \<Rightarrow> lid \<Rightarrow> kernel option" where
  "ipc_notify k l = (if tlists k l \<noteq> [] then do { k1 \<leftarrow> ipc_list_resume k l; rt_schedule k1 } else Some k)"

text \<open>What is left of a timeout when a waiting call goes on (\<open>start\<close> is when it began to wait).\<close>

definition wait_left :: "kernel \<Rightarrow> int \<Rightarrow> int \<Rightarrow> int" where
  "wait_left k timeout start =
     (if timeout > 0 then
        (let tick_delta = u32 (rt_tick_get (ktimers k) - start);
             left = s32 (timeout - tick_delta) in if left < 0 then 0 else left)
      else timeout)"

text \<open>The error code is set as \<^verbatim>\<open>rt_set_errno\<close> does: in the current thread, or in a global one in interrupts.\<close>

definition rt_set_errno :: "kernel \<Rightarrow> int \<Rightarrow> kernel" where
  "rt_set_errno k e = (if irq_nest (rt_cpu_self k) \<noteq> 0 then k
     else case rt_thread_self k of None \<Rightarrow> k
       | Some t \<Rightarrow> (case threads k t of None \<Rightarrow> k | Some th \<Rightarrow> k\<lparr>threads := (threads k)(t \<mapsto> th\<lparr>error := e\<rparr>)\<rparr>))"

section \<open>Order in a waiting list\<close>

lemma set_prio_insert [simp]: "set (prio_insert p t q) = insert t (set q)"
  by (induction q) auto

lemma distinct_prio_insert [simp]: "distinct (prio_insert p t q) \<longleftrightarrow> t \<notin> set q \<and> distinct q"
  by (induction q) auto

lemma prio_insert_cong: "(\<And>u. u \<in> insert t (set q) \<Longrightarrow> p u = p' u) \<Longrightarrow> prio_insert p t q = prio_insert p' t q"
  by (induction q) auto

lemma prio_insert_sorted: "sorted (map p q) \<Longrightarrow> sorted (map p (prio_insert p t q))"
  by (induction q) auto

text \<open>A thread waits behind those that are as urgent as itself.\<close>

lemma prio_insert_sorted_eq:
  assumes "sorted (map p q)"
  shows "prio_insert p t q = filter (\<lambda>u. p u \<le> p t) q @ t # filter (\<lambda>u. p t < p u) q"
  using assms
proof (induction q)
  case (Cons u q)
  show ?case
  proof (cases "p t < p u")
    case True
    then have "\<forall>v \<in> set q. p t < p v" using Cons.prems by fastforce
    then show ?thesis using True by (simp add: filter_id_conv filter_empty_conv not_le [symmetric])
  qed (use Cons in auto)
qed simp

lemma set_wait_insert [simp]: "set (wait_insert k f t q) = insert t (set q)"
  by (cases f) (auto simp: wait_insert_def)

lemma distinct_wait_insert [simp]: "distinct (wait_insert k f t q) \<longleftrightarrow> t \<notin> set q \<and> distinct q"
  by (cases f) (auto simp: wait_insert_def)

lemma wait_insert_cong:
  "(\<And>u. prio_of k' u = prio_of k u) \<Longrightarrow> wait_insert k' f t q = wait_insert k f t q"
  by (cases f) (auto simp: wait_insert_def intro: prio_insert_cong)

lemma rel_thread:
  assumes "rel_option sched_eq (threads k u) (threads k' u)" "threads k u = Some uh"
  shows "\<exists>h. threads k' u = Some h \<and> sched_eq uh h"
  using assms by (auto simp: option_rel_Some1)

section \<open>Onto a list\<close>

definition waitq :: "lid \<Rightarrow> bool" where
  "waitq l \<longleftrightarrow> \<not> is_readyq l \<and> l \<noteq> DefunctQ"

lemma waitq_simps [simp]:
  "waitq (SemQ s)" "waitq (MutexQ s)" "waitq (EventQ s)" "waitq (MbRecvQ s)" "waitq (MbSendQ s)" "waitq (MqRecvQ s)" "waitq (MqSendQ s)"
  "waitq (MemPoolQ s)" "waitq (CompletionQ s)" "waitq (DqPushQ s)" "waitq (DqPopQ s)"
  "\<not> waitq (ReadyQ p)" "\<not> waitq (CpuReadyQ c p)" "\<not> waitq DefunctQ"
  by (simp_all add: waitq_def)

lemma waitq_stat: "waitq l \<Longrightarrow> lid_stat l = RT_THREAD_SUSPEND \<and> \<not> is_readyq l"
  by (simp add: waitq_def lid_stat_def)

text \<open>A thread that is on no list can be put on any list, other than the ready queues, for threads in its state.\<close>

lemma sched_ok_list:
  assumes ok: "sched_ok {} k" and t: "threads k t = Some th" "stat th = lid_stat l" "\<And>l. t \<notin> set (tlists k l)"
    and l: "\<not> is_readyq l" and q: "set q = insert t (set (tlists k l))" "distinct q"
  shows "sched_ok {} (k\<lparr>tlists := (tlists k)(l := q)\<rparr>)"
proof -
  let ?k = "k\<lparr>tlists := (tlists k)(l := q)\<rparr>"
  have m: "u \<in> set (tlists ?k l') \<longleftrightarrow> (if u = t then l' = l else u \<in> set (tlists k l'))" for u l'
    using t(3) q(1) by auto
  have r: "l \<noteq> ReadyQ p" "l \<noteq> CpuReadyQ c p" "l \<noteq> readyq h" for p c h using l by auto
  show ?thesis
    unfolding sched_ok_def
  proof (intro conjI allI impI)
    show "group_ok (ready_priority_group ?k) (\<lambda>p. tlists ?k (ReadyQ p))"
      using sched_okD(2) [OF ok] r(1) [THEN not_sym] by simp
    fix c :: nat assume "c < 2"
    then show "group_ok (priority_group (cpus ?k c)) (\<lambda>p. tlists ?k (CpuReadyQ c p))"
      using sched_okD(3) [OF ok] r(2) [THEN not_sym] by simp
  next
    fix l1 l2 u assume "u \<in> set (tlists ?k l1)" "u \<in> set (tlists ?k l2)"
    then show "l1 = l2" unfolding m using sched_okD(5) [OF ok, of u l1 l2] by (cases "u = t") simp_all
  next
    fix l1 u assume "u \<in> set (tlists ?k l1)"
    then show "\<exists>h. threads ?k u = Some h \<and> stat h = lid_stat l1 \<and> (is_readyq l1 \<longrightarrow> l1 = readyq h)"
      unfolding m using sched_okD(7) [OF ok, of u l1] t(1,2) l by (cases "u = t") simp_all
  next
    fix u h assume u: "threads ?k u = Some h"
    then show "thread_wf h" using sched_okD(8) [OF ok] by simp
    assume "u \<notin> {} \<and> stat h = RT_THREAD_READY"
    then show "u \<in> set (tlists ?k (readyq h))" using sched_okD(9) [OF ok, of u h] u r(3) [of h] by simp
  qed (use ok q(2) in \<open>simp_all add: sched_ok_def\<close>)
qed

lemma sched_ok_enqueue:
  assumes "sched_ok {} k" "threads k t = Some th" "stat th = RT_THREAD_SUSPEND" "\<And>l. t \<notin> set (tlists k l)"
    "waitq l" "set q = insert t (set (tlists k l))" "distinct q"
  shows "sched_ok {} (k\<lparr>tlists := (tlists k)(l := q)\<rparr>)"
  using assms sched_ok_list [of k t th l q] waitq_stat [of l] by simp

lemma kinv_tlists [simp]:
  "cpu_ok (k\<lparr>tlists := f\<rparr>) = cpu_ok k" "timer_link (k\<lparr>tlists := f\<rparr>) = timer_link k" "lock_ok (k\<lparr>tlists := f\<rparr>) = lock_ok k"
  by (simp_all add: cpu_ok_def timer_link_def lock_ok_def)

lemma ipc_suspend_ok:
  assumes k: "kinv {} k" and self: "rt_thread_self k = Some t" and th: "threads k t = Some th" "stat th = RT_THREAD_RUNNING"
    and l: "waitq l"
  shows "\<exists>k'. ipc_list_suspend k l t flag = Some k' \<and> kinv {} k' \<and> same_env k k' \<and> same_objs k k' \<and>
    threads k' = (threads k)(t \<mapsto> th\<lparr>stat := RT_THREAD_SUSPEND\<rparr>) \<and>
    tlists k' = (tlists k)(l := wait_insert k flag t (tlists k l))"
proof -
  obtain k1 where k1: "rt_thread_suspend k t = Some (RT_EOK, k1)" "kinv {} k1" "same_env k k1" "same_objs k k1"
      "threads k1 = (threads k)(t \<mapsto> th\<lparr>stat := RT_THREAD_SUSPEND\<rparr>)" "tlists k1 = tlists k"
    using suspend_ok [OF k self th] by blast
  have nt: "t \<notin> set (tlists k l')" for l' using running_unlisted [OF kinvD(1) [OF k] th] by blast
  have p: "prio_of k1 u = prio_of k u" for u using th by (simp add: prio_of_def k1(5))
  let ?q = "wait_insert k flag t (tlists k l)"
  let ?k' = "k1\<lparr>tlists := (tlists k1)(l := ?q)\<rparr>"
  have run: "ipc_list_suspend k l t flag = Some ?k'"
    using k1(1,6) wait_insert_cong [of k1 k, OF p] by (simp add: ipc_list_suspend_def)
  have dq: "distinct ?q" using nt sched_okD(4) [OF kinvD(1) [OF k]] by simp
  have "sched_ok {} ?k'"
    by (rule sched_ok_enqueue [OF kinvD(1) [OF k1(2)], of t]) (use k1 nt l dq in auto)
  moreover have "cpu_ok ?k'" "timer_link ?k'" "lock_ok ?k'"
    using kinvD(2-4) [OF k1(2)] by simp_all
  ultimately have "kinv {} ?k'" by (simp add: kinv_def)
  moreover have "same_env k ?k'" "same_objs k ?k'" using k1(3,4) by (simp_all add: same_env_def same_objs_def)
  ultimately show ?thesis using run k1 by auto
qed

section \<open>Waiting\<close>

text \<open>What a blocked call leaves behind.\<close>

definition blocked_on :: "kernel \<Rightarrow> tid \<Rightarrow> rt_thread \<Rightarrow> lid \<Rightarrow> ipc_flag \<Rightarrow> int \<Rightarrow> kernel \<Rightarrow> bool" where
  "blocked_on k t th l flag timeout k' \<longleftrightarrow> kinv {} k' \<and> same_objs k k' \<and>
     (\<exists>u uh. rt_thread_self k' = Some u \<and> u \<noteq> t \<and> threads k' u = Some uh \<and> stat uh = RT_THREAD_RUNNING \<and> lowest_ready k' uh) \<and>
     (\<exists>h. threads k' t = Some h \<and> sched_eq (th\<lparr>stat := RT_THREAD_SUSPEND\<rparr>) h) \<and>
     tlists k' l = wait_insert k flag t (tlists k l) \<and>
     (\<forall>l'. \<not> is_readyq l' \<and> l' \<noteq> l \<longrightarrow> tlists k' l' = tlists k l') \<and>
     (\<forall>u. u \<noteq> t \<longrightarrow> rel_option sched_eq (threads k u) (threads k' u)) \<and>
     (0 < timeout \<longrightarrow> (\<exists>tm. timers (ktimers k') (ThreadTimer t) = Some tm \<and> activated tm \<and>
        timeout_tick tm = u32 (tick (ktimers k) + timeout)))"

lemma blocked_onE:
  assumes "blocked_on k t th l flag timeout k'"
  obtains u uh h where "kinv {} k'" "same_objs k k'" "rt_thread_self k' = Some u" "u \<noteq> t" "threads k' u = Some uh"
    "stat uh = RT_THREAD_RUNNING" "lowest_ready k' uh" "threads k' t = Some h" "sched_eq (th\<lparr>stat := RT_THREAD_SUSPEND\<rparr>) h"
    "stat h = RT_THREAD_SUSPEND" "error h = error th" "tlists k' l = wait_insert k flag t (tlists k l)"
    "\<And>l'. \<not> is_readyq l' \<Longrightarrow> l' \<noteq> l \<Longrightarrow> tlists k' l' = tlists k l'"
    "\<And>u. u \<noteq> t \<Longrightarrow> rel_option sched_eq (threads k u) (threads k' u)"
    "0 < timeout \<Longrightarrow> \<exists>tm. timers (ktimers k') (ThreadTimer t) = Some tm \<and> activated tm \<and> timeout_tick tm = u32 (tick (ktimers k) + timeout)"
proof -
  note B = assms [unfolded blocked_on_def]
  obtain u uh where u: "rt_thread_self k' = Some u" "u \<noteq> t" "threads k' u = Some uh" "stat uh = RT_THREAD_RUNNING" "lowest_ready k' uh"
    using B by blast
  obtain h where h: "threads k' t = Some h" "sched_eq (th\<lparr>stat := RT_THREAD_SUSPEND\<rparr>) h" using B by blast
  have "stat h = RT_THREAD_SUSPEND" "error h = error th" using h(2) by (simp_all add: sched_eq_def)
  then show thesis using that u h B by blast
qed

lemma wait_insert_upd:
  assumes "threads k t = Some th" "current_priority h = current_priority th"
  shows "wait_insert (k\<lparr>threads := (threads k)(t \<mapsto> h)\<rparr>) f u q = wait_insert k f u q"
  by (rule wait_insert_cong) (use assms in \<open>simp add: prio_of_def\<close>)

lemma ipc_timer_ok:
  assumes k: "kinv {} k" and th: "threads k t = Some th" "stat th = RT_THREAD_SUSPEND" and n: "timeout < half"
  shows "\<exists>s. (if timeout > 0 then rt_thread_timer_start k t timeout else Some k) = Some (k\<lparr>ktimers := s\<rparr>) \<and>
    kinv {} (k\<lparr>ktimers := s\<rparr>) \<and> tick s = tick (ktimers k) \<and>
    (0 < timeout \<longrightarrow> (\<exists>tm. timers s (ThreadTimer t) = Some tm \<and> activated tm \<and> timeout_tick tm = u32 (tick (ktimers k) + timeout)))"
proof (cases "0 < timeout")
  case True
  obtain s tm where s: "rt_thread_timer_start k t timeout = Some (k\<lparr>ktimers := s\<rparr>)" "timer_link (k\<lparr>ktimers := s\<rparr>)" "tick s = tick (ktimers k)"
      "timers s (ThreadTimer t) = Some tm" "activated tm" "timeout_tick tm = u32 (tick (ktimers k) + timeout)"
    using thread_timer_start_ok [OF kinvD(3) [OF k] th True n] by blast
  have "kinv {} (k\<lparr>ktimers := s\<rparr>)" by (rule kinv_cong [OF k]) (simp_all add: s)
  then show ?thesis using True s by auto
next
  case False
  then show ?thesis using k by (intro exI [of _ "ktimers k"]) simp
qed

text \<open>The timer and the switch, once the caller is suspended.\<close>

lemma wait_switch_ok:
  assumes k: "kinv {} k" and self: "rt_thread_self k = Some t" "irq_nest (rt_cpu_self k) = 0"
    and th: "threads k t = Some th" "stat th = RT_THREAD_SUSPEND" and el: "\<exists>u uh. eligible k u uh" and n: "timeout < half"
  shows "\<exists>k1 k'. (if timeout > 0 then rt_thread_timer_start k t timeout else Some k) = Some k1 \<and> rt_schedule k1 = Some k' \<and>
    kinv {} k' \<and> same_objs k k' \<and> wait_same k k' \<and>
    (\<exists>u uh. rt_thread_self k' = Some u \<and> u \<noteq> t \<and> threads k' u = Some uh \<and> stat uh = RT_THREAD_RUNNING \<and> lowest_ready k' uh) \<and>
    (0 < timeout \<longrightarrow> (\<exists>tm. timers (ktimers k') (ThreadTimer t) = Some tm \<and> activated tm \<and> timeout_tick tm = u32 (tick (ktimers k) + timeout)))"
proof -
  obtain s where s: "(if timeout > 0 then rt_thread_timer_start k t timeout else Some k) = Some (k\<lparr>ktimers := s\<rparr>)"
      "kinv {} (k\<lparr>ktimers := s\<rparr>)" "tick s = tick (ktimers k)"
      "0 < timeout \<longrightarrow> (\<exists>tm. timers s (ThreadTimer t) = Some tm \<and> activated tm \<and> timeout_tick tm = u32 (tick (ktimers k) + timeout))"
    using ipc_timer_ok [OF k th n] by blast
  let ?k1 = "k\<lparr>ktimers := s\<rparr>"
  have self1: "rt_thread_self ?k1 = Some t" "irq_nest (rt_cpu_self ?k1) = 0" and el1: "\<exists>u uh. eligible ?k1 u uh"
    using self el by (simp_all add: rt_thread_self_def rt_cpu_self_def eligible_def)
  obtain k' u uh where k': "rt_schedule ?k1 = Some k'" "kinv {} k'" "same_objs ?k1 k'" "wait_same ?k1 k'" "ktimers k' = s"
      "rt_thread_self k' = Some u" "threads k' u = Some uh" "stat uh = RT_THREAD_RUNNING" "lowest_ready k' uh"
    using schedule_kinv [OF s(2) self1(1), of th] self1(2) el1 th by auto
  have w: "wait_same k k'" "same_objs k k'" using k'(3,4) by (simp_all add: wait_same_def same_objs_def)
  have "rel_option sched_eq (threads k t) (threads k' t)" using w(1) by (simp add: wait_same_def)
  then obtain h where "threads k' t = Some h" "sched_eq th h" using th(1) by (auto simp: option_rel_Some1)
  then have "u \<noteq> t" using k'(7,8) th(2) by (auto simp: sched_eq_def)
  then show ?thesis using s(1,4) k'(1,2,5-9) w by (intro exI [of _ ?k1] exI [of _ k']) simp
qed

lemma ipc_wait_ok:
  assumes k: "kinv {} k" and b: "can_block k t th" and l: "waitq l" and n: "timeout < half"
  shows "\<exists>k'. ipc_wait k t l flag timeout = Some (Blocked, k') \<and> blocked_on k t th l flag timeout k'"
proof -
  note B = b [unfolded can_block_def]
  let ?h = "th\<lparr>stat := RT_THREAD_SUSPEND\<rparr>"
  obtain k1 where k1: "ipc_list_suspend k l t flag = Some k1" "kinv {} k1" "same_env k k1" "same_objs k k1"
      "threads k1 = (threads k)(t \<mapsto> ?h)" "tlists k1 = (tlists k)(l := wait_insert k flag t (tlists k l))"
    using ipc_suspend_ok [OF k, of t th l flag] B l by auto
  have t1: "threads k1 t = Some ?h" "stat ?h = RT_THREAD_SUSPEND" by (simp_all add: k1(5))
  have self: "rt_thread_self k1 = Some t" "irq_nest (rt_cpu_self k1) = 0" using same_env_self [OF k1(3)] B by simp_all
  have el: "\<exists>u uh. eligible k1 u uh" by (rule eligible_other [of k t th _ ?h]) (use B k1(3,5) in \<open>auto simp: same_env_def\<close>)
  obtain k2 k' where k': "(if timeout > 0 then rt_thread_timer_start k1 t timeout else Some k1) = Some k2" "rt_schedule k2 = Some k'"
      "kinv {} k'" "same_objs k1 k'" "wait_same k1 k'"
      "\<exists>u uh. rt_thread_self k' = Some u \<and> u \<noteq> t \<and> threads k' u = Some uh \<and> stat uh = RT_THREAD_RUNNING \<and> lowest_ready k' uh"
      "0 < timeout \<longrightarrow> (\<exists>tm. timers (ktimers k') (ThreadTimer t) = Some tm \<and> activated tm \<and> timeout_tick tm = u32 (tick (ktimers k1) + timeout))"
    using wait_switch_ok [OF k1(2) self t1 el n] by blast
  have rel: "rel_option sched_eq (threads k1 v) (threads k' v)" for v using k'(5) by (simp add: wait_same_def)
  have "\<exists>h. threads k' t = Some h \<and> sched_eq ?h h" using rel [of t] t1(1) by (auto simp: option_rel_Some1)
  moreover have "tlists k' l' = tlists k1 l'" if "\<not> is_readyq l'" for l' using k'(5) that by (simp add: wait_same_def)
  moreover have "rel_option sched_eq (threads k v) (threads k' v)" if "v \<noteq> t" for v using rel [of v] that by (simp add: k1(5))
  moreover have "same_objs k k'" "tick (ktimers k1) = tick (ktimers k)"
    using same_objs_trans [OF k1(4) k'(4)] k1(3) by (simp_all add: same_env_def)
  ultimately have "blocked_on k t th l flag timeout k'"
    unfolding blocked_on_def using k'(3,6,7) waitq_stat [OF l] k1(6) by simp
  moreover have "ipc_wait k t l flag timeout = Some (Blocked, k')"
    using k1(1) k'(1,2) by (simp add: ipc_wait_def)
  ultimately show ?thesis by blast
qed

text \<open>The same after the caller's error has been reset, as most calls do.\<close>

lemma ipc_block_ok:
  assumes k: "kinv {} k" and b: "can_block k t th" and l: "waitq l" and n: "timeout < half"
  shows "\<exists>k1 k' h. upd_thread k t (error_update (\<lambda>_. RT_EOK)) = Some k1 \<and> ipc_wait k1 t l flag timeout = Some (Blocked, k') \<and>
    kinv {} k' \<and> same_objs k k' \<and> threads k' t = Some h \<and> stat h = RT_THREAD_SUSPEND \<and> error h = RT_EOK \<and>
    tlists k' l = wait_insert k flag t (tlists k l) \<and> (\<forall>l'. \<not> is_readyq l' \<and> l' \<noteq> l \<longrightarrow> tlists k' l' = tlists k l')"
proof -
  note B = b [unfolded can_block_def]
  let ?h = "th\<lparr>error := RT_EOK\<rparr>"
  let ?k1 = "k\<lparr>threads := (threads k)(t \<mapsto> ?h)\<rparr>"
  have u: "upd_thread k t (error_update (\<lambda>_. RT_EOK)) = Some ?k1" using B by (simp add: upd_thread_def)
  have s: "same_thread th ?h" "critical_lock_nest ?h = critical_lock_nest th" by (simp_all add: same_thread_def)
  obtain k' where k': "ipc_wait ?k1 t l flag timeout = Some (Blocked :: 'a call, k')" "blocked_on ?k1 t ?h l flag timeout k'"
    using ipc_wait_ok [OF can_block_upd [OF k b s] l n] by blast
  have w: "wait_insert ?k1 flag t q = wait_insert k flag t q" for q
    using B by (intro wait_insert_upd [of k t th]) auto
  obtain h where "kinv {} k'" "same_objs ?k1 k'" "threads k' t = Some h" "stat h = RT_THREAD_SUSPEND" "error h = RT_EOK"
      "tlists k' l = wait_insert ?k1 flag t (tlists k l)" "\<forall>l'. \<not> is_readyq l' \<and> l' \<noteq> l \<longrightarrow> tlists k' l' = tlists k l'"
    using k'(2) by (rule blocked_onE) simp
  then show ?thesis using u k'(1) w by (intro exI [of _ ?k1] exI [of _ k'] exI [of _ h]) (simp add: same_objs_def)
qed

section \<open>Off a list\<close>

text \<open>The scheduler after a wake-up, called from a thread or from an interrupt handler.\<close>

lemma schedule_any:
  assumes k: "kinv {} k" and self: "rt_thread_self k = Some cur" and th: "threads k cur = Some th" "stat th = RT_THREAD_RUNNING"
  shows "\<exists>k'. rt_schedule k = Some k' \<and> kinv {} k' \<and> same_objs k k' \<and> wait_same k k' \<and> ktimers k' = ktimers k \<and>
    (irq_nest (rt_cpu_self k) = 0 \<longrightarrow> (\<exists>n nth. rt_thread_self k' = Some n \<and> threads k' n = Some nth \<and> lowest_ready k' nth)) \<and>
    (irq_nest (rt_cpu_self k) \<noteq> 0 \<longrightarrow> rt_thread_self k' = Some cur \<and> irq_switch_flag (rt_cpu_self k'))"
proof (cases "irq_nest (rt_cpu_self k) = 0")
  case True
  then show ?thesis using schedule_kinv [OF k self th(1) _ True] th(2) by fastforce
next
  case False
  let ?k' = "upd_cpu k (cpu_id k) (irq_switch_flag_update (\<lambda>_. True))"
  have "rt_schedule k = Some ?k'" using schedule_irq [OF k self th(1) False] .
  moreover have "wait_same k ?k'" using wait_same_refl [of k, unfolded wait_same_def] by (simp add: wait_same_def upd_cpu_def)
  moreover have "rt_thread_self ?k' = Some cur" "irq_switch_flag (rt_cpu_self ?k')" "ktimers ?k' = ktimers k"
    using self by (simp_all add: rt_thread_self_def rt_cpu_self_def upd_cpu_def)
  ultimately show ?thesis using False k by (intro exI [of _ ?k']) simp
qed

lemma waiting_thread:
  assumes "sched_ok X k" "waitq l" "t \<in> set (tlists k l)"
  obtains th where "threads k t = Some th" "stat th = RT_THREAD_SUSPEND"
  using sched_okD(7) [OF assms(1,3)] waitq_stat [OF assms(2)] by auto

lemma enqueue_ready_other:
  assumes "\<not> is_readyq l"
  shows "enqueue_ready q t th l = q l"
  using assms by (auto simp: enqueue_ready_def)

lemma remove1_other:
  assumes "sched_ok X k" "t \<in> set (tlists k l)" "l' \<noteq> l"
  shows "remove1 t (tlists k l') = tlists k l'"
  using sched_okD(5) [OF assms(1,2), of l'] assms(3) by (auto intro: remove1_idem)

text \<open>Resuming one thread of a list takes just that thread off it.\<close>

lemma resume_listed:
  assumes k: "kinv {} k" and l: "waitq l" and t: "t \<in> set (tlists k l)" and th: "threads k t = Some th"
  shows "\<exists>k'. rt_thread_resume k t = Some (RT_EOK, k') \<and> kinv {} k' \<and> same_env k k' \<and> same_objs k k' \<and>
    threads k' = (threads k)(t \<mapsto> resumed th) \<and> tlists k' l = remove1 t (tlists k l) \<and>
    (\<forall>l'. \<not> is_readyq l' \<and> l' \<noteq> l \<longrightarrow> tlists k' l' = tlists k l')"
proof -
  note ok = kinvD(1) [OF k]
  have st: "stat th = RT_THREAD_SUSPEND" using waiting_thread [OF ok l t] th by (metis option.inject)
  obtain k' where k': "rt_thread_resume k t = Some (RT_EOK, k')" "kinv {} k'" "same_env k k'" "same_objs k k'"
      "threads k' = (threads k)(t \<mapsto> resumed th)" "tlists k' = enqueue_ready (\<lambda>l. remove1 t (tlists k l)) t th"
    using resume_ok [OF k th st] by blast
  have "tlists k' l' = remove1 t (tlists k l')" if "\<not> is_readyq l'" for l' using that by (simp add: k'(6) enqueue_ready_other)
  then show ?thesis using k' remove1_other [OF ok t] waitq_stat [OF l] by auto
qed

lemma ipc_resume_ok:
  assumes k: "kinv {} k" and l: "waitq l" and t: "tlists k l = t # ts" and th: "threads k t = Some th"
  shows "\<exists>k'. ipc_list_resume k l = Some k' \<and> kinv {} k' \<and> same_env k k' \<and> same_objs k k' \<and>
    threads k' = (threads k)(t \<mapsto> resumed th) \<and> tlists k' l = ts \<and>
    (\<forall>l'. \<not> is_readyq l' \<and> l' \<noteq> l \<longrightarrow> tlists k' l' = tlists k l')"
  using resume_listed [OF k l _ th] t by (auto simp: ipc_list_resume_def)

definition woken :: "kernel \<Rightarrow> lid \<Rightarrow> kernel \<Rightarrow> bool" where
  "woken k l k' \<longleftrightarrow> kinv {} k' \<and> same_objs k k' \<and> tlists k' l = tl (tlists k l) \<and>
     (\<forall>l'. \<not> is_readyq l' \<and> l' \<noteq> l \<longrightarrow> tlists k' l' = tlists k l') \<and>
     (\<forall>t ts th. tlists k l = t # ts \<and> threads k t = Some th \<longrightarrow>
        (\<exists>h. threads k' t = Some h \<and> (stat h = RT_THREAD_READY \<or> stat h = RT_THREAD_RUNNING) \<and> error h = error th)) \<and>
     (\<forall>u uh. threads k u = Some uh \<longrightarrow> (\<exists>h. threads k' u = Some h \<and> error h = error uh))"

lemma ipc_notify_ok:
  assumes k: "kinv {} k" and l: "waitq l"
    and cur: "rt_thread_self k = Some c" "threads k c = Some ch" "stat ch = RT_THREAD_RUNNING"
  shows "\<exists>k'. ipc_notify k l = Some k' \<and> woken k l k'"
proof (cases "tlists k l")
  case Nil
  then show ?thesis using k by (auto simp: ipc_notify_def woken_def)
next
  case (Cons t ts)
  obtain th where th: "threads k t = Some th" "stat th = RT_THREAD_SUSPEND"
    by (rule waiting_thread [OF kinvD(1) [OF k] l, of t]) (simp_all add: Cons)
  obtain k1 where k1: "ipc_list_resume k l = Some k1" "kinv {} k1" "same_env k k1" "same_objs k k1"
      "threads k1 = (threads k)(t \<mapsto> resumed th)" "tlists k1 l = ts"
      "\<forall>l'. \<not> is_readyq l' \<and> l' \<noteq> l \<longrightarrow> tlists k1 l' = tlists k l'"
    using ipc_resume_ok [OF k l Cons th(1)] by blast
  have c1: "rt_thread_self k1 = Some c" "threads k1 c = Some ch"
    using same_env_self [OF k1(3)] cur th k1(5) by auto
  obtain k' where k': "rt_schedule k1 = Some k'" "kinv {} k'" "same_objs k1 k'" "wait_same k1 k'"
    using schedule_any [OF k1(2) c1 cur(3)] by blast
  have rel: "rel_option sched_eq (threads k1 u) (threads k' u)" for u using k'(4) by (simp add: wait_same_def)
  have l': "tlists k' l' = tlists k1 l'" if "\<not> is_readyq l'" for l' using k'(4) that by (simp add: wait_same_def)
  have w: "\<exists>h. threads k' u = Some h \<and> error h = error uh" if "threads k u = Some uh" for u uh
  proof -
    have "\<exists>h. threads k1 u = Some h \<and> error h = error uh" using that th k1(5) by (auto simp: resumed_def)
    then show ?thesis using rel_thread [OF rel, of u] by (auto simp: sched_eq_def)
  qed
  obtain h where h: "threads k' t = Some h" "sched_eq (resumed th) h" using rel_thread [OF rel, of t] k1(5) by auto
  have "stat h = RT_THREAD_READY \<or> stat h = RT_THREAD_RUNNING" "error h = error th"
    using h(2) by (auto simp: sched_eq_def resumed_def split: if_splits)
  moreover have "same_objs k k'" using same_objs_trans [OF k1(4) k'(3)] .
  ultimately have "woken k l k'"
    unfolding woken_def using k'(2) h(1) th Cons k1(6,7) l' w waitq_stat [OF l] by simp
  moreover have "ipc_notify k l = Some k'" using Cons k1(1) k'(1) by (simp add: ipc_notify_def)
  ultimately show ?thesis by blast
qed

text \<open>Resuming all of them ends, and every one has the error \<^verbatim>\<open>-RT_ERROR\<close>.\<close>

definition failed :: "rt_thread \<Rightarrow> rt_thread" where
  "failed th = resumed (th\<lparr>error := - RT_ERROR\<rparr>)"

lemma ipc_resume_all_ok:
  assumes "kinv {} k" "waitq l"
  shows "\<exists>k'. ipc_list_resume_all l k = Some k' \<and> kinv {} k' \<and> same_env k k' \<and> same_objs k k' \<and>
    threads k' = (\<lambda>t. if t \<in> set (tlists k l) then map_option failed (threads k t) else threads k t) \<and>
    tlists k' l = [] \<and> (\<forall>l'. \<not> is_readyq l' \<and> l' \<noteq> l \<longrightarrow> tlists k' l' = tlists k l')"
  using assms
proof (induction "tlists k l" arbitrary: k)
  case Nil
  then have "ipc_list_resume_all l k = Some k" by (subst ipc_list_resume_all.simps) (simp split: list.split)
  then show ?case using Nil by (intro exI [of _ k]) (simp add: fun_eq_iff)
next
  case (Cons t ts)
  note ok = kinvD(1) [OF Cons.prems(1)]
  have t: "t \<in> set (tlists k l)" using Cons.hyps(2) [symmetric] by simp
  obtain th where th: "threads k t = Some th" "stat th = RT_THREAD_SUSPEND"
    by (rule waiting_thread [OF ok Cons.prems(2) t])
  let ?th = "th\<lparr>error := - RT_ERROR\<rparr>"
  let ?k1 = "k\<lparr>threads := (threads k)(t \<mapsto> ?th)\<rparr>"
  have k1: "kinv {} ?k1" by (rule kinv_upd [OF Cons.prems(1) th(1)]) (simp add: same_thread_def)
  obtain k2 where k2: "rt_thread_resume ?k1 t = Some (RT_EOK, k2)" "kinv {} k2" "same_env ?k1 k2" "same_objs ?k1 k2"
      "threads k2 = (threads ?k1)(t \<mapsto> failed th)" "tlists k2 l = ts"
      "\<forall>l'. \<not> is_readyq l' \<and> l' \<noteq> l \<longrightarrow> tlists k2 l' = tlists k l'"
    using resume_listed [OF k1 Cons.prems(2), of t ?th] t Cons.hyps(2) [symmetric] by (auto simp: failed_def)
  obtain k' where k': "ipc_list_resume_all l k2 = Some k'" "kinv {} k'" "same_env k2 k'" "same_objs k2 k'"
      "threads k' = (\<lambda>t. if t \<in> set ts then map_option failed (threads k2 t) else threads k2 t)"
      "tlists k' l = []" "\<forall>l'. \<not> is_readyq l' \<and> l' \<noteq> l \<longrightarrow> tlists k' l' = tlists k2 l'"
    using Cons.hyps(1) [of k2] k2(2,6) Cons.prems(2) by auto
  have "upd_thread k t (error_update (\<lambda>_. - RT_ERROR)) = Some ?k1" using th by (simp add: upd_thread_def)
  then have run: "ipc_list_resume_all l k = Some k'"
    using k2(1) k'(1) Cons.hyps(2) [symmetric] by (subst ipc_list_resume_all.simps) simp
  have "t \<notin> set ts" using sched_okD(4) [OF ok, of l] Cons.hyps(2) [symmetric] by simp
  then have "threads k' = (\<lambda>u. if u \<in> set (tlists k l) then map_option failed (threads k u) else threads k u)"
    unfolding k'(5) k2(5) using th(1) Cons.hyps(2) [symmetric] by (auto simp: fun_eq_iff)
  moreover have "same_env k k'" "same_objs k k'" using k2(3,4) k'(3,4) by (simp_all add: same_env_def same_objs_def)
  ultimately show ?case using run k' k2(7) by auto
qed

section \<open>Concrete states\<close>

text \<open>The example kernel with its suspended thread 4 on a waiting list.\<close>

definition ex_waiting :: "int \<Rightarrow> lid \<Rightarrow> kernel" where
  "ex_waiting irq l = (ex_kernel irq)\<lparr>tlists := ex_lists(l := [4])\<rparr>"

lemma ex_waiting_self:
  "rt_thread_self (ex_waiting irq l) = Some 1" "irq_nest (rt_cpu_self (ex_waiting irq l)) = irq"
  "threads (ex_waiting irq l) = ex_threads" "ktimers (ex_waiting irq l) = ex_ktimers" "cpu_id (ex_waiting irq l) = 0"
  "tlists (ex_waiting irq l) = ex_lists(l := [4])"
  by (simp_all add: ex_waiting_def rt_thread_self_def rt_cpu_self_def ex_kernel_def ex_cpu_def)

lemma ex_waiting_kinv:
  assumes "waitq l"
  shows "kinv {} (ex_waiting irq l)"
proof -
  have q: "tlists (ex_kernel irq) = ex_lists" "ex_lists l = []" using assms by (auto simp: ex_kernel_def ex_lists_def waitq_def)
  have t: "threads (ex_kernel irq) 4 = Some (ex_thread RT_THREAD_SUSPEND 8 2 2)" "stat (ex_thread RT_THREAD_SUSPEND 8 2 2) = RT_THREAD_SUSPEND"
    by (simp_all add: ex_self ex_threads_def ex_thread_def)
  have n: "4 \<notin> set (tlists (ex_kernel irq) l')" for l' by (simp add: q ex_lists_def)
  have "sched_ok {} (ex_waiting irq l)"
    using sched_ok_enqueue [OF ex_sched t n assms, of "[4]"] by (simp add: ex_waiting_def q)
  moreover have "cpu_ok (ex_waiting irq l)" "timer_link (ex_waiting irq l)" "lock_ok (ex_waiting irq l)"
    using kinvD(2-4) [OF ex_kinv, of irq] by (simp_all add: ex_waiting_def)
  ultimately show ?thesis by (simp add: kinv_def)
qed

end
