(* ===== verification/Semaphore.thy ===== *)
theory Semaphore
  imports Ipc
begin

text \<open>
  Counting semaphores, after \<^verbatim>\<open>rt-thread/src/ipc.c\<close>: a token goes to the first waiting thread or
  into the counter, a thread that finds none waits. A blocked call is given by the part up to
  the switch and, as \<^verbatim>\<open>rt_sem_take_wake\<close>, what is left when the thread goes on.
\<close>

section \<open>Operations\<close>

definition rt_sem_init :: "kernel \<Rightarrow> nat \<Rightarrow> int \<Rightarrow> ipc_flag \<Rightarrow> kernel option" where
  "rt_sem_init k s v flag = do {
     RT_ASSERT (v < 65536);
     Some (k\<lparr>sems := (sems k)(s \<mapsto> \<lparr>sem_value = u16 v, sem_flag = flag, sem_static = True\<rparr>),
            tlists := (tlists k)(SemQ s := [])\<rparr>)
   }"

definition rt_sem_detach :: "kernel \<Rightarrow> nat \<Rightarrow> kernel option" where
  "rt_sem_detach k s = do {
     sem \<leftarrow> sems k s;
     RT_ASSERT (sem_static sem);
     k1 \<leftarrow> ipc_list_resume_all (SemQ s) k;
     Some (k1\<lparr>sems := (sems k1)(s := None)\<rparr>)
   }"

text \<open>\<open>object_ok\<close>: whether \<^verbatim>\<open>rt_object_allocate\<close> found memory for the object \<open>s\<close>.\<close>

definition rt_sem_create :: "bool \<Rightarrow> kernel \<Rightarrow> nat \<Rightarrow> int \<Rightarrow> ipc_flag \<Rightarrow> (nat option \<times> kernel) option" where
  "rt_sem_create object_ok k s v flag = do {
     RT_ASSERT (v < 65536);
     RT_DEBUG_NOT_IN_INTERRUPT k;
     Some (if \<not> object_ok then (None, k)
       else (Some s, k\<lparr>sems := (sems k)(s \<mapsto> \<lparr>sem_value = u16 v, sem_flag = flag, sem_static = False\<rparr>),
                       tlists := (tlists k)(SemQ s := [])\<rparr>))
   }"

definition rt_sem_delete :: "kernel \<Rightarrow> nat \<Rightarrow> kernel option" where
  "rt_sem_delete k s = do {
     sem \<leftarrow> sems k s;
     RT_ASSERT (\<not> sem_static sem);
     RT_DEBUG_NOT_IN_INTERRUPT k;
     k1 \<leftarrow> ipc_list_resume_all (SemQ s) k;
     Some (k1\<lparr>sems := (sems k1)(s := None)\<rparr>)
   }"

definition rt_sem_take :: "kernel \<Rightarrow> nat \<Rightarrow> int \<Rightarrow> (int call \<times> kernel) option" where
  "rt_sem_take k s timeout = do {
     sem \<leftarrow> sems k s;
     (if sem_value sem > 0 then Some (Done RT_EOK, k\<lparr>sems := (sems k)(s \<mapsto> sem\<lparr>sem_value := u16 (sem_value sem - 1)\<rparr>)\<rparr>)
      else if timeout = 0 then Some (Done (- RT_ETIMEOUT), k)
      else do {
        RT_DEBUG_SCHEDULER_AVAILABLE k True;
        t \<leftarrow> rt_thread_self k;
        k1 \<leftarrow> upd_thread k t (error_update (\<lambda>_. RT_EOK));
        ipc_wait k1 t (SemQ s) (sem_flag sem) timeout
      })
   }"

definition rt_sem_take_wake :: "kernel \<Rightarrow> int option" where
  "rt_sem_take_wake k = do { t \<leftarrow> rt_thread_self k; th \<leftarrow> threads k t; Some (if error th \<noteq> RT_EOK then error th else RT_EOK) }"

definition rt_sem_trytake :: "kernel \<Rightarrow> nat \<Rightarrow> (int call \<times> kernel) option" where
  "rt_sem_trytake k s = rt_sem_take k s 0"

definition rt_sem_release :: "kernel \<Rightarrow> nat \<Rightarrow> (int \<times> kernel) option" where
  "rt_sem_release k s = do {
     sem \<leftarrow> sems k s;
     (if tlists k (SemQ s) \<noteq> [] then do {
        k1 \<leftarrow> ipc_list_resume k (SemQ s);
        k2 \<leftarrow> rt_schedule k1;
        Some (RT_EOK, k2)
      }
      else if sem_value sem < RT_SEM_VALUE_MAX
        then Some (RT_EOK, k\<lparr>sems := (sems k)(s \<mapsto> sem\<lparr>sem_value := u16 (sem_value sem + 1)\<rparr>)\<rparr>)
      else Some (- RT_EFULL, k))
   }"

text \<open>The command \<^verbatim>\<open>RT_IPC_CMD_RESET\<close> (given by \<open>Some\<close> of its argument); any other is refused.\<close>

definition rt_sem_control :: "kernel \<Rightarrow> nat \<Rightarrow> int option \<Rightarrow> (int \<times> kernel) option" where
  "rt_sem_control k s reset = do {
     sem \<leftarrow> sems k s;
     (case reset of None \<Rightarrow> Some (- RT_ERROR, k)
      | Some v \<Rightarrow> do {
          k1 \<leftarrow> ipc_list_resume_all (SemQ s) k;
          let k2 = k1\<lparr>sems := (sems k1)(s \<mapsto> sem\<lparr>sem_value := u16 v\<rparr>)\<rparr>;
          k3 \<leftarrow> rt_schedule k2;
          Some (RT_EOK, k3)
        })
   }"

section \<open>The invariant\<close>

text \<open>No thread waits while there are tokens, and who waits has no error yet.\<close>

definition sem_ok :: "nat \<Rightarrow> kernel \<Rightarrow> bool" where
  "sem_ok s k \<longleftrightarrow> kinv {} k \<and>
     (\<exists>sem. sems k s = Some sem \<and> 0 \<le> sem_value sem \<and> sem_value sem \<le> 65535 \<and> (0 < sem_value sem \<longrightarrow> tlists k (SemQ s) = [])) \<and>
     (\<forall>t \<in> set (tlists k (SemQ s)). \<exists>th. threads k t = Some th \<and> error th = RT_EOK)"

lemma sem_okE:
  assumes "sem_ok s k"
  obtains sem where "kinv {} k" "sems k s = Some sem" "0 \<le> sem_value sem" "sem_value sem \<le> 65535"
    "0 < sem_value sem \<longrightarrow> tlists k (SemQ s) = []"
    "\<forall>t \<in> set (tlists k (SemQ s)). \<exists>th. threads k t = Some th \<and> error th = RT_EOK"
  using assms unfolding sem_ok_def by blast

text \<open>A change of the counter when nobody waits; and a change of everything but the semaphore.\<close>

lemma sem_ok_count:
  assumes "sem_ok s k" "sems k s = Some sem" "tlists k (SemQ s) = [] \<or> v = 0" "0 \<le> v" "v \<le> 65535"
  shows "sem_ok s (k\<lparr>sems := (sems k)(s \<mapsto> sem\<lparr>sem_value := v\<rparr>)\<rparr>)"
  using assms unfolding sem_ok_def by auto

lemma sem_ok_other:
  assumes "sem_ok s k" "kinv {} k'" "sems k' s = sems k s" "set (tlists k' (SemQ s)) \<subseteq> set (tlists k (SemQ s))"
    "\<And>t th. t \<in> set (tlists k' (SemQ s)) \<Longrightarrow> threads k t = Some th \<Longrightarrow> \<exists>h. threads k' t = Some h \<and> error h = error th"
  shows "sem_ok s k'"
proof -
  obtain sem where s: "kinv {} k" "sems k s = Some sem" "0 \<le> sem_value sem" "sem_value sem \<le> 65535"
    "0 < sem_value sem \<longrightarrow> tlists k (SemQ s) = []"
    "\<forall>t \<in> set (tlists k (SemQ s)). \<exists>th. threads k t = Some th \<and> error th = RT_EOK"
    by (rule sem_okE [OF assms(1)])
  have "\<exists>h. threads k' t = Some h \<and> error h = RT_EOK" if t: "t \<in> set (tlists k' (SemQ s))" for t
  proof -
    obtain th where "threads k t = Some th" "error th = RT_EOK" using s(6) assms(4) t by blast
    then show ?thesis using assms(5) [OF t] by fastforce
  qed
  then show ?thesis using assms(2-4) s unfolding sem_ok_def by auto
qed

section \<open>Concrete states\<close>

definition ex_sem :: "int \<Rightarrow> rt_semaphore" where
  "ex_sem v = \<lparr>sem_value = v, sem_flag = RT_IPC_FLAG_PRIO, sem_static = True\<rparr>"

lemma ex_sem_ok:
  assumes "0 \<le> v" "v \<le> 65535"
  shows "sem_ok 0 ((ex_kernel 0)\<lparr>sems := [0 \<mapsto> ex_sem v]\<rparr>)"
  using assms ex_kinv [of 0] by (simp add: sem_ok_def ex_sem_def ex_tlists ex_lists_def)

lemma ex_sem_waiting_ok: "sem_ok 0 ((ex_waiting 0 (SemQ 0))\<lparr>sems := [0 \<mapsto> ex_sem 0]\<rparr>)"
  using ex_waiting_kinv [of "SemQ 0" 0] by (simp add: sem_ok_def ex_sem_def ex_waiting_self ex_threads_def ex_thread_def)

section \<open>Taking and releasing\<close>

lemma sem_wait_ok:
  assumes ok: "sem_ok s k" and sem: "sems k s = Some sem" "sem_value sem = 0"
    and b: "can_block k t th" and n: "timeout \<noteq> 0" "timeout < half"
  shows "\<exists>k'. rt_sem_take k s timeout = Some (Blocked, k') \<and> sem_ok s k' \<and>
    blocked_on (k\<lparr>threads := (threads k)(t \<mapsto> th\<lparr>error := RT_EOK\<rparr>)\<rparr>) t (th\<lparr>error := RT_EOK\<rparr>) (SemQ s) (sem_flag sem) timeout k'"
proof -
  note B = b [unfolded can_block_def]
  have k: "kinv {} k" using ok by (simp add: sem_ok_def)
  let ?th = "th\<lparr>error := RT_EOK\<rparr>"
  let ?k1 = "k\<lparr>threads := (threads k)(t \<mapsto> ?th)\<rparr>"
  have s: "same_thread th ?th" "critical_lock_nest ?th = critical_lock_nest th" by (simp_all add: same_thread_def)
  obtain k' where k': "ipc_wait ?k1 t (SemQ s) (sem_flag sem) timeout = Some (Blocked :: int call, k')"
      "blocked_on ?k1 t ?th (SemQ s) (sem_flag sem) timeout k'"
    using ipc_wait_ok [OF can_block_upd [OF k b s] waitq_simps(1) n(2)] by blast
  obtain h where bl: "kinv {} k'" "same_objs ?k1 k'" "threads k' t = Some h" "error h = RT_EOK"
      "tlists k' (SemQ s) = wait_insert ?k1 (sem_flag sem) t (tlists ?k1 (SemQ s))"
      "\<And>u. u \<noteq> t \<Longrightarrow> rel_option sched_eq (threads ?k1 u) (threads k' u)"
    using k'(2) by (rule blocked_onE) simp
  have run: "rt_sem_take k s timeout = Some (Blocked, k')"
    using sem n(1) B can_block_available [OF b, of True] k'(1) by (simp add: rt_sem_take_def upd_thread_def)
  have e: "\<exists>h. threads k' u = Some h \<and> error h = RT_EOK" if u: "u \<in> set (tlists k' (SemQ s))" for u
  proof (cases "u = t")
    case True
    then show ?thesis using bl by simp
  next
    case False
    then have "u \<in> set (tlists k (SemQ s))" using u bl by auto
    then obtain uh where "threads k u = Some uh" "error uh = RT_EOK" using ok unfolding sem_ok_def by blast
    moreover have "rel_option sched_eq (threads ?k1 u) (threads k' u)" using bl False by blast
    ultimately show ?thesis using False by (auto simp: option_rel_Some1 sched_eq_def)
  qed
  have "sems k' s = Some sem" using bl sem by (simp add: same_objs_def)
  then have "sem_ok s k'" using bl e sem(2) unfolding sem_ok_def by simp
  then show ?thesis using run k'(2) by blast
qed

lemma sem_release_give:
  assumes ok: "sem_ok s k" and q: "tlists k (SemQ s) = t # ts" and th: "threads k t = Some th"
    and cur: "rt_thread_self k = Some c" "threads k c = Some ch" "stat ch = RT_THREAD_RUNNING"
  shows "\<exists>k' h. rt_sem_release k s = Some (RT_EOK, k') \<and> sem_ok s k' \<and> sems k' s = sems k s \<and> tlists k' (SemQ s) = ts \<and>
    threads k' t = Some h \<and> (stat h = RT_THREAD_READY \<or> stat h = RT_THREAD_RUNNING) \<and> error h = RT_EOK \<and>
    (\<forall>u. u \<noteq> t \<longrightarrow> rel_option sched_eq (threads k u) (threads k' u)) \<and>
    (irq_nest (rt_cpu_self k) = 0 \<longrightarrow> (\<exists>n nth. rt_thread_self k' = Some n \<and> threads k' n = Some nth \<and> lowest_ready k' nth))"
proof -
  have k: "kinv {} k" using ok by (simp add: sem_ok_def)
  have tq: "t \<in> set (tlists k (SemQ s))" using q by simp
  have st: "stat th = RT_THREAD_SUSPEND" using waiting_thread [OF kinvD(1) [OF k] waitq_simps(1) tq] th by (metis option.inject)
  have er: "error th = RT_EOK" using ok tq th unfolding sem_ok_def by (metis option.inject)
  obtain k1 where k1: "ipc_list_resume k (SemQ s) = Some k1" "kinv {} k1" "same_env k k1" "same_objs k k1"
      "threads k1 = (threads k)(t \<mapsto> resumed th)" "tlists k1 (SemQ s) = ts"
    using ipc_resume_ok [OF k waitq_simps(1) q th] by blast
  have c1: "rt_thread_self k1 = Some c" "threads k1 c = Some ch" "irq_nest (rt_cpu_self k1) = irq_nest (rt_cpu_self k)"
    using same_env_self [OF k1(3)] cur st th k1(5) by auto
  obtain k' where k': "rt_schedule k1 = Some k'" "kinv {} k'" "same_objs k1 k'" "wait_same k1 k'"
      "irq_nest (rt_cpu_self k1) = 0 \<longrightarrow> (\<exists>n nth. rt_thread_self k' = Some n \<and> threads k' n = Some nth \<and> lowest_ready k' nth)"
    using schedule_any [OF k1(2) c1(1,2) cur(3)] by blast
  have rel: "rel_option sched_eq (threads k1 u) (threads k' u)" and l: "tlists k' (SemQ s) = ts" for u
    using k'(4) k1(6) by (simp_all add: wait_same_def)
  obtain h where h: "threads k' t = Some h" "sched_eq (resumed th) h" using rel [of t] k1(5) by (auto simp: option_rel_Some1)
  have ts: "t \<notin> set ts" using sched_okD(4) [OF kinvD(1) [OF k], of "SemQ s"] q by simp
  have so: "sems k' s = sems k s" using k1(4) k'(3) by (simp add: same_objs_def)
  have "sem_ok s k'"
  proof (rule sem_ok_other [OF ok k'(2) so])
    show "set (tlists k' (SemQ s)) \<subseteq> set (tlists k (SemQ s))" using l q by auto
    fix u uh assume "u \<in> set (tlists k' (SemQ s))" "threads k u = Some uh"
    then have "threads k1 u = Some uh" using ts l k1(5) by auto
    then show "\<exists>h. threads k' u = Some h \<and> error h = error uh" using rel_thread [OF rel] by (auto simp: sched_eq_def)
  qed
  moreover have "rt_sem_release k s = Some (RT_EOK, k')"
  proof -
    obtain sem where "sems k s = Some sem" using ok by (auto simp: sem_ok_def)
    then show ?thesis using q k1(1) k'(1) by (simp add: rt_sem_release_def)
  qed
  moreover have "stat h = RT_THREAD_READY \<or> stat h = RT_THREAD_RUNNING" "error h = RT_EOK"
    using h(2) er by (auto simp: sched_eq_def resumed_def split: if_splits)
  moreover have "\<forall>u. u \<noteq> t \<longrightarrow> rel_option sched_eq (threads k u) (threads k' u)" using rel k1(5) by (metis fun_upd_other)
  ultimately show ?thesis using so l h(1) k'(5) [unfolded c1(3)] by blast
qed

text \<open>Taking a semaphore, on every branch: a token is taken when there is one; without waiting the call reports the
  timeout and changes nothing; otherwise the caller is suspended on the waiting list of the semaphore, in order
  of arrival or of priority, with its timer running if there is a timeout, and another thread runs.\<close>

lemma sem_take_spec:
  assumes ok: "sem_ok s k" and sem: "sems k s = Some sem"
  shows "(0 < sem_value sem \<longrightarrow> rt_sem_take k s timeout =
        Some (Done RT_EOK, k\<lparr>sems := (sems k)(s \<mapsto> sem\<lparr>sem_value := sem_value sem - 1\<rparr>)\<rparr>)) \<and>
    (sem_value sem = 0 \<longrightarrow> rt_sem_take k s 0 = Some (Done (- RT_ETIMEOUT), k)) \<and>
    (sem_value sem = 0 \<and> can_block k t th \<and> timeout \<noteq> 0 \<and> timeout < half \<longrightarrow>
      (\<exists>k' h u. rt_sem_take k s timeout = Some (Blocked, k') \<and> sem_ok s k' \<and>
        tlists k' (SemQ s) = wait_insert k (sem_flag sem) t (tlists k (SemQ s)) \<and>
        threads k' t = Some h \<and> stat h = RT_THREAD_SUSPEND \<and> error h = RT_EOK \<and> rt_thread_self k' = Some u \<and> u \<noteq> t \<and>
        (0 < timeout \<longrightarrow> (\<exists>tm. timers (ktimers k') (ThreadTimer t) = Some tm \<and> activated tm \<and>
          timeout_tick tm = u32 (tick (ktimers k) + timeout)))))"
proof (intro conjI impI)
  have v: "0 \<le> sem_value sem" "sem_value sem \<le> 65535" using ok sem by (auto simp: sem_ok_def)
  show "rt_sem_take k s timeout = Some (Done RT_EOK, k\<lparr>sems := (sems k)(s \<mapsto> sem\<lparr>sem_value := sem_value sem - 1\<rparr>)\<rparr>)"
    if "0 < sem_value sem" using that sem v by (simp add: rt_sem_take_def c_store)
  show "rt_sem_take k s 0 = Some (Done (- RT_ETIMEOUT), k)" if "sem_value sem = 0"
    using that sem by (simp add: rt_sem_take_def)
  assume a: "sem_value sem = 0 \<and> can_block k t th \<and> timeout \<noteq> 0 \<and> timeout < half"
  let ?k1 = "k\<lparr>threads := (threads k)(t \<mapsto> th\<lparr>error := RT_EOK\<rparr>)\<rparr>"
  obtain k' where k': "rt_sem_take k s timeout = Some (Blocked, k')" "sem_ok s k'"
      "blocked_on ?k1 t (th\<lparr>error := RT_EOK\<rparr>) (SemQ s) (sem_flag sem) timeout k'"
    using sem_wait_ok [OF ok sem, of t th timeout] a by auto
  obtain u uh h where b: "rt_thread_self k' = Some u" "u \<noteq> t" "threads k' t = Some h" "stat h = RT_THREAD_SUSPEND" "error h = RT_EOK"
      "tlists k' (SemQ s) = wait_insert ?k1 (sem_flag sem) t (tlists k (SemQ s))"
      "0 < timeout \<longrightarrow> (\<exists>tm. timers (ktimers k') (ThreadTimer t) = Some tm \<and> activated tm \<and> timeout_tick tm = u32 (tick (ktimers k) + timeout))"
    using k'(3) by (rule blocked_onE) simp
  have w: "wait_insert ?k1 (sem_flag sem) t q = wait_insert k (sem_flag sem) t q" for q
    using a by (intro wait_insert_upd [of k t th]) (auto simp: can_block_def)
  show "\<exists>k' h u. rt_sem_take k s timeout = Some (Blocked, k') \<and> sem_ok s k' \<and>
        tlists k' (SemQ s) = wait_insert k (sem_flag sem) t (tlists k (SemQ s)) \<and>
        threads k' t = Some h \<and> stat h = RT_THREAD_SUSPEND \<and> error h = RT_EOK \<and> rt_thread_self k' = Some u \<and> u \<noteq> t \<and>
        (0 < timeout \<longrightarrow> (\<exists>tm. timers (ktimers k') (ThreadTimer t) = Some tm \<and> activated tm \<and>
          timeout_tick tm = u32 (tick (ktimers k) + timeout)))"
    using k'(1,2) b(1-5) b(6) [unfolded w] b(7) by blast
qed

lemma sem_take_spec_example:
  "\<exists>k' h u. rt_sem_take ((ex_kernel 0)\<lparr>sems := [0 \<mapsto> ex_sem 0]\<rparr>) 0 50 = Some (Blocked, k') \<and> sem_ok 0 k' \<and>
    tlists k' (SemQ 0) = [1] \<and> threads k' 1 = Some h \<and> stat h = RT_THREAD_SUSPEND \<and> error h = RT_EOK \<and> rt_thread_self k' = Some u \<and> u \<noteq> 1 \<and>
    (\<exists>tm. timers (ktimers k') (ThreadTimer 1) = Some tm \<and> activated tm \<and> timeout_tick tm = 140)"
proof -
  let ?k = "(ex_kernel 0)\<lparr>sems := [0 \<mapsto> ex_sem 0]\<rparr>"
  have ok: "sem_ok 0 ?k" by (rule ex_sem_ok) simp_all
  have s: "sems ?k 0 = Some (ex_sem 0)" "sem_value (ex_sem 0) = 0" by (simp_all add: ex_sem_def)
  have b: "can_block ?k 1 (ex_thread RT_THREAD_RUNNING 10 2 0)"
    using ex_can_block by (simp add: can_block_def eligible_def rt_thread_self_def rt_cpu_self_def)
  have w: "wait_insert ?k (sem_flag (ex_sem 0)) 1 (tlists ?k (SemQ 0)) = [1]"
    by (simp add: wait_insert_def ex_sem_def ex_kernel_def ex_lists_def)
  have t: "u32 (tick (ktimers ?k) + 50) = 140" by (simp add: ex_kernel_def ex_ktimers_def c_store)
  have h: "(50 :: int) \<noteq> 0 \<and> (50 :: int) < half" by (simp add: half_def)
  show ?thesis using sem_take_spec [OF ok s(1), of 50 1 "ex_thread RT_THREAD_RUNNING 10 2 0"] s(2) b h unfolding w t by simp
qed

section \<open>Releasing\<close>

text \<open>Releasing a semaphore, on every branch: the token goes to the first waiting thread, which is made ready with no error
  so that its \<^verbatim>\<open>rt_sem_take\<close> returns success, and a most urgent thread runs afterwards; with nobody waiting the
  counter grows, and at its maximum 65535 the call is refused and nothing changes.\<close>

lemma sem_release_spec:
  assumes ok: "sem_ok s k" and sem: "sems k s = Some sem"
    and cur: "rt_thread_self k = Some c" "threads k c = Some ch" "stat ch = RT_THREAD_RUNNING"
  shows "case tlists k (SemQ s) of
      [] \<Rightarrow> (if sem_value sem < 65535
             then rt_sem_release k s = Some (RT_EOK, k\<lparr>sems := (sems k)(s \<mapsto> sem\<lparr>sem_value := sem_value sem + 1\<rparr>)\<rparr>)
             else rt_sem_release k s = Some (- RT_EFULL, k))
    | t # ts \<Rightarrow> (\<exists>k' h. rt_sem_release k s = Some (RT_EOK, k') \<and> sem_ok s k' \<and> sems k' s = Some sem \<and> tlists k' (SemQ s) = ts \<and>
        threads k' t = Some h \<and> (stat h = RT_THREAD_READY \<or> stat h = RT_THREAD_RUNNING) \<and> error h = RT_EOK \<and>
        (irq_nest (rt_cpu_self k) = 0 \<longrightarrow> (\<exists>n nth. rt_thread_self k' = Some n \<and> threads k' n = Some nth \<and> lowest_ready k' nth)) \<and>
        (\<forall>k2 h2. rt_thread_self k2 = Some t \<and> threads k2 t = Some h2 \<and> error h2 = error h \<longrightarrow> rt_sem_take_wake k2 = Some RT_EOK))"
proof (cases "tlists k (SemQ s)")
  case Nil
  have v: "0 \<le> sem_value sem" "sem_value sem \<le> 65535" using ok sem by (auto simp: sem_ok_def)
  show ?thesis using Nil sem v by (simp add: rt_sem_release_def RT_SEM_VALUE_MAX_def c_store)
next
  case (Cons t ts)
  have k: "kinv {} k" using ok by (simp add: sem_ok_def)
  obtain th where th: "threads k t = Some th"
    using waiting_thread [OF kinvD(1) [OF k] waitq_simps(1), of t s] Cons by auto
  have "rt_sem_take_wake k2 = Some RT_EOK" if "rt_thread_self k2 = Some t \<and> threads k2 t = Some h2 \<and> error h2 = RT_EOK" for k2 h2
    using that by (simp add: rt_sem_take_wake_def)
  then show ?thesis using sem_release_give [OF ok Cons th cur] sem Cons by fastforce
qed

lemma sem_release_spec_example:
  "\<exists>k' h. rt_sem_release ((ex_waiting 0 (SemQ 0))\<lparr>sems := [0 \<mapsto> ex_sem 0]\<rparr>) 0 = Some (RT_EOK, k') \<and> sem_ok 0 k' \<and>
    tlists k' (SemQ 0) = [] \<and> threads k' 4 = Some h \<and> (stat h = RT_THREAD_READY \<or> stat h = RT_THREAD_RUNNING) \<and> error h = RT_EOK"
proof -
  let ?k = "(ex_waiting 0 (SemQ 0))\<lparr>sems := [0 \<mapsto> ex_sem 0]\<rparr>"
  have c: "rt_thread_self ?k = Some 1" "threads ?k 1 = Some (ex_thread RT_THREAD_RUNNING 10 2 0)"
    "stat (ex_thread RT_THREAD_RUNNING 10 2 0) = RT_THREAD_RUNNING"
    using ex_waiting_self [of 0 "SemQ 0"] by (simp_all add: rt_thread_self_def rt_cpu_self_def ex_threads_def ex_thread_def)
  have q: "tlists ?k (SemQ 0) = [4]" by (simp add: ex_waiting_self)
  have s: "sems ?k 0 = Some (ex_sem 0)" by simp
  show ?thesis using sem_release_spec [OF ex_sem_waiting_ok s c] unfolding q by auto
qed

section \<open>Conservation of tokens\<close>

text \<open>
  A history of one semaphore under interleaving: the state, the threads whose \<^verbatim>\<open>rt_sem_take\<close> has blocked and not
  yet returned, the takes that have returned \<^verbatim>\<open>RT_EOK\<close>, and the releases that have. A blocked call returns when its thread runs
  again, with the result \<^verbatim>\<open>rt_sem_take_wake\<close> reads from the thread. Besides calls on the semaphore there is interference: whatever
  the other threads, processors and interrupts do, short of calling it, as long as it keeps
  the kernel invariant. It may take threads off the waiting list (timeouts), which then have an error, and leaves
  the error of every other thread in a call alone.
\<close>

type_synonym sem_hist = "kernel \<times> tid set \<times> int \<times> int"

inductive sem_step :: "nat \<Rightarrow> sem_hist \<Rightarrow> sem_hist \<Rightarrow> bool" for s where
  interference: "kinv {} k' \<Longrightarrow> sems k' s = sems k s \<Longrightarrow> set (tlists k' (SemQ s)) \<subseteq> set (tlists k (SemQ s)) \<Longrightarrow>
    (\<And>t. t \<in> w \<Longrightarrow> (t \<in> set (tlists k (SemQ s)) \<longleftrightarrow> t \<in> set (tlists k' (SemQ s))) \<Longrightarrow>
      map_option error (threads k' t) = map_option error (threads k t)) \<Longrightarrow>
    (\<And>t. t \<in> set (tlists k (SemQ s)) \<Longrightarrow> t \<notin> set (tlists k' (SemQ s)) \<Longrightarrow> map_option error (threads k' t) \<noteq> Some RT_EOK) \<Longrightarrow>
    sem_step s (k, w, g, r) (k', w, g, r)"
| take_done: "rt_sem_take k s timeout = Some (Done e, k') \<Longrightarrow>
    sem_step s (k, w, g, r) (k', w, if e = RT_EOK then g + 1 else g, r)"
| take_wait: "can_block k t th \<Longrightarrow> timeout < half \<Longrightarrow> t \<notin> w \<Longrightarrow> rt_sem_take k s timeout = Some (Blocked, k') \<Longrightarrow>
    sem_step s (k, w, g, r) (k', insert t w, g, r)"
| take_returns: "rt_thread_self k = Some t \<Longrightarrow> threads k t = Some th \<Longrightarrow> stat th = RT_THREAD_RUNNING \<Longrightarrow> t \<in> w \<Longrightarrow>
    rt_sem_take_wake k = Some e \<Longrightarrow> sem_step s (k, w, g, r) (k, w - {t}, if e = RT_EOK then g + 1 else g, r)"
| release: "rt_thread_self k = Some c \<Longrightarrow> threads k c = Some ch \<Longrightarrow> stat ch = RT_THREAD_RUNNING \<Longrightarrow>
    rt_sem_release k s = Some (e, k') \<Longrightarrow> sem_step s (k, w, g, r) (k', w, g, if e = RT_EOK then r + 1 else r)"

text \<open>The blocked calls that have a token but have not returned yet: off the waiting list, without an error.\<close>

definition granted :: "nat \<Rightarrow> kernel \<Rightarrow> tid set \<Rightarrow> tid set" where
  "granted s k w = {t \<in> w. t \<notin> set (tlists k (SemQ s)) \<and> map_option error (threads k t) = Some RT_EOK}"

definition sem_hist_ok :: "nat \<Rightarrow> int \<Rightarrow> sem_hist \<Rightarrow> bool" where
  "sem_hist_ok s v = (\<lambda>(k, w, g, r). sem_ok s k \<and> finite w \<and> set (tlists k (SemQ s)) \<subseteq> w \<and>
     (\<exists>sem. sems k s = Some sem \<and> sem_value sem + int (card (granted s k w)) + g = v + r))"

lemma granted_cong:
  assumes "\<And>t. t \<in> w \<Longrightarrow> t \<in> set (tlists k' (SemQ s)) \<longleftrightarrow> t \<in> set (tlists k (SemQ s))"
    "\<And>t. t \<in> w \<Longrightarrow> map_option error (threads k' t) = map_option error (threads k t)"
  shows "granted s k' w = granted s k w"
  unfolding granted_def by (rule Collect_cong) (metis assms)

lemma granted_finite [simp]: "finite w \<Longrightarrow> finite (granted s k w)"
  by (simp add: granted_def)

text \<open>The expiry of a waiting thread's timer is such an interference.\<close>

lemma timeout_interference:
  assumes ok: "sem_ok s k" and th: "threads k t = Some th" "stat th = RT_THREAD_SUSPEND"
    and tm: "timers (ktimers k) (ThreadTimer t) = Some tm" "\<not> activated tm" and tq: "t \<in> set (tlists k (SemQ s))"
    and cur: "rt_thread_self k = Some c" and irq: "irq_nest (rt_cpu_self k) \<noteq> 0"
  shows "\<exists>k'. thread_timeout k t = Some k' \<and> tlists k' (SemQ s) = remove1 t (tlists k (SemQ s)) \<and> sem_step s (k, w, g, r) (k', w, g, r)"
proof -
  have k: "kinv {} k" using ok by (simp add: sem_ok_def)
  obtain k' where k': "thread_timeout k t = Some k'" "kinv {} k'" "same_objs k k'"
      "threads k' = (threads k)(t \<mapsto> resumed (th\<lparr>error := - RT_ETIMEOUT\<rparr>))"
      "tlists k' = enqueue_ready (\<lambda>l. remove1 t (tlists k l)) t th"
    using thread_timeout_ok [OF k th tm cur irq] by blast
  have l: "tlists k' (SemQ s) = remove1 t (tlists k (SemQ s))" by (simp add: k'(5) enqueue_ready_other)
  have d: "distinct (tlists k (SemQ s))" by (rule sched_okD(4) [OF kinvD(1) [OF k]])
  have "sem_step s (k, w, g, r) (k', w, g, r)"
  proof (rule interference [OF k'(2)])
    show "sems k' s = sems k s" using k'(3) by (simp add: same_objs_def)
    show "set (tlists k' (SemQ s)) \<subseteq> set (tlists k (SemQ s))" using l set_remove1_subset by metis
    show "map_option error (threads k' u) = map_option error (threads k u)"
      if "u \<in> set (tlists k (SemQ s)) \<longleftrightarrow> u \<in> set (tlists k' (SemQ s))" for u
      using that tq d by (cases "u = t") (simp_all add: k'(4) l)
    show "map_option error (threads k' u) \<noteq> Some RT_EOK" if "u \<in> set (tlists k (SemQ s))" "u \<notin> set (tlists k' (SemQ s))" for u
      using that d by (cases "u = t") (simp_all add: k'(4) l resumed_def rt_errs)
  qed
  then show ?thesis using k'(1) l by blast
qed

text \<open>The steps one by one.\<close>

lemma sem_interference_hist:
  assumes ok: "sem_hist_ok s v (k, w, g, r)" and k': "kinv {} k'" "sems k' s = sems k s" "set (tlists k' (SemQ s)) \<subseteq> set (tlists k (SemQ s))"
    and e: "\<And>t. t \<in> w \<Longrightarrow> (t \<in> set (tlists k (SemQ s)) \<longleftrightarrow> t \<in> set (tlists k' (SemQ s))) \<Longrightarrow>
      map_option error (threads k' t) = map_option error (threads k t)"
      "\<And>t. t \<in> set (tlists k (SemQ s)) \<Longrightarrow> t \<notin> set (tlists k' (SemQ s)) \<Longrightarrow> map_option error (threads k' t) \<noteq> Some RT_EOK"
  shows "sem_hist_ok s v (k', w, g, r)"
proof -
  have w: "set (tlists k (SemQ s)) \<subseteq> w" and sk: "sem_ok s k" using ok by (simp_all add: sem_hist_ok_def)
  have "sem_ok s k'"
  proof (rule sem_ok_other [OF sk k'])
    fix t th assume t: "t \<in> set (tlists k' (SemQ s))" "threads k t = Some th"
    then have "map_option error (threads k' t) = map_option error (threads k t)" using e(1) [of t] w k'(3) by blast
    then show "\<exists>h. threads k' t = Some h \<and> error h = error th" using t(2) by auto
  qed
  moreover have "granted s k' w = granted s k w"
  proof -
    have "t \<in> granted s k' w \<longleftrightarrow> t \<in> granted s k w" if "t \<in> w" for t
      using e [of t] k'(3) that unfolding granted_def mem_Collect_eq by (metis subsetD)
    then show ?thesis unfolding granted_def by blast
  qed
  ultimately show ?thesis using ok k'(2,3) by (auto simp: sem_hist_ok_def)
qed

lemma sem_take_done_hist:
  assumes ok: "sem_hist_ok s v (k, w, g, r)" and run: "rt_sem_take k s timeout = Some (Done e, k')"
  shows "sem_hist_ok s v (k', w, if e = RT_EOK then g + 1 else g, r)"
proof -
  obtain sem where sem: "sem_ok s k" "sems k s = Some sem" using ok by (auto simp: sem_hist_ok_def)
  then have v: "0 \<le> sem_value sem" "sem_value sem \<le> 65535" by (auto simp: sem_ok_def)
  show ?thesis
  proof (cases "0 < sem_value sem")
    case True
    let ?k = "k\<lparr>sems := (sems k)(s \<mapsto> sem\<lparr>sem_value := sem_value sem - 1\<rparr>)\<rparr>"
    have r: "e = RT_EOK" "k' = ?k" using run True sem(2) v by (auto simp: rt_sem_take_def c_store)
    have "tlists k (SemQ s) = []" using sem True by (auto simp: sem_ok_def)
    then have "sem_ok s ?k" using sem_ok_count [OF sem] v True by simp
    moreover have "granted s ?k w = granted s k w" by (rule granted_cong) simp_all
    ultimately show ?thesis using ok sem(2) by (simp add: sem_hist_ok_def r)
  next
    case False
    then have "k' = k" "e = - RT_ETIMEOUT"
      using run sem(2) by (auto simp: rt_sem_take_def ipc_wait_def bind_eq_Some_conv split: if_splits)
    then show ?thesis using ok by (simp add: rt_errs)
  qed
qed

lemma sem_take_wait_hist:
  assumes ok: "sem_hist_ok s v (k, w, g, r)" and b: "can_block k t th" "timeout < half" "t \<notin> w"
    and run: "rt_sem_take k s timeout = Some (Blocked, k')"
  shows "sem_hist_ok s v (k', insert t w, g, r)"
proof -
  obtain sem where sem: "sem_ok s k" "sems k s = Some sem" using ok by (auto simp: sem_hist_ok_def)
  have z: "sem_value sem = 0" "timeout \<noteq> 0" using run sem by (auto simp: rt_sem_take_def sem_ok_def split: if_splits)
  let ?k1 = "k\<lparr>threads := (threads k)(t \<mapsto> th\<lparr>error := RT_EOK\<rparr>)\<rparr>"
  have k': "sem_ok s k'" "blocked_on ?k1 t (th\<lparr>error := RT_EOK\<rparr>) (SemQ s) (sem_flag sem) timeout k'"
    using sem_wait_ok [OF sem z(1) b(1) z(2) b(2)] run by auto
  obtain so: "same_objs ?k1 k'" and q: "tlists k' (SemQ s) = wait_insert ?k1 (sem_flag sem) t (tlists ?k1 (SemQ s))"
      and rel: "\<And>u. u \<noteq> t \<Longrightarrow> rel_option sched_eq (threads ?k1 u) (threads k' u)"
    using k'(2) by (rule blocked_onE) simp
  have "map_option error (threads k' u) = map_option error (threads k u)" if "u \<noteq> t" for u
    using rel [OF that] that by (auto simp: sched_eq_def elim!: option.rel_cases)
  then have "u \<in> granted s k' (insert t w) \<longleftrightarrow> u \<in> granted s k w" for u
    using b(3) q unfolding granted_def mem_Collect_eq by (cases "u = t") (simp_all del: map_option_eq_Some)
  then have "granted s k' (insert t w) = granted s k w" by blast
  then show ?thesis using ok k'(1) so q sem(2) by (auto simp: sem_hist_ok_def same_objs_def)
qed

lemma sem_take_returns_hist:
  assumes ok: "sem_hist_ok s v (k, w, g, r)" and t: "rt_thread_self k = Some t" "threads k t = Some th" "stat th = RT_THREAD_RUNNING" "t \<in> w"
    and run: "rt_sem_take_wake k = Some e"
  shows "sem_hist_ok s v (k, w - {t}, if e = RT_EOK then g + 1 else g, r)"
proof -
  have k: "sem_ok s k" "kinv {} k" using ok by (auto simp: sem_hist_ok_def sem_ok_def)
  have tq: "t \<notin> set (tlists k (SemQ s))" using running_unlisted [OF kinvD(1) [OF k(2)] t(2,3)] by blast
  have e: "e = error th" using run t(1,2) by (auto simp: rt_sem_take_wake_def)
  have f: "finite (granted s k w)" using ok by (simp add: sem_hist_ok_def)
  have m: "t \<in> granted s k w \<longleftrightarrow> e = RT_EOK" using t tq e by (simp add: granted_def)
  have d: "granted s k (w - {t}) = granted s k w - {t}" by (auto simp: granted_def)
  have c: "int (card (granted s k w)) = int (card (granted s k (w - {t}))) + (if e = RT_EOK then 1 else 0)"
    using m card.remove [OF f, of t] by (cases "e = RT_EOK") (simp_all add: d)
  have q: "set (tlists k (SemQ s)) \<subseteq> w - {t}" using ok tq by (auto simp: sem_hist_ok_def)
  show ?thesis using ok c q by (cases "e = RT_EOK") (auto simp: sem_hist_ok_def)
qed

lemma sem_release_hist:
  assumes ok: "sem_hist_ok s v (k, w, g, r)" and cur: "rt_thread_self k = Some c" "threads k c = Some ch" "stat ch = RT_THREAD_RUNNING"
    and run: "rt_sem_release k s = Some (e, k')"
  shows "sem_hist_ok s v (k', w, g, if e = RT_EOK then r + 1 else r)"
proof -
  obtain sem where sem: "sem_ok s k" "sems k s = Some sem" using ok by (auto simp: sem_hist_ok_def)
  then have v: "0 \<le> sem_value sem" "sem_value sem \<le> 65535" and k: "kinv {} k" by (auto simp: sem_ok_def)
  show ?thesis
  proof (cases "tlists k (SemQ s)")
    case Nil
    let ?k = "k\<lparr>sems := (sems k)(s \<mapsto> sem\<lparr>sem_value := sem_value sem + 1\<rparr>)\<rparr>"
    have "granted s ?k w = granted s k w" by (rule granted_cong) simp_all
    moreover have "sem_ok s ?k" if "sem_value sem < 65535" using sem_ok_count [OF sem] v Nil that by simp
    ultimately show ?thesis
      using run Nil ok sem v by (auto simp: rt_sem_release_def RT_SEM_VALUE_MAX_def c_store rt_errs sem_hist_ok_def split: if_splits)
  next
    case (Cons t ts)
    obtain th where th: "threads k t = Some th"
      using waiting_thread [OF kinvD(1) [OF k] waitq_simps(1), of t s] Cons by auto
    obtain h where r: "e = RT_EOK" "sem_ok s k'" "sems k' s = sems k s" "tlists k' (SemQ s) = ts" "threads k' t = Some h" "error h = RT_EOK"
      and rel: "\<And>u. u \<noteq> t \<Longrightarrow> rel_option sched_eq (threads k u) (threads k' u)"
      using sem_release_give [OF sem(1) Cons th cur] run by auto
    have ts: "t \<notin> set ts" using sched_okD(4) [OF kinvD(1) [OF k], of "SemQ s"] Cons by simp
    have "map_option error (threads k' u) = map_option error (threads k u)" if "u \<noteq> t" for u
      using rel [OF that] by (auto simp: sched_eq_def elim!: option.rel_cases)
    moreover have "t \<in> w" using ok Cons by (simp add: sem_hist_ok_def)
    ultimately have "u \<in> granted s k' w \<longleftrightarrow> u \<in> insert t (granted s k w)" for u
      using Cons r(4-6) ts unfolding granted_def mem_Collect_eq insert_iff
      by (cases "u = t") (simp_all del: map_option_eq_Some add: map_option_eq_Some [of error "Some h"])
    then have "granted s k' w = insert t (granted s k w)" by blast
    moreover have "t \<notin> granted s k w" "finite (granted s k w)" using Cons ok by (simp_all add: granted_def sem_hist_ok_def)
    ultimately show ?thesis using ok r Cons by (auto simp: sem_hist_ok_def)
  qed
qed

lemma sem_step_hist:
  assumes "sem_step s x y" "sem_hist_ok s v x"
  shows "sem_hist_ok s v y"
  using assms
proof (cases rule: sem_step.cases)
  case (interference k' k w g r)
  show ?thesis using sem_interference_hist [OF _ interference(3-5), of v w g r] interference(1,2,6,7) assms(2) by blast
next
  case take_done
  then show ?thesis using sem_take_done_hist assms(2) by blast
next
  case take_wait
  then show ?thesis using sem_take_wait_hist assms(2) by blast
next
  case take_returns
  then show ?thesis using sem_take_returns_hist assms(2) by blast
next
  case release
  then show ?thesis using sem_release_hist assms(2) by blast
qed

text \<open>C4: Tokens are neither lost nor made up. In every history of a semaphore, under any interleaving of takes, releases, timeouts
  and other activity (no reset of the semaphore, and no thread deleted between getting its token and returning), the counter, plus
  the waiting calls that have been given a token and are about to return, plus the takes that have returned success,
  equals the initial value plus the releases accepted; no thread
  waits while there is a token, and the kernel invariant holds throughout.\<close>

theorem sem_conservation:
  assumes steps: "(sem_step s)\<^sup>*\<^sup>* (k0, set (tlists k0 (SemQ s)), 0, 0) (k, w, g, r)" and k0: "sem_ok s k0" "sems k0 s = Some sem0"
  shows "sem_ok s k \<and> set (tlists k (SemQ s)) \<subseteq> w \<and> (\<exists>sem. sems k s = Some sem \<and>
    sem_value sem + int (card {t \<in> w. t \<notin> set (tlists k (SemQ s)) \<and> map_option error (threads k t) = Some RT_EOK}) + g = sem_value sem0 + r \<and>
    (0 < sem_value sem \<longrightarrow> tlists k (SemQ s) = []))"
proof -
  have "granted s k0 (set (tlists k0 (SemQ s))) = {}" by (simp add: granted_def)
  then have i: "sem_hist_ok s (sem_value sem0) (k0, set (tlists k0 (SemQ s)), 0, 0)" using k0 by (simp add: sem_hist_ok_def)
  have "sem_hist_ok s (sem_value sem0) (k, w, g, r)"
    using steps by (induction rule: rtranclp_induct) (use i sem_step_hist in blast)+
  then show ?thesis by (auto simp: sem_hist_ok_def granted_def sem_ok_def)
qed

text \<open>A thread waits, another one releases: its token is on the way.\<close>

theorem sem_conservation_witness:
  "\<exists>k. (sem_step 0)\<^sup>*\<^sup>* ((ex_waiting 0 (SemQ 0))\<lparr>sems := [0 \<mapsto> ex_sem 0]\<rparr>, {4}, 0, 0) (k, {4}, 0, 1) \<and> sem_ok 0 k \<and>
    (\<exists>sem. sems k 0 = Some sem \<and>
      sem_value sem + int (card {t \<in> {4}. t \<notin> set (tlists k (SemQ 0)) \<and> map_option error (threads k t) = Some RT_EOK}) = 1)"
proof -
  let ?k = "(ex_waiting 0 (SemQ 0))\<lparr>sems := [0 \<mapsto> ex_sem 0]\<rparr>"
  have c: "rt_thread_self ?k = Some 1" "threads ?k 1 = Some (ex_thread RT_THREAD_RUNNING 10 2 0)"
    "stat (ex_thread RT_THREAD_RUNNING 10 2 0) = RT_THREAD_RUNNING"
    using ex_waiting_self [of 0 "SemQ 0"] by (simp_all add: rt_thread_self_def rt_cpu_self_def ex_threads_def ex_thread_def)
  have q: "set (tlists ?k (SemQ 0)) = {4}" and s: "sems ?k 0 = Some (ex_sem 0)" by (simp_all add: ex_waiting_self)
  obtain k where k: "rt_sem_release ?k 0 = Some (RT_EOK, k)" using sem_release_spec_example by blast
  from release [OF c k, of "{4}" 0 0] have st: "(sem_step 0)\<^sup>*\<^sup>* (?k, set (tlists ?k (SemQ 0)), 0, 0) (k, {4}, 0, 1)"
    unfolding q by (simp add: r_into_rtranclp)
  show ?thesis using sem_conservation [OF st ex_sem_waiting_ok s] st unfolding q by (auto simp: ex_sem_def)
qed

end
