(* ===== verification/Channel.thy ===== *)
theory Channel
  imports Prelude
begin

text \<open>
  The contract of a bounded message channel with urgent messages, as mailboxes and message
  queues promise it: messages are delivered whole and in order of sending, an urgent message
  before all others, a full channel takes no message and an empty one gives none.
\<close>

datatype 'm chan_op = CSend 'm | CUrgent 'm | CRecv

text \<open>The next index of a circular array.\<close>

lemma mod_succ: "(x :: nat) < n \<Longrightarrow> (x + 1) mod n = (if x + 1 \<ge> n then 0 else x + 1)"
  by (cases "x + 1 = n") auto

text \<open>The channel as a list: what a sequence of operations delivers, and what is left.\<close>

fun chan_spec :: "nat \<Rightarrow> 'm chan_op list \<Rightarrow> 'm list \<Rightarrow> 'm list \<times> 'm list" where
  "chan_spec c [] q = ([], q)"
| "chan_spec c (CSend m # ops) q = chan_spec c ops (if length q < c then q @ [m] else q)"
| "chan_spec c (CUrgent m # ops) q = chan_spec c ops (if length q < c then m # q else q)"
| "chan_spec c (CRecv # ops) q =
     (case q of [] \<Rightarrow> chan_spec c ops []
      | m # ms \<Rightarrow> (case chan_spec c ops ms of (out, r) \<Rightarrow> (m # out, r)))"

text \<open>The same operations on an implementation, with the guards the code has.\<close>

fun chan_run :: "('q \<Rightarrow> bool) \<Rightarrow> ('q \<Rightarrow> bool) \<Rightarrow> ('q \<Rightarrow> 'm \<Rightarrow> 'q option) \<Rightarrow> ('q \<Rightarrow> 'm \<Rightarrow> 'q option) \<Rightarrow>
    ('q \<Rightarrow> ('m \<times> 'q) option) \<Rightarrow> 'm chan_op list \<Rightarrow> 'q \<Rightarrow> ('m list \<times> 'q) option" where
  "chan_run full isempty send urgent recv [] q = Some ([], q)"
| "chan_run full isempty send urgent recv (CSend m # ops) q =
     (if full q then chan_run full isempty send urgent recv ops q
      else Option.bind (send q m) (chan_run full isempty send urgent recv ops))"
| "chan_run full isempty send urgent recv (CUrgent m # ops) q =
     (if full q then chan_run full isempty send urgent recv ops q
      else Option.bind (urgent q m) (chan_run full isempty send urgent recv ops))"
| "chan_run full isempty send urgent recv (CRecv # ops) q =
     (if isempty q then chan_run full isempty send urgent recv ops q
      else Option.bind (recv q) (\<lambda>(m, q1). Option.bind (chan_run full isempty send urgent recv ops q1)
        (\<lambda>(out, q2). Some (m # out, q2))))"

fun op_msg :: "'m chan_op \<Rightarrow> 'm list" where
  "op_msg (CSend m) = [m]"
| "op_msg (CUrgent m) = [m]"
| "op_msg CRecv = []"

text \<open>Sending and receiving alone, and the same with urgent messages.\<close>

locale item_channel =
  fixes inv :: "'q \<Rightarrow> bool"
    and msgs :: "'q \<Rightarrow> 'm list"
    and cap :: "'q \<Rightarrow> nat"
    and valid :: "'q \<Rightarrow> 'm \<Rightarrow> bool"
    and full :: "'q \<Rightarrow> bool"
    and isempty :: "'q \<Rightarrow> bool"
    and send :: "'q \<Rightarrow> 'm \<Rightarrow> 'q option"
    and recv :: "'q \<Rightarrow> ('m \<times> 'q) option"
  assumes bounded: "inv q \<Longrightarrow> length (msgs q) \<le> cap q"
    and full_iff: "inv q \<Longrightarrow> full q \<longleftrightarrow> length (msgs q) = cap q"
    and empty_iff: "inv q \<Longrightarrow> isempty q \<longleftrightarrow> msgs q = []"
    and send_law: "inv q \<Longrightarrow> \<not> full q \<Longrightarrow> valid q m \<Longrightarrow>
      \<exists>q'. send q m = Some q' \<and> inv q' \<and> cap q' = cap q \<and> valid q' = valid q \<and> msgs q' = msgs q @ [m]"
    and recv_law: "inv q \<Longrightarrow> msgs q = m # ms \<Longrightarrow>
      \<exists>q'. recv q = Some (m, q') \<and> inv q' \<and> cap q' = cap q \<and> valid q' = valid q \<and> msgs q' = ms"
begin

lemma recv_nonempty:
  assumes "inv q" "\<not> isempty q"
  shows "\<exists>m q'. msgs q = m # msgs q' \<and> recv q = Some (m, q') \<and> inv q' \<and> cap q' = cap q \<and> valid q' = valid q"
proof -
  obtain m ms where "msgs q = m # ms" using assms empty_iff by (cases "msgs q") auto
  then show ?thesis using recv_law [OF assms(1)] by fastforce
qed

lemma full_not_empty: "inv q \<Longrightarrow> 0 < cap q \<Longrightarrow> full q \<Longrightarrow> \<not> isempty q"
  using full_iff empty_iff by fastforce

end

locale message_channel = item_channel inv msgs cap valid full isempty send recv
  for inv :: "'q \<Rightarrow> bool" and msgs :: "'q \<Rightarrow> 'm list" and cap and valid and full and isempty and send and recv +
  fixes urgent :: "'q \<Rightarrow> 'm \<Rightarrow> 'q option"
  assumes urgent_law: "inv q \<Longrightarrow> \<not> full q \<Longrightarrow> valid q m \<Longrightarrow>
      \<exists>q'. urgent q m = Some q' \<and> inv q' \<and> cap q' = cap q \<and> valid q' = valid q \<and> msgs q' = m # msgs q"
begin

theorem run_refines:
  assumes "inv q" "\<forall>m \<in> set (concat (map op_msg ops)). valid q m"
  shows "\<exists>q'. chan_run full isempty send urgent recv ops q = Some (fst (chan_spec (cap q) ops (msgs q)), q') \<and>
    inv q' \<and> cap q' = cap q \<and> msgs q' = snd (chan_spec (cap q) ops (msgs q))"
  using assms
proof (induction ops arbitrary: q)
  case Nil
  then show ?case by simp
next
  case (Cons x ops)
  have f: "full q \<longleftrightarrow> \<not> length (msgs q) < cap q" using full_iff bounded Cons.prems(1) by fastforce
  show ?case
  proof (cases x)
    case (CSend m)
    show ?thesis
    proof (cases "full q")
      case True
      then show ?thesis using Cons.IH [OF Cons.prems(1)] Cons.prems(2) f CSend by simp
    next
      case False
      obtain q1 where "send q m = Some q1" "inv q1" "cap q1 = cap q" "valid q1 = valid q" "msgs q1 = msgs q @ [m]"
        using send_law [OF Cons.prems(1) False, of m] Cons.prems(2) CSend by auto
      then show ?thesis using Cons.IH [of q1] Cons.prems(2) f False CSend by auto
    qed
  next
    case (CUrgent m)
    show ?thesis
    proof (cases "full q")
      case True
      then show ?thesis using Cons.IH [OF Cons.prems(1)] Cons.prems(2) f CUrgent by simp
    next
      case False
      obtain q1 where "urgent q m = Some q1" "inv q1" "cap q1 = cap q" "valid q1 = valid q" "msgs q1 = m # msgs q"
        using urgent_law [OF Cons.prems(1) False, of m] Cons.prems(2) CUrgent by auto
      then show ?thesis using Cons.IH [of q1] Cons.prems(2) f False CUrgent by auto
    qed
  next
    case CRecv
    show ?thesis
    proof (cases "msgs q = []")
      case True
      then show ?thesis using Cons.IH [OF Cons.prems(1)] Cons.prems empty_iff CRecv by simp
    next
      case False
      then obtain m ms where q: "msgs q = m # ms" by (cases "msgs q") auto
      obtain q1 where "recv q = Some (m, q1)" "inv q1" "cap q1 = cap q" "valid q1 = valid q" "msgs q1 = ms"
        using recv_law [OF Cons.prems(1) q] by blast
      then show ?thesis using Cons.IH [of q1] Cons.prems empty_iff CRecv q by (auto split: prod.split)
    qed
  qed
qed

end

end
