(* ===== verification/Mailbox.thy ===== *)
theory Mailbox
  imports Semaphore Channel Ringbuffer
begin

text \<open>
  Mailboxes, after \<^verbatim>\<open>rt-thread/src/ipc.c\<close>: a circular array of words with threads waiting to receive
  and threads waiting to send. A sender or receiver that has waited tries again when it is
  resumed, with what is left of its timeout.
\<close>

section \<open>The array\<close>

definition mb_full :: "rt_mailbox \<Rightarrow> bool" where "mb_full mb \<longleftrightarrow> mb_entry mb = mb_size mb"
definition mb_empty :: "rt_mailbox \<Rightarrow> bool" where "mb_empty mb \<longleftrightarrow> mb_entry mb = 0"

text \<open>The value is stored before the counter is checked; the result tells whether it counts.\<close>

definition mb_put :: "rt_mailbox \<Rightarrow> int \<Rightarrow> (bool \<times> rt_mailbox) option" where
  "mb_put mb v = do {
     pool \<leftarrow> store_at (mb_msg_pool mb) (in_offset mb) v;
     let off = u16 (in_offset mb + 1);
     let mb1 = mb\<lparr>mb_msg_pool := pool, in_offset := (if off \<ge> mb_size mb then 0 else off)\<rparr>;
     Some (if mb_entry mb1 < RT_MB_ENTRY_MAX then (True, mb1\<lparr>mb_entry := u16 (mb_entry mb1 + 1)\<rparr>) else (False, mb1))
   }"

definition mb_push :: "rt_mailbox \<Rightarrow> int \<Rightarrow> rt_mailbox option" where
  "mb_push mb v = do {
     let off = (if out_offset mb > 0 then u16 (out_offset mb - 1) else u16 (mb_size mb - 1));
     pool \<leftarrow> store_at (mb_msg_pool mb) off v;
     Some (mb\<lparr>mb_msg_pool := pool, out_offset := off, mb_entry := u16 (mb_entry mb + 1)\<rparr>)
   }"

definition mb_pop :: "rt_mailbox \<Rightarrow> (int \<times> rt_mailbox) option" where
  "mb_pop mb = do {
     v \<leftarrow> load_at (mb_msg_pool mb) (out_offset mb);
     let off = u16 (out_offset mb + 1);
     let mb1 = mb\<lparr>out_offset := (if off \<ge> mb_size mb then 0 else off)\<rparr>;
     Some (v, if mb_entry mb1 > 0 then mb1\<lparr>mb_entry := u16 (mb_entry mb1 - 1)\<rparr> else mb1)
   }"

section \<open>Operations\<close>

definition new_mailbox :: "bool \<Rightarrow> int list \<Rightarrow> int \<Rightarrow> ipc_flag \<Rightarrow> rt_mailbox" where
  "new_mailbox static pool sz flag = \<lparr>mb_msg_pool = pool, mb_size = u16 sz, mb_entry = 0, in_offset = 0, out_offset = 0,
     mb_flag = flag, mb_static = static\<rparr>"

definition rt_mb_init :: "kernel \<Rightarrow> nat \<Rightarrow> int list \<Rightarrow> int \<Rightarrow> ipc_flag \<Rightarrow> kernel" where
  "rt_mb_init k m msgpool sz flag = k\<lparr>mailboxes := (mailboxes k)(m \<mapsto> new_mailbox True msgpool sz flag),
     tlists := (tlists k)(MbRecvQ m := [], MbSendQ m := [])\<rparr>"

definition rt_mb_detach :: "kernel \<Rightarrow> nat \<Rightarrow> kernel option" where
  "rt_mb_detach k m = do {
     mb \<leftarrow> mailboxes k m;
     RT_ASSERT (mb_static mb);
     k1 \<leftarrow> ipc_list_resume_all (MbRecvQ m) k;
     k2 \<leftarrow> ipc_list_resume_all (MbSendQ m) k1;
     Some (k2\<lparr>mailboxes := (mailboxes k2)(m := None)\<rparr>)
   }"

text \<open>\<open>object_ok\<close>: the object could be allocated; \<open>pool\<close>: the words of the array, if it could be.\<close>

definition rt_mb_create :: "bool \<Rightarrow> int list option \<Rightarrow> kernel \<Rightarrow> nat \<Rightarrow> int \<Rightarrow> ipc_flag \<Rightarrow> (nat option \<times> kernel) option" where
  "rt_mb_create object_ok pool k m sz flag = do {
     RT_DEBUG_NOT_IN_INTERRUPT k;
     Some (if \<not> object_ok then (None, k)
       else case pool of None \<Rightarrow> (None, k)
       | Some msgpool \<Rightarrow> (Some m, k\<lparr>mailboxes := (mailboxes k)(m \<mapsto> new_mailbox False msgpool sz flag),
           tlists := (tlists k)(MbRecvQ m := [], MbSendQ m := [])\<rparr>))
   }"

definition rt_mb_delete :: "kernel \<Rightarrow> nat \<Rightarrow> kernel option" where
  "rt_mb_delete k m = do {
     mb \<leftarrow> mailboxes k m;
     RT_ASSERT (\<not> mb_static mb);
     RT_DEBUG_NOT_IN_INTERRUPT k;
     k1 \<leftarrow> ipc_list_resume_all (MbRecvQ m) k;
     k2 \<leftarrow> ipc_list_resume_all (MbSendQ m) k1;
     Some (k2\<lparr>mailboxes := (mailboxes k2)(m := None)\<rparr>)
   }"

text \<open>One round of the loop of \<^verbatim>\<open>rt_mb_send_wait\<close>, with what follows it.\<close>

definition mb_send_try :: "kernel \<Rightarrow> nat \<Rightarrow> int \<Rightarrow> int \<Rightarrow> (int call \<times> kernel) option" where
  "mb_send_try k m v timeout = do {
     mb \<leftarrow> mailboxes k m;
     (if mb_full mb then do {
        t \<leftarrow> rt_thread_self k;
        k1 \<leftarrow> upd_thread k t (error_update (\<lambda>_. RT_EOK));
        (if timeout = 0 then Some (Done (- RT_EFULL), k1)
         else ipc_wait k1 t (MbSendQ m) (mb_flag mb) timeout)
      }
      else do {
        (ok, mb1) \<leftarrow> mb_put mb v;
        let k1 = k\<lparr>mailboxes := (mailboxes k)(m \<mapsto> mb1)\<rparr>;
        (if \<not> ok then Some (Done (- RT_EFULL), k1)
         else do { k2 \<leftarrow> ipc_notify k1 (MbRecvQ m); Some (Done RT_EOK, k2) })
      })
   }"

definition rt_mb_send_wait :: "kernel \<Rightarrow> nat \<Rightarrow> int \<Rightarrow> int \<Rightarrow> (int call \<times> kernel) option" where
  "rt_mb_send_wait k m v timeout = do {
     mb \<leftarrow> mailboxes k m;
     RT_DEBUG_SCHEDULER_AVAILABLE k (timeout \<noteq> 0);
     (if mb_full mb \<and> timeout = 0 then Some (Done (- RT_EFULL), k) else mb_send_try k m v timeout)
   }"

text \<open>When the sender goes on after having waited since tick \<open>start\<close>.\<close>

definition mb_send_wake :: "kernel \<Rightarrow> nat \<Rightarrow> int \<Rightarrow> int \<Rightarrow> int \<Rightarrow> (int call \<times> kernel) option" where
  "mb_send_wake k m v timeout start = do {
     t \<leftarrow> rt_thread_self k;
     th \<leftarrow> threads k t;
     (if error th \<noteq> RT_EOK then Some (Done (error th), k)
      else mb_send_try k m v (wait_left k timeout start))
   }"

definition rt_mb_send :: "kernel \<Rightarrow> nat \<Rightarrow> int \<Rightarrow> (int call \<times> kernel) option" where
  "rt_mb_send k m v = rt_mb_send_wait k m v 0"

definition rt_mb_urgent :: "kernel \<Rightarrow> nat \<Rightarrow> int \<Rightarrow> (int \<times> kernel) option" where
  "rt_mb_urgent k m v = do {
     mb \<leftarrow> mailboxes k m;
     (if mb_full mb then Some (- RT_EFULL, k)
      else do {
        mb1 \<leftarrow> mb_push mb v;
        k1 \<leftarrow> ipc_notify (k\<lparr>mailboxes := (mailboxes k)(m \<mapsto> mb1)\<rparr>) (MbRecvQ m);
        Some (RT_EOK, k1)
      })
   }"

text \<open>A receiver gets the error code and, with \<^verbatim>\<open>RT_EOK\<close>, the value stored through its pointer.\<close>

definition mb_recv_try :: "kernel \<Rightarrow> nat \<Rightarrow> int \<Rightarrow> ((int \<times> int option) call \<times> kernel) option" where
  "mb_recv_try k m timeout = do {
     mb \<leftarrow> mailboxes k m;
     (if mb_empty mb then do {
        t \<leftarrow> rt_thread_self k;
        k1 \<leftarrow> upd_thread k t (error_update (\<lambda>_. RT_EOK));
        (if timeout = 0 then do {
           k2 \<leftarrow> upd_thread k1 t (error_update (\<lambda>_. - RT_ETIMEOUT));
           Some (Done (- RT_ETIMEOUT, None), k2)
         }
         else ipc_wait k1 t (MbRecvQ m) (mb_flag mb) timeout)
      }
      else do {
        (v, mb1) \<leftarrow> mb_pop mb;
        k1 \<leftarrow> ipc_notify (k\<lparr>mailboxes := (mailboxes k)(m \<mapsto> mb1)\<rparr>) (MbSendQ m);
        Some (Done (RT_EOK, Some v), k1)
      })
   }"

definition rt_mb_recv :: "kernel \<Rightarrow> nat \<Rightarrow> int \<Rightarrow> ((int \<times> int option) call \<times> kernel) option" where
  "rt_mb_recv k m timeout = do {
     mb \<leftarrow> mailboxes k m;
     RT_DEBUG_SCHEDULER_AVAILABLE k (timeout \<noteq> 0);
     (if mb_empty mb \<and> timeout = 0 then Some (Done (- RT_ETIMEOUT, None), k) else mb_recv_try k m timeout)
   }"

definition mb_recv_wake :: "kernel \<Rightarrow> nat \<Rightarrow> int \<Rightarrow> int \<Rightarrow> ((int \<times> int option) call \<times> kernel) option" where
  "mb_recv_wake k m timeout start = do {
     t \<leftarrow> rt_thread_self k;
     th \<leftarrow> threads k t;
     (if error th \<noteq> RT_EOK then Some (Done (error th, None), k)
      else mb_recv_try k m (wait_left k timeout start))
   }"

definition rt_mb_control :: "kernel \<Rightarrow> nat \<Rightarrow> bool \<Rightarrow> (int \<times> kernel) option" where
  "rt_mb_control k m reset = do {
     mb \<leftarrow> mailboxes k m;
     (if reset then do {
        k1 \<leftarrow> ipc_list_resume_all (MbRecvQ m) k;
        k2 \<leftarrow> ipc_list_resume_all (MbSendQ m) k1;
        let k3 = k2\<lparr>mailboxes := (mailboxes k2)(m \<mapsto> mb\<lparr>mb_entry := 0, in_offset := 0, out_offset := 0\<rparr>)\<rparr>;
        k4 \<leftarrow> rt_schedule k3;
        Some (RT_EOK, k4)
      }
      else Some (- RT_ERROR, k))
   }"

section \<open>The array as a channel\<close>

definition mb_at :: "rt_mailbox \<Rightarrow> nat \<Rightarrow> nat \<Rightarrow> bool" where
  "mb_at mb a e \<longleftrightarrow> (let n = length (mb_msg_pool mb) in n \<le> 65535 \<and> mb_size mb = int n \<and> a < n \<and> e \<le> n \<and>
     out_offset mb = int a \<and> mb_entry mb = int e \<and> in_offset mb = int ((a + e) mod n))"

definition mb_inv :: "rt_mailbox \<Rightarrow> bool" where
  "mb_inv mb \<longleftrightarrow> (\<exists>a e. mb_at mb a e)"

definition mb_msgs :: "rt_mailbox \<Rightarrow> int list" where
  "mb_msgs mb = ring_seg (mb_msg_pool mb) (nat (out_offset mb)) (nat (mb_entry mb))"

definition mb_cap :: "rt_mailbox \<Rightarrow> nat" where
  "mb_cap mb = length (mb_msg_pool mb)"

lemma mb_at_inv: "mb_at mb a e \<Longrightarrow> mb_inv mb"
  by (auto simp: mb_inv_def)

lemma mb_at_msgs: "mb_at mb a e \<Longrightarrow> mb_msgs mb = ring_seg (mb_msg_pool mb) a e \<and> length (mb_msgs mb) = e"
  by (simp add: mb_at_def mb_msgs_def Let_def)

lemma new_mailbox_inv:
  assumes "pool \<noteq> []" "length pool \<le> 65535" "sz = int (length pool)"
  shows "mb_inv (new_mailbox static pool sz flag) \<and> mb_msgs (new_mailbox static pool sz flag) = []"
proof -
  have "mb_at (new_mailbox static pool sz flag) 0 0" using assms by (simp add: mb_at_def new_mailbox_def c_store)
  then show ?thesis using mb_at_msgs [of "new_mailbox static pool sz flag" 0 0] by (auto simp: mb_inv_def)
qed

lemma mb_at_put:
  assumes at: "mb_at mb a e" and e: "e < length (mb_msg_pool mb)"
  shows "\<exists>mb'. mb_put mb v = Some (True, mb') \<and> mb_at mb' a (e + 1) \<and> mb_cap mb' = mb_cap mb \<and> mb_msgs mb' = mb_msgs mb @ [v] \<and>
    mb_flag mb' = mb_flag mb"
proof -
  let ?b = "mb_msg_pool mb" let ?n = "length ?b" let ?w = "(a + e) mod ?n"
  have A: "?n \<le> 65535" "mb_size mb = int ?n" "a < ?n" "out_offset mb = int a" "mb_entry mb = int e" "in_offset mb = int ?w"
    using at by (simp_all add: mb_at_def Let_def)
  have w: "?w < ?n" using A(3) by (cases ?n) auto
  let ?b' = "?b[?w := v]"
  have st: "store_at ?b (in_offset mb) v = Some ?b'" using w by (simp add: A(6) store_at_def)
  have u: "u16 (int ?w + 1) = int (?w + 1)" using w A(1) by (simp add: c_store)
  have "(a + (e + 1)) mod ?n = (?w + 1) mod ?n" by (simp add: mod_Suc_eq)
  then have i: "(if u16 (int ?w + 1) \<ge> int ?n then 0 else u16 (int ?w + 1)) = int ((a + (e + 1)) mod ?n)"
    using mod_succ [OF w] unfolding u by simp
  let ?mb = "mb\<lparr>mb_msg_pool := ?b', in_offset := int ((a + (e + 1)) mod ?n), mb_entry := int (e + 1)\<rparr>"
  have run: "mb_put mb v = Some (True, ?mb)"
    using st i A e by (simp add: mb_put_def RT_MB_ENTRY_MAX_def c_store)
  have at': "mb_at ?mb a (e + 1)" using A e by (simp add: mb_at_def)
  have "ring_seg ?b' a (e + 1) = ring_seg ?b a e @ [v]"
    using ring_write_append [of a ?b e "[v]" ?w] ring_write_single [OF w] A(3) e by simp
  then show ?thesis using run at' mb_at_msgs [OF at] mb_at_msgs [OF at'] by (auto simp: mb_cap_def)
qed

lemma mb_at_push:
  assumes at: "mb_at mb a e" and e: "e < length (mb_msg_pool mb)"
  shows "\<exists>mb' a'. mb_push mb v = Some mb' \<and> mb_at mb' a' (e + 1) \<and> mb_cap mb' = mb_cap mb \<and> mb_msgs mb' = v # mb_msgs mb \<and>
    mb_flag mb' = mb_flag mb"
proof -
  let ?b = "mb_msg_pool mb" let ?n = "length ?b"
  have A: "?n \<le> 65535" "mb_size mb = int ?n" "a < ?n" "out_offset mb = int a" "mb_entry mb = int e" "in_offset mb = int ((a + e) mod ?n)"
    using at by (simp_all add: mb_at_def Let_def)
  define w where "w = (if a > 0 then a - 1 else ?n - 1)"
  have w: "w < ?n" "w = (a + (?n - 1)) mod ?n" "(w + 1) mod ?n = a"
    using A(3) by (auto simp: w_def le_mod_geq)
  have off: "(if out_offset mb > 0 then u16 (out_offset mb - 1) else u16 (mb_size mb - 1)) = int w"
    using A by (auto simp: w_def c_store of_nat_diff)
  let ?b' = "?b[w := v]"
  let ?mb = "mb\<lparr>mb_msg_pool := ?b', out_offset := int w, mb_entry := int (e + 1)\<rparr>"
  have run: "mb_push mb v = Some ?mb"
    using off w(1) A e by (simp add: mb_push_def store_at_def c_store)
  have m: "(w + (e + 1)) mod ?n = (a + e) mod ?n"
    using w(3) by (metis add.assoc add.commute mod_add_left_eq)
  have at': "mb_at ?mb w (e + 1)" using A e w(1) m by (simp add: mb_at_def)
  have "ring_seg ?b' a (?n - 1) = ring_seg ?b a (?n - 1)"
    using ring_write_other [of a ?b "?n - 1" "[v]" w] ring_write_single [OF w(1)] w(2) A(3) by simp
  then have old: "ring_seg ?b' a e = ring_seg ?b a e"
    using take_ring_seg [of e "?n - 1" ?b' a] take_ring_seg [of e "?n - 1" ?b a] e by simp
  have "ring_seg ?b' w (1 + e) = ring_seg ?b' w 1 @ ring_seg ?b' (w + 1) e" by (rule ring_seg_add)
  also have "ring_seg ?b' (w + 1) e = ring_seg ?b' a e" using ring_seg_mod [of ?b' "w + 1" e] w(3) by simp
  also have "ring_seg ?b' w 1 = [v]" using w(1) by (simp add: ring_seg_def)
  finally have "ring_seg ?b' w (e + 1) = v # ring_seg ?b a e" using old by simp
  then show ?thesis using run at' mb_at_msgs [OF at] mb_at_msgs [OF at'] by (auto simp: mb_cap_def)
qed

lemma mb_at_pop:
  assumes at: "mb_at mb a e" and e: "0 < e"
  shows "\<exists>mb' a'. mb_pop mb = Some (hd (mb_msgs mb), mb') \<and> mb_at mb' a' (e - 1) \<and> mb_cap mb' = mb_cap mb \<and>
    mb_msgs mb' = tl (mb_msgs mb) \<and> mb_flag mb' = mb_flag mb"
proof -
  let ?b = "mb_msg_pool mb" let ?n = "length ?b" let ?a = "(a + 1) mod ?n"
  have A: "?n \<le> 65535" "mb_size mb = int ?n" "a < ?n" "e \<le> ?n" "out_offset mb = int a" "mb_entry mb = int e" "in_offset mb = int ((a + e) mod ?n)"
    using at by (simp_all add: mb_at_def Let_def)
  have u: "u16 (int a + 1) = int (a + 1)" using A by (simp add: c_store)
  have off: "(if int ?n \<le> int a + 1 then 0 else int a + 1) = int ?a" using mod_succ [OF A(3)] by auto
  let ?mb = "mb\<lparr>out_offset := int ?a, mb_entry := int (e - 1)\<rparr>"
  have run: "mb_pop mb = Some (?b ! a, ?mb)"
    using off A e u by (simp add: mb_pop_def load_at_def c_store of_nat_diff Let_def)
  have m: "(?a + (e - 1)) mod ?n = (a + e) mod ?n"
  proof -
    have "(?a + (e - 1)) mod ?n = (a + 1 + (e - 1)) mod ?n" by (rule mod_add_left_eq)
    then show ?thesis using e by simp
  qed
  have "?a < ?n" using A(3) by (cases ?n) auto
  then have at': "mb_at ?mb ?a (e - 1)" using A e m by (simp add: mb_at_def Let_def)
  have "ring_seg ?b a (1 + (e - 1)) = ring_seg ?b a 1 @ ring_seg ?b (a + 1) (e - 1)" by (rule ring_seg_add)
  moreover have "ring_seg ?b a 1 = [?b ! a]" using A(3) by (simp add: ring_seg_def)
  moreover have "ring_seg ?b (a + 1) (e - 1) = ring_seg ?b ?a (e - 1)" by (simp add: ring_seg_mod)
  ultimately have "ring_seg ?b a e = ?b ! a # ring_seg ?b ?a (e - 1)" using e by simp
  then have "mb_msgs mb = ?b ! a # ring_seg ?b ?a (e - 1)" "mb_msgs ?mb = ring_seg ?b ?a (e - 1)"
    using mb_at_msgs [OF at] mb_at_msgs [OF at'] by simp_all
  then show ?thesis using run at' by (auto simp: mb_cap_def)
qed

text \<open>The operations of the channel contract on the array alone.\<close>

definition mb_send_data :: "rt_mailbox \<Rightarrow> int \<Rightarrow> rt_mailbox option" where
  "mb_send_data mb v = do { (ok, mb1) \<leftarrow> mb_put mb v; RT_ASSERT ok; Some mb1 }"

interpretation mbc: message_channel mb_inv mb_msgs mb_cap "\<lambda>_ _. True" mb_full mb_empty mb_send_data mb_pop mb_push
proof
  fix q assume "mb_inv q"
  then obtain a e where at: "mb_at q a e" by (auto simp: mb_inv_def)
  note len = mb_at_msgs [OF at]
  show "length (mb_msgs q) \<le> mb_cap q" using at len by (simp add: mb_at_def mb_cap_def Let_def)
  show full: "mb_full q \<longleftrightarrow> length (mb_msgs q) = mb_cap q" using at len by (simp add: mb_at_def mb_cap_def mb_full_def Let_def)
  show "mb_empty q \<longleftrightarrow> mb_msgs q = []" using at len by (auto simp: mb_at_def mb_empty_def Let_def)
  show "\<exists>q'. mb_send_data q m = Some q' \<and> mb_inv q' \<and> mb_cap q' = mb_cap q \<and> (\<lambda>_. True) = (\<lambda>_ :: int. True) \<and> mb_msgs q' = mb_msgs q @ [m]"
    if "\<not> mb_full q" for m
  proof -
    have "e < length (mb_msg_pool q)" using that at by (auto simp: mb_at_def mb_full_def Let_def)
    from mb_at_put [OF at this, of m] show ?thesis by (auto simp: mb_send_data_def intro: mb_at_inv)
  qed
  show "\<exists>q'. mb_push q m = Some q' \<and> mb_inv q' \<and> mb_cap q' = mb_cap q \<and> (\<lambda>_. True) = (\<lambda>_ :: int. True) \<and> mb_msgs q' = m # mb_msgs q"
    if "\<not> mb_full q" for m
  proof -
    have "e < length (mb_msg_pool q)" using that at by (auto simp: mb_at_def mb_full_def Let_def)
    from mb_at_push [OF at this, of m] show ?thesis by (auto intro: mb_at_inv)
  qed
  show "\<exists>q'. mb_pop q = Some (m, q') \<and> mb_inv q' \<and> mb_cap q' = mb_cap q \<and> (\<lambda>_. True) = (\<lambda>_ :: int. True) \<and> mb_msgs q' = ms"
    if "mb_msgs q = m # ms" for m ms
  proof -
    have "0 < e" using that len by auto
    from mb_at_pop [OF at this] that show ?thesis by (auto intro: mb_at_inv)
  qed
qed

section \<open>Mailboxes in the kernel\<close>

definition mb_ok :: "nat \<Rightarrow> kernel \<Rightarrow> bool" where
  "mb_ok m k \<longleftrightarrow> kinv {} k \<and> (\<exists>mb. mailboxes k m = Some mb \<and> mb_inv mb)"

lemma mb_ok_upd:
  assumes "kinv {} k" "mb_inv mb"
  shows "mb_ok m (k\<lparr>mailboxes := (mailboxes k)(m \<mapsto> mb)\<rparr>)"
  using assms by (simp add: mb_ok_def)

lemma mb_notify:
  assumes k: "kinv {} k" and cur: "rt_thread_self k = Some c" "threads k c = Some ch" "stat ch = RT_THREAD_RUNNING"
    and inv: "mb_inv mb" and l: "waitq l"
  shows "\<exists>k'. ipc_notify (k\<lparr>mailboxes := (mailboxes k)(m \<mapsto> mb)\<rparr>) l = Some k' \<and> mb_ok m k' \<and> mailboxes k' m = Some mb \<and>
    woken (k\<lparr>mailboxes := (mailboxes k)(m \<mapsto> mb)\<rparr>) l k'"
proof -
  let ?k = "k\<lparr>mailboxes := (mailboxes k)(m \<mapsto> mb)\<rparr>"
  have c: "rt_thread_self ?k = Some c" "threads ?k c = Some ch" using cur by (simp_all add: rt_thread_self_def rt_cpu_self_def)
  obtain k' where k': "ipc_notify ?k l = Some k'" "woken ?k l k'"
    using ipc_notify_ok [of ?k, OF _ l c cur(3)] k by auto
  then have "kinv {} k'" "mailboxes k' m = Some mb" by (simp_all add: woken_def same_objs_def)
  then show ?thesis using k' inv by (auto simp: mb_ok_def)
qed

text \<open>Sending to a mailbox. With room the value is appended behind those waiting to be read and the first waiting receiver, if
  any, is made ready; a full mailbox refuses at once when the caller does not wait, and suspends it on the list of senders
  otherwise. No access is outside the array and the kernel invariant holds on every branch.\<close>

lemma mb_send_spec:
  assumes ok: "mb_ok m k" and mb: "mailboxes k m = Some mb"
    and cur: "can_block k c ch" and n: "timeout < half"
  shows "if length (mb_msgs mb) < mb_cap mb then
      (\<exists>k' mb'. rt_mb_send_wait k m v timeout = Some (Done RT_EOK, k') \<and> mb_ok m k' \<and> mailboxes k' m = Some mb' \<and>
         mb_msgs mb' = mb_msgs mb @ [v] \<and> tlists k' (MbRecvQ m) = tl (tlists k (MbRecvQ m)) \<and>
         (\<forall>t ts. tlists k (MbRecvQ m) = t # ts \<longrightarrow>
            (\<exists>h. threads k' t = Some h \<and> (stat h = RT_THREAD_READY \<or> stat h = RT_THREAD_RUNNING))))
    else if timeout = 0 then rt_mb_send_wait k m v timeout = Some (Done (- RT_EFULL), k)
    else (\<exists>k' h. rt_mb_send_wait k m v timeout = Some (Blocked, k') \<and> mb_ok m k' \<and> mailboxes k' m = Some mb \<and>
      tlists k' (MbSendQ m) = wait_insert k (mb_flag mb) c (tlists k (MbSendQ m)) \<and>
      threads k' c = Some h \<and> stat h = RT_THREAD_SUSPEND)"
proof -
  note B = cur [unfolded can_block_def]
  have k: "kinv {} k" "mb_inv mb" using ok mb by (auto simp: mb_ok_def)
  note av = can_block_available [OF cur, of "timeout \<noteq> 0"]
  have full: "mb_full mb \<longleftrightarrow> \<not> length (mb_msgs mb) < mb_cap mb"
    using mbc.full_iff [OF k(2)] mbc.bounded [OF k(2)] by auto
  show ?thesis
  proof (cases "mb_full mb")
    case False
    obtain mb' where mb': "mb_send_data mb v = Some mb'" "mb_inv mb'" "mb_msgs mb' = mb_msgs mb @ [v]"
      using mbc.send_law [OF k(2) False, of v] by blast
    then have put: "mb_put mb v = Some (True, mb')" by (auto simp: mb_send_data_def bind_eq_Some_conv)
    let ?k = "k\<lparr>mailboxes := (mailboxes k)(m \<mapsto> mb')\<rparr>"
    obtain k' where k': "ipc_notify ?k (MbRecvQ m) = Some k'" "mb_ok m k'" "mailboxes k' m = Some mb'" "woken ?k (MbRecvQ m) k'"
      using mb_notify [OF k(1), of c ch mb' "MbRecvQ m" m] B mb'(2) by auto
    have run: "rt_mb_send_wait k m v timeout = Some (Done RT_EOK, k')"
      using mb av False put k'(1) by (simp add: rt_mb_send_wait_def mb_send_try_def)
    have w: "\<exists>h. threads k' t = Some h \<and> (stat h = RT_THREAD_READY \<or> stat h = RT_THREAD_RUNNING)"
      if t: "tlists k (MbRecvQ m) = t # ts" for t ts
    proof -
      obtain th where "threads k t = Some th"
        by (rule waiting_thread [OF kinvD(1) [OF k(1)] waitq_simps(4), of t m]) (simp_all add: t)
      then show ?thesis using k'(4) t unfolding woken_def by fastforce
    qed
    show ?thesis using False full run k' mb'(3) w by (auto simp: woken_def)
  next
    case True
    show ?thesis
    proof (cases "timeout = 0")
      case True
      then show ?thesis using \<open>mb_full mb\<close> full mb av by (simp add: rt_mb_send_wait_def)
    next
      case wait: False
      obtain k1 k' h where k': "upd_thread k c (error_update (\<lambda>_. RT_EOK)) = Some k1"
          "ipc_wait k1 c (MbSendQ m) (mb_flag mb) timeout = Some (Blocked :: int call, k')" "kinv {} k'" "same_objs k k'"
          "threads k' c = Some h" "stat h = RT_THREAD_SUSPEND" "tlists k' (MbSendQ m) = wait_insert k (mb_flag mb) c (tlists k (MbSendQ m))"
        using ipc_block_ok [OF k(1) cur waitq_simps(5) n] by blast
      have "rt_mb_send_wait k m v timeout = Some (Blocked, k')"
        using mb av True wait B k'(1,2) by (simp add: rt_mb_send_wait_def mb_send_try_def)
      moreover have "mailboxes k' m = Some mb" using k'(4) mb by (simp add: same_objs_def)
      ultimately show ?thesis using True full wait k'(3,5-7) k(2) by (auto simp: mb_ok_def)
    qed
  qed
qed

text \<open>Receiving from a mailbox. The oldest value is delivered and taken out and the first waiting sender, if any, is made
  ready; an empty mailbox reports the timeout at once when the caller does not wait, and suspends it on the list of
  receivers otherwise.\<close>

lemma mb_recv_spec:
  assumes ok: "mb_ok m k" and mb: "mailboxes k m = Some mb"
    and cur: "can_block k c ch" and n: "timeout < half"
  shows "case mb_msgs mb of
      v # vs \<Rightarrow> (\<exists>k' mb'. rt_mb_recv k m timeout = Some (Done (RT_EOK, Some v), k') \<and> mb_ok m k' \<and> mailboxes k' m = Some mb' \<and>
         mb_msgs mb' = vs \<and> tlists k' (MbSendQ m) = tl (tlists k (MbSendQ m)))
    | [] \<Rightarrow> (if timeout = 0 then rt_mb_recv k m timeout = Some (Done (- RT_ETIMEOUT, None), k)
      else (\<exists>k' h. rt_mb_recv k m timeout = Some (Blocked, k') \<and> mb_ok m k' \<and> mailboxes k' m = Some mb \<and>
        tlists k' (MbRecvQ m) = wait_insert k (mb_flag mb) c (tlists k (MbRecvQ m)) \<and>
        threads k' c = Some h \<and> stat h = RT_THREAD_SUSPEND))"
proof -
  note B = cur [unfolded can_block_def]
  have k: "kinv {} k" "mb_inv mb" using ok mb by (auto simp: mb_ok_def)
  note av = can_block_available [OF cur, of "timeout \<noteq> 0"]
  note e = mbc.empty_iff [OF k(2)]
  show ?thesis
  proof (cases "mb_msgs mb")
    case (Cons v vs)
    obtain mb' where mb': "mb_pop mb = Some (v, mb')" "mb_inv mb'" "mb_msgs mb' = vs" using mbc.recv_law [OF k(2) Cons] by blast
    let ?k = "k\<lparr>mailboxes := (mailboxes k)(m \<mapsto> mb')\<rparr>"
    obtain k' where k': "ipc_notify ?k (MbSendQ m) = Some k'" "mb_ok m k'" "mailboxes k' m = Some mb'" "woken ?k (MbSendQ m) k'"
      using mb_notify [OF k(1), of c ch mb' "MbSendQ m" m] B mb'(2) by auto
    have "rt_mb_recv k m timeout = Some (Done (RT_EOK, Some v), k')"
      using mb av e Cons mb'(1) k'(1) by (simp add: rt_mb_recv_def mb_recv_try_def)
    then show ?thesis using Cons k' mb'(3) by (auto simp: woken_def)
  next
    case Nil
    show ?thesis
    proof (cases "timeout = 0")
      case True
      then show ?thesis using Nil e mb av by (simp add: rt_mb_recv_def)
    next
      case wait: False
      obtain k1 k' h where k': "upd_thread k c (error_update (\<lambda>_. RT_EOK)) = Some k1"
          "ipc_wait k1 c (MbRecvQ m) (mb_flag mb) timeout = Some (Blocked :: (int \<times> int option) call, k')" "kinv {} k'" "same_objs k k'"
          "threads k' c = Some h" "stat h = RT_THREAD_SUSPEND" "tlists k' (MbRecvQ m) = wait_insert k (mb_flag mb) c (tlists k (MbRecvQ m))"
        using ipc_block_ok [OF k(1) cur waitq_simps(4) n] by blast
      have "rt_mb_recv k m timeout = Some (Blocked, k')"
        using mb av Nil e wait B k'(1,2) by (simp add: rt_mb_recv_def mb_recv_try_def)
      moreover have "mailboxes k' m = Some mb" using k'(4) mb by (simp add: same_objs_def)
      ultimately show ?thesis using Nil wait k'(3,5-7) k(2) by (auto simp: mb_ok_def)
    qed
  qed
qed

text \<open>C11: A mailbox is a bounded first-in first-out channel with urgent messages: any sequence of sends, urgent sends and receives on its
  array delivers exactly what the list model delivers, and leaves what the list model leaves.\<close>

theorem mailbox_fifo:
  assumes "mb_inv mb"
  shows "\<exists>mb'. chan_run mb_full mb_empty mb_send_data mb_push mb_pop ops mb = Some (fst (chan_spec (mb_cap mb) ops (mb_msgs mb)), mb') \<and>
    mb_inv mb' \<and> mb_msgs mb' = snd (chan_spec (mb_cap mb) ops (mb_msgs mb))"
  using mbc.run_refines [OF assms] by blast

section \<open>Concrete states\<close>

definition ex_mb :: rt_mailbox where
  "ex_mb = \<lparr>mb_msg_pool = [30, 10, 20], mb_size = 3, mb_entry = 2, in_offset = 0, out_offset = 1, mb_flag = RT_IPC_FLAG_FIFO, mb_static = True\<rparr>"

lemma ex_mb_inv: "mb_inv ex_mb" "mb_msgs ex_mb = [10, 20]" "mb_cap ex_mb = 3"
proof -
  have at: "mb_at ex_mb 1 2" by (simp add: mb_at_def ex_mb_def)
  then show "mb_inv ex_mb" by (rule mb_at_inv)
  show "mb_msgs ex_mb = [10, 20]" "mb_cap ex_mb = 3" by (simp_all add: mb_msgs_def ex_mb_def mb_cap_def ring_seg_def upt_rec)
qed

lemma ex_mb_kernel:
  assumes "waitq l"
  shows "mb_ok 0 ((ex_waiting 0 l)\<lparr>mailboxes := [0 \<mapsto> ex_mb]\<rparr>)"
    "can_block ((ex_waiting 0 l)\<lparr>mailboxes := [0 \<mapsto> ex_mb]\<rparr>) 1 (ex_thread RT_THREAD_RUNNING 10 2 0)"
proof -
  show "mb_ok 0 ((ex_waiting 0 l)\<lparr>mailboxes := [0 \<mapsto> ex_mb]\<rparr>)" using ex_waiting_kinv [OF assms] ex_mb_inv(1) by (simp add: mb_ok_def)
  show "can_block ((ex_waiting 0 l)\<lparr>mailboxes := [0 \<mapsto> ex_mb]\<rparr>) 1 (ex_thread RT_THREAD_RUNNING 10 2 0)"
    using ex_can_block by (simp add: can_block_def eligible_def rt_thread_self_def rt_cpu_self_def ex_waiting_def)
qed

lemma mb_send_spec_example:
  "\<exists>k' mb' h. rt_mb_send_wait ((ex_waiting 0 (MbRecvQ 0))\<lparr>mailboxes := [0 \<mapsto> ex_mb]\<rparr>) 0 7 5 = Some (Done RT_EOK, k') \<and>
    mb_ok 0 k' \<and> mailboxes k' 0 = Some mb' \<and> mb_msgs mb' = [10, 20, 7] \<and> tlists k' (MbRecvQ 0) = [] \<and>
    threads k' 4 = Some h \<and> (stat h = RT_THREAD_READY \<or> stat h = RT_THREAD_RUNNING)"
proof -
  let ?k = "(ex_waiting 0 (MbRecvQ 0))\<lparr>mailboxes := [0 \<mapsto> ex_mb]\<rparr>"
  have m: "mailboxes ?k 0 = Some ex_mb" and q: "tlists ?k (MbRecvQ 0) = [4]" by (simp_all add: ex_waiting_self)
  have h: "5 < half" by (simp add: half_def)
  show ?thesis using mb_send_spec [OF ex_mb_kernel(1) m ex_mb_kernel(2) h, of 7] q by (simp add: ex_mb_inv)
qed

lemma mb_recv_spec_example:
  "\<exists>k' mb'. rt_mb_recv ((ex_waiting 0 (MbSendQ 0))\<lparr>mailboxes := [0 \<mapsto> ex_mb]\<rparr>) 0 5 = Some (Done (RT_EOK, Some 10), k') \<and>
    mb_ok 0 k' \<and> mailboxes k' 0 = Some mb' \<and> mb_msgs mb' = [20] \<and> tlists k' (MbSendQ 0) = []"
proof -
  let ?k = "(ex_waiting 0 (MbSendQ 0))\<lparr>mailboxes := [0 \<mapsto> ex_mb]\<rparr>"
  have m: "mailboxes ?k 0 = Some ex_mb" and q: "tlists ?k (MbSendQ 0) = [4]" by (simp_all add: ex_waiting_self)
  have h: "5 < half" by (simp add: half_def)
  show ?thesis using mb_recv_spec [OF ex_mb_kernel(1) m ex_mb_kernel(2) h] q by (simp add: ex_mb_inv)
qed

theorem mailbox_fifo_witness:
  "\<exists>mb'. chan_run mb_full mb_empty mb_send_data mb_push mb_pop [CSend 1, CSend 2, CRecv, CUrgent 3, CRecv, CRecv] ex_mb = Some ([10, 3, 20], mb') \<and>
    mb_inv mb' \<and> mb_msgs mb' = [1]"
  using mailbox_fifo [OF ex_mb_inv(1), of "[CSend 1, CSend 2, CRecv, CUrgent 3, CRecv, CRecv]"] by (simp add: ex_mb_inv)

end
