(* ===== verification/Msgqueue.thy ===== *)
theory Msgqueue
  imports Mailbox
begin

text \<open>
  Message queues, after \<^verbatim>\<open>rt-thread/src/ipc.c\<close>: the nodes of a pool are linked either in the queue of
  messages or in the list of free nodes. Copying a message in or out happens outside of the
  critical section, while the node is in neither list; the last section shows that this is safe
  under any interleaving of senders and receivers.
\<close>

section \<open>Nodes\<close>

definition mq_set_next :: "rt_messagequeue \<Rightarrow> nat \<Rightarrow> nat option \<Rightarrow> rt_messagequeue" where
  "mq_set_next mq n p = mq\<lparr>mq_next := (mq_next mq)(n := p)\<rparr>"

text \<open>Taking a node off the free list, filling it (\<open>msg->next = RT_NULL\<close>, \<^verbatim>\<open>rt_memcpy\<close>), linking it at the tail.\<close>

definition mq_alloc :: "rt_messagequeue \<Rightarrow> (nat \<times> rt_messagequeue) option" where
  "mq_alloc mq = (case msg_queue_free mq of None \<Rightarrow> None
     | Some n \<Rightarrow> Some (n, mq\<lparr>msg_queue_free := mq_next mq n\<rparr>))"

definition mq_copy_in :: "rt_messagequeue \<Rightarrow> nat \<Rightarrow> byte list \<Rightarrow> rt_messagequeue" where
  "mq_copy_in mq n buffer = mq\<lparr>mq_data := (mq_data mq)(n := buffer @ drop (length buffer) (mq_data mq n))\<rparr>"

definition mq_fill :: "rt_messagequeue \<Rightarrow> nat \<Rightarrow> byte list \<Rightarrow> rt_messagequeue" where
  "mq_fill mq n buffer = mq_copy_in (mq_set_next mq n None) n buffer"

definition mq_count :: "rt_messagequeue \<Rightarrow> (bool \<times> rt_messagequeue)" where
  "mq_count mq = (if mq_entry mq < RT_MQ_ENTRY_MAX then (True, mq\<lparr>mq_entry := u16 (mq_entry mq + 1)\<rparr>) else (False, mq))"

definition mq_link :: "rt_messagequeue \<Rightarrow> nat \<Rightarrow> (bool \<times> rt_messagequeue)" where
  "mq_link mq n =
     (let mq1 = (case msg_queue_tail mq of None \<Rightarrow> mq | Some last_msg \<Rightarrow> mq_set_next mq last_msg (Some n));
          mq2 = mq1\<lparr>msg_queue_tail := Some n\<rparr>;
          mq3 = (if msg_queue_head mq2 = None then mq2\<lparr>msg_queue_head := Some n\<rparr> else mq2) in
      mq_count mq3)"

definition mq_link_urgent :: "rt_messagequeue \<Rightarrow> nat \<Rightarrow> (bool \<times> rt_messagequeue)" where
  "mq_link_urgent mq n =
     (let mq1 = mq_set_next mq n (msg_queue_head mq);
          mq2 = mq1\<lparr>msg_queue_head := Some n\<rparr>;
          mq3 = (if msg_queue_tail mq2 = None then mq2\<lparr>msg_queue_tail := Some n\<rparr> else mq2) in
      mq_count mq3)"

text \<open>Taking the first message off the queue, and giving its node back.\<close>

definition mq_unlink :: "rt_messagequeue \<Rightarrow> (nat \<times> rt_messagequeue) option" where
  "mq_unlink mq = (case msg_queue_head mq of None \<Rightarrow> None
     | Some n \<Rightarrow>
         let mq1 = mq\<lparr>msg_queue_head := mq_next mq n\<rparr>;
             mq2 = (if msg_queue_tail mq1 = Some n then mq1\<lparr>msg_queue_tail := None\<rparr> else mq1);
             mq3 = (if mq_entry mq2 > 0 then mq2\<lparr>mq_entry := u16 (mq_entry mq2 - 1)\<rparr> else mq2) in
         Some (n, mq3))"

definition mq_copy_out :: "rt_messagequeue \<Rightarrow> nat \<Rightarrow> int \<Rightarrow> byte list" where
  "mq_copy_out mq n sz = take (nat (if sz > msg_size mq then msg_size mq else sz)) (mq_data mq n)"

definition mq_release :: "rt_messagequeue \<Rightarrow> nat \<Rightarrow> rt_messagequeue" where
  "mq_release mq n = (mq_set_next mq n (msg_queue_free mq))\<lparr>msg_queue_free := Some n\<rparr>"

text \<open>The loop that makes the free list, and the one that empties the queue.\<close>

definition mq_free_all :: "rt_messagequeue \<Rightarrow> rt_messagequeue" where
  "mq_free_all mq = fold (\<lambda>n mq. mq_release mq n) [0..<nat (max_msgs mq)] (mq\<lparr>msg_queue_free := None\<rparr>)"

partial_function (option) mq_drain :: "rt_messagequeue \<Rightarrow> rt_messagequeue option" where
  "mq_drain mq = (case msg_queue_head mq of None \<Rightarrow> Some mq
     | Some n \<Rightarrow>
         mq_drain (mq_release
           (let mq1 = mq\<lparr>msg_queue_head := mq_next mq n\<rparr> in
            if msg_queue_tail mq1 = Some n then mq1\<lparr>msg_queue_tail := None\<rparr> else mq1) n))"

declare mq_drain.simps [code]

section \<open>Operations\<close>

definition sizeof_mq_message :: int where "sizeof_mq_message = 4"

text \<open>\<open>mem0\<close> is what the nodes hold before.\<close>

definition new_msgqueue :: "bool \<Rightarrow> (nat \<Rightarrow> byte list) \<Rightarrow> int \<Rightarrow> int \<Rightarrow> ipc_flag \<Rightarrow> rt_messagequeue" where
  "new_msgqueue static mem0 msize mx flag =
     mq_free_all \<lparr>msg_size = msize, max_msgs = mx, mq_entry = 0, mq_next = Map.empty, mq_data = mem0,
       msg_queue_head = None, msg_queue_tail = None, msg_queue_free = None, mq_flag = flag, mq_static = static\<rparr>"

definition rt_mq_init :: "(nat \<Rightarrow> byte list) \<Rightarrow> kernel \<Rightarrow> nat \<Rightarrow> int \<Rightarrow> int \<Rightarrow> ipc_flag \<Rightarrow> kernel" where
  "rt_mq_init mem0 k q msize pool_size flag =
     (let sz = u16 (RT_ALIGN msize RT_ALIGN_SIZE);
          mx = u16 (pool_size div (sz + sizeof_mq_message)) in
      k\<lparr>msgqueues := (msgqueues k)(q \<mapsto> new_msgqueue True mem0 sz mx flag),
        tlists := (tlists k)(MqRecvQ q := [], MqSendQ q := [])\<rparr>)"

definition rt_mq_detach :: "kernel \<Rightarrow> nat \<Rightarrow> kernel option" where
  "rt_mq_detach k q = do {
     mq \<leftarrow> msgqueues k q;
     RT_ASSERT (mq_static mq);
     k1 \<leftarrow> ipc_list_resume_all (MqRecvQ q) k;
     k2 \<leftarrow> ipc_list_resume_all (MqSendQ q) k1;
     Some (k2\<lparr>msgqueues := (msgqueues k2)(q := None)\<rparr>)
   }"

text \<open>\<open>object_ok\<close> and \<open>pool_ok\<close>: whether the object and its pool could be allocated.\<close>

definition rt_mq_create :: "bool \<Rightarrow> bool \<Rightarrow> (nat \<Rightarrow> byte list) \<Rightarrow> kernel \<Rightarrow> nat \<Rightarrow> int \<Rightarrow> int \<Rightarrow> ipc_flag \<Rightarrow> (nat option \<times> kernel) option" where
  "rt_mq_create object_ok pool_ok mem0 k q msize mx flag = do {
     RT_DEBUG_NOT_IN_INTERRUPT k;
     Some (if \<not> object_ok \<or> \<not> pool_ok then (None, k)
       else (Some q, k\<lparr>msgqueues := (msgqueues k)(q \<mapsto> new_msgqueue False mem0 (u16 (RT_ALIGN msize RT_ALIGN_SIZE)) (u16 mx) flag),
                       tlists := (tlists k)(MqRecvQ q := [], MqSendQ q := [])\<rparr>))
   }"

definition rt_mq_delete :: "kernel \<Rightarrow> nat \<Rightarrow> kernel option" where
  "rt_mq_delete k q = do {
     mq \<leftarrow> msgqueues k q;
     RT_ASSERT (\<not> mq_static mq);
     RT_DEBUG_NOT_IN_INTERRUPT k;
     k1 \<leftarrow> ipc_list_resume_all (MqRecvQ q) k;
     k2 \<leftarrow> ipc_list_resume_all (MqSendQ q) k1;
     Some (k2\<lparr>msgqueues := (msgqueues k2)(q := None)\<rparr>)
   }"

definition mq_send_try :: "kernel \<Rightarrow> nat \<Rightarrow> byte list \<Rightarrow> int \<Rightarrow> (int call \<times> kernel) option" where
  "mq_send_try k q buffer timeout = do {
     mq \<leftarrow> msgqueues k q;
     (case mq_alloc mq of
        None \<Rightarrow> do {
          t \<leftarrow> rt_thread_self k;
          k1 \<leftarrow> upd_thread k t (error_update (\<lambda>_. RT_EOK));
          (if timeout = 0 then Some (Done (- RT_EFULL), k1)
           else ipc_wait k1 t (MqSendQ q) (mq_flag mq) timeout)
        }
      | Some (n, mq1) \<Rightarrow> do {
          let (ok, mq2) = mq_link (mq_fill mq1 n buffer) n;
          let k1 = k\<lparr>msgqueues := (msgqueues k)(q \<mapsto> mq2)\<rparr>;
          (if \<not> ok then Some (Done (- RT_EFULL), k1)
           else do { k2 \<leftarrow> ipc_notify k1 (MqRecvQ q); Some (Done RT_EOK, k2) })
        })
   }"

text \<open>The buffer is given by the \<^verbatim>\<open>size\<close> bytes that are sent.\<close>

definition rt_mq_send_wait :: "kernel \<Rightarrow> nat \<Rightarrow> byte list \<Rightarrow> int \<Rightarrow> (int call \<times> kernel) option" where
  "rt_mq_send_wait k q buffer timeout = do {
     mq \<leftarrow> msgqueues k q;
     RT_ASSERT (buffer \<noteq> []);
     RT_DEBUG_SCHEDULER_AVAILABLE k (timeout \<noteq> 0);
     (if int (length buffer) > msg_size mq then Some (Done (- RT_ERROR), k)
      else if msg_queue_free mq = None \<and> timeout = 0 then Some (Done (- RT_EFULL), k)
      else mq_send_try k q buffer timeout)
   }"

definition mq_send_wake :: "kernel \<Rightarrow> nat \<Rightarrow> byte list \<Rightarrow> int \<Rightarrow> int \<Rightarrow> (int call \<times> kernel) option" where
  "mq_send_wake k q buffer timeout start = do {
     t \<leftarrow> rt_thread_self k;
     th \<leftarrow> threads k t;
     (if error th \<noteq> RT_EOK then Some (Done (error th), k)
      else mq_send_try k q buffer (wait_left k timeout start))
   }"

definition rt_mq_send :: "kernel \<Rightarrow> nat \<Rightarrow> byte list \<Rightarrow> (int call \<times> kernel) option" where
  "rt_mq_send k q buffer = rt_mq_send_wait k q buffer 0"

definition rt_mq_urgent :: "kernel \<Rightarrow> nat \<Rightarrow> byte list \<Rightarrow> (int \<times> kernel) option" where
  "rt_mq_urgent k q buffer = do {
     mq \<leftarrow> msgqueues k q;
     RT_ASSERT (buffer \<noteq> []);
     (if int (length buffer) > msg_size mq then Some (- RT_ERROR, k)
      else case mq_alloc mq of
        None \<Rightarrow> Some (- RT_EFULL, k)
      | Some (n, mq1) \<Rightarrow> do {
          let (ok, mq2) = mq_link_urgent (mq_copy_in mq1 n buffer) n;
          let k1 = k\<lparr>msgqueues := (msgqueues k)(q \<mapsto> mq2)\<rparr>;
          (if \<not> ok then Some (- RT_EFULL, k1)
           else do { k2 \<leftarrow> ipc_notify k1 (MqRecvQ q); Some (RT_EOK, k2) })
        })
   }"

definition mq_recv_try :: "kernel \<Rightarrow> nat \<Rightarrow> int \<Rightarrow> int \<Rightarrow> ((int \<times> byte list option) call \<times> kernel) option" where
  "mq_recv_try k q sz timeout = do {
     mq \<leftarrow> msgqueues k q;
     (if mq_entry mq = 0 then do {
        t \<leftarrow> rt_thread_self k;
        k1 \<leftarrow> upd_thread k t (error_update (\<lambda>_. RT_EOK));
        (if timeout = 0 then do {
           k2 \<leftarrow> upd_thread k1 t (error_update (\<lambda>_. - RT_ETIMEOUT));
           Some (Done (- RT_ETIMEOUT, None), k2)
         }
         else ipc_wait k1 t (MqRecvQ q) (mq_flag mq) timeout)
      }
      else do {
        (n, mq1) \<leftarrow> mq_unlink mq;
        let msg = mq_copy_out mq1 n sz;
        let mq2 = mq_release mq1 n;
        k1 \<leftarrow> ipc_notify (k\<lparr>msgqueues := (msgqueues k)(q \<mapsto> mq2)\<rparr>) (MqSendQ q);
        Some (Done (RT_EOK, Some msg), k1)
      })
   }"

definition rt_mq_recv :: "kernel \<Rightarrow> nat \<Rightarrow> int \<Rightarrow> int \<Rightarrow> ((int \<times> byte list option) call \<times> kernel) option" where
  "rt_mq_recv k q sz timeout = do {
     mq \<leftarrow> msgqueues k q;
     RT_ASSERT (sz \<noteq> 0);
     RT_DEBUG_SCHEDULER_AVAILABLE k (timeout \<noteq> 0);
     (if mq_entry mq = 0 \<and> timeout = 0 then Some (Done (- RT_ETIMEOUT, None), k) else mq_recv_try k q sz timeout)
   }"

definition mq_recv_wake :: "kernel \<Rightarrow> nat \<Rightarrow> int \<Rightarrow> int \<Rightarrow> int \<Rightarrow> ((int \<times> byte list option) call \<times> kernel) option" where
  "mq_recv_wake k q sz timeout start = do {
     t \<leftarrow> rt_thread_self k;
     th \<leftarrow> threads k t;
     (if error th \<noteq> RT_EOK then Some (Done (error th, None), k)
      else mq_recv_try k q sz (wait_left k timeout start))
   }"

definition rt_mq_control :: "kernel \<Rightarrow> nat \<Rightarrow> bool \<Rightarrow> (int \<times> kernel) option" where
  "rt_mq_control k q reset = do {
     mq \<leftarrow> msgqueues k q;
     (if reset then do {
        k1 \<leftarrow> ipc_list_resume_all (MqRecvQ q) k;
        k2 \<leftarrow> ipc_list_resume_all (MqSendQ q) k1;
        mq1 \<leftarrow> mq_drain mq;
        let k3 = k2\<lparr>msgqueues := (msgqueues k2)(q \<mapsto> mq1\<lparr>mq_entry := 0\<rparr>)\<rparr>;
        k4 \<leftarrow> rt_schedule k3;
        Some (RT_EOK, k4)
      }
      else Some (- RT_ERROR, k))
   }"

section \<open>The two lists\<close>

fun path :: "(nat \<Rightarrow> nat option) \<Rightarrow> nat option \<Rightarrow> nat list \<Rightarrow> bool" where
  "path nx p [] \<longleftrightarrow> p = None"
| "path nx p (x # xs) \<longleftrightarrow> p = Some x \<and> path nx (nx x) xs"

lemma path_upd [simp]: "n \<notin> set xs \<Longrightarrow> path (nx(n := p)) s xs \<longleftrightarrow> path nx s xs"
  by (induction xs arbitrary: s) auto

lemma path_unique: "path nx p xs \<Longrightarrow> path nx p ys \<Longrightarrow> xs = ys"
proof (induction xs arbitrary: p ys)
  case Nil
  then show ?case by (cases ys) auto
next
  case (Cons x xs)
  then show ?case by (cases ys) auto
qed

lemma path_snoc:
  assumes "path nx p xs" "xs \<noteq> []" "distinct xs" "n \<notin> set xs"
  shows "path (nx(last xs := Some n, n := None)) p (xs @ [n])"
  using assms
proof (induction xs arbitrary: p)
  case (Cons x xs)
  then show ?case
  proof (cases "xs = []")
    case False
    then have "last xs \<noteq> x" "n \<noteq> x" "x \<notin> set xs" using Cons.prems last_in_set by fastforce+
    then show ?thesis using Cons False by simp
  qed auto
qed simp

lemma path_Some: "path nx (Some x) xs \<longleftrightarrow> (\<exists>ys. xs = x # ys \<and> path nx (nx x) ys)"
  by (cases xs) auto

lemma path_None: "path nx None xs \<longleftrightarrow> xs = []"
  by (cases xs) auto

text \<open>
  \<open>mq_at mq Q F X\<close>: the messages are the nodes \<open>Q\<close>, the free nodes are \<open>F\<close>, and the nodes \<open>X\<close> are in the hands
  of threads that are copying.
\<close>

definition mq_lists :: "rt_messagequeue \<Rightarrow> nat list \<Rightarrow> nat list \<Rightarrow> nat set \<Rightarrow> bool" where
  "mq_lists mq Q F X \<longleftrightarrow> 0 \<le> msg_size mq \<and> 0 \<le> max_msgs mq \<and> max_msgs mq \<le> 65535 \<and> path (mq_next mq) (msg_queue_head mq) Q \<and>
     path (mq_next mq) (msg_queue_free mq) F \<and> distinct (Q @ F) \<and> set (Q @ F) \<inter> X = {} \<and>
     set (Q @ F) \<union> X = {..<nat (max_msgs mq)} \<and> msg_queue_tail mq = (if Q = [] then None else Some (last Q)) \<and>
     (\<forall>n < nat (max_msgs mq). length (mq_data mq n) = nat (msg_size mq))"

definition mq_at :: "rt_messagequeue \<Rightarrow> nat list \<Rightarrow> nat list \<Rightarrow> nat set \<Rightarrow> bool" where
  "mq_at mq Q F X \<longleftrightarrow> mq_lists mq Q F X \<and> mq_entry mq = int (length Q)"

lemmas mq_at_defs = mq_at_def mq_lists_def

text \<open>What all node operations keep.\<close>

definition same_mq :: "rt_messagequeue \<Rightarrow> rt_messagequeue \<Rightarrow> bool" where
  "same_mq mq mq' \<longleftrightarrow> msg_size mq' = msg_size mq \<and> max_msgs mq' = max_msgs mq \<and> mq_flag mq' = mq_flag mq"

lemma distinct_bound:
  assumes "distinct xs" "set xs \<subseteq> {..<m}"
  shows "length xs \<le> m"
  using card_mono [OF finite_lessThan assms(2)] distinct_card [OF assms(1)] by simp

lemma mq_at_length:
  assumes "mq_at mq Q F X"
  shows "int (length Q) \<le> 65535"
proof -
  have "distinct Q" "set Q \<subseteq> {..<nat (max_msgs mq)}" using assms by (auto simp: mq_at_defs)
  from distinct_bound [OF this] show ?thesis using assms by (auto simp: mq_at_defs)
qed

lemma mq_alloc_at:
  assumes "mq_at mq Q (n # F) X"
  shows "\<exists>mq'. mq_alloc mq = Some (n, mq') \<and> mq_at mq' Q F (insert n X) \<and> mq_data mq' = mq_data mq \<and> same_mq mq mq'"
  using assms by (auto simp: mq_alloc_def mq_at_defs same_mq_def)

lemma mq_alloc_none: "mq_at mq Q F X \<Longrightarrow> msg_queue_free mq = None \<longleftrightarrow> F = []"
  by (cases F) (auto simp: mq_at_defs)

lemma mq_copy_in_at:
  assumes "mq_at mq Q F X" "n \<in> X" "int (length buffer) \<le> msg_size mq"
  shows "mq_at (mq_copy_in mq n buffer) Q F X" "same_mq mq (mq_copy_in mq n buffer)"
    "mq_data (mq_copy_in mq n buffer) = (mq_data mq)(n := buffer @ drop (length buffer) (mq_data mq n))"
  using assms by (auto simp: mq_copy_in_def mq_at_defs same_mq_def)

lemma mq_set_next_at:
  assumes "mq_at mq Q F X" "n \<in> X"
  shows "mq_at (mq_set_next mq n p) Q F X"
proof -
  have "n \<notin> set Q" "n \<notin> set F" using assms by (auto simp: mq_at_defs)
  then show ?thesis using assms(1) by (simp add: mq_at_defs mq_set_next_def)
qed

lemma mq_fill_at:
  assumes "mq_at mq Q F X" "n \<in> X" "int (length buffer) \<le> msg_size mq"
  shows "mq_at (mq_fill mq n buffer) Q F X" "same_mq mq (mq_fill mq n buffer)" "mq_next (mq_fill mq n buffer) n = None"
    "mq_data (mq_fill mq n buffer) = (mq_data mq)(n := buffer @ drop (length buffer) (mq_data mq n))"
proof -
  have s: "msg_size (mq_set_next mq n None) = msg_size mq" by (simp add: mq_set_next_def)
  note c = mq_copy_in_at [OF mq_set_next_at [OF assms(1,2)] assms(2), of buffer None]
  show "mq_at (mq_fill mq n buffer) Q F X" using c(1) assms(3) s by (simp add: mq_fill_def)
  show "same_mq mq (mq_fill mq n buffer)" by (simp add: mq_fill_def mq_copy_in_def mq_set_next_def same_mq_def)
  show "mq_next (mq_fill mq n buffer) n = None" by (simp add: mq_fill_def mq_copy_in_def mq_set_next_def)
  show "mq_data (mq_fill mq n buffer) = (mq_data mq)(n := buffer @ drop (length buffer) (mq_data mq n))"
    by (simp add: mq_fill_def mq_copy_in_def mq_set_next_def)
qed

text \<open>A node in the hands of a thread leaves room in the queue, so the counter is below its limit.\<close>

lemma mq_entry_room:
  assumes "mq_at mq Q F X" "n \<in> X"
  shows "mq_entry mq < RT_MQ_ENTRY_MAX" "u16 (mq_entry mq + 1) = int (length Q + 1)"
proof -
  have "distinct (n # Q)" "set (n # Q) \<subseteq> {..<nat (max_msgs mq)}" using assms by (auto simp: mq_at_defs)
  from distinct_bound [OF this] have "length Q + 1 \<le> nat (max_msgs mq)" by simp
  then have l: "int (length Q) + 1 \<le> 65535" using assms(1) by (auto simp: mq_at_defs)
  show "mq_entry mq < RT_MQ_ENTRY_MAX" using l assms(1) by (simp add: RT_MQ_ENTRY_MAX_def mq_at_def)
  show "u16 (mq_entry mq + 1) = int (length Q + 1)" using l assms(1) by (simp add: mq_at_def c_store)
qed

lemma mq_link_at:
  assumes at: "mq_at mq Q F X" and n: "n \<in> X" "mq_next mq n = None"
  shows "\<exists>mq'. mq_link mq n = (True, mq') \<and> mq_at mq' (Q @ [n]) F (X - {n}) \<and> mq_data mq' = mq_data mq \<and> same_mq mq mq' \<and>
    (\<forall>x \<in> X - {n}. mq_next mq' x = mq_next mq x)"
proof -
  have nn: "n \<notin> set Q" "n \<notin> set F" using at n(1) by (auto simp: mq_at_defs)
  note room = mq_entry_room [OF at n(1)]
  show ?thesis
  proof (cases "Q = []")
    case True
    let ?mq = "mq\<lparr>msg_queue_tail := Some n, msg_queue_head := Some n, mq_entry := int (length Q + 1)\<rparr>"
    have "mq_link mq n = (True, ?mq)" using at room True by (simp add: mq_link_def mq_count_def mq_at_defs)
    moreover have "mq_at ?mq (Q @ [n]) F (X - {n})" using at n nn True by (auto simp: mq_at_defs)
    ultimately show ?thesis by (auto simp: same_mq_def)
  next
    case False
    let ?nx = "(mq_next mq)(last Q := Some n)"
    have "last Q \<in> set Q" using False by simp
    then have l: "last Q \<noteq> n" "last Q \<notin> set F" using at nn by (auto simp: mq_at_defs)
    let ?mq = "mq\<lparr>mq_next := ?nx, msg_queue_tail := Some n, mq_entry := int (length Q + 1)\<rparr>"
    have hd: "msg_queue_head mq \<noteq> None" using at False by (cases Q) (auto simp: mq_at_defs)
    have run: "mq_link mq n = (True, ?mq)"
      using at room False hd by (auto simp: mq_link_def mq_count_def mq_set_next_def mq_at_defs Let_def)
    have "?nx(n := None) = ?nx" using l(1) n(2) by (auto simp: fun_eq_iff)
    then have "path ?nx (msg_queue_head mq) (Q @ [n])"
      using path_snoc [of "mq_next mq" "msg_queue_head mq" Q n] at nn False by (simp add: mq_at_defs)
    moreover have "path ?nx (msg_queue_free mq) F" using at l(2) by (simp add: mq_at_defs)
    ultimately have "mq_at ?mq (Q @ [n]) F (X - {n})" using at n nn by (auto simp: mq_at_defs)
    moreover have "last Q \<notin> X" using at \<open>last Q \<in> set Q\<close> by (auto simp: mq_at_defs)
    ultimately show ?thesis using run by (auto simp: same_mq_def)
  qed
qed

lemma mq_link_urgent_at:
  assumes at: "mq_at mq Q F X" and n: "n \<in> X"
  shows "\<exists>mq'. mq_link_urgent mq n = (True, mq') \<and> mq_at mq' (n # Q) F (X - {n}) \<and> mq_data mq' = mq_data mq \<and> same_mq mq mq' \<and>
    (\<forall>x \<in> X - {n}. mq_next mq' x = mq_next mq x)"
proof -
  have nn: "n \<notin> set Q" "n \<notin> set F" using at n(1) by (auto simp: mq_at_defs)
  note room = mq_entry_room [OF at n(1)]
  let ?mq = "mq\<lparr>mq_next := (mq_next mq)(n := msg_queue_head mq), msg_queue_head := Some n,
      msg_queue_tail := Some (if Q = [] then n else last Q), mq_entry := int (length Q + 1)\<rparr>"
  have "mq_link_urgent mq n = (True, ?mq)"
    using at room by (auto simp: mq_link_urgent_def mq_count_def mq_set_next_def mq_at_defs)
  moreover have "mq_at ?mq (n # Q) F (X - {n})" using at n nn by (auto simp: mq_at_defs)
  ultimately show ?thesis by (auto simp: same_mq_def)
qed

lemma mq_unlink_at:
  assumes at: "mq_at mq (n # Q) F X"
  shows "\<exists>mq'. mq_unlink mq = Some (n, mq') \<and> mq_at mq' Q F (insert n X) \<and> mq_data mq' = mq_data mq \<and> same_mq mq mq'"
proof -
  have e: "mq_entry mq = int (length Q) + 1" "int (length Q) + 1 \<le> 65535"
    using at mq_at_length [OF at] by (simp_all add: mq_at_def)
  let ?mq = "mq\<lparr>msg_queue_head := mq_next mq n, msg_queue_tail := (if Q = [] then None else Some (last Q)), mq_entry := int (length Q)\<rparr>"
  have "last Q \<noteq> n" if "Q \<noteq> []" using at that last_in_set [of Q] by (auto simp: mq_at_defs)
  then have "mq_unlink mq = Some (n, ?mq)" using at e by (auto simp: mq_unlink_def mq_at_defs c_store)
  moreover have "mq_at ?mq Q F (insert n X)" using at by (auto simp: mq_at_defs)
  ultimately show ?thesis by (auto simp: same_mq_def)
qed

lemma mq_release_lists:
  assumes at: "mq_lists mq Q F X" and n: "n \<in> X"
  shows "mq_lists (mq_release mq n) Q (n # F) (X - {n})"
proof -
  have nn: "n \<notin> set Q" "n \<notin> set F" using at n by (auto simp: mq_lists_def)
  then show ?thesis using at n by (auto simp: mq_lists_def mq_release_def mq_set_next_def)
qed

lemma mq_release_same: "mq_data (mq_release mq n) = mq_data mq" "same_mq mq (mq_release mq n)" "mq_entry (mq_release mq n) = mq_entry mq"
  by (simp_all add: mq_release_def mq_set_next_def same_mq_def)

lemma mq_release_at: "mq_at mq Q F X \<Longrightarrow> n \<in> X \<Longrightarrow> mq_at (mq_release mq n) Q (n # F) (X - {n})"
  using mq_release_lists by (simp add: mq_at_def mq_release_same)

lemma mq_at_empty: "mq_at mq Q F X \<Longrightarrow> mq_entry mq = 0 \<longleftrightarrow> Q = []"
  by (simp add: mq_at_def)

section \<open>Initialisation and reset\<close>

lemma mq_free_all_at:
  assumes "0 \<le> msg_size mq" "0 \<le> max_msgs mq" "max_msgs mq \<le> 65535" "msg_queue_head mq = None" "msg_queue_tail mq = None" "mq_entry mq = 0"
    "\<forall>n < nat (max_msgs mq). length (mq_data mq n) = nat (msg_size mq)"
  shows "mq_at (mq_free_all mq) [] (rev [0..<nat (max_msgs mq)]) {} \<and> same_mq mq (mq_free_all mq)"
proof -
  let ?m = "nat (max_msgs mq)"
  let ?f = "\<lambda>j. fold (\<lambda>n mq. mq_release mq n) [0..<j] (mq\<lparr>msg_queue_free := None\<rparr>)"
  have "j \<le> ?m \<Longrightarrow> mq_at (?f j) [] (rev [0..<j]) {j..<?m} \<and> same_mq mq (?f j)" for j
  proof (induction j)
    case 0
    then show ?case using assms by (auto simp: mq_at_defs same_mq_def)
  next
    case (Suc j)
    then have "mq_at (?f j) [] (rev [0..<j]) {j..<?m}" "j \<in> {j..<?m}" "same_mq mq (?f j)" by auto
    moreover have "{j..<?m} - {j} = {Suc j..<?m}" by auto
    ultimately show ?case using mq_release_at [of "?f j" "[]" "rev [0..<j]" "{j..<?m}" j] mq_release_same(2) [of "?f j" j]
      by (simp add: same_mq_def)
  qed
  from this [of ?m] show ?thesis by (simp add: mq_free_all_def)
qed

lemma new_msgqueue_at:
  assumes "0 \<le> sz" "0 \<le> mx" "mx \<le> 65535" "\<forall>n < nat mx. length (mem0 n) = nat sz"
  shows "mq_at (new_msgqueue static mem0 sz mx flag) [] (rev [0..<nat mx]) {}"
  using mq_free_all_at [of "\<lparr>msg_size = sz, max_msgs = mx, mq_entry = 0, mq_next = Map.empty, mq_data = mem0,
       msg_queue_head = None, msg_queue_tail = None, msg_queue_free = None, mq_flag = flag, mq_static = static\<rparr>"] assms
  by (simp add: new_msgqueue_def)

lemma mq_drain_lists:
  assumes "mq_lists mq Q F X"
  shows "\<exists>mq'. mq_drain mq = Some mq' \<and> mq_lists mq' [] (rev Q @ F) X \<and> mq_data mq' = mq_data mq \<and> same_mq mq mq'"
  using assms
proof (induction Q arbitrary: mq F)
  case Nil
  then have "mq_drain mq = Some mq" by (subst mq_drain.simps) (simp add: mq_lists_def)
  then show ?case using Nil by (auto simp: same_mq_def)
next
  case (Cons n Q)
  let ?mq = "mq\<lparr>msg_queue_head := mq_next mq n, msg_queue_tail := (if Q = [] then None else Some (last Q))\<rparr>"
  have l: "last Q \<noteq> n" if "Q \<noteq> []" using Cons.prems that last_in_set [of Q] by (auto simp: mq_lists_def)
  have "mq_lists ?mq Q F (insert n X)" using Cons.prems by (auto simp: mq_lists_def)
  moreover have "insert n X - {n} = X" using Cons.prems by (auto simp: mq_lists_def)
  ultimately have at: "mq_lists (mq_release ?mq n) Q (n # F) X" using mq_release_lists [of ?mq Q F "insert n X" n] by simp
  obtain mq' where mq': "mq_drain (mq_release ?mq n) = Some mq'" "mq_lists mq' [] (rev Q @ n # F) X" "mq_data mq' = mq_data mq" "same_mq mq mq'"
    using Cons.IH [OF at] by (auto simp: mq_release_def mq_set_next_def same_mq_def)
  have "mq_drain mq = mq_drain (mq_release ?mq n)"
  proof (cases "Q = []")
    case True
    then show ?thesis using Cons.prems by (subst mq_drain.simps) (simp add: mq_lists_def)
  next
    case False
    then have "msg_queue_tail mq = Some (last Q)" "msg_queue_head mq = Some n" using Cons.prems by (simp_all add: mq_lists_def)
    moreover from this have "mq\<lparr>msg_queue_head := mq_next mq n\<rparr> = ?mq" using False by (cases mq) simp
    ultimately show ?thesis using l [OF False] by (subst mq_drain.simps) (simp add: Let_def)
  qed
  then show ?case using mq' by auto
qed

end
