(* ===== verification/Msgqueue_Props.thy ===== *)
theory Msgqueue_Props
  imports Msgqueue
begin

text \<open>
  What message queues promise: first-in first-out delivery with urgent messages, the behaviour of the
  kernel calls on every branch, and that copying outside of the critical section is safe.
\<close>

section \<open>The queue as a channel\<close>

fun mq_nodes :: "(nat \<Rightarrow> nat option) \<Rightarrow> nat option \<Rightarrow> nat \<Rightarrow> nat list" where
  "mq_nodes nx p 0 = []"
| "mq_nodes nx None (Suc i) = []"
| "mq_nodes nx (Some n) (Suc i) = n # mq_nodes nx (nx n) i"

lemma mq_nodes_path: "path nx p Q \<Longrightarrow> mq_nodes nx p (length Q) = Q"
  by (induction Q arbitrary: p) auto

definition mq_msgs :: "rt_messagequeue \<Rightarrow> byte list list" where
  "mq_msgs mq = map (mq_data mq) (mq_nodes (mq_next mq) (msg_queue_head mq) (nat (mq_entry mq)))"

definition mq_inv :: "rt_messagequeue \<Rightarrow> bool" where
  "mq_inv mq \<longleftrightarrow> (\<exists>Q F. mq_at mq Q F {})"

definition mq_cap :: "rt_messagequeue \<Rightarrow> nat" where
  "mq_cap mq = nat (max_msgs mq)"

lemma mq_at_msgs: "mq_at mq Q F X \<Longrightarrow> mq_msgs mq = map (mq_data mq) Q"
  by (simp add: mq_msgs_def mq_at_defs mq_nodes_path)

lemma mq_at_inv: "mq_at mq Q F {} \<Longrightarrow> mq_inv mq"
  by (auto simp: mq_inv_def)

lemma mq_at_cap:
  assumes "mq_at mq Q F {}"
  shows "length Q + length F = mq_cap mq"
proof -
  have "distinct (Q @ F)" "set (Q @ F) = {..<nat (max_msgs mq)}" using assms by (auto simp: mq_at_defs)
  then show ?thesis using distinct_card [of "Q @ F"] by (simp add: mq_cap_def)
qed

text \<open>What the slot of a message holds: the bytes sent and what was there behind them.\<close>

definition slot_of :: "rt_messagequeue \<Rightarrow> byte list \<Rightarrow> byte list \<Rightarrow> bool" where
  "slot_of mq b s \<longleftrightarrow> length s = nat (msg_size mq) \<and> take (length b) s = b"

lemma mq_send_at:
  assumes at: "mq_at mq Q (n # F) {}" and b: "int (length b) \<le> msg_size mq"
  shows "\<exists>mq1 mq2 s. mq_alloc mq = Some (n, mq1) \<and> mq_link (mq_fill mq1 n b) n = (True, mq2) \<and> mq_at mq2 (Q @ [n]) F {} \<and>
    same_mq mq mq2 \<and> mq_msgs mq2 = mq_msgs mq @ [s] \<and> slot_of mq b s"
proof -
  obtain mq1 where 1: "mq_alloc mq = Some (n, mq1)" "mq_at mq1 Q F {n}" "mq_data mq1 = mq_data mq" "same_mq mq mq1"
    using mq_alloc_at [OF at] by auto
  have b1: "int (length b) \<le> msg_size mq1" using b 1(4) by (simp add: same_mq_def)
  let ?m = "mq_fill mq1 n b"
  note f = mq_fill_at [OF 1(2) _ b1, of n]
  obtain mq2 where 2: "mq_link ?m n = (True, mq2)" "mq_at mq2 (Q @ [n]) F {}" "mq_data mq2 = mq_data ?m" "same_mq ?m mq2"
    using mq_link_at [OF f(1) _ f(3)] by auto
  let ?s = "b @ drop (length b) (mq_data mq n)"
  have n: "n \<notin> set Q" "n < nat (max_msgs mq)" using at by (auto simp: mq_at_defs)
  have "map (mq_data mq2) Q = map (mq_data mq) Q" using n(1) f(4) by (simp add: 2(3) 1(3))
  moreover have "mq_data mq2 n = ?s" using f(4) by (simp add: 2(3) 1(3))
  moreover have "length (mq_data mq n) = nat (msg_size mq)" using at n(2) by (auto simp: mq_at_defs)
  ultimately show ?thesis
    using 1 2 f(2) b mq_at_msgs [OF at] mq_at_msgs [OF 2(2)]
    by (intro exI [of _ mq1] exI [of _ mq2] exI [of _ ?s]) (auto simp: same_mq_def slot_of_def)
qed

lemma mq_urgent_at:
  assumes at: "mq_at mq Q (n # F) {}" and b: "int (length b) \<le> msg_size mq"
  shows "\<exists>mq1 mq2 s. mq_alloc mq = Some (n, mq1) \<and> mq_link_urgent (mq_copy_in mq1 n b) n = (True, mq2) \<and> mq_at mq2 (n # Q) F {} \<and>
    same_mq mq mq2 \<and> mq_msgs mq2 = s # mq_msgs mq \<and> slot_of mq b s"
proof -
  obtain mq1 where 1: "mq_alloc mq = Some (n, mq1)" "mq_at mq1 Q F {n}" "mq_data mq1 = mq_data mq" "same_mq mq mq1"
    using mq_alloc_at [OF at] by auto
  have b1: "int (length b) \<le> msg_size mq1" using b 1(4) by (simp add: same_mq_def)
  let ?m = "mq_copy_in mq1 n b"
  note f = mq_copy_in_at [OF 1(2) _ b1, of n]
  obtain mq2 where 2: "mq_link_urgent ?m n = (True, mq2)" "mq_at mq2 (n # Q) F {}" "mq_data mq2 = mq_data ?m" "same_mq ?m mq2"
    using mq_link_urgent_at [OF f(1)] by auto
  let ?s = "b @ drop (length b) (mq_data mq n)"
  have n: "n \<notin> set Q" "n < nat (max_msgs mq)" using at by (auto simp: mq_at_defs)
  have "map (mq_data mq2) Q = map (mq_data mq) Q" using n(1) f(3) by (simp add: 2(3) 1(3))
  moreover have "mq_data mq2 n = ?s" using f(3) by (simp add: 2(3) 1(3))
  moreover have "length (mq_data mq n) = nat (msg_size mq)" using at n(2) by (auto simp: mq_at_defs)
  ultimately show ?thesis
    using 1 2 f(2) b mq_at_msgs [OF at] mq_at_msgs [OF 2(2)]
    by (intro exI [of _ mq1] exI [of _ mq2] exI [of _ ?s]) (auto simp: same_mq_def slot_of_def)
qed

lemma mq_recv_at:
  assumes at: "mq_at mq (n # Q) F {}"
  shows "\<exists>mq1. mq_unlink mq = Some (n, mq1) \<and> mq_at (mq_release mq1 n) Q (n # F) {} \<and> same_mq mq (mq_release mq1 n) \<and>
    mq_msgs mq = mq_data mq n # mq_msgs (mq_release mq1 n) \<and>
    mq_copy_out mq1 n sz = take (nat (if sz > msg_size mq then msg_size mq else sz)) (mq_data mq n)"
proof -
  obtain mq1 where 1: "mq_unlink mq = Some (n, mq1)" "mq_at mq1 Q F {n}" "mq_data mq1 = mq_data mq" "same_mq mq mq1"
    using mq_unlink_at [OF at] by auto
  have 2: "mq_at (mq_release mq1 n) Q (n # F) {}" using mq_release_at [OF 1(2), of n] by simp
  show ?thesis
    using 1 2 mq_at_msgs [OF at] mq_at_msgs [OF 2] mq_release_same [of mq1 n]
    by (intro exI [of _ mq1]) (simp add: same_mq_def mq_copy_out_def)
qed

text \<open>The channel operations on whole slots.\<close>

definition mq_full :: "rt_messagequeue \<Rightarrow> bool" where "mq_full mq \<longleftrightarrow> msg_queue_free mq = None"
definition mq_empty :: "rt_messagequeue \<Rightarrow> bool" where "mq_empty mq \<longleftrightarrow> mq_entry mq = 0"
definition mq_valid :: "rt_messagequeue \<Rightarrow> byte list \<Rightarrow> bool" where "mq_valid mq = (\<lambda>m. int (length m) = msg_size mq)"

definition mq_send_data :: "rt_messagequeue \<Rightarrow> byte list \<Rightarrow> rt_messagequeue option" where
  "mq_send_data mq m = do {
     (n, mq1) \<leftarrow> mq_alloc mq;
     let (ok, mq2) = mq_link (mq_fill mq1 n m) n;
     RT_ASSERT ok;
     Some mq2
   }"

definition mq_urgent_data :: "rt_messagequeue \<Rightarrow> byte list \<Rightarrow> rt_messagequeue option" where
  "mq_urgent_data mq m = do {
     (n, mq1) \<leftarrow> mq_alloc mq;
     let (ok, mq2) = mq_link_urgent (mq_copy_in mq1 n m) n;
     RT_ASSERT ok;
     Some mq2
   }"

definition mq_recv_data :: "rt_messagequeue \<Rightarrow> (byte list \<times> rt_messagequeue) option" where
  "mq_recv_data mq = do {
     (n, mq1) \<leftarrow> mq_unlink mq;
     Some (mq_copy_out mq1 n (msg_size mq1), mq_release mq1 n)
   }"

lemma slot_full: "slot_of mq m s \<Longrightarrow> mq_valid mq m \<Longrightarrow> s = m"
  by (auto simp: slot_of_def mq_valid_def)

interpretation mqc: message_channel mq_inv mq_msgs mq_cap mq_valid mq_full mq_empty mq_send_data mq_recv_data mq_urgent_data
proof
  fix q assume "mq_inv q"
  then obtain Q F where at: "mq_at q Q F {}" by (auto simp: mq_inv_def)
  note len = mq_at_cap [OF at] and ms = mq_at_msgs [OF at]
  show "length (mq_msgs q) \<le> mq_cap q" using len ms by simp
  show "mq_full q \<longleftrightarrow> length (mq_msgs q) = mq_cap q" using len ms mq_alloc_none [OF at] by (auto simp: mq_full_def)
  show "mq_empty q \<longleftrightarrow> mq_msgs q = []" using ms mq_at_empty [OF at] by (simp add: mq_empty_def)
  {
    fix m assume nf: "\<not> mq_full q" and v: "mq_valid q m"
    obtain n F' where F: "F = n # F'" using nf mq_alloc_none [OF at] by (cases F) (auto simp: mq_full_def)
    have b: "int (length m) \<le> msg_size q" using v by (simp add: mq_valid_def)
    show "\<exists>q'. mq_send_data q m = Some q' \<and> mq_inv q' \<and> mq_cap q' = mq_cap q \<and> mq_valid q' = mq_valid q \<and> mq_msgs q' = mq_msgs q @ [m]"
      using mq_send_at [OF at [unfolded F] b] slot_full [of q m, OF _ v]
      by (fastforce simp: mq_send_data_def same_mq_def mq_cap_def mq_valid_def intro: mq_at_inv)
    show "\<exists>q'. mq_urgent_data q m = Some q' \<and> mq_inv q' \<and> mq_cap q' = mq_cap q \<and> mq_valid q' = mq_valid q \<and> mq_msgs q' = m # mq_msgs q"
      using mq_urgent_at [OF at [unfolded F] b] slot_full [of q m, OF _ v]
      by (fastforce simp: mq_urgent_data_def same_mq_def mq_cap_def mq_valid_def intro: mq_at_inv)
  }
  fix m ms' assume mm: "mq_msgs q = m # ms'"
  then obtain n Q' where Q: "Q = n # Q'" using ms by (cases Q) auto
  have "n < nat (max_msgs q)" using at Q by (auto simp: mq_at_defs)
  then have "length (mq_data q n) = nat (msg_size q)" "mq_data q n = m" using at mm ms Q by (auto simp: mq_at_defs)
  then show "\<exists>q'. mq_recv_data q = Some (m, q') \<and> mq_inv q' \<and> mq_cap q' = mq_cap q \<and> mq_valid q' = mq_valid q \<and> mq_msgs q' = ms'"
    using mq_recv_at [OF at [unfolded Q], of "msg_size q"] mm
    by (auto simp: mq_recv_data_def same_mq_def mq_cap_def mq_valid_def mq_copy_out_def mq_release_def mq_set_next_def intro: mq_at_inv)
qed

text \<open>C12: A message queue is a bounded first-in first-out channel with urgent messages: any sequence of sends, urgent sends and
  receives of whole messages on its nodes delivers exactly what the list model delivers, and leaves what it leaves.\<close>

theorem msgqueue_fifo:
  assumes "mq_inv mq" "\<forall>m \<in> set (concat (map op_msg ops)). int (length m) = msg_size mq"
  shows "\<exists>mq'. chan_run mq_full mq_empty mq_send_data mq_urgent_data mq_recv_data ops mq =
      Some (fst (chan_spec (mq_cap mq) ops (mq_msgs mq)), mq') \<and> mq_inv mq' \<and> mq_msgs mq' = snd (chan_spec (mq_cap mq) ops (mq_msgs mq))"
  using mqc.run_refines [OF assms(1), of ops] assms(2) by (auto simp: mq_valid_def)

definition ex_mq :: rt_messagequeue where
  "ex_mq = new_msgqueue True (\<lambda>_. [0, 0]) 2 2 RT_IPC_FLAG_FIFO"

lemma ex_mq_at: "mq_at ex_mq [] [1, 0] {}"
  using new_msgqueue_at [of 2 2 "\<lambda>_. [0, 0]" True RT_IPC_FLAG_FIFO] by (simp add: ex_mq_def upt_rec)

lemma ex_mq_simps: "mq_inv ex_mq" "mq_msgs ex_mq = []" "mq_cap ex_mq = 2" "msg_size ex_mq = 2" "msg_queue_free ex_mq = Some 1"
proof -
  have "same_mq \<lparr>msg_size = 2, max_msgs = 2, mq_entry = 0, mq_next = Map.empty, mq_data = \<lambda>_. [0, 0],
       msg_queue_head = None, msg_queue_tail = None, msg_queue_free = None, mq_flag = RT_IPC_FLAG_FIFO, mq_static = True\<rparr> ex_mq"
    unfolding ex_mq_def new_msgqueue_def by (rule conjunct2 [OF mq_free_all_at]) simp_all
  then show "mq_cap ex_mq = 2" "msg_size ex_mq = 2" by (simp_all add: same_mq_def mq_cap_def)
  show "mq_inv ex_mq" "mq_msgs ex_mq = []" using ex_mq_at mq_at_inv mq_at_msgs by auto
  show "msg_queue_free ex_mq = Some 1" using ex_mq_at by (simp add: mq_at_defs)
qed

theorem msgqueue_fifo_witness:
  "\<exists>mq'. chan_run mq_full mq_empty mq_send_data mq_urgent_data mq_recv_data [CSend [1, 2], CUrgent [3, 4], CSend [5, 6], CRecv] ex_mq =
      Some ([[3, 4]], mq') \<and> mq_inv mq' \<and> mq_msgs mq' = [[1, 2]]"
  using msgqueue_fifo [OF ex_mq_simps(1), of "[CSend [1, 2], CUrgent [3, 4], CSend [5, 6], CRecv]"] by (simp add: ex_mq_simps)

section \<open>Queues in the kernel\<close>

definition mq_ok :: "nat \<Rightarrow> kernel \<Rightarrow> bool" where
  "mq_ok q k \<longleftrightarrow> kinv {} k \<and> (\<exists>mq. msgqueues k q = Some mq \<and> mq_inv mq)"

lemma mq_notify:
  assumes k: "kinv {} k" and cur: "rt_thread_self k = Some c" "threads k c = Some ch" "stat ch = RT_THREAD_RUNNING"
    and inv: "mq_inv mq" and l: "waitq l"
  shows "\<exists>k'. ipc_notify (k\<lparr>msgqueues := (msgqueues k)(q \<mapsto> mq)\<rparr>) l = Some k' \<and> mq_ok q k' \<and> msgqueues k' q = Some mq \<and>
    tlists k' l = tl (tlists k l)"
proof -
  let ?k = "k\<lparr>msgqueues := (msgqueues k)(q \<mapsto> mq)\<rparr>"
  have c: "rt_thread_self ?k = Some c" "threads ?k c = Some ch" using cur by (simp_all add: rt_thread_self_def rt_cpu_self_def)
  obtain k' where k': "ipc_notify ?k l = Some k'" "woken ?k l k'"
    using ipc_notify_ok [of ?k, OF _ l c cur(3)] k by auto
  then have "kinv {} k'" "msgqueues k' q = Some mq" "tlists k' l = tl (tlists k l)" by (simp_all add: woken_def same_objs_def)
  then show ?thesis using k' inv by (auto simp: mq_ok_def)
qed

text \<open>Sending to a message queue: a message longer than the slots is refused; with a free node the message is queued behind the
  others, in a slot that begins with its bytes, and the first waiting receiver is resumed; a full queue refuses or makes the
  caller wait on the list of senders.\<close>

lemma mq_send_spec:
  assumes ok: "mq_ok q k" and mq: "msgqueues k q = Some mq" and cur: "can_block k c ch" and n: "timeout < half" and b: "b \<noteq> []"
  shows "if msg_size mq < int (length b) then rt_mq_send_wait k q b timeout = Some (Done (- RT_ERROR), k)
    else if length (mq_msgs mq) < mq_cap mq then
      (\<exists>k' mq' s. rt_mq_send_wait k q b timeout = Some (Done RT_EOK, k') \<and> mq_ok q k' \<and> msgqueues k' q = Some mq' \<and>
         mq_msgs mq' = mq_msgs mq @ [s] \<and> take (length b) s = b \<and> tlists k' (MqRecvQ q) = tl (tlists k (MqRecvQ q)))
    else if timeout = 0 then rt_mq_send_wait k q b timeout = Some (Done (- RT_EFULL), k)
    else (\<exists>k' h. rt_mq_send_wait k q b timeout = Some (Blocked, k') \<and> mq_ok q k' \<and> msgqueues k' q = Some mq \<and>
      tlists k' (MqSendQ q) = wait_insert k (mq_flag mq) c (tlists k (MqSendQ q)) \<and> threads k' c = Some h \<and> stat h = RT_THREAD_SUSPEND)"
proof (cases "msg_size mq < int (length b)")
  case True
  then show ?thesis using mq b can_block_available [OF cur] by (simp add: rt_mq_send_wait_def)
next
  case small: False
  note B = cur [unfolded can_block_def]
  have k: "kinv {} k" "mq_inv mq" using ok mq by (auto simp: mq_ok_def)
  note av = can_block_available [OF cur, of "timeout \<noteq> 0"]
  obtain Q F where at: "mq_at mq Q F {}" using k(2) by (auto simp: mq_inv_def)
  have full: "F = [] \<longleftrightarrow> \<not> length (mq_msgs mq) < mq_cap mq" using mq_at_cap [OF at] mq_at_msgs [OF at] by (cases F) auto
  show ?thesis
  proof (cases F)
    case (Cons n F')
    obtain mq1 mq2 s where 1: "mq_alloc mq = Some (n, mq1)" "mq_link (mq_fill mq1 n b) n = (True, mq2)" "mq_at mq2 (Q @ [n]) F' {}"
        "mq_msgs mq2 = mq_msgs mq @ [s]" "slot_of mq b s"
      using mq_send_at [OF at [unfolded Cons], of b] small by auto
    obtain k' where k': "ipc_notify (k\<lparr>msgqueues := (msgqueues k)(q \<mapsto> mq2)\<rparr>) (MqRecvQ q) = Some k'" "mq_ok q k'" "msgqueues k' q = Some mq2"
        "tlists k' (MqRecvQ q) = tl (tlists k (MqRecvQ q))"
      using mq_notify [OF k(1), of c ch mq2 "MqRecvQ q" q] B mq_at_inv [OF 1(3)] by auto
    have "msg_queue_free mq \<noteq> None" using mq_alloc_none [OF at] Cons by simp
    then have "rt_mq_send_wait k q b timeout = Some (Done RT_EOK, k')"
      using mq av b small 1(1,2) k'(1) by (auto simp: rt_mq_send_wait_def mq_send_try_def)
    then show ?thesis using small Cons full k' 1(4,5) by (auto simp: slot_of_def)
  next
    case Nil
    have nf: "msg_queue_free mq = None" "mq_alloc mq = None" using mq_alloc_none [OF at] Nil by (simp_all add: mq_alloc_def)
    show ?thesis
    proof (cases "timeout = 0")
      case True
      then show ?thesis using small Nil full mq av b nf by (simp add: rt_mq_send_wait_def)
    next
      case wait: False
      obtain k1 k' h where k': "upd_thread k c (error_update (\<lambda>_. RT_EOK)) = Some k1"
          "ipc_wait k1 c (MqSendQ q) (mq_flag mq) timeout = Some (Blocked :: int call, k')" "kinv {} k'" "same_objs k k'"
          "threads k' c = Some h" "stat h = RT_THREAD_SUSPEND" "tlists k' (MqSendQ q) = wait_insert k (mq_flag mq) c (tlists k (MqSendQ q))"
        using ipc_block_ok [OF k(1) cur waitq_simps(7) n] by blast
      have "rt_mq_send_wait k q b timeout = Some (Blocked, k')"
        using mq av b small nf wait B k'(1,2) by (simp add: rt_mq_send_wait_def mq_send_try_def)
      moreover have "msgqueues k' q = Some mq" using k'(4) mq by (simp add: same_objs_def)
      ultimately show ?thesis using small Nil full wait k'(3,5-7) k(2) by (auto simp: mq_ok_def)
    qed
  qed
qed

text \<open>Receiving from a message queue: the oldest message is delivered, cut to the caller's buffer, its node is free again and the first
  waiting sender is resumed; an empty queue reports the timeout or makes the caller wait on the list of receivers.\<close>

lemma mq_recv_spec:
  assumes ok: "mq_ok q k" and mq: "msgqueues k q = Some mq" and cur: "can_block k c ch" and n: "timeout < half" and sz: "0 < sz"
  shows "case mq_msgs mq of
      s # ss \<Rightarrow> (\<exists>k' mq'. rt_mq_recv k q sz timeout = Some (Done (RT_EOK, Some (take (nat (min sz (msg_size mq))) s)), k') \<and> mq_ok q k' \<and>
         msgqueues k' q = Some mq' \<and> mq_msgs mq' = ss \<and> tlists k' (MqSendQ q) = tl (tlists k (MqSendQ q)))
    | [] \<Rightarrow> (if timeout = 0 then rt_mq_recv k q sz timeout = Some (Done (- RT_ETIMEOUT, None), k)
      else (\<exists>k' h. rt_mq_recv k q sz timeout = Some (Blocked, k') \<and> mq_ok q k' \<and> msgqueues k' q = Some mq \<and>
        tlists k' (MqRecvQ q) = wait_insert k (mq_flag mq) c (tlists k (MqRecvQ q)) \<and> threads k' c = Some h \<and> stat h = RT_THREAD_SUSPEND))"
proof -
  note B = cur [unfolded can_block_def]
  have k: "kinv {} k" "mq_inv mq" using ok mq by (auto simp: mq_ok_def)
  note av = can_block_available [OF cur, of "timeout \<noteq> 0"]
  obtain Q F where at: "mq_at mq Q F {}" using k(2) by (auto simp: mq_inv_def)
  note e = mq_at_empty [OF at] and ms = mq_at_msgs [OF at]
  show ?thesis
  proof (cases Q)
    case (Cons n Q')
    obtain mq1 where 1: "mq_unlink mq = Some (n, mq1)" "mq_at (mq_release mq1 n) Q' (n # F) {}"
        "mq_msgs mq = mq_data mq n # mq_msgs (mq_release mq1 n)"
        "mq_copy_out mq1 n sz = take (nat (if sz > msg_size mq then msg_size mq else sz)) (mq_data mq n)"
      using mq_recv_at [OF at [unfolded Cons], of sz] by auto
    obtain k' where k': "ipc_notify (k\<lparr>msgqueues := (msgqueues k)(q \<mapsto> mq_release mq1 n)\<rparr>) (MqSendQ q) = Some k'" "mq_ok q k'"
        "msgqueues k' q = Some (mq_release mq1 n)" "tlists k' (MqSendQ q) = tl (tlists k (MqSendQ q))"
      using mq_notify [OF k(1), of c ch "mq_release mq1 n" "MqSendQ q" q] B mq_at_inv [OF 1(2)] by auto
    have m: "(if sz > msg_size mq then msg_size mq else sz) = min sz (msg_size mq)" by (simp add: min_def)
    have "rt_mq_recv k q sz timeout = Some (Done (RT_EOK, Some (mq_copy_out mq1 n sz)), k')"
      using mq av sz e Cons 1(1) k'(1) by (simp add: rt_mq_recv_def mq_recv_try_def)
    then show ?thesis using 1(3,4) k' unfolding m by simp
  next
    case Nil
    show ?thesis
    proof (cases "timeout = 0")
      case True
      then show ?thesis using Nil e ms mq av sz by (simp add: rt_mq_recv_def)
    next
      case wait: False
      obtain k1 k' h where k': "upd_thread k c (error_update (\<lambda>_. RT_EOK)) = Some k1"
          "ipc_wait k1 c (MqRecvQ q) (mq_flag mq) timeout = Some (Blocked :: (int \<times> byte list option) call, k')" "kinv {} k'" "same_objs k k'"
          "threads k' c = Some h" "stat h = RT_THREAD_SUSPEND" "tlists k' (MqRecvQ q) = wait_insert k (mq_flag mq) c (tlists k (MqRecvQ q))"
        using ipc_block_ok [OF k(1) cur waitq_simps(6) n] by blast
      have "rt_mq_recv k q sz timeout = Some (Blocked, k')"
        using mq av sz Nil e wait B k'(1,2) by (simp add: rt_mq_recv_def mq_recv_try_def)
      moreover have "msgqueues k' q = Some mq" using k'(4) mq by (simp add: same_objs_def)
      ultimately show ?thesis using Nil ms wait k'(3,5-7) k(2) by (auto simp: mq_ok_def)
    qed
  qed
qed

lemma ex_mq_kernel:
  assumes "waitq l"
  shows "mq_ok 0 ((ex_waiting 0 l)\<lparr>msgqueues := [0 \<mapsto> ex_mq]\<rparr>)"
    "can_block ((ex_waiting 0 l)\<lparr>msgqueues := [0 \<mapsto> ex_mq]\<rparr>) 1 (ex_thread RT_THREAD_RUNNING 10 2 0)"
proof -
  show "mq_ok 0 ((ex_waiting 0 l)\<lparr>msgqueues := [0 \<mapsto> ex_mq]\<rparr>)" using ex_waiting_kinv [OF assms] ex_mq_simps(1) by (simp add: mq_ok_def)
  show "can_block ((ex_waiting 0 l)\<lparr>msgqueues := [0 \<mapsto> ex_mq]\<rparr>) 1 (ex_thread RT_THREAD_RUNNING 10 2 0)"
    using ex_can_block by (simp add: can_block_def eligible_def rt_thread_self_def rt_cpu_self_def ex_waiting_def)
qed

lemma mq_send_spec_example:
  "\<exists>k' mq' s. rt_mq_send_wait ((ex_waiting 0 (MqRecvQ 0))\<lparr>msgqueues := [0 \<mapsto> ex_mq]\<rparr>) 0 [9] 5 = Some (Done RT_EOK, k') \<and> mq_ok 0 k' \<and>
    msgqueues k' 0 = Some mq' \<and> mq_msgs mq' = [s] \<and> take 1 s = [9] \<and> tlists k' (MqRecvQ 0) = []"
proof -
  let ?k = "(ex_waiting 0 (MqRecvQ 0))\<lparr>msgqueues := [0 \<mapsto> ex_mq]\<rparr>"
  have m: "msgqueues ?k 0 = Some ex_mq" and q: "tlists ?k (MqRecvQ 0) = [4]" by (simp_all add: ex_waiting_self)
  have h: "5 < half" by (simp add: half_def)
  show ?thesis using mq_send_spec [OF ex_mq_kernel(1) m ex_mq_kernel(2) h, of "[9]"] q by (simp add: ex_mq_simps)
qed

lemma mq_recv_spec_example:
  "\<exists>k' h. rt_mq_recv ((ex_waiting 0 (MqSendQ 0))\<lparr>msgqueues := [0 \<mapsto> ex_mq]\<rparr>) 0 2 5 = Some (Blocked, k') \<and> mq_ok 0 k' \<and>
    threads k' 1 = Some h \<and> stat h = RT_THREAD_SUSPEND"
proof -
  let ?k = "(ex_waiting 0 (MqSendQ 0))\<lparr>msgqueues := [0 \<mapsto> ex_mq]\<rparr>"
  have m: "msgqueues ?k 0 = Some ex_mq" by simp
  have h: "5 < half" by (simp add: half_def)
  show ?thesis using mq_recv_spec [OF ex_mq_kernel(1) m ex_mq_kernel(2) h, of 2] by (auto simp: ex_mq_simps)
qed

section \<open>Copying outside of the critical section\<close>

text \<open>
  Senders and receivers interleaved: what each has in its hands, and the messages that
  are in the queue. A sender takes a node, fills it, links it; a receiver takes the first message's node, copies
  it out, frees the node. Between any two of these steps others may do theirs.
\<close>

datatype phase = Allocated | Written bool "byte list"

type_synonym mq_state = "rt_messagequeue \<times> (nat \<rightharpoonup> phase) \<times> (nat \<rightharpoonup> byte list) \<times> byte list list"

inductive mq_step :: "mq_state \<Rightarrow> mq_state \<Rightarrow> bool" where
  alloc: "mq_alloc mq = Some (n, mq') \<Longrightarrow> mq_step (mq, wr, rd, C) (mq', wr(n \<mapsto> Allocated), rd, C)"
| fill: "wr n = Some Allocated \<Longrightarrow> int (length b) \<le> msg_size mq \<Longrightarrow>
    mq_step (mq, wr, rd, C) (mq_fill mq n b, wr(n \<mapsto> Written False (b @ drop (length b) (mq_data mq n))), rd, C)"
| fill_urgent: "wr n = Some Allocated \<Longrightarrow> int (length b) \<le> msg_size mq \<Longrightarrow>
    mq_step (mq, wr, rd, C) (mq_copy_in mq n b, wr(n \<mapsto> Written True (b @ drop (length b) (mq_data mq n))), rd, C)"
| link: "wr n = Some (Written False m) \<Longrightarrow> mq_link mq n = (ok, mq') \<Longrightarrow> mq_step (mq, wr, rd, C) (mq', wr(n := None), rd, C @ [m])"
| link_urgent: "wr n = Some (Written True m) \<Longrightarrow> mq_link_urgent mq n = (ok, mq') \<Longrightarrow>
    mq_step (mq, wr, rd, C) (mq', wr(n := None), rd, m # C)"
| unlink: "mq_entry mq \<noteq> 0 \<Longrightarrow> mq_unlink mq = Some (n, mq') \<Longrightarrow> mq_step (mq, wr, rd, C) (mq', wr, rd(n \<mapsto> hd C), tl C)"
| release: "rd n = Some m \<Longrightarrow> mq_step (mq, wr, rd, C) (mq_release mq n, wr, rd(n := None), C)"

fun mq_safe :: "mq_state \<Rightarrow> bool" where
  "mq_safe (mq, wr, rd, C) \<longleftrightarrow> (\<exists>Q F. mq_at mq Q F (dom wr \<union> dom rd) \<and> dom wr \<inter> dom rd = {} \<and> map (mq_data mq) Q = C \<and>
     (\<forall>n m. rd n = Some m \<longrightarrow> mq_data mq n = m) \<and>
     (\<forall>n u m. wr n = Some (Written u m) \<longrightarrow> mq_data mq n = m \<and> (\<not> u \<longrightarrow> mq_next mq n = None)))"

lemma mq_safeI:
  assumes "mq_at mq Q F X" "X = dom wr \<union> dom rd" "dom wr \<inter> dom rd = {}" "map (mq_data mq) Q = C"
    "\<And>n m. rd n = Some m \<Longrightarrow> mq_data mq n = m"
    "\<And>n u m. wr n = Some (Written u m) \<Longrightarrow> mq_data mq n = m \<and> (\<not> u \<longrightarrow> mq_next mq n = None)"
  shows "mq_safe (mq, wr, rd, C)"
  using assms by auto

lemma mq_safeE:
  assumes "mq_safe (mq, wr, rd, C)"
  obtains Q F where "mq_at mq Q F (dom wr \<union> dom rd)" "dom wr \<inter> dom rd = {}" "map (mq_data mq) Q = C"
    "\<forall>n m. rd n = Some m \<longrightarrow> mq_data mq n = m"
    "\<forall>n u m. wr n = Some (Written u m) \<longrightarrow> mq_data mq n = m \<and> (\<not> u \<longrightarrow> mq_next mq n = None)"
  using assms by auto

text \<open>A node in somebody's hands is in neither list.\<close>

lemma mq_at_hands: "mq_at mq Q F X \<Longrightarrow> n \<in> X \<Longrightarrow> n \<notin> set Q \<and> n \<notin> set F"
  by (auto simp: mq_at_defs)

lemma safe_alloc:
  assumes s: "mq_safe (mq, wr, rd, C)" and a: "mq_alloc mq = Some (n, mq')"
  shows "mq_safe (mq', wr(n \<mapsto> Allocated), rd, C)"
proof -
  obtain Q F where S: "mq_at mq Q F (dom wr \<union> dom rd)" "dom wr \<inter> dom rd = {}" "map (mq_data mq) Q = C"
      "\<forall>n m. rd n = Some m \<longrightarrow> mq_data mq n = m"
      "\<forall>n u m. wr n = Some (Written u m) \<longrightarrow> mq_data mq n = m \<and> (\<not> u \<longrightarrow> mq_next mq n = None)"
    by (rule mq_safeE [OF s])
  obtain F' where F: "F = n # F'" using S(1) a by (cases F) (auto simp: mq_alloc_def mq_at_defs)
  have at: "mq_at mq' Q F' (insert n (dom wr \<union> dom rd))" and d: "mq_data mq' = mq_data mq"
    using mq_alloc_at [OF S(1) [unfolded F]] a by auto
  have nx: "mq_next mq' = mq_next mq" using a by (auto simp: mq_alloc_def split: option.splits)
  have n: "n \<notin> dom wr \<union> dom rd" using S(1) F by (auto simp: mq_at_defs)
  show ?thesis by (rule mq_safeI [OF at]) (use S n in \<open>auto simp: d nx split: if_splits\<close>)
qed

lemma safe_write:
  assumes s: "mq_safe (mq, wr, rd, C)" and w: "wr n = Some Allocated" and b: "int (length b) \<le> msg_size mq"
  shows "mq_safe (mq_fill mq n b, wr(n \<mapsto> Written False (b @ drop (length b) (mq_data mq n))), rd, C)"
    "mq_safe (mq_copy_in mq n b, wr(n \<mapsto> Written True (b @ drop (length b) (mq_data mq n))), rd, C)"
proof -
  obtain Q F where S: "mq_at mq Q F (dom wr \<union> dom rd)" "dom wr \<inter> dom rd = {}" "map (mq_data mq) Q = C"
      "\<forall>n m. rd n = Some m \<longrightarrow> mq_data mq n = m"
      "\<forall>n u m. wr n = Some (Written u m) \<longrightarrow> mq_data mq n = m \<and> (\<not> u \<longrightarrow> mq_next mq n = None)"
    by (rule mq_safeE [OF s])
  have n: "n \<in> dom wr \<union> dom rd" "rd n = None" using w S(2) by auto
  have nq: "n \<notin> set Q" using mq_at_hands [OF S(1) n(1)] by simp
  note f = mq_fill_at [OF S(1) n(1) b] and c = mq_copy_in_at [OF S(1) n(1) b]
  have nx: "mq_next (mq_fill mq n b) x = mq_next mq x" if "x \<noteq> n" for x
    using that by (simp add: mq_fill_def mq_copy_in_def mq_set_next_def)
  have nx2: "mq_next (mq_copy_in mq n b) = mq_next mq" by (simp add: mq_copy_in_def)
  show "mq_safe (mq_fill mq n b, wr(n \<mapsto> Written False (b @ drop (length b) (mq_data mq n))), rd, C)"
    by (rule mq_safeI [OF f(1)]) (use S n nq w in \<open>auto simp: f(3,4) nx split: if_splits\<close>)
  show "mq_safe (mq_copy_in mq n b, wr(n \<mapsto> Written True (b @ drop (length b) (mq_data mq n))), rd, C)"
    by (rule mq_safeI [OF c(1)]) (use S n nq w in \<open>auto simp: c(3) nx2 split: if_splits\<close>)
qed

lemma safe_link:
  assumes s: "mq_safe (mq, wr, rd, C)" and w: "wr n = Some (Written False m)"
  shows "\<exists>mq'. mq_link mq n = (True, mq') \<and> mq_safe (mq', wr(n := None), rd, C @ [m])"
proof -
  obtain Q F where S: "mq_at mq Q F (dom wr \<union> dom rd)" "dom wr \<inter> dom rd = {}" "map (mq_data mq) Q = C"
      "\<forall>n m. rd n = Some m \<longrightarrow> mq_data mq n = m"
      "\<forall>n u m. wr n = Some (Written u m) \<longrightarrow> mq_data mq n = m \<and> (\<not> u \<longrightarrow> mq_next mq n = None)"
    by (rule mq_safeE [OF s])
  have n: "n \<in> dom wr \<union> dom rd" "n \<notin> dom rd" "mq_next mq n = None" "mq_data mq n = m" using w S(2) S(5) [rule_format, OF w] by auto
  obtain mq' where 1: "mq_link mq n = (True, mq')" "mq_at mq' (Q @ [n]) F (dom wr \<union> dom rd - {n})" "mq_data mq' = mq_data mq"
      "\<forall>x \<in> dom wr \<union> dom rd - {n}. mq_next mq' x = mq_next mq x"
    using mq_link_at [OF S(1) n(1,3)] by auto
  have "mq_safe (mq', wr(n := None), rd, C @ [m])"
    by (rule mq_safeI [OF 1(2)]) (use S n in \<open>auto simp: 1(3) 1(4) [rule_format] domIff split: if_splits\<close>)
  then show ?thesis using 1(1) by blast
qed

lemma safe_link_urgent:
  assumes s: "mq_safe (mq, wr, rd, C)" and w: "wr n = Some (Written True m)"
  shows "\<exists>mq'. mq_link_urgent mq n = (True, mq') \<and> mq_safe (mq', wr(n := None), rd, m # C)"
proof -
  obtain Q F where S: "mq_at mq Q F (dom wr \<union> dom rd)" "dom wr \<inter> dom rd = {}" "map (mq_data mq) Q = C"
      "\<forall>n m. rd n = Some m \<longrightarrow> mq_data mq n = m"
      "\<forall>n u m. wr n = Some (Written u m) \<longrightarrow> mq_data mq n = m \<and> (\<not> u \<longrightarrow> mq_next mq n = None)"
    by (rule mq_safeE [OF s])
  have n: "n \<in> dom wr \<union> dom rd" "n \<notin> dom rd" "mq_data mq n = m" using w S(2) S(5) [rule_format, OF w] by auto
  obtain mq' where 1: "mq_link_urgent mq n = (True, mq')" "mq_at mq' (n # Q) F (dom wr \<union> dom rd - {n})" "mq_data mq' = mq_data mq"
      "\<forall>x \<in> dom wr \<union> dom rd - {n}. mq_next mq' x = mq_next mq x"
    using mq_link_urgent_at [OF S(1) n(1)] by auto
  have "mq_safe (mq', wr(n := None), rd, m # C)"
    by (rule mq_safeI [OF 1(2)]) (use S n in \<open>auto simp: 1(3) 1(4) [rule_format] domIff split: if_splits\<close>)
  then show ?thesis using 1(1) by blast
qed

lemma safe_unlink:
  assumes s: "mq_safe (mq, wr, rd, C)" and e: "mq_entry mq \<noteq> 0" and u: "mq_unlink mq = Some (n, mq')"
  shows "mq_safe (mq', wr, rd(n \<mapsto> hd C), tl C)"
proof -
  obtain Q F where S: "mq_at mq Q F (dom wr \<union> dom rd)" "dom wr \<inter> dom rd = {}" "map (mq_data mq) Q = C"
      "\<forall>n m. rd n = Some m \<longrightarrow> mq_data mq n = m"
      "\<forall>n u m. wr n = Some (Written u m) \<longrightarrow> mq_data mq n = m \<and> (\<not> u \<longrightarrow> mq_next mq n = None)"
    by (rule mq_safeE [OF s])
  obtain x Q' where Q: "Q = x # Q'" using mq_at_empty [OF S(1)] e by (cases Q) auto
  have 1: "x = n" "mq_at mq' Q' F (insert n (dom wr \<union> dom rd))" "mq_data mq' = mq_data mq"
    using mq_unlink_at [OF S(1) [unfolded Q]] u by auto
  have nx: "mq_next mq' = mq_next mq" using u by (auto simp: mq_unlink_def Let_def split: option.splits)
  have n: "n \<notin> dom wr \<union> dom rd" using S(1) Q 1(1) by (auto simp: mq_at_defs)
  show ?thesis by (rule mq_safeI [OF 1(2)]) (use S n Q 1(1) in \<open>auto simp: 1(3) nx split: if_splits\<close>)
qed

lemma safe_release:
  assumes s: "mq_safe (mq, wr, rd, C)" and r: "rd n = Some m"
  shows "mq_safe (mq_release mq n, wr, rd(n := None), C)"
proof -
  obtain Q F where S: "mq_at mq Q F (dom wr \<union> dom rd)" "dom wr \<inter> dom rd = {}" "map (mq_data mq) Q = C"
      "\<forall>n m. rd n = Some m \<longrightarrow> mq_data mq n = m"
      "\<forall>n u m. wr n = Some (Written u m) \<longrightarrow> mq_data mq n = m \<and> (\<not> u \<longrightarrow> mq_next mq n = None)"
    by (rule mq_safeE [OF s])
  have n: "n \<in> dom wr \<union> dom rd" "n \<notin> dom wr" using r S(2) by auto
  have at: "mq_at (mq_release mq n) Q (n # F) (dom wr \<union> dom rd - {n})" by (rule mq_release_at [OF S(1) n(1)])
  have nx: "mq_next (mq_release mq n) x = mq_next mq x" if "wr x = Some y" for x y
    using that n(2) by (auto simp: mq_release_def mq_set_next_def)
  show ?thesis
    by (rule mq_safeI [OF at]) (use S n in \<open>auto simp: mq_release_same nx domIff split: if_splits\<close>)
qed

lemma mq_step_safe:
  assumes "mq_step x y" "mq_safe x"
  shows "mq_safe y"
  using assms
proof (cases rule: mq_step.cases)
  case (link wr n m mq ok mq' rd C)
  then show ?thesis using safe_link [of mq wr rd C n m] assms(2) by auto
next
  case (link_urgent wr n m mq ok mq' rd C)
  then show ?thesis using safe_link_urgent [of mq wr rd C n m] assms(2) by auto
qed (use assms(2) in \<open>auto simp del: mq_safe.simps intro: safe_alloc safe_write safe_unlink safe_release\<close>)

lemma mq_steps_safe: "mq_step\<^sup>*\<^sup>* x y \<Longrightarrow> mq_safe x \<Longrightarrow> mq_safe y"
  by (induction rule: rtranclp_induct) (auto simp del: mq_safe.simps intro: mq_step_safe)

text \<open>C6: Message queues under interleaving. However the steps of senders and receivers interleave, starting from a new queue: every node is in
  exactly one of the queue, the free list and the hands of one thread; the queue holds the messages in the order in which they
  were linked; and what a receiver copies out is the whole message it took, although it copies outside of the critical section.\<close>

theorem mq_interleaving:
  assumes "mq_step\<^sup>*\<^sup>* (new_msgqueue static mem0 sz mx flag, Map.empty, Map.empty, []) (mq, wr, rd, C)"
    and "0 \<le> sz" "0 \<le> mx" "mx \<le> 65535" "\<forall>n < nat mx. length (mem0 n) = nat sz"
  shows "(\<exists>Q F. mq_at mq Q F (dom wr \<union> dom rd) \<and> map (mq_data mq) Q = C) \<and> dom wr \<inter> dom rd = {} \<and>
    mq_entry mq = int (length C) \<and> (\<forall>n m. rd n = Some m \<longrightarrow> mq_copy_out mq n (msg_size mq) = m)"
proof -
  let ?i = "(new_msgqueue static mem0 sz mx flag, Map.empty, Map.empty, []) :: mq_state"
  have "mq_safe ?i" using new_msgqueue_at [OF assms(2-5)] by auto
  then have "mq_safe (mq, wr, rd, C)" by (rule mq_steps_safe [OF assms(1)])
  then obtain Q F where S: "mq_at mq Q F (dom wr \<union> dom rd)" "dom wr \<inter> dom rd = {}" "map (mq_data mq) Q = C"
      "\<forall>n m. rd n = Some m \<longrightarrow> mq_data mq n = m"
    by (rule mq_safeE)
  have "mq_copy_out mq n (msg_size mq) = m" if r: "rd n = Some m" for n m
  proof -
    have "n < nat (max_msgs mq)" using S(1) r by (auto simp: mq_at_defs)
    then have "length (mq_data mq n) = nat (msg_size mq)" using S(1) by (simp add: mq_at_defs)
    then show ?thesis using S(4) r by (simp add: mq_copy_out_def)
  qed
  then show ?thesis using S by (auto simp: mq_at_def)
qed

theorem mq_interleaving_witness:
  "\<exists>mq wr rd. mq_step\<^sup>*\<^sup>* (ex_mq, Map.empty, Map.empty, []) (mq, wr, rd, []) \<and> dom wr = {1} \<and> mq_entry mq = 0 \<and> dom wr \<inter> dom rd = {}"
proof -
  obtain mq' where a: "mq_alloc ex_mq = Some (1, mq')" using ex_mq_simps(5) by (auto simp: mq_alloc_def)
  have st: "mq_step\<^sup>*\<^sup>* (ex_mq, Map.empty, Map.empty, []) (mq', [1 \<mapsto> Allocated], Map.empty, [])"
    by (rule r_into_rtranclp) (rule alloc [OF a])
  show ?thesis
    using mq_interleaving [OF st [unfolded ex_mq_def]] st
    by (intro exI [of _ mq'] exI [of _ "[1 \<mapsto> Allocated]"] exI [of _ Map.empty]) simp
qed

end
