(* ===== verification/Event.thy ===== *)
theory Event
  imports Ipc
begin

unbundle bit_operations_syntax

text \<open>
  Event sets, after \<^verbatim>\<open>rt-thread/src/ipc.c\<close>: 32 flags that senders raise and receivers wait for, all of a
  set or any of it, clearing what they received or not. Sending goes through the waiting
  threads in order and resumes each one whose request is met by the flags left at that point.
\<close>

section \<open>Operations\<close>

definition RT_EVENT_FLAG_AND :: int where "RT_EVENT_FLAG_AND = 1"
definition RT_EVENT_FLAG_OR :: int where "RT_EVENT_FLAG_OR = 2"
definition RT_EVENT_FLAG_CLEAR :: int where "RT_EVENT_FLAG_CLEAR = 4"

abbreviation has_flag :: "int \<Rightarrow> int \<Rightarrow> bool" where "has_flag opt f \<equiv> opt AND f \<noteq> 0"

definition rt_event_init :: "kernel \<Rightarrow> nat \<Rightarrow> ipc_flag \<Rightarrow> kernel" where
  "rt_event_init k e flag = k\<lparr>events := (events k)(e \<mapsto> \<lparr>ev_set = 0, ev_flag = flag, ev_static = True\<rparr>),
     tlists := (tlists k)(EventQ e := [])\<rparr>"

definition rt_event_detach :: "kernel \<Rightarrow> nat \<Rightarrow> kernel option" where
  "rt_event_detach k e = do {
     ev \<leftarrow> events k e;
     RT_ASSERT (ev_static ev);
     k1 \<leftarrow> ipc_list_resume_all (EventQ e) k;
     Some (k1\<lparr>events := (events k1)(e := None)\<rparr>)
   }"

definition rt_event_create :: "bool \<Rightarrow> kernel \<Rightarrow> nat \<Rightarrow> ipc_flag \<Rightarrow> (nat option \<times> kernel) option" where
  "rt_event_create object_ok k e flag = do {
     RT_DEBUG_NOT_IN_INTERRUPT k;
     Some (if \<not> object_ok then (None, k)
       else (Some e, k\<lparr>events := (events k)(e \<mapsto> \<lparr>ev_set = 0, ev_flag = flag, ev_static = False\<rparr>),
                       tlists := (tlists k)(EventQ e := [])\<rparr>))
   }"

definition rt_event_delete :: "kernel \<Rightarrow> nat \<Rightarrow> kernel option" where
  "rt_event_delete k e = do {
     ev \<leftarrow> events k e;
     RT_ASSERT (\<not> ev_static ev);
     RT_DEBUG_NOT_IN_INTERRUPT k;
     k1 \<leftarrow> ipc_list_resume_all (EventQ e) k;
     Some (k1\<lparr>events := (events k1)(e := None)\<rparr>)
   }"

text \<open>
  The part of the loop of \<^verbatim>\<open>rt_event_send\<close> for a thread whose request is met: \<open>got\<close> is its
  \<^verbatim>\<open>event_set\<close> at that point, which is also what it clears.
\<close>

definition event_give :: "kernel \<Rightarrow> nat \<Rightarrow> tid \<Rightarrow> int \<Rightarrow> kernel option" where
  "event_give k e t got = do {
     ev \<leftarrow> events k e;
     k1 \<leftarrow> upd_thread k t (event_set_update (\<lambda>_. got));
     th \<leftarrow> threads k1 t;
     let k2 = (if has_flag (event_info th) RT_EVENT_FLAG_CLEAR
               then k1\<lparr>events := (events k1)(e \<mapsto> ev\<lparr>ev_set := ev_set ev AND NOT (event_set th)\<rparr>)\<rparr> else k1);
     (r, k3) \<leftarrow> rt_thread_resume k2 t;
     Some k3
   }"

text \<open>
  The loop: the next node is read before a thread is resumed, so it visits the threads
  that were on the list at the start. The result is the error code, whether to schedule, and
  the state.
\<close>

fun event_send_loop :: "nat \<Rightarrow> tid list \<Rightarrow> bool \<Rightarrow> kernel \<Rightarrow> (int \<times> bool \<times> kernel) option" where
  "event_send_loop e [] need k = Some (RT_EOK, need, k)"
| "event_send_loop e (t # ts) need k = do {
     ev \<leftarrow> events k e;
     th \<leftarrow> threads k t;
     (if has_flag (event_info th) RT_EVENT_FLAG_AND then
        (if event_set th AND ev_set ev = event_set th
         then do { k1 \<leftarrow> event_give k e t (event_set th); event_send_loop e ts True k1 }
         else event_send_loop e ts need k)
      else if has_flag (event_info th) RT_EVENT_FLAG_OR then
        (if event_set th AND ev_set ev \<noteq> 0
         then do { k1 \<leftarrow> event_give k e t (event_set th AND ev_set ev); event_send_loop e ts True k1 }
         else event_send_loop e ts need k)
      else Some (- RT_EINVAL, need, k))
   }"

definition rt_event_send :: "kernel \<Rightarrow> nat \<Rightarrow> int \<Rightarrow> (int \<times> kernel) option" where
  "rt_event_send k e S = do {
     ev \<leftarrow> events k e;
     (if S = 0 then Some (- RT_ERROR, k)
      else do {
        let k1 = k\<lparr>events := (events k)(e \<mapsto> ev\<lparr>ev_set := ev_set ev OR S\<rparr>)\<rparr>;
        (r, need, k2) \<leftarrow> event_send_loop e (tlists k1 (EventQ e)) False k1;
        (if r \<noteq> RT_EOK then Some (r, k2)
         else if need then do { k3 \<leftarrow> rt_schedule k2; Some (RT_EOK, k3) }
         else Some (RT_EOK, k2))
      })
   }"

text \<open>The result is the error code and what is stored through \<^verbatim>\<open>recved\<close>.\<close>

definition rt_event_recv :: "kernel \<Rightarrow> nat \<Rightarrow> int \<Rightarrow> int \<Rightarrow> int \<Rightarrow> ((int \<times> int option) call \<times> kernel) option" where
  "rt_event_recv k e S opt timeout = do {
     ev \<leftarrow> events k e;
     RT_DEBUG_SCHEDULER_AVAILABLE k True;
     (if S = 0 then Some (Done (- RT_ERROR, None), k)
      else do {
        t \<leftarrow> rt_thread_self k;
        k1 \<leftarrow> upd_thread k t (error_update (\<lambda>_. RT_EOK));
        RT_ASSERT (has_flag opt RT_EVENT_FLAG_AND \<or> has_flag opt RT_EVENT_FLAG_OR);
        (if (if has_flag opt RT_EVENT_FLAG_AND then ev_set ev AND S = S else ev_set ev AND S \<noteq> 0)
         then do {
           k2 \<leftarrow> upd_thread k1 t (\<lambda>th. th\<lparr>event_set := ev_set ev AND S, event_info := opt\<rparr>);
           let k3 = (if has_flag opt RT_EVENT_FLAG_CLEAR
                     then k2\<lparr>events := (events k2)(e \<mapsto> ev\<lparr>ev_set := ev_set ev AND NOT S\<rparr>)\<rparr> else k2);
           th \<leftarrow> threads k3 t;
           Some (Done (error th, Some (ev_set ev AND S)), k3)
         }
         else if timeout = 0 then do {
           k2 \<leftarrow> upd_thread k1 t (error_update (\<lambda>_. - RT_ETIMEOUT));
           Some (Done (- RT_ETIMEOUT, None), k2)
         }
         else do {
           k2 \<leftarrow> upd_thread k1 t (\<lambda>th. th\<lparr>event_set := S, event_info := opt\<rparr>);
           ipc_wait k2 t (EventQ e) (ev_flag ev) timeout
         })
      })
   }"

definition rt_event_recv_wake :: "kernel \<Rightarrow> (int \<times> int option) option" where
  "rt_event_recv_wake k = do {
     t \<leftarrow> rt_thread_self k;
     th \<leftarrow> threads k t;
     Some (if error th \<noteq> RT_EOK then (error th, None) else (error th, Some (event_set th)))
   }"

definition rt_event_control :: "kernel \<Rightarrow> nat \<Rightarrow> bool \<Rightarrow> (int \<times> kernel) option" where
  "rt_event_control k e reset = do {
     ev \<leftarrow> events k e;
     (if \<not> reset then Some (- RT_ERROR, k)
      else do {
        k1 \<leftarrow> ipc_list_resume_all (EventQ e) k;
        let k2 = k1\<lparr>events := (events k1)(e \<mapsto> ev\<lparr>ev_set := 0\<rparr>)\<rparr>;
        k3 \<leftarrow> rt_schedule k2;
        Some (RT_EOK, k3)
      })
   }"

section \<open>Requests\<close>

text \<open>Whether a request is met by a set of flags, and what it then receives.\<close>

definition ev_sat :: "int \<Rightarrow> int \<Rightarrow> int \<Rightarrow> bool" where
  "ev_sat opt want S \<longleftrightarrow> (if has_flag opt RT_EVENT_FLAG_AND then want AND S = want else want AND S \<noteq> 0)"

definition ev_valid :: "int \<Rightarrow> bool" where
  "ev_valid opt \<longleftrightarrow> has_flag opt RT_EVENT_FLAG_AND \<or> has_flag opt RT_EVENT_FLAG_OR"

text \<open>The flags of \<open>A\<close> are among those of \<open>B\<close>.\<close>

definition flags_le :: "int \<Rightarrow> int \<Rightarrow> bool" where
  "flags_le A B \<longleftrightarrow> A AND B = A"

lemma flags_le_bits: "flags_le A B \<longleftrightarrow> (\<forall>n. bit A n \<longrightarrow> bit B n)"
  by (auto simp: flags_le_def bit_eq_iff bit_and_iff)

lemma flags_le_refl [simp]: "flags_le A A" by (simp add: flags_le_bits)
lemma flags_le_and [simp]: "flags_le (A AND B) A" "flags_le (A AND B) B" by (simp_all add: flags_le_bits bit_and_iff)
lemma flags_le_trans: "flags_le A B \<Longrightarrow> flags_le B C \<Longrightarrow> flags_le A C" by (simp add: flags_le_bits)

lemma ev_sat_mono:
  assumes "flags_le A B" "ev_sat opt want A"
  shows "ev_sat opt want B"
proof (cases "has_flag opt RT_EVENT_FLAG_AND")
  case True
  then have "flags_le want A" using assms(2) by (simp add: ev_sat_def flags_le_def)
  then show ?thesis using True flags_le_trans [OF _ assms(1)] by (simp add: ev_sat_def flags_le_def)
next
  case False
  then obtain n where "bit want n" "bit A n" using assms(2) by (auto simp: ev_sat_def bit_eq_iff bit_and_iff)
  then have "bit (want AND B) n" using assms(1) by (simp add: flags_le_bits bit_and_iff)
  then have "want AND B \<noteq> 0" by (metis bit_0_eq bot_apply bot_bool_def)
  then show ?thesis using False by (simp add: ev_sat_def)
qed

lemma ev_sat_got: "ev_sat opt want (want AND S) \<longleftrightarrow> ev_sat opt want S"
  by (simp add: ev_sat_def and.left_idem)

text \<open>
  The reference: serve a list of requests in order, each from the flags that are left. In
  both modes what a met request receives is \<open>want AND S\<close>, which is \<open>want\<close> itself in the mode for
  all flags.
\<close>

fun ev_serve :: "(tid \<Rightarrow> int \<times> int) \<Rightarrow> int \<Rightarrow> tid list \<Rightarrow> int \<times> (tid \<times> int) list" where
  "ev_serve req S [] = (S, [])"
| "ev_serve req S (t # ts) =
     (let (opt, want) = req t in
      if ev_sat opt want S then
        let (S', r) = ev_serve req (if has_flag opt RT_EVENT_FLAG_CLEAR then S AND NOT (want AND S) else S) ts in (S', (t, want AND S) # r)
      else ev_serve req S ts)"

lemma ev_serve_Cons:
  assumes "req t = (opt, want)"
  shows "ev_serve req S (t # ts) = (if ev_sat opt want S then
      (case ev_serve req (if has_flag opt RT_EVENT_FLAG_CLEAR then S AND NOT (want AND S) else S) ts of (S', r) \<Rightarrow> (S', (t, want AND S) # r))
    else ev_serve req S ts)"
  using assms by simp

lemma ev_serve_induct [consumes 1, case_names Nil Met Unmet]:
  assumes "ev_serve req S ts = (S', r)"
    and "\<And>S. P S [] S []"
    and "\<And>S t ts opt want S' r. req t = (opt, want) \<Longrightarrow> ev_sat opt want S \<Longrightarrow>
      ev_serve req (if has_flag opt RT_EVENT_FLAG_CLEAR then S AND NOT (want AND S) else S) ts = (S', r) \<Longrightarrow>
      P (if has_flag opt RT_EVENT_FLAG_CLEAR then S AND NOT (want AND S) else S) ts S' r \<Longrightarrow> P S (t # ts) S' ((t, want AND S) # r)"
    and "\<And>S t ts opt want S' r. req t = (opt, want) \<Longrightarrow> \<not> ev_sat opt want S \<Longrightarrow> ev_serve req S ts = (S', r) \<Longrightarrow>
      P S ts S' r \<Longrightarrow> P S (t # ts) S' r"
  shows "P S ts S' r"
  using assms(1)
proof (induction ts arbitrary: S S' r)
  case Nil
  then show ?case using assms(2) by simp
next
  case (Cons t ts)
  obtain opt want where q: "req t = (opt, want)" by (cases "req t")
  note e = Cons.prems [unfolded ev_serve_Cons [of req, OF q]]
  show ?case
  proof (cases "ev_sat opt want S")
    case True
    then obtain r' where r': "ev_serve req (if has_flag opt RT_EVENT_FLAG_CLEAR then S AND NOT (want AND S) else S) ts = (S', r')"
        "r = (t, want AND S) # r'"
      using e by (auto split: prod.splits)
    then show ?thesis using assms(3) [OF q True r'(1) Cons.IH [OF r'(1)]] by simp
  next
    case False
    then show ?thesis using assms(4) [OF q False _ Cons.IH] e by simp
  qed
qed

lemma ev_serve_le: "ev_serve req S ts = (S', r) \<Longrightarrow> flags_le S' S"
proof (induction rule: ev_serve_induct)
  case (Met S t ts opt want S' r)
  have "flags_le (if has_flag opt RT_EVENT_FLAG_CLEAR then S AND NOT (want AND S) else S) S" by simp
  then show ?case using Met(4) flags_le_trans by blast
qed simp_all

lemma ev_serve_sub: "ev_serve req S ts = (S', r) \<Longrightarrow> fst ` set r \<subseteq> set ts"
  by (induction rule: ev_serve_induct) auto

lemma ev_serve_map_of: "ev_serve req S ts = (S', r) \<Longrightarrow> t \<notin> set ts \<Longrightarrow> map_of r t = None"
  using ev_serve_sub by (fastforce simp: map_of_eq_None_iff)

lemma ev_serve_distinct: "ev_serve req S ts = (S', r) \<Longrightarrow> distinct ts \<Longrightarrow> distinct (map fst r)"
proof (induction rule: ev_serve_induct)
  case (Met S t ts opt want S' r)
  then show ?case using ev_serve_sub [OF Met(3)] by auto
qed auto

text \<open>Who is served gets flags that meet the request and were there; with \<^verbatim>\<open>RT_EVENT_FLAG_CLEAR\<close> they are gone afterwards.\<close>

lemma ev_serve_got:
  "ev_serve req S ts = (S', r) \<Longrightarrow> (t, got) \<in> set r \<Longrightarrow> req t = (opt, want) \<Longrightarrow>
   ev_sat opt want got \<and> flags_le got want \<and> flags_le got S \<and> (has_flag opt RT_EVENT_FLAG_CLEAR \<longrightarrow> got AND S' = 0)"
proof (induction rule: ev_serve_induct)
  case (Met S u ts opt' want' S' r)
  let ?S = "if has_flag opt' RT_EVENT_FLAG_CLEAR then S AND NOT (want' AND S) else S"
  have le: "flags_le ?S S" by simp
  show ?case
  proof (cases "(t, got) \<in> set r")
    case True
    then show ?thesis using Met le flags_le_trans by blast
  next
    case False
    then have u: "t = u" "got = want' AND S" "opt' = opt" "want' = want" using Met by auto
    have "got AND S' = 0" if "has_flag opt RT_EVENT_FLAG_CLEAR"
    proof -
      have "flags_le S' ?S" by (rule ev_serve_le [OF Met(3)])
      then show ?thesis using that by (auto simp: u(2-4) flags_le_bits bit_eq_iff bit_and_iff bit_or_iff bit_not_iff)
    qed
    then show ?thesis using u Met(2) by (simp add: ev_sat_got)
  qed
qed auto

text \<open>Who is left is not met by what is left.\<close>

lemma ev_serve_left:
  "ev_serve req S ts = (S', r) \<Longrightarrow> t \<in> set ts \<Longrightarrow> t \<notin> fst ` set r \<Longrightarrow> req t = (opt, want) \<Longrightarrow> \<not> ev_sat opt want S'"
proof (induction rule: ev_serve_induct)
  case (Unmet S u ts opt' want' S' r)
  then show ?case using ev_sat_mono [OF ev_serve_le [OF Unmet(3)]] by (cases "t = u") auto
qed auto

text \<open>If nobody clears, all whose requests are met are served.\<close>

lemma ev_serve_no_clear:
  "ev_serve req S ts = (S', r) \<Longrightarrow> \<forall>t \<in> set ts. \<not> has_flag (fst (req t)) RT_EVENT_FLAG_CLEAR \<Longrightarrow>
   S' = S \<and> map fst r = filter (\<lambda>t. ev_sat (fst (req t)) (snd (req t)) S) ts"
  by (induction rule: ev_serve_induct) auto

section \<open>The invariant\<close>

text \<open>Who waits has a valid request that the flags do not meet: no wake-up is outstanding.\<close>

definition ev_waits :: "int \<Rightarrow> rt_thread \<Rightarrow> bool" where
  "ev_waits S th \<longleftrightarrow> error th = RT_EOK \<and> ev_valid (event_info th) \<and> \<not> ev_sat (event_info th) (event_set th) S"

definition ev_ok :: "nat \<Rightarrow> kernel \<Rightarrow> bool" where
  "ev_ok e k \<longleftrightarrow> kinv {} k \<and> (\<exists>ev. events k e = Some ev \<and> 0 \<le> ev_set ev \<and> ev_set ev < 2 ^ 32 \<and>
     (\<forall>t \<in> set (tlists k (EventQ e)). \<exists>th. threads k t = Some th \<and> ev_waits (ev_set ev) th))"

lemma ev_okE:
  assumes "ev_ok e k" "events k e = Some ev"
  shows "kinv {} k" "0 \<le> ev_set ev" "ev_set ev < 2 ^ 32"
    "\<And>t. t \<in> set (tlists k (EventQ e)) \<Longrightarrow> \<exists>th. threads k t = Some th \<and> ev_waits (ev_set ev) th"
  using assms by (auto simp: ev_ok_def)

definition ev_req :: "kernel \<Rightarrow> tid \<Rightarrow> int \<times> int" where
  "ev_req k t = (case threads k t of None \<Rightarrow> (0, 0) | Some th \<Rightarrow> (event_info th, event_set th))"

lemma ev_req_Some: "threads k t = Some th \<Longrightarrow> ev_req k t = (event_info th, event_set th)"
  by (simp add: ev_req_def)

lemma ev_serve_cong: "(\<And>t. t \<in> set ts \<Longrightarrow> req t = req' t) \<Longrightarrow> ev_serve req S ts = ev_serve req' S ts"
proof (induction ts arbitrary: S)
  case (Cons t ts)
  then have "ev_serve req S ts = ev_serve req' S ts" "req t = req' t" for S by auto
  then show ?case by (cases "req' t") (simp only: ev_serve.simps)
qed simp

section \<open>Sending\<close>

definition given :: "int \<Rightarrow> rt_thread \<Rightarrow> rt_thread" where
  "given got th = resumed (th\<lparr>event_set := got\<rparr>)"

definition give_all :: "(tid \<times> int) list \<Rightarrow> (tid \<rightharpoonup> rt_thread) \<Rightarrow> (tid \<rightharpoonup> rt_thread)" where
  "give_all r f = (\<lambda>t. case map_of r t of None \<Rightarrow> f t | Some got \<Rightarrow> map_option (given got) (f t))"

lemma give_all_Nil [simp]: "give_all [] f = f"
  by (simp add: give_all_def)

lemma event_give_ok:
  assumes k: "kinv {} k" and ev: "events k e = Some ev" and t: "t \<in> set (tlists k (EventQ e))" and th: "threads k t = Some th"
  shows "\<exists>k'. event_give k e t got = Some k' \<and> kinv {} k' \<and> same_env k k' \<and> same_objs k (k'\<lparr>events := events k\<rparr>) \<and>
    events k' = (events k)(e \<mapsto> ev\<lparr>ev_set := (if has_flag (event_info th) RT_EVENT_FLAG_CLEAR then ev_set ev AND NOT got else ev_set ev)\<rparr>) \<and>
    threads k' = (threads k)(t \<mapsto> given got th) \<and> tlists k' (EventQ e) = remove1 t (tlists k (EventQ e)) \<and>
    (\<forall>l'. \<not> is_readyq l' \<and> l' \<noteq> EventQ e \<longrightarrow> tlists k' l' = tlists k l')"
proof -
  let ?th = "th\<lparr>event_set := got\<rparr>"
  let ?k1 = "k\<lparr>threads := (threads k)(t \<mapsto> ?th)\<rparr>"
  let ?E = "(events k)(e \<mapsto> ev\<lparr>ev_set := (if has_flag (event_info th) RT_EVENT_FLAG_CLEAR then ev_set ev AND NOT got else ev_set ev)\<rparr>)"
  let ?k2 = "?k1\<lparr>events := ?E\<rparr>"
  have k1: "kinv {} ?k1" by (rule kinv_upd [OF k th]) (simp add: same_thread_def)
  have k2: "kinv {} ?k2" using k1 by simp
  obtain k' where k': "rt_thread_resume ?k2 t = Some (RT_EOK, k')" "kinv {} k'" "same_env ?k2 k'" "same_objs ?k2 k'"
      "threads k' = (threads ?k2)(t \<mapsto> resumed ?th)" "tlists k' (EventQ e) = remove1 t (tlists ?k2 (EventQ e))"
      "\<forall>l'. \<not> is_readyq l' \<and> l' \<noteq> EventQ e \<longrightarrow> tlists k' l' = tlists ?k2 l'"
    using resume_listed [OF k2 waitq_simps(3), of t e ?th] t by auto
  have E: "(events k)(e \<mapsto> ev) = events k" using ev by auto
  have "event_give k e t got = Some k'"
    using ev th k'(1) by (cases "has_flag (event_info th) RT_EVENT_FLAG_CLEAR") (simp_all add: event_give_def upd_thread_def E)
  then show ?thesis using k' by (intro exI [of _ k']) (simp add: given_def same_env_def same_objs_def)
qed

lemma event_send_loop_ok:
  assumes "kinv {} k" "events k e = Some ev" "set ts \<subseteq> set (tlists k (EventQ e))" "distinct ts"
    "\<forall>t \<in> set ts. ev_valid (fst (ev_req k t))" "ev_serve (ev_req k) (ev_set ev) ts = (S', r)"
  shows "\<exists>k'. event_send_loop e ts need k = Some (RT_EOK, need \<or> r \<noteq> [], k') \<and> kinv {} k' \<and> same_env k k' \<and>
    same_objs k (k'\<lparr>events := events k\<rparr>) \<and> events k' = (events k)(e \<mapsto> ev\<lparr>ev_set := S'\<rparr>) \<and>
    threads k' = give_all r (threads k) \<and>
    tlists k' (EventQ e) = filter (\<lambda>t. t \<notin> fst ` set r) (tlists k (EventQ e)) \<and>
    (\<forall>l'. \<not> is_readyq l' \<and> l' \<noteq> EventQ e \<longrightarrow> tlists k' l' = tlists k l')"
  using assms
proof (induction ts arbitrary: k ev S' r need)
  case Nil
  then show ?case by auto
next
  case (Cons t ts)
  obtain th where th: "threads k t = Some th" "stat th = RT_THREAD_SUSPEND"
    by (rule waiting_thread [OF kinvD(1) [OF Cons.prems(1)] waitq_simps(3), of t e]) (use Cons.prems(3) in auto)
  have q: "ev_req k t = (event_info th, event_set th)" by (rule ev_req_Some [OF th(1)])
  have v: "ev_valid (event_info th)" using Cons.prems(5) q by simp
  note E = Cons.prems(6) [unfolded ev_serve_Cons [of "ev_req k", OF q]]
  show ?case
  proof (cases "ev_sat (event_info th) (event_set th) (ev_set ev)")
    case False
    then have "event_send_loop e (t # ts) need k = event_send_loop e ts need k"
      using Cons.prems(2) th(1) v by (auto simp: ev_sat_def ev_valid_def)
    then show ?thesis using Cons.IH [of k ev S' r need] Cons.prems(1-5) E False by simp
  next
    case True
    let ?got = "event_set th AND ev_set ev"
    let ?ev = "ev\<lparr>ev_set := (if has_flag (event_info th) RT_EVENT_FLAG_CLEAR then ev_set ev AND NOT ?got else ev_set ev)\<rparr>"
    obtain k1 where k1: "event_give k e t ?got = Some k1" "kinv {} k1" "same_env k k1" "same_objs k (k1\<lparr>events := events k\<rparr>)"
        "events k1 = (events k)(e \<mapsto> ?ev)" "threads k1 = (threads k)(t \<mapsto> given ?got th)" "tlists k1 (EventQ e) = remove1 t (tlists k (EventQ e))"
        "\<forall>l'. \<not> is_readyq l' \<and> l' \<noteq> EventQ e \<longrightarrow> tlists k1 l' = tlists k l'"
      using event_give_ok [OF Cons.prems(1,2) _ th(1), of ?got] Cons.prems(3) by auto
    obtain r' where r': "ev_serve (ev_req k) (ev_set ?ev) ts = (S', r')" "r = (t, ?got) # r'"
      using E True by (auto split: prod.splits)
    have req: "ev_req k1 u = ev_req k u" if "u \<in> set ts" for u
      using that Cons.prems(4) k1(6) by (auto simp: ev_req_def)
    have nt: "t \<notin> set ts" using Cons.prems(4) by simp
    have d: "distinct (tlists k (EventQ e))" using sched_okD(4) [OF kinvD(1) [OF Cons.prems(1)]] by simp
    have e1: "events k1 e = Some ?ev" by (simp add: k1(5))
    have sub: "set ts \<subseteq> set (tlists k1 (EventQ e))" using Cons.prems(3) nt by (auto simp: k1(7) set_remove1_eq [OF d])
    have dt: "distinct ts" using Cons.prems(4) by simp
    have val: "\<forall>t \<in> set ts. ev_valid (fst (ev_req k1 t))" using Cons.prems(5) req by simp
    have srv: "ev_serve (ev_req k1) (ev_set ?ev) ts = (S', r')" using r'(1) ev_serve_cong [OF req] by simp
    obtain k' where k': "event_send_loop e ts True k1 = Some (RT_EOK, True, k')" "kinv {} k'" "same_env k1 k'"
        "same_objs k1 (k'\<lparr>events := events k1\<rparr>)" "events k' = (events k1)(e \<mapsto> ?ev\<lparr>ev_set := S'\<rparr>)"
        "threads k' = give_all r' (threads k1)"
        "tlists k' (EventQ e) = filter (\<lambda>t. t \<notin> fst ` set r') (tlists k1 (EventQ e))"
        "\<forall>l'. \<not> is_readyq l' \<and> l' \<noteq> EventQ e \<longrightarrow> tlists k' l' = tlists k1 l'"
      using Cons.IH [OF k1(2) e1 sub dt val srv, of True] by (simp only: simp_thms) blast
    have "event_send_loop e (t # ts) need k = Some (RT_EOK, need \<or> r \<noteq> [], k')"
      using Cons.prems(2) th(1) v True k1(1) k'(1) r'(2) by (auto simp: ev_sat_def ev_valid_def)
    moreover have "threads k' = give_all r (threads k)"
      using ev_serve_map_of [OF r'(1) nt] th(1) by (auto simp: k'(6) k1(6) r'(2) give_all_def fun_eq_iff split: option.splits)
    moreover have "tlists k' (EventQ e) = filter (\<lambda>t. t \<notin> fst ` set r) (tlists k (EventQ e))"
      using d by (auto simp: k'(7) k1(7) r'(2) distinct_remove1_removeAll removeAll_filter_not_eq filter_filter intro: filter_cong)
    ultimately show ?thesis
      using k' k1 same_env_trans [OF k1(3) k'(3)] by (intro exI [of _ k']) (simp add: same_objs_def)
  qed
qed

lemma ev_range:
  assumes "0 \<le> a" "a < 2 ^ 32" "0 \<le> b" "b < 2 ^ 32"
  shows "0 \<le> a OR b" "a OR b < (2 ^ 32 :: int)" "0 \<le> a AND c" "a AND c < 2 ^ 32"
  using assms OR_upper [of a 32 b] AND_upper1 [of a c] by (auto intro: order.strict_trans1)

text \<open>The whole call, up to the flags and threads that follow from the reference.\<close>

lemma event_send_run:
  assumes ok: "ev_ok e k" and ev: "events k e = Some ev" and S: "0 < S"
    and cur: "rt_thread_self k = Some c" "threads k c = Some ch" "stat ch = RT_THREAD_RUNNING"
    and sv: "ev_serve (ev_req k) (ev_set ev OR S) (tlists k (EventQ e)) = (S', r)"
  shows "\<exists>k'. rt_event_send k e S = Some (RT_EOK, k') \<and> kinv {} k' \<and> events k' e = Some (ev\<lparr>ev_set := S'\<rparr>) \<and>
    tlists k' (EventQ e) = filter (\<lambda>t. t \<notin> fst ` set r) (tlists k (EventQ e)) \<and>
    (\<forall>u. rel_option sched_eq (give_all r (threads k) u) (threads k' u))"
proof -
  note O = ev_okE [OF ok ev]
  let ?q = "tlists k (EventQ e)"
  let ?S = "ev_set ev OR S"
  let ?k1 = "k\<lparr>events := (events k)(e \<mapsto> ev\<lparr>ev_set := ?S\<rparr>)\<rparr>"
  have req: "ev_req ?k1 = ev_req k" by (simp add: ev_req_def fun_eq_iff)
  have val: "\<forall>t \<in> set ?q. ev_valid (fst (ev_req ?k1 t))"
    unfolding req using O(4) by (fastforce simp: ev_req_def ev_waits_def)
  have d: "distinct ?q" using sched_okD(4) [OF kinvD(1) [OF O(1)]] by simp
  obtain k2 where k2: "event_send_loop e ?q False ?k1 = Some (RT_EOK, r \<noteq> [], k2)" "kinv {} k2" "same_env ?k1 k2"
      "same_objs ?k1 (k2\<lparr>events := events ?k1\<rparr>)" "events k2 = (events ?k1)(e \<mapsto> ev\<lparr>ev_set := S'\<rparr>)"
      "threads k2 = give_all r (threads k)"
      "tlists k2 (EventQ e) = filter (\<lambda>t. t \<notin> fst ` set r) ?q"
    using event_send_loop_ok [of ?k1 e "ev\<lparr>ev_set := ?S\<rparr>" ?q S' r False] O(1) d val sv by (auto simp: req)
  have self: "rt_thread_self k2 = Some c" using same_env_self [OF k2(3)] cur(1) by (simp add: rt_thread_self_def rt_cpu_self_def)
  have sus: "stat th = RT_THREAD_SUSPEND" if "t \<in> set ?q" "threads k t = Some th" for t th
    using waiting_thread [OF kinvD(1) [OF O(1)] waitq_simps(3) that(1)] that(2) by (metis option.inject)
  have nr: "map_of r t = None" if "t \<notin> set ?q" for t by (rule ev_serve_map_of [OF sv that])
  have "c \<notin> set ?q" using sus cur by auto
  then have c2: "threads k2 c = Some ch" using nr cur(2) by (simp add: k2(6) give_all_def)
  obtain k' where k': "rt_event_send k e S = Some (RT_EOK, k')" "kinv {} k'" "same_objs k2 k'" "wait_same k2 k'"
  proof (cases "r = []")
    case True
    then show thesis using that [of k2] ev S k2(1,2) by (simp add: rt_event_send_def)
  next
    case False
    obtain k' where "rt_schedule k2 = Some k'" "kinv {} k'" "same_objs k2 k'" "wait_same k2 k'"
      using schedule_any [OF k2(2) self c2 cur(3)] by blast
    then show thesis using that [of k'] False ev S k2(1) by (simp add: rt_event_send_def)
  qed
  have "events k' e = Some (ev\<lparr>ev_set := S'\<rparr>)" using k'(3) k2(5) by (simp add: same_objs_def)
  then show ?thesis using k' k2(6,7) by (auto simp: wait_same_def)
qed

text \<open>C10: Sending flags. The flags are raised and the waiting threads are served in order from the flags left: each thread whose request is
  met is resumed with flags that meet it, that it asked for and that were there, and what it clears is gone; every thread left
  waiting is not met by the flags that remain. If nobody asks to clear, exactly the threads whose requests are met are resumed.\<close>

theorem event_send_spec:
  assumes ok: "ev_ok e k" and ev: "events k e = Some ev" and S: "0 < S" "S < 2 ^ 32"
    and cur: "rt_thread_self k = Some c" "threads k c = Some ch" "stat ch = RT_THREAD_RUNNING"
  shows "\<exists>k' r S'. rt_event_send k e S = Some (RT_EOK, k') \<and> ev_ok e k' \<and> events k' e = Some (ev\<lparr>ev_set := S'\<rparr>) \<and>
    ev_serve (ev_req k) (ev_set ev OR S) (tlists k (EventQ e)) = (S', r) \<and>
    tlists k' (EventQ e) = filter (\<lambda>t. t \<notin> fst ` set r) (tlists k (EventQ e)) \<and>
    (\<forall>(t, got) \<in> set r. \<exists>th h. threads k t = Some th \<and> threads k' t = Some h \<and> (stat h = RT_THREAD_READY \<or> stat h = RT_THREAD_RUNNING) \<and>
      event_set h = got \<and> error h = RT_EOK \<and> ev_sat (event_info th) (event_set th) got \<and> flags_le got (event_set th) \<and>
      flags_le got (ev_set ev OR S) \<and> (has_flag (event_info th) RT_EVENT_FLAG_CLEAR \<longrightarrow> got AND S' = 0)) \<and>
    ((\<forall>t \<in> set (tlists k (EventQ e)). \<not> has_flag (fst (ev_req k t)) RT_EVENT_FLAG_CLEAR) \<longrightarrow> S' = ev_set ev OR S \<and>
      map fst r = filter (\<lambda>t. ev_sat (fst (ev_req k t)) (snd (ev_req k t)) (ev_set ev OR S)) (tlists k (EventQ e)))"
proof -
  note O = ev_okE [OF ok ev]
  let ?q = "tlists k (EventQ e)"
  let ?S = "ev_set ev OR S"
  obtain S' r where sv: "ev_serve (ev_req k) ?S ?q = (S', r)" by (cases "ev_serve (ev_req k) ?S ?q")
  have d: "distinct ?q" using sched_okD(4) [OF kinvD(1) [OF O(1)]] by simp
  obtain k' where k': "rt_event_send k e S = Some (RT_EOK, k')" "kinv {} k'" "events k' e = Some (ev\<lparr>ev_set := S'\<rparr>)"
      "tlists k' (EventQ e) = filter (\<lambda>t. t \<notin> fst ` set r) ?q" "\<forall>u. rel_option sched_eq (give_all r (threads k) u) (threads k' u)"
    using event_send_run [OF ok ev S(1) cur sv] by blast
  have thr: "\<exists>h. threads k' t = Some h \<and> sched_eq th h" if "give_all r (threads k) t = Some th" for t th
    using k'(5) [rule_format, of t] that by (auto simp: option_rel_Some1)
  have served: "\<exists>th h. threads k t = Some th \<and> threads k' t = Some h \<and> (stat h = RT_THREAD_READY \<or> stat h = RT_THREAD_RUNNING) \<and>
      event_set h = got \<and> error h = RT_EOK \<and> ev_sat (event_info th) (event_set th) got \<and> flags_le got (event_set th) \<and>
      flags_le got ?S \<and> (has_flag (event_info th) RT_EVENT_FLAG_CLEAR \<longrightarrow> got AND S' = 0)" if g: "(t, got) \<in> set r" for t got
  proof -
    have t: "t \<in> set ?q" using ev_serve_sub [OF sv] g by force
    obtain th where th: "threads k t = Some th" "error th = RT_EOK" using O(4) [OF t] by (auto simp: ev_waits_def)
    have "give_all r (threads k) t = Some (given got th)"
      using map_of_is_SomeI [OF ev_serve_distinct [OF sv d] g] th(1) by (simp add: give_all_def)
    then obtain h where h: "threads k' t = Some h" "sched_eq (given got th) h" using thr by blast
    have "stat h = RT_THREAD_READY \<or> stat h = RT_THREAD_RUNNING" "event_set h = got" "error h = RT_EOK"
      using h(2) th(2) by (auto simp: sched_eq_def given_def resumed_def split: if_splits)
    then show ?thesis using th(1) h(1) ev_serve_got [OF sv g ev_req_Some [OF th(1)]] by blast
  qed
  have left: "\<exists>th. threads k' t = Some th \<and> ev_waits S' th" if t: "t \<in> set (tlists k' (EventQ e))" for t
  proof -
    have q: "t \<in> set ?q" "t \<notin> fst ` set r" using t k'(4) by auto
    obtain th where th: "threads k t = Some th" "ev_waits (ev_set ev) th" using O(4) [OF q(1)] by blast
    have "give_all r (threads k) t = Some th" using q(2) th(1) by (simp add: give_all_def map_of_eq_None_iff [THEN iffD2])
    then obtain h where "threads k' t = Some h" "sched_eq th h" using thr by blast
    then show ?thesis using ev_serve_left [OF sv q ev_req_Some [OF th(1)]] th(2) by (auto simp: ev_waits_def sched_eq_def)
  qed
  have "S' = ?S AND S'" using ev_serve_le [OF sv] by (simp add: flags_le_def and.commute)
  then have "0 \<le> S'" "S' < 2 ^ 32"
    using ev_range [OF O(2,3), of S] S ev_range(3,4) [of ?S 0 S'] by auto
  then have "ev_ok e k'" unfolding ev_ok_def using k'(2,3) left by auto
  then show ?thesis using k'(1,3,4) sv served ev_serve_no_clear [OF sv] by (intro exI [of _ k'] exI [of _ r] exI [of _ S']) blast
qed

section \<open>Receiving\<close>

lemma ev_ok_other:
  assumes ok: "ev_ok e k" and ev: "events k e = Some ev" and k': "kinv {} k'" "events k' e = Some (ev\<lparr>ev_set := S'\<rparr>)"
    and S': "0 \<le> S'" "S' < 2 ^ 32" "flags_le S' (ev_set ev)"
    and t: "\<And>t. t \<in> set (tlists k' (EventQ e)) \<Longrightarrow>
      (\<exists>h. threads k' t = Some h \<and> ev_waits S' h) \<or>
      t \<in> set (tlists k (EventQ e)) \<and> (\<exists>th h. threads k t = Some th \<and> threads k' t = Some h \<and> error h = error th \<and>
        event_set h = event_set th \<and> event_info h = event_info th)"
  shows "ev_ok e k'"
proof -
  note O = ev_okE [OF ok ev]
  have "\<exists>h. threads k' u = Some h \<and> ev_waits S' h" if "u \<in> set (tlists k' (EventQ e))" for u
    using t [OF that] O(4) [of u] ev_sat_mono [OF S'(3)] by (auto simp: ev_waits_def)
  then show ?thesis using k' S' by (auto simp: ev_ok_def)
qed

lemma running_not_waiting:
  assumes "kinv {} k" "waitq l" "threads k t = Some th" "stat th = RT_THREAD_RUNNING"
  shows "t \<notin> set (tlists k l)"
proof
  assume "t \<in> set (tlists k l)"
  then obtain h where "threads k t = Some h" "stat h = RT_THREAD_SUSPEND" by (rule waiting_thread [OF kinvD(1) [OF assms(1)] assms(2)])
  then show False using assms(3,4) by simp
qed

lemma event_recv_blocks:
  assumes ok: "ev_ok e k" and ev: "events k e = Some ev" and S: "0 < S" and opt: "ev_valid opt"
    and cur: "can_block k t th" and n: "timeout \<noteq> 0" "timeout < half" and unmet: "\<not> ev_sat opt S (ev_set ev)"
  shows "\<exists>k' h. rt_event_recv k e S opt timeout = Some (Blocked, k') \<and> ev_ok e k' \<and> events k' = events k \<and>
    tlists k' (EventQ e) = wait_insert k (ev_flag ev) t (tlists k (EventQ e)) \<and>
    threads k' t = Some h \<and> stat h = RT_THREAD_SUSPEND \<and> event_set h = S \<and> event_info h = opt"
proof -
  note O = ev_okE [OF ok ev] and B = cur [unfolded can_block_def] and av = can_block_available [OF cur, of True]
  have nt: "t \<notin> set (tlists k (EventQ e))" using running_not_waiting [OF O(1) waitq_simps(3)] B by simp
  let ?h = "th\<lparr>error := RT_EOK, event_set := S, event_info := opt\<rparr>"
  let ?k1 = "k\<lparr>threads := (threads k)(t \<mapsto> ?h)\<rparr>"
  have s: "same_thread th ?h" "critical_lock_nest ?h = critical_lock_nest th" by (simp_all add: same_thread_def)
  obtain k' where k': "ipc_wait ?k1 t (EventQ e) (ev_flag ev) timeout = Some (Blocked :: (int \<times> int option) call, k')"
      "blocked_on ?k1 t ?h (EventQ e) (ev_flag ev) timeout k'"
    using ipc_wait_ok [OF can_block_upd [OF O(1) cur s] waitq_simps(3) n(2)] by blast
  have w: "wait_insert ?k1 (ev_flag ev) t q = wait_insert k (ev_flag ev) t q" for q
    using B by (intro wait_insert_upd [of k t th]) auto
  obtain h where bl: "kinv {} k'" "same_objs ?k1 k'" "threads k' t = Some h" "sched_eq (?h\<lparr>stat := RT_THREAD_SUSPEND\<rparr>) h"
      "tlists k' (EventQ e) = wait_insert ?k1 (ev_flag ev) t (tlists ?k1 (EventQ e))"
      "\<And>u. u \<noteq> t \<Longrightarrow> rel_option sched_eq (threads ?k1 u) (threads k' u)"
    using k'(2) by (rule blocked_onE) simp
  have h: "stat h = RT_THREAD_SUSPEND" "event_set h = S" "event_info h = opt" "error h = RT_EOK" using bl(4) by (simp_all add: sched_eq_def)
  have ev': "events k' = events k" using bl(2) by (simp add: same_objs_def)
  have old: "\<exists>uh h. threads k u = Some uh \<and> threads k' u = Some h \<and> error h = error uh \<and> event_set h = event_set uh \<and> event_info h = event_info uh"
    if u: "u \<in> set (tlists k (EventQ e))" for u
  proof -
    have "u \<noteq> t" using u nt by blast
    moreover obtain uh where "threads k u = Some uh" using O(4) [OF u] by blast
    ultimately show ?thesis using bl(6) [of u] by (auto simp: option_rel_Some1 sched_eq_def)
  qed
  have "ev_ok e k'"
  proof (rule ev_ok_other [OF ok ev bl(1), where S' = "ev_set ev"])
    fix u assume "u \<in> set (tlists k' (EventQ e))"
    then show "(\<exists>h. threads k' u = Some h \<and> ev_waits (ev_set ev) h) \<or> u \<in> set (tlists k (EventQ e)) \<and>
        (\<exists>th h. threads k u = Some th \<and> threads k' u = Some h \<and> error h = error th \<and> event_set h = event_set th \<and> event_info h = event_info th)"
      using bl(3,5) h opt unmet old by (auto simp: ev_waits_def)
  qed (use ev ev' O(2,3) in auto)
  moreover have "rt_event_recv k e S opt timeout = Some (Blocked, k')"
    using ev av S B n unmet k'(1) opt [unfolded ev_valid_def] by (auto simp: rt_event_recv_def upd_thread_def ev_sat_def and.commute)
  ultimately show ?thesis using bl(3,5) w h ev' by auto
qed

text \<open>Receiving flags, on every branch: a request that is met returns the flags received at once and clears what was asked for if
  so told; otherwise the call reports the timeout or the caller waits with its request on the list of the event set, in
  order of arrival or of priority, and no thread is left waiting for flags that are there.\<close>

lemma event_recv_spec:
  assumes ok: "ev_ok e k" and ev: "events k e = Some ev" and S: "0 < S" "S < 2 ^ 32" and opt: "ev_valid opt"
    and cur: "can_block k t th" and n: "timeout < half"
  shows "if ev_sat opt S (ev_set ev) then
      \<exists>k'. rt_event_recv k e S opt timeout = Some (Done (RT_EOK, Some (ev_set ev AND S)), k') \<and> ev_ok e k' \<and>
        events k' e = Some (ev\<lparr>ev_set := if has_flag opt RT_EVENT_FLAG_CLEAR then ev_set ev AND NOT S else ev_set ev\<rparr>) \<and>
        tlists k' = tlists k
    else if timeout = 0 then
      \<exists>k'. rt_event_recv k e S opt timeout = Some (Done (- RT_ETIMEOUT, None), k') \<and> ev_ok e k' \<and> events k' = events k \<and> tlists k' = tlists k
    else
      \<exists>k' h. rt_event_recv k e S opt timeout = Some (Blocked, k') \<and> ev_ok e k' \<and> events k' = events k \<and>
        tlists k' (EventQ e) = wait_insert k (ev_flag ev) t (tlists k (EventQ e)) \<and>
        threads k' t = Some h \<and> stat h = RT_THREAD_SUSPEND \<and> event_set h = S \<and> event_info h = opt"
proof -
  note O = ev_okE [OF ok ev] and B = cur [unfolded can_block_def] and av = can_block_available [OF cur, of True]
  have sat: "(if has_flag opt RT_EVENT_FLAG_AND then ev_set ev AND S = S else ev_set ev AND S \<noteq> 0) \<longleftrightarrow> ev_sat opt S (ev_set ev)"
    by (simp add: ev_sat_def and.commute)
  have nt: "t \<notin> set (tlists k (EventQ e))" using running_not_waiting [OF O(1) waitq_simps(3)] B by simp
  show ?thesis
  proof (cases "ev_sat opt S (ev_set ev)")
    case True
    let ?S = "if has_flag opt RT_EVENT_FLAG_CLEAR then ev_set ev AND NOT S else ev_set ev"
    let ?h = "th\<lparr>error := RT_EOK, event_set := ev_set ev AND S, event_info := opt\<rparr>"
    let ?k' = "k\<lparr>threads := (threads k)(t \<mapsto> ?h), events := (events k)(e \<mapsto> ev\<lparr>ev_set := ?S\<rparr>)\<rparr>"
    have "kinv {} (k\<lparr>threads := (threads k)(t \<mapsto> ?h)\<rparr>)" by (rule kinv_upd [OF O(1)]) (use B in \<open>auto simp: same_thread_def\<close>)
    then have "ev_ok e ?k'"
      by (intro ev_ok_other [OF ok ev, where S' = ?S]) (use O(2-4) nt ev_range(3,4) [OF O(2,3), of 0] in \<open>auto simp: ev_waits_def\<close>)
    moreover have "(events k)(e \<mapsto> ev) = events k" using ev by auto
    then have "rt_event_recv k e S opt timeout = Some (Done (RT_EOK, Some (ev_set ev AND S)), ?k')"
      using ev av S B True opt [unfolded ev_valid_def] by (auto simp: rt_event_recv_def upd_thread_def sat)
    ultimately show ?thesis using True by auto
  next
    case unmet: False
    show ?thesis
    proof (cases "timeout = 0")
      case True
      let ?k' = "k\<lparr>threads := (threads k)(t \<mapsto> th\<lparr>error := - RT_ETIMEOUT\<rparr>)\<rparr>"
      have "kinv {} ?k'" by (rule kinv_upd [OF O(1)]) (use B in \<open>auto simp: same_thread_def\<close>)
      then have "ev_ok e ?k'" by (intro ev_ok_other [OF ok ev, where S' = "ev_set ev"]) (use ev O(2-4) nt in \<open>auto simp: ev_waits_def\<close>)
      moreover have "rt_event_recv k e S opt timeout = Some (Done (- RT_ETIMEOUT, None), ?k')"
        using ev av S B True unmet opt [unfolded ev_valid_def] by (auto simp: rt_event_recv_def upd_thread_def sat)
      ultimately show ?thesis using True unmet by auto
    next
      case False
      then show ?thesis using event_recv_blocks [OF ok ev S(1) opt cur _ n unmet] unmet by simp
    qed
  qed
qed

section \<open>Concrete states\<close>

definition ex_event :: "int \<Rightarrow> rt_event" where
  "ex_event S = \<lparr>ev_set = S, ev_flag = RT_IPC_FLAG_PRIO, ev_static = True\<rparr>"

text \<open>Thread 4 waits for flags 1 and 2, both of them, and will clear them.\<close>

definition ex_event_waiting :: kernel where
  "ex_event_waiting = (ex_waiting 0 (EventQ 0))\<lparr>threads := ex_threads(4 \<mapsto> (ex_thread RT_THREAD_SUSPEND 8 2 2)\<lparr>event_set := 3, event_info := 5\<rparr>),
     events := [0 \<mapsto> ex_event 1]\<rparr>"

lemmas ev_flags = RT_EVENT_FLAG_AND_def RT_EVENT_FLAG_OR_def RT_EVENT_FLAG_CLEAR_def

lemma ex_event_waiting_ok: "ev_ok 0 ex_event_waiting"
proof -
  have "kinv {} ((ex_waiting 0 (EventQ 0))\<lparr>threads := (threads (ex_waiting 0 (EventQ 0)))(4 \<mapsto> (ex_thread RT_THREAD_SUSPEND 8 2 2)\<lparr>event_set := 3, event_info := 5\<rparr>)\<rparr>)"
    by (rule kinv_upd [OF ex_waiting_kinv, of _ _ _ "ex_thread RT_THREAD_SUSPEND 8 2 2"])
      (simp_all add: ex_waiting_self ex_threads_def same_thread_def)
  then have "kinv {} ex_event_waiting" by (simp add: ex_event_waiting_def ex_waiting_self)
  then show ?thesis
    by (simp add: ev_ok_def ex_event_waiting_def ex_event_def ex_waiting_self ev_waits_def ev_valid_def ev_sat_def ev_flags ex_thread_def)
qed

theorem event_send_spec_witness:
  "\<exists>k' h. rt_event_send ex_event_waiting 0 6 = Some (RT_EOK, k') \<and> ev_ok 0 k' \<and> events k' 0 = Some (ex_event 4) \<and>
    tlists k' (EventQ 0) = [] \<and> threads k' 4 = Some h \<and> event_set h = 3"
proof -
  let ?k = ex_event_waiting
  have c: "rt_thread_self ?k = Some 1" "threads ?k 1 = Some (ex_thread RT_THREAD_RUNNING 10 2 0)"
    "stat (ex_thread RT_THREAD_RUNNING 10 2 0) = RT_THREAD_RUNNING" "events ?k 0 = Some (ex_event 1)"
    using ex_waiting_self [of 0 "EventQ 0"]
    by (simp_all add: ex_event_waiting_def rt_thread_self_def rt_cpu_self_def ex_threads_def ex_thread_def)
  have q: "tlists ?k (EventQ 0) = [4]" "ev_req ?k 4 = (5, 3)" by (simp_all add: ex_event_waiting_def ex_waiting_self ev_req_def)
  have sv: "ev_serve (ev_req ?k) (ev_set (ex_event 1) OR 6) [4] = (4, [(4, 3)])"
    by (simp add: q(2) ex_event_def ev_sat_def ev_flags)
  have "ex_event 1\<lparr>ev_set := 4\<rparr> = ex_event 4" by (simp add: ex_event_def)
  then show ?thesis using event_send_spec [OF ex_event_waiting_ok c(4) _ _ c(1-3), of 6] unfolding q(1) sv by auto
qed

lemma event_recv_spec_example:
  "\<exists>k'. rt_event_recv ((ex_kernel 0)\<lparr>events := [0 \<mapsto> ex_event 1]\<rparr>) 0 3 6 0 = Some (Done (RT_EOK, Some 1), k') \<and> ev_ok 0 k' \<and>
    events k' 0 = Some (ex_event 0)"
proof -
  let ?k = "(ex_kernel 0)\<lparr>events := [0 \<mapsto> ex_event 1]\<rparr>"
  have ok: "ev_ok 0 ?k" using ex_kinv [of 0] by (simp add: ev_ok_def ex_event_def ex_tlists ex_lists_def)
  have b: "can_block ?k 1 (ex_thread RT_THREAD_RUNNING 10 2 0)" 
    using ex_can_block by (simp add: can_block_def eligible_def rt_thread_self_def rt_cpu_self_def)
  have v: "ev_valid 6" "ev_sat 6 3 (ev_set (ex_event 1))" by (simp_all add: ev_valid_def ev_sat_def ev_flags ex_event_def)
  have "ex_event 1\<lparr>ev_set := 0\<rparr> = ex_event 0" by (simp add: ex_event_def)
  then show ?thesis using event_recv_spec [OF ok _ _ _ v(1) b, of "ex_event 1" 3 0] v(2) by (simp add: half_def ev_flags) (fastforce simp: ex_event_def)
qed

end
