(* ===== verification/Mutex.thy ===== *)
theory Mutex
  imports Event
begin

text \<open>
  Mutexes, after \<^verbatim>\<open>rt-thread/src/ipc.c\<close>: recursive locking by an owner, a waiting list in order of
  priority, and priority inheritance: the owner of a mutex gets the priority of the most
  urgent thread that waits for it. \<^verbatim>\<open>RT_NULL\<close> as an owner is \<^term>\<open>None\<close>; reading through it is a fault.
\<close>

section \<open>Priorities\<close>

definition upd_mutex :: "kernel \<Rightarrow> nat \<Rightarrow> (rt_mutex \<Rightarrow> rt_mutex) \<Rightarrow> kernel option" where
  "upd_mutex k m f = (case mutexes k m of None \<Rightarrow> None | Some mx \<Rightarrow> Some (k\<lparr>mutexes := (mutexes k)(m \<mapsto> f mx)\<rparr>))"

text \<open>\<^verbatim>\<open>_mutex_update_priority\<close>: the priority of a mutex is that of its first waiting thread.\<close>

definition mutex_update_priority :: "kernel \<Rightarrow> nat \<Rightarrow> kernel option" where
  "mutex_update_priority k m = (case tlists k (MutexQ m) of
       t # _ \<Rightarrow> do { th \<leftarrow> threads k t; upd_mutex k m (mutex_priority_update (\<lambda>_. current_priority th)) }
     | [] \<Rightarrow> upd_mutex k m (mutex_priority_update (\<lambda>_. 255)))"

fun mutex_priority_loop :: "kernel \<Rightarrow> nat list \<Rightarrow> nat \<Rightarrow> nat option" where
  "mutex_priority_loop k [] prio = Some prio"
| "mutex_priority_loop k (m # ms) prio = do {
     mx \<leftarrow> mutexes k m;
     mutex_priority_loop k ms (if prio > mutex_priority mx then mutex_priority mx else prio)
   }"

definition thread_get_mutex_priority :: "kernel \<Rightarrow> tid \<Rightarrow> nat option" where
  "thread_get_mutex_priority k t = do { th \<leftarrow> threads k t; mutex_priority_loop k (taken_object_list th) (init_priority th) }"

text \<open>
  \<^verbatim>\<open>_thread_update_priority\<close>. If the thread itself waits for a mutex, it is put on that waiting list anew and
  the change goes on to the owner of that mutex; the recursion follows the chain of owners.
\<close>

partial_function (option) thread_update_priority :: "tid \<Rightarrow> nat \<Rightarrow> kernel \<Rightarrow> kernel option" where
  "thread_update_priority t prio k =
     Option.bind (thread_change_priority k t prio) (\<lambda>k1. Option.bind (threads k1 t) (\<lambda>th.
       if stat th = RT_THREAD_SUSPEND then (case pending_object th of None \<Rightarrow> Some k1
         | Some m \<Rightarrow>
             Option.bind (mutexes k1 m) (\<lambda>_. Option.bind (ipc_list_suspend (tlist_remove k1 t) (MutexQ m) t RT_IPC_FLAG_PRIO) (\<lambda>k2.
             Option.bind (mutex_update_priority k2 m) (\<lambda>k3. Option.bind (mutexes k3 m) (\<lambda>mx. Option.bind (owner mx) (\<lambda>own.
             Option.bind (thread_get_mutex_priority k3 own) (\<lambda>p. Option.bind (threads k3 own) (\<lambda>oh.
               if p \<noteq> current_priority oh then thread_update_priority own p k3 else Some k3))))))))
       else Some k1))"

declare thread_update_priority.simps [code]

text \<open>\<^verbatim>\<open>rt_list_remove(&mutex->taken_list)\<close> takes the mutex off whatever list of taken objects it is on.\<close>

definition taken_remove :: "kernel \<Rightarrow> nat \<Rightarrow> kernel" where
  "taken_remove k m = k\<lparr>threads := (\<lambda>t. map_option (taken_object_list_update (remove1 m)) (threads k t))\<rparr>"

definition taken_insert :: "kernel \<Rightarrow> tid \<Rightarrow> nat \<Rightarrow> kernel option" where
  "taken_insert k t m = upd_thread k t (\<lambda>th. th\<lparr>taken_object_list := m # taken_object_list th\<rparr>)"

section \<open>Operations\<close>

definition new_mutex :: "bool \<Rightarrow> rt_mutex" where
  "new_mutex static = \<lparr>ceiling_priority = 255, mutex_priority = 255, hold = 0, owner = None, mutex_static = static\<rparr>"

definition rt_mutex_init :: "kernel \<Rightarrow> nat \<Rightarrow> kernel" where
  "rt_mutex_init k m = k\<lparr>mutexes := (mutexes k)(m \<mapsto> new_mutex True), tlists := (tlists k)(MutexQ m := [])\<rparr>"

definition rt_mutex_detach :: "kernel \<Rightarrow> nat \<Rightarrow> kernel option" where
  "rt_mutex_detach k m = do {
     mx \<leftarrow> mutexes k m;
     RT_ASSERT (mutex_static mx);
     k1 \<leftarrow> ipc_list_resume_all (MutexQ m) k;
     let k2 = taken_remove k1 m;
     Some (k2\<lparr>mutexes := (mutexes k2)(m := None)\<rparr>)
   }"

definition rt_mutex_create :: "bool \<Rightarrow> kernel \<Rightarrow> nat \<Rightarrow> (nat option \<times> kernel) option" where
  "rt_mutex_create object_ok k m = do {
     RT_DEBUG_NOT_IN_INTERRUPT k;
     Some (if \<not> object_ok then (None, k)
       else (Some m, k\<lparr>mutexes := (mutexes k)(m \<mapsto> new_mutex False), tlists := (tlists k)(MutexQ m := [])\<rparr>))
   }"

definition rt_mutex_delete :: "kernel \<Rightarrow> nat \<Rightarrow> kernel option" where
  "rt_mutex_delete k m = do {
     mx \<leftarrow> mutexes k m;
     RT_ASSERT (\<not> mutex_static mx);
     RT_DEBUG_NOT_IN_INTERRUPT k;
     k1 \<leftarrow> ipc_list_resume_all (MutexQ m) k;
     let k2 = taken_remove k1 m;
     Some (k2\<lparr>mutexes := (mutexes k2)(m := None)\<rparr>)
   }"

text \<open>
  What is done when a thread has left the waiting list without the mutex: the mutex and,
  if it may have had its priority from that thread, the owner get their priorities anew. \<^verbatim>\<open>rt_mutex_take\<close> does
  this after a failed wait and \<^verbatim>\<open>rt_mutex_drop_thread\<close> for a thread that is being closed.
\<close>

definition mutex_drop :: "kernel \<Rightarrow> nat \<Rightarrow> tid \<Rightarrow> kernel option" where
  "mutex_drop k m t = do {
     mx \<leftarrow> mutexes k m;
     own \<leftarrow> owner mx;
     oh \<leftarrow> threads k own;
     th \<leftarrow> threads k t;
     k1 \<leftarrow> mutex_update_priority k m;
     (if current_priority oh = current_priority th then do {
        prio \<leftarrow> thread_get_mutex_priority k1 own;
        (if prio \<noteq> current_priority oh then thread_update_priority own prio k1 else Some k1)
      }
      else Some k1)
   }"

definition rt_mutex_drop_thread :: "kernel \<Rightarrow> nat \<Rightarrow> tid \<Rightarrow> kernel option" where
  "rt_mutex_drop_thread k m t = mutex_drop (tlist_remove k t) m t"

definition rt_mutex_setprioceiling :: "kernel \<Rightarrow> nat \<Rightarrow> nat \<Rightarrow> (nat \<times> kernel) option" where
  "rt_mutex_setprioceiling k m prio = do {
     mx \<leftarrow> mutexes k m;
     Some (if prio < RT_THREAD_PRIORITY_MAX
       then (ceiling_priority mx, k\<lparr>mutexes := (mutexes k)(m \<mapsto> mx\<lparr>ceiling_priority := prio\<rparr>)\<rparr>)
       else (255, rt_set_errno k (- RT_EINVAL)))
   }"

definition rt_mutex_getprioceiling :: "kernel \<Rightarrow> nat \<Rightarrow> nat option" where
  "rt_mutex_getprioceiling k m = map_option ceiling_priority (mutexes k m)"

text \<open>The branches of \<^verbatim>\<open>rt_mutex_take\<close>: a free mutex, and one that another thread owns.\<close>

definition mutex_acquire :: "kernel \<Rightarrow> nat \<Rightarrow> tid \<Rightarrow> kernel option" where
  "mutex_acquire k m t = do {
     k1 \<leftarrow> upd_mutex k m (\<lambda>mx. mx\<lparr>owner := Some t, mutex_priority := 255, hold := 1\<rparr>);
     mx \<leftarrow> mutexes k1 m;
     (if ceiling_priority mx \<noteq> 255 then do {
        th \<leftarrow> threads k1 t;
        (if ceiling_priority mx < current_priority th then thread_update_priority t (ceiling_priority mx) k1 else Some k1)
      }
      else taken_insert k1 t m)
   }"

definition mutex_wait :: "kernel \<Rightarrow> nat \<Rightarrow> tid \<Rightarrow> int \<Rightarrow> (int call \<times> kernel) option" where
  "mutex_wait k m t timeout = do {
     th \<leftarrow> threads k t;
     let prio = current_priority th;
     k1 \<leftarrow> ipc_list_suspend k (MutexQ m) t RT_IPC_FLAG_PRIO;
     k2 \<leftarrow> upd_thread k1 t (pending_object_update (\<lambda>_. Some m));
     mx \<leftarrow> mutexes k2 m;
     k4 \<leftarrow> (if prio < mutex_priority mx then do {
              k3 \<leftarrow> upd_mutex k2 m (mutex_priority_update (\<lambda>_. prio));
              own \<leftarrow> owner mx;
              oh \<leftarrow> threads k3 own;
              (if prio < current_priority oh then thread_update_priority own prio k3 else Some k3)
            }
            else Some k2);
     k5 \<leftarrow> (if timeout > 0 then rt_thread_timer_start k4 t timeout else Some k4);
     k6 \<leftarrow> rt_schedule k5;
     Some (Blocked, k6)
   }"

definition rt_mutex_take :: "kernel \<Rightarrow> nat \<Rightarrow> int \<Rightarrow> (int call \<times> kernel) option" where
  "rt_mutex_take k m timeout = do {
     RT_DEBUG_SCHEDULER_AVAILABLE k True;
     _ \<leftarrow> mutexes k m;
     t \<leftarrow> rt_thread_self k;
     k1 \<leftarrow> upd_thread k t (error_update (\<lambda>_. RT_EOK));
     mx \<leftarrow> mutexes k1 m;
     (if owner mx = Some t then
        (if hold mx < RT_MUTEX_HOLD_MAX
         then Some (Done RT_EOK, k1\<lparr>mutexes := (mutexes k1)(m \<mapsto> mx\<lparr>hold := u8 (hold mx + 1)\<rparr>)\<rparr>)
         else Some (Done (- RT_EFULL), k1))
      else if owner mx = None then do { k2 \<leftarrow> mutex_acquire k1 m t; Some (Done RT_EOK, k2) }
      else if timeout = 0 then do {
        k2 \<leftarrow> upd_thread k1 t (error_update (\<lambda>_. - RT_ETIMEOUT));
        Some (Done (- RT_ETIMEOUT), k2)
      }
      else mutex_wait k1 m t timeout)
   }"

definition rt_mutex_take_wake :: "kernel \<Rightarrow> nat \<Rightarrow> (int \<times> kernel) option" where
  "rt_mutex_take_wake k m = do {
     t \<leftarrow> rt_thread_self k;
     th \<leftarrow> threads k t;
     (if error th = RT_EOK then Some (RT_EOK, k)
      else do {
        k1 \<leftarrow> mutex_drop k m t;
        th1 \<leftarrow> threads k1 t;
        Some (error th1, k1)
      })
   }"

definition rt_mutex_trytake :: "kernel \<Rightarrow> nat \<Rightarrow> (int call \<times> kernel) option" where
  "rt_mutex_trytake k m = rt_mutex_take k m 0"

text \<open>The last release: the mutex goes to the first waiting thread, or becomes free. The result says whether to schedule.\<close>

definition mutex_hand_over :: "kernel \<Rightarrow> nat \<Rightarrow> (bool \<times> kernel) option" where
  "mutex_hand_over k m = (case tlists k (MutexQ m) of
       t # _ \<Rightarrow> do {
         let k1 = tlist_remove k t;
         k2 \<leftarrow> upd_mutex k1 m (\<lambda>mx. mx\<lparr>owner := Some t, hold := 1\<rparr>);
         k3 \<leftarrow> taken_insert k2 t m;
         k4 \<leftarrow> upd_thread k3 t (pending_object_update (\<lambda>_. None));
         (r, k5) \<leftarrow> rt_thread_resume k4 t;
         k6 \<leftarrow> mutex_update_priority k5 m;
         Some (True, k6)
       }
     | [] \<Rightarrow> do { k1 \<leftarrow> upd_mutex k m (\<lambda>mx. mx\<lparr>owner := None, mutex_priority := 255\<rparr>); Some (False, k1) })"

text \<open>Before that, the owner gives back a priority it may have from this mutex.\<close>

definition mutex_restore :: "kernel \<Rightarrow> nat \<Rightarrow> tid \<Rightarrow> (bool \<times> kernel) option" where
  "mutex_restore k m t = do {
     mx \<leftarrow> mutexes k m;
     th \<leftarrow> threads k t;
     (if ceiling_priority mx \<noteq> 255 \<or> current_priority th = mutex_priority mx then do {
        prio \<leftarrow> thread_get_mutex_priority k t;
        k1 \<leftarrow> thread_change_priority k t prio;
        Some (True, k1)
      }
      else Some (False, k))
   }"

definition rt_mutex_release :: "kernel \<Rightarrow> nat \<Rightarrow> (int \<times> kernel) option" where
  "rt_mutex_release k m = do {
     mx \<leftarrow> mutexes k m;
     RT_DEBUG_IN_THREAD_CONTEXT k;
     t \<leftarrow> rt_thread_self k;
     (if owner mx \<noteq> Some t then do {
        k1 \<leftarrow> upd_thread k t (error_update (\<lambda>_. - RT_ERROR));
        Some (- RT_ERROR, k1)
      }
      else do {
        k1 \<leftarrow> upd_mutex k m (\<lambda>mx. mx\<lparr>hold := u8 (hold mx - 1)\<rparr>);
        (need, k2) \<leftarrow> (if u8 (hold mx - 1) = 0 then do {
            (n1, k3) \<leftarrow> mutex_restore (taken_remove k1 m) m t;
            (n2, k4) \<leftarrow> mutex_hand_over k3 m;
            Some (n1 \<or> n2, k4)
          }
          else Some (False, k1));
        k5 \<leftarrow> (if need then rt_schedule k2 else Some k2);
        Some (RT_EOK, k5)
      })
   }"

definition rt_mutex_control :: "kernel \<Rightarrow> nat \<Rightarrow> int option" where
  "rt_mutex_control k m = do { _ \<leftarrow> mutexes k m; Some (- RT_ERROR) }"

end
