(* ===== verification/Mutex_Inv.thy ===== *)
theory Mutex_Inv
  imports Mutex
begin

text \<open>
  The effect of the mutex operations: the invariant of a mutex, what taking, waiting and
  releasing do to the owner, the waiting list and the priorities, each under the
  conditions in which it does not fault.
\<close>

section \<open>Inherited priorities\<close>

definition mprio :: "kernel \<Rightarrow> nat \<Rightarrow> nat" where
  "mprio k m = (case mutexes k m of None \<Rightarrow> 255 | Some mx \<Rightarrow> mutex_priority mx)"

text \<open>The priority a thread should have: its own or that of a mutex it has taken, whichever is most urgent.\<close>

definition inherited :: "kernel \<Rightarrow> rt_thread \<Rightarrow> nat" where
  "inherited k th = Min (insert (init_priority th) (mprio k ` set (taken_object_list th)))"

definition live_taken :: "kernel \<Rightarrow> rt_thread \<Rightarrow> bool" where
  "live_taken k th \<longleftrightarrow> (\<forall>m \<in> set (taken_object_list th). mutexes k m \<noteq> None)"

lemma mutex_priority_loop_ok:
  assumes "\<forall>m \<in> set ms. mutexes k m \<noteq> None"
  shows "mutex_priority_loop k ms p = Some (Min (insert p (mprio k ` set ms)))"
  using assms
proof (induction ms arbitrary: p)
  case (Cons m ms)
  obtain mx where mx: "mutexes k m = Some mx" using Cons.prems by auto
  let ?p = "if p > mutex_priority mx then mutex_priority mx else p"
  have "Min (insert p (mprio k ` set (m # ms))) = Min (insert ?p (mprio k ` set ms))"
  proof -
    have "?p = min p (mprio k m)" using mx by (simp add: mprio_def min_def)
    moreover have "Min (insert p (insert a A)) = Min (insert (min p a) A)" if "finite A" for a and A :: "nat set"
      using that by (cases "A = {}") (simp_all add: min.assoc)
    ultimately show ?thesis by simp
  qed
  then show ?case using Cons mx by simp
qed simp

lemma get_mutex_priority_ok:
  assumes "threads k t = Some th" "live_taken k th"
  shows "thread_get_mutex_priority k t = Some (inherited k th)"
  using assms mutex_priority_loop_ok by (simp add: thread_get_mutex_priority_def live_taken_def inherited_def)

lemma inherited_le: "inherited k th \<le> init_priority th" "m \<in> set (taken_object_list th) \<Longrightarrow> inherited k th \<le> mprio k m"
  by (simp_all add: inherited_def)

lemma inherited_cong:
  assumes "init_priority h = init_priority th" "set (taken_object_list h) = set (taken_object_list th)"
    "\<And>m. m \<in> set (taken_object_list th) \<Longrightarrow> mprio k' m = mprio k m"
  shows "inherited k' h = inherited k th"
  using assms by (simp add: inherited_def cong: image_cong)

section \<open>Changing the priority of an owner\<close>

lemma update_priority_plain:
  assumes "threads k t = Some th" "stat th = RT_THREAD_SUSPEND \<longrightarrow> pending_object th = None"
    and c: "thread_change_priority k t p = Some k1" "threads k1 = (threads k)(t \<mapsto> th\<lparr>current_priority := p, number_mask := 2 ^ p\<rparr>)"
  shows "thread_update_priority t p k = Some k1"
  using assms by (subst thread_update_priority.simps) simp

text \<open>
  A thread other than the caller that itself waits for a mutex cannot be suspended anew: \<^verbatim>\<open>rt_thread_suspend\<close> asserts
  that it is called for the calling thread.
\<close>

lemma update_priority_other:
  assumes k: "kinv {} k" and th: "threads k t = Some th" "stat th \<noteq> RT_THREAD_INIT" and p: "p < 32" and self: "rt_thread_self k \<noteq> Some t"
  shows "thread_update_priority t p k =
    (if stat th = RT_THREAD_SUSPEND \<and> pending_object th \<noteq> None then None else thread_change_priority k t p)"
proof -
  obtain k1 where k1: "thread_change_priority k t p = Some k1" "same_env k k1"
      "threads k1 = (threads k)(t \<mapsto> th\<lparr>current_priority := p, number_mask := 2 ^ p\<rparr>)"
    using change_priority_ok [OF k th p] by blast
  have self1: "rt_thread_self (tlist_remove k1 t) \<noteq> Some t"
    using self same_env_self [OF k1(2)] by (simp add: tlist_remove_def rt_thread_self_def rt_cpu_self_def)
  show ?thesis
  proof (cases "stat th = RT_THREAD_SUSPEND \<and> pending_object th \<noteq> None")
    case True
    then obtain m where m: "pending_object th = Some m" by auto
    have "ipc_list_suspend (tlist_remove k1 t) (MutexQ m) t RT_IPC_FLAG_PRIO = None"
      using self1 k1(3) by (simp add: ipc_list_suspend_def rt_thread_suspend_def tlist_remove_def RT_ASSERT_def)
    then have "thread_update_priority t p k = None"
      using k1 True m by (subst thread_update_priority.simps) (auto simp: bind_eq_None_conv split: option.splits)
    then show ?thesis using True by simp
  next
    case False
    then show ?thesis using update_priority_plain [OF th(1) _ k1(1,3)] k1(1) by auto
  qed
qed

text \<open>A suspended thread may be taken off its list.\<close>

lemma kinv_unlist:
  assumes k: "kinv {} k" and th: "threads k t = Some th" "stat th = RT_THREAD_SUSPEND"
  shows "kinv {} (tlist_remove k t)"
proof -
  note ok = kinvD(1) [OF k]
  let ?k = "tlist_remove k t"
  have r: "remove1 t (tlists k l) = tlists k l" if "is_readyq l" for l
  proof (rule remove1_idem, rule notI)
    assume "t \<in> set (tlists k l)"
    then show False using sched_okD(7) [OF ok, of t l] th that by (auto simp: lid_stat_def)
  qed
  have s: "u \<in> set (tlists k l)" if "u \<in> set (tlists ?k l)" for u l
    using that set_remove1_subset by (fastforce simp: tlist_remove_def)
  have "sched_ok {} ?k"
    unfolding sched_ok_def
  proof (intro conjI allI impI)
    fix u uh assume "threads ?k u = Some uh" "u \<notin> {} \<and> stat uh = RT_THREAD_READY"
    moreover from this have "u \<noteq> t" using th by (auto simp: tlist_remove_def)
    ultimately show "u \<in> set (tlists ?k (readyq uh))" using sched_okD(9) [OF ok, of u uh] by (simp add: tlist_remove_def)
  next
    fix l l' u assume "u \<in> set (tlists ?k l)" "u \<in> set (tlists ?k l')"
    then show "l = l'" using sched_okD(5) [OF ok] s by blast
  next
    fix l u assume "u \<in> set (tlists ?k l)"
    then show "\<exists>h. threads ?k u = Some h \<and> stat h = lid_stat l \<and> (is_readyq l \<longrightarrow> l = readyq h)"
      using sched_okD(7) [OF ok s] by (simp add: tlist_remove_def)
  qed (use sched_okD(1-4,8) [OF ok] r in \<open>auto simp: tlist_remove_def\<close>)
  moreover have "cpu_ok ?k" "timer_link ?k" "lock_ok ?k" using kinvD(2-4) [OF k] by (simp_all add: tlist_remove_def)
  ultimately show ?thesis by (simp add: kinv_def)
qed

text \<open>The thread with a new priority.\<close>

definition raised :: "nat \<Rightarrow> rt_thread \<Rightarrow> rt_thread" where
  "raised p th = th\<lparr>current_priority := p, number_mask := 2 ^ p\<rparr>"

lemma raised_same:
  assumes "kinv X k" "threads k t = Some th" "stat th \<noteq> RT_THREAD_INIT"
  shows "raised (current_priority th) th = th"
  using sched_okD(8) [OF kinvD(1) [OF assms(1)] assms(2)] assms(3) by (auto simp: thread_wf_def raised_def)

lemma raised_sel [simp]:
  "stat (raised p th) = stat th" "current_priority (raised p th) = p" "init_priority (raised p th) = init_priority th"
  "error (raised p th) = error th" "taken_object_list (raised p th) = taken_object_list th" "pending_object (raised p th) = pending_object th"
  "bind_cpu (raised p th) = bind_cpu th" "critical_lock_nest (raised p th) = critical_lock_nest th"
  by (simp_all add: raised_def)

section \<open>The priority of a mutex\<close>

definition head_prio :: "kernel \<Rightarrow> nat \<Rightarrow> nat" where
  "head_prio k m = (case tlists k (MutexQ m) of [] \<Rightarrow> 255 | t # _ \<Rightarrow> prio_of k t)"

lemma mutex_update_priority_ok:
  assumes k: "kinv {} k" and mx: "mutexes k m = Some mx"
  shows "mutex_update_priority k m = Some (k\<lparr>mutexes := (mutexes k)(m \<mapsto> mx\<lparr>mutex_priority := head_prio k m\<rparr>)\<rparr>)"
proof (cases "tlists k (MutexQ m)")
  case Nil
  then show ?thesis using mx by (simp add: mutex_update_priority_def upd_mutex_def head_prio_def)
next
  case (Cons t ts)
  obtain th where "threads k t = Some th"
    by (rule waiting_thread [OF kinvD(1) [OF k] waitq_simps(2), of t m]) (simp_all add: Cons)
  then show ?thesis using Cons mx by (simp add: mutex_update_priority_def upd_mutex_def head_prio_def prio_of_def)
qed

section \<open>Taking a free mutex\<close>

definition ceiling_ok :: "rt_mutex \<Rightarrow> bool" where
  "ceiling_ok mx \<longleftrightarrow> ceiling_priority mx = 255 \<or> ceiling_priority mx < 32"

lemma mutex_acquire_ok:
  assumes k: "kinv {} k" and mx: "mutexes k m = Some mx" "ceiling_ok mx" and th: "threads k t = Some th" "stat th = RT_THREAD_RUNNING"
  shows "\<exists>k' h. mutex_acquire k m t = Some k' \<and> kinv {} k' \<and> same_env k k' \<and>
    mutexes k' = (mutexes k)(m \<mapsto> mx\<lparr>owner := Some t, mutex_priority := 255, hold := 1\<rparr>) \<and>
    threads k' = (threads k)(t \<mapsto> h) \<and> (\<forall>l. \<not> is_readyq l \<longrightarrow> tlists k' l = tlists k l) \<and>
    stat h = RT_THREAD_RUNNING \<and> error h = error th \<and> pending_object h = pending_object th \<and> init_priority h = init_priority th \<and>
    taken_object_list h = (if ceiling_priority mx = 255 then m # taken_object_list th else taken_object_list th) \<and>
    current_priority h = min (ceiling_priority mx) (current_priority th)"
proof -
  let ?mx = "mx\<lparr>owner := Some t, mutex_priority := 255, hold := 1\<rparr>"
  let ?k1 = "k\<lparr>mutexes := (mutexes k)(m \<mapsto> ?mx)\<rparr>"
  have k1: "kinv {} ?k1" "threads ?k1 t = Some th" using k th by simp_all
  have p: "current_priority th < 32" using sched_okD(8) [OF kinvD(1) [OF k] th(1)] by (simp add: thread_wf_def)
  have run: "mutex_acquire k m t = (if ceiling_priority mx \<noteq> 255 then
      (if ceiling_priority mx < current_priority th then thread_update_priority t (ceiling_priority mx) ?k1 else Some ?k1)
      else taken_insert ?k1 t m)"
    using mx th by (simp add: mutex_acquire_def upd_mutex_def)
  consider (taken) "ceiling_priority mx = 255" | (low) "ceiling_priority mx \<noteq> 255" "\<not> ceiling_priority mx < current_priority th"
    | (ceil) "ceiling_priority mx < 32" "ceiling_priority mx < current_priority th"
    using mx(2) by (auto simp: ceiling_ok_def)
  then show ?thesis
  proof cases
    case taken
    let ?h = "th\<lparr>taken_object_list := m # taken_object_list th\<rparr>"
    have "kinv {} (?k1\<lparr>threads := (threads k)(t \<mapsto> ?h)\<rparr>)"
      using kinv_upd [OF k1, of ?h] by (simp add: same_thread_def)
    then show ?thesis
      using run taken th p by (intro exI [of _ "?k1\<lparr>threads := (threads k)(t \<mapsto> ?h)\<rparr>"] exI [of _ ?h]) (simp add: taken_insert_def upd_thread_def same_env_def)
  next
    case low
    have "(threads k)(t \<mapsto> th) = threads k" using th by auto
    then show ?thesis using run low k1 th by (intro exI [of _ ?k1] exI [of _ th]) (simp add: same_env_def)
  next
    case ceil
    obtain k' where k': "thread_change_priority ?k1 t (ceiling_priority mx) = Some k'" "kinv {} k'" "same_objs ?k1 k'" "same_env ?k1 k'"
        "threads k' = (threads k)(t \<mapsto> raised (ceiling_priority mx) th)" "\<forall>l. \<not> is_readyq l \<longrightarrow> tlists k' l = tlists k l"
      using change_priority_ok [OF k1, of "ceiling_priority mx"] ceil th by (auto simp: raised_def)
    have "thread_update_priority t (ceiling_priority mx) ?k1 = Some k'"
      by (rule update_priority_plain [OF k1(2) _ k'(1)]) (use th k'(5) in \<open>simp_all add: raised_def\<close>)
    then show ?thesis
      using run ceil k' th by (intro exI [of _ k'] exI [of _ "raised (ceiling_priority mx) th"]) (simp add: same_env_def same_objs_def)
  qed
qed

section \<open>Waiting for a mutex\<close>

definition wait_prio :: "rt_mutex \<Rightarrow> rt_thread \<Rightarrow> rt_thread \<Rightarrow> nat" where
  "wait_prio mx th oh = (if current_priority th < mutex_priority mx then min (current_priority th) (current_priority oh) else current_priority oh)"

text \<open>The owner, if it has to be raised, does not itself wait for a mutex.\<close>

definition no_chain :: "rt_mutex \<Rightarrow> rt_thread \<Rightarrow> rt_thread \<Rightarrow> bool" where
  "no_chain mx th oh \<longleftrightarrow> wait_prio mx th oh \<noteq> current_priority oh \<longrightarrow> stat oh \<noteq> RT_THREAD_SUSPEND \<or> pending_object oh = None"

text \<open>The part of the call that raises the owner.\<close>

lemma mutex_raise_ok:
  assumes k: "kinv {} k" and mx: "mutexes k m = Some mx" "owner mx = Some own" and oh: "threads k own = Some oh" "stat oh \<noteq> RT_THREAD_INIT"
    and self: "rt_thread_self k \<noteq> Some own" and th: "current_priority th < 32"
  defines "f \<equiv> (if current_priority th < mutex_priority mx then do {
        k3 \<leftarrow> upd_mutex k m (mutex_priority_update (\<lambda>_. current_priority th));
        own \<leftarrow> owner mx;
        oh \<leftarrow> threads k3 own;
        (if current_priority th < current_priority oh then thread_update_priority own (current_priority th) k3 else Some k3)
      } else Some k)"
  shows "\<not> no_chain mx th oh \<Longrightarrow> f = None"
    "no_chain mx th oh \<Longrightarrow> \<exists>k'. f = Some k' \<and> kinv {} k' \<and> same_env k k' \<and>
      mutexes k' = (mutexes k)(m \<mapsto> mx\<lparr>mutex_priority := min (mutex_priority mx) (current_priority th)\<rparr>) \<and>
      threads k' = (threads k)(own \<mapsto> raised (wait_prio mx th oh) oh) \<and> (\<forall>l. \<not> is_readyq l \<longrightarrow> tlists k' l = tlists k l)"
proof -
  let ?k3 = "k\<lparr>mutexes := (mutexes k)(m \<mapsto> mx\<lparr>mutex_priority := min (mutex_priority mx) (current_priority th)\<rparr>)\<rparr>"
  have k3: "kinv {} ?k3" "threads ?k3 own = Some oh" "rt_thread_self ?k3 \<noteq> Some own"
    using k oh self by (simp_all add: rt_thread_self_def rt_cpu_self_def)
  note up = update_priority_other [OF k3(1,2) oh(2) th k3(3)]
  have same: "(mutexes k)(m \<mapsto> mx) = mutexes k" "(threads k)(own \<mapsto> oh) = threads k" using mx oh by auto
  have f: "f = (if wait_prio mx th oh \<noteq> current_priority oh then thread_update_priority own (current_priority th) ?k3 else Some ?k3)"
  proof (cases "current_priority th < mutex_priority mx")
    case True
    then show ?thesis using mx oh by (auto simp: f_def upd_mutex_def wait_prio_def min_def)
  next
    case False
    then have "mx\<lparr>mutex_priority := min (mutex_priority mx) (current_priority th)\<rparr> = mx" by simp
    then show ?thesis using False same(1) by (simp add: f_def wait_prio_def)
  qed
  show "f = None" if "\<not> no_chain mx th oh" using that f up by (auto simp: no_chain_def)
  assume nc: "no_chain mx th oh"
  show "\<exists>k'. f = Some k' \<and> kinv {} k' \<and> same_env k k' \<and>
      mutexes k' = (mutexes k)(m \<mapsto> mx\<lparr>mutex_priority := min (mutex_priority mx) (current_priority th)\<rparr>) \<and>
      threads k' = (threads k)(own \<mapsto> raised (wait_prio mx th oh) oh) \<and> (\<forall>l. \<not> is_readyq l \<longrightarrow> tlists k' l = tlists k l)"
  proof (cases "wait_prio mx th oh = current_priority oh")
    case True
    then show ?thesis using f k3 raised_same [OF k oh] same by (intro exI [of _ ?k3]) (simp add: same_env_def)
  next
    case False
    then have w: "wait_prio mx th oh = current_priority th" by (auto simp: wait_prio_def min_def split: if_splits)
    obtain k' where k': "thread_change_priority ?k3 own (current_priority th) = Some k'" "kinv {} k'" "same_objs ?k3 k'" "same_env ?k3 k'"
        "threads k' = (threads k)(own \<mapsto> raised (current_priority th) oh)" "\<forall>l. \<not> is_readyq l \<longrightarrow> tlists k' l = tlists k l"
      using change_priority_ok [OF k3(1,2) oh(2) th] by (auto simp: raised_def)
    have "f = Some k'" using f False nc up k'(1) by (auto simp: no_chain_def)
    then show ?thesis using k' w by (intro exI [of _ k']) (simp add: same_env_def same_objs_def)
  qed
qed

text \<open>The whole wait.\<close>

definition mutex_blocked :: "kernel \<Rightarrow> nat \<Rightarrow> tid \<Rightarrow> rt_thread \<Rightarrow> rt_mutex \<Rightarrow> tid \<Rightarrow> rt_thread \<Rightarrow> int \<Rightarrow> kernel \<Rightarrow> bool" where
  "mutex_blocked k m t th mx own oh timeout k' \<longleftrightarrow> kinv {} k' \<and>
     mutexes k' = (mutexes k)(m \<mapsto> mx\<lparr>mutex_priority := min (mutex_priority mx) (current_priority th)\<rparr>) \<and>
     tlists k' (MutexQ m) = wait_insert k RT_IPC_FLAG_PRIO t (tlists k (MutexQ m)) \<and>
     (\<forall>l. \<not> is_readyq l \<and> l \<noteq> MutexQ m \<longrightarrow> tlists k' l = tlists k l) \<and>
     (\<forall>u. rel_option sched_eq (((threads k)(t \<mapsto> th\<lparr>stat := RT_THREAD_SUSPEND, pending_object := Some m\<rparr>,
        own \<mapsto> raised (wait_prio mx th oh) oh)) u) (threads k' u)) \<and>
     (\<exists>u uh. rt_thread_self k' = Some u \<and> u \<noteq> t \<and> threads k' u = Some uh \<and> stat uh = RT_THREAD_RUNNING \<and> lowest_ready k' uh) \<and>
     (0 < timeout \<longrightarrow> (\<exists>tm. timers (ktimers k') (ThreadTimer t) = Some tm \<and> activated tm \<and>
        timeout_tick tm = u32 (tick (ktimers k) + timeout)))"

lemma mutex_wait_ok:
  assumes k: "kinv {} k" and b: "can_block k t th" and mx: "mutexes k m = Some mx" "owner mx = Some own"
    and oh: "threads k own = Some oh" "stat oh \<noteq> RT_THREAD_INIT" "own \<noteq> t" and n: "timeout < half"
  shows "\<not> no_chain mx th oh \<Longrightarrow> mutex_wait k m t timeout = None"
    "no_chain mx th oh \<Longrightarrow> \<exists>k'. mutex_wait k m t timeout = Some (Blocked, k') \<and> mutex_blocked k m t th mx own oh timeout k'"
proof -
  note B = b [unfolded can_block_def]
  let ?th = "th\<lparr>stat := RT_THREAD_SUSPEND, pending_object := Some m\<rparr>"
  obtain k1 where k1: "ipc_list_suspend k (MutexQ m) t RT_IPC_FLAG_PRIO = Some k1" "kinv {} k1" "same_env k k1" "same_objs k k1"
      "threads k1 = (threads k)(t \<mapsto> th\<lparr>stat := RT_THREAD_SUSPEND\<rparr>)"
      "tlists k1 = (tlists k)(MutexQ m := wait_insert k RT_IPC_FLAG_PRIO t (tlists k (MutexQ m)))"
    using ipc_suspend_ok [OF k, of t th "MutexQ m" RT_IPC_FLAG_PRIO] B by auto
  let ?k2 = "k1\<lparr>threads := (threads k)(t \<mapsto> ?th)\<rparr>"
  have u2: "upd_thread k1 t (pending_object_update (\<lambda>_. Some m)) = Some ?k2" by (simp add: upd_thread_def k1(5))
  have k2: "kinv {} ?k2" using kinv_upd [OF k1(2), of t _ ?th] by (simp add: k1(5) same_thread_def)
  have p: "current_priority th < 32" using sched_okD(8) [OF kinvD(1) [OF k], of t th] B by (simp add: thread_wf_def)
  have own2: "mutexes ?k2 m = Some mx" "threads ?k2 own = Some oh" "rt_thread_self ?k2 \<noteq> Some own"
    using k1(3,4) mx oh B same_env_self [OF k1(3)] by (auto simp: same_objs_def rt_thread_self_def rt_cpu_self_def)
  note R = mutex_raise_ok [OF k2 own2(1) mx(2) own2(2) oh(2) own2(3) p]
  have th: "threads k t = Some th" using B by blast
  show "mutex_wait k m t timeout = None" if "\<not> no_chain mx th oh"
    using R(1) [OF that] th k1(1) u2 own2(1) by (simp add: mutex_wait_def Let_def)
  assume nc: "no_chain mx th oh"
  obtain k4 where k4: "(if current_priority th < mutex_priority mx then do {
        k3 \<leftarrow> upd_mutex ?k2 m (mutex_priority_update (\<lambda>_. current_priority th));
        own \<leftarrow> owner mx;
        oh \<leftarrow> threads k3 own;
        (if current_priority th < current_priority oh then thread_update_priority own (current_priority th) k3 else Some k3)
      } else Some ?k2) = Some k4" "kinv {} k4" "same_env ?k2 k4"
      "mutexes k4 = (mutexes ?k2)(m \<mapsto> mx\<lparr>mutex_priority := min (mutex_priority mx) (current_priority th)\<rparr>)"
      "threads k4 = (threads ?k2)(own \<mapsto> raised (wait_prio mx th oh) oh)" "\<forall>l. \<not> is_readyq l \<longrightarrow> tlists k4 l = tlists ?k2 l"
    using R(2) [OF nc] by blast
  have t4: "threads k4 t = Some ?th" "stat ?th = RT_THREAD_SUSPEND" using oh(3) by (simp_all add: k4(5))
  have env: "same_env k k4" using k1(3) k4(3) by (simp add: same_env_def)
  have self: "rt_thread_self k4 = Some t" "irq_nest (rt_cpu_self k4) = 0" using same_env_self [OF env] B by simp_all
  have el: "\<exists>u uh. eligible k4 u uh"
  proof -
    obtain u uh where u: "eligible k u uh" using B by blast
    then have "u \<noteq> t" using B by (auto simp: eligible_def)
    then have "eligible k4 u (if u = own then raised (wait_prio mx th oh) oh else uh)"
      using u oh env by (auto simp: eligible_def k4(5) same_env_def)
    then show ?thesis by blast
  qed
  obtain k5 k' where k': "(if timeout > 0 then rt_thread_timer_start k4 t timeout else Some k4) = Some k5" "rt_schedule k5 = Some k'"
      "kinv {} k'" "same_objs k4 k'" "wait_same k4 k'"
      "\<exists>u uh. rt_thread_self k' = Some u \<and> u \<noteq> t \<and> threads k' u = Some uh \<and> stat uh = RT_THREAD_RUNNING \<and> lowest_ready k' uh"
      "0 < timeout \<longrightarrow> (\<exists>tm. timers (ktimers k') (ThreadTimer t) = Some tm \<and> activated tm \<and> timeout_tick tm = u32 (tick (ktimers k4) + timeout))"
    using wait_switch_ok [OF k4(2) self t4 el n] by blast
  have "tlists k' l = tlists k4 l" if "\<not> is_readyq l" for l using k'(5) that by (simp add: wait_same_def)
  moreover have "rel_option sched_eq (threads k4 v) (threads k' v)" for v using k'(5) by (simp add: wait_same_def)
  moreover have "mutexes k' = mutexes k4" "tick (ktimers k4) = tick (ktimers k)" "mutexes ?k2 = mutexes k"
    using k'(4) env k1(4) by (simp_all add: same_objs_def same_env_def)
  ultimately have "mutex_blocked k m t th mx own oh timeout k'"
    unfolding mutex_blocked_def using k'(3,6,7) k4(4-6) k1(6) by simp
  moreover have "mutex_wait k m t timeout = Some (Blocked, k')"
    using th k1(1) u2 own2(1) k4(1) k'(1,2) by (simp add: mutex_wait_def Let_def)
  ultimately show "\<exists>k'. mutex_wait k m t timeout = Some (Blocked, k') \<and> mutex_blocked k m t th mx own oh timeout k'" by blast
qed

section \<open>Giving a mutex up\<close>

lemma mutex_restore_ok:
  assumes k: "kinv {} k" and mx: "mutexes k m = Some mx" and th: "threads k t = Some th" "stat th \<noteq> RT_THREAD_INIT" "live_taken k th"
  shows "\<exists>n k'. mutex_restore k m t = Some (n, k') \<and> kinv {} k' \<and> same_env k k' \<and> same_objs k k' \<and>
    threads k' = (threads k)(t \<mapsto> raised (if ceiling_priority mx \<noteq> 255 \<or> current_priority th = mutex_priority mx
      then inherited k th else current_priority th) th) \<and> (\<forall>l. \<not> is_readyq l \<longrightarrow> tlists k' l = tlists k l)"
proof (cases "ceiling_priority mx \<noteq> 255 \<or> current_priority th = mutex_priority mx")
  case True
  have p: "inherited k th < 32" using inherited_le(1) [of k th] sched_okD(8) [OF kinvD(1) [OF k] th(1)] by (simp add: thread_wf_def)
  obtain k' where k': "thread_change_priority k t (inherited k th) = Some k'" "kinv {} k'" "same_env k k'" "same_objs k k'"
      "threads k' = (threads k)(t \<mapsto> raised (inherited k th) th)" "\<forall>l. \<not> is_readyq l \<longrightarrow> tlists k' l = tlists k l"
    using change_priority_ok [OF k th(1,2) p] by (auto simp: raised_def)
  have "mutex_restore k m t = Some (True, k')"
    using True mx th(1) k'(1) get_mutex_priority_ok [OF th(1,3)] by (auto simp: mutex_restore_def)
  then show ?thesis unfolding if_P [OF True] using k' by blast
next
  case False
  have "mutex_restore k m t = Some (False, k)" using False mx th(1) by (simp add: mutex_restore_def)
  moreover have "(threads k)(t \<mapsto> th) = threads k" using th(1) by auto
  ultimately show ?thesis unfolding if_not_P [OF False] using k raised_same [OF k th(1,2)] by (intro exI [of _ False] exI [of _ k]) simp
qed

definition handed :: "nat \<Rightarrow> rt_thread \<Rightarrow> rt_thread" where
  "handed m th = resumed (th\<lparr>taken_object_list := m # taken_object_list th, pending_object := None\<rparr>)"

lemma mutex_hand_over_ok:
  assumes k: "kinv {} k" and mx: "mutexes k m = Some mx" and q: "tlists k (MutexQ m) = t # ts" and th: "threads k t = Some th"
  shows "\<exists>k'. mutex_hand_over k m = Some (True, k') \<and> kinv {} k' \<and> same_env k k' \<and>
    mutexes k' = (mutexes k)(m \<mapsto> mx\<lparr>owner := Some t, hold := 1, mutex_priority := (case ts of [] \<Rightarrow> 255 | u # _ \<Rightarrow> prio_of k u)\<rparr>) \<and>
    threads k' = (threads k)(t \<mapsto> handed m th) \<and> tlists k' (MutexQ m) = ts \<and>
    (\<forall>l. \<not> is_readyq l \<and> l \<noteq> MutexQ m \<longrightarrow> tlists k' l = tlists k l)"
proof -
  note ok = kinvD(1) [OF k]
  have tq: "t \<in> set (tlists k (MutexQ m))" using q by simp
  have st: "stat th = RT_THREAD_SUSPEND"
    using waiting_thread [OF ok waitq_simps(2) tq] th by (metis option.inject)
  have ts: "t \<notin> set ts" using sched_okD(4) [OF ok, of "MutexQ m"] q by simp
  let ?h = "th\<lparr>taken_object_list := m # taken_object_list th, pending_object := None\<rparr>"
  let ?mx = "mx\<lparr>owner := Some t, hold := 1\<rparr>"
  let ?k4 = "(tlist_remove k t)\<lparr>mutexes := (mutexes k)(m \<mapsto> ?mx), threads := (threads k)(t \<mapsto> ?h)\<rparr>"
  have k4: "kinv {} ?k4"
    using kinv_upd [of "{}" "(tlist_remove k t)\<lparr>mutexes := (mutexes k)(m \<mapsto> ?mx)\<rparr>" t th ?h] kinv_unlist [OF k th st] th
    by (simp add: tlist_remove_def same_thread_def)
  obtain k5 where k5: "rt_thread_resume ?k4 t = Some (RT_EOK, k5)" "kinv {} k5" "same_env ?k4 k5" "same_objs ?k4 k5"
      "threads k5 = (threads k)(t \<mapsto> handed m th)" "tlists k5 = enqueue_ready (\<lambda>l. remove1 t (tlists ?k4 l)) t ?h"
    using resume_ok [OF k4, of t ?h] st by (auto simp: handed_def)
  have l: "tlists k5 l = remove1 t (tlists k l)" if "\<not> is_readyq l" for l
  proof -
    have "distinct (tlists k l)" using sched_okD(4) [OF ok] by simp
    then have "t \<notin> set (remove1 t (tlists k l))" by simp
    then show ?thesis using that by (simp add: k5(6) enqueue_ready_other tlist_remove_def remove1_idem)
  qed
  have mx5: "mutexes k5 = (mutexes k)(m \<mapsto> ?mx)" using k5(4) by (simp add: same_objs_def)
  have hp: "head_prio k5 m = (case ts of [] \<Rightarrow> 255 | u # _ \<Rightarrow> prio_of k u)"
    using l [of "MutexQ m"] q ts k5(5) by (auto simp: head_prio_def prio_of_def split: list.splits)
  let ?k' = "k5\<lparr>mutexes := (mutexes k)(m \<mapsto> ?mx\<lparr>mutex_priority := head_prio k5 m\<rparr>)\<rparr>"
  have "mutex_update_priority k5 m = Some ?k'" using mutex_update_priority_ok [OF k5(2), of m ?mx] by (simp add: mx5)
  then have "mutex_hand_over k m = Some (True, ?k')"
    using q mx th k5(1) by (simp add: mutex_hand_over_def upd_mutex_def taken_insert_def upd_thread_def tlist_remove_def)
  moreover have "same_env k ?k'" using k5(3) by (simp add: same_env_def tlist_remove_def)
  moreover have "remove1 t (tlists k l') = tlists k l'" if "l' \<noteq> MutexQ m" for l' by (rule remove1_other [OF ok tq that])
  ultimately show ?thesis using k5(2,5) l q hp by (intro exI [of _ ?k']) simp
qed

section \<open>The invariant\<close>

text \<open>
  A mutex is free or held by one thread, which is not among those waiting for it; who waits
  is marked as waiting for it, and it is on nobody's list of taken objects but its owner's.
\<close>

definition mx_ok :: "kernel \<Rightarrow> nat \<Rightarrow> rt_mutex \<Rightarrow> bool" where
  "mx_ok k m mx \<longleftrightarrow> 0 \<le> hold mx \<and> hold mx \<le> 255 \<and> ceiling_ok mx \<and> (owner mx = None \<longleftrightarrow> hold mx = 0) \<and>
     (owner mx = None \<longrightarrow> tlists k (MutexQ m) = []) \<and>
     (\<forall>t. owner mx = Some t \<longrightarrow> t \<notin> set (tlists k (MutexQ m)) \<and> (\<exists>th. threads k t = Some th \<and> stat th \<noteq> RT_THREAD_INIT)) \<and>
     (\<forall>t th. threads k t = Some th \<and> m \<in> set (taken_object_list th) \<longrightarrow> owner mx = Some t \<and> m \<notin> set (remove1 m (taken_object_list th))) \<and>
     (\<forall>t \<in> set (tlists k (MutexQ m)). \<exists>th. threads k t = Some th \<and> error th = RT_EOK \<and> pending_object th = Some m)"

definition mutex_ok :: "nat \<Rightarrow> kernel \<Rightarrow> bool" where
  "mutex_ok m k \<longleftrightarrow> kinv {} k \<and> (\<exists>mx. mutexes k m = Some mx \<and> mx_ok k m mx)"

lemma mutex_okD:
  assumes "mutex_ok m k" "mutexes k m = Some mx"
  shows "kinv {} k" "mx_ok k m mx"
  using assms by (auto simp: mutex_ok_def)

lemma mx_okD:
  assumes "mx_ok k m mx"
  shows "0 \<le> hold mx" "hold mx \<le> 255" "ceiling_ok mx" "owner mx = None \<longleftrightarrow> hold mx = 0" "owner mx = None \<Longrightarrow> tlists k (MutexQ m) = []"
    "owner mx = Some t \<Longrightarrow> t \<notin> set (tlists k (MutexQ m))" "owner mx = Some t \<Longrightarrow> \<exists>th. threads k t = Some th \<and> stat th \<noteq> RT_THREAD_INIT"
    "threads k t = Some th \<Longrightarrow> m \<in> set (taken_object_list th) \<Longrightarrow> owner mx = Some t \<and> m \<notin> set (remove1 m (taken_object_list th))"
    "t \<in> set (tlists k (MutexQ m)) \<Longrightarrow> \<exists>th. threads k t = Some th \<and> error th = RT_EOK \<and> pending_object th = Some m"
  using assms unfolding mx_ok_def by blast+

text \<open>Removing it from the list of taken objects is a change of its owner only.\<close>

lemma taken_remove_owner:
  assumes "mx_ok k m mx" "owner mx = Some t" "threads k t = Some th"
  shows "(\<lambda>u. map_option (taken_object_list_update (remove1 m)) (threads k u)) = (threads k)(t \<mapsto> taken_object_list_update (remove1 m) th)"
proof -
  have "map_option (taken_object_list_update (remove1 m)) (threads k u) = threads k u" if "u \<noteq> t" for u
  proof (cases "threads k u")
    case (Some uh)
    then have "m \<notin> set (taken_object_list uh)" using mx_okD(8) [OF assms(1) Some] assms(2) that by auto
    then show ?thesis using Some by (simp add: remove1_idem)
  qed simp
  then show ?thesis using assms(3) by (auto simp: fun_eq_iff)
qed

end
