(* ===== verification/Mutex_Props.thy ===== *)
theory Mutex_Props
  imports Mutex_Inv
begin

text \<open>
  The properties of mutexes: taking and releasing on every branch, mutual exclusion over any
  interleaving, exact priority inheritance, and two ways in which the code fails.
\<close>

section \<open>Keeping the invariant\<close>

text \<open>What others may do to a mutex without calling it.\<close>

definition mutex_frame :: "nat \<Rightarrow> kernel \<Rightarrow> kernel \<Rightarrow> bool" where
  "mutex_frame m k k' \<longleftrightarrow> kinv {} k' \<and> (\<exists>mx mx'. mutexes k m = Some mx \<and> mutexes k' m = Some mx' \<and>
     owner mx' = owner mx \<and> hold mx' = hold mx \<and> ceiling_ok mx' \<and> set (tlists k' (MutexQ m)) \<subseteq> set (tlists k (MutexQ m)) \<and>
     (\<forall>t \<in> set (tlists k' (MutexQ m)). \<exists>th h. threads k t = Some th \<and> threads k' t = Some h \<and>
        error h = error th \<and> pending_object h = pending_object th) \<and>
     (\<forall>t. owner mx = Some t \<longrightarrow> (\<exists>h. threads k' t = Some h \<and> stat h \<noteq> RT_THREAD_INIT)) \<and>
     (\<forall>t h. threads k' t = Some h \<and> m \<in> set (taken_object_list h) \<longrightarrow>
        (\<exists>th. threads k t = Some th \<and> m \<in> set (taken_object_list th)) \<and> m \<notin> set (remove1 m (taken_object_list h))))"

lemma mutex_frame_ok:
  assumes "mutex_ok m k" "mutex_frame m k k'"
  shows "mutex_ok m k'"
proof -
  obtain mx mx' where F: "kinv {} k'" "mutexes k m = Some mx" "mutexes k' m = Some mx'" "owner mx' = owner mx" "hold mx' = hold mx"
      "ceiling_ok mx'" "set (tlists k' (MutexQ m)) \<subseteq> set (tlists k (MutexQ m))"
      "\<forall>t \<in> set (tlists k' (MutexQ m)). \<exists>th h. threads k t = Some th \<and> threads k' t = Some h \<and>
        error h = error th \<and> pending_object h = pending_object th"
      "\<forall>t. owner mx = Some t \<longrightarrow> (\<exists>h. threads k' t = Some h \<and> stat h \<noteq> RT_THREAD_INIT)"
      "\<forall>t h. threads k' t = Some h \<and> m \<in> set (taken_object_list h) \<longrightarrow>
        (\<exists>th. threads k t = Some th \<and> m \<in> set (taken_object_list th)) \<and> m \<notin> set (remove1 m (taken_object_list h))"
    using assms(2) unfolding mutex_frame_def by blast
  note D = mx_okD [OF mutex_okD(2) [OF assms(1) F(2)]]
  have "mx_ok k' m mx'"
    unfolding mx_ok_def
  proof (intro conjI allI impI ballI)
    fix t assume t: "t \<in> set (tlists k' (MutexQ m))"
    then show "\<exists>th. threads k' t = Some th \<and> error th = RT_EOK \<and> pending_object th = Some m"
      using F(7,8) D(9) [of t] by fastforce
  next
    show "owner mx' = None \<Longrightarrow> tlists k' (MutexQ m) = []" using D(5) F(4,7) by auto
  next
    fix t assume "owner mx' = Some t"
    then show "t \<notin> set (tlists k' (MutexQ m))" using D(6) F(4,7) by auto
  next
    fix t th assume t: "threads k' t = Some th \<and> m \<in> set (taken_object_list th)"
    then obtain h where "threads k t = Some h" "m \<in> set (taken_object_list h)" "m \<notin> set (remove1 m (taken_object_list th))" using F(10) by blast
    then show "owner mx' = Some t" "m \<notin> set (remove1 m (taken_object_list th))" using D(8) F(4) by auto
  qed (use D(1,2,4) F in auto)
  then show ?thesis using F(1,3) by (auto simp: mutex_ok_def)
qed

text \<open>Changes of threads that keep what the invariant reads.\<close>

definition mx_keeps :: "rt_thread \<Rightarrow> rt_thread \<Rightarrow> bool" where
  "mx_keeps a b \<longleftrightarrow> (stat a \<noteq> RT_THREAD_INIT \<longrightarrow> stat b \<noteq> RT_THREAD_INIT) \<and> taken_object_list b = taken_object_list a \<and>
     error b = error a \<and> pending_object b = pending_object a"

lemma mx_keeps_sched_eq: "sched_eq a b \<Longrightarrow> mx_keeps a b"
  by (cases "stat a") (auto simp: sched_eq_def mx_keeps_def)

lemma mx_keeps_raised: "mx_keeps a (raised p a)"
  by (simp add: mx_keeps_def)

lemma mx_keeps_trans: "mx_keeps a b \<Longrightarrow> mx_keeps b c \<Longrightarrow> mx_keeps a c"
  by (simp add: mx_keeps_def)

lemma mx_ok_same:
  assumes ok: "mx_ok k m mx" and k': "tlists k' (MutexQ m) = tlists k (MutexQ m)"
    and t: "\<And>u. rel_option mx_keeps (threads k u) (threads k' u)"
    and mx': "owner mx' = owner mx" "0 \<le> hold mx'" "hold mx' \<le> 255" "hold mx' = 0 \<longleftrightarrow> hold mx = 0" "ceiling_ok mx'"
  shows "mx_ok k' m mx'"
proof -
  note D = mx_okD [OF ok]
  have fwd: "\<exists>h. threads k' u = Some h \<and> mx_keeps uh h" if "threads k u = Some uh" for u uh
    using t [of u] that by (auto simp: option_rel_Some1)
  have bwd: "\<exists>uh. threads k u = Some uh \<and> mx_keeps uh h" if "threads k' u = Some h" for u h
    using t [of u] that by (auto simp: option_rel_Some2)
  show ?thesis
    unfolding mx_ok_def k'
  proof (intro conjI allI impI ballI)
    fix u h assume "threads k' u = Some h \<and> m \<in> set (taken_object_list h)"
    then obtain uh where "threads k u = Some uh" "taken_object_list h = taken_object_list uh" "m \<in> set (taken_object_list uh)"
      using bwd unfolding mx_keeps_def by metis
    then show "owner mx' = Some u" "m \<notin> set (remove1 m (taken_object_list h))" using D(8) [of u uh] mx'(1) by simp_all
  next
    fix u assume "u \<in> set (tlists k (MutexQ m))"
    then obtain uh where "threads k u = Some uh" "error uh = RT_EOK" "pending_object uh = Some m" using D(9) by blast
    then show "\<exists>th. threads k' u = Some th \<and> error th = RT_EOK \<and> pending_object th = Some m"
      using fwd unfolding mx_keeps_def by metis
  next
    fix u assume "owner mx' = Some u"
    then obtain uh where "threads k u = Some uh" "stat uh \<noteq> RT_THREAD_INIT" using D(7) mx'(1) by auto
    then show "\<exists>th. threads k' u = Some th \<and> stat th \<noteq> RT_THREAD_INIT" using fwd unfolding mx_keeps_def by metis
  qed (use D(4-6) mx' in auto)
qed

lemma mx_ok_upd:
  assumes ok: "mx_ok k m mx" and th: "threads k t = Some th" "t \<notin> set (tlists k (MutexQ m))"
    and h: "stat th \<noteq> RT_THREAD_INIT \<longrightarrow> stat h \<noteq> RT_THREAD_INIT" "taken_object_list h = taken_object_list th"
  shows "mx_ok (k\<lparr>threads := (threads k)(t \<mapsto> h)\<rparr>) m mx"
proof -
  let ?k = "k\<lparr>threads := (threads k)(t \<mapsto> h)\<rparr>"
  note D = mx_okD [OF ok]
  show ?thesis
    unfolding mx_ok_def
  proof (intro conjI allI impI ballI)
    fix u uh assume u: "threads ?k u = Some uh \<and> m \<in> set (taken_object_list uh)"
    obtain v where v: "threads k u = Some v" "taken_object_list v = taken_object_list uh"
      using u th(1) h(2) by (cases "u = t") auto
    then show "owner mx = Some u" "m \<notin> set (remove1 m (taken_object_list uh))"
      using D(8) [OF v(1), unfolded v(2)] u by blast+
  next
    fix u assume u: "u \<in> set (tlists ?k (MutexQ m))"
    then have "u \<noteq> t" using th(2) by auto
    then show "\<exists>uh. threads ?k u = Some uh \<and> error uh = RT_EOK \<and> pending_object uh = Some m" using D(9) [of u] u by simp
  next
    fix u assume "owner mx = Some u"
    then show "\<exists>uh. threads ?k u = Some uh \<and> stat uh \<noteq> RT_THREAD_INIT" using D(7) [of u] th(1) h(1) by (cases "u = t") auto
  next
    show "owner mx = None \<Longrightarrow> tlists ?k (MutexQ m) = []" using D(5) by simp
    show "owner mx = Some u \<Longrightarrow> u \<notin> set (tlists ?k (MutexQ m))" for u using D(6) by simp
  qed (use D(1-4) in simp_all)
qed

section \<open>Taking\<close>

text \<open>Which branch is taken.\<close>

lemma take_branch:
  assumes mx: "mutexes k m = Some mx" and b: "can_block k t th"
  defines "k1 \<equiv> k\<lparr>threads := (threads k)(t \<mapsto> th\<lparr>error := RT_EOK\<rparr>)\<rparr>"
  shows "rt_mutex_take k m timeout =
    (if owner mx = Some t then
       (if hold mx < 255 then Some (Done RT_EOK, k1\<lparr>mutexes := (mutexes k)(m \<mapsto> mx\<lparr>hold := u8 (hold mx + 1)\<rparr>)\<rparr>)
        else Some (Done (- RT_EFULL), k1))
     else if owner mx = None then do { k2 \<leftarrow> mutex_acquire k1 m t; Some (Done RT_EOK, k2) }
     else if timeout = 0 then Some (Done (- RT_ETIMEOUT), k\<lparr>threads := (threads k)(t \<mapsto> th\<lparr>error := - RT_ETIMEOUT\<rparr>)\<rparr>)
     else mutex_wait k1 m t timeout)"
  using b [unfolded can_block_def] mx can_block_available [OF b, of True]
  by (simp add: rt_mutex_take_def k1_def upd_thread_def RT_MUTEX_HOLD_MAX_def)

text \<open>The caller's error code does not matter.\<close>

lemma take_reset:
  assumes ok: "mutex_ok m k" and mx: "mutexes k m = Some mx" and b: "can_block k t th"
  shows "kinv {} (k\<lparr>threads := (threads k)(t \<mapsto> th\<lparr>error := e\<rparr>)\<rparr>)" "can_block (k\<lparr>threads := (threads k)(t \<mapsto> th\<lparr>error := e\<rparr>)\<rparr>) t (th\<lparr>error := e\<rparr>)"
    "mx_ok (k\<lparr>threads := (threads k)(t \<mapsto> th\<lparr>error := e\<rparr>)\<rparr>) m mx" "t \<notin> set (tlists k (MutexQ m))"
proof -
  note k = mutex_okD [OF ok mx]
  show w: "t \<notin> set (tlists k (MutexQ m))"
    by (rule running_not_waiting [OF k(1) waitq_simps(2)]) (use b in \<open>auto simp: can_block_def\<close>)
  show "kinv {} (k\<lparr>threads := (threads k)(t \<mapsto> th\<lparr>error := e\<rparr>)\<rparr>)" "can_block (k\<lparr>threads := (threads k)(t \<mapsto> th\<lparr>error := e\<rparr>)\<rparr>) t (th\<lparr>error := e\<rparr>)"
    by (rule can_block_upd [OF k(1) b]; simp add: same_thread_def)+
  show "mx_ok (k\<lparr>threads := (threads k)(t \<mapsto> th\<lparr>error := e\<rparr>)\<rparr>) m mx"
    by (rule mx_ok_upd [OF k(2) _ w]) (use b in \<open>auto simp: can_block_def\<close>)
qed

lemma take_free:
  assumes ok: "mutex_ok m k" and mx: "mutexes k m = Some mx" "owner mx = None" and b: "can_block k t th"
  shows "\<exists>k' h. rt_mutex_take k m timeout = Some (Done RT_EOK, k') \<and> mutex_ok m k' \<and>
    mutexes k' m = Some (mx\<lparr>owner := Some t, mutex_priority := 255, hold := 1\<rparr>) \<and> threads k' t = Some h \<and>
    current_priority h = min (ceiling_priority mx) (current_priority th)"
proof -
  let ?th = "th\<lparr>error := RT_EOK\<rparr>"
  let ?k1 = "k\<lparr>threads := (threads k)(t \<mapsto> ?th)\<rparr>"
  let ?mx = "mx\<lparr>owner := Some t, mutex_priority := 255, hold := 1\<rparr>"
  note T = take_reset(1-3) [OF ok mx(1) b, of RT_EOK] and D = mx_okD [OF take_reset(3) [OF ok mx(1) b, of RT_EOK]]
  obtain k' h where k': "mutex_acquire ?k1 m t = Some k'" "kinv {} k'" "mutexes k' = (mutexes ?k1)(m \<mapsto> ?mx)"
      "threads k' = (threads ?k1)(t \<mapsto> h)" "\<forall>l. \<not> is_readyq l \<longrightarrow> tlists k' l = tlists ?k1 l" "stat h = RT_THREAD_RUNNING"
      "taken_object_list h = (if ceiling_priority mx = 255 then m # taken_object_list ?th else taken_object_list ?th)"
      "current_priority h = min (ceiling_priority mx) (current_priority ?th)"
    using mutex_acquire_ok [OF T(1), of m mx t ?th] T(2) D(3) mx(1) by (auto simp: can_block_def)
  have nt: "m \<notin> set (taken_object_list uh)" if "threads ?k1 u = Some uh" for u uh using D(8) [OF that] mx(2) by auto
  have "mx_ok k' m ?mx"
    unfolding mx_ok_def
  proof (intro conjI allI impI ballI)
    fix u uh assume u: "threads k' u = Some uh \<and> m \<in> set (taken_object_list uh)"
    then show o: "owner ?mx = Some u" using nt [of u uh] k'(4) by (cases "u = t") auto
    then have "uh = h" using u k'(4) by simp
    then show "m \<notin> set (remove1 m (taken_object_list uh))" using nt [of t ?th] k'(7) u by (auto split: if_splits)
  qed (use D(3) D(5) [OF mx(2)] k'(4,5,6) in \<open>auto simp: ceiling_ok_def\<close>)
  then show ?thesis using take_branch [OF mx(1) b, of timeout] mx(2) k' by (auto simp: mutex_ok_def)
qed

lemma take_again:
  assumes ok: "mutex_ok m k" and mx: "mutexes k m = Some mx" "owner mx = Some t" and b: "can_block k t th"
  shows "\<exists>k'. rt_mutex_take k m timeout = Some (Done (if hold mx < 255 then RT_EOK else - RT_EFULL), k') \<and> mutex_ok m k' \<and>
    mutexes k' m = Some (mx\<lparr>hold := if hold mx < 255 then hold mx + 1 else 255\<rparr>)"
proof -
  note T = take_reset(1,3) [OF ok mx(1) b, of RT_EOK] and D = mx_okD(1-4) [OF take_reset(3) [OF ok mx(1) b, of RT_EOK]]
  note run = take_branch [OF mx(1) b, of timeout]
  let ?k1 = "k\<lparr>threads := (threads k)(t \<mapsto> th\<lparr>error := RT_EOK\<rparr>)\<rparr>"
  show ?thesis
  proof (cases "hold mx < 255")
    case True
    let ?mx = "mx\<lparr>hold := hold mx + 1\<rparr>"
    let ?k' = "?k1\<lparr>mutexes := (mutexes k)(m \<mapsto> ?mx)\<rparr>"
    have "rel_option mx_keeps (threads ?k1 u) (threads ?k1 u)" for u by (rule option.rel_refl) (simp add: mx_keeps_def)
    then have "mx_ok ?k' m ?mx"
      by (intro mx_ok_same [OF T(2), of ?k']) (use True D mx(2) in \<open>auto simp: ceiling_ok_def\<close>)
    moreover have "rt_mutex_take k m timeout = Some (Done RT_EOK, ?k')" using run mx(2) True D by (simp add: c_store)
    ultimately show ?thesis using True T(1) by (auto simp: mutex_ok_def)
  next
    case False
    then have "mx\<lparr>hold := 255\<rparr> = mx" using D by simp
    then show ?thesis using run False T mx by (auto simp: mutex_ok_def)
  qed
qed

lemma take_refused:
  assumes ok: "mutex_ok m k" and mx: "mutexes k m = Some mx" "owner mx = Some own" and b: "can_block k t th" and t: "own \<noteq> t"
  shows "\<exists>k'. rt_mutex_take k m 0 = Some (Done (- RT_ETIMEOUT), k') \<and> mutex_ok m k' \<and> mutexes k' = mutexes k"
  using take_branch [OF mx(1) b, of 0] t mx take_reset(1,3) [OF ok mx(1) b, of "- RT_ETIMEOUT"] by (auto simp: mutex_ok_def)

lemma take_blocks:
  assumes ok: "mutex_ok m k" and mx: "mutexes k m = Some mx" "owner mx = Some own" and b: "can_block k t th" and t: "own \<noteq> t"
    and oh: "threads k own = Some oh" and n: "timeout \<noteq> 0" "timeout < half"
  defines "k1 \<equiv> k\<lparr>threads := (threads k)(t \<mapsto> th\<lparr>error := RT_EOK\<rparr>)\<rparr>"
  shows "\<not> no_chain mx th oh \<Longrightarrow> rt_mutex_take k m timeout = None"
    "no_chain mx th oh \<Longrightarrow> \<exists>k'. rt_mutex_take k m timeout = Some (Blocked, k') \<and> mutex_ok m k' \<and>
       mutex_blocked k1 m t (th\<lparr>error := RT_EOK\<rparr>) mx own oh timeout k'"
proof -
  let ?th = "th\<lparr>error := RT_EOK\<rparr>"
  note T = take_reset(1-3) [OF ok mx(1) b, of RT_EOK, folded k1_def] and w = take_reset(4) [OF ok mx(1) b]
  note D = mx_okD [OF T(3)]
  have st: "stat oh \<noteq> RT_THREAD_INIT" using mx_okD(7) [OF mutex_okD(2) [OF ok mx(1)] mx(2)] oh by auto
  have oh1: "threads k1 own = Some oh" "mutexes k1 m = Some mx" using oh t mx(1) by (simp_all add: k1_def)
  have nc: "no_chain mx ?th oh \<longleftrightarrow> no_chain mx th oh" by (simp add: no_chain_def wait_prio_def)
  have run: "rt_mutex_take k m timeout = mutex_wait k1 m t timeout"
    using take_branch [OF mx(1) b, of timeout] mx(2) t n(1) by (simp add: k1_def)
  note W = mutex_wait_ok [OF T(1,2) oh1(2) mx(2) oh1(1) st t n(2), unfolded nc]
  show "rt_mutex_take k m timeout = None" if "\<not> no_chain mx th oh" using W(1) [OF that] run by simp
  assume "no_chain mx th oh"
  then obtain k' where k': "mutex_wait k1 m t timeout = Some (Blocked, k')" "mutex_blocked k1 m t ?th mx own oh timeout k'"
    using W(2) by blast
  let ?T = "(threads k1)(t \<mapsto> ?th\<lparr>stat := RT_THREAD_SUSPEND, pending_object := Some m\<rparr>, own \<mapsto> raised (wait_prio mx ?th oh) oh)"
  let ?mx = "mx\<lparr>mutex_priority := min (mutex_priority mx) (current_priority ?th)\<rparr>"
  have B: "kinv {} k'" "mutexes k' = (mutexes k1)(m \<mapsto> ?mx)" "tlists k' (MutexQ m) = wait_insert k1 RT_IPC_FLAG_PRIO t (tlists k1 (MutexQ m))"
      "\<And>u. rel_option sched_eq (?T u) (threads k' u)"
    using k'(2) unfolding mutex_blocked_def by blast+
  let ?k2 = "k1\<lparr>threads := ?T, tlists := (tlists k1)(MutexQ m := tlists k' (MutexQ m))\<rparr>"
  have w1: "t \<notin> set (tlists k1 (MutexQ m))" using w by (simp add: k1_def)
  have "mx_ok ?k2 m mx"
    unfolding mx_ok_def
  proof (intro conjI allI impI ballI)
    fix u uh assume u: "threads ?k2 u = Some uh \<and> m \<in> set (taken_object_list uh)"
    obtain v where v: "threads k1 u = Some v" "taken_object_list v = taken_object_list uh"
      using u oh1(1) T(2) t by (cases "u = t"; cases "u = own") (auto simp: can_block_def)
    then show "owner mx = Some u" "m \<notin> set (remove1 m (taken_object_list uh))" using D(8) [OF v(1), unfolded v(2)] u by blast+
  next
    fix u assume u: "u \<in> set (tlists ?k2 (MutexQ m))"
    then have uq: "u = t \<or> u \<in> set (tlists k1 (MutexQ m))" using B(3) by simp
    have "u \<noteq> own" using D(6) [OF mx(2)] t uq by blast
    then show "\<exists>uh. threads ?k2 u = Some uh \<and> error uh = RT_EOK \<and> pending_object uh = Some m"
      using D(9) [of u] uq by (cases "u = t") simp_all
  qed (use D(1-4) D(6) [OF mx(2)] mx(2) st t B(3) in auto)
  then have "mx_ok k' m ?mx"
  proof (rule mx_ok_same)
    show "rel_option mx_keeps (threads ?k2 u) (threads k' u)" for u
      using option.rel_mono_strong [OF B(4) mx_keeps_sched_eq, of u] by simp
  qed (use D(1-3) in \<open>simp_all add: ceiling_ok_def\<close>)
  then show "\<exists>k'. rt_mutex_take k m timeout = Some (Blocked, k') \<and> mutex_ok m k' \<and> mutex_blocked k1 m t ?th mx own oh timeout k'"
    using run k' B(1,2) by (auto simp: mutex_ok_def)
qed

text \<open>Inheritance: the owner of a mutex gets the priority of the thread that begins to wait if that is more urgent.\<close>

lemma inherited_ge: "x \<le> inherited k th \<longleftrightarrow> x \<le> init_priority th \<and> (\<forall>m \<in> set (taken_object_list th). x \<le> mprio k m)"
  by (simp add: inherited_def)

lemma inherited_wait:
  assumes "m \<in> set (taken_object_list th)" "mprio k' m = min (mprio k m) p" "\<And>m'. m' \<noteq> m \<Longrightarrow> mprio k' m' = mprio k m'"
    "init_priority h = init_priority th" "taken_object_list h = taken_object_list th"
  shows "inherited k' h = min (inherited k th) p"
proof -
  have "x \<le> mprio k' m' \<longleftrightarrow> x \<le> (if m' = m then min (mprio k m) p else mprio k m')" for x m' using assms(2,3) by auto
  then have "x \<le> inherited k' h \<longleftrightarrow> x \<le> min (inherited k th) p" for x using assms(1,4,5) by (auto simp: inherited_ge)
  then show ?thesis by (meson order.antisym order.refl)
qed

lemma blocked_inherits:
  assumes b: "mutex_blocked k m t th mx own oh timeout k'" and mx: "mutexes k m = Some mx" and t: "own \<noteq> t"
    and oh: "current_priority oh = inherited k oh" "m \<in> set (taken_object_list oh)"
  shows "\<exists>h. threads k' own = Some h \<and> current_priority h = inherited k' h \<and> current_priority h \<le> current_priority th"
proof -
  obtain h where h: "threads k' own = Some h" "sched_eq (raised (wait_prio mx th oh) oh) h"
    using b unfolding mutex_blocked_def by (metis fun_upd_same option_rel_Some1)
  have m': "mutexes k' = (mutexes k)(m \<mapsto> mx\<lparr>mutex_priority := min (mutex_priority mx) (current_priority th)\<rparr>)"
    using b unfolding mutex_blocked_def by blast
  have "inherited k' h = min (inherited k oh) (current_priority th)"
    by (rule inherited_wait [OF oh(2)]) (use mx m' h(2) in \<open>auto simp: mprio_def sched_eq_def\<close>)
  moreover have "current_priority h = wait_prio mx th oh" using h(2) by (simp add: sched_eq_def)
  moreover have "inherited k oh \<le> mutex_priority mx" using inherited_le(2) [OF oh(2), of k] mx by (simp add: mprio_def)
  ultimately show ?thesis using h(1) oh(1) by (auto simp: wait_prio_def)
qed

lemma take_inherits:
  assumes ok: "mutex_ok m k" and mx: "mutexes k m = Some mx" "owner mx = Some own" and b: "can_block k t th" and t: "own \<noteq> t"
    and oh: "threads k own = Some oh" and n: "timeout \<noteq> 0" "timeout < half" and nc: "no_chain mx th oh"
  shows "\<exists>k' h oh'. rt_mutex_take k m timeout = Some (Blocked, k') \<and> mutex_ok m k' \<and>
    tlists k' (MutexQ m) = wait_insert k RT_IPC_FLAG_PRIO t (tlists k (MutexQ m)) \<and>
    threads k' t = Some h \<and> stat h = RT_THREAD_SUSPEND \<and> pending_object h = Some m \<and> threads k' own = Some oh' \<and>
    (current_priority oh = inherited k oh \<and> m \<in> set (taken_object_list oh) \<longrightarrow>
      current_priority oh' = inherited k' oh' \<and> current_priority oh' \<le> current_priority th)"
proof -
  let ?th = "th\<lparr>error := RT_EOK\<rparr>"
  let ?k1 = "k\<lparr>threads := (threads k)(t \<mapsto> ?th)\<rparr>"
  obtain k' where k': "rt_mutex_take k m timeout = Some (Blocked, k')" "mutex_ok m k'" "mutex_blocked ?k1 m t ?th mx own oh timeout k'"
    using take_blocks(2) [OF ok mx b t oh n nc] by blast
  have q: "tlists k' (MutexQ m) = wait_insert ?k1 RT_IPC_FLAG_PRIO t (tlists k (MutexQ m))"
    and rel: "\<And>u. rel_option sched_eq (((threads ?k1)(t \<mapsto> ?th\<lparr>stat := RT_THREAD_SUSPEND, pending_object := Some m\<rparr>,
        own \<mapsto> raised (wait_prio mx ?th oh) oh)) u) (threads k' u)"
    using k'(3) unfolding mutex_blocked_def by simp_all
  have "wait_insert ?k1 RT_IPC_FLAG_PRIO t q = wait_insert k RT_IPC_FLAG_PRIO t q" for q
    using b by (intro wait_insert_upd [of k t th]) (auto simp: can_block_def)
  moreover obtain h where "threads k' t = Some h" "stat h = RT_THREAD_SUSPEND" "pending_object h = Some m"
    using rel [of t] t by (auto simp: option_rel_Some1 sched_eq_def)
  moreover obtain oh' where "threads k' own = Some oh'" using rel [of own] by (auto simp: option_rel_Some1)
  moreover have "inherited ?k1 oh = inherited k oh" by (rule inherited_cong) (simp_all add: mprio_def)
  ultimately show ?thesis using k' q blocked_inherits [OF k'(3) _ t] mx(1) by auto
qed

text \<open>C8: Taking a mutex, on every branch, by a running thread that may block, with a timeout below half the tick range: a free one is taken
  (at its priority ceiling, if it has one); the owner may take it again, up
  to 255 times; without waiting a mutex of another thread is refused; otherwise the caller waits in order of priority, and
  the owner, if its priority was the one it should inherit, has again exactly the priority it should
  inherit, at least as urgent as that of the caller. Only when the owner would have to be raised and itself waits for a mutex
  (not \<open>no_chain\<close>) the call does not get there: it stops at an assertion.\<close>

theorem mutex_take_spec:
  assumes ok: "mutex_ok m k" and mx: "mutexes k m = Some mx" and b: "can_block k t th" and n: "timeout < half"
  shows "case owner mx of
      None \<Rightarrow> \<exists>k' h. rt_mutex_take k m timeout = Some (Done RT_EOK, k') \<and> mutex_ok m k' \<and>
        mutexes k' m = Some (mx\<lparr>owner := Some t, mutex_priority := 255, hold := 1\<rparr>) \<and> threads k' t = Some h \<and>
        current_priority h = min (ceiling_priority mx) (current_priority th)
    | Some own \<Rightarrow>
        if own = t then \<exists>k'. rt_mutex_take k m timeout = Some (Done (if hold mx < 255 then RT_EOK else - RT_EFULL), k') \<and> mutex_ok m k' \<and>
          mutexes k' m = Some (mx\<lparr>hold := if hold mx < 255 then hold mx + 1 else 255\<rparr>)
        else if timeout = 0 then \<exists>k'. rt_mutex_take k m timeout = Some (Done (- RT_ETIMEOUT), k') \<and> mutex_ok m k' \<and> mutexes k' = mutexes k
        else \<exists>oh. threads k own = Some oh \<and> (if no_chain mx th oh then
          (\<exists>k' h oh'. rt_mutex_take k m timeout = Some (Blocked, k') \<and> mutex_ok m k' \<and>
            tlists k' (MutexQ m) = wait_insert k RT_IPC_FLAG_PRIO t (tlists k (MutexQ m)) \<and>
            threads k' t = Some h \<and> stat h = RT_THREAD_SUSPEND \<and> pending_object h = Some m \<and> threads k' own = Some oh' \<and>
            (current_priority oh = inherited k oh \<and> m \<in> set (taken_object_list oh) \<longrightarrow>
              current_priority oh' = inherited k' oh' \<and> current_priority oh' \<le> current_priority th))
          else rt_mutex_take k m timeout = None)"
proof (cases "owner mx")
  case None
  then show ?thesis using take_free [OF ok mx None b] by simp
next
  case (Some own)
  show ?thesis
  proof (cases "own = t")
    case True
    then show ?thesis using take_again [OF ok mx _ b, of timeout] Some by simp
  next
    case other: False
    show ?thesis
    proof (cases "timeout = 0")
      case True
      then show ?thesis using take_refused [OF ok mx Some b other] Some other by simp
    next
      case False
      obtain oh where oh: "threads k own = Some oh" using mx_okD(7) [OF mutex_okD(2) [OF ok mx] Some] by blast
      show ?thesis
        using take_inherits [OF ok mx Some b other oh False n] take_blocks(1) [OF ok mx Some b other oh False n] Some other False oh
        by (cases "no_chain mx th oh") auto
    qed
  qed
qed

section \<open>Releasing\<close>

text \<open>The current thread, running in thread context.\<close>

definition runs :: "kernel \<Rightarrow> tid \<Rightarrow> rt_thread \<Rightarrow> bool" where
  "runs k t th \<longleftrightarrow> rt_thread_self k = Some t \<and> threads k t = Some th \<and> stat th = RT_THREAD_RUNNING \<and> irq_nest (rt_cpu_self k) = 0"

lemma runs_context: "runs k t th \<Longrightarrow> RT_DEBUG_IN_THREAD_CONTEXT k = Some ()"
  by (simp add: runs_def RT_DEBUG_IN_THREAD_CONTEXT_def RT_DEBUG_NOT_IN_INTERRUPT_def)

text \<open>The state between giving the mutex up and passing it on.\<close>

definition gave_up :: "nat \<Rightarrow> rt_mutex \<Rightarrow> kernel \<Rightarrow> tid \<Rightarrow> rt_thread \<Rightarrow> nat" where
  "gave_up m mx k t th = (if ceiling_priority mx \<noteq> 255 \<or> current_priority th = mutex_priority mx
     then inherited k (taken_object_list_update (remove1 m) th) else current_priority th)"

lemma release_restore:
  assumes ok: "mutex_ok m k" and mx: "mutexes k m = Some mx" "owner mx = Some t" and r: "runs k t th" and live: "live_taken k th"
  defines "k1 \<equiv> k\<lparr>mutexes := (mutexes k)(m \<mapsto> mx\<lparr>hold := 0\<rparr>)\<rparr>"
  shows "\<exists>n k3. mutex_restore (taken_remove k1 m) m t = Some (n, k3) \<and> kinv {} k3 \<and> same_env k k3 \<and> mutexes k3 = mutexes k1 \<and>
    threads k3 = (threads k)(t \<mapsto> raised (gave_up m mx k t th) (taken_object_list_update (remove1 m) th)) \<and>
    (\<forall>l. \<not> is_readyq l \<longrightarrow> tlists k3 l = tlists k l)"
proof -
  note O = mutex_okD [OF ok mx(1)] and R = r [unfolded runs_def]
  let ?th = "taken_object_list_update (remove1 m) th"
  let ?k2 = "k1\<lparr>threads := (threads k)(t \<mapsto> ?th)\<rparr>"
  have rm: "taken_remove k1 m = ?k2"
    using taken_remove_owner [OF O(2) mx(2)] R by (simp add: k1_def taken_remove_def)
  have k2: "kinv {} ?k2" using kinv_upd [of "{}" k1 t th ?th] R O(1) by (simp add: k1_def same_thread_def)
  have p: "mprio ?k2 m' = mprio k m'" for m' using mx(1) by (simp add: mprio_def k1_def)
  have i: "inherited ?k2 ?th = inherited k ?th" by (rule inherited_cong) (simp_all add: p)
  have lv: "live_taken ?k2 ?th" using live notin_set_remove1 by (fastforce simp: live_taken_def k1_def)
  obtain n k3 where "mutex_restore ?k2 m t = Some (n, k3)" "kinv {} k3" "same_env ?k2 k3" "same_objs ?k2 k3"
      "threads k3 = (threads ?k2)(t \<mapsto> raised (gave_up m mx k t th) ?th)" "\<forall>l. \<not> is_readyq l \<longrightarrow> tlists k3 l = tlists ?k2 l"
    using mutex_restore_ok [OF k2, of m "mx\<lparr>hold := 0\<rparr>" t ?th] R lv by (auto simp: k1_def gave_up_def i [unfolded k1_def])
  then show ?thesis unfolding rm by (intro exI [of _ n] exI [of _ k3]) (simp add: k1_def same_env_def same_objs_def)
qed

text \<open>The mutex with nobody waiting, and with a first thread that gets it.\<close>

lemma mx_ok_freed:
  assumes ok: "mx_ok k m mx" "owner mx = Some t" and th: "threads k t = Some th" and q: "tlists k (MutexQ m) = []" "tlists k' (MutexQ m) = []"
    and k': "threads k' = (threads k)(t \<mapsto> h)" "m \<notin> set (taken_object_list h)" and mx': "owner mx' = None" "hold mx' = 0" "ceiling_ok mx'"
  shows "mx_ok k' m mx'"
  unfolding mx_ok_def
proof (intro conjI allI impI ballI)
  fix u uh assume u: "threads k' u = Some uh \<and> m \<in> set (taken_object_list uh)"
  have False
  proof (cases "u = t")
    case False
    then show False using u mx_okD(8) [OF ok(1), of u uh] ok(2) k'(1) by simp
  qed (use u k' in simp)
  then show "owner mx' = Some u" "m \<notin> set (remove1 m (taken_object_list uh))" by simp_all
qed (use q mx' in simp_all)

lemma mx_ok_handed:
  assumes ok: "mx_ok k m mx" "owner mx = Some t" and th: "threads k t = Some th" and q: "tlists k (MutexQ m) = u # us" "u \<notin> set us"
    and uh: "threads k u = Some uh" and k': "threads k' = (threads k)(t \<mapsto> h, u \<mapsto> handed m uh)" "m \<notin> set (taken_object_list h)"
      "tlists k' (MutexQ m) = us" and mx': "owner mx' = Some u" "hold mx' = 1" "ceiling_ok mx'"
  shows "mx_ok k' m mx'"
proof -
  note D = mx_okD [OF ok(1)]
  have t: "t \<noteq> u" "t \<notin> set us" using D(6) [OF ok(2)] q by auto
  have nt: "m \<notin> set (taken_object_list uh)" using D(8) [OF uh] ok(2) t by auto
  show ?thesis
    unfolding mx_ok_def
  proof (intro conjI allI impI ballI)
    fix v vh assume v: "threads k' v = Some vh \<and> m \<in> set (taken_object_list vh)"
    have "v = u"
    proof (rule ccontr)
      assume "v \<noteq> u"
      then show False using v mx_okD(8) [OF ok(1), of v vh] ok(2) k'(1,2) by (cases "v = t") auto
    qed
    then show "owner mx' = Some v" "m \<notin> set (remove1 m (taken_object_list vh))"
      using v mx' k'(1) nt by (auto simp: handed_def resumed_def)
  next
    fix v assume v: "v \<in> set (tlists k' (MutexQ m))"
    then have "v \<noteq> u" "v \<noteq> t" "v \<in> set (tlists k (MutexQ m))" using k'(3) q t by auto
    then show "\<exists>th. threads k' v = Some th \<and> error th = RT_EOK \<and> pending_object th = Some m" using D(9) [of v] k'(1) by simp
  next
    fix v assume "owner mx' = Some v"
    then show "v \<notin> set (tlists k' (MutexQ m))" "\<exists>th. threads k' v = Some th \<and> stat th \<noteq> RT_THREAD_INIT"
      using mx' k' q(2) by (auto simp: handed_def resumed_def)
  qed (use mx' in simp_all)
qed

text \<open>Passing it on.\<close>

lemma release_hand_over:
  assumes ok: "mutex_ok m k" and mx: "mutexes k m = Some mx" "owner mx = Some t" and th: "threads k t = Some th"
    and k3: "kinv {} k3" "mutexes k3 = (mutexes k)(m \<mapsto> mx\<lparr>hold := 0\<rparr>)"
      "threads k3 = (threads k)(t \<mapsto> h)" "m \<notin> set (taken_object_list h)" "\<forall>l. \<not> is_readyq l \<longrightarrow> tlists k3 l = tlists k l"
  shows "\<exists>n k4 mx'. mutex_hand_over k3 m = Some (n, k4) \<and> kinv {} k4 \<and> same_env k3 k4 \<and> mx_ok k4 m mx' \<and> mutexes k4 = (mutexes k)(m \<mapsto> mx') \<and>
    threads k4 t = Some h \<and> (\<forall>u. u \<noteq> t \<and> u \<notin> set (tlists k (MutexQ m)) \<longrightarrow> threads k4 u = threads k u) \<and>
    (case tlists k (MutexQ m) of [] \<Rightarrow> mx' = mx\<lparr>hold := 0, owner := None, mutex_priority := 255\<rparr>
     | u # us \<Rightarrow> n \<and> owner mx' = Some u \<and> hold mx' = 1 \<and> tlists k4 (MutexQ m) = us \<and>
         (\<exists>uh. threads k u = Some uh \<and> threads k4 u = Some (handed m uh)))"
proof -
  note O = mutex_okD [OF ok mx(1)]
  note D = mx_okD [OF O(2)]
  have q3: "tlists k3 (MutexQ m) = tlists k (MutexQ m)" using k3(5) by simp
  show ?thesis
  proof (cases "tlists k (MutexQ m)")
    case Nil
    let ?mx = "mx\<lparr>hold := 0, owner := None, mutex_priority := 255\<rparr>"
    let ?k4 = "k3\<lparr>mutexes := (mutexes k)(m \<mapsto> ?mx)\<rparr>"
    have "mutex_hand_over k3 m = Some (False, ?k4)" using Nil q3 k3(2) by (simp add: mutex_hand_over_def upd_mutex_def)
    moreover have "mx_ok ?k4 m ?mx"
      by (rule mx_ok_freed [OF O(2) mx(2) th Nil _ _ k3(4)]) (use Nil q3 k3(3) D(3) in \<open>simp_all add: ceiling_ok_def\<close>)
    ultimately show ?thesis using Nil k3(1,3) by (intro exI [of _ False] exI [of _ ?k4] exI [of _ ?mx]) (simp add: same_env_def)
  next
    case (Cons u us)
    have uq: "u \<in> set (tlists k (MutexQ m))" "u \<notin> set us" using Cons sched_okD(4) [OF kinvD(1) [OF O(1)], of "MutexQ m"] by simp_all
    have t: "t \<noteq> u" using D(6) [OF mx(2)] uq(1) by blast
    obtain uh where uh: "threads k u = Some uh" using D(9) [OF uq(1)] by blast
    let ?mx = "mx\<lparr>owner := Some u, hold := 1, mutex_priority := (case us of [] \<Rightarrow> 255 | v # _ \<Rightarrow> prio_of k3 v)\<rparr>"
    obtain k4 where k4: "mutex_hand_over k3 m = Some (True, k4)" "kinv {} k4" "same_env k3 k4"
        "mutexes k4 = (mutexes k)(m \<mapsto> ?mx)" "threads k4 = (threads k3)(u \<mapsto> handed m uh)" "tlists k4 (MutexQ m) = us"
      using mutex_hand_over_ok [OF k3(1), of m "mx\<lparr>hold := 0\<rparr>" u us uh] k3(2,3) q3 Cons uh t by auto
    have "mx_ok k4 m ?mx"
      by (rule mx_ok_handed [OF O(2) mx(2) th Cons uq(2) uh _ k3(4)]) (use k4 k3(3) D(3) in \<open>simp_all add: ceiling_ok_def\<close>)
    then show ?thesis using k4 k3(3) t uh Cons by (intro exI [of _ True] exI [of _ k4] exI [of _ ?mx]) simp
  qed
qed

text \<open>What the releasing thread still inherits.\<close>

lemma gave_up_exact:
  assumes mx: "mutexes k m = Some mx" and ex: "current_priority th = inherited k th"
  shows "gave_up m mx k t th = inherited k (taken_object_list_update (remove1 m) th)"
proof (cases "m \<in> set (remove1 m (taken_object_list th)) \<or> m \<notin> set (taken_object_list th)")
  case True
  then have "set (remove1 m (taken_object_list th)) = set (taken_object_list th)"
    by (metis in_set_remove1 remove1_idem set_remove1_subset subsetI subset_antisym)
  then have "inherited k (taken_object_list_update (remove1 m) th) = inherited k th" by (intro inherited_cong) simp_all
  then show ?thesis using ex by (simp add: gave_up_def)
next
  case False
  then have S: "set (taken_object_list th) = insert m (set (remove1 m (taken_object_list th)))"
  proof (intro set_eqI)
    fix x show "x \<in> set (taken_object_list th) \<longleftrightarrow> x \<in> insert m (set (remove1 m (taken_object_list th)))"
      using False by (cases "x = m") simp_all
  qed
  have "x \<le> inherited k th \<longleftrightarrow> x \<le> min (inherited k (taken_object_list_update (remove1 m) th)) (mutex_priority mx)" for x
    using mx by (simp add: inherited_ge S) (auto simp: mprio_def)
  then have "inherited k th = min (inherited k (taken_object_list_update (remove1 m) th)) (mutex_priority mx)"
    by (meson order.antisym order.refl)
  then show ?thesis using ex by (auto simp: gave_up_def min_def split: if_splits)
qed

lemma release_last:
  assumes ok: "mutex_ok m k" and mx: "mutexes k m = Some mx" "owner mx = Some t" "hold mx = 1" and r: "runs k t th" and live: "live_taken k th"
  shows "\<exists>k' h mx'. rt_mutex_release k m = Some (RT_EOK, k') \<and> mutex_ok m k' \<and> threads k' t = Some h \<and> m \<notin> set (taken_object_list h) \<and>
    (current_priority th = inherited k th \<longrightarrow> current_priority h = inherited k' h) \<and> mutexes k' m = Some mx' \<and>
    (\<forall>u. u \<noteq> t \<and> u \<notin> set (tlists k (MutexQ m)) \<longrightarrow> rel_option sched_eq (threads k u) (threads k' u)) \<and>
    (case tlists k (MutexQ m) of [] \<Rightarrow> mx' = mx\<lparr>hold := 0, owner := None, mutex_priority := 255\<rparr>
     | u # us \<Rightarrow> owner mx' = Some u \<and> hold mx' = 1 \<and> tlists k' (MutexQ m) = us \<and>
         (\<exists>uh. threads k' u = Some uh \<and> (stat uh = RT_THREAD_READY \<or> stat uh = RT_THREAD_RUNNING) \<and> m \<in> set (taken_object_list uh) \<and>
           pending_object uh = None \<and> error uh = RT_EOK))"
proof -
  note O = mutex_okD [OF ok mx(1)] and R = r [unfolded runs_def]
  note D = mx_okD [OF O(2)]
  let ?h = "raised (gave_up m mx k t th) (taken_object_list_update (remove1 m) th)"
  have th: "threads k t = Some th" using R by blast
  have nm: "m \<notin> set (taken_object_list ?h)" using D(8) [OF th] by (cases "m \<in> set (taken_object_list th)") (auto simp: remove1_idem)
  obtain n1 k3 where k3: "mutex_restore (taken_remove (k\<lparr>mutexes := (mutexes k)(m \<mapsto> mx\<lparr>hold := 0\<rparr>)\<rparr>) m) m t = Some (n1, k3)"
      "kinv {} k3" "same_env k k3" "mutexes k3 = (mutexes k)(m \<mapsto> mx\<lparr>hold := 0\<rparr>)" "threads k3 = (threads k)(t \<mapsto> ?h)"
      "\<forall>l. \<not> is_readyq l \<longrightarrow> tlists k3 l = tlists k l"
    using release_restore [OF ok mx(1,2) r live] by auto
  obtain n2 k4 mx' where k4: "mutex_hand_over k3 m = Some (n2, k4)" "kinv {} k4" "same_env k3 k4" "mx_ok k4 m mx'" "mutexes k4 = (mutexes k)(m \<mapsto> mx')"
      "threads k4 t = Some ?h" "\<And>u. u \<noteq> t \<Longrightarrow> u \<notin> set (tlists k (MutexQ m)) \<Longrightarrow> threads k4 u = threads k u" and q: "case tlists k (MutexQ m) of [] \<Rightarrow> mx' = mx\<lparr>hold := 0, owner := None, mutex_priority := 255\<rparr>
       | u # us \<Rightarrow> n2 \<and> owner mx' = Some u \<and> hold mx' = 1 \<and> tlists k4 (MutexQ m) = us \<and>
           (\<exists>uh. threads k u = Some uh \<and> threads k4 u = Some (handed m uh))"
    using release_hand_over [OF ok mx(1,2) th k3(2,4,5) nm k3(6)] by blast
  have run: "rt_mutex_release k m = do { k5 \<leftarrow> (if n1 \<or> n2 then rt_schedule k4 else Some k4); Some (RT_EOK, k5) }"
    using mx k3(1) k4(1) R runs_context [OF r] by (simp add: rt_mutex_release_def upd_mutex_def u8_def)
  have "rt_thread_self k4 = Some t" "stat ?h = RT_THREAD_RUNNING"
    using same_env_self [OF k3(3)] same_env_self [OF k4(3)] R by simp_all
  then obtain k' where k': "(if n1 \<or> n2 then rt_schedule k4 else Some k4) = Some k'" "kinv {} k'" "same_objs k4 k'" "wait_same k4 k'"
    using schedule_any [OF k4(2) _ k4(6)] k4(2) by (cases "n1 \<or> n2") (auto simp: wait_same_refl)
  have rel: "rel_option sched_eq (threads k4 u) (threads k' u)" and l: "tlists k' (MutexQ m) = tlists k4 (MutexQ m)" for u
    using k'(4) by (simp_all add: wait_same_def)
  have m': "mutexes k' = (mutexes k)(m \<mapsto> mx')" using k'(3) k4(5) by (simp add: same_objs_def)
  have "mx_ok k' m mx'"
    by (rule mx_ok_same [OF k4(4) l option.rel_mono_strong [OF rel mx_keeps_sched_eq]]) (use mx_okD(1-3) [OF k4(4)] in simp_all)
  moreover obtain h where h: "threads k' t = Some h" "sched_eq ?h h" using rel_thread [OF rel k4(6)] by blast
  moreover have "current_priority h = inherited k' h" if ex: "current_priority th = inherited k th"
  proof -
    have "inherited k' h = inherited k (taken_object_list_update (remove1 m) th)"
      by (rule inherited_cong) (use h(2) m' nm in \<open>auto simp: sched_eq_def mprio_def\<close>)
    then show ?thesis using gave_up_exact [OF mx(1) ex] h(2) by (simp add: sched_eq_def)
  qed
  moreover have "\<exists>uh'. threads k' u = Some uh' \<and> (stat uh' = RT_THREAD_READY \<or> stat uh' = RT_THREAD_RUNNING) \<and> m \<in> set (taken_object_list uh') \<and>
      pending_object uh' = None \<and> error uh' = RT_EOK" if "tlists k (MutexQ m) = u # us" "threads k u = Some uh" "threads k4 u = Some (handed m uh)" for u us uh
    using rel_thread [OF rel that(3)] D(9) [of u] that(1,2) by (auto simp: sched_eq_def handed_def resumed_def split: if_splits)
  moreover have "rel_option sched_eq (threads k u) (threads k' u)" if "u \<noteq> t" "u \<notin> set (tlists k (MutexQ m))" for u
    using rel [of u] k4(7) [OF that] by simp
  ultimately show ?thesis using run k' m' q nm l
    by (intro exI [of _ k'] exI [of _ h] exI [of _ mx']) (auto simp: mutex_ok_def sched_eq_def split: list.splits)
qed

lemma release_other:
  assumes ok: "mutex_ok m k" and mx: "mutexes k m = Some mx" "owner mx \<noteq> Some t" and r: "runs k t th"
  shows "\<exists>k'. rt_mutex_release k m = Some (- RT_ERROR, k') \<and> mutex_ok m k' \<and> mutexes k' = mutexes k"
proof -
  note O = mutex_okD [OF ok mx(1)] and R = r [unfolded runs_def]
  let ?k' = "k\<lparr>threads := (threads k)(t \<mapsto> th\<lparr>error := - RT_ERROR\<rparr>)\<rparr>"
  have w: "t \<notin> set (tlists k (MutexQ m))" by (rule running_not_waiting [OF O(1) waitq_simps(2)]) (use R in auto)
  have "kinv {} ?k'" by (rule kinv_upd [OF O(1)]) (use R in \<open>auto simp: same_thread_def\<close>)
  moreover have "mx_ok ?k' m mx" by (rule mx_ok_upd [OF O(2) _ w]) (use R in auto)
  moreover have "rt_mutex_release k m = Some (- RT_ERROR, ?k')"
    using mx runs_context [OF r] R by (auto simp: rt_mutex_release_def upd_thread_def)
  ultimately show ?thesis using mx by (auto simp: mutex_ok_def)
qed

lemma release_nested:
  assumes ok: "mutex_ok m k" and mx: "mutexes k m = Some mx" "owner mx = Some t" "1 < hold mx" and r: "runs k t th"
  defines "k' \<equiv> k\<lparr>mutexes := (mutexes k)(m \<mapsto> mx\<lparr>hold := hold mx - 1\<rparr>)\<rparr>"
  shows "rt_mutex_release k m = Some (RT_EOK, k') \<and> mutex_ok m k'"
proof -
  note O = mutex_okD [OF ok mx(1)] and R = r [unfolded runs_def]
  note D = mx_okD(1-4) [OF O(2)]
  have "rel_option mx_keeps (threads k u) (threads k' u)" for u by (simp add: option.rel_refl mx_keeps_def k'_def)
  then have "mx_ok k' m (mx\<lparr>hold := hold mx - 1\<rparr>)"
    by (intro mx_ok_same [OF O(2)]) (use mx D in \<open>auto simp: ceiling_ok_def k'_def\<close>)
  moreover have "rt_mutex_release k m = Some (RT_EOK, k')"
    using mx runs_context [OF r] R D by (simp add: rt_mutex_release_def upd_mutex_def c_store k'_def)
  ultimately show ?thesis using O(1) by (auto simp: mutex_ok_def k'_def)
qed

text \<open>C9: Releasing a mutex, on every branch: only the owner may; a nested release counts down; the last one gives it to the first waiting
  thread, which is made ready as its new owner, or frees it; and a releasing thread whose priority was the one it
  should inherit is left with exactly what it should inherit from the mutexes it still has.\<close>

theorem mutex_release_spec:
  assumes ok: "mutex_ok m k" and mx: "mutexes k m = Some mx" and r: "runs k t th" and live: "live_taken k th"
  shows "if owner mx \<noteq> Some t then
      \<exists>k'. rt_mutex_release k m = Some (- RT_ERROR, k') \<and> mutex_ok m k' \<and> mutexes k' = mutexes k
    else if 1 < hold mx then
      rt_mutex_release k m = Some (RT_EOK, k\<lparr>mutexes := (mutexes k)(m \<mapsto> mx\<lparr>hold := hold mx - 1\<rparr>)\<rparr>) \<and>
      mutex_ok m (k\<lparr>mutexes := (mutexes k)(m \<mapsto> mx\<lparr>hold := hold mx - 1\<rparr>)\<rparr>)
    else \<exists>k' h mx'. rt_mutex_release k m = Some (RT_EOK, k') \<and> mutex_ok m k' \<and> threads k' t = Some h \<and> m \<notin> set (taken_object_list h) \<and>
      (current_priority th = inherited k th \<longrightarrow> current_priority h = inherited k' h) \<and> mutexes k' m = Some mx' \<and>
      (case tlists k (MutexQ m) of [] \<Rightarrow> mx' = mx\<lparr>hold := 0, owner := None, mutex_priority := 255\<rparr>
       | u # us \<Rightarrow> owner mx' = Some u \<and> hold mx' = 1 \<and> tlists k' (MutexQ m) = us \<and>
           (\<exists>uh. threads k' u = Some uh \<and> (stat uh = RT_THREAD_READY \<or> stat uh = RT_THREAD_RUNNING) \<and> m \<in> set (taken_object_list uh) \<and>
             pending_object uh = None \<and> error uh = RT_EOK))"
proof -
  note D = mx_okD(1-4) [OF mutex_okD(2) [OF ok mx]]
  consider (other) "owner mx \<noteq> Some t" | (nested) "owner mx = Some t" "1 < hold mx" | (last) "owner mx = Some t" "hold mx = 1"
    using D by fastforce
  then show ?thesis
  proof cases
    case other
    then show ?thesis using release_other [OF ok mx other r] by simp
  next
    case nested
    then show ?thesis using release_nested [OF ok mx nested r] by simp
  next
    case last
    then have c: "\<not> owner mx \<noteq> Some t" "\<not> 1 < hold mx" by simp_all
    show ?thesis unfolding if_not_P [OF c(1)] if_not_P [OF c(2)] using release_last [OF ok mx last r live] by blast
  qed
qed

section \<open>Mutual exclusion\<close>

text \<open>
  Histories of one mutex: the state and how often each thread has it, counting up
  at a successful take or when it is handed over, and down at a release.
\<close>

definition grant :: "nat \<Rightarrow> kernel \<Rightarrow> rt_mutex \<Rightarrow> (tid \<Rightarrow> int) \<Rightarrow> (tid \<Rightarrow> int)" where
  "grant m k mx H = (case tlists k (MutexQ m) of u # _ \<Rightarrow> if hold mx = 1 then H(u := H u + 1) else H | [] \<Rightarrow> H)"

inductive mutex_step :: "nat \<Rightarrow> kernel \<times> (tid \<Rightarrow> int) \<Rightarrow> kernel \<times> (tid \<Rightarrow> int) \<Rightarrow> bool" for m where
  frame: "mutex_frame m k k' \<Longrightarrow> mutex_step m (k, H) (k', H)"
| take_done: "can_block k t th \<Longrightarrow> timeout < half \<Longrightarrow> rt_mutex_take k m timeout = Some (Done e, k') \<Longrightarrow>
    mutex_step m (k, H) (k', if e = RT_EOK then H(t := H t + 1) else H)"
| take_wait: "can_block k t th \<Longrightarrow> timeout < half \<Longrightarrow> rt_mutex_take k m timeout = Some (Blocked, k') \<Longrightarrow> mutex_step m (k, H) (k', H)"
| release: "runs k t th \<Longrightarrow> live_taken k th \<Longrightarrow> mutexes k m = Some mx \<Longrightarrow> rt_mutex_release k m = Some (e, k') \<Longrightarrow>
    mutex_step m (k, H) (k', if e = RT_EOK then grant m k mx (H(t := H t - 1)) else H)"

definition holds :: "rt_mutex \<Rightarrow> tid \<Rightarrow> int" where
  "holds mx = (\<lambda>t. if owner mx = Some t then hold mx else 0)"

definition mutex_hist :: "nat \<Rightarrow> kernel \<times> (tid \<Rightarrow> int) \<Rightarrow> bool" where
  "mutex_hist m = (\<lambda>(k, H). mutex_ok m k \<and> (\<exists>mx. mutexes k m = Some mx \<and> H = holds mx))"

lemma step_release:
  assumes ok: "mutex_ok m k" and mx: "mutexes k m = Some mx" and r: "runs k t th" and live: "live_taken k th"
    and run: "rt_mutex_release k m = Some (e, k')"
  shows "mutex_hist m (k', if e = RT_EOK then grant m k mx ((holds mx)(t := holds mx t - 1)) else holds mx)"
proof -
  note D = mx_okD(1-6) [OF mutex_okD(2) [OF ok mx]]
  consider (other) "owner mx \<noteq> Some t" | (nested) "owner mx = Some t" "1 < hold mx" | (last) "owner mx = Some t" "hold mx = 1"
    using D(1-4) by fastforce
  then show ?thesis
  proof cases
    case other
    then show ?thesis using release_other [OF ok mx other r] run mx by (auto simp: mutex_hist_def rt_errs)
  next
    case nested
    then show ?thesis using release_nested [OF ok mx nested r] run
      by (auto simp: mutex_hist_def grant_def holds_def fun_eq_iff split: list.splits)
  next
    case last
    obtain mx' where k': "e = RT_EOK" "mutex_ok m k'" "mutexes k' m = Some mx'"
        "case tlists k (MutexQ m) of [] \<Rightarrow> mx' = mx\<lparr>hold := 0, owner := None, mutex_priority := 255\<rparr> | u # us \<Rightarrow> owner mx' = Some u \<and> hold mx' = 1"
      using release_last [OF ok mx last r live] run by (cases "tlists k (MutexQ m)") auto
    have "grant m k mx ((holds mx)(t := holds mx t - 1)) = holds mx'"
      using k'(4) last D(6) [OF last(1)] by (auto simp: grant_def holds_def fun_eq_iff split: list.splits)
    then show ?thesis using k' by (auto simp: mutex_hist_def)
  qed
qed

lemma step_take:
  assumes ok: "mutex_ok m k" and mx: "mutexes k m = Some mx" and b: "can_block k t th" and n: "timeout < half"
  shows "rt_mutex_take k m timeout = Some (Done e, k') \<Longrightarrow> mutex_hist m (k', if e = RT_EOK then (holds mx)(t := holds mx t + 1) else holds mx)"
    "rt_mutex_take k m timeout = Some (Blocked, k') \<Longrightarrow> mutex_hist m (k', holds mx)"
proof -
  note D = mx_okD(1-7) [OF mutex_okD(2) [OF ok mx]]
  consider (free) "owner mx = None" | (again) "owner mx = Some t" | (refused) own where "owner mx = Some own" "own \<noteq> t" "timeout = 0"
    | (wait) own where "owner mx = Some own" "own \<noteq> t" "timeout \<noteq> 0" by (cases "owner mx") auto
  note cases = this
  show "mutex_hist m (k', if e = RT_EOK then (holds mx)(t := holds mx t + 1) else holds mx)" if run: "rt_mutex_take k m timeout = Some (Done e, k')"
    using cases
  proof cases
    case free
    then show ?thesis using take_free [OF ok mx free b, of timeout] run by (auto simp: mutex_hist_def holds_def fun_eq_iff)
  next
    case again
    then show ?thesis using take_again [OF ok mx again b, of timeout] run D(2) by (auto simp: mutex_hist_def holds_def fun_eq_iff rt_errs)
  next
    case (refused own)
    then show ?thesis using take_refused [OF ok mx refused(1) b refused(2)] run mx by (auto simp: mutex_hist_def rt_errs)
  next
    case (wait own)
    obtain oh where "threads k own = Some oh" using D(7) [OF wait(1)] by blast
    then show ?thesis using take_blocks [OF ok mx wait(1) b wait(2) _ wait(3) n] run by (cases "no_chain mx th oh") auto
  qed
  show "mutex_hist m (k', holds mx)" if run: "rt_mutex_take k m timeout = Some (Blocked, k')"
    using cases
  proof cases
    case free
    then show ?thesis using take_free [OF ok mx free b, of timeout] run by auto
  next
    case again
    then show ?thesis using take_again [OF ok mx again b, of timeout] run by auto
  next
    case (refused own)
    then show ?thesis using take_refused [OF ok mx refused(1) b refused(2)] run by auto
  next
    case (wait own)
    obtain oh where oh: "threads k own = Some oh" using D(7) [OF wait(1)] by blast
    obtain k'' where "rt_mutex_take k m timeout = Some (Blocked, k'')" "mutex_ok m k''"
        "mutexes k'' = (mutexes k)(m \<mapsto> mx\<lparr>mutex_priority := min (mutex_priority mx) (current_priority th)\<rparr>)"
      using take_blocks [OF ok mx wait(1) b wait(2) oh wait(3) n] run
      by (cases "no_chain mx th oh") (auto simp: mutex_blocked_def)
    then show ?thesis using run by (auto simp: mutex_hist_def holds_def)
  qed
qed

lemma mutex_step_hist:
  assumes "mutex_step m x y" "mutex_hist m x"
  shows "mutex_hist m y"
  using assms(1)
proof (cases rule: mutex_step.cases)
  case (frame k k' H)
  then obtain mx mx' where "mutexes k m = Some mx" "mutexes k' m = Some mx'" "owner mx' = owner mx" "hold mx' = hold mx"
    unfolding mutex_frame_def by blast
  then show ?thesis using frame mutex_frame_ok [of m k k'] assms(2) by (auto simp: mutex_hist_def holds_def)
next
  case (take_done k t th timeout e k' H)
  then obtain mx where "mutex_ok m k" "mutexes k m = Some mx" "H = holds mx" using assms(2) by (auto simp: mutex_hist_def)
  then show ?thesis using step_take(1) [of m k mx t th timeout e k'] take_done by (cases "e = RT_EOK") simp_all
next
  case (take_wait k t th timeout k' H)
  then obtain mx where "mutex_ok m k" "mutexes k m = Some mx" "H = holds mx" using assms(2) by (auto simp: mutex_hist_def)
  then show ?thesis using step_take(2) [of m k mx t th timeout k'] take_wait by simp
next
  case (release k t th mx e k' H)
  then have "mutex_ok m k" "H = holds mx" using assms(2) by (auto simp: mutex_hist_def)
  then show ?thesis using step_release [of m k mx t th e k'] release by (cases "e = RT_EOK") simp_all
qed

lemma mutex_steps_hist: "(mutex_step m)\<^sup>*\<^sup>* x y \<Longrightarrow> mutex_hist m x \<Longrightarrow> mutex_hist m y"
  by (induction rule: rtranclp_induct) (auto intro: mutex_step_hist)

text \<open>C3: Mutual exclusion. In every history of a mutex that starts free, under any interleaving of takes, waits, hand-overs, releases and
  other activity, at most one thread has the mutex, it is the recorded owner and \<open>hold\<close> is the number of its takes that
  are not released; the invariant holds throughout.\<close>

theorem mutex_exclusion:
  assumes "(mutex_step m)\<^sup>*\<^sup>* (k0, \<lambda>_. 0) (k, H)" "mutex_ok m k0" "mutexes k0 m = Some mx0" "owner mx0 = None"
  shows "mutex_ok m k \<and> (\<forall>t u. 0 < H t \<and> 0 < H u \<longrightarrow> t = u) \<and>
    (\<exists>mx. mutexes k m = Some mx \<and> (\<forall>t. H t = (if owner mx = Some t then hold mx else 0) \<and> 0 \<le> H t \<and> H t \<le> 255))"
proof -
  have "(\<lambda>_. 0) = holds mx0" using assms(4) by (simp add: holds_def)
  then have "mutex_hist m (k0, \<lambda>_. 0)" using assms(2,3) by (auto simp: mutex_hist_def)
  then obtain mx where h: "mutex_ok m k" "mutexes k m = Some mx" "H = holds mx"
    using mutex_steps_hist [OF assms(1)] by (auto simp: mutex_hist_def)
  then show ?thesis using mx_okD(1,2) [OF mutex_okD(2) [OF h(1,2)]] by (auto simp: holds_def split: if_splits)
qed

section \<open>Where the code fails\<close>

text \<open>Priority inheritance does not follow a chain of mutexes. If the owner of the mutex itself waits for a mutex and the caller is more urgent
  than the owner and than every thread waiting so far, \<^verbatim>\<open>rt_mutex_take\<close> fails the assertion of \<^verbatim>\<open>rt_thread_suspend\<close> that a thread suspends only itself:
  \<^verbatim>\<open>_thread_update_priority\<close> puts the owner on its waiting list anew through \<^verbatim>\<open>_ipc_list_suspend\<close>.\<close>

lemma mutex_chain_asserts:
  assumes ok: "mutex_ok m k" and mx: "mutexes k m = Some mx" "owner mx = Some own" and b: "can_block k t th" "own \<noteq> t"
    and oh: "threads k own = Some oh" "stat oh = RT_THREAD_SUSPEND" "pending_object oh = Some m2"
    and p: "current_priority th < current_priority oh" "current_priority th < mutex_priority mx" and n: "timeout \<noteq> 0" "timeout < half"
  shows "rt_mutex_take k m timeout = None"
proof -
  have "\<not> no_chain mx th oh" using oh p by (simp add: no_chain_def wait_prio_def)
  then show ?thesis using take_blocks(1) [OF ok mx b oh(1) n] by simp
qed

text \<open>The processors share the kernel state; which one executes matters only to the current thread.\<close>

lemma kinv_cpu: "kinv {} k \<Longrightarrow> p < 2 \<Longrightarrow> kinv {} (k\<lparr>cpu_id := p\<rparr>)"
  unfolding kinv_def
  by (intro conjI) (auto simp: sched_ok_def cpu_ok_def timer_link_def lock_ok_def)

text \<open>C17: A timeout that races with the last release is a read through a null pointer. When the timer of the only waiting thread has
  expired and, before that thread runs, the owner on another processor releases the mutex, the mutex has no owner; the
  waiting thread then goes on in \<^verbatim>\<open>rt_mutex_take\<close>, which reads \<^verbatim>\<open>mutex->owner->current_priority\<close> without a check.\<close>

theorem mutex_timeout_race:
  assumes ok: "mutex_ok m k" and mx: "mutexes k m = Some mx" "owner mx = Some own" "hold mx = 1" and q: "tlists k (MutexQ m) = [w]"
    and tm: "timers (ktimers k) (ThreadTimer w) = Some tm" "\<not> activated tm" and cur: "rt_thread_self k = Some c" "irq_nest (rt_cpu_self k) \<noteq> 0"
    and p: "p < 2" and own: "runs (k\<lparr>cpu_id := p\<rparr>) own oh" "live_taken k oh"
  shows "\<exists>k1 k2 wh. thread_timeout k w = Some k1 \<and> rt_mutex_release (k1\<lparr>cpu_id := p\<rparr>) m = Some (RT_EOK, k2) \<and>
    threads k2 w = Some wh \<and> (stat wh = RT_THREAD_READY \<or> stat wh = RT_THREAD_RUNNING) \<and>
    (\<forall>k3 h. rt_thread_self k3 = Some w \<and> threads k3 w = Some h \<and> error h = error wh \<and> mutexes k3 = mutexes k2 \<longrightarrow>
      rt_mutex_take_wake k3 m = None)"
proof -
  note O = mutex_okD [OF ok mx(1)]
  note D = mx_okD [OF O(2)]
  obtain wh where wh: "threads k w = Some wh" "stat wh = RT_THREAD_SUSPEND"
    by (rule waiting_thread [OF kinvD(1) [OF O(1)] waitq_simps(2), of w m]) (simp_all add: q)
  let ?wh = "resumed (wh\<lparr>error := - RT_ETIMEOUT\<rparr>)"
  obtain k1 where k1: "thread_timeout k w = Some k1" "kinv {} k1" "same_objs k k1" "threads k1 = (threads k)(w \<mapsto> ?wh)"
      "tlists k1 = enqueue_ready (\<lambda>l. remove1 w (tlists k l)) w wh" "same_env k k1"
    using thread_timeout_ok [OF O(1) wh tm cur] by blast
  let ?k = "k1\<lparr>cpu_id := p\<rparr>"
  have ow: "own \<noteq> w" using D(6) [OF mx(2)] q by auto
  have k: "kinv {} ?k" "mutexes ?k m = Some mx" "tlists ?k (MutexQ m) = []"
    using kinv_cpu [OF k1(2) p] k1(3,5) mx(1) q by (simp_all add: same_objs_def enqueue_ready_other)
  have "runs ?k own oh" using own(1) k1(4,6) ow by (simp add: runs_def rt_thread_self_def rt_cpu_self_def same_env_def)
  moreover have "live_taken ?k oh" using own(2) k1(3) by (simp add: live_taken_def same_objs_def)
  moreover have "mutex_frame m k ?k"
    unfolding mutex_frame_def
  proof (intro conjI exI [of _ mx] allI impI)
    fix t h assume t: "threads ?k t = Some h \<and> m \<in> set (taken_object_list h)"
    obtain th where th: "threads k t = Some th" "taken_object_list th = taken_object_list h"
      using t wh k1(4) by (cases "t = w") (auto simp: resumed_def)
    then show "\<exists>th. threads k t = Some th \<and> m \<in> set (taken_object_list th)" "m \<notin> set (remove1 m (taken_object_list h))"
      using D(8) [OF th(1), unfolded th(2)] t by auto
  next
    fix t assume t: "owner mx = Some t"
    then have "t = own" using mx(2) by simp
    then show "\<exists>h. threads ?k t = Some h \<and> stat h \<noteq> RT_THREAD_INIT" using D(7) [OF t] ow k1(4) by simp
  qed (use k mx D(3) in auto)
  ultimately obtain k2 h mx' where k2: "rt_mutex_release ?k m = Some (RT_EOK, k2)" "mutexes k2 m = Some mx'"
      "\<forall>u. u \<noteq> own \<and> u \<notin> set (tlists ?k (MutexQ m)) \<longrightarrow> rel_option sched_eq (threads ?k u) (threads k2 u)"
      "mx' = mx\<lparr>hold := 0, owner := None, mutex_priority := 255\<rparr>"
    using release_last [OF mutex_frame_ok [OF ok] k(2) mx(2,3), of oh] unfolding k(3) by auto
  have "rel_option sched_eq (threads ?k w) (threads k2 w)" using k2(3) ow k(3) by simp
  then obtain wh2 where "threads k2 w = Some wh2" "error wh2 = - RT_ETIMEOUT" "stat wh2 = RT_THREAD_READY \<or> stat wh2 = RT_THREAD_RUNNING"
    using k1(4) by (auto simp: option_rel_Some1 sched_eq_def resumed_def split: if_splits)
  then show ?thesis using k1(1) k2
    by (intro exI [of _ k1] exI [of _ k2] exI [of _ wh2]) (auto simp: rt_mutex_take_wake_def mutex_drop_def rt_errs)
qed

section \<open>Concrete states\<close>

definition ex_mutex :: "tid option \<Rightarrow> nat \<Rightarrow> rt_mutex" where
  "ex_mutex own p = \<lparr>ceiling_priority = 255, mutex_priority = p, hold = (if own = None then 0 else 1), owner = own, mutex_static = True\<rparr>"

text \<open>A mutex that the idle thread of processor 1 has; nobody waits.\<close>

definition ex_idle_owner :: kernel where
  "ex_idle_owner = (ex_kernel 0)\<lparr>threads := ex_threads(7 \<mapsto> (ex_thread RT_THREAD_RUNNING 31 1 1)\<lparr>taken_object_list := [0]\<rparr>),
     mutexes := [0 \<mapsto> ex_mutex (Some 7) 255]\<rparr>"

lemma ex_idle_owner_ok: "mutex_ok 0 ex_idle_owner"
proof -
  have "kinv {} ((ex_kernel 0)\<lparr>threads := (threads (ex_kernel 0))(7 \<mapsto> (ex_thread RT_THREAD_RUNNING 31 1 1)\<lparr>taken_object_list := [0]\<rparr>)\<rparr>)"
    by (rule kinv_upd [OF ex_kinv, where th = "ex_thread RT_THREAD_RUNNING 31 1 1"]) (simp_all add: ex_self ex_threads_def same_thread_def)
  then have "kinv {} ex_idle_owner" by (simp add: ex_idle_owner_def ex_self)
  then show ?thesis
    by (auto simp: mutex_ok_def mx_ok_def ex_idle_owner_def ex_mutex_def ceiling_ok_def ex_tlists ex_lists_def ex_threads_def ex_thread_def split: if_splits)
qed

theorem mutex_take_spec_witness:
  "\<exists>k' h oh'. rt_mutex_take ex_idle_owner 0 5 = Some (Blocked, k') \<and> mutex_ok 0 k' \<and> tlists k' (MutexQ 0) = [1] \<and>
    threads k' 1 = Some h \<and> stat h = RT_THREAD_SUSPEND \<and> threads k' 7 = Some oh' \<and>
    current_priority oh' = inherited k' oh' \<and> current_priority oh' \<le> 10"
proof -
  let ?o = "(ex_thread RT_THREAD_RUNNING 31 1 1)\<lparr>taken_object_list := [0]\<rparr>"
  have b: "can_block ex_idle_owner 1 (ex_thread RT_THREAD_RUNNING 10 2 0)"
    using ex_can_block ex_eligible [of 0]
    by (auto simp: can_block_def eligible_def ex_idle_owner_def ex_self ex_threads_def ex_thread_def rt_thread_self_def rt_cpu_self_def intro!: exI [of _ 2])
  have o: "threads ex_idle_owner 7 = Some ?o" "mutexes ex_idle_owner 0 = Some (ex_mutex (Some 7) 255)" by (simp_all add: ex_idle_owner_def)
  have i: "current_priority ?o = inherited ex_idle_owner ?o" "0 \<in> set (taken_object_list ?o)" "no_chain (ex_mutex (Some 7) 255) (ex_thread RT_THREAD_RUNNING 10 2 0) ?o"
    by (simp_all add: inherited_def mprio_def o(2) ex_mutex_def ex_thread_def no_chain_def)
  have q: "wait_insert ex_idle_owner RT_IPC_FLAG_PRIO 1 (tlists ex_idle_owner (MutexQ 0)) = [1]"
    by (simp add: wait_insert_def ex_idle_owner_def ex_tlists ex_lists_def)
  have p: "current_priority (ex_thread RT_THREAD_RUNNING 10 2 0) = 10" by (simp add: ex_thread_def)
  have own: "owner (ex_mutex (Some 7) 255) = Some 7" by (simp add: ex_mutex_def)
  have n: "(5 :: int) < half" by (simp add: half_def)
  show ?thesis using mutex_take_spec [OF ex_idle_owner_ok o(2) b n] o(1) i q p unfolding own by auto
qed

text \<open>A mutex that thread 1 has and thread 4 waits for.\<close>

definition ex_contended :: kernel where
  "ex_contended = (ex_waiting 0 (MutexQ 0))\<lparr>threads := ex_threads(4 \<mapsto> (ex_thread RT_THREAD_SUSPEND 8 2 2)\<lparr>pending_object := Some 0\<rparr>,
       1 \<mapsto> (ex_thread RT_THREAD_RUNNING 10 2 0)\<lparr>taken_object_list := [0]\<rparr>),
     mutexes := [0 \<mapsto> ex_mutex (Some 1) 8]\<rparr>"

lemma ex_contended_ok: "mutex_ok 0 ex_contended"
proof -
  let ?w = "ex_waiting 0 (MutexQ 0)"
  let ?k1 = "?w\<lparr>threads := ex_threads(4 \<mapsto> (ex_thread RT_THREAD_SUSPEND 8 2 2)\<lparr>pending_object := Some 0\<rparr>)\<rparr>"
  have "kinv {} (?w\<lparr>threads := (threads ?w)(4 \<mapsto> (ex_thread RT_THREAD_SUSPEND 8 2 2)\<lparr>pending_object := Some 0\<rparr>)\<rparr>)"
    by (rule kinv_upd [OF ex_waiting_kinv, of _ _ _ "ex_thread RT_THREAD_SUSPEND 8 2 2"]) (simp_all add: ex_waiting_self ex_threads_def same_thread_def)
  then have k1: "kinv {} ?k1" by (simp add: ex_waiting_self)
  have "kinv {} (?k1\<lparr>threads := (threads ?k1)(1 \<mapsto> (ex_thread RT_THREAD_RUNNING 10 2 0)\<lparr>taken_object_list := [0]\<rparr>)\<rparr>)"
    by (rule kinv_upd [OF k1, of 1 "ex_thread RT_THREAD_RUNNING 10 2 0"]) (simp_all add: ex_threads_def same_thread_def)
  then have "kinv {} ex_contended" by (simp add: ex_contended_def)
  then show ?thesis
    by (auto simp: mutex_ok_def mx_ok_def ex_contended_def ex_mutex_def ceiling_ok_def ex_waiting_self ex_threads_def ex_thread_def split: if_splits)
qed

theorem mutex_release_spec_witness:
  "\<exists>k' mx' uh. rt_mutex_release ex_contended 0 = Some (RT_EOK, k') \<and> mutex_ok 0 k' \<and> mutexes k' 0 = Some mx' \<and> owner mx' = Some 4 \<and>
    tlists k' (MutexQ 0) = [] \<and> threads k' 4 = Some uh \<and> pending_object uh = None"
proof -
  let ?t = "(ex_thread RT_THREAD_RUNNING 10 2 0)\<lparr>taken_object_list := [0]\<rparr>"
  have m: "mutexes ex_contended 0 = Some (ex_mutex (Some 1) 8)" by (simp add: ex_contended_def)
  have r: "runs ex_contended 1 ?t" "live_taken ex_contended ?t"
    using ex_waiting_self [of 0 "MutexQ 0"]
    by (simp_all add: runs_def live_taken_def ex_contended_def ex_thread_def rt_thread_self_def rt_cpu_self_def)
  have q: "tlists ex_contended (MutexQ 0) = [4]" by (simp add: ex_contended_def ex_waiting_self)
  have o: "owner (ex_mutex (Some 1) 8) = Some 1" "hold (ex_mutex (Some 1) 8) = 1" by (simp_all add: ex_mutex_def)
  show ?thesis using mutex_release_spec [OF ex_contended_ok m r] unfolding q o by auto
qed

theorem mutex_exclusion_witness:
  "\<exists>k mx. (mutex_step 0)\<^sup>*\<^sup>* ((ex_kernel 0)\<lparr>mutexes := [0 \<mapsto> new_mutex True]\<rparr>, \<lambda>_. 0) (k, (\<lambda>_. 0)(1 := 1)) \<and> mutex_ok 0 k \<and>
    mutexes k 0 = Some mx \<and> owner mx = Some 1"
proof -
  let ?k = "(ex_kernel 0)\<lparr>mutexes := [0 \<mapsto> new_mutex True]\<rparr>"
  have ok: "mutex_ok 0 ?k"
    using ex_kinv [of 0] by (auto simp: mutex_ok_def mx_ok_def new_mutex_def ceiling_ok_def ex_tlists ex_lists_def ex_self ex_threads_def ex_thread_def split: if_splits)
  have m: "mutexes ?k 0 = Some (new_mutex True)" "owner (new_mutex True) = None" by (simp_all add: new_mutex_def)
  have b: "can_block ?k 1 (ex_thread RT_THREAD_RUNNING 10 2 0)"
    using ex_can_block by (simp add: can_block_def eligible_def rt_thread_self_def rt_cpu_self_def)
  obtain k' where k': "rt_mutex_take ?k 0 0 = Some (Done RT_EOK, k')" using take_free [OF ok m b] by blast
  have n: "(0 :: int) < half" by (simp add: half_def)
  have st: "(mutex_step 0)\<^sup>*\<^sup>* (?k, \<lambda>_. 0) (k', (\<lambda>_. 0)(1 := 1))"
    using r_into_rtranclp [of "mutex_step 0", OF take_done [OF b n k', of "\<lambda>_. 0"]] by simp
  obtain mx where mx: "mutexes k' 0 = Some mx" "\<forall>t. ((\<lambda>_. 0)(1 := 1)) t = (if owner mx = Some t then hold mx else 0)" "mutex_ok 0 k'"
    using mutex_exclusion [OF st ok m] by blast
  have "owner mx = Some 1" using mx(2) [rule_format, of 1] by (auto split: if_splits)
  then show ?thesis using st mx by blast
qed

text \<open>Thread 4, at priority 20, has mutex 0 and waits for mutex 1; thread 1, at priority 10, wants mutex 0.\<close>

definition ex_waiter :: rt_thread where
  "ex_waiter = (raised 20 (ex_thread RT_THREAD_SUSPEND 8 2 2))\<lparr>taken_object_list := [0], pending_object := Some 1\<rparr>"

definition ex_chain :: kernel where
  "ex_chain = (ex_waiting 0 (MutexQ 1))\<lparr>threads := ex_threads(4 \<mapsto> ex_waiter), mutexes := [0 \<mapsto> ex_mutex (Some 4) 255, 1 \<mapsto> ex_mutex (Some 3) 20]\<rparr>"

lemma ex_chain_ok: "mutex_ok 0 ex_chain"
proof -
  let ?w = "ex_waiting 0 (MutexQ 1)" and ?t = "ex_thread RT_THREAD_SUSPEND 8 2 2"
  let ?k1 = "?w\<lparr>threads := ex_threads(4 \<mapsto> raised 20 ?t)\<rparr>"
  have t: "threads ?w 4 = Some ?t" "stat ?t = RT_THREAD_SUSPEND" by (simp_all add: ex_waiting_self ex_threads_def ex_thread_def)
  have "thread_change_priority ?w 4 20 = Some ?k1"
    using t by (simp add: thread_change_priority_def upd_thread_def ex_waiting_self raised_def)
  then have k1: "kinv {} ?k1" using change_priority_ok [OF ex_waiting_kinv t(1), of 20] t(2) by auto
  have "kinv {} (?k1\<lparr>threads := (threads ?k1)(4 \<mapsto> ex_waiter)\<rparr>)"
    by (rule kinv_upd [OF k1, of 4 "raised 20 ?t"]) (simp_all add: ex_waiter_def same_thread_def)
  then have "kinv {} ex_chain" by (simp add: ex_chain_def)
  then show ?thesis
    by (auto simp: mutex_ok_def mx_ok_def ex_chain_def ex_mutex_def ceiling_ok_def ex_waiting_self ex_lists_def ex_threads_def ex_thread_def
        ex_waiter_def raised_def split: if_splits)
qed

lemma mutex_chain_asserts_example:
  "mutex_ok 0 ex_chain \<and> rt_thread_self ex_chain = Some 1 \<and> rt_mutex_take ex_chain 0 5 = None"
proof -
  have b: "can_block ex_chain 1 (ex_thread RT_THREAD_RUNNING 10 2 0)"
    using ex_can_block ex_eligible [of 0]
    by (auto simp: can_block_def eligible_def ex_chain_def ex_waiting_def ex_self ex_threads_def ex_thread_def rt_thread_self_def rt_cpu_self_def
        intro!: exI [of _ 2])
  have o: "threads ex_chain 4 = Some ex_waiter" "mutexes ex_chain 0 = Some (ex_mutex (Some 4) 255)" by (simp_all add: ex_chain_def)
  have w: "stat ex_waiter = RT_THREAD_SUSPEND" "pending_object ex_waiter = Some 1" "current_priority (ex_thread RT_THREAD_RUNNING 10 2 0) < current_priority ex_waiter"
    "current_priority (ex_thread RT_THREAD_RUNNING 10 2 0) < mutex_priority (ex_mutex (Some 4) 255)" "owner (ex_mutex (Some 4) 255) = Some 4"
    by (simp_all add: ex_waiter_def raised_def ex_thread_def ex_mutex_def)
  have "rt_mutex_take ex_chain 0 5 = None"
    by (rule mutex_chain_asserts [OF ex_chain_ok o(2) w(5) b _ o(1) w(1-4)]) (simp_all add: half_def)
  then show ?thesis using ex_chain_ok b by (simp add: can_block_def)
qed

text \<open>The idle thread of processor 1 has the mutex, thread 4 waits for it and its timer has just expired on processor 0.\<close>

definition ex_race :: kernel where
  "ex_race = (ex_waiting 1 (MutexQ 0))\<lparr>ktimers := ex_ktimers\<lparr>timers := (timers ex_ktimers)(ThreadTimer 4 \<mapsto> ex_timer False), timer_list := []\<rparr>,
     threads := ex_threads(4 \<mapsto> (ex_thread RT_THREAD_SUSPEND 8 2 2)\<lparr>pending_object := Some 0\<rparr>,
       7 \<mapsto> (ex_thread RT_THREAD_RUNNING 31 1 1)\<lparr>taken_object_list := [0]\<rparr>),
     mutexes := [0 \<mapsto> ex_mutex (Some 7) 8]\<rparr>"

lemma ex_race_ok: "mutex_ok 0 ex_race"
proof -
  let ?w = "(ex_waiting 1 (MutexQ 0))\<lparr>ktimers := ex_ktimers\<lparr>timers := (timers ex_ktimers)(ThreadTimer 4 \<mapsto> ex_timer False), timer_list := []\<rparr>\<rparr>"
  let ?k1 = "?w\<lparr>threads := ex_threads(4 \<mapsto> (ex_thread RT_THREAD_SUSPEND 8 2 2)\<lparr>pending_object := Some 0\<rparr>)\<rparr>"
  have "timer_link ?w"
    by (auto simp: timer_link_def timer_wf_def listed_def timer_ok_def half_def ex_waiting_self ex_timer_def ex_ktimers_def ex_threads_def ex_thread_def split: if_splits)
  then have w: "kinv {} ?w" by (intro kinv_cong [OF ex_waiting_kinv]) simp_all
  have "kinv {} (?w\<lparr>threads := (threads ?w)(4 \<mapsto> (ex_thread RT_THREAD_SUSPEND 8 2 2)\<lparr>pending_object := Some 0\<rparr>)\<rparr>)"
    by (rule kinv_upd [OF w, where th = "ex_thread RT_THREAD_SUSPEND 8 2 2"]) (simp_all add: ex_waiting_self ex_threads_def same_thread_def)
  then have k1: "kinv {} ?k1" by (simp add: ex_waiting_self)
  have "kinv {} (?k1\<lparr>threads := (threads ?k1)(7 \<mapsto> (ex_thread RT_THREAD_RUNNING 31 1 1)\<lparr>taken_object_list := [0]\<rparr>)\<rparr>)"
    by (rule kinv_upd [OF k1, where th = "ex_thread RT_THREAD_RUNNING 31 1 1"]) (simp_all add: ex_threads_def same_thread_def)
  then have "kinv {} ex_race" by (simp add: ex_race_def)
  then show ?thesis
    by (auto simp: mutex_ok_def mx_ok_def ex_race_def ex_mutex_def ceiling_ok_def ex_waiting_self ex_threads_def ex_thread_def split: if_splits)
qed

theorem mutex_timeout_race_witness:
  "\<exists>k1 k2 wh. thread_timeout ex_race 4 = Some k1 \<and> rt_mutex_release (k1\<lparr>cpu_id := 1\<rparr>) 0 = Some (RT_EOK, k2) \<and> threads k2 4 = Some wh \<and>
    (\<forall>k3 h. rt_thread_self k3 = Some 4 \<and> threads k3 4 = Some h \<and> error h = error wh \<and> mutexes k3 = mutexes k2 \<longrightarrow> rt_mutex_take_wake k3 0 = None)"
proof -
  let ?o = "(ex_thread RT_THREAD_RUNNING 31 1 1)\<lparr>taken_object_list := [0]\<rparr>"
  have m: "mutexes ex_race 0 = Some (ex_mutex (Some 7) 8)" "owner (ex_mutex (Some 7) 8) = Some 7" "hold (ex_mutex (Some 7) 8) = 1"
    "tlists ex_race (MutexQ 0) = [4]" "timers (ktimers ex_race) (ThreadTimer 4) = Some (ex_timer False)" "\<not> activated (ex_timer False)"
    by (simp_all add: ex_race_def ex_mutex_def ex_waiting_self ex_timer_def)
  have s: "rt_thread_self ex_race = Some 1" "irq_nest (rt_cpu_self ex_race) \<noteq> 0"
    using ex_waiting_self(1,2) [of 1 "MutexQ 0"] by (simp_all add: ex_race_def rt_thread_self_def rt_cpu_self_def)
  have r: "runs (ex_race\<lparr>cpu_id := 1\<rparr>) 7 ?o" "live_taken ex_race ?o"
    by (simp_all add: runs_def live_taken_def ex_race_def ex_waiting_def ex_kernel_def ex_cpu_def ex_thread_def rt_thread_self_def rt_cpu_self_def)
  show ?thesis using mutex_timeout_race [OF ex_race_ok m s _ r] by fastforce
qed

end
