(* ===== verification/Kmemory.thy ===== *)
theory Kmemory
  imports Prelude
begin

text \<open>
  The memory functions of \<^verbatim>\<open>rt-thread/src/kservice.c\<close> on a byte-addressed memory: both the
  versions that move whole words and those for \<^verbatim>\<open>RT_KSERVICE_USING_TINY_SIZE\<close>. An access to an address that is not
  mapped is a fault; \<^verbatim>\<open>sizeof (long)\<close> is 4. Addresses are integers: no object wraps around the end of the
  address space.
\<close>

section \<open>Memory\<close>

type_synonym mem = "int \<rightharpoonup> byte"

definition store :: "mem \<Rightarrow> int \<Rightarrow> byte \<Rightarrow> mem option" where
  "store m a b = (if m a = None then None else Some (m(a \<mapsto> b)))"

definition load_word :: "mem \<Rightarrow> int \<Rightarrow> (byte \<times> byte \<times> byte \<times> byte) option" where
  "load_word m a = do { b0 \<leftarrow> m a; b1 \<leftarrow> m (a + 1); b2 \<leftarrow> m (a + 2); b3 \<leftarrow> m (a + 3); Some (b0, b1, b2, b3) }"

definition store_word :: "mem \<Rightarrow> int \<Rightarrow> byte \<times> byte \<times> byte \<times> byte \<Rightarrow> mem option" where
  "store_word m a w = (case w of (b0, b1, b2, b3) \<Rightarrow> do {
     m0 \<leftarrow> store m a b0; m1 \<leftarrow> store m0 (a + 1) b1; m2 \<leftarrow> store m1 (a + 2) b2; store m2 (a + 3) b3 })"

section \<open>Setting memory\<close>

fun memset_bytes :: "mem \<Rightarrow> int \<Rightarrow> byte \<Rightarrow> nat \<Rightarrow> mem option" where
  "memset_bytes m a d 0 = Some m"
| "memset_bytes m a d (Suc n) = do { m1 \<leftarrow> store m a d; memset_bytes m1 (a + 1) d n }"

definition rt_memset_tiny :: "mem \<Rightarrow> int \<Rightarrow> int \<Rightarrow> nat \<Rightarrow> mem option" where
  "rt_memset_tiny m s c count = memset_bytes m s (word_of_int c) count"

fun memset_blocks :: "mem \<Rightarrow> int \<Rightarrow> byte \<Rightarrow> nat \<Rightarrow> (mem \<times> int \<times> nat) option" where
  "memset_blocks m a d count =
     (if count \<ge> 16 then do {
        m1 \<leftarrow> store_word m a (d, d, d, d);
        m2 \<leftarrow> store_word m1 (a + 4) (d, d, d, d);
        m3 \<leftarrow> store_word m2 (a + 8) (d, d, d, d);
        m4 \<leftarrow> store_word m3 (a + 12) (d, d, d, d);
        memset_blocks m4 (a + 16) d (count - 16)
      }
      else Some (m, a, count))"

fun memset_words :: "mem \<Rightarrow> int \<Rightarrow> byte \<Rightarrow> nat \<Rightarrow> (mem \<times> int \<times> nat) option" where
  "memset_words m a d count =
     (if count \<ge> 4 then do { m1 \<leftarrow> store_word m a (d, d, d, d); memset_words m1 (a + 4) d (count - 4) }
      else Some (m, a, count))"

definition rt_memset :: "mem \<Rightarrow> int \<Rightarrow> int \<Rightarrow> nat \<Rightarrow> mem option" where
  "rt_memset m s c count = (let d = word_of_int c in
     if \<not> count < 4 \<and> s AND 3 = 0 then do {
       (m1, a1, c1) \<leftarrow> memset_blocks m s d count;
       (m2, a2, c2) \<leftarrow> memset_words m1 a1 d c1;
       memset_bytes m2 a2 d c2
     }
     else memset_bytes m s d count)"

section \<open>Copying\<close>

fun copy_forward :: "mem \<Rightarrow> int \<Rightarrow> int \<Rightarrow> nat \<Rightarrow> mem option" where
  "copy_forward m d s 0 = Some m"
| "copy_forward m d s (Suc n) = do { b \<leftarrow> m s; m1 \<leftarrow> store m d b; copy_forward m1 (d + 1) (s + 1) n }"

fun copy_backward :: "mem \<Rightarrow> int \<Rightarrow> int \<Rightarrow> nat \<Rightarrow> mem option" where
  "copy_backward m d s 0 = Some m"
| "copy_backward m d s (Suc n) = do { b \<leftarrow> m (s + int n); m1 \<leftarrow> store m (d + int n) b; copy_backward m1 d s n }"

definition rt_memcpy_tiny :: "mem \<Rightarrow> int \<Rightarrow> int \<Rightarrow> nat \<Rightarrow> mem option" where
  "rt_memcpy_tiny m dst src count =
     (if dst \<le> src \<or> dst > src + int count then copy_forward m dst src count else copy_backward m dst src count)"

definition copy_word :: "mem \<Rightarrow> int \<Rightarrow> int \<Rightarrow> mem option" where
  "copy_word m d s = do { w \<leftarrow> load_word m s; store_word m d w }"

fun copy_blocks :: "mem \<Rightarrow> int \<Rightarrow> int \<Rightarrow> nat \<Rightarrow> (mem \<times> int \<times> int \<times> nat) option" where
  "copy_blocks m d s len =
     (if len \<ge> 16 then do {
        m1 \<leftarrow> copy_word m d s;
        m2 \<leftarrow> copy_word m1 (d + 4) (s + 4);
        m3 \<leftarrow> copy_word m2 (d + 8) (s + 8);
        m4 \<leftarrow> copy_word m3 (d + 12) (s + 12);
        copy_blocks m4 (d + 16) (s + 16) (len - 16)
      }
      else Some (m, d, s, len))"

fun copy_words :: "mem \<Rightarrow> int \<Rightarrow> int \<Rightarrow> nat \<Rightarrow> (mem \<times> int \<times> int \<times> nat) option" where
  "copy_words m d s len =
     (if len \<ge> 4 then do { m1 \<leftarrow> copy_word m d s; copy_words m1 (d + 4) (s + 4) (len - 4) }
      else Some (m, d, s, len))"

definition rt_memcpy_words :: "mem \<Rightarrow> int \<Rightarrow> int \<Rightarrow> nat \<Rightarrow> mem option" where
  "rt_memcpy_words m dst src count =
     (if \<not> count < 16 \<and> (src AND 3) OR (dst AND 3) = 0 then do {
        (m1, d1, s1, n1) \<leftarrow> copy_blocks m dst src count;
        (m2, d2, s2, n2) \<leftarrow> copy_words m1 d1 s1 n1;
        copy_forward m2 d2 s2 n2
      }
      else copy_forward m dst src count)"

definition rt_memmove :: "mem \<Rightarrow> int \<Rightarrow> int \<Rightarrow> nat \<Rightarrow> mem option" where
  "rt_memmove m dest src n =
     (if src < dest \<and> dest < src + int n then copy_backward m dest src n else copy_forward m dest src n)"

fun rt_memcmp :: "mem \<Rightarrow> int \<Rightarrow> int \<Rightarrow> nat \<Rightarrow> int option" where
  "rt_memcmp m cs ct 0 = Some 0"
| "rt_memcmp m cs ct (Suc n) = do {
     x \<leftarrow> m cs; y \<leftarrow> m ct;
     let res = uint x - uint y;
     (if res \<noteq> 0 then Some res else rt_memcmp m (cs + 1) (ct + 1) n)
   }"

section \<open>What they should do\<close>

definition mapped :: "mem \<Rightarrow> int \<Rightarrow> nat \<Rightarrow> bool" where
  "mapped m a n \<longleftrightarrow> (\<forall>x. a \<le> x \<and> x < a + int n \<longrightarrow> m x \<noteq> None)"

definition filled :: "mem \<Rightarrow> int \<Rightarrow> nat \<Rightarrow> byte \<Rightarrow> mem" where
  "filled m a n d = (\<lambda>x. if a \<le> x \<and> x < a + int n then Some d else m x)"

definition copied :: "mem \<Rightarrow> int \<Rightarrow> int \<Rightarrow> nat \<Rightarrow> mem" where
  "copied m d s n = (\<lambda>x. if d \<le> x \<and> x < d + int n then m (s + (x - d)) else m x)"

declare memset_blocks.simps [simp del] memset_words.simps [simp del] copy_blocks.simps [simp del] copy_words.simps [simp del]

lemma mapped_0 [simp]: "mapped m a 0"
  by (auto simp: mapped_def)

lemma mapped_sub: "mapped m a n \<Longrightarrow> a \<le> b \<Longrightarrow> b + int k \<le> a + int n \<Longrightarrow> mapped m b k"
  by (auto simp: mapped_def)

lemma mapped_at: "mapped m a n \<Longrightarrow> a \<le> x \<Longrightarrow> x < a + int n \<Longrightarrow> \<exists>b. m x = Some b"
  by (auto simp: mapped_def)

lemma mapped_filled [simp]: "mapped m a n \<Longrightarrow> mapped (filled m b k d) a n"
  by (simp add: mapped_def filled_def)

lemma mapped_copied: "mapped m a n \<Longrightarrow> mapped m s k \<Longrightarrow> mapped (copied m d s k) a n"
  by (auto simp: mapped_def copied_def)

lemma filled_0 [simp]: "filled m a 0 d = m"
  by (auto simp add: filled_def fun_eq_iff)

lemma filled_add: "filled (filled m a k d) (a + int k) n d = filled m a (k + n) d"
  by (auto simp: filled_def fun_eq_iff)

lemma filled_1: "filled m a (Suc 0) d = m(a \<mapsto> d)"
  by (auto simp: filled_def fun_eq_iff)

lemma copied_0 [simp]: "copied m d s 0 = m"
  by (auto simp add: copied_def fun_eq_iff)

lemma copied_1: "m s = Some b \<Longrightarrow> copied m d s (Suc 0) = m(d \<mapsto> b)"
  by (auto simp: copied_def fun_eq_iff)

text \<open>Copying in pieces from the front is right unless the destination begins inside the source, after its start.\<close>

definition fwd_ok :: "int \<Rightarrow> int \<Rightarrow> nat \<Rightarrow> bool" where
  "fwd_ok d s n \<longleftrightarrow> d \<le> s \<or> s + int n \<le> d"

lemma copied_add:
  assumes "fwd_ok d s (k + n)"
  shows "copied (copied m d s k) (d + int k) (s + int k) n = copied m d s (k + n)"
  using assms by (auto simp: copied_def fwd_ok_def fun_eq_iff)

lemma fwd_ok_step: "fwd_ok d s (k + n) \<Longrightarrow> fwd_ok (d + int k) (s + int k) n"
  by (auto simp: fwd_ok_def)

section \<open>Setting memory is right\<close>

lemma store_ok: "m a \<noteq> None \<Longrightarrow> store m a b = Some (m(a \<mapsto> b))"
  by (simp add: store_def)

lemma memset_bytes_ok: "mapped m a n \<Longrightarrow> memset_bytes m a d n = Some (filled m a n d)"
proof (induction n arbitrary: m a)
  case (Suc n)
  have a: "m a \<noteq> None" using Suc.prems by (auto simp: mapped_def)
  have m1: "mapped (m(a \<mapsto> d)) (a + 1) n" using Suc.prems by (auto simp: mapped_def)
  have "memset_bytes m a d (Suc n) = memset_bytes (m(a \<mapsto> d)) (a + 1) d n" using a by (simp add: store_ok)
  also have "memset_bytes (m(a \<mapsto> d)) (a + 1) d n = Some (filled (m(a \<mapsto> d)) (a + 1) n d)" by (rule Suc.IH [OF m1])
  also have "filled (m(a \<mapsto> d)) (a + 1) n d = filled m a (Suc n) d" using filled_add [of m a 1 d n] filled_1 [of m a d] by simp
  finally show ?case .
qed simp

lemma store_word_fill:
  assumes "mapped m a 4"
  shows "store_word m a (d, d, d, d) = Some (filled m a 4 d)"
proof -
  have "m (a + i) \<noteq> None" if "0 \<le> i" "i < 4" for i using assms that by (auto simp: mapped_def)
  from this [of 0] this [of 1] this [of 2] this [of 3]
  have "store_word m a (d, d, d, d) = Some (m(a \<mapsto> d, a + 1 \<mapsto> d, a + 2 \<mapsto> d, a + 3 \<mapsto> d))"
    by (simp add: store_word_def store_def)
  moreover have "m(a \<mapsto> d, a + 1 \<mapsto> d, a + 2 \<mapsto> d, a + 3 \<mapsto> d) = filled m a 4 d"
    by (auto simp: filled_def fun_eq_iff)
  ultimately show ?thesis by simp
qed

lemma memset_words_ok:
  assumes "mapped m a n"
  shows "\<exists>k \<le> n. memset_words m a d n = Some (filled m a k d, a + int k, n - k)"
  using assms
proof (induction n arbitrary: m a rule: less_induct)
  case (less n)
  show ?case
  proof (cases "n \<ge> 4")
    case True
    have w: "store_word m a (d, d, d, d) = Some (filled m a 4 d)"
      by (rule store_word_fill, rule mapped_sub [OF less.prems]) (use True in simp_all)
    have "mapped (filled m a 4 d) (a + 4) (n - 4)" by (rule mapped_filled, rule mapped_sub [OF less.prems]) (use True in simp_all)
    then obtain k where k: "k \<le> n - 4" "memset_words (filled m a 4 d) (a + 4) d (n - 4) = Some (filled (filled m a 4 d) (a + 4) k d, a + 4 + int k, n - 4 - k)"
      using less.IH [of "n - 4" "filled m a 4 d" "a + 4"] True by auto
    have "memset_words m a d n = Some (filled m a (4 + k) d, a + int (4 + k), n - (4 + k))"
      using w k(2) True filled_add [of m a 4 d k] by (subst memset_words.simps) (simp add: ac_simps)
    then show ?thesis using k(1) True by (intro exI [of _ "4 + k"]) simp
  next
    case False
    then show ?thesis by (intro exI [of _ 0]) (subst memset_words.simps, simp)
  qed
qed

text \<open>Four words are four steps.\<close>

lemma store_words_fill:
  assumes "mapped m a 16"
  shows "do { m1 \<leftarrow> store_word m a (d, d, d, d); m2 \<leftarrow> store_word m1 (a + 4) (d, d, d, d);
      m3 \<leftarrow> store_word m2 (a + 8) (d, d, d, d); store_word m3 (a + 12) (d, d, d, d) } = Some (filled m a 16 d)"
proof -
  have s: "store_word (filled m a k d) (a + int k) (d, d, d, d) = Some (filled m a (k + 4) d)" if "k \<le> 12" for k
    using store_word_fill [of "filled m a k d" "a + int k" d] mapped_sub [OF assms, of "a + int k" 4] that filled_add [of m a k d 4] by simp
  show ?thesis using s [of 0] s [of 4] s [of 8] s [of 12] by simp
qed

lemma memset_blocks_ok:
  assumes "mapped m a n"
  shows "\<exists>k \<le> n. memset_blocks m a d n = Some (filled m a k d, a + int k, n - k)"
  using assms
proof (induction n arbitrary: m a rule: less_induct)
  case (less n)
  show ?case
  proof (cases "n \<ge> 16")
    case True
    have w: "do { m1 \<leftarrow> store_word m a (d, d, d, d); m2 \<leftarrow> store_word m1 (a + 4) (d, d, d, d);
        m3 \<leftarrow> store_word m2 (a + 8) (d, d, d, d); store_word m3 (a + 12) (d, d, d, d) } = Some (filled m a 16 d)"
      by (rule store_words_fill, rule mapped_sub [OF less.prems]) (use True in simp_all)
    have "mapped (filled m a 16 d) (a + 16) (n - 16)" by (rule mapped_filled, rule mapped_sub [OF less.prems]) (use True in simp_all)
    then obtain k where k: "k \<le> n - 16" "memset_blocks (filled m a 16 d) (a + 16) d (n - 16) = Some (filled (filled m a 16 d) (a + 16) k d, a + 16 + int k, n - 16 - k)"
      using less.IH [of "n - 16" "filled m a 16 d" "a + 16"] True by auto
    have "memset_blocks m a d n = Some (filled m a (16 + k) d, a + int (16 + k), n - (16 + k))"
      using w k(2) True filled_add [of m a 16 d k] by (subst memset_blocks.simps) (auto simp: bind_eq_Some_conv ac_simps)
    then show ?thesis using k(1) True by (intro exI [of _ "16 + k"]) simp
  next
    case False
    then show ?thesis by (intro exI [of _ 0]) (subst memset_blocks.simps, simp)
  qed
qed

lemma memset_ok:
  assumes "mapped m s n"
  shows "rt_memset m s c n = Some (filled m s n (word_of_int c))" "rt_memset_tiny m s c n = Some (filled m s n (word_of_int c))"
proof -
  let ?d = "word_of_int c :: byte"
  show "rt_memset_tiny m s c n = Some (filled m s n ?d)" by (simp add: rt_memset_tiny_def memset_bytes_ok [OF assms])
  obtain k where k: "k \<le> n" "memset_blocks m s ?d n = Some (filled m s k ?d, s + int k, n - k)"
    using memset_blocks_ok [OF assms] by blast
  have m1: "mapped (filled m s k ?d) (s + int k) (n - k)" by (rule mapped_filled, rule mapped_sub [OF assms]) (use k in simp_all)
  obtain j where j: "j \<le> n - k" "memset_words (filled m s k ?d) (s + int k) ?d (n - k) =
      Some (filled (filled m s k ?d) (s + int k) j ?d, s + int k + int j, n - k - j)"
    using memset_words_ok [OF m1] by blast
  have m2: "mapped (filled m s (k + j) ?d) (s + int (k + j)) (n - k - j)" by (rule mapped_filled, rule mapped_sub [OF assms]) (use k j in simp_all)
  have "filled (filled m s (k + j) ?d) (s + int (k + j)) (n - k - j) ?d = filled m s n ?d"
    unfolding filled_add using k(1) j(1) by simp
  then have "memset_bytes (filled m s (k + j) ?d) (s + int (k + j)) ?d (n - k - j) = Some (filled m s n ?d)"
    using memset_bytes_ok [OF m2, of ?d] by simp
  then show "rt_memset m s c n = Some (filled m s n ?d)"
    using k j memset_bytes_ok [OF assms, of ?d] by (simp add: rt_memset_def Let_def filled_add ac_simps)
qed

section \<open>Copying is right\<close>

text \<open>Both areas are mapped, and the destination does not begin inside the source (after its start).\<close>

definition copy_ok :: "mem \<Rightarrow> int \<Rightarrow> int \<Rightarrow> nat \<Rightarrow> bool" where
  "copy_ok m d s n \<longleftrightarrow> mapped m d n \<and> mapped m s n \<and> fwd_ok d s n"

lemma copy_ok_prefix: "copy_ok m d s (k + n) \<Longrightarrow> copy_ok m d s k"
  by (auto simp: copy_ok_def mapped_def fwd_ok_def)

lemma copy_ok_step:
  assumes "copy_ok m d s (k + n)"
  shows "copy_ok (copied m d s k) (d + int k) (s + int k) n"
proof -
  have "mapped m (d + int k) n" "mapped m (s + int k) n" "mapped m s k" using assms by (auto simp: copy_ok_def mapped_def)
  then show ?thesis using assms by (simp add: copy_ok_def mapped_copied fwd_ok_step)
qed

lemma copied_step: "copy_ok m d s (k + n) \<Longrightarrow> copied (copied m d s k) (d + int k) (s + int k) n = copied m d s (k + n)"
  by (simp add: copy_ok_def copied_add)

lemma copy_forward_ok: "copy_ok m d s n \<Longrightarrow> copy_forward m d s n = Some (copied m d s n)"
proof (induction n arbitrary: m d s)
  case (Suc n)
  obtain b where b: "m s = Some b" using Suc.prems by (auto simp: copy_ok_def mapped_def)
  have "m d \<noteq> None" using Suc.prems by (auto simp: copy_ok_def mapped_def)
  then have "copy_forward m d s (Suc n) = copy_forward (m(d \<mapsto> b)) (d + 1) (s + 1) n" using b by (simp add: store_ok)
  also have "m(d \<mapsto> b) = copied m d s (Suc 0)" using copied_1 [of m s b d] b by simp
  also have "copy_forward (copied m d s (Suc 0)) (d + 1) (s + 1) n = Some (copied (copied m d s (Suc 0)) (d + 1) (s + 1) n)"
    using Suc.IH [of "copied m d s (Suc 0)" "d + 1" "s + 1"] copy_ok_step [of m d s "Suc 0" n] Suc.prems by simp
  also have "copied (copied m d s (Suc 0)) (d + 1) (s + 1) n = copied m d s (Suc n)"
    using copied_step [of m d s "Suc 0" n] Suc.prems by simp
  finally show ?case .
qed simp

lemma copy_word_ok:
  assumes "mapped m d 4" "mapped m s 4"
  shows "copy_word m d s = Some (copied m d s 4)"
proof -
  have d: "m (d + i) \<noteq> None" and s: "\<exists>b. m (s + i) = Some b" if "0 \<le> i" "i < 4" for i using assms that by (auto simp: mapped_def)
  obtain b0 b1 b2 b3 where b: "m s = Some b0" "m (s + 1) = Some b1" "m (s + 2) = Some b2" "m (s + 3) = Some b3"
    using s [of 0] s [of 1] s [of 2] s [of 3] by auto
  have "store_word m d (b0, b1, b2, b3) = Some (m(d \<mapsto> b0, d + 1 \<mapsto> b1, d + 2 \<mapsto> b2, d + 3 \<mapsto> b3))"
    using d [of 0] d [of 1] d [of 2] d [of 3] by (simp add: store_word_def store_def)
  moreover have "m(d \<mapsto> b0, d + 1 \<mapsto> b1, d + 2 \<mapsto> b2, d + 3 \<mapsto> b3) = copied m d s 4"
  proof
    fix x
    consider "x = d" | "x = d + 1" | "x = d + 2" | "x = d + 3" | "x < d \<or> d + 3 < x" by linarith
    then show "(m(d \<mapsto> b0, d + 1 \<mapsto> b1, d + 2 \<mapsto> b2, d + 3 \<mapsto> b3)) x = copied m d s 4 x"
      by cases (use b in \<open>auto simp: copied_def\<close>)
  qed
  ultimately show ?thesis using b by (simp add: copy_word_def load_word_def)
qed

text \<open>A word at offset \<open>k\<close> of a longer copy.\<close>

lemma copy_word_at:
  assumes "copy_ok m d s n" "k + 4 \<le> n"
  shows "copy_word (copied m d s k) (d + int k) (s + int k) = Some (copied m d s (k + 4))"
proof -
  have n: "copy_ok m d s (k + (4 + (n - (k + 4))))" using assms by simp
  have "copy_ok (copied m d s k) (d + int k) (s + int k) 4" by (rule copy_ok_prefix [OF copy_ok_step [OF n]])
  moreover have "copy_ok m d s (k + 4)" using n copy_ok_prefix [of m d s "k + 4"] by (simp add: add.assoc)
  ultimately show ?thesis using copy_word_ok copied_step by (simp add: copy_ok_def)
qed

lemma copy_words_ok:
  assumes "copy_ok m d s n"
  shows "\<exists>k \<le> n. copy_words m d s n = Some (copied m d s k, d + int k, s + int k, n - k)"
  using assms
proof (induction n arbitrary: m d s rule: less_induct)
  case (less n)
  show ?case
  proof (cases "n \<ge> 4")
    case True
    have w: "copy_word m d s = Some (copied m d s 4)" using copy_word_at [OF less.prems, of 0] True by simp
    have n: "copy_ok m d s (4 + (n - 4))" using less.prems True by simp
    obtain k where k: "k \<le> n - 4" "copy_words (copied m d s 4) (d + 4) (s + 4) (n - 4) =
        Some (copied (copied m d s 4) (d + 4) (s + 4) k, d + 4 + int k, s + 4 + int k, n - 4 - k)"
      using less.IH [of "n - 4" "copied m d s 4" "d + 4" "s + 4"] copy_ok_step [OF n] True by auto
    have "copy_ok m d s (4 + k)" using copy_ok_prefix [of m d s "4 + k" "n - 4 - k"] less.prems k(1) True by simp
    then have "copy_words m d s n = Some (copied m d s (4 + k), d + int (4 + k), s + int (4 + k), n - (4 + k))"
      using w k(2) True copied_step [of m d s 4 k] by (subst copy_words.simps) (simp add: ac_simps)
    then show ?thesis using k(1) True by (intro exI [of _ "4 + k"]) simp
  next
    case False
    then show ?thesis by (intro exI [of _ 0]) (subst copy_words.simps, simp)
  qed
qed

lemma copy_blocks_ok:
  assumes "copy_ok m d s n"
  shows "\<exists>k \<le> n. copy_blocks m d s n = Some (copied m d s k, d + int k, s + int k, n - k)"
  using assms
proof (induction n arbitrary: m d s rule: less_induct)
  case (less n)
  show ?case
  proof (cases "n \<ge> 16")
    case True
    note w = copy_word_at [OF less.prems, of 0] copy_word_at [OF less.prems, of 4] copy_word_at [OF less.prems, of 8] copy_word_at [OF less.prems, of 12]
    have n: "copy_ok m d s (16 + (n - 16))" using less.prems True by simp
    obtain k where k: "k \<le> n - 16" "copy_blocks (copied m d s 16) (d + 16) (s + 16) (n - 16) =
        Some (copied (copied m d s 16) (d + 16) (s + 16) k, d + 16 + int k, s + 16 + int k, n - 16 - k)"
      using less.IH [of "n - 16" "copied m d s 16" "d + 16" "s + 16"] copy_ok_step [OF n] True by auto
    have "copy_ok m d s (16 + k)" using copy_ok_prefix [of m d s "16 + k" "n - 16 - k"] less.prems k(1) True by simp
    then have "copy_blocks m d s n = Some (copied m d s (16 + k), d + int (16 + k), s + int (16 + k), n - (16 + k))"
      using w k(2) True copied_step [of m d s 16 k] by (subst copy_blocks.simps) (simp add: ac_simps)
    then show ?thesis using k(1) True by (intro exI [of _ "16 + k"]) simp
  next
    case False
    then show ?thesis by (intro exI [of _ 0]) (subst copy_blocks.simps, simp)
  qed
qed

lemma memcpy_words_ok:
  assumes ok: "copy_ok m d s n"
  shows "rt_memcpy_words m d s n = Some (copied m d s n)"
proof -
  obtain k where k: "k \<le> n" "copy_blocks m d s n = Some (copied m d s k, d + int k, s + int k, n - k)" using copy_blocks_ok [OF ok] by blast
  have m1: "copy_ok (copied m d s k) (d + int k) (s + int k) (n - k)" by (rule copy_ok_step) (use ok k in simp)
  obtain j where j: "j \<le> n - k" "copy_words (copied m d s k) (d + int k) (s + int k) (n - k) =
      Some (copied (copied m d s k) (d + int k) (s + int k) j, d + int k + int j, s + int k + int j, n - k - j)"
    using copy_words_ok [OF m1] by blast
  have kj: "copy_ok m d s (k + j)" using copy_ok_prefix [of m d s "k + j" "n - k - j"] ok k(1) j(1) by simp
  have n: "copy_ok m d s ((k + j) + (n - k - j))" using ok k(1) j(1) by simp
  have "copy_forward (copied m d s (k + j)) (d + int (k + j)) (s + int (k + j)) (n - k - j) = Some (copied m d s n)"
    using copy_forward_ok [OF copy_ok_step [OF n]] copied_step [OF n] k(1) j(1) by simp
  then show ?thesis
    using k j copied_step [OF kj] copy_forward_ok [OF ok] by (simp add: rt_memcpy_words_def ac_simps)
qed

text \<open>Copying from the back is right if the destination begins at or after the source.\<close>

lemma copy_backward_ok:
  assumes "mapped m d n" "mapped m s n" "s \<le> d"
  shows "copy_backward m d s n = Some (copied m d s n)"
  using assms
proof (induction n arbitrary: m)
  case (Suc n)
  obtain b where b: "m (s + int n) = Some b" using mapped_at [OF Suc.prems(2), of "s + int n"] by auto
  have "m (d + int n) \<noteq> None" using Suc.prems(1) by (auto simp: mapped_def)
  then have "copy_backward m d s (Suc n) = copy_backward (m(d + int n \<mapsto> b)) d s n" using b by (simp add: store_ok)
  also have "\<dots> = Some (copied (m(d + int n \<mapsto> b)) d s n)"
    by (rule Suc.IH) (use Suc.prems in \<open>auto simp: mapped_def\<close>)
  also have "copied (m(d + int n \<mapsto> b)) d s n = copied m d s (Suc n)"
    using b Suc.prems(3) by (auto simp: copied_def fun_eq_iff)
  finally show ?case .
qed simp

text \<open>C22: Copying and filling against one reference each. On mapped areas, \<^verbatim>\<open>rt_memmove\<close> and the small version
  of \<^verbatim>\<open>rt_memcpy\<close> give the destination the bytes the source had before, however the areas overlap, and change nothing
  else; the version of \<^verbatim>\<open>rt_memcpy\<close> that moves words does so when the destination does not begin inside the source
  (as the callers of \<^verbatim>\<open>memcpy\<close> have to ensure); both versions of \<^verbatim>\<open>rt_memset\<close>, by words and by bytes, set exactly the
  \<open>n\<close> bytes of the area to the low byte of their argument.\<close>

theorem memory_copies:
  assumes "mapped m d n" "mapped m s n"
  shows "rt_memmove m d s n = Some (copied m d s n) \<and> rt_memcpy_tiny m d s n = Some (copied m d s n) \<and>
    (d \<le> s \<or> s + int n \<le> d \<longrightarrow> rt_memcpy_words m d s n = Some (copied m d s n)) \<and>
    rt_memset m d c n = Some (filled m d n (word_of_int c)) \<and>
    rt_memset_tiny m d c n = Some (filled m d n (word_of_int c))"
proof (intro conjI impI)
  show "rt_memset m d c n = Some (filled m d n (word_of_int c))"
    "rt_memset_tiny m d c n = Some (filled m d n (word_of_int c))"
    by (rule memset_ok [OF assms(1)])+
  have f: "copy_forward m d s n = Some (copied m d s n)" if "d \<le> s \<or> s + int n \<le> d"
    using copy_forward_ok [of m d s n] assms that by (simp add: copy_ok_def fwd_ok_def)
  show "rt_memmove m d s n = Some (copied m d s n)"
    using f copy_backward_ok [OF assms] by (auto simp: rt_memmove_def)
  show "rt_memcpy_tiny m d s n = Some (copied m d s n)"
    using f copy_backward_ok [OF assms] by (auto simp: rt_memcpy_tiny_def)
  show "rt_memcpy_words m d s n = Some (copied m d s n)" if "d \<le> s \<or> s + int n \<le> d"
    using memcpy_words_ok [of m d s n] assms that by (simp add: copy_ok_def fwd_ok_def)
qed

theorem memory_copies_witness:
  "rt_memmove [0 \<mapsto> 10, 1 \<mapsto> 11, 2 \<mapsto> 12] 1 0 2 = Some [0 \<mapsto> 10, 1 \<mapsto> 10, 2 \<mapsto> 11] \<and>
   rt_memcpy_tiny [0 \<mapsto> 10, 1 \<mapsto> 11, 2 \<mapsto> 12] 1 0 2 = Some [0 \<mapsto> 10, 1 \<mapsto> 10, 2 \<mapsto> 11] \<and>
   rt_memcpy_words [0 \<mapsto> 10, 1 \<mapsto> 11, 2 \<mapsto> 12] 0 1 2 = Some [0 \<mapsto> 11, 1 \<mapsto> 12, 2 \<mapsto> 12] \<and>
   rt_memset [0 \<mapsto> 10, 1 \<mapsto> 11, 2 \<mapsto> 12] 1 263 2 = Some [0 \<mapsto> 10, 1 \<mapsto> 7, 2 \<mapsto> 7]"
proof -
  let ?m = "[0 \<mapsto> 10, 1 \<mapsto> 11, 2 \<mapsto> 12] :: mem"
  have m: "mapped ?m 0 2" "mapped ?m 1 2" by (auto simp: mapped_def)
  have c: "copied ?m 1 0 2 = [0 \<mapsto> 10, 1 \<mapsto> 10, 2 \<mapsto> 11]" "copied ?m 0 1 2 = [0 \<mapsto> 11, 1 \<mapsto> 12, 2 \<mapsto> 12]"
    by (auto simp: copied_def fun_eq_iff)
  have f: "filled ?m 1 2 263 = [0 \<mapsto> 10, 1 \<mapsto> 7, 2 \<mapsto> 7]"
    by (auto simp: filled_def fun_eq_iff)
  show ?thesis using memory_copies [OF m(2,1), of 263] memory_copies [OF m(1,2)] by (simp add: c f)
qed

end
