(* ===== verification/Kstring.thy ===== *)
theory Kstring
  imports Kmemory "HOL-Library.List_Lexorder"
begin

text \<open>
  The string functions of \<^verbatim>\<open>rt-thread/src/kservice.c\<close>. A plain \<^verbatim>\<open>char\<close> is unsigned on Arm. The loops run until
  they meet a terminating zero: on memory without one they fault at its end, and have no
  result if the memory does not end.
\<close>

section \<open>Operations\<close>

partial_function (option) strlen_loop :: "mem \<Rightarrow> int \<Rightarrow> int option" where
  "strlen_loop m sc = Option.bind (m sc) (\<lambda>c. if c \<noteq> 0 then strlen_loop m (sc + 1) else Some sc)"

declare strlen_loop.simps [code]

definition rt_strlen :: "mem \<Rightarrow> int \<Rightarrow> int option" where
  "rt_strlen m s = do { sc \<leftarrow> strlen_loop m s; Some (sc - s) }"

partial_function (option) strnlen_loop :: "mem \<Rightarrow> int \<Rightarrow> int \<Rightarrow> int \<Rightarrow> int option" where
  "strnlen_loop m s maxlen sc = Option.bind (m sc) (\<lambda>c. if c \<noteq> 0 \<and> sc - s < maxlen then strnlen_loop m s maxlen (sc + 1) else Some sc)"

declare strnlen_loop.simps [code]

definition rt_strnlen :: "mem \<Rightarrow> int \<Rightarrow> int \<Rightarrow> int option" where
  "rt_strnlen m s maxlen = do { sc \<leftarrow> strnlen_loop m s maxlen s; Some (sc - s) }"

text \<open>The loop of \<^verbatim>\<open>rt_strstr\<close>; it is entered with \<open>l2 > 0\<close> only. The result \<open>Some None\<close> is \<^verbatim>\<open>RT_NULL\<close>.\<close>

fun strstr_loop :: "mem \<Rightarrow> int \<Rightarrow> int \<Rightarrow> nat \<Rightarrow> nat \<Rightarrow> int option option" where
  "strstr_loop m s1 s2 l2 l1 =
     (if l1 \<ge> l2 \<and> l2 > 0 then do {
        r \<leftarrow> rt_memcmp m s1 s2 l2;
        (if r = 0 then Some (Some s1) else strstr_loop m (s1 + 1) s2 l2 (l1 - 1))
      }
      else Some None)"

declare strstr_loop.simps [simp del]

definition rt_strstr :: "mem \<Rightarrow> int \<Rightarrow> int \<Rightarrow> int option option" where
  "rt_strstr m s1 s2 = do {
     l2 \<leftarrow> rt_strlen m s2;
     (if s32 l2 = 0 then Some (Some s1)
      else do { l1 \<leftarrow> rt_strlen m s1; strstr_loop m s1 s2 (nat (s32 l2)) (nat (s32 l1)) })
   }"

definition fold_case :: "int \<Rightarrow> int" where
  "fold_case c = (if c \<ge> 65 \<and> c \<le> 90 then c + 32 else c)"

partial_function (option) rt_strcasecmp :: "mem \<Rightarrow> int \<Rightarrow> int \<Rightarrow> int option" where
  "rt_strcasecmp m a b = Option.bind (m a) (\<lambda>x. Option.bind (m b) (\<lambda>y.
     let ca = fold_case (uint x AND 0xff); cb = fold_case (uint y AND 0xff) in
     if ca = cb \<and> ca \<noteq> 0 then rt_strcasecmp m (a + 1) (b + 1) else Some (ca - cb)))"

declare rt_strcasecmp.simps [code]

fun rt_strncpy :: "mem \<Rightarrow> int \<Rightarrow> int \<Rightarrow> nat \<Rightarrow> mem option" where
  "rt_strncpy m d s 0 = Some m"
| "rt_strncpy m d s (Suc n) = do {
     c \<leftarrow> m s;
     m1 \<leftarrow> store m d c;
     (if c = 0 then memset_bytes m1 (d + 1) 0 n else rt_strncpy m1 (d + 1) (s + 1) n)
   }"

partial_function (option) rt_strcpy :: "mem \<Rightarrow> int \<Rightarrow> int \<Rightarrow> mem option" where
  "rt_strcpy m dst src = Option.bind (m src) (\<lambda>c.
     if c \<noteq> 0 then Option.bind (store m dst c) (\<lambda>m1. rt_strcpy m1 (dst + 1) (src + 1)) else store m dst 0)"

declare rt_strcpy.simps [code]

definition s8 :: "int \<Rightarrow> int" where "s8 x = (x + 128) mod 256 - 128"

text \<open>The difference is kept in a \<^verbatim>\<open>signed char\<close>.\<close>

fun rt_strncmp :: "mem \<Rightarrow> int \<Rightarrow> int \<Rightarrow> nat \<Rightarrow> int option" where
  "rt_strncmp m cs ct 0 = Some 0"
| "rt_strncmp m cs ct (Suc n) = do {
     x \<leftarrow> m cs; y \<leftarrow> m ct;
     let res = s8 (uint x - uint y);
     (if res \<noteq> 0 \<or> x = 0 then Some res else rt_strncmp m (cs + 1) (ct + 1) n)
   }"

partial_function (option) rt_strcmp :: "mem \<Rightarrow> int \<Rightarrow> int \<Rightarrow> int option" where
  "rt_strcmp m cs ct = Option.bind (m cs) (\<lambda>x. Option.bind (m ct) (\<lambda>y.
     if x \<noteq> 0 \<and> x = y then rt_strcmp m (cs + 1) (ct + 1) else Some (uint x - uint y)))"

declare rt_strcmp.simps [code]

section \<open>Strings in memory\<close>

fun bytes_at :: "mem \<Rightarrow> int \<Rightarrow> byte list \<Rightarrow> bool" where
  "bytes_at m a [] \<longleftrightarrow> True"
| "bytes_at m a (x # xs) \<longleftrightarrow> m a = Some x \<and> bytes_at m (a + 1) xs"

text \<open>A string without zeros, and the zero that ends it.\<close>

definition cstr :: "mem \<Rightarrow> int \<Rightarrow> byte list \<Rightarrow> bool" where
  "cstr m a xs \<longleftrightarrow> bytes_at m a (xs @ [0]) \<and> 0 \<notin> set xs"

lemma cstr_Nil [simp]: "cstr m a [] \<longleftrightarrow> m a = Some 0"
  by (simp add: cstr_def)

lemma cstr_Cons [simp]: "cstr m a (x # xs) \<longleftrightarrow> m a = Some x \<and> x \<noteq> 0 \<and> cstr m (a + 1) xs"
  by (auto simp: cstr_def)

lemma bytes_at_append: "bytes_at m a (xs @ ys) \<longleftrightarrow> bytes_at m a xs \<and> bytes_at m (a + int (length xs)) ys"
  by (induction xs arbitrary: a) (auto simp: add.assoc add.commute)

lemma cstr_bytes: "cstr m a xs \<Longrightarrow> bytes_at m a xs"
  by (simp add: cstr_def bytes_at_append)

lemma cstr_drop: "cstr m a xs \<Longrightarrow> i \<le> length xs \<Longrightarrow> cstr m (a + int i) (drop i xs)"
proof (induction i arbitrary: a xs)
  case (Suc i)
  then obtain x ys where "xs = x # ys" by (cases xs) auto
  then show ?case using Suc.IH [of "a + 1" ys] Suc.prems by (simp add: add.assoc)
qed simp

lemma strlen_ok: "cstr m a xs \<Longrightarrow> rt_strlen m a = Some (int (length xs))"
proof -
  have "cstr m a xs \<Longrightarrow> strlen_loop m a = Some (a + int (length xs))"
  proof (induction xs arbitrary: a)
    case Nil
    then show ?case by (subst strlen_loop.simps) simp
  next
    case (Cons x xs)
    then show ?case by (subst strlen_loop.simps) (simp add: add.assoc add.commute)
  qed
  then show "cstr m a xs \<Longrightarrow> rt_strlen m a = Some (int (length xs))" by (simp add: rt_strlen_def)
qed

section \<open>Comparing\<close>

lemma byte_pos: "uint (x :: byte) = 0 \<longleftrightarrow> x = 0" "0 < uint x \<longleftrightarrow> x \<noteq> 0"
  by (simp add: uint_0_iff) (metis uint_0_iff uint_ge_0 order.not_eq_order_implies_strict order.strict_iff_order)

lemma memcmp_ok:
  assumes "bytes_at m a xs" "bytes_at m b ys" "n \<le> length xs" "n \<le> length ys"
  shows "\<exists>r. rt_memcmp m a b n = Some r \<and> (r = 0 \<longleftrightarrow> take n xs = take n ys) \<and> (r < 0 \<longleftrightarrow> take n xs < take n ys)"
  using assms
proof (induction n arbitrary: a b xs ys)
  case (Suc n)
  obtain x xs' y ys' where l: "xs = x # xs'" "ys = y # ys'" using Suc.prems(3,4) by (cases xs; cases ys) auto
  then show ?case using Suc.IH [of "a + 1" xs' "b + 1" ys'] Suc.prems
    by (auto simp: word_less_def word_uint_eq_iff)
qed simp

lemma strcmp_ok:
  assumes "cstr m a xs" "cstr m b ys"
  shows "\<exists>r. rt_strcmp m a b = Some r \<and> (r = 0 \<longleftrightarrow> xs = ys) \<and> (r < 0 \<longleftrightarrow> xs < ys)"
  using assms
proof (induction xs arbitrary: a b ys)
  case Nil
  then show ?case by (cases ys) (auto simp: rt_strcmp.simps byte_pos)
next
  case (Cons x xs)
  show ?case
  proof (cases ys)
    case Nil
    then show ?thesis using Cons.prems by (auto simp: rt_strcmp.simps byte_pos)
  next
    case (Cons y ys')
    show ?thesis
    proof (cases "x = y")
      case True
      then show ?thesis using Cons.IH [of "a + 1" "b + 1" ys'] Cons.prems \<open>ys = y # ys'\<close> by (auto simp: rt_strcmp.simps [of m a b])
    next
      case False
      then show ?thesis using Cons.prems \<open>ys = y # ys'\<close>
        by (auto simp: rt_strcmp.simps [of m a b] word_less_def word_uint_eq_iff)
    qed
  qed
qed

lemma s8_zero:
  assumes "- 256 < d" "d < 256"
  shows "s8 d = 0 \<longleftrightarrow> d = 0"
proof -
  consider "d < - 128" | "- 128 \<le> d" "d < 128" | "128 \<le> d" by linarith
  then show ?thesis
  proof cases
    case 1
    then have "(d + 128) mod 256 = d + 384" using mod_add_self2 [of "d + 128" 256] assms by simp
    then show ?thesis using assms 1 by (simp add: s8_def)
  next
    case 2
    then show ?thesis by (simp add: s8_def)
  next
    case 3
    then have "(d + 128) mod 256 = d - 128" using mod_add_self2 [of "d - 128" 256] assms by (simp add: add.commute)
    then show ?thesis using assms 3 by (simp add: s8_def)
  qed
qed

lemma strncmp_ok:
  assumes "cstr m a xs" "cstr m b ys"
  shows "\<exists>r. rt_strncmp m a b n = Some r \<and> (r = 0 \<longleftrightarrow> take n xs = take n ys)"
  using assms
proof (induction n arbitrary: a b xs ys)
  case (Suc n)
  have d: "s8 (uint x - uint y) = 0 \<longleftrightarrow> x = y" for x y :: byte
  proof -
    have b: "0 \<le> uint x" "uint x < 256" "0 \<le> uint y" "uint y < 256" using uint_bounded [of x] uint_bounded [of y] by simp_all
    have "s8 (uint x - uint y) = 0 \<longleftrightarrow> uint x = uint y" using b by (subst s8_zero) linarith+
    then show ?thesis by (simp only: word_uint_eq_iff)
  qed
  show ?case
  proof (cases xs; cases ys)
    fix x xs' y ys' assume "xs = x # xs'" "ys = y # ys'"
    then show ?thesis using Suc.IH [of "a + 1" xs' "b + 1" ys'] Suc.prems d by auto
  qed (use Suc.prems d [of _ 0] d [of 0] d [of 0 0] in auto)
qed simp

text \<open>The search finds the first place.\<close>

lemma strstr_loop_ok:
  assumes "bytes_at m s2 ys" "ys \<noteq> []" "cstr m s1 xs"
  shows "case strstr_loop m s1 s2 (length ys) (length xs) of
      None \<Rightarrow> False
    | Some None \<Rightarrow> \<forall>i. take (length ys) (drop i xs) \<noteq> ys
    | Some (Some p) \<Rightarrow> \<exists>i. p = s1 + int i \<and> take (length ys) (drop i xs) = ys \<and> (\<forall>j < i. take (length ys) (drop j xs) \<noteq> ys)"
  using assms(3)
proof (induction xs arbitrary: s1)
  case Nil
  then show ?case using assms(2) by (simp add: strstr_loop.simps)
next
  case (Cons x xs)
  let ?l = "length ys"
  show ?case
  proof (cases "?l \<le> length (x # xs)")
    case False
    have "take ?l (drop i (x # xs)) \<noteq> ys" for i
    proof
      assume "take ?l (drop i (x # xs)) = ys"
      then have "?l \<le> length (drop i (x # xs))" by (metis length_take min.cobounded1)
      then show False using False by simp
    qed
    then show ?thesis using False by (simp add: strstr_loop.simps)
  next
    case True
    obtain r where r: "rt_memcmp m s1 s2 ?l = Some r" "r = 0 \<longleftrightarrow> take ?l (x # xs) = ys"
      using memcmp_ok [OF cstr_bytes [OF Cons.prems] assms(1) True] by auto
    show ?thesis
    proof (cases "r = 0")
      case True
      then show ?thesis using r \<open>?l \<le> length (x # xs)\<close> assms(2) by (subst strstr_loop.simps) (auto intro!: exI [of _ 0])
    next
      case False
      have step: "strstr_loop m s1 s2 ?l (length (x # xs)) = strstr_loop m (s1 + 1) s2 ?l (length xs)"
        using r False True assms(2) by (subst strstr_loop.simps) simp
      have no: "take ?l (drop 0 (x # xs)) \<noteq> ys" using r False by simp
      have IH: "case strstr_loop m (s1 + 1) s2 ?l (length xs) of None \<Rightarrow> False
        | Some None \<Rightarrow> \<forall>i. take ?l (drop i xs) \<noteq> ys
        | Some (Some p) \<Rightarrow> \<exists>i. p = s1 + 1 + int i \<and> take ?l (drop i xs) = ys \<and> (\<forall>j < i. take ?l (drop j xs) \<noteq> ys)"
        by (rule Cons.IH) (use Cons.prems in simp)
      have s: "take ?l (drop i (x # xs)) \<noteq> ys \<longleftrightarrow> i = 0 \<or> take ?l (drop (i - 1) xs) \<noteq> ys" for i
        using no by (cases i) auto
      have f: "\<exists>i. p = s1 + int i \<and> take ?l (drop i (x # xs)) = ys \<and> (\<forall>j < i. take ?l (drop j (x # xs)) \<noteq> ys)"
        if "p = s1 + 1 + int i" "take ?l (drop i xs) = ys" "\<forall>j < i. take ?l (drop j xs) \<noteq> ys" for p i
      proof (intro exI [of _ "Suc i"] conjI allI impI)
        fix j assume "j < Suc i"
        then show "take ?l (drop j (x # xs)) \<noteq> ys" using that(3) no by (cases j) auto
      qed (use that in simp_all)
      show ?thesis unfolding step using IH f s by (auto split: option.splits)
    qed
  qed
qed

text \<open>Searching a string: \<^verbatim>\<open>rt_strstr\<close> returns on every pair of strings; it gives the first place at which the second occurs in the
  first, and \<^verbatim>\<open>RT_NULL\<close> only if it does not occur.\<close>

lemma strstr_first:
  assumes "cstr m s1 xs" "cstr m s2 ys" "length xs < 2 ^ 31" "length ys < 2 ^ 31"
  shows "\<exists>r. rt_strstr m s1 s2 = Some r \<and> (case r of
      None \<Rightarrow> \<forall>i. take (length ys) (drop i xs) \<noteq> ys
    | Some p \<Rightarrow> \<exists>i. p = s1 + int i \<and> take (length ys) (drop i xs) = ys \<and> (\<forall>j < i. take (length ys) (drop j xs) \<noteq> ys))"
proof -
  have l: "s32 (int (length xs)) = int (length xs)" "s32 (int (length ys)) = int (length ys)" using assms(3,4) by (simp_all add: c_store)
  show ?thesis
  proof (cases "ys = []")
    case True
    then show ?thesis using strlen_ok [OF assms(2)] l(2) by (intro exI [of _ "Some s1"]) (auto simp: rt_strstr_def intro!: exI [of _ 0])
  next
    case False
    have "rt_strstr m s1 s2 = strstr_loop m s1 s2 (length ys) (length xs)"
      using False strlen_ok [OF assms(1)] strlen_ok [OF assms(2)] l by (simp add: rt_strstr_def)
    then show ?thesis using strstr_loop_ok [OF cstr_bytes [OF assms(2)] False assms(1)] by (auto split: option.splits)
  qed
qed

lemma strstr_first_example:
  "rt_strstr [0 \<mapsto> 65, 1 \<mapsto> 65, 2 \<mapsto> 66, 3 \<mapsto> 0, 10 \<mapsto> 65, 11 \<mapsto> 66, 12 \<mapsto> 0] 0 10 = Some (Some 1)"
proof -
  let ?m = "[0 \<mapsto> 65, 1 \<mapsto> 65, 2 \<mapsto> 66, 3 \<mapsto> 0, 10 \<mapsto> 65, 11 \<mapsto> 66, 12 \<mapsto> 0] :: mem"
  have c: "cstr ?m 0 [65, 65, 66]" "cstr ?m 10 [65, 66]" by simp_all
  have l: "length [65, 65, 66 :: byte] < 2 ^ 31" "length [65, 66 :: byte] < 2 ^ 31" by simp_all
  have two: "length [65, 66 :: byte] = 2" by simp
  obtain r where r: "rt_strstr ?m 0 10 = Some r" "case r of
      None \<Rightarrow> \<forall>i. take 2 (drop i [65, 65, 66]) \<noteq> [65, 66 :: byte]
    | Some p \<Rightarrow> \<exists>i. p = 0 + int i \<and> take 2 (drop i [65, 65, 66]) = [65, 66 :: byte] \<and> (\<forall>j < i. take 2 (drop j [65, 65, 66]) \<noteq> [65, 66 :: byte])"
    using strstr_first [OF c l] unfolding two by blast
  show ?thesis
  proof (cases r)
    case None
    then have "\<forall>i. take 2 (drop i [65, 65, 66]) \<noteq> [65, 66 :: byte]" using r(2) by simp
    from spec [OF this, of 1] show ?thesis by simp
  next
    case (Some p)
    then obtain i where i: "p = int i" "take 2 (drop i [65, 65, 66]) = [65, 66 :: byte]" using r(2) by auto
    have "i = 1" using i(2) by (cases i; cases "i - 1") (auto simp: numeral_2_eq_2 drop_Cons' split: if_splits)
    then show ?thesis using r(1) Some i by simp
  qed
qed

text \<open>Comparing strings: \<^verbatim>\<open>rt_strcmp\<close> decides equality and lexicographic order; \<^verbatim>\<open>rt_strncmp\<close> decides equality of the first \<open>n\<close>
  characters; \<^verbatim>\<open>rt_memcmp\<close> decides both for areas of memory.\<close>

lemma string_compare:
  assumes "cstr m a xs" "cstr m b ys"
  shows "(\<exists>r. rt_strcmp m a b = Some r \<and> (r = 0 \<longleftrightarrow> xs = ys) \<and> (r < 0 \<longleftrightarrow> xs < ys)) \<and>
    (\<exists>r. rt_strncmp m a b n = Some r \<and> (r = 0 \<longleftrightarrow> take n xs = take n ys)) \<and>
    (n \<le> length xs \<and> n \<le> length ys \<longrightarrow>
      (\<exists>r. rt_memcmp m a b n = Some r \<and> (r = 0 \<longleftrightarrow> take n xs = take n ys) \<and> (r < 0 \<longleftrightarrow> take n xs < take n ys)))"
  using strcmp_ok [OF assms] strncmp_ok [OF assms] memcmp_ok [OF cstr_bytes [OF assms(1)] cstr_bytes [OF assms(2)]] by simp

lemma string_compare_example:
  "\<exists>r. rt_strcmp [0 \<mapsto> 65, 1 \<mapsto> 0, 10 \<mapsto> 66, 11 \<mapsto> 0] 0 10 = Some r \<and> r < 0"
proof -
  have c: "cstr [0 \<mapsto> 65, 1 \<mapsto> 0, 10 \<mapsto> 66, 11 \<mapsto> 0] 0 [65]" "cstr [0 \<mapsto> 65, 1 \<mapsto> 0, 10 \<mapsto> 66, 11 \<mapsto> 0] 10 [66]" by simp_all
  have "[65 :: byte] < [66]" by simp
  then show ?thesis using string_compare [OF c, of 1] by blast
qed

text \<open>
  The sign of \<^verbatim>\<open>rt_strncmp\<close> is not the order: the difference is kept in 8 bits, so that characters
  more than 127 apart compare the wrong way round.
\<close>

lemma strncmp_sign:
  "rt_strncmp [0 \<mapsto> 200, 1 \<mapsto> 0, 10 \<mapsto> 1, 11 \<mapsto> 0] 0 10 1 = Some (- 57)"
  "rt_strcmp [0 \<mapsto> 200, 1 \<mapsto> 0, 10 \<mapsto> 1, 11 \<mapsto> 0] 0 10 = Some 199"
  by (simp_all add: s8_def rt_strcmp.simps)

end
