(* ===== verification/Mempool.thy ===== *)
theory Mempool
  imports Ipc
begin

text \<open>
  Memory pools, after \<^verbatim>\<open>rt-thread/src/mempool.c\<close>: blocks of one size in an area of memory, the free ones linked through the
  word in front of them, with threads waiting for a block. While a block is in use that word names its pool.
\<close>

section \<open>The free list\<close>

definition sizeof_ptr :: int where "sizeof_ptr = 4"

text \<open>A store to a word of the area, which is a fault outside of it.\<close>

definition mp_store :: "int \<Rightarrow> int \<Rightarrow> (int \<rightharpoonup> mp_word) \<Rightarrow> int \<Rightarrow> mp_word \<Rightarrow> (int \<rightharpoonup> mp_word) option" where
  "mp_store start sz w a v = (if start \<le> a \<and> a + sizeof_ptr \<le> start + sz then Some (w(a \<mapsto> v)) else None)"

fun mp_link_loop :: "int \<Rightarrow> int \<Rightarrow> int \<Rightarrow> int \<Rightarrow> nat \<Rightarrow> (int \<rightharpoonup> mp_word) \<Rightarrow> (int \<rightharpoonup> mp_word) option" where
  "mp_link_loop start sz step off 0 w = Some w"
| "mp_link_loop start sz step off (Suc n) w = do {
     w1 \<leftarrow> mp_store start sz w (start + off * step) (NextFree (Some (start + (off + 1) * step)));
     mp_link_loop start sz step (off + 1) n w1
   }"

text \<open>
  The loop over the \<open>count\<close> blocks and the statement after it, which ends the list: \<open>offset - 1\<close> is unsigned.
\<close>

definition mp_link_blocks :: "int \<Rightarrow> int \<Rightarrow> int \<Rightarrow> int \<Rightarrow> (int \<rightharpoonup> mp_word) \<Rightarrow> (int \<rightharpoonup> mp_word) option" where
  "mp_link_blocks start sz step count w = do {
     w1 \<leftarrow> mp_link_loop start sz step 0 (nat count) w;
     mp_store start sz w1 (u32 (start + u32 (count - 1) * step)) (NextFree None)
   }"

section \<open>Operations\<close>

definition rt_mp_init :: "kernel \<Rightarrow> nat \<Rightarrow> int \<Rightarrow> int \<Rightarrow> int \<Rightarrow> kernel option" where
  "rt_mp_init k m start sz block_size = do {
     RT_ASSERT (start \<noteq> 0);
     RT_ASSERT (sz > 0 \<and> block_size > 0);
     let mp_sz = RT_ALIGN_DOWN sz RT_ALIGN_SIZE;
     let bs = RT_ALIGN block_size RT_ALIGN_SIZE;
     let count = mp_sz div (bs + sizeof_ptr);
     w \<leftarrow> mp_link_blocks start sz (bs + sizeof_ptr) count (mp_words k);
     Some (k\<lparr>mempools := (mempools k)(m \<mapsto> \<lparr>mp_start = start, mp_size = mp_sz, mp_block_size = bs, mp_block_list = Some start,
         mp_total_count = count, mp_free_count = count, mp_static = True\<rparr>),
       mp_words := w, tlists := (tlists k)(MemPoolQ m := [])\<rparr>)
   }"

definition rt_mp_detach :: "kernel \<Rightarrow> nat \<Rightarrow> kernel option" where
  "rt_mp_detach k m = do {
     mp \<leftarrow> mempools k m;
     RT_ASSERT (mp_static mp);
     k1 \<leftarrow> ipc_list_resume_all (MemPoolQ m) k;
     Some (k1\<lparr>mempools := (mempools k1)(m := None)\<rparr>)
   }"

text \<open>\<open>object_ok\<close>: the control block could be allocated; \<open>start\<close>: the address \<^verbatim>\<open>rt_malloc\<close> returned for the area, or 0.\<close>

definition rt_mp_create :: "bool \<Rightarrow> int \<Rightarrow> kernel \<Rightarrow> nat \<Rightarrow> int \<Rightarrow> int \<Rightarrow> (nat option \<times> kernel) option" where
  "rt_mp_create object_ok start k m block_count block_size = do {
     RT_DEBUG_NOT_IN_INTERRUPT k;
     RT_ASSERT (block_count > 0 \<and> block_size > 0);
     (if \<not> object_ok then Some (None, k)
      else do {
        let bs = RT_ALIGN block_size RT_ALIGN_SIZE;
        let sz = u32 ((bs + sizeof_ptr) * block_count);
        (if start = 0 then Some (None, k)
         else do {
           w \<leftarrow> mp_link_blocks start sz (bs + sizeof_ptr) block_count (mp_words k);
           Some (Some m, k\<lparr>mempools := (mempools k)(m \<mapsto> \<lparr>mp_start = start, mp_size = sz, mp_block_size = bs, mp_block_list = Some start,
               mp_total_count = block_count, mp_free_count = block_count, mp_static = False\<rparr>),
             mp_words := w, tlists := (tlists k)(MemPoolQ m := [])\<rparr>)
         })
      })
   }"

definition rt_mp_delete :: "kernel \<Rightarrow> nat \<Rightarrow> kernel option" where
  "rt_mp_delete k m = do {
     RT_DEBUG_NOT_IN_INTERRUPT k;
     mp \<leftarrow> mempools k m;
     RT_ASSERT (\<not> mp_static mp);
     k1 \<leftarrow> ipc_list_resume_all (MemPoolQ m) k;
     Some (k1\<lparr>mempools := (mempools k1)(m := None)\<rparr>)
   }"

text \<open>Taking the first free block.\<close>

definition mp_take :: "kernel \<Rightarrow> nat \<Rightarrow> (int \<times> kernel) option" where
  "mp_take k m = do {
     mp \<leftarrow> mempools k m;
     b \<leftarrow> mp_block_list mp;
     w \<leftarrow> mp_words k b;
     (case w of InPool _ \<Rightarrow> None
      | NextFree nx \<Rightarrow> Some (b + sizeof_ptr, k\<lparr>
          mempools := (mempools k)(m \<mapsto> mp\<lparr>mp_free_count := u32 (mp_free_count mp - 1), mp_block_list := nx\<rparr>),
          mp_words := (mp_words k)(b \<mapsto> InPool m)\<rparr>))
   }"

text \<open>A thread that waits is put at the head of the list.\<close>

definition mp_wait :: "kernel \<Rightarrow> tid \<Rightarrow> nat \<Rightarrow> int \<Rightarrow> (int option call \<times> kernel) option" where
  "mp_wait k t m time = do {
     (r, k1) \<leftarrow> rt_thread_suspend k t;
     let k2 = tlist_insert_after k1 (MemPoolQ m) t;
     k3 \<leftarrow> (if time > 0 then rt_thread_timer_start k2 t time else Some k2);
     k4 \<leftarrow> rt_schedule k3;
     Some (Blocked, k4)
   }"

text \<open>One round of the loop of \<^verbatim>\<open>rt_mp_alloc\<close>, with what follows it; \<^term>\<open>None\<close> as the result is \<^verbatim>\<open>RT_NULL\<close>.\<close>

definition mp_alloc_try :: "kernel \<Rightarrow> nat \<Rightarrow> int \<Rightarrow> (int option call \<times> kernel) option" where
  "mp_alloc_try k m time = do {
     mp \<leftarrow> mempools k m;
     (if mp_free_count mp = 0 then
        (if time = 0 then Some (Done None, rt_set_errno k (- RT_ETIMEOUT))
         else do {
           RT_DEBUG_NOT_IN_INTERRUPT k;
           t \<leftarrow> rt_thread_self k;
           k1 \<leftarrow> upd_thread k t (error_update (\<lambda>_. RT_EOK));
           mp_wait k1 t m time
         })
      else do { (p, k1) \<leftarrow> mp_take k m; Some (Done (Some p), k1) })
   }"

definition rt_mp_alloc :: "kernel \<Rightarrow> nat \<Rightarrow> int \<Rightarrow> (int option call \<times> kernel) option" where
  "rt_mp_alloc k m time = mp_alloc_try k m time"

text \<open>When the thread goes on after having waited since tick \<open>start\<close>.\<close>

definition mp_alloc_wake :: "kernel \<Rightarrow> nat \<Rightarrow> int \<Rightarrow> int \<Rightarrow> (int option call \<times> kernel) option" where
  "mp_alloc_wake k m time start = do {
     t \<leftarrow> rt_thread_self k;
     th \<leftarrow> threads k t;
     (if error th \<noteq> RT_EOK then Some (Done None, k)
      else mp_alloc_try k m (wait_left k time start))
   }"

text \<open>
  The pool is found through the word in front of the block. Reading a link there as a pool
  (a block that is free already) is a fault.
\<close>

definition rt_mp_free :: "kernel \<Rightarrow> int \<Rightarrow> kernel option" where
  "rt_mp_free k block = (if block = 0 then Some k
     else do {
       let b = block - sizeof_ptr;
       w \<leftarrow> mp_words k b;
       (case w of NextFree _ \<Rightarrow> None
        | InPool m \<Rightarrow> do {
            mp \<leftarrow> mempools k m;
            let k1 = k\<lparr>mempools := (mempools k)(m \<mapsto> mp\<lparr>mp_free_count := u32 (mp_free_count mp + 1), mp_block_list := Some b\<rparr>),
                mp_words := (mp_words k)(b \<mapsto> NextFree (mp_block_list mp))\<rparr>;
            (case tlists k1 (MemPoolQ m) of [] \<Rightarrow> Some k1
             | t # _ \<Rightarrow> do {
                 k2 \<leftarrow> upd_thread k1 t (error_update (\<lambda>_. RT_EOK));
                 (r, k3) \<leftarrow> rt_thread_resume k2 t;
                 rt_schedule k3
               })
          })
     })"

section \<open>The invariant\<close>

text \<open>The free list from \<open>p\<close> runs through just these blocks.\<close>

primrec free_path :: "(int \<rightharpoonup> mp_word) \<Rightarrow> int option \<Rightarrow> int list \<Rightarrow> bool" where
  "free_path w p [] = (p = None)"
| "free_path w p (b # bs) = (p = Some b \<and> (\<exists>nx. w b = Some (NextFree nx) \<and> free_path w nx bs))"

definition mp_blocks :: "rt_mempool \<Rightarrow> int set" where
  "mp_blocks mp = (\<lambda>i. mp_start mp + int i * (mp_block_size mp + sizeof_ptr)) ` {..<nat (mp_total_count mp)}"

text \<open>The blocks of the pool are those on the free list and those in use, which carry the pool's mark.\<close>

definition mp_ok :: "nat \<Rightarrow> int list \<Rightarrow> int list \<Rightarrow> kernel \<Rightarrow> bool" where
  "mp_ok m fs us k \<longleftrightarrow> kinv {} k \<and> (\<exists>mp. mempools k m = Some mp \<and> free_path (mp_words k) (mp_block_list mp) fs \<and>
     distinct (fs @ us) \<and> set (fs @ us) = mp_blocks mp \<and> (\<forall>b \<in> set us. mp_words k b = Some (InPool m)) \<and>
     mp_free_count mp = int (length fs) \<and> mp_total_count mp = int (length fs + length us) \<and> mp_total_count mp < 2 ^ 32)"

lemma mp_okE:
  assumes "mp_ok m fs us k"
  obtains mp where "kinv {} k" "mempools k m = Some mp" "free_path (mp_words k) (mp_block_list mp) fs"
    "distinct (fs @ us)" "set (fs @ us) = mp_blocks mp" "\<forall>b \<in> set us. mp_words k b = Some (InPool m)"
    "mp_free_count mp = int (length fs)" "mp_total_count mp = int (length fs + length us)" "mp_total_count mp < 2 ^ 32"
  using assms unfolding mp_ok_def by blast

lemma free_path_cong: "(\<And>b. b \<in> set fs \<Longrightarrow> w' b = w b) \<Longrightarrow> free_path w' p fs = free_path w p fs"
  by (induction fs arbitrary: p) auto

text \<open>What keeps the kernel invariant, the pool and the words of its blocks keeps the invariant of the pool.\<close>

lemma mp_ok_other:
  assumes "mp_ok m fs us k" "kinv {} k'" "mempools k' m = mempools k m" "\<And>b. b \<in> set (fs @ us) \<Longrightarrow> mp_words k' b = mp_words k b"
  shows "mp_ok m fs us k'"
  using assms free_path_cong [of fs "mp_words k'" "mp_words k"] unfolding mp_ok_def by auto

section \<open>Initialisation\<close>

lemma mp_link_loop_ok:
  assumes "0 \<le> off" "4 \<le> step" "(off + int n) * step \<le> sz"
  shows "\<exists>w'. mp_link_loop start sz step off n w = Some w' \<and>
    (\<forall>i. off \<le> i \<and> i < off + int n \<longrightarrow> w' (start + i * step) = Some (NextFree (Some (start + (i + 1) * step)))) \<and>
    (\<forall>a. (\<forall>i. off \<le> i \<and> i < off + int n \<longrightarrow> a \<noteq> start + i * step) \<longrightarrow> w' a = w a)"
  using assms
proof (induction n arbitrary: off w)
  case 0
  show ?case by (simp add: not_less [symmetric])
next
  case (Suc n)
  let ?w = "w(start + off * step \<mapsto> NextFree (Some (start + (off + 1) * step)))"
  have le: "off * step + step \<le> sz"
  proof -
    have "(off + 1) * step \<le> (off + int (Suc n)) * step" using Suc.prems by (intro mult_right_mono) auto
    then show ?thesis using Suc.prems(3) by (simp add: algebra_simps)
  qed
  have st: "mp_store start sz w (start + off * step) (NextFree (Some (start + (off + 1) * step))) = Some ?w"
    using Suc.prems(1,2) le by (simp add: mp_store_def sizeof_ptr_def)
  have o: "0 \<le> off + 1" "(off + 1 + int n) * step \<le> sz" using Suc.prems(1,3) by (simp_all add: algebra_simps)
  obtain w' where w': "mp_link_loop start sz step (off + 1) n ?w = Some w'"
      "\<forall>i. off + 1 \<le> i \<and> i < off + 1 + int n \<longrightarrow> w' (start + i * step) = Some (NextFree (Some (start + (i + 1) * step)))"
      "\<forall>a. (\<forall>i. off + 1 \<le> i \<and> i < off + 1 + int n \<longrightarrow> a \<noteq> start + i * step) \<longrightarrow> w' a = ?w a"
    using Suc.IH [OF o(1) Suc.prems(2) o(2), of ?w] by blast
  have "w' (start + off * step) = ?w (start + off * step)" using w'(3) Suc.prems(2) by auto
  then have "w' (start + i * step) = Some (NextFree (Some (start + (i + 1) * step)))" if "off \<le> i \<and> i < off + int (Suc n)" for i
    using w'(2) that by (cases "i = off") auto
  moreover have "w' a = w a" if a: "\<forall>i. off \<le> i \<and> i < off + int (Suc n) \<longrightarrow> a \<noteq> start + i * step" for a
  proof -
    have "a \<noteq> start + off * step" using a [rule_format, of off] by simp
    moreover have "w' a = ?w a" by (rule w'(3) [rule_format]) (use a in auto)
    ultimately show ?thesis by simp
  qed
  ultimately show ?case using st w'(1) by auto
qed

lemma free_path_range:
  assumes "\<And>i. j \<le> i \<Longrightarrow> i < n \<Longrightarrow> w (f i) = Some (NextFree (if i + 1 < n then Some (f (i + 1)) else None))"
  shows "free_path w (if j < n then Some (f j) else None) (map f [j..<n])"
  using assms
proof (induction "n - j" arbitrary: j)
  case (Suc d)
  then have j: "j < n" by simp
  have "free_path w (if j + 1 < n then Some (f (j + 1)) else None) (map f [j + 1..<n])"
    using Suc.hyps(1) [of "j + 1"] Suc.hyps(2) Suc.prems by auto
  then show ?case using j Suc.prems [of j] by (simp add: upt_conv_Cons)
qed simp

lemma mp_link_blocks_ok:
  assumes n: "0 < n" and step: "4 \<le> step" and fit: "n * step \<le> sz" and a: "0 < start" "start + sz \<le> 2 ^ 32"
  shows "\<exists>w'. mp_link_blocks start sz step n w = Some w' \<and>
    free_path w' (Some start) (map (\<lambda>i. start + int i * step) [0..<nat n])"
proof -
  obtain w1 where w1: "mp_link_loop start sz step 0 (nat n) w = Some w1"
      "\<forall>i. 0 \<le> i \<and> i < n \<longrightarrow> w1 (start + i * step) = Some (NextFree (Some (start + (i + 1) * step)))"
    using mp_link_loop_ok [of 0 step "nat n" sz start w] n step fit by auto
  have p: "0 \<le> (n - 1) * step" using n step by simp
  have l: "(n - 1) * step + 4 \<le> sz" using step fit by (simp add: algebra_simps)
  have nz: "n < 2 ^ 32"
  proof -
    have "n * 1 \<le> n * step" using n step by (intro mult_left_mono) auto
    then show ?thesis using fit a by simp
  qed
  have e: "u32 (start + u32 (n - 1) * step) = start + (n - 1) * step"
    using n nz a p l by (simp add: c_store)
  let ?w = "w1(start + (n - 1) * step \<mapsto> NextFree None)"
  have run: "mp_link_blocks start sz step n w = Some ?w"
    using w1(1) p l by (simp add: mp_link_blocks_def e mp_store_def sizeof_ptr_def)
  let ?f = "\<lambda>i. start + int i * step"
  have "?w (?f i) = Some (NextFree (if i + 1 < nat n then Some (?f (i + 1)) else None))" if i: "i < nat n" for i
  proof (cases "int i = n - 1")
    case True
    then show ?thesis using i by simp
  next
    case False
    then have "?w (?f i) = w1 (start + int i * step)" using step by auto
    then show ?thesis using w1(2) [rule_format, of "int i"] i False by (simp add: algebra_simps)
  qed
  then have "free_path ?w (Some start) (map ?f [0..<nat n])" using free_path_range [of 0 "nat n" ?w ?f] n by simp
  then show ?thesis using run by blast
qed

text \<open>Every pool that has room for a block is set up with all of its blocks free.\<close>

lemma mp_init_ok:
  assumes k: "kinv {} k" and q: "tlists k (MemPoolQ m) = []" and a: "0 < start" "0 < sz" "start + sz \<le> 2 ^ 32" and b: "0 < bs" "bs < 2 ^ 31"
    and room: "RT_ALIGN bs RT_ALIGN_SIZE + 4 \<le> RT_ALIGN_DOWN sz RT_ALIGN_SIZE"
  shows "\<exists>k' mp fs. rt_mp_init k m start sz bs = Some k' \<and> mp_ok m fs [] k' \<and> mempools k' m = Some mp \<and> mp_start mp = start \<and>
    mp_block_size mp = RT_ALIGN bs RT_ALIGN_SIZE \<and> threads k' = threads k \<and>
    mp_total_count mp = RT_ALIGN_DOWN sz RT_ALIGN_SIZE div (RT_ALIGN bs RT_ALIGN_SIZE + 4) \<and> 0 < mp_total_count mp"
proof -
  let ?bs = "RT_ALIGN bs RT_ALIGN_SIZE"
  let ?sz = "RT_ALIGN_DOWN sz RT_ALIGN_SIZE"
  let ?n = "?sz div (?bs + 4)"
  have bs: "0 < ?bs" using RT_ALIGN_bounds [of bs] b by auto
  have sz: "?sz \<le> sz" by (simp add: RT_ALIGN_DOWN_32)
  have n: "0 < ?n" using room bs by (simp add: pos_imp_zdiv_pos_iff)
  have le: "?n * (?bs + 4) \<le> sz" using sz div_mult_mod_eq [of ?sz "?bs + 4"] pos_mod_sign [of "?bs + 4" ?sz] bs by linarith
  have n32: "?n < 2 ^ 32"
  proof -
    have "?n * 1 \<le> ?n * (?bs + 4)" using n bs by (intro mult_left_mono) auto
    then show ?thesis using le a by simp
  qed
  let ?fs = "map (\<lambda>i. start + int i * (?bs + 4)) [0..<nat ?n]"
  obtain w where w: "mp_link_blocks start sz (?bs + 4) ?n (mp_words k) = Some w" "free_path w (Some start) ?fs"
    using mp_link_blocks_ok [OF n _ le a(1,3)] bs by auto
  let ?mp = "\<lparr>mp_start = start, mp_size = ?sz, mp_block_size = ?bs, mp_block_list = Some start,
    mp_total_count = ?n, mp_free_count = ?n, mp_static = True\<rparr>"
  let ?k = "k\<lparr>mempools := (mempools k)(m \<mapsto> ?mp), mp_words := w, tlists := (tlists k)(MemPoolQ m := [])\<rparr>"
  have tl: "(tlists k)(MemPoolQ m := []) = tlists k" using q by auto
  have "kinv {} ?k" using k by (simp add: tl)
  moreover have "distinct ?fs" using bs by (auto simp: distinct_map inj_on_def)
  moreover have "set ?fs = mp_blocks ?mp" by (auto simp: mp_blocks_def sizeof_ptr_def)
  ultimately have "mp_ok m ?fs [] ?k" using w(2) n n32 by (simp add: mp_ok_def)
  moreover have "rt_mp_init k m start sz bs = Some ?k"
    using a b w(1) by (simp add: rt_mp_init_def sizeof_ptr_def Let_def)
  ultimately show ?thesis using n by (intro exI [of _ ?k] exI [of _ ?mp] exI [of _ ?fs]) simp
qed

section \<open>Taking a block and giving it back\<close>

lemma mp_take_ok:
  assumes ok: "mp_ok m (b # fs) us k"
  shows "\<exists>k'. mp_take k m = Some (b + sizeof_ptr, k') \<and> mp_ok m fs (b # us) k' \<and> tlists k' = tlists k \<and> threads k' = threads k"
proof -
  obtain mp where mp: "kinv {} k" "mempools k m = Some mp" "free_path (mp_words k) (mp_block_list mp) (b # fs)"
      "distinct ((b # fs) @ us)" "set ((b # fs) @ us) = mp_blocks mp" "\<forall>b \<in> set us. mp_words k b = Some (InPool m)"
      "mp_free_count mp = int (length (b # fs))" "mp_total_count mp = int (length (b # fs) + length us)" "mp_total_count mp < 2 ^ 32"
    by (rule mp_okE [OF ok])
  obtain nx where nx: "mp_block_list mp = Some b" "mp_words k b = Some (NextFree nx)" "free_path (mp_words k) nx fs"
    using mp(3) by auto
  let ?mp = "mp\<lparr>mp_free_count := u32 (mp_free_count mp - 1), mp_block_list := nx\<rparr>"
  let ?k = "k\<lparr>mempools := (mempools k)(m \<mapsto> ?mp), mp_words := (mp_words k)(b \<mapsto> InPool m)\<rparr>"
  have "free_path (mp_words ?k) nx fs"
    using mp(4) nx(3) by (subst free_path_cong [of fs _ "mp_words k"]) auto
  moreover have "mp_blocks ?mp = mp_blocks mp" by (simp add: mp_blocks_def)
  moreover have "mp_free_count ?mp = int (length fs)" using mp(7-9) by (simp add: c_store)
  moreover have "kinv {} ?k" using mp(1) by simp
  ultimately have "mp_ok m fs (b # us) ?k" using mp(4-6,8,9) by (auto simp: mp_ok_def)
  then show ?thesis using mp(2) nx(1,2) by (intro exI [of _ ?k]) (simp add: mp_take_def)
qed

text \<open>The first part of \<^verbatim>\<open>rt_mp_free\<close>, up to the waiting threads.\<close>

lemma mp_put_ok:
  assumes ok: "mp_ok m fs us k" and b: "b \<in> set us"
  shows "\<exists>mp k1. mempools k m = Some mp \<and> mp_words k b = Some (InPool m) \<and>
    k1 = k\<lparr>mempools := (mempools k)(m \<mapsto> mp\<lparr>mp_free_count := u32 (mp_free_count mp + 1), mp_block_list := Some b\<rparr>),
      mp_words := (mp_words k)(b \<mapsto> NextFree (mp_block_list mp))\<rparr> \<and> mp_ok m (b # fs) (remove1 b us) k1"
proof -
  obtain mp where mp: "kinv {} k" "mempools k m = Some mp" "free_path (mp_words k) (mp_block_list mp) fs"
      "distinct (fs @ us)" "set (fs @ us) = mp_blocks mp" "\<forall>b \<in> set us. mp_words k b = Some (InPool m)"
      "mp_free_count mp = int (length fs)" "mp_total_count mp = int (length fs + length us)" "mp_total_count mp < 2 ^ 32"
    by (rule mp_okE [OF ok])
  let ?mp = "mp\<lparr>mp_free_count := u32 (mp_free_count mp + 1), mp_block_list := Some b\<rparr>"
  let ?k = "k\<lparr>mempools := (mempools k)(m \<mapsto> ?mp), mp_words := (mp_words k)(b \<mapsto> NextFree (mp_block_list mp))\<rparr>"
  have len: "length us = Suc (length (remove1 b us))" using b by (simp add: length_remove1) (metis Suc_pred length_pos_if_in_set)
  have "free_path (mp_words ?k) (mp_block_list mp) fs"
    using mp(3,4) b by (subst free_path_cong [of fs _ "mp_words k"]) auto
  moreover have "mp_blocks ?mp = mp_blocks mp" by (simp add: mp_blocks_def)
  moreover have "mp_free_count ?mp = int (length (b # fs))" using mp(7-9) len by (simp add: c_store)
  moreover have "distinct ((b # fs) @ remove1 b us)" "set ((b # fs) @ remove1 b us) = set (fs @ us)"
    using mp(4) b by auto
  moreover have "kinv {} ?k" using mp(1) by simp
  ultimately have "mp_ok m (b # fs) (remove1 b us) ?k" using mp(4-6,8,9) len by (auto simp: mp_ok_def)
  then show ?thesis using mp(2,6) b by blast
qed


lemma mp_wait_ok:
  assumes k: "kinv {} k" and b: "can_block k t th" and n: "timeout < half"
  shows "\<exists>k'. mp_wait k t m timeout = Some (Blocked, k') \<and> kinv {} k' \<and> same_objs k k' \<and>
    (\<exists>h. threads k' t = Some h \<and> stat h = RT_THREAD_SUSPEND \<and> error h = error th) \<and>
    tlists k' (MemPoolQ m) = t # tlists k (MemPoolQ m) \<and>
    (0 < timeout \<longrightarrow> (\<exists>tm. timers (ktimers k') (ThreadTimer t) = Some tm \<and> activated tm \<and> timeout_tick tm = u32 (tick (ktimers k) + timeout)))"
proof -
  note B = b [unfolded can_block_def]
  let ?h = "th\<lparr>stat := RT_THREAD_SUSPEND\<rparr>"
  obtain k1 where k1: "rt_thread_suspend k t = Some (RT_EOK, k1)" "kinv {} k1" "same_env k k1" "same_objs k k1"
      "threads k1 = (threads k)(t \<mapsto> ?h)" "tlists k1 = tlists k"
    using suspend_ok [OF k, of t th] B by blast
  have nt: "t \<notin> set (tlists k l)" for l using running_unlisted [OF kinvD(1) [OF k], of t th] B by blast
  let ?k2 = "tlist_insert_after k1 (MemPoolQ m) t"
  have "sched_ok {} ?k2"
    unfolding tlist_insert_after_def
    by (rule sched_ok_enqueue [OF kinvD(1) [OF k1(2)], of t ?h])
      (use k1 nt sched_okD(4) [OF kinvD(1) [OF k], of "MemPoolQ m"] in auto)
  then have i2: "kinv {} ?k2" using kinvD(2-4) [OF k1(2)] by (simp add: kinv_def tlist_insert_after_def)
  have t2: "threads ?k2 t = Some ?h" "stat ?h = RT_THREAD_SUSPEND" by (simp_all add: tlist_insert_after_def k1(5))
  have e2: "same_env k ?k2" "same_objs k ?k2" using k1(3,4) by (simp_all add: same_env_def same_objs_def tlist_insert_after_def)
  have self: "rt_thread_self ?k2 = Some t" "irq_nest (rt_cpu_self ?k2) = 0" using same_env_self [OF e2(1)] B by simp_all
  have el: "\<exists>u uh. eligible ?k2 u uh"
    by (rule eligible_other [of k t th _ ?h]) (use B k1(3,5) in \<open>auto simp: same_env_def tlist_insert_after_def\<close>)
  obtain k3 k' where k': "(if timeout > 0 then rt_thread_timer_start ?k2 t timeout else Some ?k2) = Some k3" "rt_schedule k3 = Some k'"
      "kinv {} k'" "same_objs ?k2 k'" "wait_same ?k2 k'"
      "0 < timeout \<longrightarrow> (\<exists>tm. timers (ktimers k') (ThreadTimer t) = Some tm \<and> activated tm \<and> timeout_tick tm = u32 (tick (ktimers ?k2) + timeout))"
    using wait_switch_ok [OF i2 self t2 el n] by blast
  have rel: "rel_option sched_eq (threads ?k2 v) (threads k' v)" for v using k'(5) by (simp add: wait_same_def)
  have "\<exists>h. threads k' t = Some h \<and> sched_eq ?h h" using rel [of t] t2(1) by (auto simp: option_rel_Some1)
  then have "\<exists>h. threads k' t = Some h \<and> stat h = RT_THREAD_SUSPEND \<and> error h = error th" by (auto simp: sched_eq_def)
  moreover have "tlists k' (MemPoolQ m) = t # tlists k (MemPoolQ m)"
    using k'(5) k1(6) by (simp add: wait_same_def tlist_insert_after_def)
  moreover have "same_objs k k'" "tick (ktimers ?k2) = tick (ktimers k)"
    using same_objs_trans [OF e2(2) k'(4)] e2(1) by (simp_all add: same_env_def)
  moreover have "mp_wait k t m timeout = Some (Blocked, k')" using k1(1) k'(1,2) by (simp add: mp_wait_def Let_def)
  ultimately show ?thesis using k'(3,6) by simp
qed

lemma mp_alloc_wait:
  assumes ok: "mp_ok m [] us k" and b: "can_block k t th" and n: "timeout \<noteq> 0" "timeout < half"
  shows "\<exists>k' h. rt_mp_alloc k m timeout = Some (Blocked, k') \<and> mp_ok m [] us k' \<and> tlists k' (MemPoolQ m) = t # tlists k (MemPoolQ m) \<and>
    threads k' t = Some h \<and> stat h = RT_THREAD_SUSPEND \<and> error h = RT_EOK"
proof -
  note B = b [unfolded can_block_def]
  obtain mp where mp: "kinv {} k" "mempools k m = Some mp" "mp_free_count mp = 0" by (rule mp_okE [OF ok]) simp
  let ?h = "th\<lparr>error := RT_EOK\<rparr>"
  let ?k1 = "k\<lparr>threads := (threads k)(t \<mapsto> ?h)\<rparr>"
  have s: "same_thread th ?h" "critical_lock_nest ?h = critical_lock_nest th" by (simp_all add: same_thread_def)
  have i1: "kinv {} ?k1" using kinv_upd [OF mp(1) _ s(1)] B by blast
  obtain k' h where k': "mp_wait ?k1 t m timeout = Some (Blocked :: int option call, k')" "kinv {} k'" "same_objs ?k1 k'"
      "threads k' t = Some h" "stat h = RT_THREAD_SUSPEND" "error h = error ?h" "tlists k' (MemPoolQ m) = t # tlists k (MemPoolQ m)"
    using mp_wait_ok [OF i1 can_block_upd(2) [OF mp(1) b s] n(2), of m] by auto
  have "rt_mp_alloc k m timeout = Some (Blocked, k')"
    using mp B n k'(1) by (simp add: rt_mp_alloc_def mp_alloc_try_def RT_DEBUG_NOT_IN_INTERRUPT_def upd_thread_def)
  moreover have "mp_ok m [] us k'" by (rule mp_ok_other [OF ok k'(2)]) (use k'(3) in \<open>simp_all add: same_objs_def\<close>)
  ultimately show ?thesis using k' by simp
qed

text \<open>A block given back: on the free list again, and the thread that waits first can go on.\<close>

lemma mp_free_ok:
  assumes ok: "mp_ok m fs us k" and b: "b \<in> set us" "b + sizeof_ptr \<noteq> 0"
    and cur: "rt_thread_self k = Some c" "threads k c = Some ch" "stat ch = RT_THREAD_RUNNING"
  shows "\<exists>k'. rt_mp_free k (b + sizeof_ptr) = Some k' \<and> mp_ok m (b # fs) (remove1 b us) k' \<and>
    tlists k' (MemPoolQ m) = tl (tlists k (MemPoolQ m)) \<and>
    (\<forall>t ts. tlists k (MemPoolQ m) = t # ts \<longrightarrow>
      (\<exists>h. threads k' t = Some h \<and> (stat h = RT_THREAD_READY \<or> stat h = RT_THREAD_RUNNING) \<and> error h = RT_EOK))"
proof -
  obtain mp k1 where k1: "mempools k m = Some mp" "mp_words k b = Some (InPool m)"
      "k1 = k\<lparr>mempools := (mempools k)(m \<mapsto> mp\<lparr>mp_free_count := u32 (mp_free_count mp + 1), mp_block_list := Some b\<rparr>),
        mp_words := (mp_words k)(b \<mapsto> NextFree (mp_block_list mp))\<rparr>" "mp_ok m (b # fs) (remove1 b us) k1"
    using mp_put_ok [OF ok b(1)] by blast
  have t1: "threads k1 = threads k" "tlists k1 = tlists k" "rt_thread_self k1 = rt_thread_self k" and i1: "kinv {} k1"
    using k1(4) by (simp_all add: k1(3) mp_ok_def rt_thread_self_def rt_cpu_self_def)
  have run: "rt_mp_free k (b + sizeof_ptr) = (case tlists k (MemPoolQ m) of [] \<Rightarrow> Some k1
             | t # _ \<Rightarrow> do {
                 k2 \<leftarrow> upd_thread k1 t (error_update (\<lambda>_. RT_EOK));
                 (r, k3) \<leftarrow> rt_thread_resume k2 t;
                 rt_schedule k3
               })"
    using b(2) k1(1,2) unfolding k1(3) by (simp add: rt_mp_free_def Let_def)
  show ?thesis
  proof (cases "tlists k (MemPoolQ m)")
    case Nil
    then show ?thesis using run k1(4) t1 by simp
  next
    case (Cons t ts)
    have tq: "t \<in> set (tlists k1 (MemPoolQ m))" by (simp add: t1 Cons)
    obtain th where th: "threads k1 t = Some th" "stat th = RT_THREAD_SUSPEND"
      by (rule waiting_thread [OF kinvD(1) [OF i1] waitq_simps(8) tq])
    let ?h = "th\<lparr>error := RT_EOK\<rparr>"
    let ?k2 = "k1\<lparr>threads := (threads k1)(t \<mapsto> ?h)\<rparr>"
    have i2: "kinv {} ?k2" by (rule kinv_upd [OF i1 th(1)]) (simp add: same_thread_def)
    obtain k3 where k3: "rt_thread_resume ?k2 t = Some (RT_EOK, k3)" "kinv {} k3" "same_env ?k2 k3" "same_objs ?k2 k3"
        "threads k3 = (threads ?k2)(t \<mapsto> resumed ?h)" "tlists k3 (MemPoolQ m) = remove1 t (tlists ?k2 (MemPoolQ m))"
      using resume_listed [OF i2 waitq_simps(8), of t m ?h] tq by auto
    have ct: "c \<noteq> t" using cur th t1 by auto
    have self3: "rt_thread_self k3 = Some c" "threads k3 c = Some ch"
      using same_env_self [OF k3(3)] cur ct t1 k3(5) by (simp_all add: rt_thread_self_def rt_cpu_self_def)
    obtain k' where k': "rt_schedule k3 = Some k'" "kinv {} k'" "same_objs k3 k'" "wait_same k3 k'"
      using schedule_any [OF k3(2) self3 cur(3)] by blast
    have "rel_option sched_eq (threads k3 t) (threads k' t)" using k'(4) by (simp add: wait_same_def)
    then obtain h where h: "threads k' t = Some h" "sched_eq (resumed ?h) h" using k3(5) by (auto simp: option_rel_Some1)
    have "stat h = RT_THREAD_READY \<or> stat h = RT_THREAD_RUNNING" "error h = RT_EOK"
      using h(2) by (auto simp: sched_eq_def resumed_def split: if_splits)
    moreover have "mp_ok m (b # fs) (remove1 b us) k'"
      by (rule mp_ok_other [OF k1(4) k'(2)]) (use k3(4) k'(3) in \<open>simp_all add: same_objs_def\<close>)
    moreover have "tlists k' (MemPoolQ m) = ts" using k'(4) k3(6) by (simp add: wait_same_def t1 Cons)
    moreover have "rt_mp_free k (b + sizeof_ptr) = Some k'" using run Cons th k3(1) k'(1) by (simp add: upd_thread_def)
    ultimately show ?thesis using Cons h(1) by auto
  qed
qed


section \<open>Histories of a pool\<close>

text \<open>
  A history of one pool: the state and the pointers that are handed out. Besides calls on the pool there is
  whatever else goes on, as long as it keeps the kernel invariant and leaves the pool and the words in front of
  its blocks alone. \<open>wake\<close>: a thread that waited goes on.
\<close>

inductive mp_step :: "nat \<Rightarrow> kernel \<times> int list \<Rightarrow> kernel \<times> int list \<Rightarrow> bool" for m where
  interference: "kinv {} k' \<Longrightarrow> mempools k' m = mempools k m \<Longrightarrow>
    (\<And>mp b. mempools k m = Some mp \<Longrightarrow> b \<in> mp_blocks mp \<Longrightarrow> mp_words k' b = mp_words k b) \<Longrightarrow> mp_step m (k, held) (k', held)"
| alloc: "rt_mp_alloc k m time = Some (Done r, k') \<Longrightarrow> mp_step m (k, held) (k', case r of None \<Rightarrow> held | Some p \<Rightarrow> p # held)"
| wait: "can_block k t th \<Longrightarrow> time < half \<Longrightarrow> rt_mp_alloc k m time = Some (Blocked, k') \<Longrightarrow> mp_step m (k, held) (k', held)"
| wake: "mp_alloc_wake k m time start = Some (Done r, k') \<Longrightarrow> mp_step m (k, held) (k', case r of None \<Rightarrow> held | Some p \<Rightarrow> p # held)"
| wait_again: "can_block k t th \<Longrightarrow> wait_left k time start < half \<Longrightarrow> mp_alloc_wake k m time start = Some (Blocked, k') \<Longrightarrow>
    mp_step m (k, held) (k', held)"
| free: "p \<in> set held \<Longrightarrow> rt_thread_self k = Some c \<Longrightarrow> threads k c = Some ch \<Longrightarrow> stat ch = RT_THREAD_RUNNING \<Longrightarrow>
    rt_mp_free k p = Some k' \<Longrightarrow> mp_step m (k, held) (k', remove1 p held)"

lemma map_remove1_inj: "inj f \<Longrightarrow> map f (remove1 x xs) = remove1 (f x) (map f xs)"
  by (induction xs) (auto simp: inj_eq)

lemma set_errno_kinv: "kinv {} k \<Longrightarrow> kinv {} (rt_set_errno k e) \<and> same_objs k (rt_set_errno k e)"
  using kinv_upd [of "{}" k] by (auto simp: rt_set_errno_def same_thread_def same_objs_def split: option.split)

text \<open>One round of the allocation: a block of the free list, or none and the pool is as before.\<close>

lemma mp_try_ok:
  assumes ok: "mp_ok m fs us k" and r: "mp_alloc_try k m time = Some (r, k')"
    and b: "r = Blocked \<Longrightarrow> time < half \<and> (\<exists>t th. can_block k t th)"
  shows "case r of Done (Some p) \<Rightarrow> \<exists>b fs'. fs = b # fs' \<and> p = b + sizeof_ptr \<and> mp_ok m fs' (b # us) k' | _ \<Rightarrow> mp_ok m fs us k'"
proof (cases fs)
  case (Cons b fs')
  obtain mp where mp: "mempools k m = Some mp" "mp_free_count mp \<noteq> 0" by (rule mp_okE [OF ok]) (simp add: Cons)
  obtain k'' where "mp_take k m = Some (b + sizeof_ptr, k'')" "mp_ok m fs' (b # us) k''"
    using mp_take_ok [OF ok [unfolded Cons]] by blast
  then show ?thesis using r mp by (auto simp: mp_alloc_try_def Cons)
next
  case Nil
  obtain mp where mp: "kinv {} k" "mempools k m = Some mp" "mp_free_count mp = 0" by (rule mp_okE [OF ok]) (simp add: Nil)
  show ?thesis
  proof (cases "time = 0")
    case True
    then have "r = Done None" "k' = rt_set_errno k (- RT_ETIMEOUT)" using r mp by (auto simp: mp_alloc_try_def)
    then show ?thesis using mp_ok_other [OF ok] set_errno_kinv [OF mp(1)] by (simp add: same_objs_def)
  next
    case False
    then have rB: "r = Blocked"
      using r mp by (auto simp: mp_alloc_try_def mp_wait_def Let_def bind_eq_Some_conv)
    then obtain t th where "can_block k t th" "time < half" using b by blast
    then show ?thesis using mp_alloc_wait [OF ok [unfolded Nil] _ False, of t th] r rB by (auto simp: rt_mp_alloc_def Nil)
  qed
qed

definition mp_held :: "nat \<Rightarrow> int set \<Rightarrow> kernel \<Rightarrow> int list \<Rightarrow> bool" where
  "mp_held m B k held \<longleftrightarrow> (\<exists>fs us. mp_ok m fs us k \<and> held = map (\<lambda>b. b + sizeof_ptr) us \<and> set (fs @ us) = B)"

lemma mp_try_held:
  assumes h: "mp_held m B k held" and r: "mp_alloc_try k m time = Some (r, k')"
    and b: "r = Blocked \<Longrightarrow> time < half \<and> (\<exists>t th. can_block k t th)"
  shows "mp_held m B k' (case r of Done (Some p) \<Rightarrow> p # held | _ \<Rightarrow> held)"
proof -
  obtain fs us where fs: "mp_ok m fs us k" "held = map (\<lambda>b. b + sizeof_ptr) us" "set (fs @ us) = B"
    using h unfolding mp_held_def by blast
  show ?thesis
  proof (cases "\<exists>p. r = Done (Some p)")
    case True
    then obtain p where p: "r = Done (Some p)" by blast
    then obtain b fs' where "fs = b # fs'" "p = b + sizeof_ptr" "mp_ok m fs' (b # us) k'"
      using mp_try_ok [OF fs(1) r b] by auto
    then show ?thesis unfolding mp_held_def using fs(2,3) p by (intro exI [of _ fs'] exI [of _ "b # us"]) auto
  next
    case False
    then have e: "(case r of Done (Some p) \<Rightarrow> p # held | _ \<Rightarrow> held) = held" and "mp_ok m fs us k'"
      using mp_try_ok [OF fs(1) r b] by (auto split: call.splits option.splits)
    then show ?thesis unfolding mp_held_def e using fs(2,3) by blast
  qed
qed

lemma mp_step_held:
  assumes "mp_step m (k, held) (k', held')" and h: "mp_held m B k held" and pos: "\<forall>b \<in> B. 0 < b"
  shows "mp_held m B k' held'"
  using assms(1)
proof (cases rule: mp_step.cases)
  case interference
  obtain fs us where fs: "mp_ok m fs us k" "held = map (\<lambda>b. b + sizeof_ptr) us" "set (fs @ us) = B"
    using h unfolding mp_held_def by blast
  obtain mp where "mempools k m = Some mp" "set (fs @ us) = mp_blocks mp" by (rule mp_okE [OF fs(1)])
  then have "mp_ok m fs us k'" using interference by (intro mp_ok_other [OF fs(1)]) auto
  then show ?thesis unfolding mp_held_def using fs interference(1) by blast
next
  case (alloc time r)
  show ?thesis using mp_try_held [OF h, of time "Done r" k'] alloc by (auto simp: rt_mp_alloc_def split: option.splits)
next
  case (wait t th time)
  show ?thesis using mp_try_held [OF h, of time Blocked k'] wait by (auto simp: rt_mp_alloc_def)
next
  case (wake time start r)
  show ?thesis using mp_try_held [OF h, of "wait_left k time start" "Done r" k'] wake h
    by (auto simp: mp_alloc_wake_def bind_eq_Some_conv split: option.splits if_splits)
next
  case (wait_again t th time start)
  show ?thesis using mp_try_held [OF h, of "wait_left k time start" Blocked k'] wait_again
    by (auto simp: mp_alloc_wake_def bind_eq_Some_conv split: if_splits)
next
  case (free p c ch)
  obtain fs us where fs: "mp_ok m fs us k" "held = map (\<lambda>b. b + sizeof_ptr) us" "set (fs @ us) = B"
    using h unfolding mp_held_def by blast
  obtain b where b: "b \<in> set us" "p = b + sizeof_ptr" using free(2) fs(2) by auto
  have "0 < b" using pos b(1) fs(3) by auto
  then have "b + sizeof_ptr \<noteq> 0" by (simp add: sizeof_ptr_def)
  then have "mp_ok m (b # fs) (remove1 b us) k'" using mp_free_ok [OF fs(1) b(1) _ free(3-5)] free(6) b(2) by auto
  moreover have "held' = map (\<lambda>b. b + sizeof_ptr) (remove1 b us)"
    using free(1) fs(2) b(2) map_remove1_inj [of "\<lambda>b. b + sizeof_ptr" b us] by (simp add: inj_def)
  moreover have "set ((b # fs) @ remove1 b us) = B" using fs(1,3) b(1) by (auto simp: mp_ok_def)
  ultimately show ?thesis unfolding mp_held_def by blast
qed

lemma mp_steps_held:
  assumes "(mp_step m)\<^sup>*\<^sup>* (k0, held0) (k, held)" "mp_held m B k0 held0" "\<forall>b \<in> B. 0 < b"
  shows "mp_held m B k held"
  using assms(1)
proof (induction "(k, held)" arbitrary: k held rule: rtranclp_induct)
  case (step y)
  then show ?case using mp_step_held [OF _ _ assms(3)] by (cases y) blast
qed (rule assms(2))


section \<open>Properties\<close>

text \<open>The slots of a pool: block sizes are counted in steps of the aligned size and one pointer.\<close>

definition slots :: "int \<Rightarrow> int \<Rightarrow> nat \<Rightarrow> int set" where
  "slots start st n = (\<lambda>i. start + int i * st) ` {..<n}"

lemma slots_in:
  assumes "b \<in> slots start st (nat (sz div st))" "0 < st"
  shows "(b - start) mod st = 0 \<and> start \<le> b \<and> b + st \<le> start + sz"
proof -
  obtain i where i: "i < nat (sz div st)" "b = start + int i * st" using assms(1) by (auto simp: slots_def)
  have "(int i + 1) * st \<le> sz div st * st" using i(1) assms(2) by (intro mult_right_mono) auto
  also have "\<dots> \<le> sz" using div_mult_mod_eq [of sz st] pos_mod_sign [OF assms(2), of sz] by linarith
  finally show ?thesis using i assms(2) by (simp add: algebra_simps)
qed

lemma slots_apart:
  assumes "b \<in> slots start st n" "c \<in> slots start st n" "b < c" "0 < st"
  shows "b + st \<le> c"
proof -
  obtain i j where ij: "b = start + int i * st" "c = start + int j * st" using assms(1,2) by (auto simp: slots_def)
  then have "int i < int j" using assms(3,4) by (simp add: mult_less_cancel_right)
  then have "(int i + 1) * st \<le> int j * st" using assms(4) by (intro mult_right_mono) auto
  then show ?thesis using ij by (simp add: algebra_simps)
qed

text \<open>What the interleavings of \<^verbatim>\<open>mp_step\<close> from a fresh pool keep: the free blocks and the ones handed out are the slots.\<close>

lemma mp_steps_slots:
  assumes steps: "(mp_step m)\<^sup>*\<^sup>* (k0, []) (k, held)" and init: "rt_mp_init k' m start sz bs = Some k0"
    and k': "kinv {} k'" "tlists k' (MemPoolQ m) = []" and a: "0 < start" "0 < sz" "start + sz \<le> 2 ^ 32" and b: "0 < bs" "bs < 2 ^ 31"
    and room: "RT_ALIGN bs RT_ALIGN_SIZE + 4 \<le> RT_ALIGN_DOWN sz RT_ALIGN_SIZE"
  defines "n \<equiv> RT_ALIGN_DOWN sz RT_ALIGN_SIZE div (RT_ALIGN bs RT_ALIGN_SIZE + 4)"
  shows "\<exists>fs us. mp_ok m fs us k \<and> held = map (\<lambda>b. b + sizeof_ptr) us \<and>
    set (fs @ us) = slots start (RT_ALIGN bs RT_ALIGN_SIZE + 4) (nat n) \<and> distinct (fs @ us) \<and> int (length fs + length us) = n"
proof -
  let ?B = "slots start (RT_ALIGN bs RT_ALIGN_SIZE + 4) (nat n)"
  have st: "0 < RT_ALIGN bs RT_ALIGN_SIZE + 4" using RT_ALIGN_bounds [of bs] b by auto
  obtain mp0 fs0 where i: "mp_ok m fs0 [] k0" "mempools k0 m = Some mp0" "mp_start mp0 = start"
      "mp_block_size mp0 = RT_ALIGN bs RT_ALIGN_SIZE" "mp_total_count mp0 = n" "0 < mp_total_count mp0"
    using mp_init_ok [OF k' a b room] init by (auto simp: n_def)
  have "mp_blocks mp0 = ?B" by (simp add: mp_blocks_def i sizeof_ptr_def slots_def)
  then have fs0: "set fs0 = ?B" "int (length fs0) = n" using i(1,2) by (auto simp: mp_ok_def i(5))
  have pos: "0 < b" if "b \<in> ?B" for b using slots_in [OF that [unfolded n_def] st] a(1) by linarith
  have "mp_held m ?B k0 []" unfolding mp_held_def using i(1) fs0(1) by (intro exI [of _ fs0] exI [of _ "[]"]) simp
  then have "mp_held m ?B k held" using mp_steps_held [OF steps] pos by blast
  then obtain fs us where h: "mp_ok m fs us k" "held = map (\<lambda>b. b + sizeof_ptr) us" "set (fs @ us) = ?B"
    unfolding mp_held_def by blast
  obtain mp where d: "distinct (fs @ us)" by (rule mp_okE [OF h(1)])
  then have "length (fs @ us) = length fs0"
    using distinct_card [OF d] h(3) fs0(1) i(1) by (metis append_Nil2 distinct_card mp_ok_def)
  then show ?thesis using h d fs0(2) by auto
qed

text \<open>C14: Blocks of a memory pool are handed out exclusively. From a pool set up by \<^verbatim>\<open>rt_mp_init\<close>, after any interleaving of allocations,
  waits, wake-ups, releases and other activity, the pointers held are aligned slots of the pool, different, with
  the memory of each inside the pool and apart from the others; the free count is the number of blocks not handed out, and
  giving back any of them succeeds.\<close>

theorem mp_exclusive:
  assumes steps: "(mp_step m)\<^sup>*\<^sup>* (k0, []) (k, held)" and init: "rt_mp_init k' m start sz bs = Some k0"
    and k': "kinv {} k'" "tlists k' (MemPoolQ m) = []" and a: "0 < start" "0 < sz" "start + sz \<le> 2 ^ 32" and b: "0 < bs" "bs < 2 ^ 31"
    and room: "RT_ALIGN bs RT_ALIGN_SIZE + 4 \<le> RT_ALIGN_DOWN sz RT_ALIGN_SIZE"
  shows "distinct held \<and> (\<forall>p \<in> set held. start + 4 \<le> p \<and> p + bs \<le> start + sz \<and> (p - start - 4) mod (RT_ALIGN bs RT_ALIGN_SIZE + 4) = 0) \<and>
    (\<forall>p \<in> set held. \<forall>q \<in> set held. p < q \<longrightarrow> p + bs + 4 \<le> q) \<and>
    (\<exists>mp. mempools k m = Some mp \<and>
      mp_free_count mp + int (length held) = RT_ALIGN_DOWN sz RT_ALIGN_SIZE div (RT_ALIGN bs RT_ALIGN_SIZE + 4)) \<and>
    (\<forall>p \<in> set held. \<forall>c ch. rt_thread_self k = Some c \<and> threads k c = Some ch \<and> stat ch = RT_THREAD_RUNNING \<longrightarrow> rt_mp_free k p \<noteq> None)"
proof -
  let ?st = "RT_ALIGN bs RT_ALIGN_SIZE + 4"
  let ?n = "RT_ALIGN_DOWN sz RT_ALIGN_SIZE div ?st"
  have bs: "bs \<le> RT_ALIGN bs RT_ALIGN_SIZE" using RT_ALIGN_bounds [of bs] b by auto
  have st: "0 < ?st" using bs b by simp
  obtain fs us where h: "mp_ok m fs us k" "held = map (\<lambda>b. b + sizeof_ptr) us" "set (fs @ us) = slots start ?st (nat ?n)"
    "distinct (fs @ us)" "int (length fs + length us) = ?n"
    using mp_steps_slots [OF steps init k' a b room] by blast
  obtain mp where mp: "mempools k m = Some mp" "mp_free_count mp = int (length fs)" by (rule mp_okE [OF h(1)])
  have us: "\<exists>b \<in> set us. b \<in> slots start ?st (nat ?n) \<and> p = b + 4" if "p \<in> set held" for p
    using that h(2,3) by (auto simp: sizeof_ptr_def)
  have le: "RT_ALIGN_DOWN sz RT_ALIGN_SIZE \<le> sz" by (simp add: RT_ALIGN_DOWN_32)
  have "start + 4 \<le> p \<and> p + bs \<le> start + sz \<and> (p - start - 4) mod ?st = 0" if p: "p \<in> set held" for p
  proof -
    obtain b where b: "b \<in> slots start ?st (nat ?n)" "p = b + 4" using us [OF p] by blast
    then show ?thesis using slots_in [OF b(1) st] bs le by auto
  qed
  moreover have "p + bs + 4 \<le> q" if pq: "p \<in> set held" "q \<in> set held" "p < q" for p q
  proof -
    obtain b c where b: "b \<in> slots start ?st (nat ?n)" "p = b + 4" "c \<in> slots start ?st (nat ?n)" "q = c + 4"
      using us [OF pq(1)] us [OF pq(2)] by blast
    then show ?thesis using slots_apart [OF b(1,3) _ st] pq(3) bs by simp
  qed
  moreover have "rt_mp_free k p \<noteq> None"
    if p: "p \<in> set held" and c: "rt_thread_self k = Some c \<and> threads k c = Some ch \<and> stat ch = RT_THREAD_RUNNING" for p c ch
  proof -
    obtain b where b: "b \<in> set us" "b \<in> slots start ?st (nat ?n)" "p = b + 4" using us [OF p] by blast
    have "0 < b" using slots_in [OF b(2) st] a(1) by linarith
    then show ?thesis using mp_free_ok [OF h(1) b(1), of c ch] c b(3) by (auto simp: sizeof_ptr_def)
  qed
  moreover have "distinct held" using h(2,4) by (simp add: distinct_map inj_on_def)
  moreover have "mp_free_count mp + int (length held) = ?n" using mp(2) h(2,5) by simp
  ultimately show ?thesis using mp(1) by blast
qed


lemma ex_mp_sizes: "RT_ALIGN 30 RT_ALIGN_SIZE = 32" "RT_ALIGN_DOWN 130 RT_ALIGN_SIZE = 128"
  by (simp_all add: RT_ALIGN_32 RT_ALIGN_DOWN_32 c_store)

lemma ex_mp_init: "\<exists>k fs. rt_mp_init (ex_kernel 0) 0 1000 130 30 = Some k \<and> mp_ok 0 (1000 # fs) [] k \<and>
  tlists k (MemPoolQ 0) = []"
proof -
  obtain k mp fs where k: "rt_mp_init (ex_kernel 0) 0 1000 130 30 = Some k" "mp_ok 0 fs [] k" "mempools k 0 = Some mp"
      "mp_start mp = 1000" "0 < mp_total_count mp"
    using mp_init_ok [OF ex_kinv, of 0 0 1000 130 30] by (auto simp: ex_tlists ex_lists_def ex_mp_sizes)
  have "mp_block_list mp = Some 1000" "tlists k (MemPoolQ 0) = []"
    using k(1,3) by (auto simp: rt_mp_init_def Let_def bind_eq_Some_conv)
  moreover have "fs \<noteq> []" using k(2,3,5) by (auto simp: mp_ok_def)
  ultimately show ?thesis using k(1-3) by (cases fs) (auto simp: mp_ok_def)
qed

theorem mp_exclusive_witness:
  "\<exists>k0 k. rt_mp_init (ex_kernel 0) 0 1000 130 30 = Some k0 \<and> (mp_step 0)\<^sup>*\<^sup>* (k0, []) (k, [1004]) \<and>
    (\<exists>mp. mempools k 0 = Some mp \<and> mp_free_count mp = 2)"
proof -
  obtain k0 fs where i: "rt_mp_init (ex_kernel 0) 0 1000 130 30 = Some k0" "mp_ok 0 (1000 # fs) [] k0" using ex_mp_init by blast
  obtain k where "mp_take k0 0 = Some (1000 + sizeof_ptr, k)" using mp_take_ok [OF i(2)] by blast
  moreover obtain mp where "mempools k0 0 = Some mp" "mp_free_count mp \<noteq> 0" by (rule mp_okE [OF i(2)]) simp
  ultimately have "rt_mp_alloc k0 0 0 = Some (Done (Some 1004), k)" by (simp add: rt_mp_alloc_def mp_alloc_try_def sizeof_ptr_def)
  from mp_step.alloc [OF this, of "[]"] have st: "(mp_step 0)\<^sup>*\<^sup>* (k0, []) (k, [1004])" by simp
  have "tlists (ex_kernel 0) (MemPoolQ 0) = []" by (simp add: ex_tlists ex_lists_def)
  from mp_exclusive [OF st i(1) ex_kinv this] show ?thesis using i(1) st by (simp add: ex_mp_sizes) force
qed

text \<open>Allocation from a pool, on every branch: the first free block is taken; with none, a call that does not wait returns
  \<^verbatim>\<open>RT_NULL\<close> and leaves the timeout as error number; any other suspends the caller in front of those that wait already. The release of
  a block puts it first on the free list and lets the thread that waits first, the latest one, go on without error.\<close>

lemma mp_alloc_free_spec:
  assumes ok: "mp_ok m fs us k"
  shows "(\<forall>b fs'. fs = b # fs' \<longrightarrow>
      (\<exists>k'. rt_mp_alloc k m timeout = Some (Done (Some (b + 4)), k') \<and> mp_ok m fs' (b # us) k' \<and> threads k' = threads k)) \<and>
    (fs = [] \<longrightarrow> rt_mp_alloc k m 0 = Some (Done None, rt_set_errno k (- RT_ETIMEOUT))) \<and>
    (fs = [] \<and> can_block k t th \<and> timeout \<noteq> 0 \<and> timeout < half \<longrightarrow>
      (\<exists>k' h. rt_mp_alloc k m timeout = Some (Blocked, k') \<and> mp_ok m [] us k' \<and> tlists k' (MemPoolQ m) = t # tlists k (MemPoolQ m) \<and>
        threads k' t = Some h \<and> stat h = RT_THREAD_SUSPEND \<and> error h = RT_EOK)) \<and>
    (\<forall>b \<in> set us. 0 < b \<and> rt_thread_self k = Some c \<and> threads k c = Some ch \<and> stat ch = RT_THREAD_RUNNING \<longrightarrow>
      (\<exists>k'. rt_mp_free k (b + 4) = Some k' \<and> mp_ok m (b # fs) (remove1 b us) k' \<and> tlists k' (MemPoolQ m) = tl (tlists k (MemPoolQ m)) \<and>
        (\<forall>u ts. tlists k (MemPoolQ m) = u # ts \<longrightarrow>
          (\<exists>h. threads k' u = Some h \<and> (stat h = RT_THREAD_READY \<or> stat h = RT_THREAD_RUNNING) \<and> error h = RT_EOK))))"
proof (intro conjI allI ballI impI)
  obtain mp where mp: "mempools k m = Some mp" "mp_free_count mp = int (length fs)" by (rule mp_okE [OF ok])
  show "\<exists>k'. rt_mp_alloc k m timeout = Some (Done (Some (b + 4)), k') \<and> mp_ok m fs' (b # us) k' \<and> threads k' = threads k"
    if "fs = b # fs'" for b fs'
    using mp_take_ok [OF ok [unfolded that]] mp that by (auto simp: rt_mp_alloc_def mp_alloc_try_def sizeof_ptr_def)
  show "rt_mp_alloc k m 0 = Some (Done None, rt_set_errno k (- RT_ETIMEOUT))" if "fs = []"
    using mp that by (simp add: rt_mp_alloc_def mp_alloc_try_def)
  show "\<exists>k' h. rt_mp_alloc k m timeout = Some (Blocked, k') \<and> mp_ok m [] us k' \<and> tlists k' (MemPoolQ m) = t # tlists k (MemPoolQ m) \<and>
        threads k' t = Some h \<and> stat h = RT_THREAD_SUSPEND \<and> error h = RT_EOK"
    if "fs = [] \<and> can_block k t th \<and> timeout \<noteq> 0 \<and> timeout < half"
    using mp_alloc_wait [of m us k t th timeout] ok that by auto
  show "\<exists>k'. rt_mp_free k (b + 4) = Some k' \<and> mp_ok m (b # fs) (remove1 b us) k' \<and> tlists k' (MemPoolQ m) = tl (tlists k (MemPoolQ m)) \<and>
        (\<forall>u ts. tlists k (MemPoolQ m) = u # ts \<longrightarrow>
          (\<exists>h. threads k' u = Some h \<and> (stat h = RT_THREAD_READY \<or> stat h = RT_THREAD_RUNNING) \<and> error h = RT_EOK))"
    if "b \<in> set us" "0 < b \<and> rt_thread_self k = Some c \<and> threads k c = Some ch \<and> stat ch = RT_THREAD_RUNNING" for b
    using mp_free_ok [OF ok that(1), of c ch] that(2) by (simp add: sizeof_ptr_def)
qed

lemma mp_alloc_free_spec_example:
  "\<exists>k k'. rt_mp_init (ex_kernel 0) 0 1000 130 30 = Some k \<and> rt_mp_alloc k 0 0 = Some (Done (Some 1004), k')"
proof -
  obtain k0 fs where "rt_mp_init (ex_kernel 0) 0 1000 130 30 = Some k0" "mp_ok 0 (1000 # fs) [] k0" using ex_mp_init by blast
  then show ?thesis using mp_alloc_free_spec [of 0 "1000 # fs" "[]" k0 0] by auto
qed

text \<open>A pool that is too small for one block is not refused: \<^verbatim>\<open>rt_mp_init\<close> writes the end of the (empty) free list through index -1,
  one slot in front of the area it was given.\<close>

lemma mp_init_small_faults:
  assumes "0 < start" "0 < sz" "start + sz \<le> 2 ^ 32" "sz < 2 ^ 30" "0 < bs" "bs < 2 ^ 30"
    and small: "RT_ALIGN_DOWN sz RT_ALIGN_SIZE < RT_ALIGN bs RT_ALIGN_SIZE + 4"
  shows "mp_link_loop start sz (RT_ALIGN bs RT_ALIGN_SIZE + 4) 0 (nat (RT_ALIGN_DOWN sz RT_ALIGN_SIZE div (RT_ALIGN bs RT_ALIGN_SIZE + 4))) w = Some w \<and>
    \<not> (start \<le> u32 (start - (RT_ALIGN bs RT_ALIGN_SIZE + 4)) \<and> u32 (start - (RT_ALIGN bs RT_ALIGN_SIZE + 4)) + 4 \<le> start + sz) \<and>
    rt_mp_init k m start sz bs = None"
proof -
  let ?st = "RT_ALIGN bs RT_ALIGN_SIZE + 4"
  have st: "4 < ?st" "?st < 2 ^ 31" using RT_ALIGN_bounds [of bs] assms(5,6) by auto
  have z: "RT_ALIGN_DOWN sz RT_ALIGN_SIZE div ?st = 0"
    using small assms(2) by (intro div_pos_pos_trivial) (simp_all add: RT_ALIGN_DOWN_32)
  have out: "\<not> (start \<le> u32 (start - ?st) \<and> u32 (start - ?st) + 4 \<le> start + sz)"
  proof (cases "?st \<le> start")
    case True
    then have "u32 (start - ?st) = start - ?st" using assms(1-3) st by (simp add: c_store)
    then show ?thesis using st by simp
  next
    case False
    have "u32 (start - ?st) = (start - ?st + 2 ^ 32) mod 2 ^ 32" unfolding u32_def by (rule mod_add_self2 [symmetric])
    also have "\<dots> = start - ?st + 2 ^ 32" using False assms(1) st by (intro mod_pos_pos_trivial) auto
    finally show ?thesis using assms(4) st by simp
  qed
  have "u32 (start + u32 (0 - 1) * ?st) = u32 (start - ?st)"
  proof -
    have "start + u32 (0 - 1) * ?st = start - ?st + 2 ^ 32 * ?st" by (simp add: u32_def algebra_simps)
    then show ?thesis unfolding u32_def by (simp only: mod_mult_self2)
  qed
  then have "mp_link_blocks start sz ?st 0 w' = None" for w'
    using out by (simp add: mp_link_blocks_def mp_store_def sizeof_ptr_def)
  then have "rt_mp_init k m start sz bs = None" by (simp add: rt_mp_init_def Let_def sizeof_ptr_def z bind_eq_None_conv)
  then show ?thesis using out by (simp add: z)
qed

lemma mp_init_small_faults_example: "rt_mp_init (ex_kernel 0) 0 1000 31 30 = None"
proof -
  have "RT_ALIGN_DOWN 31 RT_ALIGN_SIZE < RT_ALIGN 30 RT_ALIGN_SIZE + 4" by (simp add: RT_ALIGN_32 RT_ALIGN_DOWN_32 c_store)
  then show ?thesis using mp_init_small_faults [of 1000 31 30] by simp
qed

end
