(* ===== verification/Completion.thy ===== *)
theory Completion
  imports Ipc
begin

text \<open>
  Completions, after \<^verbatim>\<open>rt-thread/components/drivers/ipc/completion.c\<close>: one flag, set by \<^verbatim>\<open>rt_completion_done\<close> and consumed by a wait,
  and at most one thread that waits for it.
\<close>

section \<open>Operations\<close>

definition rt_completion_init :: "kernel \<Rightarrow> nat \<Rightarrow> kernel" where
  "rt_completion_init k c = k\<lparr>completions := (completions k)(c \<mapsto> False), tlists := (tlists k)(CompletionQ c := [])\<rparr>"

definition rt_completion_wait :: "kernel \<Rightarrow> nat \<Rightarrow> int \<Rightarrow> (int call \<times> kernel) option" where
  "rt_completion_wait k c timeout = do {
     RT_DEBUG_SCHEDULER_AVAILABLE k (timeout \<noteq> 0);
     flag \<leftarrow> completions k c;
     (if \<not> flag then do {
        RT_ASSERT (tlists k (CompletionQ c) = []);
        (if timeout = 0 then Some (Done (- RT_ETIMEOUT), k)
         else do {
           t \<leftarrow> rt_thread_self k;
           k1 \<leftarrow> upd_thread k t (error_update (\<lambda>_. RT_EOK));
           ipc_wait k1 t (CompletionQ c) RT_IPC_FLAG_FIFO timeout
         })
      }
      else Some (Done RT_EOK, k\<lparr>completions := (completions k)(c \<mapsto> False)\<rparr>))
   }"

text \<open>When the thread that waited goes on.\<close>

definition rt_completion_wait_wake :: "kernel \<Rightarrow> nat \<Rightarrow> (int \<times> kernel) option" where
  "rt_completion_wait_wake k c = do {
     t \<leftarrow> rt_thread_self k;
     th \<leftarrow> threads k t;
     Some (error th, k\<lparr>completions := (completions k)(c \<mapsto> False)\<rparr>)
   }"

definition rt_completion_done :: "kernel \<Rightarrow> nat \<Rightarrow> kernel option" where
  "rt_completion_done k c = do {
     flag \<leftarrow> completions k c;
     (if flag then Some k else ipc_notify (k\<lparr>completions := (completions k)(c \<mapsto> True)\<rparr>) (CompletionQ c))
   }"

section \<open>The invariant\<close>

text \<open>One thread waits at most, none when the flag is set, and who waits has no error yet.\<close>

definition comp_ok :: "nat \<Rightarrow> kernel \<Rightarrow> bool" where
  "comp_ok c k \<longleftrightarrow> kinv {} k \<and> (\<exists>flag. completions k c = Some flag \<and> length (tlists k (CompletionQ c)) \<le> (if flag then 0 else 1)) \<and>
     (\<forall>t \<in> set (tlists k (CompletionQ c)). \<exists>th. threads k t = Some th \<and> error th = RT_EOK)"

lemma comp_okD: "comp_ok c k \<Longrightarrow> kinv {} k"
  by (simp add: comp_ok_def)

lemma comp_okI:
  assumes "kinv {} k" "completions k c = Some flag" "length (tlists k (CompletionQ c)) \<le> (if flag then 0 else 1)"
    "\<And>t. t \<in> set (tlists k (CompletionQ c)) \<Longrightarrow> \<exists>th. threads k t = Some th \<and> error th = RT_EOK"
  shows "comp_ok c k"
  using assms unfolding comp_ok_def by blast

lemma comp_init_ok:
  assumes "kinv {} k" "tlists k (CompletionQ c) = []"
  shows "comp_ok c (rt_completion_init k c) \<and> completions (rt_completion_init k c) c = Some False"
proof -
  have "(tlists k)(CompletionQ c := []) = tlists k" using assms(2) by auto
  then show ?thesis using assms by (auto simp: rt_completion_init_def intro!: comp_okI [where flag = False])
qed

lemma comp_block_ok:
  assumes ok: "comp_ok c k" and f: "completions k c = Some False" "tlists k (CompletionQ c) = []"
    and b: "can_block k t th" and n: "timeout \<noteq> 0" "timeout < half"
  shows "\<exists>k' h. rt_completion_wait k c timeout = Some (Blocked, k') \<and> comp_ok c k' \<and> completions k' c = Some False \<and>
    tlists k' (CompletionQ c) = [t] \<and> threads k' t = Some h \<and> stat h = RT_THREAD_SUSPEND \<and> error h = RT_EOK"
proof -
  obtain k1 k' h where k': "upd_thread k t (error_update (\<lambda>_. RT_EOK)) = Some k1"
      "ipc_wait k1 t (CompletionQ c) RT_IPC_FLAG_FIFO timeout = Some (Blocked :: int call, k')" "kinv {} k'" "same_objs k k'"
      "threads k' t = Some h" "stat h = RT_THREAD_SUSPEND" "error h = RT_EOK"
      "tlists k' (CompletionQ c) = wait_insert k RT_IPC_FLAG_FIFO t (tlists k (CompletionQ c))"
    using ipc_block_ok [OF comp_okD [OF ok] b waitq_simps(9) n(2)] by blast
  have q: "tlists k' (CompletionQ c) = [t]" using k'(8) f(2) by (simp add: wait_insert_def)
  have "rt_thread_self k = Some t" using b by (simp add: can_block_def)
  then have "rt_completion_wait k c timeout = Some (Blocked, k')"
    using f n(1) k'(1,2) can_block_available [OF b, of True] by (simp add: rt_completion_wait_def)
  moreover have f': "completions k' c = Some False" using k'(4) f(1) by (simp add: same_objs_def)
  moreover have "comp_ok c k'" by (rule comp_okI [OF k'(3) f']) (simp_all add: q k'(5,7))
  ultimately show ?thesis using k'(5-7) q by blast
qed

lemma comp_done_ok:
  assumes ok: "comp_ok c k" and cur: "rt_thread_self k = Some u" "threads k u = Some uh" "stat uh = RT_THREAD_RUNNING"
  shows "\<exists>k'. rt_completion_done k c = Some k' \<and> comp_ok c k' \<and> completions k' c = Some True \<and> tlists k' (CompletionQ c) = [] \<and>
    (\<forall>t. tlists k (CompletionQ c) = [t] \<longrightarrow>
      (\<exists>h. threads k' t = Some h \<and> (stat h = RT_THREAD_READY \<or> stat h = RT_THREAD_RUNNING) \<and> error h = RT_EOK))"
proof -
  obtain flag where f: "completions k c = Some flag" "length (tlists k (CompletionQ c)) \<le> (if flag then 0 else 1)"
    using ok by (auto simp: comp_ok_def)
  show ?thesis
  proof (cases flag)
    case True
    then show ?thesis using f ok by (intro exI [of _ k]) (simp add: rt_completion_done_def)
  next
    case False
    let ?k = "k\<lparr>completions := (completions k)(c \<mapsto> True)\<rparr>"
    have "rt_thread_self ?k = Some u" "threads ?k u = Some uh" using cur by (simp_all add: rt_thread_self_def rt_cpu_self_def)
    then obtain k' where k': "ipc_notify ?k (CompletionQ c) = Some k'" "woken ?k (CompletionQ c) k'"
      using ipc_notify_ok [of ?k "CompletionQ c", OF _ _ _ _ cur(3)] comp_okD [OF ok] by auto
    have q: "tlists k' (CompletionQ c) = []" using k'(2) f(2) False by (simp add: woken_def) (cases "tlists k (CompletionQ c)"; simp)
    have "completions k' c = Some True" "kinv {} k'" using k'(2) by (simp_all add: woken_def same_objs_def)
    moreover have "\<exists>h. threads k' t = Some h \<and> (stat h = RT_THREAD_READY \<or> stat h = RT_THREAD_RUNNING) \<and> error h = RT_EOK"
      if t: "tlists k (CompletionQ c) = [t]" for t
    proof -
      obtain th where "threads k t = Some th" "error th = RT_EOK" using ok t by (auto simp: comp_ok_def)
      then show ?thesis using k'(2) t by (auto simp: woken_def)
    qed
    moreover have "comp_ok c k'" by (rule comp_okI [of k' c True]) (simp_all add: calculation(1,2) q)
    moreover have "rt_completion_done k c = Some k'" using f(1) False k'(1) by (simp add: rt_completion_done_def)
    ultimately show ?thesis using q by blast
  qed
qed

section \<open>Properties\<close>

text \<open>A completion, on every branch. A wait consumes a flag that is set and returns at once; with the flag clear it reports the timeout or suspends the
  caller as the only thread that waits (and stops at an assertion if another one waits already). Setting the flag makes the thread that waits
  ready with no error; the completion stays well formed throughout.\<close>

lemma completion_spec:
  assumes ok: "comp_ok c k" and b: "can_block k t th" and n: "timeout < half"
  shows "(completions k c = Some True \<longrightarrow>
      (\<exists>k'. rt_completion_wait k c timeout = Some (Done RT_EOK, k') \<and> comp_ok c k' \<and> completions k' c = Some False)) \<and>
    (completions k c = Some False \<and> tlists k (CompletionQ c) \<noteq> [] \<longrightarrow> rt_completion_wait k c timeout = None) \<and>
    (completions k c = Some False \<and> tlists k (CompletionQ c) = [] \<longrightarrow>
      (if timeout = 0 then rt_completion_wait k c timeout = Some (Done (- RT_ETIMEOUT), k)
       else (\<exists>k' h. rt_completion_wait k c timeout = Some (Blocked, k') \<and> comp_ok c k' \<and> completions k' c = Some False \<and>
         tlists k' (CompletionQ c) = [t] \<and> threads k' t = Some h \<and> stat h = RT_THREAD_SUSPEND \<and> error h = RT_EOK))) \<and>
    (\<exists>k'. rt_completion_done k c = Some k' \<and> comp_ok c k' \<and> completions k' c = Some True \<and> tlists k' (CompletionQ c) = [] \<and>
      (\<forall>u. tlists k (CompletionQ c) = [u] \<longrightarrow>
        (\<exists>h. threads k' u = Some h \<and> (stat h = RT_THREAD_READY \<or> stat h = RT_THREAD_RUNNING) \<and> error h = RT_EOK)))"
proof (intro conjI impI)
  note av = can_block_available [OF b, of "timeout \<noteq> 0"]
  show "\<exists>k'. rt_completion_wait k c timeout = Some (Done RT_EOK, k') \<and> comp_ok c k' \<and> completions k' c = Some False"
    if f: "completions k c = Some True"
  proof -
    have "tlists k (CompletionQ c) = []" using f ok by (auto simp: comp_ok_def)
    then have "comp_ok c (k\<lparr>completions := (completions k)(c \<mapsto> False)\<rparr>)"
      using comp_okD [OF ok] by (auto intro!: comp_okI [where flag = False])
    then show ?thesis using f av by (simp add: rt_completion_wait_def)
  qed
  show "rt_completion_wait k c timeout = None" if "completions k c = Some False \<and> tlists k (CompletionQ c) \<noteq> []"
    using that av by (simp add: rt_completion_wait_def RT_ASSERT_def)
  show "if timeout = 0 then rt_completion_wait k c timeout = Some (Done (- RT_ETIMEOUT), k)
       else (\<exists>k' h. rt_completion_wait k c timeout = Some (Blocked, k') \<and> comp_ok c k' \<and> completions k' c = Some False \<and>
         tlists k' (CompletionQ c) = [t] \<and> threads k' t = Some h \<and> stat h = RT_THREAD_SUSPEND \<and> error h = RT_EOK)"
    if f: "completions k c = Some False \<and> tlists k (CompletionQ c) = []"
  proof (cases "timeout = 0")
    case True
    then show ?thesis using f by (simp add: rt_completion_wait_def RT_DEBUG_SCHEDULER_AVAILABLE_def)
  next
    case False
    then show ?thesis using comp_block_ok [OF ok _ _ b _ n] f by simp
  qed
  show "\<exists>k'. rt_completion_done k c = Some k' \<and> comp_ok c k' \<and> completions k' c = Some True \<and> tlists k' (CompletionQ c) = [] \<and>
      (\<forall>u. tlists k (CompletionQ c) = [u] \<longrightarrow>
        (\<exists>h. threads k' u = Some h \<and> (stat h = RT_THREAD_READY \<or> stat h = RT_THREAD_RUNNING) \<and> error h = RT_EOK))"
    using comp_done_ok [OF ok, of t th] b by (simp add: can_block_def)
qed

lemma ex_comp_ok:
  assumes "q = ex_kernel 0 \<or> q = ex_waiting 0 (CompletionQ 0) \<and> \<not> flag"
  shows "comp_ok 0 (q\<lparr>completions := [0 \<mapsto> flag]\<rparr>)"
  using assms ex_kinv [of 0] ex_waiting_kinv [of "CompletionQ 0" 0]
  by (auto simp: comp_ok_def ex_tlists ex_lists_def ex_waiting_self ex_threads_def ex_thread_def)

lemma completion_spec_example:
  "\<exists>k' k'' h. rt_completion_wait ((ex_kernel 0)\<lparr>completions := [0 \<mapsto> False]\<rparr>) 0 50 = Some (Blocked, k') \<and> tlists k' (CompletionQ 0) = [1] \<and>
     threads k' 1 = Some h \<and> stat h = RT_THREAD_SUSPEND \<and>
     rt_completion_done ((ex_kernel 0)\<lparr>completions := [0 \<mapsto> False]\<rparr>) 0 = Some k'' \<and> completions k'' 0 = Some True"
proof -
  let ?k = "(ex_kernel 0)\<lparr>completions := [0 \<mapsto> False]\<rparr>"
  have ok: "comp_ok 0 ?k" by (rule ex_comp_ok) simp
  have b: "can_block ?k 1 (ex_thread RT_THREAD_RUNNING 10 2 0)"
    using ex_can_block by (simp add: can_block_def eligible_def rt_thread_self_def rt_cpu_self_def)
  have h: "(50 :: int) < half" by (simp add: half_def)
  show ?thesis using completion_spec [OF ok b h] by (auto simp: ex_tlists ex_lists_def)
qed

text \<open>A completion that comes between the expiry of the waiting thread's timer and the moment the thread goes on is lost: the timer
  has taken the thread off the list, so \<^verbatim>\<open>rt_completion_done\<close> only sets the flag; the wait returns the timeout and clears it.\<close>

lemma completion_lost:
  assumes ok: "comp_ok c k" and q: "tlists k (CompletionQ c) = [t]" and f: "completions k c = Some False"
    and tm: "timers (ktimers k) (ThreadTimer t) = Some tm" "\<not> activated tm"
    and cur: "rt_thread_self k = Some u" "threads k u = Some uh" "stat uh = RT_THREAD_RUNNING" and irq: "irq_nest (rt_cpu_self k) \<noteq> 0"
  shows "\<exists>k1 k2 h. thread_timeout k t = Some k1 \<and> rt_completion_done k1 c = Some k2 \<and> completions k2 c = Some True \<and>
    threads k2 t = Some h \<and>
    (\<forall>k3 h3. rt_thread_self k3 = Some t \<and> threads k3 t = Some h3 \<and> error h3 = error h \<longrightarrow>
      (\<exists>k4. rt_completion_wait_wake k3 c = Some (- RT_ETIMEOUT, k4) \<and> completions k4 c = Some False))"
proof -
  note k = comp_okD [OF ok]
  have tq: "t \<in> set (tlists k (CompletionQ c))" by (simp add: q)
  obtain th where th: "threads k t = Some th" "stat th = RT_THREAD_SUSPEND"
    by (rule waiting_thread [OF kinvD(1) [OF k] waitq_simps(9) tq])
  obtain k1 where k1: "thread_timeout k t = Some k1" "kinv {} k1" "same_objs k k1"
      "threads k1 = (threads k)(t \<mapsto> resumed (th\<lparr>error := - RT_ETIMEOUT\<rparr>))" "tlists k1 = enqueue_ready (\<lambda>l. remove1 t (tlists k l)) t th"
    using thread_timeout_ok [OF k th tm cur(1) irq] by blast
  have q1: "tlists k1 (CompletionQ c) = []" by (simp add: k1(5) enqueue_ready_other q)
  let ?k2 = "k1\<lparr>completions := (completions k1)(c \<mapsto> True)\<rparr>"
  have "rt_completion_done k1 c = Some ?k2"
    using k1(3) f q1 by (simp add: rt_completion_done_def same_objs_def ipc_notify_def)
  moreover have "threads ?k2 t = Some (resumed (th\<lparr>error := - RT_ETIMEOUT\<rparr>))" "error (resumed (th\<lparr>error := - RT_ETIMEOUT\<rparr>)) = - RT_ETIMEOUT"
    by (simp_all add: k1(4) resumed_def)
  ultimately show ?thesis using k1(1) by (auto simp: rt_completion_wait_wake_def)
qed


text \<open>The example: in the tick interrupt, with the timer of the waiting thread just taken off the timer list.\<close>

definition ex_expired :: "nat \<Rightarrow> kernel" where
  "ex_expired c = (ex_waiting 1 (CompletionQ c))\<lparr>ktimers := ex_ktimers\<lparr>timers := (timers ex_ktimers)(ThreadTimer 4 \<mapsto> ex_timer False), timer_list := []\<rparr>,
     completions := [c \<mapsto> False]\<rparr>"

lemma ex_expired_ok: "comp_ok c (ex_expired c)"
proof (rule comp_okI [where flag = False])
  let ?k = "ex_waiting 1 (CompletionQ c)"
  have "timer_link (ex_expired c)"
    by (auto simp: timer_link_def timer_wf_def listed_def timer_ok_def half_def ex_expired_def ex_defs ex_waiting_def split: if_splits)
  then show "kinv {} (ex_expired c)"
    by (intro kinv_cong [OF ex_waiting_kinv [of "CompletionQ c" 1]]) (simp_all add: ex_expired_def)
qed (simp_all add: ex_expired_def ex_waiting_self ex_threads_def ex_thread_def)

lemma completion_lost_example:
  "\<exists>k1 k2. thread_timeout (ex_expired 0) 4 = Some k1 \<and> rt_completion_done k1 0 = Some k2 \<and> completions k2 0 = Some True"
proof -
  have "tlists (ex_expired 0) (CompletionQ 0) = [4]" "completions (ex_expired 0) 0 = Some False"
    "timers (ktimers (ex_expired 0)) (ThreadTimer 4) = Some (ex_timer False)" "\<not> activated (ex_timer False)"
    "rt_thread_self (ex_expired 0) = Some 1" "threads (ex_expired 0) 1 = Some (ex_thread RT_THREAD_RUNNING 10 2 0)"
    "stat (ex_thread RT_THREAD_RUNNING 10 2 0) = RT_THREAD_RUNNING" "irq_nest (rt_cpu_self (ex_expired 0)) \<noteq> 0"
    by (simp_all add: ex_expired_def ex_defs ex_waiting_def rt_thread_self_def rt_cpu_self_def)
  from completion_lost [OF ex_expired_ok this] show ?thesis by blast
qed

end
