(* ===== verification/Dataqueue.thy ===== *)
theory Dataqueue
  imports Ipc Channel Ringbuffer
begin

text \<open>
  Data queues, after \<^verbatim>\<open>rt-thread/components/drivers/ipc/dataqueue.c\<close>: a circular array of items (a pointer and a length) with threads that wait
  to push and threads that wait to pop. The indices have 15 bits, the size 16. The callback \<^verbatim>\<open>evt_notify\<close> is
  code of the client: the event it is called with before a call returns, if any, is part of the result.
\<close>

section \<open>The array\<close>

definition RT_EEMPTY :: int where "RT_EEMPTY = 4"
definition RT_ENOMEM :: int where "RT_ENOMEM = 5"
definition DATAQUEUE_MAGIC :: int where "DATAQUEUE_MAGIC = 0xbead0e0e"
definition RT_DATAQUEUE_EVENT_POP :: int where "RT_DATAQUEUE_EVENT_POP = 1"
definition RT_DATAQUEUE_EVENT_PUSH :: int where "RT_DATAQUEUE_EVENT_PUSH = 2"
definition RT_DATAQUEUE_EVENT_LWM :: int where "RT_DATAQUEUE_EVENT_LWM = 3"

definition dq_put :: "rt_data_queue \<Rightarrow> int \<times> int \<Rightarrow> rt_data_queue option" where
  "dq_put dq x = do {
     items \<leftarrow> store_at (dq_queue dq) (dq_put_index dq) x;
     let i = u15 (dq_put_index dq + 1);
     let p = (if i = dq_size dq then 0 else i);
     Some (dq\<lparr>dq_queue := items, dq_put_index := p, dq_is_empty := False, dq_is_full := (p = dq_get_index dq \<or> dq_is_full dq)\<rparr>)
   }"

definition dq_take :: "rt_data_queue \<Rightarrow> ((int \<times> int) \<times> rt_data_queue) option" where
  "dq_take dq = do {
     x \<leftarrow> load_at (dq_queue dq) (dq_get_index dq);
     let i = u15 (dq_get_index dq + 1);
     let g = (if i = dq_size dq then 0 else i);
     Some (x, dq\<lparr>dq_get_index := g, dq_is_full := False, dq_is_empty := (dq_put_index dq = g \<or> dq_is_empty dq)\<rparr>)
   }"

definition dq_len :: "rt_data_queue \<Rightarrow> int" where
  "dq_len dq = (if dq_is_empty dq then 0
     else u16 (s16 (if dq_put_index dq > dq_get_index dq then dq_put_index dq - dq_get_index dq
                    else dq_size dq + dq_put_index dq - dq_get_index dq)))"

section \<open>Operations\<close>

text \<open>\<open>mem\<close>: the contents of the array that \<^verbatim>\<open>rt_malloc\<close> returned, if it did.\<close>

definition rt_data_queue_init :: "(int \<times> int) list option \<Rightarrow> kernel \<Rightarrow> nat \<Rightarrow> int \<Rightarrow> int \<Rightarrow> bool \<Rightarrow> (int \<times> kernel) option" where
  "rt_data_queue_init mem k q sz lwm notify = do {
     RT_ASSERT (sz > 0);
     let dq = \<lparr>dq_magic = DATAQUEUE_MAGIC, dq_queue = (case mem of None \<Rightarrow> [] | Some items \<Rightarrow> items), dq_size = u16 sz, dq_lwm = u16 lwm,
       dq_get_index = 0, dq_put_index = 0, dq_is_empty = True, dq_is_full = False, dq_notify = notify\<rparr>;
     Some (if mem = None then - RT_ENOMEM else RT_EOK,
       k\<lparr>dataqueues := (dataqueues k)(q \<mapsto> dq), tlists := (tlists k)(DqPushQ q := [], DqPopQ q := [])\<rparr>)
   }"

text \<open>One round of the loop of \<^verbatim>\<open>rt_data_queue_push\<close>, with what follows it: the result, the event notified, the state.\<close>

definition dq_push_try :: "kernel \<Rightarrow> nat \<Rightarrow> int \<times> int \<Rightarrow> int \<Rightarrow> (int call \<times> int option \<times> kernel) option" where
  "dq_push_try k q x timeout = do {
     dq \<leftarrow> dataqueues k q;
     (if dq_is_full dq then
        (if timeout = 0 then Some (Done (- RT_ETIMEOUT), None, k)
         else do {
           t \<leftarrow> rt_thread_self k;
           k1 \<leftarrow> upd_thread k t (error_update (\<lambda>_. RT_EOK));
           (r, k2) \<leftarrow> ipc_wait k1 t (DqPushQ q) RT_IPC_FLAG_FIFO timeout;
           Some (r, None, k2)
         })
      else do {
        dq1 \<leftarrow> dq_put dq x;
        let k1 = k\<lparr>dataqueues := (dataqueues k)(q \<mapsto> dq1)\<rparr>;
        k2 \<leftarrow> ipc_notify k1 (DqPopQ q);
        Some (Done RT_EOK, if tlists k1 (DqPopQ q) = [] \<and> dq_notify dq1 then Some RT_DATAQUEUE_EVENT_PUSH else None, k2)
      })
   }"

definition rt_data_queue_push :: "kernel \<Rightarrow> nat \<Rightarrow> int \<times> int \<Rightarrow> int \<Rightarrow> (int call \<times> int option \<times> kernel) option" where
  "rt_data_queue_push k q x timeout = do {
     dq \<leftarrow> dataqueues k q;
     RT_ASSERT (dq_magic dq = DATAQUEUE_MAGIC);
     RT_DEBUG_SCHEDULER_AVAILABLE k (timeout \<noteq> 0);
     dq_push_try k q x timeout
   }"

text \<open>When the thread goes on: the timeout starts anew.\<close>

definition dq_push_wake :: "kernel \<Rightarrow> nat \<Rightarrow> int \<times> int \<Rightarrow> int \<Rightarrow> (int call \<times> int option \<times> kernel) option" where
  "dq_push_wake k q x timeout = do {
     t \<leftarrow> rt_thread_self k;
     th \<leftarrow> threads k t;
     (if error th \<noteq> RT_EOK then Some (Done (error th), None, k) else dq_push_try k q x timeout)
   }"

text \<open>A pop gives the error code and, with \<^verbatim>\<open>RT_EOK\<close>, the item stored through its pointers.\<close>

definition dq_pop_try :: "kernel \<Rightarrow> nat \<Rightarrow> int \<Rightarrow> ((int \<times> (int \<times> int) option) call \<times> int option \<times> kernel) option" where
  "dq_pop_try k q timeout = do {
     dq \<leftarrow> dataqueues k q;
     (if dq_is_empty dq then
        (if timeout = 0 then Some (Done (- RT_ETIMEOUT, None), None, k)
         else do {
           t \<leftarrow> rt_thread_self k;
           k1 \<leftarrow> upd_thread k t (error_update (\<lambda>_. RT_EOK));
           (r, k2) \<leftarrow> ipc_wait k1 t (DqPopQ q) RT_IPC_FLAG_FIFO timeout;
           Some (r, None, k2)
         })
      else do {
        (x, dq1) \<leftarrow> dq_take dq;
        let k1 = k\<lparr>dataqueues := (dataqueues k)(q \<mapsto> dq1)\<rparr>;
        (if dq_len dq1 \<le> dq_lwm dq1 then do {
           k2 \<leftarrow> ipc_notify k1 (DqPushQ q);
           Some (Done (RT_EOK, Some x), if dq_notify dq1 then Some RT_DATAQUEUE_EVENT_LWM else None, k2)
         }
         else Some (Done (RT_EOK, Some x), if dq_notify dq1 then Some RT_DATAQUEUE_EVENT_POP else None, k1))
      })
   }"

definition rt_data_queue_pop :: "kernel \<Rightarrow> nat \<Rightarrow> int \<Rightarrow> ((int \<times> (int \<times> int) option) call \<times> int option \<times> kernel) option" where
  "rt_data_queue_pop k q timeout = do {
     dq \<leftarrow> dataqueues k q;
     RT_ASSERT (dq_magic dq = DATAQUEUE_MAGIC);
     RT_DEBUG_SCHEDULER_AVAILABLE k (timeout \<noteq> 0);
     dq_pop_try k q timeout
   }"

definition dq_pop_wake :: "kernel \<Rightarrow> nat \<Rightarrow> int \<Rightarrow> ((int \<times> (int \<times> int) option) call \<times> int option \<times> kernel) option" where
  "dq_pop_wake k q timeout = do {
     t \<leftarrow> rt_thread_self k;
     th \<leftarrow> threads k t;
     (if error th \<noteq> RT_EOK then Some (Done (error th, None), None, k) else dq_pop_try k q timeout)
   }"

definition rt_data_queue_peek :: "kernel \<Rightarrow> nat \<Rightarrow> (int \<times> (int \<times> int) option) option" where
  "rt_data_queue_peek k q = do {
     dq \<leftarrow> dataqueues k q;
     RT_ASSERT (dq_magic dq = DATAQUEUE_MAGIC);
     (if dq_is_empty dq then Some (- RT_EEMPTY, None)
      else do { x \<leftarrow> load_at (dq_queue dq) (dq_get_index dq); Some (RT_EOK, Some x) })
   }"

text \<open>
  Threads are resumed inside a critical section, whose end switches to the most urgent one; the last
  \<^verbatim>\<open>rt_schedule\<close> is then only run when the caller goes on.
\<close>

definition rt_data_queue_reset :: "kernel \<Rightarrow> nat \<Rightarrow> kernel option" where
  "rt_data_queue_reset k q = do {
     dq \<leftarrow> dataqueues k q;
     RT_ASSERT (dq_magic dq = DATAQUEUE_MAGIC);
     let k1 = k\<lparr>dataqueues := (dataqueues k)(q \<mapsto> dq\<lparr>dq_get_index := 0, dq_put_index := 0, dq_is_empty := True, dq_is_full := False\<rparr>)\<rparr>;
     k2 \<leftarrow> rt_enter_critical k1;
     k3 \<leftarrow> ipc_list_resume_all (DqPopQ q) k2;
     k4 \<leftarrow> ipc_list_resume_all (DqPushQ q) k3;
     k5 \<leftarrow> rt_exit_critical k4;
     (if rt_thread_self k5 = rt_thread_self k then rt_schedule k5 else Some k5)
   }"

text \<open>What \<^verbatim>\<open>rt_data_queue_deinit\<close> does after the reset, when the caller runs again.\<close>

definition rt_data_queue_deinit_end :: "kernel \<Rightarrow> nat \<Rightarrow> (int \<times> kernel) option" where
  "rt_data_queue_deinit_end k q = do {
     dq \<leftarrow> dataqueues k q;
     Some (RT_EOK, k\<lparr>dataqueues := (dataqueues k)(q \<mapsto> dq\<lparr>dq_magic := 0, dq_queue := []\<rparr>)\<rparr>)
   }"

definition rt_data_queue_deinit :: "kernel \<Rightarrow> nat \<Rightarrow> (int call \<times> kernel) option" where
  "rt_data_queue_deinit k q = do {
     dq \<leftarrow> dataqueues k q;
     RT_ASSERT (dq_magic dq = DATAQUEUE_MAGIC);
     k1 \<leftarrow> rt_data_queue_reset k q;
     (if rt_thread_self k1 = rt_thread_self k then do { (r, k2) \<leftarrow> rt_data_queue_deinit_end k1 q; Some (Done r, k2) }
      else Some (Blocked, k1))
   }"

definition rt_data_queue_len :: "kernel \<Rightarrow> nat \<Rightarrow> int option" where
  "rt_data_queue_len k q = do {
     dq \<leftarrow> dataqueues k q;
     RT_ASSERT (dq_magic dq = DATAQUEUE_MAGIC);
     Some (dq_len dq)
   }"

section \<open>The array as a channel\<close>

definition dq_at :: "rt_data_queue \<Rightarrow> nat \<Rightarrow> nat \<Rightarrow> bool" where
  "dq_at dq a e \<longleftrightarrow> (let n = length (dq_queue dq) in n \<le> 32768 \<and> dq_size dq = int n \<and> a < n \<and> e \<le> n \<and> dq_magic dq = DATAQUEUE_MAGIC \<and>
     dq_get_index dq = int a \<and> dq_put_index dq = int ((a + e) mod n) \<and> dq_is_empty dq = (e = 0) \<and> dq_is_full dq = (e = n))"

definition dq_inv :: "rt_data_queue \<Rightarrow> bool" where
  "dq_inv dq \<longleftrightarrow> (\<exists>a e. dq_at dq a e)"

definition dq_count :: "rt_data_queue \<Rightarrow> nat" where
  "dq_count dq = (let n = length (dq_queue dq) in if dq_is_full dq then n
     else (nat (dq_put_index dq) + n - nat (dq_get_index dq)) mod n)"

definition dq_items :: "rt_data_queue \<Rightarrow> (int \<times> int) list" where
  "dq_items dq = ring_seg (dq_queue dq) (nat (dq_get_index dq)) (dq_count dq)"

definition dq_cap :: "rt_data_queue \<Rightarrow> nat" where
  "dq_cap dq = length (dq_queue dq)"

lemma dq_at_count:
  assumes "dq_at dq a e"
  shows "dq_count dq = e"
proof -
  let ?n = "length (dq_queue dq)"
  have A: "a < ?n" "e \<le> ?n" "dq_get_index dq = int a" "dq_put_index dq = int ((a + e) mod ?n)" "dq_is_full dq = (e = ?n)"
    using assms by (simp_all add: dq_at_def Let_def)
  show ?thesis
  proof (cases "e = ?n")
    case False
    then have e: "e < ?n" using A(2) by simp
    have "((a + e) mod ?n + ?n - a) mod ?n = e"
    proof (cases "a + e < ?n")
      case True
      then show ?thesis using e by simp
    next
      case False
      then show ?thesis using A(1) e by (simp add: le_mod_geq)
    qed
    then show ?thesis using A e by (simp add: dq_count_def Let_def)
  qed (use A in \<open>simp add: dq_count_def\<close>)
qed

lemma dq_at_items: "dq_at dq a e \<Longrightarrow> dq_items dq = ring_seg (dq_queue dq) a e \<and> length (dq_items dq) = e"
  using dq_at_count [of dq a e] by (simp add: dq_items_def dq_at_def Let_def)

lemma dq_at_inv: "dq_at dq a e \<Longrightarrow> dq_inv dq"
  by (auto simp: dq_inv_def)

lemma dq_at_len:
  assumes "dq_at dq a e"
  shows "dq_len dq = int e"
proof -
  let ?n = "length (dq_queue dq)"
  have A: "?n \<le> 32768" "a < ?n" "e \<le> ?n" "dq_size dq = int ?n" "dq_get_index dq = int a" "dq_put_index dq = int ((a + e) mod ?n)"
      "dq_is_empty dq = (e = 0)" using assms by (simp_all add: dq_at_def Let_def)
  have s: "u16 (s16 (int e)) = int e" using A(1,3) by (simp add: u16_def s16_def mod_diff_left_eq)
  show ?thesis
  proof (cases "a + e < ?n")
    case True
    then show ?thesis using A s by (simp add: dq_len_def)
  next
    case False
    then have "(a + e) mod ?n = a + e - ?n" using A(2,3) by (simp add: le_mod_geq)
    then have "int ((a + e) mod ?n) = int a + int e - int ?n" using False by simp
    then show ?thesis using A s False by (simp add: dq_len_def)
  qed
qed

lemma dq_index_succ:
  assumes "x < n" "n \<le> 32768"
  shows "(if u15 (int x + 1) = int n then 0 else u15 (int x + 1)) = int ((x + 1) mod n)"
proof (cases "x + 1 = 32768")
  case True
  then have "n = 32768" "int x = 32767" using assms by auto
  then show ?thesis using True by (simp add: u15_def)
next
  case False
  then have "u15 (int x + 1) = int x + 1" using assms by (simp add: c_store)
  then show ?thesis using assms by (cases "x + 1 = n") auto
qed

lemma dq_at_put:
  assumes at: "dq_at dq a e" and e: "e < length (dq_queue dq)"
  shows "\<exists>dq'. dq_put dq x = Some dq' \<and> dq_at dq' a (e + 1) \<and> dq_cap dq' = dq_cap dq \<and> dq_items dq' = dq_items dq @ [x] \<and>
    dq_notify dq' = dq_notify dq \<and> dq_lwm dq' = dq_lwm dq"
proof -
  let ?b = "dq_queue dq" let ?n = "length ?b" let ?w = "(a + e) mod ?n"
  have A: "?n \<le> 32768" "dq_size dq = int ?n" "a < ?n" "dq_get_index dq = int a" "dq_put_index dq = int ?w" "dq_magic dq = DATAQUEUE_MAGIC"
      "dq_is_full dq = (e = ?n)" using at by (simp_all add: dq_at_def Let_def)
  have w: "?w < ?n" using A(3) by (cases ?n) auto
  let ?b' = "?b[?w := x]"
  have st: "store_at ?b (dq_put_index dq) x = Some ?b'" using w by (simp add: A(5) store_at_def)
  have m: "(?w + 1) mod ?n = (a + (e + 1)) mod ?n" by (simp add: mod_Suc_eq)
  have i: "(if u15 (int ?w + 1) = int ?n then 0 else u15 (int ?w + 1)) = int ((a + (e + 1)) mod ?n)"
    using dq_index_succ [OF w A(1)] unfolding m .
  have full: "int ((a + (e + 1)) mod ?n) = int a \<longleftrightarrow> e + 1 = ?n"
  proof (cases "a + (e + 1) < ?n")
    case False
    then have "(a + (e + 1)) mod ?n = a + (e + 1) - ?n" using A(3) e by (simp add: le_mod_geq)
    then show ?thesis using False by auto
  qed (use e in auto)
  let ?dq = "dq\<lparr>dq_queue := ?b', dq_put_index := int ((a + (e + 1)) mod ?n), dq_is_empty := False, dq_is_full := (e + 1 = ?n)\<rparr>"
  have run: "dq_put dq x = Some ?dq"
    unfolding dq_put_def st using i full A e by (simp add: Let_def)
  have at': "dq_at ?dq a (e + 1)" using A e by (simp add: dq_at_def)
  have "ring_seg ?b' a (e + 1) = ring_seg ?b a e @ [x]"
    using ring_write_append [of a ?b e "[x]" ?w] ring_write_single [OF w] A(3) e by simp
  then show ?thesis using run at' dq_at_items [OF at] dq_at_items [OF at'] by (auto simp: dq_cap_def)
qed

lemma dq_at_take:
  assumes at: "dq_at dq a e" and e: "0 < e"
  shows "\<exists>dq' a'. dq_take dq = Some (hd (dq_items dq), dq') \<and> dq_at dq' a' (e - 1) \<and> dq_cap dq' = dq_cap dq \<and>
    dq_items dq' = tl (dq_items dq) \<and> dq_notify dq' = dq_notify dq \<and> dq_lwm dq' = dq_lwm dq"
proof -
  let ?b = "dq_queue dq" let ?n = "length ?b" let ?a = "(a + 1) mod ?n"
  have A: "?n \<le> 32768" "dq_size dq = int ?n" "a < ?n" "e \<le> ?n" "dq_get_index dq = int a" "dq_put_index dq = int ((a + e) mod ?n)"
      "dq_magic dq = DATAQUEUE_MAGIC" "dq_is_empty dq = (e = 0)" using at by (simp_all add: dq_at_def Let_def)
  have a: "?a < ?n" using A(3) by (cases ?n) auto
  have m: "(?a + (e - 1)) mod ?n = (a + e) mod ?n"
  proof -
    have "(?a + (e - 1)) mod ?n = (a + 1 + (e - 1)) mod ?n" by (rule mod_add_left_eq)
    then show ?thesis using e by simp
  qed
  have empty: "int ((a + e) mod ?n) = int ?a \<longleftrightarrow> e - 1 = 0"
  proof (cases "?a + (e - 1) < ?n")
    case True
    then show ?thesis unfolding m [symmetric] by simp
  next
    case False
    then have "(?a + (e - 1)) mod ?n = ?a + (e - 1) - ?n" using a A(4) e by (simp add: le_mod_geq)
    then show ?thesis unfolding m [symmetric] using False A(4) e a by auto
  qed
  let ?dq = "dq\<lparr>dq_get_index := int ?a, dq_is_full := False, dq_is_empty := (e - 1 = 0)\<rparr>"
  have run: "dq_take dq = Some (?b ! a, ?dq)"
    using dq_index_succ [OF A(3,1)] empty A e by (simp add: dq_take_def load_at_def Let_def)
  have le: "e - 1 \<le> ?n" "e - 1 \<noteq> ?n" using A(4) e by auto
  have at': "dq_at ?dq ?a (e - 1)" using A le m a by (simp add: dq_at_def Let_def)
  have "ring_seg ?b a (1 + (e - 1)) = ring_seg ?b a 1 @ ring_seg ?b (a + 1) (e - 1)" by (rule ring_seg_add)
  moreover have "ring_seg ?b a 1 = [?b ! a]" using A(3) by (simp add: ring_seg_def)
  moreover have "ring_seg ?b (a + 1) (e - 1) = ring_seg ?b ?a (e - 1)" by (simp add: ring_seg_mod)
  ultimately have "ring_seg ?b a e = ?b ! a # ring_seg ?b ?a (e - 1)" using e by simp
  then have "dq_items dq = ?b ! a # ring_seg ?b ?a (e - 1)" "dq_items ?dq = ring_seg ?b ?a (e - 1)"
    using dq_at_items [OF at] dq_at_items [OF at'] by simp_all
  then show ?thesis using run at' by (auto simp: dq_cap_def)
qed

interpretation dqc: item_channel dq_inv dq_items dq_cap "\<lambda>_ _. True" dq_is_full dq_is_empty dq_put dq_take
proof
  fix q assume "dq_inv q"
  then obtain a e where at: "dq_at q a e" by (auto simp: dq_inv_def)
  note len = dq_at_items [OF at]
  show "length (dq_items q) \<le> dq_cap q" using at len by (simp add: dq_at_def dq_cap_def Let_def)
  show "dq_is_full q \<longleftrightarrow> length (dq_items q) = dq_cap q" using at len by (simp add: dq_at_def dq_cap_def Let_def)
  show "dq_is_empty q \<longleftrightarrow> dq_items q = []" using at len by (auto simp: dq_at_def Let_def)
  show "\<exists>q'. dq_put q m = Some q' \<and> dq_inv q' \<and> dq_cap q' = dq_cap q \<and> (\<lambda>_. True) = (\<lambda>_ :: int \<times> int. True) \<and> dq_items q' = dq_items q @ [m]"
    if "\<not> dq_is_full q" for m
  proof -
    have "e < length (dq_queue q)" using that at by (auto simp: dq_at_def Let_def)
    from dq_at_put [OF at this, of m] show ?thesis by (auto intro: dq_at_inv)
  qed
  show "\<exists>q'. dq_take q = Some (m, q') \<and> dq_inv q' \<and> dq_cap q' = dq_cap q \<and> (\<lambda>_. True) = (\<lambda>_ :: int \<times> int. True) \<and> dq_items q' = ms"
    if "dq_items q = m # ms" for m ms
  proof -
    have "0 < e" using that len by auto
    from dq_at_take [OF at this] that show ?thesis by (auto intro: dq_at_inv)
  qed
qed

lemma dq_take_fields: "dq_take dq = Some (x, dq') \<Longrightarrow> dq_lwm dq' = dq_lwm dq \<and> dq_notify dq' = dq_notify dq \<and> dq_magic dq' = dq_magic dq"
  by (auto simp: dq_take_def Let_def bind_eq_Some_conv)

lemma dq_put_fields: "dq_put dq x = Some dq' \<Longrightarrow> dq_lwm dq' = dq_lwm dq \<and> dq_notify dq' = dq_notify dq \<and> dq_magic dq' = dq_magic dq"
  by (auto simp: dq_put_def Let_def bind_eq_Some_conv)

lemma dq_inv_len: "dq_inv dq \<Longrightarrow> dq_len dq = int (length (dq_items dq))"
  using dq_at_len dq_at_items by (fastforce simp: dq_inv_def)

lemma dq_inv_magic: "dq_inv dq \<Longrightarrow> dq_magic dq = DATAQUEUE_MAGIC"
  by (auto simp: dq_inv_def dq_at_def Let_def)


section \<open>Data queues in the kernel\<close>

definition dq_ok :: "nat \<Rightarrow> kernel \<Rightarrow> bool" where
  "dq_ok q k \<longleftrightarrow> kinv {} k \<and> (\<exists>dq. dataqueues k q = Some dq \<and> dq_inv dq)"

lemma dq_init_ok:
  assumes k: "kinv {} k" and l: "tlists k (DqPushQ q) = []" "tlists k (DqPopQ q) = []" and m: "items \<noteq> []" "length items \<le> 32768"
  shows "\<exists>k' dq. rt_data_queue_init (Some items) k q (int (length items)) lwm notify = Some (RT_EOK, k') \<and> dq_ok q k' \<and>
    dataqueues k' q = Some dq \<and> dq_items dq = [] \<and> dq_cap dq = length items"
proof -
  let ?dq = "\<lparr>dq_magic = DATAQUEUE_MAGIC, dq_queue = items, dq_size = u16 (int (length items)), dq_lwm = u16 lwm,
       dq_get_index = 0, dq_put_index = 0, dq_is_empty = True, dq_is_full = False, dq_notify = notify\<rparr>"
  have at: "dq_at ?dq 0 0" using m by (simp add: dq_at_def c_store)
  have tl: "(tlists k)(DqPushQ q := [], DqPopQ q := []) = tlists k" using l by auto
  show ?thesis using m k at dq_at_inv [OF at] dq_at_items [OF at] by (simp add: rt_data_queue_init_def Let_def tl dq_ok_def dq_cap_def)
qed

lemma dq_notify_ok:
  assumes k: "kinv {} k" and cur: "rt_thread_self k = Some c" "threads k c = Some ch" "stat ch = RT_THREAD_RUNNING"
    and inv: "dq_inv dq" and l: "waitq l"
  shows "\<exists>k'. ipc_notify (k\<lparr>dataqueues := (dataqueues k)(q \<mapsto> dq)\<rparr>) l = Some k' \<and> dq_ok q k' \<and> dataqueues k' q = Some dq \<and>
    tlists k' l = tl (tlists k l) \<and>
    (\<forall>t ts. tlists k l = t # ts \<longrightarrow> (\<exists>h. threads k' t = Some h \<and> (stat h = RT_THREAD_READY \<or> stat h = RT_THREAD_RUNNING)))"
proof -
  let ?k = "k\<lparr>dataqueues := (dataqueues k)(q \<mapsto> dq)\<rparr>"
  have c: "rt_thread_self ?k = Some c" "threads ?k c = Some ch" using cur by (simp_all add: rt_thread_self_def rt_cpu_self_def)
  obtain k' where k': "ipc_notify ?k l = Some k'" "woken ?k l k'"
    using ipc_notify_ok [of ?k, OF _ l c cur(3)] k by auto
  have d: "kinv {} k'" "dataqueues k' q = Some dq" "tlists k' l = tl (tlists k l)" using k'(2) by (simp_all add: woken_def same_objs_def)
  have "\<exists>h. threads k' t = Some h \<and> (stat h = RT_THREAD_READY \<or> stat h = RT_THREAD_RUNNING)" if t: "tlists k l = t # ts" for t ts
  proof -
    obtain th where "threads k t = Some th"
      by (rule waiting_thread [OF kinvD(1) [OF k] l, of t]) (simp_all add: t)
    then show ?thesis using k'(2) t unfolding woken_def by fastforce
  qed
  then show ?thesis using k'(1) d inv by (auto simp: dq_ok_def)
qed

lemma dq_block_ok:
  assumes ok: "dq_ok q k" and b: "can_block k t th" and l: "waitq l" and n: "timeout < half"
  shows "\<exists>k1 k' h. upd_thread k t (error_update (\<lambda>_. RT_EOK)) = Some k1 \<and> ipc_wait k1 t l RT_IPC_FLAG_FIFO timeout = Some (Blocked, k') \<and>
    dq_ok q k' \<and> dataqueues k' q = dataqueues k q \<and> tlists k' l = tlists k l @ [t] \<and>
    threads k' t = Some h \<and> stat h = RT_THREAD_SUSPEND"
proof -
  have k: "kinv {} k" using ok by (simp add: dq_ok_def)
  obtain k1 k' h where k': "upd_thread k t (error_update (\<lambda>_. RT_EOK)) = Some k1"
      "ipc_wait k1 t l RT_IPC_FLAG_FIFO timeout = Some (Blocked :: 'a call, k')" "kinv {} k'" "same_objs k k'"
      "threads k' t = Some h" "stat h = RT_THREAD_SUSPEND" "tlists k' l = wait_insert k RT_IPC_FLAG_FIFO t (tlists k l)"
    using ipc_block_ok [OF k b l n] by blast
  then show ?thesis using ok by (auto simp: dq_ok_def same_objs_def wait_insert_def)
qed

text \<open>A caller: with a timeout of 0 any thread or interrupt handler, otherwise a thread that may block.\<close>

definition dq_caller :: "kernel \<Rightarrow> tid \<Rightarrow> int \<Rightarrow> bool" where
  "dq_caller k c timeout \<longleftrightarrow> (\<exists>ch. rt_thread_self k = Some c \<and> threads k c = Some ch \<and> stat ch = RT_THREAD_RUNNING \<and>
     timeout < half \<and> (timeout \<noteq> 0 \<longrightarrow> can_block k c ch))"

lemma dq_caller_available: "dq_caller k c timeout \<Longrightarrow> RT_DEBUG_SCHEDULER_AVAILABLE k (timeout \<noteq> 0) = Some ()"
  by (cases "timeout = 0") (auto simp: dq_caller_def can_block_available, simp add: RT_DEBUG_SCHEDULER_AVAILABLE_def)

text \<open>One round of a push, and of a pop.\<close>

lemma dq_push_try_ok:
  assumes ok: "dq_ok q k" and dq: "dataqueues k q = Some dq" and c: "dq_caller k c timeout"
  shows "if length (dq_items dq) < dq_cap dq then
      (\<exists>ev k' dq'. dq_push_try k q x timeout = Some (Done RT_EOK, ev, k') \<and> dq_ok q k' \<and> dataqueues k' q = Some dq' \<and>
         dq_items dq' = dq_items dq @ [x] \<and> dq_cap dq' = dq_cap dq \<and> tlists k' (DqPopQ q) = tl (tlists k (DqPopQ q)) \<and>
         ev = (if tlists k (DqPopQ q) = [] \<and> dq_notify dq then Some RT_DATAQUEUE_EVENT_PUSH else None) \<and>
         (\<forall>t ts. tlists k (DqPopQ q) = t # ts \<longrightarrow>
            (\<exists>h. threads k' t = Some h \<and> (stat h = RT_THREAD_READY \<or> stat h = RT_THREAD_RUNNING))))
    else if timeout = 0 then dq_push_try k q x timeout = Some (Done (- RT_ETIMEOUT), None, k)
    else (\<exists>k' h. dq_push_try k q x timeout = Some (Blocked, None, k') \<and> dq_ok q k' \<and> dataqueues k' q = Some dq \<and>
      tlists k' (DqPushQ q) = tlists k (DqPushQ q) @ [c] \<and> threads k' c = Some h \<and> stat h = RT_THREAD_SUSPEND)"
proof -
  obtain ch where B: "rt_thread_self k = Some c" "threads k c = Some ch" "stat ch = RT_THREAD_RUNNING" "timeout < half"
      "timeout \<noteq> 0 \<longrightarrow> can_block k c ch" using c by (auto simp: dq_caller_def)
  have k: "kinv {} k" "dq_inv dq" using ok dq by (auto simp: dq_ok_def)
  have full: "dq_is_full dq \<longleftrightarrow> \<not> length (dq_items dq) < dq_cap dq"
    using dqc.full_iff [OF k(2)] dqc.bounded [OF k(2)] by auto
  show ?thesis
  proof (cases "dq_is_full dq")
    case False
    obtain dq' where dq': "dq_put dq x = Some dq'" "dq_inv dq'" "dq_cap dq' = dq_cap dq" "dq_items dq' = dq_items dq @ [x]"
      using dqc.send_law [OF k(2) False, of x] by blast
    obtain k' where k': "ipc_notify (k\<lparr>dataqueues := (dataqueues k)(q \<mapsto> dq')\<rparr>) (DqPopQ q) = Some k'" "dq_ok q k'" "dataqueues k' q = Some dq'"
        "tlists k' (DqPopQ q) = tl (tlists k (DqPopQ q))"
        "\<forall>t ts. tlists k (DqPopQ q) = t # ts \<longrightarrow> (\<exists>h. threads k' t = Some h \<and> (stat h = RT_THREAD_READY \<or> stat h = RT_THREAD_RUNNING))"
      using dq_notify_ok [OF k(1), of c ch dq' "DqPopQ q" q] B dq'(2) by auto
    show ?thesis using False full dq dq' k' dq_put_fields [OF dq'(1)] by (simp add: dq_push_try_def Let_def)
  next
    case True
    show ?thesis
    proof (cases "timeout = 0")
      case wait: False
      obtain k1 k' h where k': "upd_thread k c (error_update (\<lambda>_. RT_EOK)) = Some k1"
          "ipc_wait k1 c (DqPushQ q) RT_IPC_FLAG_FIFO timeout = Some (Blocked :: int call, k')" "dq_ok q k'" "dataqueues k' q = dataqueues k q"
          "tlists k' (DqPushQ q) = tlists k (DqPushQ q) @ [c]" "threads k' c = Some h" "stat h = RT_THREAD_SUSPEND"
        using dq_block_ok [OF ok _ waitq_simps(10) B(4)] B(5) wait by blast
      then show ?thesis using True wait full dq B(1) by (simp add: dq_push_try_def)
    qed (use True full dq in \<open>simp add: dq_push_try_def\<close>)
  qed
qed

lemma dq_pop_try_ok:
  assumes ok: "dq_ok q k" and dq: "dataqueues k q = Some dq" and c: "dq_caller k c timeout"
  shows "case dq_items dq of
      x # xs \<Rightarrow> (\<exists>k' dq'. dq_pop_try k q timeout = Some (Done (RT_EOK, Some x),
          (if dq_notify dq then Some (if int (length xs) \<le> dq_lwm dq then RT_DATAQUEUE_EVENT_LWM else RT_DATAQUEUE_EVENT_POP) else None), k') \<and>
        dq_ok q k' \<and> dataqueues k' q = Some dq' \<and> dq_items dq' = xs \<and> dq_cap dq' = dq_cap dq \<and>
        tlists k' (DqPushQ q) = (if int (length xs) \<le> dq_lwm dq then tl (tlists k (DqPushQ q)) else tlists k (DqPushQ q)) \<and>
        (\<forall>t ts. tlists k (DqPushQ q) = t # ts \<and> int (length xs) \<le> dq_lwm dq \<longrightarrow>
            (\<exists>h. threads k' t = Some h \<and> (stat h = RT_THREAD_READY \<or> stat h = RT_THREAD_RUNNING))))
    | [] \<Rightarrow> (if timeout = 0 then dq_pop_try k q timeout = Some (Done (- RT_ETIMEOUT, None), None, k)
      else (\<exists>k' h. dq_pop_try k q timeout = Some (Blocked, None, k') \<and> dq_ok q k' \<and> dataqueues k' q = Some dq \<and>
        tlists k' (DqPopQ q) = tlists k (DqPopQ q) @ [c] \<and> threads k' c = Some h \<and> stat h = RT_THREAD_SUSPEND))"
proof (cases "dq_items dq")
  case Nil
  obtain ch where B: "rt_thread_self k = Some c" "timeout < half" "timeout \<noteq> 0 \<longrightarrow> can_block k c ch"
    using c by (auto simp: dq_caller_def)
  have k: "kinv {} k" "dq_inv dq" using ok dq by (auto simp: dq_ok_def)
  have e: "dq_is_empty dq" using Nil dqc.empty_iff [OF k(2)] by simp
  show ?thesis
  proof (cases "timeout = 0")
    case wait: False
    obtain k1 k' h where k': "upd_thread k c (error_update (\<lambda>_. RT_EOK)) = Some k1"
        "ipc_wait k1 c (DqPopQ q) RT_IPC_FLAG_FIFO timeout = Some (Blocked :: (int \<times> (int \<times> int) option) call, k')" "dq_ok q k'"
        "dataqueues k' q = dataqueues k q" "tlists k' (DqPopQ q) = tlists k (DqPopQ q) @ [c]" "threads k' c = Some h" "stat h = RT_THREAD_SUSPEND"
      using dq_block_ok [OF ok _ waitq_simps(11) B(2)] B(3) wait by blast
    then show ?thesis using Nil e wait dq B(1) by (simp add: dq_pop_try_def)
  qed (use Nil e dq in \<open>simp add: dq_pop_try_def\<close>)
next
  case (Cons x xs)
  obtain ch where B: "rt_thread_self k = Some c" "threads k c = Some ch" "stat ch = RT_THREAD_RUNNING"
    using c by (auto simp: dq_caller_def)
  have k: "kinv {} k" "dq_inv dq" using ok dq by (auto simp: dq_ok_def)
  have e: "\<not> dq_is_empty dq" using Cons dqc.empty_iff [OF k(2)] by simp
  obtain dq' where dq': "dq_take dq = Some (x, dq')" "dq_inv dq'" "dq_cap dq' = dq_cap dq" "dq_items dq' = xs"
    using dqc.recv_law [OF k(2) Cons] by blast
  note f = dq_take_fields [OF dq'(1)] dq_inv_len [OF dq'(2), unfolded dq'(4)]
  show ?thesis
  proof (cases "int (length xs) \<le> dq_lwm dq")
    case True
    obtain k' where k': "ipc_notify (k\<lparr>dataqueues := (dataqueues k)(q \<mapsto> dq')\<rparr>) (DqPushQ q) = Some k'" "dq_ok q k'" "dataqueues k' q = Some dq'"
        "tlists k' (DqPushQ q) = tl (tlists k (DqPushQ q))"
        "\<forall>t ts. tlists k (DqPushQ q) = t # ts \<longrightarrow> (\<exists>h. threads k' t = Some h \<and> (stat h = RT_THREAD_READY \<or> stat h = RT_THREAD_RUNNING))"
      using dq_notify_ok [OF k(1), of c ch dq' "DqPushQ q" q] B dq'(2) by auto
    then show ?thesis using Cons True e dq dq' f by (simp add: dq_pop_try_def Let_def)
  next
    case False
    then show ?thesis using Cons e dq dq' f k(1) by (simp add: dq_pop_try_def Let_def dq_ok_def)
  qed
qed


section \<open>Histories of a data queue\<close>

text \<open>
  The state, the items pushed and the items popped so far. Besides calls on the queue there is whatever else goes on,
  as long as it keeps the kernel invariant and leaves the queue alone.
\<close>

type_synonym dq_history = "kernel \<times> (int \<times> int) list \<times> (int \<times> int) list"

inductive dq_step :: "nat \<Rightarrow> dq_history \<Rightarrow> dq_history \<Rightarrow> bool" for q where
  interference: "kinv {} k' \<Longrightarrow> dataqueues k' q = dataqueues k q \<Longrightarrow> dq_step q (k, ins, outs) (k', ins, outs)"
| push: "dq_caller k c timeout \<Longrightarrow> rt_data_queue_push k q x timeout = Some (r, ev, k') \<Longrightarrow>
    dq_step q (k, ins, outs) (k', if r = Done RT_EOK then ins @ [x] else ins, outs)"
| push_wake: "dq_caller k c timeout \<Longrightarrow> dq_push_wake k q x timeout = Some (r, ev, k') \<Longrightarrow>
    dq_step q (k, ins, outs) (k', if r = Done RT_EOK then ins @ [x] else ins, outs)"
| pop: "dq_caller k c timeout \<Longrightarrow> rt_data_queue_pop k q timeout = Some (r, ev, k') \<Longrightarrow>
    dq_step q (k, ins, outs) (k', ins, case r of Done (_, Some x) \<Rightarrow> outs @ [x] | _ \<Rightarrow> outs)"
| pop_wake: "dq_caller k c timeout \<Longrightarrow> dq_pop_wake k q timeout = Some (r, ev, k') \<Longrightarrow>
    dq_step q (k, ins, outs) (k', ins, case r of Done (_, Some x) \<Rightarrow> outs @ [x] | _ \<Rightarrow> outs)"

definition dq_hist :: "nat \<Rightarrow> nat \<Rightarrow> dq_history \<Rightarrow> bool" where
  "dq_hist q n h \<longleftrightarrow> (case h of (k, ins, outs) \<Rightarrow> dq_ok q k \<and>
     (\<exists>dq. dataqueues k q = Some dq \<and> ins = outs @ dq_items dq \<and> dq_cap dq = n))"

lemma dq_push_hist:
  assumes h: "dq_hist q n (k, ins, outs)" and c: "dq_caller k c timeout" and r: "dq_push_try k q x timeout = Some (r, ev, k')"
  shows "dq_hist q n (k', if r = Done RT_EOK then ins @ [x] else ins, outs)"
proof -
  obtain dq where dq: "dq_ok q k" "dataqueues k q = Some dq" "ins = outs @ dq_items dq" "dq_cap dq = n" using h by (auto simp: dq_hist_def)
  show ?thesis using dq_push_try_ok [OF dq(1,2) c, of x] r dq
    by (auto simp: dq_hist_def rt_errs split: if_splits)
qed

lemma dq_pop_hist:
  assumes h: "dq_hist q n (k, ins, outs)" and c: "dq_caller k c timeout" and r: "dq_pop_try k q timeout = Some (r, ev, k')"
  shows "dq_hist q n (k', ins, case r of Done (_, Some x) \<Rightarrow> outs @ [x] | _ \<Rightarrow> outs)"
proof -
  obtain dq where dq: "dq_ok q k" "dataqueues k q = Some dq" "ins = outs @ dq_items dq" "dq_cap dq = n" using h by (auto simp: dq_hist_def)
  show ?thesis
  proof (cases "dq_items dq")
    case Nil
    then show ?thesis using dq_pop_try_ok [OF dq(1,2) c] r dq by (auto simp: dq_hist_def split: if_splits)
  next
    case (Cons x xs)
    then show ?thesis using dq_pop_try_ok [OF dq(1,2) c] r dq by (auto simp: dq_hist_def)
  qed
qed

lemma dq_step_hist:
  assumes "dq_step q s s'" and h: "dq_hist q n s"
  shows "dq_hist q n s'"
  using assms(1)
proof (cases rule: dq_step.cases)
  case (interference k' k ins outs)
  then show ?thesis using h by (auto simp: dq_hist_def dq_ok_def)
next
  case (push k c timeout x r ev k' ins outs)
  then show ?thesis using dq_push_hist [of q n k ins outs c timeout x r ev k'] h
    by (auto simp: rt_data_queue_push_def bind_eq_Some_conv)
next
  case (push_wake k c timeout x r ev k' ins outs)
  then show ?thesis using dq_push_hist [of q n k ins outs c timeout x r ev k'] h
    by (auto simp: dq_push_wake_def bind_eq_Some_conv split: if_splits)
next
  case (pop k c timeout r ev k' ins outs)
  then show ?thesis using dq_pop_hist [of q n k ins outs c timeout r ev k'] h
    by (auto simp: rt_data_queue_pop_def bind_eq_Some_conv)
next
  case (pop_wake k c timeout r ev k' ins outs)
  then show ?thesis using dq_pop_hist [of q n k ins outs c timeout r ev k'] h
    by (auto simp: dq_pop_wake_def bind_eq_Some_conv split: if_splits)
qed

section \<open>Properties\<close>

text \<open>C15: A data queue of at most 32768 items (its indices have 15 bits; the code accepts more, and
  then goes wrong) delivers items in order, each once: after any interleaving of pushes, pops, waits, wake-ups
  and other activity from its initialisation on, the items pushed are those popped followed by those in the queue, which
  are never more than its size; the next peek shows the oldest of them and the length reported is their number.\<close>

theorem dq_fifo:
  assumes steps: "(dq_step q)\<^sup>*\<^sup>* (k0, [], []) (k, ins, outs)"
    and init: "rt_data_queue_init (Some items) k' q (int (length items)) lwm notify = Some (RT_EOK, k0)"
    and k': "kinv {} k'" "tlists k' (DqPushQ q) = []" "tlists k' (DqPopQ q) = []" and n: "items \<noteq> []" "length items \<le> 32768"
  shows "kinv {} k \<and> (\<exists>rest. ins = outs @ rest \<and> length rest \<le> length items \<and> rt_data_queue_len k q = Some (int (length rest)) \<and>
    rt_data_queue_peek k q = Some (case rest of [] \<Rightarrow> (- RT_EEMPTY, None) | x # _ \<Rightarrow> (RT_EOK, Some x)))"
proof -
  obtain dq0 where "dq_ok q k0" "dataqueues k0 q = Some dq0" "dq_items dq0 = []" "dq_cap dq0 = length items"
    using dq_init_ok [OF k' n, of lwm notify] init by auto
  then have h0: "dq_hist q (length items) (k0, [], [])" by (simp add: dq_hist_def)
  have "dq_hist q (length items) s" if "(dq_step q)\<^sup>*\<^sup>* (k0, [], []) s" for s
    using that
  proof (induction rule: rtranclp_induct)
    case (step y z)
    then show ?case by (blast intro: dq_step_hist)
  qed (rule h0)
  from this [OF steps] obtain dq where dq: "dq_ok q k" "dataqueues k q = Some dq" "ins = outs @ dq_items dq" "dq_cap dq = length items"
    by (auto simp: dq_hist_def)
  have inv: "kinv {} k" "dq_inv dq" using dq(1,2) by (auto simp: dq_ok_def)
  have pk: "rt_data_queue_peek k q = Some (case dq_items dq of [] \<Rightarrow> (- RT_EEMPTY, None) | x # _ \<Rightarrow> (RT_EOK, Some x))"
  proof (cases "dq_items dq")
    case Nil
    then show ?thesis using dq(2) dqc.empty_iff [OF inv(2)] dq_inv_magic [OF inv(2)] by (simp add: rt_data_queue_peek_def)
  next
    case (Cons x xs)
    have "load_at (dq_queue dq) (dq_get_index dq) = Some x"
      using dqc.recv_law [OF inv(2) Cons] by (auto simp: dq_take_def Let_def bind_eq_Some_conv)
    then show ?thesis using Cons dq(2) dqc.empty_iff [OF inv(2)] dq_inv_magic [OF inv(2)] by (simp add: rt_data_queue_peek_def)
  qed
  have "rt_data_queue_len k q = Some (int (length (dq_items dq)))"
    using dq(2) dq_inv_magic [OF inv(2)] dq_inv_len [OF inv(2)] by (simp add: rt_data_queue_len_def)
  then show ?thesis using inv(1) dq(3,4) dqc.bounded [OF inv(2)] pk by auto
qed

lemma ex_dq_init: "\<exists>k dq. rt_data_queue_init (Some [(0, 0), (0, 0)]) (ex_kernel 0) 0 2 1 True = Some (RT_EOK, k) \<and> dq_ok 0 k \<and>
  dataqueues k 0 = Some dq \<and> dq_items dq = [] \<and> dq_cap dq = 2 \<and> dq_caller k 1 5 \<and> dq_magic dq = DATAQUEUE_MAGIC"
proof -
  obtain k dq where k: "rt_data_queue_init (Some [(0, 0), (0, 0)]) (ex_kernel 0) 0 2 1 True = Some (RT_EOK, k)" "dq_ok 0 k"
      "dataqueues k 0 = Some dq" "dq_items dq = []" "dq_cap dq = 2"
    using dq_init_ok [OF ex_kinv, of 0 0 "[(0, 0), (0, 0)]" 1 True] by (auto simp: ex_tlists ex_lists_def)
  have e: "cpu_id k = cpu_id (ex_kernel 0)" "cpus k = cpus (ex_kernel 0)" "threads k = threads (ex_kernel 0)"
    using k(1) by (auto simp: rt_data_queue_init_def Let_def)
  have "can_block k 1 (ex_thread RT_THREAD_RUNNING 10 2 0)"
    using ex_can_block by (simp add: can_block_def eligible_def rt_thread_self_def rt_cpu_self_def e)
  then have "dq_caller k 1 5" by (auto simp: dq_caller_def can_block_def half_def)
  moreover have "dq_inv dq" using k(2,3) by (simp add: dq_ok_def)
  ultimately show ?thesis using k dq_inv_magic by blast
qed

theorem dq_fifo_witness:
  "\<exists>k0 k. rt_data_queue_init (Some [(0, 0), (0, 0)]) (ex_kernel 0) 0 2 1 True = Some (RT_EOK, k0) \<and>
     (dq_step 0)\<^sup>*\<^sup>* (k0, [], []) (k, [(7, 4)], []) \<and> rt_data_queue_len k 0 = Some 1 \<and> rt_data_queue_peek k 0 = Some (RT_EOK, Some (7, 4))"
proof -
  obtain k0 dq where i: "rt_data_queue_init (Some [(0, 0), (0, 0)]) (ex_kernel 0) 0 2 1 True = Some (RT_EOK, k0)" "dq_ok 0 k0"
      "dataqueues k0 0 = Some dq" "dq_items dq = []" "dq_cap dq = 2" "dq_caller k0 1 5" "dq_magic dq = DATAQUEUE_MAGIC"
    using ex_dq_init by blast
  obtain ev k where p: "dq_push_try k0 0 (7, 4) 5 = Some (Done RT_EOK, ev, k)"
    using dq_push_try_ok [OF i(2,3,6), of "(7, 4)"] i(4,5) by auto
  have "rt_data_queue_push k0 0 (7, 4) 5 = Some (Done RT_EOK, ev, k)"
    using p i(3,7) dq_caller_available [OF i(6)] by (simp add: rt_data_queue_push_def)
  from dq_step.push [OF i(6) this, of "[]" "[]"] have st: "(dq_step 0)\<^sup>*\<^sup>* (k0, [], []) (k, [(7, 4)], [])" by simp
  have l: "tlists (ex_kernel 0) (DqPushQ 0) = []" "tlists (ex_kernel 0) (DqPopQ 0) = []" by (simp_all add: ex_tlists ex_lists_def)
  have i': "rt_data_queue_init (Some [(0, 0), (0, 0)]) (ex_kernel 0) 0 (int (length [(0 :: int, 0 :: int), (0, 0)])) 1 True = Some (RT_EOK, k0)"
    using i(1) by simp
  show ?thesis using dq_fifo [OF st i' ex_kinv l] i(1) st by auto
qed

text \<open>Popping, on every branch: the oldest item is delivered; the thread that waits first to push is made ready when no more than
  the low water mark is left, and only then, and the callback is told which of the two it was; an empty queue reports the timeout
  at once to a caller that does not wait and suspends any other behind those that wait to pop.\<close>

lemma dq_pop_spec:
  assumes ok: "dq_ok q k" and dq: "dataqueues k q = Some dq" and c: "dq_caller k c timeout"
  shows "case dq_items dq of
      x # xs \<Rightarrow> (\<exists>k' dq'. rt_data_queue_pop k q timeout = Some (Done (RT_EOK, Some x),
          (if dq_notify dq then Some (if int (length xs) \<le> dq_lwm dq then RT_DATAQUEUE_EVENT_LWM else RT_DATAQUEUE_EVENT_POP) else None), k') \<and>
        dq_ok q k' \<and> dataqueues k' q = Some dq' \<and> dq_items dq' = xs \<and>
        tlists k' (DqPushQ q) = (if int (length xs) \<le> dq_lwm dq then tl (tlists k (DqPushQ q)) else tlists k (DqPushQ q)) \<and>
        (\<forall>t ts. tlists k (DqPushQ q) = t # ts \<and> int (length xs) \<le> dq_lwm dq \<longrightarrow>
            (\<exists>h. threads k' t = Some h \<and> (stat h = RT_THREAD_READY \<or> stat h = RT_THREAD_RUNNING))))
    | [] \<Rightarrow> (if timeout = 0 then rt_data_queue_pop k q timeout = Some (Done (- RT_ETIMEOUT, None), None, k)
      else (\<exists>k' h. rt_data_queue_pop k q timeout = Some (Blocked, None, k') \<and> dq_ok q k' \<and> dataqueues k' q = Some dq \<and>
        tlists k' (DqPopQ q) = tlists k (DqPopQ q) @ [c] \<and> threads k' c = Some h \<and> stat h = RT_THREAD_SUSPEND))"
proof -
  have "dq_inv dq" using ok dq by (auto simp: dq_ok_def)
  then have e: "rt_data_queue_pop k q timeout = dq_pop_try k q timeout"
    using dq dq_caller_available [OF c] dq_inv_magic by (simp add: rt_data_queue_pop_def)
  show ?thesis unfolding e using dq_pop_try_ok [OF ok dq c] by (cases "dq_items dq") auto
qed

lemma dq_pop_spec_example:
  "\<exists>k k' h. rt_data_queue_init (Some [(0, 0), (0, 0)]) (ex_kernel 0) 0 2 1 True = Some (RT_EOK, k) \<and>
     rt_data_queue_pop k 0 5 = Some (Blocked, None, k') \<and> threads k' 1 = Some h \<and> stat h = RT_THREAD_SUSPEND"
proof -
  obtain k dq where i: "rt_data_queue_init (Some [(0, 0), (0, 0)]) (ex_kernel 0) 0 2 1 True = Some (RT_EOK, k)" "dq_ok 0 k"
      "dataqueues k 0 = Some dq" "dq_items dq = []" "dq_caller k 1 5"
    using ex_dq_init by blast
  show ?thesis using dq_pop_spec [OF i(2,3,5)] i(1,4) by auto
qed

end
