(* ===== verification/Thread_Exit.thy ===== *)
theory Thread_Exit
  imports Semaphore Mutex
begin

text \<open>
  The end of threads, after \<^verbatim>\<open>rt-thread/src/thread.c\<close> and \<^verbatim>\<open>rt-thread/src/idle.c\<close>: a thread that returns from its entry function, or
  is detached or deleted by another one, is closed and put on the list of defunct threads; the system thread,
  told by a semaphore, takes them off it and frees them.
\<close>

section \<open>Operations\<close>

text \<open>The static semaphore of \<^verbatim>\<open>idle.c\<close>; its identity among the semaphores is immaterial.\<close>

definition system_sem :: nat where "system_sem = 0"

definition rt_thread_timer_detach :: "kernel \<Rightarrow> tid \<Rightarrow> kernel option" where
  "rt_thread_timer_detach k t = do { s \<leftarrow> rt_timer_detach (ktimers k) (ThreadTimer t); Some (k\<lparr>ktimers := s\<rparr>) }"

definition rt_thread_defunct_enqueue :: "kernel \<Rightarrow> tid \<Rightarrow> kernel option" where
  "rt_thread_defunct_enqueue k t = do {
     (r, k1) \<leftarrow> rt_sem_release (tlist_insert_after k DefunctQ t) system_sem;
     Some k1
   }"

definition rt_thread_defunct_dequeue :: "kernel \<Rightarrow> tid option \<times> kernel" where
  "rt_thread_defunct_dequeue k = (case tlists k DefunctQ of [] \<Rightarrow> (None, k) | t # _ \<Rightarrow> (Some t, tlist_remove k t))"

text \<open>
  The loop of \<^verbatim>\<open>rt_defunct_execute\<close>. A static thread is detached by \<^verbatim>\<open>rt_object_detach\<close>: its memory stays, its type, and with it the
  static flag, is cleared. A dynamic one is deleted together with its stack: its memory is gone. The cleanup callback is
  client code.
\<close>

definition reclaimed :: "rt_thread \<Rightarrow> rt_thread option" where
  "reclaimed th = (if thread_static th then Some (th\<lparr>thread_static := False\<rparr>) else None)"

function rt_defunct_execute :: "kernel \<Rightarrow> kernel" where
  "rt_defunct_execute k = (case rt_thread_defunct_dequeue k of
     (None, k1) \<Rightarrow> k1
   | (Some t, k1) \<Rightarrow> rt_defunct_execute (k1\<lparr>threads := (threads k1)(t := Option.bind (threads k1 t) reclaimed)\<rparr>))"
  by pat_completeness auto
termination
  by (relation "measure (\<lambda>k. length (tlists k DefunctQ))")
    (auto simp: rt_thread_defunct_dequeue_def tlist_remove_def split: list.splits)

declare rt_defunct_execute.simps [simp del]

text \<open>
  \<^verbatim>\<open>_thread_exit\<close>: the section up to \<^verbatim>\<open>rt_hw_interrupt_enable\<close> and the switch after it. If \<^verbatim>\<open>rt_sem_release\<close> has resumed the system
  thread it has switched away already, from inside the section, and the rest is never reached.
\<close>

definition thread_exit_section :: "kernel \<Rightarrow> tid \<Rightarrow> kernel option" where
  "thread_exit_section k t = do {
     k1 \<leftarrow> rt_schedule_remove_thread k t;
     k2 \<leftarrow> rt_thread_timer_detach k1 t;
     k3 \<leftarrow> upd_thread k2 t (stat_update (\<lambda>_. RT_THREAD_CLOSE));
     rt_thread_defunct_enqueue k3 t
   }"

definition thread_exit :: "kernel \<Rightarrow> kernel option" where
  "thread_exit k = do {
     t \<leftarrow> rt_thread_self k;
     k1 \<leftarrow> thread_exit_section k t;
     (if rt_thread_self k1 = Some t then rt_schedule k1 else Some k1)
   }"

text \<open>
  \<^verbatim>\<open>rt_thread_detach\<close> and \<^verbatim>\<open>rt_thread_delete\<close>, which differ in the assertion only. \<open>Blocked\<close>: the call has resumed the system thread and returns
  \<^verbatim>\<open>RT_EOK\<close> when the caller runs again.
\<close>

definition thread_close :: "kernel \<Rightarrow> tid \<Rightarrow> (int call \<times> kernel) option" where
  "thread_close k t = do {
     th \<leftarrow> threads k t;
     (if stat th = RT_THREAD_CLOSE then Some (Done RT_EOK, k)
      else do {
        k1 \<leftarrow> (if stat th \<noteq> RT_THREAD_INIT then rt_schedule_remove_thread k t else Some k);
        k2 \<leftarrow> rt_thread_timer_detach k1 t;
        k3 \<leftarrow> upd_thread k2 t (stat_update (\<lambda>_. RT_THREAD_CLOSE));
        k4 \<leftarrow> (case pending_object th of None \<Rightarrow> Some k3
          | Some m \<Rightarrow> do {
              k' \<leftarrow> rt_mutex_drop_thread k3 m t;
              upd_thread k' t (pending_object_update (\<lambda>_. None))
            });
        k5 \<leftarrow> rt_thread_defunct_enqueue k4 t;
        Some (if rt_thread_self k5 = rt_thread_self k then Done RT_EOK else Blocked, k5)
      })
   }"

definition rt_thread_detach :: "kernel \<Rightarrow> tid \<Rightarrow> (int call \<times> kernel) option" where
  "rt_thread_detach k t = do { th \<leftarrow> threads k t; RT_ASSERT (thread_static th); thread_close k t }"

definition rt_thread_delete :: "kernel \<Rightarrow> tid \<Rightarrow> (int call \<times> kernel) option" where
  "rt_thread_delete k t = do { th \<leftarrow> threads k t; RT_ASSERT (\<not> thread_static th); thread_close k t }"

text \<open>The hooks of the idle thread: \<open>hook\<close> takes the first free entry; the first entry with it is cleared.\<close>

fun replace_first :: "'a \<Rightarrow> 'a \<Rightarrow> 'a list \<Rightarrow> 'a list option" where
  "replace_first x y [] = None"
| "replace_first x y (z # zs) = (if z = x then Some (y # zs) else map_option ((#) z) (replace_first x y zs))"

definition rt_thread_idle_sethook :: "nat option list \<Rightarrow> nat \<Rightarrow> int \<times> nat option list" where
  "rt_thread_idle_sethook hooks hook = (case replace_first None (Some hook) hooks of
     Some hooks' \<Rightarrow> (RT_EOK, hooks') | None \<Rightarrow> (- RT_EFULL, hooks))"

definition RT_ENOSYS :: int where "RT_ENOSYS = 6"

definition rt_thread_idle_delhook :: "nat option list \<Rightarrow> nat \<Rightarrow> int \<times> nat option list" where
  "rt_thread_idle_delhook hooks hook = (case replace_first (Some hook) None hooks of
     Some hooks' \<Rightarrow> (RT_EOK, hooks') | None \<Rightarrow> (- RT_ENOSYS, hooks))"

section \<open>Closing a thread\<close>

lemma timer_detach_ok:
  assumes wf: "timer_wf s" and t: "timers s t = Some tm" "tstatic tm"
  shows "\<exists>s'. rt_timer_detach s t = Some s' \<and> timer_wf s' \<and> timers s' = (timers s)(t := None) \<and> tick s' = tick s"
  using wf t by (auto simp: rt_timer_detach_def upd_timer_def timer_remove_def timer_wf_def listed_def)

definition closed :: "rt_thread \<Rightarrow> rt_thread" where
  "closed th = th\<lparr>stat := RT_THREAD_CLOSE\<rparr>"

text \<open>The steps that the three functions share, up to the semaphore.\<close>

lemma close_ok:
  assumes k: "kinv {} k" and th: "threads k t = Some th" "stat th \<noteq> RT_THREAD_CLOSE" "stat th \<noteq> RT_THREAD_INIT"
  shows "\<exists>k1 k2 k3. rt_schedule_remove_thread k t = Some k1 \<and> rt_thread_timer_detach k1 t = Some k2 \<and>
    upd_thread k2 t (stat_update (\<lambda>_. RT_THREAD_CLOSE)) = Some k3 \<and> kinv {} (tlist_insert_after k3 DefunctQ t) \<and>
    threads k3 = (threads k)(t \<mapsto> closed th) \<and> same_env k k3 \<and> same_objs k k3 \<and> tlists k3 = (\<lambda>l. remove1 t (tlists k l))"
proof -
  note ok = kinvD(1) [OF k]
  obtain k1 where k1: "rt_schedule_remove_thread k t = Some k1" "sched_ok {t} k1" "threads k1 = threads k"
      "tlists k1 = (\<lambda>l. remove1 t (tlists k l))" "cpu_id k1 = cpu_id k" "ktimers k1 = ktimers k"
      "\<And>c. current_thread (cpus k1 c) = current_thread (cpus k c)" "\<And>c. irq_nest (cpus k1 c) = irq_nest (cpus k c)"
    using remove_ok [OF ok th(1)] by auto
  obtain tm where tm: "timers (ktimers k) (ThreadTimer t) = Some tm" "tstatic tm" by (rule timer_linkD [OF kinvD(3) [OF k] th(1,2)])
  obtain s where s: "rt_timer_detach (ktimers k) (ThreadTimer t) = Some s" "timer_wf s"
      "timers s = (timers (ktimers k))(ThreadTimer t := None)" "tick s = tick (ktimers k)"
    using timer_detach_ok [OF _ tm] kinvD(3) [OF k] by (auto simp: timer_link_def)
  let ?k2 = "k1\<lparr>ktimers := s\<rparr>"
  let ?k3 = "?k2\<lparr>threads := (threads k)(t \<mapsto> closed th)\<rparr>"
  let ?k' = "tlist_insert_after ?k3 DefunctQ t"
  have wf: "thread_wf (closed th)" using sched_okD(8) [OF ok th(1)] th(3) by (auto simp: thread_wf_def closed_def)
  have "sched_ok {t} ?k2" by (rule sched_ok_cong [OF k1(2)]) simp_all
  then have "sched_ok {t} ?k3" using sched_ok_upd_exempt [of "{t}" ?k2 t, OF _ _ wf] by (simp add: k1(3))
  then have "sched_ok ({t} - {t}) ?k3" by (rule sched_ok_settle [where th = "closed th"]) (simp_all add: closed_def)
  then have ok3: "sched_ok {} ?k3" by simp
  have nt: "t \<notin> set (tlists ?k3 l)" for l using sched_okD(4) [OF ok, of l] by (simp add: k1(4))
  have "sched_ok {} ?k'"
    unfolding tlist_insert_after_def
    by (rule sched_ok_list [OF ok3, of t "closed th"])
      (use nt sched_okD(4) [OF ok3, of DefunctQ] in \<open>simp_all add: closed_def lid_stat_def\<close>)
  moreover have "cpu_ok ?k'"
    by (rule cpu_ok_upd [OF kinvD(2) [OF k] th(1), of "closed th"]) (simp_all add: tlist_insert_after_def closed_def k1)
  moreover have "lock_ok ?k'"
    by (rule lock_ok_upd [OF kinvD(4) [OF k] th(1), of "closed th"]) (simp_all add: tlist_insert_after_def closed_def)
  moreover have "timer_link ?k'"
    using kinvD(3) [OF k] s(2,3) by (auto simp: timer_link_def tlist_insert_after_def closed_def)
  ultimately have "kinv {} ?k'" by (simp add: kinv_def)
  moreover have "same_env k ?k3" using k1 s(4) by (simp add: same_env_def)
  moreover have "same_objs k ?k3" using frame_remove [OF k1(1)] by (simp add: same_objs_def)
  moreover have "upd_thread ?k2 t (stat_update (\<lambda>_. RT_THREAD_CLOSE)) = Some ?k3" using th by (simp add: upd_thread_def k1(3) closed_def)
  moreover have "rt_thread_timer_detach k1 t = Some ?k2" using s(1) by (simp add: rt_thread_timer_detach_def k1(6))
  ultimately show ?thesis using k1(1,4) by (intro exI [of _ k1] exI [of _ ?k2] exI [of _ ?k3]) simp
qed


section \<open>Reclaiming\<close>

lemma defunct_execute_effect:
  assumes "distinct (tlists k DefunctQ)"
  shows "threads (rt_defunct_execute k) = (\<lambda>t. if t \<in> set (tlists k DefunctQ) then Option.bind (threads k t) reclaimed else threads k t) \<and>
   tlists (rt_defunct_execute k) DefunctQ = [] \<and> cpus (rt_defunct_execute k) = cpus k \<and> cpu_id (rt_defunct_execute k) = cpu_id k \<and>
   same_objs k (rt_defunct_execute k) \<and> ktimers (rt_defunct_execute k) = ktimers k"
  using assms
proof (induction k rule: rt_defunct_execute.induct)
  case (1 k)
  show ?case
  proof (cases "tlists k DefunctQ")
    case Nil
    then have "rt_defunct_execute k = k" by (subst rt_defunct_execute.simps) (simp add: rt_thread_defunct_dequeue_def)
    then show ?thesis using Nil by simp
  next
    case (Cons t ts)
    let ?T = "(threads k)(t := Option.bind (threads k t) reclaimed)"
    let ?k = "tlist_remove k t\<lparr>threads := (threads (tlist_remove k t))(t := Option.bind (threads (tlist_remove k t) t) reclaimed)\<rparr>"
    have d: "rt_thread_defunct_dequeue k = (Some t, tlist_remove k t)" using Cons by (simp add: rt_thread_defunct_dequeue_def)
    have e: "rt_defunct_execute k = rt_defunct_execute ?k" by (subst rt_defunct_execute.simps) (simp add: d)
    have q: "tlists ?k DefunctQ = ts" "threads ?k = ?T" "cpus ?k = cpus k" "cpu_id ?k = cpu_id k" "ktimers ?k = ktimers k"
      using Cons by (simp_all add: tlist_remove_def)
    have o: "same_objs k ?k" by (simp add: same_objs_def tlist_remove_def)
    have dt: "distinct ts" "t \<notin> set ts" using "1.prems" Cons by simp_all
    note ih = "1.IH" [OF d [symmetric] refl, unfolded q, OF dt(1)]
    have "same_objs k (rt_defunct_execute ?k)" using ih by (intro same_objs_trans [OF o]) blast
    moreover have "(\<lambda>u. if u \<in> set ts then Option.bind (?T u) reclaimed else ?T u) =
        (\<lambda>u. if u \<in> set (t # ts) then Option.bind (threads k u) reclaimed else threads k u)"
      using dt(2) by (auto simp: fun_eq_iff)
    ultimately show ?thesis using ih unfolding e Cons by simp
  qed
qed

text \<open>One thread is taken off the list and reclaimed; a thread that is freed must run nowhere.\<close>

lemma reclaim_ok:
  assumes k: "kinv {} k" and q: "tlists k DefunctQ = t # ts" and th: "threads k t = Some th" "\<not> thread_static th \<Longrightarrow> oncpu th = 2"
  shows "kinv {} (tlist_remove k t\<lparr>threads := (threads k)(t := reclaimed th)\<rparr>)"
proof -
  have st: "stat th = RT_THREAD_CLOSE" using sched_okD(7) [OF kinvD(1) [OF k], of t DefunctQ] q th(1) by (auto simp: lid_stat_def)
  have ok: "sched_ok {t} (tlist_remove k t)" using tlist_remove_ok [OF kinvD(1) [OF k] th(1)] st by simp
  have "sched_ok ({t} - {t}) (tlist_remove k t)"
    by (rule sched_ok_settle [OF ok, of _ th]) (use st th(1) in \<open>simp_all add: tlist_remove_def\<close>)
  moreover have "cpu_ok (tlist_remove k t)" "timer_link (tlist_remove k t)" "lock_ok (tlist_remove k t)"
    using kinvD(2-4) [OF k] by (auto simp: cpu_ok_def timer_link_def lock_ok_def tlist_remove_def)
  ultimately have k1: "kinv {} (tlist_remove k t)" by (simp add: kinv_def)
  show ?thesis
  proof (cases "thread_static th")
    case True
    have "threads (tlist_remove k t) t = Some th" using th(1) by (simp add: tlist_remove_def)
    from kinv_upd [OF k1 this, of "th\<lparr>thread_static := False\<rparr>"] True show ?thesis
      by (simp add: same_thread_def reclaimed_def tlist_remove_def)
  next
    case False
    let ?k = "tlist_remove k t\<lparr>threads := (threads k)(t := None)\<rparr>"
    have "sched_ok {} ?k" using ok unfolding sched_ok_def by (auto simp: tlist_remove_def)
    moreover have "cpu_ok ?k" using kinvD(2) [OF k] th False unfolding cpu_ok_def tlist_remove_def by auto
    moreover have "timer_link ?k" using kinvD(3) [OF k] by (auto simp: timer_link_def tlist_remove_def)
    moreover have "lock_ok ?k" using kinvD(4) [OF k] by (auto simp: lock_ok_def tlist_remove_def)
    ultimately show ?thesis using False by (simp add: kinv_def reclaimed_def)
  qed
qed

lemma defunct_execute_ok:
  assumes "kinv {} k" "\<And>t th. t \<in> set (tlists k DefunctQ) \<Longrightarrow> threads k t = Some th \<Longrightarrow> \<not> thread_static th \<Longrightarrow> oncpu th = 2"
  shows "kinv {} (rt_defunct_execute k)"
  using assms
proof (induction k rule: rt_defunct_execute.induct)
  case (1 k)
  show ?case
  proof (cases "tlists k DefunctQ")
    case Nil
    then show ?thesis using "1.prems" by (subst rt_defunct_execute.simps) (simp add: rt_thread_defunct_dequeue_def)
  next
    case (Cons t ts)
    let ?k = "tlist_remove k t\<lparr>threads := (threads (tlist_remove k t))(t := Option.bind (threads (tlist_remove k t) t) reclaimed)\<rparr>"
    have d: "rt_thread_defunct_dequeue k = (Some t, tlist_remove k t)" using Cons by (simp add: rt_thread_defunct_dequeue_def)
    have e: "rt_defunct_execute k = rt_defunct_execute ?k" by (subst rt_defunct_execute.simps) (simp add: d)
    have "distinct (t # ts)" using sched_okD(4) [OF kinvD(1) [OF "1.prems"(1)], of DefunctQ] Cons by simp
    then have nt: "t \<notin> set ts" by simp
    obtain th where th: "threads k t = Some th" using sched_okD(7) [OF kinvD(1) [OF "1.prems"(1)], of t DefunctQ] Cons by auto
    have q: "tlists ?k DefunctQ = ts" "threads ?k = (threads k)(t := reclaimed th)" using Cons th by (simp_all add: tlist_remove_def)
    have "kinv {} ?k" using reclaim_ok [OF "1.prems"(1) Cons th] "1.prems"(2) [OF _ th] Cons th by (simp add: tlist_remove_def)
    moreover have "oncpu h = 2" if "u \<in> set (tlists ?k DefunctQ)" "threads ?k u = Some h" "\<not> thread_static h" for u h
    proof -
      have "u \<noteq> t" using that(1) nt unfolding q by blast
      then show ?thesis using that "1.prems"(2) [of u h] unfolding q Cons by auto
    qed
    ultimately show ?thesis unfolding e using "1.IH" [OF d [symmetric] refl] by blast
  qed
qed

section \<open>Which processor runs what\<close>

text \<open>The scheduler changes the current thread of its own processor only.\<close>

definition same_others :: "kernel \<Rightarrow> kernel \<Rightarrow> bool" where
  "same_others k k' \<longleftrightarrow> cpu_id k' = cpu_id k \<and> (\<forall>c. c \<noteq> cpu_id k \<longrightarrow> current_thread (cpus k' c) = current_thread (cpus k c))"

named_theorems others "operations that leave the current threads of the other processors alone"

lemma others_trans: "same_others a b \<Longrightarrow> same_others b c \<Longrightarrow> same_others a c"
  by (simp add: same_others_def)

lemma others_basic [others]:
  "upd_thread k t f = Some k' \<Longrightarrow> same_others k k'" "rt_cpus_lock k = Some k' \<Longrightarrow> same_others k k'"
  "rt_cpus_unlock k = Some k' \<Longrightarrow> same_others k k'" "context_switch k t = Some k' \<Longrightarrow> same_others k k'"
  by (auto simp: same_others_def upd_thread_def rt_cpus_lock_def rt_cpus_unlock_def context_switch_def rt_cpus_lock_status_restore_def
      upd_cpu_def split: option.splits)

lemma others_remove [others]: "rt_schedule_remove_thread k t = Some k' \<Longrightarrow> same_others k k'"
  by (auto simp: same_others_def rt_schedule_remove_thread_def Let_def upd_cpu_def tlist_remove_def bind_eq_Some_conv split: if_splits)

lemma others_insert [others]: "rt_schedule_insert_thread k t = Some k' \<Longrightarrow> same_others k k'"
proof -
  assume run: "rt_schedule_insert_thread k t = Some k'"
  then obtain th where th: "threads k t = Some th" by (auto simp: rt_schedule_insert_thread_def bind_eq_Some_conv)
  show ?thesis
    using run th
    by (cases "oncpu th = 2"; cases "bind_cpu th = 2"; cases "stat_yield th")
       (auto simp: rt_schedule_insert_thread_def upd_thread_def Let_def same_others_def tlist_insert_before_def
         tlist_insert_after_def upd_cpu_def)
qed

lemma others_pick [others]: "schedule_pick k cur = Some (to, p, k') \<Longrightarrow> same_others k k'"
  unfolding schedule_pick_def
  by (auto simp: bind_eq_Some_conv same_others_def split: if_splits dest!: others [unfolded same_others_def])

lemma others_upd_cpu: "current_thread (f (cpus k c)) = current_thread (cpus k c) \<Longrightarrow> same_others k (upd_cpu k c f)"
  by (simp add: same_others_def upd_cpu_def)

lemma others_schedule: "rt_schedule k = Some k' \<Longrightarrow> same_others k k'"
  unfolding rt_schedule_def Let_def
  by (auto simp: bind_eq_Some_conv same_others_def upd_cpu_def split: if_splits dest!: others [unfolded same_others_def])


section \<open>The exit of the current thread\<close>

text \<open>The section of \<^verbatim>\<open>_thread_exit\<close> up to the release of the semaphore.\<close>

definition exit_mid :: "kernel \<Rightarrow> tid \<Rightarrow> rt_thread \<Rightarrow> kernel \<Rightarrow> bool" where
  "exit_mid k t th k' \<longleftrightarrow> kinv {} k' \<and> threads k' = (threads k)(t \<mapsto> closed th) \<and> same_env k k' \<and> same_objs k k' \<and>
     tlists k' = (tlists k)(DefunctQ := t # tlists k DefunctQ)"

lemma exit_mid_ok:
  assumes k: "kinv {} k" and b: "can_block k t th"
  shows "\<exists>k'. exit_mid k t th k' \<and> thread_exit_section k t = do { (r, k1) \<leftarrow> rt_sem_release k' system_sem; Some k1 }"
proof -
  note B = b [unfolded can_block_def]
  obtain k1 k2 k3 where c: "rt_schedule_remove_thread k t = Some k1" "rt_thread_timer_detach k1 t = Some k2"
      "upd_thread k2 t (stat_update (\<lambda>_. RT_THREAD_CLOSE)) = Some k3" "kinv {} (tlist_insert_after k3 DefunctQ t)"
      "threads k3 = (threads k)(t \<mapsto> closed th)" "same_env k k3" "same_objs k k3" "tlists k3 = (\<lambda>l. remove1 t (tlists k l))"
    using close_ok [OF k, of t th] B by auto
  have "t \<notin> set (tlists k l)" for l using running_unlisted [OF kinvD(1) [OF k], of t th] B by blast
  then have q: "tlists k3 = tlists k" by (simp add: c(8) remove1_idem)
  have "exit_mid k t th (tlist_insert_after k3 DefunctQ t)"
    using c(4-7) q unfolding exit_mid_def by (simp add: same_env_def same_objs_def tlist_insert_after_def)
  moreover have "thread_exit_section k t = do { (r, k1) \<leftarrow> rt_sem_release (tlist_insert_after k3 DefunctQ t) system_sem; Some k1 }"
    using c(1-3) by (simp add: thread_exit_section_def rt_thread_defunct_enqueue_def)
  ultimately show ?thesis by blast
qed

lemma exit_mid_self:
  assumes "exit_mid k t th k'" "can_block k t th"
  shows "rt_thread_self k' = Some t" "irq_nest (rt_cpu_self k') = 0" "threads k' t = Some (closed th)" "\<exists>u uh. eligible k' u uh"
proof -
  note B = assms(2) [unfolded can_block_def] and M = assms(1) [unfolded exit_mid_def]
  show "rt_thread_self k' = Some t" "irq_nest (rt_cpu_self k') = 0" using same_env_self [of k k'] M B by simp_all
  show "threads k' t = Some (closed th)" using M by simp
  show "\<exists>u uh. eligible k' u uh"
    by (rule eligible_other [of k t th _ "closed th"]) (use B M in \<open>auto simp: same_env_def\<close>)
qed

text \<open>The switch away from a closed thread.\<close>

definition gone :: "kernel \<Rightarrow> tid \<Rightarrow> kernel \<Rightarrow> bool" where
  "gone k t k' \<longleftrightarrow> kinv {} k' \<and>
     (\<exists>u uh. rt_thread_self k' = Some u \<and> u \<noteq> t \<and> threads k' u = Some uh \<and> stat uh = RT_THREAD_RUNNING \<and> lowest_ready k' uh) \<and>
     (\<exists>h. threads k' t = Some h \<and> stat h = RT_THREAD_CLOSE \<and> oncpu h = 2 \<and> map_option thread_static (threads k t) = Some (thread_static h)) \<and>
     tlists k' DefunctQ = t # tlists k DefunctQ"

lemma closed_switch:
  assumes k: "kinv {} k" and self: "rt_thread_self k = Some t" "irq_nest (rt_cpu_self k) = 0"
    and th: "threads k t = Some th" "stat th = RT_THREAD_CLOSE" and el: "\<exists>u uh. eligible k u uh"
    and q: "tlists k DefunctQ = t # tlists k0 DefunctQ" "map_option thread_static (threads k0 t) = Some (thread_static th)"
  shows "\<exists>k'. rt_schedule k = Some k' \<and> gone k0 t k' \<and> same_objs k k' \<and> wait_same k k'"
proof -
  obtain k' u uh where k': "rt_schedule k = Some k'" "kinv {} k'" "same_objs k k'" "wait_same k k'" "cpu_id k' = cpu_id k"
      "rt_thread_self k' = Some u" "threads k' u = Some uh" "stat uh = RT_THREAD_RUNNING" "lowest_ready k' uh"
    using schedule_kinv [OF k self(1) th(1) _ self(2)] th(2) el by auto
  have "rel_option sched_eq (threads k t) (threads k' t)" using k'(4) by (simp add: wait_same_def)
  then obtain h where h: "threads k' t = Some h" "stat h = RT_THREAD_CLOSE" "thread_static h = thread_static th" using th by (auto simp: option_rel_Some1 sched_eq_def)
  have ut: "u \<noteq> t" using k'(7,8) h by auto
  have "oncpu th = cpu_id k" using current_running(1) [OF k self(1) th(1)] .
  then have n: "current_thread (cpus k' c) \<noteq> Some t" if "c < 2" for c
    using that k'(5,6) ut others_schedule [OF k'(1)] cpu_okD(1) [OF kinvD(2) [OF k] that, of t] th(1)
    by (cases "c = cpu_id k") (auto simp: same_others_def rt_thread_self_def rt_cpu_self_def)
  have "oncpu h \<le> 2" using sched_okD(8) [OF kinvD(1) [OF k'(2)] h(1)] by (simp add: thread_wf_def)
  then have "oncpu h = 2"
    using n [of "oncpu h"] cpu_okD(1) [OF kinvD(2) [OF k'(2)], of "oncpu h" t] h(1) by fastforce
  moreover have "tlists k' DefunctQ = t # tlists k0 DefunctQ" using k'(4) q(1) by (simp add: wait_same_def)
  ultimately have "gone k0 t k'" unfolding gone_def using k'(2,6-9) h ut q(2) by auto
  then show ?thesis using k'(1,3,4) by blast
qed

lemma thread_exit_lemma:
  assumes ok: "sem_ok system_sem k" and sem: "sems k system_sem = Some sem" and b: "can_block k t th"
  shows "\<exists>k'. thread_exit k = Some k' \<and> gone k t k' \<and>
    (case tlists k (SemQ system_sem) of
       [] \<Rightarrow> sems k' system_sem = Some (sem\<lparr>sem_value := min 65535 (sem_value sem + 1)\<rparr>)
     | w # ws \<Rightarrow> sems k' system_sem = Some sem \<and> tlists k' (SemQ system_sem) = ws \<and>
         (\<exists>h. threads k' w = Some h \<and> (stat h = RT_THREAD_READY \<or> stat h = RT_THREAD_RUNNING) \<and> error h = RT_EOK))"
proof -
  note B = b [unfolded can_block_def]
  have k: "kinv {} k" using ok by (simp add: sem_ok_def)
  obtain km where km: "exit_mid k t th km" "thread_exit_section k t = do { (r, k1) \<leftarrow> rt_sem_release km system_sem; Some k1 }"
    using exit_mid_ok [OF k b] by blast
  note M = km(1) [unfolded exit_mid_def] and S = exit_mid_self [OF km(1) b]
  have q: "tlists km DefunctQ = t # tlists k DefunctQ" "tlists km (SemQ system_sem) = tlists k (SemQ system_sem)" using M by simp_all
  have sm: "sems km system_sem = Some sem" using M sem by (simp add: same_objs_def)
  have v: "0 \<le> sem_value sem" "sem_value sem \<le> 65535" using ok sem by (auto simp: sem_ok_def)
  show ?thesis
  proof (cases "tlists k (SemQ system_sem)")
    case Nil
    let ?s = "sem\<lparr>sem_value := min 65535 (sem_value sem + 1)\<rparr>"
    obtain r k1 where k1: "rt_sem_release km system_sem = Some (r, k1)" "k1 = km\<lparr>sems := (sems km)(system_sem \<mapsto> ?s)\<rparr>"
    proof (cases "sem_value sem < 65535")
      case True
      then show ?thesis using that Nil q sm v by (simp add: rt_sem_release_def RT_SEM_VALUE_MAX_def c_store)
    next
      case False
      then have "?s = sem" using v by simp
      then show ?thesis using that False Nil q sm by (simp add: rt_sem_release_def RT_SEM_VALUE_MAX_def fun_upd_idem)
    qed
    have i: "kinv {} k1" "rt_thread_self k1 = Some t" "irq_nest (rt_cpu_self k1) = 0" "threads k1 t = Some (closed th)"
      "\<exists>u uh. eligible k1 u uh" "tlists k1 DefunctQ = t # tlists k DefunctQ"
      using M S q by (simp_all add: k1(2) rt_thread_self_def rt_cpu_self_def eligible_def)
    obtain k' where k': "rt_schedule k1 = Some k'" "gone k t k'" "same_objs k1 k'"
      using closed_switch [OF i(1-4) _ i(5,6)] B by (auto simp: closed_def)
    have "thread_exit k = Some k'" using km(2) k1(1) i(2) k'(1) B by (simp add: thread_exit_def)
    then show ?thesis using k'(2,3) Nil by (simp add: same_objs_def k1(2))
  next
    case (Cons w ws)
    have wq: "w \<in> set (tlists k (SemQ system_sem))" by (simp add: Cons)
    obtain wh where wh: "threads k w = Some wh" "stat wh = RT_THREAD_SUSPEND"
      by (rule waiting_thread [OF kinvD(1) [OF k] waitq_simps(1) wq])
    have er: "error wh = RT_EOK" using ok wq wh by (auto simp: sem_ok_def)
    have wt: "w \<noteq> t" using wh B by auto
    have whm: "threads km w = Some wh" using M wh wt by simp
    obtain k1 where k1: "ipc_list_resume km (SemQ system_sem) = Some k1" "kinv {} k1" "same_env km k1" "same_objs km k1"
        "threads k1 = (threads km)(w \<mapsto> resumed wh)" "tlists k1 (SemQ system_sem) = ws"
        "\<forall>l'. \<not> is_readyq l' \<and> l' \<noteq> SemQ system_sem \<longrightarrow> tlists k1 l' = tlists km l'"
      using ipc_resume_ok [of km "SemQ system_sem" w ws wh] M Cons whm q(2) by auto
    have i: "rt_thread_self k1 = Some t" "irq_nest (rt_cpu_self k1) = 0" using same_env_self [OF k1(3)] S by simp_all
    have t1: "threads k1 t = Some (closed th)" using k1(5) S(3) wt by simp
    have el: "\<exists>u uh. eligible k1 u uh"
      by (rule eligible_other [of km w wh _ "resumed wh"]) (use S(4) whm wh k1(3,5) in \<open>auto simp: same_env_def\<close>)
    have q1: "tlists k1 DefunctQ = t # tlists k DefunctQ" using k1(7) q(1) by simp
    obtain k' where k': "rt_schedule k1 = Some k'" "gone k t k'" "same_objs k1 k'" "wait_same k1 k'"
      using closed_switch [OF k1(2) i t1 _ el q1] B by (auto simp: closed_def)
    have "rt_sem_release km system_sem = Some (RT_EOK, k')"
      using sm q(2) Cons k1(1) k'(1) by (simp add: rt_sem_release_def)
    moreover have "rt_thread_self k' \<noteq> Some t" using k'(2) by (auto simp: gone_def)
    ultimately have "thread_exit k = Some k'" using km(2) B by (simp add: thread_exit_def)
    moreover have "sems k' system_sem = Some sem" using k1(4) k'(3) sm by (simp add: same_objs_def)
    moreover have "tlists k' (SemQ system_sem) = ws" using k'(4) k1(6) by (simp add: wait_same_def)
    moreover have "\<exists>h. threads k' w = Some h \<and> (stat h = RT_THREAD_READY \<or> stat h = RT_THREAD_RUNNING) \<and> error h = RT_EOK"
    proof -
      have "rel_option sched_eq (threads k1 w) (threads k' w)" using k'(4) by (simp add: wait_same_def)
      then show ?thesis using k1(5) er by (auto simp: option_rel_Some1 sched_eq_def resumed_def split: if_splits)
    qed
    ultimately show ?thesis using k'(2) Cons by simp
  qed
qed

text \<open>C13: A thread that ends never runs again. From a thread in any consistent state, \<^verbatim>\<open>_thread_exit\<close> closes it, puts it on the list of defunct
  threads and leaves it for a most urgent ready thread for good: it runs on no processor, the kernel invariant holds, and the
  system thread is told, by being made ready if it waits and by a token in its semaphore otherwise.\<close>

theorem thread_exit_spec:
  assumes ok: "sem_ok system_sem k" and sem: "sems k system_sem = Some sem" and b: "can_block k t th"
  shows "\<exists>k'. thread_exit k = Some k' \<and> gone k t k' \<and>
    (case tlists k (SemQ system_sem) of
       [] \<Rightarrow> sems k' system_sem = Some (sem\<lparr>sem_value := min 65535 (sem_value sem + 1)\<rparr>)
     | w # ws \<Rightarrow> sems k' system_sem = Some sem \<and> tlists k' (SemQ system_sem) = ws \<and>
         (\<exists>h. threads k' w = Some h \<and> (stat h = RT_THREAD_READY \<or> stat h = RT_THREAD_RUNNING) \<and> error h = RT_EOK))"
  using assms by (rule thread_exit_lemma)

theorem thread_exit_spec_witness:
  "\<exists>k' h. thread_exit ((ex_waiting 0 (SemQ 0))\<lparr>sems := [0 \<mapsto> ex_sem 0]\<rparr>) = Some k' \<and> threads k' 1 = Some h \<and> stat h = RT_THREAD_CLOSE \<and>
    tlists k' DefunctQ = [1] \<and> rt_thread_self k' \<noteq> Some 1"
proof -
  let ?k = "(ex_waiting 0 (SemQ 0))\<lparr>sems := [0 \<mapsto> ex_sem 0]\<rparr>"
  have c: "can_block (ex_kernel 0) 1 (ex_thread RT_THREAD_RUNNING 10 2 0)" by (rule ex_can_block)
  have b: "can_block ?k 1 (ex_thread RT_THREAD_RUNNING 10 2 0)"
    using c by (simp add: can_block_def eligible_def rt_thread_self_def rt_cpu_self_def ex_waiting_def)
  have s: "sems ?k system_sem = Some (ex_sem 0)" by (simp add: system_sem_def)
  have "tlists ?k DefunctQ = []" by (simp add: ex_waiting_self ex_lists_def)
  then show ?thesis
    using thread_exit_spec [OF _ s b] ex_sem_waiting_ok by (auto simp: system_sem_def gone_def)
qed


text \<open>The kernel of the examples with a dynamic thread 1.\<close>

definition dyn_thread :: rt_thread where "dyn_thread = (ex_thread RT_THREAD_RUNNING 10 2 0)\<lparr>thread_static := False\<rparr>"

definition ex_dynamic :: kernel where
  "ex_dynamic = (ex_kernel 0)\<lparr>threads := (threads (ex_kernel 0))(1 \<mapsto> dyn_thread), sems := [0 \<mapsto> ex_sem 0]\<rparr>"

lemma ex_dynamic_ok: "sem_ok system_sem ex_dynamic" "can_block ex_dynamic 1 dyn_thread" "tlists ex_dynamic (SemQ system_sem) = []"
  "sems ex_dynamic system_sem = Some (ex_sem 0)" "tlists ex_dynamic DefunctQ = []" "\<not> thread_static dyn_thread"
proof -
  note b = ex_can_block [unfolded can_block_def]
  have s: "same_thread (ex_thread RT_THREAD_RUNNING 10 2 0) dyn_thread" by (simp add: same_thread_def dyn_thread_def)
  let ?k = "(ex_kernel 0)\<lparr>threads := (threads (ex_kernel 0))(1 \<mapsto> dyn_thread)\<rparr>"
  have "kinv {} ?k" using b by (intro kinv_upd [OF ex_kinv _ s]) simp
  then show "sem_ok system_sem ex_dynamic" by (simp add: sem_ok_def ex_dynamic_def system_sem_def ex_sem_def ex_tlists ex_lists_def)
  have "can_block ?k 1 dyn_thread" using can_block_upd(2) [OF ex_kinv ex_can_block s] by (simp add: dyn_thread_def)
  then show "can_block ex_dynamic 1 dyn_thread"
    by (simp add: can_block_def eligible_def rt_thread_self_def rt_cpu_self_def ex_dynamic_def)
qed (simp_all add: ex_dynamic_def system_sem_def ex_tlists ex_lists_def dyn_thread_def)

text \<open>C19: The system thread's loop ends and reclaims all defunct threads and touches nothing else: the list is empty afterwards,
  the dynamic threads on it have no entry any more, the static ones are detached but stay in memory, and every other thread is as before.
  If no dynamic thread on the list runs on a processor, as \<^verbatim>\<open>_thread_exit\<close> leaves them after its switch (but not
  between its two sections), the kernel invariant still holds.\<close>

theorem defunct_reclaimed:
  assumes k: "kinv {} k"
  shows "tlists (rt_defunct_execute k) DefunctQ = [] \<and>
    (\<forall>t. threads (rt_defunct_execute k) t = (if t \<notin> set (tlists k DefunctQ) then threads k t
       else case threads k t of None \<Rightarrow> None | Some th \<Rightarrow> if thread_static th then Some (th\<lparr>thread_static := False\<rparr>) else None)) \<and>
    rt_thread_self (rt_defunct_execute k) = rt_thread_self k \<and>
    ((\<forall>t \<in> set (tlists k DefunctQ). \<forall>th. threads k t = Some th \<and> \<not> thread_static th \<longrightarrow> oncpu th = 2) \<longrightarrow> kinv {} (rt_defunct_execute k))"
proof -
  note E = defunct_execute_effect [OF sched_okD(4) [OF kinvD(1) [OF k]]]
  have "threads (rt_defunct_execute k) t = (if t \<notin> set (tlists k DefunctQ) then threads k t
       else case threads k t of None \<Rightarrow> None | Some th \<Rightarrow> if thread_static th then Some (th\<lparr>thread_static := False\<rparr>) else None)" for t
    using E by (simp add: reclaimed_def split: option.splits)
  then show ?thesis using E defunct_execute_ok [OF k] by (auto simp: rt_thread_self_def rt_cpu_self_def)
qed

theorem defunct_reclaimed_witness:
  "\<exists>k'. thread_exit ex_dynamic = Some k' \<and> threads k' 1 \<noteq> None \<and> threads (rt_defunct_execute k') 1 = None \<and>
    kinv {} (rt_defunct_execute k')"
proof -
  obtain k' where k': "thread_exit ex_dynamic = Some k'" "gone ex_dynamic 1 k'"
    using thread_exit_lemma [OF ex_dynamic_ok(1,4,2)] by blast
  have "threads ex_dynamic 1 = Some dyn_thread" using ex_dynamic_ok(2) by (simp add: can_block_def)
  then obtain h where h: "threads k' 1 = Some h" "oncpu h = 2" "thread_static h = thread_static dyn_thread"
    using k'(2) by (auto simp: gone_def)
  have "kinv {} k'" "tlists k' DefunctQ = [1]" using k'(2) ex_dynamic_ok(5) by (auto simp: gone_def)
  then show ?thesis using defunct_reclaimed [of k'] k'(1) h ex_dynamic_ok(6) by auto
qed

text \<open>C18: Between the two sections of \<^verbatim>\<open>_thread_exit\<close> the thread is already on the list of defunct threads while it still runs. When the system thread
  does not wait at that moment, it may come upon it from another processor: a dynamic thread (one made by \<^verbatim>\<open>rt_thread_create\<close>) is freed
  while it is the current thread, and the switch that is due next uses it.\<close>

theorem thread_exit_race:
  assumes ok: "sem_ok system_sem k" and q: "tlists k (SemQ system_sem) = []" and b: "can_block k t th" and dyn: "\<not> thread_static th"
  shows "\<exists>k1. thread_exit_section k t = Some k1 \<and> kinv {} k1 \<and> rt_thread_self k1 = Some t \<and> t \<in> set (tlists k1 DefunctQ) \<and>
    threads (rt_defunct_execute k1) t = None \<and> rt_thread_self (rt_defunct_execute k1) = Some t \<and> \<not> cpu_ok (rt_defunct_execute k1) \<and>
    rt_schedule (rt_defunct_execute k1) = None"
proof -
  have k: "kinv {} k" using ok by (simp add: sem_ok_def)
  obtain km where km: "exit_mid k t th km" "thread_exit_section k t = do { (r, k1) \<leftarrow> rt_sem_release km system_sem; Some k1 }"
    using exit_mid_ok [OF k b] by blast
  note M = km(1) [unfolded exit_mid_def] and S = exit_mid_self [OF km(1) b]
  obtain sem where "sems km system_sem = Some sem" using M ok by (auto simp: sem_ok_def same_objs_def)
  moreover have "tlists km (SemQ system_sem) = []" using M q by simp
  ultimately have "rt_sem_release km system_sem = Some (if sem_value sem < RT_SEM_VALUE_MAX then RT_EOK else - RT_EFULL,
      km\<lparr>sems := (if sem_value sem < RT_SEM_VALUE_MAX then (sems km)(system_sem \<mapsto> sem\<lparr>sem_value := u16 (sem_value sem + 1)\<rparr>) else sems km)\<rparr>)"
    by (simp add: rt_sem_release_def)
  then obtain r f where "rt_sem_release km system_sem = Some (r, km\<lparr>sems := f\<rparr>)" by blast
  then obtain k1 where k1: "thread_exit_section k t = Some k1" "k1 = km\<lparr>sems := f\<rparr>" using km(2) by simp
  have m: "kinv {} km" "tlists km DefunctQ = t # tlists k DefunctQ" using M by simp_all
  have i: "kinv {} k1" "rt_thread_self k1 = Some t" "t \<in> set (tlists k1 DefunctQ)" "threads k1 t = Some (closed th)"
    using m S(1,3) by (simp_all add: k1(2) rt_thread_self_def rt_cpu_self_def)
  have "cpu_id k1 < 2" using sched_okD(1) [OF kinvD(1) [OF i(1)]] .
  note i = i this
  have d: "threads (rt_defunct_execute k1) t = None" "rt_thread_self (rt_defunct_execute k1) = Some t" "cpu_id (rt_defunct_execute k1) = cpu_id k1"
    using defunct_execute_effect [OF sched_okD(4) [OF kinvD(1) [OF i(1)]]] i dyn
    by (simp_all add: rt_thread_self_def rt_cpu_self_def reclaimed_def closed_def)
  have "\<not> cpu_ok (rt_defunct_execute k1)"
    using cpu_okD(1) [of "rt_defunct_execute k1" "cpu_id k1" t] d i(5) by (auto simp: rt_thread_self_def rt_cpu_self_def)
  moreover have "rt_schedule (rt_defunct_execute k1) = None"
    using d(1,2) by (simp add: rt_schedule_def rt_cpus_lock_def upd_thread_def)
  ultimately show ?thesis using k1(1) i d by blast
qed

theorem thread_exit_race_witness:
  "\<exists>k1. thread_exit_section ex_dynamic 1 = Some k1 \<and> rt_thread_self k1 = Some 1 \<and>
    threads (rt_defunct_execute k1) 1 = None \<and> rt_schedule (rt_defunct_execute k1) = None"
  using thread_exit_race [OF ex_dynamic_ok(1,3,2,6)] by blast

end
