(* ===== verification/Bitutil.thy ===== *)
theory Bitutil
  imports Prelude
begin

text \<open>
  The bit and byte utilities of the board support package
  (\<^verbatim>\<open>nu_packages/NuUtils/inc/nu_bitutil.h\<close>): counting of leading and trailing bits, and the
  little- and big-endian accessors of 16-, 24- and 32-bit values in a byte array. The compiler
  builtin \<^verbatim>\<open>__builtin_clz\<close> is \<open>builtin_clz\<close>; a byte array is a function from
  positions to bytes.
\<close>

section \<open>Counting bits\<close>

fun top_bit :: "nat \<Rightarrow> 32 word \<Rightarrow> nat" where
  "top_bit 0 x = 0"
| "top_bit (Suc n) x = (if bit x n then Suc n else top_bit n x)"

definition builtin_clz :: "32 word \<Rightarrow> nat" where
  "builtin_clz x = 32 - top_bit 32 x"

definition nu_clz :: "32 word \<Rightarrow> nat" where
  "nu_clz x = (if x \<noteq> 0 then builtin_clz x else 32)"

definition nu_clo :: "32 word \<Rightarrow> nat" where
  "nu_clo x = nu_clz (NOT x)"

definition nu_ctz :: "32 word \<Rightarrow> nat" where
  "nu_ctz x = (let c = (if x \<noteq> 0 then builtin_clz (x AND - x) else 32)
               in if x \<noteq> 0 then 31 - c else c)"

definition nu_cto :: "32 word \<Rightarrow> nat" where
  "nu_cto x = nu_ctz (NOT x)"

section \<open>Byte arrays\<close>

type_synonym bytes = "nat \<Rightarrow> byte"

definition nu_get16_le :: "bytes \<Rightarrow> nat \<Rightarrow> 16 word" where
  "nu_get16_le b p = ucast (b p) + push_bit 8 (ucast (b (p + 1)))"

definition nu_set16_le :: "bytes \<Rightarrow> nat \<Rightarrow> 16 word \<Rightarrow> bytes" where
  "nu_set16_le b p v = b(p := ucast (v AND 0xFF), p + 1 := ucast (drop_bit 8 v))"

definition nu_get32_le :: "bytes \<Rightarrow> nat \<Rightarrow> 32 word" where
  "nu_get32_le b p = ucast (b p) + push_bit 8 (ucast (b (p + 1))) + push_bit 16 (ucast (b (p + 2)))
     + push_bit 24 (ucast (b (p + 3)))"

definition nu_get24_le :: "bytes \<Rightarrow> nat \<Rightarrow> 32 word" where
  "nu_get24_le b p = ucast (b p) + push_bit 8 (ucast (b (p + 1))) + push_bit 16 (ucast (b (p + 2)))"

definition nu_set24_le :: "bytes \<Rightarrow> nat \<Rightarrow> 32 word \<Rightarrow> bytes" where
  "nu_set24_le b p v = b(p := ucast (v AND 0xFF), p + 1 := ucast (drop_bit 8 v AND 0xFF),
     p + 2 := ucast (drop_bit 16 v AND 0xFF))"

definition nu_set32_le :: "bytes \<Rightarrow> nat \<Rightarrow> 32 word \<Rightarrow> bytes" where
  "nu_set32_le b p v = b(p := ucast (v AND 0xFF), p + 1 := ucast (drop_bit 8 v AND 0xFF),
     p + 2 := ucast (drop_bit 16 v AND 0xFF), p + 3 := ucast (drop_bit 24 v AND 0xFF))"

definition nu_get16_be :: "bytes \<Rightarrow> nat \<Rightarrow> 16 word" where
  "nu_get16_be b p = push_bit 8 (ucast (b p)) + ucast (b (p + 1))"

definition nu_set16_be :: "bytes \<Rightarrow> nat \<Rightarrow> 16 word \<Rightarrow> bytes" where
  "nu_set16_be b p v = b(p := ucast (drop_bit 8 v), p + 1 := ucast (v AND 0xFF))"

definition nu_get24_be :: "bytes \<Rightarrow> nat \<Rightarrow> 32 word" where
  "nu_get24_be b p = push_bit 8 (push_bit 8 (ucast (b p)) + ucast (b (p + 1))) + ucast (b (p + 2))"

definition nu_set24_be :: "bytes \<Rightarrow> nat \<Rightarrow> 32 word \<Rightarrow> bytes" where
  "nu_set24_be b p v = b(p := ucast (drop_bit 16 v), p + 1 := ucast (drop_bit 8 v),
     p + 2 := ucast (v AND 0xFF))"

definition nu_get32_be :: "bytes \<Rightarrow> nat \<Rightarrow> 32 word" where
  "nu_get32_be b p = push_bit 8 (push_bit 8 (push_bit 8 (ucast (b p)) + ucast (b (p + 1)))
     + ucast (b (p + 2))) + ucast (b (p + 3))"

definition nu_set32_be :: "bytes \<Rightarrow> nat \<Rightarrow> 32 word \<Rightarrow> bytes" where
  "nu_set32_be b p v = b(p := ucast (drop_bit 24 v), p + 1 := ucast (drop_bit 16 v),
     p + 2 := ucast (drop_bit 8 v), p + 3 := ucast (v AND 0xFF))"

section \<open>The counts are the positions of the first bits\<close>

lemma top_bit_le: "top_bit n x \<le> n"
  by (induction n) auto

lemma top_bit_eq:
  assumes "bit x k" "k < n" "\<And>i. k < i \<Longrightarrow> i < n \<Longrightarrow> \<not> bit x i"
  shows "top_bit n x = Suc k"
  using assms
proof (induction n)
  case (Suc n)
  then show ?case by (cases "k = n") auto
qed simp

lemma word_bits_0: "(x :: 32 word) \<noteq> 0 \<Longrightarrow> \<exists>k < 32. bit x k"
proof (rule ccontr)
  assume x: "x \<noteq> 0" and "\<not> (\<exists>k < 32. bit x k)"
  then have "x = 0" by (intro bit_word_eqI) auto
  then show False using x by simp
qed

lemma lowest_set_bit:
  fixes x :: "32 word"
  assumes k: "bit x k" and low: "\<And>i. i < k \<Longrightarrow> \<not> bit x i"
  shows "x AND - x = push_bit k 1"
proof -
  define p :: "32 word" where "p = push_bit k 1"
  define y where "y = x AND NOT p"
  have k32: "k < 32" using bit_imp_le_length [OF k] by simp
  then have p: "bit p i \<longleftrightarrow> i = k" for i by (auto simp: p_def bit_exp_iff)
  have y: "bit y i \<longleftrightarrow> bit x i \<and> i \<noteq> k" for i
    using k32 by (auto simp: y_def bit_and_iff bit_not_iff p dest: bit_imp_le_length)
  have "y OR p = x"
    by (rule bit_word_eqI) (use k in \<open>auto simp: bit_or_iff y p\<close>)
  moreover have "y + p = y OR p"
    by (rule disjunctive_add_eq_or, rule bit_word_eqI) (auto simp: bit_and_iff y p)
  moreover have "p = mask k + 1"
    by (simp add: p_def mask_eq_decr_exp push_bit_eq_mult)
  ultimately have "x = (y + mask k) + 1" by (metis add.assoc)
  then have "x - 1 = y + mask k" by simp
  also have "\<dots> = y OR mask k"
    by (rule disjunctive_add_eq_or, rule bit_word_eqI) (use low in \<open>auto simp: bit_and_iff y bit_mask_iff\<close>)
  finally have m: "- x = NOT (y OR mask k)" by (simp add: minus_eq_not_minus_1)
  have b: "bit (- x) i \<longleftrightarrow> i < 32 \<and> \<not> (bit x i \<and> i \<noteq> k) \<and> \<not> i < k" for i
    by (auto simp: m bit_not_iff bit_and_iff y bit_mask_iff)
  have "x AND - x = p"
    by (rule bit_word_eqI) (use k low k32 in \<open>auto simp: bit_and_iff b p\<close>)
  then show ?thesis by (simp add: p_def)
qed

lemma nu_ctz_eq:
  assumes "bit x k" "\<And>i. i < k \<Longrightarrow> \<not> bit x i"
  shows "nu_ctz x = k"
proof -
  have k: "k < 32" using bit_imp_le_length [OF assms(1)] by simp
  have x: "x \<noteq> 0" using assms(1) by auto
  have "top_bit 32 (push_bit k 1) = Suc k"
    by (rule top_bit_eq) (use k in \<open>auto simp: bit_simps\<close>)
  then show ?thesis using x k by (simp add: nu_ctz_def builtin_clz_def lowest_set_bit [OF assms] Let_def)
qed

text \<open>\<^verbatim>\<open>nu_ctz\<close> finds the lowest set bit, and gives 32 for 0.\<close>

lemma nu_ctz_cases:
  obtains "x = 0" "nu_ctz x = 32"
  | "x \<noteq> 0" "nu_ctz x < 32" "bit x (nu_ctz x)" "\<And>i. i < nu_ctz x \<Longrightarrow> \<not> bit x i"
proof (cases "x = 0")
  case True
  then show ?thesis using that(1) by (simp add: nu_ctz_def)
next
  case False
  define k where "k = (LEAST i. bit x i)"
  obtain i where "bit x i" using word_bits_0 [OF False] by blast
  then have k: "bit x k" unfolding k_def by (rule LeastI)
  have l: "\<not> bit x i" if "i < k" for i using that unfolding k_def by (rule not_less_Least)
  have "k < 32" using bit_imp_le_length [OF k] by simp
  then show ?thesis using that(2) False k l nu_ctz_eq [OF k l] by simp
qed

lemma nu_cto_cases:
  obtains "x = - 1" "nu_cto x = 32"
  | "nu_cto x < 32" "\<not> bit x (nu_cto x)" "\<And>i. i < nu_cto x \<Longrightarrow> bit x i"
proof (cases rule: nu_ctz_cases [of "NOT x"])
  case 1
  then have "x = - 1" by (metis bit.compl_zero bit.double_compl)
  then show ?thesis using 1 that(1) by (simp add: nu_cto_def)
next
  case 2
  have "\<not> bit x (nu_cto x)" using 2(2,3) by (simp add: nu_cto_def bit_simps)
  moreover have "bit x i" if "i < nu_cto x" for i using 2(2) 2(4) [of i] that by (simp add: nu_cto_def bit_simps)
  ultimately show ?thesis using that(2) 2(2) by (simp add: nu_cto_def)
qed

section \<open>Round trips of the byte accessors\<close>

lemma join_bits:
  fixes w :: "'a::len word"
  shows "take_bit n w + push_bit n (take_bit m (drop_bit n w)) = take_bit (n + m) w"
proof -
  have "take_bit n w + push_bit n (take_bit m (drop_bit n w)) = take_bit n w OR push_bit n (take_bit m (drop_bit n w))"
    by (rule disjunctive_add_eq_or, rule bit_word_eqI) (auto simp: bit_and_iff bit_take_bit_iff bit_push_bit_iff)
  also have "\<dots> = take_bit (n + m) w"
    by (rule bit_word_eqI) (auto simp: bit_or_iff bit_take_bit_iff bit_push_bit_iff bit_drop_bit_eq)
  finally show ?thesis .
qed

lemma join_byte:
  fixes w :: "'a::len word"
  shows "take_bit 8 w + push_bit 8 (take_bit m (drop_bit 8 w)) = take_bit (8 + m) w"
    "take_bit 16 w + push_bit 16 (take_bit 8 (drop_bit 16 w)) = take_bit 24 w"
    "take_bit 24 w + push_bit 24 (take_bit 8 (drop_bit 24 w)) = take_bit 32 w"
  using join_bits [of 8 w m] join_bits [of 16 w 8] join_bits [of 24 w 8] by simp_all

lemma through_byte:
  "ucast (ucast x :: byte) = take_bit 8 (x :: 32 word)" "ucast (ucast y :: byte) = take_bit 8 (y :: 16 word)"
  by (rule bit_word_eqI; auto simp: bit_simps)+

lemma low_byte: "x AND 255 = take_bit 8 (x :: 'a::len word)"
  by (simp add: take_bit_eq_mask mask_eq_exp_minus_1)

lemmas byte_split = through_byte low_byte join_byte

lemma take_bit_full: "take_bit 32 (w :: 32 word) = w" "take_bit 16 (h :: 16 word) = h"
  by (simp_all add: take_bit_word_eq_self)

lemma join_byte_be:
  "push_bit 8 (take_bit m (drop_bit 8 w)) + take_bit 8 w = take_bit (8 + m) (w :: 'a::len word)"
  "push_bit 8 (take_bit m (drop_bit 16 w)) + take_bit 8 (drop_bit 8 w) = take_bit (8 + m) (drop_bit 8 w)"
  "push_bit 8 (take_bit m (drop_bit 24 w)) + take_bit 8 (drop_bit 16 w) = take_bit (8 + m) (drop_bit 16 w)"
  using join_bits [of 8 w m] join_bits [of 8 "drop_bit 8 w" m] join_bits [of 8 "drop_bit 16 w" m]
  by (simp_all add: add.commute)

lemma nu_le_roundtrip:
  "nu_get16_le (nu_set16_le b p h) p = h"
  "nu_get24_le (nu_set24_le b p w) p = take_bit 24 w"
  "nu_get32_le (nu_set32_le b p w) p = w"
  by (simp_all add: nu_get16_le_def nu_set16_le_def nu_get24_le_def nu_set24_le_def nu_get32_le_def nu_set32_le_def
      byte_split take_bit_full)

lemma nu_be_roundtrip:
  "nu_get16_be (nu_set16_be b p h) p = h"
  "nu_get24_be (nu_set24_be b p w) p = take_bit 24 w"
  "nu_get32_be (nu_set32_be b p w) p = w"
  by (simp_all add: nu_get16_be_def nu_set16_be_def nu_get24_be_def nu_set24_be_def nu_get32_be_def nu_set32_be_def
      through_byte low_byte join_byte_be take_bit_full)

end
