(* ===== verification/Pdma_Reg.thy ===== *)
theory Pdma_Reg
  imports Rtdef Bitutil
begin

text \<open>
  The registers of the peripheral DMA controller
  (\<^verbatim>\<open>ma35/Device/Nuvoton/MA35/Include/pdma_reg.h\<close>) and the register functions of
  \<^verbatim>\<open>ma35/StdDriver/src/nu_pdma.c\<close> that the driver \<^verbatim>\<open>drv_pdma.c\<close> calls, as functions on the
  registers of one controller. Status registers are cleared by writing ones, and setting a
  bit of \<^verbatim>\<open>CHRST\<close> clears the enable bit of the channel, as the register header documents.
\<close>

section \<open>Registers\<close>

definition PDMA_CH_MAX :: nat where "PDMA_CH_MAX = 10"
definition PDMA_CH_Msk :: "32 word" where "PDMA_CH_Msk = push_bit PDMA_CH_MAX 1 - 1"

record pdma_dsct =
  d_CTL :: "32 word"
  d_SA :: "32 word"
  d_DA :: "32 word"
  d_NEXT :: "32 word"

record pdma_regs =
  DSCT :: "pdma_dsct list"
  CHCTL :: "32 word"
  SWREQ :: "32 word"
  INTEN :: "32 word"
  INTSTS :: "32 word"
  ABTSTS :: "32 word"
  TDSTS :: "32 word"
  ALIGN :: "32 word"
  TOUTEN :: "32 word"
  TOUTIEN :: "32 word"
  TOC :: "32 word list"
  TOUTPSC :: "32 word"
  TOUTPSC1 :: "32 word"
  REQSEL :: "32 word list"

definition PDMA_OP_BASIC :: "32 word" where "PDMA_OP_BASIC = 0x1"
definition PDMA_OP_SCATTER :: "32 word" where "PDMA_OP_SCATTER = 0x2"
definition PDMA_WIDTH_8 :: "32 word" where "PDMA_WIDTH_8 = 0x0"
definition PDMA_WIDTH_16 :: "32 word" where "PDMA_WIDTH_16 = 0x1000"
definition PDMA_WIDTH_32 :: "32 word" where "PDMA_WIDTH_32 = 0x2000"
definition PDMA_SAR_INC :: "32 word" where "PDMA_SAR_INC = 0x0"
definition PDMA_SAR_FIX :: "32 word" where "PDMA_SAR_FIX = 0x300"
definition PDMA_DAR_INC :: "32 word" where "PDMA_DAR_INC = 0x0"
definition PDMA_DAR_FIX :: "32 word" where "PDMA_DAR_FIX = 0xC00"
definition PDMA_REQ_SINGLE :: "32 word" where "PDMA_REQ_SINGLE = 0x4"
definition PDMA_REQ_BURST :: "32 word" where "PDMA_REQ_BURST = 0x0"
definition PDMA_BURST_32 :: "32 word" where "PDMA_BURST_32 = 0x20"
definition PDMA_MEM :: nat where "PDMA_MEM = 0"
definition PDMA_INT_TRANS_DONE :: nat where "PDMA_INT_TRANS_DONE = 0"
definition PDMA_INT_TEMPTY :: nat where "PDMA_INT_TEMPTY = 1"
definition PDMA_INT_TIMEOUT :: nat where "PDMA_INT_TIMEOUT = 2"

definition OPMODE_Msk :: "32 word" where "OPMODE_Msk = 0x3"
definition TBINTDIS_Msk :: "32 word" where "TBINTDIS_Msk = 0x80"
definition SAINC_Msk :: "32 word" where "SAINC_Msk = 0x300"
definition DAINC_Msk :: "32 word" where "DAINC_Msk = 0xC00"
definition TXWIDTH_Msk :: "32 word" where "TXWIDTH_Msk = 0x3000"
definition TXCNT_Msk :: "32 word" where "TXCNT_Msk = 0xFFFF0000"

lemmas pdma_consts = PDMA_OP_BASIC_def PDMA_OP_SCATTER_def PDMA_WIDTH_8_def PDMA_WIDTH_16_def PDMA_WIDTH_32_def
  PDMA_SAR_INC_def PDMA_SAR_FIX_def PDMA_DAR_INC_def PDMA_DAR_FIX_def PDMA_REQ_SINGLE_def PDMA_REQ_BURST_def
  PDMA_BURST_32_def OPMODE_Msk_def TBINTDIS_Msk_def SAINC_Msk_def DAINC_Msk_def TXWIDTH_Msk_def TXCNT_Msk_def

section \<open>Register functions\<close>

definition bit_of :: "nat \<Rightarrow> 32 word" where "bit_of i = push_bit i 1"

definition upd_desc :: "nat \<Rightarrow> (pdma_dsct \<Rightarrow> pdma_dsct) \<Rightarrow> pdma_regs \<Rightarrow> pdma_regs" where
  "upd_desc ch f r = r\<lparr>DSCT := (DSCT r)[ch := f (DSCT r ! ch)]\<rparr>"

fun pdma_open_loop :: "pdma_regs \<Rightarrow> 32 word \<Rightarrow> nat list \<Rightarrow> pdma_regs" where
  "pdma_open_loop r msk [] = r"
| "pdma_open_loop r msk (i # is) =
     pdma_open_loop (if bit_of i AND msk \<noteq> 0 then upd_desc i (d_CTL_update (\<lambda>_. 0)) r else r) msk is"

definition PDMA_Open :: "pdma_regs \<Rightarrow> 32 word \<Rightarrow> pdma_regs" where
  "PDMA_Open r msk = (let r1 = pdma_open_loop r msk [0..<PDMA_CH_MAX] in r1\<lparr>CHCTL := CHCTL r1 OR msk\<rparr>)"

definition PDMA_Close :: "pdma_regs \<Rightarrow> pdma_regs" where
  "PDMA_Close r = r\<lparr>CHCTL := 0\<rparr>"

definition PDMA_SetTransferCnt :: "pdma_regs \<Rightarrow> nat \<Rightarrow> 32 word \<Rightarrow> 32 word \<Rightarrow> pdma_regs" where
  "PDMA_SetTransferCnt r ch width cnt =
     upd_desc ch (\<lambda>d. d\<lparr>d_CTL := (d_CTL d AND NOT (TXCNT_Msk OR TXWIDTH_Msk)) OR (width OR push_bit 16 (cnt - 1))\<rparr>) r"

definition PDMA_SetTransferAddr :: "pdma_regs \<Rightarrow> nat \<Rightarrow> 32 word \<Rightarrow> 32 word \<Rightarrow> 32 word \<Rightarrow> 32 word \<Rightarrow> pdma_regs" where
  "PDMA_SetTransferAddr r ch src srcctl dst dstctl =
     upd_desc ch (\<lambda>d. d\<lparr>d_SA := src, d_DA := dst,
       d_CTL := (d_CTL d AND NOT (SAINC_Msk OR DAINC_Msk)) OR (srcctl OR dstctl)\<rparr>) r"

definition PDMA_SetTransferMode :: "pdma_regs \<Rightarrow> nat \<Rightarrow> nat \<Rightarrow> bool \<Rightarrow> 32 word \<Rightarrow> pdma_regs" where
  "PDMA_SetTransferMode r ch periph scatter desc_addr =
     (if ch < PDMA_CH_MAX then
        let pos = (ch mod 4) * 8;
            msk = push_bit pos (0xFF :: 32 word);
            r1 = r\<lparr>REQSEL := (REQSEL r)[ch div 4 := (REQSEL r ! (ch div 4) AND NOT msk) OR push_bit pos (of_nat periph)]\<rparr>
        in if scatter
           then upd_desc ch (\<lambda>d. d\<lparr>d_NEXT := desc_addr, d_CTL := (d_CTL d AND NOT OPMODE_Msk) OR PDMA_OP_SCATTER\<rparr>) r1
           else upd_desc ch (\<lambda>d. d\<lparr>d_CTL := (d_CTL d AND NOT OPMODE_Msk) OR PDMA_OP_BASIC\<rparr>) r1
      else r)"

definition PDMA_SetBurstType :: "pdma_regs \<Rightarrow> nat \<Rightarrow> 32 word \<Rightarrow> 32 word \<Rightarrow> pdma_regs" where
  "PDMA_SetBurstType r ch btype bsize =
     upd_desc ch (\<lambda>d. d\<lparr>d_CTL := (d_CTL d AND NOT (0x4 OR 0x70)) OR (btype OR bsize)\<rparr>) r"

definition PDMA_EnableTimeout :: "pdma_regs \<Rightarrow> 32 word \<Rightarrow> pdma_regs" where
  "PDMA_EnableTimeout r msk = r\<lparr>TOUTEN := TOUTEN r OR msk\<rparr>"

definition PDMA_DisableTimeout :: "pdma_regs \<Rightarrow> 32 word \<Rightarrow> pdma_regs" where
  "PDMA_DisableTimeout r msk = r\<lparr>TOUTEN := TOUTEN r AND NOT msk\<rparr>"

definition PDMA_SetTimeOut :: "pdma_regs \<Rightarrow> nat \<Rightarrow> bool \<Rightarrow> 32 word \<Rightarrow> pdma_regs" where
  "PDMA_SetTimeOut r ch on cnt =
     (if ch < PDMA_CH_MAX then
        let pos = (ch mod 2) * 16;
            msk = push_bit pos (0xFFFF :: 32 word);
            r1 = r\<lparr>TOC := (TOC r)[ch div 2 := (TOC r ! (ch div 2) AND NOT msk) OR push_bit pos cnt]\<rparr>
        in if on then r1\<lparr>TOUTEN := TOUTEN r1 OR bit_of ch\<rparr> else r1\<lparr>TOUTEN := TOUTEN r1 AND NOT (bit_of ch)\<rparr>
      else r)"

definition PDMA_Trigger :: "pdma_regs \<Rightarrow> nat \<Rightarrow> pdma_regs" where
  "PDMA_Trigger r ch =
     (let pos = (ch mod 4) * 8;
          msk = push_bit pos (0xFF :: 32 word);
          req = drop_bit pos (REQSEL r ! (ch div 4) AND msk)
      in if req = of_nat PDMA_MEM then r\<lparr>SWREQ := bit_of ch\<rparr> else r)"

definition PDMA_EnableInt :: "pdma_regs \<Rightarrow> nat \<Rightarrow> nat \<Rightarrow> pdma_regs" where
  "PDMA_EnableInt r ch kind =
     (if kind = PDMA_INT_TRANS_DONE then r\<lparr>INTEN := INTEN r OR bit_of ch\<rparr>
      else if kind = PDMA_INT_TEMPTY then upd_desc ch (\<lambda>d. d\<lparr>d_CTL := d_CTL d AND NOT TBINTDIS_Msk\<rparr>) r
      else if kind = PDMA_INT_TIMEOUT then r\<lparr>TOUTIEN := TOUTIEN r OR bit_of ch\<rparr>
      else r)"

definition PDMA_DisableInt :: "pdma_regs \<Rightarrow> nat \<Rightarrow> nat \<Rightarrow> pdma_regs" where
  "PDMA_DisableInt r ch kind =
     (if kind = PDMA_INT_TRANS_DONE then r\<lparr>INTEN := INTEN r AND NOT (bit_of ch)\<rparr>
      else if kind = PDMA_INT_TEMPTY then upd_desc ch (\<lambda>d. d\<lparr>d_CTL := d_CTL d OR TBINTDIS_Msk\<rparr>) r
      else if kind = PDMA_INT_TIMEOUT then r\<lparr>TOUTIEN := TOUTIEN r AND NOT (bit_of ch)\<rparr>
      else r)"

text \<open>Writing ones to a status register clears the flags (\<^verbatim>\<open>PDMA_CLR_ABORT_FLAG\<close>, \<^verbatim>\<open>PDMA_CLR_TD_FLAG\<close>, \<^verbatim>\<open>PDMA_CLR_ALIGN_FLAG\<close>,
  and the time-out flags in \<^verbatim>\<open>INTSTS\<close>).\<close>

definition PDMA_CLR_ABORT_FLAG :: "pdma_regs \<Rightarrow> 32 word \<Rightarrow> pdma_regs" where
  "PDMA_CLR_ABORT_FLAG r msk = r\<lparr>ABTSTS := ABTSTS r AND NOT msk\<rparr>"

definition PDMA_CLR_TD_FLAG :: "pdma_regs \<Rightarrow> 32 word \<Rightarrow> pdma_regs" where
  "PDMA_CLR_TD_FLAG r msk = r\<lparr>TDSTS := TDSTS r AND NOT msk\<rparr>"

definition PDMA_CLR_ALIGN_FLAG :: "pdma_regs \<Rightarrow> 32 word \<Rightarrow> pdma_regs" where
  "PDMA_CLR_ALIGN_FLAG r msk = r\<lparr>ALIGN := ALIGN r AND NOT msk\<rparr>"

definition write_INTSTS :: "pdma_regs \<Rightarrow> 32 word \<Rightarrow> pdma_regs" where
  "write_INTSTS r v = r\<lparr>INTSTS := INTSTS r AND NOT v\<rparr>"

section \<open>What a descriptor asks the controller to do\<close>

text \<open>
  After the description of \<^verbatim>\<open>DSCT_T\<close>: a descriptor transfers \<^verbatim>\<open>TXCNT + 1\<close> elements of
  1, 2 or 4 bytes; the source and the destination address stay or advance by the width of an
  element. \<open>dsct_elems\<close> lists the (source, destination) pairs in order.
\<close>

definition dsct_count :: "pdma_dsct \<Rightarrow> nat" where
  "dsct_count d = unat (drop_bit 16 (d_CTL d)) + 1"

definition dsct_width :: "pdma_dsct \<Rightarrow> nat" where
  "dsct_width d = 2 ^ unat (take_bit 2 (drop_bit 12 (d_CTL d)))"

definition dsct_elems :: "pdma_dsct \<Rightarrow> (32 word \<times> 32 word) list" where
  "dsct_elems d = map (\<lambda>i.
     (d_SA d + (if d_CTL d AND SAINC_Msk = PDMA_SAR_FIX then 0 else of_nat (i * dsct_width d)),
      d_DA d + (if d_CTL d AND DAINC_Msk = PDMA_DAR_FIX then 0 else of_nat (i * dsct_width d)))) [0..<dsct_count d]"

end
