(* ===== verification/Pdma.thy ===== *)
theory Pdma
  imports Pdma_Reg Kheap
begin

text \<open>
  The peripheral DMA driver of the board support package
  (\<^verbatim>\<open>ma35/rtt_port/drv_pdma.c\<close>) for the two controllers of the configuration
  (\<^verbatim>\<open>BSP_USING_PDMA0\<close>, \<^verbatim>\<open>BSP_USING_PDMA1\<close>): channel allocation, callbacks, event filters,
  time-outs, descriptors, single and chained transfers and the interrupt handler.

  Channels are numbered over both controllers. A descriptor is one of the ten in the registers
  of a controller or one in memory; descriptors and pointer arrays in memory are kept by type
  and address, beside the bytes of the system heap they are allocated from. A failing assertion, a
  null pointer that is followed, a division by zero and a shift beyond the width are
  \<open>None\<close>. Client callbacks are numbers (0 is \<^verbatim>\<open>RT_NULL\<close>) and run by the parameter \<open>call\<close>. The
  effect of the reset controller on the registers of a module and the frequency of
  \<^verbatim>\<open>SYSCLK1\<close> are parts of the state.
\<close>

section \<open>State\<close>

datatype nu_pdma_memctrl_t =
    eMemCtl_SrcFix_DstFix
  | eMemCtl_SrcFix_DstInc
  | eMemCtl_SrcInc_DstFix
  | eMemCtl_SrcInc_DstInc
  | eMemCtl_Undefined

fun memctl_value :: "nu_pdma_memctrl_t \<Rightarrow> int" where
  "memctl_value eMemCtl_SrcFix_DstFix = 0"
| "memctl_value eMemCtl_SrcFix_DstInc = 1"
| "memctl_value eMemCtl_SrcInc_DstFix = 2"
| "memctl_value eMemCtl_SrcInc_DstInc = 3"
| "memctl_value eMemCtl_Undefined = -1"

datatype nu_pdma_cbtype_t = eCBType_Event | eCBType_Trigger | eCBType_Disable | eCBType_Undefined

record nu_pdma_chn_cb =
  m_eCBType :: nu_pdma_cbtype_t
  m_pfnCBHandler :: nat
  m_pvUserData :: nat
  m_u32Reserved :: "32 word"

record nu_pdma_chn =
  m_sCB_Event :: nu_pdma_chn_cb
  m_sCB_Trigger :: nu_pdma_chn_cb
  m_sCB_Disable :: nu_pdma_chn_cb
  m_ppsSgtbl :: int
  m_u32WantedSGTblNum :: nat
  m_u32EventFilter :: "32 word"
  m_u32IdleTimeout_us :: "32 word"
  m_u32Peripheral :: nat
  m_eMemCtl :: nu_pdma_memctrl_t

record pdma =
  inited :: bool
  chn_mask :: "32 word list"
  chn :: "nu_pdma_chn list"
  regs :: "pdma_regs list"
  ip_reset :: "pdma_regs \<Rightarrow> pdma_regs"
  sysclk1 :: nat
  heap :: rt_small_mem
  sgtbl :: "int \<Rightarrow> int"
  descs :: "int \<Rightarrow> pdma_dsct"
  flushed :: "(32 word \<times> 32 word) list"

type_synonym callback = "nat \<Rightarrow> nat \<Rightarrow> 32 word \<Rightarrow> pdma \<Rightarrow> pdma"

datatype desc_ref = Reg nat nat | Mem int

definition PDMA_CNT :: nat where "PDMA_CNT = 2"
definition NU_PDMA_CH_MAX :: nat where "NU_PDMA_CH_MAX = PDMA_CNT * PDMA_CH_MAX"
definition NU_PDMA_MAX_TXCNT :: nat where "NU_PDMA_MAX_TXCNT = 65536"
definition NU_PDMA_EVENT_ABORT :: "32 word" where "NU_PDMA_EVENT_ABORT = 1"
definition NU_PDMA_EVENT_TRANSFER_DONE :: "32 word" where "NU_PDMA_EVENT_TRANSFER_DONE = 2"
definition NU_PDMA_EVENT_ALIGNMENT :: "32 word" where "NU_PDMA_EVENT_ALIGNMENT = 4"
definition NU_PDMA_EVENT_TIMEOUT :: "32 word" where "NU_PDMA_EVENT_TIMEOUT = 8"

definition zero_cb :: nu_pdma_chn_cb where
  "zero_cb = \<lparr>m_eCBType = eCBType_Event, m_pfnCBHandler = 0, m_pvUserData = 0, m_u32Reserved = 0\<rparr>"

definition zero_chn :: nu_pdma_chn where
  "zero_chn = \<lparr>m_sCB_Event = zero_cb, m_sCB_Trigger = zero_cb, m_sCB_Disable = zero_cb, m_ppsSgtbl = 0,
     m_u32WantedSGTblNum = 0, m_u32EventFilter = 0, m_u32IdleTimeout_us = 0, m_u32Peripheral = 0,
     m_eMemCtl = eMemCtl_SrcFix_DstFix\<rparr>"

definition zero_dsct :: pdma_dsct where
  "zero_dsct = \<lparr>d_CTL = 0, d_SA = 0, d_DA = 0, d_NEXT = 0\<rparr>"

text \<open>An \<^verbatim>\<open>int\<close> channel number read as \<^verbatim>\<open>uint32_t\<close>, its controller and its place there.\<close>

definition chan :: "int \<Rightarrow> nat" where "chan ch = nat (u32 ch)"
definition NU_PDMA_GET_MOD_IDX :: "nat \<Rightarrow> nat" where "NU_PDMA_GET_MOD_IDX c = c div PDMA_CH_MAX"
definition NU_PDMA_GET_MOD_CHIDX :: "nat \<Rightarrow> nat" where "NU_PDMA_GET_MOD_CHIDX c = c mod PDMA_CH_MAX"

definition upd_regs :: "nat \<Rightarrow> (pdma_regs \<Rightarrow> pdma_regs) \<Rightarrow> pdma \<Rightarrow> pdma" where
  "upd_regs m f st = st\<lparr>regs := (regs st)[m := f (regs st ! m)]\<rparr>"

definition upd_chn :: "nat \<Rightarrow> (nu_pdma_chn \<Rightarrow> nu_pdma_chn) \<Rightarrow> pdma \<Rightarrow> pdma" where
  "upd_chn c f st = st\<lparr>chn := (chn st)[c := f (chn st ! c)]\<rparr>"

definition desc_get :: "pdma \<Rightarrow> desc_ref \<Rightarrow> pdma_dsct" where
  "desc_get st d = (case d of Reg m i \<Rightarrow> DSCT (regs st ! m) ! i | Mem a \<Rightarrow> descs st a)"

definition desc_put :: "pdma \<Rightarrow> desc_ref \<Rightarrow> pdma_dsct \<Rightarrow> pdma" where
  "desc_put st d v = (case d of Reg m i \<Rightarrow> upd_regs m (upd_desc i (\<lambda>_. v)) st
                              | Mem a \<Rightarrow> st\<lparr>descs := (descs st)(a := v)\<rparr>)"

definition desc_addr :: "desc_ref \<Rightarrow> 32 word" where
  "desc_addr d = (case d of Reg m i \<Rightarrow> 0x40080000 + of_nat (m * 0x10000 + i * 16) | Mem a \<Rightarrow> word_of_int a)"

definition next_ref :: "32 word \<Rightarrow> desc_ref option" where
  "next_ref w = (if w = 0 then None else Some (Mem (uint w)))"

definition ptr_ref :: "int \<Rightarrow> desc_ref option" where
  "ptr_ref p = (if p = 0 then None else Some (Mem p))"

section \<open>Channels\<close>

definition g_nu_pdma_peripheral_ctl_pool :: "(nat \<times> nu_pdma_memctrl_t) list" where
  "g_nu_pdma_peripheral_ctl_pool =
     (PDMA_MEM, eMemCtl_SrcInc_DstInc)
     # map (\<lambda>p. (p, eMemCtl_SrcInc_DstFix))
         [4, 6, 8, 10, 12, 14, 16, 18, 20, 22, 24, 26, 28, 30, 32, 34, 36,
          54, 56, 60, 62, 64, 66, 70, 72, 74, 76, 78, 80, 86, 88]
     @ map (\<lambda>p. (p, eMemCtl_SrcFix_DstInc))
         [5, 7, 9, 11, 13, 15, 17, 19, 21, 23, 25, 27, 29, 31, 33, 35, 37,
          55, 57, 61, 63, 65, 67, 71, 73, 75, 77, 79, 81, 87, 89]"

fun peripheral_search :: "(nat \<times> nu_pdma_memctrl_t) list \<Rightarrow> nat \<Rightarrow> nat \<Rightarrow> int" where
  "peripheral_search [] idx periph = -1"
| "peripheral_search (p # ps) idx periph = (if fst p = periph then int idx else peripheral_search ps (Suc idx) periph)"

definition nu_pdma_peripheral_set :: "int \<Rightarrow> int" where
  "nu_pdma_peripheral_set periph = peripheral_search g_nu_pdma_peripheral_ctl_pool 0 (nat (u32 periph))"

definition nu_pdma_check_is_nonallocated :: "pdma \<Rightarrow> int \<Rightarrow> bool option" where
  "nu_pdma_check_is_nonallocated st ch = do {
     let mod_idx = NU_PDMA_GET_MOD_IDX (chan ch);
     RT_ASSERT (mod_idx < PDMA_CNT);
     Some (chn_mask st ! mod_idx AND bit_of (NU_PDMA_GET_MOD_CHIDX (chan ch)) = 0)
   }"

definition nu_pdma_periph_ctrl_fill :: "pdma \<Rightarrow> nat \<Rightarrow> nat \<Rightarrow> pdma" where
  "nu_pdma_periph_ctrl_fill st c idx = upd_chn c (\<lambda>x. x\<lparr>m_u32Peripheral := fst (g_nu_pdma_peripheral_ctl_pool ! idx),
     m_eMemCtl := snd (g_nu_pdma_peripheral_ctl_pool ! idx)\<rparr>) st"

fun pdma_init_loop :: "pdma \<Rightarrow> nat list \<Rightarrow> pdma" where
  "pdma_init_loop st [] = st"
| "pdma_init_loop st (i # is) =
     pdma_init_loop
       (upd_regs i (\<lambda>r. PDMA_Close (PDMA_Open (ip_reset st r) PDMA_CH_Msk))
         (st\<lparr>chn_mask := (chn_mask st)[i := NOT PDMA_CH_Msk]\<rparr>)) is"

definition nu_pdma_init :: "pdma \<Rightarrow> pdma" where
  "nu_pdma_init st =
     (if inited st then st
      else (pdma_init_loop (st\<lparr>chn := replicate NU_PDMA_CH_MAX zero_chn\<rparr>) [0..<PDMA_CNT])\<lparr>inited := True\<rparr>)"

definition nu_pdma_channel_enable :: "pdma \<Rightarrow> nat \<Rightarrow> pdma" where
  "nu_pdma_channel_enable st c =
     upd_regs (NU_PDMA_GET_MOD_IDX c) (\<lambda>r.
       let i = NU_PDMA_GET_MOD_CHIDX c;
           r1 = upd_desc i (d_CTL_update (\<lambda>_. 0)) r
       in r1\<lparr>CHCTL := CHCTL r1 OR bit_of i\<rparr>) st"

definition nu_pdma_channel_disable :: "pdma \<Rightarrow> nat \<Rightarrow> pdma" where
  "nu_pdma_channel_disable st c =
     upd_regs (NU_PDMA_GET_MOD_IDX c) (\<lambda>r. r\<lparr>CHCTL := CHCTL r AND NOT (bit_of (NU_PDMA_GET_MOD_CHIDX c))\<rparr>) st"

text \<open>The reset clears the enable bit of the channel, which ends the loop that waits for it.\<close>

definition nu_pdma_channel_reset :: "pdma \<Rightarrow> nat \<Rightarrow> pdma" where
  "nu_pdma_channel_reset st c =
     upd_regs (NU_PDMA_GET_MOD_IDX c) (\<lambda>r. r\<lparr>CHCTL := CHCTL r AND NOT (bit_of (NU_PDMA_GET_MOD_CHIDX c))\<rparr>) st"

definition set_prescaler :: "pdma_regs \<Rightarrow> nat \<Rightarrow> nat \<Rightarrow> pdma_regs option" where
  "set_prescaler r i divider = do {
     RT_ASSERT (4 * i < 32);
     Some (if i < 8
       then r\<lparr>TOUTPSC := (TOUTPSC r AND NOT (push_bit (4 * i) 7)) OR push_bit (4 * i) (of_nat divider)\<rparr>
       else r\<lparr>TOUTPSC1 := (TOUTPSC1 r AND NOT (push_bit (4 * i) 7)) OR push_bit (4 * i) (of_nat divider)\<rparr>)
   }"

definition nu_pdma_timeout_set :: "pdma \<Rightarrow> int \<Rightarrow> int \<Rightarrow> (int \<times> pdma) option" where
  "nu_pdma_timeout_set st ch us = do {
     free \<leftarrow> nu_pdma_check_is_nonallocated st ch;
     (if free then Some (- RT_EINVAL, st)
      else do {
        let c = chan ch;
        let m = NU_PDMA_GET_MOD_IDX c;
        let i = NU_PDMA_GET_MOD_CHIDX c;
        let st1 = upd_chn c (\<lambda>x. x\<lparr>m_u32IdleTimeout_us := word_of_int us\<rparr>) st;
        (if us \<noteq> 0 then do {
           RT_ASSERT (sysclk1 st div 256 \<noteq> 0);
           let toclk_max = 1000000 div (sysclk1 st div 256);
           RT_ASSERT (toclk_max \<noteq> 0);
           let ticks = nat (u32 us) div toclk_max;
           let divider0 = ticks div 65536;
           let cnt0 = ticks mod 65536;
           let r1 = PDMA_EnableInt (PDMA_DisableTimeout (regs st1 ! m) (bit_of i)) i PDMA_INT_TIMEOUT;
           let (divider, cnt) = (if 7 < divider0 then (7, 65535) else (divider0, cnt0));
           r2 \<leftarrow> set_prescaler r1 i divider;
           let r3 = PDMA_SetTimeOut r2 i True (of_nat cnt);
           Some (- RT_EOK, upd_regs m (\<lambda>_. r3) st1)
         }
         else Some (- RT_EINVAL,
           upd_regs m (\<lambda>r. PDMA_DisableTimeout (PDMA_DisableInt r i PDMA_INT_TIMEOUT) (bit_of i)) st1))
      })
   }"

definition nu_pdma_channel_terminate :: "pdma \<Rightarrow> int \<Rightarrow> pdma option" where
  "nu_pdma_channel_terminate st ch = do {
     free \<leftarrow> nu_pdma_check_is_nonallocated st ch;
     (if free then Some st
      else do {
        (_, st1) \<leftarrow> nu_pdma_timeout_set st ch 0;
        Some (nu_pdma_channel_enable (nu_pdma_channel_reset st1 (chan ch)) (chan ch))
      })
   }"

fun channel_search :: "pdma \<Rightarrow> nat \<Rightarrow> nat list \<Rightarrow> (int \<times> pdma) option" where
  "channel_search st idx [] = Some (- RT_ERROR, st)"
| "channel_search st idx (j # js) =
     (let i = nu_cto (chn_mask st ! j)
      in if i < PDMA_CH_MAX then do {
           let st1 = st\<lparr>chn_mask := (chn_mask st)[j := chn_mask st ! j OR bit_of i]\<rparr>;
           let c = i + j * PDMA_CH_MAX;
           let st2 = nu_pdma_periph_ctrl_fill (upd_chn c (\<lambda>_. zero_chn) st1) c idx;
           st3 \<leftarrow> nu_pdma_channel_terminate st2 (int c);
           Some (int c, st3)
         }
         else channel_search st idx js)"

definition nu_pdma_channel_allocate :: "pdma \<Rightarrow> int \<Rightarrow> (int \<times> pdma) option" where
  "nu_pdma_channel_allocate st periph = do {
     let st1 = nu_pdma_init st;
     let idx = nu_pdma_peripheral_set periph;
     (if idx < 0 then Some (- RT_ERROR, st1)
      else channel_search st1 (nat idx) [0..<PDMA_CNT])
   }"

definition nu_pdma_channel_free :: "pdma \<Rightarrow> int \<Rightarrow> (int \<times> pdma) option" where
  "nu_pdma_channel_free st ch =
     (if \<not> inited st then Some (- RT_EINVAL, st)
      else do {
        free \<leftarrow> nu_pdma_check_is_nonallocated st ch;
        (if free then Some (- RT_EINVAL, st)
         else if chan ch < NU_PDMA_CH_MAX \<and> 0 \<le> ch then
           (let m = NU_PDMA_GET_MOD_IDX (chan ch);
                i = NU_PDMA_GET_MOD_CHIDX (chan ch);
                st1 = st\<lparr>chn_mask := (chn_mask st)[m := chn_mask st ! m AND NOT (bit_of i)]\<rparr>
            in Some (- RT_EOK, nu_pdma_channel_disable st1 (chan ch)))
         else Some (- RT_EINVAL, st))
      })"

definition nu_pdma_filtering_set :: "pdma \<Rightarrow> int \<Rightarrow> 32 word \<Rightarrow> (int \<times> pdma) option" where
  "nu_pdma_filtering_set st ch f = do {
     free \<leftarrow> nu_pdma_check_is_nonallocated st ch;
     Some (if free then (- RT_EINVAL, st) else (- RT_EOK, upd_chn (chan ch) (\<lambda>x. x\<lparr>m_u32EventFilter := f\<rparr>) st))
   }"

definition nu_pdma_filtering_get :: "pdma \<Rightarrow> int \<Rightarrow> 32 word option" where
  "nu_pdma_filtering_get st ch = do {
     free \<leftarrow> nu_pdma_check_is_nonallocated st ch;
     Some (if free then 0 else m_u32EventFilter (chn st ! chan ch))
   }"

definition store_cb :: "nu_pdma_chn_cb \<Rightarrow> nu_pdma_chn_cb \<Rightarrow> nu_pdma_chn_cb" where
  "store_cb cb old = old\<lparr>m_pfnCBHandler := m_pfnCBHandler cb, m_pvUserData := m_pvUserData cb\<rparr>"

definition nu_pdma_callback_register :: "pdma \<Rightarrow> int \<Rightarrow> nu_pdma_chn_cb \<Rightarrow> (int \<times> pdma) option" where
  "nu_pdma_callback_register st ch cb = do {
     free \<leftarrow> nu_pdma_check_is_nonallocated st ch;
     Some (if free then (- RT_EINVAL, st)
       else case m_eCBType cb of
         eCBType_Event \<Rightarrow> (- RT_EOK, upd_chn (chan ch) (m_sCB_Event_update (store_cb cb)) st)
       | eCBType_Trigger \<Rightarrow> (- RT_EOK, upd_chn (chan ch) (m_sCB_Trigger_update (store_cb cb)) st)
       | eCBType_Disable \<Rightarrow> (- RT_EOK, upd_chn (chan ch) (m_sCB_Disable_update (store_cb cb)) st)
       | eCBType_Undefined \<Rightarrow> (- RT_EINVAL, st))
   }"

text \<open>Returns the handler that was installed, the callback record of the caller (which receives the old
  callback) and the state.\<close>

definition nu_pdma_callback_hijack ::
  "pdma \<Rightarrow> int \<Rightarrow> nu_pdma_cbtype_t \<Rightarrow> nu_pdma_chn_cb \<Rightarrow> (nat \<times> nu_pdma_chn_cb \<times> pdma) option" where
  "nu_pdma_callback_hijack st ch kind cb = do {
     free \<leftarrow> nu_pdma_check_is_nonallocated st ch;
     Some (if free then (0, cb, st)
       else let x = chn st ! chan ch in case kind of
         eCBType_Event \<Rightarrow> (m_pfnCBHandler (m_sCB_Event x), store_cb (m_sCB_Event x) cb,
           upd_chn (chan ch) (m_sCB_Event_update (store_cb cb)) st)
       | eCBType_Trigger \<Rightarrow> (m_pfnCBHandler (m_sCB_Trigger x), store_cb (m_sCB_Trigger x) cb,
           upd_chn (chan ch) (m_sCB_Trigger_update (store_cb cb)) st)
       | eCBType_Disable \<Rightarrow> (m_pfnCBHandler (m_sCB_Disable x), store_cb (m_sCB_Disable x) cb,
           upd_chn (chan ch) (m_sCB_Disable_update (store_cb cb)) st)
       | eCBType_Undefined \<Rightarrow> (0, cb, st))
   }"

definition nu_pdma_non_transfer_count_get :: "pdma \<Rightarrow> int \<Rightarrow> nat" where
  "nu_pdma_non_transfer_count_get st ch =
     (let d = DSCT (regs st ! NU_PDMA_GET_MOD_IDX (chan ch)) ! NU_PDMA_GET_MOD_CHIDX (chan ch)
      in unat (drop_bit 16 (d_CTL d AND TXCNT_Msk)) + 1)"

definition nu_pdma_transferred_byte_get :: "pdma \<Rightarrow> int \<Rightarrow> int \<Rightarrow> int option" where
  "nu_pdma_transferred_byte_get st ch trigger_len = do {
     free \<leftarrow> nu_pdma_check_is_nonallocated st ch;
     (if free then Some (-1)
      else do {
        let d = DSCT (regs st ! NU_PDMA_GET_MOD_IDX (chan ch)) ! NU_PDMA_GET_MOD_CHIDX (chan ch);
        (if d_CTL d AND OPMODE_Msk \<noteq> PDMA_OP_SCATTER then do {
           let w = d_CTL d AND TXWIDTH_Msk;
           let bytes = (if w = PDMA_WIDTH_8 then 1 else if w = PDMA_WIDTH_16 then 2 else if w = PDMA_WIDTH_32 then 4 else 0);
           Some (trigger_len - int (nu_pdma_non_transfer_count_get st ch) * bytes)
         }
         else Some 0)
      })
   }"

definition nu_pdma_get_channel_desc :: "pdma \<Rightarrow> int \<Rightarrow> desc_ref option option" where
  "nu_pdma_get_channel_desc st ch = do {
     free \<leftarrow> nu_pdma_check_is_nonallocated st ch;
     Some (if free then None else Some (Reg (NU_PDMA_GET_MOD_IDX (chan ch)) (NU_PDMA_GET_MOD_CHIDX (chan ch))))
   }"

definition nu_pdma_channel_memctrl_get :: "pdma \<Rightarrow> int \<Rightarrow> nu_pdma_memctrl_t option" where
  "nu_pdma_channel_memctrl_get st ch = do {
     free \<leftarrow> nu_pdma_check_is_nonallocated st ch;
     Some (if free then eMemCtl_Undefined else m_eMemCtl (chn st ! chan ch))
   }"

definition nu_pdma_channel_memctrl_set :: "pdma \<Rightarrow> int \<Rightarrow> nu_pdma_memctrl_t \<Rightarrow> (int \<times> pdma) option" where
  "nu_pdma_channel_memctrl_set st ch ctl = do {
     free \<leftarrow> nu_pdma_check_is_nonallocated st ch;
     Some (if free then (- RT_EINVAL, st)
       else if memctl_value ctl < memctl_value eMemCtl_SrcFix_DstFix \<or> memctl_value eMemCtl_SrcInc_DstInc < memctl_value ctl
       then (- RT_EINVAL, st)
       else if m_u32Peripheral (chn st ! chan ch) = PDMA_MEM \<and> (ctl = eMemCtl_SrcFix_DstInc \<or> ctl = eMemCtl_SrcFix_DstFix)
       then (- RT_EINVAL, st)
       else (- RT_EOK, upd_chn (chan ch) (\<lambda>x. x\<lparr>m_eMemCtl := ctl\<rparr>) st))
   }"

end
