(* ===== verification/Pdma_Transfer.thy ===== *)
theory Pdma_Transfer
  imports Pdma
begin

text \<open>
  Transfers of the peripheral DMA driver: filling descriptors, tables of descriptors for
  requests larger than one descriptor, starting the controller, and the interrupt handler. Cache
  maintenance is the list \<open>flushed\<close> of the ranges written back. The flag that limits a warning
  whose printing is commented out is not part of the state.
\<close>

section \<open>Descriptors\<close>

definition nu_pdma_channel_memctrl_fill :: "nu_pdma_memctrl_t \<Rightarrow> 32 word \<Rightarrow> 32 word \<Rightarrow> 32 word \<times> 32 word" where
  "nu_pdma_channel_memctrl_fill ctl src dst = (case ctl of
       eMemCtl_SrcFix_DstFix \<Rightarrow> (PDMA_SAR_FIX, PDMA_DAR_FIX)
     | eMemCtl_SrcFix_DstInc \<Rightarrow> (PDMA_SAR_FIX, PDMA_DAR_INC)
     | eMemCtl_SrcInc_DstFix \<Rightarrow> (PDMA_SAR_INC, PDMA_DAR_FIX)
     | eMemCtl_SrcInc_DstInc \<Rightarrow> (PDMA_SAR_INC, PDMA_DAR_INC)
     | eMemCtl_Undefined \<Rightarrow> (src, dst))"

definition filled_dsct ::
  "nu_pdma_chn \<Rightarrow> nat \<Rightarrow> 32 word \<Rightarrow> 32 word \<Rightarrow> int \<Rightarrow> desc_ref option \<Rightarrow> bool \<Rightarrow> pdma_dsct" where
  "filled_dsct x width src dst cnt nxt silent =
     (let (srcctl, dstctl) = nu_pdma_channel_memctrl_fill (m_eMemCtl x) 0 0;
          ctl0 = push_bit 16 (word_of_int (cnt - 1))
                 OR (if width = 8 then PDMA_WIDTH_8 else if width = 16 then PDMA_WIDTH_16 else PDMA_WIDTH_32)
                 OR srcctl OR dstctl OR PDMA_OP_BASIC;
          ctl1 = (if m_u32Peripheral x = PDMA_MEM then ctl0 OR (PDMA_REQ_BURST OR PDMA_BURST_32)
                  else ctl0 OR PDMA_REQ_SINGLE);
          (ctl2, next2) = (case nxt of None \<Rightarrow> (ctl1, 0)
                           | Some n \<Rightarrow> ((ctl1 AND NOT OPMODE_Msk) OR PDMA_OP_SCATTER, desc_addr n));
          ctl3 = (if silent then ctl2 OR TBINTDIS_Msk else ctl2)
      in \<lparr>d_CTL = ctl3, d_SA = src, d_DA = dst, d_NEXT = next2\<rparr>)"

definition nu_pdma_desc_setup ::
  "pdma \<Rightarrow> int \<Rightarrow> desc_ref option \<Rightarrow> nat \<Rightarrow> 32 word \<Rightarrow> 32 word \<Rightarrow> int \<Rightarrow> desc_ref option \<Rightarrow> bool \<Rightarrow> (int \<times> pdma) option" where
  "nu_pdma_desc_setup st ch dma_desc width src dst cnt nxt silent = (case dma_desc of
     None \<Rightarrow> Some (- RT_EINVAL, st)
   | Some d \<Rightarrow> do {
       free \<leftarrow> nu_pdma_check_is_nonallocated st ch;
       Some (if free then (- RT_EINVAL, st)
         else if \<not> (width = 8 \<or> width = 16 \<or> width = 32) then (- RT_EINVAL, st)
         else if unat src mod (width div 8) \<noteq> 0 \<or> unat dst mod (width div 8) \<noteq> 0 then (- RT_EINVAL, st)
         else if NU_PDMA_MAX_TXCNT < nat (u32 cnt) then (- RT_EINVAL, st)
         else (- RT_EOK, desc_put st d (filled_dsct (chn st ! chan ch) width src dst cnt nxt silent)))
     })"

section \<open>Tables of descriptors\<close>

fun sgtbls_allocate_loop :: "pdma \<Rightarrow> int \<Rightarrow> nat list \<Rightarrow> pdma option" where
  "sgtbls_allocate_loop st base [] = Some st"
| "sgtbls_allocate_loop st base (i # is) = do {
     (p, h) \<leftarrow> rt_malloc_align (heap st) 64 64;
     RT_ASSERT (p \<noteq> 0);
     sgtbls_allocate_loop (st\<lparr>heap := h, sgtbl := (sgtbl st)(base + 4 * int i := p), descs := (descs st)(p := zero_dsct)\<rparr>)
       base is
   }"

definition nu_pdma_sgtbls_allocate :: "pdma \<Rightarrow> int \<Rightarrow> nat \<Rightarrow> (int \<times> pdma) option" where
  "nu_pdma_sgtbls_allocate st base num = do {
     RT_ASSERT (base \<noteq> 0);
     RT_ASSERT (0 < num);
     st1 \<leftarrow> sgtbls_allocate_loop st base [0..<num];
     Some (RT_EOK, st1)
   }"

fun sgtbls_free_loop :: "pdma \<Rightarrow> int \<Rightarrow> nat list \<Rightarrow> pdma option" where
  "sgtbls_free_loop st base [] = Some st"
| "sgtbls_free_loop st base (i # is) = do {
     h \<leftarrow> rt_free_align (heap st) (sgtbl st (base + 4 * int i));
     sgtbls_free_loop (st\<lparr>heap := h\<rparr>) base is
   }"

definition nu_pdma_sgtbls_free :: "pdma \<Rightarrow> int \<Rightarrow> nat \<Rightarrow> pdma option" where
  "nu_pdma_sgtbls_free st base num = do {
     RT_ASSERT (base \<noteq> 0);
     RT_ASSERT (0 < num);
     sgtbls_free_loop st base [0..<num]
   }"

definition nu_pdma_free_sgtbls :: "pdma \<Rightarrow> nat \<Rightarrow> pdma option" where
  "nu_pdma_free_sgtbls st c =
     (let x = chn st ! c
      in if m_ppsSgtbl x \<noteq> 0 then do {
           st1 \<leftarrow> nu_pdma_sgtbls_free st (m_ppsSgtbl x) (m_u32WantedSGTblNum x);
           h \<leftarrow> rt_free_align (heap st1) (m_ppsSgtbl x);
           Some (upd_chn c (\<lambda>y. y\<lparr>m_ppsSgtbl := 0, m_u32WantedSGTblNum := 0\<rparr>) (st1\<lparr>heap := h\<rparr>))
         }
         else Some st)"

section \<open>Starting a transfer\<close>

text \<open>The loop over the descriptors of a table before the controller reads them. A table that runs into a
  cycle without its head is walked forever: no result.\<close>

definition flush_ranges :: "pdma_dsct \<Rightarrow> desc_ref \<Rightarrow> (32 word \<times> 32 word) list" where
  "flush_ranges d r =
     (let cnt = drop_bit 16 (d_CTL d AND TXCNT_Msk) + 1;
          width = push_bit (unat (drop_bit 12 (d_CTL d AND TXWIDTH_Msk))) 1;
          len = cnt * width
      in (if d_CTL d AND SAINC_Msk = PDMA_SAR_INC then [(d_SA d, len)] else [])
         @ (if d_CTL d AND DAINC_Msk = PDMA_DAR_INC then [(d_DA d, len)] else [])
         @ [(desc_addr r, 16)])"

partial_function (option) flush_loop ::
  "pdma \<Rightarrow> desc_ref \<Rightarrow> desc_ref \<Rightarrow> (32 word \<times> 32 word) list \<Rightarrow> (32 word \<times> 32 word) list option" where
  "flush_loop st head r acc =
     (let d = desc_get st r;
          acc1 = acc @ flush_ranges d r
      in case next_ref (d_NEXT d) of
           None \<Rightarrow> Some acc1
         | Some n \<Rightarrow> if n = head then Some acc1 else flush_loop st head n acc1)"

text \<open>A transfer between memories is triggered by software, one with a peripheral by the callback of the client.\<close>

definition nu_pdma_fire :: "callback \<Rightarrow> pdma \<Rightarrow> nat \<Rightarrow> nat \<Rightarrow> pdma" where
  "nu_pdma_fire call st c periph =
     (let cb = m_sCB_Trigger (chn st ! c)
      in if periph = PDMA_MEM
         then upd_regs (NU_PDMA_GET_MOD_IDX c) (\<lambda>r. PDMA_Trigger r (NU_PDMA_GET_MOD_CHIDX c)) st
         else if m_pfnCBHandler cb \<noteq> 0 then call (m_pfnCBHandler cb) (m_pvUserData cb) (m_u32Reserved cb) st
         else st)"

definition nu_pdma_start :: "callback \<Rightarrow> pdma \<Rightarrow> int \<Rightarrow> nat \<Rightarrow> desc_ref \<Rightarrow> 32 word \<Rightarrow> pdma option" where
  "nu_pdma_start call st ch periph head idle = do {
     let c = chan ch;
     let m = NU_PDMA_GET_MOD_IDX c;
     let i = NU_PDMA_GET_MOD_CHIDX c;
     ranges \<leftarrow> flush_loop st head head [];
     let st1 = st\<lparr>flushed := flushed st @ ranges\<rparr>;
     _ \<leftarrow> nu_pdma_get_channel_desc st1 ch;
     let st2 = upd_regs m (\<lambda>r. PDMA_DisableTimeout r (bit_of i)) st1;
     let st3 = upd_regs m (\<lambda>r. PDMA_SetTransferMode r i periph (d_NEXT (desc_get st2 head) \<noteq> 0) (desc_addr head)) st2;
     let st4 = upd_regs m (\<lambda>r. PDMA_EnableInt r i PDMA_INT_TRANS_DONE) st3;
     (_, st5) \<leftarrow> nu_pdma_timeout_set st4 ch (sint idle);
     Some (nu_pdma_fire call st5 c periph)
   }"

section \<open>Chained transfers\<close>

definition memctl_bit :: "nu_pdma_memctrl_t \<Rightarrow> int \<Rightarrow> bool" where
  "memctl_bit ctl b \<longleftrightarrow> memctl_value ctl AND b \<noteq> 0"

text \<open>Gives the return code of the last \<^verbatim>\<open>nu_pdma_desc_setup\<close>; a code other than \<^verbatim>\<open>RT_EOK\<close> ends the loop.\<close>

fun chain_fill ::
  "pdma \<Rightarrow> int \<Rightarrow> nu_pdma_memctrl_t \<Rightarrow> nat \<Rightarrow> 32 word \<Rightarrow> 32 word \<Rightarrow> nat \<Rightarrow> 32 word \<Rightarrow> nat \<Rightarrow> nat list \<Rightarrow> (int \<times> pdma) option" where
  "chain_fill st ch ctl width src dst cnt off wanted [] = Some (RT_EOK, st)"
| "chain_fill st ch ctl width src dst cnt off wanted (i # is) = do {
     let base = m_ppsSgtbl (chn st ! chan ch);
     RT_ASSERT (base \<noteq> 0);
     let txcnt = (if NU_PDMA_MAX_TXCNT < cnt then NU_PDMA_MAX_TXCNT else cnt);
     let final = (i + 1 = wanted);
     (ret, st1) \<leftarrow> nu_pdma_desc_setup st ch (ptr_ref (sgtbl st (base + 4 * int i))) width
        (if memctl_bit ctl 2 then src + off else src) (if memctl_bit ctl 1 then dst + off else dst)
        (int txcnt) (if final then None else ptr_ref (sgtbl st (base + 4 * int (i + 1)))) (\<not> final);
     (if ret \<noteq> RT_EOK then Some (ret, st1)
      else chain_fill st1 ch ctl width src dst (cnt - txcnt) (off + of_nat (txcnt * width div 8)) wanted is)
   }"

definition chain_tables :: "pdma \<Rightarrow> nat \<Rightarrow> nat \<Rightarrow> (int \<times> pdma) option" where
  "chain_tables st c n =
     (if m_u32WantedSGTblNum (chn st ! c) \<noteq> n then do {
        st1 \<leftarrow> (if 0 < m_u32WantedSGTblNum (chn st ! c) then nu_pdma_free_sgtbls st c else Some st);
        let st2 = upd_chn c (\<lambda>y. y\<lparr>m_u32WantedSGTblNum := n\<rparr>) st1;
        (base, h) \<leftarrow> rt_malloc_align (heap st2) (4 * int n) 4;
        let st3 = upd_chn c (\<lambda>y. y\<lparr>m_ppsSgtbl := base\<rparr>) (st2\<lparr>heap := h\<rparr>);
        (if base = 0 then Some (RT_ERROR, st3) else nu_pdma_sgtbls_allocate st3 base n)
      }
      else Some (RT_EOK, st))"

definition nu_pdma_transfer_chain ::
  "callback \<Rightarrow> pdma \<Rightarrow> int \<Rightarrow> nat \<Rightarrow> 32 word \<Rightarrow> 32 word \<Rightarrow> nat \<Rightarrow> 32 word \<Rightarrow> (int \<times> pdma) option" where
  "nu_pdma_transfer_chain call st ch width src dst cnt idle = do {
     ctl \<leftarrow> nu_pdma_channel_memctrl_get st ch;
     let n = cnt div NU_PDMA_MAX_TXCNT + 1;
     (ret, st1) \<leftarrow> chain_tables st (chan ch) n;
     (if ret \<noteq> RT_EOK then do {
        st2 \<leftarrow> nu_pdma_free_sgtbls st1 (chan ch);
        Some (- ret, st2)
      }
      else do {
        (ret2, st2) \<leftarrow> chain_fill st1 ch ctl width src dst cnt 0 n [0..<n];
        (if ret2 \<noteq> RT_EOK then do {
           st3 \<leftarrow> nu_pdma_free_sgtbls st2 (chan ch);
           Some (- ret2, st3)
         }
         else do {
           let x = chn st2 ! chan ch;
           RT_ASSERT (m_ppsSgtbl x \<noteq> 0);
           st3 \<leftarrow> nu_pdma_start call st2 ch (m_u32Peripheral x) (Mem (sgtbl st2 (m_ppsSgtbl x))) idle;
           Some (RT_EOK, st3)
         })
      })
   }"

definition nu_pdma_transfer ::
  "callback \<Rightarrow> pdma \<Rightarrow> int \<Rightarrow> nat \<Rightarrow> 32 word \<Rightarrow> 32 word \<Rightarrow> nat \<Rightarrow> 32 word \<Rightarrow> (int \<times> pdma) option" where
  "nu_pdma_transfer call st ch width src dst cnt idle = do {
     free \<leftarrow> nu_pdma_check_is_nonallocated st ch;
     (if free then Some (- RT_EINVAL, st)
      else if cnt = 0 then Some (- RT_EINVAL, st)
      else if NU_PDMA_MAX_TXCNT < cnt then nu_pdma_transfer_chain call st ch width src dst cnt idle
      else do {
        let head = Reg (NU_PDMA_GET_MOD_IDX (chan ch)) (NU_PDMA_GET_MOD_CHIDX (chan ch));
        (ret, st1) \<leftarrow> nu_pdma_desc_setup st ch (Some head) width src dst (int cnt) None False;
        (if ret \<noteq> RT_EOK then Some (- ret, st1)
         else do {
           st2 \<leftarrow> nu_pdma_start call st1 ch (m_u32Peripheral (chn st1 ! chan ch)) head idle;
           Some (- RT_EOK, st2)
         })
      })
   }"

definition nu_pdma_sg_transfer ::
  "callback \<Rightarrow> pdma \<Rightarrow> int \<Rightarrow> desc_ref option \<Rightarrow> 32 word \<Rightarrow> (int \<times> pdma) option" where
  "nu_pdma_sg_transfer call st ch head idle = (case head of
     None \<Rightarrow> Some (- RT_EINVAL, st)
   | Some h \<Rightarrow> do {
       free \<leftarrow> nu_pdma_check_is_nonallocated st ch;
       (if free then Some (- RT_EINVAL, st)
        else do {
          st1 \<leftarrow> nu_pdma_start call st ch (m_u32Peripheral (chn st ! chan ch)) h idle;
          Some (- RT_EOK, st1)
        })
     })"

section \<open>Interrupts\<close>

definition ch_events :: "32 word \<Rightarrow> 32 word \<Rightarrow> 32 word \<Rightarrow> 32 word \<Rightarrow> nat \<Rightarrow> 32 word" where
  "ch_events abt td unal reqto i =
     (if abt AND bit_of i \<noteq> 0 then NU_PDMA_EVENT_ABORT else 0)
     OR (if td AND bit_of i \<noteq> 0 then NU_PDMA_EVENT_TRANSFER_DONE else 0)
     OR (if unal AND bit_of i \<noteq> 0 then NU_PDMA_EVENT_ALIGNMENT else 0)
     OR (if reqto AND bit_of i \<noteq> 0 then NU_PDMA_EVENT_TIMEOUT else 0)"

definition isr_channel ::
  "callback \<Rightarrow> pdma \<Rightarrow> nat \<Rightarrow> 32 word \<Rightarrow> 32 word \<Rightarrow> 32 word \<Rightarrow> 32 word \<Rightarrow> nat \<Rightarrow> pdma option" where
  "isr_channel call st m abt td unal reqto i =
     (let j = i + m * PDMA_CH_MAX
      in if chn_mask st ! m AND bit_of i \<noteq> 0 \<and> m_pfnCBHandler (m_sCB_Event (chn st ! j)) \<noteq> 0
         then do {
           let ev = ch_events abt td unal reqto i;
           let st1 = (if reqto AND bit_of i \<noteq> 0 then upd_regs m (\<lambda>r. PDMA_DisableTimeout r (bit_of i)) st else st);
           let dis = m_sCB_Disable (chn st1 ! j);
           let st2 = (if m_pfnCBHandler dis \<noteq> 0
                      then call (m_pfnCBHandler dis) (m_pvUserData dis) (m_u32Reserved dis) st1 else st1);
           let x = chn st2 ! j;
           let st3 = (if m_u32EventFilter x AND ev \<noteq> 0 \<and> m_pfnCBHandler (m_sCB_Event x) \<noteq> 0
                      then call (m_pfnCBHandler (m_sCB_Event x)) (m_pvUserData (m_sCB_Event x)) ev st2 else st2);
           (if reqto AND bit_of i \<noteq> 0 then do {
              (_, st4) \<leftarrow> nu_pdma_timeout_set st3 (int j) (sint (m_u32IdleTimeout_us (chn st3 ! j)));
              Some st4
            }
            else Some st3)
         }
         else Some st)"

function isr_loop ::
  "callback \<Rightarrow> pdma \<Rightarrow> nat \<Rightarrow> 32 word \<Rightarrow> 32 word \<Rightarrow> 32 word \<Rightarrow> 32 word \<Rightarrow> 32 word \<Rightarrow> pdma option" where
  "isr_loop call st m abt td unal reqto sts =
     (let i = nu_ctz sts
      in if i < PDMA_CH_MAX then do {
           st1 \<leftarrow> isr_channel call st m abt td unal reqto i;
           isr_loop call st1 m abt td unal reqto (sts AND NOT (bit_of i))
         }
         else Some st)"
  by auto

lemma clear_bit_less: "nu_ctz x < 32 \<Longrightarrow> unat (x AND NOT (bit_of (nu_ctz x))) < unat x"
proof (cases rule: nu_ctz_cases [of x])
  case 2
  have "x AND NOT (bit_of (nu_ctz x)) \<noteq> x"
  proof
    assume "x AND NOT (bit_of (nu_ctz x)) = x"
    moreover have "\<not> bit (x AND NOT (bit_of (nu_ctz x))) (nu_ctz x)"
      using 2(2) by (simp add: bit_of_def bit_and_iff bit_not_iff bit_push_bit_iff bit_exp_iff)
    ultimately show False using 2(3) by simp
  qed
  moreover have "x AND NOT (bit_of (nu_ctz x)) \<le> x" by (rule word_and_le2)
  ultimately show ?thesis by (metis order_less_le word_less_nat_alt)
qed simp

termination isr_loop
  by (relation "measure (\<lambda>(_, _, _, _, _, _, _, sts). unat sts)")
    (auto simp: PDMA_CH_MAX_def clear_bit_less)

declare isr_loop.simps [simp del]

definition nu_pdma_isr :: "callback \<Rightarrow> pdma \<Rightarrow> nat \<Rightarrow> pdma option" where
  "nu_pdma_isr call st m =
     (let r = regs st ! m;
          intsts = INTSTS r;
          abtsts = ABTSTS r;
          tdsts = TDSTS r;
          unalignsts = ALIGN r;
          reqto = intsts AND push_bit 8 PDMA_CH_Msk;
          reqto_ch = drop_bit 8 reqto;
          allch_sts = reqto_ch OR tdsts OR abtsts OR unalignsts;
          r1 = (if intsts AND 1 \<noteq> 0 then PDMA_CLR_ABORT_FLAG r abtsts else r);
          r2 = (if intsts AND 2 \<noteq> 0 then PDMA_CLR_TD_FLAG r1 tdsts else r1);
          r3 = (if intsts AND 4 \<noteq> 0 then PDMA_CLR_ALIGN_FLAG r2 unalignsts else r2);
          r4 = (if reqto \<noteq> 0 then write_INTSTS r3 reqto else r3)
      in isr_loop call (upd_regs m (\<lambda>_. r4) st) m abtsts tdsts unalignsts reqto_ch allch_sts)"

end
