(* ===== verification/Pdma_Channels.thy ===== *)
theory Pdma_Channels
  imports Pdma_Transfer
begin

text \<open>
  Well-formed states of the peripheral DMA driver, the set of allocated channels, and channel
  allocation as an implementation of a set from which the lowest free number is taken.
\<close>

section \<open>Well-formed states\<close>

definition regs_wf :: "pdma_regs \<Rightarrow> bool" where
  "regs_wf r \<longleftrightarrow> length (DSCT r) = 10 \<and> length (TOC r) = 5 \<and> length (REQSEL r) = 3"

definition pdma_wf :: "pdma \<Rightarrow> bool" where
  "pdma_wf st \<longleftrightarrow> length (chn_mask st) = 2 \<and> length (chn st) = 20 \<and> length (regs st) = 2
     \<and> (\<forall>m < 2. regs_wf (regs st ! m)) \<and> (\<forall>r. regs_wf r \<longrightarrow> regs_wf (ip_reset st r))
     \<and> (\<forall>m < 2. if inited st then \<forall>i. 10 \<le> i \<longrightarrow> i < 32 \<longrightarrow> bit (chn_mask st ! m) i else chn_mask st ! m = 0)"

definition allocated :: "pdma \<Rightarrow> nat set" where
  "allocated st = {c. c < 20 \<and> bit (chn_mask st ! (c div 10)) (c mod 10)}"

lemmas pdma_nums = PDMA_CNT_def PDMA_CH_MAX_def NU_PDMA_CH_MAX_def NU_PDMA_GET_MOD_IDX_def NU_PDMA_GET_MOD_CHIDX_def

lemma upd_regs_simps [simp]:
  "chn (upd_regs m f st) = chn st" "chn_mask (upd_regs m f st) = chn_mask st" "inited (upd_regs m f st) = inited st"
  "heap (upd_regs m f st) = heap st" "sgtbl (upd_regs m f st) = sgtbl st" "descs (upd_regs m f st) = descs st"
  "ip_reset (upd_regs m f st) = ip_reset st" "sysclk1 (upd_regs m f st) = sysclk1 st" "flushed (upd_regs m f st) = flushed st"
  "regs (upd_regs m f st) = (regs st)[m := f (regs st ! m)]"
  by (simp_all add: upd_regs_def)

lemma upd_chn_simps [simp]:
  "regs (upd_chn c f st) = regs st" "chn_mask (upd_chn c f st) = chn_mask st" "inited (upd_chn c f st) = inited st"
  "heap (upd_chn c f st) = heap st" "sgtbl (upd_chn c f st) = sgtbl st" "descs (upd_chn c f st) = descs st"
  "ip_reset (upd_chn c f st) = ip_reset st" "sysclk1 (upd_chn c f st) = sysclk1 st" "flushed (upd_chn c f st) = flushed st"
  "chn (upd_chn c f st) = (chn st)[c := f (chn st ! c)]"
  by (simp_all add: upd_chn_def)

lemma regs_wf_upd [simp]:
  "regs_wf (upd_desc i f r) = regs_wf r" "regs_wf (PDMA_DisableTimeout r b) = regs_wf r"
  "regs_wf (PDMA_DisableInt r i k) = regs_wf r" "regs_wf (PDMA_EnableInt r i k) = regs_wf r"
  "regs_wf (PDMA_SetTimeOut r i on n) = regs_wf r" "regs_wf (PDMA_Trigger r i) = regs_wf r"
  "regs_wf (PDMA_SetTransferMode r i p s a) = regs_wf r" "regs_wf (PDMA_Close r) = regs_wf r"
  "regs_wf (r\<lparr>CHCTL := w\<rparr>) = regs_wf r"
  by (auto simp: regs_wf_def upd_desc_def PDMA_DisableTimeout_def PDMA_DisableInt_def PDMA_EnableInt_def
      PDMA_SetTimeOut_def PDMA_Trigger_def PDMA_SetTransferMode_def PDMA_Close_def Let_def)

lemma regs_wf_open [simp]: "regs_wf (PDMA_Open r b) = regs_wf r"
proof -
  have "regs_wf (pdma_open_loop r b is) = regs_wf r" for "is"
    by (induction r b "is" rule: pdma_open_loop.induct) simp_all
  then show ?thesis by (simp add: PDMA_Open_def Let_def)
qed

lemma set_prescaler_wf: "set_prescaler r i n = Some r' \<Longrightarrow> regs_wf r' = regs_wf r"
  by (auto simp: set_prescaler_def regs_wf_def bind_eq_Some_conv)

lemma wf_upd [simp]:
  "(\<And>r. regs_wf r \<Longrightarrow> regs_wf (f r)) \<Longrightarrow> pdma_wf st \<Longrightarrow> pdma_wf (upd_regs m f st)"
  "pdma_wf (upd_chn c g st) = pdma_wf st"
  by (cases "m < 2"; auto simp: pdma_wf_def nth_list_update list_update_beyond)+

lemma allocated_upd [simp]:
  "allocated (upd_regs m f st) = allocated st" "allocated (upd_chn c g st) = allocated st"
  by (simp_all add: allocated_def)

lemma wfD:
  assumes "pdma_wf st"
  shows "length (chn_mask st) = 2" "length (chn st) = 20" "length (regs st) = 2"
    "m < 2 \<Longrightarrow> regs_wf (regs st ! m)"
  using assms by (auto simp: pdma_wf_def)

lemma bit_bit_of [simp]: "bit (bit_of i) j \<longleftrightarrow> i = j \<and> j < 32"
  by (auto simp: bit_of_def bit_exp_iff)

lemma and_bit_of: "(w AND bit_of i = 0) = (\<not> bit w i)"
proof
  assume "w AND bit_of i = 0"
  then have "\<not> bit (w AND bit_of i) i" by simp
  then show "\<not> bit w i" using bit_imp_le_length [of w i] by (auto simp: bit_and_iff)
next
  assume "\<not> bit w i"
  then show "w AND bit_of i = 0" by (intro bit_word_eqI) (auto simp: bit_and_iff)
qed

lemma nonallocated_eq:
  "nu_pdma_check_is_nonallocated st ch = (if chan ch < 20 then Some (chan ch \<notin> allocated st) else None)"
proof -
  have "chan ch div 10 < 2 \<longleftrightarrow> chan ch < 20" by auto
  then show ?thesis
    by (simp add: nu_pdma_check_is_nonallocated_def pdma_nums RT_ASSERT_def and_bit_of allocated_def)
qed

lemma chan_int [simp]: "c < 20 \<Longrightarrow> chan (int c) = c"
  by (simp add: chan_def u32_def)

lemma upd_regs_upd_regs [simp]: "upd_regs m f (upd_regs m g st) = upd_regs m (\<lambda>r. f (g r)) st"
  by (cases "m < length (regs st)") (simp_all add: upd_regs_def list_update_beyond)

section \<open>Allocating and releasing channels\<close>

lemma terminate_eq:
  assumes "c < 20" "c \<in> allocated st"
  shows "\<exists>F. (\<forall>r. regs_wf (F r) = regs_wf r) \<and> nu_pdma_channel_terminate st (int c) =
    Some (upd_regs (c div 10) F (upd_chn c (\<lambda>x. x\<lparr>m_u32IdleTimeout_us := 0\<rparr>) st))"
proof -
  define F where "F r = (let i = c mod 10;
      r1 = PDMA_DisableTimeout (PDMA_DisableInt r i PDMA_INT_TIMEOUT) (bit_of i);
      r2 = r1\<lparr>CHCTL := CHCTL r1 AND NOT (bit_of i)\<rparr>; r3 = upd_desc i (d_CTL_update (\<lambda>_. 0)) r2
    in r3\<lparr>CHCTL := CHCTL r3 OR bit_of i\<rparr>)" for r
  have "nu_pdma_channel_terminate st (int c) = Some (upd_regs (c div 10) F (upd_chn c (\<lambda>x. x\<lparr>m_u32IdleTimeout_us := 0\<rparr>) st))"
    using assms
    by (simp add: nu_pdma_channel_terminate_def nu_pdma_timeout_set_def nonallocated_eq nu_pdma_channel_enable_def
        nu_pdma_channel_reset_def pdma_nums Let_def F_def [abs_def])
  moreover have "regs_wf (F r) = regs_wf r" for r by (simp add: F_def Let_def)
  ultimately show ?thesis by blast
qed

definition free_channels :: "pdma \<Rightarrow> nat \<Rightarrow> nat set" where
  "free_channels st m = {i. i < 10 \<and> \<not> bit (chn_mask st ! m) i}"

lemma cto_free:
  assumes wf: "pdma_wf st" and m: "m < 2" and i: "inited st"
  shows "nu_cto (chn_mask st ! m) < 10 \<longleftrightarrow> free_channels st m \<noteq> {}"
    and "nu_cto (chn_mask st ! m) < 10 \<Longrightarrow>
      nu_cto (chn_mask st ! m) \<in> free_channels st m \<and> (\<forall>k \<in> free_channels st m. nu_cto (chn_mask st ! m) \<le> k)"
proof -
  have hi: "bit (chn_mask st ! m) k" if "10 \<le> k" "k < 32" for k
    using wf m i that by (auto simp: pdma_wf_def)
  let ?P = "nu_cto (chn_mask st ! m) < 10"
  have "(?P \<longleftrightarrow> free_channels st m \<noteq> {}) \<and> (?P \<longrightarrow>
      nu_cto (chn_mask st ! m) \<in> free_channels st m \<and> (\<forall>k \<in> free_channels st m. nu_cto (chn_mask st ! m) \<le> k))"
  proof (cases rule: nu_cto_cases [of "chn_mask st ! m"])
    case 1
    then show ?thesis by (auto simp: free_channels_def)
  next
    case 2
    then have "?P" using hi by (metis not_le)
    then show ?thesis using 2 by (force simp: free_channels_def not_less [symmetric])
  qed
  then show "?P \<longleftrightarrow> free_channels st m \<noteq> {}" and "?P \<Longrightarrow>
      nu_cto (chn_mask st ! m) \<in> free_channels st m \<and> (\<forall>k \<in> free_channels st m. nu_cto (chn_mask st ! m) \<le> k)"
    by blast+
qed

definition fresh_chn :: "nat \<Rightarrow> nu_pdma_chn" where
  "fresh_chn idx = zero_chn\<lparr>m_u32Peripheral := fst (g_nu_pdma_peripheral_ctl_pool ! idx),
     m_eMemCtl := snd (g_nu_pdma_peripheral_ctl_pool ! idx)\<rparr>"

text \<open>What the driver keeps in memory, apart from the channels and the registers.\<close>

definition same_mem :: "pdma \<Rightarrow> pdma \<Rightarrow> bool" where
  "same_mem st st' \<longleftrightarrow> heap st' = heap st \<and> sgtbl st' = sgtbl st \<and> descs st' = descs st \<and> sysclk1 st' = sysclk1 st"

lemma allocated_set_bit:
  assumes "length (chn_mask st) = 2" "c < 20"
  shows "allocated (st\<lparr>chn_mask := (chn_mask st)[c div 10 := chn_mask st ! (c div 10) OR bit_of (c mod 10)]\<rparr>) = insert c (allocated st)"
proof -
  have "c div 10 < 2" using assms by auto
  have k: "k mod 10 < 32" for k :: nat using mod_less_divisor [of 10 k] by linarith
  have "k = c \<longleftrightarrow> k div 10 = c div 10 \<and> k mod 10 = c mod 10" for k by (metis div_mult_mod_eq)
  then show ?thesis using assms \<open>c div 10 < 2\<close> k
    by (auto simp: allocated_def nth_list_update bit_or_iff)
qed

lemma allocated_clear_bit:
  assumes "length (chn_mask st) = 2" "c < 20"
  shows "allocated (st\<lparr>chn_mask := (chn_mask st)[c div 10 := chn_mask st ! (c div 10) AND NOT (bit_of (c mod 10))]\<rparr>) = allocated st - {c}"
proof -
  have "c div 10 < 2" using assms by auto
  have k: "k mod 10 < 32" for k :: nat using mod_less_divisor [of 10 k] by linarith
  have "k = c \<longleftrightarrow> k div 10 = c div 10 \<and> k mod 10 = c mod 10" for k by (metis div_mult_mod_eq)
  then show ?thesis using assms \<open>c div 10 < 2\<close> k
    by (auto simp: allocated_def nth_list_update bit_and_iff bit_not_iff)
qed

lemma take_channel:
  assumes wf: "pdma_wf st" and i: "inited st" and j: "j < 2" and f: "nu_cto (chn_mask st ! j) < 10"
    and c: "c = nu_cto (chn_mask st ! j) + j * 10"
  shows "\<exists>st'. channel_search st idx (j # js) = Some (int c, st') \<and> pdma_wf st' \<and> inited st' \<and>
    allocated st' = insert c (allocated st) \<and> chn st' = (chn st)[c := fresh_chn idx] \<and> same_mem st st'"
proof -
  define st1 where "st1 = st\<lparr>chn_mask := (chn_mask st)[j := chn_mask st ! j OR bit_of (nu_cto (chn_mask st ! j))]\<rparr>"
  define st2 where "st2 = nu_pdma_periph_ctrl_fill (upd_chn c (\<lambda>_. zero_chn) st1) c idx"
  have cj: "c < 20" "c div 10 = j" "c mod 10 = nu_cto (chn_mask st ! j)" using f j c by auto
  note l = wfD(1-3) [OF wf]
  have st1: "pdma_wf st1" using wf i j by (auto simp: pdma_wf_def st1_def nth_list_update bit_or_iff)
  have al1: "allocated st1 = insert c (allocated st)"
    using allocated_set_bit [OF l(1) cj(1)] by (simp add: st1_def cj)
  have c1: "chn st1 = chn st" by (simp add: st1_def)
  have st2: "pdma_wf st2" "inited st2" "allocated st2 = insert c (allocated st)" "chn st2 = (chn st)[c := fresh_chn idx]"
    "same_mem st st2"
    using st1 i al1 cj l
    by (simp_all add: st2_def nu_pdma_periph_ctrl_fill_def c1 fresh_chn_def same_mem_def) (simp_all add: st1_def)
  have a2: "c \<in> allocated st2" by (simp add: st2)
  have z: "(chn st2)[c := (chn st2 ! c)\<lparr>m_u32IdleTimeout_us := 0\<rparr>] = chn st2"
    using cj l by (simp add: st2 fresh_chn_def zero_chn_def)
  obtain F where F: "\<forall>r. regs_wf (F r) = regs_wf r" "nu_pdma_channel_terminate st2 (int c) =
      Some (upd_regs (c div 10) F (upd_chn c (\<lambda>x. x\<lparr>m_u32IdleTimeout_us := 0\<rparr>) st2))"
    using terminate_eq [OF cj(1) a2] by blast
  have "channel_search st idx (j # js) = Some (int c, upd_regs (c div 10) F (upd_chn c (\<lambda>x. x\<lparr>m_u32IdleTimeout_us := 0\<rparr>) st2))"
    using f F(2) c by (simp add: pdma_nums Let_def st2_def st1_def)
  moreover have "same_mem st (upd_regs (c div 10) F (upd_chn c (\<lambda>x. x\<lparr>m_u32IdleTimeout_us := 0\<rparr>) st2))"
    using st2(5) by (simp add: same_mem_def)
  ultimately show ?thesis using F(1) st2 z by (intro exI conjI) (assumption | simp)+
qed

text \<open>The lowest free channel of both controllers.\<close>

definition lowest_free :: "nat set \<Rightarrow> nat option" where
  "lowest_free A = find (\<lambda>c. c \<notin> A) [0..<20]"

lemma lowest_freeI: "c < 20 \<Longrightarrow> c \<notin> A \<Longrightarrow> (\<And>k. k < c \<Longrightarrow> k \<in> A) \<Longrightarrow> lowest_free A = Some c"
  unfolding lowest_free_def find_Some_iff by (intro exI [of _ c]) auto

lemma lowest_free_None: "lowest_free A = None \<longleftrightarrow> (\<forall>c < 20. c \<in> A)"
  by (auto simp: lowest_free_def find_None_iff)

lemma channel_search_spec:
  assumes wf: "pdma_wf st" and i: "inited st"
  shows "case lowest_free (allocated st) of
      None \<Rightarrow> channel_search st idx [0..<PDMA_CNT] = Some (- RT_ERROR, st)
    | Some c \<Rightarrow> \<exists>st'. channel_search st idx [0..<PDMA_CNT] = Some (int c, st') \<and> pdma_wf st' \<and> inited st' \<and>
        allocated st' = insert c (allocated st) \<and> chn st' = (chn st)[c := fresh_chn idx] \<and> same_mem st st'"
proof -
  have js: "[0..<PDMA_CNT] = [0, 1]" by (simp add: pdma_nums upt_rec)
  have al: "j * 10 + k \<in> allocated st \<longleftrightarrow> k \<notin> free_channels st j" if "j < 2" "k < 10" for j k
    using that by (auto simp: allocated_def free_channels_def)
  note z = cto_free [OF wf _ i, of 0] and o = cto_free [OF wf _ i, of 1]
  consider (0) "nu_cto (chn_mask st ! 0) < 10" | (1) "\<not> nu_cto (chn_mask st ! 0) < 10" "nu_cto (chn_mask st ! 1) < 10"
    | (2) "\<not> nu_cto (chn_mask st ! 0) < 10" "\<not> nu_cto (chn_mask st ! 1) < 10" by blast
  then show ?thesis
  proof cases
    case 0
    let ?c = "nu_cto (chn_mask st ! 0)"
    have "lowest_free (allocated st) = Some ?c"
      by (rule lowest_freeI) (use 0 z al [of 0] in \<open>auto simp: not_less [symmetric]\<close>)
    then show ?thesis using take_channel [OF wf i _ 0, of ?c] by (simp add: js del: channel_search.simps)
  next
    case 1
    let ?c = "nu_cto (chn_mask st ! 1) + 10"
    have lo: "k \<in> allocated st" if "k < 10" for k using 1(1) z al [of 0 k] that by auto
    have "lowest_free (allocated st) = Some ?c"
    proof (rule lowest_freeI)
      show "?c < 20" using 1 by simp
      show "?c \<notin> allocated st" using 1 o al [of 1 "nu_cto (chn_mask st ! 1)"] by (simp add: add.commute)
      fix k assume k: "k < ?c"
      show "k \<in> allocated st"
      proof (cases "k < 10")
        case False
        then have "k - 10 < nu_cto (chn_mask st ! 1)" "10 + (k - 10) = k" using k by auto
        moreover have "k - 10 \<notin> free_channels st 1" using o(2) 1(2) calculation(1) by (auto simp: not_less [symmetric])
        ultimately show ?thesis using al [of 1 "k - 10"] 1(2) by simp
      qed (rule lo)
    qed
    moreover have "channel_search st idx [0, 1] = channel_search st idx [1]" using 1 by (simp add: pdma_nums)
    ultimately show ?thesis using take_channel [OF wf i _ 1(2), of ?c] by (simp add: js del: channel_search.simps)
  next
    case 2
    have "c \<in> allocated st" if "c < 20" for c
    proof -
      have "c div 10 < 2" using that by auto
      then consider "c div 10 = 0" | "c div 10 = 1" by linarith
      then have "c mod 10 \<notin> free_channels st (c div 10)" using z(1) o(1) 2 by cases auto
      then show ?thesis using al [of "c div 10" "c mod 10"] \<open>c div 10 < 2\<close> by simp
    qed
    then have "lowest_free (allocated st) = None" by (simp add: lowest_free_None)
    moreover have "channel_search st idx [0, 1] = Some (- RT_ERROR, st)" using 2 by (simp add: pdma_nums)
    ultimately show ?thesis by (simp add: js del: channel_search.simps)
  qed
qed

lemma bit_free_mask: "bit (NOT PDMA_CH_Msk) k \<longleftrightarrow> 10 \<le> k \<and> k < 32"
proof -
  have *: "PDMA_CH_Msk = mask 10" by (simp add: PDMA_CH_Msk_def PDMA_CH_MAX_def mask_eq_exp_minus_1)
  show ?thesis unfolding * by (auto simp: bit_not_iff bit_mask_iff)
qed

lemma init_spec:
  assumes wf: "pdma_wf st"
  shows "pdma_wf (nu_pdma_init st)" "inited (nu_pdma_init st)" "allocated (nu_pdma_init st) = allocated st"
    "same_mem st (nu_pdma_init st)" "inited st \<Longrightarrow> nu_pdma_init st = st"
proof -
  let ?st = "nu_pdma_init st"
  note m = bit_free_mask
  have "pdma_wf ?st \<and> inited ?st \<and> allocated ?st = allocated st \<and> same_mem st ?st"
  proof (cases "inited st")
    case False
    note w = wf [unfolded pdma_wf_def]
    define R where "R i = PDMA_Close (PDMA_Open (ip_reset st (regs st ! i)) PDMA_CH_Msk)" for i
    have e: "?st = st\<lparr>chn := replicate 20 zero_chn, chn_mask := [NOT PDMA_CH_Msk, NOT PDMA_CH_Msk],
        regs := [R 0, R 1], inited := True\<rparr>"
      using w False
      by (cases st; cases "regs st"; cases "tl (regs st)"; cases "chn_mask st"; cases "tl (chn_mask st)")
        (auto simp: nu_pdma_init_def pdma_nums upt_rec upd_regs_def R_def)
    have "regs_wf (R i)" if "i < 2" for i using w that by (simp add: R_def)
    then have "pdma_wf ?st" unfolding e using w by (auto simp: pdma_wf_def less_2_cases_iff m)
    moreover have "k mod 10 < 10" for k :: nat by simp
    then have "allocated ?st = {}" unfolding e by (auto simp: allocated_def m less_2_cases_iff nth_Cons' not_le)
    moreover have "allocated st = {}"
    proof -
      have "k < 20 \<Longrightarrow> k div 10 < 2" for k :: nat by auto
      then show ?thesis using w False by (auto simp: allocated_def)
    qed
    ultimately show "pdma_wf ?st \<and> inited ?st \<and> allocated ?st = allocated st \<and> same_mem st ?st"
      by (simp add: e same_mem_def)
  qed (simp add: nu_pdma_init_def wf same_mem_def)
  then show "pdma_wf ?st" "inited ?st" "allocated ?st = allocated st" "same_mem st ?st" by blast+
qed (simp add: nu_pdma_init_def)

lemma allocate_spec:
  assumes wf: "pdma_wf st"
  shows "\<exists>r st'. nu_pdma_channel_allocate st p = Some (r, st') \<and> pdma_wf st' \<and> inited st' \<and> same_mem st st' \<and>
    (case (if nu_pdma_peripheral_set p < 0 then None else lowest_free (allocated st)) of
       None \<Rightarrow> r = - RT_ERROR \<and> allocated st' = allocated st \<and> chn st' = chn (nu_pdma_init st)
     | Some c \<Rightarrow> r = int c \<and> c < 20 \<and> c \<notin> allocated st \<and> allocated st' = insert c (allocated st) \<and>
         chn st' = (chn (nu_pdma_init st))[c := fresh_chn (nat (nu_pdma_peripheral_set p))])"
proof (cases "nu_pdma_peripheral_set p < 0")
  case True
  then show ?thesis using init_spec [OF wf] by (simp add: nu_pdma_channel_allocate_def Let_def)
next
  case False
  note I = init_spec(1-4) [OF wf]
  have lf: "c < 20 \<and> c \<notin> A" if "lowest_free A = Some c" for c A
    using that by (auto simp: lowest_free_def find_Some_iff)
  have sm: "same_mem (nu_pdma_init st) st' \<Longrightarrow> same_mem st st'" for st' using I(4) by (simp add: same_mem_def)
  have *: "nu_pdma_channel_allocate st p = channel_search (nu_pdma_init st) (nat (nu_pdma_peripheral_set p)) [0..<PDMA_CNT]"
    using False by (simp add: nu_pdma_channel_allocate_def Let_def)
  show ?thesis
  proof (cases "lowest_free (allocated st)")
    case None
    then show ?thesis unfolding * using False channel_search_spec [OF I(1,2)] I by simp
  next
    case (Some c)
    then show ?thesis unfolding * using False channel_search_spec [OF I(1,2), of "nat (nu_pdma_peripheral_set p)"] I(3) sm lf [OF Some]
      by auto
  qed
qed

lemma free_spec:
  assumes wf: "pdma_wf st" and c: "0 \<le> ch" "ch < 20"
  shows "\<exists>st'. nu_pdma_channel_free st ch = Some (if nat ch \<in> allocated st then - RT_EOK else - RT_EINVAL, st') \<and>
    pdma_wf st' \<and> inited st' = inited st \<and> same_mem st st' \<and> chn st' = chn st \<and> allocated st' = allocated st - {nat ch}"
proof -
  obtain k where k: "ch = int k" "k < 20" using c by (metis nonneg_int_cases of_nat_less_numeral_iff)
  note w = wf [unfolded pdma_wf_def]
  show ?thesis
  proof (cases "k \<in> allocated st")
    case False
    then show ?thesis using wf k by (auto simp: nu_pdma_channel_free_def nonallocated_eq same_mem_def)
  next
    case True
    have "k div 10 < 2" using k by auto
    then have i: "inited st" using True w by (auto simp: allocated_def split: if_splits)
    define st1 where "st1 = st\<lparr>chn_mask := (chn_mask st)[k div 10 := chn_mask st ! (k div 10) AND NOT (bit_of (k mod 10))]\<rparr>"
    have m: "k mod 10 < 10" by simp
    have "bit (chn_mask st1 ! j) n" if "j < 2" "10 \<le> n" "n < 32" for j n
      using w i m that by (cases "j = k div 10") (auto simp: st1_def bit_and_iff bit_not_iff)
    then have "pdma_wf st1" using w i by (simp add: pdma_wf_def) (simp add: st1_def)
    moreover have "allocated st1 = allocated st - {k}"
      unfolding st1_def using w k by (intro allocated_clear_bit) auto
    moreover have "nu_pdma_channel_free st ch = Some (- RT_EOK, nu_pdma_channel_disable st1 k)"
      using True i k by (simp add: nu_pdma_channel_free_def nonallocated_eq pdma_nums st1_def Let_def)
    ultimately show ?thesis using True k i by (simp add: nu_pdma_channel_disable_def same_mem_def st1_def)
  qed
qed

section \<open>Channels as a set\<close>

datatype chan_op = ChanAlloc int | ChanFree int

fun chan_step :: "pdma \<Rightarrow> chan_op \<Rightarrow> (int \<times> pdma) option" where
  "chan_step st (ChanAlloc p) = nu_pdma_channel_allocate st p"
| "chan_step st (ChanFree ch) = nu_pdma_channel_free st ch"

fun chan_run :: "pdma \<Rightarrow> chan_op list \<Rightarrow> (int list \<times> pdma) option" where
  "chan_run st [] = Some ([], st)"
| "chan_run st (x # xs) = do {
     (r, st1) \<leftarrow> chan_step st x;
     (rs, st2) \<leftarrow> chan_run st1 xs;
     Some (r # rs, st2)
   }"

fun set_step :: "nat set \<Rightarrow> chan_op \<Rightarrow> int \<times> nat set" where
  "set_step A (ChanAlloc p) = (case (if nu_pdma_peripheral_set p < 0 then None else lowest_free A) of
     None \<Rightarrow> (-1, A) | Some c \<Rightarrow> (int c, insert c A))"
| "set_step A (ChanFree ch) = (if nat ch \<in> A then (0, A - {nat ch}) else (-10, A))"

fun set_run :: "nat set \<Rightarrow> chan_op list \<Rightarrow> int list \<times> nat set" where
  "set_run A [] = ([], A)"
| "set_run A (x # xs) = (let (r, A1) = set_step A x; (rs, A2) = set_run A1 xs in (r # rs, A2))"

definition chan_op_ok :: "chan_op \<Rightarrow> bool" where
  "chan_op_ok x = (case x of ChanAlloc p \<Rightarrow> True | ChanFree ch \<Rightarrow> 0 \<le> ch \<and> ch < 20)"

lemma chan_step_refines:
  assumes "pdma_wf st" "chan_op_ok x"
  shows "\<exists>st'. chan_step st x = Some (fst (set_step (allocated st) x), st') \<and> pdma_wf st' \<and>
    allocated st' = snd (set_step (allocated st) x) \<and> same_mem st st'"
proof (cases x)
  case (ChanAlloc p)
  then show ?thesis using allocate_spec [OF assms(1), of p] by (auto simp: rt_errs split: option.splits if_splits)
next
  case (ChanFree ch)
  then show ?thesis using free_spec [OF assms(1), of ch] assms(2) by (auto simp: rt_errs chan_op_ok_def)
qed

text \<open>The driver as the board starts it: no channel, registers of zeros, and a heap of its own.\<close>

definition zero_regs :: pdma_regs where
  "zero_regs = \<lparr>DSCT = replicate 10 zero_dsct, CHCTL = 0, SWREQ = 0, INTEN = 0, INTSTS = 0, ABTSTS = 0, TDSTS = 0,
     ALIGN = 0, TOUTEN = 0, TOUTIEN = 0, TOC = replicate 5 0, TOUTPSC = 0, TOUTPSC1 = 0, REQSEL = replicate 3 0\<rparr>"

definition pdma_poweron :: pdma where
  "pdma_poweron = \<lparr>inited = False, chn_mask = [0, 0], chn = replicate 20 zero_chn, regs = [zero_regs, zero_regs],
     ip_reset = (\<lambda>r. zero_regs), sysclk1 = 180000000, heap = ex_pool, sgtbl = (\<lambda>_. 0), descs = (\<lambda>_. zero_dsct),
     flushed = []\<rparr>"

lemma poweron_wf: "pdma_wf pdma_poweron" "allocated pdma_poweron = {}"
  by (auto simp: pdma_wf_def pdma_poweron_def regs_wf_def zero_regs_def less_2_cases_iff allocated_def nth_Cons')

text \<open>C23: Channel allocation. Over any sequence of allocations and releases, starting before or after
  initialisation, \<^verbatim>\<open>nu_pdma_channel_allocate\<close> and \<^verbatim>\<open>nu_pdma_channel_free\<close> answer like a set of
  channel numbers: a known peripheral gets the lowest number of 0 to 19 that is not in use, and \<^verbatim>\<open>-RT_ERROR\<close>
  when all are; releasing gives back exactly a channel in use and is refused with
  \<^verbatim>\<open>-RT_EINVAL\<close> otherwise. No channel is ever given to two clients, and no assertion fails.\<close>

theorem pdma_channels_refine:
  assumes "pdma_wf st" "list_all chan_op_ok ops"
  shows "\<exists>st'. chan_run st ops = Some (fst (set_run (allocated st) ops), st') \<and> pdma_wf st' \<and>
    allocated st' = snd (set_run (allocated st) ops)"
  using assms
proof (induction ops arbitrary: st)
  case (Cons x xs)
  obtain st1 where 1: "chan_step st x = Some (fst (set_step (allocated st) x), st1)" "pdma_wf st1"
    "allocated st1 = snd (set_step (allocated st) x)"
    using chan_step_refines [of st x] Cons.prems by auto
  obtain st2 where 2: "chan_run st1 xs = Some (fst (set_run (allocated st1) xs), st2)" "pdma_wf st2"
    "allocated st2 = snd (set_run (allocated st1) xs)"
    using Cons.IH [OF 1(2)] Cons.prems(2) by auto
  show ?case using 1 2 by (simp add: split_def Let_def)
qed simp

theorem pdma_channels_refine_witness:
  "\<exists>st'. chan_run pdma_poweron [ChanAlloc 4, ChanAlloc 5, ChanFree 0, ChanAlloc 3, ChanAlloc 60, ChanFree 7]
     = Some ([0, 1, 0, -1, 0, -10], st') \<and> allocated st' = {0, 1}"
proof -
  let ?ops = "[ChanAlloc 4, ChanAlloc 5, ChanFree 0, ChanAlloc 3, ChanAlloc 60, ChanFree 7]"
  have "list_all chan_op_ok ?ops" by (simp add: chan_op_ok_def)
  note r = pdma_channels_refine [OF poweron_wf(1) this, unfolded poweron_wf(2)]
  have "set_run {} ?ops = ([0, 1, 0, -1, 0, -10], {0, 1})"
    by (simp add: nu_pdma_peripheral_set_def g_nu_pdma_peripheral_ctl_pool_def PDMA_MEM_def u32_def lowest_free_def
        upt_rec insert_commute)
  then show ?thesis using r by auto
qed

end
