(* ===== verification/Pdma_Chain.thy ===== *)
theory Pdma_Chain
  imports Pdma_Channels
begin

text \<open>
  Transfers of the peripheral DMA driver: what the descriptors it writes ask the controller to do,
  for single descriptors and for tables of them.
\<close>

section \<open>Control words\<close>

definition ctl_low :: "nu_pdma_chn \<Rightarrow> nat \<Rightarrow> bool \<Rightarrow> bool \<Rightarrow> 32 word" where
  "ctl_low x width linked silent =
     (let (srcctl, dstctl) = nu_pdma_channel_memctrl_fill (m_eMemCtl x) 0 0;
          l0 = (if width = 8 then PDMA_WIDTH_8 else if width = 16 then PDMA_WIDTH_16 else PDMA_WIDTH_32)
               OR srcctl OR dstctl OR PDMA_OP_BASIC;
          l1 = (if m_u32Peripheral x = PDMA_MEM then l0 OR (PDMA_REQ_BURST OR PDMA_BURST_32) else l0 OR PDMA_REQ_SINGLE);
          l2 = (if linked then (l1 AND NOT OPMODE_Msk) OR PDMA_OP_SCATTER else l1)
      in if silent then l2 OR TBINTDIS_Msk else l2)"

lemma low_bits: "take_bit 16 m = (m :: 32 word) \<Longrightarrow> bit m i \<Longrightarrow> i < 16"
  by (metis bit_take_bit_iff)

lemma push_or:
  fixes c l m :: "32 word"
  shows "take_bit 16 m = m \<Longrightarrow> (push_bit 16 c OR l) AND NOT m = push_bit 16 c OR (l AND NOT m)"
    and "take_bit 16 m = m \<Longrightarrow> (push_bit 16 c OR l) AND m = l AND m"
    and "take_bit 16 l = l \<Longrightarrow> drop_bit 16 (push_bit 16 c OR l) = take_bit 16 c"
    and "take_bit 2 (drop_bit 12 (push_bit 16 c OR l)) = take_bit 2 (drop_bit 12 l)"
    and "bit (push_bit 16 c OR l) 7 = bit l 7"
  by (rule bit_word_eqI; auto simp: bit_and_iff bit_or_iff bit_not_iff bit_push_bit_iff bit_drop_bit_eq bit_take_bit_iff
      dest: low_bits)+
    (simp add: bit_or_iff bit_push_bit_iff)

lemma filled_CTL:
  "d_CTL (filled_dsct x width src dst cnt nxt silent) = push_bit 16 (word_of_int (cnt - 1)) OR ctl_low x width (nxt \<noteq> None) silent"
proof -
  have m: "take_bit 16 OPMODE_Msk = OPMODE_Msk" by (simp add: pdma_consts)
  show ?thesis
    by (simp add: filled_dsct_def ctl_low_def Let_def split_def push_or(1) [OF m] or.assoc split: option.split)
qed

text \<open>The fields of the control word, by the configuration of the channel.\<close>

lemma ctl_low_fields:
  assumes w: "width = 8 \<or> width = 16 \<or> width = 32"
  shows "take_bit 16 (ctl_low x width linked silent) = ctl_low x width linked silent"
    and "2 ^ unat (take_bit 2 (drop_bit 12 (ctl_low x width linked silent))) = width div 8"
    and "ctl_low x width linked silent AND SAINC_Msk = (if memctl_bit (m_eMemCtl x) 2 then PDMA_SAR_INC else PDMA_SAR_FIX)"
    and "ctl_low x width linked silent AND DAINC_Msk = (if memctl_bit (m_eMemCtl x) 1 then PDMA_DAR_INC else PDMA_DAR_FIX)"
    and "bit (ctl_low x width linked silent) 7 = silent"
    and "ctl_low x width linked silent AND OPMODE_Msk = (if linked then PDMA_OP_SCATTER else PDMA_OP_BASIC)"
  using w
  by (cases "m_eMemCtl x"; cases linked; cases silent; cases "m_u32Peripheral x = PDMA_MEM";
      auto simp: ctl_low_def nu_pdma_channel_memctrl_fill_def pdma_consts memctl_bit_def)+

section \<open>The elements a descriptor transfers\<close>

text \<open>The \<open>i\<close>-th element of a request: addresses that increment advance by the width.\<close>

definition elem_at :: "nu_pdma_memctrl_t \<Rightarrow> nat \<Rightarrow> 32 word \<Rightarrow> 32 word \<Rightarrow> nat \<Rightarrow> 32 word \<times> 32 word" where
  "elem_at ctl width src dst i =
     (if memctl_bit ctl 2 then src + of_nat (i * (width div 8)) else src,
      if memctl_bit ctl 1 then dst + of_nat (i * (width div 8)) else dst)"

definition real_count :: "nat \<Rightarrow> nat" where
  "real_count cnt = (if cnt = 0 then 65536 else cnt)"

lemma count_field:
  assumes "cnt \<le> 65536"
  shows "unat (take_bit 16 (word_of_int (int cnt - 1) :: 32 word)) + 1 = real_count cnt"
proof (cases cnt)
  case 0
  then show ?thesis by (simp add: real_count_def mask_eq_exp_minus_1)
next
  case (Suc k)
  then have "take_bit 16 (word_of_int (int cnt - 1) :: 32 word) = take_bit 16 (of_nat k)" by simp
  also have "\<dots> = of_nat k" using assms Suc by (simp add: take_bit_of_nat take_bit_nat_eq_self)
  finally show ?thesis using assms Suc by (simp add: real_count_def unat_of_nat)
qed

lemma filled_elems:
  assumes w: "width = 8 \<or> width = 16 \<or> width = 32" and c: "cnt \<le> 65536"
  shows "dsct_elems (filled_dsct x width src dst (int cnt) nxt silent) =
    map (elem_at (m_eMemCtl x) width src dst) [0..<real_count cnt]"
proof -
  let ?d = "filled_dsct x width src dst (int cnt) nxt silent"
  note f = ctl_low_fields [OF w, of x "nxt \<noteq> None" silent]
  have m: "take_bit 16 SAINC_Msk = SAINC_Msk" "take_bit 16 DAINC_Msk = DAINC_Msk" by (simp_all add: pdma_consts)
  have "dsct_count ?d = real_count cnt"
    using count_field [OF c] by (simp only: dsct_count_def filled_CTL push_or(3) [OF f(1)])
  moreover have "dsct_width ?d = width div 8"
    by (simp only: dsct_width_def filled_CTL push_or(4) f(2))
  moreover have "(d_CTL ?d AND SAINC_Msk = PDMA_SAR_FIX) = (\<not> memctl_bit (m_eMemCtl x) 2)"
    "(d_CTL ?d AND DAINC_Msk = PDMA_DAR_FIX) = (\<not> memctl_bit (m_eMemCtl x) 1)"
    unfolding filled_CTL push_or(2) [OF m(1)] push_or(2) [OF m(2)] f(3,4) by (simp_all add: pdma_consts)
  moreover have "d_SA ?d = src" "d_DA ?d = dst" by (simp_all add: filled_dsct_def Let_def split_def)
  ultimately show ?thesis by (auto simp: dsct_elems_def elem_at_def)
qed

lemma filled_next:
  "d_NEXT (filled_dsct x width src dst cnt nxt silent) = (case nxt of None \<Rightarrow> 0 | Some n \<Rightarrow> desc_addr n)"
  by (simp add: filled_dsct_def Let_def split_def split: option.split)

lemma filled_silent:
  assumes "width = 8 \<or> width = 16 \<or> width = 32"
  shows "bit (d_CTL (filled_dsct x width src dst cnt nxt silent)) 7 = silent"
  using ctl_low_fields(5) [OF assms] by (simp only: filled_CTL push_or(5))

section \<open>Tables of descriptors\<close>

text \<open>The chunks of a request: all of the largest size but the last.\<close>

definition chunk :: "nat \<Rightarrow> nat \<Rightarrow> nat" where
  "chunk cnt i = min 65536 (cnt - 65536 * i)"

definition chunk_dsct ::
  "nu_pdma_chn \<Rightarrow> (nat \<Rightarrow> int) \<Rightarrow> nat \<Rightarrow> 32 word \<Rightarrow> 32 word \<Rightarrow> nat \<Rightarrow> nat \<Rightarrow> nat \<Rightarrow> pdma_dsct" where
  "chunk_dsct x p width src dst cnt n i =
     (let (s, d) = elem_at (m_eMemCtl x) width src dst (65536 * i)
      in filled_dsct x width s d (int (chunk cnt i)) (if i + 1 = n then None else Some (Mem (p (i + 1)))) (i + 1 \<noteq> n))"

lemma map_shift: "map (\<lambda>j. g (k + j)) [0..<m] = map g [k..<k + m]"
  by (rule nth_equalityI) simp_all

lemma chunks_elems:
  assumes n: "n = cnt div 65536 + 1" and w: "width = 8 \<or> width = 16 \<or> width = 32"
  shows "concat (map (\<lambda>i. dsct_elems (chunk_dsct x p width src dst cnt n i)) [0..<n]) =
    map (elem_at (m_eMemCtl x) width src dst) [0..<(if 65536 dvd cnt then cnt + 65536 else cnt)]"
proof -
  let ?e = "elem_at (m_eMemCtl x) width src dst"
  have e: "elem_at (m_eMemCtl x) width (fst (?e k)) (snd (?e k)) j = ?e (k + j)" for k j
    by (simp add: elem_at_def algebra_simps)
  have d: "dsct_elems (chunk_dsct x p width src dst cnt n i) = map ?e [65536 * i..<65536 * i + real_count (chunk cnt i)]" for i
  proof -
    have "dsct_elems (chunk_dsct x p width src dst cnt n i) =
        map (elem_at (m_eMemCtl x) width (fst (?e (65536 * i))) (snd (?e (65536 * i)))) [0..<real_count (chunk cnt i)]"
      unfolding chunk_dsct_def by (simp add: split_def Let_def filled_elems [OF w] chunk_def)
    also have "\<dots> = map (\<lambda>j. ?e (65536 * i + j)) [0..<real_count (chunk cnt i)]" by (simp add: e)
    also have "\<dots> = map ?e [65536 * i..<65536 * i + real_count (chunk cnt i)]"
      by (rule map_shift)
    finally show ?thesis .
  qed
  have full: "real_count (chunk cnt i) = 65536" if "i < cnt div 65536" for i
  proof -
    have "65536 * (i + 1) \<le> cnt" 
      using mult_le_mono2 [of "i + 1" "cnt div 65536" 65536] times_div_less_eq_dividend [of 65536 cnt] that by linarith
    then show ?thesis by (simp add: chunk_def real_count_def)
  qed
  have pre: "concat (map (\<lambda>i. dsct_elems (chunk_dsct x p width src dst cnt n i)) [0..<k]) = map ?e [0..<65536 * k]"
    if "k \<le> cnt div 65536" for k
    using that
  proof (induction k)
    case (Suc k)
    have "[0..<65536 * Suc k] = [0..<65536 * k] @ [65536 * k..<65536 * k + 65536]"
      using upt_add_eq_append [of 0 "65536 * k" 65536] by (simp add: algebra_simps)
    then show ?case using Suc full [of k] d [of k] by simp
  qed simp
  have last: "65536 * (cnt div 65536) + real_count (chunk cnt (cnt div 65536)) = (if 65536 dvd cnt then cnt + 65536 else cnt)"
  proof -
    have "cnt - 65536 * (cnt div 65536) = cnt mod 65536" by (simp add: minus_mult_div_eq_mod)
    then have "chunk cnt (cnt div 65536) = cnt mod 65536" by (simp add: chunk_def min_def)
    then show ?thesis by (auto simp: real_count_def dvd_eq_mod_eq_0)
  qed
  have up: "[0..<65536 * (cnt div 65536)] @ [65536 * (cnt div 65536)..<65536 * (cnt div 65536) + real_count (chunk cnt (cnt div 65536))]
      = [0..<(if 65536 dvd cnt then cnt + 65536 else cnt)]"
    unfolding last [symmetric] by (rule upt_add_eq_append [symmetric]) simp
  have "[0..<n] = [0..<cnt div 65536] @ [cnt div 65536]" by (simp add: n)
  then show ?thesis unfolding up [symmetric]
    by (simp only: map_append concat_append pre [OF order_refl] list.map concat.simps append_Nil2 d [of "cnt div 65536"])
qed

section \<open>Filling a table\<close>

definition sg_ptr :: "pdma \<Rightarrow> nat \<Rightarrow> nat \<Rightarrow> int" where
  "sg_ptr st c i = sgtbl st (m_ppsSgtbl (chn st ! c) + 4 * int i)"

text \<open>The channel has a table of \<open>n\<close> different descriptors.\<close>

definition sg_ready :: "pdma \<Rightarrow> nat \<Rightarrow> nat \<Rightarrow> bool" where
  "sg_ready st c n \<longleftrightarrow> m_ppsSgtbl (chn st ! c) \<noteq> 0 \<and> m_u32WantedSGTblNum (chn st ! c) = n \<and>
     (\<forall>i < n. 0 < sg_ptr st c i \<and> sg_ptr st c i < 2 ^ 32) \<and> inj_on (sg_ptr st c) {..<n}"

definition req_ok :: "nat \<Rightarrow> 32 word \<Rightarrow> 32 word \<Rightarrow> bool" where
  "req_ok width src dst \<longleftrightarrow> (width = 8 \<or> width = 16 \<or> width = 32) \<and>
     unat src mod (width div 8) = 0 \<and> unat dst mod (width div 8) = 0"

lemma word_add_mod:
  assumes "m dvd 2 ^ 32" "unat (a :: 32 word) mod m = 0"
  shows "unat (a + of_nat (i * m)) mod m = 0"
proof -
  have "unat (a + of_nat (i * m)) = (unat a + i * m) mod 2 ^ 32" by (simp add: unat_word_ariths unat_of_nat mod_simps)
  then have "unat (a + of_nat (i * m)) mod m = (unat a + i * m) mod m" using assms(1) by (simp add: mod_mod_cancel)
  then show ?thesis using assms(2) by simp
qed

lemma elem_aligned:
  assumes "req_ok width src dst"
  shows "unat (fst (elem_at ctl width src dst i)) mod (width div 8) = 0"
    "unat (snd (elem_at ctl width src dst i)) mod (width div 8) = 0"
proof -
  have w: "width div 8 dvd 2 ^ 32" using assms by (auto simp: req_ok_def)
  have a: "unat src mod (width div 8) = 0" "unat dst mod (width div 8) = 0" using assms by (simp_all add: req_ok_def)
  show "unat (fst (elem_at ctl width src dst i)) mod (width div 8) = 0"
    "unat (snd (elem_at ctl width src dst i)) mod (width div 8) = 0"
    using word_add_mod [OF w a(1)] word_add_mod [OF w a(2)] a by (simp_all add: elem_at_def)
qed

lemma desc_setup_ok:
  assumes "c < 20" "c \<in> allocated st" "width = 8 \<or> width = 16 \<or> width = 32"
    "unat s mod (width div 8) = 0" "unat d mod (width div 8) = 0" "cnt \<le> 65536"
  shows "nu_pdma_desc_setup st (int c) (Some r) width s d (int cnt) nxt silent =
    Some (0, desc_put st r (filled_dsct (chn st ! c) width s d (int cnt) nxt silent))"
  using assms by (auto simp: nu_pdma_desc_setup_def nonallocated_eq NU_PDMA_MAX_TXCNT_def u32_id RT_EOK_def)

lemma chunk_width: "width = (8 :: nat) \<or> width = 16 \<or> width = 32 \<Longrightarrow> 65536 * width div 8 = 65536 * (width div 8)"
  by auto

text \<open>One round: the descriptor of chunk \<open>k\<close> is filled, and the next round starts behind the elements of that chunk.\<close>

lemma chain_next_args:
  assumes n: "n = cnt div 65536 + 1" and k: "Suc k < n" and w: "width = 8 \<or> width = 16 \<or> width = 32"
  shows "cnt - 65536 * k - chunk cnt k = cnt - 65536 * Suc k"
    "of_nat (65536 * k * (width div 8)) + of_nat (chunk cnt k * width div 8) = (of_nat (65536 * Suc k * (width div 8)) :: 32 word)"
proof -
  have "65536 * Suc k \<le> cnt"
    using mult_le_mono2 [of "Suc k" "cnt div 65536" 65536] times_div_less_eq_dividend [of 65536 cnt] k n by linarith
  then have c: "chunk cnt k = 65536" by (simp add: chunk_def)
  show "cnt - 65536 * k - chunk cnt k = cnt - 65536 * Suc k" unfolding c by simp
  show "of_nat (65536 * k * (width div 8)) + of_nat (chunk cnt k * width div 8) = (of_nat (65536 * Suc k * (width div 8)) :: 32 word)"
    unfolding c chunk_width [OF w] by (simp add: algebra_simps)
qed

lemma chain_fill_step:
  assumes c: "c < 20" "c \<in> allocated st" and r: "req_ok width src dst" and n: "n = cnt div 65536 + 1"
    and sg: "sg_ready st c n" and k: "k < n"
  defines "st1 \<equiv> st\<lparr>descs := (descs st)(sg_ptr st c k := chunk_dsct (chn st ! c) (sg_ptr st c) width src dst cnt n k)\<rparr>"
  shows "chain_fill st (int c) (m_eMemCtl (chn st ! c)) width src dst (cnt - 65536 * k) (of_nat (65536 * k * (width div 8))) n [k..<n] =
      chain_fill st1 (int c) (m_eMemCtl (chn st ! c)) width src dst (cnt - 65536 * Suc k) (of_nat (65536 * Suc k * (width div 8))) n [Suc k..<n]"
proof -
  let ?x = "chn st ! c" and ?p = "sg_ptr st c"
  let ?e = "elem_at (m_eMemCtl ?x) width src dst (65536 * k)"
  have w: "width = 8 \<or> width = 16 \<or> width = 32" using r by (simp add: req_ok_def)
  have base: "m_ppsSgtbl ?x \<noteq> 0" using sg by (simp add: sg_ready_def)
  have tx: "(if 65536 < cnt - 65536 * k then 65536 else cnt - 65536 * k) = chunk cnt k" by (simp add: chunk_def min_def)
  have e: "(if memctl_bit (m_eMemCtl ?x) 2 then src + of_nat (65536 * k * (width div 8)) else src) = fst ?e"
    "(if memctl_bit (m_eMemCtl ?x) 1 then dst + of_nat (65536 * k * (width div 8)) else dst) = snd ?e"
    by (simp_all add: elem_at_def)
  have pr: "ptr_ref (sgtbl st (m_ppsSgtbl ?x + 4 * int i)) = Some (Mem (?p i))" if "i < n" for i
    using sg that by (auto simp: ptr_ref_def sg_ptr_def sg_ready_def)
  have "(if k + 1 = n then None else ptr_ref (sgtbl st (m_ppsSgtbl ?x + 4 * int (k + 1)))) =
      (if k + 1 = n then None else Some (Mem (?p (k + 1))))"
    using k pr [of "k + 1"] by auto
  then have set: "nu_pdma_desc_setup st (int c) (ptr_ref (sgtbl st (m_ppsSgtbl ?x + 4 * int k))) width (fst ?e) (snd ?e)
      (int (chunk cnt k)) (if k + 1 = n then None else ptr_ref (sgtbl st (m_ppsSgtbl ?x + 4 * int (k + 1)))) (\<not> k + 1 = n)
      = Some (0, st1)"
    using desc_setup_ok [OF c w elem_aligned [OF r], of "chunk cnt k"] pr [OF k]
    by (simp add: chunk_def chunk_dsct_def split_def Let_def desc_put_def st1_def)
  have "chain_fill st (int c) (m_eMemCtl ?x) width src dst (cnt - 65536 * k) (of_nat (65536 * k * (width div 8))) n [k..<n]
      = chain_fill st1 (int c) (m_eMemCtl ?x) width src dst (cnt - 65536 * k - chunk cnt k)
          (of_nat (65536 * k * (width div 8)) + of_nat (chunk cnt k * width div 8)) n [Suc k..<n]"
    unfolding upt_conv_Cons [OF k]
    by (simp only: chain_fill.simps Let_def chan_int [OF c(1)] NU_PDMA_MAX_TXCNT_def tx e set RT_ASSERT_bind [OF base]
        Option.bind.bind_lunit prod.case RT_EOK_def) simp
  then show ?thesis
    using chain_next_args [OF n _ w, of k] k by (cases "Suc k = n") simp_all
qed

lemma chain_fill_spec:
  assumes c: "c < 20" "c \<in> allocated st" and r: "req_ok width src dst" and n: "n = cnt div 65536 + 1"
    and sg: "sg_ready st c n" and k: "k \<le> n"
  shows "\<exists>d'. chain_fill st (int c) (m_eMemCtl (chn st ! c)) width src dst (cnt - 65536 * k)
      (of_nat (65536 * k * (width div 8))) n [k..<n] = Some (RT_EOK, st\<lparr>descs := d'\<rparr>) \<and>
    (\<forall>i. k \<le> i \<longrightarrow> i < n \<longrightarrow> d' (sg_ptr st c i) = chunk_dsct (chn st ! c) (sg_ptr st c) width src dst cnt n i) \<and>
    (\<forall>a. a \<notin> sg_ptr st c ` {k..<n} \<longrightarrow> d' a = descs st a)"
  using c(2) sg k
proof (induction "n - k" arbitrary: k st)
  case 0
  then have "k = n" by simp
  then show ?case by (intro exI [of _ "descs st"]) simp
next
  case (Suc m)
  let ?x = "chn st ! c" and ?p = "sg_ptr st c"
  have k: "k < n" using Suc.hyps(2) by simp
  have inj: "inj_on ?p {..<n}" using Suc.prems(2) by (simp add: sg_ready_def)
  define st1 where "st1 = st\<lparr>descs := (descs st)(?p k := chunk_dsct ?x ?p width src dst cnt n k)\<rparr>"
  note step = chain_fill_step [OF c(1) Suc.prems(1) r n Suc.prems(2) k, folded st1_def]
  have same: "allocated st1 = allocated st" "chn st1 = chn st" "sg_ptr st1 c = ?p" "sg_ready st1 c n = sg_ready st c n"
    by (simp_all add: st1_def allocated_def sg_ptr_def [abs_def] sg_ready_def)
  have m: "m = n - Suc k" using Suc.hyps(2) by simp
  obtain d' where d': "chain_fill st1 (int c) (m_eMemCtl ?x) width src dst (cnt - 65536 * Suc k)
      (of_nat (65536 * Suc k * (width div 8))) n [Suc k..<n] = Some (RT_EOK, st1\<lparr>descs := d'\<rparr>)"
    "\<And>i. Suc k \<le> i \<Longrightarrow> i < n \<Longrightarrow> d' (?p i) = chunk_dsct ?x ?p width src dst cnt n i"
    "\<And>a. a \<notin> ?p ` {Suc k..<n} \<Longrightarrow> d' a = descs st1 a"
    using Suc.hyps(1) [OF m, of st1, unfolded same, OF Suc.prems(1,2) Suc_leI [OF k]] by (elim exE conjE) blast
  have "?p k \<notin> ?p ` {Suc k..<n}" using inj k by (auto dest: inj_onD)
  then have "d' (?p k) = chunk_dsct ?x ?p width src dst cnt n k" using d'(3) by (simp add: st1_def)
  moreover have "d' a = descs st a" if "a \<notin> ?p ` {k..<n}" for a
  proof -
    have "a \<notin> ?p ` {Suc k..<n}" "a \<noteq> ?p k" using that k by auto
    then show ?thesis using d'(3) by (simp add: st1_def)
  qed
  ultimately show ?case
    using d'(1,2) step
    by (intro exI [of _ d'] conjI allI impI) (auto simp: st1_def dest!: le_neq_implies_less simp del: of_nat_mult)
qed

end
