(* ===== verification/Pdma_Props.thy ===== *)
theory Pdma_Props
  imports Pdma_Chain
begin

text \<open>
  The peripheral DMA driver's transfers and interrupts: the descriptors the controller finds,
  the request lengths for which they are wrong, the failure paths of the descriptor tables, and
  the channels an interrupt serves.
\<close>

section \<open>Time-outs\<close>

text \<open>A time-out can be set when it is 0, or on the first eight channels of a controller with a clock of
  256 Hz to 256 MHz.\<close>

definition timeout_ok :: "pdma \<Rightarrow> nat \<Rightarrow> 32 word \<Rightarrow> bool" where
  "timeout_ok st c idle \<longleftrightarrow> idle = 0 \<or>
     (c mod 10 < 8 \<and> sysclk1 st div 256 \<noteq> 0 \<and> 1000000 div (sysclk1 st div 256) \<noteq> 0)"

lemma keep_DSCT [simp]:
  "DSCT (PDMA_DisableTimeout r b) = DSCT r" "DSCT (PDMA_DisableInt r i PDMA_INT_TIMEOUT) = DSCT r"
  "DSCT (PDMA_EnableInt r i PDMA_INT_TIMEOUT) = DSCT r" "DSCT (PDMA_EnableInt r i PDMA_INT_TRANS_DONE) = DSCT r"
  "DSCT (PDMA_SetTimeOut r i on n) = DSCT r" "DSCT (PDMA_Trigger r i) = DSCT r"
  by (simp_all add: PDMA_DisableTimeout_def PDMA_DisableInt_def PDMA_EnableInt_def PDMA_SetTimeOut_def PDMA_Trigger_def
      PDMA_INT_TIMEOUT_def PDMA_INT_TRANS_DONE_def PDMA_INT_TEMPTY_def Let_def)

lemma timeout_set_eq:
  assumes c: "c < 20" "c \<in> allocated st" and t: "timeout_ok st c idle"
  shows "\<exists>F ret. (\<forall>r. regs_wf (F r) = regs_wf r \<and> DSCT (F r) = DSCT r) \<and> nu_pdma_timeout_set st (int c) (sint idle) =
    Some (ret, upd_regs (c div 10) F (upd_chn c (\<lambda>x. x\<lparr>m_u32IdleTimeout_us := idle\<rparr>) st))"
proof (cases "idle = 0")
  case True
  define F where "F r = PDMA_DisableTimeout (PDMA_DisableInt r (c mod 10) PDMA_INT_TIMEOUT) (bit_of (c mod 10))" for r
  have "nu_pdma_timeout_set st (int c) (sint idle) =
      Some (- RT_EINVAL, upd_regs (c div 10) F (upd_chn c (\<lambda>x. x\<lparr>m_u32IdleTimeout_us := idle\<rparr>) st))"
    using c True by (simp add: nu_pdma_timeout_set_def nonallocated_eq pdma_nums F_def [abs_def] Let_def)
  then show ?thesis by (intro exI conjI allI) (auto simp: F_def)
next
  case False
  then have k: "c mod 10 < 8" "sysclk1 st div 256 \<noteq> 0" "1000000 div (sysclk1 st div 256) \<noteq> 0"
    using t by (simp_all add: timeout_ok_def)
  let ?ticks = "nat (u32 (sint idle)) div (1000000 div (sysclk1 st div 256))"
  let ?dv = "if 7 < ?ticks div 65536 then (7, 65535) else (?ticks div 65536, ?ticks mod 65536)"
  let ?R = "\<lambda>r. PDMA_EnableInt (PDMA_DisableTimeout r (bit_of (c mod 10))) (c mod 10) PDMA_INT_TIMEOUT"
  define G where "G r = r\<lparr>TOUTPSC := (TOUTPSC r AND NOT (push_bit (4 * (c mod 10)) 7)) OR push_bit (4 * (c mod 10)) (of_nat (fst ?dv))\<rparr>" for r :: pdma_regs
  define F where "F r = PDMA_SetTimeOut (G (?R r)) (c mod 10) True (of_nat (snd ?dv))" for r
  have p: "set_prescaler r (c mod 10) (fst ?dv) = Some (G r)" for r
    using k(1) by (simp add: set_prescaler_def G_def RT_ASSERT_def)
  have s: "sint idle \<noteq> 0" using False by (metis of_int_0 of_int_sint scast_id)
  have c10: "c div 10 < 2" using c(1) by auto
  have "nu_pdma_timeout_set st (int c) (sint idle) =
      Some (- RT_EOK, upd_regs (c div 10) F (upd_chn c (\<lambda>x. x\<lparr>m_u32IdleTimeout_us := idle\<rparr>) st))"
    unfolding nu_pdma_timeout_set_def Let_def
    using c s k(2,3) p by (simp add: nonallocated_eq pdma_nums split_def F_def upd_regs_def RT_ASSERT_def)
  moreover have "regs_wf (F r) = regs_wf r \<and> DSCT (F r) = DSCT r" for r
    by (simp add: F_def) (simp add: G_def regs_wf_def, simp add: PDMA_EnableInt_def PDMA_DisableTimeout_def PDMA_INT_TRANS_DONE_def
        PDMA_INT_TEMPTY_def PDMA_INT_TIMEOUT_def)
  ultimately show ?thesis by blast
qed

text \<open>Otherwise the code divides by zero or shifts by 32 bits or more.\<close>

lemma timeout_set_none:
  assumes c: "c < 20" "c \<in> allocated st" and t: "\<not> timeout_ok st c idle"
  shows "nu_pdma_timeout_set st (int c) (sint idle) = None"
proof -
  have "idle \<noteq> 0" using t by (simp add: timeout_ok_def)
  then have s: "sint idle \<noteq> 0" by (metis of_int_0 of_int_sint scast_id)
  have "sysclk1 st div 256 = 0 \<or> 1000000 div (sysclk1 st div 256) = 0 \<or> 8 \<le> c mod 10"
    using t by (auto simp: timeout_ok_def)
  then have "8 \<le> c mod 10 \<or> RT_ASSERT (sysclk1 st div 256 \<noteq> 0) = None \<or>
      RT_ASSERT (1000000 div (sysclk1 st div 256) \<noteq> 0) = None" by (auto simp: RT_ASSERT_def)
  then show ?thesis
    unfolding nu_pdma_timeout_set_def Let_def
    using c s by (auto simp: nonallocated_eq pdma_nums split_def set_prescaler_def RT_ASSERT_def split: if_splits)
qed

section \<open>Starting the controller\<close>

text \<open>The descriptors the controller works off from an address, at most \<open>k\<close> of them: it goes on to the next after
  a descriptor in scatter-gather mode, stops after one in basic mode, and does nothing for an idle one.\<close>

fun table :: "pdma \<Rightarrow> nat \<Rightarrow> 32 word \<Rightarrow> pdma_dsct list" where
  "table st 0 a = []"
| "table st (Suc k) a =
     (let d = descs st (uint a); mode = d_CTL d AND OPMODE_Msk
      in if mode = PDMA_OP_SCATTER then d # table st k (d_NEXT d)
         else if mode = PDMA_OP_BASIC then [d] else [])"

definition linked :: "pdma \<Rightarrow> (nat \<Rightarrow> int) \<Rightarrow> nat \<Rightarrow> bool" where
  "linked st p n \<longleftrightarrow> 0 < n \<and> inj_on p {..<n} \<and> (\<forall>i < n. 0 < p i \<and> p i < 2 ^ 32) \<and>
     (\<forall>i < n. d_NEXT (descs st (p i)) = (if i + 1 = n then 0 else word_of_int (p (i + 1))) \<and>
        d_CTL (descs st (p i)) AND OPMODE_Msk = (if i + 1 = n then PDMA_OP_BASIC else PDMA_OP_SCATTER))"

lemma ptr_word:
  assumes "0 < p" "p < 2 ^ 32"
  shows "uint (word_of_int p :: 32 word) = p" "(word_of_int p :: 32 word) \<noteq> 0"
proof -
  show u: "uint (word_of_int p :: 32 word) = p" using assms by (simp add: uint_word_of_int)
  then show "(word_of_int p :: 32 word) \<noteq> 0" using assms by auto
qed

lemma table_linked:
  assumes l: "linked st p n" and f: "n \<le> k + fuel" "k < n"
  shows "table st fuel (word_of_int (p k)) = map (\<lambda>i. descs st (p i)) [k..<n]"
  using f
proof (induction fuel arbitrary: k)
  case (Suc fuel)
  have p: "0 < p i" "p i < 2 ^ 32" if "i < n" for i using l that by (auto simp: linked_def)
  have nx: "d_NEXT (descs st (p k)) = (if k + 1 = n then 0 else word_of_int (p (k + 1)))"
    "d_CTL (descs st (p k)) AND OPMODE_Msk = (if k + 1 = n then PDMA_OP_BASIC else PDMA_OP_SCATTER)"
    using l Suc.prems(2) by (simp_all add: linked_def)
  have ne: "PDMA_OP_BASIC \<noteq> PDMA_OP_SCATTER" by (simp add: pdma_consts)
  show ?case
  proof (cases "k + 1 = n")
    case True
    then show ?thesis using nx ne ptr_word [OF p [OF Suc.prems(2)]] by (auto simp: Let_def)
  next
    case False
    then have k1: "k + 1 < n" using Suc.prems by simp
    then have "table st fuel (word_of_int (p (k + 1))) = map (\<lambda>i. descs st (p i)) [k + 1..<n]"
      using Suc.IH [of "k + 1"] Suc.prems by simp
    then show ?thesis
      using nx False ptr_word [OF p [OF Suc.prems(2)]] Suc.prems(2) by (simp add: upt_conv_Cons)
  qed
qed simp

lemma flush_linked:
  assumes l: "linked st p n" and k: "k < n"
  shows "flush_loop st (Mem (p 0)) (Mem (p k)) acc =
    Some (acc @ concat (map (\<lambda>i. flush_ranges (descs st (p i)) (Mem (p i))) [k..<n]))"
  using k
proof (induction "n - k" arbitrary: k acc)
  case (Suc m)
  have p: "0 < p i" "p i < 2 ^ 32" if "i < n" for i using l that by (auto simp: linked_def)
  have nx: "d_NEXT (descs st (p k)) = (if k + 1 = n then 0 else word_of_int (p (k + 1)))"
    using l Suc.prems by (simp add: linked_def)
  show ?case
  proof (cases "k + 1 = n")
    case True
    then have "[k..<n] = [k]" by auto
    then show ?thesis using nx True by (subst flush_loop.simps) (simp add: desc_get_def next_ref_def)
  next
    case False
    then have k1: "k + 1 < n" using Suc.prems by simp
    have "0 < n" using k1 by simp
    then have "p (k + 1) \<noteq> p 0" using l k1 by (auto simp: linked_def dest: inj_onD [of p "{..<n}" "k + 1" 0])
    then show ?thesis
      using nx False ptr_word [OF p [OF k1]] Suc.hyps(1) [of "k + 1"] Suc.hyps(2) k1
      by (subst flush_loop.simps) (simp add: desc_get_def next_ref_def upt_conv_Cons Suc.prems)
  qed
qed simp

definition moded :: "pdma_dsct \<Rightarrow> bool \<Rightarrow> 32 word \<Rightarrow> pdma_dsct" where
  "moded d scatter a = (if scatter then d\<lparr>d_NEXT := a, d_CTL := (d_CTL d AND NOT OPMODE_Msk) OR PDMA_OP_SCATTER\<rparr>
     else d\<lparr>d_CTL := (d_CTL d AND NOT OPMODE_Msk) OR PDMA_OP_BASIC\<rparr>)"

lemma DSCT_SetTransferMode:
  assumes "i < 10"
  shows "DSCT (PDMA_SetTransferMode r i periph scatter a) = (DSCT r)[i := moded (DSCT r ! i) scatter a]"
  using assms by (simp add: PDMA_SetTransferMode_def pdma_nums upd_desc_def moded_def Let_def)

text \<open>What starting a transfer does before it is triggered.\<close>

definition started :: "pdma \<Rightarrow> nat \<Rightarrow> bool \<Rightarrow> 32 word \<Rightarrow> (32 word \<times> 32 word) list \<Rightarrow> pdma \<Rightarrow> bool" where
  "started st c scatter a ranges st' \<longleftrightarrow> pdma_wf st' \<and> same_mem st st' \<and> allocated st' = allocated st \<and>
     flushed st' = flushed st @ ranges \<and> map (m_u32IdleTimeout_us_update (\<lambda>_. 0)) (chn st') = map (m_u32IdleTimeout_us_update (\<lambda>_. 0)) (chn st) \<and>
     DSCT (regs st' ! (c div 10)) ! (c mod 10) = moded (DSCT (regs st ! (c div 10)) ! (c mod 10)) scatter a"

lemma start_eq:
  assumes wf: "pdma_wf st" and c: "c < 20" "c \<in> allocated st" and t: "timeout_ok st c idle"
    and f: "flush_loop st head head [] = Some ranges"
  shows "\<exists>st'. nu_pdma_start call st (int c) periph head idle = Some (nu_pdma_fire call st' c periph) \<and>
    started st c (d_NEXT (desc_get st head) \<noteq> 0) (desc_addr head) ranges st'"
proof -
  define sc where "sc = (d_NEXT (desc_get st head) \<noteq> 0)"
  let ?m = "c div 10" and ?i = "c mod 10"
  have m: "?m < 2" using c(1) by auto
  define st1 where "st1 = st\<lparr>flushed := flushed st @ ranges\<rparr>"
  define G where "G r = PDMA_EnableInt (PDMA_SetTransferMode (PDMA_DisableTimeout r (bit_of ?i)) ?i periph sc (desc_addr head))
      ?i PDMA_INT_TRANS_DONE" for r
  have d: "d_NEXT (desc_get (upd_regs ?m (\<lambda>r. PDMA_DisableTimeout r (bit_of ?i)) st1) head) = d_NEXT (desc_get st head)"
  proof (cases head)
    case (Reg k j)
    then show ?thesis using wfD(3) [OF wf] m by (cases "k = ?m") (simp_all add: desc_get_def st1_def)
  qed (simp add: desc_get_def st1_def)
  define st4 where "st4 = upd_regs ?m G st1"
  have a4: "c \<in> allocated st4" "timeout_ok st4 c idle" using c t by (simp_all add: st4_def st1_def allocated_def timeout_ok_def)
  obtain F ret where F: "\<And>r. regs_wf (F r) = regs_wf r" "\<And>r. DSCT (F r) = DSCT r" "nu_pdma_timeout_set st4 (int c) (sint idle) =
      Some (ret, upd_regs ?m F (upd_chn c (\<lambda>x. x\<lparr>m_u32IdleTimeout_us := idle\<rparr>) st4))"
    using timeout_set_eq [OF c(1) a4] by blast
  define st5 where "st5 = upd_regs ?m F (upd_chn c (\<lambda>x. x\<lparr>m_u32IdleTimeout_us := idle\<rparr>) st4)"
  have g: "nu_pdma_get_channel_desc st1 (int c) = Some (Some (Reg ?m ?i))"
    using c by (simp add: nu_pdma_get_channel_desc_def nonallocated_eq pdma_nums st1_def allocated_def)
  have run: "nu_pdma_start call st (int c) periph head idle = Some (nu_pdma_fire call st5 c periph)"
  proof -
    have "upd_regs ?m (\<lambda>r. PDMA_EnableInt (PDMA_SetTransferMode (PDMA_DisableTimeout r (bit_of ?i)) ?i periph sc (desc_addr head))
        ?i PDMA_INT_TRANS_DONE) st1 = st4" by (simp add: st4_def G_def [abs_def])
    then show ?thesis
      unfolding nu_pdma_start_def Let_def
      using f g F(3) d c(1) by (simp add: pdma_nums sc_def st5_def flip: st1_def)
  qed
  have w1: "pdma_wf st1" using wf by (simp add: st1_def pdma_wf_def)
  have wG: "regs_wf (G r) = regs_wf r" for r by (simp add: G_def)
  have w5: "pdma_wf st5" using w1 wG F(1) by (simp add: st5_def st4_def)
  have l: "length (regs st) = 2" "length (chn st) = 20" using wfD [OF wf] by simp_all
  have "DSCT (regs st5 ! ?m) ! ?i = moded (DSCT (regs st ! ?m) ! ?i) sc (desc_addr head)"
  proof -
    have "DSCT (regs st5 ! ?m) = DSCT (G (regs st ! ?m))" using m l F(2) by (simp add: st5_def st4_def st1_def)
    moreover have "?i < length (DSCT (regs st ! ?m))" using wfD(4) [OF wf m] by (simp add: regs_wf_def)
    ultimately show ?thesis by (simp add: G_def DSCT_SetTransferMode)
  qed
  moreover have "map (m_u32IdleTimeout_us_update (\<lambda>_. 0)) (chn st5) = map (m_u32IdleTimeout_us_update (\<lambda>_. 0)) (chn st)"
  proof -
    have "chn st5 = (chn st)[c := (chn st ! c)\<lparr>m_u32IdleTimeout_us := idle\<rparr>]" by (simp add: st5_def st4_def st1_def)
    then show ?thesis using c(1) l by (intro nth_equalityI) (simp_all add: nth_list_update)
  qed
  ultimately have "started st c sc (desc_addr head) ranges st5"
    using w5 by (simp add: started_def same_mem_def) (simp add: st5_def st4_def st1_def allocated_def)
  then show ?thesis using run unfolding sc_def by blast
qed

section \<open>Obtaining a table\<close>

lemma live_below: "smem_wf m \<Longrightarrow> (r, k) \<in> smem_live m \<Longrightarrow> r + k \<le> 2 ^ 32 - 32"
proof -
  assume wf: "smem_wf m" and l: "(r, k) \<in> smem_live m"
  obtain bs where "smem_inv m bs" using wf by (auto simp: smem_wf_def)
  then have "heap_ptr m + heap_end m + 32 \<le> 4294967296" by (auto simp: smem_inv_def smem_ok_def)
  then show ?thesis using smem_live_range(3) [OF wf l] by simp
qed

definition inside :: "rt_small_mem \<Rightarrow> int \<Rightarrow> bool" where
  "inside m p \<longleftrightarrow> (\<exists>(r, k) \<in> smem_live m. r < p \<and> p < r + k)"

lemma malloc_align_inside:
  assumes wf: "smem_wf m" and al: "align = 2 ^ j" "4 \<le> align" and sz: "0 < sz" "sz + align \<le> 4294967200"
    and run: "rt_malloc_align m sz align = Some (p, m')" and p: "p \<noteq> 0"
  shows "smem_wf m'" "inside m' p" "0 < p" "p < 2 ^ 32" "inside m q \<Longrightarrow> inside m' q" "inside m q \<Longrightarrow> q \<noteq> p"
proof -
  from malloc_align_roundtrip [OF wf al sz] run p obtain r k where
    1: "smem_wf m'" "r + 4 \<le> p" "p + sz \<le> r + k" "(r, k) \<notin> smem_live m" "smem_live m' = insert (r, k) (smem_live m)"
    by auto
  have l: "(r, k) \<in> smem_live m'" by (simp add: 1)
  show "smem_wf m'" by (rule 1)
  show "inside m' p" unfolding inside_def using l 1(2,3) sz(1) by (intro bexI [of _ "(r, k)"]) auto
  show "0 < p" "p < 2 ^ 32" using smem_live_range(5) [OF 1(1) l] live_below [OF 1(1) l] 1(2,3) sz(1) by simp_all
  show "inside m q \<Longrightarrow> inside m' q" by (auto simp: inside_def 1)
  show "inside m q \<Longrightarrow> q \<noteq> p"
  proof
    assume "inside m q" "q = p"
    then obtain r' k' where q: "(r', k') \<in> smem_live m" "r' < p" "p < r' + k'" by (auto simp: inside_def)
    then have l': "(r', k') \<in> smem_live m'" "(r', k') \<noteq> (r, k)" using 1 by auto
    then show False using smem_live_range(6) [OF 1(1) l l'(1)] q 1(2,3) sz(1) by auto
  qed
qed

lemma allocate_loop:
  assumes "sgtbls_allocate_loop st base [k..<n] = Some st'" "smem_wf (heap st)" "k \<le> n"
    "inj_on p {..<k}" "\<And>i. i < k \<Longrightarrow> inside (heap st) (p i) \<and> 0 < p i \<and> p i < 2 ^ 32"
    "\<And>i. i < k \<Longrightarrow> p i = sgtbl st (base + 4 * int i)"
  shows "smem_wf (heap st') \<and> (\<forall>i < n. 0 < sgtbl st' (base + 4 * int i) \<and> sgtbl st' (base + 4 * int i) < 2 ^ 32) \<and>
    inj_on (\<lambda>i. sgtbl st' (base + 4 * int i)) {..<n} \<and>
    (\<exists>h s d. st' = st\<lparr>heap := h, sgtbl := s, descs := d\<rparr>)"
  using assms
proof (induction "n - k" arbitrary: k st p)
  case 0
  then have "k = n" by simp
  then have st': "st' = st" using 0 by simp
  have "inj_on (\<lambda>i. sgtbl st (base + 4 * int i)) {..<n}"
    using 0(5,7) \<open>k = n\<close> by (auto simp: inj_on_def)
  then show ?case using 0(3,6,7) \<open>k = n\<close> unfolding st' by (intro conjI exI [of _ "heap st"] exI [of _ "sgtbl st"] exI [of _ "descs st"]) auto
next
  case (Suc m)
  have kn: "k < n" using Suc.hyps(2) by simp
  from Suc.prems(1) obtain q h where q: "rt_malloc_align (heap st) 64 64 = Some (q, h)" "q \<noteq> 0"
    "sgtbls_allocate_loop (st\<lparr>heap := h, sgtbl := (sgtbl st)(base + 4 * int k := q), descs := (descs st)(q := zero_dsct)\<rparr>)
       base [Suc k..<n] = Some st'"
    unfolding upt_conv_Cons [OF kn] by (auto simp: bind_eq_Some_conv simp del: fun_upd_apply)
  define st1 where "st1 = st\<lparr>heap := h, sgtbl := (sgtbl st)(base + 4 * int k := q), descs := (descs st)(q := zero_dsct)\<rparr>"
  note A = malloc_align_inside [OF Suc.prems(2), of 64 6 64, OF _ _ _ _ q(1,2), simplified]
  have p1: "inside h ((p(k := q)) i) \<and> 0 < (p(k := q)) i \<and> (p(k := q)) i < 2 ^ 32" if "i < Suc k" for i
    using that A Suc.prems(5) [of i] by (cases "i = k") auto
  have p2: "(p(k := q)) i = sgtbl st1 (base + 4 * int i)" if "i < Suc k" for i
    using that Suc.prems(6) [of i] by (cases "i = k") (auto simp: st1_def)
  have p3: "inj_on (p(k := q)) {..<Suc k}"
  proof -
    have nq: "p i \<noteq> q \<and> q \<noteq> p i" if "i < k" for i using A(6) [of "p i"] Suc.prems(5) [OF that] by auto
    show ?thesis
    proof (rule inj_onI)
      fix x y assume "x \<in> {..<Suc k}" "y \<in> {..<Suc k}" and e: "(p(k := q)) x = (p(k := q)) y"
      then have x: "x < k \<or> x = k" "y < k \<or> y = k" by auto
      show "x = y"
      proof (cases "x = k \<or> y = k")
        case True
        then show ?thesis using e x nq [of x] nq [of y] by (auto simp: fun_upd_def split: if_splits)
      next
        case False
        then have "p x = p y" "x < k" "y < k" using e x by simp_all
        then show ?thesis using Suc.prems(4) by (simp add: inj_on_def)
      qed
    qed
  qed
  have "smem_wf (heap st1)" "sgtbls_allocate_loop st1 base [Suc k..<n] = Some st'" using A(1) q(3) by (simp_all add: st1_def)
  then have "smem_wf (heap st') \<and> (\<forall>i < n. 0 < sgtbl st' (base + 4 * int i) \<and> sgtbl st' (base + 4 * int i) < 2 ^ 32) \<and>
    inj_on (\<lambda>i. sgtbl st' (base + 4 * int i)) {..<n} \<and>
    (\<exists>h s d. st' = st1\<lparr>heap := h, sgtbl := s, descs := d\<rparr>)"
    using Suc.hyps(1) [of "Suc k" st1 "p(k := q)"] Suc.hyps(2) kn p1 p2 p3 by (simp add: st1_def)
  then show ?case by (auto simp: st1_def)
qed

text \<open>An address handed out by \<^verbatim>\<open>rt_malloc_align\<close> and not yet released: the word in front of it names the live
  block \<open>r\<close> it lies in.\<close>

definition held :: "rt_small_mem \<Rightarrow> int \<Rightarrow> int \<Rightarrow> bool" where
  "held m p r \<longleftrightarrow> (\<exists>k. (r, k) \<in> smem_live m \<and> r + 4 \<le> p \<and> p \<le> r + k \<and> load_ptr (heap_bytes m) (p - 4) = r)"

lemma malloc_align_held:
  assumes wf: "smem_wf m" and al: "align = 2 ^ j" "4 \<le> align" and sz: "0 < sz" "sz + align \<le> 4294967200"
    and run: "rt_malloc_align m sz align = Some (p, m')" and p: "p \<noteq> 0"
  shows "\<exists>r. smem_wf m' \<and> held m' p r \<and> (\<forall>q s. held m q s \<longrightarrow> held m' q s \<and> s \<noteq> r)"
proof -
  define n where "n = 4 * ((sz + 3) div 4) + align"
  have n: "0 < n" "n \<le> 4294967264" "sz + align \<le> n" using sz al by (auto simp: n_def)
  note un = malloc_align_unfold [OF al sz, of m, folded n_def]
  from wf n(1,2) show ?thesis
  proof (cases rule: malloc_cases)
    case 1
    then show ?thesis using un run p by simp
  next
    case (2 r k m1)
    define q where "q = (if r AND (align - 1) = 0 then u32 (r + align) else u32 (r + (align - 1)) AND NOT (align - 1))"
    have q: "r + 4 \<le> q" "q \<le> r + align"
      using align_ptr_bounds [OF al 2(7,6) _ q_def] 2(5,10) n(3) sz by auto
    have m': "p = q" "m' = m1\<lparr>heap_bytes := store_ptr (heap_bytes m1) (q - 4) r\<rparr>"
      using un 2(1,6) run by (simp_all add: q_def Let_def)
    have l: "load_ptr (store_ptr (heap_bytes m1) (q - 4) r) (q - 4) = r"
      using load_store_ptr [of r] 2(5,6,10) n(1) by simp
    have rk: "(r, k) \<in> smem_live m'" "q \<le> r + k" using 2(5,8) m' q(2) n(3) sz(1) by simp_all
    have "held m' p r" using l m' q(1) rk by (auto simp: held_def)
    moreover have "held m' x s \<and> s \<noteq> r" if h: "held m x s" for x s
    proof -
      obtain l where l: "(s, l) \<in> smem_live m" "s + 4 \<le> x" "x \<le> s + l" "load_ptr (heap_bytes m) (x - 4) = s"
        using h by (auto simp: held_def)
      have s: "(s, l) \<in> smem_live m1" "(r, k) \<in> smem_live m1" "(s, l) \<noteq> (r, k)" using l(1) 2(8,9) by auto
      then have ap: "r + k \<le> s \<or> s + l \<le> r" using smem_live_range(6) [OF 2(2) s(2,1)] by auto
      have "load_ptr (store_ptr (heap_bytes m1) (q - 4) r) (x - 4) = load_ptr (heap_bytes m) (x - 4)"
        by (rule load_ptr_cong) (use ap l(2,3) q(1) rk(2) 2(4) in \<open>auto simp: store_ptr_def\<close>)
      then have "held m' x s" using l s m' by (auto simp: held_def)
      moreover have "s \<noteq> r" using ap l(2,3) q(1) rk(2) by auto
      ultimately show ?thesis by blast
    qed
    ultimately show ?thesis using 2(2) m' by (intro exI [of _ r]) simp
  qed
qed

lemma free_align_held:
  assumes wf: "smem_wf m" and p: "held m p r"
  shows "\<exists>m'. rt_free_align m p = Some m' \<and> smem_wf m' \<and> (\<forall>q s. held m q s \<and> s \<noteq> r \<longrightarrow> held m' q s)"
proof -
  obtain k where k: "(r, k) \<in> smem_live m" "r + 4 \<le> p" "load_ptr (heap_bytes m) (p - 4) = r"
    using p by (auto simp: held_def)
  have r: "0 < r" using smem_live_range(5) [OF wf k(1)] .
  obtain m' where "rt_smem_free m r = Some m'" "smem_wf m'" "heap_bytes m' = heap_bytes m"
      "smem_live m' = smem_live m - {(r, k)}"
    using smem_free_wf [OF wf k(1)] by blast
  then show ?thesis using k r by (auto simp: rt_free_align_def rt_free_def held_def)
qed

text \<open>The channel has a table that the driver obtained: its blocks and the array of their addresses, all different.\<close>

definition sg_held :: "pdma \<Rightarrow> nat \<Rightarrow> bool" where
  "sg_held st c \<longleftrightarrow> m_ppsSgtbl (chn st ! c) \<noteq> 0 \<and> 0 < m_u32WantedSGTblNum (chn st ! c) \<and>
     (\<exists>rs. distinct rs \<and> list_all2 (held (heap st))
        (map (sg_ptr st c) [0..<m_u32WantedSGTblNum (chn st ! c)] @ [m_ppsSgtbl (chn st ! c)]) rs)"

lemma held_after:
  assumes "list_all2 (held m) ps rs" "\<forall>q s. held m q s \<and> s \<noteq> r \<longrightarrow> held m' q s" "r \<notin> set rs"
  shows "list_all2 (held m') ps rs"
  unfolding list_all2_conv_all_nth
proof (intro conjI allI impI)
  show "length ps = length rs" using assms(1) by (rule list_all2_lengthD)
  fix i assume i: "i < length ps"
  have "held m (ps ! i) (rs ! i)" using assms(1) i by (rule list_all2_nthD)
  moreover have "rs ! i \<noteq> r" using assms(1,3) i nth_mem [of i rs] by (auto dest: list_all2_lengthD)
  ultimately show "held m' (ps ! i) (rs ! i)" using assms(2) by blast
qed

lemma held_fresh:
  assumes "list_all2 (held m) ps rs" "\<forall>p s. held m p s \<longrightarrow> held h p s \<and> s \<noteq> r"
  shows "list_all2 (held h) ps rs" "r \<notin> set rs"
proof -
  have a: "held h (ps ! i) (rs ! i) \<and> rs ! i \<noteq> r" if "i < length ps" for i
    using assms(2) list_all2_nthD [OF assms(1) that] by blast
  have l: "length ps = length rs" using assms(1) by (rule list_all2_lengthD)
  show "list_all2 (held h) ps rs" using a l by (simp add: list_all2_conv_all_nth)
  show "r \<notin> set rs" using a l by (auto simp: in_set_conv_nth)
qed

lemma free_loop_held:
  assumes "smem_wf (heap st)" "distinct rs"
    "list_all2 (held (heap st)) (map (\<lambda>i. sgtbl st (base + 4 * int i)) is @ qs) rs"
  shows "\<exists>h. sgtbls_free_loop st base is = Some (st\<lparr>heap := h\<rparr>) \<and> smem_wf h \<and>
    list_all2 (held h) qs (drop (length is) rs)"
  using assms
proof (induction "is" arbitrary: st rs)
  case Nil
  then show ?case by (intro exI [of _ "heap st"]) simp
next
  case (Cons i "is")
  obtain r rs' where rs: "rs = r # rs'" "held (heap st) (sgtbl st (base + 4 * int i)) r"
      "list_all2 (held (heap st)) (map (\<lambda>i. sgtbl st (base + 4 * int i)) is @ qs) rs'"
    using Cons.prems(3) by (auto simp: list_all2_Cons1)
  obtain h where h: "rt_free_align (heap st) (sgtbl st (base + 4 * int i)) = Some h" "smem_wf h"
      "\<forall>q s. held (heap st) q s \<and> s \<noteq> r \<longrightarrow> held h q s"
    using free_align_held [OF Cons.prems(1) rs(2)] by blast
  have "list_all2 (held h) (map (\<lambda>i. sgtbl st (base + 4 * int i)) is @ qs) rs'"
    by (rule held_after [OF rs(3) h(3)]) (use Cons.prems(2) rs(1) in simp)
  then show ?case using Cons.IH [of "st\<lparr>heap := h\<rparr>" rs'] h(1,2) Cons.prems(2) rs(1) by simp
qed

text \<open>A table of another size is released first, and the channel is as if it had none.\<close>

lemma tables_released:
  assumes wf: "pdma_wf st" "smem_wf (heap st)" and c: "c < 20" and h: "sg_held st c"
    and n: "m_u32WantedSGTblNum (chn st ! c) \<noteq> n" "0 < n"
  shows "\<exists>st1 hp. st1 = upd_chn c (\<lambda>y. y\<lparr>m_ppsSgtbl := 0, m_u32WantedSGTblNum := 0\<rparr>) (st\<lparr>heap := hp\<rparr>) \<and>
    chain_tables st c n = chain_tables st1 c n \<and> smem_wf (heap st1)"
proof -
  let ?x = "chn st ! c"
  have l: "length (chn st) = 20" using wf by (simp add: pdma_wf_def)
  obtain rs where rs: "distinct rs"
      "list_all2 (held (heap st)) (map (sg_ptr st c) [0..<m_u32WantedSGTblNum ?x] @ [m_ppsSgtbl ?x]) rs"
    using h by (auto simp: sg_held_def)
  obtain h1 where h1: "sgtbls_free_loop st (m_ppsSgtbl ?x) [0..<m_u32WantedSGTblNum ?x] = Some (st\<lparr>heap := h1\<rparr>)" "smem_wf h1"
      "list_all2 (held h1) [m_ppsSgtbl ?x] (drop (m_u32WantedSGTblNum ?x) rs)"
    using free_loop_held [OF wf(2) rs(1), of "m_ppsSgtbl ?x" "[0..<m_u32WantedSGTblNum ?x]" "[m_ppsSgtbl ?x]"] rs(2)
    by (auto simp: sg_ptr_def [abs_def])
  obtain r where "held h1 (m_ppsSgtbl ?x) r" using h1(3) by (auto simp: list_all2_Cons1)
  then obtain h2 where h2: "rt_free_align h1 (m_ppsSgtbl ?x) = Some h2" "smem_wf h2"
    using free_align_held [OF h1(2)] by blast
  let ?st1 = "upd_chn c (\<lambda>y. y\<lparr>m_ppsSgtbl := 0, m_u32WantedSGTblNum := 0\<rparr>) (st\<lparr>heap := h2\<rparr>)"
  have "nu_pdma_free_sgtbls st c = Some ?st1"
    using h h1(1) h2(1) by (simp add: sg_held_def nu_pdma_free_sgtbls_def nu_pdma_sgtbls_free_def Let_def)
  then have "chain_tables st c n = chain_tables ?st1 c n"
    using h n c l by (simp add: chain_tables_def sg_held_def)
  then show ?thesis using h2(2) by (intro exI [of _ ?st1] exI [of _ h2]) simp
qed

text \<open>A table the driver obtains is one it can release.\<close>

lemma allocate_loop_held:
  assumes "sgtbls_allocate_loop st base is = Some st'" "smem_wf (heap st)" "distinct is"
    "list_all2 (held (heap st)) qs rs" "distinct rs"
  shows "smem_wf (heap st') \<and> (\<forall>j. j \<notin> set is \<longrightarrow> sgtbl st' (base + 4 * int j) = sgtbl st (base + 4 * int j)) \<and>
    chn st' = chn st \<and>
    (\<exists>rs'. distinct rs' \<and> list_all2 (held (heap st')) (map (\<lambda>i. sgtbl st' (base + 4 * int i)) is @ qs) rs')"
  using assms
proof (induction "is" arbitrary: st qs rs)
  case Nil
  then show ?case by auto
next
  case (Cons i "is")
  let ?b = "\<lambda>st j. sgtbl st (base + 4 * int j)"
  obtain q h where q: "rt_malloc_align (heap st) 64 64 = Some (q, h)" "q \<noteq> 0"
    "sgtbls_allocate_loop (st\<lparr>heap := h, sgtbl := (sgtbl st)(base + 4 * int i := q), descs := (descs st)(q := zero_dsct)\<rparr>)
       base is = Some st'"
    using Cons.prems(1) by (auto simp: bind_eq_Some_conv simp del: fun_upd_apply)
  define st1 where "st1 = st\<lparr>heap := h, sgtbl := (sgtbl st)(base + 4 * int i := q), descs := (descs st)(q := zero_dsct)\<rparr>"
  obtain r where r: "smem_wf h" "held h q r" "\<forall>p s. held (heap st) p s \<longrightarrow> held h p s \<and> s \<noteq> r"
    using malloc_align_held [OF Cons.prems(2), of 64 6 64, OF _ _ _ _ q(1,2)] by auto
  have "list_all2 (held (heap st1)) (qs @ [q]) (rs @ [r])" "distinct (rs @ [r])"
    using r(2) Cons.prems(5) held_fresh [OF Cons.prems(4) r(3)] by (simp_all add: st1_def list_all2_appendI)
  from Cons.IH [OF q(3) [folded st1_def] _ _ this] obtain rs' where IH: "smem_wf (heap st')"
      "\<And>j. j \<notin> set is \<Longrightarrow> ?b st' j = ?b st1 j" "chn st' = chn st1" "distinct rs'"
      "list_all2 (held (heap st')) ((map (?b st') is @ qs) @ [q]) rs'"
    using r(1) Cons.prems(3) by (auto simp: st1_def)
  obtain ss vs where sv: "rs' = ss @ vs" "list_all2 (held (heap st')) (map (?b st') is @ qs) ss"
      "list_all2 (held (heap st')) [q] vs"
    using list_all2_append1 [THEN iffD1, OF IH(5)] by blast
  then obtain r' where ss: "rs' = ss @ [r']" "held (heap st') q r'" by (auto simp: list_all2_Cons1)
  have "?b st' i = q" using IH(2) [of i] Cons.prems(3) by (simp add: st1_def)
  then have "list_all2 (held (heap st')) (map (?b st') (i # is) @ qs) (r' # ss)" "distinct (r' # ss)"
    using ss sv(2) IH(4) by simp_all
  moreover have "?b st' j = ?b st j" if "j \<notin> set (i # is)" for j
    using IH(2) [of j] that by (simp add: st1_def)
  moreover have "chn st' = chn st" using IH(3) by (simp add: st1_def)
  ultimately show ?case using IH(1) by blast
qed

lemma tables_held:
  assumes wf: "pdma_wf st" "smem_wf (heap st)" and c: "c < 20" and n: "0 < n" "n \<le> 65536"
    and none: "m_u32WantedSGTblNum (chn st ! c) = 0" and run: "chain_tables st c n = Some (RT_EOK, st')"
  shows "sg_held st' c" "smem_wf (heap st')"
proof -
  have l: "length (chn st) = 20" using wf by (simp add: pdma_wf_def)
  let ?st2 = "upd_chn c (\<lambda>y. y\<lparr>m_u32WantedSGTblNum := n\<rparr>) st"
  from run none n obtain base h where b: "rt_malloc_align (heap st) (4 * int n) 4 = Some (base, h)" "base \<noteq> 0"
    "nu_pdma_sgtbls_allocate (upd_chn c (\<lambda>y. y\<lparr>m_ppsSgtbl := base\<rparr>) (?st2\<lparr>heap := h\<rparr>)) base n = Some (RT_EOK, st')"
    by (auto simp: chain_tables_def bind_eq_Some_conv Let_def RT_ERROR_def RT_EOK_def split: if_splits)
  define st3 where "st3 = upd_chn c (\<lambda>y. y\<lparr>m_ppsSgtbl := base\<rparr>) (?st2\<lparr>heap := h\<rparr>)"
  have hs: "heap st3 = h" by (simp add: st3_def)
  obtain r where r: "smem_wf h" "held h base r"
    using malloc_align_held [OF wf(2), of 4 2 "4 * int n", OF _ _ _ _ b(1,2)] n by auto
  have run3: "sgtbls_allocate_loop st3 base [0..<n] = Some st'"
    using b(3) unfolding st3_def [symmetric] by (auto simp: nu_pdma_sgtbls_allocate_def bind_eq_Some_conv)
  have h3: "list_all2 (held (heap st3)) [base] [r]" using r(2) by (simp add: hs)
  have A: "smem_wf (heap st')" "chn st' = chn st3"
      "\<exists>rs'. distinct rs' \<and> list_all2 (held (heap st')) (map (\<lambda>i. sgtbl st' (base + 4 * int i)) [0..<n] @ [base]) rs'"
    using allocate_loop_held [OF run3 _ _ h3] r(1) by (simp_all add: hs)
  have x: "m_ppsSgtbl (chn st' ! c) = base" "m_u32WantedSGTblNum (chn st' ! c) = n"
    using A(2) c l by (simp_all add: st3_def)
  show "sg_held st' c" using A(3) b(2) n by (simp add: sg_held_def x sg_ptr_def [abs_def])
  show "smem_wf (heap st')" by (rule A(1))
qed

text \<open>A table for a channel that has none, or one of the right size already, or one of another size.\<close>

lemma tables_ready_none:
  assumes wf: "pdma_wf st" "smem_wf (heap st)" and c: "c < 20" and n: "0 < n" "n \<le> 65536"
    and pre: "sg_ready st c n \<or> m_u32WantedSGTblNum (chn st ! c) = 0"
    and run: "chain_tables st c n = Some (RT_EOK, st')"
  shows "sg_ready st' c n" "pdma_wf st'" "allocated st' = allocated st" "sysclk1 st' = sysclk1 st" "regs st' = regs st"
    "m_eMemCtl (chn st' ! c) = m_eMemCtl (chn st ! c)" "m_u32Peripheral (chn st' ! c) = m_u32Peripheral (chn st ! c)"
    "inited st' = inited st"
proof -
  have l: "length (chn st) = 20" using wf by (simp add: pdma_wf_def)
  have "sg_ready st' c n \<and> pdma_wf st' \<and> allocated st' = allocated st \<and> sysclk1 st' = sysclk1 st \<and> regs st' = regs st \<and>
    m_eMemCtl (chn st' ! c) = m_eMemCtl (chn st ! c) \<and> m_u32Peripheral (chn st' ! c) = m_u32Peripheral (chn st ! c) \<and>
    inited st' = inited st"
  proof (cases "sg_ready st c n")
    case True
    then show ?thesis using run wf(1) by (simp add: chain_tables_def sg_ready_def)
  next
    case False
    then have w0: "m_u32WantedSGTblNum (chn st ! c) = 0" using pre by simp
    let ?st2 = "upd_chn c (\<lambda>y. y\<lparr>m_u32WantedSGTblNum := n\<rparr>) st"
    from run w0 n obtain base h where b: "rt_malloc_align (heap st) (4 * int n) 4 = Some (base, h)" "base \<noteq> 0"
      "nu_pdma_sgtbls_allocate (upd_chn c (\<lambda>y. y\<lparr>m_ppsSgtbl := base\<rparr>) (?st2\<lparr>heap := h\<rparr>)) base n = Some (RT_EOK, st')"
      by (auto simp: chain_tables_def bind_eq_Some_conv Let_def RT_ERROR_def RT_EOK_def split: if_splits)
    define st3 where "st3 = upd_chn c (\<lambda>y. y\<lparr>m_ppsSgtbl := base\<rparr>) (?st2\<lparr>heap := h\<rparr>)"
    note A = malloc_align_inside [OF wf(2), of 4 2 "4 * int n", OF _ _ _ _ b(1,2), simplified]
    have h: "smem_wf (heap st3)" using A(1) n by (simp add: st3_def)
    have "sgtbls_allocate_loop st3 base [0..<n] = Some st'"
      using b(3) unfolding st3_def [symmetric] by (auto simp: nu_pdma_sgtbls_allocate_def bind_eq_Some_conv)
    from allocate_loop [OF this h, of "\<lambda>_. 0"] obtain h' s d where
      p: "\<forall>i < n. 0 < sgtbl st' (base + 4 * int i) \<and> sgtbl st' (base + 4 * int i) < 2 ^ 32"
      "inj_on (\<lambda>i. sgtbl st' (base + 4 * int i)) {..<n}" "st' = st3\<lparr>heap := h', sgtbl := s, descs := d\<rparr>"
      by auto
    have ch: "chn st' = (chn st)[c := (chn st ! c)\<lparr>m_u32WantedSGTblNum := n, m_ppsSgtbl := base\<rparr>]"
      using c l by (simp add: p(3) st3_def)
    have "sg_ready st' c n" using p(1,2) b(2) c l by (simp add: sg_ready_def sg_ptr_def [abs_def] ch)
    moreover have "pdma_wf st' = pdma_wf st" using l by (simp add: pdma_wf_def p(3) st3_def)
    moreover have "allocated st' = allocated st" by (simp add: allocated_def p(3) st3_def)
    ultimately show ?thesis using wf(1) c l by (simp add: ch) (simp add: p(3) st3_def)
  qed
  then show "sg_ready st' c n" "pdma_wf st'" "allocated st' = allocated st" "sysclk1 st' = sysclk1 st" "regs st' = regs st"
    "m_eMemCtl (chn st' ! c) = m_eMemCtl (chn st ! c)" "m_u32Peripheral (chn st' ! c) = m_u32Peripheral (chn st ! c)"
    "inited st' = inited st" by simp_all
qed

lemma tables_ready:
  assumes wf: "pdma_wf st" "smem_wf (heap st)" and c: "c < 20" and n: "0 < n" "n \<le> 65536"
    and pre: "sg_ready st c n \<or> m_u32WantedSGTblNum (chn st ! c) = 0 \<or> sg_held st c \<and> m_u32WantedSGTblNum (chn st ! c) \<noteq> n"
    and run: "chain_tables st c n = Some (RT_EOK, st')"
  shows "sg_ready st' c n \<and> pdma_wf st' \<and> allocated st' = allocated st \<and> sysclk1 st' = sysclk1 st \<and> regs st' = regs st \<and>
    m_eMemCtl (chn st' ! c) = m_eMemCtl (chn st ! c) \<and> m_u32Peripheral (chn st' ! c) = m_u32Peripheral (chn st ! c) \<and>
    inited st' = inited st"
proof (cases "sg_ready st c n \<or> m_u32WantedSGTblNum (chn st ! c) = 0")
  case True
  then show ?thesis using tables_ready_none [OF wf c n _ run] by simp
next
  case False
  then have h: "sg_held st c" "m_u32WantedSGTblNum (chn st ! c) \<noteq> n" using pre by simp_all
  obtain st1 hp where 1: "st1 = upd_chn c (\<lambda>y. y\<lparr>m_ppsSgtbl := 0, m_u32WantedSGTblNum := 0\<rparr>) (st\<lparr>heap := hp\<rparr>)"
      "chain_tables st c n = chain_tables st1 c n" "smem_wf (heap st1)"
    using tables_released [OF wf c h n(1)] by blast
  have l: "length (chn st) = 20" using wf by (simp add: pdma_wf_def)
  have wf1: "pdma_wf st1" using wf(1) by (simp add: 1(1) pdma_wf_def)
  have none: "sg_ready st1 c n \<or> m_u32WantedSGTblNum (chn st1 ! c) = 0" using c l by (simp add: 1(1))
  have "allocated st1 = allocated st" by (simp add: 1(1) allocated_def)
  then show ?thesis
    using tables_ready_none [OF wf1 1(3) c n none run [unfolded 1(2)]] c l by (simp add: 1(1))
qed

section \<open>Chained transfers\<close>

text \<open>What the controller finds after the driver has started it on a table: the register of the channel in
  scatter-gather mode with the address of the first descriptor, and the descriptors from there.\<close>

definition table_at :: "pdma \<Rightarrow> nat \<Rightarrow> nat \<Rightarrow> pdma_dsct list \<Rightarrow> bool" where
  "table_at st c n ds \<longleftrightarrow> (let d = DSCT (regs st ! (c div 10)) ! (c mod 10) in
     d_CTL d AND OPMODE_Msk = PDMA_OP_SCATTER \<and> length ds = n \<and> (\<forall>fuel. n \<le> fuel \<longrightarrow> table st fuel (d_NEXT d) = ds))"

lemma scatter_mode: "((w AND NOT OPMODE_Msk) OR PDMA_OP_SCATTER) AND OPMODE_Msk = PDMA_OP_SCATTER"
proof -
  have "((w AND NOT 3) OR 2) AND 3 = (2 :: 32 word)"
    by (simp add: bit.conj_disj_distrib2 and.assoc)
  then show ?thesis by (simp add: pdma_consts)
qed

lemma filled_mode:
  assumes "width = 8 \<or> width = 16 \<or> width = 32"
  shows "d_CTL (filled_dsct x width src dst cnt nxt silent) AND OPMODE_Msk = (if nxt = None then PDMA_OP_BASIC else PDMA_OP_SCATTER)"
proof -
  have m: "take_bit 16 OPMODE_Msk = OPMODE_Msk" by (simp add: pdma_consts)
  show ?thesis using ctl_low_fields(6) [OF assms] by (simp add: filled_CTL push_or(2) [OF m])
qed

lemma chain_table:
  assumes wf: "pdma_wf st" "smem_wf (heap st)" and c: "c < 20" "c \<in> allocated st" and r: "req_ok width src dst"
    and cnt: "65536 < cnt" "cnt < 2 ^ 32" and pre: "sg_ready st c (cnt div 65536 + 1) \<or> m_u32WantedSGTblNum (chn st ! c) = 0 \<or>
      sg_held st c \<and> m_u32WantedSGTblNum (chn st ! c) \<noteq> cnt div 65536 + 1"
    and tb: "chain_tables st c (cnt div 65536 + 1) = Some (RT_EOK, st0)" and t: "timeout_ok st c idle"
  shows "\<exists>st1 ds. nu_pdma_transfer call st (int c) width src dst cnt idle =
      Some (RT_EOK, nu_pdma_fire call st1 c (m_u32Peripheral (chn st ! c))) \<and>
    table_at st1 c (cnt div 65536 + 1) ds \<and>
    concat (map dsct_elems ds) = map (elem_at (m_eMemCtl (chn st ! c)) width src dst) [0..<(if 65536 dvd cnt then cnt + 65536 else cnt)] \<and>
    map (\<lambda>d. bit (d_CTL d) 7) ds = replicate (cnt div 65536) True @ [False]"
proof -
  define n where "n = cnt div 65536 + 1"
  have w: "width = 8 \<or> width = 16 \<or> width = 32" using r by (simp add: req_ok_def)
  have "cnt div 65536 < 65536" using cnt(2) by (simp add: less_mult_imp_div_less)
  then have n: "0 < n" "n \<le> 65536" by (simp_all add: n_def)
  have "1 \<le> cnt div 65536" using cnt(1) div_le_mono [of 65536 cnt 65536] by simp
  then have n1: "1 < n" by (simp add: n_def)
  have T: "sg_ready st0 c n" "pdma_wf st0" "allocated st0 = allocated st" "sysclk1 st0 = sysclk1 st" "regs st0 = regs st"
    "m_eMemCtl (chn st0 ! c) = m_eMemCtl (chn st ! c)" "m_u32Peripheral (chn st0 ! c) = m_u32Peripheral (chn st ! c)"
    "inited st0 = inited st"
    using tables_ready [OF wf c(1) n pre [folded n_def] tb [folded n_def]] by simp_all
  let ?p = "sg_ptr st0 c" and ?D = "chunk_dsct (chn st0 ! c) (sg_ptr st0 c) width src dst cnt n"
  obtain d' where d': "chain_fill st0 (int c) (m_eMemCtl (chn st0 ! c)) width src dst cnt 0 n [0..<n] = Some (RT_EOK, st0\<lparr>descs := d'\<rparr>)"
    "\<And>i. i < n \<Longrightarrow> d' (?p i) = ?D i"
    using chain_fill_spec [OF c(1) _ r n_def T(1), of 0] c(2) T(3) by auto
  define st2 where "st2 = st0\<lparr>descs := d'\<rparr>"
  have p: "m_ppsSgtbl (chn st0 ! c) \<noteq> 0" "\<And>i. i < n \<Longrightarrow> 0 < ?p i \<and> ?p i < 2 ^ 32" "inj_on ?p {..<n}"
    using T(1) by (auto simp: sg_ready_def)
  have nx: "d_NEXT (?D i) = (if i + 1 = n then 0 else word_of_int (?p (i + 1)))" for i
    by (simp add: chunk_dsct_def split_def Let_def filled_next desc_addr_def)
  have mo: "d_CTL (?D i) AND OPMODE_Msk = (if i + 1 = n then PDMA_OP_BASIC else PDMA_OP_SCATTER)" for i
    by (simp add: chunk_dsct_def split_def Let_def filled_mode [OF w])
  have li: "linked st2 ?p n" using p d'(2) n(1) nx mo by (auto simp: linked_def st2_def)
  have fl: "flush_loop st2 (Mem (?p 0)) (Mem (?p 0)) [] = Some ([] @ concat (map (\<lambda>i. flush_ranges (descs st2 (?p i)) (Mem (?p i))) [0..<n]))"
    by (rule flush_linked [OF li n(1)])
  have s2: "pdma_wf st2" "c \<in> allocated st2" "timeout_ok st2 c idle"
    using T c(2) t by (simp_all add: st2_def pdma_wf_def allocated_def timeout_ok_def)
  obtain st3 where st3: "nu_pdma_start call st2 (int c) (m_u32Peripheral (chn st ! c)) (Mem (?p 0)) idle =
      Some (nu_pdma_fire call st3 c (m_u32Peripheral (chn st ! c)))"
    "started st2 c (d_NEXT (desc_get st2 (Mem (?p 0))) \<noteq> 0) (desc_addr (Mem (?p 0)))
      ([] @ concat (map (\<lambda>i. flush_ranges (descs st2 (?p i)) (Mem (?p i))) [0..<n])) st3"
    using start_eq [OF s2(1) c(1) s2(2,3) fl] by blast
  have run: "nu_pdma_transfer call st (int c) width src dst cnt idle =
      Some (RT_EOK, nu_pdma_fire call st3 c (m_u32Peripheral (chn st ! c)))"
  proof -
    have m: "nu_pdma_channel_memctrl_get st (int c) = Some (m_eMemCtl (chn st0 ! c))"
      using c T(6) by (simp add: nu_pdma_channel_memctrl_get_def nonallocated_eq)
    have "nu_pdma_transfer_chain call st (int c) width src dst cnt idle =
        Some (RT_EOK, nu_pdma_fire call st3 c (m_u32Peripheral (chn st ! c)))"
      unfolding nu_pdma_transfer_chain_def NU_PDMA_MAX_TXCNT_def Let_def n_def [symmetric]
      using m tb [folded n_def] d'(1) st3(1) p(1) c(1) T(7) by (simp add: RT_EOK_def sg_ptr_def flip: st2_def) (simp add: st2_def)
    then show ?thesis using c cnt by (simp add: nu_pdma_transfer_def nonallocated_eq NU_PDMA_MAX_TXCNT_def)
  qed
  have ne: "d_NEXT (desc_get st2 (Mem (?p 0))) \<noteq> 0"
    using n1 d'(2) [of 0] nx [of 0] ptr_word(2) [of "?p 1"] p(2) [of 1] by (simp add: desc_get_def st2_def)
  have tab: "table st3 fuel (word_of_int (?p 0)) = map ?D [0..<n]" if "n \<le> fuel" for fuel
  proof -
    have "descs st3 = descs st2" using st3(2) by (simp add: started_def same_mem_def)
    then have "linked st3 ?p n" using li by (simp add: linked_def)
    then have "table st3 fuel (word_of_int (?p 0)) = map (\<lambda>i. descs st3 (?p i)) [0..<n]"
      using table_linked [of st3 ?p n 0 fuel] that n by simp
    also have "\<dots> = map ?D [0..<n]" using d'(2) \<open>descs st3 = descs st2\<close> by (simp add: st2_def)
    finally show ?thesis .
  qed
  have ta: "table_at st3 c n (map ?D [0..<n])"
    using st3(2) ne tab by (simp add: table_at_def started_def moded_def desc_addr_def scatter_mode Let_def)
  have el: "concat (map dsct_elems (map ?D [0..<n])) =
      map (elem_at (m_eMemCtl (chn st ! c)) width src dst) [0..<(if 65536 dvd cnt then cnt + 65536 else cnt)]"
    using chunks_elems [OF n_def w, of "chn st0 ! c" ?p src dst] T(6) by (simp add: comp_def)
  have "map (\<lambda>d. bit (d_CTL d) 7) (map ?D [0..<n]) = map (\<lambda>i. i + 1 \<noteq> n) [0..<n]"
    by (simp add: chunk_dsct_def split_def Let_def filled_silent [OF w])
  also have "\<dots> = replicate (cnt div 65536) True @ [False]"
  proof -
    have "map (\<lambda>i. i + 1 \<noteq> n) [0..<cnt div 65536] = replicate (cnt div 65536) True"
      by (rule nth_equalityI) (simp_all add: n_def)
    then show ?thesis by (simp add: n_def)
  qed
  finally show ?thesis using run ta el unfolding n_def by blast
qed

text \<open>Channel 0, between memories, with a table of two descriptors.\<close>

definition pdma_example :: pdma where
  "pdma_example = pdma_poweron\<lparr>inited := True, chn_mask := [NOT PDMA_CH_Msk OR bit_of 0, NOT PDMA_CH_Msk],
     chn := (fresh_chn 0)\<lparr>m_ppsSgtbl := 4096, m_u32WantedSGTblNum := 2\<rparr> # replicate 19 zero_chn,
     sgtbl := (\<lambda>_. 0)(4096 := 8192, 4100 := 8256)\<rparr>"

lemma pdma_example:
  "pdma_wf pdma_example" "smem_wf (heap pdma_example)" "allocated pdma_example = {0}" "sg_ready pdma_example 0 2"
  "timeout_ok pdma_example 0 0" "chain_tables pdma_example 0 2 = Some (RT_EOK, pdma_example)"
  "chn pdma_example ! 0 = (fresh_chn 0)\<lparr>m_ppsSgtbl := 4096, m_u32WantedSGTblNum := 2\<rparr>"
proof -
  show "pdma_wf pdma_example"
    using poweron_wf(1) by (auto simp: pdma_wf_def pdma_example_def less_2_cases_iff bit_or_iff bit_free_mask)
  show "smem_wf (heap pdma_example)" using ex_pool_wf by (simp add: pdma_example_def pdma_poweron_def)
  show "allocated pdma_example = {0}"
  proof -
    have "bit (chn_mask pdma_example ! (k div 10)) (k mod 10) \<longleftrightarrow> k = 0" if "k < 20" for k
    proof -
      have m: "\<not> 10 \<le> k mod 10" "k mod 10 < 32" by (simp_all add: not_le)
      have "k div 10 < 2" using that by auto
      then consider "k div 10 = 0" | "k div 10 = 1" by linarith
      then show ?thesis
      proof cases
        case 1
        then have "k mod 10 = k" by (simp add: div_eq_0_iff)
        then show ?thesis using 1 m by (auto simp: pdma_example_def bit_or_iff bit_free_mask)
      next
        case 2
        then show ?thesis using m by (auto simp: pdma_example_def bit_free_mask)
      qed
    qed
    from this [of 0] this show ?thesis by (auto simp: allocated_def)
  qed
  show c: "chn pdma_example ! 0 = (fresh_chn 0)\<lparr>m_ppsSgtbl := 4096, m_u32WantedSGTblNum := 2\<rparr>"
    by (simp add: pdma_example_def)
  have "\<forall>i < 2. 0 < sg_ptr pdma_example 0 i \<and> sg_ptr pdma_example 0 i < 2 ^ 32"
    "inj_on (sg_ptr pdma_example 0) {..<2}"
    by (auto simp: sg_ptr_def c less_2_cases_iff inj_on_def) (simp_all add: pdma_example_def)
  then show "sg_ready pdma_example 0 2" by (simp add: sg_ready_def c)
  show "timeout_ok pdma_example 0 0" by (simp add: timeout_ok_def)
  show "chain_tables pdma_example 0 2 = Some (RT_EOK, pdma_example)" by (simp add: chain_tables_def c)
qed

text \<open>C24: Chained transfers. Take a request of more than 65536 elements that is not a multiple of 65536, aligned to its
  width, on an allocated channel whose table of descriptors has the right size, or is absent, or is one of another
  size that the driver obtained from the heap, and suppose that a table of the right size can be obtained and that
  the time-out asked for, if any, can be set (not on channels 8 and 9 of a controller). Then
  \<^verbatim>\<open>nu_pdma_transfer\<close> returns \<^verbatim>\<open>RT_EOK\<close> after starting the controller on a table all of whose descriptors
  but the last are in scatter-gather mode and lead to the next, the last one in basic mode ending it; together they
  transfer exactly the elements of the request, in order, each address advancing or not as the channel is
  configured, and only the last descriptor raises an interrupt.\<close>

theorem pdma_chain_covers:
  assumes "pdma_wf st" "smem_wf (heap st)" "c < 20" "c \<in> allocated st" "req_ok width src dst"
    "65536 < cnt" "cnt < 2 ^ 32" "sg_ready st c (cnt div 65536 + 1) \<or> m_u32WantedSGTblNum (chn st ! c) = 0 \<or>
      sg_held st c \<and> m_u32WantedSGTblNum (chn st ! c) \<noteq> cnt div 65536 + 1"
    "chain_tables st c (cnt div 65536 + 1) = Some (RT_EOK, st0)" "timeout_ok st c idle" "\<not> 65536 dvd cnt"
  shows "\<exists>st1 ds. nu_pdma_transfer call st (int c) width src dst cnt idle =
      Some (RT_EOK, nu_pdma_fire call st1 c (m_u32Peripheral (chn st ! c))) \<and>
    table_at st1 c (cnt div 65536 + 1) ds \<and>
    concat (map dsct_elems ds) = map (elem_at (m_eMemCtl (chn st ! c)) width src dst) [0..<cnt] \<and>
    map (\<lambda>d. bit (d_CTL d) 7) ds = replicate (cnt div 65536) True @ [False]"
  using chain_table [OF assms(1-10), of call] assms(11) by simp

theorem pdma_chain_covers_witness:
  "\<exists>st1 ds. nu_pdma_transfer (\<lambda>_ _ _ s. s) pdma_example 0 32 0x80000000 0x81000000 100000 0 =
      Some (RT_EOK, nu_pdma_fire (\<lambda>_ _ _ s. s) st1 0 0) \<and>
    table_at st1 0 2 ds \<and>
    concat (map dsct_elems ds) = map (elem_at eMemCtl_SrcInc_DstInc 32 0x80000000 0x81000000) [0..<100000] \<and>
    map (\<lambda>d. bit (d_CTL d) 7) ds = [True, False]"
proof -
  have f: "m_u32Peripheral (fresh_chn 0) = 0" "m_eMemCtl (fresh_chn 0) = eMemCtl_SrcInc_DstInc"
    by (simp_all add: fresh_chn_def g_nu_pdma_peripheral_ctl_pool_def PDMA_MEM_def)
  have n: "(100000 :: nat) div 65536 + 1 = 2" by simp
  have "req_ok 32 0x80000000 0x81000000" by (simp add: req_ok_def)
  then show ?thesis
    using pdma_chain_covers [of pdma_example 0 32 "0x80000000" "0x81000000" 100000 pdma_example 0 "\<lambda>_ _ _ s. s", unfolded n]
    by (simp add: pdma_example f)
qed

text \<open>C25: Chained transfers of a multiple of 65536 elements. The table has one descriptor too many, for the 0
  elements that are left; its count field holds \<open>0 - 1\<close>, which is 65536 elements. The table transfers
  65536 elements beyond the request: the controller overruns the buffers of the client.\<close>

theorem pdma_chain_overrun:
  assumes "pdma_wf st" "smem_wf (heap st)" "c < 20" "c \<in> allocated st" "req_ok width src dst"
    "65536 < cnt" "cnt < 2 ^ 32" "sg_ready st c (cnt div 65536 + 1) \<or> m_u32WantedSGTblNum (chn st ! c) = 0"
    "chain_tables st c (cnt div 65536 + 1) = Some (RT_EOK, st0)" "timeout_ok st c idle" "65536 dvd cnt"
  shows "\<exists>st1 ds. nu_pdma_transfer call st (int c) width src dst cnt idle =
      Some (RT_EOK, nu_pdma_fire call st1 c (m_u32Peripheral (chn st ! c))) \<and>
    table_at st1 c (cnt div 65536 + 1) ds \<and>
    concat (map dsct_elems ds) = map (elem_at (m_eMemCtl (chn st ! c)) width src dst) [0..<cnt + 65536]"
  using chain_table [OF assms(1-7) _ assms(9,10), of call] assms(8,11) by fastforce

text \<open>Three descriptors for two full ones.\<close>

definition pdma_example3 :: pdma where
  "pdma_example3 = pdma_example\<lparr>chn := (fresh_chn 0)\<lparr>m_ppsSgtbl := 4096, m_u32WantedSGTblNum := 3\<rparr> # replicate 19 zero_chn,
     sgtbl := (\<lambda>_. 0)(4096 := 8192, 4100 := 8256, 4104 := 8320)\<rparr>"

theorem pdma_chain_overrun_witness:
  "\<exists>st1 ds. nu_pdma_transfer (\<lambda>_ _ _ s. s) pdma_example3 0 8 0x80000000 0x81000000 131072 0 =
      Some (RT_EOK, nu_pdma_fire (\<lambda>_ _ _ s. s) st1 0 0) \<and>
    table_at st1 0 3 ds \<and>
    concat (map dsct_elems ds) = map (elem_at eMemCtl_SrcInc_DstInc 8 0x80000000 0x81000000) [0..<196608]"
proof -
  have f: "m_u32Peripheral (fresh_chn 0) = 0" "m_eMemCtl (fresh_chn 0) = eMemCtl_SrcInc_DstInc"
    by (simp_all add: fresh_chn_def g_nu_pdma_peripheral_ctl_pool_def PDMA_MEM_def)
  have c: "chn pdma_example3 ! 0 = (fresh_chn 0)\<lparr>m_ppsSgtbl := 4096, m_u32WantedSGTblNum := 3\<rparr>"
    by (simp add: pdma_example3_def)
  have w: "pdma_wf pdma_example3" "smem_wf (heap pdma_example3)" "allocated pdma_example3 = {0}"
    using pdma_example(1-3) by (simp_all add: pdma_example3_def pdma_wf_def allocated_def)
  have "\<forall>i < 3. 0 < sg_ptr pdma_example3 0 i \<and> sg_ptr pdma_example3 0 i < 2 ^ 32" "inj_on (sg_ptr pdma_example3 0) {..<3}"
    by (auto simp: sg_ptr_def c numeral_3_eq_3 less_Suc_eq inj_on_def) (simp_all add: pdma_example3_def)
  then have s: "sg_ready pdma_example3 0 3" by (simp add: sg_ready_def c)
  have t: "chain_tables pdma_example3 0 3 = Some (RT_EOK, pdma_example3)" by (simp add: chain_tables_def c)
  have n: "(131072 :: nat) div 65536 + 1 = 3" by simp
  have "req_ok 8 0x80000000 0x81000000" by (simp add: req_ok_def)
  then show ?thesis
    using pdma_chain_overrun [of pdma_example3 0 8 "0x80000000" "0x81000000" 131072 pdma_example3 0 "\<lambda>_ _ _ s. s", unfolded n]
    by (simp add: w s t c f timeout_ok_def)
qed

end
