(* ===== verification/Pdma_Isr.thy ===== *)
theory Pdma_Isr
  imports Pdma_Props "HOL-Library.Countable"
begin

text \<open>
  Single transfers of the peripheral DMA driver on every branch, the failure paths of its
  descriptor tables, and its interrupt handler.
\<close>

section \<open>Single transfers\<close>

lemma and_or_self: "w AND b = a \<Longrightarrow> (w AND NOT b) OR a = (w :: 32 word)"
  by (rule bit_word_eqI) (auto simp: bit_and_iff bit_or_iff bit_not_iff)

lemma filled_basic:
  assumes "width = 8 \<or> width = 16 \<or> width = 32"
  shows "moded (filled_dsct x width src dst cnt None silent) False a = filled_dsct x width src dst cnt None silent"
proof -
  let ?d = "filled_dsct x width src dst cnt None silent"
  have m: "take_bit 16 OPMODE_Msk = OPMODE_Msk" by (simp add: pdma_consts)
  have "d_CTL ?d AND OPMODE_Msk = PDMA_OP_BASIC"
    using ctl_low_fields(6) [OF assms, of x False silent] by (simp add: filled_CTL push_or(2) [OF m])
  then have "(d_CTL ?d AND NOT OPMODE_Msk) OR PDMA_OP_BASIC = d_CTL ?d" by (rule and_or_self)
  then show ?thesis by (simp add: moded_def)
qed

lemma flush_single:
  "d_NEXT (desc_get st r) = 0 \<Longrightarrow> flush_loop st r r [] = Some (flush_ranges (desc_get st r) r)"
  by (subst flush_loop.simps) (simp add: next_ref_def)

text \<open>A request that passes every check starts the channel.\<close>

lemma pdma_transfer_starts:
  assumes wf: "pdma_wf st" and cnt: "cnt \<le> 65536" "cnt \<noteq> 0" and t: "timeout_ok st c idle"
    and c: "c < 20" "c \<in> allocated st" and r: "req_ok width src dst"
  shows "\<exists>st1. nu_pdma_transfer call st (int c) width src dst cnt idle =
      Some (RT_EOK, nu_pdma_fire call st1 c (m_u32Peripheral (chn st ! c))) \<and> pdma_wf st1 \<and> same_mem st st1 \<and>
    d_CTL (DSCT (regs st1 ! (c div 10)) ! (c mod 10)) AND OPMODE_Msk = PDMA_OP_BASIC \<and>
    dsct_elems (DSCT (regs st1 ! (c div 10)) ! (c mod 10)) = map (elem_at (m_eMemCtl (chn st ! c)) width src dst) [0..<cnt]"
proof -
  let ?m = "c div 10" and ?i = "c mod 10"
  let ?d = "filled_dsct (chn st ! c) width src dst (int cnt) None False"
  have w: "width = 8 \<or> width = 16 \<or> width = 32" "unat src mod (width div 8) = 0" "unat dst mod (width div 8) = 0"
    using r by (simp_all add: req_ok_def)
  have m: "?m < 2" using c(1) by auto
  define st1 where "st1 = desc_put st (Reg ?m ?i) ?d"
  have s1: "pdma_wf st1" "c \<in> allocated st1" "timeout_ok st1 c idle" "chn st1 = chn st" "same_mem st st1"
    using wf c t by (simp_all add: st1_def desc_put_def timeout_ok_def same_mem_def)
  have l: "length (regs st) = 2" "length (DSCT (regs st ! ?m)) = 10" using wfD(3,4) [OF wf] m by (simp_all add: regs_wf_def)
  have g: "desc_get st1 (Reg ?m ?i) = ?d" using m l by (simp add: st1_def desc_put_def desc_get_def upd_desc_def)
  have nx: "d_NEXT (desc_get st1 (Reg ?m ?i)) = 0" by (simp add: g filled_next)
  obtain st2 where st2: "nu_pdma_start call st1 (int c) (m_u32Peripheral (chn st1 ! c)) (Reg ?m ?i) idle =
      Some (nu_pdma_fire call st2 c (m_u32Peripheral (chn st1 ! c)))"
    "started st1 c False (desc_addr (Reg ?m ?i)) (flush_ranges (desc_get st1 (Reg ?m ?i)) (Reg ?m ?i)) st2"
    using start_eq [OF s1(1) c(1) s1(2,3) flush_single [OF nx]] nx by auto
  have run: "nu_pdma_transfer call st (int c) width src dst cnt idle =
      Some (RT_EOK, nu_pdma_fire call st2 c (m_u32Peripheral (chn st ! c)))"
    using c cnt desc_setup_ok [OF c w(1,2,3) cnt(1), of "Reg ?m ?i" None False] st2(1) s1(4)
    by (simp add: nu_pdma_transfer_def nonallocated_eq NU_PDMA_MAX_TXCNT_def pdma_nums RT_EOK_def Let_def flip: st1_def)
  have fin: "DSCT (regs st2 ! ?m) ! ?i = ?d"
    using st2(2) g filled_basic [OF w(1)] by (simp add: started_def desc_get_def)
  have mm: "take_bit 16 OPMODE_Msk = OPMODE_Msk" by (simp add: pdma_consts)
  have "d_CTL ?d AND OPMODE_Msk = PDMA_OP_BASIC"
    using ctl_low_fields(6) [OF w(1)] by (simp add: filled_CTL push_or(2) [OF mm])
  moreover have "dsct_elems ?d = map (elem_at (m_eMemCtl (chn st ! c)) width src dst) [0..<cnt]"
    using filled_elems [OF w(1) cnt(1)] cnt(2) by (simp add: real_count_def)
  ultimately show ?thesis using run fin st2(2) s1(5)
    by (intro exI [of _ st2]) (auto simp: started_def same_mem_def)
qed

lemma start_none:
  assumes wf: "pdma_wf st" and c: "c < 20" "c \<in> allocated st" and t: "\<not> timeout_ok st c idle"
  shows "nu_pdma_start call st (int c) periph head idle = None"
proof -
  have "nu_pdma_timeout_set (upd_regs (c div 10) F (st\<lparr>flushed := x\<rparr>)) (int c) (sint idle) = None" for F x
    by (rule timeout_set_none) (use c t in \<open>auto simp: allocated_def timeout_ok_def\<close>)
  then show ?thesis
    unfolding nu_pdma_start_def Let_def
    using c by (auto simp: pdma_nums nu_pdma_get_channel_desc_def nonallocated_eq allocated_def Option.bind_eq_None_conv)
qed

text \<open>C26: Single transfers on every branch. For at most 65536 elements on a well-formed driver state,
  \<^verbatim>\<open>nu_pdma_transfer\<close> stops at its assertion for a channel out of range, refuses a channel not allocated and an
  empty request with \<^verbatim>\<open>-RT_EINVAL\<close>, answers a bad width or a misaligned address with the positive
  \<^verbatim>\<open>RT_EINVAL\<close> (the error of \<^verbatim>\<open>nu_pdma_desc_setup\<close> negated once more), has no defined result when a time-out is
  asked for that cannot be set (on channels 8 and 9 of a controller, or with a clock outside 256 Hz to 256 MHz),
  and otherwise starts the channel with one descriptor, in its own register, that transfers exactly the elements
  of the request.\<close>

theorem pdma_transfer_spec:
  assumes wf: "pdma_wf st" and cnt: "cnt \<le> 65536" and c31: "c < 2 ^ 31"
  shows "\<exists>st1. nu_pdma_transfer call st (int c) width src dst cnt idle =
      (if 20 \<le> c then None
       else if c \<notin> allocated st \<or> cnt = 0 then Some (- RT_EINVAL, st)
       else if \<not> req_ok width src dst then Some (RT_EINVAL, st)
       else if \<not> timeout_ok st c idle then None
       else Some (RT_EOK, nu_pdma_fire call st1 c (m_u32Peripheral (chn st ! c)))) \<and>
    (c < 20 \<longrightarrow> req_ok width src dst \<longrightarrow> cnt \<noteq> 0 \<longrightarrow> c \<in> allocated st \<longrightarrow> timeout_ok st c idle \<longrightarrow>
      pdma_wf st1 \<and> same_mem st st1 \<and> d_CTL (DSCT (regs st1 ! (c div 10)) ! (c mod 10)) AND OPMODE_Msk = PDMA_OP_BASIC \<and>
      dsct_elems (DSCT (regs st1 ! (c div 10)) ! (c mod 10)) = map (elem_at (m_eMemCtl (chn st ! c)) width src dst) [0..<cnt])"
proof (cases "c < 20 \<and> c \<in> allocated st \<and> cnt \<noteq> 0 \<and> req_ok width src dst")
  case False
  have "chan (int c) = c" using c31 by (simp add: chan_def u32_id)
  moreover have "nu_pdma_transfer call st (int c) width src dst cnt idle = Some (RT_EINVAL, st)"
    if "c < 20" "c \<in> allocated st" "cnt \<noteq> 0" "\<not> req_ok width src dst"
    using that cnt
    by (auto simp: nu_pdma_transfer_def nonallocated_eq NU_PDMA_MAX_TXCNT_def nu_pdma_desc_setup_def req_ok_def rt_errs Let_def)
  ultimately show ?thesis using False by (auto simp: nu_pdma_transfer_def nonallocated_eq)
next
  case True
  then have c: "c < 20" "c \<in> allocated st" and r: "req_ok width src dst" and n: "cnt \<noteq> 0" by simp_all
  show ?thesis
  proof (cases "timeout_ok st c idle")
    case t: True
    then show ?thesis using pdma_transfer_starts [OF wf cnt n t c r, of call] c r n by auto
  next
    case t: False
    have w: "width = 8 \<or> width = 16 \<or> width = 32" "unat src mod (width div 8) = 0" "unat dst mod (width div 8) = 0"
      using r by (simp_all add: req_ok_def)
    let ?st1 = "desc_put st (Reg (c div 10) (c mod 10)) (filled_dsct (chn st ! c) width src dst (int cnt) None False)"
    have s1: "pdma_wf ?st1" "c \<in> allocated ?st1" "\<not> timeout_ok ?st1 c idle"
      using wf c t by (simp_all add: desc_put_def timeout_ok_def)
    have "nu_pdma_transfer call st (int c) width src dst cnt idle = None"
      using c cnt n start_none [OF s1(1) c(1) s1(2,3)] desc_setup_ok [OF c w(1,2,3) cnt, of "Reg (c div 10) (c mod 10)" None False]
      by (simp add: nu_pdma_transfer_def nonallocated_eq NU_PDMA_MAX_TXCNT_def pdma_nums RT_EOK_def Let_def)
    then show ?thesis using c r n t by auto
  qed
qed

theorem pdma_transfer_spec_witness:
  "(\<exists>st1. nu_pdma_transfer (\<lambda>_ _ _ s. s) pdma_example 0 16 0x80000000 0x81000000 5 0 =
      Some (RT_EOK, nu_pdma_fire (\<lambda>_ _ _ s. s) st1 0 0) \<and>
    dsct_elems (DSCT (regs st1 ! 0) ! 0) = map (elem_at eMemCtl_SrcInc_DstInc 16 0x80000000 0x81000000) [0, 1, 2, 3, 4]) \<and>
   nu_pdma_transfer (\<lambda>_ _ _ s. s) pdma_example 0 16 0x80000001 0x81000000 5 0 = Some (RT_EINVAL, pdma_example) \<and>
   nu_pdma_transfer (\<lambda>_ _ _ s. s) pdma_example 1 16 0x80000000 0x81000000 5 0 = Some (- RT_EINVAL, pdma_example)"
proof -
  have f: "m_u32Peripheral (fresh_chn 0) = 0" "m_eMemCtl (fresh_chn 0) = eMemCtl_SrcInc_DstInc"
    by (simp_all add: fresh_chn_def g_nu_pdma_peripheral_ctl_pool_def PDMA_MEM_def)
  have u: "[0..<5] = [0, 1, 2, 3, 4]" by (simp add: upt_rec)
  have r: "req_ok 16 0x80000000 0x81000000" "\<not> req_ok 16 0x80000001 0x81000000"
    by (simp_all add: req_ok_def)
  show ?thesis
    using pdma_transfer_spec [OF pdma_example(1), of 5 0 "\<lambda>_ _ _ s. s" 16 "0x80000000" "0x81000000" 0]
      pdma_transfer_spec [OF pdma_example(1), of 5 0 "\<lambda>_ _ _ s. s" 16 "0x80000001" "0x81000000" 0]
      pdma_transfer_spec [OF pdma_example(1), of 5 1 "\<lambda>_ _ _ s. s" 16 "0x80000000" "0x81000000" 0]
    by (auto simp: pdma_example(3,5,7) f r u)
qed

section \<open>Failures of the descriptor table\<close>

text \<open>A chained transfer without memory. When the pointer array of the table cannot be allocated, the transfer
  returns \<^verbatim>\<open>-RT_ERROR\<close> but the channel keeps the number of descriptors it wanted, without a table. The next
  request for the same number of descriptors takes the table for granted and follows the null pointer,
  whatever memory there is by then.\<close>

lemma pdma_chain_null_table:
  assumes wf: "pdma_wf st" and c: "c < 20" "c \<in> allocated st" and cnt: "65536 < cnt" "65536 < cnt'"
      "cnt' div 65536 = cnt div 65536"
    and new: "m_u32WantedSGTblNum (chn st ! c) = 0"
    and oom: "rt_malloc_align (heap st) (4 * int (cnt div 65536 + 1)) 4 = Some (0, h)"
  shows "\<exists>st'. nu_pdma_transfer call st (int c) width src dst cnt idle = Some (- RT_ERROR, st') \<and> c \<in> allocated st' \<and>
    (\<forall>h'. nu_pdma_transfer call (st'\<lparr>heap := h'\<rparr>) (int c) width' src' dst' cnt' idle' = None)"
proof -
  define n where "n = cnt div 65536 + 1"
  define st' where "st' = upd_chn c (\<lambda>y. y\<lparr>m_u32WantedSGTblNum := n, m_ppsSgtbl := 0\<rparr>) (st\<lparr>heap := h\<rparr>)"
  have l: "length (chn st) = 20" using wf by (simp add: pdma_wf_def)
  have tb: "chain_tables st c n = Some (RT_ERROR, st')"
  proof -
    have "upd_chn c (\<lambda>y. y\<lparr>m_ppsSgtbl := 0\<rparr>) ((upd_chn c (\<lambda>y. y\<lparr>m_u32WantedSGTblNum := n\<rparr>) st)\<lparr>heap := h\<rparr>) = st'"
      using c(1) l by (simp add: upd_chn_def st'_def)
    then show ?thesis using new oom by (simp add: chain_tables_def n_def Let_def)
  qed
  have x: "m_ppsSgtbl (chn st' ! c) = 0" "m_u32WantedSGTblNum (chn st' ! c) = n" using c(1) l by (simp_all add: st'_def)
  have a: "allocated st' = allocated st" by (simp add: st'_def) (simp add: allocated_def)
  have f: "nu_pdma_free_sgtbls st' c = Some st'" by (simp add: nu_pdma_free_sgtbls_def x)
  have 1: "nu_pdma_transfer call st (int c) width src dst cnt idle = Some (- RT_ERROR, st')"
    using c cnt tb f
    by (simp add: nu_pdma_transfer_def nu_pdma_transfer_chain_def nonallocated_eq NU_PDMA_MAX_TXCNT_def
        nu_pdma_channel_memctrl_get_def n_def rt_errs)
  have 2: "nu_pdma_transfer call (st'\<lparr>heap := h'\<rparr>) (int c) width' src' dst' cnt' idle' = None" for h'
  proof -
    have "allocated (st'\<lparr>heap := h'\<rparr>) = allocated st" using a by (simp add: allocated_def)
    moreover have "chain_tables (st'\<lparr>heap := h'\<rparr>) c n = Some (RT_EOK, st'\<lparr>heap := h'\<rparr>)" by (simp add: chain_tables_def x)
    moreover have "[0..<n] = 0 # [1..<n]" by (simp add: n_def upt_conv_Cons)
    then have "chain_fill (st'\<lparr>heap := h'\<rparr>) (int c) ctl width' src' dst' cnt' 0 n [0..<n] = None" for ctl
      using c(1) by (simp add: x)
    ultimately show ?thesis
      using c cnt by (simp add: nu_pdma_transfer_def nu_pdma_transfer_chain_def nonallocated_eq NU_PDMA_MAX_TXCNT_def
          nu_pdma_channel_memctrl_get_def n_def)
  qed
  show ?thesis using 1 2 a c(2) by blast
qed

text \<open>Channel 0 as it is allocated.\<close>

definition pdma_fresh :: pdma where
  "pdma_fresh = pdma_example\<lparr>chn := fresh_chn 0 # replicate 19 zero_chn\<rparr>"

lemma pdma_chain_null_table_example:
  "\<exists>st'. nu_pdma_transfer (\<lambda>_ _ _ s. s) pdma_fresh 0 8 0x80000000 0x81000000 19660801 0 = Some (- RT_ERROR, st') \<and>
    nu_pdma_transfer (\<lambda>_ _ _ s. s) (st'\<lparr>heap := ex_pool\<rparr>) 0 8 0x80000000 0x81000000 19660801 0 = None"
proof -
  have n: "(19660801 :: nat) div 65536 = 300" by simp
  have w: "pdma_wf pdma_fresh" "0 \<in> allocated pdma_fresh"
    using pdma_example(1,3) by (simp_all add: pdma_fresh_def pdma_wf_def allocated_def)
  have h: "heap pdma_fresh = ex_pool" by (simp add: pdma_fresh_def pdma_example_def pdma_poweron_def)
  have "map_option fst (rt_malloc_align ex_pool 1204 4) = Some 0" by code_simp
  then obtain h' where "rt_malloc_align ex_pool 1204 4 = Some (0, h')" by auto
  moreover have "m_u32WantedSGTblNum (chn pdma_fresh ! 0) = 0" by (simp add: pdma_fresh_def fresh_chn_def zero_chn_def)
  ultimately have "\<exists>st'. nu_pdma_transfer (\<lambda>_ _ _ s. s) pdma_fresh (int 0) 8 0x80000000 0x81000000 19660801 0 = Some (- RT_ERROR, st') \<and>
    0 \<in> allocated st' \<and>
    (\<forall>h'. nu_pdma_transfer (\<lambda>_ _ _ s. s) (st'\<lparr>heap := h'\<rparr>) (int 0) 8 0x80000000 0x81000000 19660801 0 = None)"
    by (intro pdma_chain_null_table w) (simp_all add: n h)
  then show ?thesis by auto
qed

text \<open>A channel that is released and allocated again. Releasing a channel keeps its descriptor table, and allocating
  it clears the channel: the blocks of the table stay allocated and nothing refers to them.\<close>

theorem pdma_table_leak:
  assumes wf: "pdma_wf st" and i: "inited st" and c: "c < 20" "c \<in> allocated st" and low: "\<forall>k < c. k \<in> allocated st"
    and p: "0 \<le> nu_pdma_peripheral_set p"
  shows "\<exists>st1 st2. nu_pdma_channel_free st (int c) = Some (RT_EOK, st1) \<and>
    nu_pdma_channel_allocate st1 p = Some (int c, st2) \<and> pdma_wf st2 \<and>
    smem_live (heap st2) = smem_live (heap st) \<and> m_ppsSgtbl (chn st2 ! c) = 0 \<and> m_u32WantedSGTblNum (chn st2 ! c) = 0"
proof -
  obtain st1 where 1: "nu_pdma_channel_free st (int c) = Some (RT_EOK, st1)" "pdma_wf st1" "inited st1" "same_mem st st1"
    "allocated st1 = allocated st - {c}"
    using free_spec [OF wf, of "int c"] c i by (auto simp: RT_EOK_def)
  have "lowest_free (allocated st1) = Some c"
    by (rule lowest_freeI) (use c low 1(5) in auto)
  then obtain st2 where 2: "nu_pdma_channel_allocate st1 p = Some (int c, st2)" "pdma_wf st2" "same_mem st1 st2"
    "chn st2 = (chn (nu_pdma_init st1))[c := fresh_chn (nat (nu_pdma_peripheral_set p))]"
    using allocate_spec [OF 1(2), of p] p by auto
  have "length (chn (nu_pdma_init st1)) = 20" using init_spec(1) [OF 1(2)] by (simp add: pdma_wf_def)
  then have "m_ppsSgtbl (chn st2 ! c) = 0 \<and> m_u32WantedSGTblNum (chn st2 ! c) = 0"
    using c(1) by (simp add: 2(4) fresh_chn_def zero_chn_def)
  moreover have "heap st2 = heap st" using 1(4) 2(3) by (simp add: same_mem_def)
  ultimately show ?thesis using 1(1) 2(1,2) by auto
qed

theorem pdma_table_leak_witness:
  "\<exists>st1 st2. nu_pdma_channel_free pdma_example 0 = Some (RT_EOK, st1) \<and>
    nu_pdma_channel_allocate st1 4 = Some (0, st2) \<and>
    smem_live (heap st2) = smem_live (heap pdma_example) \<and> m_ppsSgtbl (chn pdma_example ! 0) = 4096 \<and> m_ppsSgtbl (chn st2 ! 0) = 0"
proof -
  have "inited pdma_example" by (simp add: pdma_example_def)
  moreover have "0 \<le> nu_pdma_peripheral_set 4"
    by (simp add: nu_pdma_peripheral_set_def g_nu_pdma_peripheral_ctl_pool_def PDMA_MEM_def u32_def)
  ultimately show ?thesis
    using pdma_table_leak [OF pdma_example(1), of 0 4] by (auto simp: pdma_example(3,7))
qed

section \<open>Interrupts\<close>

fun fold_opt :: "('s \<Rightarrow> 'a \<Rightarrow> 's option) \<Rightarrow> 's \<Rightarrow> 'a list \<Rightarrow> 's option" where
  "fold_opt f s [] = Some s"
| "fold_opt f s (x # xs) = do { s1 \<leftarrow> f s x; fold_opt f s1 xs }"

definition pending :: "32 word \<Rightarrow> nat \<Rightarrow> nat list" where
  "pending sts k = filter (bit sts) [k..<10]"

lemma pending_ctz:
  assumes "nu_ctz sts < 10" "k \<le> nu_ctz sts"
  shows "pending sts k = nu_ctz sts # pending (sts AND NOT (bit_of (nu_ctz sts))) (Suc (nu_ctz sts))"
proof -
  let ?i = "nu_ctz sts"
  have b: "bit sts ?i" "\<And>j. j < ?i \<Longrightarrow> \<not> bit sts j"
    using assms(1) by (auto intro: nu_ctz_cases [of sts])
  have "[k..<10] = [k..<?i] @ ?i # [Suc ?i..<10]"
    using assms upt_add_eq_append [of k ?i "10 - ?i"] by (simp add: upt_conv_Cons)
  moreover have "filter (bit sts) [k..<?i] = []" using b(2) by (simp add: filter_empty_conv)
  moreover have "filter (bit sts) [Suc ?i..<10] = filter (bit (sts AND NOT (bit_of ?i))) [Suc ?i..<10]"
    by (rule filter_cong) (auto simp: bit_and_iff bit_not_iff)
  ultimately show ?thesis using b(1) by (simp add: pending_def)
qed

lemma pending_nil:
  assumes "\<not> nu_ctz sts < 10"
  shows "pending sts k = []"
proof -
  have "\<not> bit sts j" if "j < 10" for j
  proof (cases rule: nu_ctz_cases [of sts])
    case 2
    then show ?thesis using assms that by auto
  qed simp
  then show ?thesis by (simp add: pending_def filter_empty_conv)
qed

lemma isr_loop_fold:
  assumes "\<And>j. j < k \<Longrightarrow> \<not> bit sts j"
  shows "isr_loop call st m abt td unal reqto sts = fold_opt (\<lambda>s i. isr_channel call s m abt td unal reqto i) st (pending sts k)"
  using assms
proof (induction call st m abt td unal reqto sts arbitrary: k rule: isr_loop.induct)
  case (1 call st m abt td unal reqto sts)
  show ?case
  proof (cases "nu_ctz sts < 10")
    case False
    then show ?thesis by (subst isr_loop.simps) (simp add: PDMA_CH_MAX_def pending_nil Let_def)
  next
    case True
    let ?i = "nu_ctz sts" and ?s = "sts AND NOT (bit_of (nu_ctz sts))"
    have b: "bit sts ?i" "\<And>j. j < ?i \<Longrightarrow> \<not> bit sts j"
      using True by (auto intro: nu_ctz_cases [of sts])
    have k: "k \<le> ?i" using "1.prems" b(1) by (meson not_le)
    have z: "\<not> bit ?s j" if "j < Suc ?i" for j using that b(2) True by (auto simp: bit_and_iff bit_not_iff less_Suc_eq)
    have ih: "isr_loop call x m abt td unal reqto ?s = fold_opt (\<lambda>s i. isr_channel call s m abt td unal reqto i) x (pending ?s (Suc ?i))"
      if "isr_channel call st m abt td unal reqto ?i = Some x" for x
      using "1.IH" [OF refl _ that, of "Suc ?i"] True z by (simp add: PDMA_CH_MAX_def)
    show ?thesis
      unfolding pending_ctz [OF True k]
      using True ih by (subst isr_loop.simps) (cases "isr_channel call st m abt td unal reqto ?i"; simp add: PDMA_CH_MAX_def Let_def)
  qed
qed

text \<open>What the handler does, whatever the callbacks do: before any callback runs, the time-out flags, and for each of
  the other three kinds whose summary bit is set the flags it read, are cleared in the controller; then it serves
  the flagged channels, each once, from the lowest to the highest.\<close>

lemma isr_folds:
  "nu_pdma_isr call st m = (let r = regs st ! m; reqto = INTSTS r AND push_bit 8 PDMA_CH_Msk;
      r' = r\<lparr>INTSTS := INTSTS r AND NOT reqto,
        ABTSTS := (if bit (INTSTS r) 0 then 0 else ABTSTS r),
        TDSTS := (if bit (INTSTS r) 1 then 0 else TDSTS r),
        ALIGN := (if bit (INTSTS r) 2 then 0 else ALIGN r)\<rparr>
    in fold_opt (\<lambda>s i. isr_channel call s m (ABTSTS r) (TDSTS r) (ALIGN r) (drop_bit 8 reqto) i)
      (upd_regs m (\<lambda>_. r') st)
      (filter (\<lambda>i. bit (drop_bit 8 reqto) i \<or> bit (TDSTS r) i \<or> bit (ABTSTS r) i \<or> bit (ALIGN r) i) [0..<10]))"
proof -
  let ?r = "regs st ! m"
  let ?reqto = "INTSTS ?r AND push_bit 8 PDMA_CH_Msk"
  let ?sts = "drop_bit 8 ?reqto OR TDSTS ?r OR ABTSTS ?r OR ALIGN ?r"
  define r4 where "r4 = (let intsts = INTSTS ?r;
      r1 = (if intsts AND 1 \<noteq> 0 then PDMA_CLR_ABORT_FLAG ?r (ABTSTS ?r) else ?r);
      r2 = (if intsts AND 2 \<noteq> 0 then PDMA_CLR_TD_FLAG r1 (TDSTS ?r) else r1);
      r3 = (if intsts AND 4 \<noteq> 0 then PDMA_CLR_ALIGN_FLAG r2 (ALIGN ?r) else r2)
    in if ?reqto \<noteq> 0 then write_INTSTS r3 ?reqto else r3)"
  define r' where "r' = ?r\<lparr>INTSTS := INTSTS ?r AND NOT ?reqto,
        ABTSTS := (if bit (INTSTS ?r) 0 then 0 else ABTSTS ?r),
        TDSTS := (if bit (INTSTS ?r) 1 then 0 else TDSTS ?r),
        ALIGN := (if bit (INTSTS ?r) 2 then 0 else ALIGN ?r)\<rparr>"
  have b: "(w AND 1 \<noteq> 0) = bit w 0" "(w AND 2 \<noteq> 0) = bit w 1" "(w AND 4 \<noteq> 0) = bit w 2" for w :: "32 word"
    using and_bit_of [of w 0] and_bit_of [of w 1] and_bit_of [of w 2] by (simp_all add: bit_of_def)
  have "r4 = r'"
  proof -
    have q: "INTSTS ?r AND NOT q = INTSTS ?r" if "q = 0" for q using that by simp
    show ?thesis
      unfolding r4_def r'_def Let_def b using q [of ?reqto]
      by (cases "?reqto = 0") (simp_all only: PDMA_CLR_ABORT_FLAG_def PDMA_CLR_TD_FLAG_def PDMA_CLR_ALIGN_FLAG_def
          write_INTSTS_def if_True if_False simp_thms, auto)
  qed
  moreover have "nu_pdma_isr call st m = isr_loop call (upd_regs m (\<lambda>_. r4) st) m (ABTSTS ?r) (TDSTS ?r) (ALIGN ?r) (drop_bit 8 ?reqto) ?sts"
    unfolding nu_pdma_isr_def Let_def r4_def by (rule refl)
  moreover have "pending ?sts 0 = filter (\<lambda>i. bit (drop_bit 8 ?reqto) i \<or> bit (TDSTS ?r) i \<or> bit (ABTSTS ?r) i \<or> bit (ALIGN ?r) i) [0..<10]"
    unfolding pending_def by (rule filter_cong) (auto simp: bit_or_iff)
  moreover have "isr_loop call x m (ABTSTS ?r) (TDSTS ?r) (ALIGN ?r) (drop_bit 8 ?reqto) ?sts =
      fold_opt (\<lambda>s i. isr_channel call s m (ABTSTS ?r) (TDSTS ?r) (ALIGN ?r) (drop_bit 8 ?reqto) i) x (pending ?sts 0)" for x
    by (rule isr_loop_fold) simp
  ultimately show ?thesis by (simp only: Let_def r'_def)
qed

text \<open>The calls that a channel with flags is due: the callback that stops the client's side, if there is one, and then
  the one for events with exactly the events flagged, if the client asked for one of them.\<close>

definition flag_events :: "pdma_regs \<Rightarrow> nat \<Rightarrow> 32 word" where
  "flag_events r i =
     (if bit (ABTSTS r) i then NU_PDMA_EVENT_ABORT else 0)
     OR (if bit (TDSTS r) i then NU_PDMA_EVENT_TRANSFER_DONE else 0)
     OR (if bit (ALIGN r) i then NU_PDMA_EVENT_ALIGNMENT else 0)
     OR (if bit (INTSTS r) (8 + i) then NU_PDMA_EVENT_TIMEOUT else 0)"

definition due_calls :: "nu_pdma_chn \<Rightarrow> 32 word \<Rightarrow> (nat \<times> nat \<times> 32 word) list" where
  "due_calls x ev =
     (if m_pfnCBHandler (m_sCB_Event x) = 0 then []
      else (if m_pfnCBHandler (m_sCB_Disable x) = 0 then []
            else [(m_pfnCBHandler (m_sCB_Disable x), m_pvUserData (m_sCB_Disable x), m_u32Reserved (m_sCB_Disable x))])
         @ (if m_u32EventFilter x AND ev = 0 then []
            else [(m_pfnCBHandler (m_sCB_Event x), m_pvUserData (m_sCB_Event x), ev)]))"

text \<open>Callbacks whose calls are recorded in \<open>log\<close>, which nothing else changes, and that leave the channel records
  and the set of allocated channels alone. They may do anything to the registers, descriptors and the heap.\<close>

definition recorded :: "callback \<Rightarrow> (pdma \<Rightarrow> (nat \<times> nat \<times> 32 word) list) \<Rightarrow> bool" where
  "recorded call log \<longleftrightarrow>
     (\<forall>h u e s. log (call h u e s) = log s @ [(h, u, e)] \<and> chn (call h u e s) = chn s \<and>
        chn_mask (call h u e s) = chn_mask s \<and> sysclk1 (call h u e s) = sysclk1 s) \<and>
     (\<forall>m f s. log (upd_regs m f s) = log s) \<and> (\<forall>c f s. log (upd_chn c f s) = log s)"

lemma recorded_call:
  assumes "recorded call log"
  shows "log (call h u e s) = log s @ [(h, u, e)]" "chn (call h u e s) = chn s"
    "chn_mask (call h u e s) = chn_mask s" "sysclk1 (call h u e s) = sysclk1 s"
    "log (upd_regs m f s) = log s" "log (upd_chn c g s) = log s"
  using assms by (auto simp: recorded_def)

lemma isr_channel_calls:
  assumes rec: "recorded call log" and m: "m < 2" and i: "i < 10"
    and t: "reqto AND bit_of i \<noteq> 0 \<Longrightarrow> timeout_ok s (i + m * 10) (m_u32IdleTimeout_us (chn s ! (i + m * 10)))"
  shows "\<exists>s'. isr_channel call s m abt td unal reqto i = Some s' \<and> chn s' = chn s \<and> chn_mask s' = chn_mask s \<and>
    sysclk1 s' = sysclk1 s \<and>
    log s' = log s @ (if i + m * 10 \<in> allocated s then due_calls (chn s ! (i + m * 10)) (ch_events abt td unal reqto i) else [])"
proof -
  let ?j = "i + m * 10" and ?ev = "ch_events abt td unal reqto i"
  let ?x = "chn s ! ?j"
  have j: "?j < 20" "?j div 10 = m" "?j mod 10 = i" using m i by auto
  have al: "?j \<in> allocated s \<longleftrightarrow> chn_mask s ! m AND bit_of i \<noteq> 0" using j by (simp add: allocated_def and_bit_of)
  note R = recorded_call [OF rec]
  show ?thesis
  proof (cases "?j \<in> allocated s \<and> m_pfnCBHandler (m_sCB_Event ?x) \<noteq> 0")
    case False
    then show ?thesis using al by (auto simp: isr_channel_def due_calls_def PDMA_CH_MAX_def Let_def)
  next
    case True
    define s1 where "s1 = (if reqto AND bit_of i \<noteq> 0 then upd_regs m (\<lambda>r. PDMA_DisableTimeout r (bit_of i)) s else s)"
    define s2 where "s2 = (if m_pfnCBHandler (m_sCB_Disable ?x) \<noteq> 0
      then call (m_pfnCBHandler (m_sCB_Disable ?x)) (m_pvUserData (m_sCB_Disable ?x)) (m_u32Reserved (m_sCB_Disable ?x)) s1 else s1)"
    define s3 where "s3 = (if m_u32EventFilter ?x AND ?ev \<noteq> 0
      then call (m_pfnCBHandler (m_sCB_Event ?x)) (m_pvUserData (m_sCB_Event ?x)) ?ev s2 else s2)"
    have k1: "chn s1 = chn s" "chn_mask s1 = chn_mask s" "sysclk1 s1 = sysclk1 s" "log s1 = log s"
      by (simp_all add: s1_def R)
    have k2: "chn s2 = chn s" "chn_mask s2 = chn_mask s" "sysclk1 s2 = sysclk1 s"
      by (simp_all add: s2_def R k1)
    have k3: "chn s3 = chn s" "chn_mask s3 = chn_mask s" "sysclk1 s3 = sysclk1 s"
      by (simp_all add: s3_def R k2)
    have log3: "log s3 = log s @ due_calls ?x ?ev"
      using True by (simp add: s3_def s2_def R k1 due_calls_def)
    have run: "isr_channel call s m abt td unal reqto i = (if reqto AND bit_of i \<noteq> 0 then do {
        (_, s4) \<leftarrow> nu_pdma_timeout_set s3 (int ?j) (sint (m_u32IdleTimeout_us ?x)); Some s4 } else Some s3)"
      using True al unfolding isr_channel_def Let_def PDMA_CH_MAX_def
      by (simp add: R s3_def s2_def s1_def)
    show ?thesis
    proof (cases "reqto AND bit_of i \<noteq> 0")
      case False
      then show ?thesis using run k3 log3 True by auto
    next
      case to: True
      have a: "?j \<in> allocated s3" "timeout_ok s3 ?j (m_u32IdleTimeout_us ?x)"
        using True t [OF to] by (auto simp: allocated_def k3 timeout_ok_def)
      obtain F ret where F: "nu_pdma_timeout_set s3 (int ?j) (sint (m_u32IdleTimeout_us ?x)) =
          Some (ret, upd_regs m F (upd_chn ?j (\<lambda>y. y\<lparr>m_u32IdleTimeout_us := m_u32IdleTimeout_us ?x\<rparr>) s3))"
        using timeout_set_eq [OF j(1) a] j(2) by auto
      have same: "(chn s)[?j := ?x\<lparr>m_u32IdleTimeout_us := m_u32IdleTimeout_us ?x\<rparr>] = chn s"
        by (simp add: list_update_id)
      show ?thesis using run to F k3 log3 True same by (simp add: R)
    qed
  qed
qed

lemma isr_calls_in_order:
  assumes rec: "recorded call log" and m: "m < 2" and xs: "\<forall>i \<in> set xs. i < 10"
    and t: "\<And>i. i \<in> set xs \<Longrightarrow> reqto AND bit_of i \<noteq> 0 \<Longrightarrow> timeout_ok s (i + m * 10) (m_u32IdleTimeout_us (chn s ! (i + m * 10)))"
  shows "\<exists>s'. fold_opt (\<lambda>s i. isr_channel call s m abt td unal reqto i) s xs = Some s' \<and> chn s' = chn s \<and>
    chn_mask s' = chn_mask s \<and>
    log s' = log s @ concat (map (\<lambda>i. if i + m * 10 \<in> allocated s
      then due_calls (chn s ! (i + m * 10)) (ch_events abt td unal reqto i) else []) xs)"
  using xs t
proof (induction xs arbitrary: s)
  case (Cons i xs)
  obtain s1 where s1: "isr_channel call s m abt td unal reqto i = Some s1" "chn s1 = chn s" "chn_mask s1 = chn_mask s"
      "sysclk1 s1 = sysclk1 s" "log s1 = log s @ (if i + m * 10 \<in> allocated s
        then due_calls (chn s ! (i + m * 10)) (ch_events abt td unal reqto i) else [])"
    using isr_channel_calls [OF rec m, of i reqto s abt td unal] Cons.prems by auto
  have al: "allocated s1 = allocated s" by (simp add: allocated_def s1)
  have t1: "timeout_ok s1 (k + m * 10) (m_u32IdleTimeout_us (chn s1 ! (k + m * 10)))"
    if "k \<in> set xs" "reqto AND bit_of k \<noteq> 0" for k
    using Cons.prems(2) [of k] that by (simp add: timeout_ok_def s1)
  obtain s' where "fold_opt (\<lambda>s i. isr_channel call s m abt td unal reqto i) s1 xs = Some s'" "chn s' = chn s1"
      "chn_mask s' = chn_mask s1" "log s' = log s1 @ concat (map (\<lambda>i. if i + m * 10 \<in> allocated s1
      then due_calls (chn s1 ! (i + m * 10)) (ch_events abt td unal reqto i) else []) xs)"
    using Cons.IH [OF _ t1] Cons.prems(1) by auto
  then show ?case using s1 al by (simp cong: if_cong)
qed simp

lemma flag_events_eq:
  assumes "i < 10"
  shows "ch_events (ABTSTS r) (TDSTS r) (ALIGN r) (drop_bit 8 (INTSTS r AND push_bit 8 PDMA_CH_Msk)) i = flag_events r i"
    "bit (drop_bit 8 (INTSTS r AND push_bit 8 PDMA_CH_Msk)) i \<longleftrightarrow> bit (INTSTS r) (8 + i)"
proof -
  have k: "PDMA_CH_Msk = mask 10" by (simp add: PDMA_CH_Msk_def PDMA_CH_MAX_def mask_eq_exp_minus_1)
  have "bit PDMA_CH_Msk i" unfolding k bit_mask_iff using assms by simp
  then show b: "bit (drop_bit 8 (INTSTS r AND push_bit 8 PDMA_CH_Msk)) i \<longleftrightarrow> bit (INTSTS r) (8 + i)"
    using assms by (simp add: bit_drop_bit_eq bit_and_iff bit_push_bit_iff)
  show "ch_events (ABTSTS r) (TDSTS r) (ALIGN r) (drop_bit 8 (INTSTS r AND push_bit 8 PDMA_CH_Msk)) i = flag_events r i"
    unfolding ch_events_def flag_events_def and_bit_of using b by simp
qed

text \<open>C27: The interrupt handler serves what is pending. Suppose the callbacks record their calls and leave the channel
  records and the set of allocated channels alone, and that on every channel with a time-out flag the time-out can
  be set again (not on channels 8 and 9 of a controller, unless it is off by now). Then \<^verbatim>\<open>nu_pdma_isr\<close>
  returns, and it has made exactly the calls that are due for the channels with an abort, transfer-done, alignment or
  time-out flag, in the order of the channels: nothing for a channel that is not allocated or has no handler, otherwise
  its disable callback if there is one and, if its filter asks for one of the events, its handler once with
  exactly the events flagged.\<close>

theorem pdma_isr_serves_pending:
  assumes "recorded call log" "m < 2"
    "\<forall>i < 10. bit (INTSTS (regs st ! m)) (8 + i) \<longrightarrow>
       timeout_ok st (i + m * 10) (m_u32IdleTimeout_us (chn st ! (i + m * 10)))"
  shows "\<exists>st'. nu_pdma_isr call st m = Some st' \<and> chn st' = chn st \<and> chn_mask st' = chn_mask st \<and>
    log st' = log st @ concat (map (\<lambda>i. if i + m * 10 \<in> allocated st
        then due_calls (chn st ! (i + m * 10)) (flag_events (regs st ! m) i) else [])
      (filter (\<lambda>i. flag_events (regs st ! m) i \<noteq> 0) [0..<10]))"
proof -
  let ?r = "regs st ! m"
  let ?to = "drop_bit 8 (INTSTS ?r AND push_bit 8 PDMA_CH_Msk)"
  let ?P = "\<lambda>i. bit ?to i \<or> bit (TDSTS ?r) i \<or> bit (ABTSTS ?r) i \<or> bit (ALIGN ?r) i"
  obtain r' where r': "nu_pdma_isr call st m = fold_opt (\<lambda>s i. isr_channel call s m (ABTSTS ?r) (TDSTS ?r) (ALIGN ?r) ?to i)
      (upd_regs m (\<lambda>_. r') st) (filter ?P [0..<10])"
    using isr_folds [of call st m] by (simp add: Let_def)
  have f: "filter ?P [0..<10] = filter (\<lambda>i. flag_events ?r i \<noteq> 0) [0..<10]"
  proof (rule filter_cong [OF refl])
    fix i assume "i \<in> set [0..<10::nat]"
    then have b: "bit ?to i = bit (INTSTS ?r) (8 + i)" using flag_events_eq(2) by simp
    show "?P i = (flag_events ?r i \<noteq> 0)"
      unfolding b by (simp add: flag_events_def NU_PDMA_EVENT_ABORT_def NU_PDMA_EVENT_TRANSFER_DONE_def
          NU_PDMA_EVENT_ALIGNMENT_def NU_PDMA_EVENT_TIMEOUT_def)
  qed
  let ?s = "upd_regs m (\<lambda>_. r') st"
  have t: "timeout_ok ?s (i + m * 10) (m_u32IdleTimeout_us (chn ?s ! (i + m * 10)))"
    if "i \<in> set (filter ?P [0..<10])" "?to AND bit_of i \<noteq> 0" for i
    using assms(3) that flag_events_eq(2) [of i ?r] by (auto simp: timeout_ok_def and_bit_of)
  have al: "allocated ?s = allocated st" by (simp add: allocated_def)
  obtain s' where s': "nu_pdma_isr call st m = Some s'" "chn s' = chn st" "chn_mask s' = chn_mask st"
      "log s' = log st @ concat (map (\<lambda>i. if i + m * 10 \<in> allocated st then due_calls (chn st ! (i + m * 10))
        (ch_events (ABTSTS ?r) (TDSTS ?r) (ALIGN ?r) ?to i) else []) (filter ?P [0..<10]))"
    using isr_calls_in_order [where s = ?s and xs = "filter ?P [0..<10]" and reqto = ?to and abt = "ABTSTS ?r"
        and td = "TDSTS ?r" and unal = "ALIGN ?r", OF assms(1,2) _ t] unfolding al
    by (auto simp: r' recorded_call(5) [OF assms(1)] simp del: drop_bit_and cong: if_cong)
  moreover have "map (\<lambda>i. if i + m * 10 \<in> allocated st then due_calls (chn st ! (i + m * 10))
        (ch_events (ABTSTS ?r) (TDSTS ?r) (ALIGN ?r) ?to i) else []) (filter ?P [0..<10]) =
      map (\<lambda>i. if i + m * 10 \<in> allocated st then due_calls (chn st ! (i + m * 10)) (flag_events ?r i) else [])
        (filter ?P [0..<10])"
    by (rule map_cong [OF refl]) (use flag_events_eq(1) in auto)
  ultimately show ?thesis unfolding f by auto
qed

text \<open>Callbacks that record their calls, in a cell of memory that nothing else uses; and channel 0 with its
  transfer done.\<close>

definition calls_seen :: "pdma \<Rightarrow> (nat \<times> nat \<times> 32 word) list" where
  "calls_seen s = map (\<lambda>(h, u, e). (h, u, of_nat e)) (from_nat (nat (sgtbl s (- 1))) :: (nat \<times> nat \<times> nat) list)"

definition note_call :: callback where
  "note_call h u e s = s\<lparr>sgtbl := (sgtbl s)(- 1 :=
     int (to_nat ((from_nat (nat (sgtbl s (- 1))) :: (nat \<times> nat \<times> nat) list) @ [(h, u, unat e)])))\<rparr>"

definition isr_example :: pdma where
  "isr_example = pdma_example\<lparr>
     chn := zero_chn\<lparr>m_sCB_Event := zero_cb\<lparr>m_pfnCBHandler := 5, m_pvUserData := 77\<rparr>,
       m_sCB_Disable := zero_cb\<lparr>m_pfnCBHandler := 3, m_pvUserData := 33, m_u32Reserved := 9\<rparr>,
       m_u32EventFilter := NU_PDMA_EVENT_TRANSFER_DONE\<rparr> # replicate 19 zero_chn,
     regs := [(regs pdma_example ! 0)\<lparr>INTSTS := 2, TDSTS := 1, ABTSTS := 0, ALIGN := 0\<rparr>, regs pdma_example ! 1]\<rparr>"

theorem pdma_isr_serves_pending_witness:
  "\<exists>st'. nu_pdma_isr note_call isr_example 0 = Some st' \<and>
     calls_seen st' = calls_seen isr_example @ [(3, 33, 9), (5, 77, NU_PDMA_EVENT_TRANSFER_DONE)]"
proof -
  let ?r = "regs isr_example ! 0"
  have rec: "recorded note_call calls_seen"
    by (simp add: recorded_def note_call_def calls_seen_def)
  have b: "bit (1 :: 32 word) i \<longleftrightarrow> i = 0" "\<not> bit (2 :: 32 word) (8 + i)" for i
    using bit_bit_of [of 0 i] bit_bit_of [of 1 "8 + i"] by (auto simp: bit_of_def)
  have f: "flag_events ?r i = (if i = 0 then NU_PDMA_EVENT_TRANSFER_DONE else 0)" for i
    using b [of i] by (auto simp: flag_events_def isr_example_def)
  have nz: "NU_PDMA_EVENT_TRANSFER_DONE \<noteq> 0" by (simp add: NU_PDMA_EVENT_TRANSFER_DONE_def)
  have l: "filter (\<lambda>i. flag_events ?r i \<noteq> 0) [0..<10] = [0]"
    using nz by (simp add: f upt_rec)
  have to: "\<forall>i < 10. bit (INTSTS ?r) (8 + i) \<longrightarrow>
       timeout_ok isr_example (i + 0 * 10) (m_u32IdleTimeout_us (chn isr_example ! (i + 0 * 10)))"
    using b(2) by (simp add: isr_example_def)
  have a: "0 \<in> allocated isr_example"
    using pdma_example(3) by (simp add: allocated_def isr_example_def)
  have x: "due_calls (chn isr_example ! 0) NU_PDMA_EVENT_TRANSFER_DONE = [(3, 33, 9), (5, 77, NU_PDMA_EVENT_TRANSFER_DONE)]"
    by (simp add: isr_example_def due_calls_def NU_PDMA_EVENT_TRANSFER_DONE_def)
  from pdma_isr_serves_pending [OF rec _ to, unfolded l] show ?thesis
    using a f [of 0] x by auto
qed

end
