(* ===== verification/Ctime.thy ===== *)
theory Ctime
  imports Rtdef Kheap "HOL-Library.Signed_Division"
begin

text \<open>
  Calendar time (\<^verbatim>\<open>components/libc/compilers/common/ctime.c\<close>): conversion between seconds since 1970 and
  broken-down time, with a fixed time zone. A null pointer is \<open>None\<close>; following one, or reading
  outside of a table, has no result. The fields of \<^verbatim>\<open>struct tm\<close> are \<^verbatim>\<open>int\<close>s, taken as integers: sums of them that
  exceed 32 bits are undefined in C. The width of \<^verbatim>\<open>time_t\<close> is that of the C library in use; it is taken
  as an integer too. Division and remainder are those of C
  (\<open>sdiv\<close>, \<open>smod\<close>).
\<close>

section \<open>Definitions\<close>

record tm =
  tm_sec :: int
  tm_min :: int
  tm_hour :: int
  tm_mday :: int
  tm_mon :: int
  tm_year :: int
  tm_wday :: int
  tm_yday :: int
  tm_isdst :: int

definition SPD :: int where "SPD = 24 * 60 * 60"

definition spm :: "int list" where
  "spm = [0, 31, 31 + 28, 31 + 28 + 31, 31 + 28 + 31 + 30, 31 + 28 + 31 + 30 + 31, 31 + 28 + 31 + 30 + 31 + 30,
     31 + 28 + 31 + 30 + 31 + 30 + 31, 31 + 28 + 31 + 30 + 31 + 30 + 31 + 31, 31 + 28 + 31 + 30 + 31 + 30 + 31 + 31 + 30,
     31 + 28 + 31 + 30 + 31 + 30 + 31 + 31 + 30 + 31, 31 + 28 + 31 + 30 + 31 + 30 + 31 + 31 + 30 + 31 + 30,
     31 + 28 + 31 + 30 + 31 + 30 + 31 + 31 + 30 + 31 + 30 + 31]"

definition isleap :: "int \<Rightarrow> bool" where
  "isleap year \<longleftrightarrow> \<not> (year smod 4 \<noteq> 0) \<and> (year smod 100 \<noteq> 0 \<or> \<not> (year smod 400 \<noteq> 0))"

text \<open>
  The daylight-saving flag. The time zone (\<^verbatim>\<open>tz_get\<close>, hours in an \<^verbatim>\<open>int8_t\<close>) is the argument \<open>tz\<close> below.
\<close>

definition tz_is_dst :: int where "tz_is_dst = 0"

function gm_year :: "int \<Rightarrow> int \<Rightarrow> int \<times> int" where
  "gm_year i work = (let k = (if isleap i then 366 else 365) in if k \<le> work then gm_year (i + 1) (work - k) else (i, work))"
  by auto
termination by (relation "measure (\<lambda>(_, work). nat work)") (auto split: if_splits)

declare gm_year.simps [simp del]

fun gm_mon :: "nat \<Rightarrow> int \<Rightarrow> nat" where
  "gm_mon 0 work = 0"
| "gm_mon (Suc i) work = (if work < spm ! Suc i then gm_mon i work else Suc i)"

definition gm_tm :: "int \<Rightarrow> tm" where
  "gm_tm t =
     (let work0 = t smod SPD;
          sec = work0 smod 60;
          work1 = work0 sdiv 60;
          work = s32 (t sdiv SPD);
          wday = (4 + work) smod 7;
          (i, yday) = gm_year 1970 work;
          mday0 = (if isleap i \<and> 58 < yday \<and> yday = 59 then 2 else 1);
          work2 = (if isleap i \<and> 58 < yday then yday - 1 else yday);
          m = gm_mon 11 work2
      in \<lparr>tm_sec = sec, tm_min = work1 smod 60, tm_hour = work1 sdiv 60, tm_mday = mday0 + (work2 - spm ! m),
          tm_mon = int m, tm_year = i - 1900, tm_wday = wday, tm_yday = yday, tm_isdst = tz_is_dst\<rparr>)"

text \<open>\<^verbatim>\<open>gmtime_r\<close> reads the time before it tests the pointer to it. \<open>r\<close> is the caller's structure.\<close>

definition gmtime_r :: "int option \<Rightarrow> tm option \<Rightarrow> tm option option" where
  "gmtime_r timep r = (case timep of None \<Rightarrow> None
     | Some t \<Rightarrow> (case r of None \<Rightarrow> Some None | Some _ \<Rightarrow> Some (Some (gm_tm t))))"

definition localtime_r :: "int \<Rightarrow> int option \<Rightarrow> tm option \<Rightarrow> tm option option" where
  "localtime_r tz timep r = (case timep of None \<Rightarrow> None | Some t \<Rightarrow> gmtime_r (Some (t + tz * 3600)) r)"

text \<open>\<^verbatim>\<open>gmtime\<close> and \<^verbatim>\<open>localtime\<close> fill a static structure, \<open>tmp\<close>.\<close>

definition gmtime :: "int option \<Rightarrow> tm \<Rightarrow> tm option option" where
  "gmtime t tmp = gmtime_r t (Some tmp)"

definition localtime :: "int \<Rightarrow> int option \<Rightarrow> tm \<Rightarrow> tm option option" where
  "localtime tz t tmp = localtime_r tz t (Some tmp)"

text \<open>The loop of \<^verbatim>\<open>timegm\<close> over days beyond the month: the day, the month and the year.\<close>

function tm_norm :: "int \<Rightarrow> int \<Rightarrow> int \<Rightarrow> (int \<times> int \<times> int) option" where
  "tm_norm mday mon year =
     (if 1 + mon < 0 \<or> 12 < 1 + mon then None
      else if spm ! nat (1 + mon) < mday then
        (if mon < 0 then None
         else let mday1 = (if mon = 1 \<and> isleap (year + 1900) then mday - 1 else mday);
                  mday2 = mday1 - spm ! nat mon
              in if 11 < mon + 1 then tm_norm mday2 0 (year + 1) else tm_norm mday2 (mon + 1) year)
      else Some (mday, mon, year))"
  by auto

lemma spm_nth:
  "spm ! 0 = 0" "spm ! 1 = 31" "spm ! 2 = 59" "spm ! 3 = 90" "spm ! 4 = 120" "spm ! 5 = 151" "spm ! 6 = 181"
  "spm ! 7 = 212" "spm ! 8 = 243" "spm ! 9 = 273" "spm ! 10 = 304" "spm ! 11 = 334" "spm ! 12 = 365" "length spm = 13"
  by (simp_all add: spm_def)

lemma spm_ge: "0 < i \<Longrightarrow> i \<le> 12 \<Longrightarrow> 31 \<le> spm ! i"
proof -
  assume i: "0 < i" "i \<le> 12"
  have "list_all (\<lambda>i. 31 \<le> spm ! i) [1..<13]" by code_simp
  then show ?thesis using i by (auto simp: list_all_iff)
qed

termination tm_norm
proof (relation "measures [\<lambda>(mday, _, _). nat mday, \<lambda>(_, mon, _). nat (12 - mon)]", goal_cases)
  case (2 mday mon year mday1 mday2)
  then have "0 < nat mon" "nat mon \<le> 12" by auto
  then have "31 \<le> spm ! nat mon" "31 \<le> spm ! nat (1 + mon)" using spm_ge 2 by auto
  then show ?case using 2 by (auto split: if_splits)
next
  case (3 mday mon year mday1 mday2)
  have m: "0 < nat (1 + mon)" "nat (1 + mon) \<le> 12" using 3 by auto
  then have a: "31 \<le> spm ! nat (1 + mon)" by (rule spm_ge)
  show ?case
  proof (cases "mon = 0")
    case True
    then show ?thesis using 3 a by (auto simp: spm_nth split: if_splits)
  next
    case False
    then have "31 \<le> spm ! nat mon" using 3 by (intro spm_ge) auto
    then show ?thesis using 3 a by (auto split: if_splits)
  qed
qed simp

declare tm_norm.simps [simp del]

definition leap_days :: "int \<Rightarrow> int" where
  "leap_days years =
     (let day = years * 365 + (years + 1) sdiv 4
      in if 131 \<le> years then
           (let y1 = (years - 131) sdiv 100;
                day1 = day - (drop_bit 2 y1 * 3 + 1);
                y2 = y1 AND 3;
                y3 = (if y2 = 3 then y2 - 1 else y2)
            in day1 - y3)
         else day)"

definition timegm :: "tm option \<Rightarrow> (int \<times> tm option) option" where
  "timegm tp = (case tp of None \<Rightarrow> Some (-1, None) | Some t0 \<Rightarrow> do {
     let years = tm_year t0 - 70;
     let t1 = (if 60 < tm_sec t0 then t0\<lparr>tm_min := tm_min t0 + tm_sec t0 sdiv 60, tm_sec := tm_sec t0 smod 60\<rparr> else t0);
     let t2 = (if 60 \<le> tm_min t1 then t1\<lparr>tm_hour := tm_hour t1 + tm_min t1 sdiv 60, tm_min := tm_min t1 smod 60\<rparr> else t1);
     let t3 = (if 24 \<le> tm_hour t2 then t2\<lparr>tm_mday := tm_mday t2 + tm_hour t2 sdiv 24, tm_hour := tm_hour t2 smod 24\<rparr> else t2);
     let t4 = (if 12 \<le> tm_mon t3 then t3\<lparr>tm_year := tm_year t3 + tm_mon t3 sdiv 12, tm_mon := tm_mon t3 smod 12\<rparr> else t3);
     (mday, mon, year) \<leftarrow> tm_norm (tm_mday t4) (tm_mon t4) (tm_year t4);
     let t5 = t4\<lparr>tm_mday := mday, tm_mon := mon, tm_year := year\<rparr>;
     (if year < 70 then Some (-1, Some t5)
      else if mon < 0 then None
      else do {
        let yday = spm ! nat mon + mday - 1 + (if isleap (year + 1900) \<and> 1 < mon then 1 else 0);
        let day = leap_days years + yday;
        let t6 = t5\<lparr>tm_yday := yday, tm_wday := (day + 4) smod 7\<rparr>;
        Some (((day * 24 + tm_hour t6) * 60 + tm_min t6) * 60 + tm_sec t6, Some t6)
      })
   })"

definition mktime :: "int \<Rightarrow> tm option \<Rightarrow> (int \<times> tm option) option" where
  "mktime tz tp = do { (r, t) \<leftarrow> timegm tp; Some (r - 3600 * tz, t) }"

section \<open>Printing\<close>

text \<open>Characters are bytes; \<open>ascii\<close> converts a literal.\<close>

definition ascii :: "string \<Rightarrow> 8 word list" where
  "ascii s = map (\<lambda>c. word_of_nat (of_char c)) s"

definition days :: "8 word list" where "days = ascii ''Sun Mon Tue Wed Thu Fri Sat ''"

definition months :: "8 word list" where "months = ascii ''Jan Feb Mar Apr May Jun Jul Aug Sep Oct Nov Dec ''"

definition num2str :: "int \<Rightarrow> 8 word list" where
  "num2str i = [word_of_int (i sdiv 10 + 48), word_of_int (i smod 10 + 48)]"

text \<open>The four bytes a name takes, copied as one \<^verbatim>\<open>int\<close>; names before the table are not readable.\<close>

definition name4 :: "8 word list \<Rightarrow> int \<Rightarrow> 8 word list option" where
  "name4 tab i = (if i < 0 \<or> int (length tab) < i * 4 + 4 then None else Some (take 4 (drop (nat (i * 4)) tab)))"

definition asctime_bytes :: "8 word list \<Rightarrow> 8 word list \<Rightarrow> tm \<Rightarrow> int \<Rightarrow> 8 word list" where
  "asctime_bytes day mon t year =
     (let md = num2str (tm_mday t); md1 = (if md ! 0 = 48 then md[0 := 32] else md)
      in day @ mon @ md1 @ [32] @ num2str (tm_hour t) @ [58] @ num2str (tm_min t) @ [58] @ num2str (tm_sec t) @ [32] @
         num2str (year sdiv 100) @ num2str (year smod 100) @ [10, 0])"

text \<open>\<open>buf\<close> holds the bytes of the caller's buffer; a buffer shorter than the 26 bytes cleared first is a fault.\<close>

definition asctime_r :: "tm option \<Rightarrow> 8 word list option \<Rightarrow> 8 word list option option" where
  "asctime_r t0 buf0 = (case (t0, buf0) of
     (Some t, Some buf) \<Rightarrow>
       if length buf < 26 then None
       else if int (length days) \<le> tm_wday t * 4 \<or> int (length months) \<le> tm_mon t * 4 then do {
         day \<leftarrow> name4 days 0;
         mon \<leftarrow> name4 months 0;
         Some (Some (asctime_bytes day mon t 2000 @ drop 26 buf))
       } else do {
         day \<leftarrow> name4 days (tm_wday t);
         mon \<leftarrow> name4 months (tm_mon t);
         Some (Some (asctime_bytes day mon t (tm_year t + 1900) @ drop 26 buf))
       }
   | _ \<Rightarrow> Some None)"

definition ctime_r :: "int \<Rightarrow> int option \<Rightarrow> 8 word list option \<Rightarrow> 8 word list option option" where
  "ctime_r tz tim_p result = do { t \<leftarrow> localtime_r tz tim_p (Some \<lparr>tm_sec = 0, tm_min = 0, tm_hour = 0, tm_mday = 0, tm_mon = 0,
     tm_year = 0, tm_wday = 0, tm_yday = 0, tm_isdst = 0\<rparr>); asctime_r t result }"

section \<open>Division of numbers that are not negative\<close>

lemma sdiv_pos: "0 \<le> a \<Longrightarrow> 0 < b \<Longrightarrow> a sdiv b = a div b" for a b :: int
  by (auto simp: signed_divide_int_def sgn_if)

lemma smod_pos: "0 \<le> a \<Longrightarrow> 0 < b \<Longrightarrow> a smod b = a mod b" for a b :: int
  by (auto simp: signed_modulo_int_def sgn_if)

lemma digits: "0 \<le> a \<Longrightarrow> 0 \<le> b \<Longrightarrow> b < k \<Longrightarrow> (a * k + b) smod k = b \<and> (a * k + b) sdiv k = a" for a b k :: int
  by (subst smod_pos sdiv_pos; simp)+

end
