(* ===== verification/Ctime_Props.thy ===== *)
theory Ctime_Props
  imports Ctime
begin

text \<open>
  The conversions of \<^verbatim>\<open>ctime.c\<close> against the Gregorian calendar: which dates \<open>gmtime_r\<close> and \<open>localtime_r\<close> give, that
  \<open>timegm\<close> and \<open>mktime\<close> undo them, what \<open>timegm\<close> makes of fields that are out of range, and what \<open>ctime_r\<close> prints.
\<close>

section \<open>The calendar\<close>

definition leap :: "nat \<Rightarrow> bool" where
  "leap y \<longleftrightarrow> 4 dvd y \<and> (\<not> 100 dvd y \<or> 400 dvd y)"

text \<open>Days from 1970 to the first day of a year, and from there to the first day of a month; the length of a month.\<close>

fun year_start :: "nat \<Rightarrow> nat" where
  "year_start 0 = 0"
| "year_start (Suc n) = year_start n + (if leap (1970 + n) then 366 else 365)"

definition month_len :: "bool \<Rightarrow> nat \<Rightarrow> nat" where
  "month_len l m = [31, if l then 29 else 28, 31, 30, 31, 30, 31, 31, 30, 31, 30, 31] ! m"

definition month_start :: "bool \<Rightarrow> nat \<Rightarrow> nat" where
  "month_start l m = sum_list (map (month_len l) [0..<m])"

text \<open>The day number of a date (months and weekdays count from 0), and the seconds since 1970 of a date and time of day.\<close>

definition day_no :: "nat \<Rightarrow> nat \<Rightarrow> nat \<Rightarrow> nat" where
  "day_no y mon mday = year_start (y - 1970) + (month_start (leap y) mon + (mday - 1))"

definition date_secs :: "nat \<Rightarrow> nat \<Rightarrow> nat \<Rightarrow> nat \<Rightarrow> nat \<Rightarrow> nat \<Rightarrow> int" where
  "date_secs y mon mday h m sec = ((int (day_no y mon mday) * 24 + int h) * 60 + int m) * 60 + int sec"

definition valid_date :: "nat \<Rightarrow> nat \<Rightarrow> nat \<Rightarrow> bool" where
  "valid_date y mon mday \<longleftrightarrow> 1970 \<le> y \<and> mon < 12 \<and> 0 < mday \<and> mday \<le> month_len (leap y) mon"

text \<open>The fields for a date and time of day.\<close>

definition date_tm :: "nat \<Rightarrow> nat \<Rightarrow> nat \<Rightarrow> nat \<Rightarrow> nat \<Rightarrow> nat \<Rightarrow> tm" where
  "date_tm y mon mday h m sec =
     \<lparr>tm_sec = int sec, tm_min = int m, tm_hour = int h, tm_mday = int mday, tm_mon = int mon, tm_year = int y - 1900,
      tm_wday = int ((4 + day_no y mon mday) mod 7), tm_yday = int (month_start (leap y) mon + (mday - 1)), tm_isdst = 0\<rparr>"

lemma isleap_eq: "isleap (int y) = leap y"
proof -
  have k: "int y smod int k = 0 \<longleftrightarrow> k dvd y" if "0 < k" for k
  proof -
    have "int y smod int k = int y mod int k" using that by (intro smod_pos) simp_all
    then show ?thesis unfolding zmod_int [symmetric] dvd_eq_mod_eq_0 by (simp only: of_nat_eq_0_iff)
  qed
  note K = k [of 4] k [of 100] k [of 400]
  show ?thesis
    unfolding isleap_def leap_def K [unfolded of_nat_numeral, OF zero_less_numeral, symmetric] by (simp only: not_not)
qed

lemma spm_Suc0: "spm ! Suc 0 = 31" "spm ! Suc (Suc 0) = 59" by (simp_all add: spm_def)

definition leaps :: "nat \<Rightarrow> int" where
  "leaps y = int (y div 4) - int (y div 100) + int (y div 400)"

lemma leaps_step:
  "(r \<Longrightarrow> q) \<Longrightarrow> (q \<Longrightarrow> p) \<Longrightarrow>
   int (if p then Suc a else a) - int (if q then Suc b else b) + int (if r then Suc c else c) =
   int a - int b + int c + (if p \<and> (\<not> q \<or> r) then 1 else 0)"
  by (cases p; cases q; cases r) simp_all

lemma leaps_Suc: "leaps (Suc y) = leaps y + (if leap (Suc y) then 1 else 0)"
proof -
  have d: "Suc y div k = (if k dvd Suc y then Suc (y div k) else y div k)" if "0 < k" for k
    unfolding div_Suc dvd_eq_mod_eq_0 by (rule refl)
  have a: "(100 :: nat) dvd Suc y \<Longrightarrow> 4 dvd Suc y" using dvd_trans [of "4 :: nat" 100 "Suc y"] by simp
  have b: "(400 :: nat) dvd Suc y \<Longrightarrow> 100 dvd Suc y" using dvd_trans [of "100 :: nat" 400 "Suc y"] by simp
  have e: "Suc y div 4 = (if 4 dvd Suc y then Suc (y div 4) else y div 4)"
    "Suc y div 100 = (if 100 dvd Suc y then Suc (y div 100) else y div 100)"
    "Suc y div 400 = (if 400 dvd Suc y then Suc (y div 400) else y div 400)"
    by (rule d, simp)+
  show ?thesis unfolding leaps_def leap_def e by (rule leaps_step) (rule b, assumption, rule a, assumption)
qed

lemma year_start_eq: "int (year_start n) = 365 * int n + leaps (1969 + n) - leaps 1969"
proof (induction n)
  case (Suc n)
  then show ?case using leaps_Suc [of "1969 + n"] by simp
qed simp

lemma leap_steps:
  assumes "0 \<le> (c :: int)"
  shows "c + 1 - (c + 1) div 4 = (c div 4) * 3 + 1 + (if c mod 4 = 3 then c mod 4 - 1 else c mod 4)"
proof -
  define q r where "q = c div 4" and "r = c mod 4"
  have c: "c = 4 * q + r" and r: "0 \<le> r" "r < 4" by (simp_all add: q_def r_def)
  have "r = 0 \<or> r = 1 \<or> r = 2 \<or> r = 3" using r by auto
  then have "(c + 1) div 4 = (if r = 3 then q + 1 else q)" unfolding c by auto
  then show ?thesis unfolding q_def [symmetric] r_def [symmetric] using c by auto
qed

lemma leap_days_eq: "leap_days (int n) = int (year_start n)"
proof -
  have l: "leaps (1969 + n) - leaps 1969 = (int n + 1) div 4 - (int n + 69) div 100 + (int n + 369) div 400"
  proof -
    have "int ((1969 + n) div 4) = 492 + (int n + 1) div 4" by (simp add: zdiv_int)
    moreover have "int ((1969 + n) div 100) = 19 + (int n + 69) div 100" by (simp add: zdiv_int)
    moreover have "int ((1969 + n) div 400) = 4 + (int n + 369) div 400" by (simp add: zdiv_int)
    ultimately show ?thesis by (simp add: leaps_def)
  qed
  have s: "(int n + 1) sdiv 4 = (int n + 1) div 4" by (simp add: sdiv_pos)
  show ?thesis
  proof (cases "n < 131")
    case True
    have "(int n + 69) div 100 = (int n + 369) div 400"
    proof (cases "n < 31")
      case False
      then have "(int n + 69) div 100 = 1" "(int n + 369) div 400 = 1"
        using True int_div_pos_eq [of "int n + 69" 100 1 "int n - 31"] int_div_pos_eq [of "int n + 369" 400 1 "int n - 31"]
        by simp_all
      then show ?thesis by simp
    qed simp
    then show ?thesis using True l s by (simp add: leap_days_def year_start_eq)
  next
    case False
    define c where "c = (int n - 131) div 100"
    have c: "0 \<le> c" using False by (simp add: c_def)
    have "(int n + 69) div 100 = 2 + c" using div_plus_div_distrib_dvd_left [of 100 200 "int n - 131"] by (simp add: c_def)
    moreover have "(int n + 369) div 400 = 1 + (c + 1) div 4"
    proof -
      have "(c + 1) = (int n - 31) div 100" using div_plus_div_distrib_dvd_left [of 100 100 "int n - 131"] by (simp add: c_def)
      then have "(c + 1) div 4 = (int n - 31) div 400" by (simp add: zdiv_zmult2_eq [of 4 "int n - 31" 100, simplified])
      then show ?thesis using div_plus_div_distrib_dvd_left [of 400 400 "int n - 31"] by simp
    qed
    ultimately have y: "int (year_start n) = int n * 365 + (int n + 1) div 4 - (c + 1 - (c + 1) div 4)"
      using l by (simp add: year_start_eq)
    have e: "(int n - 131) sdiv 100 = c" using False by (simp add: sdiv_pos c_def)
    have d: "drop_bit 2 c = c div 4" "c AND 3 = c mod 4"
      by (simp add: drop_bit_eq_div) (use and_mask_eq [of c 2] in simp)
    have "131 \<le> int n" using False by simp
    then have "leap_days (int n) = int n * 365 + (int n + 1) div 4 - (c div 4 * 3 + 1) - (if c mod 4 = 3 then c mod 4 - 1 else c mod 4)"
      unfolding leap_days_def Let_def s e d by (simp only: if_True)
    then show ?thesis using y leap_steps [OF c] by linarith
  qed
qed

lemma tables:
  assumes "mon < 12"
  shows "int (month_start l mon) = spm ! mon + (if l \<and> 1 < mon then 1 else 0)"
    "int (month_len l mon) = spm ! Suc mon - spm ! mon + (if l \<and> mon = 1 then 1 else 0)"
    "spm ! mon < spm ! Suc mon" "month_len l mon \<le> 31" "31 \<le> spm ! Suc mon" "2 \<le> mon \<Longrightarrow> 59 \<le> spm ! mon"
    "mon < 2 \<Longrightarrow> spm ! Suc mon \<le> 59" "mon = 0 \<Longrightarrow> spm ! Suc mon = 31"
proof -
  have "list_all (\<lambda>l. list_all (\<lambda>m. int (month_start l m) = spm ! m + (if l \<and> 1 < m then 1 else 0) \<and>
      int (month_len l m) = spm ! Suc m - spm ! m + (if l \<and> m = 1 then 1 else 0) \<and> spm ! m < spm ! Suc m \<and>
      month_len l m \<le> 31 \<and> 31 \<le> spm ! Suc m \<and> (2 \<le> m \<longrightarrow> 59 \<le> spm ! m) \<and> (m < 2 \<longrightarrow> spm ! Suc m \<le> 59) \<and>
      (m = 0 \<longrightarrow> spm ! Suc m = 31)) [0..<12]) [True, False]"
    by code_simp
  then have "list_all (\<lambda>m. int (month_start l m) = spm ! m + (if l \<and> 1 < m then 1 else 0) \<and>
      int (month_len l m) = spm ! Suc m - spm ! m + (if l \<and> m = 1 then 1 else 0) \<and> spm ! m < spm ! Suc m \<and>
      month_len l m \<le> 31 \<and> 31 \<le> spm ! Suc m \<and> (2 \<le> m \<longrightarrow> 59 \<le> spm ! m) \<and> (m < 2 \<longrightarrow> spm ! Suc m \<le> 59) \<and>
      (m = 0 \<longrightarrow> spm ! Suc m = 31)) [0..<12]"
    by (cases l) simp_all
  then show "int (month_start l mon) = spm ! mon + (if l \<and> 1 < mon then 1 else 0)"
    "int (month_len l mon) = spm ! Suc mon - spm ! mon + (if l \<and> mon = 1 then 1 else 0)"
    "spm ! mon < spm ! Suc mon" "month_len l mon \<le> 31" "31 \<le> spm ! Suc mon" "2 \<le> mon \<Longrightarrow> 59 \<le> spm ! mon"
    "mon < 2 \<Longrightarrow> spm ! Suc mon \<le> 59" "mon = 0 \<Longrightarrow> spm ! Suc mon = 31"
    using assms by (simp_all only: list_all_iff set_upt ball_simps atLeastLessThan_iff) auto
qed

lemma spm_mono: "i \<le> j \<Longrightarrow> j \<le> 12 \<Longrightarrow> spm ! i \<le> spm ! j"
proof -
  have "sorted spm" by code_simp
  then show "i \<le> j \<Longrightarrow> j \<le> 12 \<Longrightarrow> spm ! i \<le> spm ! j" by (simp add: sorted_nth_mono spm_nth)
qed

section \<open>From seconds to a date\<close>

lemma month_end: "mon < 12 \<Longrightarrow> mday \<le> month_len l mon \<Longrightarrow> 0 < mday \<Longrightarrow> month_start l mon + (mday - 1) < (if l then 366 else 365)"
  using tables(1,2) [of mon l] spm_mono [of "Suc mon" 12] by (auto simp: spm_nth split: if_splits)

definition year_len :: "nat \<Rightarrow> nat" where "year_len y = (if leap y then 366 else 365)"

lemma year_start_Suc: "year_start (Suc n) = year_start n + year_len (1970 + n)"
  by (simp add: year_len_def)

lemma year_start_mono: "m \<le> n \<Longrightarrow> year_start m \<le> year_start n"
  by (rule lift_Suc_mono_le) simp_all

lemma gm_year_date:
  assumes "k \<le> n" "r < year_len (1970 + n)"
  shows "gm_year (1970 + int k) (int (year_start n + r) - int (year_start k)) = (1970 + int n, int r)"
  using assms(1)
proof (induction k rule: inc_induct)
  case base
  then show ?case using assms(2) isleap_eq [of "1970 + n"]
    by (subst gm_year.simps) (simp add: Let_def year_len_def split: if_splits)
next
  case (step k)
  have "year_start (Suc k) \<le> year_start n" using step.hyps by (intro year_start_mono) simp
  moreover have "isleap (1970 + int k) = leap (1970 + k)" using isleap_eq [of "1970 + k"] by simp
  ultimately show ?case using step.IH
    by (subst gm_year.simps) (simp add: Let_def algebra_simps split: if_splits)
qed

lemma gm_mon_eq: "i \<le> 11 \<Longrightarrow> m \<le> i \<Longrightarrow> spm ! m \<le> w \<Longrightarrow> w < spm ! Suc m \<Longrightarrow> gm_mon i w = m"
proof (induction i)
  case (Suc i)
  show ?case
  proof (cases "m = Suc i")
    case False
    then have "spm ! Suc m \<le> spm ! Suc i" using Suc.prems by (intro spm_mono) auto
    then show ?thesis using Suc False by simp
  qed (use Suc.prems in simp)
qed simp

lemma gm_mday:
  assumes d: "mon < 12" "0 < mday" "mday \<le> month_len l mon"
    and yday: "yday = int (month_start l mon + (mday - 1))"
    and w: "w = (if l \<and> 58 < yday then yday - 1 else yday)"
  shows "gm_mon 11 w = mon" "(if l \<and> 58 < yday \<and> yday = 59 then 2 else 1) + (w - spm ! mon) = int mday"
proof -
  note T = tables(1,2) [OF d(1), of l] tables(3,5,6,7,8) [OF d(1)]
  have y: "yday = spm ! mon + (if l \<and> 1 < mon then 1 else 0) + int mday - 1" using yday d(2) T(1) by simp
  have m: "1 \<le> int mday" "int mday \<le> spm ! Suc mon - spm ! mon + (if l \<and> mon = 1 then 1 else 0)" using d(2,3) T(2) by simp_all
  have r: "spm ! mon \<le> w \<and> w < spm ! Suc mon \<and>
      (if l \<and> 58 < yday \<and> yday = 59 then 2 else 1) + (w - spm ! mon) = int mday"
  proof (cases "l \<and> 58 < yday")
    case l: True
    show ?thesis
    proof (cases "mon < 2")
      case True
      have "mon = 1"
      proof (rule ccontr)
        assume "mon \<noteq> 1"
        then have "mon = 0" using True by simp
        then show False using l y m T(7) by (simp add: spm_nth spm_Suc0 numeral_2_eq_2 [symmetric] split: if_splits)
      qed
      then show ?thesis using l y m w by (auto simp: spm_nth spm_Suc0 numeral_2_eq_2 [symmetric] split: if_splits)
    next
      case False
      then show ?thesis using l y m w T(5) by (auto split: if_splits)
    qed
  next
    case l: False
    show ?thesis
    proof (cases "l")
      case True
      then have "mon < 2" using l y m T(5) by (auto split: if_splits)
      then have "mon = 0 \<or> mon = 1" by auto
      then show ?thesis using True l y m w by (auto simp: spm_nth spm_Suc0 numeral_2_eq_2 [symmetric] split: if_splits)
    next
      case False
      then show ?thesis using l y m w by (auto split: if_splits)
    qed
  qed
  then show "gm_mon 11 w = mon" using d(1) by (intro gm_mon_eq) auto
  show "(if l \<and> 58 < yday \<and> yday = 59 then 2 else 1) + (w - spm ! mon) = int mday" using r by blast
qed

lemma gm_tm_date:
  assumes d: "valid_date y mon mday" and t: "h < 24" "m < 60" "sec < 60" and b: "day_no y mon mday < 2 ^ 31"
  shows "gm_tm (date_secs y mon mday h m sec) = date_tm y mon mday h m sec"
proof -
  define n where "n = day_no y mon mday"
  define w0 where "w0 = (int h * 60 + int m) * 60 + int sec"
  have w0: "0 \<le> w0" "w0 < 86400" using t by (auto simp: w0_def)
  have s: "date_secs y mon mday h m sec = int n * 86400 + w0" by (simp add: date_secs_def n_def w0_def algebra_simps)
  have t1: "(int n * 86400 + w0) smod SPD = w0" "(int n * 86400 + w0) sdiv SPD = int n"
    using w0 digits [of "int n" w0 86400] by (simp_all add: SPD_def)
  have "int n < 2 ^ 31" using b by (simp add: n_def)
  then have t2: "s32 (int n) = int n" by (simp add: s32_def)
  have t3: "w0 smod 60 = int sec" "w0 sdiv 60 = int h * 60 + int m"
    unfolding w0_def using t digits [of "int h * 60 + int m" "int sec" 60] by simp_all
  have t4: "(int h * 60 + int m) smod 60 = int m" "(int h * 60 + int m) sdiv 60 = int h"
    using t digits [of "int h" "int m" 60] by simp_all
  have t5: "(4 + int n) smod 7 = int ((4 + n) mod 7)" by (simp add: smod_pos zmod_int)
  define k where "k = month_start (leap y) mon + (mday - 1)"
  have y: "y = 1970 + (y - 1970)" using d by (simp add: valid_date_def)
  have "k < year_len y" using d month_end [of mon mday "leap y"] by (auto simp: valid_date_def k_def year_len_def)
  then have "gm_year (1970 + int 0) (int (year_start (y - 1970) + k) - int (year_start 0)) = (1970 + int (y - 1970), int k)"
    using y by (intro gm_year_date) simp_all
  then have t6: "gm_year 1970 (int n) = (int y, int k)" using y by (simp add: n_def day_no_def k_def)
  define w where "w = (if isleap (int y) \<and> 58 < int k then int k - 1 else int k)"
  have M: "gm_mon 11 w = mon" "(if leap y \<and> 58 < int k \<and> int k = 59 then 2 else 1) + (w - spm ! mon) = int mday"
    using d gm_mday [of mon mday "leap y" "int k" w] by (auto simp: valid_date_def w_def k_def isleap_eq)
  show ?thesis
    unfolding s gm_tm_def t1 t2 t3 Let_def t4 t5 t6 prod.case w_def [symmetric] M(1)
    using M(2) by (simp add: date_tm_def n_def [symmetric] isleap_eq tz_is_dst_def) (simp add: k_def)
qed

lemma between_steps: "f 0 = (0 :: nat) \<Longrightarrow> x < f n \<Longrightarrow> \<exists>i<n. f i \<le> x \<and> x < f (Suc i)"
proof (induction n)
  case (Suc n)
  then show ?case by (cases "x < f n") (auto intro: less_SucI)
qed simp

lemma month_start_12: "month_start l 12 = (if l then 366 else 365)"
proof -
  have "list_all (\<lambda>l. month_start l 12 = (if l then 366 else 365)) [True, False]" by code_simp
  then show ?thesis by (cases l) simp_all
qed

lemma month_start_Suc: "month_start l (Suc m) = month_start l m + month_len l m"
  by (simp add: month_start_def)

lemma date_exists:
  assumes "0 \<le> t"
  shows "\<exists>y mon mday h m sec. valid_date y mon mday \<and> h < 24 \<and> m < 60 \<and> sec < 60 \<and>
    t = date_secs y mon mday h m sec \<and> int (day_no y mon mday) = t div 86400"
proof -
  define d where "d = nat (t div 86400)"
  have "d < year_start (Suc d)" by (induction d) auto
  then obtain n where n: "year_start n \<le> d" "d < year_start (Suc n)" using between_steps [of year_start d "Suc d"] by auto
  define l where "l = leap (1970 + n)"
  have "month_start l 12 = year_len (1970 + n)" unfolding year_len_def l_def [symmetric] by (rule month_start_12)
  then have "d - year_start n < month_start l 12" using n unfolding year_start_Suc by simp
  then obtain mon where m: "mon < 12" "month_start l mon \<le> d - year_start n" "d - year_start n < month_start l (Suc mon)"
    using between_steps [of "month_start l"] by (auto simp: month_start_def)
  define mday where "mday = Suc (d - year_start n - month_start l mon)"
  have v: "valid_date (1970 + n) mon mday" using m by (auto simp: valid_date_def mday_def l_def month_start_Suc)
  have e: "day_no (1970 + n) mon mday = d" using n m by (simp add: day_no_def mday_def l_def)
  have d: "int d = t div 86400" using assms by (simp add: d_def)
  define s where "s = nat (t mod 86400)"
  have s: "int s = t mod 86400" by (simp add: s_def)
  then have "int s < 86400" by simp
  then have "s < 86400" by simp
  then have h: "s div 3600 < 24" by auto
  define h m sec where "h = s div 3600" and "m = s mod 3600 div 60" and "sec = s mod 3600 mod 60"
  have "s = (h * 60 + m) * 60 + sec" by (simp add: h_def m_def sec_def)
  then have "int s = (int h * 60 + int m) * 60 + int sec" by simp
  then have "t = date_secs (1970 + n) mon mday h m sec"
    using div_mult_mod_eq [of t 86400] s unfolding date_secs_def e d by algebra
  moreover have "h < 24" "m < 60" "sec < 60" using h by (auto simp: h_def m_def sec_def)
  ultimately show ?thesis using v e d by blast
qed

section \<open>From a date to seconds\<close>

lemma timegm_norm:
  assumes y: "tm_year t = int y - 1900" "1970 \<le> y" and mon: "tm_mon t = 12 * int q + int m0" "m0 < 12"
    and n: "tm_norm (tm_mday t) (int m0) (int (y + q) - 1900) = Some (mday, int mon, int (y + q) - 1900)"
    and time: "tm_sec t \<le> 60" "tm_min t < 60" "tm_hour t < 24"
    and yday: "yday = spm ! mon + mday - 1 + (if leap (y + q) \<and> 1 < mon then 1 else 0)"
  shows "timegm (Some t) =
    Some ((((int (year_start (y - 1970)) + yday) * 24 + tm_hour t) * 60 + tm_min t) * 60 + tm_sec t,
      Some (t\<lparr>tm_mday := mday, tm_mon := int mon, tm_year := int (y + q) - 1900, tm_yday := yday,
        tm_wday := (int (year_start (y - 1970)) + yday + 4) smod 7\<rparr>))"
proof -
  have q: "12 \<le> tm_mon t \<longleftrightarrow> 0 < q" using mon by auto
  have d: "tm_mon t sdiv 12 = int q" "tm_mon t smod 12 = int m0"
    using mon digits [of "int q" "int m0" 12] by (simp_all add: mult.commute)
  define Y where "Y = int (y + q) - 1900"
  have Y: "tm_year t + int q = Y" "70 \<le> Y" using y by (simp_all add: Y_def)
  have l: "isleap (Y + 1900) = leap (y + q)" using isleap_eq [of "y + q"] by (simp add: Y_def)
  have ld: "leap_days (tm_year t - 70) = int (year_start (y - 1970))"
    using y leap_days_eq [of "y - 1970"] by (simp add: of_nat_diff)
  show ?thesis
  proof (cases "q = 0")
    case True
    then have "tm_year t = Y" "tm_mon t = int m0" "\<not> 12 \<le> int m0" using Y mon by simp_all
    then show ?thesis using Y(2) time n l ld True unfolding Y_def [symmetric] by (simp add: timegm_def Let_def yday)
  next
    case False
    then have "12 \<le> tm_mon t" using q by simp
    then show ?thesis using Y time n l ld d unfolding Y_def [symmetric] by (simp add: timegm_def Let_def yday)
  qed
qed

lemma tm_norm_stop: "mon < 12 \<Longrightarrow> mday \<le> spm ! Suc mon \<Longrightarrow> tm_norm mday (int mon) Y = Some (mday, int mon, Y)"
  by (subst tm_norm.simps) (simp add: nat_add_distrib)

lemma date_yday:
  assumes "valid_date y mon mday"
  shows "int (month_start (leap y) mon + (mday - 1)) = spm ! mon + int mday - 1 + (if leap y \<and> 1 < mon then 1 else 0)"
  using assms tables(1) [of mon "leap y"] by (auto simp: valid_date_def)

lemma date_mday:
  assumes "valid_date y mon mday"
  shows "int mday \<le> spm ! Suc mon"
  using assms tables(4) [of mon "leap y"] tables(5) [of mon] by (auto simp: valid_date_def)

lemma timegm_date:
  assumes d: "valid_date y mon mday" and t: "h < 24" "m < 60" "sec \<le> 60"
    and f: "tm_sec t = int sec" "tm_min t = int m" "tm_hour t = int h" "tm_mday t = int mday" "tm_mon t = int mon"
      "tm_year t = int y - 1900"
  shows "timegm (Some t) = Some (date_secs y mon mday h m sec,
    Some (t\<lparr>tm_yday := int (month_start (leap y) mon + (mday - 1)), tm_wday := int ((4 + day_no y mon mday) mod 7)\<rparr>))"
proof -
  define k where "k = month_start (leap y) mon + (mday - 1)"
  have w: "(int (year_start (y - 1970)) + int k + 4) smod 7 = int ((4 + day_no y mon mday) mod 7)"
    by (simp add: day_no_def k_def smod_pos zmod_int ac_simps)
  have s: "t\<lparr>tm_mday := int mday, tm_mon := int mon, tm_year := int y - 1900, tm_yday := a, tm_wday := b\<rparr> =
      t\<lparr>tm_yday := a, tm_wday := b\<rparr>" for a b
    using f(4,5,6) by (cases t) simp
  have "timegm (Some t) = Some ((((int (year_start (y - 1970)) + int k) * 24 + tm_hour t) * 60 + tm_min t) * 60 + tm_sec t,
      Some (t\<lparr>tm_mday := int mday, tm_mon := int mon, tm_year := int (y + 0) - 1900, tm_yday := int k,
        tm_wday := (int (year_start (y - 1970)) + int k + 4) smod 7\<rparr>))"
    using d t f date_yday [OF d] date_mday [OF d]
    by (intro timegm_norm [where ?m0.0 = mon]) (simp_all add: valid_date_def k_def tm_norm_stop)
  then show ?thesis unfolding w by (simp add: s f date_secs_def day_no_def k_def)
qed

section \<open>Printing\<close>

definition two :: "nat \<Rightarrow> 8 word list" where "two n = [word_of_nat (48 + n div 10), word_of_nat (48 + n mod 10)]"

lemma num2str_two: "num2str (int n) = two n"
proof -
  have "int n sdiv 10 = int (n div 10)" "int n smod 10 = int (n mod 10)" by (simp_all add: sdiv_pos smod_pos zdiv_int zmod_int)
  then show ?thesis by (simp add: num2str_def two_def add.commute)
qed

text \<open>The text for a date and time: weekday, month, day padded with a blank, time, and the year in two pairs of digits.\<close>

definition date_text :: "nat \<Rightarrow> nat \<Rightarrow> nat \<Rightarrow> nat \<Rightarrow> nat \<Rightarrow> nat \<Rightarrow> 8 word list" where
  "date_text y mon mday h m sec =
     take 4 (drop ((4 + day_no y mon mday) mod 7 * 4) days) @ take 4 (drop (mon * 4) months) @
     (if mday < 10 then [32, word_of_nat (48 + mday)] else two mday) @ [32] @
     two h @ [58] @ two m @ [58] @ two sec @ [32] @ two (y div 100) @ two (y mod 100) @ [10, 0]"

lemma asctime_date:
  assumes "mon < 12" "mday < 100" "26 \<le> length buf"
  shows "asctime_r (Some (date_tm y mon mday h m sec)) (Some buf) = Some (Some (date_text y mon mday h m sec @ drop 26 buf))"
proof -
  have l: "length days = 28" "length months = 48" by (simp_all add: days_def months_def ascii_def)
  have w: "(4 + day_no y mon mday) mod 7 < 7" by simp
  have n1: "name4 days (int ((4 + day_no y mon mday) mod 7)) = Some (take 4 (drop ((4 + day_no y mon mday) mod 7 * 4) days))"
    using w by (simp add: name4_def l nat_mult_distrib)
  have n2: "name4 months (int mon) = Some (take 4 (drop (mon * 4) months))"
    using assms(1) by (simp add: name4_def l nat_mult_distrib)
  have z: "(word_of_nat (48 + mday div 10) :: 8 word) = 48 \<longleftrightarrow> mday < 10"
  proof -
    have "48 + mday div 10 < 2 ^ LENGTH(8)" using assms(2) by (simp add: less_mult_imp_div_less)
    then have "take_bit LENGTH(8) (48 + mday div 10) = 48 + mday div 10" "take_bit LENGTH(8) (48 :: nat) = 48"
      by (simp_all only: take_bit_nat_eq_self)
    then have "(word_of_nat (48 + mday div 10) :: 8 word) = word_of_nat 48 \<longleftrightarrow> mday div 10 = 0"
      by (simp only: word_of_nat_eq_iff) simp
    then show ?thesis by (simp add: div_eq_0_iff)
  qed
  have y: "num2str (int y sdiv 100) = two (y div 100)" "num2str (int y smod 100) = two (y mod 100)"
    by (simp_all add: sdiv_pos smod_pos num2str_two [symmetric] zdiv_int zmod_int)
  have md: "(if two mday ! 0 = 48 then (two mday)[0 := 32] else two mday) =
      (if mday < 10 then [32, word_of_nat (48 + mday)] else two mday)"
    using z by (simp add: two_def)
  define t where "t = date_tm y mon mday h m sec"
  have f: "tm_wday t = int ((4 + day_no y mon mday) mod 7)" "tm_mon t = int mon" "tm_mday t = int mday" "tm_hour t = int h"
    "tm_min t = int m" "tm_sec t = int sec" "tm_year t + 1900 = int y"
    by (simp_all add: t_def date_tm_def)
  have c: "\<not> (int (length days) \<le> tm_wday t * 4 \<or> int (length months) \<le> tm_mon t * 4)" "\<not> length buf < 26"
    using w assms unfolding l f by linarith+
  have "asctime_r (Some t) (Some buf) = Some (Some (asctime_bytes (take 4 (drop ((4 + day_no y mon mday) mod 7 * 4) days))
      (take 4 (drop (mon * 4) months)) t (int y) @ drop 26 buf))"
    unfolding asctime_r_def prod.case option.case if_not_P [OF c(1)] if_not_P [OF c(2)] f(7) unfolding f(1,2) n1 n2 by simp
  then show ?thesis unfolding t_def [symmetric] asctime_bytes_def Let_def f num2str_two y md date_text_def by (simp only: append_assoc)
qed

section \<open>Properties\<close>

text \<open>C28: For a time from 1970 on, less than 2^31 days later, \<open>gmtime_r\<close> gives the fields of the date and time of day in the
  Gregorian calendar: the month counts from 0, the day of the month does not exceed the length of the month in
  that year, and the weekday and the day of the year are those of the date.
\<close>

theorem gmtime_calendar:
  assumes "0 \<le> t" "t < 86400 * 2 ^ 31"
  shows "\<exists>y mon mday h m sec. valid_date y mon mday \<and> h < 24 \<and> m < 60 \<and> sec < 60 \<and> t = date_secs y mon mday h m sec \<and>
    gmtime_r (Some t) (Some r) = Some (Some (date_tm y mon mday h m sec))"
proof -
  obtain y mon mday h m sec where d: "valid_date y mon mday" "h < 24" "m < 60" "sec < 60"
    "t = date_secs y mon mday h m sec" "int (day_no y mon mday) = t div 86400"
    using date_exists [OF assms(1)] by blast
  have "t div 86400 < 2 ^ 31" using assms(2) by simp
  then have "day_no y mon mday < 2 ^ 31" unfolding d(6) [symmetric] by simp
  then have "gm_tm t = date_tm y mon mday h m sec" using gm_tm_date d by simp
  then have "gmtime_r (Some t) (Some r) = Some (Some (date_tm y mon mday h m sec))" by (simp add: gmtime_r_def)
  then show ?thesis using d by blast
qed

lemma gmtime_calendar_witness:
  "\<exists>y mon mday h m sec. valid_date y mon mday \<and> h < 24 \<and> m < 60 \<and> sec < 60 \<and> 1709210096 = date_secs y mon mday h m sec \<and>
    gmtime_r (Some 1709210096) (Some (gm_tm 0)) = Some (Some (date_tm y mon mday h m sec))"
  by (rule gmtime_calendar) simp_all

text \<open>C29: With any time zone, \<open>mktime\<close> gives back the time from which \<open>localtime_r\<close> made the fields, and leaves the fields as
  they are, provided the local time is not before 1970.
\<close>

theorem mktime_localtime:
  assumes "0 \<le> t + tz * 3600" "t + tz * 3600 < 86400 * 2 ^ 31"
  shows "\<exists>f. localtime_r tz (Some t) (Some r) = Some (Some f) \<and> mktime tz (Some f) = Some (t, Some f)"
proof -
  define u where "u = t + tz * 3600"
  obtain y mon mday h m sec where d: "valid_date y mon mday" "h < 24" "m < 60" "sec < 60"
    "u = date_secs y mon mday h m sec" "int (day_no y mon mday) = u div 86400"
    using date_exists [of u] assms(1) unfolding u_def by blast
  have "u div 86400 < 2 ^ 31" using assms(2) by (simp add: u_def)
  then have "day_no y mon mday < 2 ^ 31" unfolding d(6) [symmetric] by simp
  then have g: "gm_tm u = date_tm y mon mday h m sec" using gm_tm_date d by simp
  have "timegm (Some (date_tm y mon mday h m sec)) = Some (date_secs y mon mday h m sec, Some (date_tm y mon mday h m sec))"
    by (subst timegm_date [OF d(1,2,3)]) (use d(4) in \<open>simp_all add: date_tm_def\<close>)
  then have "mktime tz (Some (gm_tm u)) = Some (t, Some (gm_tm u))" by (simp add: mktime_def g d(5) [symmetric]) (simp add: u_def)
  then show ?thesis by (simp add: localtime_r_def gmtime_r_def u_def)
qed

lemma mktime_localtime_witness:
  "\<exists>f. localtime_r 8 (Some 951782400) (Some (gm_tm 0)) = Some (Some f) \<and> mktime 8 (Some f) = Some (951782400, Some f)"
  by (rule mktime_localtime) simp_all

text \<open>\<open>timegm\<close> of the fields of a date (a leap second allowed, whatever the other fields hold) is the number of seconds since
  1970 in the Gregorian calendar; it sets the weekday and the day of the year, and without a leap second
  \<open>gmtime_r\<close> of the result gives the same date and time again.
\<close>

lemma timegm_calendar:
  assumes d: "valid_date y mon mday" and t: "h < 24" "m < 60" "sec \<le> 60"
    and f: "tm_sec t = int sec" "tm_min t = int m" "tm_hour t = int h" "tm_mday t = int mday" "tm_mon t = int mon"
      "tm_year t = int y - 1900"
  shows "timegm (Some t) = Some (date_secs y mon mday h m sec,
      Some (t\<lparr>tm_yday := int (month_start (leap y) mon + (mday - 1)), tm_wday := int ((4 + day_no y mon mday) mod 7)\<rparr>)) \<and>
    (sec < 60 \<longrightarrow> day_no y mon mday < 2 ^ 31 \<longrightarrow>
      gmtime_r (Some (date_secs y mon mday h m sec)) (Some r) = Some (Some (date_tm y mon mday h m sec)))"
  using timegm_date [OF assms] gm_tm_date [OF d t(1,2)] by (simp add: gmtime_r_def)

lemma timegm_calendar_example:
  "timegm (Some (date_tm 1972 1 29 12 34 56)) = Some (68214896, Some (date_tm 1972 1 29 12 34 56)) \<and>
   gmtime_r (Some 68214896) (Some (gm_tm 0)) = Some (Some (date_tm 1972 1 29 12 34 56))"
proof -
  define f where "f = date_tm 1972 1 29 12 34 56"
  have l: "leap 1972" "\<not> leap 1970" "\<not> leap 1971" by (simp_all add: leap_def)
  have ys: "year_start 2 = 730" using year_start_Suc [of 0] year_start_Suc [of 1] by (simp add: numeral_2_eq_2 year_len_def l)
  have v: "valid_date 1972 1 29" by (simp add: valid_date_def month_len_def l)
  have n: "day_no 1972 1 29 = 789" unfolding day_no_def by (simp add: ys month_start_def month_len_def l)
  have c: "date_secs 1972 1 29 12 34 56 = 68214896" unfolding date_secs_def n by simp
  have g: "f\<lparr>tm_yday := int (month_start (leap 1972) 1 + (29 - 1)), tm_wday := int ((4 + day_no 1972 1 29) mod 7)\<rparr> = f"
    unfolding f_def date_tm_def by simp
  have "timegm (Some f) = Some (date_secs 1972 1 29 12 34 56, Some f) \<and>
    gmtime_r (Some (date_secs 1972 1 29 12 34 56)) (Some (gm_tm 0)) = Some (Some f)"
    using timegm_calendar [of 1972 1 29 12 34 56 f "gm_tm 0", OF v, unfolded g] n by (simp add: f_def date_tm_def)
  then show ?thesis unfolding c f_def .
qed

text \<open>What \<open>timegm\<close> makes of fields beyond their range is wrong. A month of 12 or more moves the date on by whole years, but the
  days of those years are missing from the result. The 32nd to the 59th of January is taken for that day of
  February, because the loop subtracts the days before the month instead of the days of the month: the
  result is 31 days late.
\<close>

lemma timegm_carry_wrong:
  assumes d: "valid_date (y + q) mon mday" "1970 \<le> y" and t: "h < 24" "m < 60" "sec \<le> 60"
    and f: "tm_sec t = int sec" "tm_min t = int m" "tm_hour t = int h" "tm_year t = int y - 1900"
    and k: "0 < k" "k \<le> 28"
  shows "\<exists>t1 t2.
    timegm (Some (t\<lparr>tm_mon := 12 * int q + int mon, tm_mday := int mday\<rparr>)) =
      Some (date_secs (y + q) mon mday h m sec - 86400 * int (year_start (y + q - 1970) - year_start (y - 1970)), Some t1) \<and>
    timegm (Some (t\<lparr>tm_mon := 0, tm_mday := 31 + int k\<rparr>)) =
      Some (date_secs y 1 k h m sec + 86400 * 31, Some t2) \<and> tm_mon t2 = 1 \<and> tm_mday t2 = 31 + int k"
proof -
  let ?t = "t\<lparr>tm_mon := 12 * int q + int mon, tm_mday := int mday\<rparr>"
  let ?u = "t\<lparr>tm_mon := 0, tm_mday := 31 + int k\<rparr>"
  have mon: "mon < 12" using d by (simp add: valid_date_def)
  have le: "year_start (y - 1970) \<le> year_start (y + q - 1970)" by (rule year_start_mono) simp
  define yd where "yd = month_start (leap (y + q)) mon + (mday - 1)"
  have A: "timegm (Some ?t) = Some ((((int (year_start (y - 1970)) + int yd) * 24 + tm_hour ?t) * 60 + tm_min ?t) * 60 + tm_sec ?t,
    Some (?t\<lparr>tm_mday := int mday, tm_mon := int mon, tm_year := int (y + q) - 1900, tm_yday := int yd,
        tm_wday := (int (year_start (y - 1970)) + int yd + 4) smod 7\<rparr>))"
    using d(2) t f mon date_yday [OF d(1)] tm_norm_stop [OF mon date_mday [OF d(1)]]
    by (intro timegm_norm [where ?m0.0 = mon]) (simp_all add: yd_def)
  have n: "tm_norm (31 + int k) 0 (int (y + 0) - 1900) = Some (31 + int k, 1, int (y + 0) - 1900)"
    using tm_norm_stop [of 1 "31 + int k" "int y - 1900"] k by (subst tm_norm.simps) (simp add: spm_nth spm_Suc0 Let_def)
  define ud where "ud = 61 + int k"
  have B: "timegm (Some ?u) = Some ((((int (year_start (y - 1970)) + ud) * 24 + tm_hour ?u) * 60 + tm_min ?u) * 60 + tm_sec ?u,
    Some (?u\<lparr>tm_mday := 31 + int k, tm_mon := int 1, tm_year := int (y + 0) - 1900, tm_yday := ud,
        tm_wday := (int (year_start (y - 1970)) + ud + 4) smod 7\<rparr>))"
    using d(2) t f n k by (intro timegm_norm [where ?m0.0 = 0]) (simp_all add: ud_def spm_nth spm_Suc0)
  have "(((int (year_start (y - 1970)) + int yd) * 24 + tm_hour ?t) * 60 + tm_min ?t) * 60 + tm_sec ?t =
      date_secs (y + q) mon mday h m sec - 86400 * int (year_start (y + q - 1970) - year_start (y - 1970))"
    using le f by (simp add: date_secs_def day_no_def yd_def of_nat_diff)
  moreover have "(((int (year_start (y - 1970)) + ud) * 24 + tm_hour ?u) * 60 + tm_min ?u) * 60 + tm_sec ?u =
      date_secs y 1 k h m sec + 86400 * 31"
    using k f by (simp add: date_secs_def day_no_def ud_def month_start_def month_len_def of_nat_diff)
  ultimately show ?thesis unfolding A B by simp
qed

lemma timegm_carry_wrong_example:
  "\<exists>t1 t2.
    timegm (Some ((date_tm 1970 0 1 0 0 0)\<lparr>tm_mon := 12, tm_mday := 1\<rparr>)) = Some (0, Some t1) \<and>
    timegm (Some ((date_tm 1970 0 1 0 0 0)\<lparr>tm_mon := 0, tm_mday := 32\<rparr>)) = Some (86400 * 62, Some t2) \<and>
    tm_mon t2 = 1 \<and> tm_mday t2 = 32"
proof -
  have l: "\<not> leap 1970" "\<not> leap 1971" by (simp_all add: leap_def)
  have c: "date_secs (1970 + 1) 0 1 0 0 0 - 86400 * int (year_start (1970 + 1 - 1970) - year_start (1970 - 1970)) = 0"
    "date_secs 1970 1 1 0 0 0 + 86400 * 31 = 86400 * 62"
    by (simp_all add: date_secs_def day_no_def month_start_def month_len_def l)
  have v: "valid_date (1970 + 1) 0 1" by (simp add: valid_date_def month_len_def l)
  show ?thesis
    using timegm_carry_wrong [of 1970 1 0 1 0 0 0 "date_tm 1970 0 1 0 0 0" 1, OF v, unfolded c] by (simp add: date_tm_def)
qed

text \<open>For a local time from 1970 on, \<open>ctime_r\<close> writes the 26 bytes of the text of the local date and time, the end of line
  and the terminating 0 included, and leaves the rest of the buffer alone.
\<close>

lemma ctime_text:
  assumes "0 \<le> t + tz * 3600" "t + tz * 3600 < 86400 * 2 ^ 31" "26 \<le> length buf"
  shows "\<exists>y mon mday h m sec. valid_date y mon mday \<and> h < 24 \<and> m < 60 \<and> sec < 60 \<and>
    t + tz * 3600 = date_secs y mon mday h m sec \<and>
    ctime_r tz (Some t) (Some buf) = Some (Some (date_text y mon mday h m sec @ drop 26 buf))"
proof -
  obtain y mon mday h m sec where d: "valid_date y mon mday" "h < 24" "m < 60" "sec < 60"
    "t + tz * 3600 = date_secs y mon mday h m sec" "int (day_no y mon mday) = (t + tz * 3600) div 86400"
    using date_exists [OF assms(1)] by blast
  have "(t + tz * 3600) div 86400 < 2 ^ 31" using assms(2) by simp
  then have "day_no y mon mday < 2 ^ 31" unfolding d(6) [symmetric] by simp
  then have g: "gm_tm (t + tz * 3600) = date_tm y mon mday h m sec" using gm_tm_date d by simp
  have "mon < 12" "mday < 100" using d(1) tables(4) [of mon "leap y"] by (auto simp: valid_date_def)
  then have "asctime_r (Some (gm_tm (t + tz * 3600))) (Some buf) = Some (Some (date_text y mon mday h m sec @ drop 26 buf))"
    unfolding g using assms(3) by (intro asctime_date)
  then have "ctime_r tz (Some t) (Some buf) = Some (Some (date_text y mon mday h m sec @ drop 26 buf))"
    by (simp add: ctime_r_def localtime_r_def gmtime_r_def)
  then show ?thesis using d by blast
qed

lemma ctime_text_example:
  "\<exists>y mon mday h m sec. valid_date y mon mday \<and> h < 24 \<and> m < 60 \<and> sec < 60 \<and>
    1000000000 + 8 * 3600 = date_secs y mon mday h m sec \<and>
    ctime_r 8 (Some 1000000000) (Some (replicate 30 1)) = Some (Some (date_text y mon mday h m sec @ drop 26 (replicate 30 1)))"
  by (rule ctime_text) simp_all

end
