(* ===== verification/Errno.thy ===== *)
theory Errno
  imports Main
begin

text \<open>
  The error numbers that the POSIX layer sets. Their values are those of the C library in use, so they are kept by name.
\<close>

datatype errno = EFAULT | EINVAL | ENOENT | ENOMEM | EBADF | ENOSYS | ENODEV | ENOTDIR | ENOSPC | EEXIST | EBUSY | EXDEV | ENXIO | EIO

end
