(* ===== verification/Clock.thy ===== *)
theory Clock
  imports Ctime Errno
begin

text \<open>
  The POSIX clock of \<^verbatim>\<open>ctime.c\<close> (\<^verbatim>\<open>RT_USING_POSIX_CLOCK\<close>, \<^verbatim>\<open>RT_USING_RTC\<close>): real time as an offset, \<^verbatim>\<open>_timevalue\<close>, to the tick of
  the kernel. The target has 32-bit \<^verbatim>\<open>int\<close> and \<^verbatim>\<open>long\<close>; \<^verbatim>\<open>time_t\<close> is that of the C library in use, and the argument \<open>tt\<close> is
  the conversion to it. The argument \<open>tk\<close> is what \<^verbatim>\<open>rt_tick_get\<close> returns. The RTC device is absent (\<open>None\<close>) or
  answers a request with a status (and the time). The tick rate is 1000 per second (\<^verbatim>\<open>rtconfig.h\<close>). A
  result is \<open>None\<close> where the C code overflows a signed number.
\<close>

section \<open>Definitions\<close>

record timeval =
  tv_sec :: int
  tv_usec :: int

record timespec =
  ts_sec :: int
  ts_nsec :: int

definition MICROSECOND_PER_SECOND :: int where "MICROSECOND_PER_SECOND = 1000000"
definition NANOSECOND_PER_SECOND :: int where "NANOSECOND_PER_SECOND = 1000000000"
definition MICROSECOND_PER_TICK :: int where "MICROSECOND_PER_TICK = MICROSECOND_PER_SECOND div RT_TICK_PER_SECOND"

lemmas clock_consts = RT_TICK_PER_SECOND_def MICROSECOND_PER_SECOND_def NANOSECOND_PER_SECOND_def MICROSECOND_PER_TICK_def

definition CLOCK_REALTIME :: int where "CLOCK_REALTIME = 1"

text \<open>\<^verbatim>\<open>_rt_clock_time_system_init\<close>: the result and \<^verbatim>\<open>_timevalue\<close>.\<close>

definition rt_clock_time_system_init :: "(int \<Rightarrow> int) \<Rightarrow> (int \<times> int) option \<Rightarrow> int \<Rightarrow> int \<times> timeval" where
  "rt_clock_time_system_init tt device tk = (case device of
     Some (st, now) \<Rightarrow>
       if st = RT_EOK then
         (0, \<lparr>tv_sec = tt (now - tk div RT_TICK_PER_SECOND - 1),
              tv_usec = s32 (u32 (tk mod RT_TICK_PER_SECOND * MICROSECOND_PER_TICK))\<rparr>)
       else (-1, \<lparr>tv_sec = 0, tv_usec = 0\<rparr>)
   | None \<Rightarrow> (-1, \<lparr>tv_sec = 0, tv_usec = 0\<rparr>))"

definition clock_getres :: "int \<Rightarrow> timespec option \<Rightarrow> int \<times> errno option \<times> timespec option" where
  "clock_getres clockid res = (case res of
     None \<Rightarrow> (-1, Some EFAULT, None)
   | Some _ \<Rightarrow>
       if clockid = CLOCK_REALTIME
       then (0, None, Some \<lparr>ts_sec = 0, ts_nsec = NANOSECOND_PER_SECOND div RT_TICK_PER_SECOND\<rparr>)
       else (-1, Some EINVAL, Some \<lparr>ts_sec = 0, ts_nsec = 0\<rparr>))"

text \<open>\<^verbatim>\<open>clock_gettime\<close> keeps the tick in an \<^verbatim>\<open>int\<close>; the nanoseconds are computed in \<^verbatim>\<open>unsigned long\<close>.\<close>

definition clock_gettime :: "(int \<Rightarrow> int) \<Rightarrow> timeval \<Rightarrow> int \<Rightarrow> int \<Rightarrow> timespec option \<Rightarrow> int \<times> errno option \<times> timespec option" where
  "clock_gettime tt tv tk clockid tp = (case tp of
     None \<Rightarrow> (-1, Some EFAULT, None)
   | Some _ \<Rightarrow>
       if clockid = CLOCK_REALTIME then
         (let ticks = s32 tk
          in (0, None, Some \<lparr>ts_sec = tt (tv_sec tv + ticks sdiv RT_TICK_PER_SECOND),
               ts_nsec = s32 (u32 (u32 (tv_usec tv + u32 (u32 (ticks smod RT_TICK_PER_SECOND) * MICROSECOND_PER_TICK)) * 1000))\<rparr>))
       else (-1, Some EINVAL, Some \<lparr>ts_sec = 0, ts_nsec = 0\<rparr>))"

text \<open>\<^verbatim>\<open>clock_settime\<close>: the result, the error number, and \<^verbatim>\<open>_timevalue\<close>. The seconds pass through an \<^verbatim>\<open>int\<close>.\<close>

definition clock_settime ::
    "(int \<Rightarrow> int) \<Rightarrow> (int \<Rightarrow> int) option \<Rightarrow> timeval \<Rightarrow> int \<Rightarrow> int \<Rightarrow> timespec option \<Rightarrow> int \<times> errno option \<times> timeval" where
  "clock_settime tt device tv tk clockid tp = (case tp of
     None \<Rightarrow> (-1, Some EFAULT, tv)
   | Some t \<Rightarrow>
       if clockid \<noteq> CLOCK_REALTIME then (-1, Some EFAULT, tv)
       else (let second = s32 (ts_sec t);
                 tv1 = \<lparr>tv_sec = tt (u32 (second - tk div RT_TICK_PER_SECOND - 1)),
                        tv_usec = s32 (u32 (MICROSECOND_PER_SECOND - u32 (tk mod RT_TICK_PER_SECOND * MICROSECOND_PER_TICK)))\<rparr>
             in case device of
                  Some set_time \<Rightarrow> (if set_time second = RT_EOK then (0, None, tv1) else (-1, None, tv1))
                | None \<Rightarrow> (-1, None, tv1)))"

text \<open>A result of signed 32-bit arithmetic.\<close>

definition int_ok :: "int \<Rightarrow> int option" where
  "int_ok x = (if - (2 ^ 31) \<le> x \<and> x < 2 ^ 31 then Some x else None)"

definition rt_timespec_to_tick :: "(int \<Rightarrow> int) \<Rightarrow> timeval \<Rightarrow> int \<Rightarrow> timespec \<Rightarrow> int option" where
  "rt_timespec_to_tick tt tv tk time =
     (case clock_gettime tt tv tk CLOCK_REALTIME (Some \<lparr>ts_sec = 0, ts_nsec = 0\<rparr>) of
        (_, _, None) \<Rightarrow> None
      | (_, _, Some tp) \<Rightarrow> do {
          d \<leftarrow> int_ok (ts_nsec time - ts_nsec tp);
          (second, nsecond) \<leftarrow> (if d < 0 then do {
              e \<leftarrow> int_ok (ts_nsec tp - ts_nsec time);
              Some (s32 (ts_sec time - ts_sec tp - 1), s32 (u32 (NANOSECOND_PER_SECOND - u32 e)))
            } else Some (s32 (ts_sec time - ts_sec tp), d));
          a \<leftarrow> int_ok (second * RT_TICK_PER_SECOND);
          b \<leftarrow> int_ok (nsecond * RT_TICK_PER_SECOND);
          let ticks = s32 (u32 (u32 a + u32 b div NANOSECOND_PER_SECOND));
          Some (if ticks < 0 then 0 else ticks)
        })"

section \<open>Arithmetic\<close>

lemma s32_small: "- (2 ^ 31) \<le> x \<Longrightarrow> x < 2 ^ 31 \<Longrightarrow> s32 x = x"
  by (simp add: s32_def)

lemma s32_u32: "s32 (u32 x) = s32 x"
  by (simp add: s32_def u32_def mod_add_left_eq)

lemma u32_small: "0 \<le> x \<Longrightarrow> x < 2 ^ 32 \<Longrightarrow> u32 x = x"
  by (simp add: u32_def)

lemma nsec_wrap: "s32 (u32 (u32 (a + u32 (u32 b * 1000)) * 1000)) = s32 ((a + b * 1000) * 1000)"
proof -
  have "u32 (u32 (a + u32 (u32 b * 1000)) * 1000) = u32 ((a + b * 1000) * 1000)"
    unfolding u32_def by (simp only: mod_mult_left_eq mod_add_right_eq)
  then show ?thesis by (simp only: s32_u32)
qed

text \<open>What \<open>clock_gettime\<close> returns, without the casts.\<close>

lemma gettime_exact:
  assumes "0 \<le> tv_usec tv" "tv_usec tv \<le> 1000000" "s32 tk = x"
  shows "clock_gettime tt tv tk CLOCK_REALTIME (Some t) =
    (0, None, Some \<lparr>ts_sec = tt (tv_sec tv + x sdiv 1000), ts_nsec = (tv_usec tv + x smod 1000 * 1000) * 1000\<rparr>)"
proof -
  have m: "\<bar>x smod 1000\<bar> < 1000" by (auto simp: signed_modulo_int_def sgn_if abs_if)
  then have "s32 ((tv_usec tv + x smod 1000 * 1000) * 1000) = (tv_usec tv + x smod 1000 * 1000) * 1000"
    using assms by (intro s32_small) auto
  then show ?thesis by (simp add: clock_gettime_def clock_consts RT_TICK_PER_SECOND_def assms(3) Let_def nsec_wrap)
qed

lemma settime_exact:
  assumes tt: "\<And>x. 0 \<le> x \<Longrightarrow> x < 2 ^ 31 \<Longrightarrow> tt x = x"
    and t: "ts_sec t < 2 ^ 31" "tk div 1000 < ts_sec t" "0 \<le> tk"
  shows "clock_settime tt rtc tv tk CLOCK_REALTIME (Some t) =
    (if \<exists>set_time. rtc = Some set_time \<and> set_time (ts_sec t) = RT_EOK then 0 else - 1, None, \<lparr>tv_sec = ts_sec t - tk div 1000 - 1, tv_usec = 1000000 - tk mod 1000 * 1000\<rparr>)"
proof -
  have k: "0 \<le> tk div 1000" "0 \<le> tk mod 1000" "tk mod 1000 < 1000" using t(3) by simp_all
  have "s32 (ts_sec t) = ts_sec t" using t k by (intro s32_small) auto
  moreover have "u32 (ts_sec t - tk div 1000 - 1) = ts_sec t - tk div 1000 - 1" using t k by (intro u32_small) auto
  moreover have "tt (ts_sec t - tk div 1000 - 1) = ts_sec t - tk div 1000 - 1" using t k by (intro tt) auto
  moreover have "u32 (tk mod 1000 * 1000) = tk mod 1000 * 1000" using k by (intro u32_small) auto
  moreover have "s32 (1000000 - tk mod 1000 * 1000) = 1000000 - tk mod 1000 * 1000" using k by (intro s32_small) auto
  ultimately show ?thesis
    by (cases rtc) (simp_all add: clock_settime_def clock_consts RT_TICK_PER_SECOND_def Let_def s32_u32)
qed

lemma ms_sum:
  "(s - q - 1 + q') * 10 ^ 9 + (1000000 - r * 1000 + r' * 1000) * 1000 =
   s * 10 ^ 9 + ((q' * 1000 + r') - (q * 1000 + r)) * 10 ^ 6" for s q q' r r' :: int
  by (simp add: algebra_simps)

section \<open>Properties\<close>

text \<open>C30: Setting and reading the clock while the tick counter is below 2^31, for a time after the seconds since the
  start and with all times in 31 bits. \<open>clock_settime\<close> at tick \<open>k\<close> sets the clock to the seconds of its argument,
  drops the nanoseconds, and returns 0 exactly if there is an RTC device that accepts the time, -1 otherwise (the
  clock is set nevertheless). \<open>clock_gettime\<close> at a later tick then returns, as the sum of seconds and nanoseconds,
  those seconds plus one millisecond per tick since. The two fields are not normalised: the nanoseconds are below one
  second only while the tick within its second is less than it was at the call of \<open>clock_settime\<close>.
\<close>

theorem clock_set_get:
  assumes tt: "\<And>x. 0 \<le> x \<Longrightarrow> x < 2 ^ 31 \<Longrightarrow> tt x = x"
    and k: "0 \<le> k" "k \<le> k'" "k' < 2 ^ 31" and t: "k div 1000 < ts_sec t" "ts_sec t + k' div 1000 < 2 ^ 31"
  shows "\<exists>tv sec nsec. clock_settime tt rtc tv0 k CLOCK_REALTIME (Some t) =
      (if \<exists>set_time. rtc = Some set_time \<and> set_time (ts_sec t) = RT_EOK then 0 else - 1, None, tv) \<and>
    clock_gettime tt tv k' CLOCK_REALTIME (Some tp) = (0, None, Some \<lparr>ts_sec = sec, ts_nsec = nsec\<rparr>) \<and>
    sec * 10 ^ 9 + nsec = ts_sec t * 10 ^ 9 + (k' - k) * 10 ^ 6 \<and> 0 \<le> nsec \<and>
    (nsec < 10 ^ 9 \<longleftrightarrow> k' mod 1000 < k mod 1000)"
proof -
  define tv where "tv = \<lparr>tv_sec = ts_sec t - k div 1000 - 1, tv_usec = 1000000 - k mod 1000 * 1000\<rparr>"
  have m: "0 \<le> k mod 1000" "k mod 1000 < 1000" "0 \<le> k' mod 1000" "k' mod 1000 < 1000" by simp_all
  have d: "k div 1000 \<le> k' div 1000" using k by (intro zdiv_mono1) auto
  have "ts_sec t < 2 ^ 31" using t(2) k pos_imp_zdiv_nonneg_iff [of 1000 k'] by linarith
  then have S: "clock_settime tt rtc tv0 k CLOCK_REALTIME (Some t) =
      (if \<exists>set_time. rtc = Some set_time \<and> set_time (ts_sec t) = RT_EOK then 0 else - 1, None, tv)"
    unfolding tv_def using t k by (intro settime_exact tt) auto
  have c: "k' sdiv 1000 = k' div 1000" "k' smod 1000 = k' mod 1000" using k by (simp_all add: sdiv_pos smod_pos)
  have e: "tt (tv_sec tv + k' div 1000) = tv_sec tv + k' div 1000" using t d k by (intro tt) (auto simp: tv_def)
  have "s32 k' = k'" using k by (intro s32_small) auto
  then have G: "clock_gettime tt tv k' CLOCK_REALTIME (Some tp) =
    (0, None, Some \<lparr>ts_sec = tv_sec tv + k' div 1000, ts_nsec = (tv_usec tv + k' mod 1000 * 1000) * 1000\<rparr>)"
    using gettime_exact [of tv k' k' tt tp] k m unfolding c e by (auto simp: tv_def)
  have "(tv_sec tv + k' div 1000) * 10 ^ 9 + (tv_usec tv + k' mod 1000 * 1000) * 1000 = ts_sec t * 10 ^ 9 + (k' - k) * 10 ^ 6"
    using ms_sum [of "ts_sec t" "k div 1000" "k' div 1000" "k mod 1000" "k' mod 1000"] by (simp add: tv_def)
  moreover have "0 \<le> (tv_usec tv + k' mod 1000 * 1000) * 1000" using m by (simp add: tv_def)
  moreover have "(tv_usec tv + k' mod 1000 * 1000) * 1000 < 10 ^ 9 \<longleftrightarrow> k' mod 1000 < k mod 1000" by (auto simp: tv_def)
  ultimately show ?thesis using S G by blast
qed

lemma clock_set_get_witness:
  "\<exists>tv sec nsec. clock_settime s32 (Some (\<lambda>_. RT_EOK)) \<lparr>tv_sec = 0, tv_usec = 0\<rparr> 1500 CLOCK_REALTIME
      (Some \<lparr>ts_sec = 1700000000, ts_nsec = 5\<rparr>) = (0, None, tv) \<and>
    clock_gettime s32 tv 4700 CLOCK_REALTIME (Some \<lparr>ts_sec = 0, ts_nsec = 0\<rparr>) = (0, None, Some \<lparr>ts_sec = sec, ts_nsec = nsec\<rparr>) \<and>
    sec * 10 ^ 9 + nsec = 1700000000 * 10 ^ 9 + 3200 * 10 ^ 6 \<and> 0 \<le> nsec \<and> (nsec < 10 ^ 9 \<longleftrightarrow> False)"
  using clock_set_get [of s32 1500 4700 "\<lparr>ts_sec = 1700000000, ts_nsec = 5\<rparr>" "Some (\<lambda>_. RT_EOK)" "\<lparr>tv_sec = 0, tv_usec = 0\<rparr>"
      "\<lparr>ts_sec = 0, ts_nsec = 0\<rparr>"]
  by (simp add: s32_small)

text \<open>C31: The clock jumps. Once the tick counter passes 2^31, 24.8 days after the start, \<open>clock_gettime\<close> takes it for a negative
  \<open>int\<close> and returns a time 2^32 milliseconds, 49.7 days, too early. And after the start of the system, with
  time \<open>T\<close> from the RTC device at tick \<open>k\<close>, it does not return \<open>T\<close> but a time one second less, plus twice the
  milliseconds of \<open>k\<close> within its second.
\<close>

theorem clock_jumps:
  assumes tt: "\<And>x. 0 \<le> x \<Longrightarrow> x < 2 ^ 31 \<Longrightarrow> tt x = x"
    and tv: "0 \<le> tv_usec tv" "tv_usec tv \<le> 1000000" "4294967 \<le> tv_sec tv" "tv_sec tv < 2 ^ 31"
    and k': "2 ^ 31 \<le> k'" "k' < 2 ^ 32"
    and k: "0 \<le> k" "k < 2 ^ 31" and T: "k div 1000 < T" "T < 2 ^ 31"
  shows "\<exists>sec nsec tv1 sec1 nsec1.
    clock_gettime tt tv k' CLOCK_REALTIME (Some tp) = (0, None, Some \<lparr>ts_sec = sec, ts_nsec = nsec\<rparr>) \<and>
    sec * 10 ^ 9 + nsec = tv_sec tv * 10 ^ 9 + tv_usec tv * 10 ^ 3 + (k' - 2 ^ 32) * 10 ^ 6 \<and>
    rt_clock_time_system_init tt (Some (RT_EOK, T)) k = (0, tv1) \<and>
    clock_gettime tt tv1 k CLOCK_REALTIME (Some tp) = (0, None, Some \<lparr>ts_sec = sec1, ts_nsec = nsec1\<rparr>) \<and>
    sec1 * 10 ^ 9 + nsec1 = (T - 1) * 10 ^ 9 + 2 * (k mod 1000) * 10 ^ 6"
proof -
  define x where "x = k' - 2 ^ 32"
  have x: "- (2 ^ 31) \<le> x" "x < 0" using k' by (simp_all add: x_def)
  have "s32 k' = s32 x" using minus_mod_self2 [of "k' + 2 ^ 31" "2 ^ 32"] by (simp add: s32_def x_def)
  also have "s32 x = x" using x by (intro s32_small) auto
  finally have G: "clock_gettime tt tv k' CLOCK_REALTIME (Some tp) =
    (0, None, Some \<lparr>ts_sec = tt (tv_sec tv + x sdiv 1000), ts_nsec = (tv_usec tv + x smod 1000 * 1000) * 1000\<rparr>)"
    using tv by (intro gettime_exact)
  have dm: "x sdiv 1000 * 1000 + x smod 1000 = x" by (rule sdiv_mult_smod_eq)
  have "- 2147484 \<le> x sdiv 1000" "x sdiv 1000 \<le> 0" using x by (auto simp: signed_divide_int_def sgn_if)
  then have "tt (tv_sec tv + x sdiv 1000) = tv_sec tv + x sdiv 1000" using tv by (intro tt) auto
  moreover have "(tv_sec tv + x sdiv 1000) * 10 ^ 9 + (tv_usec tv + x smod 1000 * 1000) * 1000 =
      tv_sec tv * 10 ^ 9 + tv_usec tv * 10 ^ 3 + (x sdiv 1000 * 1000 + x smod 1000) * 10 ^ 6"
    by (simp add: algebra_simps)
  ultimately have A: "\<exists>sec nsec. clock_gettime tt tv k' CLOCK_REALTIME (Some tp) = (0, None, Some \<lparr>ts_sec = sec, ts_nsec = nsec\<rparr>) \<and>
    sec * 10 ^ 9 + nsec = tv_sec tv * 10 ^ 9 + tv_usec tv * 10 ^ 3 + (k' - 2 ^ 32) * 10 ^ 6"
    using G unfolding dm x_def [symmetric] by auto
  define tv1 where "tv1 = \<lparr>tv_sec = T - k div 1000 - 1, tv_usec = k mod 1000 * 1000\<rparr>"
  have m: "0 \<le> k mod 1000" "k mod 1000 < 1000" "0 \<le> k div 1000" using k by simp_all
  have "tt (T - k div 1000 - 1) = T - k div 1000 - 1" using T m by (intro tt) auto
  moreover have "s32 (k mod 1000 * 1000) = k mod 1000 * 1000" using m by (intro s32_small) auto
  ultimately have I: "rt_clock_time_system_init tt (Some (RT_EOK, T)) k = (0, tv1)"
    by (simp add: rt_clock_time_system_init_def clock_consts RT_TICK_PER_SECOND_def s32_u32 tv1_def)
  have "s32 k = k" using k by (intro s32_small) auto
  then have "clock_gettime tt tv1 k CLOCK_REALTIME (Some tp) =
    (0, None, Some \<lparr>ts_sec = tt (tv_sec tv1 + k sdiv 1000), ts_nsec = (tv_usec tv1 + k smod 1000 * 1000) * 1000\<rparr>)"
    using m by (intro gettime_exact) (auto simp: tv1_def)
  moreover have "tt (tv_sec tv1 + k sdiv 1000) = T - 1" using tt [of "T - 1"] T m k by (simp add: tv1_def sdiv_pos)
  moreover have "(T - 1) * 10 ^ 9 + (tv_usec tv1 + k smod 1000 * 1000) * 1000 = (T - 1) * 10 ^ 9 + 2 * (k mod 1000) * 10 ^ 6"
    using k by (simp add: tv1_def smod_pos)
  ultimately show ?thesis using A I by metis
qed

lemma clock_jumps_witness:
  "\<exists>sec nsec tv1 sec1 nsec1.
    clock_gettime s32 \<lparr>tv_sec = 1700000000, tv_usec = 0\<rparr> 2200000000 CLOCK_REALTIME (Some \<lparr>ts_sec = 0, ts_nsec = 0\<rparr>) =
      (0, None, Some \<lparr>ts_sec = sec, ts_nsec = nsec\<rparr>) \<and>
    sec * 10 ^ 9 + nsec = 1700000000 * 10 ^ 9 + 0 * 10 ^ 3 + (2200000000 - 2 ^ 32) * 10 ^ 6 \<and>
    rt_clock_time_system_init s32 (Some (RT_EOK, 1700000000)) 250 = (0, tv1) \<and>
    clock_gettime s32 tv1 250 CLOCK_REALTIME (Some \<lparr>ts_sec = 0, ts_nsec = 0\<rparr>) =
      (0, None, Some \<lparr>ts_sec = sec1, ts_nsec = nsec1\<rparr>) \<and>
    sec1 * 10 ^ 9 + nsec1 = (1700000000 - 1) * 10 ^ 9 + 2 * (250 mod 1000) * 10 ^ 6"
  using clock_jumps [of s32 "\<lparr>tv_sec = 1700000000, tv_usec = 0\<rparr>" 2200000000 250 1700000000 "\<lparr>ts_sec = 0, ts_nsec = 0\<rparr>"]
  by (simp add: s32_small)

text \<open>\<open>rt_timespec_to_tick\<close>, with the clock reading \<open>sec\<close> and \<open>nsec\<close>: let \<open>n\<close> be the difference of the nanoseconds, with one
  second borrowed when it is negative. If \<open>n\<close> is at least 2147484, or below -2147483, the product with the tick
  rate overflows an \<open>int\<close>, so the function works only while \<open>n\<close> is less than 2.15 milliseconds. Then it gives the
  number of ticks from now to the given time, rounded down, and 0 for a time that has passed.
\<close>

lemma timespec_to_tick_range:
  assumes g: "clock_gettime tt tv tk CLOCK_REALTIME (Some \<lparr>ts_sec = 0, ts_nsec = 0\<rparr>) = (0, None, Some \<lparr>ts_sec = sec, ts_nsec = nsec\<rparr>)"
    and nsec: "0 \<le> nsec" "nsec < 2 * 10 ^ 9" and time: "0 \<le> ts_nsec time" "ts_nsec time < 10 ^ 9"
    and n: "n = (if ts_nsec time < nsec then 10 ^ 9 + ts_nsec time - nsec else ts_nsec time - nsec)"
    and s: "s = (if ts_nsec time < nsec then ts_sec time - sec - 1 else ts_sec time - sec)"
  shows "(2147484 \<le> n \<or> n < - 2147483 \<longrightarrow> rt_timespec_to_tick tt tv tk time = None) \<and>
    (0 \<le> n \<and> n < 2147484 \<and> \<bar>s\<bar> < 2147483 \<longrightarrow>
      rt_timespec_to_tick tt tv tk time =
        Some (max 0 (((ts_sec time * 10 ^ 9 + ts_nsec time) - (sec * 10 ^ 9 + nsec)) div 10 ^ 6)))"
proof -
  define a b where "a = int_ok (s32 s * 1000)" and "b = int_ok (n * 1000)"
  have i: "int_ok (ts_nsec time - nsec) = Some (ts_nsec time - nsec)" "int_ok (nsec - ts_nsec time) = Some (nsec - ts_nsec time)"
    using nsec time by (simp_all add: int_ok_def)
  have w: "s32 (u32 (1000000000 - u32 (nsec - ts_nsec time))) = 1000000000 - (nsec - ts_nsec time)" if "ts_nsec time < nsec"
    using that nsec time by (simp add: u32_small s32_u32 s32_small)
  have r: "rt_timespec_to_tick tt tv tk time =
    do { a \<leftarrow> a; b \<leftarrow> b; let ticks = s32 (u32 (u32 a + u32 b div 1000000000)); Some (if ticks < 0 then 0 else ticks) }"
    unfolding rt_timespec_to_tick_def g prod.case option.case timespec.simps i
    by (cases "ts_nsec time < nsec")
      (simp_all add: w clock_consts RT_TICK_PER_SECOND_def a_def b_def n s Let_def i algebra_simps)
  have A: "rt_timespec_to_tick tt tv tk time = None" if "2147484 \<le> n \<or> n < - 2147483"
    using that unfolding r b_def by (cases a) (auto simp: int_ok_def)
  have B: "rt_timespec_to_tick tt tv tk time =
      Some (max 0 (((ts_sec time * 10 ^ 9 + ts_nsec time) - (sec * 10 ^ 9 + nsec)) div 10 ^ 6))"
    if h: "0 \<le> n" "n < 2147484" "\<bar>s\<bar> < 2147483"
  proof -
    have h': "- 2147483 < s" "s < 2147483" using h(3) by simp_all
    have 1: "s32 s = s" using h by (intro s32_small) auto
    have 2: "a = Some (s * 1000)" "b = Some (n * 1000)" using h h' by (simp_all add: a_def b_def int_ok_def 1)
    have 3: "u32 (n * 1000) = n * 1000" using h by (intro u32_small) auto
    have 4: "n * 1000 div 1000000000 = n div 1000000" using div_mult_mult2 [of 1000 n 1000000] by simp
    have 5: "s32 (u32 (u32 (s * 1000) + n div 1000000)) = s32 (s * 1000 + n div 1000000)"
      unfolding s32_u32 unfolding s32_def u32_def by (simp only: add.assoc mod_add_left_eq)
    have 6: "0 \<le> n div 1000000" "n div 1000000 \<le> 2" using h by auto
    have 7: "s32 (s * 1000 + n div 1000000) = s * 1000 + n div 1000000" using h' 6 by (simp add: s32_small)
    have "(ts_sec time * 10 ^ 9 + ts_nsec time) - (sec * 10 ^ 9 + nsec) = s * 1000 * 1000000 + n"
      by (auto simp: s n algebra_simps)
    then have "((ts_sec time * 10 ^ 9 + ts_nsec time) - (sec * 10 ^ 9 + nsec)) div 10 ^ 6 = s * 1000 + n div 1000000" by simp
    then show ?thesis unfolding r 2 by (simp add: 3 4 5 7 Let_def max_def)
  qed
  show ?thesis using A B by blast
qed

lemma timespec_to_tick_range_example:
  "rt_timespec_to_tick s32 \<lparr>tv_sec = 100, tv_usec = 0\<rparr> 0 \<lparr>ts_sec = 103, ts_nsec = 1500000\<rparr> = Some 3001 \<and>
   rt_timespec_to_tick s32 \<lparr>tv_sec = 100, tv_usec = 0\<rparr> 0 \<lparr>ts_sec = 103, ts_nsec = 500000000\<rparr> = None"
proof -
  have g: "clock_gettime s32 \<lparr>tv_sec = 100, tv_usec = 0\<rparr> 0 CLOCK_REALTIME (Some \<lparr>ts_sec = 0, ts_nsec = 0\<rparr>) =
    (0, None, Some \<lparr>ts_sec = 100, ts_nsec = 0\<rparr>)"
    by (simp add: clock_gettime_def clock_consts RT_TICK_PER_SECOND_def s32_small u32_small sdiv_pos smod_pos)
  show ?thesis
    using timespec_to_tick_range [OF g, of "\<lparr>ts_sec = 103, ts_nsec = 1500000\<rparr>" 1500000 3]
      timespec_to_tick_range [OF g, of "\<lparr>ts_sec = 103, ts_nsec = 500000000\<rparr>" 500000000 3]
    by simp
qed

end
