(* ===== verification/Dfs.thy ===== *)
theory Dfs
  imports Dfs_Path Errno
begin

text \<open>
  The virtual file system (\<^verbatim>\<open>components/dfs/src\<close>): the table of file descriptors (\<^verbatim>\<open>dfs.c\<close>), the file system types and the
  mount table (\<^verbatim>\<open>dfs_fs.c\<close>), and the operations on open files and paths (\<^verbatim>\<open>dfs_file.c\<close>). The drivers of the file systems are
  reached through tables of function pointers, which are arguments here: a driver works on its own state, of type
  \<open>'w\<close>, and on the descriptor it is given. A missing operation (a null pointer) is \<open>None\<close>. The file system lock is held
  during each function of the tables, so each is one step. A result is \<open>None\<close> when the code follows a null or dangling
  pointer or fails an assertion.
\<close>

section \<open>Data\<close>

definition DFS_FD_OFFSET :: int where "DFS_FD_OFFSET = 3"
definition DFS_FD_MAX :: nat where "DFS_FD_MAX = 128"
definition DFS_FD_MAGIC :: int where "DFS_FD_MAGIC = 0xfdfd"
definition DFS_FILESYSTEMS_MAX :: nat where "DFS_FILESYSTEMS_MAX = 32"
definition DFS_FILESYSTEM_TYPES_MAX :: nat where "DFS_FILESYSTEM_TYPES_MAX = 32"
definition DFS_FS_FLAG_FULLPATH :: int where "DFS_FS_FLAG_FULLPATH = 1"
definition DFS_F_OPEN :: int where "DFS_F_OPEN = 0x01000000"
definition DFS_F_DIRECTORY :: int where "DFS_F_DIRECTORY = 0x02000000"
definition DFS_F_EOF :: int where "DFS_F_EOF = 0x04000000"
definition FT_REGULAR :: int where "FT_REGULAR = 0"
definition FT_DIRECTORY :: int where "FT_DIRECTORY = 2"
definition O_DIRECTORY :: int where "O_DIRECTORY = 0x200000"

text \<open>\<^verbatim>\<open>struct dfs_fd\<close>. The file system is an index of the mount table, the operations a number of \<open>file_ops\<close> below.\<close>

record dfs_fd =
  fd_magic :: int
  fd_type :: int
  fd_path :: "8 word list option"
  ref_count :: int
  fd_fs :: "nat option"
  fd_fops :: "nat option"
  fd_flags :: int
  fd_size :: int
  fd_pos :: int

definition zero_fd :: dfs_fd where
  "zero_fd = \<lparr>fd_magic = 0, fd_type = 0, fd_path = None, ref_count = 0, fd_fs = None, fd_fops = None, fd_flags = 0, fd_size = 0,
     fd_pos = 0\<rparr>"

text \<open>\<^verbatim>\<open>struct dfs_filesystem\<close>; its \<^verbatim>\<open>data\<close> belongs to the state of the driver.\<close>

record dfs_filesystem =
  fs_dev :: "nat option"
  fs_path :: "8 word list option"
  fs_ops :: "nat option"

definition zero_fs :: dfs_filesystem where "zero_fs = \<lparr>fs_dev = None, fs_path = None, fs_ops = None\<rparr>"

datatype ioctl_arg = Value int | Length int

text \<open>\<^verbatim>\<open>struct dfs_file_ops\<close> and \<^verbatim>\<open>struct dfs_filesystem_ops\<close>.\<close>

record 'w dfs_file_ops =
  fo_open :: "(dfs_fd \<Rightarrow> 'w \<Rightarrow> int \<times> dfs_fd \<times> 'w) option"
  fo_close :: "(dfs_fd \<Rightarrow> 'w \<Rightarrow> int \<times> dfs_fd \<times> 'w) option"
  fo_ioctl :: "(int \<Rightarrow> ioctl_arg \<Rightarrow> dfs_fd \<Rightarrow> 'w \<Rightarrow> int \<times> dfs_fd \<times> 'w) option"
  fo_read :: "(int \<Rightarrow> dfs_fd \<Rightarrow> 'w \<Rightarrow> (int \<times> 8 word list) \<times> dfs_fd \<times> 'w) option"
  fo_write :: "(8 word list \<Rightarrow> dfs_fd \<Rightarrow> 'w \<Rightarrow> int \<times> dfs_fd \<times> 'w) option"
  fo_flush :: "(dfs_fd \<Rightarrow> 'w \<Rightarrow> int \<times> dfs_fd \<times> 'w) option"
  fo_lseek :: "(int \<Rightarrow> dfs_fd \<Rightarrow> 'w \<Rightarrow> int \<times> dfs_fd \<times> 'w) option"
  fo_getdents :: "(int \<Rightarrow> dfs_fd \<Rightarrow> 'w \<Rightarrow> (int \<times> 8 word list) \<times> dfs_fd \<times> 'w) option"

record 'w dfs_filesystem_ops =
  op_name :: "8 word list"
  op_flags :: int
  op_fops :: nat
  op_mount :: "(nat \<Rightarrow> dfs_filesystem \<Rightarrow> int \<Rightarrow> 'w \<Rightarrow> int \<times> 'w) option"
  op_unmount :: "(nat \<Rightarrow> dfs_filesystem \<Rightarrow> 'w \<Rightarrow> int \<times> 'w) option"
  op_mkfs :: "(nat \<Rightarrow> 'w \<Rightarrow> int \<times> 'w) option"
  op_statfs :: "(nat \<Rightarrow> 'w \<Rightarrow> int \<times> 'w) option"
  op_unlink :: "(nat \<Rightarrow> 8 word list \<Rightarrow> 'w \<Rightarrow> int \<times> 'w) option"
  op_rename :: "(nat \<Rightarrow> 8 word list option \<Rightarrow> 8 word list option \<Rightarrow> 'w \<Rightarrow> int \<times> 'w) option"

text \<open>
  What the functions find around them: the tables of operations, the values of the C library, the devices by name, and
  the result of opening a device.
\<close>

record 'w dfs_env =
  errnum :: "errno \<Rightarrow> int"
  F_GETFL :: int
  F_SETFL :: int
  O_NONBLOCK :: int
  O_APPEND :: int
  file_ops :: "nat \<Rightarrow> 'w dfs_file_ops"
  type_ops :: "nat \<Rightarrow> 'w dfs_filesystem_ops"
  device_find :: "8 word list \<Rightarrow> nat option"
  device_name :: "nat \<Rightarrow> 8 word list"
  device_open :: "nat \<Rightarrow> 'w \<Rightarrow> int \<times> 'w"
  device_close :: "nat \<Rightarrow> 'w \<Rightarrow> 'w"

text \<open>\<^verbatim>\<open>_fdtab\<close> with the descriptors allocated, \<^verbatim>\<open>filesystem_operation_table\<close>, \<^verbatim>\<open>filesystem_table\<close> and \<^verbatim>\<open>working_directory\<close>.\<close>

record 'w dfs =
  fds :: "nat option list"
  fd_store :: "nat \<Rightarrow> dfs_fd option"
  op_table :: "nat option list"
  fs_table :: "dfs_filesystem list"
  working_directory :: "8 word list"
  world :: 'w

definition dfs_init :: "'w \<Rightarrow> 'w dfs" where
  "dfs_init w = \<lparr>fds = [], fd_store = (\<lambda>_. None), op_table = replicate DFS_FILESYSTEM_TYPES_MAX None,
     fs_table = replicate DFS_FILESYSTEMS_MAX zero_fs, working_directory = [SLASH], world = w\<rparr>"

abbreviation set_obj :: "nat \<Rightarrow> dfs_fd \<Rightarrow> 'w dfs \<Rightarrow> 'w dfs" where
  "set_obj p d s \<equiv> s\<lparr>fd_store := (fd_store s)(p \<mapsto> d)\<rparr>"

section \<open>File descriptors\<close>

text \<open>The first entry that is free, from index \<open>idx\<close>.\<close>

fun fd_search :: "(nat \<Rightarrow> dfs_fd option) \<Rightarrow> nat option list \<Rightarrow> nat \<Rightarrow> nat option" where
  "fd_search st [] idx = Some idx"
| "fd_search st (None # xs) idx = Some idx"
| "fd_search st (Some p # xs) idx = (case st p of None \<Rightarrow> None
     | Some d \<Rightarrow> if ref_count d = 0 then Some idx else fd_search st xs (Suc idx))"

text \<open>\<open>grow\<close> says whether \<^verbatim>\<open>rt_realloc\<close> succeeds, \<open>new\<close> is the result of \<^verbatim>\<open>rt_calloc\<close>.\<close>

definition fd_alloc :: "bool \<Rightarrow> nat option \<Rightarrow> 'w dfs \<Rightarrow> (nat \<times> 'w dfs) option" where
  "fd_alloc grow new s = do {
     idx \<leftarrow> fd_search (fd_store s) (fds s) 0;
     let maxfd = length (fds s);
     let cnt = (if DFS_FD_MAX < maxfd + 4 then DFS_FD_MAX else maxfd + 4);
     (if idx = maxfd \<and> maxfd < DFS_FD_MAX \<and> \<not> grow then Some (idx, s)
      else do {
        let fds1 = (if idx = maxfd \<and> maxfd < DFS_FD_MAX then fds s @ replicate (cnt - maxfd) None else fds s);
        let s1 = s\<lparr>fds := fds1\<rparr>;
        (if idx < length fds1 \<and> fds1 ! idx = None then
           (case new of
              None \<Rightarrow> Some (length fds1, s1)
            | Some p \<Rightarrow> Some (idx, set_obj p zero_fd (s1\<lparr>fds := fds1[idx := Some p]\<rparr>)))
         else Some (idx, s1))
      })
   }"

definition fd_new :: "bool \<Rightarrow> nat option \<Rightarrow> 'w dfs \<Rightarrow> (int \<times> 'w dfs) option" where
  "fd_new grow new s = do {
     (idx, s1) \<leftarrow> fd_alloc grow new s;
     (if idx = length (fds s1) then Some (- (1 + DFS_FD_OFFSET) + DFS_FD_OFFSET, s1)
      else do {
        p \<leftarrow> fds s1 ! idx;
        d \<leftarrow> fd_store s1 p;
        Some (int idx + DFS_FD_OFFSET, set_obj p (d\<lparr>ref_count := 1, fd_magic := DFS_FD_MAGIC\<rparr>) s1)
      })
   }"

text \<open>The pointer found, or \<^verbatim>\<open>NULL\<close>.\<close>

definition fd_get :: "int \<Rightarrow> 'w dfs \<Rightarrow> (nat option \<times> 'w dfs) option" where
  "fd_get fd0 s =
     (let fd = fd0 - DFS_FD_OFFSET
      in if fd < 0 \<or> int (length (fds s)) \<le> fd then Some (None, s)
         else (case fds s ! nat fd of
             None \<Rightarrow> Some (None, s)
           | Some p \<Rightarrow> (case fd_store s p of
                None \<Rightarrow> None
              | Some d \<Rightarrow> if fd_magic d \<noteq> DFS_FD_MAGIC then Some (None, s)
                  else Some (Some p, set_obj p (d\<lparr>ref_count := ref_count d + 1\<rparr>) s))))"

fun fd_clear :: "nat \<Rightarrow> nat option list \<Rightarrow> (bool \<times> nat option list)" where
  "fd_clear p [] = (False, [])"
| "fd_clear p (x # xs) = (if x = Some p then (True, None # xs) else (let (b, ys) = fd_clear p xs in (b, x # ys)))"

definition fd_put :: "nat option \<Rightarrow> 'w dfs \<Rightarrow> 'w dfs option" where
  "fd_put fd s = do {
     p \<leftarrow> fd;
     d \<leftarrow> fd_store s p;
     let s1 = set_obj p (d\<lparr>ref_count := ref_count d - 1\<rparr>) s;
     (if ref_count d - 1 = 0 then
        (let (found, fds1) = fd_clear p (fds s1)
         in if found then Some (s1\<lparr>fd_store := (fd_store s1)(p := None), fds := fds1\<rparr>) else Some s1)
      else Some s1)
   }"

end
