(* ===== verification/Dfs_Fs.thy ===== *)
theory Dfs_Fs
  imports Dfs
begin

text \<open>
  The mount table (\<^verbatim>\<open>dfs_fs.c\<close>) and the operations on open files and on paths (\<^verbatim>\<open>dfs_file.c\<close>). The argument \<open>mem\<close> says of the
  first, second, ... allocation of a call whether it succeeds. The second component of a result is the argument
  of \<^verbatim>\<open>rt_set_errno\<close>, where it is called.
\<close>

unbundle bit_operations_syntax

abbreviation neg :: "'w dfs_env \<Rightarrow> errno \<Rightarrow> int" where "neg E e \<equiv> - errnum E e"

definition full_path :: "bool \<Rightarrow> 8 word list \<Rightarrow> 'w dfs \<Rightarrow> 8 word list option option" where
  "full_path ok path s = dfs_normalize_path ok (working_directory s) None (Some path)"

section \<open>Lookup\<close>

text \<open>The loop of \<open>dfs_filesystem_lookup\<close>; \<open>fs\<close> and \<open>prefixlen\<close> are the best entry so far and the length of its path.\<close>

fun lookup_loop :: "8 word list \<Rightarrow> dfs_filesystem list \<Rightarrow> nat \<Rightarrow> nat option \<Rightarrow> nat \<Rightarrow> nat option" where
  "lookup_loop path [] i fs prefixlen = fs"
| "lookup_loop path (f # xs) i fs prefixlen =
     (case (fs_path f, fs_ops f) of
        (Some p, Some _) \<Rightarrow>
          (let fspath = length p
           in if fspath < prefixlen \<or> take fspath path \<noteq> p then lookup_loop path xs (Suc i) fs prefixlen
              else if 1 < fspath \<and> fspath < length path \<and> path ! fspath \<noteq> SLASH then lookup_loop path xs (Suc i) fs prefixlen
              else lookup_loop path xs (Suc i) (Some i) fspath)
      | _ \<Rightarrow> lookup_loop path xs (Suc i) fs prefixlen)"

definition dfs_filesystem_lookup :: "8 word list \<Rightarrow> 'w dfs \<Rightarrow> nat option" where
  "dfs_filesystem_lookup path s = lookup_loop path (fs_table s) 0 None 0"

fun mounted_search :: "nat \<Rightarrow> dfs_filesystem list \<Rightarrow> 8 word list option" where
  "mounted_search dev [] = None"
| "mounted_search dev (f # xs) =
     (if fs_ops f = None then mounted_search dev xs else if fs_dev f = Some dev then fs_path f else mounted_search dev xs)"

definition dfs_filesystem_get_mounted_path :: "nat \<Rightarrow> 'w dfs \<Rightarrow> 8 word list option" where
  "dfs_filesystem_get_mounted_path dev s = mounted_search dev (fs_table s)"

section \<open>Files\<close>

definition dfs_file_open :: "'w dfs_env \<Rightarrow> (nat \<Rightarrow> bool) \<Rightarrow> dfs_fd \<Rightarrow> 8 word list \<Rightarrow> int \<Rightarrow> 'w dfs \<Rightarrow> (int \<times> dfs_fd \<times> 'w dfs) option" where
  "dfs_file_open E mem fd path flags s = (case full_path (mem 0) path s of
     None \<Rightarrow> None
   | Some None \<Rightarrow> Some (neg E ENOMEM, fd, s)
   | Some (Some fullpath) \<Rightarrow>
       (case dfs_filesystem_lookup fullpath s of
          None \<Rightarrow> Some (neg E ENOENT, fd, s)
        | Some i \<Rightarrow> do {
            let fs = fs_table s ! i;
            t \<leftarrow> fs_ops fs;
            mount \<leftarrow> fs_path fs;
            let ops = type_ops E t;
            let fd1 = fd\<lparr>fd_fs := Some i, fd_fops := Some (op_fops ops), fd_type := FT_REGULAR, fd_flags := flags, fd_size := 0,
              fd_pos := 0\<rparr>;
            sub \<leftarrow> (if op_flags ops AND DFS_FS_FLAG_FULLPATH = 0 then
                (case dfs_subdir mount fullpath of
                   None \<Rightarrow> None
                 | Some None \<Rightarrow> Some (if mem 1 then Some [SLASH] else None)
                 | Some (Some d) \<Rightarrow> Some (if mem 1 then Some d else None))
              else Some (Some fullpath));
            let fd2 = fd1\<lparr>fd_path := sub\<rparr>;
            (case fo_open (file_ops E (op_fops ops)) of
               None \<Rightarrow> Some (neg E ENOSYS, fd2\<lparr>fd_path := None\<rparr>, s)
             | Some f \<Rightarrow>
                 (let (result, fd3, w) = f fd2 (world s); s1 = s\<lparr>world := w\<rparr>
                  in if result < 0 then Some (result, fd3\<lparr>fd_path := None\<rparr>, s1)
                     else (let fd4 = fd3\<lparr>fd_flags := fd_flags fd3 OR DFS_F_OPEN\<rparr>
                           in Some (0, if flags AND O_DIRECTORY \<noteq> 0
                                       then fd4\<lparr>fd_type := FT_DIRECTORY, fd_flags := fd_flags fd4 OR DFS_F_DIRECTORY\<rparr> else fd4, s1))))
          }))"

definition dfs_file_close :: "'w dfs_env \<Rightarrow> dfs_fd \<Rightarrow> 'w dfs \<Rightarrow> (int \<times> dfs_fd \<times> 'w dfs) option" where
  "dfs_file_close E fd s = do {
     ops \<leftarrow> fd_fops fd;
     let (result, fd1, w) = (case fo_close (file_ops E ops) of None \<Rightarrow> (0, fd, world s) | Some f \<Rightarrow> f fd (world s));
     let s1 = s\<lparr>world := w\<rparr>;
     Some (if result < 0 then (result, fd1, s1) else (result, fd1\<lparr>fd_path := None\<rparr>, s1))
   }"

definition dfs_file_ioctl ::
    "'w dfs_env \<Rightarrow> int \<Rightarrow> int \<Rightarrow> dfs_fd \<Rightarrow> 'w dfs \<Rightarrow> (int \<times> dfs_fd \<times> 'w dfs) option" where
  "dfs_file_ioctl E cmd args fd s =
     (if fd_type fd = FT_REGULAR \<and> cmd = F_GETFL E then Some (fd_flags fd, fd, s)
      else if fd_type fd = FT_REGULAR \<and> cmd = F_SETFL E then
        (let mask = O_NONBLOCK E OR O_APPEND E
         in Some (0, fd\<lparr>fd_flags := (fd_flags fd AND NOT mask) OR (args AND mask)\<rparr>, s))
      else do {
        ops \<leftarrow> fd_fops fd;
        Some (case fo_ioctl (file_ops E ops) of
           Some f \<Rightarrow> (let (r, fd1, w) = f cmd (Value args) fd (world s) in (r, fd1, s\<lparr>world := w\<rparr>))
         | None \<Rightarrow> (neg E ENOSYS, fd, s))
      })"

definition dfs_file_read :: "'w dfs_env \<Rightarrow> int \<Rightarrow> dfs_fd \<Rightarrow> 'w dfs \<Rightarrow> ((int \<times> 8 word list) \<times> dfs_fd \<times> 'w dfs) option" where
  "dfs_file_read E len fd s = do {
     ops \<leftarrow> fd_fops fd;
     Some (case fo_read (file_ops E ops) of
        None \<Rightarrow> ((neg E ENOSYS, []), fd, s)
      | Some f \<Rightarrow>
          (let ((result, bytes), fd1, w) = f len fd (world s)
           in ((result, bytes), if result < 0 then fd1\<lparr>fd_flags := fd_flags fd1 OR DFS_F_EOF\<rparr> else fd1, s\<lparr>world := w\<rparr>)))
   }"

definition dfs_file_getdents :: "'w dfs_env \<Rightarrow> int \<Rightarrow> dfs_fd \<Rightarrow> 'w dfs \<Rightarrow> ((int \<times> 8 word list) \<times> dfs_fd \<times> 'w dfs) option" where
  "dfs_file_getdents E nbytes fd s =
     (if fd_type fd \<noteq> FT_DIRECTORY then Some ((neg E EINVAL, []), fd, s)
      else do {
        ops \<leftarrow> fd_fops fd;
        Some (case fo_getdents (file_ops E ops) of
           Some f \<Rightarrow> (let (r, fd1, w) = f nbytes fd (world s) in (r, fd1, s\<lparr>world := w\<rparr>))
         | None \<Rightarrow> ((neg E ENOSYS, []), fd, s))
      })"

definition dfs_file_write :: "'w dfs_env \<Rightarrow> 8 word list \<Rightarrow> dfs_fd \<Rightarrow> 'w dfs \<Rightarrow> (int \<times> dfs_fd \<times> 'w dfs) option" where
  "dfs_file_write E buf fd s = do {
     ops \<leftarrow> fd_fops fd;
     Some (case fo_write (file_ops E ops) of
        None \<Rightarrow> (neg E ENOSYS, fd, s)
      | Some f \<Rightarrow> (let (r, fd1, w) = f buf fd (world s) in (r, fd1, s\<lparr>world := w\<rparr>)))
   }"

definition dfs_file_flush :: "'w dfs_env \<Rightarrow> dfs_fd \<Rightarrow> 'w dfs \<Rightarrow> (int \<times> dfs_fd \<times> 'w dfs) option" where
  "dfs_file_flush E fd s = do {
     ops \<leftarrow> fd_fops fd;
     Some (case fo_flush (file_ops E ops) of
        None \<Rightarrow> (neg E ENOSYS, fd, s)
      | Some f \<Rightarrow> (let (r, fd1, w) = f fd (world s) in (r, fd1, s\<lparr>world := w\<rparr>)))
   }"

definition dfs_file_lseek :: "'w dfs_env \<Rightarrow> int \<Rightarrow> dfs_fd \<Rightarrow> 'w dfs \<Rightarrow> (int \<times> dfs_fd \<times> 'w dfs) option" where
  "dfs_file_lseek E offset fd s = do {
     ops \<leftarrow> fd_fops fd;
     Some (case fo_lseek (file_ops E ops) of
        None \<Rightarrow> (neg E ENOSYS, fd, s)
      | Some f \<Rightarrow>
          (let (result, fd1, w) = f offset fd (world s)
           in (result, if 0 \<le> result then fd1\<lparr>fd_pos := result\<rparr> else fd1, s\<lparr>world := w\<rparr>)))
   }"

definition RT_FIOFTRUNCATE :: int where "RT_FIOFTRUNCATE = 0x52540000"

definition dfs_file_ftruncate :: "'w dfs_env \<Rightarrow> int \<Rightarrow> dfs_fd \<Rightarrow> 'w dfs \<Rightarrow> (int \<times> dfs_fd \<times> 'w dfs) option" where
  "dfs_file_ftruncate E length0 fd s =
     (if fd_type fd \<noteq> FT_REGULAR \<or> length0 < 0 then Some (neg E EINVAL, fd, s)
      else do {
        ops \<leftarrow> fd_fops fd;
        Some (case fo_ioctl (file_ops E ops) of
           None \<Rightarrow> (neg E ENOSYS, fd, s)
         | Some f \<Rightarrow>
             (let (result, fd1, w) = f RT_FIOFTRUNCATE (Length length0) fd (world s)
              in (result, if result = 0 then fd1\<lparr>fd_size := length0\<rparr> else fd1, s\<lparr>world := w\<rparr>)))
      })"

section \<open>Paths\<close>

text \<open>The search of \<open>fd_is_open\<close> for a descriptor of the file system \<open>i\<close> with the path \<open>mountpath\<close>.\<close>

fun open_search :: "(nat \<Rightarrow> dfs_fd option) \<Rightarrow> nat \<Rightarrow> 8 word list \<Rightarrow> nat option list \<Rightarrow> bool option" where
  "open_search st i mountpath [] = Some False"
| "open_search st i mountpath (None # xs) = open_search st i mountpath xs"
| "open_search st i mountpath (Some p # xs) = (case st p of
     None \<Rightarrow> None
   | Some d \<Rightarrow>
       if fd_fops d \<noteq> None \<and> fd_fs d = Some i \<and> fd_path d = Some mountpath then Some True
       else open_search st i mountpath xs)"

definition fd_is_open :: "'w dfs_env \<Rightarrow> bool \<Rightarrow> 8 word list \<Rightarrow> 'w dfs \<Rightarrow> int option" where
  "fd_is_open E ok pathname s = (case full_path ok pathname s of
     None \<Rightarrow> None
   | Some None \<Rightarrow> Some (-1)
   | Some (Some fullpath) \<Rightarrow>
       (case dfs_filesystem_lookup fullpath s of
          None \<Rightarrow> Some (-1)
        | Some i \<Rightarrow> do {
            mount \<leftarrow> fs_path (fs_table s ! i);
            let mountpath = (if mount = [SLASH] then fullpath else drop (length mount) fullpath);
            found \<leftarrow> open_search (fd_store s) i mountpath (fds s);
            Some (if found then 0 else -1)
          }))"

definition dfs_file_unlink :: "'w dfs_env \<Rightarrow> (nat \<Rightarrow> bool) \<Rightarrow> 8 word list \<Rightarrow> 'w dfs \<Rightarrow> (int \<times> 'w dfs) option" where
  "dfs_file_unlink E mem path s = (case full_path (mem 0) path s of
     None \<Rightarrow> None
   | Some None \<Rightarrow> Some (neg E EINVAL, s)
   | Some (Some fullpath) \<Rightarrow>
       (case dfs_filesystem_lookup fullpath s of
          None \<Rightarrow> Some (neg E ENOENT, s)
        | Some i \<Rightarrow> do {
            opened \<leftarrow> fd_is_open E (mem 1) fullpath s;
            (if opened = 0 then Some (neg E EBUSY, s)
             else do {
               t \<leftarrow> fs_ops (fs_table s ! i);
               mount \<leftarrow> fs_path (fs_table s ! i);
               (case op_unlink (type_ops E t) of
                  None \<Rightarrow> Some (neg E ENOSYS, s)
                | Some f \<Rightarrow> do {
                    sub \<leftarrow> (if op_flags (type_ops E t) AND DFS_FS_FLAG_FULLPATH = 0 then
                        (case dfs_subdir mount fullpath of None \<Rightarrow> None | Some None \<Rightarrow> Some [SLASH] | Some (Some d) \<Rightarrow> Some d)
                      else Some fullpath);
                    let (result, w) = f i sub (world s);
                    Some (result, s\<lparr>world := w\<rparr>)
                  })
             })
          }))"

text \<open>\<open>dfs_file_rename\<close>: two paths without a file system give equal null pointers, whose operations are then read.\<close>

definition dfs_file_rename :: "'w dfs_env \<Rightarrow> (nat \<Rightarrow> bool) \<Rightarrow> 8 word list \<Rightarrow> 8 word list \<Rightarrow> 'w dfs \<Rightarrow> (int \<times> 'w dfs) option" where
  "dfs_file_rename E mem oldpath newpath s = (case full_path (mem 0) oldpath s of
     None \<Rightarrow> None
   | Some None \<Rightarrow> Some (neg E ENOENT, s)
   | Some (Some oldfull) \<Rightarrow>
       (case full_path (mem 1) newpath s of
          None \<Rightarrow> None
        | Some None \<Rightarrow> Some (neg E ENOENT, s)
        | Some (Some newfull) \<Rightarrow>
            if dfs_filesystem_lookup oldfull s = dfs_filesystem_lookup newfull s then do {
              i \<leftarrow> dfs_filesystem_lookup oldfull s;
              t \<leftarrow> fs_ops (fs_table s ! i);
              mount \<leftarrow> fs_path (fs_table s ! i);
              (case op_rename (type_ops E t) of
                 None \<Rightarrow> Some (neg E ENOSYS, s)
               | Some f \<Rightarrow> do {
                   (a, b) \<leftarrow> (if op_flags (type_ops E t) AND DFS_FS_FLAG_FULLPATH = 0 then do {
                       a \<leftarrow> dfs_subdir mount oldfull; b \<leftarrow> dfs_subdir mount newfull; Some (a, b)
                     } else Some (Some oldfull, Some newfull));
                   let (result, w) = f i a b (world s);
                   Some (result, s\<lparr>world := w\<rparr>)
                 })
            } else Some (neg E EXDEV, s)))"

end
