(* ===== verification/Dfs_Mount.thy ===== *)
theory Dfs_Mount
  imports Dfs_Fs
begin

text \<open>
  Registering file system types, mounting and unmounting (\<^verbatim>\<open>dfs_fs.c\<close>). The steps of \<open>dfs_mount\<close> run in one piece here: its
  sections under the file system lock may interleave with other threads in the program.
\<close>

section \<open>File system types\<close>

text \<open>The loop of \<open>dfs_register\<close>: the first empty entry seen, and whether the name is taken.\<close>

fun register_loop :: "(nat \<Rightarrow> 'w dfs_filesystem_ops) \<Rightarrow> 8 word list \<Rightarrow> nat option list \<Rightarrow> nat \<Rightarrow> nat option \<Rightarrow> nat option \<times> bool" where
  "register_loop ops name [] i slot = (slot, False)"
| "register_loop ops name (None # xs) i slot = register_loop ops name xs (Suc i) (case slot of None \<Rightarrow> Some i | Some e \<Rightarrow> Some e)"
| "register_loop ops name (Some t # xs) i slot =
     (if op_name (ops t) = name then (slot, True) else register_loop ops name xs (Suc i) slot)"

definition dfs_register :: "'w dfs_env \<Rightarrow> nat \<Rightarrow> 'w dfs \<Rightarrow> int \<times> int option \<times> 'w dfs" where
  "dfs_register E t s = (case register_loop (type_ops E) (op_name (type_ops E t)) (op_table s) 0 None of
     (None, _) \<Rightarrow> (-1, Some (neg E ENOSPC), s)
   | (Some e, True) \<Rightarrow> (-1, Some (neg E EEXIST), s)
   | (Some e, False) \<Rightarrow> (0, None, s\<lparr>op_table := (op_table s)[e := Some t]\<rparr>))"

fun type_search :: "(nat \<Rightarrow> 'w dfs_filesystem_ops) \<Rightarrow> 8 word list \<Rightarrow> nat option list \<Rightarrow> nat option" where
  "type_search ops name [] = None"
| "type_search ops name (None # xs) = type_search ops name xs"
| "type_search ops name (Some t # xs) = (if op_name (ops t) = name then Some t else type_search ops name xs)"

section \<open>Mounting\<close>

text \<open>The loop of \<open>dfs_mount\<close> over the mount table: the first empty entry, and whether the path is mounted.\<close>

fun mount_loop :: "8 word list \<Rightarrow> dfs_filesystem list \<Rightarrow> nat \<Rightarrow> nat option \<Rightarrow> (nat option \<times> bool) option" where
  "mount_loop path [] i fs = Some (fs, False)"
| "mount_loop path (f # xs) i fs =
     (if fs_ops f = None then mount_loop path xs (Suc i) (case fs of None \<Rightarrow> Some i | Some e \<Rightarrow> Some e)
      else (case fs_path f of
          None \<Rightarrow> None
        | Some p \<Rightarrow> if p = path then Some (fs, True) else mount_loop path xs (Suc i) fs))"

text \<open>From the entry found on: the entry is filled, the device opened, and the driver called. Failures clear the entry.\<close>

definition mount_entry :: "'w dfs_env \<Rightarrow> nat \<Rightarrow> nat \<Rightarrow> 8 word list \<Rightarrow> nat option \<Rightarrow> int \<Rightarrow> ('w \<Rightarrow> int \<times> 'w) \<Rightarrow> 'w dfs \<Rightarrow>
    int \<times> int option \<times> 'w dfs" where
  "mount_entry E i t fullpath dev rwflag mount s =
     (let s1 = s\<lparr>fs_table := (fs_table s)[i := \<lparr>fs_dev = dev, fs_path = Some fullpath, fs_ops = Some t\<rparr>]\<rparr>;
          (opened, w1) = (case dev of None \<Rightarrow> (0, world s1) | Some d \<Rightarrow> device_open E d (world s1));
          s2 = s1\<lparr>world := w1\<rparr>
      in if opened \<noteq> 0 then (-1, None, s2\<lparr>fs_table := (fs_table s2)[i := zero_fs]\<rparr>)
         else (let (result, w2) = mount (world s2)
               in if result < 0 then
                    (-1, None, s2\<lparr>world := (case dev of None \<Rightarrow> w2 | Some d \<Rightarrow> device_close E d w2),
                       fs_table := (fs_table s2)[i := zero_fs]\<rparr>)
                  else (0, None, s2\<lparr>world := w2\<rparr>)))"

text \<open>\<open>junk\<close> is the descriptor on the stack, not initialised.\<close>

definition dfs_mount :: "'w dfs_env \<Rightarrow> (nat \<Rightarrow> bool) \<Rightarrow> dfs_fd \<Rightarrow> 8 word list option \<Rightarrow> 8 word list \<Rightarrow> 8 word list \<Rightarrow> int \<Rightarrow> 'w dfs \<Rightarrow>
    (int \<times> int option \<times> 'w dfs) option" where
  "dfs_mount E mem junk dev_name path filesystemtype rwflag s =
     (if (case dev_name of None \<Rightarrow> False | Some n \<Rightarrow> device_find E n = None) then Some (-1, Some (neg E ENODEV), s)
      else let dev = (case dev_name of None \<Rightarrow> None | Some n \<Rightarrow> device_find E n) in
        (case type_search (type_ops E) filesystemtype (op_table s) of
           None \<Rightarrow> Some (-1, Some (neg E ENODEV), s)
         | Some t \<Rightarrow> (case op_mount (type_ops E t) of
              None \<Rightarrow> Some (-1, Some (neg E ENOSYS), s)
            | Some mount \<Rightarrow> (case full_path (mem 0) path s of
                 None \<Rightarrow> None
               | Some None \<Rightarrow> Some (-1, Some (neg E ENOTDIR), s)
               | Some (Some fullpath) \<Rightarrow> do {
                   (found, s1) \<leftarrow> (if fullpath \<noteq> [SLASH] \<and> fullpath \<noteq> [SLASH, 100, 101, 118] then do {
                       (result, fd, s1) \<leftarrow> dfs_file_open E (mem \<circ> Suc) junk fullpath O_DIRECTORY s;
                       (if result < 0 then Some (False, s1)
                        else do { (_, _, s2) \<leftarrow> dfs_file_close E fd s1; Some (True, s2) })
                     } else Some (True, s));
                   (if \<not> found then Some (-1, Some (neg E ENOTDIR), s1)
                    else do {
                      r \<leftarrow> mount_loop path (fs_table s1) 0 None;
                      Some (case r of
                         (_, True) \<Rightarrow> (-1, Some (neg E EINVAL), s1)
                       | (None, False) \<Rightarrow> (-1, Some (neg E ENOSPC), s1)
                       | (Some i, False) \<Rightarrow>
                           mount_entry E i t fullpath dev rwflag
                             (mount i \<lparr>fs_dev = dev, fs_path = Some fullpath, fs_ops = Some t\<rparr> rwflag) s1)
                    })
                 }))))"

fun path_search :: "8 word list \<Rightarrow> dfs_filesystem list \<Rightarrow> nat \<Rightarrow> nat option" where
  "path_search path [] i = None"
| "path_search path (f # xs) i = (if fs_path f = Some path then Some i else path_search path xs (Suc i))"

text \<open>The part of \<open>dfs_unmount\<close> and \<open>dfs_unmount_device\<close> after the search.\<close>

definition unmount_entry :: "'w dfs_env \<Rightarrow> nat option \<Rightarrow> 'w dfs \<Rightarrow> (int \<times> 'w dfs) option" where
  "unmount_entry E entry s = (case entry of
     None \<Rightarrow> Some (-1, s)
   | Some i \<Rightarrow> do {
       let fs = fs_table s ! i;
       t \<leftarrow> fs_ops fs;
       (case op_unmount (type_ops E t) of
          None \<Rightarrow> Some (-1, s)
        | Some f \<Rightarrow>
            (let (result, w) = f i fs (world s)
             in if result < 0 then Some (-1, s\<lparr>world := w\<rparr>)
                else Some (0, s\<lparr>world := (case fs_dev fs of None \<Rightarrow> w | Some d \<Rightarrow> device_close E d w),
                  fs_table := (fs_table s)[i := zero_fs]\<rparr>)))
     })"

definition dfs_unmount :: "'w dfs_env \<Rightarrow> bool \<Rightarrow> 8 word list \<Rightarrow> 'w dfs \<Rightarrow> (int \<times> int option \<times> 'w dfs) option" where
  "dfs_unmount E ok specialfile s = (case full_path ok specialfile s of
     None \<Rightarrow> None
   | Some None \<Rightarrow> Some (-1, Some (neg E ENOTDIR), s)
   | Some (Some fullpath) \<Rightarrow>
       do { (r, s1) \<leftarrow> unmount_entry E (path_search fullpath (fs_table s) 0) s; Some (r, None, s1) })"

text \<open>The search of \<open>dfs_unmount_device\<close> reads the name of the device of every entry.\<close>

fun device_search :: "(nat \<Rightarrow> 8 word list) \<Rightarrow> 8 word list \<Rightarrow> dfs_filesystem list \<Rightarrow> nat \<Rightarrow> nat option option" where
  "device_search nm name [] i = Some None"
| "device_search nm name (f # xs) i = (case fs_dev f of
     None \<Rightarrow> None
   | Some d \<Rightarrow> if nm d = name then Some (Some i) else device_search nm name xs (Suc i))"

definition dfs_unmount_device :: "'w dfs_env \<Rightarrow> nat \<Rightarrow> 'w dfs \<Rightarrow> (int \<times> 'w dfs) option" where
  "dfs_unmount_device E dev s = do {
     entry \<leftarrow> device_search (device_name E) (device_name E dev) (fs_table s) 0;
     unmount_entry E entry s
   }"

definition dfs_mkfs :: "'w dfs_env \<Rightarrow> 8 word list \<Rightarrow> 8 word list option \<Rightarrow> 'w dfs \<Rightarrow> int \<times> int option \<times> 'w dfs" where
  "dfs_mkfs E fs_name dev_name s =
     (case (case dev_name of None \<Rightarrow> None | Some n \<Rightarrow> device_find E n) of
        None \<Rightarrow> (-1, Some (neg E ENODEV), s)
      | Some dev \<Rightarrow> (case type_search (type_ops E) fs_name (op_table s) of
           None \<Rightarrow> (-1, None, s)
         | Some t \<Rightarrow> (case op_mkfs (type_ops E t) of
              None \<Rightarrow> (-1, Some (neg E ENOSYS), s)
            | Some f \<Rightarrow> (let (r, w) = f dev (world s) in (r, None, s\<lparr>world := w\<rparr>)))))"

definition dfs_statfs :: "'w dfs_env \<Rightarrow> 8 word list \<Rightarrow> 'w dfs \<Rightarrow> (int \<times> 'w dfs) option" where
  "dfs_statfs E path s = (case dfs_filesystem_lookup path s of
     None \<Rightarrow> Some (-1, s)
   | Some i \<Rightarrow> do {
       t \<leftarrow> fs_ops (fs_table s ! i);
       Some (case op_statfs (type_ops E t) of
          None \<Rightarrow> (-1, s)
        | Some f \<Rightarrow> (let (r, w) = f i (world s) in (r, s\<lparr>world := w\<rparr>)))
     })"

text \<open>\<open>dfs_mount_table\<close> mounts the entries of the table of the board, \<open>(device, path, type, flags)\<close>, until one fails.\<close>

fun dfs_mount_table :: "'w dfs_env \<Rightarrow> (nat \<Rightarrow> bool) \<Rightarrow> dfs_fd \<Rightarrow> (8 word list option \<times> 8 word list \<times> 8 word list \<times> int) list \<Rightarrow>
    'w dfs \<Rightarrow> (int \<times> 'w dfs) option" where
  "dfs_mount_table E mem junk [] s = Some (0, s)"
| "dfs_mount_table E mem junk ((dev, path, typ, rw) # xs) s = do {
     (r, _, s1) \<leftarrow> dfs_mount E mem junk dev path typ rw s;
     (if r \<noteq> 0 then Some (-1, s1) else dfs_mount_table E mem junk xs s1)
   }"

end
