(* ===== verification/Dfs_Posix.thy ===== *)
theory Dfs_Posix
  imports Dfs_Mount
begin

text \<open>
  The POSIX calls on files (\<^verbatim>\<open>components/dfs/src/dfs_posix.c\<close>): each takes a reference to the descriptor, works on the file,
  and gives the reference back. Every call is composed of the steps it takes under the file system lock, so that they
  can be interleaved with those of other threads.
\<close>

section \<open>Calls on a descriptor\<close>

text \<open>The object behind a pointer, and an operation on it; \<open>NULL\<close> is answered with \<open>-EINVAL\<close> by the operations.\<close>

definition on_fd :: "nat \<Rightarrow> (dfs_fd \<Rightarrow> 'w dfs \<Rightarrow> ('r \<times> dfs_fd \<times> 'w dfs) option) \<Rightarrow> 'w dfs \<Rightarrow> ('r \<times> 'w dfs) option" where
  "on_fd p op s = do {
     d \<leftarrow> fd_store s p;
     (r, d1, s1) \<leftarrow> op d s;
     Some (r, set_obj p d1 s1)
   }"

text \<open>\<open>open\<close>: \<open>grow\<close> and \<open>new\<close> are the allocations of \<open>fd_new\<close>, \<open>mem\<close> those of \<open>dfs_file_open\<close>.\<close>

definition posix_open :: "'w dfs_env \<Rightarrow> bool \<Rightarrow> nat option \<Rightarrow> (nat \<Rightarrow> bool) \<Rightarrow> 8 word list \<Rightarrow> int \<Rightarrow> 'w dfs \<Rightarrow>
    (int \<times> int option \<times> 'w dfs) option" where
  "posix_open E grow new mem path flags s = do {
     (fd, s1) \<leftarrow> fd_new grow new s;
     (if fd < 0 then Some (-1, Some (neg E ENOMEM), s1)
      else do {
        (d, s2) \<leftarrow> fd_get fd s1;
        p \<leftarrow> d;
        (result, s3) \<leftarrow> on_fd p (\<lambda>x. dfs_file_open E mem x path flags) s2;
        (if result < 0 then do {
           s4 \<leftarrow> fd_put d s3;
           s5 \<leftarrow> fd_put d s4;
           Some (-1, Some result, s5)
         } else do {
           s4 \<leftarrow> fd_put d s3;
           Some (fd, None, s4)
         })
      })
   }"

text \<open>\<open>close\<close>, as the part up to the operation and the part after it.\<close>

definition close_file :: "'w dfs_env \<Rightarrow> int \<Rightarrow> 'w dfs \<Rightarrow> ((nat \<times> int) option \<times> 'w dfs) option" where
  "close_file E fd s = do {
     (d, s1) \<leftarrow> fd_get fd s;
     (case d of
        None \<Rightarrow> Some (None, s1)
      | Some p \<Rightarrow> do { (result, s2) \<leftarrow> on_fd p (dfs_file_close E) s1; Some (Some (p, result), s2) })
   }"

definition close_put :: "nat \<Rightarrow> int \<Rightarrow> 'w dfs \<Rightarrow> (int \<times> int option \<times> 'w dfs) option" where
  "close_put p result s = do {
     s1 \<leftarrow> fd_put (Some p) s;
     (if result < 0 then Some (-1, Some result, s1)
      else do { s2 \<leftarrow> fd_put (Some p) s1; Some (0, None, s2) })
   }"

definition posix_close :: "'w dfs_env \<Rightarrow> int \<Rightarrow> 'w dfs \<Rightarrow> (int \<times> int option \<times> 'w dfs) option" where
  "posix_close E fd s = do {
     (r, s1) \<leftarrow> close_file E fd s;
     (case r of None \<Rightarrow> Some (-1, Some (neg E EBADF), s1) | Some (p, result) \<Rightarrow> close_put p result s1)
   }"

text \<open>The calls that take a reference, work, and give it back, whatever the result.\<close>

definition with_fd :: "int \<Rightarrow> 'r \<Rightarrow> (dfs_fd \<Rightarrow> 'w dfs \<Rightarrow> ('r \<times> dfs_fd \<times> 'w dfs) option) \<Rightarrow> 'w dfs \<Rightarrow> ('r \<times> 'w dfs) option" where
  "with_fd fd bad op s = do {
     (d, s1) \<leftarrow> fd_get fd s;
     (case d of
        None \<Rightarrow> Some (bad, s1)
      | Some p \<Rightarrow> do {
          (r, s2) \<leftarrow> on_fd p op s1;
          s3 \<leftarrow> fd_put (Some p) s2;
          Some (r, s3)
        })
   }"

definition posix_result :: "int \<Rightarrow> int \<times> int option" where
  "posix_result r = (if r < 0 then (-1, Some r) else (r, None))"

definition posix_read :: "'w dfs_env \<Rightarrow> int \<Rightarrow> int \<Rightarrow> 'w dfs \<Rightarrow> ((int \<times> int option) \<times> 8 word list \<times> 'w dfs) option" where
  "posix_read E fd len s = do {
     ((result, bytes), s1) \<leftarrow> with_fd fd (neg E EBADF, []) (dfs_file_read E len) s;
     Some (posix_result result, bytes, s1)
   }"

definition posix_write :: "'w dfs_env \<Rightarrow> int \<Rightarrow> 8 word list \<Rightarrow> 'w dfs \<Rightarrow> ((int \<times> int option) \<times> 'w dfs) option" where
  "posix_write E fd buf s = do {
     (result, s1) \<leftarrow> with_fd fd (neg E EBADF) (dfs_file_write E buf) s;
     Some (posix_result result, s1)
   }"

definition SEEK_SET :: int where "SEEK_SET = 0"
definition SEEK_CUR :: int where "SEEK_CUR = 1"
definition SEEK_END :: int where "SEEK_END = 2"

definition posix_lseek :: "'w dfs_env \<Rightarrow> int \<Rightarrow> int \<Rightarrow> int \<Rightarrow> 'w dfs \<Rightarrow> ((int \<times> int option) \<times> 'w dfs) option" where
  "posix_lseek E fd offset whence s = do {
     (result, s1) \<leftarrow> with_fd fd (neg E EBADF) (\<lambda>d s.
         if whence \<notin> {SEEK_SET, SEEK_CUR, SEEK_END} then Some (neg E EINVAL, d, s)
         else (let off = (if whence = SEEK_CUR then offset + fd_pos d else if whence = SEEK_END then offset + fd_size d else offset)
               in if off < 0 then Some (neg E EINVAL, d, s)
                  else if off \<noteq> fd_pos d then do {
                    (r, d1, s1) \<leftarrow> dfs_file_lseek E off d s;
                    Some (if r < 0 then r else off, d1, s1)
                  } else Some (off, d, s))) s;
     Some (posix_result result, s1)
   }"

definition posix_fsync :: "'w dfs_env \<Rightarrow> int \<Rightarrow> 'w dfs \<Rightarrow> ((int \<times> int option) \<times> 'w dfs) option" where
  "posix_fsync E fd s = do {
     (d, s1) \<leftarrow> fd_get fd s;
     (case d of
        None \<Rightarrow> Some ((-1, Some (neg E EBADF)), s1)
      | Some p \<Rightarrow> do {
          (r, s2) \<leftarrow> on_fd p (dfs_file_flush E) s1;
          s3 \<leftarrow> fd_put (Some p) s2;
          Some ((r, None), s3)
        })
   }"

definition posix_fcntl :: "'w dfs_env \<Rightarrow> int \<Rightarrow> int \<Rightarrow> int \<Rightarrow> 'w dfs \<Rightarrow> ((int \<times> int option) \<times> 'w dfs) option" where
  "posix_fcntl E fd cmd arg s = do {
     (result, s1) \<leftarrow> with_fd fd (neg E EBADF) (dfs_file_ioctl E cmd arg) s;
     Some (posix_result result, s1)
   }"

definition posix_ftruncate :: "'w dfs_env \<Rightarrow> int \<Rightarrow> int \<Rightarrow> 'w dfs \<Rightarrow> ((int \<times> int option) \<times> 'w dfs) option" where
  "posix_ftruncate E fd length0 s = do {
     (result, s1) \<leftarrow> with_fd fd (neg E EBADF) (\<lambda>d s.
         if length0 < 0 then Some (neg E EINVAL, d, s) else dfs_file_ftruncate E length0 d s) s;
     Some (if result < 0 then (-1, Some result) else (0, None), s1)
   }"

section \<open>Calls on a path\<close>

definition posix_rename :: "'w dfs_env \<Rightarrow> (nat \<Rightarrow> bool) \<Rightarrow> 8 word list \<Rightarrow> 8 word list \<Rightarrow> 'w dfs \<Rightarrow> ((int \<times> int option) \<times> 'w dfs) option" where
  "posix_rename E mem old_file new_file s = do {
     (result, s1) \<leftarrow> dfs_file_rename E mem old_file new_file s;
     Some (if result < 0 then (-1, Some result) else (0, None), s1)
   }"

definition posix_unlink :: "'w dfs_env \<Rightarrow> (nat \<Rightarrow> bool) \<Rightarrow> 8 word list \<Rightarrow> 'w dfs \<Rightarrow> ((int \<times> int option) \<times> 'w dfs) option" where
  "posix_unlink E mem pathname s = do {
     (result, s1) \<leftarrow> dfs_file_unlink E mem pathname s;
     Some (if result < 0 then (-1, Some result) else (0, None), s1)
   }"

text \<open>\<open>mkdir\<close>; \<open>create\<close> is the value of \<^verbatim>\<open>O_CREAT\<close>.\<close>

definition posix_mkdir :: "'w dfs_env \<Rightarrow> int \<Rightarrow> bool \<Rightarrow> nat option \<Rightarrow> (nat \<Rightarrow> bool) \<Rightarrow> 8 word list \<Rightarrow> 'w dfs \<Rightarrow>
    (int \<times> int option \<times> 'w dfs) option" where
  "posix_mkdir E create grow new mem path s = do {
     (fd, s1) \<leftarrow> fd_new grow new s;
     (if fd = -1 then Some (-1, Some (neg E ENOMEM), s1)
      else do {
        (d, s2) \<leftarrow> fd_get fd s1;
        p \<leftarrow> d;
        (result, s3) \<leftarrow> on_fd p (\<lambda>x. dfs_file_open E mem x path (O_DIRECTORY OR create)) s2;
        (if result < 0 then do {
           s4 \<leftarrow> fd_put d s3;
           s5 \<leftarrow> fd_put d s4;
           Some (-1, Some result, s5)
         } else do {
           (_, s4) \<leftarrow> on_fd p (dfs_file_close E) s3;
           s5 \<leftarrow> fd_put d s4;
           s6 \<leftarrow> fd_put d s5;
           Some (0, None, s6)
         })
      })
   }"

end
