(* ===== verification/Dfs_Fd_Props.thy ===== *)
theory Dfs_Fd_Props
  imports Dfs
begin

text \<open>
  The table of file descriptors: its invariant, and the refinement of a map from descriptors to reference counts.
\<close>

section \<open>Invariant\<close>

text \<open>
  Every entry points to a descriptor in use, no two entries to the same one, and every descriptor that is allocated is in
  the table.
\<close>

definition fdt_wf :: "'w dfs \<Rightarrow> bool" where
  "fdt_wf s \<longleftrightarrow> length (fds s) \<le> DFS_FD_MAX \<and>
     (\<forall>i p. i < length (fds s) \<and> fds s ! i = Some p \<longrightarrow>
        (\<exists>d. fd_store s p = Some d \<and> 0 < ref_count d \<and> fd_magic d = DFS_FD_MAGIC)) \<and>
     (\<forall>i j p. i < length (fds s) \<and> j < length (fds s) \<and> fds s ! i = Some p \<and> fds s ! j = Some p \<longrightarrow> i = j) \<and>
     (\<forall>p. fd_store s p \<noteq> None \<longrightarrow> (\<exists>i<length (fds s). fds s ! i = Some p))"

text \<open>The reference count of an index of the table.\<close>

definition fd_refs :: "'w dfs \<Rightarrow> nat \<Rightarrow> int option" where
  "fd_refs s i = (if i < length (fds s) then (case fds s ! i of None \<Rightarrow> None | Some p \<Rightarrow> map_option ref_count (fd_store s p)) else None)"

lemma fdt_wfD:
  assumes "fdt_wf s"
  shows "length (fds s) \<le> DFS_FD_MAX"
    "i < length (fds s) \<Longrightarrow> fds s ! i = Some p \<Longrightarrow> \<exists>d. fd_store s p = Some d \<and> 0 < ref_count d \<and> fd_magic d = DFS_FD_MAGIC"
    "i < length (fds s) \<Longrightarrow> j < length (fds s) \<Longrightarrow> fds s ! i = Some p \<Longrightarrow> fds s ! j = Some p \<Longrightarrow> i = j"
    "fd_store s p = Some d \<Longrightarrow> \<exists>i<length (fds s). fds s ! i = Some p"
  using assms unfolding fdt_wf_def by blast+

lemma fdt_wf_init: "fdt_wf (dfs_init w)"
  by (simp add: fdt_wf_def dfs_init_def)

lemma fd_search_spec:
  assumes "\<And>p. Some p \<in> set xs \<Longrightarrow> \<exists>d. st p = Some d \<and> 0 < ref_count d"
  shows "\<exists>n\<le>length xs. fd_search st xs i = Some (i + n) \<and> (\<forall>j<n. xs ! j \<noteq> None) \<and> (n < length xs \<longrightarrow> xs ! n = None)"
  using assms
proof (induction xs arbitrary: i)
  case (Cons x xs)
  show ?case
  proof (cases x)
    case (Some p)
    obtain n where n: "n \<le> length xs" "fd_search st xs (Suc i) = Some (Suc i + n)" "\<forall>j<n. xs ! j \<noteq> None"
      "n < length xs \<longrightarrow> xs ! n = None"
      using Cons.IH [of "Suc i"] Cons.prems by auto
    obtain d where "st p = Some d" "0 < ref_count d" using Cons.prems [of p] Some by auto
    then show ?thesis using n Some by (intro exI [of _ "Suc n"]) (auto simp: nth_Cons split: nat.splits)
  qed (intro exI [of _ 0], simp)
qed simp

lemma fd_clear_spec:
  "i < length xs \<Longrightarrow> xs ! i = Some p \<Longrightarrow> (\<And>j. j < length xs \<Longrightarrow> xs ! j = Some p \<Longrightarrow> j = i) \<Longrightarrow> fd_clear p xs = (True, xs[i := None])"
proof (induction xs arbitrary: i)
  case (Cons x xs)
  show ?case
  proof (cases i)
    case (Suc k)
    have "x \<noteq> Some p" using Cons.prems(3) [of 0] Suc by auto
    moreover have u: "j < length xs \<Longrightarrow> xs ! j = Some p \<Longrightarrow> j = k" for j using Cons.prems(3) [of "Suc j"] Suc by simp
    have "fd_clear p xs = (True, xs[k := None])" by (rule Cons.IH [OF _ _ u]) (use Cons.prems(1,2) Suc in simp_all)
    ultimately show ?thesis using Suc by simp
  qed (use Cons.prems in simp)
qed simp

text \<open>Changing an object that is in use into another one in use.\<close>

lemma fdt_wf_update:
  assumes "fdt_wf s" "i < length (fds s)" "fds s ! i = Some p" "0 < ref_count d" "fd_magic d = DFS_FD_MAGIC"
  shows "fdt_wf (set_obj p d s)" "fd_refs (set_obj p d s) = (fd_refs s)(i \<mapsto> ref_count d)"
proof -
  show "fdt_wf (set_obj p d s)"
    using assms unfolding fdt_wf_def by simp blast
  show "fd_refs (set_obj p d s) = (fd_refs s)(i \<mapsto> ref_count d)"
    using assms fdt_wfD(3) [OF assms(1)] by (auto simp: fd_refs_def fun_eq_iff split: option.splits)
qed

section \<open>The operations\<close>

lemma first_free:
  assumes "fdt_wf s"
  shows "\<exists>i\<le>length (fds s). fd_search (fd_store s) (fds s) 0 = Some i \<and> (\<forall>j<i. fd_refs s j \<noteq> None) \<and> fd_refs s i = None \<and>
    (i < length (fds s) \<longrightarrow> fds s ! i = None)"
proof -
  have "\<exists>d. fd_store s p = Some d \<and> 0 < ref_count d" if "Some p \<in> set (fds s)" for p
    using that fdt_wfD(2) [OF assms] by (auto simp: in_set_conv_nth)
  then obtain n where n: "n \<le> length (fds s)" "fd_search (fd_store s) (fds s) 0 = Some n" "\<forall>j<n. fds s ! j \<noteq> None"
    "n < length (fds s) \<longrightarrow> fds s ! n = None"
    using fd_search_spec [of "fds s" "fd_store s" 0] by auto
  have "fd_refs s j \<noteq> None" if "j < n" for j
    using that n(1,3) fdt_wfD(2) [OF assms, of j] by (fastforce simp: fd_refs_def)
  moreover have "fd_refs s n = None" using n(4) by (simp add: fd_refs_def)
  ultimately show ?thesis using n by blast
qed

lemma fds_grow:
  assumes "fdt_wf s" "length (fds s) + k \<le> DFS_FD_MAX"
  shows "fdt_wf (s\<lparr>fds := fds s @ replicate k None\<rparr>)" "fd_refs (s\<lparr>fds := fds s @ replicate k None\<rparr>) = fd_refs s"
proof -
  have N: "(fds s @ replicate k None) ! i = Some p \<Longrightarrow> i < length (fds s) + k \<Longrightarrow> i < length (fds s) \<and> fds s ! i = Some p" for i p
    by (cases "i < length (fds s)") (auto simp: nth_append)
  show "fdt_wf (s\<lparr>fds := fds s @ replicate k None\<rparr>)"
    unfolding fdt_wf_def
  proof (intro conjI allI impI)
    fix p
    assume "fd_store (s\<lparr>fds := fds s @ replicate k None\<rparr>) p \<noteq> None"
    then obtain i where "i < length (fds s)" "fds s ! i = Some p" using fdt_wfD(4) [OF assms(1)] by auto
    then show "\<exists>i<length (fds (s\<lparr>fds := fds s @ replicate k None\<rparr>)). fds (s\<lparr>fds := fds s @ replicate k None\<rparr>) ! i = Some p"
      by (intro exI [of _ i]) (simp add: nth_append)
  qed (use assms N fdt_wfD(2,3) [OF assms(1)] in \<open>auto dest!: N\<close>)
  show "fd_refs (s\<lparr>fds := fds s @ replicate k None\<rparr>) = fd_refs s"
    by (auto simp: fd_refs_def fun_eq_iff nth_append split: option.splits)
qed

text \<open>A new descriptor in a free entry.\<close>

lemma fds_fill:
  assumes "fdt_wf s" "i < length (fds s)" "fds s ! i = None" "fd_store s p = None" "ref_count d = 1" "fd_magic d = DFS_FD_MAGIC"
  shows "fdt_wf (set_obj p d (s\<lparr>fds := (fds s)[i := Some p]\<rparr>))"
    "fd_refs (set_obj p d (s\<lparr>fds := (fds s)[i := Some p]\<rparr>)) = (fd_refs s)(i \<mapsto> 1)"
proof -
  have P: "j < length (fds s) \<Longrightarrow> fds s ! j \<noteq> Some p" for j using fdt_wfD(2) [OF assms(1)] assms(4) by fastforce
  show "fdt_wf (set_obj p d (s\<lparr>fds := (fds s)[i := Some p]\<rparr>))"
    unfolding fdt_wf_def
  proof (intro conjI allI impI)
    fix q
    assume q: "fd_store (set_obj p d (s\<lparr>fds := (fds s)[i := Some p]\<rparr>)) q \<noteq> None"
    show "\<exists>j<length (fds (set_obj p d (s\<lparr>fds := (fds s)[i := Some p]\<rparr>))). fds (set_obj p d (s\<lparr>fds := (fds s)[i := Some p]\<rparr>)) ! j = Some q"
    proof (cases "q = p")
      case True
      then show ?thesis using assms(2) by (intro exI [of _ i]) simp
    next
      case False
      then obtain j where j: "j < length (fds s)" "fds s ! j = Some q" using q fdt_wfD(4) [OF assms(1)] by auto
      then have "j \<noteq> i" using assms(3) by auto
      then show ?thesis using j by (intro exI [of _ j]) simp
    qed
  qed (use assms P fdt_wfD [OF assms(1)] in \<open>auto simp: nth_list_update split: if_splits\<close>)
  show "fd_refs (set_obj p d (s\<lparr>fds := (fds s)[i := Some p]\<rparr>)) = (fd_refs s)(i \<mapsto> 1)"
    using assms P by (auto simp: fd_refs_def fun_eq_iff nth_list_update split: option.splits)
qed

lemma fd_new_spec:
  assumes wf: "fdt_wf s" and new: "\<And>p. new = Some p \<Longrightarrow> fd_store s p = None"
  shows "\<exists>i fd s'. fd_new grow new s = Some (fd, s') \<and> fdt_wf s' \<and> (\<forall>j<i. fd_refs s j \<noteq> None) \<and> fd_refs s i = None \<and>
    (if i < DFS_FD_MAX \<and> new \<noteq> None \<and> (i < length (fds s) \<or> grow)
     then fd = int i + DFS_FD_OFFSET \<and> fd_refs s' = (fd_refs s)(i \<mapsto> 1) else fd = -1 \<and> fd_refs s' = fd_refs s)"
proof -
  obtain i where i: "i \<le> length (fds s)" "fd_search (fd_store s) (fds s) 0 = Some i" "\<forall>j<i. fd_refs s j \<noteq> None" "fd_refs s i = None"
    "i < length (fds s) \<longrightarrow> fds s ! i = None"
    using first_free [OF wf] by blast
  have max: "length (fds s) \<le> DFS_FD_MAX" by (rule fdt_wfD(1) [OF wf])
  define k where "k = (if DFS_FD_MAX < length (fds s) + 4 then DFS_FD_MAX else length (fds s) + 4) - length (fds s)"
  define s1 where "s1 = (if i = length (fds s) \<and> length (fds s) < DFS_FD_MAX then s\<lparr>fds := fds s @ replicate k None\<rparr> else s)"
  have k: "length (fds s) + k \<le> DFS_FD_MAX" "length (fds s) < DFS_FD_MAX \<Longrightarrow> 0 < k" using max by (auto simp: k_def)
  have s1: "fdt_wf s1" "fd_refs s1 = fd_refs s" "fd_store s1 = fd_store s" using wf fds_grow [OF wf k(1)] by (auto simp: s1_def)
  show ?thesis
  proof (cases "i = length (fds s) \<and> length (fds s) < DFS_FD_MAX \<and> \<not> grow")
    case True
    then have "fd_new grow new s = Some (-1, s)" using i by (simp add: fd_new_def fd_alloc_def Let_def)
    then show ?thesis using True i wf by (intro exI [of _ i]) simp
  next
    case no: False
    have al: "fd_alloc grow new s =
        (if i < length (fds s1) \<and> fds s1 ! i = None then
           (case new of None \<Rightarrow> Some (length (fds s1), s1)
            | Some p \<Rightarrow> Some (i, set_obj p zero_fd (s1\<lparr>fds := (fds s1)[i := Some p]\<rparr>)))
         else Some (i, s1))"
    proof (cases "i = length (fds s) \<and> length (fds s) < DFS_FD_MAX")
      case True
      then have "s1 = s\<lparr>fds := fds s @ replicate k None\<rparr>" by (simp add: s1_def)
      then show ?thesis using no True i(2) by (cases new) (simp_all add: fd_alloc_def Let_def k_def)
    next
      case False
      then have "s1 = s" unfolding s1_def by (rule if_not_P)
      then show ?thesis using False i(2) by (cases new) (auto simp: fd_alloc_def Let_def)
    qed
    show ?thesis
    proof (cases "i < DFS_FD_MAX")
      case True
      then have free: "i < length (fds s1)" "fds s1 ! i = None" using i k by (auto simp: s1_def nth_append)
      show ?thesis
      proof (cases new)
        case None
        then have "fd_new grow new s = Some (-1, s1)" unfolding fd_new_def al using free by simp
        then show ?thesis using None i s1 by (intro exI [of _ i]) simp
      next
        case (Some p)
        let ?s = "set_obj p (zero_fd\<lparr>ref_count := 1, fd_magic := DFS_FD_MAGIC\<rparr>) (s1\<lparr>fds := (fds s1)[i := Some p]\<rparr>)"
        have "fd_new grow new s = Some (int i + DFS_FD_OFFSET, ?s)" unfolding fd_new_def al using free by (simp add: Some)
        moreover have "fdt_wf ?s" "fd_refs ?s = (fd_refs s1)(i \<mapsto> 1)"
          using fds_fill [OF s1(1) free, of p "zero_fd\<lparr>ref_count := 1, fd_magic := DFS_FD_MAGIC\<rparr>"] new [OF Some] s1(3) by simp_all
        moreover have "i < length (fds s) \<or> grow" using no True i by auto
        ultimately show ?thesis using Some True i s1(2) by (intro exI [of _ i]) simp
      qed
    next
      case False
      then have "i = length (fds s)" "s1 = s" using i(1) max by (auto simp: s1_def)
      then have "fd_new grow new s = Some (-1, s)" unfolding fd_new_def al by simp
      then show ?thesis using False i wf by (intro exI [of _ i]) simp
    qed
  qed
qed

lemma fd_get_spec:
  assumes wf: "fdt_wf s"
  shows "(case if fd < DFS_FD_OFFSET then None else fd_refs s (nat (fd - DFS_FD_OFFSET)) of
      None \<Rightarrow> fd_get fd s = Some (None, s)
    | Some n \<Rightarrow> \<exists>p d. fds s ! nat (fd - DFS_FD_OFFSET) = Some p \<and> fd_store s p = Some d \<and> ref_count d = n \<and>
        fd_get fd s = Some (Some p, set_obj p (d\<lparr>ref_count := n + 1\<rparr>) s) \<and> fdt_wf (set_obj p (d\<lparr>ref_count := n + 1\<rparr>) s) \<and>
        fd_refs (set_obj p (d\<lparr>ref_count := n + 1\<rparr>) s) = (fd_refs s)(nat (fd - DFS_FD_OFFSET) \<mapsto> n + 1))"
proof (cases "fd < DFS_FD_OFFSET \<or> int (length (fds s)) \<le> fd - DFS_FD_OFFSET")
  case True
  then show ?thesis by (auto simp: fd_get_def fd_refs_def Let_def)
next
  case False
  define i where "i = nat (fd - DFS_FD_OFFSET)"
  have "0 \<le> fd - DFS_FD_OFFSET" "fd - DFS_FD_OFFSET < int (length (fds s))" using False by auto
  then have i: "i < length (fds s)" by (simp add: i_def nat_less_iff)
  show ?thesis
  proof (cases "fds s ! i")
    case None
    then show ?thesis using False i by (simp add: fd_get_def fd_refs_def Let_def i_def)
  next
    case (Some p)
    obtain d where d: "fd_store s p = Some d" "0 < ref_count d" "fd_magic d = DFS_FD_MAGIC" using fdt_wfD(2) [OF wf i Some] by blast
    have g: "fd_get fd s = Some (Some p, set_obj p (d\<lparr>ref_count := ref_count d + 1\<rparr>) s)"
      using False Some d by (simp add: fd_get_def Let_def i_def)
    have r: "fd_refs s i = Some (ref_count d)" using i Some d by (simp add: fd_refs_def)
    have "fdt_wf (set_obj p (d\<lparr>ref_count := ref_count d + 1\<rparr>) s)"
      "fd_refs (set_obj p (d\<lparr>ref_count := ref_count d + 1\<rparr>) s) = (fd_refs s)(i \<mapsto> ref_count d + 1)"
      using fdt_wf_update [OF wf i Some, of "d\<lparr>ref_count := ref_count d + 1\<rparr>"] d by simp_all
    then show ?thesis using False g r Some d unfolding i_def [symmetric] by simp
  qed
qed

lemma nth_clear: "xs[i := None] ! j = Some q \<Longrightarrow> j < length xs \<Longrightarrow> j \<noteq> i \<and> xs ! j = Some q"
  by (cases "j = i") simp_all

lemma fd_put_spec:
  assumes wf: "fdt_wf s" and i: "i < length (fds s)" "fds s ! i = Some p" "fd_refs s i = Some n"
  shows "\<exists>s'. fd_put (Some p) s = Some s' \<and> fdt_wf s' \<and> fd_refs s' = (if n = 1 then (fd_refs s)(i := None) else (fd_refs s)(i \<mapsto> n - 1))"
proof -
  obtain d where d: "fd_store s p = Some d" "0 < ref_count d" "fd_magic d = DFS_FD_MAGIC" "ref_count d = n"
    using fdt_wfD(2) [OF wf i(1,2)] i by (auto simp: fd_refs_def)
  show ?thesis
  proof (cases "n = 1")
    case False
    then have "fd_put (Some p) s = Some (set_obj p (d\<lparr>ref_count := n - 1\<rparr>) s)" using d by (simp add: fd_put_def Let_def)
    then show ?thesis using fdt_wf_update [OF wf i(1,2), of "d\<lparr>ref_count := n - 1\<rparr>"] d False by simp
  next
    case True
    have U: "j < length (fds s) \<Longrightarrow> fds s ! j = Some p \<Longrightarrow> j = i" for j using fdt_wfD(3) [OF wf _ i(1) _ i(2)] by blast
    let ?s = "s\<lparr>fd_store := (fd_store s)(p := None), fds := (fds s)[i := None]\<rparr>"
    have "fd_clear p (fds s) = (True, (fds s)[i := None])" using fd_clear_spec [OF i(1,2) U] by blast
    then have "fd_put (Some p) s = Some ?s" using d True by (simp add: fd_put_def Let_def)
    moreover have "fdt_wf ?s"
      unfolding fdt_wf_def
    proof (intro conjI allI impI)
      fix q
      assume q: "fd_store ?s q \<noteq> None"
      then obtain j where j: "j < length (fds s)" "fds s ! j = Some q" "q \<noteq> p" using fdt_wfD(4) [OF wf] by (auto split: if_splits)
      then have "j \<noteq> i" using i by auto
      then show "\<exists>j<length (fds ?s). fds ?s ! j = Some q" using j by (intro exI [of _ j]) simp
    next
      fix j q
      assume j: "j < length (fds ?s) \<and> fds ?s ! j = Some q"
      then have "j \<noteq> i" "fds s ! j = Some q" "j < length (fds s)" by (auto dest: nth_clear)
      moreover have "q \<noteq> p" using calculation U by blast
      ultimately show "\<exists>d. fd_store ?s q = Some d \<and> 0 < ref_count d \<and> fd_magic d = DFS_FD_MAGIC" using fdt_wfD(2) [OF wf] by simp
    qed (use fdt_wfD(1,3) [OF wf] in \<open>auto dest!: nth_clear\<close>)
    moreover have "fd_refs ?s j = ((fd_refs s)(i := None)) j" for j
    proof (cases "j = i \<or> \<not> j < length (fds s) \<or> fds s ! j = None")
      case False
      then obtain q where "fds s ! j = Some q" "q \<noteq> p" using U [of j] by auto
      then show ?thesis using False by (simp add: fd_refs_def)
    qed (auto simp: fd_refs_def)
    ultimately show ?thesis using True by (intro exI [of _ ?s]) auto
  qed
qed

section \<open>Properties\<close>

text \<open>C34: The table of file descriptors refines a map from descriptors to reference counts, and each function keeps its
  invariant: every entry points to a live descriptor of its own, and none is leaked. \<open>fd_new\<close> takes the lowest
  descriptor that is free, with one reference, and fails (with -1) only when all 128 are in use or memory is
  short; \<open>fd_get\<close> adds a reference to a descriptor in use and answers \<^verbatim>\<open>NULL\<close> for any other number; \<open>fd_put\<close> drops
  a reference, and frees the descriptor with the last one.\<close>

theorem fd_table_refines:
  assumes wf: "fdt_wf s" and new: "\<And>p. new = Some p \<Longrightarrow> fd_store s p = None"
  shows "(\<exists>i fd' s'. fd_new grow new s = Some (fd', s') \<and> fdt_wf s' \<and> (\<forall>j<i. fd_refs s j \<noteq> None) \<and> fd_refs s i = None \<and>
      (if i < DFS_FD_MAX \<and> new \<noteq> None \<and> (i < length (fds s) \<or> grow)
       then fd' = int i + DFS_FD_OFFSET \<and> fd_refs s' = (fd_refs s)(i \<mapsto> 1) else fd' = -1 \<and> fd_refs s' = fd_refs s)) \<and>
    (\<exists>r s'. fd_get fd s = Some (r, s') \<and> fdt_wf s' \<and>
      (case if fd < DFS_FD_OFFSET then None else fd_refs s (nat (fd - DFS_FD_OFFSET)) of
         None \<Rightarrow> r = None \<and> s' = s
       | Some n \<Rightarrow> r = fds s ! nat (fd - DFS_FD_OFFSET) \<and> r \<noteq> None \<and> fd_refs s' = (fd_refs s)(nat (fd - DFS_FD_OFFSET) \<mapsto> n + 1))) \<and>
    (\<forall>i n. fd_refs s i = Some n \<longrightarrow> (\<exists>s'. fd_put (fds s ! i) s = Some s' \<and> fdt_wf s' \<and>
      fd_refs s' = (if n = 1 then (fd_refs s)(i := None) else (fd_refs s)(i \<mapsto> n - 1))))"
proof (intro conjI allI impI)
  show "\<exists>i fd' s'. fd_new grow new s = Some (fd', s') \<and> fdt_wf s' \<and> (\<forall>j<i. fd_refs s j \<noteq> None) \<and> fd_refs s i = None \<and>
      (if i < DFS_FD_MAX \<and> new \<noteq> None \<and> (i < length (fds s) \<or> grow)
       then fd' = int i + DFS_FD_OFFSET \<and> fd_refs s' = (fd_refs s)(i \<mapsto> 1) else fd' = -1 \<and> fd_refs s' = fd_refs s)"
    using new by (intro fd_new_spec [OF wf])
  show "\<exists>r s'. fd_get fd s = Some (r, s') \<and> fdt_wf s' \<and>
      (case if fd < DFS_FD_OFFSET then None else fd_refs s (nat (fd - DFS_FD_OFFSET)) of
         None \<Rightarrow> r = None \<and> s' = s
       | Some n \<Rightarrow> r = fds s ! nat (fd - DFS_FD_OFFSET) \<and> r \<noteq> None \<and> fd_refs s' = (fd_refs s)(nat (fd - DFS_FD_OFFSET) \<mapsto> n + 1))"
    using fd_get_spec [OF wf, of fd] wf by (cases "if fd < DFS_FD_OFFSET then None else fd_refs s (nat (fd - DFS_FD_OFFSET))") auto
  fix i n
  assume n: "fd_refs s i = Some n"
  then obtain p where "i < length (fds s)" "fds s ! i = Some p" by (auto simp: fd_refs_def split: if_splits option.splits)
  then show "\<exists>s'. fd_put (fds s ! i) s = Some s' \<and> fdt_wf s' \<and>
      fd_refs s' = (if n = 1 then (fd_refs s)(i := None) else (fd_refs s)(i \<mapsto> n - 1))"
    using fd_put_spec [OF wf _ _ n] by simp
qed

lemma fd_table_refines_witness:
  "(\<exists>i fd' s'. fd_new True (Some 7) (dfs_init ()) = Some (fd', s') \<and> fdt_wf s' \<and> (\<forall>j<i. fd_refs (dfs_init ()) j \<noteq> None) \<and>
      fd_refs (dfs_init ()) i = None \<and>
      (if i < DFS_FD_MAX \<and> Some (7 :: nat) \<noteq> None \<and> (i < length (fds (dfs_init ())) \<or> True)
       then fd' = int i + DFS_FD_OFFSET \<and> fd_refs s' = (fd_refs (dfs_init ()))(i \<mapsto> 1) else fd' = -1 \<and> fd_refs s' = fd_refs (dfs_init ())))"
  using fd_table_refines [of "dfs_init ()" "Some 7" True 3] fdt_wf_init [of "()"] by (simp add: dfs_init_def)

end
