(* ===== verification/Dfs_Path_Props.thy ===== *)
theory Dfs_Path_Props
  imports Dfs_Path
begin

text \<open>
  Correctness of \<open>dfs_normalize_path\<close>: the loop over the buffer computes a fold over the components of the path.
\<close>

section \<open>Components of a path\<close>

text \<open>The pieces of a path between runs of slashes; a slash in front makes the first piece empty.\<close>

function comps :: "8 word list \<Rightarrow> 8 word list list" where
  "comps p = (if p = [] then [] else
     takeWhile (\<lambda>c. c \<noteq> SLASH) p # comps (dropWhile (\<lambda>c. c = SLASH) (dropWhile (\<lambda>c. c \<noteq> SLASH) p)))"
  by auto
termination
proof (relation "measure length", goal_cases)
  case (2 p)
  have "length (dropWhile (\<lambda>c. c = SLASH) (dropWhile (\<lambda>c. c \<noteq> SLASH) p)) \<le> length (dropWhile (\<lambda>c. c \<noteq> SLASH) p)"
    by (rule length_dropWhile_le)
  moreover have "length (dropWhile (\<lambda>c. c = SLASH) (dropWhile (\<lambda>c. c \<noteq> SLASH) p)) < length p"
  proof (cases p)
    case (Cons c cs)
    have "length (dropWhile (\<lambda>c. c = SLASH) cs) \<le> length cs" "length (dropWhile (\<lambda>c. c \<noteq> SLASH) cs) \<le> length cs"
      by (rule length_dropWhile_le)+
    then show ?thesis using Cons length_dropWhile_le [of "\<lambda>c. c = SLASH" "dropWhile (\<lambda>c. c \<noteq> SLASH) cs"] by auto
  qed (use 2 in simp)
  ultimately show ?case by simp
qed simp

declare comps.simps [simp del]

text \<open>The stack of names after the components \<open>cs\<close>: \<open>.\<close> stays, \<open>..\<close> leaves the last name, which must exist.\<close>

fun walk :: "8 word list list \<Rightarrow> 8 word list list \<Rightarrow> 8 word list list option" where
  "walk stk [] = Some stk"
| "walk stk (c # cs) =
     (if c = [DOT] then walk stk cs
      else if c = [DOT, DOT] then (if stk = [] then None else walk (butlast stk) cs)
      else walk (stk @ [c]) cs)"

definition slashed :: "8 word list list \<Rightarrow> 8 word list" where
  "slashed stk = concat (map (\<lambda>c. c @ [SLASH]) stk)"

text \<open>The path with the names of a stack; the root is the stack of one empty name.\<close>

definition path_text :: "8 word list list \<Rightarrow> 8 word list" where
  "path_text stk = (if stk = [[]] then [SLASH] else butlast (slashed stk))"

definition normalized :: "8 word list \<Rightarrow> 8 word list option option" where
  "normalized p = (case walk [] (comps p) of
     None \<Rightarrow> Some None
   | Some stk \<Rightarrow> if stk = [] then None else Some (Some (path_text stk)))"

lemma slashed_simps [simp]:
  "slashed [] = []" "slashed (stk @ [c]) = slashed stk @ c @ [SLASH]" "slashed (c # stk) = c @ SLASH # slashed stk"
  by (simp_all add: slashed_def)

section \<open>The inner loops\<close>

lemma nth_drop_eq: "drop src buf = xs \<Longrightarrow> k < length xs \<Longrightarrow> src + k < length buf \<and> buf ! (src + k) = xs ! k"
  by (metis add.commute less_diff_conv length_drop nth_drop nat_le_linear add_leD1 not_less_iff_gr_or_eq drop_eq_Nil length_0_conv not_less0)

lemma skip_slash_spec:
  "drop src buf = xs @ y # ys \<Longrightarrow> set xs \<subseteq> {SLASH} \<Longrightarrow> y \<noteq> SLASH \<Longrightarrow> skip_slash buf src = Some (src + length xs)"
proof (induction xs arbitrary: src)
  case Nil
  then show ?case using nth_drop_eq [OF Nil.prems(1), of 0] by (subst skip_slash.simps) simp
next
  case (Cons x xs)
  have "drop (Suc src) buf = xs @ y # ys" using Cons.prems(1) by (metis append_Cons drop_Suc list.sel(3) tl_drop)
  then show ?case using Cons.IH [of "Suc src"] Cons.prems nth_drop_eq [OF Cons.prems(1), of 0]
    by (subst skip_slash.simps) simp
qed

lemma copy_name_spec:
  assumes "drop src buf = name @ x # ys" "x = 0 \<or> x = SLASH" "0 \<notin> set name" "SLASH \<notin> set name" "dst \<le> src"
  shows "\<exists>buf'. copy_name buf src dst = Some (buf', x, src + length name + 1, dst + length name) \<and> length buf' = length buf \<and>
    take (dst + length name) buf' = take dst buf @ name \<and> drop (src + length name) buf' = x # ys"
  using assms
proof (induction name arbitrary: buf src dst)
  case Nil
  then show ?case using nth_drop_eq [OF Nil.prems(1), of 0] by (subst copy_name.simps) auto
next
  case (Cons c name)
  have n: "src < length buf" "buf ! src = c" using nth_drop_eq [OF Cons.prems(1), of 0] by simp_all
  let ?buf = "buf[dst := c]"
  have "drop (Suc src) buf = name @ x # ys" using Cons.prems(1) by (metis append_Cons drop_Suc list.sel(3) tl_drop)
  then have "drop (Suc src) ?buf = name @ x # ys" using Cons.prems(5) by simp
  then obtain buf' where b: "copy_name ?buf (Suc src) (Suc dst) = Some (buf', x, Suc src + length name + 1, Suc dst + length name)"
    "length buf' = length ?buf" "take (Suc dst + length name) buf' = take (Suc dst) ?buf @ name"
    "drop (Suc src + length name) buf' = x # ys"
    using Cons.IH [of "Suc src" ?buf "Suc dst"] Cons.prems by auto
  have "take (Suc dst) ?buf = take dst buf @ [c]" using n Cons.prems(5) by (simp add: take_Suc_conv_app_nth)
  then show ?case using b n Cons.prems by (subst copy_name.simps) (simp add: Let_def)
qed

text \<open>One name copied: \<open>rest\<close> is what is left to read, \<open>junk\<close> what follows the terminating 0.\<close>

abbreviation name_of :: "8 word list \<Rightarrow> 8 word list" where "name_of rest \<equiv> takeWhile (\<lambda>c. c \<noteq> SLASH) rest"
abbreviation after :: "8 word list \<Rightarrow> 8 word list" where "after rest \<equiv> dropWhile (\<lambda>c. c \<noteq> SLASH) rest"
abbreviation next_of :: "8 word list \<Rightarrow> 8 word list" where "next_of rest \<equiv> dropWhile (\<lambda>c. c = SLASH) (after rest)"

lemma rest_split:
  "rest = name_of rest @ after rest" "SLASH \<notin> set (name_of rest)" "after rest = [] \<or> (\<exists>more. after rest = SLASH # more)"
proof -
  show "after rest = [] \<or> (\<exists>more. after rest = SLASH # more)"
    using hd_dropWhile [of "\<lambda>c. c \<noteq> SLASH" rest] by (cases "after rest") auto
qed (auto dest: set_takeWhileD)

lemma skip_rest:
  assumes "drop src buf = xs @ 0 # junk" "0 \<notin> set xs"
  shows "\<exists>s. skip_slash buf src = Some s \<and> drop s buf = dropWhile (\<lambda>c. c = SLASH) xs @ 0 # junk \<and> src \<le> s"
proof -
  define a b where "a = takeWhile (\<lambda>c. c = SLASH) xs" and "b = dropWhile (\<lambda>c. c = SLASH) xs"
  have xs: "xs = a @ b" by (simp add: a_def b_def)
  obtain y ys where y: "b @ 0 # junk = y # ys" "y \<noteq> SLASH"
  proof (cases b)
    case (Cons y ys)
    then have "y \<noteq> SLASH" using hd_dropWhile [of "\<lambda>c. c = SLASH" xs] unfolding b_def [symmetric] by auto
    then show ?thesis using that [of y "ys @ 0 # junk"] Cons by simp
  qed (use that [of 0 junk] in simp)
  have a: "set a \<subseteq> {SLASH}" by (auto simp: a_def dest: set_takeWhileD)
  have "drop src buf = a @ y # ys" using assms xs y by simp
  then have "skip_slash buf src = Some (src + length a)" using a y(2) by (intro skip_slash_spec)
  moreover have "drop (src + length a) buf = y # ys"
    using \<open>drop src buf = a @ y # ys\<close> by (metis add.commute append_eq_conv_conj drop_drop)
  ultimately show ?thesis using y by (auto simp: b_def)
qed

lemma copy_up_spec:
  assumes "drop src buf = rest @ 0 # junk" "0 \<notin> set rest" "dst \<le> src"
  shows "(after rest = [] \<and> (\<exists>buf'. copy_up buf src dst = Some (Break buf' (dst + length (name_of rest))) \<and> length buf' = length buf \<and>
        take (dst + length (name_of rest)) buf' = take dst buf @ name_of rest \<and> dst + length (name_of rest) < length buf)) \<or>
    (after rest \<noteq> [] \<and> (\<exists>buf' s. copy_up buf src dst = Some (Again buf' s (dst + length (name_of rest) + 1)) \<and> length buf' = length buf \<and>
        take (dst + length (name_of rest) + 1) buf' = take dst buf @ name_of rest @ [SLASH] \<and>
        drop s buf' = next_of rest @ 0 # junk \<and> dst + length (name_of rest) + 1 \<le> s))"
proof -
  let ?n = "name_of rest"
  have len: "length buf = src + length rest + Suc (length junk)"
    using arg_cong [OF assms(1), of length] by (cases "src \<le> length buf") simp_all
  have z: "0 \<notin> set ?n" using assms(2) by (auto dest: set_takeWhileD)
  show ?thesis
  proof (cases "after rest")
    case Nil
    then have "rest = ?n" using rest_split(1) [of rest] by (metis append_Nil2)
    then have "drop src buf = ?n @ 0 # junk" using assms(1) by metis
    then obtain buf' where "copy_name buf src dst = Some (buf', 0, src + length ?n + 1, dst + length ?n)" "length buf' = length buf"
      "take (dst + length ?n) buf' = take dst buf @ ?n"
      using copy_name_spec [of src buf ?n 0 junk dst] z rest_split(2) assms(3) by auto
    then show ?thesis using Nil assms(3) len length_takeWhile_le [of "\<lambda>c. c \<noteq> SLASH" rest] by (auto simp: copy_up_def)
  next
    case (Cons c more)
    then have c: "after rest = SLASH # more" using rest_split(3) [of rest] by auto
    then have r: "rest = ?n @ SLASH # more" using rest_split(1) [of rest] by simp
    then have "drop src buf = ?n @ SLASH # more @ 0 # junk" using assms(1) by (metis append_Cons append_assoc)
    then obtain buf' where b: "copy_name buf src dst = Some (buf', SLASH, src + length ?n + 1, dst + length ?n)" "length buf' = length buf"
      "take (dst + length ?n) buf' = take dst buf @ ?n" "drop (src + length ?n) buf' = SLASH # more @ 0 # junk"
      using copy_name_spec [of src buf ?n SLASH "more @ 0 # junk" dst] z rest_split(2) assms(3) by auto
    let ?b = "buf'[dst + length ?n := SLASH]"
    have lt: "dst + length ?n < length buf'" using b(2) len assms(3) arg_cong [OF r, of length] by simp
    have "drop (src + length ?n + 1) buf' = more @ 0 # junk" using b(4) by (metis Suc_eq_plus1 drop_Suc list.sel(3) tl_drop)
    then have "drop (src + length ?n + 1) ?b = more @ 0 # junk" using assms(3) by simp
    moreover have "0 \<notin> set more" using assms(2) arg_cong [OF r, of set] by auto
    ultimately obtain s where s: "skip_slash ?b (src + length ?n + 1) = Some s"
      "drop s ?b = dropWhile (\<lambda>c. c = SLASH) more @ 0 # junk" "src + length ?n + 1 \<le> s"
      using skip_rest by blast
    have "take (dst + length ?n + 1) ?b = take dst buf @ ?n @ [SLASH]" using lt b(3) by (simp add: take_Suc_conv_app_nth)
    then show ?thesis using b s c lt assms(3) by (simp add: copy_up_def Let_def)
  qed
qed

lemma back_up_spec:
  "take d buf = xs @ name \<Longrightarrow> d \<le> length buf \<Longrightarrow> SLASH \<notin> set name \<Longrightarrow> xs = [] \<or> last xs = SLASH \<Longrightarrow> back_up buf d = length xs"
proof (induction name arbitrary: d rule: rev_induct)
  case Nil
  show ?case
  proof (cases d)
    case (Suc e)
    then have "xs = take e buf @ [buf ! e]" using Nil by (simp add: take_Suc_conv_app_nth)
    then show ?thesis using Nil Suc by auto
  qed (use Nil in simp)
next
  case (snoc c name)
  have "d = Suc (length xs + length name)" using snoc.prems(2) arg_cong [OF snoc.prems(1), of length] by simp
  moreover have "take (length xs + length name) buf @ [buf ! (length xs + length name)] = (xs @ name) @ [c]"
    using snoc.prems calculation by (simp add: take_Suc_conv_app_nth [symmetric])
  ultimately show ?case using snoc.IH [of "length xs + length name"] snoc.prems by auto
qed

section \<open>The loop\<close>

definition names_ok :: "8 word list list \<Rightarrow> bool" where
  "names_ok stk \<longleftrightarrow> (\<forall>c\<in>set stk. SLASH \<notin> set c \<and> 0 \<notin> set c)"

lemma names_ok_simps [simp]: "names_ok []" "names_ok (stk @ [c]) \<longleftrightarrow> names_ok stk \<and> SLASH \<notin> set c \<and> 0 \<notin> set c"
  by (auto simp: names_ok_def)

lemma slashed_end: "stk = [] \<or> last (slashed stk) = SLASH"
  by (cases stk rule: rev_cases) simp_all

lemma slashed_nil: "slashed stk = [] \<longleftrightarrow> stk = []"
  by (cases stk rule: rev_cases) simp_all

text \<open>What the loop leaves for the stack \<open>stk\<close>: the last name may lack its slash.\<close>

definition loop_out :: "nat \<Rightarrow> 8 word list list \<Rightarrow> (8 word list \<times> nat) option \<Rightarrow> bool" where
  "loop_out n stk r \<longleftrightarrow> (\<exists>buf d. r = Some (buf, d) \<and> length buf = n \<and> d < n \<and>
     (take d buf = slashed stk \<or> stk \<noteq> [] \<and> last stk \<noteq> [] \<and> take d buf = butlast (slashed stk)))"

text \<open>What a round does with the next component.\<close>

lemma round_plain:
  assumes "drop src buf = rest @ 0 # junk" "name_of rest \<noteq> [DOT]" "name_of rest \<noteq> [DOT, DOT]" "0 \<notin> set rest"
  shows "path_round buf src dst = copy_up buf src dst"
proof -
  have N: "k \<le> length rest \<Longrightarrow> src + k < length buf \<and> buf ! (src + k) = (rest @ 0 # junk) ! k" for k
    using nth_drop_eq [OF assms(1)] by simp
  show ?thesis
  proof (cases rest)
    case Nil
    then show ?thesis using N [of 0] by (simp add: path_round_def)
  next
    case c: (Cons c r1)
    show ?thesis
    proof (cases "c = DOT")
      case True
      then obtain d r2 where d: "r1 = d # r2" "d \<noteq> SLASH" using assms(2) c by (cases r1) (auto split: if_splits)
      show ?thesis
      proof (cases "d = DOT")
        case t: True
        then obtain e r3 where "r2 = e # r3" "e \<noteq> SLASH" using True assms(3) c d by (cases r2) (auto split: if_splits)
        then show ?thesis using N [of 0] N [of 1] N [of 2] c d True t assms(4) by (simp add: path_round_def)
      next
        case False
        then show ?thesis using N [of 0] N [of 1] c d True assms(4) by (simp add: path_round_def)
      qed
    next
      case False
      then show ?thesis using N [of 0] c by (simp add: path_round_def)
    qed
  qed
qed

lemma round_dot:
  assumes "drop src buf = rest @ 0 # junk" "name_of rest = [DOT]" "0 \<notin> set rest" "dst \<le> src"
  shows "(after rest = [] \<and> (\<exists>buf'. path_round buf src dst = Some (Break buf' dst) \<and> length buf' = length buf \<and>
        take dst buf' = take dst buf \<and> dst < length buf)) \<or>
    (\<exists>s. path_round buf src dst = Some (Again buf s dst) \<and> drop s buf = next_of rest @ 0 # junk \<and> dst \<le> s)"
proof -
  have N: "k \<le> length rest \<Longrightarrow> src + k < length buf \<and> buf ! (src + k) = (rest @ 0 # junk) ! k" for k
    using nth_drop_eq [OF assms(1)] by simp
  have r: "rest = DOT # after rest" using rest_split(1) [of rest] assms(2) by simp
  show ?thesis
  proof (cases "after rest")
    case Nil
    then have r: "rest = [DOT]" using r by metis
    then have "drop (src + 1) buf = [] @ 0 # junk" using assms(1) by (metis append_Cons append_Nil drop_Suc list.sel(3) tl_drop Suc_eq_plus1)
    then show ?thesis using copy_up_spec [of "src + 1" buf "[]" junk dst] N [of 0] N [of 1] r assms(4)
      by (simp add: path_round_def)
  next
    case (Cons c more)
    then have c: "rest = DOT # SLASH # more" using r rest_split(3) [of rest] by auto
    have "drop (src + 2) buf = drop 2 (drop src buf)" by (simp add: add.commute)
    then have "drop (src + 2) buf = more @ 0 # junk" unfolding assms(1) by (subst (asm) c) simp
    then obtain s where "skip_slash buf (src + 2) = Some s" "drop s buf = dropWhile (\<lambda>c. c = SLASH) more @ 0 # junk" "src + 2 \<le> s"
      using skip_rest [of "src + 2" buf more junk] assms(3) c by auto
    then show ?thesis using N [of 0] N [of 1] c assms(4) by (simp add: path_round_def)
  qed
qed

lemma round_dotdot:
  assumes "drop src buf = rest @ 0 # junk" "name_of rest = [DOT, DOT]" "0 \<notin> set rest"
  shows "\<exists>s. path_round buf src dst = Some (up_one buf s dst) \<and> drop s buf = next_of rest @ 0 # junk \<and> src \<le> s"
proof -
  have N: "k \<le> length rest \<Longrightarrow> src + k < length buf \<and> buf ! (src + k) = (rest @ 0 # junk) ! k" for k
    using nth_drop_eq [OF assms(1)] by simp
  have r: "rest = DOT # DOT # after rest" using rest_split(1) [of rest] assms(2) by simp
  show ?thesis
  proof (cases "after rest")
    case Nil
    then have c: "rest = [DOT, DOT]" using r by metis
    have "drop (src + 2) buf = drop 2 (drop src buf)" by (simp add: add.commute)
    then have "drop (src + 2) buf = 0 # junk" unfolding assms(1) by (subst (asm) c) simp
    then show ?thesis using N [of 0] N [of 1] N [of 2] c by (auto simp: path_round_def)
  next
    case (Cons c more)
    then have c: "rest = DOT # DOT # SLASH # more" using r rest_split(3) [of rest] by auto
    have "drop (src + 3) buf = drop 3 (drop src buf)" by (simp add: add.commute)
    then have "drop (src + 3) buf = more @ 0 # junk" unfolding assms(1) by (subst (asm) c) simp
    then obtain s where "skip_slash buf (src + 3) = Some s" "drop s buf = dropWhile (\<lambda>c. c = SLASH) more @ 0 # junk" "src + 3 \<le> s"
      using skip_rest [of "src + 3" buf more junk] assms(3) c by auto
    then show ?thesis using N [of 0] N [of 1] N [of 2] c by (auto simp: path_round_def)
  qed
qed

lemma up_one_spec:
  assumes "take dst buf = slashed (stk @ [c])" "dst \<le> length buf" "SLASH \<notin> set c"
  shows "up_one buf s dst = Again buf s (length (slashed stk))" "take (length (slashed stk)) buf = slashed stk"
    "length (slashed stk) < dst"
proof -
  have d: "dst = Suc (length (slashed stk @ c))" using arg_cong [OF assms(1), of length] assms(2) by simp
  have t: "take (length (slashed stk @ c)) buf = slashed stk @ c"
    using arg_cong [OF assms(1), of "take (length (slashed stk @ c))"] d by (simp add: min_def)
  show "up_one buf s dst = Again buf s (length (slashed stk))"
    using back_up_spec [OF t _ assms(3)] slashed_end [of stk] slashed_nil [of stk] d assms(2) by (auto simp: up_one_def)
  show "take (length (slashed stk)) buf = slashed stk"
    using arg_cong [OF t, of "take (length (slashed stk))"] by (simp add: min_def)
  show "length (slashed stk) < dst" using d by simp
qed

lemma comps_Nil [simp]: "comps [] = []" by (simp add: comps.simps)

lemma comps_rest: "rest \<noteq> [] \<Longrightarrow> comps rest = name_of rest # comps (next_of rest)"
  by (subst comps.simps) simp

lemma next_of_shorter: "rest \<noteq> [] \<Longrightarrow> length (next_of rest) < length rest"
proof -
  assume "rest \<noteq> []"
  then obtain c cs where r: "rest = c # cs" by (cases rest) auto
  have "length (dropWhile (\<lambda>c. c = SLASH) cs) \<le> length cs" "length (after cs) \<le> length cs"
    "length (next_of cs) \<le> length (after cs)" by (rule length_dropWhile_le)+
  then show ?thesis using r by auto
qed

lemma zero_next_of: "0 \<notin> set rest \<Longrightarrow> 0 \<notin> set (next_of rest)"
  by (auto dest!: set_dropWhileD)

lemma path_loop_round:
  "path_round buf src dst = Some Return_null \<Longrightarrow> path_loop buf src dst = Some None"
  "path_round buf src dst = Some (Break b d) \<Longrightarrow> path_loop buf src dst = Some (Some (b, d))"
  "path_round buf src dst = Some (Again b s d) \<Longrightarrow> path_loop buf src dst = path_loop b s d"
  by (subst path_loop.simps, simp)+

lemma after_Nil: "after rest = [] \<Longrightarrow> comps (next_of rest) = []" by (simp del: dropWhile_eq_Nil_conv)

text \<open>Where the loop stands: \<open>rest\<close> is still to be read, the names of \<open>stk\<close> have been written.\<close>

definition path_at :: "8 word list \<Rightarrow> nat \<Rightarrow> nat \<Rightarrow> 8 word list \<Rightarrow> 8 word list \<Rightarrow> 8 word list list \<Rightarrow> bool" where
  "path_at buf src dst rest junk stk \<longleftrightarrow> drop src buf = rest @ 0 # junk \<and> 0 \<notin> set rest \<and> take dst buf = slashed stk \<and> dst \<le> src \<and> names_ok stk"

text \<open>What a round does: it goes on with the next name, fails, or ends the loop.\<close>

definition loop_ends :: "8 word list \<Rightarrow> nat \<Rightarrow> nat \<Rightarrow> 8 word list list option \<Rightarrow> bool" where
  "loop_ends buf src dst res \<longleftrightarrow> (case res of
      None \<Rightarrow> path_loop buf src dst = Some None
    | Some stk' \<Rightarrow> \<exists>r. path_loop buf src dst = Some r \<and> loop_out (length buf) stk' r \<and> names_ok stk')"

definition round_ok :: "8 word list \<Rightarrow> nat \<Rightarrow> nat \<Rightarrow> 8 word list \<Rightarrow> 8 word list \<Rightarrow> 8 word list list \<Rightarrow> bool" where
  "round_ok buf src dst rest junk stk \<longleftrightarrow> loop_ends buf src dst (walk stk (comps rest)) \<or>
    (\<exists>buf' s d stk'. path_loop buf src dst = path_loop buf' s d \<and> length buf' = length buf \<and>
       walk stk (comps rest) = walk stk' (comps (next_of rest)) \<and> path_at buf' s d (next_of rest) junk stk')"

lemma round_againI:
  assumes "path_round buf src dst = Some (Again buf' s d)" "length buf' = length buf" "walk stk (comps rest) = walk stk' (comps (next_of rest))"
    "drop s buf' = next_of rest @ 0 # junk" "0 \<notin> set rest" "take d buf' = slashed stk'" "d \<le> s" "names_ok stk'"
  shows "round_ok buf src dst rest junk stk"
  unfolding round_ok_def path_at_def
  using assms(2-4,6-8) zero_next_of [OF assms(5)] path_loop_round(3) [OF assms(1)] by blast

lemma round_endI:
  assumes "path_round buf src dst = Some (Break buf' d)" "walk stk (comps rest) = Some stk'" "loop_out (length buf) stk' (Some (buf', d))"
    "names_ok stk'"
  shows "round_ok buf src dst rest junk stk"
  using assms(2-4) path_loop_round(2) [OF assms(1)] by (simp add: round_ok_def loop_ends_def)

lemma round_dot_ok:
  assumes at: "path_at buf src dst rest junk stk" and n: "rest \<noteq> []" "name_of rest = [DOT]"
  shows "round_ok buf src dst rest junk stk"
proof -
  note P = at [unfolded path_at_def]
  note c = comps_rest [OF n(1)]
  have P': "drop src buf = rest @ 0 # junk" "0 \<notin> set rest" "dst \<le> src" using P by simp_all
  from round_dot [OF P'(1) n(2) P'(2,3)] show ?thesis
  proof (elim disjE conjE exE)
    fix buf'
    assume a: "after rest = []" "path_round buf src dst = Some (Break buf' dst)" "length buf' = length buf"
      "take dst buf' = take dst buf" "dst < length buf"
    have "walk stk (comps rest) = Some stk" unfolding c after_Nil [OF a(1)] n by simp
    from round_endI [OF a(2) this] show ?thesis using a(3-5) P by (simp add: loop_out_def)
  next
    fix s
    assume a: "path_round buf src dst = Some (Again buf s dst)" "drop s buf = next_of rest @ 0 # junk" "dst \<le> s"
    have "walk stk (comps rest) = walk stk (comps (next_of rest))" unfolding c n by simp
    from round_againI [OF a(1) refl this a(2)] show ?thesis using a(3) P by blast
  qed
qed

lemma round_dotdot_ok:
  assumes at: "path_at buf src dst rest junk stk" and n: "rest \<noteq> []" "name_of rest = [DOT, DOT]"
  shows "round_ok buf src dst rest junk stk"
proof -
  have P: "drop src buf = rest @ 0 # junk" "0 \<notin> set rest" "take dst buf = slashed stk" "dst \<le> src" "names_ok stk"
    using at by (simp_all add: path_at_def)
  note c = comps_rest [OF n(1)]
  have src: "src < length buf" using nth_drop_eq [OF P(1), of 0] by simp
  obtain s where s: "path_round buf src dst = Some (up_one buf s dst)" "drop s buf = next_of rest @ 0 # junk" "src \<le> s"
    using round_dotdot [OF P(1) n(2) P(2)] by blast
  show ?thesis
  proof (cases stk rule: rev_cases)
    case Nil
    then have "dst = 0" using P(3) src by auto
    then have "path_loop buf src dst = Some None" using s(1) by (intro path_loop_round(1)) (simp add: up_one_def)
    then show ?thesis unfolding round_ok_def loop_ends_def c n Nil by simp
  next
    case (snoc ys m)
    have m: "names_ok ys" "SLASH \<notin> set m" using P(5) snoc by simp_all
    have dst: "dst \<le> length buf" using P(4) src by simp
    note u = up_one_spec [OF P(3) [unfolded snoc] dst m(2)]
    have "length (slashed ys) \<le> s" using u(3) s(3) P(4) by simp
    moreover have "walk stk (comps rest) = walk ys (comps (next_of rest))" unfolding c n snoc by simp
    ultimately show ?thesis using round_againI [OF s(1) [unfolded u(1)] refl _ s(2) P(2) u(2) _ m(1)] by blast
  qed
qed

lemma round_name_ok:
  assumes at: "path_at buf src dst rest junk stk" and n: "rest \<noteq> []" "name_of rest \<noteq> [DOT]" "name_of rest \<noteq> [DOT, DOT]"
  shows "round_ok buf src dst rest junk stk"
proof -
  have P: "drop src buf = rest @ 0 # junk" "0 \<notin> set rest" "take dst buf = slashed stk" "dst \<le> src" "names_ok stk"
    using at by (simp_all add: path_at_def)
  have w: "walk stk (comps rest) = walk (stk @ [name_of rest]) (comps (next_of rest))" unfolding comps_rest [OF n(1)] using n(2,3) by simp
  have p: "path_round buf src dst = copy_up buf src dst" by (rule round_plain [OF P(1) n(2,3) P(2)])
  have "SLASH \<notin> set (name_of rest)" "0 \<notin> set (name_of rest)" using P(2) by (auto dest: set_takeWhileD)
  then have ok: "names_ok (stk @ [name_of rest])" using P(5) by simp
  from copy_up_spec [OF P(1,2,4)] show ?thesis
  proof (elim disjE conjE exE)
    fix buf'
    assume a: "after rest = []" "copy_up buf src dst = Some (Break buf' (dst + length (name_of rest)))" "length buf' = length buf"
      "take (dst + length (name_of rest)) buf' = take dst buf @ name_of rest" "dst + length (name_of rest) < length buf"
    have "rest = name_of rest" using rest_split(1) [of rest] a(1) by (metis append_Nil2)
    then have "name_of rest \<noteq> []" using n(1) by metis
    then have "loop_out (length buf) (stk @ [name_of rest]) (Some (buf', dst + length (name_of rest)))"
      using a(3-5) P(3) unfolding loop_out_def by (simp add: butlast_append)
    moreover have "walk stk (comps rest) = Some (stk @ [name_of rest])" unfolding w after_Nil [OF a(1)] by simp
    ultimately show ?thesis using round_endI [OF p [unfolded a(2)]] ok by blast
  next
    fix buf' s
    assume a: "copy_up buf src dst = Some (Again buf' s (dst + length (name_of rest) + 1))" "length buf' = length buf"
      "take (dst + length (name_of rest) + 1) buf' = take dst buf @ name_of rest @ [SLASH]"
      "drop s buf' = next_of rest @ 0 # junk" "dst + length (name_of rest) + 1 \<le> s"
    have t: "take (dst + length (name_of rest) + 1) buf' = slashed (stk @ [name_of rest])" using a(3) P(3) by simp
    show ?thesis by (rule round_againI [OF p [unfolded a(1)] a(2) w a(4) P(2) t a(5) ok])
  qed
qed

lemma round_last_ok:
  assumes at: "path_at buf src dst [] junk stk"
  shows "loop_ends buf src dst (walk stk (comps []))"
proof -
  have P: "drop src buf = [] @ 0 # junk" "0 \<notin> set []" "take dst buf = slashed stk" "dst \<le> src" "names_ok stk"
    using at by (simp_all add: path_at_def)
  obtain buf' where b: "path_round buf src dst = Some (Break buf' dst)" "length buf' = length buf" "take dst buf' = take dst buf" "dst < length buf"
    using round_plain [OF P(1)] copy_up_spec [OF P(1,2,4)] by auto
  then show ?thesis using P path_loop_round(2) [OF b(1)] by (simp add: loop_ends_def loop_out_def)
qed

lemma path_loop_ends:
  assumes "path_at buf src dst rest junk stk"
  shows "loop_ends buf src dst (walk stk (comps rest))"
  using assms
proof (induction "length rest" arbitrary: rest buf src dst stk rule: less_induct)
  case less
  show ?case
  proof (cases "rest = []")
    case True
    then show ?thesis using round_last_ok less.prems by simp
  next
    case False
    then have "round_ok buf src dst rest junk stk"
      using round_dot_ok [OF less.prems] round_dotdot_ok [OF less.prems] round_name_ok [OF less.prems] by blast
    then show ?thesis
      unfolding round_ok_def
    proof (elim disjE exE conjE)
      fix buf' s d stk'
      assume a: "path_loop buf src dst = path_loop buf' s d" "length buf' = length buf"
        "walk stk (comps rest) = walk stk' (comps (next_of rest))" "path_at buf' s d (next_of rest) junk stk'"
      from less.hyps [OF next_of_shorter [OF False] a(4)] show ?thesis unfolding loop_ends_def a(1-3) .
    qed
  qed
qed

lemma path_loop_spec:
  assumes "drop src buf = rest @ 0 # junk" "0 \<notin> set rest" "take dst buf = slashed stk" "dst \<le> src" "names_ok stk"
  shows "case walk stk (comps rest) of
      None \<Rightarrow> path_loop buf src dst = Some None
    | Some stk' \<Rightarrow> \<exists>r. path_loop buf src dst = Some r \<and> loop_out (length buf) stk' r \<and> names_ok stk'"
  using path_loop_ends [of buf src dst rest junk stk] assms unfolding path_at_def loop_ends_def by simp

section \<open>The whole function\<close>

lemma c_string_take:
  assumes "k < length buf" "buf ! k = 0" "0 \<notin> set (take k buf)"
  shows "c_string buf = take k buf"
proof -
  have "buf = take k buf @ buf ! k # drop (Suc k) buf" using assms(1) by (rule id_take_nth_drop)
  moreover have "takeWhile (\<lambda>c. c \<noteq> 0) (take k buf @ 0 # drop (Suc k) buf) = take k buf"
    using assms(3) by (subst takeWhile_append2) auto
  ultimately show ?thesis using assms(2) unfolding c_string_def by metis
qed

lemma slashed_zero: "names_ok stk \<Longrightarrow> 0 \<notin> set (slashed stk)"
  by (auto simp: slashed_def names_ok_def)

lemma normalize_buf_spec:
  assumes "0 \<notin> set p"
  shows "normalize_buf (p @ [0]) = normalized p"
proof (cases "walk [] (comps p)")
  case None
  then show ?thesis using path_loop_spec [of 0 "p @ [0]" p "[]" 0 "[]"] assms by (simp add: normalize_buf_def normalized_def)
next
  case (Some stk)
  then obtain buf d where l: "path_loop (p @ [0]) 0 0 = Some (Some (buf, d))" "length buf = length p + 1" "d < length p + 1"
    and out: "take d buf = slashed stk \<or> stk \<noteq> [] \<and> last stk \<noteq> [] \<and> take d buf = butlast (slashed stk)" and ok: "names_ok stk"
    using path_loop_spec [of 0 "p @ [0]" p "[]" 0 "[]"] assms by (auto simp: loop_out_def)
  have z: "0 \<notin> set (slashed stk)" "0 \<notin> set (butlast (slashed stk))" using slashed_zero [OF ok] by (auto dest: in_set_butlastD)
  define buf1 where "buf1 = buf[d := 0]"
  have b1: "take d buf1 = take d buf" "buf1 ! d = 0" "length buf1 = length buf" using l by (simp_all add: buf1_def)
  have n: "normalize_buf (p @ [0]) = (if d = 0 then None
      else (let buf2 = (if d - 1 \<noteq> 0 \<and> buf1 ! (d - 1) = SLASH then buf1[d - 1 := 0] else buf1)
            in if buf2 ! 0 = 0 then (if 1 < length buf2 then Some (Some (c_string (buf2[0 := SLASH, 1 := 0]))) else None)
               else Some (Some (c_string buf2))))"
    using l by (simp add: normalize_buf_def buf1_def Let_def)
  show ?thesis
  proof (cases "stk = []")
    case True
    then have "d = 0" using out l by auto
    then show ?thesis using n Some True by (simp add: normalized_def)
  next
    case False
    then obtain ys c where stk: "stk = ys @ [c]" by (cases stk rule: rev_cases) auto
    have dl: "length (take d buf) = d" using l by simp
    have c0: "buf1 ! 0 \<noteq> 0" if "d \<noteq> 0" using that out z b1(1) dl nth_mem [of 0 "take d buf"] by (metis gr0I nth_take)
    show ?thesis
    proof (cases "take d buf = slashed stk")
      case True
      then have d: "d = Suc (length (slashed ys @ c))" using dl stk by simp
      have last: "buf1 ! (d - 1) = SLASH"
        using arg_cong [OF True, of "\<lambda>xs. xs ! (d - 1)"] b1(1) d stk by (metis append_assoc diff_Suc_1 lessI nth_append_length nth_take slashed_simps(2))
      show ?thesis
      proof (cases "d = 1")
        case one: True
        then have "stk = [[]]" using d stk slashed_nil [of ys] by simp
        moreover have "c_string buf1 = take d buf1" using b1 l True z by (intro c_string_take) auto
        ultimately show ?thesis using n Some one c0 b1 True by (simp add: normalized_def path_text_def)
      next
        case two: False
        then have d1: "d - 1 \<noteq> 0" using d by simp
        let ?b = "buf1[d - 1 := 0]"
        have t: "take (d - 1) ?b = butlast (slashed stk)"
          using arg_cong [OF True, of butlast] dl l by (simp add: butlast_take buf1_def)
        then have "c_string ?b = butlast (slashed stk)" using l b1(3) z d1 by (subst c_string_take [of "d - 1"]) auto
        moreover have "?b ! 0 \<noteq> 0" using c0 d1 by simp
        moreover have "stk \<noteq> [[]]" using two d stk by auto
        ultimately show ?thesis using n Some False d1 last by (simp add: normalized_def path_text_def)
      qed
    next
      case False
      then have t: "take d buf = slashed ys @ c" "c \<noteq> []" using out stk by (simp_all add: butlast_append)
      have d: "d = length (slashed ys @ c)" "d \<noteq> 0" using dl t by auto
      have "SLASH \<notin> set c" using ok stk by simp
      then have last: "buf1 ! (d - 1) \<noteq> SLASH"
        using t b1(1) d l last_conv_nth [of "take d buf1"] last_in_set [OF t(2)] by (metis append_is_Nil_conv diff_less dl last_appendR less_numeral_extra(1) gr0I nth_take)
      have "c_string buf1 = take d buf1" using b1 l z out t False by (intro c_string_take) auto
      moreover have "stk \<noteq> [[]]" using stk t by auto
      ultimately show ?thesis using n Some d c0 b1 last t stk by (simp add: normalized_def path_text_def butlast_append)
    qed
  qed
qed

section \<open>Absolute paths\<close>

text \<open>A walk from the root, \<open>d\<close> names below it, that never leaves the root.\<close>

fun inside :: "nat \<Rightarrow> 8 word list list \<Rightarrow> bool" where
  "inside d [] \<longleftrightarrow> True"
| "inside d (c # cs) \<longleftrightarrow>
     (if c = [DOT] then inside d cs
      else if c = [DOT, DOT] then 0 < d \<and> inside (d - 1) cs
      else inside (Suc d) cs)"

definition plain :: "8 word list \<Rightarrow> bool" where
  "plain c \<longleftrightarrow> c \<noteq> [] \<and> c \<noteq> [DOT] \<and> c \<noteq> [DOT, DOT] \<and> SLASH \<notin> set c \<and> 0 \<notin> set c"

lemma next_of_comps: "0 \<notin> set p \<Longrightarrow> p = [] \<or> hd p \<noteq> SLASH \<Longrightarrow> \<forall>c\<in>set (comps p). c \<noteq> [] \<and> SLASH \<notin> set c \<and> 0 \<notin> set c"
proof (induction p rule: comps.induct)
  case (1 p)
  show ?case
  proof (cases "p = []")
    case False
    have "next_of p = [] \<or> hd (next_of p) \<noteq> SLASH" using hd_dropWhile [of "\<lambda>c. c = SLASH" "after p"] by blast
    then have "\<forall>c\<in>set (comps (next_of p)). c \<noteq> [] \<and> SLASH \<notin> set c \<and> 0 \<notin> set c"
      using "1.IH" [OF False] zero_next_of [OF "1.prems"(1)] by blast
    moreover have "name_of p \<noteq> [] \<and> SLASH \<notin> set (name_of p) \<and> 0 \<notin> set (name_of p)"
      using False "1.prems" by (cases p) (auto dest: set_takeWhileD)
    ultimately show ?thesis unfolding comps_rest [OF False] by simp
  qed simp
qed

lemma walk_inside:
  "inside (length ns) cs \<Longrightarrow> \<forall>c\<in>set cs. c \<noteq> [] \<and> SLASH \<notin> set c \<and> 0 \<notin> set c \<Longrightarrow> \<forall>c\<in>set ns. plain c \<Longrightarrow>
   \<exists>ns'. walk ([] # ns) cs = Some ([] # ns') \<and> (\<forall>c\<in>set ns'. plain c)"
proof (induction cs arbitrary: ns)
  case (Cons c cs)
  consider "c = [DOT]" | "c = [DOT, DOT]" | "c \<noteq> [DOT]" "c \<noteq> [DOT, DOT]" by blast
  then show ?case
  proof cases
    case 2
    then have "ns \<noteq> []" "inside (length (butlast ns)) cs" using Cons.prems(1) by auto
    then show ?thesis using Cons.IH [of "butlast ns"] Cons.prems 2 by (auto dest: in_set_butlastD)
  next
    case 3
    then have "inside (length (ns @ [c])) cs" "\<forall>c\<in>set (ns @ [c]). plain c" using Cons.prems by (auto simp: plain_def)
    then show ?thesis using Cons.IH [of "ns @ [c]"] Cons.prems 3 by simp
  qed (use Cons in simp)
qed simp

lemma walk_plain: "\<forall>c\<in>set ns. plain c \<Longrightarrow> walk stk ns = Some (stk @ ns)"
  by (induction ns arbitrary: stk) (auto simp: plain_def)

lemma comps_name:
  assumes "plain c"
  shows "comps (c @ SLASH # q) = c # comps (dropWhile (\<lambda>c. c = SLASH) q)" "comps c = [c]"
proof -
  have m: "x \<in> set c \<Longrightarrow> x \<noteq> SLASH" for x using assms by (auto simp: plain_def)
  have "takeWhile (\<lambda>c. c \<noteq> SLASH) (c @ SLASH # q) = c" by (subst takeWhile_append2) (use m in auto)
  moreover have "dropWhile (\<lambda>c. c \<noteq> SLASH) (c @ SLASH # q) = SLASH # q" by (subst dropWhile_append2) (use m in auto)
  moreover have w: "takeWhile (\<lambda>c. c \<noteq> SLASH) c = c" "dropWhile (\<lambda>c. c \<noteq> SLASH) c = []"
    using m by (auto simp: takeWhile_eq_all_conv)
  ultimately show "comps (c @ SLASH # q) = c # comps (dropWhile (\<lambda>c. c = SLASH) q)"
    using comps_rest [of "c @ SLASH # q"] by simp
  show "comps c = [c]" using comps_rest [of c] after_Nil [OF w(2)] assms unfolding w(1) by (simp add: plain_def)
qed

lemma comps_slashed: "ns \<noteq> [] \<Longrightarrow> \<forall>c\<in>set ns. plain c \<Longrightarrow> comps (butlast (slashed ns)) = ns"
proof (induction ns)
  case (Cons c ns)
  show ?case
  proof (cases "ns = []")
    case True
    then show ?thesis using Cons.prems comps_name(2) [of c] by (simp add: butlast_append)
  next
    case False
    then obtain x xs where x: "ns = x # xs" by (cases ns) auto
    then obtain y ys where y: "x = y # ys" "y \<noteq> SLASH" using Cons.prems by (cases x) (auto simp: plain_def)
    have "slashed ns \<noteq> []" using False slashed_nil by simp
    then have b: "butlast (slashed (c # ns)) = c @ SLASH # butlast (slashed ns)" by (simp add: butlast_append)
    have "butlast (slashed ns) = y # butlast (ys @ SLASH # slashed xs)" using x y by simp
    then have "dropWhile (\<lambda>c. c = SLASH) (butlast (slashed ns)) = butlast (slashed ns)" using y(2) by simp
    then show ?thesis unfolding b using comps_name(1) [of c] Cons.IH False Cons.prems by simp
  qed
qed simp

lemma comps_absolute: "comps (SLASH # q) = [] # comps (dropWhile (\<lambda>c. c = SLASH) q)"
  using comps_rest [of "SLASH # q"] by simp

lemma comps_path_text:
  assumes "\<forall>c\<in>set ns. plain c"
  shows "comps (path_text ([] # ns)) = [] # ns" "\<exists>q. path_text ([] # ns) = SLASH # q" "0 \<notin> set (path_text ([] # ns))"
proof -
  have t: "path_text ([] # ns) = SLASH # butlast (slashed ns)"
    using slashed_nil [of ns] by (cases "ns = []") (simp_all add: path_text_def)
  have "dropWhile (\<lambda>c. c = SLASH) (butlast (slashed ns)) = butlast (slashed ns)"
  proof (cases ns)
    case (Cons x xs)
    then obtain y ys where "x = y # ys" "y \<noteq> SLASH" using assms by (cases x) (auto simp: plain_def)
    then show ?thesis using Cons by simp
  qed simp
  then show "comps (path_text ([] # ns)) = [] # ns"
    unfolding t comps_absolute using comps_slashed [OF _ assms] by (cases "ns = []") simp_all
  have "names_ok ns" using assms by (simp add: names_ok_def plain_def)
  then show "0 \<notin> set (path_text ([] # ns))" unfolding t using slashed_zero [of ns] by (auto dest: in_set_butlastD)
qed (use slashed_nil [of ns] in \<open>cases "ns = []"; simp add: path_text_def\<close>)

section \<open>Properties\<close>

text \<open>C32: \<open>dfs_normalize_path\<close> is the fold over the components of the path: a relative name is joined with the directory, or with the
  working directory when there is none; empty and \<open>.\<close> components go, \<open>..\<close> removes the name before it. The result is \<^verbatim>\<open>NULL\<close>
  when memory is short or when there is no name to remove, and when no name is left, not even the empty one
  of the root, the code reads the byte before the buffer. It always returns.
\<close>

theorem path_normalize:
  assumes "0 \<notin> set f" "0 \<notin> set wd" "\<forall>d. directory = Some d \<longrightarrow> 0 \<notin> set d"
  shows "dfs_normalize_path alloc wd directory (Some f) =
    (if \<not> alloc then Some None
     else normalized (if f \<noteq> [] \<and> hd f = SLASH then f else (case directory of None \<Rightarrow> wd | Some d \<Rightarrow> d) @ [SLASH] @ f))"
proof -
  define dir where "dir = (case directory of None \<Rightarrow> wd | Some d \<Rightarrow> d)"
  have z: "0 \<notin> set (dir @ [SLASH] @ f)" using assms by (cases directory) (auto simp: dir_def)
  have "(f @ [0]) ! 0 = SLASH \<longleftrightarrow> f \<noteq> [] \<and> hd f = SLASH" by (cases f) simp_all
  then show ?thesis
    using normalize_buf_spec [OF assms(1)] normalize_buf_spec [OF z]
    unfolding dfs_normalize_path_def dir_def [symmetric] by (simp add: Let_def)
qed

lemma path_normalize_witness:
  "dfs_normalize_path True [47] None (Some [97, 47, 46, 46, 47, 98]) = normalized ([47] @ [SLASH] @ [97, 47, 46, 46, 47, 98])"
  using path_normalize [of "[97, 47, 46, 46, 47, 98]" "[47]" None True] by simp

text \<open>C33: An absolute path that does not go above the root is normalised to an absolute path of plain names: none of them is empty,
  \<open>.\<close> or \<open>..\<close>, and normalising the result again changes nothing.
\<close>

theorem path_normalize_absolute:
  assumes "0 \<notin> set q" "inside 0 (tl (comps (SLASH # q)))"
  shows "\<exists>names. dfs_normalize_path True wd directory (Some (SLASH # q)) = Some (Some (path_text ([] # names))) \<and>
    (\<forall>c\<in>set names. plain c) \<and> hd (path_text ([] # names)) = SLASH \<and> comps (path_text ([] # names)) = [] # names \<and>
    dfs_normalize_path True wd directory (Some (path_text ([] # names))) = Some (Some (path_text ([] # names)))"
proof -
  let ?r = "dropWhile (\<lambda>c. c = SLASH) q"
  have r: "0 \<notin> set ?r" using assms(1) by (auto dest: set_dropWhileD)
  have "?r = [] \<or> hd ?r \<noteq> SLASH" using hd_dropWhile [of "\<lambda>c. c = SLASH" q] by blast
  then have "\<forall>c\<in>set (comps ?r). c \<noteq> [] \<and> SLASH \<notin> set c \<and> 0 \<notin> set c" using next_of_comps [OF r] by blast
  moreover have "inside (length []) (comps ?r)" using assms(2) unfolding comps_absolute by simp
  ultimately obtain ns where ns: "walk ([] # []) (comps ?r) = Some ([] # ns)" "\<forall>c\<in>set ns. plain c"
    using walk_inside [of "[]" "comps ?r"] by auto
  have N: "dfs_normalize_path True wd directory (Some (SLASH # u)) = normalized (SLASH # u)" if "0 \<notin> set u" for u
    using normalize_buf_spec [of "SLASH # u"] that unfolding dfs_normalize_path_def by (simp add: Let_def)
  have "normalized (SLASH # q) = Some (Some (path_text ([] # ns)))"
    using ns(1) unfolding normalized_def comps_absolute by simp
  moreover obtain t where t: "path_text ([] # ns) = SLASH # t" using comps_path_text(2) [OF ns(2)] by blast
  moreover have "normalized (path_text ([] # ns)) = Some (Some (path_text ([] # ns)))"
    unfolding normalized_def comps_path_text(1) [OF ns(2)] using walk_plain [OF ns(2), of "[[]]"] by simp
  moreover have "0 \<notin> set t" using comps_path_text(3) [OF ns(2)] t by simp
  ultimately show ?thesis using N [OF assms(1)] N [of t] comps_path_text(1) [OF ns(2)] ns(2)
    by (intro exI [of _ ns]) simp
qed

lemma path_normalize_absolute_witness:
  "\<exists>names. dfs_normalize_path True [47] None (Some (SLASH # [97, 47, 47, 46, 46, 47, 98, 47])) = Some (Some (path_text ([] # names))) \<and>
    (\<forall>c\<in>set names. plain c) \<and> hd (path_text ([] # names)) = SLASH \<and> comps (path_text ([] # names)) = [] # names \<and>
    dfs_normalize_path True [47] None (Some (path_text ([] # names))) = Some (Some (path_text ([] # names)))"
  by (rule path_normalize_absolute) (simp_all add: comps.simps)

text \<open>At the root, \<open>..\<close> removes the root itself: of \<open>/..\<close> nothing is left and the code reads the byte before its buffer,
  \<open>/../..\<close> is refused, and \<open>/../name\<close> becomes the relative path \<open>name\<close>.
\<close>

lemma path_above_root:
  assumes "plain name"
  shows "dfs_normalize_path True wd directory (Some [SLASH, DOT, DOT]) = None \<and>
    dfs_normalize_path True wd directory (Some [SLASH, DOT, DOT, SLASH, DOT, DOT]) = Some None \<and>
    dfs_normalize_path True wd directory (Some ([SLASH, DOT, DOT, SLASH] @ name)) = Some (Some name)"
proof -
  have N: "dfs_normalize_path True wd directory (Some (SLASH # u)) = normalized (SLASH # u)" if "0 \<notin> set u" for u
    using normalize_buf_spec [of "SLASH # u"] that unfolding dfs_normalize_path_def by (simp add: Let_def)
  have n: "name \<noteq> []" "hd name \<noteq> SLASH" "0 \<notin> set name" "name \<noteq> [DOT]" "name \<noteq> [DOT, DOT]"
    using assms by (cases name; auto simp: plain_def)+
  have d: "dropWhile (\<lambda>c. c = SLASH) name = name" using n by (cases name) auto
  have c: "comps [DOT, DOT] = [[DOT, DOT]]" "comps ([DOT, DOT, SLASH] @ p) = [DOT, DOT] # comps (dropWhile (\<lambda>c. c = SLASH) p)" for p
    by (simp_all add: comps.simps [of "[DOT, DOT]"] comps.simps [of "DOT # _"])
  have "normalized (SLASH # [DOT, DOT]) = None"
    unfolding normalized_def comps_absolute using c(1) by simp
  moreover have "normalized (SLASH # [DOT, DOT, SLASH, DOT, DOT]) = Some None"
    unfolding normalized_def comps_absolute using c(1) c(2) [of "[DOT, DOT]"] by simp
  moreover have "normalized (SLASH # ([DOT, DOT, SLASH] @ name)) = Some (Some name)"
    unfolding normalized_def comps_absolute using c(2) [of name] d comps_name(2) [OF assms] n
    by (simp add: path_text_def butlast_append)
  ultimately show ?thesis using N [of "[DOT, DOT]"] N [of "[DOT, DOT, SLASH, DOT, DOT]"] N [of "[DOT, DOT, SLASH] @ name"] n(3) by simp
qed

lemma path_above_root_example:
  "dfs_normalize_path True [47] None (Some [SLASH, DOT, DOT]) = None \<and>
   dfs_normalize_path True [47] None (Some [SLASH, DOT, DOT, SLASH, DOT, DOT]) = Some None \<and>
   dfs_normalize_path True [47] None (Some ([SLASH, DOT, DOT, SLASH] @ [115, 100])) = Some (Some [115, 100])"
  by (rule path_above_root) (simp add: plain_def)

end
