(* ===== verification/Dfs_Props.thy ===== *)
theory Dfs_Props
  imports Dfs_Posix Dfs_Fd_Props Dfs_Path_Props
begin

text \<open>
  Lookup in the mount table, opening and closing files, and what two threads that close the same file do.
\<close>

section \<open>Lookup\<close>

text \<open>A mount point covers a path when it is a prefix of it that ends at a separator; the root covers every absolute path.\<close>

definition covers :: "8 word list \<Rightarrow> 8 word list \<Rightarrow> bool" where
  "covers p path \<longleftrightarrow> take (length p) path = p \<and> (length p \<le> 1 \<or> length path \<le> length p \<or> path ! length p = SLASH)"

definition mounted :: "dfs_filesystem list \<Rightarrow> nat \<Rightarrow> 8 word list \<Rightarrow> bool" where
  "mounted tab i p \<longleftrightarrow> i < length tab \<and> fs_path (tab ! i) = Some p \<and> fs_ops (tab ! i) \<noteq> None"

lemma mounted_Cons: "mounted (f # xs) i p \<longleftrightarrow> (case i of 0 \<Rightarrow> fs_path f = Some p \<and> fs_ops f \<noteq> None | Suc j \<Rightarrow> mounted xs j p)"
  by (cases i) (simp_all add: mounted_def)

lemma lookup_loop_spec:
  "(lookup_loop path xs i fs pl = fs \<and> (\<forall>k p. mounted xs k p \<and> covers p path \<longrightarrow> length p < pl)) \<or>
   (\<exists>k p. mounted xs k p \<and> covers p path \<and> pl \<le> length p \<and> lookup_loop path xs i fs pl = Some (i + k) \<and>
     (\<forall>j q. mounted xs j q \<and> covers q path \<longrightarrow> length q < length p \<or> length q = length p \<and> j \<le> k))"
proof (induction xs arbitrary: i fs pl)
  case Nil
  then show ?case by (simp add: mounted_def)
next
  case (Cons f xs)
  consider p where "fs_path f = Some p" "fs_ops f \<noteq> None" "covers p path" "pl \<le> length p"
    | "\<And>p. fs_path f = Some p \<Longrightarrow> fs_ops f \<noteq> None \<Longrightarrow> covers p path \<Longrightarrow> length p < pl" by force
  then show ?case
  proof cases
    case 1
    then have e: "lookup_loop path (f # xs) i fs pl = lookup_loop path xs (Suc i) (Some i) (length p)"
      by (auto simp: covers_def Let_def split: option.splits)
    from Cons.IH [of "Suc i" "Some i" "length p"] show ?thesis
    proof (elim disjE conjE exE)
      assume a: "lookup_loop path xs (Suc i) (Some i) (length p) = Some i" "\<forall>k q. mounted xs k q \<and> covers q path \<longrightarrow> length q < length p"
      show ?thesis
        unfolding e a(1) using 1 a(2)
        by (intro disjI2 exI [of _ 0] exI [of _ p]) (auto simp: mounted_Cons split: nat.splits)
    next
      fix k q
      assume a: "mounted xs k q" "covers q path" "length p \<le> length q" "lookup_loop path xs (Suc i) (Some i) (length p) = Some (Suc i + k)"
        "\<forall>j r. mounted xs j r \<and> covers r path \<longrightarrow> length r < length q \<or> length r = length q \<and> j \<le> k"
      show ?thesis
        unfolding e a(4) using 1 a
        by (intro disjI2 exI [of _ "Suc k"] exI [of _ q]) (fastforce simp: mounted_Cons split: nat.splits)
    qed
  next
    case 2
    then have e: "lookup_loop path (f # xs) i fs pl = lookup_loop path xs (Suc i) fs pl"
      by (auto simp: covers_def Let_def not_le split: option.splits)
    from Cons.IH [of "Suc i" fs pl] show ?thesis
    proof (elim disjE conjE exE)
      assume a: "lookup_loop path xs (Suc i) fs pl = fs" "\<forall>k q. mounted xs k q \<and> covers q path \<longrightarrow> length q < pl"
      show ?thesis unfolding e a(1) using 2 a(2) by (intro disjI1) (auto simp: mounted_Cons split: nat.splits)
    next
      fix k q
      assume a: "mounted xs k q" "covers q path" "pl \<le> length q" "lookup_loop path xs (Suc i) fs pl = Some (Suc i + k)"
        "\<forall>j r. mounted xs j r \<and> covers r path \<longrightarrow> length r < length q \<or> length r = length q \<and> j \<le> k"
      show ?thesis
        unfolding e a(4) using 2 a
        by (intro disjI2 exI [of _ "Suc k"] exI [of _ q]) (fastforce simp: mounted_Cons split: nat.splits)
    qed
  qed
qed

lemma lookup_mounted:
  assumes "dfs_filesystem_lookup path s = Some i"
  shows "\<exists>p t. fs_path (fs_table s ! i) = Some p \<and> fs_ops (fs_table s ! i) = Some t \<and> covers p path"
  using assms lookup_loop_spec [of path "fs_table s" 0 None 0] by (auto simp: dfs_filesystem_lookup_def mounted_def)

text \<open>C35: \<open>dfs_filesystem_lookup\<close> finds the file system with the longest mount point that covers the path (of equal mount points the
  last one of the table), and \<^verbatim>\<open>NULL\<close> only when none covers it.\<close>

theorem lookup_longest_prefix:
  "case dfs_filesystem_lookup path s of
     None \<Rightarrow> \<forall>i p. mounted (fs_table s) i p \<longrightarrow> \<not> covers p path
   | Some i \<Rightarrow> \<exists>p. mounted (fs_table s) i p \<and> covers p path \<and>
       (\<forall>j q. mounted (fs_table s) j q \<and> covers q path \<longrightarrow> length q < length p \<or> length q = length p \<and> j \<le> i)"
  using lookup_loop_spec [of path "fs_table s" 0 None 0] unfolding dfs_filesystem_lookup_def by auto

definition two_mounts :: "dfs_filesystem list" where
  "two_mounts = [\<lparr>fs_dev = None, fs_path = Some [47], fs_ops = Some 0\<rparr>, \<lparr>fs_dev = None, fs_path = Some [47, 97], fs_ops = Some 0\<rparr>]"

lemma lookup_longest_prefix_witness:
  "\<exists>p. dfs_filesystem_lookup [47, 97, 47, 98] ((dfs_init ())\<lparr>fs_table := two_mounts\<rparr>) = Some 1 \<and> mounted two_mounts 1 p \<and>
     covers p [47, 97, 47, 98] \<and> \<not> (\<exists>j q. mounted two_mounts j q \<and> covers q [47, 97, 47, 98] \<and> length p < length q)"
proof -
  let ?s = "(dfs_init ())\<lparr>fs_table := two_mounts\<rparr>"
  have l: "dfs_filesystem_lookup [47, 97, 47, 98] ?s = Some 1" by (simp add: dfs_filesystem_lookup_def two_mounts_def Let_def)
  obtain p where p: "mounted (fs_table ?s) 1 p" "covers p [47, 97, 47, 98]"
    "\<forall>j q. mounted (fs_table ?s) j q \<and> covers q [47, 97, 47, 98] \<longrightarrow> length q < length p \<or> length q = length p \<and> j \<le> 1"
    using lookup_longest_prefix [where path = "[47, 97, 47, 98]" and s = ?s, unfolded l option.case] by blast
  then show ?thesis using l by (intro exI [of _ p]) fastforce
qed

section \<open>Opening and closing\<close>

text \<open>
  What the code relies on: error numbers are positive, and a driver leaves the reference count and the magic number of a
  descriptor alone, and does not take its operations away.
\<close>

definition keeps_header :: "(dfs_fd \<Rightarrow> 'w \<Rightarrow> int \<times> dfs_fd \<times> 'w) \<Rightarrow> bool" where
  "keeps_header f \<longleftrightarrow> (\<forall>d w. case f d w of (_, d1, _) \<Rightarrow>
     ref_count d1 = ref_count d \<and> fd_magic d1 = fd_magic d \<and> (fd_fops d \<noteq> None \<longrightarrow> fd_fops d1 \<noteq> None))"

definition env_ok :: "'w dfs_env \<Rightarrow> bool" where
  "env_ok E \<longleftrightarrow> (\<forall>e. 0 < errnum E e) \<and> (\<forall>n f. fo_open (file_ops E n) = Some f \<or> fo_close (file_ops E n) = Some f \<longrightarrow> keeps_header f)"

lemma keeps_headerD:
  "keeps_header f \<Longrightarrow> f d w = (r, d1, w1) \<Longrightarrow> ref_count d1 = ref_count d \<and> fd_magic d1 = fd_magic d \<and> (fd_fops d \<noteq> None \<longrightarrow> fd_fops d1 \<noteq> None)"
  unfolding keeps_header_def by (erule allE [of _ d], erule allE [of _ w]) simp

definition same_table :: "'w dfs \<Rightarrow> 'w dfs \<Rightarrow> bool" where
  "same_table s s' \<longleftrightarrow> fds s' = fds s \<and> fd_store s' = fd_store s \<and> fs_table s' = fs_table s \<and> op_table s' = op_table s"

lemma same_table_refl [simp]: "same_table s s" "same_table s (s\<lparr>world := w\<rparr>)"
  by (simp_all add: same_table_def)

lemma file_open_spec:
  assumes E: "env_ok E" and n: "full_path (mem 0) path s \<noteq> None"
  shows "\<exists>r d' s'. dfs_file_open E mem d path flags s = Some (r, d', s') \<and> ref_count d' = ref_count d \<and> fd_magic d' = fd_magic d \<and>
    same_table s s' \<and> (0 \<le> r \<longrightarrow> fd_fops d' \<noteq> None)"
proof (cases "full_path (mem 0) path s")
  case (Some o1)
  have neg: "\<not> 0 \<le> neg E e" for e using E by (simp add: env_ok_def not_le)
  show ?thesis
  proof (cases o1)
    case None
    then show ?thesis using Some neg by (simp add: dfs_file_open_def)
  next
    case full: (Some full)
    show ?thesis
    proof (cases "dfs_filesystem_lookup full s")
      case None
      then show ?thesis using Some full neg by (simp add: dfs_file_open_def)
    next
      case i: (Some i)
      obtain m t where m: "fs_path (fs_table s ! i) = Some m" "fs_ops (fs_table s ! i) = Some t" "covers m full"
        using lookup_mounted [OF i] by blast
      have "length m \<le> length full" using m(3) unfolding covers_def by (metis length_take min.cobounded1)
      then have "dfs_subdir m full \<noteq> None" by (simp add: dfs_subdir_def Let_def)
      then obtain u where u: "dfs_subdir m full = Some u" by blast
      define n where "n = op_fops (type_ops E t)"
      define d1 where "d1 = d\<lparr>fd_fs := Some i, fd_fops := Some n, fd_type := FT_REGULAR, fd_flags := flags, fd_size := 0, fd_pos := 0\<rparr>"
      define sub where "sub = (if op_flags (type_ops E t) AND DFS_FS_FLAG_FULLPATH = 0 then
          (if mem 1 then Some (case u of None \<Rightarrow> [SLASH] | Some x \<Rightarrow> x) else None) else Some full)"
      have o: "dfs_file_open E mem d path flags s = (case fo_open (file_ops E n) of
               None \<Rightarrow> Some (neg E ENOSYS, d1\<lparr>fd_path := None\<rparr>, s)
             | Some f \<Rightarrow>
                 (let (result, fd3, w) = f (d1\<lparr>fd_path := sub\<rparr>) (world s); s1 = s\<lparr>world := w\<rparr>
                  in if result < 0 then Some (result, fd3\<lparr>fd_path := None\<rparr>, s1)
                     else (let fd4 = fd3\<lparr>fd_flags := fd_flags fd3 OR DFS_F_OPEN\<rparr>
                           in Some (0, if flags AND O_DIRECTORY \<noteq> 0
                                       then fd4\<lparr>fd_type := FT_DIRECTORY, fd_flags := fd_flags fd4 OR DFS_F_DIRECTORY\<rparr> else fd4, s1))))"
        using Some full i m(1,2) u
        by (simp add: dfs_file_open_def n_def [symmetric] d1_def sub_def Let_def split: option.splits cong: if_cong option.case_cong)
      show ?thesis
      proof (cases "fo_open (file_ops E n)")
        case None
        then show ?thesis unfolding o using neg by (simp add: d1_def)
      next
        case f: (Some f)
        obtain r d3 w where r: "f (d1\<lparr>fd_path := sub\<rparr>) (world s) = (r, d3, w)" by (metis prod_cases3)
        have k: "keeps_header f" using E f unfolding env_ok_def by blast
        have "ref_count d3 = ref_count d \<and> fd_magic d3 = fd_magic d \<and> fd_fops d3 \<noteq> None"
          using keeps_headerD [OF k r] by (simp add: d1_def)
        then show ?thesis unfolding o by (simp add: f r Let_def)
      qed
    qed
  qed
qed (use n in simp)

lemma file_close_spec:
  assumes E: "env_ok E" and d: "fd_fops d \<noteq> None"
  shows "\<exists>r d' s'. dfs_file_close E d s = Some (r, d', s') \<and> ref_count d' = ref_count d \<and> fd_magic d' = fd_magic d \<and> fd_fops d' \<noteq> None \<and>
    same_table s s'"
proof -
  obtain n where n: "fd_fops d = Some n" using d by blast
  show ?thesis
  proof (cases "fo_close (file_ops E n)")
    case None
    then show ?thesis using n by (simp add: dfs_file_close_def)
  next
    case (Some f)
    obtain r d1 w where r: "f d (world s) = (r, d1, w)" by (metis prod_cases3)
    have k: "keeps_header f" using E Some unfolding env_ok_def by blast
    show ?thesis using keeps_headerD [OF k r] n by (simp add: dfs_file_close_def Some r Let_def)
  qed
qed

lemma same_table_wf:
  assumes "same_table s s'"
  shows "fdt_wf s' = fdt_wf s" "fd_refs s' = fd_refs s"
proof -
  have e: "fds s' = fds s" "fd_store s' = fd_store s" using assms by (simp_all add: same_table_def)
  show "fdt_wf s' = fdt_wf s" unfolding fdt_wf_def e by (rule refl)
  show "fd_refs s' = fd_refs s" by (rule ext) (simp only: fd_refs_def e)
qed

text \<open>An operation on the descriptor at index \<open>i\<close> that leaves its count and magic number alone.\<close>

lemma on_fd_spec:
  assumes wf: "fdt_wf s" and i: "i < length (fds s)" "fds s ! i = Some p"
    and op: "\<And>d. fd_store s p = Some d \<Longrightarrow> \<exists>r d' s'. op d s = Some (r, d', s') \<and> ref_count d' = ref_count d \<and> fd_magic d' = fd_magic d \<and>
      same_table s s' \<and> P r d'"
  shows "\<exists>r d' s'. on_fd p op s = Some (r, s') \<and> fdt_wf s' \<and> fd_refs s' = fd_refs s \<and> fds s' = fds s \<and> fd_store s' p = Some d' \<and> P r d'"
proof -
  obtain d where d: "fd_store s p = Some d" "0 < ref_count d" "fd_magic d = DFS_FD_MAGIC" using fdt_wfD(2) [OF wf i] by blast
  obtain r d' s' where o: "op d s = Some (r, d', s')" "ref_count d' = ref_count d" "fd_magic d' = fd_magic d" "same_table s s'" "P r d'"
    using op [OF d(1)] by blast
  have t: "fdt_wf s'" "fd_refs s' = fd_refs s" "fds s' = fds s" using same_table_wf [OF o(4)] wf o(4) by (simp_all add: same_table_def)
  have "fd_refs s i = Some (ref_count d)" using i d by (simp add: fd_refs_def)
  then have "fd_refs (set_obj p d' s') = fd_refs s"
    using fdt_wf_update(2) [of s' i p d'] t i o d by (auto simp: fun_eq_iff)
  moreover have "fdt_wf (set_obj p d' s')" using fdt_wf_update(1) [of s' i p d'] t i o d by simp
  ultimately show ?thesis using d o(1,5) t by (simp add: on_fd_def)
qed

lemma fd_put_keep:
  assumes "fds s ! i = Some p" "i < length (fds s)" "fd_refs s i = Some n" "n \<noteq> 1" "fd_put (Some p) s = Some s'"
  shows "fds s' = fds s" "fd_store s p = Some d \<Longrightarrow> fd_store s' p = Some (d\<lparr>ref_count := n - 1\<rparr>)"
  using assms by (auto simp: fd_put_def fd_refs_def Let_def split: if_splits Option.bind_splits)

lemma fd_new_wd: "fd_new grow new s = Some (fd, s') \<Longrightarrow> working_directory s' = working_directory s"
  by (auto simp: fd_new_def fd_alloc_def Let_def split: if_splits option.splits Option.bind_splits)

text \<open>Giving back two references, or one.\<close>

lemma put_two:
  assumes wf: "fdt_wf s" and i: "i < length (fds s)" "fds s ! i = Some p" "fd_refs s i = Some 2"
  shows "\<exists>s1 s2. fd_put (Some p) s = Some s1 \<and> fdt_wf s1 \<and> fd_refs s1 = (fd_refs s)(i \<mapsto> 1) \<and> fd_put (Some p) s1 = Some s2 \<and>
    fdt_wf s2 \<and> fd_refs s2 = (fd_refs s)(i := None) \<and> fds s1 = fds s \<and> (\<forall>d. fd_store s p = Some d \<longrightarrow> fd_store s1 p = Some (d\<lparr>ref_count := 1\<rparr>))"
proof -
  obtain s1 where s1: "fd_put (Some p) s = Some s1" "fdt_wf s1" "fd_refs s1 = (fd_refs s)(i \<mapsto> 1)"
    using fd_put_spec [OF wf i] by auto
  note k = fd_put_keep [OF i(2,1,3) _ s1(1)]
  have f: "fds s1 = fds s" using k(1) by simp
  obtain s2 where "fd_put (Some p) s1 = Some s2" "fdt_wf s2" "fd_refs s2 = (fd_refs s1)(i := None)"
    using fd_put_spec [OF s1(2), of i p 1] s1(3) f i by auto
  then show ?thesis using s1 f k(2) by auto
qed

text \<open>The first half of \<open>posix_close\<close> on the descriptor at index \<open>i\<close>: its own reference, and the call of the driver.\<close>

definition closes :: "'w dfs_env \<Rightarrow> bool" where
  "closes E \<longleftrightarrow> (\<forall>n f d w. fo_close (file_ops E n) = Some f \<longrightarrow> 0 \<le> fst (f d w))"

lemma file_close_accepted:
  assumes "closes E" "dfs_file_close E d s = Some (r, d', s')"
  shows "0 \<le> r"
  using assms by (auto simp: closes_def dfs_file_close_def Let_def split: Option.bind_splits option.splits prod.splits if_splits)
    (metis fst_conv linorder_not_le)+

text \<open>What the driver of a file answers to a request to close it.\<close>

definition driver_close :: "'w dfs_env \<Rightarrow> dfs_fd \<Rightarrow> 'w \<Rightarrow> int" where
  "driver_close E d w = (case fd_fops d of
     None \<Rightarrow> 0
   | Some n \<Rightarrow> (case fo_close (file_ops E n) of None \<Rightarrow> 0 | Some f \<Rightarrow> fst (f d w)))"

lemma file_close_answer:
  "dfs_file_close E d s = Some (r, d', s') \<Longrightarrow> r = driver_close E d (world s)"
  by (auto simp: driver_close_def dfs_file_close_def Let_def split: Option.bind_splits option.splits prod.splits if_splits)

lemma fd_get_world: "fd_get fd s = Some (x, s') \<Longrightarrow> world s' = world s"
  by (auto simp: fd_get_def Let_def split: Option.bind_splits option.splits if_splits)

lemma close_file_spec:
  assumes E: "env_ok E" and fd: "fd = int i + DFS_FD_OFFSET"
    and t: "fdt_wf t" "fd_refs t i = Some m" "fds t ! i = Some p" "fd_store t p = Some d" "fd_fops d \<noteq> None"
  shows "\<exists>r s' d'. close_file E fd t = Some (Some (p, r), s') \<and> (closes E \<longrightarrow> 0 \<le> r) \<and>
      r = driver_close E (d\<lparr>ref_count := m + 1\<rparr>) (world t) \<and> fdt_wf s' \<and> fd_refs s' = (fd_refs t)(i \<mapsto> m + 1) \<and>
      fds s' = fds t \<and> fd_store s' p = Some d' \<and> fd_fops d' \<noteq> None"
proof -
  obtain c where c: "fd_get fd t = Some (Some p, c)" "fdt_wf c" "fd_refs c = (fd_refs t)(i \<mapsto> m + 1)" "fds c = fds t"
    "fd_store c p = Some (d\<lparr>ref_count := m + 1\<rparr>)"
    using fd_get_spec [OF t(1), of fd] fd t by auto
  have i: "i < length (fds c)" "fds c ! i = Some p" using t(2,3) c(4) by (auto simp: fd_refs_def split: if_splits)
  have o: "\<exists>r d' s'. dfs_file_close E x c = Some (r, d', s') \<and> ref_count d' = ref_count x \<and> fd_magic d' = fd_magic x \<and>
      same_table c s' \<and> ((closes E \<longrightarrow> 0 \<le> r) \<and> r = driver_close E (d\<lparr>ref_count := m + 1\<rparr>) (world t) \<and> fd_fops d' \<noteq> None)"
    if x: "fd_store c p = Some x" for x
    using file_close_spec [OF E, of x c] file_close_accepted [of E x c] file_close_answer [of E x c] fd_get_world [OF c(1)] x c(5) t(5)
    by auto
  have "\<exists>r d' s'. on_fd p (dfs_file_close E) c = Some (r, s') \<and> fdt_wf s' \<and> fd_refs s' = fd_refs c \<and> fds s' = fds c \<and>
      fd_store s' p = Some d' \<and>
      ((closes E \<longrightarrow> 0 \<le> r) \<and> r = driver_close E (d\<lparr>ref_count := m + 1\<rparr>) (world t) \<and> fd_fops d' \<noteq> None)"
    by (rule on_fd_spec [OF c(2) i]) (rule o)
  then show ?thesis using c by (auto simp: close_file_def)
qed

text \<open>Closing a descriptor with one reference.\<close>

lemma posix_close_spec:
  assumes E: "env_ok E" and fd: "fd = int i + DFS_FD_OFFSET"
    and t: "fdt_wf t" "fd_refs t i = Some 1" "fds t ! i = Some p" "fd_store t p = Some d" "fd_fops d \<noteq> None"
  shows "\<exists>s'. posix_close E fd t = Some (if driver_close E (d\<lparr>ref_count := 2\<rparr>) (world t) < 0
      then (-1, Some (driver_close E (d\<lparr>ref_count := 2\<rparr>) (world t)), s') else (0, None, s')) \<and> fdt_wf s' \<and>
    fd_refs s' = (if driver_close E (d\<lparr>ref_count := 2\<rparr>) (world t) < 0 then fd_refs t else (fd_refs t)(i := None))"
proof -
  obtain q c where q: "close_file E fd t = Some (Some (p, q), c)" "fdt_wf c" "fd_refs c = (fd_refs t)(i \<mapsto> 2)" "fds c = fds t"
    and a: "q = driver_close E (d\<lparr>ref_count := 2\<rparr>) (world t)"
    using close_file_spec [OF E fd t] by auto
  have i: "i < length (fds c)" using t(2) q(4) by (auto simp: fd_refs_def split: if_splits)
  have id: "(fd_refs t)(i \<mapsto> 1) = fd_refs t" using t(2) by (simp add: fun_upd_idem)
  obtain c2 c3 where "fd_put (Some p) c = Some c2" "fdt_wf c2" "fd_refs c2 = fd_refs t" "fd_put (Some p) c2 = Some c3" "fdt_wf c3"
    "fd_refs c3 = (fd_refs t)(i := None)"
    using put_two [OF q(2) i] q(3,4) t(3) id by auto
  then show ?thesis unfolding a [symmetric] using q(1) by (cases "q < 0") (simp_all add: posix_close_def close_put_def)
qed

text \<open>The second half of \<open>posix_open\<close>, on the descriptor that \<open>fd_new\<close> has made with one reference.\<close>

lemma posix_open_new:
  assumes E: "env_ok E" and n: "full_path (mem 0) path s \<noteq> None" and fd: "fd = int i + DFS_FD_OFFSET"
    and new: "fd_new grow new s = Some (fd, s1)" and s1: "fdt_wf s1" "fd_refs s1 i = Some 1"
  shows "\<exists>r s'. posix_open E grow new mem path flags s = Some (if r < 0 then (-1, Some r, s') else (fd, None, s')) \<and> fdt_wf s' \<and>
    (if r < 0 then fd_refs s' = (fd_refs s1)(i := None)
     else fd_refs s' = fd_refs s1 \<and> (\<exists>p d. fds s' ! i = Some p \<and> fd_store s' p = Some d \<and> fd_fops d \<noteq> None))"
proof -
  have fd0: "\<not> fd < 0" "\<not> fd < DFS_FD_OFFSET" "nat (fd - DFS_FD_OFFSET) = i" using fd by (simp_all add: DFS_FD_OFFSET_def)
  obtain p s2 where g: "fds s1 ! i = Some p" "fd_get fd s1 = Some (Some p, s2)" "fdt_wf s2" "fd_refs s2 = (fd_refs s1)(i \<mapsto> 2)"
    "fds s2 = fds s1" "working_directory s2 = working_directory s1"
    using fd_get_spec [OF s1(1), of fd] fd0 s1(2) by auto
  have i2: "i < length (fds s2)" "fds s2 ! i = Some p" using s1(2) g(1,5) by (auto simp: fd_refs_def split: if_splits)
  have n2: "full_path (mem 0) path s2 \<noteq> None" using n fd_new_wd [OF new] g(6) by (simp add: full_path_def)
  have "\<exists>r d' s3. on_fd p (\<lambda>x. dfs_file_open E mem x path flags) s2 = Some (r, s3) \<and> fdt_wf s3 \<and> fd_refs s3 = fd_refs s2 \<and>
      fds s3 = fds s2 \<and> fd_store s3 p = Some d' \<and> (0 \<le> r \<longrightarrow> fd_fops d' \<noteq> None)"
    by (rule on_fd_spec [OF g(3) i2]) (rule file_open_spec [where mem = mem, OF E n2])
  then obtain r d' s3 where r: "on_fd p (\<lambda>x. dfs_file_open E mem x path flags) s2 = Some (r, s3)" "fdt_wf s3" "fd_refs s3 = fd_refs s2"
    "fds s3 = fds s2" "fd_store s3 p = Some d'" "0 \<le> r \<longrightarrow> fd_fops d' \<noteq> None" by blast
  have i3: "i < length (fds s3)" "fds s3 ! i = Some p" "fd_refs s3 i = Some 2" using i2 g r by simp_all
  have id: "(fd_refs s1)(i \<mapsto> 1) = fd_refs s1" using s1(2) by (simp add: fun_upd_idem)
  obtain s4 s5 where "fd_put (Some p) s3 = Some s4" "fdt_wf s4" "fd_refs s4 = fd_refs s1" "fd_put (Some p) s4 = Some s5" "fdt_wf s5"
    "fd_refs s5 = (fd_refs s1)(i := None)" "fds s4 = fds s3" "fd_store s4 p = Some (d'\<lparr>ref_count := 1\<rparr>)"
    using put_two [OF r(2) i3] r(3,5) g(4) id by auto
  then show ?thesis using new fd0 g(2) r(1,6) i3(2)
    by (cases "r < 0"; intro exI [of _ r]) (simp_all add: posix_open_def)
qed

text \<open>C36: Opening and closing. For a path that can be normalised, a well-formed table, fresh memory for the descriptor, and
  drivers that leave the reference count, the magic number and the operations of a descriptor alone: \<open>open\<close> takes the
  lowest free descriptor. When it fails it returns -1 with a negative error number, and no descriptor stays behind; when it
  succeeds the descriptor has one reference. \<open>close\<close> then asks the driver: if the answer is negative it returns -1
  with that number and the descriptor stays open with its reference; otherwise it returns 0 and the table is as before
  the call of \<open>open\<close>.\<close>

theorem open_close:
  assumes wf: "fdt_wf s" and new: "\<And>p. new = Some p \<Longrightarrow> fd_store s p = None" and E: "env_ok E"
    and n: "full_path (mem 0) path s \<noteq> None"
  shows "\<exists>i fd e s1. posix_open E grow new mem path flags s = Some (fd, e, s1) \<and> fdt_wf s1 \<and>
    (\<forall>j<i. fd_refs s j \<noteq> None) \<and> fd_refs s i = None \<and>
    (fd = -1 \<and> (\<exists>x < 0. e = Some x) \<and> fd_refs s1 = fd_refs s \<or>
     fd = int i + DFS_FD_OFFSET \<and> e = None \<and> fd_refs s1 = (fd_refs s)(i \<mapsto> 1) \<and>
       (\<exists>p d answer s2. fds s1 ! i = Some p \<and> fd_store s1 p = Some d \<and>
         answer = driver_close E (d\<lparr>ref_count := 2\<rparr>) (world s1) \<and>
         posix_close E fd s1 = Some (if answer < 0 then (-1, Some answer, s2) else (0, None, s2)) \<and> fdt_wf s2 \<and>
         fd_refs s2 = (if answer < 0 then fd_refs s1 else fd_refs s)))"
proof -
  obtain i fd s1 where f: "fd_new grow new s = Some (fd, s1)" "fdt_wf s1" "\<forall>j<i. fd_refs s j \<noteq> None" "fd_refs s i = None"
    and fd: "if i < DFS_FD_MAX \<and> new \<noteq> None \<and> (i < length (fds s) \<or> grow)
     then fd = int i + DFS_FD_OFFSET \<and> fd_refs s1 = (fd_refs s)(i \<mapsto> 1) else fd = -1 \<and> fd_refs s1 = fd_refs s"
    using fd_new_spec [OF wf new] by blast
  have id: "((fd_refs s)(i \<mapsto> 1))(i := None) = fd_refs s" using f(4) by (simp add: fun_upd_idem)
  consider (failed) "fd = -1" "fd_refs s1 = fd_refs s" | (made) "fd = int i + DFS_FD_OFFSET" "fd_refs s1 = (fd_refs s)(i \<mapsto> 1)"
    using fd by (auto split: if_splits)
  then show ?thesis
  proof cases
    case failed
    moreover have "neg E ENOMEM < 0" using E by (simp add: env_ok_def)
    ultimately show ?thesis using f by (intro exI [of _ i]) (simp add: posix_open_def)
  next
    case made
    have r1: "fd_refs s1 i = Some 1" using made(2) by simp
    obtain r s' where o: "posix_open E grow new mem path flags s = Some (if r < 0 then (-1, Some r, s') else (fd, None, s'))" "fdt_wf s'"
      "if r < 0 then fd_refs s' = (fd_refs s1)(i := None)
       else fd_refs s' = fd_refs s1 \<and> (\<exists>p d. fds s' ! i = Some p \<and> fd_store s' p = Some d \<and> fd_fops d \<noteq> None)"
      using posix_open_new [where mem = mem and flags = flags, OF E n made(1) f(1,2) r1] by (elim exE conjE)
    show ?thesis
    proof (cases "r < 0")
      case True
      then show ?thesis using f(3,4) o id made(2) by (intro exI [of _ i]) simp
    next
      case False
      then obtain p d where p: "fd_refs s' = (fd_refs s)(i \<mapsto> 1)" "fds s' ! i = Some p" "fd_store s' p = Some d" "fd_fops d \<noteq> None"
        using o(3) made(2) by auto
      have one: "fd_refs s' i = Some 1" using p(1) by simp
      obtain s2 where s2: "posix_close E fd s' = Some (if driver_close E (d\<lparr>ref_count := 2\<rparr>) (world s') < 0
          then (-1, Some (driver_close E (d\<lparr>ref_count := 2\<rparr>) (world s')), s2) else (0, None, s2))" "fdt_wf s2"
        "fd_refs s2 = (if driver_close E (d\<lparr>ref_count := 2\<rparr>) (world s') < 0 then fd_refs s' else fd_refs s)"
        using posix_close_spec [OF E made(1) o(2) one p(2-4)] unfolding p(1) id by blast
      have "posix_open E grow new mem path flags s = Some (fd, None, s')" using o(1) False by simp
      then show ?thesis using f(3,4) o(2) made(1) p s2 by blast
    qed
  qed
qed

text \<open>An environment with one driver, which opens and closes every file, to evaluate examples on.\<close>

definition ram_ops :: "unit dfs_file_ops" where
  "ram_ops = \<lparr>fo_open = Some (\<lambda>d w. (0, d, w)), fo_close = Some (\<lambda>d w. (0, d, w)), fo_ioctl = None,
     fo_read = Some (\<lambda>n d w. ((0, []), d, w)), fo_write = Some (\<lambda>b d w. (int (length b), d, w)), fo_flush = None, fo_lseek = None,
     fo_getdents = None\<rparr>"

definition ram_type :: "unit dfs_filesystem_ops" where
  "ram_type = \<lparr>op_name = [114, 97, 109], op_flags = 0, op_fops = 0, op_mount = Some (\<lambda>_ _ _ w. (0, w)), op_unmount = Some (\<lambda>_ _ w. (0, w)),
     op_mkfs = None, op_statfs = None, op_unlink = None, op_rename = None\<rparr>"

definition ram_env :: "unit dfs_env" where
  "ram_env = \<lparr>errnum = (\<lambda>_. 1), F_GETFL = 3, F_SETFL = 4, O_NONBLOCK = 0x4000, O_APPEND = 8, file_ops = (\<lambda>_. ram_ops),
     type_ops = (\<lambda>_. ram_type), device_find = (\<lambda>_. None), device_name = (\<lambda>_. []), device_open = (\<lambda>_ w. (0, w)),
     device_close = (\<lambda>_ w. w)\<rparr>"

definition ram_state :: "unit dfs" where
  "ram_state = (dfs_init ())\<lparr>op_table := [Some 0], fs_table := [\<lparr>fs_dev = None, fs_path = Some [SLASH], fs_ops = Some 0\<rparr>]\<rparr>"

lemma ram_ok: "env_ok ram_env" "fdt_wf ram_state"
  using same_table_wf(1) [of "dfs_init ()" ram_state] fdt_wf_init [of "()"]
  by (auto simp: env_ok_def ram_env_def ram_ops_def keeps_header_def fdt_wf_def ram_state_def dfs_init_def)

lemma ram_path: "full_path True [SLASH, 97] s = Some (Some [SLASH, 97])"
proof -
  have "comps [SLASH, 97] = [[], [97]]" by (simp add: comps.simps)
  then have "normalize_buf ([SLASH, 97] @ [0]) = Some (Some [SLASH, 97])"
    by (subst normalize_buf_spec) (simp_all add: normalized_def path_text_def)
  then show ?thesis by (simp add: full_path_def dfs_normalize_path_def)
qed

lemma ram_open: "\<exists>s1. posix_open ram_env True (Some 5) (\<lambda>_. True) [SLASH, 97] 0 ram_state = Some (3, None, s1)"
  by (simp add: posix_open_def fd_new_def fd_alloc_def fd_get_def fd_put_def on_fd_def dfs_file_open_def ram_path
      dfs_filesystem_lookup_def ram_state_def dfs_init_def ram_env_def ram_type_def ram_ops_def dfs_subdir_def Let_def
      DFS_FD_OFFSET_def DFS_FD_MAX_def)

lemma open_close_witness:
  "\<exists>s1 s2. posix_open ram_env True (Some 5) (\<lambda>_. True) [SLASH, 97] 0 ram_state = Some (3, None, s1) \<and> fdt_wf s1 \<and>
    fd_refs s1 = (fd_refs ram_state)(0 \<mapsto> 1) \<and>
    posix_close ram_env 3 s1 = Some (0, None, s2) \<and> fdt_wf s2 \<and> fd_refs s2 = fd_refs ram_state"
proof -
  have a: "\<not> driver_close ram_env d w < 0" for d w
    by (simp add: driver_close_def ram_env_def ram_ops_def split: option.split)
  have e: "\<And>p. Some 5 = Some p \<Longrightarrow> fd_store ram_state p = None" by (simp add: ram_state_def dfs_init_def)
  have n: "full_path True [SLASH, 97] ram_state \<noteq> None" by (simp add: ram_path)
  obtain s1 where s1: "posix_open ram_env True (Some 5) (\<lambda>_. True) [SLASH, 97] 0 ram_state = Some (3, None, s1)"
    using ram_open by blast
  from open_close [where grow = True and flags = 0 and mem = "\<lambda>_. True" and new = "Some 5", OF ram_ok(2) e ram_ok(1) n] s1
  show ?thesis by (auto simp: a DFS_FD_OFFSET_def)
qed

text \<open>Giving back the last reference frees the descriptor, so that another one follows a pointer to freed memory.\<close>

lemma put_freed:
  assumes wf: "fdt_wf b" and i: "i < length (fds b)" "fds b ! i = Some p" "fd_refs b i = Some 1"
  shows "\<exists>c. fd_put (Some p) b = Some c \<and> fd_put (Some p) c = None"
proof -
  obtain e where e: "fd_store b p = Some e" "ref_count e = 1" using i by (auto simp: fd_refs_def)
  have u: "j < length (fds b) \<Longrightarrow> fds b ! j = Some p \<Longrightarrow> j = i" for j by (rule fdt_wfD(3) [OF wf _ i(1) _ i(2)])
  have "fd_clear p (fds b) = (True, (fds b)[i := None])" by (rule fd_clear_spec [OF i(1,2) u])
  then show ?thesis using e by (simp add: fd_put_def Let_def)
qed

text \<open>C37: Two threads that close the same descriptor at the same time. Each takes a reference, so both find the descriptor in use and
  both call the driver; then each gives back two references of the three there are. The one that comes last uses
  the descriptor after it has been freed.\<close>

theorem close_race:
  assumes wf: "fdt_wf s" and E: "env_ok E" and fd: "DFS_FD_OFFSET \<le> fd" "fd_refs s (nat (fd - DFS_FD_OFFSET)) = Some 1"
    and ops: "\<And>p d. fds s ! nat (fd - DFS_FD_OFFSET) = Some p \<Longrightarrow> fd_store s p = Some d \<Longrightarrow> fd_fops d \<noteq> None"
    and ok: "\<And>n f d w. fo_close (file_ops E n) = Some f \<Longrightarrow> 0 \<le> fst (f d w)"
  shows "\<exists>p r1 r2 s1 s2 s3. close_file E fd s = Some (Some (p, r1), s1) \<and> close_file E fd s1 = Some (Some (p, r2), s2) \<and>
    close_put p r1 s2 = Some (0, None, s3) \<and> close_put p r2 s3 = None"
proof -
  define i where "i = nat (fd - DFS_FD_OFFSET)"
  have fdi: "fd = int i + DFS_FD_OFFSET" using fd(1) by (simp add: i_def)
  have c: "closes E" using ok by (simp add: closes_def)
  obtain p d where p: "fds s ! i = Some p" "fd_store s p = Some d" "i < length (fds s)"
    using fd(2) unfolding i_def [symmetric] by (auto simp: fd_refs_def split: if_splits option.splits)
  have "fd_fops d \<noteq> None" using ops p(1,2) unfolding i_def by blast
  then obtain r1 s1 d1 where 1: "close_file E fd s = Some (Some (p, r1), s1)" "0 \<le> r1" "fdt_wf s1" "fd_refs s1 i = Some 2" "fds s1 = fds s"
    "fd_store s1 p = Some d1" "fd_fops d1 \<noteq> None"
    using close_file_spec [OF E fdi wf _ p(1,2)] fd(2) c unfolding i_def [symmetric] by auto
  then obtain r2 s2 where 2: "close_file E fd s1 = Some (Some (p, r2), s2)" "0 \<le> r2" "fdt_wf s2" "fd_refs s2 i = Some 3" "fds s2 = fds s"
    using close_file_spec [OF E fdi 1(3,4) _ 1(6,7)] p(1) c by auto
  have i2: "i < length (fds s2)" "fds s2 ! i = Some p" using p 2(5) by simp_all
  obtain a where a: "fd_put (Some p) s2 = Some a" "fdt_wf a" "fd_refs a i = Some 2" using fd_put_spec [OF 2(3) i2 2(4)] by auto
  have ia: "i < length (fds a)" "fds a ! i = Some p" using fd_put_keep(1) [OF i2(2,1) 2(4) _ a(1)] i2 by simp_all
  obtain b where b: "fd_put (Some p) a = Some b" "fdt_wf b" "fd_refs b i = Some 1" "fds b = fds a"
    using put_two [OF a(2) ia a(3)] by auto
  have "close_put p r1 s2 = Some (0, None, b)" using 1(2) a b by (simp add: close_put_def)
  moreover have "close_put p r2 b = None" using put_freed [OF b(2) _ _ b(3)] ia b(4) 2(2) by (auto simp: close_put_def)
  ultimately show ?thesis using 1(1) 2(1) by blast
qed

text \<open>A descriptor of the example with one reference and a file on it.\<close>

definition ram_opened :: "unit dfs" where
  "ram_opened = ram_state\<lparr>fds := [Some 5],
     fd_store := (\<lambda>_. None)(5 \<mapsto> zero_fd\<lparr>ref_count := 1, fd_magic := DFS_FD_MAGIC, fd_fops := Some 0\<rparr>)\<rparr>"

lemma close_race_witness:
  "\<exists>p r1 r2 s1 s2 s3. close_file ram_env 3 ram_opened = Some (Some (p, r1), s1) \<and> close_file ram_env 3 s1 = Some (Some (p, r2), s2) \<and>
    close_put p r1 s2 = Some (0, None, s3) \<and> close_put p r2 s3 = None"
proof (rule close_race)
  show "fdt_wf ram_opened" by (auto simp: fdt_wf_def ram_opened_def DFS_FD_MAX_def split: if_splits)
  show "env_ok ram_env" by (rule ram_ok)
qed (auto simp: fd_refs_def ram_opened_def DFS_FD_OFFSET_def ram_env_def ram_ops_def split: if_splits)

text \<open>
  \<open>dfs_unmount_device\<close> reads the device of every entry, so it follows a null pointer at the first entry without one: an
  empty entry, or a file system that is not on a device, such as the device file system that \<open>dfs_init\<close> mounts first.
\<close>

lemma unmount_device_null:
  assumes "fs_table s = f # fs" "fs_dev f = None"
  shows "dfs_unmount_device E dev s = None"
  using assms by (simp add: dfs_unmount_device_def)

text \<open>
  \<open>dfs_mount\<close> compares the paths in the table with the path it is given, not with the normalised one it stores: a path
  written differently is mounted over itself.
\<close>

lemma mount_loop_spelling:
  assumes "\<forall>f\<in>set tab. fs_ops f \<noteq> None \<longrightarrow> fs_path f \<noteq> None \<and> fs_path f \<noteq> Some path"
  shows "\<exists>e. mount_loop path tab i fs = Some (e, False)"
  using assms by (induction tab arbitrary: i fs) (auto split: option.splits)

end
