(* ===== verification/Memheap.thy ===== *)
theory Memheap
  imports Prelude
begin

text \<open>
  The memory heap of \<^verbatim>\<open>rt-thread/src/memheap.c\<close>: blocks with headers, chained in a ring from low to high addresses, and
  the ring of the free ones behind a header in the control block. The structure \<^verbatim>\<open>struct rt_memheap_item\<close> is kept as one map
  per field, from addresses to values: reading a field that was never written is a fault, and so is an access outside of
  the pool and the free list header. Address 0 is \<^verbatim>\<open>RT_NULL\<close>.
\<close>

section \<open>State\<close>

text \<open>
  \<^verbatim>\<open>struct rt_memheap\<close> with the memory it manages. \<open>mh_addr\<close> is the address of the object and \<open>free_header\<close> that of its member.
  Of the semaphore \<^verbatim>\<open>lock\<close> the model has the results of \<^verbatim>\<open>rt_sem_take\<close>, an argument of each call; what happens between
  taking and releasing it is one step. \<open>mh_errno\<close> is the error number of the calling thread.
\<close>

record rt_memheap =
  mh_addr :: int
  start_addr :: int
  pool_size :: int
  available_size :: int
  max_used_size :: int
  block_list :: int
  free_list :: int
  free_header :: int
  locked :: bool
  mh_errno :: int
  magic :: "int \<rightharpoonup> int"
  mi_pool :: "int \<rightharpoonup> int"
  mi_next :: "int \<rightharpoonup> int"
  mi_prev :: "int \<rightharpoonup> int"
  next_free :: "int \<rightharpoonup> int"
  prev_free :: "int \<rightharpoonup> int"
  mh_bytes :: "int \<Rightarrow> byte"

definition RT_MEMHEAP_MAGIC :: int where "RT_MEMHEAP_MAGIC = 0x1ea01ea0"
definition RT_MEMHEAP_MASK :: int where "RT_MEMHEAP_MASK = 0xFFFFFFFE"
definition RT_MEMHEAP_USED :: int where "RT_MEMHEAP_USED = 0x01"
definition RT_MEMHEAP_FREED :: int where "RT_MEMHEAP_FREED = 0x00"
definition RT_MEMHEAP_MINIALLOC :: int where "RT_MEMHEAP_MINIALLOC = 12"
definition sizeof_memheap_item :: int where "sizeof_memheap_item = 24"
definition RT_MEMHEAP_SIZE :: int where "RT_MEMHEAP_SIZE = RT_ALIGN sizeof_memheap_item RT_ALIGN_SIZE"

definition item_at :: "rt_memheap \<Rightarrow> int \<Rightarrow> bool" where
  "item_at h p \<longleftrightarrow> p = free_header h \<or> start_addr h \<le> p \<and> p + sizeof_memheap_item \<le> start_addr h + pool_size h"

definition set_magic :: "int \<Rightarrow> int \<Rightarrow> rt_memheap \<Rightarrow> rt_memheap option" where
  "set_magic p v h = (if item_at h p then Some (h\<lparr>magic := (magic h)(p \<mapsto> v)\<rparr>) else None)"

definition set_pool :: "int \<Rightarrow> int \<Rightarrow> rt_memheap \<Rightarrow> rt_memheap option" where
  "set_pool p v h = (if item_at h p then Some (h\<lparr>mi_pool := (mi_pool h)(p \<mapsto> v)\<rparr>) else None)"

definition set_next :: "int \<Rightarrow> int \<Rightarrow> rt_memheap \<Rightarrow> rt_memheap option" where
  "set_next p v h = (if item_at h p then Some (h\<lparr>mi_next := (mi_next h)(p \<mapsto> v)\<rparr>) else None)"

definition set_prev :: "int \<Rightarrow> int \<Rightarrow> rt_memheap \<Rightarrow> rt_memheap option" where
  "set_prev p v h = (if item_at h p then Some (h\<lparr>mi_prev := (mi_prev h)(p \<mapsto> v)\<rparr>) else None)"

definition set_next_free :: "int \<Rightarrow> int \<Rightarrow> rt_memheap \<Rightarrow> rt_memheap option" where
  "set_next_free p v h = (if item_at h p then Some (h\<lparr>next_free := (next_free h)(p \<mapsto> v)\<rparr>) else None)"

definition set_prev_free :: "int \<Rightarrow> int \<Rightarrow> rt_memheap \<Rightarrow> rt_memheap option" where
  "set_prev_free p v h = (if item_at h p then Some (h\<lparr>prev_free := (prev_free h)(p \<mapsto> v)\<rparr>) else None)"

definition MEMITEM_SIZE :: "rt_memheap \<Rightarrow> int \<Rightarrow> int option" where
  "MEMITEM_SIZE h item = do { n \<leftarrow> mi_next h item; Some (u32 (n - item - RT_MEMHEAP_SIZE)) }"

definition RT_MEMHEAP_IS_USED :: "rt_memheap \<Rightarrow> int \<Rightarrow> bool option" where
  "RT_MEMHEAP_IS_USED h i = do { g \<leftarrow> magic h i; Some (g AND RT_MEMHEAP_USED \<noteq> 0) }"

section \<open>Initialisation\<close>

text \<open>\<open>obj\<close> is the address of the object, \<open>hdr\<close> that of its free list header, \<open>mem\<close> the memory before.\<close>

definition rt_memheap_init :: "int \<Rightarrow> int \<Rightarrow> (int \<Rightarrow> byte) \<Rightarrow> int \<Rightarrow> int \<Rightarrow> rt_memheap" where
  "rt_memheap_init obj hdr mem start size0 =
     (let pool = RT_ALIGN_DOWN size0 RT_ALIGN_SIZE;
          avail = u32 (pool - 2 * RT_MEMHEAP_SIZE);
          tail = u32 (start + avail + RT_MEMHEAP_SIZE) in
      \<lparr>mh_addr = obj, start_addr = start, pool_size = pool, available_size = avail, max_used_size = u32 (pool - avail),
       block_list = start, free_list = hdr, free_header = hdr, locked = False, mh_errno = 0,
       magic = [hdr \<mapsto> RT_MEMHEAP_MAGIC OR RT_MEMHEAP_FREED, start \<mapsto> RT_MEMHEAP_MAGIC OR RT_MEMHEAP_FREED,
         tail \<mapsto> RT_MEMHEAP_MAGIC OR RT_MEMHEAP_USED],
       mi_pool = [hdr \<mapsto> obj, start \<mapsto> obj, tail \<mapsto> obj],
       mi_next = [hdr \<mapsto> 0, start \<mapsto> tail, tail \<mapsto> start],
       mi_prev = [hdr \<mapsto> 0, start \<mapsto> tail, tail \<mapsto> start],
       next_free = [hdr \<mapsto> start, start \<mapsto> hdr, tail \<mapsto> 0],
       prev_free = [hdr \<mapsto> start, start \<mapsto> hdr, tail \<mapsto> 0],
       mh_bytes = mem\<rparr>)"

section \<open>The free list and the splitting of blocks\<close>

text \<open>Taking \<open>p\<close> out of the ring of free blocks.\<close>

definition unlink_free :: "int \<Rightarrow> rt_memheap \<Rightarrow> rt_memheap option" where
  "unlink_free p h = do {
     nx \<leftarrow> next_free h p;
     pv \<leftarrow> prev_free h p;
     h1 \<leftarrow> set_prev_free nx pv h;
     pv1 \<leftarrow> prev_free h1 p;
     nx1 \<leftarrow> next_free h1 p;
     set_next_free pv1 nx1 h1
   }"

text \<open>Putting \<open>p\<close> behind the header of the ring.\<close>

definition insert_free :: "int \<Rightarrow> rt_memheap \<Rightarrow> rt_memheap option" where
  "insert_free p h = do {
     n \<leftarrow> next_free h (free_list h);
     h1 \<leftarrow> set_next_free p n h;
     h2 \<leftarrow> set_prev_free p (free_list h) h1;
     n1 \<leftarrow> next_free h2 (free_list h);
     h3 \<leftarrow> set_prev_free n1 p h2;
     set_next_free (free_list h) p h3
   }"

text \<open>The new header \<open>q\<close> in the middle of the block \<open>p\<close>.\<close>

definition split_block :: "int \<Rightarrow> int \<Rightarrow> rt_memheap \<Rightarrow> rt_memheap option" where
  "split_block p q h = do {
     h1 \<leftarrow> set_magic q (RT_MEMHEAP_MAGIC OR RT_MEMHEAP_FREED) h;
     h2 \<leftarrow> set_pool q (mh_addr h) h1;
     h3 \<leftarrow> set_prev q p h2;
     n \<leftarrow> mi_next h3 p;
     h4 \<leftarrow> set_next q n h3;
     n1 \<leftarrow> mi_next h4 p;
     h5 \<leftarrow> set_prev n1 q h4;
     set_next p q h5
   }"

text \<open>The statistics after an allocation of \<open>n\<close> bytes.\<close>

definition take_bytes :: "int \<Rightarrow> rt_memheap \<Rightarrow> rt_memheap" where
  "take_bytes n h = (let avail = u32 (available_size h - n); used = u32 (pool_size h - avail) in
     h\<lparr>available_size := avail, max_used_size := (if max_used_size h < used then used else max_used_size h)\<rparr>)"

section \<open>Allocation\<close>

text \<open>The search of the free list, from the block \<open>p\<close> on; the result is the block it stops at and the size found last.\<close>

partial_function (option) memheap_search :: "rt_memheap \<Rightarrow> int \<Rightarrow> int \<Rightarrow> int \<Rightarrow> (int \<times> int) option" where
  "memheap_search h sz p free_size =
     (if p \<noteq> free_list h \<and> free_size < sz then
        (case MEMITEM_SIZE h p of None \<Rightarrow> None
         | Some n \<Rightarrow> if n < sz then (case next_free h p of None \<Rightarrow> None | Some q \<Rightarrow> memheap_search h sz q n)
             else memheap_search h sz p n)
      else Some (p, free_size))"

definition memheap_take :: "int \<Rightarrow> int \<Rightarrow> int \<Rightarrow> rt_memheap \<Rightarrow> rt_memheap option" where
  "memheap_take p free_size sz h = do {
     h1 \<leftarrow> (if u32 (sz + RT_MEMHEAP_SIZE + RT_MEMHEAP_MINIALLOC) \<le> free_size then do {
         let q = p + sz + RT_MEMHEAP_SIZE;
         h1 \<leftarrow> split_block p q h;
         h2 \<leftarrow> unlink_free p h1;
         h3 \<leftarrow> set_next_free p 0 h2;
         h4 \<leftarrow> set_prev_free p 0 h3;
         h5 \<leftarrow> insert_free q h4;
         Some (take_bytes (sz + RT_MEMHEAP_SIZE) h5)
       } else do {
         h1 \<leftarrow> unlink_free p (take_bytes free_size h);
         h2 \<leftarrow> set_next_free p 0 h1;
         set_prev_free p 0 h2
       });
     set_magic p (RT_MEMHEAP_MAGIC OR RT_MEMHEAP_USED) h1
   }"

definition memheap_size :: "int \<Rightarrow> int" where
  "memheap_size sz0 = (let sz = RT_ALIGN sz0 RT_ALIGN_SIZE in if sz < RT_MEMHEAP_MINIALLOC then RT_MEMHEAP_MINIALLOC else sz)"

definition rt_memheap_alloc :: "int \<Rightarrow> rt_memheap \<Rightarrow> int \<Rightarrow> (int \<times> rt_memheap) option" where
  "rt_memheap_alloc result h sz0 =
     (let sz = memheap_size sz0 in
      if sz < available_size h then
        (if \<not> locked h \<and> result \<noteq> 0 then Some (0, h\<lparr>mh_errno := result\<rparr>)
         else do {
           p0 \<leftarrow> next_free h (free_list h);
           (p, free_size) \<leftarrow> memheap_search h sz p0 0;
           (if sz \<le> free_size then do {
              h1 \<leftarrow> memheap_take p free_size sz h;
              Some (p + RT_MEMHEAP_SIZE, h1)
            } else Some (0, h))
         })
      else Some (0, h))"

section \<open>Release\<close>

definition merge_left :: "int \<Rightarrow> rt_memheap \<Rightarrow> (int \<times> bool \<times> rt_memheap) option" where
  "merge_left p h = do {
     pv \<leftarrow> mi_prev h p;
     used \<leftarrow> RT_MEMHEAP_IS_USED h pv;
     (if \<not> used then do {
        let h1 = h\<lparr>available_size := u32 (available_size h + RT_MEMHEAP_SIZE)\<rparr>;
        nx \<leftarrow> mi_next h1 p;
        h2 \<leftarrow> set_next pv nx h1;
        nx1 \<leftarrow> mi_next h2 p;
        pv1 \<leftarrow> mi_prev h2 p;
        h3 \<leftarrow> set_prev nx1 pv1 h2;
        Some (pv1, False, h3)
      } else Some (p, True, h))
   }"

definition merge_right :: "int \<Rightarrow> rt_memheap \<Rightarrow> rt_memheap option" where
  "merge_right p h = do {
     nx \<leftarrow> mi_next h p;
     used \<leftarrow> RT_MEMHEAP_IS_USED h nx;
     (if \<not> used then do {
        let h1 = h\<lparr>available_size := u32 (available_size h + RT_MEMHEAP_SIZE)\<rparr>;
        n2 \<leftarrow> mi_next h1 nx;
        h2 \<leftarrow> set_prev n2 p h1;
        n3 \<leftarrow> mi_next h2 nx;
        h3 \<leftarrow> set_next p n3 h2;
        unlink_free nx h3
      } else Some h)
   }"

text \<open>The insertion at the end of \<open>rt_memheap_free\<close> (without \<^verbatim>\<open>RT_MEMHEAP_BEST_MODE\<close>).\<close>

definition insert_first :: "int \<Rightarrow> rt_memheap \<Rightarrow> rt_memheap option" where
  "insert_first p h = do {
     n \<leftarrow> next_free h (free_list h);
     h1 \<leftarrow> set_next_free p n h;
     pv \<leftarrow> prev_free h1 n;
     h2 \<leftarrow> set_prev_free p pv h1;
     pv1 \<leftarrow> prev_free h2 n;
     h3 \<leftarrow> set_next_free pv1 p h2;
     set_prev_free n p h3
   }"

text \<open>The part of \<open>rt_memheap_free\<close> with the lock held.\<close>

definition memheap_give :: "int \<Rightarrow> rt_memheap \<Rightarrow> rt_memheap option" where
  "memheap_give p h = do {
     h1 \<leftarrow> set_magic p (RT_MEMHEAP_MAGIC OR RT_MEMHEAP_FREED) h;
     n \<leftarrow> MEMITEM_SIZE h1 p;
     let h2 = h1\<lparr>available_size := u32 (available_size h1 + n)\<rparr>;
     (p1, insert_header, h3) \<leftarrow> merge_left p h2;
     h4 \<leftarrow> merge_right p1 h3;
     (if insert_header then insert_first p1 h4 else Some h4)
   }"

text \<open>The heap is found in the header; a header that names another heap is outside of the model (a failing assertion).\<close>

definition rt_memheap_free :: "int \<Rightarrow> rt_memheap \<Rightarrow> int \<Rightarrow> rt_memheap option" where
  "rt_memheap_free result h ptr =
     (if ptr = 0 then Some h
      else do {
        let p = ptr - RT_MEMHEAP_SIZE;
        g \<leftarrow> magic h p;
        RT_ASSERT (g = RT_MEMHEAP_MAGIC OR RT_MEMHEAP_USED);
        nx \<leftarrow> mi_next h p;
        g1 \<leftarrow> magic h nx;
        RT_ASSERT (g1 AND RT_MEMHEAP_MASK = RT_MEMHEAP_MAGIC);
        pool \<leftarrow> mi_pool h p;
        RT_ASSERT (pool = mh_addr h);
        (if \<not> locked h \<and> result \<noteq> 0 then Some (h\<lparr>mh_errno := result\<rparr>) else memheap_give p h)
      })"

section \<open>Reallocation\<close>

definition mh_copy :: "int \<Rightarrow> int \<Rightarrow> int \<Rightarrow> rt_memheap \<Rightarrow> rt_memheap" where
  "mh_copy dst src n h = h\<lparr>mh_bytes := (\<lambda>a. if dst \<le> a \<and> a < dst + n then mh_bytes h (a - dst + src) else mh_bytes h a)\<rparr>"

text \<open>Growing into the free block behind: \<open>None\<close> inside when there is none or it is too small.\<close>

definition grow_block :: "int \<Rightarrow> int \<Rightarrow> int \<Rightarrow> rt_memheap \<Rightarrow> rt_memheap option option" where
  "grow_block p oldsize newsize h = do {
     nx \<leftarrow> mi_next h p;
     RT_ASSERT (p < nx);
     used \<leftarrow> RT_MEMHEAP_IS_USED h nx;
     (if used then Some None
      else do {
        n \<leftarrow> MEMITEM_SIZE h nx;
        RT_ASSERT (0 < nx);
        (if u32 (newsize + RT_MEMHEAP_MINIALLOC) < u32 (s32 n + oldsize) then do {
           let h1 = take_bytes (newsize - oldsize) h;
           h2 \<leftarrow> unlink_free nx h1;
           n2 \<leftarrow> mi_next h2 nx;
           pv \<leftarrow> mi_prev h2 nx;
           h3 \<leftarrow> set_prev n2 pv h2;
           pv1 \<leftarrow> mi_prev h3 nx;
           n3 \<leftarrow> mi_next h3 nx;
           h4 \<leftarrow> set_next pv1 n3 h3;
           let q = p + RT_MEMHEAP_SIZE + newsize;
           h5 \<leftarrow> split_block p q h4;
           h6 \<leftarrow> insert_free q h5;
           Some (Some h6)
         } else Some None)
      })
   }"

text \<open>Splitting off the rest of a block that shrinks, merged with a free block behind it.\<close>

definition shrink_block :: "int \<Rightarrow> int \<Rightarrow> rt_memheap \<Rightarrow> rt_memheap option" where
  "shrink_block p newsize h = do {
     let q = p + newsize + RT_MEMHEAP_SIZE;
     h1 \<leftarrow> split_block p q h;
     nx \<leftarrow> mi_next h1 q;
     used \<leftarrow> RT_MEMHEAP_IS_USED h1 nx;
     h2 \<leftarrow> (if \<not> used then do {
         n \<leftarrow> MEMITEM_SIZE h1 nx;
         let h2 = h1\<lparr>available_size := u32 (available_size h1 - n)\<rparr>;
         n2 \<leftarrow> mi_next h2 nx;
         h3 \<leftarrow> set_prev n2 q h2;
         n3 \<leftarrow> mi_next h3 nx;
         h4 \<leftarrow> set_next q n3 h3;
         unlink_free nx h4
       } else Some h1);
     h3 \<leftarrow> insert_free q h2;
     n \<leftarrow> MEMITEM_SIZE h3 q;
     Some (h3\<lparr>available_size := u32 (available_size h3 + n)\<rparr>)
   }"

text \<open>\<open>result i\<close> is the result of the \<open>i\<close>-th time that the call takes the lock.\<close>

definition rt_memheap_realloc :: "(nat \<Rightarrow> int) \<Rightarrow> rt_memheap \<Rightarrow> int \<Rightarrow> int \<Rightarrow> (int \<times> rt_memheap) option" where
  "rt_memheap_realloc result h ptr newsize0 =
     (if newsize0 = 0 then do { h1 \<leftarrow> rt_memheap_free (result 0) h ptr; Some (0, h1) }
      else if ptr = 0 then rt_memheap_alloc (result 0) h (memheap_size newsize0)
      else do {
        let newsize = memheap_size newsize0;
        let p = ptr - RT_MEMHEAP_SIZE;
        oldsize \<leftarrow> MEMITEM_SIZE h p;
        (if oldsize < newsize then
           (if \<not> locked h \<and> result 0 \<noteq> 0 then Some (0, h\<lparr>mh_errno := result 0\<rparr>)
            else do {
              g \<leftarrow> grow_block p oldsize newsize h;
              (case g of
                 Some h1 \<Rightarrow> Some (ptr, h1)
               | None \<Rightarrow> do {
                   (new_ptr, h1) \<leftarrow> rt_memheap_alloc (result 1) h newsize;
                   (if new_ptr \<noteq> 0 then do {
                      h2 \<leftarrow> rt_memheap_free (result 2) (mh_copy new_ptr ptr oldsize h1) ptr;
                      Some (new_ptr, h2)
                    } else Some (0, h1))
                 })
            })
         else if oldsize \<le> u32 (newsize + RT_MEMHEAP_SIZE + RT_MEMHEAP_MINIALLOC) then Some (ptr, h)
         else if \<not> locked h \<and> result 0 \<noteq> 0 then Some (0, h\<lparr>mh_errno := result 0\<rparr>)
         else do { h1 \<leftarrow> shrink_block p newsize h; Some (ptr, h1) })
      })"

text \<open>\<open>rt_memheap_info\<close>: the total, the used and the most that was used; nothing when the lock is not obtained.\<close>

definition rt_memheap_info :: "int \<Rightarrow> rt_memheap \<Rightarrow> (int \<times> int \<times> int) option \<times> rt_memheap" where
  "rt_memheap_info result h =
     (if \<not> locked h \<and> result \<noteq> 0 then (None, h\<lparr>mh_errno := result\<rparr>)
      else (Some (pool_size h, u32 (pool_size h - available_size h), max_used_size h), h))"

declare memheap_search.simps [code]

end
