(* ===== verification/Linked.thy ===== *)
theory Linked
  imports Main
begin

text \<open>
  Doubly linked lists in memory: \<open>linked nf pf a xs b\<close> says that the nodes \<open>xs\<close> lie between \<open>a\<close> and \<open>b\<close>, following \<open>nf\<close>
  forwards and \<open>pf\<close> backwards. A ring through \<open>a\<close> is \<open>linked nf pf a xs a\<close>.
\<close>

fun linked :: "('p \<rightharpoonup> 'p) \<Rightarrow> ('p \<rightharpoonup> 'p) \<Rightarrow> 'p \<Rightarrow> 'p list \<Rightarrow> 'p \<Rightarrow> bool" where
  "linked nf pf a [] b \<longleftrightarrow> nf a = Some b \<and> pf b = Some a"
| "linked nf pf a (x # xs) b \<longleftrightarrow> nf a = Some x \<and> pf x = Some a \<and> linked nf pf x xs b"

lemma linked_append:
  "linked nf pf a (xs @ x # ys) b \<longleftrightarrow> linked nf pf a xs x \<and> linked nf pf x ys b"
  by (induction xs arbitrary: a) auto

lemma linked_frame:
  assumes "linked nf pf a xs b" "\<And>y. y \<in> set (a # xs) \<Longrightarrow> nf' y = nf y" "\<And>y. y \<in> set (xs @ [b]) \<Longrightarrow> pf' y = pf y"
  shows "linked nf' pf' a xs b"
  using assms by (induction xs arbitrary: a) auto

lemma linked_next [simp]: "p \<notin> set (a # xs) \<Longrightarrow> linked (nf(p := v)) pf a xs b = linked nf pf a xs b"
  by (induction xs arbitrary: a) auto

lemma linked_prev [simp]: "p \<notin> set (xs @ [b]) \<Longrightarrow> linked nf (pf(p := v)) a xs b = linked nf pf a xs b"
  by (induction xs arbitrary: a) auto

lemma linked_first: "linked nf pf a xs b \<Longrightarrow> nf a = Some (hd (xs @ [b]))"
  by (cases xs) auto

lemma linked_last: "linked nf pf a xs b \<Longrightarrow> pf b = Some (last (a # xs))"
  by (induction xs arbitrary: a) auto

lemma linked_snoc: "linked nf pf a (xs @ [x]) b \<longleftrightarrow> linked nf pf a xs x \<and> nf x = Some b \<and> pf b = Some x"
  by (simp add: linked_append)

text \<open>Taking a node out.\<close>

lemma linked_remove:
  assumes l: "linked nf pf a (xs @ x # ys) b" and d: "distinct (xs @ x # ys)" "a \<notin> set (xs @ x # ys)" "b \<notin> set (xs @ x # ys)"
  defines "n \<equiv> hd (ys @ [b])" and "p \<equiv> last (a # xs)"
  shows "nf x = Some n" "pf x = Some p" "linked (nf(p \<mapsto> n)) (pf(n \<mapsto> p)) a (xs @ ys) b"
proof -
  have l1: "linked nf pf a xs x" "linked nf pf x ys b" using l by (simp_all add: linked_append)
  show "nf x = Some n" "pf x = Some p" using linked_first [OF l1(2)] linked_last [OF l1(1)] by (simp_all add: n_def p_def)
  show "linked (nf(p \<mapsto> n)) (pf(n \<mapsto> p)) a (xs @ ys) b"
  proof (cases xs rule: rev_cases)
    case Nil
    then show ?thesis using l d by (cases ys) (auto simp: n_def p_def)
  next
    case (snoc us u)
    then show ?thesis using l d by (cases ys) (auto simp: n_def p_def linked_append)
  qed
qed

text \<open>Putting a node behind \<open>a\<close>.\<close>

lemma linked_insert:
  assumes l: "linked nf pf a xs b" and x: "x \<noteq> a" "x \<noteq> b" "x \<notin> set xs" and d: "distinct xs" "a \<notin> set xs" "b \<notin> set xs"
  defines "n \<equiv> hd (xs @ [b])"
  shows "linked (nf(x \<mapsto> n, a \<mapsto> x)) (pf(x \<mapsto> a, n \<mapsto> x)) a (x # xs) b"
  using l x d by (cases xs) (auto simp: n_def)

text \<open>Putting a node behind one in the middle.\<close>

lemma linked_insert_mid:
  assumes l: "linked nf pf a (xs @ p # ys) b" and x: "x \<noteq> a" "x \<noteq> b" "x \<notin> set (xs @ p # ys)"
    and d: "distinct (xs @ p # ys)" "a \<notin> set (xs @ p # ys)" "b \<notin> set (xs @ p # ys)"
  defines "n \<equiv> hd (ys @ [b])"
  shows "nf p = Some n" "linked (nf(x \<mapsto> n, p \<mapsto> x)) (pf(x \<mapsto> p, n \<mapsto> x)) a (xs @ p # x # ys) b"
proof -
  have l1: "linked nf pf a xs p" "linked nf pf p ys b" using l by (simp_all add: linked_append)
  have n: "n \<in> set (b # ys)" unfolding n_def by (cases ys) auto
  show "nf p = Some n" using linked_first [OF l1(2)] by (simp add: n_def)
  have "linked (nf(x \<mapsto> n, p \<mapsto> x)) (pf(x \<mapsto> p, n \<mapsto> x)) p (x # ys) b"
    unfolding n_def by (rule linked_insert [OF l1(2)]) (use x d in auto)
  moreover have "linked (nf(x \<mapsto> n, p \<mapsto> x)) (pf(x \<mapsto> p, n \<mapsto> x)) a xs p"
    by (rule linked_frame [OF l1(1)]) (use x d n in auto)
  ultimately show "linked (nf(x \<mapsto> n, p \<mapsto> x)) (pf(x \<mapsto> p, n \<mapsto> x)) a (xs @ p # x # ys) b" by (simp add: linked_append)
qed

end
