(* ===== verification/Memheap_Props.thy ===== *)
theory Memheap_Props
  imports Memheap Blocks Linked
begin

text \<open>
  The invariant of the memory heap: the ring of headers describes blocks that fill the pool, the ring of free blocks holds
  exactly the free ones, and the counters are exact. What each operation does to both rings.
\<close>

section \<open>Sizes and marks\<close>

lemma memheap_consts [simp]:
  "RT_MEMHEAP_SIZE = 32" "RT_MEMHEAP_MINIALLOC = 12" "sizeof_memheap_item = 24"
  "RT_MEMHEAP_MAGIC OR RT_MEMHEAP_USED = 0x1ea01ea1" "RT_MEMHEAP_MAGIC OR RT_MEMHEAP_FREED = 0x1ea01ea0"
  by (simp_all add: RT_MEMHEAP_SIZE_def RT_MEMHEAP_MINIALLOC_def sizeof_memheap_item_def RT_MEMHEAP_MAGIC_def
      RT_MEMHEAP_USED_def RT_MEMHEAP_FREED_def RT_ALIGN_32 u32_def)

definition tag :: "bool \<Rightarrow> int" where "tag u = (if u then 0x1ea01ea1 else 0x1ea01ea0)"

lemma tag_simps [simp]: "tag True = 0x1ea01ea1" "tag False = 0x1ea01ea0" "tag u AND RT_MEMHEAP_MASK = RT_MEMHEAP_MAGIC"
  "(tag u = 0x1ea01ea1) = u"
  by (simp_all add: tag_def RT_MEMHEAP_MASK_def RT_MEMHEAP_MAGIC_def)

lemma is_used_tag [simp]: "magic h p = Some (tag u) \<Longrightarrow> RT_MEMHEAP_IS_USED h p = Some u"
  by (simp add: RT_MEMHEAP_IS_USED_def RT_MEMHEAP_USED_def tag_def)

section \<open>Lists of blocks and their addresses\<close>

fun starts :: "int \<Rightarrow> block list \<Rightarrow> int list" where
  "starts p [] = []"
| "starts p ((n, u) # bs) = p # starts (p + n) bs"

fun tags :: "(int \<rightharpoonup> int) \<Rightarrow> (int \<rightharpoonup> int) \<Rightarrow> int \<Rightarrow> int \<Rightarrow> block list \<Rightarrow> bool" where
  "tags g po a p [] \<longleftrightarrow> True"
| "tags g po a p ((n, u) # bs) \<longleftrightarrow> g p = Some (tag u) \<and> po p = Some a \<and> tags g po a (p + n) bs"

fun frees :: "int \<Rightarrow> block list \<Rightarrow> int set" where
  "frees p [] = {}"
| "frees p ((n, u) # bs) = (if u then {} else {p}) \<union> frees (p + n) bs"

fun free_sum :: "block list \<Rightarrow> int" where
  "free_sum [] = 0"
| "free_sum ((n, u) # bs) = (if u then 0 else n - 32) + free_sum bs"

definition large :: "block list \<Rightarrow> bool" where "large bs \<longleftrightarrow> (\<forall>(n, u) \<in> set bs. 44 \<le> n)"

lemma large_simps [simp]:
  "large []" "large ((n, u) # bs) \<longleftrightarrow> 44 \<le> n \<and> large bs" "large (xs @ ys) \<longleftrightarrow> large xs \<and> large ys"
  by (auto simp: large_def)

lemma large_roomy: "large bs \<Longrightarrow> roomy bs"
  by (induction bs) auto

lemma starts_append [simp]: "starts p (xs @ ys) = starts p xs @ starts (endpos p xs) ys"
  by (induction p xs rule: endpos.induct) auto

lemma tags_append [simp]: "tags g po a p (xs @ ys) \<longleftrightarrow> tags g po a p xs \<and> tags g po a (endpos p xs) ys"
  by (induction p xs rule: endpos.induct) auto

lemma frees_append [simp]: "frees p (xs @ ys) = frees p xs \<union> frees (endpos p xs) ys"
  by (induction p xs rule: endpos.induct) auto

lemma free_sum_append [simp]: "free_sum (xs @ ys) = free_sum xs + free_sum ys"
  by (induction xs) auto

lemma starts_range: "large bs \<Longrightarrow> x \<in> set (starts p bs) \<Longrightarrow> p \<le> x \<and> x + 44 \<le> endpos p bs"
proof (induction p bs rule: endpos.induct)
  case (2 p n u bs)
  then show ?case using roomy_ge [OF large_roomy, of bs "p + n"] by auto
qed simp

lemma starts_distinct: "large bs \<Longrightarrow> distinct (starts p bs)"
proof (induction p bs rule: endpos.induct)
  case (2 p n u bs)
  then show ?case using starts_range [of bs p "p + n"] by auto
qed simp

lemma frees_starts: "frees p bs \<subseteq> set (starts p bs)"
  by (induction p bs rule: endpos.induct) auto

lemma hd_starts [simp]: "hd (starts p bs @ [endpos p bs]) = p"
  by (induction p bs rule: endpos.induct) auto

lemma tags_upd [simp]:
  "x \<notin> set (starts p bs) \<Longrightarrow> tags (g(x := v)) po a p bs = tags g po a p bs"
  "x \<notin> set (starts p bs) \<Longrightarrow> tags g (po(x := v)) a p bs = tags g po a p bs"
  by (induction p bs rule: endpos.induct) auto

lemma free_sum_bounds: "large bs \<Longrightarrow> 0 \<le> free_sum bs \<and> p + free_sum bs \<le> endpos p bs"
  by (induction p bs rule: endpos.induct) auto

lemma free_sum_room:
  assumes "large bs" "bs \<noteq> []"
  shows "p + free_sum bs + 32 \<le> endpos p bs"
proof -
  obtain n u cs where bs: "bs = (n, u) # cs" using assms(2) by (cases bs) auto
  then show ?thesis using free_sum_bounds [of cs "p + n"] assms(1) by auto
qed

section \<open>The ring of free blocks\<close>

definition flist :: "rt_memheap \<Rightarrow> int list \<Rightarrow> bool" where
  "flist h fl \<longleftrightarrow> free_list h = free_header h \<and> linked (next_free h) (prev_free h) (free_header h) fl (free_header h) \<and>
     distinct fl \<and> free_header h \<notin> set fl \<and> (\<forall>x \<in> set fl. item_at h x)"

lemma flist_other [simp]:
  "flist (h\<lparr>magic := a\<rparr>) fl = flist h fl" "flist (h\<lparr>mi_pool := a\<rparr>) fl = flist h fl" "flist (h\<lparr>mi_next := a\<rparr>) fl = flist h fl"
  "flist (h\<lparr>mi_prev := a\<rparr>) fl = flist h fl" "flist (h\<lparr>available_size := n\<rparr>) fl = flist h fl"
  "flist (h\<lparr>max_used_size := n\<rparr>) fl = flist h fl" "flist (h\<lparr>mh_errno := n\<rparr>) fl = flist h fl"
  "flist (h\<lparr>mh_bytes := b\<rparr>) fl = flist h fl"
  by (simp_all add: flist_def item_at_def)

lemma item_at_header [simp]: "item_at h (free_header h)" by (simp add: item_at_def)

lemma item_at_upd [simp]:
  "item_at (h\<lparr>magic := a\<rparr>) p = item_at h p" "item_at (h\<lparr>mi_pool := a\<rparr>) p = item_at h p"
  "item_at (h\<lparr>mi_next := a\<rparr>) p = item_at h p" "item_at (h\<lparr>mi_prev := a\<rparr>) p = item_at h p"
  "item_at (h\<lparr>next_free := a\<rparr>) p = item_at h p" "item_at (h\<lparr>prev_free := a\<rparr>) p = item_at h p"
  "item_at (h\<lparr>available_size := n\<rparr>) p = item_at h p" "item_at (h\<lparr>max_used_size := n\<rparr>) p = item_at h p"
  "item_at (h\<lparr>mh_errno := n\<rparr>) p = item_at h p" "item_at (h\<lparr>mh_bytes := b\<rparr>) p = item_at h p"
  by (simp_all add: item_at_def)

lemmas set_defs = set_magic_def set_pool_def set_next_def set_prev_def set_next_free_def set_prev_free_def

lemma unlink_free_ok:
  assumes f: "flist h (fs @ x # gs)"
  shows "\<exists>nf pf. unlink_free x h = Some (h\<lparr>next_free := nf, prev_free := pf\<rparr>) \<and> flist (h\<lparr>next_free := nf, prev_free := pf\<rparr>) (fs @ gs)"
proof -
  let ?H = "free_header h" let ?n = "hd (gs @ [?H])" and ?p = "last (?H # fs)"
  have d: "distinct (fs @ x # gs)" "?H \<notin> set (fs @ x # gs)" using f by (auto simp: flist_def)
  note r = linked_remove [OF _ d(1) d(2) d(2), of "next_free h" "prev_free h"]
  have l: "linked (next_free h) (prev_free h) ?H (fs @ x # gs) ?H" using f by (simp add: flist_def)
  have n: "?n \<in> set (?H # gs)" by (cases gs) auto
  have p: "?p \<in> set (?H # fs)" by (metis last_in_set list.discI)
  have ne: "x \<noteq> ?n" "x \<noteq> ?p" "item_at h ?n" "item_at h ?p" using n p d f by (auto simp: flist_def)
  have "unlink_free x h = Some (h\<lparr>next_free := (next_free h)(?p \<mapsto> ?n), prev_free := (prev_free h)(?n \<mapsto> ?p)\<rparr>)"
    using r(1,2) [OF l] ne by (simp add: unlink_free_def set_defs)
  moreover have "flist (h\<lparr>next_free := (next_free h)(?p \<mapsto> ?n), prev_free := (prev_free h)(?n \<mapsto> ?p)\<rparr>) (fs @ gs)"
    using r(3) [OF l] d f by (auto simp: flist_def)
  ultimately show ?thesis by blast
qed

lemma insert_ring:
  assumes f: "flist h fl" and x: "x \<noteq> free_header h" "x \<notin> set fl" "item_at h x"
  defines "n \<equiv> hd (fl @ [free_header h])"
  shows "next_free h (free_header h) = Some n" "item_at h n" "x \<noteq> n" "prev_free h n = Some (free_header h)"
    "flist (h\<lparr>next_free := (next_free h)(x \<mapsto> n, free_header h \<mapsto> x), prev_free := (prev_free h)(x \<mapsto> free_header h, n \<mapsto> x)\<rparr>) (x # fl)"
proof -
  let ?H = "free_header h"
  have l: "linked (next_free h) (prev_free h) ?H fl ?H" and d: "distinct fl" "?H \<notin> set fl" using f by (auto simp: flist_def)
  show "next_free h ?H = Some n" using linked_first [OF l] by (simp add: n_def)
  show "item_at h n" "x \<noteq> n" using f x by (cases fl; auto simp: n_def flist_def)+
  show "prev_free h n = Some ?H" using l by (cases fl) (auto simp: n_def)
  show "flist (h\<lparr>next_free := (next_free h)(x \<mapsto> n, ?H \<mapsto> x), prev_free := (prev_free h)(x \<mapsto> ?H, n \<mapsto> x)\<rparr>) (x # fl)"
    using linked_insert [OF l x(1,1,2) d d(2)] f x by (simp add: flist_def n_def)
qed

lemma insert_free_ok:
  assumes "flist h fl" "x \<noteq> free_header h" "x \<notin> set fl" "item_at h x"
  shows "\<exists>nf pf. insert_free x h = Some (h\<lparr>next_free := nf, prev_free := pf\<rparr>) \<and> flist (h\<lparr>next_free := nf, prev_free := pf\<rparr>) (x # fl)"
    "\<exists>nf pf. insert_first x h = Some (h\<lparr>next_free := nf, prev_free := pf\<rparr>) \<and> flist (h\<lparr>next_free := nf, prev_free := pf\<rparr>) (x # fl)"
proof -
  note r = insert_ring [OF assms]
  have fl: "free_list h = free_header h" using assms(1) by (simp add: flist_def)
  show "\<exists>nf pf. insert_free x h = Some (h\<lparr>next_free := nf, prev_free := pf\<rparr>) \<and> flist (h\<lparr>next_free := nf, prev_free := pf\<rparr>) (x # fl)"
    using r assms fl by (intro exI conjI) (simp_all add: insert_free_def set_defs)
  show "\<exists>nf pf. insert_first x h = Some (h\<lparr>next_free := nf, prev_free := pf\<rparr>) \<and> flist (h\<lparr>next_free := nf, prev_free := pf\<rparr>) (x # fl)"
    using r assms fl by (intro exI conjI) (simp_all add: insert_first_def set_defs)
qed

section \<open>The ring of blocks\<close>

definition tail_at :: "rt_memheap \<Rightarrow> int" where "tail_at h = start_addr h + pool_size h - 32"

definition blocks :: "rt_memheap \<Rightarrow> block list \<Rightarrow> bool" where
  "blocks h bs \<longleftrightarrow> bs \<noteq> [] \<and> large bs \<and> endpos (start_addr h) bs = tail_at h \<and>
     linked (mi_next h) (mi_prev h) (tail_at h) (starts (start_addr h) bs) (tail_at h) \<and>
     tags (magic h) (mi_pool h) (mh_addr h) (start_addr h) bs \<and>
     magic h (tail_at h) = Some (tag True) \<and> mi_pool h (tail_at h) = Some (mh_addr h)"

lemma tail_at_upd [simp]:
  "tail_at (h\<lparr>magic := a\<rparr>) = tail_at h" "tail_at (h\<lparr>mi_pool := a\<rparr>) = tail_at h"
  "tail_at (h\<lparr>mi_next := a\<rparr>) = tail_at h" "tail_at (h\<lparr>mi_prev := a\<rparr>) = tail_at h"
  "tail_at (h\<lparr>next_free := a\<rparr>) = tail_at h" "tail_at (h\<lparr>prev_free := a\<rparr>) = tail_at h"
  "tail_at (h\<lparr>available_size := n\<rparr>) = tail_at h" "tail_at (h\<lparr>max_used_size := n\<rparr>) = tail_at h"
  "tail_at (h\<lparr>mh_errno := n\<rparr>) = tail_at h" "tail_at (h\<lparr>mh_bytes := b\<rparr>) = tail_at h"
  by (simp_all add: tail_at_def)

lemma blocks_other [simp]:
  "blocks (h\<lparr>next_free := a\<rparr>) bs = blocks h bs" "blocks (h\<lparr>prev_free := a\<rparr>) bs = blocks h bs"
  "blocks (h\<lparr>available_size := n\<rparr>) bs = blocks h bs" "blocks (h\<lparr>max_used_size := n\<rparr>) bs = blocks h bs"
  "blocks (h\<lparr>mh_errno := n\<rparr>) bs = blocks h bs" "blocks (h\<lparr>mh_bytes := b\<rparr>) bs = blocks h bs"
  by (simp_all add: blocks_def)

lemma last_starts: "last (T # starts p bs) = lastpos T p bs"
  by (induction T p bs rule: lastpos.induct) auto

lemma blocks_in_pool:
  assumes "blocks h bs" "x \<in> set (starts (start_addr h) bs)"
  shows "item_at h x" "start_addr h \<le> x" "x + 44 \<le> tail_at h"
  using starts_range [of bs x "start_addr h"] assms by (auto simp: blocks_def item_at_def tail_at_def)

lemma tail_item [simp]: "blocks h bs \<Longrightarrow> item_at h (tail_at h)"
  using roomy_ge [OF large_roomy, of bs "start_addr h"] by (auto simp: blocks_def item_at_def tail_at_def)

lemma blocks_distinct: "blocks h bs \<Longrightarrow> distinct (starts (start_addr h) bs)"
  by (rule starts_distinct) (simp add: blocks_def)

lemma tail_not_start: "blocks h bs \<Longrightarrow> tail_at h \<notin> set (starts (start_addr h) bs)"
  using blocks_in_pool(3) [of h bs "tail_at h"] by auto

text \<open>The header of a block and of the one behind it.\<close>

lemma block_at:
  assumes b: "blocks h (xs @ (n, u) # ys)"
  defines "p \<equiv> endpos (start_addr h) xs"
  shows "magic h p = Some (tag u)" "mi_pool h p = Some (mh_addr h)" "mi_next h p = Some (p + n)"
    "mi_prev h p = Some (lastpos (tail_at h) (start_addr h) xs)" "44 \<le> n" "start_addr h \<le> p" "p + n \<le> tail_at h"
    "item_at h p" "item_at h (p + n)" "magic h (p + n) = Some (tag (ys = [] \<or> snd (hd ys)))" "mi_prev h (p + n) = Some p"
    "MEMITEM_SIZE h p = Some (u32 (n - 32))" "p \<in> set (starts (start_addr h) (xs @ (n, u) # ys))"
proof -
  let ?T = "tail_at h" and ?s = "start_addr h"
  have l: "linked (mi_next h) (mi_prev h) ?T (starts ?s xs) p" "linked (mi_next h) (mi_prev h) p (starts (p + n) ys) ?T"
    using b by (simp_all add: blocks_def p_def linked_append)
  have T: "endpos (p + n) ys = ?T" and la: "large xs" "large ys" "44 \<le> n" using b by (auto simp: blocks_def p_def)
  note D = b [unfolded blocks_def]
  show "magic h p = Some (tag u)" "mi_pool h p = Some (mh_addr h)" "44 \<le> n" using D by (auto simp: p_def)
  show nx: "mi_next h p = Some (p + n)" using linked_first [OF l(2)] hd_starts [of "p + n" ys] T by simp
  show "mi_prev h p = Some (lastpos ?T ?s xs)" using linked_last [OF l(1)] by (simp add: last_starts del: last.simps)
  show "?s \<le> p" "p + n \<le> ?T"
    using roomy_ge [OF large_roomy, of xs ?s] roomy_ge [OF large_roomy, of ys "p + n"] la T by (auto simp: p_def)
  show ps: "p \<in> set (starts ?s (xs @ (n, u) # ys))" by (simp add: p_def)
  then show "item_at h p" using blocks_in_pool [OF b] by blast
  show "item_at h (p + n)" using tail_item [OF b] T blocks_in_pool(1) [OF b] by (cases "(p + n, ys)" rule: starts.cases) (auto simp: p_def)
  show "magic h (p + n) = Some (tag (ys = [] \<or> snd (hd ys)))"
    using D T by (cases "(p + n, ys)" rule: starts.cases) (auto simp: p_def)
  show "mi_prev h (p + n) = Some p" using l(2) T by (cases "(p + n, ys)" rule: starts.cases) auto
  show "MEMITEM_SIZE h p = Some (u32 (n - 32))" using nx by (simp add: MEMITEM_SIZE_def)
qed

lemma blocks_fresh:
  assumes b: "blocks h (xs @ (n, u) # ys)" and q: "endpos (start_addr h) xs < q" "q < endpos (start_addr h) xs + n"
  shows "q \<notin> set (starts (start_addr h) (xs @ (n, u) # ys))" "q \<noteq> tail_at h" "44 \<le> endpos (start_addr h) xs + n - q \<Longrightarrow> item_at h q"
proof -
  note B = block_at [OF b]
  have la: "large xs" "large ys" using b by (auto simp: blocks_def)
  show "q \<notin> set (starts (start_addr h) (xs @ (n, u) # ys))"
    using starts_range [OF la(1), of q "start_addr h"] starts_range [OF la(2), of q "endpos (start_addr h) xs + n"] q by auto
  show "q \<noteq> tail_at h" using B(7) q by simp
  show "item_at h q" if "44 \<le> endpos (start_addr h) xs + n - q" using B(6,7) q that by (auto simp: item_at_def tail_at_def)
qed

text \<open>Marking a block.\<close>

lemma mark_block:
  assumes b: "blocks h (xs @ (n, u) # ys)"
  shows "blocks (h\<lparr>magic := (magic h)(endpos (start_addr h) xs \<mapsto> tag v)\<rparr>) (xs @ (n, v) # ys)"
proof -
  let ?p = "endpos (start_addr h) xs"
  have d: "distinct (starts (start_addr h) (xs @ (n, u) # ys))" by (rule blocks_distinct [OF b])
  have t: "tail_at h \<noteq> ?p" using block_at(5,7) [OF b] by auto
  show ?thesis
    using b d t by (simp add: blocks_def)
qed

text \<open>A new header in the middle of a block.\<close>

lemma split_block_ok:
  assumes b: "blocks h (xs @ (n, u) # ys)" and k: "44 \<le> k" "44 \<le> n - k"
  defines "p \<equiv> endpos (start_addr h) xs"
  shows "\<exists>g po nf pf. split_block p (p + k) h = Some (h\<lparr>magic := g, mi_pool := po, mi_prev := pf, mi_next := nf\<rparr>) \<and>
    blocks (h\<lparr>magic := g, mi_pool := po, mi_prev := pf, mi_next := nf\<rparr>) (xs @ (k, u) # (n - k, False) # ys)"
proof -
  let ?T = "tail_at h" and ?s = "start_addr h" and ?q = "p + k"
  let ?h = "h\<lparr>magic := (magic h)(?q \<mapsto> tag False), mi_pool := (mi_pool h)(?q \<mapsto> mh_addr h),
    mi_prev := (mi_prev h)(?q \<mapsto> p, p + n \<mapsto> ?q), mi_next := (mi_next h)(?q \<mapsto> p + n, p \<mapsto> ?q)\<rparr>"
  note B = block_at [OF b, folded p_def]
  have q: "?q \<notin> set (starts ?s (xs @ (n, u) # ys))" "?q \<noteq> ?T" "item_at h ?q"
    using blocks_fresh [OF b, of ?q] k by (simp_all add: p_def)
  have ne: "k \<noteq> 0" "n \<noteq> k" using k by auto
  have run: "split_block p ?q h = Some ?h"
    using B(3,8,9) q(3) ne by (simp add: split_block_def set_defs)
  have l: "linked (mi_next h) (mi_prev h) ?T (starts ?s xs @ p # starts (p + n) ys) ?T" using b by (simp add: blocks_def p_def)
  have d: "distinct (starts ?s xs @ p # starts (p + n) ys)" "?T \<notin> set (starts ?s xs @ p # starts (p + n) ys)"
    "?q \<notin> set (starts ?s xs @ p # starts (p + n) ys)"
    using blocks_distinct [OF b] tail_not_start [OF b] q(1) by (simp_all add: p_def)
  have T: "endpos (p + n) ys = ?T" using b by (simp add: blocks_def p_def)
  have hd: "hd (starts (p + n) ys @ [?T]) = p + n" using hd_starts [of "p + n" ys] T by simp
  note r = linked_insert_mid(2) [OF l _ _ d(3,1,2,2), unfolded hd]
  have "blocks ?h (xs @ (k, u) # (n - k, False) # ys)"
    using b r q k d T by (simp add: blocks_def p_def [symmetric])
  then show ?thesis using run by blast
qed

text \<open>A header taken out: its block belongs to the one before.\<close>

lemma join_blocks:
  assumes b: "blocks h (xs @ (n, u) # (k, v) # ys)"
  defines "p \<equiv> endpos (start_addr h) xs"
  shows "blocks (h\<lparr>mi_next := (mi_next h)(p \<mapsto> p + n + k), mi_prev := (mi_prev h)(p + n + k \<mapsto> p)\<rparr>) (xs @ (n + k, u) # ys)"
proof -
  let ?T = "tail_at h" and ?s = "start_addr h" and ?q = "p + n"
  have l: "linked (mi_next h) (mi_prev h) ?T ((starts ?s xs @ [p]) @ ?q # starts (?q + k) ys) ?T" using b by (simp add: blocks_def p_def)
  have d: "distinct ((starts ?s xs @ [p]) @ ?q # starts (?q + k) ys)" "?T \<notin> set ((starts ?s xs @ [p]) @ ?q # starts (?q + k) ys)"
    using blocks_distinct [OF b] tail_not_start [OF b] by (simp_all add: p_def)
  have T: "endpos (?q + k) ys = ?T" using b by (simp add: blocks_def p_def)
  have hd: "hd (starts (?q + k) ys @ [?T]) = ?q + k" using hd_starts [of "?q + k" ys] T by simp
  note r = linked_remove(3) [OF l d(1,2,2), unfolded hd]
  show ?thesis using b r T by (simp add: blocks_def p_def [symmetric] add.assoc)
qed

section \<open>The invariant\<close>

definition mh_frame :: "rt_memheap \<Rightarrow> bool" where
  "mh_frame h \<longleftrightarrow> 0 < start_addr h \<and> start_addr h + pool_size h \<le> 4294967296 \<and> 0 < free_header h \<and>
     (free_header h < start_addr h \<or> start_addr h + pool_size h \<le> free_header h)"

definition counted :: "rt_memheap \<Rightarrow> block list \<Rightarrow> bool" where
  "counted h bs \<longleftrightarrow> available_size h = free_sum bs \<and> pool_size h - available_size h \<le> max_used_size h \<and>
     max_used_size h \<le> pool_size h"

definition mh_ok :: "rt_memheap \<Rightarrow> block list \<Rightarrow> int list \<Rightarrow> bool" where
  "mh_ok h bs fl \<longleftrightarrow> mh_frame h \<and> blocks h bs \<and> noadj bs \<and> flist h fl \<and> set fl = frees (start_addr h) bs \<and> counted h bs"

text \<open>What no operation changes.\<close>

definition same_heap :: "rt_memheap \<Rightarrow> rt_memheap \<Rightarrow> bool" where
  "same_heap h h' \<longleftrightarrow> mh_addr h' = mh_addr h \<and> start_addr h' = start_addr h \<and> pool_size h' = pool_size h \<and>
     free_header h' = free_header h \<and> locked h' = locked h \<and> mh_errno h' = mh_errno h"

lemma same_heap_refl [simp]: "same_heap h h" by (simp add: same_heap_def)

lemma same_heap_trans: "same_heap a b \<Longrightarrow> same_heap b c \<Longrightarrow> same_heap a c"
  by (simp add: same_heap_def)

lemma blocks_pool:
  assumes "blocks h bs" "mh_frame h"
  shows "0 \<le> free_sum bs" "free_sum bs + 64 \<le> pool_size h" "tail_at h \<le> 4294967264" "0 < tail_at h" "pool_size h < 4294967296"
  using free_sum_bounds [of bs] free_sum_room [of bs "start_addr h"] roomy_ge [OF large_roomy, of bs "start_addr h"] assms
  by (auto simp: blocks_def tail_at_def mh_frame_def)

lemma frees_split:
  "x \<in> frees p bs \<Longrightarrow> \<exists>xs n ys. bs = xs @ (n, False) # ys \<and> x = endpos p xs"
proof (induction p bs rule: endpos.induct)
  case (2 p n u bs)
  show ?case
  proof (cases "\<not> u \<and> x = p")
    case True
    then show ?thesis by (intro exI [of _ "[]"] exI [of _ n] exI [of _ bs]) simp
  next
    case False
    then obtain xs m ys where "bs = xs @ (m, False) # ys" "x = endpos (p + n) xs" using 2 by (auto split: if_splits)
    then show ?thesis by (intro exI [of _ "(n, u) # xs"] exI [of _ m] exI [of _ ys]) simp
  qed
qed simp

lemma flist_clear:
  "flist (h\<lparr>next_free := nf, prev_free := pf\<rparr>) fl \<Longrightarrow> p \<notin> set (free_header h # fl) \<Longrightarrow>
     flist (h\<lparr>next_free := nf(p := v), prev_free := pf(p := w)\<rparr>) fl"
  by (auto simp: flist_def)

text \<open>A free block has its own size in its header, and lies apart from the header of the ring.\<close>

lemma block_size:
  assumes "blocks h (xs @ (n, u) # ys)" "mh_frame h"
  shows "MEMITEM_SIZE h (endpos (start_addr h) xs) = Some (n - 32)" "n < 4294967264"
    "endpos (start_addr h) xs \<noteq> free_header h" "0 < endpos (start_addr h) xs"
proof -
  note B = block_at [OF assms(1)]
  show n: "n < 4294967264" using B(6,7) assms(2) by (simp add: mh_frame_def tail_at_def)
  show "MEMITEM_SIZE h (endpos (start_addr h) xs) = Some (n - 32)" using B(5,12) n by (simp add: c_store)
  show "endpos (start_addr h) xs \<noteq> free_header h" "0 < endpos (start_addr h) xs"
    using B(5,6,7) assms(2) by (auto simp: mh_frame_def tail_at_def)
qed

lemma take_bytes_ok:
  assumes "counted h bs" "0 \<le> m" "m \<le> available_size h" "0 \<le> free_sum bs" "pool_size h < 4294967296" "free_sum bs \<le> pool_size h"
  obtains v where "take_bytes m h = h\<lparr>available_size := available_size h - m, max_used_size := v\<rparr>"
    "pool_size h - (available_size h - m) \<le> v" "v \<le> pool_size h"
  using assms by (auto simp: take_bytes_def Let_def counted_def c_store)

section \<open>Allocation\<close>

lemma search_ok:
  assumes "flist h (fs @ gs)" "\<And>x. x \<in> set gs \<Longrightarrow> MEMITEM_SIZE h x = Some (m x)" "f < sz"
  shows "\<exists>p n. memheap_search h sz (hd (gs @ [free_header h])) f = Some (p, n) \<and>
    (n < sz \<and> (\<forall>x \<in> set gs. m x < sz) \<or> (\<exists>us vs. gs = us @ p # vs \<and> n = m p \<and> sz \<le> n \<and> (\<forall>x \<in> set us. m x < sz)))"
  using assms
proof (induction gs arbitrary: fs f)
  case Nil
  then show ?case by (subst memheap_search.simps) (simp add: flist_def)
next
  case (Cons x gs)
  let ?H = "free_header h"
  have x: "x \<noteq> free_list h" "MEMITEM_SIZE h x = Some (m x)" using Cons.prems by (auto simp: flist_def)
  have nx: "next_free h x = Some (hd (gs @ [?H]))"
    using Cons.prems(1) linked_first [of "next_free h" "prev_free h" x gs ?H] by (auto simp: flist_def linked_append)
  show ?case
  proof (cases "m x < sz")
    case True
    then have step: "memheap_search h sz x f = memheap_search h sz (hd (gs @ [?H])) (m x)"
      using x nx Cons.prems(3) by (subst memheap_search.simps) simp
    obtain p n where p: "memheap_search h sz (hd (gs @ [?H])) (m x) = Some (p, n)"
      "n < sz \<and> (\<forall>x \<in> set gs. m x < sz) \<or> (\<exists>us vs. gs = us @ p # vs \<and> n = m p \<and> sz \<le> n \<and> (\<forall>x \<in> set us. m x < sz))"
      using Cons.IH [of "fs @ [x]" "m x"] Cons.prems True by auto
    from p(2) show ?thesis
    proof (elim disjE exE conjE)
      assume "n < sz" "\<forall>x \<in> set gs. m x < sz"
      then show ?thesis using step p(1) True by simp
    next
      fix us vs assume "gs = us @ p # vs" "n = m p" "sz \<le> n" "\<forall>x \<in> set us. m x < sz"
      then show ?thesis using step p(1) True
        by (intro exI [of _ p] exI [of _ n] conjI disjI2 exI [of _ "x # us"] exI [of _ vs]) auto
    qed
  next
    case False
    have "memheap_search h sz x f = memheap_search h sz x (m x)"
      using x False Cons.prems(3) by (subst memheap_search.simps) simp
    also have "\<dots> = Some (x, m x)" using False by (subst memheap_search.simps) simp
    finally show ?thesis using False by (intro exI [of _ x] exI [of _ "m x"] conjI disjI2 exI [of _ "[]"] exI [of _ gs]) auto
  qed
qed

definition mh_take :: "int \<Rightarrow> int \<Rightarrow> block list" where
  "mh_take sz n = (if sz + 76 \<le> n then [(sz + 32, True), (n - sz - 32, False)] else [(n, True)])"

lemma noadj_mh_take:
  assumes "noadj (xs @ (n, False) # ys)"
  shows "noadj (xs @ mh_take sz n @ ys)"
  using assms by (auto simp: mh_take_def noadj_append noadj_Cons simp del: noadj.simps(1))

lemma ring_split:
  assumes "flist h fl" "x \<in> set fl"
  obtains fs gs where "fl = fs @ x # gs" "flist h (fs @ x # gs)" "set (fs @ gs) = set fl - {x}"
proof -
  obtain fs gs where f: "fl = fs @ x # gs" using split_list [OF assms(2)] by blast
  then have "set (fs @ gs) = set fl - {x}" using assms(1) by (auto simp: flist_def)
  then show thesis using that f assms(1) by blast
qed

lemma frees_mid:
  assumes "blocks h (xs @ (n, u) # ys)"
  shows "endpos (start_addr h) xs \<notin> frees (start_addr h) xs \<union> frees (endpos (start_addr h) xs + n) ys"
proof -
  have d: "distinct (starts (start_addr h) (xs @ (n, u) # ys))" by (rule blocks_distinct [OF assms])
  then show ?thesis using frees_starts [of "start_addr h" xs] frees_starts [of "endpos (start_addr h) xs + n" ys] by auto
qed

text \<open>Unlinking a free block whose links are then cleared.\<close>

lemma take_out:
  assumes "flist h fl" "p \<in> set fl"
  obtains nf pf fl' where "unlink_free p h = Some (h\<lparr>next_free := nf, prev_free := pf\<rparr>)"
    "flist (h\<lparr>next_free := nf(p \<mapsto> 0), prev_free := pf(p \<mapsto> 0)\<rparr>) fl'" "set fl' = set fl - {p}"
    "flist (h\<lparr>next_free := nf, prev_free := pf\<rparr>) fl'"
proof -
  obtain fs gs where fl: "flist h (fs @ p # gs)" "set (fs @ gs) = set fl - {p}" using ring_split [OF assms] by metis
  obtain nf pf where u: "unlink_free p h = Some (h\<lparr>next_free := nf, prev_free := pf\<rparr>)"
    "flist (h\<lparr>next_free := nf, prev_free := pf\<rparr>) (fs @ gs)" using unlink_free_ok [OF fl(1)] by blast
  have "p \<notin> set (free_header h # fs @ gs)" using assms fl(2) by (auto simp: flist_def)
  then show thesis using that [OF u(1) flist_clear [OF u(2)] fl(2) u(2)] by blast
qed

text \<open>The facts about one block of a well-formed heap.\<close>

lemma mh_okD:
  assumes "mh_ok h (xs @ (n, u) # ys) fl"
  shows "mh_frame h" "blocks h (xs @ (n, u) # ys)" "noadj (xs @ (n, u) # ys)" "flist h fl" "counted h (xs @ (n, u) # ys)"
    "set fl = frees (start_addr h) xs \<union> (if u then {} else {endpos (start_addr h) xs}) \<union> frees (endpos (start_addr h) xs + n) ys"
    "available_size h = free_sum xs + (if u then 0 else n - 32) + free_sum ys" "0 \<le> free_sum xs" "0 \<le> free_sum ys"
    "available_size h + 64 \<le> pool_size h" "pool_size h < 4294967296"
    "set fl - {endpos (start_addr h) xs} = frees (start_addr h) xs \<union> frees (endpos (start_addr h) xs + n) ys"
proof -
  show *: "mh_frame h" "blocks h (xs @ (n, u) # ys)" "noadj (xs @ (n, u) # ys)" "flist h fl" "counted h (xs @ (n, u) # ys)"
    using assms by (auto simp: mh_ok_def)
  show f: "set fl = frees (start_addr h) xs \<union> (if u then {} else {endpos (start_addr h) xs}) \<union> frees (endpos (start_addr h) xs + n) ys"
    using assms by (auto simp: mh_ok_def)
  show "available_size h = free_sum xs + (if u then 0 else n - 32) + free_sum ys" using *(5) by (simp add: counted_def)
  show "0 \<le> free_sum xs" "0 \<le> free_sum ys" using *(2) free_sum_bounds by (auto simp: blocks_def)
  show "available_size h + 64 \<le> pool_size h" "pool_size h < 4294967296" using blocks_pool [OF *(2,1)] *(5) by (auto simp: counted_def)
  show "set fl - {endpos (start_addr h) xs} = frees (start_addr h) xs \<union> frees (endpos (start_addr h) xs + n) ys"
    using frees_mid [OF *(2)] f by auto
qed

lemma take_count:
  assumes "mh_ok h bs fl" "0 \<le> m" "m \<le> available_size h" "available_size h' = available_size h" "pool_size h' = pool_size h"
    "max_used_size h' = max_used_size h"
  shows "\<exists>v. take_bytes m h' = h'\<lparr>available_size := available_size h - m, max_used_size := v\<rparr> \<and>
    pool_size h - (available_size h - m) \<le> v \<and> v \<le> pool_size h"
proof -
  have "counted h' bs" using assms by (simp add: mh_ok_def counted_def)
  then obtain v where "take_bytes m h' = h'\<lparr>available_size := available_size h' - m, max_used_size := v\<rparr>"
    "pool_size h' - (available_size h' - m) \<le> v" "v \<le> pool_size h'"
    by (rule take_bytes_ok) (use assms blocks_pool [of h bs] in \<open>auto simp: mh_ok_def\<close>)
  then show ?thesis using assms(4,5) by auto
qed

lemma take_whole_ok:
  assumes ok: "mh_ok h (xs @ (n, False) # ys) fl" and sz: "12 \<le> sz" "sz + 32 \<le> n" "\<not> sz + 76 \<le> n"
  defines "p \<equiv> endpos (start_addr h) xs"
  shows "\<exists>h' fl'. memheap_take p (n - 32) sz h = Some h' \<and> mh_ok h' (xs @ mh_take sz n @ ys) fl' \<and> same_heap h h' \<and>
    mh_bytes h' = mh_bytes h"
proof -
  note O = mh_okD [OF ok, folded p_def]
  note B = block_at [OF O(2), folded p_def] and S = block_size [OF O(2,1), folded p_def]
  have c: "\<not> u32 (sz + 32 + 12) \<le> n - 32" using sz S(2) by (simp add: c_store)
  have pre: "0 \<le> n - 32" "n - 32 \<le> available_size h" using O(7-9) sz by auto
  obtain v where v: "take_bytes (n - 32) h = h\<lparr>available_size := available_size h - (n - 32), max_used_size := v\<rparr>"
    "pool_size h - (available_size h - (n - 32)) \<le> v" "v \<le> pool_size h"
    using take_count [OF ok pre, of h] by auto
  let ?h1 = "h\<lparr>available_size := available_size h - (n - 32), max_used_size := v\<rparr>"
  have f1: "flist ?h1 fl" "p \<in> set fl" using O(4,6) by auto
  obtain nf pf fl' where u: "unlink_free p ?h1 = Some (?h1\<lparr>next_free := nf, prev_free := pf\<rparr>)"
    "flist (?h1\<lparr>next_free := nf(p \<mapsto> 0), prev_free := pf(p \<mapsto> 0)\<rparr>) fl'" "set fl' = set fl - {p}"
    "flist (?h1\<lparr>next_free := nf, prev_free := pf\<rparr>) fl'"
    by (rule take_out [OF f1])
  let ?h2 = "?h1\<lparr>next_free := nf(p \<mapsto> 0), prev_free := pf(p \<mapsto> 0), magic := (magic h)(p \<mapsto> tag True)\<rparr>"
  have run: "memheap_take p (n - 32) sz h = Some ?h2"
    using c v(1) u(1) B(8) by (simp add: memheap_take_def set_defs)
  have b2: "blocks ?h2 (xs @ mh_take sz n @ ys)" using mark_block [OF O(2), of True] sz(3) by (simp add: blocks_def p_def mh_take_def)
  have "mh_ok ?h2 (xs @ mh_take sz n @ ys) fl'"
    unfolding mh_ok_def using b2 noadj_mh_take [OF O(3), of sz] u(2,3) O(12) v O(1,7) sz(3)
    by (simp add: mh_frame_def counted_def mh_take_def p_def)
  then show ?thesis using run by (intro exI [of _ ?h2] exI [of _ fl']) (simp add: same_heap_def)
qed

lemma take_split_ok:
  assumes ok: "mh_ok h (xs @ (n, False) # ys) fl" and sz: "12 \<le> sz" "sz + 76 \<le> n"
  defines "p \<equiv> endpos (start_addr h) xs"
  shows "\<exists>h' fl'. memheap_take p (n - 32) sz h = Some h' \<and> mh_ok h' (xs @ mh_take sz n @ ys) fl' \<and> same_heap h h' \<and>
    mh_bytes h' = mh_bytes h"
proof -
  let ?q = "p + (sz + 32)"
  note O = mh_okD [OF ok, folded p_def]
  note B = block_at [OF O(2), folded p_def] and S = block_size [OF O(2,1), folded p_def]
  have c: "u32 (sz + 32 + 12) \<le> n - 32" using sz S(2) by (simp add: c_store)
  obtain g po mp mn where sp: "split_block p ?q h = Some (h\<lparr>magic := g, mi_pool := po, mi_prev := mp, mi_next := mn\<rparr>)"
    "blocks (h\<lparr>magic := g, mi_pool := po, mi_prev := mp, mi_next := mn\<rparr>) (xs @ (sz + 32, False) # (n - (sz + 32), False) # ys)"
    using split_block_ok [OF O(2), of "sz + 32"] sz by (auto simp: p_def)
  let ?h1 = "h\<lparr>magic := g, mi_pool := po, mi_prev := mp, mi_next := mn\<rparr>"
  have f1: "flist ?h1 fl" "p \<in> set fl" using O(4,6) by auto
  obtain nf pf fl' where u: "unlink_free p ?h1 = Some (?h1\<lparr>next_free := nf, prev_free := pf\<rparr>)"
    "flist (?h1\<lparr>next_free := nf(p \<mapsto> 0), prev_free := pf(p \<mapsto> 0)\<rparr>) fl'" "set fl' = set fl - {p}"
    "flist (?h1\<lparr>next_free := nf, prev_free := pf\<rparr>) fl'"
    by (rule take_out [OF f1])
  let ?h3 = "?h1\<lparr>next_free := nf(p \<mapsto> 0), prev_free := pf(p \<mapsto> 0)\<rparr>"
  have q: "item_at h ?q" "?q \<notin> set fl'" "?q \<noteq> free_header h"
    using blocks_fresh [OF O(2), of ?q] sz u(3) O(6) frees_starts [of "start_addr h" "xs @ (n, False) # ys"] O(1) B(6,7)
    by (auto simp: p_def mh_frame_def tail_at_def)
  obtain nf2 pf2 where i: "insert_free ?q ?h3 = Some (?h3\<lparr>next_free := nf2, prev_free := pf2\<rparr>)"
    "flist (?h3\<lparr>next_free := nf2, prev_free := pf2\<rparr>) (?q # fl')"
    using insert_free_ok(1) [OF u(2), of ?q] q by auto
  let ?h4 = "?h3\<lparr>next_free := nf2, prev_free := pf2\<rparr>"
  have pre: "0 \<le> sz + 32" "sz + 32 \<le> available_size h" using O(7-9) sz by auto
  obtain v where v: "take_bytes (sz + 32) ?h4 = ?h4\<lparr>available_size := available_size h - (sz + 32), max_used_size := v\<rparr>"
    "pool_size h - (available_size h - (sz + 32)) \<le> v" "v \<le> pool_size h"
    using take_count [OF ok pre, of ?h4] by auto
  let ?h5 = "?h4\<lparr>available_size := available_size h - (sz + 32), max_used_size := v, magic := g(p \<mapsto> tag True)\<rparr>"
  have run: "memheap_take p (n - 32) sz h = Some ?h5"
    using c v(1) u(1) sp(1) i(1) B(8) by (simp add: memheap_take_def set_defs add.assoc)
  have b5: "blocks ?h5 (xs @ mh_take sz n @ ys)"
    using mark_block [OF sp(2), of True] sz by (auto simp: blocks_def p_def mh_take_def diff_diff_eq)
  have f5: "flist ?h5 (?q # fl')" using i(2) by (auto simp: flist_def item_at_def)
  have "mh_ok ?h5 (xs @ mh_take sz n @ ys) (?q # fl')"
    unfolding mh_ok_def using b5 noadj_mh_take [OF O(3), of sz] f5 u(3) O(12) v O(1,7) sz(2)
    by (simp add: mh_frame_def counted_def mh_take_def p_def add.assoc)
  then show ?thesis using run by (intro exI [of _ ?h5] exI [of _ "?q # fl'"]) (simp add: same_heap_def)
qed

lemma memheap_take_ok:
  assumes "mh_ok h (xs @ (n, False) # ys) fl" "12 \<le> sz" "sz + 32 \<le> n"
  shows "\<exists>h' fl'. memheap_take (endpos (start_addr h) xs) (n - 32) sz h = Some h' \<and> mh_ok h' (xs @ mh_take sz n @ ys) fl' \<and>
    same_heap h h' \<and> mh_bytes h' = mh_bytes h"
  using take_whole_ok [OF assms] take_split_ok [OF assms(1,2)] by (cases "sz + 76 \<le> n") auto

lemma memheap_size_ge: "12 \<le> memheap_size sz0"
  by (simp add: memheap_size_def Let_def)

text \<open>Allocation takes the first block of the free list that is large enough.\<close>

lemma memheap_alloc_ok:
  assumes ok: "mh_ok h bs fl" and lk: "locked h \<or> result = 0"
  shows "rt_memheap_alloc result h sz0 = Some (0, h) \<and>
      (available_size h \<le> memheap_size sz0 \<or> (\<forall>(n, u) \<in> set bs. \<not> u \<longrightarrow> n < memheap_size sz0 + 32)) \<or>
    (\<exists>xs n ys h' fl'. bs = xs @ (n, False) # ys \<and> memheap_size sz0 + 32 \<le> n \<and>
      rt_memheap_alloc result h sz0 = Some (endpos (start_addr h) xs + 32, h') \<and>
      mh_ok h' (xs @ mh_take (memheap_size sz0) n @ ys) fl' \<and> same_heap h h' \<and> mh_bytes h' = mh_bytes h)"
proof (cases "memheap_size sz0 < available_size h")
  case False
  then show ?thesis by (simp add: rt_memheap_alloc_def)
next
  case True
  let ?sz = "memheap_size sz0" and ?H = "free_header h" and ?s = "start_addr h"
  have O: "mh_frame h" "blocks h bs" "flist h fl" "set fl = frees ?s bs" using ok by (auto simp: mh_ok_def)
  define m where "m x = the (MEMITEM_SIZE h x)" for x
  have m: "m (endpos ?s xs) = n - 32" "MEMITEM_SIZE h (endpos ?s xs) = Some (n - 32)" if "bs = xs @ (n, u) # ys" for xs n u ys
    using block_size(1) [of h xs n u ys] O(1,2) that by (auto simp: m_def)
  have sz: "MEMITEM_SIZE h x = Some (m x)" if "x \<in> set fl" for x
    using frees_split [of x ?s bs] that O(4) m by fastforce
  have nx: "next_free h (free_list h) = Some (hd (fl @ [?H]))" using O(3) linked_first by (fastforce simp: flist_def)
  obtain p n where r: "memheap_search h ?sz (hd (fl @ [?H])) 0 = Some (p, n)"
    "n < ?sz \<and> (\<forall>x \<in> set fl. m x < ?sz) \<or> (\<exists>us vs. fl = us @ p # vs \<and> n = m p \<and> ?sz \<le> n \<and> (\<forall>x \<in> set us. m x < ?sz))"
    using search_ok [of h "[]" fl m 0 ?sz] O(3) sz memheap_size_ge [of sz0] by auto
  have run: "rt_memheap_alloc result h sz0 = (if ?sz \<le> n then do { h1 \<leftarrow> memheap_take p n ?sz h; Some (p + 32, h1) } else Some (0, h))"
    using True lk nx r(1) by (auto simp: rt_memheap_alloc_def)
  show ?thesis
  proof (cases "?sz \<le> n")
    case False
    then have small: "\<forall>x \<in> set fl. m x < ?sz" using r(2) by auto
    have "k < ?sz + 32" if "(k, False) \<in> set bs" for k
    proof -
      obtain xs ys where bs: "bs = xs @ (k, False) # ys" using split_list [OF \<open>(k, False) \<in> set bs\<close>] by blast
      then have "endpos ?s xs \<in> set fl" using O(4) by simp
      then show ?thesis using small m(1) [OF bs] by fastforce
    qed
    then show ?thesis using run False by auto
  next
    case t: True
    then have p: "p \<in> set fl" "n = m p" using r(2) by auto
    then obtain xs k ys where bs: "bs = xs @ (k, False) # ys" "p = endpos ?s xs" using frees_split O(4) by metis
    then have n: "n = k - 32" using m(1) [OF bs(1)] p(2) by simp
    obtain h' fl' where h': "memheap_take p n ?sz h = Some h'" "mh_ok h' (xs @ mh_take ?sz k @ ys) fl'" "same_heap h h'" "mh_bytes h' = mh_bytes h"
      using memheap_take_ok [of h xs k ys fl ?sz] ok bs n t memheap_size_ge by auto
    show ?thesis using run t h' bs n
      by (intro disjI2 exI [of _ xs] exI [of _ k] exI [of _ ys] exI [of _ h'] exI [of _ fl']) simp
  qed
qed

section \<open>Release\<close>

text \<open>What the steps of a release leave alone.\<close>

definition same_rest :: "rt_memheap \<Rightarrow> rt_memheap \<Rightarrow> bool" where
  "same_rest h h' \<longleftrightarrow> same_heap h h' \<and> mh_bytes h' = mh_bytes h \<and> max_used_size h' = max_used_size h"

lemma same_restD:
  assumes "same_rest h h'"
  shows "mh_addr h' = mh_addr h" "start_addr h' = start_addr h" "pool_size h' = pool_size h" "free_header h' = free_header h"
    "locked h' = locked h" "mh_errno h' = mh_errno h" "mh_bytes h' = mh_bytes h" "max_used_size h' = max_used_size h"
    "mh_frame h' = mh_frame h"
  using assms by (auto simp: same_rest_def same_heap_def mh_frame_def)

lemma same_rest_trans: "same_rest a b \<Longrightarrow> same_rest b c \<Longrightarrow> same_rest a c"
  by (simp add: same_rest_def same_heap_def)

text \<open>The addresses of the other free blocks, and their sizes, with a block of size \<open>n\<close> between \<open>xs\<close> and \<open>ys\<close> that is free.\<close>

definition around :: "int \<Rightarrow> block list \<Rightarrow> int \<Rightarrow> block list \<Rightarrow> int set" where
  "around s xs n ys = frees s xs \<union> frees (endpos s xs + n) ys"

definition between :: "block list \<Rightarrow> int \<Rightarrow> block list \<Rightarrow> int" where
  "between xs n ys = free_sum xs + (n - 32) + free_sum ys"

lemma between_bounds:
  assumes "blocks h (xs @ (n, u) # ys)" "mh_frame h"
  shows "0 \<le> between xs n ys" "between xs n ys + 64 \<le> pool_size h" "between xs n ys < 4294967232"
proof -
  have "blocks (h\<lparr>magic := (magic h)(endpos (start_addr h) xs \<mapsto> tag False)\<rparr>) (xs @ (n, False) # ys)" by (rule mark_block [OF assms(1)])
  from blocks_pool [OF this] assms(2)
  show "0 \<le> between xs n ys" "between xs n ys + 64 \<le> pool_size h" "between xs n ys < 4294967232"
    by (auto simp: between_def mh_frame_def)
qed

lemma merge_left_ok:
  assumes fr: "mh_frame h" and b: "blocks h (xs @ (n, False) # ys)" and f: "flist h fl" "set fl = around (start_addr h) xs n ys"
    and av: "available_size h = between xs n ys"
  defines "p \<equiv> endpos (start_addr h) xs"
  shows "\<exists>xs' n' ins h'. merge_left p h = Some (endpos (start_addr h) xs', ins, h') \<and> same_rest h h' \<and>
    blocks h' (xs' @ (n', False) # ys) \<and> flist h' fl \<and>
    set fl = (if ins then {} else {endpos (start_addr h) xs'}) \<union> around (start_addr h) xs' n' ys \<and>
    available_size h' = between xs' n' ys \<and> (\<forall>j zs. merge_prev xs ((j, False) # zs) = xs' @ (n' - n + j, False) # zs)"
proof (cases "xs = [] \<or> snd (last xs)")
  case True
  note B = block_at [OF b, folded p_def]
  have "RT_MEMHEAP_IS_USED h (lastpos (tail_at h) (start_addr h) xs) = Some True"
  proof (cases xs rule: rev_cases)
    case Nil
    then show ?thesis using b by (auto simp: blocks_def intro: is_used_tag [of h _ True, simplified])
  next
    case (snoc us x)
    then obtain k where "xs = us @ [(k, True)]" using True by (cases x) auto
    then show ?thesis using block_at(1) [of h us k True "(n, False) # ys"] b by (auto intro: is_used_tag [of h _ True, simplified])
  qed
  then have "merge_left p h = Some (p, True, h)" using B(4) by (simp add: merge_left_def)
  moreover have "merge_prev xs ((j, False) # zs) = xs @ (n - n + j, False) # zs" for j zs using True by (auto simp: merge_prev_def)
  moreover have "same_rest h h" by (simp add: same_rest_def)
  ultimately show ?thesis using b f av
    by (intro exI [of _ xs] exI [of _ n] exI [of _ True] exI [of _ h] conjI) (auto simp: p_def)
next
  case False
  then obtain us k where xs: "xs = us @ [(k, False)]" by (cases xs rule: rev_cases) auto
  have b2: "blocks h (us @ (k, False) # (n, False) # ys)" using b xs by simp
  let ?s = "start_addr h"
  let ?v = "endpos ?s us"
  have p: "p = ?v + k" by (simp add: p_def xs)
  note B = block_at [OF b, folded p_def] and V = block_at [OF b2]
  let ?h = "h\<lparr>available_size := available_size h + 32, mi_next := (mi_next h)(?v \<mapsto> p + n), mi_prev := (mi_prev h)(p + n \<mapsto> ?v)\<rparr>"
  have j: "blocks ?h (us @ (k + n, False) # ys)" using join_blocks [OF b2] by (simp add: blocks_def p add.assoc)
  have av': "available_size h + 32 = between us (k + n) ys" using av by (simp add: between_def xs)
  have u: "u32 (available_size h + 32) = available_size h + 32"
    using between_bounds [OF j] fr av' by (simp add: c_store mh_frame_def)
  have pv: "mi_prev h p = Some ?v" using B(4) by (simp add: xs)
  have ne: "k \<noteq> 0" "n \<noteq> 0" "p \<noteq> ?v" using V(5) B(5) p by auto
  have "merge_left p h = Some (?v, False, ?h)"
    using pv is_used_tag [OF V(1)] B(3,9) V(8) ne u by (simp add: merge_left_def set_defs)
  moreover have "merge_prev xs ((j, False) # zs) = us @ (k + n - n + j, False) # zs" for j zs by (simp add: merge_prev_def xs)
  moreover have "same_rest h ?h" by (simp add: same_rest_def same_heap_def)
  moreover have "set fl = {?v} \<union> around ?s us (k + n) ys" using f(2) by (auto simp: around_def xs add.assoc)
  ultimately show ?thesis using j f(1) av'
    by (intro exI [of _ us] exI [of _ "k + n"] exI [of _ False] exI [of _ ?h] conjI) auto
qed

lemma merge_right_ok:
  assumes fr: "mh_frame h" and b: "blocks h (xs @ (n, False) # ys)" and f: "flist h fl" "set fl = A \<union> around (start_addr h) xs n ys"
    and av: "available_size h = between xs n ys" and A: "A \<subseteq> {endpos (start_addr h) xs}"
  defines "p \<equiv> endpos (start_addr h) xs"
  shows "\<exists>n' ys' h' fl'. merge_right p h = Some h' \<and> same_rest h h' \<and> blocks h' (xs @ (n', False) # ys') \<and> flist h' fl' \<and>
    set fl' = A \<union> around (start_addr h) xs n' ys' \<and> available_size h' = between xs n' ys' \<and> merge_next n ys = (n', False) # ys'"
proof (cases "ys = [] \<or> snd (hd ys)")
  case True
  note B = block_at [OF b, folded p_def]
  have "merge_right p h = Some h" using B(3) is_used_tag [OF B(10)] True by (simp add: merge_right_def)
  moreover have "merge_next n ys = (n, False) # ys" using True by (cases "(n, ys)" rule: merge_next.cases) auto
  moreover have "same_rest h h" by (simp add: same_rest_def)
  ultimately show ?thesis using b f av by (intro exI [of _ n] exI [of _ ys] exI [of _ h] exI [of _ fl] conjI) auto
next
  case False
  then obtain k zs where ys: "ys = (k, False) # zs" by (cases ys) auto
  have b2: "blocks h (xs @ (n, False) # (k, False) # zs)" "blocks h ((xs @ [(n, False)]) @ (k, False) # zs)" using b ys by simp_all
  let ?s = "start_addr h"
  let ?q = "p + n"
  note B = block_at [OF b, folded p_def] and Q = block_at [OF b2(2)]
  have q: "endpos ?s (xs @ [(n, False)]) = ?q" by (simp add: p_def)
  note Q = Q [unfolded q]
  let ?h = "h\<lparr>available_size := available_size h + 32, mi_prev := (mi_prev h)(?q + k \<mapsto> p), mi_next := (mi_next h)(p \<mapsto> ?q + k)\<rparr>"
  have j: "blocks ?h (xs @ (n + k, False) # zs)" using join_blocks [OF b2(1)] by (simp add: p_def blocks_def)
  have av': "available_size h + 32 = between xs (n + k) zs" using av by (simp add: between_def ys)
  have u: "u32 (available_size h + 32) = available_size h + 32"
    using between_bounds [OF j] fr av' by (simp add: c_store mh_frame_def)
  have ne: "n \<noteq> 0" "k \<noteq> 0" using B(5) Q(5) by auto
  have qfl: "?q \<in> set fl" "?q \<notin> A" using f(2) A ne by (auto simp: around_def p_def ys)
  have fh: "flist ?h fl" using f(1) by simp
  obtain nf pf fl' where uf: "unlink_free ?q ?h = Some (?h\<lparr>next_free := nf, prev_free := pf\<rparr>)"
    "flist (?h\<lparr>next_free := nf(?q \<mapsto> 0), prev_free := pf(?q \<mapsto> 0)\<rparr>) fl'" "set fl' = set fl - {?q}"
    "flist (?h\<lparr>next_free := nf, prev_free := pf\<rparr>) fl'"
    by (rule take_out [OF fh qfl(1)])
  let ?h' = "?h\<lparr>next_free := nf, prev_free := pf\<rparr>"
  have "merge_right p h = Some ?h'"
    using B(3,8) is_used_tag [OF Q(1)] Q(3,9) ne u uf(1) by (simp add: merge_right_def set_defs)
  moreover have "merge_next n ys = (n + k, False) # zs" by (simp add: ys)
  moreover have "same_rest h ?h'" by (simp add: same_rest_def same_heap_def)
  moreover have "set fl' = A \<union> around ?s xs (n + k) zs"
    using uf(3) f(2) qfl(2) frees_mid [OF b2(2), unfolded q] by (auto simp: around_def ys p_def [symmetric] add.assoc)
  ultimately show ?thesis using j uf(4) av'
    by (intro exI [of _ "n + k"] exI [of _ zs] exI [of _ ?h'] exI [of _ fl'] conjI) auto
qed

lemma free_sum_plugged: "between xs n ys \<le> free_sum (plugged xs n ys)"
proof -
  obtain k zs where mn: "merge_next n ys = (k, False) # zs" using merge_next_Cons by blast
  have z: "n - 32 + free_sum ys \<le> k - 32 + free_sum zs"
    using mn by (cases "(n, ys)" rule: merge_next.cases) auto
  show ?thesis
  proof (cases xs rule: rev_cases)
    case Nil
    then show ?thesis using z by (simp add: plugged_def merge_prev_def mn between_def)
  next
    case (snoc us x)
    then show ?thesis using z by (cases x) (auto simp: plugged_def merge_prev_def mn between_def)
  qed
qed

text \<open>A release gives the block back, merged with its free neighbours.\<close>

lemma memheap_give_ok:
  assumes ok: "mh_ok h (xs @ (n, True) # ys) fl"
  defines "p \<equiv> endpos (start_addr h) xs"
  shows "\<exists>h' fl'. memheap_give p h = Some h' \<and> mh_ok h' (plugged xs n ys) fl' \<and> same_heap h h' \<and> mh_bytes h' = mh_bytes h"
proof -
  note O = mh_okD [OF ok, folded p_def]
  note B = block_at [OF O(2), folded p_def] and S = block_size [OF O(2,1), folded p_def]
  let ?s = "start_addr h"
  let ?h1 = "h\<lparr>magic := (magic h)(p \<mapsto> tag False)\<rparr>"
  let ?h2 = "?h1\<lparr>available_size := between xs n ys\<rparr>"
  have b2: "blocks ?h2 (xs @ (n, False) # ys)" using mark_block [OF O(2), of False] by (simp add: p_def)
  have fr2: "mh_frame ?h2" using O(1) by (simp add: mh_frame_def)
  have av: "u32 (available_size h + (n - 32)) = between xs n ys"
    using between_bounds [OF O(2,1)] O(7) by (simp add: between_def c_store)
  have sz: "MEMITEM_SIZE ?h1 p = Some (n - 32)" using S(1) by (simp add: MEMITEM_SIZE_def)
  have f2: "flist ?h2 fl" "set fl = around (start_addr ?h2) xs n ys" using O(4,6) by (simp_all add: around_def p_def)
  obtain xs1 n1 ins h3 where l: "merge_left p ?h2 = Some (endpos ?s xs1, ins, h3)" "same_rest ?h2 h3" "blocks h3 (xs1 @ (n1, False) # ys)"
    "flist h3 fl" "set fl = (if ins then {} else {endpos ?s xs1}) \<union> around ?s xs1 n1 ys" "available_size h3 = between xs1 n1 ys"
    "\<forall>j zs. merge_prev xs ((j, False) # zs) = xs1 @ (n1 - n + j, False) # zs"
    using merge_left_ok [OF fr2 b2 f2] by (auto simp: p_def)
  note R3 = same_restD [OF l(2)]
  have fr3: "mh_frame h3" using R3(9) fr2 by simp
  have s3: "start_addr h3 = ?s" using R3(2) by simp
  have A: "(if ins then {} else {endpos ?s xs1}) \<subseteq> {endpos (start_addr h3) xs1}" using s3 by simp
  have f3: "set fl = (if ins then {} else {endpos ?s xs1}) \<union> around (start_addr h3) xs1 n1 ys" using l(5) s3 by simp
  obtain n2 ys2 h4 fl2 where r: "merge_right (endpos ?s xs1) h3 = Some h4" "same_rest h3 h4" "blocks h4 (xs1 @ (n2, False) # ys2)"
    "flist h4 fl2" "set fl2 = (if ins then {} else {endpos ?s xs1}) \<union> around ?s xs1 n2 ys2"
    "available_size h4 = between xs1 n2 ys2" "merge_next n1 ys = (n2, False) # ys2"
    using merge_right_ok [OF fr3 l(3,4) f3 l(6) A] s3 by auto
  note R4 = same_restD [OF r(2)]
  have rest: "same_rest ?h2 h4" by (rule same_rest_trans [OF l(2) r(2)])
  have mn: "merge_next n ys = (n2 - (n1 - n), False) # ys2"
    using r(7) by (cases "(n, ys)" rule: merge_next.cases) auto
  have pl: "plugged xs n ys = xs1 @ (n2, False) # ys2" using l(7) mn by (simp add: plugged_def)
  have s4: "start_addr h4 = ?s" and fr4: "mh_frame h4" using R4(2,9) s3 fr3 by simp_all
  have nj: "noadj (xs1 @ (n2, False) # ys2)"
    using noadj_plugged [of xs ys n] O(3) pl by (simp add: noadj_append noadj_Cons del: noadj.simps(1))
  have c4: "counted h4 (xs1 @ (n2, False) # ys2)"
    using O(5,7) r(6) free_sum_plugged [of xs n ys] same_restD(3,8) [OF rest] B(5) between_bounds(1,2) [OF r(3) fr4]
    by (simp add: counted_def pl between_def)
  have same: "same_heap h h4" "mh_bytes h4 = mh_bytes h" using rest by (simp_all add: same_rest_def same_heap_def)
  have give: "memheap_give p h = (if ins then insert_first (endpos ?s xs1) h4 else Some h4)"
    using B(8) sz av l(1) r(1) by (simp add: memheap_give_def set_defs)
  show ?thesis
  proof (cases ins)
    case False
    then have "mh_ok h4 (xs1 @ (n2, False) # ys2) fl2"
      using fr4 r(3,4,5) nj c4 s4 by (auto simp: mh_ok_def around_def)
    then show ?thesis using give False same pl by auto
  next
    case True
    let ?p = "endpos ?s xs1"
    have fresh: "?p \<noteq> free_header h4" "?p \<notin> set fl2" "item_at h4 ?p"
      using block_size(3) [OF r(3) fr4] block_at(8) [OF r(3)] frees_mid [OF r(3)] r(5) True s4 by (auto simp: around_def)
    obtain nf pf where i: "insert_first ?p h4 = Some (h4\<lparr>next_free := nf, prev_free := pf\<rparr>)"
      "flist (h4\<lparr>next_free := nf, prev_free := pf\<rparr>) (?p # fl2)" using insert_free_ok(2) [OF r(4) fresh] by blast
    have "mh_ok (h4\<lparr>next_free := nf, prev_free := pf\<rparr>) (xs1 @ (n2, False) # ys2) (?p # fl2)"
      using fr4 r(3,5) i(2) nj c4 s4 True by (auto simp: mh_ok_def around_def mh_frame_def counted_def)
    then show ?thesis using give True same i(1) pl by (auto simp: same_heap_def)
  qed
qed

lemma memheap_free_ok:
  assumes ok: "mh_ok h (xs @ (n, True) # ys) fl" and lk: "locked h \<or> result = 0"
  shows "\<exists>h' fl'. rt_memheap_free result h (endpos (start_addr h) xs + 32) = Some h' \<and> mh_ok h' (plugged xs n ys) fl' \<and>
    same_heap h h' \<and> mh_bytes h' = mh_bytes h"
proof -
  let ?p = "endpos (start_addr h) xs"
  have O: "mh_frame h" "blocks h (xs @ (n, True) # ys)" using mh_okD [OF ok] by auto
  note B = block_at [OF O(2)] and S = block_size [OF O(2,1)]
  have "rt_memheap_free result h (?p + 32) = memheap_give ?p h"
    using B(1,2,3,10) S(4) lk by (auto simp: rt_memheap_free_def)
  then show ?thesis using memheap_give_ok [OF ok] by simp
qed

end
