(* ===== verification/Memheap_Client.thy ===== *)
theory Memheap_Client
  imports Memheap_Props Allocator
begin

text \<open>
  Reallocation in the memory heap, and the heap as its clients see it: the live blocks, the contract of \<open>Allocator\<close>
  discharged for the code, and what a client may rely on.
\<close>

section \<open>Growing and shrinking in place\<close>

lemma u32_s32: "u32 (s32 x + y) = u32 (x + y)"
proof -
  have "(s32 x + y) mod 4294967296 = (s32 x mod 4294967296 + y) mod 4294967296" by (simp add: mod_simps)
  also have "s32 x mod 4294967296 = x mod 4294967296" by (simp add: s32_def mod_diff_left_eq)
  finally show ?thesis by (simp add: u32_def mod_simps)
qed

text \<open>The step from a free block behind the block at \<open>p\<close> to one that starts \<open>s\<close> bytes into the two.\<close>

lemma grow_block_ok:
  assumes ok: "mh_ok h (xs @ (n, True) # (k, False) # zs) fl" and s: "n - 32 < s" "s + 12 < n + k - 64"
  defines "p \<equiv> endpos (start_addr h) xs"
  shows "\<exists>h' fl'. grow_block p (n - 32) s h = Some (Some h') \<and>
    mh_ok h' (xs @ (s + 32, True) # (n + k - (s + 32), False) # zs) fl' \<and> same_heap h h' \<and> mh_bytes h' = mh_bytes h"
proof -
  let ?s = "start_addr h" and ?q = "p + n" and ?r = "p + (s + 32)"
  have ok2: "mh_ok h ((xs @ [(n, True)]) @ (k, False) # zs) fl" using ok by simp
  note O = mh_okD [OF ok, folded p_def] and O2 = mh_okD [OF ok2]
  have q: "endpos ?s (xs @ [(n, True)]) = ?q" by (simp add: p_def)
  note B = block_at [OF O(2), folded p_def] and Q = block_at [OF O2(2), unfolded q] and QS = block_size [OF O2(2,1), unfolded q]
  have fs: "set fl - {?q} = frees ?s xs \<union> frees (?q + k) zs" "?q \<in> set fl" using O2(6,12) by (auto simp: q p_def)
  have pre: "0 \<le> s - (n - 32)" "s - (n - 32) \<le> available_size h" using s O2(7-9) Q(5) by auto
  obtain v where v: "take_bytes (s - (n - 32)) h = h\<lparr>available_size := available_size h - (s - (n - 32)), max_used_size := v\<rparr>"
    "pool_size h - (available_size h - (s - (n - 32))) \<le> v" "v \<le> pool_size h"
    using take_count [OF ok pre, of h] by auto
  let ?h1 = "h\<lparr>available_size := available_size h - (s - (n - 32)), max_used_size := v\<rparr>"
  have f1: "flist ?h1 fl" using O(4) by simp
  obtain nf pf fl1 where u: "unlink_free ?q ?h1 = Some (?h1\<lparr>next_free := nf, prev_free := pf\<rparr>)"
    "flist (?h1\<lparr>next_free := nf(?q \<mapsto> 0), prev_free := pf(?q \<mapsto> 0)\<rparr>) fl1" "set fl1 = set fl - {?q}"
    "flist (?h1\<lparr>next_free := nf, prev_free := pf\<rparr>) fl1"
    by (rule take_out [OF f1 fs(2)])
  let ?h2 = "?h1\<lparr>next_free := nf, prev_free := pf\<rparr>"
  let ?h4 = "?h2\<lparr>mi_prev := (mi_prev h)(?q + k \<mapsto> p), mi_next := (mi_next h)(p \<mapsto> ?q + k)\<rparr>"
  have b4: "blocks ?h4 (xs @ (n + k, True) # zs)" using join_blocks [OF O(2)] by (simp add: blocks_def p_def)
  have p4: "endpos (start_addr ?h4) xs = p" by (simp add: p_def)
  obtain g po mp mn where sp: "split_block p ?r ?h4 = Some (?h4\<lparr>magic := g, mi_pool := po, mi_prev := mp, mi_next := mn\<rparr>)"
    "blocks (?h4\<lparr>magic := g, mi_pool := po, mi_prev := mp, mi_next := mn\<rparr>) (xs @ (s + 32, True) # (n + k - (s + 32), False) # zs)"
    using split_block_ok [OF b4, of "s + 32", unfolded p4] s B(5) by auto
  let ?h5 = "?h4\<lparr>magic := g, mi_pool := po, mi_prev := mp, mi_next := mn\<rparr>"
  have f5: "flist ?h5 fl1" using u(4) by (simp add: flist_def item_at_def)
  have b5: "blocks ?h5 ((xs @ [(s + 32, True)]) @ (n + k - (s + 32), False) # zs)" using sp(2) by simp
  have fr5: "mh_frame ?h5" using O(1) by (simp add: mh_frame_def)
  have r5: "endpos (start_addr ?h5) (xs @ [(s + 32, True)]) = ?r" by (simp add: p_def)
  have fresh: "?r \<noteq> free_header ?h5" "?r \<notin> set fl1" "item_at ?h5 ?r"
    using block_size(3) [OF b5 fr5, unfolded r5] block_at(8) [OF b5, unfolded r5] frees_mid [OF b5, unfolded r5] u(3) fs(1)
    by (auto simp: add.assoc)
  obtain nf2 pf2 where i: "insert_free ?r ?h5 = Some (?h5\<lparr>next_free := nf2, prev_free := pf2\<rparr>)"
    "flist (?h5\<lparr>next_free := nf2, prev_free := pf2\<rparr>) (?r # fl1)" using insert_free_ok(1) [OF f5 fresh] by blast
  let ?h6 = "?h5\<lparr>next_free := nf2, prev_free := pf2\<rparr>"
  have pv: "mi_prev h ?q = Some p" using Q(4) by (simp add: p_def)
  have cond: "u32 (s + 12) < u32 (s32 (k - 32) + (n - 32))"
    using s Q(5,7) B(5,6) O(1) by (simp add: u32_s32 c_store mh_frame_def tail_at_def)
  have "grow_block p (n - 32) s h = Some (Some ?h6)"
    using B(3,5,8) is_used_tag [OF Q(1)] Q(3,5,9) pv QS(1,4) cond v(1) u(1) sp(1) i(1)
    by (simp add: grow_block_def set_defs add.assoc add.commute [of 32 s])
  moreover have "mh_ok ?h6 (xs @ (s + 32, True) # (n + k - (s + 32), False) # zs) (?r # fl1)"
    unfolding mh_ok_def
  proof (intro conjI)
    show "mh_frame ?h6" using O(1) by (simp add: mh_frame_def)
    show "blocks ?h6 (xs @ (s + 32, True) # (n + k - (s + 32), False) # zs)" using sp(2) by (simp add: blocks_def)
    show "noadj (xs @ (s + 32, True) # (n + k - (s + 32), False) # zs)"
      using O(3) by (simp add: noadj_append noadj_Cons del: noadj.simps(1))
    show "flist ?h6 (?r # fl1)" by (rule i(2))
    show "set (?r # fl1) = frees (start_addr ?h6) (xs @ (s + 32, True) # (n + k - (s + 32), False) # zs)"
      using u(3) fs(1) by (simp add: p_def add.assoc)
    show "counted ?h6 (xs @ (s + 32, True) # (n + k - (s + 32), False) # zs)" using v O2(7) by (simp add: counted_def)
  qed
  ultimately show ?thesis by (intro exI [of _ ?h6] exI [of _ "?r # fl1"]) (simp add: same_heap_def)
qed

text \<open>A block that cannot grow in place: there is no free block behind it, or it is too small.\<close>

lemma grow_block_none:
  assumes ok: "mh_ok h (xs @ (n, True) # ys) fl" and s: "n - 32 < s" "s \<le> 4294967264"
    and ys: "\<And>k zs. ys = (k, False) # zs \<Longrightarrow> n + k - 64 \<le> s + 12"
  shows "grow_block (endpos (start_addr h) xs) (n - 32) s h = Some None"
proof -
  let ?p = "endpos (start_addr h) xs"
  note O = mh_okD [OF ok]
  note B = block_at [OF O(2)]
  show ?thesis
  proof (cases "ys = [] \<or> snd (hd ys)")
    case True
    then show ?thesis using B(3,5) is_used_tag [OF B(10)] by (simp add: grow_block_def)
  next
    case False
    then obtain k zs where k: "ys = (k, False) # zs" by (cases ys) auto
    have ok2: "mh_ok h ((xs @ [(n, True)]) @ (k, False) # zs) fl" using ok k by simp
    note O2 = mh_okD [OF ok2]
    note Q = block_at [OF O2(2)] and QS = block_size [OF O2(2,1)]
    have "\<not> u32 (s + 12) < u32 (s32 (k - 32) + (n - 32))"
      using s ys [OF k] Q(5,7) B(5,6) O(1) by (simp add: u32_s32 c_store mh_frame_def tail_at_def)
    then show ?thesis using B(3,5) is_used_tag [OF Q(1)] QS(1,4) by (simp add: grow_block_def)
  qed
qed

text \<open>The last step of shrinking a block: the part cut off, joined with the free block behind it when there is one, goes to the
  free list and is counted as available.\<close>

lemma insert_rest_ok:
  assumes ok: "mh_ok h (xs @ (n, True) # ys) fl" and s: "12 \<le> s" "s + 44 < n - 32"
    and h2: "blocks h2 (xs @ (s + 32, True) # (m, False) # zs)" "flist h2 fl2" "same_rest h h2"
      "set fl2 = frees (start_addr h) xs \<union> frees (endpos (start_addr h) xs + (s + 32) + m) zs" "available_size h2 = free_sum xs + free_sum zs"
      "merge_next (n - (s + 32)) ys = (m, False) # zs" "n - (s + 64) \<le> free_sum ((m, False) # zs) - free_sum ys"
  shows "\<exists>h' fl'. insert_free (endpos (start_addr h) xs + (s + 32)) h2 = Some h' \<and>
      MEMITEM_SIZE h' (endpos (start_addr h) xs + (s + 32)) = Some (m - 32) \<and>
      mh_ok (h'\<lparr>available_size := u32 (available_size h' + (m - 32))\<rparr>) (xs @ (s + 32, True) # (m, False) # zs) fl' \<and>
      same_heap h h' \<and> mh_bytes h' = mh_bytes h"
proof -
  let ?s = "start_addr h" and ?r = "endpos (start_addr h) xs + (s + 32)"
  note O = mh_okD [OF ok] and S2 = same_restD [OF h2(3)]
  have av: "available_size h = free_sum xs + free_sum ys" using O(7) by simp
  have fr2: "mh_frame h2" using S2(9) O(1) by simp
  have b2: "blocks h2 ((xs @ [(s + 32, True)]) @ (m, False) # zs)" using h2(1) by simp
  have e2: "endpos (start_addr h2) (xs @ [(s + 32, True)]) = ?r" by (simp add: S2(2))
  have fresh: "?r \<noteq> free_header h2" "?r \<notin> set fl2" "item_at h2 ?r"
    using block_size(3) [OF b2 fr2, unfolded e2] block_at(8) [OF b2, unfolded e2] frees_mid [OF b2, unfolded e2] h2(4) S2(2) by auto
  obtain nf pf where i: "insert_free ?r h2 = Some (h2\<lparr>next_free := nf, prev_free := pf\<rparr>)"
    "flist (h2\<lparr>next_free := nf, prev_free := pf\<rparr>) (?r # fl2)" using insert_free_ok(1) [OF h2(2) fresh] by blast
  let ?h3 = "h2\<lparr>next_free := nf, prev_free := pf\<rparr>"
  have sz: "MEMITEM_SIZE ?h3 ?r = Some (m - 32)" using block_size(1) [OF b2 fr2, unfolded e2] by (simp add: MEMITEM_SIZE_def)
  have u: "u32 (available_size h2 + (m - 32)) = free_sum (xs @ (s + 32, True) # (m, False) # zs)"
    using blocks_pool [OF h2(1) fr2] h2(5) by (simp add: c_store)
  have nj: "noadj (xs @ (s + 32, True) # (m, False) # zs)"
    using noadj_merge_next [of ys "n - (s + 32)"] O(3) h2(6) by (simp add: noadj_append noadj_Cons del: noadj.simps(1))
  have "mh_ok (?h3\<lparr>available_size := u32 (available_size ?h3 + (m - 32))\<rparr>) (xs @ (s + 32, True) # (m, False) # zs) (?r # fl2)"
    unfolding mh_ok_def
  proof (intro conjI)
    show "counted (?h3\<lparr>available_size := u32 (available_size ?h3 + (m - 32))\<rparr>) (xs @ (s + 32, True) # (m, False) # zs)"
      using u O(5) av S2(3,8) h2(7) s by (simp add: counted_def)
  qed (use fr2 h2(1,4) nj i(2) S2(2) in \<open>auto simp: mh_frame_def add.assoc\<close>)
  then show ?thesis using i(1) sz h2(3) by (intro exI [of _ ?h3] exI [of _ "?r # fl2"]) (simp add: same_rest_def same_heap_def)
qed

text \<open>Nothing free behind the block, so that the part cut off is a block of its own.\<close>

lemma shrink_alone_ok:
  assumes ok: "mh_ok h (xs @ (n, True) # ys) fl" and s: "12 \<le> s" "s + 44 < n - 32" and ys: "ys = [] \<or> snd (hd ys)"
  defines "p \<equiv> endpos (start_addr h) xs"
  shows "\<exists>h' fl'. shrink_block p s h = Some h' \<and> mh_ok h' (xs @ (s + 32, True) # merge_next (n - (s + 32)) ys) fl' \<and>
    same_heap h h' \<and> mh_bytes h' = mh_bytes h"
proof -
  let ?r = "p + (s + 32)" and ?m = "n - (s + 32)"
  note O = mh_okD [OF ok, folded p_def]
  obtain g po mp mn where sp: "split_block p ?r h = Some (h\<lparr>magic := g, mi_pool := po, mi_prev := mp, mi_next := mn\<rparr>)"
    "blocks (h\<lparr>magic := g, mi_pool := po, mi_prev := mp, mi_next := mn\<rparr>) (xs @ (s + 32, True) # (?m, False) # ys)"
    using split_block_ok [OF O(2), of "s + 32"] s by (auto simp: p_def)
  let ?h1 = "h\<lparr>magic := g, mi_pool := po, mi_prev := mp, mi_next := mn\<rparr>"
  have b1: "blocks ?h1 ((xs @ [(s + 32, True)]) @ (?m, False) # ys)" using sp(2) by simp
  have e: "endpos (start_addr ?h1) (xs @ [(s + 32, True)]) = ?r" by (simp add: p_def)
  note R = block_at [OF b1, unfolded e]
  have f1: "flist ?h1 fl" using O(4) by simp
  have mn: "merge_next ?m ys = (?m, False) # ys" using ys by (cases "(?m, ys)" rule: merge_next.cases) auto
  obtain h' fl' where h': "insert_free ?r ?h1 = Some h'" "MEMITEM_SIZE h' ?r = Some (?m - 32)"
    "mh_ok (h'\<lparr>available_size := u32 (available_size h' + (?m - 32))\<rparr>) (xs @ (s + 32, True) # (?m, False) # ys) fl'"
    "same_heap h h'" "mh_bytes h' = mh_bytes h"
    using insert_rest_ok [OF ok s sp(2) f1, folded p_def] O(6,7) mn by (auto simp: same_rest_def same_heap_def add.assoc)
  have "shrink_block p s h = Some (h'\<lparr>available_size := u32 (available_size h' + (?m - 32))\<rparr>)"
    using sp(1) R(3) is_used_tag [OF R(10)] ys h'(1,2) by (simp add: shrink_block_def add.assoc add.commute [of 32 s])
  then show ?thesis using h' mn by (intro exI [of _ "h'\<lparr>available_size := u32 (available_size h' + (?m - 32))\<rparr>"] exI [of _ fl'])
      (simp add: same_heap_def)
qed

lemma shrink_joined_ok:
  assumes ok: "mh_ok h (xs @ (n, True) # (k, False) # zs) fl" and s: "12 \<le> s" "s + 44 < n - 32"
  defines "p \<equiv> endpos (start_addr h) xs"
  shows "\<exists>h' fl'. shrink_block p s h = Some h' \<and> mh_ok h' (xs @ (s + 32, True) # (n - (s + 32) + k, False) # zs) fl' \<and>
    same_heap h h' \<and> mh_bytes h' = mh_bytes h"
proof -
  let ?s = "start_addr h" and ?r = "p + (s + 32)" and ?m = "n - (s + 32)"
  note O = mh_okD [OF ok, folded p_def]
  obtain g po mp mn where sp: "split_block p ?r h = Some (h\<lparr>magic := g, mi_pool := po, mi_prev := mp, mi_next := mn\<rparr>)"
    "blocks (h\<lparr>magic := g, mi_pool := po, mi_prev := mp, mi_next := mn\<rparr>) (xs @ (s + 32, True) # (?m, False) # (k, False) # zs)"
    using split_block_ok [OF O(2), of "s + 32"] s by (auto simp: p_def)
  let ?h1 = "h\<lparr>magic := g, mi_pool := po, mi_prev := mp, mi_next := mn\<rparr>"
  have b2: "blocks ?h1 ((xs @ [(s + 32, True)]) @ (?m, False) # (k, False) # zs)"
    "blocks ?h1 ((xs @ [(s + 32, True), (?m, False)]) @ (k, False) # zs)" using sp(2) by simp_all
  have fr1: "mh_frame ?h1" using O(1) by (simp add: mh_frame_def)
  have e: "endpos (start_addr ?h1) (xs @ [(s + 32, True)]) = ?r" "endpos (start_addr ?h1) (xs @ [(s + 32, True), (?m, False)]) = p + n"
    by (simp_all add: p_def)
  note R = block_at [OF b2(1), unfolded e] and Q = block_at [OF b2(2), unfolded e] and QS = block_size [OF b2(2) fr1, unfolded e]
  let ?h2 = "?h1\<lparr>available_size := available_size h - (k - 32), mi_prev := mp(p + n + k \<mapsto> ?r), mi_next := mn(?r \<mapsto> p + n + k)\<rparr>"
  have u: "u32 (available_size h - (k - 32)) = available_size h - (k - 32)"
    using O(7-11) Q(5) free_sum_bounds [of zs] O(2) by (auto simp: c_store blocks_def)
  have bj: "blocks ?h2 (xs @ (s + 32, True) # (?m + k, False) # zs)"
    using join_blocks [OF b2(1), unfolded e] by (simp add: blocks_def add.assoc)
  have fl2: "flist ?h2 fl" "p + n \<in> set fl" using O(4,6) by (auto simp: flist_def item_at_def)
  obtain nf pf fl' where uf: "unlink_free (p + n) ?h2 = Some (?h2\<lparr>next_free := nf, prev_free := pf\<rparr>)"
    "flist (?h2\<lparr>next_free := nf(p + n \<mapsto> 0), prev_free := pf(p + n \<mapsto> 0)\<rparr>) fl'" "set fl' = set fl - {p + n}"
    "flist (?h2\<lparr>next_free := nf, prev_free := pf\<rparr>) fl'"
    by (rule take_out [OF fl2])
  let ?h3 = "?h2\<lparr>next_free := nf, prev_free := pf\<rparr>"
  have set3: "set fl' = frees ?s xs \<union> frees (?r + (?m + k)) zs"
    using uf(3) O(6) frees_mid [OF b2(2), unfolded e] by (auto simp: p_def [symmetric] add.assoc)
  have b3: "blocks ?h3 (xs @ (s + 32, True) # (?m + k, False) # zs)" using bj by simp
  have r3: "same_rest h ?h3" by (simp add: same_rest_def same_heap_def)
  have a3: "available_size ?h3 = free_sum xs + free_sum zs" using O(7) by simp
  obtain h' fl'' where h': "insert_free ?r ?h3 = Some h'" "MEMITEM_SIZE h' ?r = Some (?m + k - 32)"
    "mh_ok (h'\<lparr>available_size := u32 (available_size h' + (?m + k - 32))\<rparr>) (xs @ (s + 32, True) # (?m + k, False) # zs) fl''"
    "same_heap h h'" "mh_bytes h' = mh_bytes h"
    using insert_rest_ok [OF ok s b3 uf(4) r3 set3 [unfolded p_def] a3, folded p_def] by auto
  have ne: "k \<noteq> 0" "?m \<noteq> 0" using Q(5) R(5) by auto
  have "shrink_block p s h = Some (h'\<lparr>available_size := u32 (available_size h' + (?m + k - 32))\<rparr>)"
    using sp(1) R(3,8) is_used_tag [OF Q(1)] Q(3,9) QS(1) u uf(1) h'(1,2) ne
    by (simp add: shrink_block_def set_defs add.assoc add.commute [of 32 s])
  then show ?thesis using h'
    by (intro exI [of _ "h'\<lparr>available_size := u32 (available_size h' + (?m + k - 32))\<rparr>"] exI [of _ fl'']) (simp add: same_heap_def)
qed

lemma shrink_block_ok:
  assumes ok: "mh_ok h (xs @ (n, True) # ys) fl" and s: "12 \<le> s" "s + 44 < n - 32"
  shows "\<exists>h' fl'. shrink_block (endpos (start_addr h) xs) s h = Some h' \<and>
    mh_ok h' (xs @ (s + 32, True) # merge_next (n - (s + 32)) ys) fl' \<and> same_heap h h' \<and> mh_bytes h' = mh_bytes h"
proof (cases "ys = [] \<or> snd (hd ys)")
  case True
  from shrink_alone_ok [OF ok s True] show ?thesis .
next
  case False
  then obtain k zs where ys: "ys = (k, False) # zs" by (cases ys) auto
  show ?thesis using shrink_joined_ok [OF ok [unfolded ys] s] by (simp add: ys)
qed

section \<open>Live blocks\<close>

definition mh_wf :: "rt_memheap \<Rightarrow> bool" where
  "mh_wf h \<longleftrightarrow> (\<exists>bs fl. mh_ok h bs fl)"

definition mh_live :: "rt_memheap \<Rightarrow> (int \<times> int) set" where
  "mh_live h = {x. \<exists>bs fl. mh_ok h bs fl \<and> x \<in> used_blocks (start_addr h) bs}"

lemma chain_of_unique:
  assumes "linked nf pf a (starts p bs) T" "linked nf pf' a' (starts p bs') T" "nf a = nf a'" "endpos p bs = T" "endpos p bs' = T"
    "large bs" "large bs'" "tags g po m p bs" "tags g po' m' p bs'"
  shows "bs = bs'"
  using assms
proof (induction bs arbitrary: p a a' bs')
  case Nil
  then show ?case using starts_range [of bs' p p] by (cases bs') auto
next
  case (Cons b bs)
  obtain n u where b: "b = (n, u)" by fastforce
  have "p < T" using Cons.prems(4,6) roomy_ge [OF large_roomy, of bs "p + n"] by (auto simp: b)
  then obtain n' u' cs where c: "bs' = (n', u') # cs" using Cons.prems(5) by (cases bs') auto
  have nx: "nf p = Some (p + n)" "nf p = Some (p + n')"
    using Cons.prems(1,2,4,5) linked_first [of nf pf p "starts (p + n) bs" T] linked_first [of nf pf' p "starts (p + n') cs" T]
      hd_starts [of "p + n" bs] hd_starts [of "p + n'" cs] by (auto simp: b c)
  have u: "u = u'" using Cons.prems(8,9) tag_simps(4) by (auto simp: b c tag_def split: if_splits)
  have "bs = cs"
    by (rule Cons.IH [where p = "p + n" and a = p and a' = p]) (use Cons.prems nx in \<open>auto simp: b c\<close>)
  then show ?case using nx u by (simp add: b c)
qed

lemma mh_ok_unique:
  assumes "mh_ok h bs fl" "mh_ok h bs' fl'"
  shows "bs = bs'"
  using assms chain_of_unique [of "mi_next h" "mi_prev h" "tail_at h" "start_addr h" bs "tail_at h" "mi_prev h" "tail_at h" bs']
  by (auto simp: mh_ok_def blocks_def)

lemma mh_live_eq: "mh_ok h bs fl \<Longrightarrow> mh_live h = used_blocks (start_addr h) bs"
  by (auto simp: mh_live_def dest: mh_ok_unique)

lemma used_large: "large bs \<Longrightarrow> (a, k) \<in> used_blocks p bs \<Longrightarrow> 12 \<le> k"
  by (induction p bs rule: endpos.induct) (auto split: if_splits)

lemma mh_live_range:
  assumes "mh_wf h" "(r, k) \<in> mh_live h"
  shows "start_addr h + 32 \<le> r" "12 \<le> k" "r + k \<le> start_addr h + pool_size h - 32" "0 < r"
    "(r', k') \<in> mh_live h \<Longrightarrow> (r', k') = (r, k) \<or> r + k + 32 \<le> r' \<or> r' + k' + 32 \<le> r"
proof -
  obtain bs fl where bs: "mh_ok h bs fl" using assms(1) by (auto simp: mh_wf_def)
  then have B: "large bs" "endpos (start_addr h) bs = start_addr h + pool_size h - 32" "0 < start_addr h"
    by (auto simp: mh_ok_def blocks_def tail_at_def mh_frame_def)
  have r: "(r, k) \<in> used_blocks (start_addr h) bs" using assms(2) mh_live_eq [OF bs] by simp
  note R = roomy_used_range [OF large_roomy [OF B(1)] r]
  show "start_addr h + 32 \<le> r" "12 \<le> k" "r + k \<le> start_addr h + pool_size h - 32" "0 < r"
    using R B used_large [OF B(1) r] by auto
  show "(r', k') \<in> mh_live h \<Longrightarrow> (r', k') = (r, k) \<or> r + k + 32 \<le> r' \<or> r' + k' + 32 \<le> r"
    using roomy_used_disjoint [OF large_roomy [OF B(1)] r, of r' k'] mh_live_eq [OF bs] by auto
qed

lemma used_take: "used_blocks p (mh_take sz n) = {(p + 32, if sz + 76 \<le> n then sz else n - 32)}"
  by (simp add: mh_take_def)

lemma endpos_take [simp]: "endpos p (mh_take sz n) = p + n"
  by (simp add: mh_take_def)

lemma mh_alloc_live:
  assumes wf: "mh_wf h" and lk: "locked h \<or> result = 0"
  shows "rt_memheap_alloc result h n = Some (0, h) \<or>
    (\<exists>r k h'. rt_memheap_alloc result h n = Some (r, h') \<and> mh_wf h' \<and> same_heap h h' \<and> mh_bytes h' = mh_bytes h \<and>
       memheap_size n \<le> k \<and> k < memheap_size n + 44 \<and> 0 < r \<and> mh_live h' = insert (r, k) (mh_live h) \<and>
       (\<forall>(b, l) \<in> mh_live h. r + k + 32 \<le> b \<or> b + l + 32 \<le> r))"
proof -
  obtain bs fl where bs: "mh_ok h bs fl" using wf by (auto simp: mh_wf_def)
  let ?sz = "memheap_size n" and ?s = "start_addr h"
  show ?thesis
  proof (cases "rt_memheap_alloc result h n = Some (0, h)")
    case False
    then obtain xs m ys h' fl' where t: "bs = xs @ (m, False) # ys" "?sz + 32 \<le> m" "rt_memheap_alloc result h n = Some (endpos ?s xs + 32, h')"
      "mh_ok h' (xs @ mh_take ?sz m @ ys) fl'" "same_heap h h'" "mh_bytes h' = mh_bytes h"
      using memheap_alloc_ok [OF bs lk, of n] by auto
    define k where "k = (if ?sz + 76 \<le> m then ?sz else m - 32)"
    have s': "start_addr h' = ?s" using t(5) by (simp add: same_heap_def)
    have la: "large (xs @ (m, False) # ys)" and st: "0 < ?s" using bs t(1) by (auto simp: mh_ok_def blocks_def mh_frame_def)
    have k: "?sz \<le> k" "k < ?sz + 44" "k + 32 \<le> m" using t(2) by (auto simp: k_def)
    have live: "mh_live h' = insert (endpos ?s xs + 32, k) (mh_live h)"
      using mh_live_eq [OF t(4)] mh_live_eq [OF bs] s' by (simp add: t(1) used_take k_def Un_insert_left insert_commute)
    have sep: "\<forall>(b, l) \<in> mh_live h. endpos ?s xs + 32 + k + 32 \<le> b \<or> b + l + 32 \<le> endpos ?s xs + 32"
      using mh_live_eq [OF bs] roomy_used_range [of xs _ _ ?s] roomy_used_range [of ys _ _ "endpos ?s xs + m"] la large_roomy k(3)
      by (fastforce simp: t(1))
    have pos: "0 < endpos ?s xs + 32" using roomy_ge [of xs ?s] la large_roomy st by fastforce
    show ?thesis
      by (rule disjI2, rule exI [of _ "endpos ?s xs + 32"], rule exI [of _ k], rule exI [of _ h'], intro conjI)
        (use t(3-6) k live sep pos in \<open>auto simp: mh_wf_def\<close>)
  qed simp
qed

lemma used_plugged:
  assumes "large (xs @ (n, True) # ys)"
  shows "used_blocks p (plugged xs n ys) = used_blocks p (xs @ (n, True) # ys) - {(endpos p xs + 32, n - 32)}"
proof -
  have r: "roomy xs" "roomy ys" using assms large_roomy by auto
  have "(endpos p xs + 32, n - 32) \<notin> used_blocks p xs"
    using roomy_used_range [OF r(1), of "endpos p xs + 32" "n - 32" p] assms by auto
  moreover have "(endpos p xs + 32, n - 32) \<notin> used_blocks (endpos p xs + n) ys"
    using roomy_used_range [OF r(2), of "endpos p xs + 32" "n - 32" "endpos p xs + n"] assms by auto
  ultimately show ?thesis by (auto simp: used_blocks_plugged)
qed

lemma mh_free_live:
  assumes wf: "mh_wf h" and r: "(r, k) \<in> mh_live h" and lk: "locked h \<or> result = 0"
  shows "\<exists>h'. rt_memheap_free result h r = Some h' \<and> mh_wf h' \<and> same_heap h h' \<and> mh_bytes h' = mh_bytes h \<and>
    mh_live h' = mh_live h - {(r, k)}"
proof -
  obtain bs fl where bs: "mh_ok h bs fl" using wf by (auto simp: mh_wf_def)
  have "(r, k) \<in> used_blocks (start_addr h) bs" using r mh_live_eq [OF bs] by simp
  then obtain xs ys where x: "bs = xs @ (k + 32, True) # ys" "r = endpos (start_addr h) xs + 32" using used_blocks_split by blast
  obtain h' fl' where h': "rt_memheap_free result h r = Some h'" "mh_ok h' (plugged xs (k + 32) ys) fl'" "same_heap h h'"
    "mh_bytes h' = mh_bytes h" using memheap_free_ok [OF bs [unfolded x(1)] lk] x(2) by auto
  have la: "large (xs @ (k + 32, True) # ys)" using bs x(1) by (auto simp: mh_ok_def blocks_def)
  have "mh_live h' = mh_live h - {(r, k)}"
    using mh_live_eq [OF h'(2)] mh_live_eq [OF bs] used_plugged [OF la] h'(3) x by (simp add: same_heap_def)
  then show ?thesis using h' by (auto simp: mh_wf_def)
qed

section \<open>Reallocation\<close>

lemma align_aligned:
  assumes "0 \<le> s" "s mod 32 = 0" "s \<le> 4294967264"
  shows "RT_ALIGN s RT_ALIGN_SIZE = s"
proof -
  have "u32 (s + 31) = s + 31" using assms by (simp add: c_store)
  then have "RT_ALIGN s RT_ALIGN_SIZE = 32 * ((s + 31) div 32)" using RT_ALIGN_32 [of s] by simp
  also have "\<dots> = s" using assms(2) by presburger
  finally show ?thesis .
qed

lemma memheap_size_props:
  assumes "0 < n" "n \<le> 4294967264"
  shows "n \<le> memheap_size n" "memheap_size n \<le> 4294967264" "memheap_size n mod 32 = 0" "32 \<le> memheap_size n"
    "memheap_size (memheap_size n) = memheap_size n"
proof -
  let ?s = "RT_ALIGN n RT_ALIGN_SIZE"
  have b: "n \<le> ?s" "?s < n + 32" "?s mod 32 = 0" using RT_ALIGN_bounds [of n] assms by auto
  have m: "memheap_size n = ?s" "32 \<le> ?s" "?s \<le> 4294967264" using b assms by (auto simp: memheap_size_def Let_def) presburger+
  then show "n \<le> memheap_size n" "memheap_size n \<le> 4294967264" "memheap_size n mod 32 = 0" "32 \<le> memheap_size n"
    using b by simp_all
  have "RT_ALIGN ?s RT_ALIGN_SIZE = ?s" using align_aligned [of ?s] b(3) m(2,3) by simp
  then show "memheap_size (memheap_size n) = memheap_size n" using m(1,2) by (simp add: memheap_size_def Let_def)
qed

text \<open>A call that leaves the block where it is, with \<open>k'\<close> bytes.\<close>

lemma used_resize:
  assumes la: "large (xs @ (k + 32, True) # ys)" and t: "used_blocks (endpos p xs + (k' + 32)) zs = used_blocks (endpos p xs + (k + 32)) ys"
  shows "used_blocks p (xs @ (k' + 32, True) # zs) = insert (endpos p xs + 32, k') (used_blocks p (xs @ (k + 32, True) # ys) - {(endpos p xs + 32, k)})"
  using used_plugged [OF la, of p] t by (simp add: used_blocks_plugged)

lemma realloc_in_place:
  assumes ok: "mh_ok h (xs @ (k + 32, True) # ys) fl" and r: "r = endpos (start_addr h) xs + 32" and n: "0 < n" "n \<le> 4294967264"
    and c: "memheap_size n \<le> k \<or> (\<exists>j zs. ys = (j, False) # zs \<and> memheap_size n + 12 < k + j - 32)"
  shows "\<exists>h' k'. rt_memheap_realloc (\<lambda>_. 0) h r n = Some (r, h') \<and> mh_wf h' \<and> same_heap h h' \<and> mh_bytes h' = mh_bytes h \<and>
    memheap_size n \<le> k' \<and> mh_live h' = insert (r, k') (mh_live h - {(r, k)})"
proof -
  let ?z = "memheap_size n" and ?s = "start_addr h" and ?p = "endpos (start_addr h) xs"
  note O = mh_okD [OF ok]
  note B = block_at [OF O(2)] and S = block_size [OF O(2,1)]
  note Z = memheap_size_props [OF n]
  have la: "large (xs @ (k + 32, True) # ys)" using O(2) by (simp add: blocks_def)
  have live: "mh_live h = used_blocks ?s (xs @ (k + 32, True) # ys)" by (rule mh_live_eq [OF ok])
  have un: "rt_memheap_realloc (\<lambda>_. 0) h r n = (if k < ?z then
      do { g \<leftarrow> grow_block ?p k ?z h;
        (case g of Some h1 \<Rightarrow> Some (r, h1) | None \<Rightarrow> do {
           (new_ptr, h1) \<leftarrow> rt_memheap_alloc 0 h ?z;
           (if new_ptr \<noteq> 0 then do { h2 \<leftarrow> rt_memheap_free 0 (mh_copy new_ptr r k h1) r; Some (new_ptr, h2) } else Some (0, h1)) }) }
    else if k \<le> u32 (?z + 32 + 12) then Some (r, h) else do { h1 \<leftarrow> shrink_block ?p ?z h; Some (r, h1) })"
    using S(1,4) n(1) unfolding r by (simp add: rt_memheap_realloc_def Let_def)
  consider (keep) "?z \<le> k" "k \<le> ?z + 44" | (shrink) "?z + 44 < k" | (grow) j zs where "k < ?z" "ys = (j, False) # zs" "?z + 12 < k + j - 32"
    using c by (cases "?z \<le> k"; cases "k \<le> ?z + 44") auto
  then show ?thesis
  proof cases
    case keep
    then have "rt_memheap_realloc (\<lambda>_. 0) h r n = Some (r, h)" using un Z(4) S(2) by (simp add: c_store)
    moreover have "(r, k) \<in> mh_live h" using live r by simp
    ultimately show ?thesis using keep(1) ok by (intro exI [of _ h] exI [of _ k]) (auto simp: mh_wf_def insert_absorb)
  next
    case shrink
    obtain h' fl' where h': "shrink_block ?p ?z h = Some h'" "mh_ok h' (xs @ (?z + 32, True) # merge_next (k + 32 - (?z + 32)) ys) fl'"
      "same_heap h h'" "mh_bytes h' = mh_bytes h" using shrink_block_ok [OF ok, of ?z] shrink Z(4) by auto
    have "\<not> k \<le> u32 (?z + 32 + 12)" using shrink Z(4) S(2) by (simp add: c_store)
    then have run: "rt_memheap_realloc (\<lambda>_. 0) h r n = Some (r, h')" using un shrink h'(1) by simp
    have "used_blocks (?p + (?z + 32)) (merge_next (k + 32 - (?z + 32)) ys) = used_blocks (?p + (k + 32)) ys"
      by (simp add: used_blocks_merge_next add.commute [of 32 k])
    from used_resize [OF la this] have "mh_live h' = insert (r, ?z) (mh_live h - {(r, k)})"
      using mh_live_eq [OF h'(2)] h'(3) live r by (simp add: same_heap_def)
    then show ?thesis using run h' by (intro exI [of _ h'] exI [of _ ?z]) (auto simp: mh_wf_def)
  next
    case (grow j zs)
    have ok2: "mh_ok h (xs @ (k + 32, True) # (j, False) # zs) fl" using ok grow(2) by simp
    obtain h' fl' where h': "grow_block ?p k ?z h = Some (Some h')" "mh_ok h' (xs @ (?z + 32, True) # (k + 32 + j - (?z + 32), False) # zs) fl'"
      "same_heap h h'" "mh_bytes h' = mh_bytes h" using grow_block_ok [OF ok2, of ?z] grow by auto
    have run: "rt_memheap_realloc (\<lambda>_. 0) h r n = Some (r, h')" using un grow(1) h'(1) by simp
    have "used_blocks (?p + (?z + 32)) ((k + 32 + j - (?z + 32), False) # zs) = used_blocks (?p + (k + 32)) ys"
      by (simp add: grow(2) add.assoc add.left_commute [of 32 k])
    from used_resize [OF la this] have "mh_live h' = insert (r, ?z) (mh_live h - {(r, k)})"
      using mh_live_eq [OF h'(2)] h'(3) live r by (simp add: same_heap_def)
    then show ?thesis using run h' by (intro exI [of _ h'] exI [of _ ?z]) (auto simp: mh_wf_def)
  qed
qed

lemma mh_bytes_wf [simp]: "mh_ok (h\<lparr>mh_bytes := b\<rparr>) bs fl = mh_ok h bs fl" "mh_wf (h\<lparr>mh_bytes := b\<rparr>) = mh_wf h"
  "mh_live (h\<lparr>mh_bytes := b\<rparr>) = mh_live h"
  by (simp_all add: mh_wf_def mh_live_def mh_ok_def mh_frame_def counted_def)

lemma live_ptr: "mh_wf h \<Longrightarrow> (r, k) \<in> mh_live h \<Longrightarrow> (r, l) \<in> mh_live h \<Longrightarrow> k = l"
  using mh_live_range(5) [of h r k r l] mh_live_range(2) [of h r k] mh_live_range(2) [of h r l] by auto

text \<open>A call that moves the block, or fails and changes nothing.\<close>

lemma realloc_moves:
  assumes ok: "mh_ok h (xs @ (k + 32, True) # ys) fl" and r: "r = endpos (start_addr h) xs + 32" and n: "0 < n" "n \<le> 4294967264"
    and c: "k < memheap_size n" "\<And>j zs. ys = (j, False) # zs \<Longrightarrow> k + j - 32 \<le> memheap_size n + 12"
  shows "rt_memheap_realloc (\<lambda>_. 0) h r n = Some (0, h) \<or>
    (\<exists>r' k' h'. rt_memheap_realloc (\<lambda>_. 0) h r n = Some (r', h') \<and> mh_wf h' \<and> same_heap h h' \<and> 0 < r' \<and> memheap_size n \<le> k' \<and>
       mh_live h' = insert (r', k') (mh_live h - {(r, k)}) \<and> (\<forall>(b, l) \<in> mh_live h. r' + k' + 32 \<le> b \<or> b + l + 32 \<le> r') \<and>
       mh_bytes h' = mh_bytes (mh_copy r' r k h))"
proof -
  let ?z = "memheap_size n" and ?p = "endpos (start_addr h) xs"
  note O = mh_okD [OF ok]
  note S = block_size [OF O(2,1)]
  note Z = memheap_size_props [OF n]
  have wf: "mh_wf h" using ok by (auto simp: mh_wf_def)
  have live: "(r, k) \<in> mh_live h" using mh_live_eq [OF ok] r by simp
  have "grow_block ?p (k + 32 - 32) ?z h = Some None"
    by (rule grow_block_none [OF ok]) (use c Z(2) in auto)
  then have un: "rt_memheap_realloc (\<lambda>_. 0) h r n = do {
      (new_ptr, h1) \<leftarrow> rt_memheap_alloc 0 h ?z;
      (if new_ptr \<noteq> 0 then do { h2 \<leftarrow> rt_memheap_free 0 (mh_copy new_ptr r k h1) r; Some (new_ptr, h2) } else Some (0, h1)) }"
    using S(1,4) n(1) c(1) unfolding r by (simp add: rt_memheap_realloc_def Let_def)
  have "locked h \<or> (0::int) = 0" by simp
  from mh_alloc_live [OF wf this, of ?z] show ?thesis
  proof (elim disjE exE conjE)
    assume "rt_memheap_alloc 0 h ?z = Some (0, h)"
    then show ?thesis using un by simp
  next
    fix r2 k2 h1 assume a: "rt_memheap_alloc 0 h ?z = Some (r2, h1)" "mh_wf h1" "same_heap h h1" "mh_bytes h1 = mh_bytes h"
      "memheap_size ?z \<le> k2" "0 < r2" "mh_live h1 = insert (r2, k2) (mh_live h)"
      "\<forall>(b, l) \<in> mh_live h. r2 + k2 + 32 \<le> b \<or> b + l + 32 \<le> r2"
    let ?h1 = "mh_copy r2 r k h1"
    have wf1: "mh_wf ?h1" "(r, k) \<in> mh_live ?h1" using a(2,7) live by (simp_all add: mh_copy_def)
    obtain h2 where h2: "rt_memheap_free 0 ?h1 r = Some h2" "mh_wf h2" "same_heap ?h1 h2" "mh_bytes h2 = mh_bytes ?h1"
      "mh_live h2 = mh_live ?h1 - {(r, k)}" using mh_free_live [OF wf1, of 0] by auto
    have "(r2, k2) \<noteq> (r, k)" using a(8) live mh_live_range(2) [OF wf live] by fastforce
    then have "mh_live h2 = insert (r2, k2) (mh_live h - {(r, k)})" using h2(5) a(7) by (auto simp: mh_copy_def)
    moreover have "rt_memheap_realloc (\<lambda>_. 0) h r n = Some (r2, h2)" using un a(1,6) h2(1) by simp
    moreover have "same_heap h h2" using a(3) h2(3) by (simp add: same_heap_def mh_copy_def)
    moreover have "mh_bytes h2 = mh_bytes (mh_copy r2 r k h)" using h2(4) unfolding mh_copy_def by (simp add: a(4) fun_eq_iff)
    ultimately show ?thesis using h2(2) a(5,6,8) Z(5)
      by (intro disjI2 exI [of _ r2] exI [of _ k2] exI [of _ h2]) simp
  qed
qed

lemma mh_realloc_live:
  assumes wf: "mh_wf h" and r: "(r, k) \<in> mh_live h" and n: "0 < n" "n \<le> 4294967264"
  shows "\<exists>r' h'. rt_memheap_realloc (\<lambda>_. 0) h r n = Some (r', h') \<and> mh_wf h' \<and>
    (r' = 0 \<and> h' = h \<or>
     (\<exists>k'. 0 < r' \<and> n \<le> k' \<and> mh_live h' = insert (r', k') (mh_live h - {(r, k)}) \<and>
       (\<forall>(b, l) \<in> mh_live h - {(r, k)}. r' + k' \<le> b \<or> b + l \<le> r') \<and>
       (\<forall>i. 0 \<le> i \<and> i < k \<and> i < n \<longrightarrow> mh_bytes h' (r' + i) = mh_bytes h (r + i)) \<and>
       (\<forall>(b, l) \<in> mh_live h - {(r, k)}. \<forall>i. 0 \<le> i \<and> i < l \<longrightarrow> mh_bytes h' (b + i) = mh_bytes h (b + i))))"
proof -
  obtain bs fl where bs: "mh_ok h bs fl" using wf by (auto simp: mh_wf_def)
  have "(r, k) \<in> used_blocks (start_addr h) bs" using r mh_live_eq [OF bs] by simp
  then obtain xs ys where x: "bs = xs @ (k + 32, True) # ys" "r = endpos (start_addr h) xs + 32" using used_blocks_split by blast
  note ok = bs [unfolded x(1)]
  have nz: "n \<le> memheap_size n" by (rule memheap_size_props(1) [OF n])
  have sep: "\<forall>(b, l) \<in> mh_live h - {(r, k)}. r + k' \<le> b \<or> b + l \<le> r"
    if "mh_wf h'" "mh_live h' = insert (r, k') (mh_live h - {(r, k)})" for h' k'
  proof (intro ballI)
    fix y assume y: "y \<in> mh_live h - {(r, k)}"
    obtain b l where bl: "y = (b, l)" by fastforce
    have "b \<noteq> r" using live_ptr [OF wf, of r l k] y r bl by auto
    then show "case y of (b, l) \<Rightarrow> r + k' \<le> b \<or> b + l \<le> r"
      using mh_live_range(5) [OF that(1), of r k' b l] that(2) y bl by auto
  qed
  show ?thesis
  proof (cases "memheap_size n \<le> k \<or> (\<exists>j zs. ys = (j, False) # zs \<and> memheap_size n + 12 < k + j - 32)")
    case True
    obtain h' k' where h': "rt_memheap_realloc (\<lambda>_. 0) h r n = Some (r, h')" "mh_wf h'" "same_heap h h'" "mh_bytes h' = mh_bytes h"
      "memheap_size n \<le> k'" "mh_live h' = insert (r, k') (mh_live h - {(r, k)})"
      using realloc_in_place [OF ok x(2) n True] by blast
    have nk: "n \<le> k'" using nz h'(5) by simp
    have own: "\<forall>i. 0 \<le> i \<and> i < k \<and> i < n \<longrightarrow> mh_bytes h' (r + i) = mh_bytes h (r + i)" using h'(4) by simp
    have other: "\<forall>(b, l) \<in> mh_live h - {(r, k)}. \<forall>i. 0 \<le> i \<and> i < l \<longrightarrow> mh_bytes h' (b + i) = mh_bytes h (b + i)"
      unfolding h'(4) by blast
    show ?thesis
      by (rule exI [of _ r], rule exI [of _ h'], intro conjI disjI2 exI [of _ k'])
         (fact h' nk own other sep [OF h'(2,6)] mh_live_range(4) [OF wf r])+
  next
    case False
    then have c: "k < memheap_size n" "\<And>j zs. ys = (j, False) # zs \<Longrightarrow> k + j - 32 \<le> memheap_size n + 12" by force+
    have "rt_memheap_realloc (\<lambda>_. 0) h r n = Some (0, h) \<or>
      (\<exists>r' k' h'. rt_memheap_realloc (\<lambda>_. 0) h r n = Some (r', h') \<and> mh_wf h' \<and> same_heap h h' \<and> 0 < r' \<and> memheap_size n \<le> k' \<and>
         mh_live h' = insert (r', k') (mh_live h - {(r, k)}) \<and> (\<forall>(b, l) \<in> mh_live h. r' + k' + 32 \<le> b \<or> b + l + 32 \<le> r') \<and>
         mh_bytes h' = mh_bytes (mh_copy r' r k h))"
      by (rule realloc_moves [OF ok x(2) n c(1)]) (rule c(2))
    then show ?thesis
    proof (elim disjE exE conjE)
      assume "rt_memheap_realloc (\<lambda>_. 0) h r n = Some (0, h)"
      then show ?thesis using wf by simp
    next
      fix q m h' assume h': "rt_memheap_realloc (\<lambda>_. 0) h r n = Some (q, h')" "mh_wf h'" "same_heap h h'" "0 < q" "memheap_size n \<le> m"
        "mh_live h' = insert (q, m) (mh_live h - {(r, k)})" "mh_bytes h' = mh_bytes (mh_copy q r k h)"
        and apart: "\<forall>(b, l) \<in> mh_live h. q + m + 32 \<le> b \<or> b + l + 32 \<le> q"
      have km: "k \<le> m" using c(1) h'(5) by simp
      have nm: "n \<le> m" using nz h'(5) by simp
      have own: "\<forall>i. 0 \<le> i \<and> i < k \<and> i < n \<longrightarrow> mh_bytes h' (q + i) = mh_bytes h (r + i)"
        using h'(7) by (simp add: mh_copy_def add.commute)
      have other: "\<forall>(b, l) \<in> mh_live h - {(r, k)}. \<forall>i. 0 \<le> i \<and> i < l \<longrightarrow> mh_bytes h' (b + i) = mh_bytes h (b + i)"
      proof (intro ballI)
        fix y assume "y \<in> mh_live h - {(r, k)}"
        moreover obtain b l where "y = (b, l)" by fastforce
        ultimately show "case y of (b, l) \<Rightarrow> \<forall>i. 0 \<le> i \<and> i < l \<longrightarrow> mh_bytes h' (b + i) = mh_bytes h (b + i)"
          using bspec [OF apart, of y] km h'(7) by (auto simp: mh_copy_def)
      qed
      have "\<forall>(b, l) \<in> mh_live h. q + m \<le> b \<or> b + l \<le> q" by (rule apart_weaken [OF apart])
      then have sep2: "\<forall>(b, l) \<in> mh_live h - {(r, k)}. q + m \<le> b \<or> b + l \<le> q" by blast
      show ?thesis
        by (rule exI [of _ q], rule exI [of _ h'], intro conjI disjI2 exI [of _ m]) (fact h' nm own other sep2)+
    qed
  qed
qed

section \<open>The contract\<close>

interpretation mh: resizable_source mh_wf mh_live "rt_memheap_alloc 0" "rt_memheap_free 0" "rt_memheap_realloc (\<lambda>_. 0)" mh_bytes
proof unfold_locales
  fix h n assume h: "mh_wf h" and n: "0 < (n::int)" "n \<le> 4294967264"
  have "locked h \<or> (0::int) = 0" by simp
  from mh_alloc_live [OF h this, of n]
  show "\<exists>r h'. rt_memheap_alloc 0 h n = Some (r, h') \<and> mh_wf h' \<and>
      (r = 0 \<and> mh_live h' = mh_live h \<or>
       (\<exists>k. 0 < r \<and> n \<le> k \<and> mh_live h' = insert (r, k) (mh_live h) \<and> (\<forall>(a, l) \<in> mh_live h. r + k \<le> a \<or> a + l \<le> r)))"
  proof (elim disjE exE conjE)
    fix r k h' assume "rt_memheap_alloc 0 h n = Some (r, h')" "mh_wf h'" "memheap_size n \<le> k" "0 < r" "mh_live h' = insert (r, k) (mh_live h)"
      "\<forall>(b, l) \<in> mh_live h. r + k + 32 \<le> b \<or> b + l + 32 \<le> r"
    then show ?thesis using memheap_size_props(1) [OF n] apart_weaken
      by (intro exI [of _ r] exI [of _ h'] conjI disjI2 exI [of _ k]) auto
  qed (simp add: h)
next
  fix h r k assume h: "mh_wf h" "(r, k) \<in> mh_live h"
  show "\<exists>h'. rt_memheap_free 0 h r = Some h' \<and> mh_wf h' \<and> mh_live h' = mh_live h - {(r, k)}"
    using mh_free_live [OF h, of 0] by auto
  show "0 < r \<and> 0 < k" using mh_live_range(2,4) [OF h] by simp
next
  fix h r k n assume h: "mh_wf h" "(r, k) \<in> mh_live h" "0 < (n::int)" "n \<le> 4294967264"
  show "\<exists>r' h'. rt_memheap_realloc (\<lambda>_. 0) h r n = Some (r', h') \<and> mh_wf h' \<and>
    (r' = 0 \<and> h' = h \<or>
     (\<exists>k'. 0 < r' \<and> n \<le> k' \<and> mh_live h' = insert (r', k') (mh_live h - {(r, k)}) \<and>
       (\<forall>(b, l) \<in> mh_live h - {(r, k)}. r' + k' \<le> b \<or> b + l \<le> r') \<and>
       (\<forall>i. 0 \<le> i \<and> i < k \<and> i < n \<longrightarrow> mh_bytes h' (r' + i) = mh_bytes h (r + i)) \<and>
       (\<forall>(b, l) \<in> mh_live h - {(r, k)}. \<forall>i. 0 \<le> i \<and> i < l \<longrightarrow> mh_bytes h' (b + i) = mh_bytes h (b + i))))"
    by (rule mh_realloc_live [OF h])
qed

section \<open>Initialisation\<close>

lemma memheap_init_ok:
  assumes s: "0 < start" "96 \<le> size0" "size0 \<le> 4294967264" "start + size0 \<le> 4294967296" and hd: "0 < hdr" "hdr < start \<or> start + size0 \<le> hdr"
  shows "mh_ok (rt_memheap_init obj hdr mem start size0) [(RT_ALIGN_DOWN size0 RT_ALIGN_SIZE - 32, False)] [start]"
    "mh_live (rt_memheap_init obj hdr mem start size0) = {}"
proof -
  let ?h = "rt_memheap_init obj hdr mem start size0" and ?p = "RT_ALIGN_DOWN size0 RT_ALIGN_SIZE"
  have p: "?p \<le> size0" "96 \<le> ?p" using s(2) RT_ALIGN_DOWN_32 [of size0] by presburger+
  have u: "u32 (?p - 64) = ?p - 64" "u32 (start + (?p - 64) + 32) = start + ?p - 32" "u32 64 = 64"
    using p s by (simp_all add: c_store)
  have ne: "hdr \<noteq> start" "hdr \<noteq> start + ?p - 32" "start \<noteq> start + ?p - 32" using p hd by auto
  have f: "start_addr ?h = start" "pool_size ?h = ?p" "available_size ?h = ?p - 64" "max_used_size ?h = 64" "free_header ?h = hdr"
    "free_list ?h = hdr" "mh_addr ?h = obj" "tail_at ?h = start + ?p - 32"
    using u by (simp_all add: rt_memheap_init_def Let_def tail_at_def)
  have m: "magic ?h = [hdr \<mapsto> tag False, start \<mapsto> tag False, start + ?p - 32 \<mapsto> tag True]"
    "mi_pool ?h = [hdr \<mapsto> obj, start \<mapsto> obj, start + ?p - 32 \<mapsto> obj]"
    "mi_next ?h = [hdr \<mapsto> 0, start \<mapsto> start + ?p - 32, start + ?p - 32 \<mapsto> start]"
    "mi_prev ?h = [hdr \<mapsto> 0, start \<mapsto> start + ?p - 32, start + ?p - 32 \<mapsto> start]"
    "next_free ?h = [hdr \<mapsto> start, start \<mapsto> hdr, start + ?p - 32 \<mapsto> 0]" "prev_free ?h = [hdr \<mapsto> start, start \<mapsto> hdr, start + ?p - 32 \<mapsto> 0]"
    using u by (simp_all add: rt_memheap_init_def Let_def)
  show ok: "mh_ok ?h [(?p - 32, False)] [start]"
    unfolding mh_ok_def
  proof (intro conjI)
    show "mh_frame ?h" using p s hd by (auto simp: mh_frame_def f)
    show "blocks ?h [(?p - 32, False)]" using p ne by (simp add: blocks_def f m)
    show "flist ?h [start]" using p ne by (auto simp: flist_def f m item_at_def)
    show "counted ?h [(?p - 32, False)]" using p by (simp add: counted_def f)
  qed (simp_all add: f)
  show "mh_live ?h = {}" using mh_live_eq [OF ok] by simp
qed

section \<open>What clients can rely on\<close>

lemma plugged_mh_take:
  assumes "noadj (xs @ (n, False) # ys)" "mh_take sz n = (k, True) # zs"
  shows "plugged xs k (zs @ ys) = xs @ (n, False) # ys"
proof -
  have x: "xs = [] \<or> snd (last xs)" and y: "ys = [] \<or> snd (hd ys)" using assms(1) by (auto simp: noadj_append noadj_Cons simp del: noadj.simps(1))
  have "merge_next k (zs @ ys) = (n, False) # ys"
  proof (cases "sz + 76 \<le> n")
    case True
    then show ?thesis using assms(2) by (auto simp: mh_take_def)
  next
    case False
    then show ?thesis using assms(2) y by (cases "(k, ys)" rule: merge_next.cases) (auto simp: mh_take_def)
  qed
  then show ?thesis using x by (auto simp: plugged_def merge_prev_def)
qed

text \<open>C38: A release undoes an allocation of the memory heap: releasing the block that \<open>rt_memheap_alloc\<close> returned, whatever was written
  in it, never fails and leaves the same list of blocks and the same number of available bytes as before.\<close>

theorem memheap_alloc_free_roundtrip:
  assumes ok: "mh_ok h bs fl" and a: "rt_memheap_alloc 0 h n = Some (r, h1)" "r \<noteq> 0"
  shows "\<exists>h2 fl'. rt_memheap_free 0 (h1\<lparr>mh_bytes := b\<rparr>) r = Some h2 \<and> mh_ok h2 bs fl' \<and> available_size h2 = available_size h \<and>
    mh_live h2 = mh_live h \<and> mh_bytes h2 = b"
proof -
  have lk: "locked h \<or> (0::int) = 0" by simp
  obtain xs m ys fl1 where x: "bs = xs @ (m, False) # ys" "r = endpos (start_addr h) xs + 32"
    "mh_ok h1 (xs @ mh_take (memheap_size n) m @ ys) fl1" "same_heap h h1"
    using memheap_alloc_ok [OF ok lk, of n] a by auto
  obtain k zs where k: "mh_take (memheap_size n) m = (k, True) # zs"
    by (cases "memheap_size n + 76 \<le> m") (simp_all add: mh_take_def)
  let ?h1 = "h1\<lparr>mh_bytes := b\<rparr>"
  have ok1: "mh_ok ?h1 (xs @ (k, True) # (zs @ ys)) fl1" using x(3) k by simp
  have s1: "start_addr ?h1 = start_addr h" using x(4) by (simp add: same_heap_def)
  have lk1: "locked ?h1 \<or> (0::int) = 0" by simp
  obtain h2 fl2 where h2: "rt_memheap_free 0 ?h1 r = Some h2" "mh_ok h2 (plugged xs k (zs @ ys)) fl2" "same_heap ?h1 h2" "mh_bytes h2 = b"
    using memheap_free_ok [OF ok1 lk1] x(2) s1 by auto
  have "noadj (xs @ (m, False) # ys)" using ok x(1) by (simp add: mh_ok_def)
  then have p: "plugged xs k (zs @ ys) = bs" using plugged_mh_take k x(1) by simp
  have "available_size h2 = available_size h" using h2(2) ok p by (simp add: mh_ok_def counted_def)
  moreover have "mh_live h2 = mh_live h"
    using mh_live_eq [OF h2(2)] mh_live_eq [OF ok] p h2(3) x(4) by (simp add: same_heap_def)
  ultimately show ?thesis using h2 p by auto
qed

definition ex_memheap :: rt_memheap where
  "ex_memheap = rt_memheap_init 100 200 (\<lambda>_. 0) 1024 4096"

lemma ex_memheap_ok: "mh_ok ex_memheap [(4064, False)] [1024]" "mh_live ex_memheap = {}" "mh_wf ex_memheap"
proof -
  show "mh_ok ex_memheap [(4064, False)] [1024]"
    using memheap_init_ok(1) [of 1024 4096 200 100 "\<lambda>_. 0"] by (simp add: ex_memheap_def RT_ALIGN_DOWN_32)
  then show "mh_wf ex_memheap" by (auto simp: mh_wf_def)
  show "mh_live ex_memheap = {}" using memheap_init_ok(2) [of 1024 4096 200 100 "\<lambda>_. 0"] by (simp add: ex_memheap_def)
qed

lemma ex_memheap_alloc: "\<exists>h1. rt_memheap_alloc 0 ex_memheap 40 = Some (1056, h1)"
proof -
  have "map_option fst (rt_memheap_alloc 0 ex_memheap 40) = Some 1056" by code_simp
  then show ?thesis by auto
qed

theorem memheap_alloc_free_roundtrip_witness:
  "\<exists>h1 h2 fl'. rt_memheap_alloc 0 ex_memheap 40 = Some (1056, h1) \<and> rt_memheap_free 0 (h1\<lparr>mh_bytes := \<lambda>_. 7\<rparr>) 1056 = Some h2 \<and>
     mh_ok h2 [(4064, False)] fl'"
proof -
  obtain h1 where "rt_memheap_alloc 0 ex_memheap 40 = Some (1056, h1)" using ex_memheap_alloc by blast
  then show ?thesis using memheap_alloc_free_roundtrip [OF ex_memheap_ok(1), of 40 1056 h1 "\<lambda>_. 7"] by auto
qed

text \<open>C39: Reallocation in the memory heap keeps data, whether the block grows into the free block behind it, shrinks, or moves:
  \<open>rt_memheap_realloc\<close> of a live block either returns \<^verbatim>\<open>RT_NULL\<close> and changes nothing, or the block is replaced by one that is large
  enough, disjoint from all others, and holds the old contents up to the smaller of both sizes; no other block changes.\<close>

theorem memheap_realloc_keeps_data:
  assumes "mh_wf h" "(r, k) \<in> mh_live h" "0 < n" "n \<le> 4294967264"
  shows "\<exists>r' h'. rt_memheap_realloc (\<lambda>_. 0) h r n = Some (r', h') \<and> mh_wf h' \<and>
    (r' = 0 \<and> h' = h \<or>
     (\<exists>k'. 0 < r' \<and> n \<le> k' \<and> mh_live h' = insert (r', k') (mh_live h - {(r, k)}) \<and>
       (\<forall>(b, l) \<in> mh_live h - {(r, k)}. r' + k' \<le> b \<or> b + l \<le> r') \<and>
       (\<forall>i. 0 \<le> i \<and> i < k \<and> i < n \<longrightarrow> mh_bytes h' (r' + i) = mh_bytes h (r + i)) \<and>
       (\<forall>(b, l) \<in> mh_live h - {(r, k)}. \<forall>i. 0 \<le> i \<and> i < l \<longrightarrow> mh_bytes h' (b + i) = mh_bytes h (b + i))))"
  by (rule mh.resize_law [OF assms])

theorem memheap_realloc_keeps_data_witness:
  "\<exists>h1 k r' h'. rt_memheap_alloc 0 ex_memheap 40 = Some (1056, h1) \<and> (1056, k) \<in> mh_live h1 \<and>
     rt_memheap_realloc (\<lambda>_. 0) h1 1056 200 = Some (r', h') \<and> mh_wf h'"
proof -
  obtain h1 where h1: "rt_memheap_alloc 0 ex_memheap 40 = Some (1056, h1)" using ex_memheap_alloc by blast
  have lk: "locked ex_memheap \<or> (0::int) = 0" by simp
  obtain k where k: "(1056, k) \<in> mh_live h1" "mh_wf h1"
    using mh_alloc_live [OF ex_memheap_ok(3) lk, of 40] h1 by auto
  then show ?thesis using memheap_realloc_keeps_data [OF k(2,1), of 200] h1 by auto
qed

text \<open>C40: A request for nothing, and one within 31 bytes of 2^32 (which wraps to zero in the alignment), is served with a block of 12
  bytes. The heap loses its alignment with it: the block allocated next from an aligned pool lies at an address that is 12
  modulo 32.\<close>

theorem memheap_zero_misaligns:
  assumes s: "0 < start" "start mod 32 = 0" "256 \<le> size0" "size0 \<le> 4294967264" "start + size0 \<le> 4294967296"
      "0 < hdr" "hdr < start \<or> start + size0 \<le> hdr"
    and z: "z = 0 \<or> 4294967265 \<le> z \<and> z \<le> 4294967295" and n: "0 < n" "n + 200 \<le> size0"
  shows "\<exists>h1 r h2. rt_memheap_alloc 0 (rt_memheap_init obj hdr mem start size0) z = Some (start + 32, h1) \<and>
    mh_live h1 = {(start + 32, 12)} \<and> rt_memheap_alloc 0 h1 n = Some (r, h2) \<and> r mod 32 = 12"
proof -
  let ?h = "rt_memheap_init obj hdr mem start size0" and ?P = "RT_ALIGN_DOWN size0 RT_ALIGN_SIZE"
  have P: "size0 - 31 \<le> ?P" using RT_ALIGN_DOWN_32 [of size0] by presburger
  have ok: "mh_ok ?h [(?P - 32, False)] [start]" using memheap_init_ok [of start size0 hdr obj mem] s by auto
  have st: "start_addr ?h = start" by (simp add: rt_memheap_init_def Let_def)
  have az: "memheap_size z = 12"
  proof -
    have "u32 (z + 31) div 32 = 0"
    proof (cases "z = 0")
      case True
      then show ?thesis by (simp add: u32_def)
    next
      case False
      have "u32 (z + 31) = u32 (z + 31 - 4294967296)" using minus_mod_self2 [of "z + 31" 4294967296] by (simp add: u32_def)
      then show ?thesis using False z by (auto simp: c_store)
    qed
    then show ?thesis by (simp add: memheap_size_def Let_def RT_ALIGN_32)
  qed
  have lk: "locked h \<or> (0::int) = 0" for h by simp
  have av: "available_size ?h = ?P - 64" using ok by (simp add: mh_ok_def counted_def)
  obtain h1 fl1 where h1: "rt_memheap_alloc 0 ?h z = Some (start + 32, h1)" "mh_ok h1 [(44, True), (?P - 76, False)] fl1" "same_heap ?h h1"
    using memheap_alloc_ok [OF ok lk, of z] P s(3) by (auto simp: az av st mh_take_def Cons_eq_append_conv)
  have s1: "start_addr h1 = start" using h1(3) st by (simp add: same_heap_def)
  have l1: "mh_live h1 = {(start + 32, 12)}" using mh_live_eq [OF h1(2)] s1 by simp
  have av1: "available_size h1 = ?P - 108" using h1(2) by (simp add: mh_ok_def counted_def)
  have sz: "memheap_size n < n + 32"
  proof -
    have "RT_ALIGN n RT_ALIGN_SIZE < n + 32" using RT_ALIGN_bounds(2) [of n] n s(4) by simp
    then show ?thesis using n by (simp add: memheap_size_def Let_def)
  qed
  obtain h2 where "rt_memheap_alloc 0 h1 n = Some (start + 76, h2)"
    using memheap_alloc_ok [OF h1(2) lk, of n] P n(2) sz by (auto simp: av1 s1 Cons_eq_append_conv)
  moreover have "(start + 76) mod 32 = 12" using s(2) by presburger
  ultimately show ?thesis using h1(1) l1 by blast
qed

theorem memheap_zero_misaligns_witness:
  "\<exists>h1 r h2. rt_memheap_alloc 0 ex_memheap 4294967280 = Some (1056, h1) \<and> mh_live h1 = {(1056, 12)} \<and>
     rt_memheap_alloc 0 h1 64 = Some (r, h2) \<and> r mod 32 = 12"
  using memheap_zero_misaligns [of 1024 4096 200 4294967280 64 100 "\<lambda>_. 0"] by (simp add: ex_memheap_def)

end
