(* ===== verification/Spec2Isabelle.thy ===== *)
theory Spec2Isabelle
  imports Ringbuffer Ringblk_Props Smallmem_Client Kheap Timer Ffs Thread_Props Semaphore Mailbox Msgqueue_Props Mutex_Props Kstring
    Mempool Completion Dataqueue Thread_Exit Pdma_Isr
    Ctime_Props Clock Dfs_Props Memheap_Client
begin

text \<open>
  The kernel, the virtual file system, the calendar and the DMA driver of the RT-Thread board support package for the
  NuMaker-IoT-MA35D1.

  \<^bold>\<open>The program.\<close> The package is an RT-Thread kernel (\<^verbatim>\<open>src/rt-thread/src\<close>, \<^verbatim>\<open>src/rt-thread/include\<close>) with its components
  (\<^verbatim>\<open>src/rt-thread/components\<close>: device frameworks, file systems, network code, partly vendored) and the Nuvoton drivers of the chip. This
  development models the kernel: the scheduler and its threads, the timers, the objects by which threads communicate
  (semaphores, mutexes, events, mailboxes, message queues), memory pools, the two allocators, the memory and string functions; of the
  components, the ring buffers, the completion and the data queue of \<^verbatim>\<open>drivers/ipc\<close>, the virtual file system \<^verbatim>\<open>dfs\<close> above the drivers of
  file systems, and the calendar and clock calls of \<^verbatim>\<open>libc/compilers/common/ctime.c\<close>; and, of the drivers of the chip, the one for the
  peripheral DMA controllers (\<^verbatim>\<open>src/libraries/ma35/rtt_port/drv_pdma.c\<close>), on which the serial drivers rest. The parts of the kernel call
  each other downwards: an IPC object suspends and resumes threads,
  a suspended thread starts the timer that is part of it, the expiry of that timer makes the thread ready again, and the
  scheduler picks the next thread whenever one of them has changed the ready queues. A POSIX call on a file goes from the table of
  descriptors to the mount table, with the path normalised, and from there to the functions of a driver.

  \<^bold>\<open>Theories and code.\<close> Names of definitions are those of the code where HOL allows it; names that begin with an underscore
  lose it, and the parts of a long function have names of their own, said in the text before them.
  \<^item> \<open>Prelude\<close>: C integers, assertions, alignment macros (\<^verbatim>\<open>rtdef.h\<close>), array copies. \<open>Linked\<close>: doubly linked lists in memory. \<open>Fifo\<close>,
    \<open>Allocator\<close>, \<open>Channel\<close>: the contracts.
  \<^item> \<open>Ringbuffer\<close>: \<^verbatim>\<open>ringbuffer.c\<close>, the byte ring with two mirrored indices.
  \<^item> \<open>Slist\<close>: the single-linked lists of \<^verbatim>\<open>rtservice.h\<close>. \<open>Ringblk\<close>, \<open>Ringblk_Props\<close>: \<^verbatim>\<open>ringblk_buf.c\<close>, the ring of blocks.
  \<^item> \<open>Blocks\<close>: heaps as lists of blocks. \<open>Smallmem\<close>, \<open>Smallmem_Props\<close>, \<open>Smallmem_Client\<close>: \<^verbatim>\<open>mem.c\<close>, the small-memory allocator,
    and, in \<open>Smallmem_Frame\<close>, where its calls write: only headers and the space of the block they are about.
    \<open>Memheap\<close>, \<open>Memheap_Props\<close>, \<open>Memheap_Client\<close>: \<^verbatim>\<open>memheap.c\<close>, the memory heap with its ring of free blocks. \<open>Kheap\<close>: the system
    heap of \<^verbatim>\<open>kservice.c\<close> over the first, and the creation of ring buffers.
  \<^item> \<open>Kmemory\<close>, \<open>Kstring\<close>: the memory and string functions of \<^verbatim>\<open>kservice.c\<close>. \<open>Ffs\<close>: its two versions of \<^verbatim>\<open>__rt_ffs\<close>.
  \<^item> \<open>Timer\<close>: \<^verbatim>\<open>timer.c\<close>, hard and soft timers.
  \<^item> \<open>Rtdef\<close>: the structures of \<^verbatim>\<open>rtdef.h\<close> and the state of the kernel. \<open>Scheduler\<close>, \<open>Scheduler_Inv\<close>: \<^verbatim>\<open>scheduler.c\<close> and
    \<^verbatim>\<open>cpu.c\<close>. \<open>Thread\<close>, \<open>Thread_Props\<close>: \<^verbatim>\<open>thread.c\<close> and the tick of \<^verbatim>\<open>clock.c\<close>.
  \<^item> \<open>Ipc\<close>: the waiting lists at the start of \<^verbatim>\<open>ipc.c\<close>. \<open>Semaphore\<close>, \<open>Event\<close>, \<open>Mutex\<close>, \<open>Mutex_Inv\<close>, \<open>Mutex_Props\<close>, \<open>Mailbox\<close>,
    \<open>Msgqueue\<close>, \<open>Msgqueue_Props\<close>: the IPC objects of \<^verbatim>\<open>ipc.c\<close>.
  \<^item> \<open>Mempool\<close>: \<^verbatim>\<open>mempool.c\<close>. \<open>Completion\<close>, \<open>Dataqueue\<close>: \<^verbatim>\<open>completion.c\<close> and \<^verbatim>\<open>dataqueue.c\<close>. \<open>Thread_Exit\<close>: the exit, detaching and
    deletion of threads in \<^verbatim>\<open>thread.c\<close> and their reclamation in \<^verbatim>\<open>idle.c\<close>.
  \<^item> \<open>Errno\<close>: the error numbers. \<open>Ctime\<close>, \<open>Ctime_Props\<close>: the calendar of \<^verbatim>\<open>ctime.c\<close>. \<open>Clock\<close>: its clock, on the system tick.
  \<^item> \<open>Dfs_Path\<close>, \<open>Dfs_Path_Props\<close>: the path names of \<^verbatim>\<open>dfs.c\<close>. \<open>Dfs\<close>, \<open>Dfs_Fd_Props\<close>: its table of descriptors. \<open>Dfs_Fs\<close>: the lookup of
    \<^verbatim>\<open>dfs_fs.c\<close> and the file operations of \<^verbatim>\<open>dfs_file.c\<close>. \<open>Dfs_Mount\<close>: the types and the mount table of \<^verbatim>\<open>dfs_fs.c\<close>. \<open>Dfs_Posix\<close>: the calls
    of \<^verbatim>\<open>dfs_posix.c\<close>. \<open>Dfs_Props\<close>: what they do.
  \<^item> \<open>Bitutil\<close>: \<^verbatim>\<open>nu_bitutil.h\<close>. \<open>Pdma_Reg\<close>: the DMA registers and \<^verbatim>\<open>StdDriver/src/nu_pdma.c\<close>. \<open>Pdma\<close>, \<open>Pdma_Transfer\<close>: \<^verbatim>\<open>drv_pdma.c\<close>,
    its channels and its transfers. \<open>Pdma_Channels\<close>, \<open>Pdma_Chain\<close>, \<open>Pdma_Props\<close>, \<open>Pdma_Isr\<close>: what they do.

  \<^bold>\<open>State and steps.\<close> The state of the kernel is one record, \<^typ>\<open>kernel\<close>: the processors, the table of threads, the lists of
  threads, the timers, and a table per class of objects. A function of the code is a function on that record which
  returns an option: \<^term>\<open>None\<close> is a failed \<^verbatim>\<open>RT_ASSERT\<close>, an access through a null or dangling pointer or outside of an
  array, or (for a loop given by \<^verbatim>\<open>partial_function\<close>) not returning; error codes are results. With \<^verbatim>\<open>RT_USING_SMP\<close>, disabling interrupts
  takes the lock of all processors, so the part of a function between that and the release of the lock is one step; calls
  that keep the lock across several such sections are one step too. Interleavings of steps of many threads are step
  relations (\<open>sem_step\<close>, \<open>mutex_step\<close>, \<open>mq_step\<close>, \<open>mp_step\<close>, \<open>dq_step\<close>, \<open>heap_step\<close>, \<open>rbb_step\<close>), and the properties over them are proved by rule
  induction. A call that blocks ends with \<open>Blocked\<close> once the caller is suspended and another thread runs; what is left to do
  when it goes on is a definition of its own, named \<open>\<dots>_wake\<close>. The switch follows the suspension in the same step: the window
  between releasing the lock and \<^verbatim>\<open>rt_schedule\<close>, in which an interrupt may resume the thread already, is not modelled
  (except for the exit of a thread, where it is the subject of a theorem). The memory heap and the file system have states of their own;
  they take a lock during each call, so a call is one step there. What the code does not contain is an argument: the drivers of
  file systems (records of functions on a state of their own), the values of error numbers and flags of the C library, the success of
  allocations and of taking a lock, and, for the clock, the tick and the conversion to \<^verbatim>\<open>time_t\<close>.

  \<^bold>\<open>Invariants.\<close> \<open>sched_ok\<close> (in \<open>Scheduler_Inv\<close>) says that every list holds threads in the state that belongs to it, no thread twice,
  and that the bitmaps of the ready queues are exact; every kernel operation keeps it. Each data structure has its own invariant
  and an abstraction: \<open>rb_at\<close> and \<open>rb_list\<close> for the byte ring, \<open>rbb_ok\<close> for the ring of blocks, \<open>smem_inv\<close> and \<open>mh_ok\<close> for the chains of
  memory blocks, \<open>fdt_wf\<close> and \<open>fd_refs\<close> for the file descriptors, \<open>mp_ok\<close> for the free list of a memory pool, \<open>mb_inv\<close>, \<open>mq_inv\<close> and \<open>dq_inv\<close> for mailboxes, message queues and
  data queues, an owner and hold count per mutex.

  \<^bold>\<open>Interfaces.\<close> A byte channel (\<open>bounded_fifo\<close>), an allocator (\<open>block_source\<close>, with \<open>block_allocator\<close> and
  \<open>resizable_source\<close> extending it), a channel of items (\<open>item_channel\<close>) and, extending it, one
  with urgent messages (\<open>message_channel\<close>) are locales with the laws a client relies on; the ring buffer, both allocators, the
  data queue, the mailbox and the message queue are interpretations of them on the definitions of the code. The refinement theorems of
  the channels and the creation and destruction of the ring buffers are consequences of the laws.

  \<^bold>\<open>What is shown.\<close> Data structures: no access outside of memory, first-in first-out order, disjoint and
  aligned memory blocks, contents kept by every call, although headers and data share one memory, first fit, release as the inverse of
  allocation. Timers: deadline order across the
  wrap of the tick counter, exactly the due callbacks. Scheduler: the running thread is a most urgent one. IPC: each call on every branch;
  no token of a semaphore is lost or made, those on the way to a resumed thread counted; a mutex has one owner, and its owner inherits exactly the priority of the waiting threads;
  an event wakes exactly the threads it meets; messages are whole under any interleaving; blocks of a memory
  pool are handed out exclusively; a data queue of up to 32768 items keeps its order. The end of threads: a thread that exits is never run again; a loop that ends
  frees it if it is dynamic, and detaches it if it is static. DMA: chained descriptors, in the modes the controller obeys, transfer
  exactly the request unless it is a multiple of 65536 elements, and the interrupt handler makes exactly the callbacks due. Calendar: dates and seconds are inverse to each other. Files: paths are normalised as the fold over their
  names, the longest mount point is found, no descriptor is lost, and closing undoes opening if the driver accepts it. Optimised code (find first set, word-wise copies) equals
  its specification. Loops given by \<^verbatim>\<open>partial_function\<close> are proved to return wherever a property uses them. Where the code does not keep its
  promises, a theorem says so (the manifest of findings names it).

  \<^bold>\<open>Bounds.\<close> The target is the 32-bit Arm configuration of \<^verbatim>\<open>rtconfig.h\<close>: two processors, 32 priorities, one skip-list level for
  timers, alignment 32. Integers are \<open>int\<close> with the truncation of each store written out, bytes are words. No definition
  uses fuel.

  \<^bold>\<open>Not modelled.\<close> Object names and the registry of \<^verbatim>\<open>object.c\<close> (objects are entries of the tables), hooks, printing and the
  shell, thread stacks and the context switch itself, the spinlock of the hardware, devices. Work queues, wait queues and pipes, directory
  streams, \<^verbatim>\<open>stat\<close> and the working directory calls, and the time functions of a real-time clock are left for later. Vendored
  code (FatFs, lwIP, CMSIS), register maps and the register-level drivers of the chip are left aside: what they
  do is defined by hardware or by other projects.
\<close>

end
